(* ===== verification/Prelude.thy ===== *)
theory Prelude
  imports Complex_Main "HOL-Library.AList" "HOL-Library.Char_ord" "HOL-Library.List_Lexorder"
    "HOL-Library.Word"
begin

text \<open>
  What every component shares: the Go standard-library string operations the source calls
  (package strings and strconv, on byte strings), Go maps as association lists with one entry
  per key, Go's truncated integer division, the label-boundary suffix walk over domain names,
  a generic "scan for the best candidate" fold, and the locale of systems whose operations all
  preserve an invariant. Strings are byte lists; case folding and white space are the ASCII
  part of Go's (the program handles DNS names and configuration text).
\<close>

named_theorems go_str \<open>unfolding rules for the Go string operations\<close>
named_theorems gomap_simps \<open>lookup, update and deletion of Go maps\<close>

type_synonym u8 = "8 word"
type_synonym u16 = "16 word"
type_synonym u32 = "32 word"
type_synonym u64 = "64 word"

section \<open>Package strings\<close>

definition has_prefix :: "string \<Rightarrow> string \<Rightarrow> bool" where
  "has_prefix s p \<longleftrightarrow> take (length p) s = p"

definition has_suffix :: "string \<Rightarrow> string \<Rightarrow> bool" where
  "has_suffix s p \<longleftrightarrow> length p \<le> length s \<and> drop (length s - length p) s = p"

definition trim_prefix :: "string \<Rightarrow> string \<Rightarrow> string" where
  "trim_prefix s p = (if has_prefix s p then drop (length p) s else s)"

definition trim_suffix :: "string \<Rightarrow> string \<Rightarrow> string" where
  "trim_suffix s p = (if has_suffix s p then take (length s - length p) s else s)"

definition lower_char :: "char \<Rightarrow> char" where
  "lower_char c = (if 65 \<le> (of_char c :: nat) \<and> (of_char c :: nat) \<le> 90
                   then char_of ((of_char c :: nat) + 32) else c)"

definition upper_char :: "char \<Rightarrow> char" where
  "upper_char c = (if 97 \<le> (of_char c :: nat) \<and> (of_char c :: nat) \<le> 122
                   then char_of ((of_char c :: nat) - 32) else c)"

definition to_lower :: "string \<Rightarrow> string" where
  "to_lower s = List.map lower_char s"

definition to_upper :: "string \<Rightarrow> string" where
  "to_upper s = List.map upper_char s"

definition equal_fold :: "string \<Rightarrow> string \<Rightarrow> bool" where
  "equal_fold s t \<longleftrightarrow> to_lower s = to_lower t"

definition is_space :: "char \<Rightarrow> bool" where
  "is_space c \<longleftrightarrow> (let n = (of_char c :: nat) in n = 32 \<or> (9 \<le> n \<and> n \<le> 13))"

definition trim_left :: "(char \<Rightarrow> bool) \<Rightarrow> string \<Rightarrow> string" where
  "trim_left p s = dropWhile p s"

definition trim_right :: "(char \<Rightarrow> bool) \<Rightarrow> string \<Rightarrow> string" where
  "trim_right p s = rev (dropWhile p (rev s))"

definition trim_space :: "string \<Rightarrow> string" where
  "trim_space s = trim_right is_space (trim_left is_space s)"

text \<open>strings.Split on a one-byte separator: never empty.\<close>

fun split_on :: "char \<Rightarrow> string \<Rightarrow> string list" where
  "split_on c [] = [[]]"
| "split_on c (x # xs) =
     (if x = c then [] # split_on c xs
      else (case split_on c xs of [] \<Rightarrow> [[x]] | w # ws \<Rightarrow> (x # w) # ws))"

fun join_with :: "string \<Rightarrow> string list \<Rightarrow> string" where
  "join_with sep [] = []"
| "join_with sep [x] = x"
| "join_with sep (x # y # xs) = x @ sep @ join_with sep (y # xs)"

text \<open>strings.FieldsFunc: the maximal runs of bytes that fail the predicate.\<close>

definition fields_func :: "(char \<Rightarrow> bool) \<Rightarrow> string \<Rightarrow> string list" where
  "fields_func p s =
     filter (\<lambda>w. w \<noteq> []) (split_on (CHR 0x00) (List.map (\<lambda>c. if p c then CHR 0x00 else c) s))"

definition go_fields :: "string \<Rightarrow> string list" where
  "go_fields s = fields_func is_space s"

text \<open>strings.Cut on a one-byte separator.\<close>

fun cut :: "char \<Rightarrow> string \<Rightarrow> (string \<times> string) option" where
  "cut c [] = None"
| "cut c (x # xs) =
     (if x = c then Some ([], xs)
      else (case cut c xs of None \<Rightarrow> None | Some (a, b) \<Rightarrow> Some (x # a, b)))"

fun contains_str :: "string \<Rightarrow> string \<Rightarrow> bool" where
  "contains_str [] p \<longleftrightarrow> p = []"
| "contains_str (x # xs) p \<longleftrightarrow> has_prefix (x # xs) p \<or> contains_str xs p"

definition contains_any :: "string \<Rightarrow> string \<Rightarrow> bool" where
  "contains_any s cs \<longleftrightarrow> list_ex (\<lambda>c. c \<in> set cs) s"

declare has_prefix_def [go_str] has_suffix_def [go_str] trim_prefix_def [go_str]
  trim_suffix_def [go_str] to_lower_def [go_str] to_upper_def [go_str]

lemma has_prefix_iff: "has_prefix s p \<longleftrightarrow> (\<exists>t. s = p @ t)"
  by (auto simp: has_prefix_def) (metis append_take_drop_id)

lemma has_suffix_iff: "has_suffix s p \<longleftrightarrow> (\<exists>t. s = t @ p)"
  by (auto simp: has_suffix_def) (metis append_take_drop_id)

lemma has_prefix_append [simp]: "has_prefix (p @ t) p"
  by (auto simp: has_prefix_iff)

lemma has_suffix_append [simp]: "has_suffix (t @ p) p"
  by (auto simp: has_suffix_iff)

lemma trim_prefix_append [simp]: "trim_prefix (p @ t) p = t"
  by (simp add: trim_prefix_def)

lemma trim_prefix_id: "\<not> has_prefix s p \<Longrightarrow> trim_prefix s p = s"
  by (simp add: trim_prefix_def)

lemma lower_char_idem [simp]: "lower_char (lower_char c) = lower_char c"
  by (auto simp: lower_char_def)

lemma to_lower_idem [simp]: "to_lower (to_lower s) = to_lower s"
  by (simp add: to_lower_def)

lemma to_lower_append [simp]: "to_lower (s @ t) = to_lower s @ to_lower t"
  by (simp add: to_lower_def)

lemma length_to_lower [simp]: "length (to_lower s) = length s"
  by (simp add: to_lower_def)

lemma dropWhile_idem [simp]: "dropWhile P (dropWhile P s) = dropWhile P s"
  by (induction s) auto

lemma trim_right_cons: "s \<noteq> [] \<Longrightarrow> \<not> P (hd s) \<Longrightarrow> trim_right P s \<noteq> [] \<and> hd (trim_right P s) = hd s"
proof -
  assume s: "s \<noteq> []" "\<not> P (hd s)"
  obtain x xs where xs: "s = x # xs" using s by (cases s) auto
  have "dropWhile P (rev xs @ [x]) = dropWhile P (rev xs) @ [x]"
    using s xs by (induction xs rule: rev_induct) (auto simp: dropWhile_append3)
  then show ?thesis by (simp add: trim_right_def xs)
qed

lemma trim_space_idem [simp]: "trim_space (trim_space s) = trim_space s"
proof -
  define t where "t = trim_left is_space s"
  have "trim_left is_space (trim_right is_space t) = trim_right is_space t"
  proof (cases "t = []")
    case False
    then have "\<not> is_space (hd t)" by (simp add: t_def trim_left_def hd_dropWhile)
    from trim_right_cons [where P = is_space, OF False this] have "\<not> is_space (hd (trim_right is_space t))"
      and "trim_right is_space t \<noteq> []" using \<open>\<not> is_space (hd t)\<close> by auto
    then show ?thesis by (cases "trim_right is_space t") (auto simp: trim_left_def)
  qed (simp add: trim_left_def trim_right_def)
  moreover have "trim_right is_space (trim_right is_space t) = trim_right is_space t"
    by (simp add: trim_right_def)
  ultimately show ?thesis by (simp add: trim_space_def t_def)
qed

lemma space_lower: "is_space (lower_char c) = is_space c"
  by (auto simp: is_space_def lower_char_def Let_def)

lemma dropWhile_lower: "dropWhile is_space (List.map lower_char s) = List.map lower_char (dropWhile is_space s)"
  by (induction s) (simp_all add: space_lower)

text \<open>Folding to lower case and trimming commute.\<close>

lemma trim_space_to_lower: "trim_space (to_lower s) = to_lower (trim_space s)"
  by (simp add: trim_space_def trim_left_def trim_right_def to_lower_def dropWhile_lower rev_map)

lemma split_on_nonempty [simp]: "split_on c s \<noteq> []"
  by (cases s) (auto split: list.splits)

lemma join_split: "join_with [c] (split_on c s) = s"
proof (induction s)
  case (Cons x xs)
  then show ?case
    by (cases "split_on c xs" rule: list.exhaust; cases "tl (split_on c xs)") auto
qed simp

lemma split_on_no_sep: "w \<in> set (split_on c s) \<Longrightarrow> c \<notin> set w"
  by (induction s arbitrary: w) (auto split: if_splits list.splits)

lemma cut_Some: "cut c s = Some (a, b) \<Longrightarrow> s = a @ c # b \<and> c \<notin> set a"
  by (induction s arbitrary: a b) (auto split: if_splits option.splits)

lemma cut_None: "cut c s = None \<longleftrightarrow> c \<notin> set s"
  by (induction s) (auto split: option.splits)

lemma cut_append: "c \<notin> set a \<Longrightarrow> cut c (a @ c # b) = Some (a, b)"
  by (induction a) auto

section \<open>Package strconv\<close>

definition is_digit :: "char \<Rightarrow> bool" where
  "is_digit c \<longleftrightarrow> 48 \<le> (of_char c :: nat) \<and> (of_char c :: nat) \<le> 57"

definition digit_val :: "char \<Rightarrow> nat" where
  "digit_val c = (of_char c :: nat) - 48"

definition dec_val :: "string \<Rightarrow> nat" where
  "dec_val s = foldl (\<lambda>v c. v * 10 + digit_val c) 0 s"

definition all_digits :: "string \<Rightarrow> bool" where
  "all_digits s \<longleftrightarrow> s \<noteq> [] \<and> list_all is_digit s"

text \<open>strconv.Atoi: an optional sign, decimal digits, a value that fits a 64-bit int.\<close>

definition atoi :: "string \<Rightarrow> int option" where
  "atoi s =
     (let neg = has_prefix s ''-'';
          body = (if neg \<or> has_prefix s ''+'' then tl s else s)
      in if \<not> all_digits body then None
         else let v = (if neg then - int (dec_val body) else int (dec_val body))
              in if - (2 ^ 63) \<le> v \<and> v < 2 ^ 63 then Some v else None)"

text \<open>Decimal rendering of a number, as fmt's %d and strconv.Itoa print it.\<close>

fun show_nat :: "nat \<Rightarrow> string" where
  "show_nat n = (if n < 10 then [char_of (n + 48)]
                 else show_nat (n div 10) @ [char_of (n mod 10 + 48)])"

declare show_nat.simps [simp del]

lemma dec_val_snoc [simp]: "dec_val (s @ [c]) = dec_val s * 10 + digit_val c"
  by (simp add: dec_val_def)

lemma digit_of_small: "n < 10 \<Longrightarrow> is_digit (char_of (n + 48)) \<and> digit_val (char_of (n + 48)) = n"
  by (simp add: is_digit_def digit_val_def)

lemma show_nat_digits: "all_digits (show_nat n)"
proof (induction n rule: show_nat.induct)
  case (1 n)
  then show ?case
    by (cases "n < 10") (simp_all add: show_nat.simps [of n] all_digits_def digit_of_small)
qed

lemma dec_val_show_nat [simp]: "dec_val (show_nat n) = n"
proof (induction n rule: show_nat.induct)
  case (1 n)
  have "dec_val [char_of (n + 48)] = n" if "n < 10"
    using that by (simp add: dec_val_def digit_of_small)
  with 1 show ?case
    by (cases "n < 10") (simp_all add: show_nat.simps [of n] digit_of_small)
qed

lemma show_nat_hd: "0 < n \<Longrightarrow> hd (show_nat n) \<noteq> CHR ''0''"
proof (induction n rule: show_nat.induct)
  case (1 n)
  have ne: "show_nat m \<noteq> []" for m using show_nat_digits [of m] by (simp add: all_digits_def)
  have zero: "char_of (n + 48) \<noteq> CHR ''0''" if "n < 10"
  proof
    assume "char_of (n + 48) = CHR ''0''"
    then have "digit_val (char_of (n + 48)) = digit_val (CHR ''0'')" by simp
    with that "1.prems" show False by (simp add: digit_of_small) (simp add: digit_val_def)
  qed
  show ?case
  proof (cases "n < 10")
    case False
    with "1.IH" have "hd (show_nat (n div 10)) \<noteq> CHR ''0''" by simp
    with False ne show ?thesis by (simp add: show_nat.simps [of n])
  qed (simp add: show_nat.simps [of n] zero)
qed

lemma show_nat_0: "show_nat 0 = ''0''"
  by (simp add: show_nat.simps) code_simp

lemma split_no_sep: "c \<notin> set w \<Longrightarrow> split_on c w = [w]"
  by (induction w) auto

lemma split_append: "c \<notin> set w \<Longrightarrow> split_on c (w @ c # s) = w # split_on c s"
  by (induction w) auto

lemma split_join: "ws \<noteq> [] \<Longrightarrow> \<forall>w \<in> set ws. c \<notin> set w \<Longrightarrow> split_on c (join_with [c] ws) = ws"
proof (induction ws rule: induct_list012)
  case (3 x y zs)
  then show ?case by (simp add: split_append)
qed (simp_all add: split_no_sep)

lemma show_nat_chars: "c \<in> set (show_nat n) \<Longrightarrow> is_digit c"
  using show_nat_digits [of n] by (simp add: all_digits_def list_all_iff)

lemma show_nat_no_dot [simp]: "CHR ''.'' \<notin> set (show_nat n)"
  using show_nat_chars [of "CHR ''.''" n] by (auto simp: is_digit_def)

lemma lower_digit: "is_digit c \<Longrightarrow> lower_char c = c"
  by (auto simp: is_digit_def lower_char_def)

lemma to_lower_digits: "\<forall>c \<in> set s. is_digit c \<or> c = CHR ''.'' \<Longrightarrow> to_lower s = s"
  unfolding to_lower_def by (induction s) (auto simp: lower_digit, simp_all add: lower_char_def)

lemma set_join: "set (join_with s ws) \<subseteq> set s \<union> (\<Union>w \<in> set ws. set w)"
  by (induction ws rule: induct_list012) auto

lemma trim_suffix_append [simp]: "trim_suffix (s @ t) t = s"
  by (simp add: trim_suffix_def)

section \<open>Go maps\<close>

text \<open>
  A Go map is an association list that holds each key once. Ranging over a Go map visits the
  entries in an unspecified order: the models range over the list, and a property that must not
  depend on the order is stated for every list.
\<close>

type_synonym ('k, 'v) gomap = "('k \<times> 'v) list"

abbreviation gm_get :: "('k, 'v) gomap \<Rightarrow> 'k \<Rightarrow> 'v option" where
  "gm_get m k \<equiv> map_of m k"

abbreviation gm_set :: "'k \<Rightarrow> 'v \<Rightarrow> ('k, 'v) gomap \<Rightarrow> ('k, 'v) gomap" where
  "gm_set k v m \<equiv> AList.update k v m"

abbreviation gm_del :: "'k \<Rightarrow> ('k, 'v) gomap \<Rightarrow> ('k, 'v) gomap" where
  "gm_del k m \<equiv> AList.delete k m"

abbreviation gm_ok :: "('k, 'v) gomap \<Rightarrow> bool" where
  "gm_ok m \<equiv> distinct (List.map fst m)"

abbreviation gm_keys :: "('k, 'v) gomap \<Rightarrow> 'k list" where
  "gm_keys m \<equiv> List.map fst m"

lemma gm_get_set [gomap_simps]: "gm_get (gm_set k v m) k' = (if k' = k then Some v else gm_get m k')"
  by (simp add: update_conv)

lemma gm_get_del [gomap_simps]: "gm_get (gm_del k m) k' = (if k' = k then None else gm_get m k')"
  by (simp add: delete_conv)

lemma gm_ok_set [simp, intro]: "gm_ok m \<Longrightarrow> gm_ok (gm_set k v m)"
  by (rule distinct_update)

lemma gm_ok_del [simp, intro]: "gm_ok m \<Longrightarrow> gm_ok (gm_del k m)"
  by (rule distinct_delete)

lemma gm_keys_set: "set (gm_keys (gm_set k v m)) = insert k (set (gm_keys m))"
  by (induction m) auto

lemma gm_keys_del: "set (gm_keys (gm_del k m)) = set (gm_keys m) - {k}"
  by (induction m) auto

lemma gm_len_set:
  "length (gm_set k v m) = (if k \<in> set (gm_keys m) then length m else Suc (length m))"
  by (induction m) auto

lemma gm_del_notin: "k \<notin> set (gm_keys m) \<Longrightarrow> gm_del k m = m"
  by (induction m) auto

lemma gm_len_del:
  "gm_ok m \<Longrightarrow> length (gm_del k m) = (if k \<in> set (gm_keys m) then length m - 1 else length m)"
proof (induction m)
  case (Cons p m)
  then show ?case
    by (cases p) (auto simp: gm_del_notin dest: length_pos_if_in_set)
qed simp

lemma gm_len_del_le: "length (gm_del k m) \<le> length m"
  by (rule length_delete_le)

lemma gm_get_None: "gm_get m k = None \<longleftrightarrow> k \<notin> set (gm_keys m)"
  by (simp add: map_of_eq_None_iff)

section \<open>Integer arithmetic of Go\<close>

text \<open>Go's integer division and the float-to-int conversion truncate towards zero.\<close>

definition trunc_div :: "int \<Rightarrow> int \<Rightarrow> int" where
  "trunc_div n d = (if (0 \<le> n) = (0 \<le> d) then \<bar>n\<bar> div \<bar>d\<bar> else - (\<bar>n\<bar> div \<bar>d\<bar>))"

lemma trunc_div_nonneg: "0 \<le> n \<Longrightarrow> 0 < d \<Longrightarrow> trunc_div n d = n div d"
  by (simp add: trunc_div_def)

text \<open>Times and durations are nanoseconds, as in package time.\<close>

definition second :: int where
  "second = 1000000000"

definition millisecond :: int where
  "millisecond = 1000000"

definition minute :: int where
  "minute = 60 * second"

section \<open>The label-boundary suffix walk\<close>

text \<open>
  Three components look a domain up by walking to the parent name: cut everything up to the
  first dot and try again. \<open>parents d\<close> is the list of names the walk visits.
\<close>

function parents :: "string \<Rightarrow> string list" where
  "parents d = d # (case cut (CHR ''.'') d of None \<Rightarrow> [] | Some (_, rest) \<Rightarrow> parents rest)"
  by pat_completeness auto
termination
  by (relation "measure length") (auto dest!: cut_Some)

declare parents.simps [simp del]

text \<open>\<open>covers p d\<close>: the name d is p itself or lies below it, at a label boundary.\<close>

definition covers :: "string \<Rightarrow> string \<Rightarrow> bool" where
  "covers p d \<longleftrightarrow> d = p \<or> has_suffix d (CHR ''.'' # p)"

lemma covers_refl [simp]: "covers p p"
  by (simp add: covers_def)

lemma covers_cut:
  "cut (CHR ''.'') d = Some (a, rest) \<Longrightarrow> covers p d \<longleftrightarrow> p = d \<or> covers p rest"
proof -
  assume "cut (CHR ''.'') d = Some (a, rest)"
  then have d: "d = a @ CHR ''.'' # rest" and a: "CHR ''.'' \<notin> set a"
    by (auto dest: cut_Some)
  have "has_suffix d (CHR ''.'' # p) \<longleftrightarrow> p = rest \<or> has_suffix rest (CHR ''.'' # p)"
  proof
    assume "has_suffix d (CHR ''.'' # p)"
    then obtain t where "a @ CHR ''.'' # rest = t @ CHR ''.'' # p"
      by (auto simp: d has_suffix_iff)
    with a show "p = rest \<or> has_suffix rest (CHR ''.'' # p)"
      by (auto simp: append_eq_append_conv2 Cons_eq_append_conv append_eq_Cons_conv has_suffix_iff)
  next
    assume "p = rest \<or> has_suffix rest (CHR ''.'' # p)"
    then show "has_suffix d (CHR ''.'' # p)"
      by (auto simp: d has_suffix_iff intro: exI [of _ "a @ CHR ''.'' # _"])
  qed
  then show ?thesis
    by (auto simp: covers_def)
qed

lemma covers_no_dot: "cut (CHR ''.'') d = None \<Longrightarrow> covers p d \<longleftrightarrow> p = d"
  by (auto simp: covers_def cut_None has_suffix_iff)

lemma set_parents: "p \<in> set (parents d) \<longleftrightarrow> covers p d"
proof (induction d rule: parents.induct)
  case (1 d)
  show ?case
  proof (cases "cut (CHR ''.'') d")
    case None
    then show ?thesis
      by (auto simp: parents.simps [of d] covers_no_dot)
  next
    case (Some ar)
    obtain a rest where ar: "ar = (a, rest)" by (cases ar)
    with Some "1" show ?thesis
      by (auto simp: parents.simps [of d] covers_cut)
  qed
qed

lemma length_covers: "covers p d \<Longrightarrow> length p \<le> length d"
  by (auto simp: covers_def has_suffix_iff)

text \<open>Two names that cover the same name are comparable, and the same length makes them equal.\<close>

lemma covers_same_length: "covers p d \<Longrightarrow> covers q d \<Longrightarrow> length p = length q \<Longrightarrow> p = q"
  by (auto simp: covers_def has_suffix_iff append_eq_append_conv)

lemma covers_trans: "covers p q \<Longrightarrow> covers q d \<Longrightarrow> covers p d"
  by (auto simp: covers_def has_suffix_iff)

section \<open>Scanning for the best candidate\<close>

text \<open>
  The code's selection loops keep the best candidate seen so far and replace it only by a
  strictly better one, so that the first of several equal candidates wins.
\<close>

definition scan_step :: "('a \<Rightarrow> 'k::linorder) \<Rightarrow> 'a option \<Rightarrow> 'a \<Rightarrow> 'a option" where
  "scan_step key acc x =
     (case acc of None \<Rightarrow> Some x | Some y \<Rightarrow> if key x < key y then Some x else Some y)"

definition scan_min :: "('a \<Rightarrow> 'k::linorder) \<Rightarrow> 'a option \<Rightarrow> 'a list \<Rightarrow> 'a option" where
  "scan_min key acc xs = foldl (scan_step key) acc xs"

lemma scan_min_simps [simp]:
  "scan_min key acc [] = acc"
  "scan_min key acc (x # xs) = scan_min key (scan_step key acc x) xs"
  "scan_min key acc (xs @ ys) = scan_min key (scan_min key acc xs) ys"
  by (simp_all add: scan_min_def)

lemma scan_min_None: "scan_min key acc xs = None \<longleftrightarrow> acc = None \<and> xs = []"
  by (induction xs arbitrary: acc) (auto simp: scan_step_def split: option.splits)

lemma scan_min_mem: "scan_min key acc xs = Some y \<Longrightarrow> acc = Some y \<or> y \<in> set xs"
proof (induction xs arbitrary: acc)
  case (Cons x xs)
  from Cons.prems have "scan_min key (scan_step key acc x) xs = Some y" by simp
  then have "scan_step key acc x = Some y \<or> y \<in> set xs" by (rule Cons.IH)
  then show ?case by (auto simp: scan_step_def split: option.splits if_splits)
qed simp

lemma scan_min_le_acc: "scan_min key (Some a) xs = Some y \<Longrightarrow> key y \<le> key a"
proof (induction xs arbitrary: a)
  case (Cons x xs)
  show ?case
  proof (cases "key x < key a")
    case True
    with Cons.prems have "key y \<le> key x" by (auto simp: scan_step_def intro: Cons.IH)
    with True show ?thesis by simp
  next
    case False
    with Cons.prems show ?thesis by (auto simp: scan_step_def intro: Cons.IH)
  qed
qed simp

lemma scan_min_le: "scan_min key acc xs = Some y \<Longrightarrow> x \<in> set xs \<Longrightarrow> key y \<le> key x"
proof (induction xs arbitrary: acc)
  case (Cons z zs)
  show ?case
  proof (cases "x = z")
    case True
    have "\<exists>b. scan_step key acc z = Some b \<and> key b \<le> key z"
      by (cases acc) (auto simp: scan_step_def not_less)
    then obtain b where b: "scan_step key acc z = Some b" and "key b \<le> key z" by blast
    moreover from Cons.prems(1) b have "key y \<le> key b"
      by (auto intro: scan_min_le_acc)
    ultimately show ?thesis using True by simp
  qed (use Cons in auto)
qed simp

text \<open>The candidates that survive a scan do not depend on the order when keys are distinct.\<close>

lemma scan_min_unique:
  assumes "scan_min key None xs = Some y" and "scan_min key None ys = Some z"
    and "set xs = set ys" and "inj_on key (set xs)"
  shows "y = z"
proof -
  from assms have y: "y \<in> set xs" and z: "z \<in> set xs"
    by (auto dest: scan_min_mem)
  from assms(1) z have "key y \<le> key z" by (rule scan_min_le)
  moreover from assms(2,3) y have "key z \<le> key y" by (auto intro: scan_min_le)
  ultimately have "key y = key z" by simp
  with y z show ?thesis
    using assms(4) by (auto dest: inj_onD)
qed

section \<open>Systems of operations that preserve an invariant\<close>

text \<open>
  Every stateful component is a step function over an operation type. The contract "each
  operation keeps the invariant" is a locale; its clients are the facts about whole runs.
\<close>

locale invariant_system =
  fixes apply_op :: "'op \<Rightarrow> 'st \<Rightarrow> 'st"
    and inv :: "'st \<Rightarrow> bool"
  assumes step_keeps: "inv s \<Longrightarrow> inv (apply_op x s)"
begin

lemma run_keeps: "inv s \<Longrightarrow> inv (fold apply_op ops s)"
  by (induction ops arbitrary: s) (auto intro: step_keeps)

lemma run_prefix_keeps: "inv s \<Longrightarrow> inv (fold apply_op (take n ops) s)"
  by (rule run_keeps)

end


section \<open>Stores that persist what they publish\<close>

text \<open>
  Several components keep a list in memory and the same list in a file, and apply one change at a
  time; a write can fail. The contract: a successful change leaves file and memory equal, a failed
  one changes neither, and what a change does depends on the memory only.
\<close>

locale durable_store =
  fixes mem :: "'st \<Rightarrow> 'v"
    and disk :: "'st \<Rightarrow> 'v"
    and change :: "'op \<Rightarrow> bool \<Rightarrow> 'st \<Rightarrow> 'st"
  assumes written: "disk s = mem s \<Longrightarrow> disk (change x True s) = mem (change x True s)"
    and failed: "disk s = mem s \<Longrightarrow> mem (change x False s) = mem s \<and> disk (change x False s) = disk s"
    and local_change: "mem s = mem t \<Longrightarrow> mem (change x True s) = mem (change x True t)"
begin

text \<open>After any run, with any writes failing, a restart reads back what was in memory.\<close>

lemma run_durable: "disk s = mem s \<Longrightarrow> disk (fold (\<lambda>(x, ok). change x ok) xs s) = mem (fold (\<lambda>(x, ok). change x ok) xs s)"
proof (induction xs arbitrary: s)
  case (Cons xo xs)
  obtain x ok where "xo = (x, ok)" by (cases xo)
  with Cons show ?case by (cases ok) (simp_all add: written failed)
qed simp

lemma run_local: "mem s = mem t \<Longrightarrow> list_all snd xs \<Longrightarrow>
    mem (fold (\<lambda>(x, ok). change x ok) xs s) = mem (fold (\<lambda>(x, ok). change x ok) xs t)"
proof (induction xs arbitrary: s t)
  case (Cons xo xs)
  obtain x where xo: "xo = (x, True)" using Cons.prems(2) by (cases xo) auto
  have "mem (change x True s) = mem (change x True t)"
    using Cons.prems(1) by (rule local_change)
  from Cons.IH [OF this] Cons.prems(2) show ?case by (simp add: xo)
qed simp

text \<open>Failed changes leave no trace: the memory is what the successful ones alone produce.\<close>

lemma failures_invisible: "disk s = mem s \<Longrightarrow>
    mem (fold (\<lambda>(x, ok). change x ok) xs s) = mem (fold (\<lambda>(x, ok). change x ok) (filter snd xs) s)"
proof (induction xs arbitrary: s)
  case (Cons xo xs)
  obtain x ok where xo: "xo = (x, ok)" by (cases xo)
  show ?case
  proof (cases ok)
    case True
    with Cons xo show ?thesis by (simp add: written)
  next
    case False
    note f = failed [OF Cons.prems, of x]
    have "mem (fold (\<lambda>(x, ok). change x ok) xs (change x False s)) =
          mem (fold (\<lambda>(x, ok). change x ok) (filter snd xs) (change x False s))"
      using f Cons.prems by (intro Cons.IH) simp
    also have "\<dots> = mem (fold (\<lambda>(x, ok). change x ok) (filter snd xs) s)"
      using f by (intro run_local) (auto simp: list_all_iff)
    finally show ?thesis using xo False by simp
  qed
qed simp

end

end
