(* ===== verification/Net_Addr.thy ===== *)
theory Net_Addr
  imports Prelude
begin

text \<open>
  Addresses and networks: the parts of Go's net and net/netip packages that the source uses
  (ParseIP, ParseAddr, ParseCIDR, ParsePrefix, Contains, Masked, String, the address classes),
  with the access-control helpers of dnsserver/acl.go and the reverse-name helpers of
  dnsserver/ptr.go. A net.IP is its 16-byte form, a 128-bit word; an IPv4 address is the
  word 0:0:0:0:0:ffff:a.b.c.d, which is how To4 recognises it.
\<close>

unbundle bit_operations_syntax

type_synonym ip = "128 word"

section \<open>Addresses\<close>

definition v4_in_v6 :: "u32 \<Rightarrow> ip" where
  "v4_in_v6 a = push_bit 32 (mask 16) OR ucast a"

definition to4 :: "ip \<Rightarrow> u32 option" where
  "to4 w = (if drop_bit 32 w = mask 16 then Some (ucast w) else None)"

text \<open>The bytes of an IPv4 address, most significant first.\<close>

definition v4_byte :: "u32 \<Rightarrow> nat \<Rightarrow> nat" where
  "v4_byte a i = unat (take_bit 8 (drop_bit (8 * (3 - i)) a))"

definition v4_of_bytes :: "nat list \<Rightarrow> u32" where
  "v4_of_bytes bs = foldl (\<lambda>a b. push_bit 8 a OR of_nat b) 0 bs"

subsection \<open>Parsing\<close>

definition octet :: "string \<Rightarrow> nat option" where
  "octet s = (if all_digits s \<and> (length s = 1 \<or> hd s \<noteq> CHR ''0'') \<and> dec_val s \<le> 255
              then Some (dec_val s) else None)"

definition parse_v4 :: "string \<Rightarrow> u32 option" where
  "parse_v4 s =
     (case List.map octet (split_on (CHR ''.'') s) of
        [Some a, Some b, Some c, Some d] \<Rightarrow> Some (v4_of_bytes [a, b, c, d])
      | _ \<Rightarrow> None)"

definition hex_digit :: "char \<Rightarrow> nat option" where
  "hex_digit c =
     (let n = (of_char c :: nat)
      in if 48 \<le> n \<and> n \<le> 57 then Some (n - 48)
         else if 97 \<le> n \<and> n \<le> 102 then Some (n - 87)
         else if 65 \<le> n \<and> n \<le> 70 then Some (n - 55) else None)"

definition is_hex :: "char \<Rightarrow> bool" where
  "is_hex c \<longleftrightarrow> hex_digit c \<noteq> None"

definition hex_val :: "string \<Rightarrow> nat" where
  "hex_val s = foldl (\<lambda>v c. v * 16 + (case hex_digit c of Some d \<Rightarrow> d | None \<Rightarrow> 0)) 0 s"

text \<open>
  The group loop of netip's IPv6 parser: at most eight groups; the state is the groups read, the
  position of the ellipsis and the rest of the string.
\<close>

fun v6_loop :: "nat \<Rightarrow> nat list \<Rightarrow> nat option \<Rightarrow> string \<Rightarrow> (nat list \<times> nat option \<times> string) option" where
  "v6_loop 0 gs e s = Some (gs, e, s)"
| "v6_loop (Suc n) gs e s =
     (let ds = takeWhile is_hex s; rest = dropWhile is_hex s
      in if ds = [] \<or> 4 < length ds then None
         else if rest \<noteq> [] \<and> hd rest = CHR ''.'' then
           (if (e = None \<and> length gs \<noteq> 6) \<or> 6 < length gs then None
            else case parse_v4 s of
                   None \<Rightarrow> None
                 | Some a \<Rightarrow> Some (gs @ [unat (drop_bit 16 a), unat (take_bit 16 a)], e, []))
         else
           (let gs' = gs @ [hex_val ds]
            in case rest of
                 [] \<Rightarrow> Some (gs', e, [])
               | c # rest' \<Rightarrow>
                   (if c \<noteq> CHR '':'' \<or> rest' = [] then None
                    else if hd rest' = CHR '':'' then
                      (if e \<noteq> None then None
                       else if tl rest' = [] then Some (gs', Some (length gs'), [])
                       else v6_loop n gs' (Some (length gs')) (tl rest'))
                    else v6_loop n gs' e rest')))"

definition v6_of_groups :: "nat list \<Rightarrow> ip" where
  "v6_of_groups gs = foldl (\<lambda>a g. push_bit 16 a OR of_nat g) 0 gs"

definition v6_finish :: "nat list \<times> nat option \<times> string \<Rightarrow> ip option" where
  "v6_finish r =
     (case r of (gs, e, s) \<Rightarrow>
        if s \<noteq> [] then None
        else if length gs < 8 then
          (case e of None \<Rightarrow> None
           | Some k \<Rightarrow> Some (v6_of_groups (take k gs @ replicate (8 - length gs) 0 @ drop k gs)))
        else if e \<noteq> None then None else Some (v6_of_groups gs))"

definition parse_v6 :: "string \<Rightarrow> ip option" where
  "parse_v6 s =
     (if has_prefix s ''::'' then
        (if length s = 2 then Some 0
         else Option.bind (v6_loop 8 [] (Some 0) (drop 2 s)) v6_finish)
      else Option.bind (v6_loop 8 [] None s) v6_finish)"

text \<open>A netip.Addr: an IPv4 address, or an IPv6 address with its zone.\<close>

datatype addr = A4 u32 | A6 ip string

definition parse_addr :: "string \<Rightarrow> addr option" where
  "parse_addr s =
     (case filter (\<lambda>c. c = CHR ''.'' \<or> c = CHR '':'' \<or> c = CHR ''%'') s of
        [] \<Rightarrow> None
      | c # _ \<Rightarrow>
          if c = CHR ''.'' then map_option A4 (parse_v4 s)
          else if c = CHR '':'' then
            (case cut (CHR ''%'') s of
               None \<Rightarrow> map_option (\<lambda>w. A6 w []) (parse_v6 s)
             | Some (a, z) \<Rightarrow> if z = [] then None else map_option (\<lambda>w. A6 w z) (parse_v6 a))
          else None)"

definition unmap :: "addr \<Rightarrow> addr" where
  "unmap a = (case a of A4 x \<Rightarrow> A4 x
              | A6 w z \<Rightarrow> (case to4 w of Some x \<Rightarrow> A4 x | None \<Rightarrow> A6 w z))"

definition parse_ip :: "string \<Rightarrow> ip option" where
  "parse_ip s = (case parse_addr s of
       Some (A4 a) \<Rightarrow> Some (v4_in_v6 a)
     | Some (A6 w z) \<Rightarrow> if z = [] then Some w else None
     | None \<Rightarrow> None)"

subsection \<open>Printing\<close>

definition hex_char :: "nat \<Rightarrow> char" where
  "hex_char n = (if n < 10 then char_of (n + 48) else char_of (n + 87))"

fun show_hex :: "nat \<Rightarrow> string" where
  "show_hex n = (if n < 16 then [hex_char n] else show_hex (n div 16) @ [hex_char (n mod 16)])"

declare show_hex.simps [simp del]

definition v4_string :: "u32 \<Rightarrow> string" where
  "v4_string a = join_with ''.'' (List.map (\<lambda>i. show_nat (v4_byte a i)) [0, 1, 2, 3])"

definition v6_groups :: "ip \<Rightarrow> nat list" where
  "v6_groups w = List.map (\<lambda>i. unat (take_bit 16 (drop_bit (16 * (7 - i)) w))) [0..<8]"

definition zero_run :: "nat list \<Rightarrow> nat \<Rightarrow> nat" where
  "zero_run gs i = length (takeWhile (\<lambda>g. g = 0) (drop i gs))"

definition longest_zeros :: "nat list \<Rightarrow> (nat \<times> nat) option" where
  "longest_zeros gs =
     foldl (\<lambda>best i. let l = zero_run gs i
              in if 2 \<le> l \<and> (case best of None \<Rightarrow> 0 | Some (_, m) \<Rightarrow> m) < l then Some (i, l) else best)
           None [0..<8]"

definition v6_string :: "ip \<Rightarrow> string" where
  "v6_string w =
     (let gs = v6_groups w
      in case longest_zeros gs of
           None \<Rightarrow> join_with '':'' (List.map show_hex gs)
         | Some (i, l) \<Rightarrow> join_with '':'' (List.map show_hex (take i gs)) @ ''::'' @
                          join_with '':'' (List.map show_hex (drop (i + l) gs)))"

definition ip_string :: "ip \<Rightarrow> string" where
  "ip_string w = (case to4 w of Some a \<Rightarrow> v4_string a | None \<Rightarrow> v6_string w)"

definition addr_string :: "addr \<Rightarrow> string" where
  "addr_string a = (case a of A4 x \<Rightarrow> v4_string x
     | A6 w z \<Rightarrow> (case to4 w of Some x \<Rightarrow> ''::ffff:'' @ v4_string x | None \<Rightarrow> v6_string w) @
                 (if z = [] then [] else CHR ''%'' # z))"

section \<open>Networks\<close>

text \<open>A net.IPNet as ParseCIDR builds it: the masked base and the prefix length.\<close>

datatype ipnet = Net4 u32 nat | Net6 ip nat

definition mask_bits :: "nat \<Rightarrow> nat \<Rightarrow> 'a::len word \<Rightarrow> 'a word" where
  "mask_bits width n a = push_bit (width - n) (drop_bit (width - n) a)"

definition same_net :: "nat \<Rightarrow> nat \<Rightarrow> 'a::len word \<Rightarrow> 'a word \<Rightarrow> bool" where
  "same_net width n a b \<longleftrightarrow> drop_bit (width - n) a = drop_bit (width - n) b"

definition dtoi :: "string \<Rightarrow> nat option" where
  "dtoi s = (if all_digits s \<and> dec_val s < 0xFFFFFF then Some (dec_val s) else None)"

definition parse_cidr :: "string \<Rightarrow> (ip \<times> ipnet) option" where
  "parse_cidr s =
     (case cut (CHR ''/'') s of
        None \<Rightarrow> None
      | Some (a, m) \<Rightarrow>
          (case (parse_addr a, dtoi m) of
             (Some (A4 x), Some n) \<Rightarrow>
               if n \<le> 32 then Some (v4_in_v6 x, Net4 (mask_bits 32 n x) n) else None
           | (Some (A6 w z), Some n) \<Rightarrow>
               if z = [] \<and> n \<le> 128 then Some (w, Net6 (mask_bits 128 n w) n) else None
           | _ \<Rightarrow> None))"

text \<open>
  networkNumberAndMask: a base in IPv4-mapped form is an IPv4 network whose mask is the last
  four bytes of the given one.
\<close>

definition canon_net :: "ipnet \<Rightarrow> ipnet" where
  "canon_net n = (case n of Net4 b k \<Rightarrow> Net4 b k
     | Net6 b k \<Rightarrow> (case to4 b of Some b4 \<Rightarrow> Net4 b4 (k - 96) | None \<Rightarrow> Net6 b k))"

definition net_contains :: "ipnet \<Rightarrow> ip \<Rightarrow> bool" where
  "net_contains n w = (case canon_net n of
       Net4 b k \<Rightarrow> (case to4 w of Some a \<Rightarrow> same_net 32 k a b | None \<Rightarrow> False)
     | Net6 b k \<Rightarrow> (case to4 w of Some _ \<Rightarrow> False | None \<Rightarrow> same_net 128 k w b))"

text \<open>Mask.Size's first result: the prefix length of the network as it was written.\<close>

definition net_bits :: "ipnet \<Rightarrow> nat" where
  "net_bits n = (case n of Net4 _ k \<Rightarrow> k | Net6 _ k \<Rightarrow> k)"

text \<open>A netip.Prefix.\<close>

record prefix =
  p_addr :: addr
  p_bits :: nat

definition cut_last :: "char \<Rightarrow> string \<Rightarrow> (string \<times> string) option" where
  "cut_last c s = map_option (\<lambda>(a, b). (rev b, rev a)) (cut c (rev s))"

definition parse_prefix :: "string \<Rightarrow> prefix option" where
  "parse_prefix s =
     (case cut_last (CHR ''/'') s of
        None \<Rightarrow> None
      | Some (a, m) \<Rightarrow>
          (if 1 < length m \<and> (hd m < CHR ''1'' \<or> CHR ''9'' < hd m) then None
           else case (parse_addr a, atoi m) of
             (Some (A4 x), Some n) \<Rightarrow>
               if 0 \<le> n \<and> n \<le> 32 then Some \<lparr>p_addr = A4 x, p_bits = nat n\<rparr> else None
           | (Some (A6 w z), Some n) \<Rightarrow>
               if z = [] \<and> 0 \<le> n \<and> n \<le> 128 then Some \<lparr>p_addr = A6 w [], p_bits = nat n\<rparr> else None
           | _ \<Rightarrow> None))"

definition prefix_masked :: "prefix \<Rightarrow> prefix" where
  "prefix_masked p = (case p_addr p of
       A4 x \<Rightarrow> p\<lparr>p_addr := A4 (mask_bits 32 (p_bits p) x)\<rparr>
     | A6 w z \<Rightarrow> p\<lparr>p_addr := A6 (mask_bits 128 (p_bits p) w) []\<rparr>)"

definition prefix_contains :: "prefix \<Rightarrow> addr \<Rightarrow> bool" where
  "prefix_contains p a = (case (p_addr p, a) of
       (A4 b, A4 x) \<Rightarrow> same_net 32 (p_bits p) x b
     | (A6 b _, A6 w z) \<Rightarrow> z = [] \<and> same_net 128 (p_bits p) w b
     | _ \<Rightarrow> False)"

definition prefix_string :: "prefix \<Rightarrow> string" where
  "prefix_string p = addr_string (p_addr p) @ ''/'' @ show_nat (p_bits p)"

section \<open>Address classes\<close>

definition is_loopback :: "ip \<Rightarrow> bool" where
  "is_loopback w = (case to4 w of Some a \<Rightarrow> v4_byte a 0 = 127 | None \<Rightarrow> w = 1)"

definition is_private :: "ip \<Rightarrow> bool" where
  "is_private w = (case to4 w of
       Some a \<Rightarrow> v4_byte a 0 = 10 \<or>
                 (v4_byte a 0 = 172 \<and> 16 \<le> v4_byte a 1 \<and> v4_byte a 1 < 32) \<or>
                 (v4_byte a 0 = 192 \<and> v4_byte a 1 = 168)
     | None \<Rightarrow> drop_bit 121 w = 0x7e)"

definition is_link_local :: "ip \<Rightarrow> bool" where
  "is_link_local w = (case to4 w of
       Some a \<Rightarrow> v4_byte a 0 = 169 \<and> v4_byte a 1 = 254
     | None \<Rightarrow> drop_bit 118 w = 0x3fa)"

section \<open>dnsserver/acl.go: client lists\<close>

definition cidr_sep :: "char \<Rightarrow> bool" where
  "cidr_sep c \<longleftrightarrow> c \<in> {CHR '','', CHR '' '', CHR 0x09, CHR 0x0A, CHR 0x0D}"

text \<open>
  One entry of parseCIDRList: a bare address becomes a host network; an IPv4-mapped IPv6
  spelling is canonicalised first.
\<close>

definition cidr_entry :: "string \<Rightarrow> ipnet option" where
  "cidr_entry part =
     (let part' =
        (if contains_str part ''/'' then part
         else case parse_ip part of
                None \<Rightarrow> part
              | Some w \<Rightarrow> (case to4 w of Some a \<Rightarrow> v4_string a @ ''/32'' | None \<Rightarrow> part @ ''/128''))
      in map_option snd (parse_cidr part'))"

definition parse_cidr_list :: "string \<Rightarrow> ipnet list" where
  "parse_cidr_list raw = List.map_filter cidr_entry (fields_func cidr_sep raw)"

definition cidr_list_contains :: "ipnet list \<Rightarrow> string \<Rightarrow> bool" where
  "cidr_list_contains nets s = (case parse_ip s of
       None \<Rightarrow> False
     | Some w \<Rightarrow> list_ex (\<lambda>n. net_contains n w) nets)"

definition is_internal_client_ip :: "string \<Rightarrow> bool" where
  "is_internal_client_ip s = (case parse_ip s of
       None \<Rightarrow> False
     | Some w \<Rightarrow>
         if is_loopback w \<or> is_private w \<or> is_link_local w then True
         else (case to4 w of
                 None \<Rightarrow> False
               | Some a \<Rightarrow> v4_byte a 0 = 100 \<and> 64 \<le> v4_byte a 1 \<and> v4_byte a 1 \<le> 127))"

text \<open>clientKey: the rate-limit bucket of a client, an address or a subnet.\<close>

definition client_key :: "string \<Rightarrow> int \<Rightarrow> int \<Rightarrow> string" where
  "client_key s p4 p6 = (case parse_ip s of
       None \<Rightarrow> []
     | Some w \<Rightarrow>
         (let n4 = (if 1 \<le> p4 \<and> p4 \<le> 32 then nat p4 else 32);
              n6 = (if 1 \<le> p6 \<and> p6 \<le> 128 then nat p6 else 128)
          in case to4 w of
               Some a \<Rightarrow> if n4 = 32 then v4_string a
                         else v4_string (mask_bits 32 n4 a) @ ''/'' @ show_nat n4
             | None \<Rightarrow> if n6 = 128 then ip_string w
                       else ip_string (mask_bits 128 n6 w) @ ''/'' @ show_nat n6))"

section \<open>dnsserver/ptr.go: reverse names\<close>

definition private_nets :: "ipnet list" where
  "private_nets = List.map_filter (\<lambda>s. map_option snd (parse_cidr s))
     [''10.0.0.0/8'', ''172.16.0.0/12'', ''192.168.0.0/16'', ''100.64.0.0/10'', ''fc00::/7'']"

definition is_private_ip :: "ip \<Rightarrow> bool" where
  "is_private_ip w = list_ex (\<lambda>n. net_contains n w) private_nets"

definition arpa_octet :: "string \<Rightarrow> nat option" where
  "arpa_octet l = (if l = [] \<or> 3 < length l \<or> \<not> list_all is_digit l \<or> 255 < dec_val l
                   then None else Some (dec_val l))"

definition arpa_nibble :: "string \<Rightarrow> nat option" where
  "arpa_nibble l = (case l of
       [c] \<Rightarrow> if is_digit c then Some (digit_val c)
              else if 97 \<le> (of_char c :: nat) \<and> (of_char c :: nat) \<le> 102
                   then Some ((of_char c :: nat) - 87) else None
     | _ \<Rightarrow> None)"

fun all_some :: "'a option list \<Rightarrow> 'a list option" where
  "all_some [] = Some []"
| "all_some (x # xs) = (case x of None \<Rightarrow> None | Some v \<Rightarrow> map_option ((#) v) (all_some xs))"

text \<open>Nibble i of the reversed name is the i-th lowest nibble of the address.\<close>

definition nibbles_ip :: "nat list \<Rightarrow> ip" where
  "nibbles_ip vs = foldl (\<lambda>w (i, v). w OR push_bit (4 * i) (of_nat v)) 0 (enumerate 0 vs)"

definition arpa_to_ip :: "string \<Rightarrow> ip option" where
  "arpa_to_ip name0 =
     (let name = to_lower (trim_suffix name0 ''.'')
      in if has_suffix name ''.in-addr.arpa'' then
           (let labels = split_on (CHR ''.'') (trim_suffix name ''.in-addr.arpa'')
            in if length labels \<noteq> 4 then None
               else map_option (\<lambda>vs. v4_in_v6 (v4_of_bytes (rev vs)))
                      (all_some (List.map arpa_octet labels)))
         else if has_suffix name ''.ip6.arpa'' then
           (let labels = split_on (CHR ''.'') (trim_suffix name ''.ip6.arpa'')
            in if length labels \<noteq> 32 then None
               else map_option nibbles_ip (all_some (List.map arpa_nibble labels)))
         else None)"

text \<open>
  sanitizePTRName: fold case, keep letters, digits and hyphens, turn blanks, underscores and
  dots into hyphens, stop at 63 bytes, and trim hyphens.
\<close>

fun sanitize_step :: "string \<Rightarrow> char \<Rightarrow> string" where
  "sanitize_step b c =
     (if 63 \<le> length b then b
      else if is_digit c \<or> c = CHR ''-'' \<or> (97 \<le> (of_char c :: nat) \<and> (of_char c :: nat) \<le> 122)
      then b @ [c]
      else if c = CHR '' '' \<or> c = CHR ''_'' \<or> c = CHR ''.'' then b @ [CHR ''-'']
      else b)"

definition sanitize_ptr_name :: "string \<Rightarrow> string" where
  "sanitize_ptr_name name =
     (let hy = (\<lambda>c. c = CHR ''-'')
      in trim_right hy (trim_left hy (foldl sanitize_step [] (to_lower name))))"


section \<open>Facts about addresses\<close>


lemma v4_byte_div: "v4_byte a i = unat a div 2 ^ (8 * (3 - i)) mod 256"
proof -
  have "v4_byte a i = take_bit 8 (drop_bit (8 * (3 - i)) (unat a))"
    by (simp only: v4_byte_def unsigned_take_bit_eq unsigned_drop_bit_eq) (simp add: take_bit_drop_bit min_def)
  then show ?thesis
    by (simp add: take_bit_eq_mod drop_bit_eq_div)
qed

lemma v4_byte_less: "v4_byte a i < 256"
  by (simp add: v4_byte_div)

lemma v4_of_bytes_v4_byte: "v4_of_bytes [v4_byte a 0, v4_byte a 1, v4_byte a 2, v4_byte a 3] = a"
proof (rule bit_word_eqI)
  fix n assume "n < LENGTH(32)"
  then consider "n < 8" | "8 \<le> n" "n < 16" | "16 \<le> n" "n < 24" | "24 \<le> n" "n < 32" by fastforce
  then show "bit (v4_of_bytes [v4_byte a 0, v4_byte a 1, v4_byte a 2, v4_byte a 3]) n \<longleftrightarrow> bit a n"
    by cases (auto simp: v4_of_bytes_def v4_byte_def bit_simps)
qed

lemma unat_drop_div: "unat (drop_bit k a) = unat a div 2 ^ k"
  by (rule trans [OF unat_drop_bit_eq]) (simp add: drop_bit_eq_div)

lemma drop_push_drop: "drop_bit k (push_bit k (drop_bit k a)) = drop_bit k (a :: 'a::len word)"
  by (rule bit_word_eqI) (auto simp: bit_simps dest: bit_imp_le_length)

lemma same_net_unat: "same_net w n a b \<longleftrightarrow> unat a div 2 ^ (w - n) = unat b div 2 ^ (w - n)"
  by (simp only: same_net_def word_unat_eq_iff unat_drop_div)

lemma mask_bits_eq: "mask_bits w n a = mask_bits w n b \<longleftrightarrow> same_net w n a b"
proof
  assume "mask_bits w n a = mask_bits w n b"
  then have "drop_bit (w - n) (mask_bits w n a) = drop_bit (w - n) (mask_bits w n b)" by simp
  then show "same_net w n a b"
    by (simp only: mask_bits_def same_net_def drop_push_drop)
qed (simp add: mask_bits_def same_net_def)

lemma to4_v4: "to4 (v4_in_v6 a) = Some a"
proof -
  have "drop_bit 32 (v4_in_v6 a) = mask 16"
    by (rule bit_word_eqI) (auto simp: v4_in_v6_def bit_simps dest: bit_imp_le_length)
  moreover have "ucast (v4_in_v6 a) = a"
    by (rule bit_word_eqI) (auto simp: v4_in_v6_def bit_simps)
  ultimately show ?thesis by (simp add: to4_def)
qed


lemma octet_show: "n < 256 \<Longrightarrow> octet (show_nat n) = Some n"
proof (cases "n = 0")
  case True
  then show ?thesis by (simp add: octet_def show_nat_0 all_digits_def is_digit_def dec_val_def digit_val_def)
next
  case False
  then show "n < 256 \<Longrightarrow> ?thesis" by (simp add: octet_def show_nat_digits show_nat_hd)
qed

lemma parse_v4_string [simp]: "parse_v4 (v4_string a) = Some a"
proof -
  have "split_on (CHR ''.'') (v4_string a) = List.map (\<lambda>i. show_nat (v4_byte a i)) [0, 1, 2, 3]"
    unfolding v4_string_def by (rule split_join) auto
  then show ?thesis
    by (simp add: parse_v4_def octet_show v4_byte_less v4_of_bytes_v4_byte [simplified])
qed

lemma filter_digits: "\<forall>c \<in> set s. is_digit c \<Longrightarrow> filter (\<lambda>c. c = CHR ''.'' \<or> c = CHR '':'' \<or> c = CHR ''%'') s = []"
  by (auto simp: filter_empty_conv is_digit_def)

lemma parse_ip_v4_string [simp]: "parse_ip (v4_string a) = Some (v4_in_v6 a)"
proof -
  have f: "filter (\<lambda>c. c = CHR ''.'' \<or> c = CHR '':'' \<or> c = CHR ''%'') (show_nat n) = []" for n
    by (rule filter_digits) (auto dest: show_nat_chars)
  have "filter (\<lambda>c. c = CHR ''.'' \<or> c = CHR '':'' \<or> c = CHR ''%'') (v4_string a) = ''...''"
    by (simp add: v4_string_def f)
  then have "parse_addr (v4_string a) = Some (A4 a)"
    by (simp add: parse_addr_def)
  then show ?thesis by (simp add: parse_ip_def)
qed

lemma v4_string_inject [simp]: "v4_string a = v4_string b \<longleftrightarrow> a = b"
  by (metis option.inject parse_v4_string)

text \<open>Two IPv4 clients share a rate-limit bucket exactly when they agree on the configured
  prefix of the address (32 when the prefix is out of range).\<close>

theorem client_key_shared:
  assumes "parse_ip s = Some (v4_in_v6 a)" and "parse_ip t = Some (v4_in_v6 b)"
  shows "client_key s n k = client_key t n k \<longleftrightarrow>
         same_net 32 (if 1 \<le> n \<and> n \<le> 32 then nat n else 32) a b"
  using assms by (auto simp: client_key_def to4_v4 Let_def mask_bits_eq same_net_def)


theorem client_key_shared_witness:
  "client_key ''10.1.2.3'' 24 0 = client_key ''10.1.2.77'' 24 0"
proof -
  have p: "parse_ip ''10.1.2.3'' = Some (v4_in_v6 0x0a010203)" "parse_ip ''10.1.2.77'' = Some (v4_in_v6 0x0a01024d)"
    by (simp_all add: parse_ip_def parse_addr_def parse_v4_def octet_def v4_of_bytes_def
        all_digits_def is_digit_def dec_val_def digit_val_def)
  have "same_net 32 24 (0x0a010203 :: u32) 0x0a01024d" by (simp add: same_net_def)
  with client_key_shared [OF p, of 24 0] show ?thesis by simp
qed

section \<open>Reverse names\<close>

definition rev_name4 :: "u32 \<Rightarrow> string" where
  "rev_name4 a = join_with ''.'' (List.map (\<lambda>i. show_nat (v4_byte a i)) [3, 2, 1, 0]) @ ''.in-addr.arpa''"

definition nibble :: "ip \<Rightarrow> nat \<Rightarrow> nat" where
  "nibble w i = unat (take_bit 4 (drop_bit (4 * i) w))"

definition rev_name6 :: "ip \<Rightarrow> string" where
  "rev_name6 w = join_with ''.'' (List.map (\<lambda>i. [hex_char (nibble w i)]) [0..<32]) @ ''.ip6.arpa''"

lemma arpa_octet_show: "n < 256 \<Longrightarrow> arpa_octet (show_nat n) = Some n"
proof -
  assume n: "n < 256"
  have "length (show_nat n) \<le> 3"
    using n by (simp add: show_nat.simps [of n] show_nat.simps [of "n div 10"] show_nat.simps [of "n div 10 div 10"])
  with n show_nat_digits [of n] show ?thesis
    by (auto simp: arpa_octet_def all_digits_def)
qed

lemma all_some_map: "(\<And>x. x \<in> set xs \<Longrightarrow> f x = Some (g x)) \<Longrightarrow> all_some (List.map f xs) = Some (List.map g xs)"
  by (induction xs) auto

text \<open>The reverse name of an IPv4 address, as a client asks for it, is converted back to that
  address.\<close>

theorem arpa4: "arpa_to_ip (rev_name4 a @ ''.'') = Some (v4_in_v6 a)"
proof -
  let ?ls = "List.map (\<lambda>i. show_nat (v4_byte a i)) [3, 2, 1, 0]"
  have split: "split_on (CHR ''.'') (join_with ''.'' ?ls) = ?ls"
    by (rule split_join) auto
  have "\<forall>c \<in> set (join_with ''.'' ?ls). is_digit c \<or> c = CHR ''.''"
    using set_join [of "''.''" ?ls] by (auto dest!: subsetD show_nat_chars)
  then have "to_lower (join_with ''.'' ?ls) = join_with ''.'' ?ls"
    by (rule to_lower_digits)
  then have "to_lower (rev_name4 a) = rev_name4 a"
    by (simp only: rev_name4_def to_lower_append) (simp add: to_lower_def lower_char_def)
  moreover have "has_suffix (rev_name4 a) ''.in-addr.arpa''"
    and "trim_suffix (rev_name4 a) ''.in-addr.arpa'' = join_with ''.'' ?ls"
    by (simp_all only: rev_name4_def has_suffix_append trim_suffix_append)
  ultimately show ?thesis
    unfolding arpa_to_ip_def Let_def trim_suffix_append
    by (simp only: if_True split)
       (simp add: arpa_octet_show v4_byte_less v4_of_bytes_v4_byte [simplified])
qed

lemma bit_nibbles:
  "4 * k \<le> 128 \<Longrightarrow> bit (nibbles_ip (List.map (nibble w) [0..<k])) n \<longleftrightarrow> n < 4 * k \<and> bit w n"
proof (induction k)
  case (Suc k)
  have "nibbles_ip (List.map (nibble w) [0..<Suc k]) =
        nibbles_ip (List.map (nibble w) [0..<k]) OR push_bit (4 * k) (of_nat (nibble w k))"
    by (simp add: nibbles_ip_def enumerate_append_eq)
  moreover have "bit (push_bit (4 * k) (of_nat (nibble w k) :: ip)) n \<longleftrightarrow> 4 * k \<le> n \<and> n < 4 * k + 4 \<and> bit w n"
    using Suc.prems by (auto simp: nibble_def bit_simps dest: bit_imp_le_length)
  ultimately show ?case
    using Suc by (auto simp: bit_or_iff)
qed (simp add: nibbles_ip_def)

lemma nibbles_of_nibbles: "nibbles_ip (List.map (nibble w) [0..<32]) = w"
  by (rule bit_word_eqI) (simp add: bit_nibbles)

lemma nibble_less: "nibble w i < 16"
proof -
  have "nibble w i = take_bit 4 (unat (drop_bit (4 * i) w))"
    by (simp add: nibble_def unsigned_take_bit_eq)
  then show ?thesis by (simp add: take_bit_eq_mod)
qed

lemma hex_char_props: "n < 16 \<Longrightarrow> arpa_nibble [hex_char n] = Some n \<and> lower_char (hex_char n) = hex_char n \<and> hex_char n \<noteq> CHR ''.''"
  by (cases "n < 10")
     (auto simp: hex_char_def arpa_nibble_def is_digit_def digit_val_def lower_char_def char_of_eq_iff take_bit_eq_mod)

text \<open>The nibble reverse name of an IPv6 address is converted back to that address.\<close>

theorem arpa6: "arpa_to_ip (rev_name6 w @ ''.'') = Some w"
proof -
  let ?ls = "List.map (\<lambda>i. [hex_char (nibble w i)]) [0..<32]"
  have split: "split_on (CHR ''.'') (join_with ''.'' ?ls) = ?ls"
    by (rule split_join) (auto simp: hex_char_props nibble_less eq_commute [of "CHR ''.''"])
  have "\<forall>c \<in> set (join_with ''.'' ?ls). lower_char c = c"
    using set_join [of "''.''" ?ls] by (auto dest!: subsetD simp: hex_char_props nibble_less) (simp add: lower_char_def)
  then have "to_lower (join_with ''.'' ?ls) = join_with ''.'' ?ls"
    unfolding to_lower_def by (intro map_idI) auto
  then have low: "to_lower (rev_name6 w) = rev_name6 w"
    by (simp add: rev_name6_def) (simp add: to_lower_def lower_char_def)
  have "\<not> has_suffix (rev_name6 w) ''.in-addr.arpa''"
  proof
    assume "has_suffix (rev_name6 w) ''.in-addr.arpa''"
    then obtain t where "rev (rev_name6 w) = rev (t @ ''.in-addr.arpa'')"
      by (auto simp: has_suffix_iff)
    then show False by (simp add: rev_name6_def)
  qed
  moreover have "has_suffix (rev_name6 w) ''.ip6.arpa''" and "trim_suffix (rev_name6 w) ''.ip6.arpa'' = join_with ''.'' ?ls"
    by (simp_all only: rev_name6_def has_suffix_append trim_suffix_append)
  moreover have "all_some (List.map arpa_nibble ?ls) = Some (List.map (nibble w) [0..<32])"
    by (simp only: list.map_comp o_def) (rule all_some_map, simp add: hex_char_props nibble_less)
  ultimately show ?thesis
    unfolding arpa_to_ip_def Let_def trim_suffix_append low
    by (simp only: if_False if_True split) (simp add: nibbles_of_nibbles)
qed
lemma eight_Suc: "(8::nat) = Suc (Suc (Suc (Suc (Suc (Suc (Suc (Suc 0)))))))"
  by simp

lemma seven_zeros: "replicate 7 (0::nat) = [0, 0, 0, 0, 0, 0, 0]"
  by (simp add: numeral_eq_Suc)

lemmas parse_eval6 = parse_v6_def has_prefix_def v6_finish_def v6_of_groups_def is_hex_def
  hex_digit_def hex_val_def seven_zeros

lemmas parse_eval4 = parse_cidr_def dtoi_def parse_addr_def parse_v4_def octet_def v4_of_bytes_def
  all_digits_def is_digit_def dec_val_def digit_val_def mask_bits_def

lemma parse_v6_fc00: "parse_v6 ''fc00::'' = Some 0xfc000000000000000000000000000000"
  unfolding parse_v6_def eight_Suc by (simp add: parse_eval6)

lemma parse_v6_fe80: "parse_v6 ''fe80::'' = Some 0xfe800000000000000000000000000000"
  unfolding parse_v6_def eight_Suc by (simp add: parse_eval6)

lemma parse_v6_1: "parse_v6 ''::1'' = Some 1"
  unfolding parse_v6_def eight_Suc by (simp add: parse_eval6)

lemma private_nets_eq: "private_nets = [Net4 0x0a000000 8, Net4 0xac100000 12, Net4 0xc0a80000 16,
  Net4 0x64400000 10, Net6 0xfc000000000000000000000000000000 7]"
  by (simp add: private_nets_def map_filter_simps parse_v6_fc00 parse_eval4)

definition internal_nets :: "ipnet list" where
  "internal_nets = List.map_filter (\<lambda>s. map_option snd (parse_cidr s))
     [''127.0.0.0/8'', ''10.0.0.0/8'', ''172.16.0.0/12'', ''192.168.0.0/16'', ''169.254.0.0/16'',
      ''100.64.0.0/10'', ''::1/128'', ''fc00::/7'', ''fe80::/10'']"

lemma internal_nets_eq: "internal_nets = [Net4 0x7f000000 8, Net4 0x0a000000 8, Net4 0xac100000 12,
  Net4 0xc0a80000 16, Net4 0xa9fe0000 16, Net4 0x64400000 10, Net6 1 128,
  Net6 0xfc000000000000000000000000000000 7, Net6 0xfe800000000000000000000000000000 10]"
  by (simp add: internal_nets_def map_filter_simps parse_v6_fc00 parse_v6_fe80 parse_v6_1 parse_eval4)

lemma div_nest:
  fixes y c d :: nat
  assumes "0 < c"
  shows "y div c = d * (y div (c * d)) + y mod (c * d) div c"
proof -
  have "y div c = (c * (d * (y div (c * d))) + y mod (c * d)) div c"
    by (metis mult.assoc mult_div_mod_eq)
  also have "\<dots> = d * (y div (c * d)) + y mod (c * d) div c"
    using assms by simp
  finally show ?thesis .
qed

lemma range_split:
  fixes n :: nat
  assumes "n < 2 ^ 32"
  shows "n div 2 ^ 24 = n div 2 ^ 24 mod 256"
    "n div 2 ^ 16 = 256 * (n div 2 ^ 24 mod 256) + n div 2 ^ 16 mod 256"
    "n div 2 ^ 20 = 16 * (n div 2 ^ 24 mod 256) + n div 2 ^ 16 mod 256 div 16"
    "n div 2 ^ 22 = 4 * (n div 2 ^ 24 mod 256) + n div 2 ^ 16 mod 256 div 64"
proof -
  define x where "x = n div 2 ^ 16"
  have x: "x < 65536" using assms by (simp add: x_def less_mult_imp_div_less)
  have a: "n div 2 ^ 24 = x div 256" by (simp add: x_def div_mult2_eq [symmetric])
  have "x div 256 < 256" using x by simp
  then have h: "x div 256 mod 256 = x div 256" by (rule mod_less)
  show "n div 2 ^ 24 = n div 2 ^ 24 mod 256" by (simp only: a h)
  show "n div 2 ^ 16 = 256 * (n div 2 ^ 24 mod 256) + n div 2 ^ 16 mod 256"
    by (simp only: a h x_def [symmetric] mult_div_mod_eq)
  have c: "n div 2 ^ 20 = x div 16" by (simp add: x_def div_mult2_eq [symmetric])
  show "n div 2 ^ 20 = 16 * (n div 2 ^ 24 mod 256) + n div 2 ^ 16 mod 256 div 16"
    unfolding a c h x_def [symmetric] using div_nest [of 16 x 16] by simp
  have d: "n div 2 ^ 22 = x div 64" by (simp add: x_def div_mult2_eq [symmetric])
  show "n div 2 ^ 22 = 4 * (n div 2 ^ 24 mod 256) + n div 2 ^ 16 mod 256 div 64"
    unfolding a d h x_def [symmetric] using div_nest [of 64 x 4] by simp
qed

lemma r12: assumes "l < 256" shows "16 * h + l div 16 = 2753 \<longleftrightarrow> h = 172 \<and> 16 \<le> l \<and> l < (32::nat)"
proof -
  have q: "l div 16 < 16" using assms by auto
  have "16 * h + q = 2753 \<longleftrightarrow> h = 172 \<and> q = 1" if "q < 16" for q :: nat using that by arith
  from this [OF q] show ?thesis by auto
qed
lemma r10: assumes "l < 256" shows "4 * h + l div 64 = 401 \<longleftrightarrow> h = 100 \<and> 64 \<le> l \<and> l \<le> (127::nat)"
proof -
  have q: "l div 64 < 4" using assms by auto
  have "4 * h + q = 401 \<longleftrightarrow> h = 100 \<and> q = 1" if "q < 4" for q :: nat using that by arith
  from this [OF q] show ?thesis by auto
qed
lemma byte_pair:
  fixes h h' l l' :: nat
  assumes "l < 256" "l' < 256"
  shows "256 * h + l = 256 * h' + l' \<longleftrightarrow> h = h' \<and> l = l'"
proof
  assume "256 * h + l = 256 * h' + l'"
  then have "(256 * h + l) div 256 = (256 * h' + l') div 256" "(256 * h + l) mod 256 = (256 * h' + l') mod 256"
    by simp_all
  with assms show "h = h' \<and> l = l'" by simp
qed simp

lemma r16: "l < 256 \<Longrightarrow> 256 * h + l = 49320 \<longleftrightarrow> h = 192 \<and> l = (168::nat)"
  using byte_pair [of l 168 h 192] by simp

lemma r16b: "l < 256 \<Longrightarrow> 256 * h + l = 43518 \<longleftrightarrow> h = 169 \<and> l = (254::nat)"
  using byte_pair [of l 254 h 169] by simp

lemma net_contains_net4 [simp]:
  "net_contains (Net4 b k) w = (case to4 w of Some a \<Rightarrow> same_net 32 k a b | None \<Rightarrow> False)"
  by (simp add: net_contains_def canon_net_def)

lemma net_contains_net6:
  "to4 b = None \<Longrightarrow> net_contains (Net6 b k) w \<longleftrightarrow> to4 w = None \<and> same_net 128 k w b"
  by (simp add: net_contains_def canon_net_def split: option.splits)

lemma not_mapped:
  "to4 1 = None" "to4 0xfc000000000000000000000000000000 = None" "to4 0xfe800000000000000000000000000000 = None"
  by (simp_all add: to4_def mask_eq_exp_minus_1)

lemma unat_v4_less: "unat (a :: u32) < 2 ^ 32"
  using unsigned_less [of a] by simp

text \<open>The hand-written test for internal clients agrees, for every client string, with
  membership in the list of networks it stands for.\<close>

theorem internal_iff_nets: "is_internal_client_ip s \<longleftrightarrow> cidr_list_contains internal_nets s"
proof (cases "parse_ip s")
  case None
  then show ?thesis by (simp add: is_internal_client_ip_def cidr_list_contains_def)
next
  case (Some w)
  note p = this
  show ?thesis
  proof (cases "to4 w")
    case None
    then show ?thesis
      using p by (simp add: is_internal_client_ip_def cidr_list_contains_def is_loopback_def
          is_private_def is_link_local_def internal_nets_eq net_contains_net6 not_mapped same_net_def disj_commute)
  next
    case (Some a)
    define n where "n = unat a"
    have n: "n < 2 ^ 32" unfolding n_def by (rule unat_v4_less)
    define h l where "h = n div 2 ^ 24 mod 256" and "l = n div 2 ^ 16 mod 256"
    have l: "l < 256" by (simp add: l_def)
    note r = range_split [OF n, folded h_def l_def]
    have b: "v4_byte a 0 = h" "v4_byte a 1 = l"
      by (simp_all add: v4_byte_div h_def l_def n_def)
    have net: "same_net 32 8 a b \<longleftrightarrow> h = unat b div 2 ^ 24" 
      "same_net 32 12 a b \<longleftrightarrow> 16 * h + l div 16 = unat b div 2 ^ 20"
      "same_net 32 16 a b \<longleftrightarrow> 256 * h + l = unat b div 2 ^ 16"
      "same_net 32 10 a b \<longleftrightarrow> 4 * h + l div 64 = unat b div 2 ^ 22" for b
      using r by (simp_all add: same_net_unat n_def)
    show ?thesis
      using p Some
      by (auto simp: is_internal_client_ip_def cidr_list_contains_def is_loopback_def
          is_private_def is_link_local_def internal_nets_eq net_contains_net6 not_mapped b [simplified] net
          r12 [OF l] r10 [OF l] r16 [OF l] r16b [OF l])
  qed
qed
end
