(* ===== verification/Access_Control.thy ===== *)
theory Access_Control
  imports Net_Addr
begin

text \<open>
  dnsserver/acl.go: the allow and deny lists and the per-client token buckets. The limiter keeps a
  map of buckets and a list of its keys from the least to the most recently used; a key stands for
  its list element, as every bucket points at its own. Token counts are float64 in the source and
  rationals here; the clock is an argument.
\<close>

section \<open>Lists\<close>

record acl =
  ac_allowed :: "ipnet list"
  ac_allowed_configured :: bool
  ac_disallowed :: "ipnet list"
  ac_rate_allowlist :: "ipnet list"

definition acl_drop :: "acl \<Rightarrow> string \<Rightarrow> bool" where
  "acl_drop a ip \<longleftrightarrow> cidr_list_contains (ac_disallowed a) ip"

definition acl_allowlist_drop :: "acl \<Rightarrow> string \<Rightarrow> bool" where
  "acl_allowlist_drop a ip \<longleftrightarrow> ac_allowed_configured a \<and> \<not> cidr_list_contains (ac_allowed a) ip"

definition default_acl_drop :: "acl \<Rightarrow> string \<Rightarrow> bool" where
  "default_acl_drop a ip \<longleftrightarrow> \<not> ac_allowed_configured a \<and> \<not> is_internal_client_ip ip"

section \<open>The rate limiter\<close>

definition max_rate_limit_buckets :: nat where "max_rate_limit_buckets = 65536"

record bucket =
  bk_tokens :: rat
  bk_last :: int

record limiter =
  rl_qps :: int
  rl_max :: nat
  rl_buckets :: "(string, bucket) gomap"
  rl_order :: "string list"

definition new_limiter :: "int \<Rightarrow> limiter" where
  "new_limiter qps = \<lparr>rl_qps = qps, rl_max = max_rate_limit_buckets, rl_buckets = [], rl_order = []\<rparr>"

text \<open>The bucket of the key, made if need be: a full map gives up its least recently used bucket.\<close>

definition evict_oldest :: "limiter \<Rightarrow> limiter" where
  "evict_oldest l =
     (if rl_max l \<le> length (rl_buckets l) then
        (case rl_order l of [] \<Rightarrow> l
         | k # ks \<Rightarrow> l\<lparr>rl_buckets := gm_del k (rl_buckets l), rl_order := ks\<rparr>)
      else l)"

definition touch_bucket :: "int \<Rightarrow> string \<Rightarrow> rat \<Rightarrow> limiter \<Rightarrow> bucket \<times> limiter" where
  "touch_bucket now key limit l =
     (case gm_get (rl_buckets l) key of
        None \<Rightarrow>
          (let l1 = evict_oldest l; b = \<lparr>bk_tokens = limit, bk_last = now\<rparr>
           in (b, l1\<lparr>rl_buckets := gm_set key b (rl_buckets l1), rl_order := rl_order l1 @ [key]\<rparr>))
      | Some b \<Rightarrow> (b, l\<lparr>rl_order := remove1 key (rl_order l) @ [key]\<rparr>))"

text \<open>Refill for the time since the last call, up to one second of the rate, and take a token.\<close>

definition refill :: "int \<Rightarrow> rat \<Rightarrow> bucket \<Rightarrow> rat" where
  "refill now limit b = min limit (bk_tokens b + of_int (now - bk_last b) / of_int second * limit)"

definition allow_key :: "int \<Rightarrow> string \<Rightarrow> rat \<Rightarrow> limiter \<Rightarrow> bool \<times> limiter" where
  "allow_key now key limit l =
     (case touch_bucket now key limit l of (b, l1) \<Rightarrow>
        (let t = refill now limit b; ok = (1 \<le> t)
         in (ok, l1\<lparr>rl_buckets := gm_set key \<lparr>bk_tokens = (if ok then t - 1 else t), bk_last = now\<rparr> (rl_buckets l1)\<rparr>)))"

definition allow_at_rate :: "int \<Rightarrow> string \<Rightarrow> int \<Rightarrow> int \<Rightarrow> int \<Rightarrow> limiter \<Rightarrow> bool \<times> limiter" where
  "allow_at_rate now ip qps p4 p6 l =
     (if qps \<le> 0 then (True, l)
      else let key = client_key ip p4 p6 in if key = [] then (True, l) else allow_key now key (of_int qps) l)"

definition allow_default :: "int \<Rightarrow> string \<Rightarrow> limiter \<Rightarrow> bool \<times> limiter" where
  "allow_default now ip l = allow_at_rate now ip (rl_qps l) 0 0 l"

definition cleanup :: "int \<Rightarrow> int \<Rightarrow> limiter \<Rightarrow> limiter" where
  "cleanup now max_idle l =
     (let stale = (\<lambda>k. case gm_get (rl_buckets l) k of None \<Rightarrow> False | Some b \<Rightarrow> bk_last b < now - max_idle)
      in l\<lparr>rl_buckets := filter (\<lambda>(k, _). \<not> stale k) (rl_buckets l),
           rl_order := filter (\<lambda>k. \<not> stale k) (rl_order l)\<rparr>)"

section \<open>Invariant\<close>

datatype rl_op = Allow int string int int int | Cleanup int int

fun rl_step :: "rl_op \<Rightarrow> limiter \<Rightarrow> bool \<times> limiter" where
  "rl_step (Allow now ip qps p4 p6) l = allow_at_rate now ip qps p4 p6 l"
| "rl_step (Cleanup now idle) l = (False, cleanup now idle l)"

definition limiter_inv :: "limiter \<Rightarrow> bool" where
  "limiter_inv l \<longleftrightarrow> gm_ok (rl_buckets l) \<and> distinct (rl_order l) \<and>
     set (rl_order l) = set (gm_keys (rl_buckets l)) \<and> length (rl_buckets l) \<le> rl_max l \<and> 0 < rl_max l"

lemmas gm_img = gm_keys_set [unfolded set_map] gm_keys_del [unfolded set_map]

lemma limiter_len: "limiter_inv l \<Longrightarrow> length (rl_order l) = length (rl_buckets l)"
  unfolding limiter_inv_def by (metis distinct_card length_map)

lemma evict_inv:
  assumes "limiter_inv l"
  shows "limiter_inv (evict_oldest l)" "length (rl_buckets (evict_oldest l)) < rl_max l"
    "rl_max (evict_oldest l) = rl_max l" "set (gm_keys (rl_buckets (evict_oldest l))) \<subseteq> set (gm_keys (rl_buckets l))"
proof -
  have "limiter_inv (evict_oldest l) \<and> length (rl_buckets (evict_oldest l)) < rl_max l"
  proof (cases "rl_order l")
    case Nil
    with assms limiter_len [OF assms] show ?thesis by (simp add: evict_oldest_def limiter_inv_def)
  next
    case (Cons k ks)
    with assms show ?thesis
      by (auto simp: evict_oldest_def limiter_inv_def gm_img gm_len_del)
  qed
  then show "limiter_inv (evict_oldest l)" "length (rl_buckets (evict_oldest l)) < rl_max l" by simp_all
  show "rl_max (evict_oldest l) = rl_max l" "set (gm_keys (rl_buckets (evict_oldest l))) \<subseteq> set (gm_keys (rl_buckets l))"
    by (auto simp: evict_oldest_def gm_img split: list.split)
qed

lemma gm_get_key: "gm_get m k = Some v \<Longrightarrow> k \<in> set (gm_keys m)"
  by (metis gm_get_None option.distinct(1))

lemma touch_inv:
  assumes "limiter_inv l"
  shows "limiter_inv (snd (touch_bucket now key limit l)) \<and> key \<in> set (gm_keys (rl_buckets (snd (touch_bucket now key limit l)))) \<and>
    rl_max (snd (touch_bucket now key limit l)) = rl_max l"
proof (cases "gm_get (rl_buckets l) key")
  case None
  then have "key \<notin> set (gm_keys (rl_buckets (evict_oldest l)))"
    using evict_inv(4) [OF assms] by (auto simp: gm_get_None)
  with None evict_inv [OF assms] show ?thesis
    by (auto simp: touch_bucket_def limiter_inv_def Let_def gm_img gm_len_set)
next
  case (Some b)
  with assms gm_get_key [OF Some] show ?thesis
    by (auto simp: touch_bucket_def limiter_inv_def)
qed

lemma set_bucket_inv: "limiter_inv l \<Longrightarrow> key \<in> set (gm_keys (rl_buckets l)) \<Longrightarrow>
    limiter_inv (l\<lparr>rl_buckets := gm_set key b (rl_buckets l)\<rparr>)"
  unfolding limiter_inv_def by (simp add: gm_img gm_len_set insert_absorb)

lemma allow_key_inv: "limiter_inv l \<Longrightarrow> limiter_inv (snd (allow_key now key limit l)) \<and> rl_max (snd (allow_key now key limit l)) = rl_max l"
  using touch_inv [of l now key limit] set_bucket_inv [of "snd (touch_bucket now key limit l)" key]
  by (simp add: allow_key_def Let_def split_def)

lemma cleanup_inv: "limiter_inv l \<Longrightarrow> limiter_inv (cleanup now idle l)"
  by (auto simp: limiter_inv_def cleanup_def Let_def distinct_map_filter intro: le_trans [OF length_filter_le])

lemma rl_step_inv: "limiter_inv l \<Longrightarrow> limiter_inv (snd (rl_step x l))"
  by (cases x) (auto simp: allow_at_rate_def Let_def allow_key_inv cleanup_inv)

interpretation limiter_sys: invariant_system "\<lambda>x l. snd (rl_step x l)" limiter_inv
  by unfold_locales (rule rl_step_inv)

lemma rl_step_max: "rl_max (snd (rl_step x l)) = rl_max l"
  by (cases x) (auto simp: allow_at_rate_def Let_def allow_key_def touch_bucket_def evict_oldest_def cleanup_def
      split: prod.split option.split list.split)

lemma rl_run_max: "rl_max (fold (\<lambda>x l. snd (rl_step x l)) xs l) = rl_max l"
  by (induction xs arbitrary: l) (simp_all add: rl_step_max)

section \<open>How much one client gets\<close>

fun op_time :: "rl_op \<Rightarrow> int" where
  "op_time (Allow now ip qps p4 p6) = now"
| "op_time (Cleanup now idle) = now"

text \<open>The bucket key of a call that is limited at all.\<close>

fun op_key :: "rl_op \<Rightarrow> string option" where
  "op_key (Allow now ip qps p4 p6) =
     (if qps \<le> 0 \<or> client_key ip p4 p6 = [] then None else Some (client_key ip p4 p6))"
| "op_key (Cleanup now idle) = None"

text \<open>How many calls for the key were let through in a run.\<close>

fun served :: "string \<Rightarrow> rl_op list \<Rightarrow> limiter \<Rightarrow> nat" where
  "served k [] l = 0"
| "served k (x # xs) l =
     (if op_key x = Some k \<and> fst (rl_step x l) then 1 else 0) + served k xs (snd (rl_step x l))"

text \<open>Calls for the key use no higher rate; rates may change in between.\<close>

fun paced :: "string \<Rightarrow> int \<Rightarrow> rl_op \<Rightarrow> bool" where
  "paced k q (Allow now ip qps p4 p6) \<longleftrightarrow> (client_key ip p4 p6 = k \<longrightarrow> qps \<le> q)"
| "paced k q (Cleanup now idle) \<longleftrightarrow> True"

text \<open>
  The bucket of the key is given up -- evicted for another client's or cleaned away -- less than a
  second after its last use; an older one is full again, so that nothing is lost with it.
\<close>

definition lost :: "string \<Rightarrow> rl_op \<Rightarrow> limiter \<Rightarrow> bool" where
  "lost k x l \<longleftrightarrow> (case gm_get (rl_buckets l) k of None \<Rightarrow> False
     | Some b \<Rightarrow> op_time x - bk_last b < second \<and> gm_get (rl_buckets (snd (rl_step x l))) k = None)"

fun losses :: "string \<Rightarrow> rl_op list \<Rightarrow> limiter \<Rightarrow> nat" where
  "losses k [] l = 0"
| "losses k (x # xs) l = (if lost k x l then 1 else 0) + losses k xs (snd (rl_step x l))"

text \<open>Idle buckets are kept for at least a second (the program cleans after ten minutes).\<close>

fun patient :: "rl_op \<Rightarrow> bool" where
  "patient (Allow now ip qps p4 p6) \<longleftrightarrow> True"
| "patient (Cleanup now idle) \<longleftrightarrow> second \<le> idle"

text \<open>The tokens a call for the key would find.\<close>

definition level :: "string \<Rightarrow> rat \<Rightarrow> int \<Rightarrow> limiter \<Rightarrow> rat" where
  "level k L t l = (case gm_get (rl_buckets l) k of None \<Rightarrow> L | Some b \<Rightarrow> refill t L b)"

definition bucket_ok :: "string \<Rightarrow> int \<Rightarrow> limiter \<Rightarrow> bool" where
  "bucket_ok k t l \<longleftrightarrow> (\<forall>b. gm_get (rl_buckets l) k = Some b \<longrightarrow> 0 \<le> bk_tokens b \<and> bk_last b \<le> t)"

lemma level_le: "level k L t l \<le> L"
  by (simp add: level_def refill_def split: option.split)

lemma level_grows:
  assumes "t \<le> u" and "0 \<le> L"
  shows "level k L u l \<le> level k L t l + of_int (u - t) / of_int second * L"
proof -
  have d: "0 \<le> of_int (u - t) / (of_int second :: rat) * L"
    using assms by (simp add: second_def)
  show ?thesis
  proof (cases "gm_get (rl_buckets l) k")
    case None
    with d show ?thesis by (simp add: level_def)
  next
    case (Some b)
    have "of_int (u - bk_last b) / of_int second * L =
        of_int (t - bk_last b) / of_int second * L + of_int (u - t) / (of_int second :: rat) * L"
      by (simp add: field_simps second_def)
    with Some d show ?thesis by (simp add: level_def refill_def)
  qed
qed

lemma no_eviction:
  assumes "limiter_inv l" and "set (gm_keys (rl_buckets l)) \<subseteq> K" and "finite K" and "card K \<le> rl_max l"
    and "k \<in> K" and "gm_get (rl_buckets l) k = None"
  shows "evict_oldest l = l"
proof -
  have "set (gm_keys (rl_buckets l)) \<subset> K" using assms(2,5,6) by (auto simp: gm_get_None)
  then have "card (set (gm_keys (rl_buckets l))) < card K" using assms(3) by (rule psubset_card_mono [rotated])
  moreover have "card (set (gm_keys (rl_buckets l))) = length (rl_buckets l)"
    using assms(1) unfolding limiter_inv_def by (metis distinct_card length_map)
  ultimately show ?thesis using assms(4) by (simp add: evict_oldest_def)
qed

text \<open>A call touches its own bucket; at most one other is given up.\<close>

lemma evict_get: "gm_get (rl_buckets (evict_oldest l)) k = None \<or> gm_get (rl_buckets (evict_oldest l)) k = gm_get (rl_buckets l) k"
  by (auto simp: evict_oldest_def gomap_simps split: list.split)

lemma allow_key_own:
  "fst (allow_key now key L l) = (1 \<le> level key L now l) \<and>
   gm_get (rl_buckets (snd (allow_key now key L l))) key =
     Some \<lparr>bk_tokens = (if 1 \<le> level key L now l then level key L now l - 1 else level key L now l), bk_last = now\<rparr>"
  by (cases "gm_get (rl_buckets l) key")
    (simp_all add: allow_key_def touch_bucket_def Let_def level_def refill_def gm_get_set)

lemma allow_key_other:
  "k \<noteq> key \<Longrightarrow> gm_get (rl_buckets (snd (allow_key now key L l))) k = None \<or>
     gm_get (rl_buckets (snd (allow_key now key L l))) k = gm_get (rl_buckets l) k"
  using evict_get [of l k]
  by (cases "gm_get (rl_buckets l) key") (auto simp: allow_key_def touch_bucket_def Let_def gm_get_set)

lemma level_mono:
  assumes "L \<le> M" and "bucket_ok k now l"
  shows "level k L now l \<le> level k M now l"
proof (cases "gm_get (rl_buckets l) k")
  case (Some b)
  then have "0 \<le> of_int (now - bk_last b) / (of_int second :: rat)"
    using assms(2) by (simp add: bucket_ok_def second_def)
  then have "of_int (now - bk_last b) / of_int second * L \<le> of_int (now - bk_last b) / of_int second * M"
    using assms(1) by (rule mult_left_mono [rotated])
  with assms(1) show ?thesis unfolding level_def refill_def Some option.case
    by (intro min.mono add_left_mono)
qed (simp add: level_def assms)

lemma level_nonneg: "bucket_ok k now l \<Longrightarrow> 0 \<le> L \<Longrightarrow> 0 \<le> level k L now l"
  by (auto simp: level_def refill_def bucket_ok_def second_def split: option.split)

lemma allow_key_level:
  assumes "bucket_ok key now l" and "0 \<le> L" and "L \<le> M"
  shows "level key M now (snd (allow_key now key L l)) + (if fst (allow_key now key L l) then 1 else 0) \<le> level key M now l"
    "bucket_ok key now (snd (allow_key now key L l))"
proof -
  let ?t = "level key L now l"
  note own = allow_key_own [of now key L l]
  have "level key M now (snd (allow_key now key L l)) \<le> (if 1 \<le> ?t then ?t - 1 else ?t)"
    unfolding level_def [of _ _ _ "snd (allow_key now key L l)"] own [THEN conjunct2] by (simp add: refill_def min_def)
  with own level_mono [OF assms(3,1)]
  show "level key M now (snd (allow_key now key L l)) + (if fst (allow_key now key L l) then 1 else 0) \<le> level key M now l"
    by auto
  show "bucket_ok key now (snd (allow_key now key L l))"
    using own level_nonneg [OF assms(1,2)] by (simp add: bucket_ok_def)
qed

text \<open>A bucket that is given up after a second was full.\<close>

lemma level_full:
  assumes "bucket_ok k now l" and "0 \<le> L" and "gm_get (rl_buckets l) k = Some b" and "second \<le> now - bk_last b"
  shows "level k L now l = L"
proof -
  have "of_int second \<le> (of_int (now - bk_last b) :: rat)"
    using assms(4) by (simp only: of_int_le_iff)
  then have "1 \<le> of_int (now - bk_last b) / (of_int second :: rat)" by (simp add: second_def)
  then have "1 * L \<le> of_int (now - bk_last b) / of_int second * L"
    using assms(2) by (rule mult_right_mono)
  moreover have "0 \<le> bk_tokens b" using assms(1,3) by (simp add: bucket_ok_def)
  ultimately show ?thesis by (auto simp: level_def assms(3) refill_def min_def)
qed

lemma given_up_level:
  assumes "bucket_ok k now l" and "0 \<le> L"
    and "gm_get (rl_buckets l') k = None \<or> gm_get (rl_buckets l') k = gm_get (rl_buckets l) k"
  shows "level k L now l' \<le> level k L now l +
      (if (case gm_get (rl_buckets l) k of None \<Rightarrow> False | Some b \<Rightarrow> now - bk_last b < second \<and> gm_get (rl_buckets l') k = None)
       then L else 0) \<and> bucket_ok k now l'"
  using assms(3)
proof
  assume g: "gm_get (rl_buckets l') k = None"
  show ?thesis
  proof (cases "gm_get (rl_buckets l) k")
    case (Some b)
    with g level_full [OF assms(1,2) Some] level_nonneg [OF assms(1,2)] assms(1) show ?thesis
      by (auto simp: level_def [of k L now l'] bucket_ok_def)
  qed (use g in \<open>simp add: level_def bucket_ok_def\<close>)
next
  assume "gm_get (rl_buckets l') k = gm_get (rl_buckets l) k"
  then have "level k L now l' = level k L now l" "bucket_ok k now l'" using assms(1) by (simp_all add: level_def bucket_ok_def)
  with assms(2) show ?thesis by simp
qed

lemma map_of_filter_key: "map_of (filter (\<lambda>(k, _). P k) m) k = (if P k then map_of m k else None)"
  by (induction m) auto

lemma cleanup_get:
  "gm_get (rl_buckets (cleanup now idle l)) k =
     (case gm_get (rl_buckets l) k of None \<Rightarrow> None | Some b \<Rightarrow> if bk_last b < now - idle then None else Some b)"
  using map_of_filter_key [of "\<lambda>k. \<not> (case gm_get (rl_buckets l) k of None \<Rightarrow> False | Some b \<Rightarrow> bk_last b < now - idle)"
      "rl_buckets l" k]
  by (auto simp: cleanup_def Let_def split: option.split)

lemma paced_step:
  assumes "paced k q x" and "0 \<le> q" and "bucket_ok k (op_time x) l"
  shows "level k (of_int q) (op_time x) (snd (rl_step x l)) + (if op_key x = Some k \<and> fst (rl_step x l) then 1 else 0)
      \<le> level k (of_int q) (op_time x) l + (if lost k x l then of_int q else 0) \<and> bucket_ok k (op_time x) (snd (rl_step x l))"
proof (cases x)
  case (Cleanup now idle)
  have "gm_get (rl_buckets (cleanup now idle l)) k = None \<or> gm_get (rl_buckets (cleanup now idle l)) k = gm_get (rl_buckets l) k"
    by (simp add: cleanup_get split: option.split)
  from given_up_level [OF _ _ this, of now "of_int q"] assms Cleanup show ?thesis
    unfolding lost_def Cleanup op_time.simps rl_step.simps op_key.simps snd_conv fst_conv by simp
next
  case (Allow now ip qps p4 p6)
  let ?key = "client_key ip p4 p6"
  show ?thesis
  proof (cases "qps \<le> 0 \<or> ?key = []")
    case True
    with Allow assms show ?thesis by (auto simp: allow_at_rate_def Let_def)
  next
    case False
    have st: "rl_step x l = allow_key now ?key (of_int qps) l"
      using False Allow by (simp add: allow_at_rate_def Let_def)
    show ?thesis
    proof (cases "?key = k")
      case True
      have r: "0 \<le> (of_int qps :: rat)" "(of_int qps :: rat) \<le> of_int q" "0 \<le> (of_int q :: rat)"
        using False True Allow assms(1,2) by simp_all
      have ok: "bucket_ok ?key now l" using assms(3) Allow True by simp
      have k: "op_key x = Some k" "op_time x = now" using False Allow True by simp_all
      from allow_key_level [OF ok r(1,2)] r(3) show ?thesis unfolding st k True by auto
    next
      case other: False
      have k: "op_key x \<noteq> Some k" "op_time x = now" using False Allow other by simp_all
      have q: "0 \<le> (of_int q :: rat)" using assms(2) by simp
      have ok: "bucket_ok k now l" using assms(3) Allow by simp
      from given_up_level [OF ok q allow_key_other [of k ?key now "of_int qps" l]] other k(1) show ?thesis
        unfolding st k(2) lost_def by auto
    qed
  qed
qed

lemma served_bound:
  assumes "list_all (paced k q) xs" and "0 \<le> q"
    and "sorted (List.map op_time xs)" and "list_all (\<lambda>x. t \<le> op_time x \<and> op_time x \<le> u) xs" and "t \<le> u" and "bucket_ok k t l"
  shows "of_nat (served k xs l) \<le> level k (of_int q) t l + of_nat (losses k xs l) * of_int q + of_int (u - t) / of_int second * of_int q"
  using assms
proof (induction xs arbitrary: l t)
  case Nil
  then have "0 \<le> level k (of_int q) t l" by (simp add: level_nonneg)
  moreover have "0 \<le> of_int (u - t) / of_int second * (of_int q :: rat)" using Nil by (simp add: second_def)
  ultimately show ?case by simp
next
  case (Cons x xs)
  let ?v = "op_time x" and ?l = "snd (rl_step x l)" and ?L = "of_int q :: rat"
  have tv: "t \<le> ?v" "?v \<le> u" using Cons.prems(4) by auto
  have bo: "bucket_ok k ?v l" using Cons.prems(6) tv by (auto simp: bucket_ok_def)
  have px: "paced k q x" using Cons.prems(1) by auto
  note step = paced_step [OF px Cons.prems(2) bo]
  have IH: "of_nat (served k xs ?l) \<le> level k ?L ?v ?l + of_nat (losses k xs ?l) * ?L + of_int (u - ?v) / of_int second * ?L"
    using Cons.prems step by (intro Cons.IH) (auto simp: list_all_iff)
  have grow: "level k ?L ?v l \<le> level k ?L t l + of_int (?v - t) / of_int second * ?L"
    using tv Cons.prems(2) by (intro level_grows) simp_all
  have "of_int (u - ?v) / of_int second * ?L + of_int (?v - t) / of_int second * ?L = of_int (u - t) / of_int second * ?L"
    by (simp add: field_simps second_def)
  moreover have "of_nat (losses k (x # xs) l) * ?L = (if lost k x l then ?L else 0) + of_nat (losses k xs ?l) * ?L"
    by (simp add: algebra_simps)
  moreover have "of_nat (served k (x # xs) l) = (if op_key x = Some k \<and> fst (rl_step x l) then 1 else 0 :: rat) + of_nat (served k xs ?l)"
    by simp
  ultimately show ?case using IH grow step [THEN conjunct1] by linarith
qed

text \<open>While the buckets of all clients fit and idle ones are kept for a second, none is lost.\<close>

lemma step_keys:
  assumes "limiter_inv l" and "set (gm_keys (rl_buckets l)) \<subseteq> K" and "finite K" and "card K \<le> rl_max l"
    and "set_option (op_key x) \<subseteq> K" and "patient x"
  shows "set (gm_keys (rl_buckets (snd (rl_step x l)))) \<subseteq> K \<and> \<not> lost k x l"
proof (cases x)
  case (Cleanup now idle)
  have "set (gm_keys (rl_buckets (cleanup now idle l))) \<subseteq> K"
    using assms(2) by (auto simp: cleanup_def Let_def)
  moreover have "\<not> lost k x l"
    unfolding lost_def Cleanup op_time.simps rl_step.simps snd_conv cleanup_get
    using assms(6) Cleanup by (auto split: option.splits)
  ultimately show ?thesis using Cleanup by simp
next
  case (Allow now ip qps p4 p6)
  let ?key = "client_key ip p4 p6"
  show ?thesis
  proof (cases "qps \<le> 0 \<or> ?key = []")
    case True
    with Allow assms show ?thesis by (auto simp: allow_at_rate_def Let_def lost_def split: option.splits)
  next
    case False
    then have key: "?key \<in> K" using assms(5) Allow by simp
    have st: "rl_step x l = allow_key now ?key (of_int qps) l"
      using False Allow by (simp add: allow_at_rate_def Let_def)
    have g: "gm_get (rl_buckets (snd (allow_key now ?key (of_int qps) l))) j = gm_get (rl_buckets l) j" if "j \<noteq> ?key" for j
      using no_eviction [OF assms(1-4) key] that
      by (cases "gm_get (rl_buckets l) ?key") (auto simp: allow_key_def touch_bucket_def Let_def gm_get_set)
    have "set (gm_keys (rl_buckets (snd (rl_step x l)))) \<subseteq> K"
    proof
      fix j assume "j \<in> set (gm_keys (rl_buckets (snd (rl_step x l))))"
      then have j: "gm_get (rl_buckets (snd (allow_key now ?key (of_int qps) l))) j \<noteq> None" unfolding gm_get_None st by simp
      show "j \<in> K"
      proof (cases "j = ?key")
        case False
        with j g have "gm_get (rl_buckets l) j \<noteq> None" by metis
        with assms(2) show ?thesis unfolding gm_get_None by blast
      qed (use key in simp)
    qed
    moreover have "\<not> lost k x l"
    proof (cases "k = ?key")
      case True
      then show ?thesis using allow_key_own [of now ?key "of_int qps" l] unfolding lost_def st by (simp split: option.splits)
    qed (use g in \<open>auto simp: lost_def st split: option.splits\<close>)
    ultimately show ?thesis ..
  qed
qed

lemma nothing_lost:
  "limiter_inv l \<Longrightarrow> set (gm_keys (rl_buckets l)) \<subseteq> K \<Longrightarrow> finite K \<Longrightarrow> card K \<le> rl_max l \<Longrightarrow>
   list_all (\<lambda>x. set_option (op_key x) \<subseteq> K \<and> patient x) xs \<Longrightarrow> losses k xs l = 0"
proof (induction xs arbitrary: l)
  case (Cons x xs)
  then have x: "set_option (op_key x) \<subseteq> K" "patient x" by simp_all
  note step = step_keys [OF Cons.prems(1-4) x, of k]
  from Cons.IH [OF rl_step_inv [OF Cons.prems(1)] step [THEN conjunct1] Cons.prems(3)] Cons.prems(4,5) step
  show ?case by (simp add: rl_step_max)
qed simp

text \<open>C30: However calls of any number of clients and cleanups interleave, and however the rate of a bucket changes up to
  q, the calls of the bucket let through in a time span are at most q for every second of the span, plus one second's
  worth to start with and one more for every time the bucket was given up (evicted for another client's, or cleaned
  away) less than a second after its last use. That never happens as long as the keys seen fit the 65536 buckets and
  cleanups spare what was used within the last second (the program's spare ten minutes).\<close>

theorem rate_limit_bound:
  assumes "list_all (\<lambda>x. paced k q x \<and> t \<le> op_time x \<and> op_time x \<le> u) xs"
    and "sorted (List.map op_time xs)" and "t \<le> u" and "0 \<le> q"
  shows "of_nat (served k xs (new_limiter q')) \<le>
      (of_int q + of_nat (losses k xs (new_limiter q')) * of_int q + of_int (u - t) / of_int second * of_int q :: rat) \<and>
    (list_all patient xs \<and> card (\<Union>x \<in> set xs. set_option (op_key x)) \<le> max_rate_limit_buckets \<longrightarrow>
      losses k xs (new_limiter q') = 0)"
proof -
  let ?l = "new_limiter q'"
  have l: "limiter_inv ?l" "bucket_ok k t ?l" "rl_buckets ?l = []" "rl_max ?l = max_rate_limit_buckets"
    by (simp_all add: new_limiter_def limiter_inv_def bucket_ok_def max_rate_limit_buckets_def)
  have "of_nat (served k xs ?l) \<le> level k (of_int q) t ?l + of_nat (losses k xs ?l) * of_int q + of_int (u - t) / (of_int second :: rat) * of_int q"
    by (rule served_bound) (use assms l in \<open>auto simp: list_all_iff\<close>)
  moreover have "losses k xs ?l = 0"
    if "list_all patient xs" "card (\<Union>x \<in> set xs. set_option (op_key x)) \<le> max_rate_limit_buckets"
    by (rule nothing_lost [OF l(1), of "\<Union>x \<in> set xs. set_option (op_key x)"]) (use that l in \<open>auto simp: list_all_iff\<close>)
  ultimately show ?thesis using level_le [of k "of_int q" t ?l] by auto
qed

theorem rate_limit_bound_witness:
  "of_nat (served ''10.0.0.5'' [Allow 0 ''10.0.0.5'' 1 32 128, Allow 500 ''10.0.0.6'' 7 32 128, Allow 1000 ''10.0.0.5'' 1 32 128,
      Cleanup 2000 minute] (new_limiter 1)) \<le> (1 + 2000 / of_int second * 1 :: rat)"
proof -
  have p: "parse_ip ''10.0.0.5'' = Some (v4_in_v6 0x0a000005)" "parse_ip ''10.0.0.6'' = Some (v4_in_v6 0x0a000006)"
    by (simp_all add: parse_ip_def parse_eval4)
  have v: "v4_string 0x0a000005 = ''10.0.0.5''" "v4_string 0x0a000006 = ''10.0.0.6''" by code_simp+
  have c: "client_key ''10.0.0.5'' 32 128 = ''10.0.0.5''" "client_key ''10.0.0.6'' 32 128 = ''10.0.0.6''"
    by (simp_all add: client_key_def p to4_v4 Let_def v)
  let ?xs = "[Allow 0 ''10.0.0.5'' 1 32 128, Allow 500 ''10.0.0.6'' 7 32 128, Allow 1000 ''10.0.0.5'' 1 32 128, Cleanup 2000 minute]"
  have "card {''10.0.0.5'', ''10.0.0.6'', ''10.0.0.5''} \<le> 65536"
    using card_length [of "[''10.0.0.5'', ''10.0.0.6'', ''10.0.0.5'']"] by simp
  then have "losses ''10.0.0.5'' ?xs (new_limiter 1) = 0 \<and> of_nat (served ''10.0.0.5'' ?xs (new_limiter 1)) \<le>
      (of_int 1 + of_nat (losses ''10.0.0.5'' ?xs (new_limiter 1)) * of_int 1 + of_int (2000 - 0) / of_int second * of_int 1 :: rat)"
    using rate_limit_bound [of "''10.0.0.5''" 1 0 2000 ?xs 1]
    by (simp add: c minute_def second_def max_rate_limit_buckets_def del: served.simps losses.simps)
  then show ?thesis by simp
qed

text \<open>Whatever calls and cleanups run on it, the limiter never holds more buckets than its bound, and
  every bucket has exactly one place in the eviction order.\<close>

theorem limiter_bounded:
  "length (rl_buckets (fold (\<lambda>x l. snd (rl_step x l)) xs (new_limiter q))) \<le> max_rate_limit_buckets \<and>
   distinct (rl_order (fold (\<lambda>x l. snd (rl_step x l)) xs (new_limiter q))) \<and>
   set (rl_order (fold (\<lambda>x l. snd (rl_step x l)) xs (new_limiter q))) =
     set (gm_keys (rl_buckets (fold (\<lambda>x l. snd (rl_step x l)) xs (new_limiter q))))"
proof -
  have "limiter_inv (new_limiter q)" by (simp add: new_limiter_def limiter_inv_def max_rate_limit_buckets_def)
  then have "limiter_inv (fold (\<lambda>x l. snd (rl_step x l)) xs (new_limiter q))" by (rule limiter_sys.run_keeps)
  then show ?thesis by (simp add: limiter_inv_def rl_run_max) (simp add: new_limiter_def)
qed

end
