(* ===== verification/Dns_Msg.thy ===== *)
theory Dns_Msg
  imports Net_Addr
begin

text \<open>
  DNS messages as the program sees them: the fields of dns.Msg, dns.Question, the resource
  records and the EDNS options that some function under src/ reads or writes. The OPT
  pseudo-record of the additional section is a field of its own (\<open>m_opt\<close>), so that IsEdns0 and
  "every additional record that is not an OPT" are plain field accesses. The functions of the DNS
  package that compute (SetReply, Fqdn, IsDomainName, Truncate, the name tables) are not in the
  repository: they are the fields of \<open>dns_lib\<close>, a parameter of the model.
\<close>

section \<open>Codes\<close>

definition type_A :: u16 where "type_A = 1"
definition type_CNAME :: u16 where "type_CNAME = 5"
definition type_SOA :: u16 where "type_SOA = 6"
definition type_PTR :: u16 where "type_PTR = 12"
definition type_MX :: u16 where "type_MX = 15"
definition type_TXT :: u16 where "type_TXT = 16"
definition type_AAAA :: u16 where "type_AAAA = 28"
definition type_SRV :: u16 where "type_SRV = 33"
definition type_SVCB :: u16 where "type_SVCB = 64"
definition type_HTTPS :: u16 where "type_HTTPS = 65"
definition type_ANY :: u16 where "type_ANY = 255"
definition type_CAA :: u16 where "type_CAA = 257"

definition class_INET :: u16 where "class_INET = 1"

definition rcode_success :: nat where "rcode_success = 0"
definition rcode_format_error :: nat where "rcode_format_error = 1"
definition rcode_server_failure :: nat where "rcode_server_failure = 2"
definition rcode_name_error :: nat where "rcode_name_error = 3"
definition rcode_refused :: nat where "rcode_refused = 5"

definition opcode_query :: nat where "opcode_query = 0"

definition min_msg_size :: u16 where "min_msg_size = 512"

lemmas type_defs = type_A_def type_CNAME_def type_SOA_def type_PTR_def type_MX_def type_TXT_def
  type_AAAA_def type_SRV_def type_SVCB_def type_HTTPS_def type_ANY_def type_CAA_def

lemmas rcode_defs = rcode_success_def rcode_format_error_def rcode_server_failure_def
  rcode_name_error_def rcode_refused_def

text \<open>Extended DNS error codes (RFC 8914) the server attaches.\<close>

definition ede_other :: u16 where "ede_other = 0"
definition ede_stale_answer :: u16 where "ede_stale_answer = 3"
definition ede_cached_error :: u16 where "ede_cached_error = 13"
definition ede_filtered :: u16 where "ede_filtered = 17"
definition ede_prohibited :: u16 where "ede_prohibited = 18"
definition ede_stale_nxdomain :: u16 where "ede_stale_nxdomain = 19"
definition ede_network_error :: u16 where "ede_network_error = 23"
definition ede_invalid_data :: u16 where "ede_invalid_data = 24"

section \<open>Records and messages\<close>

text \<open>A service parameter of an SVCB or HTTPS record: the ipv6hint, or any other parameter.\<close>

datatype svcb_value = IPv6Hint "ip list" | SvcbOther u16 string

datatype rdata =
    RD_A "u32 option"  \<comment> \<open>None is a nil address\<close>
  | RD_AAAA "ip option"
  | RD_CNAME string
  | RD_PTR string
  | RD_TXT "string list"
  | RD_MX u16 string
  | RD_SRV u16 u16 u16 string
  | RD_SOA u32  \<comment> \<open>the MINIMUM field\<close>
  | RD_CAA u8 string string
  | RD_SVCB u16 string "svcb_value list"
  | RD_HTTPS u16 string "svcb_value list"
  | RD_Other string

record rr =
  rr_name :: string
  rr_type :: u16
  rr_class :: u16
  rr_ttl :: u32
  rr_data :: rdata

record question =
  q_name :: string
  q_type :: u16
  q_class :: u16

text \<open>An EDNS0 client-subnet option; the address is nil or its 16-byte form.\<close>

record ecs =
  ecs_family :: u16
  ecs_netmask :: u8
  ecs_scope :: u8
  ecs_address :: "ip option"

datatype edns_option = OptECS ecs | OptEDE u16 string | OptOther u16 string

record opt =
  o_udp_size :: u16
  o_version :: u8
  o_do :: bool
  o_options :: "edns_option list"

record msg =
  m_id :: u16
  m_response :: bool
  m_opcode :: nat
  m_authoritative :: bool
  m_truncated :: bool
  m_ra :: bool
  m_ad :: bool
  m_cd :: bool
  m_rcode :: nat
  m_question :: "question list"
  m_answer :: "rr list"
  m_ns :: "rr list"
  m_extra :: "rr list"
  m_opt :: "opt option"

definition empty_msg :: msg where
  "empty_msg = \<lparr>m_id = 0, m_response = False, m_opcode = 0, m_authoritative = False,
     m_truncated = False, m_ra = False, m_ad = False, m_cd = False, m_rcode = rcode_success,
     m_question = [], m_answer = [], m_ns = [], m_extra = [], m_opt = None\<rparr>"

section \<open>The DNS package\<close>

record dns_lib =
  set_reply :: "msg \<Rightarrow> msg"
  fqdn :: "string \<Rightarrow> string"
  is_domain_name :: "string \<Rightarrow> bool"
  truncate_msg :: "nat \<Rightarrow> msg \<Rightarrow> msg"
  type_to_string :: "u16 \<Rightarrow> string"
  rcode_to_string :: "nat \<Rightarrow> string"

text \<open>What SetReply documents: an answer to the request, successful and empty so far.\<close>

definition lib_ok :: "dns_lib \<Rightarrow> bool" where
  "lib_ok L \<longleftrightarrow>
     (\<forall>r. m_rcode (set_reply L r) = rcode_success \<and> m_answer (set_reply L r) = [] \<and>
          m_ns (set_reply L r) = [] \<and> m_extra (set_reply L r) = [] \<and> m_opt (set_reply L r) = None \<and>
          m_id (set_reply L r) = m_id r \<and> \<not> m_truncated (set_reply L r) \<and>
          \<not> m_ad (set_reply L r))"

text \<open>A concrete instance, for evaluating the model.\<close>

definition demo_lib :: dns_lib where
  "demo_lib = \<lparr>set_reply = (\<lambda>r. empty_msg\<lparr>m_id := m_id r, m_response := True,
                  m_opcode := m_opcode r, m_question := take 1 (m_question r), m_cd := m_cd r\<rparr>),
     fqdn = (\<lambda>s. if has_suffix s ''.'' then s else s @ ''.''),
     is_domain_name = (\<lambda>s. s \<noteq> []), truncate_msg = (\<lambda>_ m. m),
     type_to_string = (\<lambda>t. if t = type_A then ''A'' else if t = type_AAAA then ''AAAA'' else ''''),
     rcode_to_string = (\<lambda>_. '''')\<rparr>"

lemma demo_lib_ok: "lib_ok demo_lib"
  by (simp add: lib_ok_def demo_lib_def empty_msg_def)

section \<open>Operations of the server on messages\<close>

text \<open>normalizeName of dnsserver/rewrites.go.\<close>

definition normalize_name :: "string \<Rightarrow> string" where
  "normalize_name s = to_lower (trim_suffix s ''.'')"

definition default_edns_udp_size :: u16 where "default_edns_udp_size = 1232"

text \<open>clientUDPSize: the advertised size, clamped to [512, 1232].\<close>

definition client_udp_size :: "msg option \<Rightarrow> u16" where
  "client_udp_size r = (case r of None \<Rightarrow> min_msg_size
     | Some m \<Rightarrow> (case m_opt m of None \<Rightarrow> min_msg_size
         | Some p \<Rightarrow> if o_udp_size p < min_msg_size then min_msg_size
                     else if default_edns_udp_size < o_udp_size p then default_edns_udp_size
                     else o_udp_size p))"

text \<open>
  responseExtra: the additional records of the upstream without its OPT, and an OPT of our own
  when the client sent one.
\<close>

definition response_opt :: "msg \<Rightarrow> opt option" where
  "response_opt request = (case m_opt request of None \<Rightarrow> None
     | Some p \<Rightarrow> Some \<lparr>o_udp_size = client_udp_size (Some request), o_version = o_version p,
                      o_do = o_do p, o_options = []\<rparr>)"

definition set_response_extra :: "msg \<Rightarrow> rr list \<Rightarrow> msg \<Rightarrow> msg" where
  "set_response_extra request extra resp = resp\<lparr>m_extra := extra, m_opt := response_opt request\<rparr>"

definition add_extended_error :: "msg \<Rightarrow> u16 \<Rightarrow> string \<Rightarrow> msg \<Rightarrow> msg" where
  "add_extended_error request code txt_msg resp =
     (case m_opt request of None \<Rightarrow> resp
      | Some _ \<Rightarrow>
          (let resp' = (case m_opt resp of
                          None \<Rightarrow> set_response_extra request (m_extra resp) resp
                        | Some _ \<Rightarrow> resp)
           in case m_opt resp' of
                None \<Rightarrow> resp'
              | Some p \<Rightarrow> resp'\<lparr>m_opt := Some (p\<lparr>o_options := o_options p @ [OptEDE code txt_msg]\<rparr>)\<rparr>))"

text \<open>withTTL: copies with one TTL.\<close>

definition with_ttl :: "u32 \<Rightarrow> rr list \<Rightarrow> rr list" where
  "with_ttl t rrs = List.map (\<lambda>r. r\<lparr>rr_ttl := t\<rparr>) rrs"

text \<open>minAnswerTTL and soaMetadata of dnsserver/cache.go.\<close>

definition min_answer_ttl :: "rr list \<Rightarrow> u32" where
  "min_answer_ttl rrs =
     fst (foldl (\<lambda>(m, init) r. if \<not> init \<or> rr_ttl r < m then (rr_ttl r, True) else (m, init))
                (0, False) rrs)"

fun soa_metadata :: "rr list \<Rightarrow> (u32 \<times> string) option" where
  "soa_metadata [] = None"
| "soa_metadata (r # rs) = (case rr_data r of
       RD_SOA minttl \<Rightarrow> Some (if minttl < rr_ttl r then minttl else rr_ttl r, rr_name r)
     | _ \<Rightarrow> soa_metadata rs)"

text \<open>stripIPv6Hints of dnsserver/pipeline.go.\<close>

definition strip_ipv6_hints :: "rr list \<Rightarrow> rr list" where
  "strip_ipv6_hints rrs = List.map (\<lambda>r. case rr_data r of
       RD_SVCB p t vs \<Rightarrow> r\<lparr>rr_data := RD_SVCB p t (filter (\<lambda>v. \<not> (case v of IPv6Hint _ \<Rightarrow> True | _ \<Rightarrow> False)) vs)\<rparr>
     | RD_HTTPS p t vs \<Rightarrow> r\<lparr>rr_data := RD_HTTPS p t (filter (\<lambda>v. \<not> (case v of IPv6Hint _ \<Rightarrow> True | _ \<Rightarrow> False)) vs)\<rparr>
     | _ \<Rightarrow> r) rrs"

section \<open>Facts\<close>

lemma min_answer_ttl_Min:
  assumes "rrs \<noteq> []"
  shows "min_answer_ttl rrs = Min (rr_ttl ` set rrs)"
proof -
  let ?f = "\<lambda>(m, init) r. if \<not> init \<or> rr_ttl r < m then (rr_ttl r, True) else (m, init)"
  have run: "foldl ?f (m, True) rs = (Min (insert m (rr_ttl ` set rs)), True)" for m rs
  proof (induction rs arbitrary: m)
    case (Cons r rs)
    have step: "?f (m, True) r = (min (rr_ttl r) m, True)" by (auto simp: min_def)
    have "Min (insert (min (rr_ttl r) m) (rr_ttl ` set rs)) = Min (insert m (insert (rr_ttl r) (rr_ttl ` set rs)))"
      by (cases "rr_ttl ` set rs = {}") (simp_all add: min.assoc min.left_commute min.commute)
    with Cons.IH show ?case by (simp only: foldl_Cons step list.set image_insert)
  qed simp
  obtain r rs where rrs: "rrs = r # rs" using assms by (cases rrs) auto
  show ?thesis using run [of "rr_ttl r" rs] by (simp add: min_answer_ttl_def rrs)
qed

lemma client_udp_size_bounds: "512 \<le> unat (client_udp_size r) \<and> unat (client_udp_size r) \<le> 1232"
  by (auto simp: client_udp_size_def min_msg_size_def default_edns_udp_size_def not_less
      word_le_nat_alt word_less_nat_alt split: option.splits)

lemma length_with_ttl [simp]: "length (with_ttl t rrs) = length rrs"
  by (simp add: with_ttl_def)

lemma add_extended_error_sections [simp]:
  "m_answer (add_extended_error q c t r) = m_answer r"
  "m_rcode (add_extended_error q c t r) = m_rcode r"
  "m_ns (add_extended_error q c t r) = m_ns r"
  "m_extra (add_extended_error q c t r) = m_extra r"
  "m_ad (add_extended_error q c t r) = m_ad r"
  "m_id (add_extended_error q c t r) = m_id r"
  by (simp_all add: add_extended_error_def set_response_extra_def Let_def split: option.splits)

lemma set_response_extra_sections [simp]:
  "m_answer (set_response_extra q x r) = m_answer r"
  "m_rcode (set_response_extra q x r) = m_rcode r"
  "m_ns (set_response_extra q x r) = m_ns r"
  "m_extra (set_response_extra q x r) = x"
  "m_ad (set_response_extra q x r) = m_ad r"
  "m_id (set_response_extra q x r) = m_id r"
  by (simp_all add: set_response_extra_def)

text \<open>A client that sent no OPT record receives none: EDNS stays hop by hop.\<close>

lemma add_extended_error_no_edns: "m_opt q = None \<Longrightarrow> add_extended_error q c t r = r"
  by (simp add: add_extended_error_def)

end
