(* ===== verification/Lru_Cache.thy ===== *)
theory Lru_Cache
  imports Dns_Msg
begin

text \<open>
  The response cache of dnsserver/cache.go: a doubly linked list of elements, most recently used
  first, and a map from keys to elements, with the TTL bounds, the counters and the per-type
  statistics. A list element is a number; \<open>c_ll\<close> lists the elements with their values in list
  order and \<open>c_items\<close> maps a key to its element, so that the two structures can disagree and the
  invariant has to say that they do not. The clock is an argument of the operations. Counters
  that only count are unbounded.
\<close>

section \<open>Keys, entries, statistics\<close>

record cache_key =
  ck_name :: string
  ck_qtype :: u16
  ck_qclass :: u16
  ck_group :: string
  ck_do :: bool
  ck_cd :: bool
  ck_ecs :: string
  ck_policy :: string
  ck_route :: string

record cache_entry =
  ce_answers :: "rr list"
  ce_authority :: "rr list"
  ce_rcode :: nat
  ce_ad :: bool
  ce_stored :: int
  ce_ttl :: u32
  ce_hits :: u32
  ce_negative :: bool
  ce_soa :: string
  ce_servfail :: bool
  ce_prefetched :: bool
  ce_expired_observed :: bool

definition remaining_ttl :: "cache_entry \<Rightarrow> int \<Rightarrow> int" where
  "remaining_ttl e now = int (unat (ce_ttl e)) - trunc_div (now - ce_stored e) second"

record qtype_stats =
  qs_hits :: nat
  qs_misses :: nat
  qs_evictions :: nat
  qs_expirations :: nat

record counters =
  cn_hits :: nat
  cn_fresh :: nat
  cn_negative :: nat
  cn_prefetched :: nat
  cn_servfail :: nat
  cn_misses :: nat
  cn_stale :: nat
  cn_evictions :: nat
  cn_cleared :: nat
  cn_refreshes :: nat
  cn_prefetches :: nat
  cn_coalesced :: nat
  cn_invalidated :: nat

type_synonym element = nat

record cache =
  c_cap :: int
  c_min :: u32
  c_max :: u32
  c_optimistic :: bool
  c_ll :: "(element \<times> cache_key \<times> cache_entry) list"
  c_items :: "(cache_key, element) gomap"
  c_next :: element
  c_cnt :: counters
  c_qtype :: "(u16, qtype_stats) gomap"

definition default_cache_size :: int where "default_cache_size = 25000"
definition min_cache_ttl :: u32 where "min_cache_ttl = 60"
definition max_cache_ttl :: u32 where "max_cache_ttl = 600"

definition zero_counters :: counters where
  "zero_counters = \<lparr>cn_hits = 0, cn_fresh = 0, cn_negative = 0, cn_prefetched = 0, cn_servfail = 0,
     cn_misses = 0, cn_stale = 0, cn_evictions = 0, cn_cleared = 0, cn_refreshes = 0,
     cn_prefetches = 0, cn_coalesced = 0, cn_invalidated = 0\<rparr>"

text \<open>The defaults and the swap of reversed bounds, shared by newCache and reconfigure.\<close>

definition bounds_of :: "u32 \<Rightarrow> u32 \<Rightarrow> u32 \<times> u32" where
  "bounds_of lo hi =
     (let lo' = (if lo = 0 then min_cache_ttl else lo);
          hi' = (if hi = 0 then max_cache_ttl else hi)
      in if hi' < lo' then (hi', lo') else (lo', hi'))"

definition capacity_of :: "int \<Rightarrow> int" where
  "capacity_of n = (if n \<le> 0 then default_cache_size else n)"

definition new_cache :: "int \<Rightarrow> u32 \<Rightarrow> u32 \<Rightarrow> cache" where
  "new_cache capacity lo hi =
     \<lparr>c_cap = capacity_of capacity, c_min = fst (bounds_of lo hi), c_max = snd (bounds_of lo hi),
      c_optimistic = False, c_ll = [], c_items = [], c_next = 0,
      c_cnt = zero_counters, c_qtype = []\<rparr>"

definition clamp :: "cache \<Rightarrow> u32 \<Rightarrow> u32" where
  "clamp c ttl = (if ttl < c_min c then c_min c else if c_max c < ttl then c_max c else ttl)"

definition clamp_ttl :: "u32 \<Rightarrow> u32" where
  "clamp_ttl ttl = (if ttl < min_cache_ttl then min_cache_ttl
                    else if max_cache_ttl < ttl then max_cache_ttl else ttl)"

section \<open>Operations\<close>

definition zero_qstats :: qtype_stats where
  "zero_qstats = \<lparr>qs_hits = 0, qs_misses = 0, qs_evictions = 0, qs_expirations = 0\<rparr>"

text \<open>The addQType functions: read the counter of a type (zero when absent), bump, write back.\<close>

definition bump_qtype :: "(qtype_stats \<Rightarrow> qtype_stats) \<Rightarrow> u16 \<Rightarrow> cache \<Rightarrow> cache" where
  "bump_qtype f t c =
     c\<lparr>c_qtype := gm_set t (f (case gm_get (c_qtype c) t of None \<Rightarrow> zero_qstats | Some s \<Rightarrow> s)) (c_qtype c)\<rparr>"

definition add_qtype_hit :: "u16 \<Rightarrow> cache \<Rightarrow> cache" where
  "add_qtype_hit = bump_qtype (qs_hits_update Suc)"

definition add_qtype_miss :: "u16 \<Rightarrow> cache \<Rightarrow> cache" where
  "add_qtype_miss = bump_qtype (qs_misses_update Suc)"

definition add_qtype_eviction :: "u16 \<Rightarrow> cache \<Rightarrow> cache" where
  "add_qtype_eviction = bump_qtype (qs_evictions_update Suc)"

definition add_qtype_expiration :: "u16 \<Rightarrow> cache \<Rightarrow> cache" where
  "add_qtype_expiration = bump_qtype (qs_expirations_update Suc)"

definition remove_element :: "element option \<Rightarrow> cache \<Rightarrow> cache" where
  "remove_element el c = (case el of None \<Rightarrow> c
     | Some i \<Rightarrow> (case gm_get (c_ll c) i of None \<Rightarrow> c
         | Some (k, _) \<Rightarrow> c\<lparr>c_ll := gm_del i (c_ll c), c_items := gm_del k (c_items c)\<rparr>))"

definition move_to_front :: "element \<Rightarrow> cache \<Rightarrow> cache" where
  "move_to_front i c = (case gm_get (c_ll c) i of None \<Rightarrow> c
     | Some v \<Rightarrow> c\<lparr>c_ll := (i, v) # gm_del i (c_ll c)\<rparr>)"

text \<open>Writing through the entry pointer of an element.\<close>

definition set_value :: "element \<Rightarrow> cache_key \<Rightarrow> cache_entry \<Rightarrow> cache \<Rightarrow> cache" where
  "set_value i k e c = c\<lparr>c_ll := gm_set i (k, e) (c_ll c)\<rparr>"

definition elem_entry :: "cache \<Rightarrow> element \<Rightarrow> cache_entry option" where
  "elem_entry c i = map_option snd (gm_get (c_ll c) i)"

definition count_hit :: "cache_entry \<Rightarrow> counters \<Rightarrow> counters" where
  "count_hit e n =
     (let n1 = n\<lparr>cn_hits := Suc (cn_hits n)\<rparr>;
          n2 = (if ce_prefetched e then n1\<lparr>cn_prefetched := Suc (cn_prefetched n1)\<rparr> else n1);
          n3 = (if ce_negative e then n2\<lparr>cn_negative := Suc (cn_negative n2)\<rparr> else n2);
          n4 = (if ce_servfail e then n3\<lparr>cn_servfail := Suc (cn_servfail n3)\<rparr> else n3)
      in if \<not> ce_prefetched e \<and> \<not> ce_negative e \<and> \<not> ce_servfail e
         then n4\<lparr>cn_fresh := Suc (cn_fresh n4)\<rparr> else n4)"

definition count_miss :: "u16 \<Rightarrow> cache \<Rightarrow> cache" where
  "count_miss t c = add_qtype_miss t (c\<lparr>c_cnt := cn_misses_update Suc (c_cnt c)\<rparr>)"

definition u32_of :: "int \<Rightarrow> u32" where
  "u32_of r = word_of_int (if 0xFFFFFFFF < r then 0xFFFFFFFF else r)"

definition cache_get :: "int \<Rightarrow> cache_key \<Rightarrow> cache \<Rightarrow> (cache_entry \<times> u32) option \<times> cache" where
  "cache_get now key c =
     (case gm_get (c_items c) key of
        None \<Rightarrow> (None, count_miss (ck_qtype key) c)
      | Some i \<Rightarrow>
          (case elem_entry c i of
             None \<Rightarrow> (None, c)
           | Some e \<Rightarrow>
               (let remaining = remaining_ttl e now
                in if remaining \<le> 0 then
                     (let c1 = (if ce_expired_observed e then c
                                else add_qtype_expiration (ck_qtype key)
                                       (set_value i key (e\<lparr>ce_expired_observed := True\<rparr>) c));
                          c2 = (if c_optimistic c then c1 else remove_element (Some i) c1)
                      in (None, count_miss (ck_qtype key) c2))
                   else
                     (let e' = e\<lparr>ce_hits := ce_hits e + 1\<rparr>;
                          c1 = add_qtype_hit (ck_qtype key) (c\<lparr>c_cnt := count_hit e (c_cnt c)\<rparr>)
                      in (Some (e', u32_of remaining), move_to_front i (set_value i key e' c1))))))"

definition get_stale :: "int \<Rightarrow> cache_key \<Rightarrow> cache \<Rightarrow> cache_entry option \<times> cache" where
  "get_stale now key c =
     (case gm_get (c_items c) key of
        None \<Rightarrow> (None, c)
      | Some i \<Rightarrow>
          (case elem_entry c i of
             None \<Rightarrow> (None, c)
           | Some e \<Rightarrow> (Some e, if remaining_ttl e now \<le> 0
                                then c\<lparr>c_cnt := cn_stale_update Suc (c_cnt c)\<rparr> else c)))"

definition ll_back :: "cache \<Rightarrow> element option" where
  "ll_back c = (if c_ll c = [] then None else Some (fst (last (c_ll c))))"

definition evict :: "cache \<Rightarrow> cache" where
  "evict c =
     (let c1 = c\<lparr>c_cnt := cn_evictions_update Suc (c_cnt c)\<rparr>;
          c2 = (if c_ll c1 = [] then c1
                else add_qtype_eviction (ck_qtype (fst (snd (last (c_ll c1))))) c1)
      in remove_element (ll_back c1) c2)"

definition push_front :: "cache_key \<Rightarrow> cache_entry \<Rightarrow> cache \<Rightarrow> cache" where
  "push_front key e c =
     c\<lparr>c_ll := (c_next c, key, e) # c_ll c, c_items := gm_set key (c_next c) (c_items c),
       c_next := Suc (c_next c)\<rparr>"

definition cache_set :: "cache_key \<Rightarrow> cache_entry \<Rightarrow> cache \<Rightarrow> cache" where
  "cache_set key e c =
     (case gm_get (c_items c) key of
        Some i \<Rightarrow> set_value i key e (move_to_front i c)
      | None \<Rightarrow> push_front key e (if c_cap c \<le> int (length (c_items c)) then evict c else c))"

definition cache_len :: "cache \<Rightarrow> nat" where
  "cache_len c = length (c_items c)"

definition cache_clear :: "cache \<Rightarrow> nat \<times> cache" where
  "cache_clear c =
     (let n = length (c_items c)
      in (n, c\<lparr>c_ll := [], c_items := [], c_cnt := cn_cleared_update ((+) n) (c_cnt c)\<rparr>))"

definition reconfigure :: "int \<Rightarrow> u32 \<Rightarrow> u32 \<Rightarrow> bool \<Rightarrow> cache \<Rightarrow> cache" where
  "reconfigure capacity lo hi optimistic c =
     c\<lparr>c_cap := capacity_of capacity, c_min := fst (bounds_of lo hi), c_max := snd (bounds_of lo hi),
       c_optimistic := optimistic, c_ll := [], c_items := [],
       c_cnt := cn_cleared_update ((+) (length (c_items c))) (c_cnt c)\<rparr>"

definition inv_step :: "(cache_key \<Rightarrow> bool) \<Rightarrow> nat \<times> cache \<Rightarrow> cache_key \<times> element \<Rightarrow> nat \<times> cache" where
  "inv_step P acc ki =
     (if P (fst ki) then (Suc (fst acc), remove_element (Some (snd ki)) (snd acc)) else acc)"

definition cache_invalidate :: "(cache_key \<Rightarrow> bool) \<Rightarrow> cache \<Rightarrow> nat \<times> cache" where
  "cache_invalidate P c =
     (case foldl (inv_step P) (0, c) (c_items c) of
        (n, c') \<Rightarrow> (n, c'\<lparr>c_cnt := cn_invalidated_update ((+) n) (c_cnt c')\<rparr>))"

section \<open>The invariant\<close>

definition item_of :: "element \<times> cache_key \<times> cache_entry \<Rightarrow> cache_key \<times> element" where
  "item_of x = (fst (snd x), fst x)"

text \<open>
  The map and the list hold the same elements, no element and no key occurs twice, the list fits
  the capacity, the TTL bounds are ordered and fresh elements are new.
\<close>

definition cache_inv :: "cache \<Rightarrow> bool" where
  "cache_inv c \<longleftrightarrow>
     0 < c_cap c \<and> c_min c \<le> c_max c \<and>
     gm_ok (c_items c) \<and> gm_ok (c_ll c) \<and> distinct (List.map (fst \<circ> snd) (c_ll c)) \<and>
     set (c_items c) = item_of ` set (c_ll c) \<and>
     int (length (c_ll c)) \<le> c_cap c \<and>
     (\<forall>i \<in> set (gm_keys (c_ll c)). i < c_next c)"

text \<open>The abstract cache: the list of bindings, most recently used first.\<close>

definition contents :: "cache \<Rightarrow> (cache_key \<times> cache_entry) list" where
  "contents c = List.map snd (c_ll c)"

definition lru_set :: "int \<Rightarrow> 'k \<Rightarrow> 'v \<Rightarrow> ('k \<times> 'v) list \<Rightarrow> ('k \<times> 'v) list" where
  "lru_set cap k v xs =
     (if k \<in> fst ` set xs then (k, v) # gm_del k xs
      else if cap \<le> int (length xs) then (k, v) # butlast xs
      else (k, v) # xs)"

lemma cache_invD:
  assumes "cache_inv c"
  shows "gm_ok (c_items c)" "gm_ok (c_ll c)" "distinct (List.map (fst \<circ> snd) (c_ll c))"
    "set (c_items c) = item_of ` set (c_ll c)" "int (length (c_ll c)) \<le> c_cap c" "0 < c_cap c"
    "c_min c \<le> c_max c" "i \<in> set (gm_keys (c_ll c)) \<Longrightarrow> i < c_next c"
  using assms unfolding cache_inv_def by blast+

lemma cache_invI:
  assumes "gm_ok (c_items c)" "gm_ok (c_ll c)" "distinct (List.map (fst \<circ> snd) (c_ll c))"
    "set (c_items c) = item_of ` set (c_ll c)" "int (length (c_ll c)) \<le> c_cap c" "0 < c_cap c"
    "c_min c \<le> c_max c" "\<And>i. i \<in> set (gm_keys (c_ll c)) \<Longrightarrow> i < c_next c"
  shows "cache_inv c"
  using assms unfolding cache_inv_def by blast

lemma cache_inv_frame [simp]:
  "cache_inv (c\<lparr>c_cnt := n\<rparr>) = cache_inv c" "cache_inv (c\<lparr>c_qtype := q\<rparr>) = cache_inv c"
  "contents (c\<lparr>c_cnt := n\<rparr>) = contents c" "contents (c\<lparr>c_qtype := q\<rparr>) = contents c"
  by (simp_all add: cache_inv_def contents_def)

lemma bump_qtype_frame [simp]:
  "cache_inv (bump_qtype f t c) = cache_inv c" "contents (bump_qtype f t c) = contents c"
  "c_ll (bump_qtype f t c) = c_ll c" "c_items (bump_qtype f t c) = c_items c"
  "c_cap (bump_qtype f t c) = c_cap c" "c_next (bump_qtype f t c) = c_next c"
  "c_min (bump_qtype f t c) = c_min c" "c_max (bump_qtype f t c) = c_max c"
  "c_cnt (bump_qtype f t c) = c_cnt c" "c_optimistic (bump_qtype f t c) = c_optimistic c"
  by (simp_all add: bump_qtype_def)

lemmas qtype_ops = add_qtype_hit_def add_qtype_miss_def add_qtype_eviction_def add_qtype_expiration_def

lemma cache_inv_len: "cache_inv c \<Longrightarrow> length (c_items c) = length (c_ll c)"
proof -
  assume inv: "cache_inv c"
  have d: "distinct (c_items c)" using cache_invD(1) [OF inv] by (simp only: distinct_map)
  have "distinct (List.map snd (List.map item_of (c_ll c)))"
    using cache_invD(2) [OF inv] by (simp add: item_of_def o_def)
  then have dl: "distinct (List.map item_of (c_ll c))" by (simp only: distinct_map)
  have "length (c_items c) = card (set (c_items c))" using d by (simp add: distinct_card)
  also have "\<dots> = card (set (List.map item_of (c_ll c)))" using cache_invD(4) [OF inv] by simp
  also have "\<dots> = length (c_ll c)" using dl by (metis distinct_card length_map)
  finally show ?thesis .
qed

lemma items_ll: "cache_inv c \<Longrightarrow> gm_get (c_items c) k = Some i \<longleftrightarrow> (\<exists>e. (i, k, e) \<in> set (c_ll c))"
proof -
  assume inv: "cache_inv c"
  have "gm_get (c_items c) k = Some i \<longleftrightarrow> (k, i) \<in> set (c_items c)"
    using cache_invD(1) [OF inv] by (rule map_of_eq_Some_iff)
  also have "\<dots> \<longleftrightarrow> (\<exists>e. (i, k, e) \<in> set (c_ll c))"
    unfolding cache_invD(4) [OF inv] by (force simp: item_of_def)
  finally show ?thesis .
qed

lemma items_None: "cache_inv c \<Longrightarrow> gm_get (c_items c) k = None \<longleftrightarrow> (\<forall>i e. (i, k, e) \<notin> set (c_ll c))"
  by (metis items_ll not_None_eq)

lemma ll_get: "cache_inv c \<Longrightarrow> gm_get (c_ll c) i = Some v \<longleftrightarrow> (i, v) \<in> set (c_ll c)"
  by (rule map_of_eq_Some_iff, erule cache_invD(2))

lemma entry_via_items:
  "cache_inv c \<Longrightarrow> gm_get (c_items c) k = Some i \<Longrightarrow>
    \<exists>e. gm_get (c_ll c) i = Some (k, e) \<and> (i, k, e) \<in> set (c_ll c)"
  by (metis items_ll ll_get)

lemma gm_ok_contents: "cache_inv c \<Longrightarrow> gm_ok (contents c)"
  by (drule cache_invD(3)) (simp add: contents_def)

text \<open>Looking a key up through the map and the element is looking it up in the contents.\<close>

lemma contents_get:
  assumes inv: "cache_inv c"
  shows "gm_get (contents c) k = Option.bind (gm_get (c_items c) k) (elem_entry c)"
proof (cases "gm_get (c_items c) k")
  case None
  with inv have "k \<notin> set (gm_keys (contents c))"
    by (auto simp: items_None contents_def)
  then have "gm_get (contents c) k = None" by (simp add: map_of_eq_None_iff)
  with None show ?thesis by (simp only: Option.bind.simps)
next
  case (Some i)
  with inv obtain e where e: "gm_get (c_ll c) i = Some (k, e)" "(i, k, e) \<in> set (c_ll c)"
    by (blast dest: entry_via_items)
  then have "(k, e) \<in> set (contents c)" by (force simp: contents_def)
  then have "gm_get (contents c) k = Some e"
    using gm_ok_contents [OF inv] by (rule map_of_is_SomeI [rotated])
  with e Some show ?thesis by (simp add: elem_entry_def)
qed

text \<open>Elements and keys determine each other.\<close>

lemma elem_key_iff:
  assumes "cache_inv c" and "(i, k, e) \<in> set (c_ll c)" and "x \<in> set (c_ll c)"
  shows "fst x = i \<longleftrightarrow> fst (snd x) = k"
proof
  assume "fst x = i"
  then show "fst (snd x) = k"
    using assms cache_invD(2) [OF assms(1)] by (metis eq_key_imp_eq_value fst_conv prod.collapse)
next
  assume k: "fst (snd x) = k"
  have "inj_on (fst \<circ> snd) (set (c_ll c))"
    using cache_invD(3) [OF assms(1)] by (simp add: distinct_map)
  with assms k show "fst x = i" by (metis comp_apply fst_conv inj_on_def snd_conv)
qed

lemma new_cache_inv: "cache_inv (new_cache n lo hi)"
  by (auto simp: cache_inv_def new_cache_def capacity_of_def default_cache_size_def bounds_of_def Let_def)

lemma new_cache_contents [simp]: "contents (new_cache n lo hi) = []"
  by (simp add: contents_def new_cache_def)

section \<open>Each operation on the contents\<close>

lemma gm_del_filter:
  "(\<And>x. x \<in> set m \<Longrightarrow> fst x = i \<longleftrightarrow> fst (snd x) = k) \<Longrightarrow>
    gm_del i m = filter (\<lambda>x. fst (snd x) \<noteq> k) m"
proof (induction m)
  case (Cons p m)
  have "gm_del i m = filter (\<lambda>x. fst (snd x) \<noteq> k) m"
    by (rule Cons.IH) (rule Cons.prems, simp)
  moreover have "fst p = i \<longleftrightarrow> fst (snd p) = k" by (rule Cons.prems) simp
  ultimately show ?case by (cases p) simp
qed simp

lemma gm_del_map:
  "gm_del k (List.map snd m) = List.map snd (filter (\<lambda>x. fst (snd x) \<noteq> k) m)"
  by (induction m) auto

lemma remove_element_None [simp]: "remove_element None c = c"
  by (simp add: remove_element_def)

lemma remove_element_props:
  assumes inv: "cache_inv c" and el: "(i, k, e) \<in> set (c_ll c)"
  shows "cache_inv (remove_element (Some i) c)"
    and "contents (remove_element (Some i) c) = gm_del k (contents c)"
    and "c_ll (remove_element (Some i) c) = gm_del i (c_ll c)"
    and "c_items (remove_element (Some i) c) = gm_del k (c_items c)"
proof -
  have eq: "remove_element (Some i) c = c\<lparr>c_ll := gm_del i (c_ll c), c_items := gm_del k (c_items c)\<rparr>"
    using iffD2 [OF ll_get [OF inv] el] by (simp add: remove_element_def)
  show "c_ll (remove_element (Some i) c) = gm_del i (c_ll c)"
    and "c_items (remove_element (Some i) c) = gm_del k (c_items c)"
    by (simp_all add: eq)
  have iff: "fst x = i \<longleftrightarrow> fst (snd x) = k" if "x \<in> set (c_ll c)" for x
    using inv el that by (rule elem_key_iff)
  have del: "gm_del i (c_ll c) = filter (\<lambda>x. fst (snd x) \<noteq> k) (c_ll c)"
    using iff by (intro gm_del_filter) blast
  show "contents (remove_element (Some i) c) = gm_del k (contents c)"
    by (simp add: contents_def eq del gm_del_map)
  have "set (gm_del k (c_items c)) = item_of ` set (gm_del i (c_ll c))"
    unfolding del AList.delete_eq [of k] using cache_invD(4) [OF inv] by (auto simp: item_of_def)
  moreover have "distinct (List.map (fst \<circ> snd) (gm_del i (c_ll c)))"
    unfolding del by (rule distinct_map_filter, rule cache_invD(3) [OF inv])
  moreover have "int (length (gm_del i (c_ll c))) \<le> c_cap c"
    using cache_invD(5) [OF inv] length_delete_le [of i "c_ll c"] by linarith
  moreover have "j < c_next c" if "j \<in> set (gm_keys (gm_del i (c_ll c)))" for j
    using that cache_invD(8) [OF inv, of j] by (simp only: gm_keys_del) blast
  ultimately show "cache_inv (remove_element (Some i) c)"
    unfolding eq
    by (intro cache_invI) (use cache_invD [OF inv] in \<open>simp_all add: gm_ok_del\<close>)
qed


lemma gm_set_in:
  assumes "gm_ok m" and "k \<in> set (gm_keys m)"
  shows "gm_set k v m = List.map (\<lambda>x. if fst x = k then (k, v) else x) m"
  using assms
proof (induction m)
  case (Cons p m)
  show ?case
  proof (cases "fst p = k")
    case True
    with Cons.prems(1) have "k \<notin> fst ` set m" by auto
    then have "List.map (\<lambda>x. if fst x = k then (k, v) else x) m = m" by (intro map_idI) force
    with True show ?thesis by (cases p) simp
  next
    case False
    with Cons show ?thesis by (cases p) simp
  qed
qed simp

lemma set_value_props:
  assumes inv: "cache_inv c" and el: "(i, k, e0) \<in> set (c_ll c)"
  shows "cache_inv (set_value i k e c)"
    and "contents (set_value i k e c) = gm_set k e (contents c)"
    and "(i, k, e) \<in> set (c_ll (set_value i k e c))"
proof -
  have ik: "i \<in> set (gm_keys (c_ll c))" using el by force
  have kk: "k \<in> set (gm_keys (contents c))" using el by (force simp: contents_def)
  define f where "f = (\<lambda>x :: element \<times> cache_key \<times> cache_entry. if fst x = i then (i, k, e) else x)"
  have ll: "c_ll (set_value i k e c) = List.map f (c_ll c)"
    by (simp add: set_value_def f_def gm_set_in [OF cache_invD(2) [OF inv] ik])
  have iff: "fst x = i \<longleftrightarrow> fst (snd x) = k" if "x \<in> set (c_ll c)" for x
    using inv el that by (rule elem_key_iff)
  have same: "fst (f x) = fst x \<and> fst (snd (f x)) = fst (snd x)" if "x \<in> set (c_ll c)" for x
    using iff [OF that] by (auto simp: f_def)
  have keys: "List.map fst (List.map f (c_ll c)) = List.map fst (c_ll c)"
    "List.map (fst \<circ> snd) (List.map f (c_ll c)) = List.map (fst \<circ> snd) (c_ll c)"
    "item_of ` f ` set (c_ll c) = item_of ` set (c_ll c)"
    using same by (simp_all add: item_of_def image_image cong: image_cong)
  show "contents (set_value i k e c) = gm_set k e (contents c)"
    unfolding gm_set_in [OF gm_ok_contents [OF inv] kk] unfolding contents_def ll
    by (simp add: f_def) (metis iff fst_conv)
  show "(i, k, e) \<in> set (c_ll (set_value i k e c))"
    unfolding ll using el by (force simp: f_def)
  show "cache_inv (set_value i k e c)"
  proof (rule cache_invI)
    show "gm_ok (c_ll (set_value i k e c))" "distinct (List.map (fst \<circ> snd) (c_ll (set_value i k e c)))"
      unfolding ll keys by (rule cache_invD [OF inv])+
  qed (use cache_invD [OF inv] keys in \<open>simp_all only: ll set_map list.set_map length_map\<close>,
       simp_all add: set_value_def)
qed

lemma move_to_front_props:
  assumes inv: "cache_inv c" and el: "(i, k, e) \<in> set (c_ll c)"
  shows "cache_inv (move_to_front i c)"
    and "contents (move_to_front i c) = (k, e) # gm_del k (contents c)"
    and "c_items (move_to_front i c) = c_items c"
    and "(i, k, e) \<in> set (c_ll (move_to_front i c))"
proof -
  have eq: "move_to_front i c = c\<lparr>c_ll := (i, k, e) # gm_del i (c_ll c)\<rparr>"
    using iffD2 [OF ll_get [OF inv] el] by (simp add: move_to_front_def)
  have iff: "fst x = i \<longleftrightarrow> fst (snd x) = k" if "x \<in> set (c_ll c)" for x
    using inv el that by (rule elem_key_iff)
  have del: "gm_del i (c_ll c) = filter (\<lambda>x. fst (snd x) \<noteq> k) (c_ll c)"
    using iff by (intro gm_del_filter) blast
  show "c_items (move_to_front i c) = c_items c" "(i, k, e) \<in> set (c_ll (move_to_front i c))"
    by (simp_all add: eq)
  show "contents (move_to_front i c) = (k, e) # gm_del k (contents c)"
    by (simp add: contents_def eq del gm_del_map)
  have "insert (i, k, e) (set (gm_del i (c_ll c))) = set (c_ll c)"
  proof -
    have "x = (i, k, e)" if "x \<in> set (c_ll c)" "fst x = i" for x
    proof -
      from that have "(i, snd x) \<in> set (c_ll c)" by (metis prod.collapse)
      then have "snd x = (k, e)" using el by (rule eq_key_imp_eq_value [OF cache_invD(2) [OF inv]])
      with that show ?thesis by (metis prod.collapse)
    qed
    moreover have "set (gm_del i (c_ll c)) = {x \<in> set (c_ll c). fst x \<noteq> i}"
      by (auto simp: AList.delete_eq)
    ultimately show ?thesis using el by blast
  qed
  then have items: "item_of ` insert (i, k, e) (set (gm_del i (c_ll c))) = set (c_items c)"
    by (simp only: cache_invD(4) [OF inv])
  have "i \<in> set (gm_keys (c_ll c))" using el by force
  moreover from this have "0 < length (c_ll c)" by (cases "c_ll c") auto
  ultimately have len: "length ((i, k, e) # gm_del i (c_ll c)) = length (c_ll c)"
    using gm_len_del [OF cache_invD(2) [OF inv], of i] by simp
  have "distinct (List.map (fst \<circ> snd) (gm_del i (c_ll c)))"
    unfolding del by (rule distinct_map_filter, rule cache_invD(3) [OF inv])
  moreover have "k \<notin> (fst \<circ> snd) ` set (gm_del i (c_ll c))"
    unfolding del by auto
  moreover have "j < c_next c" if "j \<in> set (gm_keys ((i, k, e) # gm_del i (c_ll c)))" for j
    using that cache_invD(8) [OF inv, of j] cache_invD(8) [OF inv, of i] el
    by (simp only: list.map list.set gm_keys_del fst_conv) force
  moreover have "i \<notin> fst ` set (gm_del i (c_ll c))"
    using gm_keys_del [of i "c_ll c"] by simp
  ultimately show "cache_inv (move_to_front i c)"
    unfolding eq using cache_invD [OF inv] len items
    by (intro cache_invI) (simp_all add: gm_ok_del gm_keys_del del: length_Cons)
qed


section \<open>The operations of the cache refine the abstract list\<close>

lemma gm_del_append: "gm_del k (xs @ ys) = gm_del k xs @ gm_del k ys"
  by (induction xs) auto

lemma ll_back_last:
  assumes inv: "cache_inv c" and "c_ll c = xs @ [(i, k, e)]"
  shows "cache_inv (remove_element (ll_back c) c)"
    and "contents (remove_element (ll_back c) c) = butlast (contents c)"
proof -
  have el: "(i, k, e) \<in> set (c_ll c)" and b: "ll_back c = Some i"
    using assms(2) by (simp_all add: ll_back_def)
  show "cache_inv (remove_element (ll_back c) c)"
    unfolding b by (rule remove_element_props(1) [OF inv el])
  have "k \<notin> fst ` set (List.map snd xs)"
    using cache_invD(3) [OF inv] by (auto simp: assms(2) image_image)
  then have "gm_del k (contents c) = butlast (contents c)"
    by (simp add: contents_def assms(2) gm_del_append)
  then show "contents (remove_element (ll_back c) c) = butlast (contents c)"
    unfolding b remove_element_props(2) [OF inv el] .
qed


lemma evict_props:
  assumes inv: "cache_inv c" and full: "c_cap c \<le> int (length (c_items c))"
  shows "cache_inv (evict c)" and "contents (evict c) = butlast (contents c)"
    and "c_cap (evict c) = c_cap c"
proof -
  let ?c1 = "c\<lparr>c_cnt := cn_evictions_update Suc (c_cnt c)\<rparr>"
  let ?c2 = "add_qtype_eviction (ck_qtype (fst (snd (last (c_ll ?c1))))) ?c1"
  have "c_ll c \<noteq> []"
    using full cache_invD(6) [OF inv] cache_inv_len [OF inv] by auto
  then have eq: "evict c = remove_element (ll_back ?c2) ?c2"
    by (simp add: evict_def ll_back_def qtype_ops)
  from \<open>c_ll c \<noteq> []\<close> obtain xs i k e where ll: "c_ll ?c2 = xs @ [(i, k, e)]"
    by (cases "c_ll c" rule: rev_cases) (auto simp: qtype_ops)
  have inv2: "cache_inv ?c2" using inv by (simp add: qtype_ops)
  show "cache_inv (evict c)" unfolding eq by (rule ll_back_last(1) [OF inv2 ll])
  show "contents (evict c) = butlast (contents c)"
    unfolding eq ll_back_last(2) [OF inv2 ll] by (simp add: qtype_ops)
  show "c_cap (evict c) = c_cap c"
    by (simp add: eq remove_element_def qtype_ops split: option.splits prod.splits)
qed

lemma gm_set_new: "k \<notin> fst ` set m \<Longrightarrow> gm_set k v m = m @ [(k, v)]"
  by (induction m) auto

lemma push_front_props:
  assumes inv: "cache_inv c" and new: "k \<notin> fst ` set (contents c)"
    and room: "int (length (contents c)) < c_cap c"
  shows "cache_inv (push_front k e c)" and "contents (push_front k e c) = (k, e) # contents c"
proof -
  show "contents (push_front k e c) = (k, e) # contents c"
    by (simp add: contents_def push_front_def)
  have k: "k \<notin> set (gm_keys (c_items c))"
    using new cache_invD(4) [OF inv] by (force simp: contents_def item_of_def)
  have fresh: "c_next c \<notin> fst ` set (c_ll c)"
    using cache_invD(8) [OF inv, of "c_next c"] by auto
  have items: "gm_set k (c_next c) (c_items c) = c_items c @ [(k, c_next c)]"
    using k by (simp add: gm_set_new)
  show "cache_inv (push_front k e c)"
  proof (rule cache_invI)
    show "gm_ok (c_ll (push_front k e c))" "distinct (List.map (fst \<circ> snd) (c_ll (push_front k e c)))"
      using fresh new cache_invD(2,3) [OF inv] by (auto simp: push_front_def contents_def image_iff)
    show "gm_ok (c_items (push_front k e c))"
      using cache_invD(1) [OF inv] by (simp add: push_front_def)
    show "set (c_items (push_front k e c)) = item_of ` set (c_ll (push_front k e c))"
      using cache_invD(4) [OF inv] by (simp add: push_front_def items item_of_def)
    show "j < c_next (push_front k e c)" if "j \<in> set (gm_keys (c_ll (push_front k e c)))" for j
      using that cache_invD(8) [OF inv, of j] by (simp add: push_front_def) (metis less_Suc_eq)
  qed (use room cache_invD(6,7) [OF inv] in \<open>auto simp: push_front_def contents_def\<close>)
qed

lemma contents_keys: "cache_inv c \<Longrightarrow> k \<in> fst ` set (contents c) \<longleftrightarrow> gm_get (c_items c) k \<noteq> None"
  by (force simp: items_None contents_def)

lemma length_contents: "cache_inv c \<Longrightarrow> length (c_items c) = length (contents c)"
  by (simp add: cache_inv_len contents_def)

lemma cache_set_refines:
  assumes inv: "cache_inv c"
  shows "cache_inv (cache_set k e c)"
    and "contents (cache_set k e c) = lru_set (c_cap c) k e (contents c)"
proof -
  have "cache_inv (cache_set k e c) \<and> contents (cache_set k e c) = lru_set (c_cap c) k e (contents c)"
  proof (cases "gm_get (c_items c) k")
    case (Some i)
    with inv obtain e0 where el: "(i, k, e0) \<in> set (c_ll c)"
      by (blast dest: entry_via_items)
    note mv = move_to_front_props [OF inv el]
    note sv = set_value_props [OF mv(1) mv(4)]
    show ?thesis
      using Some sv mv(2) contents_keys [OF inv, of k] by (simp add: cache_set_def lru_set_def)
  next
    case None
    then have k: "k \<notin> fst ` set (contents c)" using contents_keys [OF inv] by blast
    show ?thesis
    proof (cases "c_cap c \<le> int (length (c_items c))")
      case True
      note ev = evict_props [OF inv True]
      have "k \<notin> fst ` set (contents (evict c))"
        using k ev(2) by (auto dest: in_set_butlastD)
      moreover have "int (length (contents (evict c))) < c_cap (evict c)"
        using True cache_invD(5,6) [OF inv] cache_inv_len [OF inv] ev(2,3)
        by (simp add: contents_def)
      ultimately show ?thesis
        using push_front_props [OF ev(1)] k None True ev(2) length_contents [OF inv]
        by (simp add: cache_set_def lru_set_def)
    next
      case False
      then show ?thesis
        using push_front_props [OF inv k] None k length_contents [OF inv]
        by (simp add: cache_set_def lru_set_def)
    qed
  qed
  then show "cache_inv (cache_set k e c)"
    and "contents (cache_set k e c) = lru_set (c_cap c) k e (contents c)" by blast+
qed


definition lru_get ::
  "bool \<Rightarrow> int \<Rightarrow> 'k \<Rightarrow> ('k \<times> cache_entry) list \<Rightarrow>
    (cache_entry \<times> u32) option \<times> ('k \<times> cache_entry) list" where
  "lru_get optimistic now k xs =
     (case gm_get xs k of None \<Rightarrow> (None, xs)
      | Some e \<Rightarrow>
          if remaining_ttl e now \<le> 0
          then (None, if optimistic then gm_set k (e\<lparr>ce_expired_observed := True\<rparr>) xs else gm_del k xs)
          else (let e' = e\<lparr>ce_hits := ce_hits e + 1\<rparr>
                in (Some (e', u32_of (remaining_ttl e now)), (k, e') # gm_del k xs)))"

lemma gm_set_same: "gm_get m k = Some v \<Longrightarrow> gm_set k v m = m"
  by (induction m) (auto split: if_splits)

lemma gm_del_set: "gm_del k (gm_set k v m) = gm_del k m"
  by (induction m) auto

lemma count_miss_frame [simp]:
  "cache_inv (count_miss t c) = cache_inv c" "contents (count_miss t c) = contents c"
  "c_cap (count_miss t c) = c_cap c" "c_optimistic (count_miss t c) = c_optimistic c"
  by (simp_all add: count_miss_def qtype_ops)

lemma get_refines:
  assumes inv: "cache_inv c"
  shows "cache_inv (snd (cache_get now k c)) \<and>
    (fst (cache_get now k c), contents (snd (cache_get now k c))) = lru_get (c_optimistic c) now k (contents c)"
proof (cases "gm_get (c_items c) k")
  case None
  then show ?thesis
    using inv by (simp add: cache_get_def lru_get_def contents_get)
next
  case (Some i)
  then obtain e where e: "gm_get (c_ll c) i = Some (k, e)" and el: "(i, k, e) \<in> set (c_ll c)"
    using inv by (blast dest: entry_via_items)
  have en: "elem_entry c i = Some e" using e by (simp add: elem_entry_def)
  have get: "gm_get (contents c) k = Some e" using inv Some en by (simp add: contents_get)
  show ?thesis
  proof (cases "remaining_ttl e now \<le> 0")
    case True
    define c1 where "c1 = (if ce_expired_observed e then c
      else add_qtype_expiration (ck_qtype k) (set_value i k (e\<lparr>ce_expired_observed := True\<rparr>) c))"
    note sv = set_value_props [OF inv el, of "e\<lparr>ce_expired_observed := True\<rparr>"]
    have c1: "cache_inv c1" "\<exists>e1. (i, k, e1) \<in> set (c_ll c1)"
      "contents c1 = gm_set k (e\<lparr>ce_expired_observed := True\<rparr>) (contents c)"
      using inv el sv get by (auto simp: c1_def qtype_ops gm_set_same)
    then obtain e1 where el1: "(i, k, e1) \<in> set (c_ll c1)" by blast
    note rm = remove_element_props [OF c1(1) el1]
    have res: "cache_get now k c = (None, count_miss (ck_qtype k)
        (if c_optimistic c then c1 else remove_element (Some i) c1))"
      using Some en True by (simp add: cache_get_def c1_def Let_def)
    show ?thesis
      unfolding res using get True c1 rm by (simp add: lru_get_def gm_del_set)
  next
    case False
    define c1 where "c1 = add_qtype_hit (ck_qtype k) (c\<lparr>c_cnt := count_hit e (c_cnt c)\<rparr>)"
    have c1: "cache_inv c1" "(i, k, e) \<in> set (c_ll c1)" "contents c1 = contents c"
      using inv el by (simp_all add: c1_def qtype_ops)
    let ?e = "e\<lparr>ce_hits := ce_hits e + 1\<rparr>"
    note sv = set_value_props [OF c1(1,2), of ?e]
    note mv = move_to_front_props [OF sv(1,3)]
    have res: "cache_get now k c = (Some (?e, u32_of (remaining_ttl e now)),
        move_to_front i (set_value i k ?e c1))"
      using Some en False by (simp add: cache_get_def c1_def Let_def)
    show ?thesis
      unfolding res using get False sv mv c1 by (simp add: lru_get_def gm_del_set Let_def)
  qed
qed

lemma get_stale_props:
  assumes inv: "cache_inv c"
  shows "fst (get_stale now k c) = gm_get (contents c) k"
    and "cache_inv (snd (get_stale now k c))" and "contents (snd (get_stale now k c)) = contents c"
proof -
  have "gm_get (c_items c) k = Some i \<Longrightarrow> elem_entry c i \<noteq> None" for i
    using entry_via_items [OF inv, of k i] by (auto simp: elem_entry_def)
  then show "fst (get_stale now k c) = gm_get (contents c) k"
    and "cache_inv (snd (get_stale now k c))" and "contents (snd (get_stale now k c)) = contents c"
    using inv by (auto simp: get_stale_def contents_get split: option.splits)
qed

lemma clear_props:
  assumes "cache_inv c"
  shows "fst (cache_clear c) = length (contents c)" "contents (snd (cache_clear c)) = []"
    "cache_inv (snd (cache_clear c))"
  using assms cache_inv_len [OF assms]
  by (simp_all add: cache_clear_def Let_def contents_def cache_inv_def)

lemma reconfigure_props:
  "contents (reconfigure n lo hi opt c) = []" "cache_inv (reconfigure n lo hi opt c)"
  by (auto simp: reconfigure_def contents_def cache_inv_def capacity_of_def default_cache_size_def
      bounds_of_def Let_def)

lemma invalidate_fold:
  assumes "cache_inv c" "gm_ok ks" "set ks \<subseteq> set (c_items c)"
  shows "cache_inv (snd (foldl (inv_step P) (n, c) ks)) \<and>
    contents (snd (foldl (inv_step P) (n, c) ks)) =
      filter (\<lambda>x. \<not> (P (fst x) \<and> fst x \<in> fst ` set ks)) (contents c) \<and>
    fst (foldl (inv_step P) (n, c) ks) = n + length (filter (P \<circ> fst) ks)"
  using assms
proof (induction ks arbitrary: n c)
  case (Cons ki ks)
  obtain k i where ki: "ki = (k, i)" by (cases ki)
  have "gm_get (c_items c) k = Some i"
    using Cons.prems(3) cache_invD(1) [OF Cons.prems(1)] by (simp add: ki)
  then obtain e where el: "(i, k, e) \<in> set (c_ll c)"
    using Cons.prems(1) by (blast dest: entry_via_items)
  note rm = remove_element_props [OF Cons.prems(1) el]
  show ?case
  proof (cases "P k")
    case True
    have "set ks \<subseteq> set (c_items (remove_element (Some i) c))"
      using Cons.prems(2,3) unfolding rm(4) AList.delete_eq by (force simp: ki)
    moreover have "filter (\<lambda>x. \<not> (P (fst x) \<and> fst x \<in> fst ` set ks)) (gm_del k (contents c)) =
        filter (\<lambda>x. \<not> (P (fst x) \<and> (fst x = k \<or> fst x \<in> fst ` set ks))) (contents c)"
      using True unfolding AList.delete_eq filter_filter by (intro filter_cong) auto
    ultimately show ?thesis
      using Cons.IH [OF rm(1), of "Suc n"] Cons.prems(2) True rm(2) by (simp add: ki inv_step_def)
  next
    case False
    have "filter (\<lambda>x. \<not> (P (fst x) \<and> (fst x = k \<or> fst x \<in> fst ` set ks))) (contents c) =
          filter (\<lambda>x. \<not> (P (fst x) \<and> fst x \<in> fst ` set ks)) (contents c)"
      using False by (intro filter_cong) auto
    then show ?thesis
      using Cons.IH [OF Cons.prems(1), of n] Cons.prems(2,3) False by (simp add: ki inv_step_def)
  qed
qed simp

lemma invalidate_props:
  assumes inv: "cache_inv c"
  shows "cache_inv (snd (cache_invalidate P c))"
    and "contents (snd (cache_invalidate P c)) = filter (\<lambda>x. \<not> P (fst x)) (contents c)"
    and "fst (cache_invalidate P c) = length (filter P (gm_keys (c_items c)))"
proof -
  have all: "fst x \<in> fst ` set (c_items c)" if "x \<in> set (contents c)" for x
    using that cache_invD(4) [OF inv] by (force simp: contents_def item_of_def image_iff)
  have "filter (\<lambda>x. \<not> (P (fst x) \<and> fst x \<in> fst ` set (c_items c))) (contents c) =
        filter (\<lambda>x. \<not> P (fst x)) (contents c)"
    using all by (intro filter_cong) auto
  moreover have "length (filter (P \<circ> fst) (c_items c)) = length (filter P (gm_keys (c_items c)))"
    by (simp add: filter_map)
  ultimately show "cache_inv (snd (cache_invalidate P c))"
    and "contents (snd (cache_invalidate P c)) = filter (\<lambda>x. \<not> P (fst x)) (contents c)"
    and "fst (cache_invalidate P c) = length (filter P (gm_keys (c_items c)))"
    using invalidate_fold [OF inv cache_invD(1) [OF inv], of P 0]
    by (auto simp: cache_invalidate_def split: prod.splits)
qed


section \<open>Diagnostics\<close>

record cache_stats =
  st_entries :: nat
  st_capacity :: int
  st_utilization :: rat
  st_negative_entries :: nat
  st_counters :: counters
  st_expirations :: nat
  st_in_flight :: nat
  st_by_qtype :: "(string, qtype_stats) gomap"

definition qtype_name :: "dns_lib \<Rightarrow> u16 \<Rightarrow> string" where
  "qtype_name L t = (if type_to_string L t = [] then show_nat (unat t) else type_to_string L t)"

definition stats_step ::
  "dns_lib \<Rightarrow> (string, qtype_stats) gomap \<times> nat \<Rightarrow> u16 \<times> qtype_stats \<Rightarrow>
    (string, qtype_stats) gomap \<times> nat" where
  "stats_step L acc tq =
     (gm_set (qtype_name L (fst tq)) (snd tq) (fst acc), snd acc + qs_expirations (snd tq))"

text \<open>The negative flag is read through the element a key maps to.\<close>

definition negative_item :: "cache \<Rightarrow> cache_key \<times> element \<Rightarrow> bool" where
  "negative_item c ki = (case elem_entry c (snd ki) of Some e \<Rightarrow> ce_negative e | None \<Rightarrow> False)"

definition stats :: "dns_lib \<Rightarrow> cache \<Rightarrow> cache_stats" where
  "stats L c =
     (case foldl (stats_step L) ([], 0) (c_qtype c) of (by, exps) \<Rightarrow>
        \<lparr>st_entries = length (c_items c), st_capacity = c_cap c,
         st_utilization = (if 0 < c_cap c then of_nat (length (c_items c)) / of_int (c_cap c) else 0),
         st_negative_entries = length (filter (negative_item c) (c_items c)),
         st_counters = c_cnt c, st_expirations = exps, st_in_flight = 0, st_by_qtype = by\<rparr>)"

record entry_status =
  es_name :: string
  es_qtype :: string
  es_group :: string
  es_remaining :: u32
  es_negative :: bool
  es_soa :: string

definition status_of :: "dns_lib \<Rightarrow> int \<Rightarrow> cache_key \<Rightarrow> cache_entry \<Rightarrow> entry_status" where
  "status_of L now k e =
     \<lparr>es_name = ck_name k, es_qtype = qtype_name L (ck_qtype k), es_group = ck_group k,
      es_remaining = u32_of (max 0 (remaining_ttl e now)), es_negative = ce_negative e,
      es_soa = (if ce_negative e then ce_soa e else [])\<rparr>"

text \<open>sort.Slice by name and type; entries that agree on both keep an unspecified order.\<close>

definition entry_statuses :: "dns_lib \<Rightarrow> int \<Rightarrow> cache \<Rightarrow> entry_status list" where
  "entry_statuses L now c =
     sort_key (\<lambda>s. [es_name s, es_qtype s])
       (List.map_filter (\<lambda>ki. map_option (status_of L now (fst ki)) (elem_entry c (snd ki))) (c_items c))"

section \<open>Lifetimes\<close>

text \<open>
  The remaining TTL is the time to expiry in seconds, rounded up: an entry is served exactly
  during the ttl seconds that follow its store time.
\<close>

lemma trunc_div_second: "0 \<le> x \<Longrightarrow> trunc_div x second = x div 1000000000"
  by (simp add: trunc_div_nonneg second_def)

lemma remaining_ttl_ceiling:
  assumes "ce_stored e \<le> now"
  shows "remaining_ttl e now = - ((now - (ce_stored e + int (unat (ce_ttl e)) * second)) div second)"
proof -
  have "(now - (ce_stored e + int (unat (ce_ttl e)) * second)) div second =
        ((now - ce_stored e) + (- int (unat (ce_ttl e))) * second) div second"
    by (simp add: algebra_simps)
  also have "\<dots> = - int (unat (ce_ttl e)) + (now - ce_stored e) div second"
    by (rule div_mult_self1) (simp add: second_def)
  finally show ?thesis
    using assms by (simp add: remaining_ttl_def trunc_div_nonneg second_def)
qed

lemma fresh_iff:
  assumes "ce_stored e \<le> now"
  shows "0 < remaining_ttl e now \<longleftrightarrow> now < ce_stored e + int (unat (ce_ttl e)) * second"
proof -
  have "0 < remaining_ttl e now \<longleftrightarrow> (now - ce_stored e) div 1000000000 < int (unat (ce_ttl e))"
    using assms by (simp add: remaining_ttl_def trunc_div_second)
  then show ?thesis by (simp add: second_def) linarith
qed

lemma u32_of_small: "0 \<le> r \<Longrightarrow> r < 2 ^ 32 \<Longrightarrow> uint (u32_of r) = r"
  by (simp add: u32_of_def uint_word_of_int)

section \<open>Runs of operations\<close>

datatype cache_op =
    OpGet int cache_key
  | OpStale int cache_key
  | OpSet cache_key cache_entry
  | OpClear
  | OpReconfigure int u32 u32 bool
  | OpInvalidate "cache_key \<Rightarrow> bool"

fun cache_step :: "cache_op \<Rightarrow> cache \<Rightarrow> cache" where
  "cache_step (OpGet now k) c = snd (cache_get now k c)"
| "cache_step (OpStale now k) c = snd (get_stale now k c)"
| "cache_step (OpSet k e) c = cache_set k e c"
| "cache_step OpClear c = snd (cache_clear c)"
| "cache_step (OpReconfigure n lo hi opt) c = reconfigure n lo hi opt c"
| "cache_step (OpInvalidate P) c = snd (cache_invalidate P c)"

interpretation cache_sys: invariant_system cache_step cache_inv
proof
  fix c x assume "cache_inv c"
  then show "cache_inv (cache_step x c)"
    by (cases x) (simp_all add: get_refines get_stale_props cache_set_refines clear_props
        reconfigure_props invalidate_props)
qed

text \<open>The contents after a run, by the abstract list only.\<close>

fun lru_step :: "bool \<Rightarrow> int \<Rightarrow> cache_op \<Rightarrow> (cache_key \<times> cache_entry) list \<Rightarrow> (cache_key \<times> cache_entry) list" where
  "lru_step opt cap (OpGet now k) xs = snd (lru_get opt now k xs)"
| "lru_step opt cap (OpStale now k) xs = xs"
| "lru_step opt cap (OpSet k e) xs = lru_set cap k e xs"
| "lru_step opt cap OpClear xs = []"
| "lru_step opt cap (OpReconfigure n lo hi o') xs = []"
| "lru_step opt cap (OpInvalidate P) xs = filter (\<lambda>x. \<not> P (fst x)) xs"

lemma step_refines:
  "cache_inv c \<Longrightarrow> contents (cache_step x c) = lru_step (c_optimistic c) (c_cap c) x (contents c)"
proof (cases x)
  case (OpGet now k)
  then show "cache_inv c \<Longrightarrow> ?thesis"
    using get_refines [of c now k] by (simp add: prod_eq_iff)
qed (simp_all add: get_stale_props cache_set_refines clear_props reconfigure_props invalidate_props)

section \<open>Recently used keys survive\<close>

text \<open>
  \<open>ahead k e K xs\<close>: the key is bound to e and only keys of K were used more recently.
\<close>

definition ahead :: "'k \<Rightarrow> 'v \<Rightarrow> 'k set \<Rightarrow> ('k \<times> 'v) list \<Rightarrow> bool" where
  "ahead k e K xs \<longleftrightarrow> (\<exists>pre post. xs = pre @ (k, e) # post \<and> fst ` set pre \<subseteq> K)"

lemma ahead_get: "gm_ok xs \<Longrightarrow> ahead k e K xs \<Longrightarrow> gm_get xs k = Some e"
  by (auto simp: ahead_def intro!: map_of_is_SomeI)

lemma ahead_front: "ahead k e K xs \<Longrightarrow> k' \<in> K \<Longrightarrow> ahead k e K ((k', v) # xs)"
  unfolding ahead_def by (metis (no_types, lifting) append_Cons fst_conv image_insert insert_subset list.simps(15))

lemma ahead_del:
  assumes "ahead k e K xs" and "k' \<noteq> k"
  shows "ahead k e K (gm_del k' xs)"
proof -
  from assms(1) obtain pre post where xs: "xs = pre @ (k, e) # post" and pre: "fst ` set pre \<subseteq> K"
    by (auto simp: ahead_def)
  have "gm_del k' xs = gm_del k' pre @ (k, e) # gm_del k' post"
    using assms(2) by (simp add: xs gm_del_append)
  moreover have "fst ` set (gm_del k' pre) \<subseteq> K"
    using pre gm_keys_del [of k' pre] by auto
  ultimately show ?thesis unfolding ahead_def by blast
qed

lemma ahead_update:
  assumes "ahead k e K xs" and "k' \<noteq> k" and ok: "gm_ok xs" and "k' \<in> set (gm_keys xs)"
  shows "ahead k e K (gm_set k' v xs)"
proof -
  let ?f = "\<lambda>x. if fst x = k' then (k', v) else x"
  from assms(1) obtain pre post where xs: "xs = pre @ (k, e) # post" and pre: "fst ` set pre \<subseteq> K"
    by (auto simp: ahead_def)
  have "gm_set k' v xs = List.map ?f pre @ (k, e) # List.map ?f post"
    unfolding gm_set_in [OF ok assms(4)] using assms(2) by (simp add: xs)
  moreover have "fst ` set (List.map ?f pre) \<subseteq> K" using pre by auto
  ultimately show ?thesis unfolding ahead_def by blast
qed

lemma ahead_butlast:
  assumes a: "ahead k e K xs" and ok: "gm_ok xs" and fin: "finite K" and new: "k' \<in> K" "k' \<notin> fst ` set xs"
    and full: "card K < length xs"
  shows "ahead k e K (butlast xs)"
proof -
  from a obtain pre post where xs: "xs = pre @ (k, e) # post" and pre: "fst ` set pre \<subseteq> K"
    by (auto simp: ahead_def)
  have "post \<noteq> []"
  proof
    assume "post = []"
    then have "length xs = Suc (length pre)" by (simp add: xs)
    also have "length pre = card (fst ` set pre)"
      using ok by (simp add: xs) (metis distinct_card length_map list.set_map)
    also have "\<dots> < card K"
      using pre new fin by (intro psubset_card_mono) (auto simp: xs)
    finally show False using full by simp
  qed
  then have "butlast xs = pre @ (k, e) # butlast post" by (simp add: xs butlast_append)
  with pre show ?thesis unfolding ahead_def by blast
qed

lemma ahead_set:
  assumes "ahead k e K xs" "gm_ok xs" "finite K" "k' \<in> K" "k' \<noteq> k" "int (card K) < cap"
  shows "ahead k e K (lru_set cap k' v xs)"
proof (cases "k' \<in> fst ` set xs")
  case True
  then show ?thesis using assms by (simp add: lru_set_def ahead_front ahead_del)
next
  case False
  then show ?thesis
    using assms ahead_butlast [of k e K xs k'] by (auto simp: lru_set_def intro!: ahead_front)
qed

lemma ahead_lookup:
  assumes "ahead k e K xs" "gm_ok xs" "k' \<in> K" "k' \<noteq> k"
  shows "ahead k e K (snd (lru_get opt now k' xs))"
proof (cases "gm_get xs k'")
  case (Some e')
  then have "k' \<in> set (gm_keys xs)" using gm_get_None [of xs k'] by auto
  then show ?thesis
    using assms Some by (simp add: lru_get_def Let_def ahead_update ahead_del ahead_front)
qed (use assms in \<open>simp add: lru_get_def\<close>)

text \<open>The key an operation reads or writes, for lookups and stores.\<close>

fun uses_key :: "cache_op \<Rightarrow> cache_key option" where
  "uses_key (OpGet now k) = Some k"
| "uses_key (OpSet k e) = Some k"
| "uses_key _ = None"

lemma step_cap: "uses_key x \<noteq> None \<Longrightarrow> cache_inv c \<Longrightarrow> c_cap (cache_step x c) = c_cap c"
  by (cases x)
     (auto simp: cache_get_def cache_set_def set_value_def push_front_def evict_def remove_element_def
        move_to_front_def count_miss_def qtype_ops Let_def split: option.splits prod.splits)

lemma ahead_run:
  assumes "cache_inv c" "ahead k e K (contents c)" "finite K" "k \<notin> K" "int (card K) < c_cap c"
    and "\<forall>x \<in> set ops. \<exists>k' \<in> K. uses_key x = Some k'"
  shows "ahead k e K (contents (fold cache_step ops c)) \<and> cache_inv (fold cache_step ops c)"
  using assms
proof (induction ops arbitrary: c)
  case (Cons x xs)
  then obtain k' where k': "k' \<in> K" "uses_key x = Some k'" by auto
  have "k' \<noteq> k" using k'(1) Cons.prems(4) by auto
  have "ahead k e K (contents (cache_step x c))"
    unfolding step_refines [OF Cons.prems(1)]
    using k' \<open>k' \<noteq> k\<close> Cons.prems gm_ok_contents [OF Cons.prems(1)]
    by (cases x) (auto intro: ahead_set ahead_lookup)
  then show ?case
    using Cons.IH [of "cache_step x c"] Cons.prems k'(2) by (simp add: cache_sys.step_keeps step_cap)
qed simp

theorem lru_survives:
  assumes "cache_inv c" and "finite K" and "k \<notin> K" and "int (card K) < c_cap c"
    and "\<forall>x \<in> set ops. \<exists>k' \<in> K. uses_key x = Some k'"
  shows "gm_get (contents (fold cache_step ops (cache_set k e c))) k = Some e"
proof -
  have inv: "cache_inv (cache_set k e c)" and con: "contents (cache_set k e c) = lru_set (c_cap c) k e (contents c)"
    using assms(1) by (rule cache_set_refines)+
  have "ahead k e K (contents (cache_set k e c))"
    unfolding con lru_set_def ahead_def by (auto intro: exI [of _ "[]"])
  moreover have "c_cap (cache_set k e c) = c_cap c"
    using step_cap [of "OpSet k e" c] assms(1) by simp
  ultimately have "ahead k e K (contents (fold cache_step ops (cache_set k e c))) \<and>
      cache_inv (fold cache_step ops (cache_set k e c))"
    using assms inv by (intro ahead_run) auto
  then show ?thesis by (blast intro: ahead_get gm_ok_contents)
qed

end
