(* ===== verification/Cache_Flow.thy ===== *)
theory Cache_Flow
  imports Lru_Cache
begin

text \<open>
  dnsserver/cache_pipeline.go: what the server stores in its cache and for how long, the
  generation check that orders a store against the invalidations, the coalescing of concurrent
  misses, the background refreshes, and the answer built from an entry. The state is the part of
  Server these functions touch. A miss flight is a pointer: flights live in \<open>f_flights\<close> under a
  number. A background refresh is a job that a later event completes, so that every interleaving
  of queries, refreshes and invalidations is a sequence of these operations.
\<close>

section \<open>State\<close>

record upstream_result =
  ur_upstream :: string
  ur_msg :: "msg option"
  ur_rule :: string
  ur_reason :: string

record flight =
  fl_done :: bool
  fl_result :: upstream_result
  fl_waiters :: nat

record refresh_job =
  rj_key :: cache_key
  rj_request :: msg
  rj_specs :: "string list"
  rj_prefetch :: bool
  rj_generation :: u64

record flow =
  f_cache :: cache
  f_generation :: u64
  f_miss :: "(cache_key, nat) gomap"
  f_flights :: "(nat, flight) gomap"
  f_next :: nat
  f_refreshing :: "cache_key list"
  f_jobs :: "refresh_job list"
  f_optimistic :: bool
  f_prefetch :: bool
  f_prefetch_window :: int
  f_prefetch_hits :: u32
  f_servfail_ttl :: int

record resolution =
  re_upstream :: string
  re_cache_hit :: bool
  re_cache_state :: string
  re_blocked :: bool
  re_rule :: string
  re_reason :: string
  re_ttl :: u32
  re_soa :: string
  re_ede :: "(u16 \<times> string) option"

definition no_resolution :: resolution where
  "no_resolution = \<lparr>re_upstream = [], re_cache_hit = False, re_cache_state = [], re_blocked = False,
     re_rule = [], re_reason = [], re_ttl = 0, re_soa = [], re_ede = None\<rparr>"

definition max_miss_flights :: nat where "max_miss_flights = 1024"
definition max_background_refreshes :: nat where "max_background_refreshes = 64"

section \<open>Storing\<close>

text \<open>
  storeInCacheWithSource up to the call of set: the entry to store, if the message is cacheable.
\<close>

definition entry_for :: "flow \<Rightarrow> int \<Rightarrow> bool \<Rightarrow> msg \<Rightarrow> cache_entry option" where
  "entry_for f now prefetched m =
     (if m_truncated m then None
      else
        let e = \<lparr>ce_answers = m_answer m, ce_authority = m_ns m, ce_rcode = m_rcode m,
                 ce_ad = m_ad m, ce_stored = now, ce_ttl = 0, ce_hits = 0, ce_negative = False,
                 ce_soa = [], ce_servfail = False, ce_prefetched = prefetched,
                 ce_expired_observed = False\<rparr>
        in if m_rcode m = rcode_success \<and> m_answer m \<noteq> []
           then Some (e\<lparr>ce_ttl := clamp (f_cache f) (min_answer_ttl (m_answer m))\<rparr>)
           else if m_rcode m = rcode_name_error \<or> (m_rcode m = rcode_success \<and> m_answer m = [])
           then (case soa_metadata (m_ns m) of
                   None \<Rightarrow> None
                 | Some (ttl0, origin) \<Rightarrow>
                     (let ttl = (if c_max (f_cache f) < ttl0 then c_max (f_cache f) else ttl0)
                      in if ttl = 0 then None
                         else Some (e\<lparr>ce_ttl := ttl, ce_negative := True, ce_soa := origin\<rparr>)))
           else if m_rcode m = rcode_server_failure \<and> 0 < f_servfail_ttl f
           then Some (e\<lparr>ce_stored := now + (f_servfail_ttl f - second), ce_ttl := 1, ce_servfail := True\<rparr>)
           else None)"

definition store_in_cache :: "int \<Rightarrow> cache_key \<Rightarrow> msg \<Rightarrow> bool \<Rightarrow> flow \<Rightarrow> flow" where
  "store_in_cache now key m prefetched f =
     (case entry_for f now prefetched m of None \<Rightarrow> f
      | Some e \<Rightarrow> f\<lparr>f_cache := cache_set key e (f_cache f)\<rparr>)"

definition store_if_generation ::
  "int \<Rightarrow> cache_key \<Rightarrow> msg \<Rightarrow> bool \<Rightarrow> u64 \<Rightarrow> flow \<Rightarrow> bool \<times> flow" where
  "store_if_generation now key m prefetched generation f =
     (if generation \<noteq> f_generation f then (False, f) else (True, store_in_cache now key m prefetched f))"

section \<open>Invalidation\<close>

definition bump_generation :: "flow \<Rightarrow> flow" where
  "bump_generation f = f\<lparr>f_generation := f_generation f + 1\<rparr>"

definition clear_cache :: "flow \<Rightarrow> nat \<times> flow" where
  "clear_cache f =
     (let f1 = bump_generation f; (n, c) = cache_clear (f_cache f1) in (n, f1\<lparr>f_cache := c\<rparr>))"

definition invalidate_matching :: "(cache_key \<Rightarrow> bool) \<Rightarrow> flow \<Rightarrow> nat \<times> flow" where
  "invalidate_matching P f =
     (let f1 = bump_generation f; (n, c) = cache_invalidate P (f_cache f1) in (n, f1\<lparr>f_cache := c\<rparr>))"

definition normalized_domains :: "string list \<Rightarrow> string list" where
  "normalized_domains ds =
     filter (\<lambda>d. d \<noteq> [])
       (List.map (\<lambda>d. normalize_name (trim_prefix (trim_space d) ''*.'')) ds)"

definition invalidate_domains :: "string list \<Rightarrow> flow \<Rightarrow> nat \<times> flow" where
  "invalidate_domains domains f =
     (let ds = normalized_domains domains
      in if ds = [] then (0, f)
         else invalidate_matching
                (\<lambda>k. list_ex (\<lambda>d. ck_name k = d \<or> has_suffix (ck_name k) (CHR ''.'' # d)) ds) f)"

definition invalidate_routes :: "string list \<Rightarrow> flow \<Rightarrow> nat \<times> flow" where
  "invalidate_routes specs f =
     (let routes = filter (\<lambda>s. s \<noteq> []) (List.map trim_space specs)
      in if routes = [] then (0, f) else invalidate_matching (\<lambda>k. ck_route k \<in> set routes) f)"

definition invalidate_groups :: "string list \<Rightarrow> flow \<Rightarrow> nat \<times> flow" where
  "invalidate_groups groups f =
     (if groups = [] then (0, f) else invalidate_matching (\<lambda>k. ck_group k \<in> set groups) f)"

text \<open>The cache part of ApplySettings: new bounds under the mutation lock, one more generation.\<close>

definition reconfigure_flow :: "int \<Rightarrow> u32 \<Rightarrow> u32 \<Rightarrow> bool \<Rightarrow> flow \<Rightarrow> flow" where
  "reconfigure_flow n lo hi opt f =
     (let f1 = bump_generation f in f1\<lparr>f_cache := reconfigure n lo hi opt (f_cache f1)\<rparr>)"

section \<open>Miss flights and refreshes\<close>

definition empty_result :: upstream_result where
  "empty_result = \<lparr>ur_upstream = [], ur_msg = None, ur_rule = [], ur_reason = []\<rparr>"

definition begin_miss_flight :: "cache_key \<Rightarrow> flow \<Rightarrow> (nat option \<times> bool) \<times> flow" where
  "begin_miss_flight key f =
     (case gm_get (f_miss f) key of
        Some i \<Rightarrow>
          ((Some i, False),
           (case gm_get (f_flights f) i of None \<Rightarrow> f
            | Some fl \<Rightarrow> f\<lparr>f_flights := gm_set i (fl\<lparr>fl_waiters := Suc (fl_waiters fl)\<rparr>) (f_flights f)\<rparr>))
      | None \<Rightarrow>
          if max_miss_flights \<le> length (f_miss f) then ((None, False), f)
          else ((Some (f_next f), True),
                f\<lparr>f_flights := gm_set (f_next f) \<lparr>fl_done = False, fl_result = empty_result, fl_waiters = 0\<rparr> (f_flights f),
                  f_miss := gm_set key (f_next f) (f_miss f), f_next := Suc (f_next f)\<rparr>))"

definition complete_miss_flight :: "cache_key \<Rightarrow> nat \<Rightarrow> upstream_result \<Rightarrow> flow \<Rightarrow> flow" where
  "complete_miss_flight key i r f =
     (case gm_get (f_flights f) i of None \<Rightarrow> f\<lparr>f_miss := gm_del key (f_miss f)\<rparr>
      | Some fl \<Rightarrow> f\<lparr>f_flights := gm_set i (fl\<lparr>fl_done := True, fl_result := r\<rparr>) (f_flights f),
                    f_miss := gm_del key (f_miss f)\<rparr>)"

text \<open>refreshAsync: take a slot, refuse a key that is being refreshed, remember the generation.\<close>

definition refresh_async :: "cache_key \<Rightarrow> msg \<Rightarrow> string list \<Rightarrow> bool \<Rightarrow> flow \<Rightarrow> flow" where
  "refresh_async key r specs prefetch f =
     (if max_background_refreshes \<le> length (f_jobs f) then f
      else if key \<in> set (f_refreshing f) then f
      else f\<lparr>f_refreshing := key # f_refreshing f,
             f_jobs := f_jobs f @ [\<lparr>rj_key = key, rj_request = r, rj_specs = specs,
                                   rj_prefetch = prefetch, rj_generation = f_generation f\<rparr>]\<rparr>)"

text \<open>The end of a refresh goroutine, once its fetch returned.\<close>

definition finish_refresh :: "int \<Rightarrow> refresh_job \<Rightarrow> upstream_result \<Rightarrow> flow \<Rightarrow> flow" where
  "finish_refresh now j r f0 =
     (let f = f0\<lparr>f_jobs := remove1 j (f_jobs f0), f_refreshing := removeAll (rj_key j) (f_refreshing f0)\<rparr>
      in case ur_msg r of
           None \<Rightarrow> f
         | Some m \<Rightarrow>
             if m_rcode m = rcode_server_failure then f
             else (case store_if_generation now (rj_key j) m (rj_prefetch j) (rj_generation j) f of
                     (False, f1) \<Rightarrow> f1
                   | (True, f1) \<Rightarrow>
                       (let n = cn_refreshes_update Suc (c_cnt (f_cache f1));
                            n' = (if rj_prefetch j then cn_prefetches_update Suc n else n)
                        in f1\<lparr>f_cache := (f_cache f1)\<lparr>c_cnt := n'\<rparr>\<rparr>)))"

section \<open>Answers\<close>

definition apply_cache_entry :: "msg \<Rightarrow> cache_entry \<Rightarrow> u32 \<Rightarrow> msg \<Rightarrow> msg" where
  "apply_cache_entry request e ttl resp =
     (let r1 = set_response_extra request []
                 (resp\<lparr>m_rcode := ce_rcode e, m_ad := ce_ad e, m_answer := with_ttl ttl (ce_answers e),
                       m_ns := with_ttl ttl (ce_authority e)\<rparr>)
      in if ce_servfail e then add_extended_error request ede_cached_error ''cached upstream failure'' r1
         else r1)"

definition cache_entry_state :: "cache_entry \<Rightarrow> string \<times> string" where
  "cache_entry_state e =
     (if ce_prefetched e \<and> ce_negative e then (''prefetched'', ''System Cache (prefetched negative)'')
      else if ce_prefetched e then (''prefetched'', ''System Cache (prefetched)'')
      else if ce_negative e then (''negative'', ''System Cache (negative)'')
      else if ce_servfail e then (''servfail'', ''System Cache (servfail)'')
      else (''fresh'', ''System Cache''))"

definition should_prefetch :: "flow \<Rightarrow> cache_entry \<Rightarrow> u32 \<Rightarrow> bool" where
  "should_prefetch f e remaining \<longleftrightarrow>
     f_prefetch f \<and> f_prefetch_hits f \<le> ce_hits e \<and>
     int (unat remaining) * second \<le> f_prefetch_window f"

definition apply_upstream_result :: "msg \<Rightarrow> upstream_result \<Rightarrow> msg \<Rightarrow> msg" where
  "apply_upstream_result request r resp =
     (case ur_msg r of
        None \<Rightarrow> add_extended_error request ede_network_error ''no reachable upstream''
                  (set_response_extra request [] (resp\<lparr>m_rcode := rcode_server_failure\<rparr>))
      | Some m \<Rightarrow>
          (let r1 = set_response_extra request (m_extra m)
                      (resp\<lparr>m_rcode := m_rcode m, m_ad := m_ad m, m_answer := m_answer m, m_ns := m_ns m\<rparr>)
           in if m_rcode m = rcode_server_failure
              then add_extended_error request ede_network_error ''no reachable upstream'' r1
              else r1))"

text \<open>
  resolveViaCacheOrUpstream. The fetch runs on a state of its own (pool, network); a follower of
  a flight led by another query receives that flight's result, which \<open>await\<close> gives.
\<close>

definition resolve_via_cache_or_upstream ::
  "('p \<Rightarrow> upstream_result \<times> 'p) \<Rightarrow> (nat \<Rightarrow> upstream_result) \<Rightarrow> int \<Rightarrow> msg \<Rightarrow> cache_key \<Rightarrow> string list \<Rightarrow>
    msg \<Rightarrow> flow \<Rightarrow> 'p \<Rightarrow> resolution \<times> msg \<times> flow \<times> 'p" where
  "resolve_via_cache_or_upstream fetch await now request key specs resp f p =
     (case cache_get now key (f_cache f) of
        (Some (e, remaining), c) \<Rightarrow>
          (let f1 = f\<lparr>f_cache := c\<rparr>;
               f2 = (if should_prefetch f e remaining then refresh_async key request specs True f1 else f1)
           in (no_resolution\<lparr>re_upstream := snd (cache_entry_state e), re_cache_hit := True,
                 re_cache_state := fst (cache_entry_state e), re_ttl := remaining, re_soa := ce_soa e\<rparr>,
               apply_cache_entry request e remaining resp, f2, p))
      | (None, c) \<Rightarrow>
          (let f1 = f\<lparr>f_cache := c\<rparr>;
               stale = (if f_optimistic f then get_stale now key c else (None, c))
           in case stale of
                (Some e, c2) \<Rightarrow>
                  (let code = (if ce_negative e then ede_stale_nxdomain else ede_stale_answer);
                       label = (if ce_negative e then ''System Cache (stale negative)''
                                else ''System Cache (stale)'');
                       r1 = add_extended_error request code ''stale answer served while refreshing''
                              (apply_cache_entry request e 1 resp)
                   in (no_resolution\<lparr>re_upstream := label, re_cache_hit := True, re_cache_state := ''stale'',
                         re_ttl := 1, re_soa := ce_soa e\<rparr>,
                       r1, refresh_async key request specs False (f1\<lparr>f_cache := c2\<rparr>), p))
              | (None, c2) \<Rightarrow>
                  (let f2 = f1\<lparr>f_cache := c2\<rparr>; generation = f_generation f2
                   in case begin_miss_flight key f2 of
                        ((None, _), f3) \<Rightarrow>
                          (no_resolution\<lparr>re_upstream := ''Overloaded'', re_reason := ''UPSTREAM_CAPACITY''\<rparr>,
                           add_extended_error request ede_network_error ''upstream concurrency limit reached''
                             (set_response_extra request [] (resp\<lparr>m_rcode := rcode_server_failure\<rparr>)),
                           f3, p)
                      | ((Some i, False), f3) \<Rightarrow>
                          (let r = await i;
                               c3 = (f_cache f3)\<lparr>c_cnt := cn_coalesced_update Suc (c_cnt (f_cache f3))\<rparr>
                           in (no_resolution\<lparr>re_upstream := ur_upstream r, re_cache_state := ''coalesced'',
                                 re_rule := ur_rule r, re_reason := ur_reason r\<rparr>,
                               apply_upstream_result request r resp, f3\<lparr>f_cache := c3\<rparr>, p))
                      | ((Some i, True), f3) \<Rightarrow>
                          (case fetch p of (r, p') \<Rightarrow>
                             (let f4 = (case ur_msg r of None \<Rightarrow> f3
                                        | Some m \<Rightarrow> snd (store_if_generation now key m False generation f3));
                                  f5 = complete_miss_flight key i r f4
                              in (no_resolution\<lparr>re_upstream := ur_upstream r, re_rule := ur_rule r,
                                    re_reason := ur_reason r\<rparr>,
                                  apply_upstream_result request r resp, f5, p'))))))"


section \<open>Stored entries and their lifetime\<close>

text \<open>How long the entry stored for a message lives, in nanoseconds.\<close>

definition lifetime :: "flow \<Rightarrow> cache_entry \<Rightarrow> int" where
  "lifetime f e = (if ce_servfail e then f_servfail_ttl f else int (unat (ce_ttl e)) * second)"

lemma clamp_bounds: "c_min c \<le> c_max c \<Longrightarrow> c_min c \<le> clamp c t \<and> clamp c t \<le> c_max c"
  by (auto simp: clamp_def not_less)

lemma entry_for_cases:
  assumes "entry_for f now pf m = Some e"
  obtains (positive) "m_rcode m = rcode_success" "m_answer m \<noteq> []" "\<not> ce_negative e" "\<not> ce_servfail e"
      "ce_stored e = now" "ce_ttl e = clamp (f_cache f) (min_answer_ttl (m_answer m))"
    | (negative) ttl origin where "soa_metadata (m_ns m) = Some (ttl, origin)" "ce_negative e"
      "\<not> ce_servfail e" "ce_stored e = now" "ce_ttl e = min ttl (c_max (f_cache f))" "ce_ttl e \<noteq> 0"
      "m_rcode m = rcode_name_error \<or> m_rcode m = rcode_success"
    | (servfail) "m_rcode m = rcode_server_failure" "ce_servfail e" "ce_ttl e = 1" "0 < f_servfail_ttl f"
      "ce_stored e = now + (f_servfail_ttl f - second)" "\<not> ce_negative e"
proof (cases "m_rcode m = rcode_success \<and> m_answer m \<noteq> []")
  case True
  with assms show thesis
    by (intro positive) (auto simp: entry_for_def Let_def split: if_splits)
next
  case False
  note nf = this
  show thesis
  proof (cases "m_rcode m = rcode_name_error \<or> m_rcode m = rcode_success")
    case True
    with assms nf show thesis
      by (auto simp: entry_for_def Let_def min_def not_less split: if_splits option.splits
          intro!: negative)
  next
    case False
    with assms nf show thesis
      by (intro servfail) (auto simp: entry_for_def Let_def split: if_splits)
  qed
qed

text \<open>Nothing is stored of a truncated answer, and every field of the message is kept.\<close>

lemma entry_for_fields:
  assumes "entry_for f now pf m = Some e"
  shows "\<not> m_truncated m" "ce_answers e = m_answer m" "ce_authority e = m_ns m"
    "ce_rcode e = m_rcode m" "ce_ad e = m_ad m" "ce_prefetched e = pf" "ce_hits e = 0"
  using assms by (auto simp: entry_for_def Let_def split: if_splits option.splits)

lemma entry_live_iff:
  assumes e: "entry_for f now pf m = Some e" and t: "now \<le> t" and s: "f_servfail_ttl f \<le> second"
  shows "0 < remaining_ttl e t \<longleftrightarrow> t < now + lifetime f e"
  using e
proof (cases rule: entry_for_cases)
  case servfail
  then have "ce_stored e \<le> t" using t s by simp
  with servfail show ?thesis by (simp add: fresh_iff lifetime_def)
qed (use t in \<open>simp_all add: fresh_iff lifetime_def\<close>)

text \<open>
  Through the cache: the next lookup of a stored message hits exactly within its lifetime and
  returns the stored sections.
\<close>

lemma get_after_set:
  assumes "cache_inv c"
  shows "fst (cache_get t k (cache_set k e c)) =
    (if 0 < remaining_ttl e t then Some (e\<lparr>ce_hits := ce_hits e + 1\<rparr>, u32_of (remaining_ttl e t)) else None)"
proof -
  note s = cache_set_refines [OF assms, of k e]
  have "gm_get (lru_set (c_cap c) k e (contents c)) k = Some e"
    by (simp add: lru_set_def)
  then show ?thesis
    using get_refines [OF s(1), of t k] by (auto simp: s(2) lru_get_def Let_def not_less)
qed

section \<open>Invalidation is exact\<close>

lemma invalidate_matching_contents:
  assumes "cache_inv (f_cache f)"
  shows "contents (f_cache (snd (invalidate_matching P f))) = filter (\<lambda>x. \<not> P (fst x)) (contents (f_cache f))"
    and "cache_inv (f_cache (snd (invalidate_matching P f)))"
    and "f_generation (snd (invalidate_matching P f)) = f_generation f + 1"
  using invalidate_props [OF assms, of P]
  by (simp_all add: invalidate_matching_def bump_generation_def Let_def case_prod_beta)

section \<open>A cache as its clients see it\<close>

text \<open>
  What the ordering argument needs of a cache: a store adds at most the stored key, a lookup adds
  nothing, and dropping leaves no matching key.
\<close>

locale keyed_cache =
  fixes ok :: "'c \<Rightarrow> bool"
    and keys :: "'c \<Rightarrow> 'k set"
    and put :: "'k \<Rightarrow> 'e \<Rightarrow> 'c \<Rightarrow> 'c"
    and touch :: "'t \<Rightarrow> 'c \<Rightarrow> 'c"
    and drop_keys :: "('k \<Rightarrow> bool) \<Rightarrow> 'c \<Rightarrow> 'c"
  assumes ok_put: "ok c \<Longrightarrow> ok (put k e c)"
    and ok_touch: "ok c \<Longrightarrow> ok (touch t c)"
    and ok_drop: "ok c \<Longrightarrow> ok (drop_keys P c)"
    and keys_put: "ok c \<Longrightarrow> keys (put k e c) \<subseteq> insert k (keys c)"
    and keys_touch: "ok c \<Longrightarrow> keys (touch t c) \<subseteq> keys c"
    and keys_drop: "ok c \<Longrightarrow> keys (drop_keys P c) \<subseteq> {k \<in> keys c. \<not> P k}"

text \<open>
  \<open>current birth hist ks\<close>: hist is the list of the invalidations so far and birth the number of
  them that had happened when the fetch behind a key began; no later one matches the key.
\<close>

definition current :: "('k \<Rightarrow> nat) \<Rightarrow> ('k \<Rightarrow> bool) list \<Rightarrow> 'k set \<Rightarrow> bool" where
  "current birth hist ks \<longleftrightarrow> (\<forall>k \<in> ks. birth k \<le> length hist \<and> (\<forall>P \<in> set (drop (birth k) hist). \<not> P k))"

lemma current_mono: "current birth hist ks \<Longrightarrow> ks' \<subseteq> ks \<Longrightarrow> current birth hist ks'"
  by (auto simp: current_def)

context keyed_cache
begin

lemma current_put:
  assumes "ok c" and "current birth hist (keys c)"
  shows "current (birth(k := length hist)) hist (keys (put k e c))"
  using assms keys_put [OF assms(1), of k e] by (auto simp: current_def)

lemma current_touch:
  assumes "ok c" and "current birth hist (keys c)"
  shows "current birth hist (keys (touch t c))"
  using assms(2) keys_touch [OF assms(1)] by (rule current_mono)

lemma current_drop:
  assumes "ok c" and "current birth hist (keys c)"
  shows "current birth (hist @ [P]) (keys (drop_keys P c))"
  using assms keys_drop [OF assms(1), of P] by (fastforce simp: current_def)

end

definition cached_keys :: "cache \<Rightarrow> cache_key set" where
  "cached_keys c = fst ` set (contents c)"

lemma lru_get_keys: "fst ` set (snd (lru_get opt now k xs)) \<subseteq> fst ` set xs"
proof (cases "gm_get xs k")
  case (Some e)
  then have "k \<in> fst ` set xs" using gm_get_None [of xs k] by auto
  then show ?thesis
    using Some gm_keys_set [of k _ xs] gm_keys_del [of k xs]
    by (auto simp: lru_get_def Let_def)
qed (simp add: lru_get_def)

lemma lru_set_keys: "fst ` set (lru_set cap k e xs) \<subseteq> insert k (fst ` set xs)"
  using gm_keys_del [of k xs] by (auto simp: lru_set_def dest: in_set_butlastD)

interpretation resp_cache: keyed_cache cache_inv cached_keys cache_set
  "\<lambda>t c. snd (cache_get (fst t) (snd t) c)" "\<lambda>P c. snd (cache_invalidate P c)"
proof
  fix c k e P and t :: "int \<times> cache_key" assume inv: "cache_inv c"
  show "cache_inv (cache_set k e c)" "cache_inv (snd (cache_get (fst t) (snd t) c))"
    "cache_inv (snd (cache_invalidate P c))"
    using inv by (auto simp: cache_set_refines get_refines invalidate_props)
  show "cached_keys (cache_set k e c) \<subseteq> insert k (cached_keys c)"
    unfolding cached_keys_def cache_set_refines(2) [OF inv] by (rule lru_set_keys)
  have "contents (snd (cache_get (fst t) (snd t) c)) = snd (lru_get (c_optimistic c) (fst t) (snd t) (contents c))"
    using get_refines [OF inv, of "fst t" "snd t"] by (metis snd_conv)
  then show "cached_keys (snd (cache_get (fst t) (snd t) c)) \<subseteq> cached_keys c"
    unfolding cached_keys_def by (simp only: lru_get_keys)
  show "cached_keys (snd (cache_invalidate P c)) \<subseteq> {k \<in> cached_keys c. \<not> P k}"
    by (auto simp: cached_keys_def invalidate_props(2) [OF inv])
qed


section \<open>Stores are ordered against invalidations\<close>

text \<open>
  The server with its fetches in progress, as a step relation. Ghost state: the invalidations so
  far, for each fetch their number when it began, and for each cached key that number for the
  fetch its entry came from. A fetch reads the generation when it begins (a query that leads a
  miss, or a background refresh) and stores when it ends, any number of steps later.
\<close>

record fetch =
  ft_key :: cache_key
  ft_generation :: u64
  ft_began :: nat

record world =
  w_flow :: flow
  w_fetches :: "fetch list"
  w_hist :: "(cache_key \<Rightarrow> bool) list"
  w_birth :: "cache_key \<Rightarrow> nat"

inductive flow_step :: "world \<Rightarrow> world \<Rightarrow> bool" where
  begin_miss: "begin_miss_flight k (w_flow w) = ((Some i, True), f') \<Longrightarrow>
    flow_step w (w\<lparr>w_flow := f',
      w_fetches := \<lparr>ft_key = k, ft_generation = f_generation (w_flow w), ft_began = length (w_hist w)\<rparr> # w_fetches w\<rparr>)"
| begin_refresh:
    "flow_step w (w\<lparr>w_flow := refresh_async k r specs pf (w_flow w),
      w_fetches := \<lparr>ft_key = k, ft_generation = f_generation (w_flow w), ft_began = length (w_hist w)\<rparr> # w_fetches w\<rparr>)"
| finish: "ft \<in> set (w_fetches w) \<Longrightarrow>
    store_if_generation now (ft_key ft) m pf (ft_generation ft) (w_flow w) = (stored, f') \<Longrightarrow>
    flow_step w (w\<lparr>w_flow := f',
      w_birth := (if stored \<and> entry_for (w_flow w) now pf m \<noteq> None
                  then (w_birth w)(ft_key ft := ft_began ft) else w_birth w)\<rparr>)"
| complete: "flow_step w (w\<lparr>w_flow := complete_miss_flight k i r (w_flow w)\<rparr>)"
| lookup: "flow_step w (w\<lparr>w_flow := (w_flow w)\<lparr>f_cache := snd (cache_get now k (f_cache (w_flow w)))\<rparr>\<rparr>)"
| stale: "flow_step w (w\<lparr>w_flow := (w_flow w)\<lparr>f_cache := snd (get_stale now k (f_cache (w_flow w)))\<rparr>\<rparr>)"
| invalidate: "flow_step w (w\<lparr>w_flow := snd (invalidate_matching P (w_flow w)), w_hist := w_hist w @ [P]\<rparr>)"
| clear: "flow_step w (w\<lparr>w_flow := snd (clear_cache (w_flow w)), w_hist := w_hist w @ [\<lambda>_. True]\<rparr>)"
| reconf: "flow_step w (w\<lparr>w_flow := reconfigure_flow n lo hi opt (w_flow w), w_hist := w_hist w @ [\<lambda>_. True]\<rparr>)"

inductive reaches :: "world \<Rightarrow> world \<Rightarrow> bool" where
  start: "reaches w w"
| more: "reaches w w1 \<Longrightarrow> flow_step w1 w2 \<Longrightarrow> reaches w w2"

definition initial_world :: "flow \<Rightarrow> world" where
  "initial_world f = \<lparr>w_flow = f, w_fetches = [], w_hist = [], w_birth = (\<lambda>_. 0)\<rparr>"

definition world_inv :: "world \<Rightarrow> bool" where
  "world_inv w \<longleftrightarrow>
     cache_inv (f_cache (w_flow w)) \<and>
     f_generation (w_flow w) = of_nat (length (w_hist w)) \<and>
     (\<forall>ft \<in> set (w_fetches w). ft_generation ft = of_nat (ft_began ft) \<and> ft_began ft \<le> length (w_hist w)) \<and>
     current (w_birth w) (w_hist w) (cached_keys (f_cache (w_flow w)))"

lemma flow_frames [simp]:
  "f_cache (refresh_async k r specs pf f) = f_cache f"
  "f_generation (refresh_async k r specs pf f) = f_generation f"
  "f_cache (complete_miss_flight k i u f) = f_cache f"
  "f_generation (complete_miss_flight k i u f) = f_generation f"
  "f_cache (snd (begin_miss_flight k f)) = f_cache f"
  "f_generation (snd (begin_miss_flight k f)) = f_generation f"
  by (simp_all add: refresh_async_def complete_miss_flight_def begin_miss_flight_def split: option.splits)

lemma u64_nat_inj:
  assumes "of_nat a = (of_nat b :: u64)" "a \<le> b" "b < 2 ^ 64"
  shows "a = b"
proof -
  have "unat (of_nat a :: u64) = unat (of_nat b :: u64)" using assms(1) by simp
  moreover have "take_bit 64 a = a" "take_bit 64 b = b"
    using assms by (simp_all add: take_bit_nat_eq_self_iff)
  ultimately show ?thesis by (simp add: unsigned_of_nat)
qed

lemma current_none [simp]: "current b h {}"
  by (simp add: current_def)

lemma hist_grows: "flow_step w w' \<Longrightarrow> length (w_hist w) \<le> length (w_hist w')"
  by (induction rule: flow_step.induct) auto

lemma world_step:
  assumes "flow_step w w'" and "world_inv w" and "length (w_hist w') < 2 ^ 64"
  shows "world_inv w'"
  using assms
proof (induction rule: flow_step.induct)
  case (begin_miss k w i f')
  then have "f' = snd (begin_miss_flight k (w_flow w))" by simp
  with begin_miss show ?case by (simp add: world_inv_def)
next
  case (begin_refresh w k r specs pf)
  then show ?case by (simp add: world_inv_def)
next
  case (finish ft w now m pf stored f')
  note inv = finish.prems(1) [unfolded world_inv_def]
  show ?case
  proof (cases "stored \<and> entry_for (w_flow w) now pf m \<noteq> None")
    case True
    then obtain e where e: "entry_for (w_flow w) now pf m = Some e" by auto
    have gen: "ft_generation ft = f_generation (w_flow w)"
      and f': "f' = (w_flow w)\<lparr>f_cache := cache_set (ft_key ft) e (f_cache (w_flow w))\<rparr>"
      using finish.hyps(2) True e by (auto simp: store_if_generation_def store_in_cache_def split: if_splits)
    have "of_nat (ft_began ft) = (of_nat (length (w_hist w)) :: u64)" "ft_began ft \<le> length (w_hist w)"
      using gen inv finish.hyps(1) by auto
    moreover have "length (w_hist w) < 2 ^ 64" using finish.prems(2) by simp
    ultimately have "ft_began ft = length (w_hist w)"
      by (rule u64_nat_inj)
    then show ?thesis
      using True inv resp_cache.current_put [of "f_cache (w_flow w)" "w_birth w" "w_hist w" "ft_key ft" e]
      by (simp add: world_inv_def f' resp_cache.ok_put)
  next
    case False
    then have "f' = w_flow w"
      using finish.hyps(2) by (auto simp: store_if_generation_def store_in_cache_def split: if_splits)
    with False inv show ?thesis by (auto simp: world_inv_def)
  qed
next
  case (complete w k i r)
  then show ?case by (simp add: world_inv_def)
next
  case (lookup w now k)
  then show ?case
    using resp_cache.current_touch [of "f_cache (w_flow w)" "w_birth w" "w_hist w" "(now, k)"]
      resp_cache.ok_touch [of "f_cache (w_flow w)" "(now, k)"]
    by (simp add: world_inv_def)
next
  case (stale w now k)
  then show ?case
    by (simp add: world_inv_def get_stale_props cached_keys_def)
next
  case (invalidate w P)
  note inv = invalidate.prems(1) [unfolded world_inv_def]
  have "f_cache (snd (invalidate_matching P (w_flow w))) = snd (cache_invalidate P (f_cache (w_flow w)))"
    by (simp add: invalidate_matching_def bump_generation_def Let_def case_prod_beta)
  with inv show ?case
    using resp_cache.current_drop [of "f_cache (w_flow w)" "w_birth w" "w_hist w" P]
      invalidate_matching_contents [of "w_flow w" P]
    by (auto simp: world_inv_def)
next
  case (clear w)
  note inv = clear.prems(1) [unfolded world_inv_def]
  then show ?case
    using clear_props [of "f_cache (w_flow w)"]
    by (auto simp: world_inv_def clear_cache_def bump_generation_def Let_def case_prod_beta cached_keys_def)
next
  case (reconf w n lo hi opt)
  then show ?case
    by (auto simp: world_inv_def reconfigure_flow_def bump_generation_def reconfigure_props cached_keys_def)
qed

theorem no_stale_store:
  assumes run: "reaches (initial_world f) w"
    and f: "cache_inv (f_cache f)" "contents (f_cache f) = []" "f_generation f = 0"
    and bound: "length (w_hist w) < 2 ^ 64"
    and k: "k \<in> cached_keys (f_cache (w_flow w))" and n: "w_birth w k \<le> n" "n < length (w_hist w)"
  shows "\<not> (w_hist w ! n) k"
proof -
  have "world_inv w"
    using run bound
  proof (induction "initial_world f" w rule: reaches.induct)
    case start
    show ?case using f by (simp add: initial_world_def world_inv_def cached_keys_def)
  next
    case (more w1 w2)
    then show ?case using hist_grows [OF more.hyps(3)] by (intro world_step [OF more.hyps(3)]) auto
  qed
  then have "\<forall>P \<in> set (drop (w_birth w k) (w_hist w)). \<not> P k"
    using k by (auto simp: world_inv_def current_def)
  moreover have "w_hist w ! n \<in> set (drop (w_birth w k) (w_hist w))"
    using n by (auto simp: in_set_conv_nth intro!: exI [of _ "n - w_birth w k"])
  ultimately show ?thesis by blast
qed


section \<open>Background work is bounded\<close>

datatype flow_op =
    FBegin cache_key
  | FComplete cache_key nat upstream_result
  | FRefresh cache_key msg "string list" bool
  | FFinish int nat upstream_result
  | FInvalidate "cache_key \<Rightarrow> bool"
  | FClear

fun flow_apply :: "flow_op \<Rightarrow> flow \<Rightarrow> flow" where
  "flow_apply (FBegin k) f = snd (begin_miss_flight k f)"
| "flow_apply (FComplete k i r) f = complete_miss_flight k i r f"
| "flow_apply (FRefresh k r specs pf) f = refresh_async k r specs pf f"
| "flow_apply (FFinish now n r) f =
     (if n < length (f_jobs f) then finish_refresh now (f_jobs f ! n) r f else f)"
| "flow_apply (FInvalidate P) f = snd (invalidate_matching P f)"
| "flow_apply FClear f = snd (clear_cache f)"

definition work_inv :: "flow \<Rightarrow> bool" where
  "work_inv f \<longleftrightarrow>
     gm_ok (f_miss f) \<and> length (f_miss f) \<le> max_miss_flights \<and>
     distinct (List.map rj_key (f_jobs f)) \<and> length (f_jobs f) \<le> max_background_refreshes \<and>
     set (f_refreshing f) = rj_key ` set (f_jobs f)"

lemma store_frames [simp]:
  "f_miss (store_in_cache now k m pf f) = f_miss f" "f_jobs (store_in_cache now k m pf f) = f_jobs f"
  "f_refreshing (store_in_cache now k m pf f) = f_refreshing f"
  "f_miss (snd (store_if_generation now k m pf g f)) = f_miss f"
  "f_jobs (snd (store_if_generation now k m pf g f)) = f_jobs f"
  "f_refreshing (snd (store_if_generation now k m pf g f)) = f_refreshing f"
  by (simp_all add: store_in_cache_def store_if_generation_def split: option.splits)

lemma finish_refresh_frames:
  "f_miss (finish_refresh now j r f) = f_miss f"
  "f_jobs (finish_refresh now j r f) = remove1 j (f_jobs f)"
  "f_refreshing (finish_refresh now j r f) = removeAll (rj_key j) (f_refreshing f)"
  by (auto simp: finish_refresh_def Let_def store_if_generation_def split: option.splits)

lemma inval_frames:
  "f_miss (snd (invalidate_matching P f)) = f_miss f" "f_jobs (snd (invalidate_matching P f)) = f_jobs f"
  "f_refreshing (snd (invalidate_matching P f)) = f_refreshing f"
  "f_miss (snd (clear_cache f)) = f_miss f" "f_jobs (snd (clear_cache f)) = f_jobs f"
  "f_refreshing (snd (clear_cache f)) = f_refreshing f"
  by (simp_all add: invalidate_matching_def clear_cache_def bump_generation_def Let_def case_prod_beta)

lemma finish_refresh_work:
  assumes inv: "work_inv f" and j: "j \<in> set (f_jobs f)"
  shows "work_inv (finish_refresh now j r f)"
proof -
  from inv have d: "distinct (List.map rj_key (f_jobs f))" by (simp add: work_inv_def)
  then have dj: "distinct (f_jobs f)" and inj: "inj_on rj_key (set (f_jobs f))"
    by (simp_all only: distinct_map)
  have "set (remove1 j (f_jobs f)) = set (f_jobs f) - {j}" using dj by simp
  moreover have "rj_key ` (set (f_jobs f) - {j}) = rj_key ` set (f_jobs f) - {rj_key j}"
    using inj_on_image_set_diff [OF inj, of "set (f_jobs f)" "{j}"] j by simp
  moreover have "distinct (List.map rj_key (remove1 j (f_jobs f)))"
    using dj inj by (auto simp: distinct_map distinct_remove1 intro: inj_on_subset)
  moreover have "length (remove1 j (f_jobs f)) \<le> length (f_jobs f)"
    by (simp add: length_remove1)
  ultimately show ?thesis
    using inv by (simp add: work_inv_def finish_refresh_frames)
qed

interpretation flow_work: invariant_system flow_apply work_inv
proof
  fix f x assume inv: "work_inv f"
  show "work_inv (flow_apply x f)"
  proof (cases x)
    case (FBegin k)
    have "length (gm_set k (f_next f) (f_miss f)) \<le> max_miss_flights" if "length (f_miss f) < max_miss_flights"
      using that by (simp add: gm_len_set)
    with inv FBegin show ?thesis
      by (auto simp: work_inv_def begin_miss_flight_def split: option.splits)
  next
    case (FComplete k i r)
    have "length (gm_del k (f_miss f)) \<le> max_miss_flights"
      using inv gm_len_del_le [of k "f_miss f"] by (simp add: work_inv_def)
    with inv FComplete show ?thesis
      by (auto simp: work_inv_def complete_miss_flight_def split: option.splits)
  next
    case (FRefresh k r specs pf)
    with inv show ?thesis by (auto simp: work_inv_def refresh_async_def)
  next
    case (FFinish now n r)
    with inv show ?thesis by (simp add: finish_refresh_work)
  qed (use inv in \<open>simp_all add: work_inv_def inval_frames\<close>)
qed

section \<open>Answering from the cache\<close>

lemma get_hit_entry:
  assumes "cache_inv c" and "gm_get (contents c) k = Some e" and "0 < remaining_ttl e t"
  shows "fst (cache_get t k c) = Some (e\<lparr>ce_hits := ce_hits e + 1\<rparr>, u32_of (remaining_ttl e t))"
  using get_refines [OF assms(1), of t k] assms(2,3) by (simp add: lru_get_def Let_def)

text \<open>A live entry answers without any fetch.\<close>

lemma resolve_hit:
  assumes "cache_inv (f_cache f)" and "gm_get (contents (f_cache f)) key = Some e"
    and "0 < remaining_ttl e now"
  shows "\<exists>res resp' f'. resolve_via_cache_or_upstream fetch await now request key specs resp f p = (res, resp', f', p) \<and>
    re_cache_hit res \<and> m_rcode resp' = ce_rcode e \<and>
    m_answer resp' = with_ttl (u32_of (remaining_ttl e now)) (ce_answers e) \<and>
    m_ns resp' = with_ttl (u32_of (remaining_ttl e now)) (ce_authority e)"
proof -
  obtain c where g: "cache_get now key (f_cache f) =
      (Some (e\<lparr>ce_hits := ce_hits e + 1\<rparr>, u32_of (remaining_ttl e now)), c)"
    using get_hit_entry [OF assms] by (metis prod.collapse)
  show ?thesis
    by (simp add: resolve_via_cache_or_upstream_def g Let_def apply_cache_entry_def)
qed

text \<open>An expired entry in optimistic mode answers without any fetch, whatever its kind.\<close>

lemma resolve_stale:
  assumes "cache_inv (f_cache f)" and "f_optimistic f" and "c_optimistic (f_cache f)"
    and "gm_get (contents (f_cache f)) key = Some e" and "remaining_ttl e now \<le> 0"
  shows "\<exists>res resp' f'. resolve_via_cache_or_upstream fetch await now request key specs resp f p = (res, resp', f', p) \<and>
    re_cache_state res = ''stale'' \<and> m_rcode resp' = ce_rcode e \<and> m_answer resp' = with_ttl 1 (ce_answers e)"
proof -
  obtain r c where g: "cache_get now key (f_cache f) = (r, c)" by (metis prod.collapse)
  have r: "r = None" and c: "cache_inv c"
    and con: "contents c = gm_set key (e\<lparr>ce_expired_observed := True\<rparr>) (contents (f_cache f))"
    using get_refines [OF assms(1), of now key] assms(3-5) g by (simp_all add: lru_get_def)
  obtain s c2 where st: "get_stale now key c = (s, c2)" by (metis prod.collapse)
  have s: "s = Some (e\<lparr>ce_expired_observed := True\<rparr>)"
    using get_stale_props(1) [OF c, of now key] st con by (simp add: gm_get_set)
  show ?thesis
    by (simp add: resolve_via_cache_or_upstream_def g r st s assms(2) Let_def apply_cache_entry_def)
qed

text \<open>A miss led by this query fetches once and stores the answer.\<close>

lemma resolve_lead:
  assumes "cache_inv (f_cache f)" and "gm_get (contents (f_cache f)) key = None"
    and "gm_get (f_miss f) key = None" and "length (f_miss f) < max_miss_flights"
    and "fetch p = (\<lparr>ur_upstream = u, ur_msg = Some m, ur_rule = rl, ur_reason = rs\<rparr>, p')"
    and "entry_for f now False m = Some e"
  shows "\<exists>res resp' f'. resolve_via_cache_or_upstream fetch await now request key specs resp f p = (res, resp', f', p') \<and>
    cache_inv (f_cache f') \<and> gm_get (contents (f_cache f')) key = Some e \<and> m_answer resp' = m_answer m \<and>
    m_rcode resp' = m_rcode m \<and> c_optimistic (f_cache f') = c_optimistic (f_cache f) \<and>
    gm_get (f_miss f') key = None"
proof -
  obtain r c where g: "cache_get now key (f_cache f) = (r, c)" by (metis prod.collapse)
  have items: "gm_get (c_items (f_cache f)) key = None"
    using assms(1,2) contents_keys [OF assms(1), of key] by (auto simp: map_of_eq_None_iff)
  then have rc: "r = None" "c = count_miss (ck_qtype key) (f_cache f)"
    using g by (simp_all add: cache_get_def)
  have c: "cache_inv c" "contents c = contents (f_cache f)" "c_optimistic c = c_optimistic (f_cache f)"
    "c_min c = c_min (f_cache f)" "c_max c = c_max (f_cache f)" "c_items c = c_items (f_cache f)"
    using assms(1) rc by (simp_all add: count_miss_def qtype_ops)
  have st: "get_stale now key c = (None, c)"
    using items c(6) by (simp add: get_stale_def)
  have ent: "entry_for f1 now False m = Some e"
    if "f_cache f1 = c" "f_servfail_ttl f1 = f_servfail_ttl f" for f1 :: flow
  proof -
    have "entry_for f1 now False m = entry_for f now False m"
      unfolding entry_for_def clamp_def that c(4,5) ..
    with assms(6) show ?thesis by simp
  qed
  note cs = cache_set_refines [OF c(1), of key e]
  have "gm_get (contents (cache_set key e c)) key = Some e"
    unfolding cs(2) by (simp add: lru_set_def)
  moreover have "c_optimistic (cache_set key e c) = c_optimistic c"
    by (auto simp: cache_set_def set_value_def push_front_def evict_def remove_element_def
        move_to_front_def qtype_ops Let_def split: option.splits prod.splits)
  ultimately show ?thesis
    using cs(1) assms(3-5) c(3)
    by (simp add: resolve_via_cache_or_upstream_def g rc(1) st Let_def begin_miss_flight_def
        store_if_generation_def store_in_cache_def ent complete_miss_flight_def gm_get_set gm_get_del
        apply_upstream_result_def)
qed

end
