(* ===== verification/Cache_Claims.thy ===== *)
theory Cache_Claims
  imports Cache_Flow
begin

text \<open>
  What the response cache guarantees: the state dnsserver.New builds, and the properties of every
  run from it. The concrete key, message and server (\<open>demo_*\<close>) instantiate the hypotheses.
\<close>

section \<open>The server's cache state after New\<close>

record cache_config =
  cc_size :: int
  cc_min :: u32
  cc_max :: u32
  cc_optimistic :: bool
  cc_prefetch :: bool
  cc_window :: int
  cc_hits :: u32
  cc_servfail :: int

definition new_flow :: "cache_config \<Rightarrow> flow" where
  "new_flow g =
     \<lparr>f_cache = (new_cache (cc_size g) (cc_min g) (cc_max g))\<lparr>c_optimistic := cc_optimistic g\<rparr>,
      f_generation = 0, f_miss = [], f_flights = [], f_next = 0, f_refreshing = [], f_jobs = [],
      f_optimistic = cc_optimistic g, f_prefetch = cc_prefetch g,
      f_prefetch_window = (if cc_window g \<le> 0 then 30 * second else cc_window g),
      f_prefetch_hits = (if cc_hits g = 0 then 3 else cc_hits g),
      f_servfail_ttl = (let t = (if second < cc_servfail g then second else cc_servfail g)
                        in if t < 0 then 0 else t)\<rparr>"

lemma new_flow_ok: "cache_inv (f_cache (new_flow g))" "contents (f_cache (new_flow g)) = []"
    "f_generation (new_flow g) = 0" "work_inv (new_flow g)" "f_servfail_ttl (new_flow g) \<le> second"
proof -
  have "cache_inv (c\<lparr>c_optimistic := b\<rparr>) = cache_inv c" for c :: cache and b
    by (simp add: cache_inv_def)
  then show "cache_inv (f_cache (new_flow g))" by (simp add: new_flow_def new_cache_inv)
qed (simp_all add: new_flow_def contents_def new_cache_def work_inv_def second_def Let_def)

section \<open>Properties\<close>

text \<open>C26: Starting from a new cache, every sequence of lookups, stale lookups, stores, clears,
  reconfigurations and invalidations keeps the map and the list of the cache in agreement and
  within the capacity, and the next operation changes the contents exactly as it changes an
  abstract list ordered by recency.\<close>

theorem cache_refines_lru:
  "let c = fold cache_step ops (new_cache n lo hi)
   in cache_inv c \<and> int (length (c_items c)) \<le> c_cap c \<and>
      contents (cache_step x c) = lru_step (c_optimistic c) (c_cap c) x (contents c)"
proof -
  have inv: "cache_inv (fold cache_step ops (new_cache n lo hi))"
    by (rule cache_sys.run_keeps) (rule new_cache_inv)
  then show ?thesis
    using step_refines [OF inv] cache_invD(5) [OF inv] cache_inv_len [OF inv] by (simp add: Let_def)
qed

text \<open>A key that was just stored survives any sequence of lookups and stores of fewer other
  keys than the capacity: eviction takes the least recently used entry.\<close>

theorem recent_key_survives:
  assumes "cache_inv c" and "finite K" and "k \<notin> K" and "int (card K) < c_cap c"
    and "\<forall>x \<in> set ops. \<exists>k' \<in> K. uses_key x = Some k'"
  shows "gm_get (contents (fold cache_step ops (cache_set k e c))) k = Some e"
  using assms by (rule lru_survives)

definition demo_key :: "string \<Rightarrow> cache_key" where
  "demo_key n = \<lparr>ck_name = n, ck_qtype = type_A, ck_qclass = class_INET, ck_group = [], ck_do = False,
     ck_cd = False, ck_ecs = [], ck_policy = ''global'', ck_route = []\<rparr>"

definition demo_rr :: rr where
  "demo_rr = \<lparr>rr_name = ''a.'', rr_type = type_A, rr_class = class_INET, rr_ttl = 90, rr_data = RD_A (Some 1)\<rparr>"

definition demo_msg :: msg where
  "demo_msg = empty_msg\<lparr>m_answer := [demo_rr]\<rparr>"

definition demo_entry :: cache_entry where
  "demo_entry = \<lparr>ce_answers = [demo_rr], ce_authority = [], ce_rcode = rcode_success, ce_ad = False,
     ce_stored = 0, ce_ttl = 90, ce_hits = 0, ce_negative = False, ce_soa = [], ce_servfail = False,
     ce_prefetched = False, ce_expired_observed = False\<rparr>"

theorem recent_key_survives_witness:
  "gm_get (contents (fold cache_step
      [OpSet (demo_key ''b'') demo_entry, OpGet 5 (demo_key ''b''), OpSet (demo_key ''b'') demo_entry]
      (cache_set (demo_key ''a'') demo_entry (new_cache 2 0 0)))) (demo_key ''a'') = Some demo_entry"
proof (rule recent_key_survives [where K = "{demo_key ''b''}"])
  show "cache_inv (new_cache 2 0 0)" by (rule new_cache_inv)
  show "int (card {demo_key ''b''}) < c_cap (new_cache 2 0 0)" by (simp add: new_cache_def capacity_of_def)
  show "demo_key ''a'' \<notin> {demo_key ''b''}" by (simp add: demo_key_def)
qed simp_all

text \<open>C28: A message that is stored at time now is served from the cache at a later time t exactly
  while t is before now plus its lifetime: the clamped minimum answer TTL of a positive answer,
  the SOA TTL of a negative one, the configured sub-second bound of a SERVFAIL. The answer
  returned is the stored one.\<close>

theorem stored_answer_lifetime:
  assumes "cache_inv (f_cache f)" and "entry_for f now pf m = Some e"
    and "f_servfail_ttl f \<le> second" and "now \<le> t"
  shows "(\<exists>e' r. fst (cache_get t key (f_cache (store_in_cache now key m pf f))) = Some (e', r) \<and>
            ce_answers e' = m_answer m \<and> ce_rcode e' = m_rcode m \<and> r \<le> ce_ttl e)
         \<longleftrightarrow> t < now + lifetime f e"
proof -
  have get: "fst (cache_get t key (f_cache (store_in_cache now key m pf f))) =
     (if 0 < remaining_ttl e t then Some (e\<lparr>ce_hits := ce_hits e + 1\<rparr>, u32_of (remaining_ttl e t)) else None)"
    using get_after_set [OF assms(1)] assms(2) by (simp add: store_in_cache_def)
  have live: "0 < remaining_ttl e t \<longleftrightarrow> t < now + lifetime f e"
    using assms(2,4,3) by (rule entry_live_iff)
  have "ce_stored e \<le> t"
    using assms(2-4) by (elim entry_for_cases) auto
  then have le: "remaining_ttl e t \<le> int (unat (ce_ttl e))"
    by (simp add: remaining_ttl_def trunc_div_second)
  have "u32_of (remaining_ttl e t) \<le> ce_ttl e" if "0 < remaining_ttl e t"
  proof -
    have "int (unat (ce_ttl e)) < 2 ^ 32" using unsigned_less [of "ce_ttl e"] by simp
    then have "uint (u32_of (remaining_ttl e t)) = remaining_ttl e t"
      using that le by (intro u32_of_small) linarith+
    with le show ?thesis by (simp add: word_le_def)
  qed
  with get live entry_for_fields [OF assms(2)] show ?thesis by auto
qed

text \<open>The hypotheses of the properties below, at a concrete cache.\<close>

definition demo_config :: cache_config where
  "demo_config = \<lparr>cc_size = 10, cc_min = 0, cc_max = 0, cc_optimistic = True, cc_prefetch = False,
     cc_window = 0, cc_hits = 0, cc_servfail = 500000000\<rparr>"

definition demo_flow :: flow where
  "demo_flow = new_flow demo_config"

lemma demo_entry_stored: "entry_for demo_flow 0 False demo_msg = Some demo_entry"
  by (simp add: entry_for_def demo_flow_def demo_config_def new_flow_def demo_msg_def demo_entry_def empty_msg_def Let_def
      clamp_def new_cache_def bounds_of_def min_answer_ttl_def demo_rr_def min_cache_ttl_def max_cache_ttl_def)

lemma demo_flow_ok: "cache_inv (f_cache demo_flow)" "f_servfail_ttl demo_flow \<le> second"
  by (simp_all add: demo_flow_def new_flow_ok)

lemma demo_stored: "cache_inv (cache_set (demo_key n) demo_entry (f_cache demo_flow))"
    "contents (cache_set (demo_key n) demo_entry (f_cache demo_flow)) = [(demo_key n, demo_entry)]"
proof -
  have "contents (f_cache demo_flow) = []" "c_cap (f_cache demo_flow) = 10"
    by (simp_all add: demo_flow_def new_flow_ok) (simp add: new_flow_def demo_config_def new_cache_def capacity_of_def)
  then show "cache_inv (cache_set (demo_key n) demo_entry (f_cache demo_flow))"
    "contents (cache_set (demo_key n) demo_entry (f_cache demo_flow)) = [(demo_key n, demo_entry)]"
    using cache_set_refines [OF demo_flow_ok(1), of "demo_key n" demo_entry] by (simp_all add: lru_set_def)
qed

theorem stored_answer_lifetime_witness:
  "fst (cache_get (89 * second) (demo_key ''a'') (f_cache (store_in_cache 0 (demo_key ''a'') demo_msg False demo_flow))) \<noteq> None"
  using stored_answer_lifetime [OF demo_flow_ok(1) demo_entry_stored demo_flow_ok(2), of "89 * second" "demo_key ''a''"]
  by (auto simp: lifetime_def demo_entry_def second_def)

text \<open>C1: No entry survives an invalidation that its fetch did not see. In every interleaving of
  queries, background refreshes, stores, lookups and invalidations of a fresh server (fewer than
  2^64 invalidations), the fetch whose answer is cached under a key began after the last
  invalidation that matches the key.\<close>

theorem no_entry_older_than_invalidation:
  assumes "reaches (initial_world (new_flow g)) w" and "length (w_hist w) < 2 ^ 64"
    and "k \<in> cached_keys (f_cache (w_flow w))" and "w_birth w k \<le> n" and "n < length (w_hist w)"
  shows "\<not> (w_hist w ! n) k"
  using assms(1) new_flow_ok(1-3) assms(2-5) by (rule no_stale_store)

theorem no_entry_older_than_invalidation_witness:
  "\<exists>w. reaches (initial_world demo_flow) w \<and> demo_key ''a'' \<in> cached_keys (f_cache (w_flow w)) \<and>
       length (w_hist w) = 1 \<and> \<not> (w_hist w ! 0) (demo_key ''a'')"
proof -
  let ?a = "demo_key ''a''" and ?P = "\<lambda>k. ck_name k = ''b''"
  let ?w0 = "initial_world demo_flow"
  obtain f1 where b: "begin_miss_flight ?a (w_flow ?w0) = ((Some 0, True), f1)"
    by (simp add: begin_miss_flight_def initial_world_def demo_flow_def demo_config_def new_flow_def max_miss_flights_def)
  let ?ft = "\<lparr>ft_key = ?a, ft_generation = f_generation (w_flow ?w0), ft_began = length (w_hist ?w0)\<rparr>"
  let ?w1 = "?w0\<lparr>w_flow := f1, w_fetches := ?ft # w_fetches ?w0\<rparr>"
  have s1: "flow_step ?w0 ?w1" by (rule begin_miss) (rule b)
  have f1: "f_cache f1 = f_cache demo_flow" "f_generation f1 = f_generation demo_flow"
    "f_servfail_ttl f1 = f_servfail_ttl demo_flow"
    using b by (auto simp: initial_world_def begin_miss_flight_def demo_flow_def demo_config_def new_flow_def split: if_splits)
  have e: "entry_for f1 0 False demo_msg = Some demo_entry"
    using demo_entry_stored unfolding entry_for_def f1 .
  obtain f2 where st: "store_if_generation 0 (ft_key ?ft) demo_msg False (ft_generation ?ft) (w_flow ?w1) = (True, f2)"
    and f2: "f_cache f2 = cache_set ?a demo_entry (f_cache demo_flow)"
    using f1 e by (simp add: store_if_generation_def store_in_cache_def initial_world_def)
  let ?w2 = "?w1\<lparr>w_flow := f2, w_birth := (if True \<and> entry_for (w_flow ?w1) 0 False demo_msg \<noteq> None
    then (w_birth ?w1)(ft_key ?ft := ft_began ?ft) else w_birth ?w1)\<rparr>"
  have s2: "flow_step ?w1 ?w2" by (rule finish [OF _ st]) simp
  let ?w3 = "?w2\<lparr>w_flow := snd (invalidate_matching ?P (w_flow ?w2)), w_hist := w_hist ?w2 @ [?P]\<rparr>"
  have s3: "flow_step ?w2 ?w3" by (rule invalidate)
  have r: "reaches ?w0 ?w3"
    by (rule more [OF more [OF more [OF start s1] s2] s3])
  have inv: "cache_inv (f_cache f2)" and con: "contents (f_cache f2) = [(?a, demo_entry)]"
    by (simp_all add: f2 demo_stored)
  have k: "?a \<in> cached_keys (f_cache (w_flow ?w3))"
    using invalidate_matching_contents(1) [OF inv, of ?P] con
    by (simp add: cached_keys_def) (simp add: demo_key_def)
  have "\<not> (w_hist ?w3 ! 0) ?a"
  proof (rule no_entry_older_than_invalidation [OF _ _ k])
    show "reaches (initial_world (new_flow demo_config)) ?w3"
      using r by (simp only: demo_flow_def)
  qed (simp_all add: initial_world_def)
  with r k show ?thesis by (intro exI [of _ ?w3]) (simp add: initial_world_def)
qed

text \<open>InvalidateCacheDomains removes exactly the entries at or below one of the given domains
  (after trimming, a leading wildcard label dropped and lower-casing), keeps every other entry in
  order, and no fetch that began before can store any more.\<close>

theorem invalidate_domains_exact:
  assumes "cache_inv (f_cache f)" and "normalized_domains ds \<noteq> []"
  shows "contents (f_cache (snd (invalidate_domains ds f))) =
           filter (\<lambda>x. \<not> (\<exists>d \<in> set (normalized_domains ds). covers d (ck_name (fst x)))) (contents (f_cache f)) \<and>
         store_if_generation now k m pf (f_generation f) (snd (invalidate_domains ds f)) =
           (False, snd (invalidate_domains ds f))"
proof -
  let ?P = "\<lambda>k. list_ex (\<lambda>d. ck_name k = d \<or> has_suffix (ck_name k) (CHR ''.'' # d)) (normalized_domains ds)"
  have eq: "invalidate_domains ds f = invalidate_matching ?P f"
    using assms(2) by (simp add: invalidate_domains_def)
  have "filter (\<lambda>x. \<not> ?P (fst x)) (contents (f_cache f)) =
      filter (\<lambda>x. \<not> (\<exists>d \<in> set (normalized_domains ds). covers d (ck_name (fst x)))) (contents (f_cache f))"
    by (rule filter_cong) (auto simp: list_ex_iff covers_def)
  then show ?thesis
    using invalidate_matching_contents [OF assms(1), of ?P] unfolding eq
    by (simp add: store_if_generation_def)
qed

theorem invalidate_domains_exact_witness:
  "normalized_domains ['' *.A.''] = [''a''] \<and>
   contents (f_cache (snd (invalidate_domains ['' *.A.''] (store_in_cache 0 (demo_key ''a'') demo_msg False demo_flow)))) = []"
proof -
  have n: "normalized_domains ['' *.A.''] = [''a'']"
    by code_simp
  let ?f = "store_in_cache 0 (demo_key ''a'') demo_msg False demo_flow"
  have f: "f_cache ?f = cache_set (demo_key ''a'') demo_entry (f_cache demo_flow)"
    by (simp add: store_in_cache_def demo_entry_stored)
  have inv: "cache_inv (f_cache ?f)" and con: "contents (f_cache ?f) = [(demo_key ''a'', demo_entry)]"
    by (simp_all add: f demo_stored)
  have "contents (f_cache (snd (invalidate_domains ['' *.A.''] ?f))) = []"
    using invalidate_domains_exact [OF inv, of "['' *.A.'']"] n con by (simp add: demo_key_def)
  with n show ?thesis by simp
qed

text \<open>Whatever the order of queries, completions, refreshes and invalidations, at most 1024
  misses are in flight with one leader per key, at most 64 background refreshes run, and no key
  is refreshed twice at a time.\<close>

theorem background_work_bounded:
  "let f = fold flow_apply ops (new_flow g)
   in gm_ok (f_miss f) \<and> length (f_miss f) \<le> 1024 \<and> length (f_jobs f) \<le> 64 \<and>
      distinct (List.map rj_key (f_jobs f))"
  using flow_work.run_keeps [OF new_flow_ok(4), of ops g]
  by (simp add: Let_def work_inv_def max_miss_flights_def max_background_refreshes_def)

lemma lead_then_hit:
  assumes "cache_inv (f_cache f)" and "gm_get (contents (f_cache f)) key = None"
    and "gm_get (f_miss f) key = None" and "length (f_miss f) < max_miss_flights"
    and "fetch p = (\<lparr>ur_upstream = u, ur_msg = Some m, ur_rule = rl, ur_reason = rs\<rparr>, p')"
    and "entry_for f now False m = Some e" and "f_servfail_ttl f \<le> second"
    and "now \<le> t" and "t < now + lifetime f e"
  shows "\<exists>res1 resp1 f1. resolve_via_cache_or_upstream fetch await now q key specs resp f p = (res1, resp1, f1, p') \<and>
     m_answer resp1 = m_answer m \<and>
     (\<exists>res2 resp2 f2 ttl. resolve_via_cache_or_upstream fetch await t q key specs resp f1 p' = (res2, resp2, f2, p') \<and>
        re_cache_hit res2 \<and> m_rcode resp2 = m_rcode resp1 \<and> m_answer resp2 = with_ttl ttl (m_answer m))"
proof -
  obtain res1 resp1 f1 where r1: "resolve_via_cache_or_upstream fetch await now q key specs resp f p = (res1, resp1, f1, p')"
    and f1: "cache_inv (f_cache f1)" "gm_get (contents (f_cache f1)) key = Some e"
    and a: "m_answer resp1 = m_answer m" "m_rcode resp1 = m_rcode m"
    using resolve_lead [where fetch = fetch and p = p, OF assms(1-6)] by metis
  have live: "0 < remaining_ttl e t"
    using entry_live_iff [OF assms(6,8,7)] assms(9) by simp
  obtain res2 resp2 f2 where "resolve_via_cache_or_upstream fetch await t q key specs resp f1 p' = (res2, resp2, f2, p')"
    "re_cache_hit res2" "m_rcode resp2 = ce_rcode e"
    "m_answer resp2 = with_ttl (u32_of (remaining_ttl e t)) (ce_answers e)"
    using resolve_hit [OF f1 live] by metis
  with r1 a show ?thesis
    by (auto simp: entry_for_fields [OF assms(6)])
qed

text \<open>A query that leads a miss fetches once; the same query asked again within the lifetime of
  the stored answer is answered from the cache, without touching the upstreams, with the same
  response code and the same records, their TTLs replaced by the remaining one.\<close>

theorem miss_then_hit:
  assumes "cache_inv (f_cache f)" and "gm_get (contents (f_cache f)) key = None"
    and "gm_get (f_miss f) key = None" and "length (f_miss f) < max_miss_flights"
    and "fetch p = (\<lparr>ur_upstream = u, ur_msg = Some m, ur_rule = rl, ur_reason = rs\<rparr>, p')"
    and "entry_for f now False m = Some e" and "f_servfail_ttl f \<le> second"
    and "now \<le> t" and "t < now + lifetime f e"
  shows "\<exists>res1 resp1 f1. resolve_via_cache_or_upstream fetch await now q key specs resp f p = (res1, resp1, f1, p') \<and>
     m_answer resp1 = m_answer m \<and>
     (\<exists>res2 resp2 f2 ttl. resolve_via_cache_or_upstream fetch await t q key specs resp f1 p' = (res2, resp2, f2, p') \<and>
        re_cache_hit res2 \<and> m_rcode resp2 = m_rcode resp1 \<and> m_answer resp2 = with_ttl ttl (m_answer m))"
  by (rule lead_then_hit [where fetch = fetch and p = p, OF assms])

theorem miss_then_hit_witness:
  "\<exists>res1 resp1 f1 res2 resp2 f2 ttl.
     resolve_via_cache_or_upstream (\<lambda>p. (\<lparr>ur_upstream = ''u'', ur_msg = Some demo_msg, ur_rule = [], ur_reason = []\<rparr>, Suc p))
       (\<lambda>_. empty_result) 0 empty_msg (demo_key ''a'') [] empty_msg demo_flow 0 = (res1, resp1, f1, 1) \<and>
     resolve_via_cache_or_upstream (\<lambda>p. (\<lparr>ur_upstream = ''u'', ur_msg = Some demo_msg, ur_rule = [], ur_reason = []\<rparr>, Suc p))
       (\<lambda>_. empty_result) (89 * second) empty_msg (demo_key ''a'') [] empty_msg f1 1 = (res2, resp2, f2, 1) \<and>
     m_answer resp2 = with_ttl ttl [demo_rr]"
proof -
  let ?fetch = "\<lambda>p. (\<lparr>ur_upstream = ''u'', ur_msg = Some demo_msg, ur_rule = [], ur_reason = []\<rparr>, Suc p)"
  have "gm_get (contents (f_cache demo_flow)) (demo_key ''a'') = None"
    "gm_get (f_miss demo_flow) (demo_key ''a'') = None" "length (f_miss demo_flow) < max_miss_flights"
    by (simp_all add: demo_flow_def new_flow_ok(2)) (simp_all add: new_flow_def max_miss_flights_def)
  from miss_then_hit [of demo_flow, OF demo_flow_ok(1) this, where fetch = ?fetch, OF refl demo_entry_stored demo_flow_ok(2),
      where t = "89 * second" and p = 0 and await = "\<lambda>_. empty_result" and q = empty_msg
        and resp = empty_msg and specs = "[]"]
  show ?thesis by (fastforce simp: lifetime_def demo_entry_def second_def demo_msg_def)
qed

text \<open>The SERVFAIL micro-cache is not bounded in optimistic mode: an expired SERVFAIL entry is
  served as a stale answer at every later time, however long ago it expired, without asking an
  upstream.\<close>

theorem servfail_served_stale:
  assumes "cache_inv (f_cache f)" and "f_optimistic f" and "c_optimistic (f_cache f)"
    and "entry_for f now False m = Some e" and "m_rcode m = rcode_server_failure"
    and "f_servfail_ttl f \<le> second" and "now + second \<le> t"
  shows "\<exists>res resp' f'. resolve_via_cache_or_upstream fetch await t q key specs resp (store_in_cache now key m False f) p =
           (res, resp', f', p) \<and> re_cache_state res = ''stale'' \<and> m_rcode resp' = rcode_server_failure"
proof -
  let ?f = "store_in_cache now key m False f"
  have c: "f_cache ?f = cache_set key e (f_cache f)" "f_optimistic ?f"
    using assms(2,4) by (simp_all add: store_in_cache_def)
  note cs = cache_set_refines [OF assms(1), of key e]
  have opt: "c_optimistic (f_cache ?f)"
    using assms(3) unfolding c(1)
    by (auto simp: cache_set_def set_value_def push_front_def evict_def remove_element_def
        move_to_front_def qtype_ops Let_def split: option.splits prod.splits)
  have get: "gm_get (contents (f_cache ?f)) key = Some e"
    unfolding c(1) cs(2) by (simp add: lru_set_def)
  have "ce_servfail e"
    using assms(4,5) by (elim entry_for_cases) (auto simp: rcode_defs)
  then have "\<not> 0 < remaining_ttl e t"
    using entry_live_iff [OF assms(4) _ assms(6), of t] assms(6,7) by (simp add: lifetime_def second_def)
  then have "remaining_ttl e t \<le> 0" by simp
  from resolve_stale [OF _ c(2) opt get this]
  show ?thesis
    using cs(1) c(1) entry_for_fields(4) [OF assms(4)] assms(5) by metis
qed

theorem servfail_served_stale_witness:
  "\<exists>res resp' f'. resolve_via_cache_or_upstream (\<lambda>p. (empty_result, Suc p)) (\<lambda>_. empty_result) (3600 * second) empty_msg
     (demo_key ''a'') [] empty_msg
     (store_in_cache 0 (demo_key ''a'') (empty_msg\<lparr>m_rcode := rcode_server_failure\<rparr>) False demo_flow) 0 =
     (res, resp', f', 0) \<and> re_cache_state res = ''stale'' \<and> m_rcode resp' = rcode_server_failure"
proof -
  obtain e where "entry_for demo_flow 0 False (empty_msg\<lparr>m_rcode := rcode_server_failure\<rparr>) = Some e"
    by (simp add: entry_for_def empty_msg_def rcode_defs demo_flow_def demo_config_def new_flow_def second_def)
  moreover have "f_optimistic demo_flow" "c_optimistic (f_cache demo_flow)"
    by (simp_all add: demo_flow_def demo_config_def new_flow_def)
  ultimately show ?thesis
    by (intro servfail_served_stale [OF demo_flow_ok(1)]) (simp_all add: demo_flow_ok(2), simp add: second_def)
qed

end
