(* ===== verification/Client_Registry.thy ===== *)
theory Client_Registry
  imports Net_Addr
begin

text \<open>
  clients/clients.go and clients/persist.go: the per-client profiles, the parsing of their IDs, the
  longest-prefix lookup, and the registry with its file. Each mutation writes the file before it
  publishes; whether the write succeeds is an argument. The file holds the exported fields, the
  networks are parsed again on load. A client is cloned on its way in and out, so it is a value.
\<close>

section \<open>Clients\<close>

record client =
  cl_name :: string
  cl_ids :: "string list"
  cl_tags :: "string list"
  cl_use_global :: bool
  cl_filtering :: bool
  cl_safe_search :: bool
  cl_engines :: "string list"
  cl_upstreams :: "string list"
  cl_exclude_log :: bool
  cl_exclude_stats :: bool
  cl_nets :: "ipnet list"

datatype client_error =
  NameRequired | NoIDs | EmptyID | InvalidID | DuplicateName | IDConflict | ClientNotFound | RegistrySaveFailed

definition compile_id :: "string \<Rightarrow> client_error + ipnet" where
  "compile_id raw0 =
     (let raw = trim_space raw0
      in if raw = [] then Inl EmptyID
         else case (if CHR ''/'' \<in> set raw then Some raw
                    else case parse_ip raw of None \<Rightarrow> None
                         | Some w \<Rightarrow> Some (raw @ (if to4 w \<noteq> None then ''/32'' else ''/128''))) of
                None \<Rightarrow> Inl InvalidID
              | Some cidr \<Rightarrow> (case parse_cidr cidr of None \<Rightarrow> Inl InvalidID | Some (_, n) \<Rightarrow> Inr n))"

fun compile_ids :: "string list \<Rightarrow> client_error + ipnet list" where
  "compile_ids [] = Inr []"
| "compile_ids (i # is) =
     (case compile_id i of
        Inl e \<Rightarrow> Inl e
      | Inr n \<Rightarrow> (case compile_ids is of Inl e \<Rightarrow> Inl e | Inr ns \<Rightarrow> Inr (n # ns)))"

text \<open>compile; the networks are sorted by falling prefix length (the sort is taken to be stable).\<close>

definition compile_client :: "client \<Rightarrow> client_error + client" where
  "compile_client c =
     (if trim_space (cl_name c) = [] then Inl NameRequired
      else if cl_ids c = [] then Inl NoIDs
      else case compile_ids (cl_ids c) of
             Inl e \<Rightarrow> Inl e
           | Inr ns \<Rightarrow> Inr (c\<lparr>cl_nets := sort_key (\<lambda>n. - int (net_bits n)) ns\<rparr>))"

section \<open>The registry\<close>

record registry =
  rg_has_path :: bool
  rg_clients :: "client list"
  rg_file :: "client list option"

subsection \<open>Lookup\<close>

definition find_step :: "ip \<Rightarrow> client \<Rightarrow> client option \<times> int \<Rightarrow> ipnet \<Rightarrow> client option \<times> int" where
  "find_step w c acc n =
     (if net_contains n w \<and> snd acc < int (net_bits n) then (Some c, int (net_bits n)) else acc)"

definition find_client :: "string \<Rightarrow> registry \<Rightarrow> client option" where
  "find_client ip r =
     (case parse_ip ip of None \<Rightarrow> None
      | Some w \<Rightarrow> fst (foldl (\<lambda>acc c. foldl (find_step w c) acc (cl_nets c)) (None, -1) (rg_clients r)))"

definition list_clients :: "registry \<Rightarrow> client list" where
  "list_clients r = sort_key cl_name (rg_clients r)"

subsection \<open>Mutations\<close>

text \<open>validateConflicts: two IDs conflict when prefix length and printed network are the same.\<close>

definition same_id :: "ipnet \<Rightarrow> ipnet \<Rightarrow> bool" where
  "same_id n m \<longleftrightarrow> net_bits n = net_bits m \<and> canon_net n = canon_net m"

definition conflicts :: "client \<Rightarrow> client \<Rightarrow> bool" where
  "conflicts c d \<longleftrightarrow> list_ex (\<lambda>n. list_ex (same_id n) (cl_nets d)) (cl_nets c)"

definition validate_conflicts :: "client list \<Rightarrow> client \<Rightarrow> bool" where
  "validate_conflicts existing c \<longleftrightarrow> \<not> list_ex (\<lambda>e. conflicts e c) existing"

definition strip_nets :: "client \<Rightarrow> client" where
  "strip_nets c = c\<lparr>cl_nets := []\<rparr>"

definition save_clients :: "bool \<Rightarrow> client list \<Rightarrow> registry \<Rightarrow> bool \<times> registry" where
  "save_clients ok cs r =
     (if \<not> rg_has_path r then (True, r)
      else if ok then (True, r\<lparr>rg_file := Some (List.map strip_nets cs)\<rparr>) else (False, r))"

definition publish_clients :: "bool \<Rightarrow> client list \<Rightarrow> registry \<Rightarrow> client_error option \<times> registry" where
  "publish_clients ok cs r =
     (case save_clients ok cs r of
        (False, r') \<Rightarrow> (Some RegistrySaveFailed, r') | (True, r') \<Rightarrow> (None, r'\<lparr>rg_clients := cs\<rparr>))"

fun propose :: "client list \<Rightarrow> client list \<Rightarrow> client_error + client list" where
  "propose proposed [] = Inr proposed"
| "propose proposed (c # cs) =
     (if cl_name c \<in> cl_name ` set proposed then Inl DuplicateName
      else case compile_client c of
             Inl e \<Rightarrow> Inl e
           | Inr d \<Rightarrow> if validate_conflicts proposed d then propose (proposed @ [d]) cs else Inl IDConflict)"

definition replace_clients :: "client list \<Rightarrow> bool \<Rightarrow> registry \<Rightarrow> client_error option \<times> registry" where
  "replace_clients items ok r =
     (case propose [] items of Inl e \<Rightarrow> (Some e, r) | Inr cs \<Rightarrow> publish_clients ok cs r)"

definition add_client :: "client \<Rightarrow> bool \<Rightarrow> registry \<Rightarrow> client_error option \<times> registry" where
  "add_client c ok r =
     (if cl_name c \<in> cl_name ` set (rg_clients r) then (Some DuplicateName, r)
      else case compile_client c of
             Inl e \<Rightarrow> (Some e, r)
           | Inr d \<Rightarrow> if validate_conflicts (rg_clients r) d then publish_clients ok (rg_clients r @ [d]) r
                      else (Some IDConflict, r))"

fun name_index :: "string \<Rightarrow> client list \<Rightarrow> nat option" where
  "name_index n [] = None"
| "name_index n (c # cs) = (if cl_name c = n then Some 0 else map_option Suc (name_index n cs))"

definition update_client :: "client \<Rightarrow> bool \<Rightarrow> registry \<Rightarrow> client_error option \<times> registry" where
  "update_client c ok r =
     (case compile_client c of
        Inl e \<Rightarrow> (Some e, r)
      | Inr d \<Rightarrow>
          (case name_index (cl_name c) (rg_clients r) of
             None \<Rightarrow> (Some ClientNotFound, r)
           | Some i \<Rightarrow>
               if validate_conflicts (take i (rg_clients r) @ drop (Suc i) (rg_clients r)) d
               then publish_clients ok ((rg_clients r)[i := d]) r else (Some IDConflict, r)))"

definition delete_client :: "string \<Rightarrow> bool \<Rightarrow> registry \<Rightarrow> bool \<times> registry" where
  "delete_client n ok r =
     (case name_index n (rg_clients r) of
        None \<Rightarrow> (False, r)
      | Some i \<Rightarrow>
          (case publish_clients ok (take i (rg_clients r) @ drop (Suc i) (rg_clients r)) r of
             (None, r') \<Rightarrow> (True, r') | (Some _, r') \<Rightarrow> (False, r')))"

subsection \<open>Loading\<close>

fun compile_all :: "client list \<Rightarrow> client_error + client list" where
  "compile_all [] = Inr []"
| "compile_all (c # cs) =
     (case compile_client c of
        Inl e \<Rightarrow> Inl e
      | Inr d \<Rightarrow> (case compile_all cs of Inl e \<Rightarrow> Inl e | Inr ds \<Rightarrow> Inr (d # ds)))"

text \<open>Load of a file that can be decoded; a missing one is an empty registry.\<close>

definition load_clients :: "bool \<Rightarrow> client list option \<Rightarrow> client_error + registry" where
  "load_clients has_path file =
     (case (if has_path then file else None) of
        None \<Rightarrow> Inr \<lparr>rg_has_path = has_path, rg_clients = [], rg_file = file\<rparr>
      | Some cs \<Rightarrow>
          (case compile_all cs of Inl e \<Rightarrow> Inl e
           | Inr ds \<Rightarrow> Inr \<lparr>rg_has_path = has_path, rg_clients = ds, rg_file = file\<rparr>))"

text \<open>reload keeps the current set when the load fails.\<close>

definition reload_clients :: "registry \<Rightarrow> registry" where
  "reload_clients r =
     (case load_clients (rg_has_path r) (rg_file r) of
        Inl _ \<Rightarrow> r | Inr fresh \<Rightarrow> r\<lparr>rg_clients := rg_clients fresh\<rparr>)"

section \<open>The lookup is the longest prefix\<close>

definition candidates :: "ip \<Rightarrow> client list \<Rightarrow> (client \<times> ipnet) list" where
  "candidates w cs = filter (\<lambda>(c, n). net_contains n w) (concat (List.map (\<lambda>c. List.map (Pair c) (cl_nets c)) cs))"

definition cand_key :: "client \<times> ipnet \<Rightarrow> int" where
  "cand_key p = - int (net_bits (snd p))"

definition cand_acc :: "(client \<times> ipnet) option \<Rightarrow> client option \<times> int" where
  "cand_acc b = (case b of None \<Rightarrow> (None, -1) | Some (c, n) \<Rightarrow> (Some c, int (net_bits n)))"

lemma find_step_scan:
  "foldl (find_step w c) (cand_acc acc) ns =
   cand_acc (scan_min cand_key acc (filter (\<lambda>(c, n). net_contains n w) (List.map (Pair c) ns)))"
proof (induction ns arbitrary: acc)
  case (Cons n ns)
  have "find_step w c (cand_acc acc) n =
      cand_acc (if net_contains n w then scan_step cand_key acc (c, n) else acc)"
    by (auto simp: find_step_def cand_acc_def scan_step_def cand_key_def split: option.splits)
  then show ?case by (simp add: Cons.IH)
qed simp

lemma find_scan:
  "foldl (\<lambda>acc c. foldl (find_step w c) acc (cl_nets c)) (cand_acc acc) cs =
   cand_acc (scan_min cand_key acc (candidates w cs))"
  by (induction cs arbitrary: acc) (simp_all add: candidates_def find_step_scan)

lemma find_client_scan:
  "parse_ip ip = Some w \<Longrightarrow>
   find_client ip r = map_option fst (scan_min cand_key None (candidates w (rg_clients r)))"
  using find_scan [of w None "rg_clients r"]
  by (simp add: find_client_def cand_acc_def split: option.splits)

lemma candidates_iff: "(c, n) \<in> set (candidates w cs) \<longleftrightarrow> c \<in> set cs \<and> n \<in> set (cl_nets c) \<and> net_contains n w"
  by (auto simp: candidates_def)

section \<open>Persistence and soundness\<close>

datatype reg_op = CReplace "client list" | CAdd client | CUpdate client | CDelete string

primrec reg_step :: "reg_op \<Rightarrow> bool \<Rightarrow> registry \<Rightarrow> registry" where
  "reg_step (CReplace cs) ok r = snd (replace_clients cs ok r)"
| "reg_step (CAdd c) ok r = snd (add_client c ok r)"
| "reg_step (CUpdate c) ok r = snd (update_client c ok r)"
| "reg_step (CDelete n) ok r = snd (delete_client n ok r)"

text \<open>What a successful mutation publishes; None when it is refused.\<close>

primrec reg_target :: "reg_op \<Rightarrow> client list \<Rightarrow> client list option" where
  "reg_target (CReplace items) cs = (case propose [] items of Inl _ \<Rightarrow> None | Inr ds \<Rightarrow> Some ds)"
| "reg_target (CAdd c) cs =
     (if cl_name c \<in> cl_name ` set cs then None
      else case compile_client c of Inl _ \<Rightarrow> None
           | Inr d \<Rightarrow> if validate_conflicts cs d then Some (cs @ [d]) else None)"
| "reg_target (CUpdate c) cs =
     (case compile_client c of Inl _ \<Rightarrow> None
      | Inr d \<Rightarrow> (case name_index (cl_name c) cs of None \<Rightarrow> None
                  | Some i \<Rightarrow> if validate_conflicts (take i cs @ drop (Suc i) cs) d then Some (cs[i := d]) else None))"
| "reg_target (CDelete n) cs =
     (case name_index n cs of None \<Rightarrow> None | Some i \<Rightarrow> Some (take i cs @ drop (Suc i) cs))"

lemma publish_cases:
  "snd (publish_clients ok cs r) =
     (if rg_has_path r then (if ok then r\<lparr>rg_file := Some (List.map strip_nets cs), rg_clients := cs\<rparr> else r)
      else r\<lparr>rg_clients := cs\<rparr>)"
  by (auto simp: publish_clients_def save_clients_def)

lemma delete_snd: "snd (delete_client n ok r) =
   (case name_index n (rg_clients r) of None \<Rightarrow> r
    | Some i \<Rightarrow> snd (publish_clients ok (take i (rg_clients r) @ drop (Suc i) (rg_clients r)) r))"
  by (auto simp: delete_client_def split: option.splits prod.splits)

lemma reg_step_eq:
  "reg_step x ok r = (case reg_target x (rg_clients r) of None \<Rightarrow> r | Some cs \<Rightarrow> snd (publish_clients ok cs r))"
  by (cases x) (auto simp: replace_clients_def add_client_def update_client_def delete_snd
      split: sum.splits option.splits)

lemma compile_idem: "compile_client c = Inr d \<Longrightarrow> compile_client (strip_nets d) = Inr d"
  by (auto simp: compile_client_def strip_nets_def split: if_splits sum.splits)

lemma compile_name: "compile_client c = Inr d \<Longrightarrow> cl_name d = cl_name c"
  by (auto simp: compile_client_def split: if_splits sum.splits)

definition compiled :: "client \<Rightarrow> bool" where
  "compiled c \<longleftrightarrow> compile_client (strip_nets c) = Inr c"

lemma compile_compiled: "compile_client c = Inr d \<Longrightarrow> compiled d"
  by (simp add: compiled_def compile_idem)

lemma compile_all_strip: "compile_all (List.map strip_nets cs) = Inr cs \<longleftrightarrow> list_all compiled cs"
  by (induction cs) (auto simp: compiled_def split: sum.splits)

lemma compile_all_compiled: "compile_all cs = Inr ds \<Longrightarrow> list_all compiled ds"
  by (induction cs arbitrary: ds) (auto dest: compile_compiled split: sum.splits)

text \<open>A sound registry: compiled clients with distinct names and no shared ID.\<close>

fun pairwise_free :: "client list \<Rightarrow> bool" where
  "pairwise_free [] \<longleftrightarrow> True"
| "pairwise_free (c # cs) \<longleftrightarrow>
     list_all (\<lambda>d. cl_name d \<noteq> cl_name c \<and> \<not> conflicts d c \<and> \<not> conflicts c d) cs \<and> pairwise_free cs"

definition sound_clients :: "client list \<Rightarrow> bool" where
  "sound_clients cs \<longleftrightarrow> list_all compiled cs \<and> pairwise_free cs"

lemma conflicts_sym: "conflicts c d \<longleftrightarrow> conflicts d c"
  unfolding conflicts_def list_ex_iff same_id_def by metis

lemma pairwise_free_append:
  "pairwise_free (cs @ ds) \<longleftrightarrow> pairwise_free cs \<and> pairwise_free ds \<and>
     (\<forall>c \<in> set cs. \<forall>d \<in> set ds. cl_name c \<noteq> cl_name d \<and> \<not> conflicts c d)"
  by (induction cs) (auto simp: list_all_iff conflicts_sym)

lemma validate_conflicts_iff: "validate_conflicts cs d \<longleftrightarrow> (\<forall>c \<in> set cs. \<not> conflicts c d)"
  by (auto simp: validate_conflicts_def list_ex_iff)

lemma name_index_less: "name_index n cs = Some i \<Longrightarrow> i < length cs \<and> cl_name (cs ! i) = n"
  by (induction cs arbitrary: i) (auto split: if_splits)

lemma sound_append: "sound_clients cs \<Longrightarrow> compiled d \<Longrightarrow> cl_name d \<notin> cl_name ` set cs \<Longrightarrow>
    validate_conflicts cs d \<Longrightarrow> sound_clients (cs @ [d])"
  by (auto simp: sound_clients_def pairwise_free_append validate_conflicts_iff image_def)

lemma propose_sound: "propose ps cs = Inr ds \<Longrightarrow> sound_clients ps \<Longrightarrow> sound_clients ds"
proof (induction ps cs rule: propose.induct)
  case (2 ps c cs)
  then show ?case
    by (auto split: if_splits sum.splits simp: sound_append compile_compiled compile_name)
qed simp

lemma sound_split:
  assumes "sound_clients cs" and "i < length cs"
  shows "sound_clients (take i cs @ drop (Suc i) cs)"
proof -
  have "sound_clients (take i cs @ cs ! i # drop (Suc i) cs)"
    using assms by (simp add: id_take_nth_drop [symmetric])
  then show ?thesis by (auto simp: sound_clients_def pairwise_free_append)
qed

lemma sound_update:
  assumes "sound_clients cs" and "i < length cs" and "compiled d" and "cl_name d = cl_name (cs ! i)"
    and "validate_conflicts (take i cs @ drop (Suc i) cs) d"
  shows "sound_clients (cs[i := d])"
proof -
  have old: "sound_clients (take i cs @ cs ! i # drop (Suc i) cs)"
    using assms by (simp add: id_take_nth_drop [symmetric])
  have "sound_clients (take i cs @ d # drop (Suc i) cs)"
    using old assms(3-5)
    by (auto simp: sound_clients_def pairwise_free_append validate_conflicts_iff list_all_iff conflicts_sym)
  then show ?thesis using assms(2) by (simp add: upd_conv_take_nth_drop)
qed

lemma reg_target_sound: "sound_clients cs \<Longrightarrow> reg_target x cs = Some ds \<Longrightarrow> sound_clients ds"
proof (cases x)
  case (CReplace items)
  assume "reg_target x cs = Some ds"
  then show ?thesis
    using CReplace propose_sound [of "[]" items ds] by (auto simp: sound_clients_def split: sum.splits)
next
  case (CAdd c)
  assume "sound_clients cs" "reg_target x cs = Some ds"
  then show ?thesis
    using CAdd by (auto split: if_splits sum.splits dest: compile_name intro!: sound_append compile_compiled)
next
  case (CUpdate c)
  assume cs: "sound_clients cs" and "reg_target x cs = Some ds"
  then obtain d i where d: "compile_client c = Inr d" and i: "name_index (cl_name c) cs = Some i"
    and v: "validate_conflicts (take i cs @ drop (Suc i) cs) d" and ds: "ds = cs[i := d]"
    using CUpdate by (auto split: if_splits sum.splits option.splits)
  have "cl_name d = cl_name (cs ! i)" "i < length cs"
    using compile_name [OF d] name_index_less [OF i] by simp_all
  then show ?thesis
    unfolding ds using cs v by (intro sound_update) (auto intro: compile_compiled [OF d])
next
  case (CDelete n)
  assume "sound_clients cs" "reg_target x cs = Some ds"
  then show ?thesis
    using CDelete by (auto split: option.splits dest: name_index_less intro!: sound_split)
qed

interpretation registry_sys: invariant_system "\<lambda>xo. reg_step (fst xo) (snd xo)" "\<lambda>r. sound_clients (rg_clients r)"
  by unfold_locales (auto simp: reg_step_eq publish_cases intro: reg_target_sound split: option.splits)

lemma reg_target_compiled: "list_all compiled cs \<Longrightarrow> reg_target x cs = Some ds \<Longrightarrow> list_all compiled ds"
proof (cases x)
  case (CReplace items)
  assume "reg_target x cs = Some ds"
  then show ?thesis
    using CReplace propose_sound [of "[]" items ds] by (auto simp: sound_clients_def split: sum.splits)
next
  case (CUpdate c)
  assume "list_all compiled cs" "reg_target x cs = Some ds"
  then show ?thesis
    using CUpdate by (auto simp: list_all_iff split: if_splits sum.splits option.splits
        dest: compile_compiled set_update_subset_insert [THEN subsetD])
next
  case (CDelete n)
  assume "list_all compiled cs" "reg_target x cs = Some ds"
  then show ?thesis
    using CDelete by (auto simp: list_all_iff dest!: in_set_takeD in_set_dropD split: option.splits)
qed (auto simp: list_all_iff split: if_splits sum.splits dest: compile_compiled)

definition reg_mem :: "registry \<Rightarrow> (client_error + client list) option" where
  "reg_mem r = (if rg_has_path r then Some (Inr (rg_clients r)) else None)"

text \<open>What a load would find in the file.\<close>

definition reg_disk :: "registry \<Rightarrow> (client_error + client list) option" where
  "reg_disk r = (if rg_has_path r then Some (compile_all (case rg_file r of None \<Rightarrow> [] | Some cs \<Rightarrow> cs)) else None)"

lemma reg_synced: "reg_disk r = reg_mem r \<Longrightarrow> rg_has_path r \<Longrightarrow> list_all compiled (rg_clients r)"
  by (auto simp: reg_disk_def reg_mem_def dest: compile_all_compiled)

interpretation registry_persistence: durable_store reg_mem reg_disk reg_step
proof
  fix r t :: registry and x
  show "reg_disk (reg_step x True r) = reg_mem (reg_step x True r)" if "reg_disk r = reg_mem r"
  proof (cases "rg_has_path r")
    case True
    with that show ?thesis
      using reg_target_compiled [OF reg_synced [OF that True], of x]
      by (auto simp: reg_step_eq publish_cases reg_disk_def reg_mem_def compile_all_strip split: option.split)
  qed (auto simp: reg_step_eq publish_cases reg_disk_def reg_mem_def split: option.split)
  show "reg_mem (reg_step x False r) = reg_mem r \<and> reg_disk (reg_step x False r) = reg_disk r" if "reg_disk r = reg_mem r"
    by (auto simp: reg_step_eq publish_cases reg_disk_def reg_mem_def split: option.split)
  show "reg_mem (reg_step x True r) = reg_mem (reg_step x True t)" if "reg_mem r = reg_mem t"
    using that by (auto simp: reg_step_eq publish_cases reg_mem_def split: option.split if_splits)
qed

lemma reg_step_path [simp]: "rg_has_path (reg_step x ok r) = rg_has_path r"
  by (auto simp: reg_step_eq publish_cases split: option.split)

lemma reg_run_path: "rg_has_path (fold (\<lambda>(x, ok). reg_step x ok) xs r) = rg_has_path r"
  by (induction xs arbitrary: r) (simp_all add: split_def)

section \<open>Two networks of one length around one address\<close>

definition wf_net :: "ipnet \<Rightarrow> bool" where
  "wf_net n \<longleftrightarrow> (case n of Net4 b k \<Rightarrow> k \<le> 32 \<and> mask_bits 32 k b = b
                | Net6 b k \<Rightarrow> k \<le> 128 \<and> mask_bits 128 k b = b)"

lemma mask_bits_idem: "mask_bits w k (mask_bits w k a) = mask_bits w k a"
  by (simp add: mask_bits_def drop_push_drop)

lemma parse_cidr_wf: "parse_cidr s = Some (w, n) \<Longrightarrow> wf_net n"
  by (auto simp: parse_cidr_def wf_net_def mask_bits_idem split: option.splits addr.splits if_splits prod.splits)

lemma compile_ids_wf: "compile_ids is = Inr ns \<Longrightarrow> n \<in> set ns \<Longrightarrow> wf_net n"
proof (induction "is" arbitrary: ns)
  case (Cons i "is")
  from Cons.prems obtain m ms where m: "compile_id i = Inr m" "compile_ids is = Inr ms" "ns = m # ms"
    by (auto split: sum.splits)
  have "wf_net m"
    using m(1) by (auto simp: compile_id_def Let_def intro: parse_cidr_wf split: if_splits option.splits)
  with Cons m show ?case by auto
qed simp

lemma compiled_wf: "compiled c \<Longrightarrow> n \<in> set (cl_nets c) \<Longrightarrow> wf_net n"
  by (auto simp: compiled_def compile_client_def dest: compile_ids_wf split: if_splits sum.splits)
    (metis client.select_convs(11) client.surjective client.update_convs(11) compile_ids_wf set_sort)

lemma same_base: "same_net w k a b \<Longrightarrow> same_net w k a b' \<Longrightarrow> mask_bits w k b = b \<Longrightarrow> mask_bits w k b' = b' \<Longrightarrow> b = b'"
  by (metis mask_bits_eq same_net_def)

lemma to4_Some_iff: "to4 w = Some a \<longleftrightarrow> w = v4_in_v6 a"
proof
  assume "to4 w = Some a"
  then have d: "drop_bit 32 w = mask 16" and a: "a = ucast w" by (auto simp: to4_def split: if_splits)
  show "w = v4_in_v6 a"
  proof (rule bit_word_eqI)
    fix i assume "i < LENGTH(128)"
    show "bit w i \<longleftrightarrow> bit (v4_in_v6 a) i"
    proof (cases "i < 32")
      case True
      then show ?thesis by (simp add: v4_in_v6_def a bit_simps)
    next
      case False
      have "bit w i \<longleftrightarrow> bit (drop_bit 32 w) (i - 32)" using False by (simp add: bit_simps)
      with d False show ?thesis
        using \<open>i < LENGTH(128)\<close> by (auto simp: v4_in_v6_def bit_simps a)
    qed
  qed
qed (simp add: to4_v4)

lemma mapped_base:
  assumes "mask_bits 128 k (v4_in_v6 b) = v4_in_v6 b" and "k \<le> 128"
  shows "96 \<le> k \<and> mask_bits 32 (k - 96) b = b"
proof
  have low: "128 - k \<le> i" if "bit (v4_in_v6 b) i" for i
  proof -
    from that assms(1) have "bit (mask_bits 128 k (v4_in_v6 b)) i" by simp
    then show ?thesis by (simp add: mask_bits_def bit_simps)
  qed
  have "bit (v4_in_v6 b) 32" by (simp add: v4_in_v6_def bit_simps)
  from low [OF this] show k: "96 \<le> k" by simp
  show "mask_bits 32 (k - 96) b = b"
  proof (rule bit_word_eqI)
    fix i assume i: "i < LENGTH(32)"
    have "32 - (k - 96) \<le> i" if "bit b i"
    proof -
      from that i have "bit (v4_in_v6 b) i" by (simp add: v4_in_v6_def bit_simps)
      from low [OF this] k assms(2) show ?thesis by simp
    qed
    moreover have "32 - (k - 96) = 128 - k" using k assms(2) by simp
    ultimately show "bit (mask_bits 32 (k - 96) b) i = bit b i"
      using i by (auto simp: mask_bits_def bit_simps)
  qed
qed

lemma mixed_nets:
  assumes "wf_net (Net4 b k)" and "wf_net (Net6 b' k)" and "net_contains (Net4 b k) w"
  shows "\<not> net_contains (Net6 b' k) w"
proof
  assume "net_contains (Net6 b' k) w"
  moreover from assms obtain a where "to4 w = Some a"
    by (auto simp: net_contains_def canon_net_def split: option.splits)
  ultimately obtain b4 where "to4 b' = Some b4" by (auto simp: net_contains_def canon_net_def split: option.splits)
  with assms mapped_base [of k b4] show False by (auto simp: wf_net_def to4_Some_iff)
qed

lemma one_net_per_length:
  assumes "wf_net n" and "wf_net m" and "net_bits n = net_bits m" and "net_contains n w" and "net_contains m w"
  shows "canon_net n = canon_net m"
proof -
  show ?thesis
  proof (cases n)
    case (Net4 b k)
    show ?thesis
    proof (cases m)
      case (Net4 b' k')
      with assms \<open>n = Net4 b k\<close> have "b = b'"
        by (auto simp: net_contains_def canon_net_def wf_net_def net_bits_def intro: same_base split: option.splits)
      with Net4 \<open>n = Net4 b k\<close> assms(3) show ?thesis by (simp add: net_bits_def)
    next
      case (Net6 b' k')
      with Net4 assms mixed_nets [of b k b' w] show ?thesis by (simp add: net_bits_def)
    qed
  next
    case (Net6 b k)
    show ?thesis
    proof (cases m)
      case (Net4 b' k')
      with Net6 assms mixed_nets [of b' k b w] show ?thesis by (simp add: net_bits_def)
    next
      case m: (Net6 b' k')
      have k: "k' = k" using assms(3) Net6 m by (simp add: net_bits_def)
      show ?thesis
      proof (cases "to4 w")
        case None
        with assms Net6 m k have "to4 b = None" "to4 b' = None" "same_net 128 k w b" "same_net 128 k w b'"
          by (auto simp: net_contains_def canon_net_def split: option.splits)
        with assms(1,2) Net6 m k same_base [of 128 k w b b'] show ?thesis by (simp add: wf_net_def)
      next
        case (Some a)
        with assms Net6 m k obtain c c' where c: "to4 b = Some c" "to4 b' = Some c'"
          "same_net 32 (k - 96) a c" "same_net 32 (k - 96) a c'"
          by (auto simp: net_contains_def canon_net_def split: option.splits)
        with assms(1,2) Net6 m k mapped_base [of k c] mapped_base [of k c'] have "c = c'"
          by (auto simp: wf_net_def to4_Some_iff intro: same_base)
        with c Net6 m k show ?thesis by (simp add: canon_net_def)
      qed
    qed
  qed
qed

lemma pairwise_free_nets:
  "pairwise_free cs \<Longrightarrow> c \<in> set cs \<Longrightarrow> d \<in> set cs \<Longrightarrow> n \<in> set (cl_nets c) \<Longrightarrow> m \<in> set (cl_nets d) \<Longrightarrow>
   same_id n m \<Longrightarrow> c = d"
proof (induction cs)
  case (Cons x xs)
  have "conflicts c d" using Cons.prems(4-6) by (auto simp: conflicts_def list_ex_iff)
  with Cons show ?case by (auto simp: list_all_iff conflicts_sym)
qed simp

text \<open>In a sound registry only one client has a matching ID of the greatest length.\<close>

lemma best_client_unique:
  assumes "sound_clients cs" and "(c, n) \<in> set (candidates w cs)" and "(d, m) \<in> set (candidates w cs)"
    and "net_bits n = net_bits m"
  shows "c = d"
proof -
  from assms have c: "c \<in> set cs" "n \<in> set (cl_nets c)" "net_contains n w"
    and d: "d \<in> set cs" "m \<in> set (cl_nets d)" "net_contains m w"
    by (simp_all add: candidates_iff)
  with assms(1) have "wf_net n" "wf_net m"
    by (auto simp: sound_clients_def list_all_iff dest: compiled_wf)
  then have "canon_net n = canon_net m" using c(3) d(3) assms(4) by (intro one_net_per_length)
  then have "same_id n m" using assms(4) by (simp add: same_id_def)
  moreover have "pairwise_free cs" using assms(1) by (simp add: sound_clients_def)
  ultimately show ?thesis using c(1,2) d(1,2) by (meson pairwise_free_nets)
qed

section \<open>Properties\<close>

definition empty_registry :: "bool \<Rightarrow> registry" where
  "empty_registry has_path = \<lparr>rg_has_path = has_path, rg_clients = [], rg_file = None\<rparr>"

text \<open>Whatever mutations ran before (from an empty registry, any file writes failing), Find returns a
  client exactly when some ID covers the address, and then the one whose ID is the longest covering
  prefix of all clients; no other client has a covering ID of that length, so the order of the
  registry does not matter.\<close>

theorem find_longest_prefix:
  assumes "r = fold (\<lambda>(x, ok). reg_step x ok) xs (empty_registry has_path)" and "parse_ip ip = Some w"
  shows "case find_client ip r of
           None \<Rightarrow> candidates w (rg_clients r) = []
         | Some c \<Rightarrow> \<exists>n. (c, n) \<in> set (candidates w (rg_clients r)) \<and>
             (\<forall>(d, m) \<in> set (candidates w (rg_clients r)). net_bits m < net_bits n \<or> d = c)"
proof -
  have "sound_clients (rg_clients r)"
    using registry_sys.run_keeps [of "empty_registry has_path" xs]
    unfolding assms(1) split_def by (simp add: empty_registry_def sound_clients_def)
  note sound = this
  note scan = find_client_scan [OF assms(2), of r]
  show ?thesis
  proof (cases "scan_min cand_key None (candidates w (rg_clients r))")
    case None
    with scan show ?thesis by (simp add: scan_min_None)
  next
    case (Some p)
    obtain c n where p: "p = (c, n)" by (cases p)
    have mem: "(c, n) \<in> set (candidates w (rg_clients r))"
      using scan_min_mem [OF Some] by (simp add: p)
    have "net_bits m < net_bits n \<or> d = c" if "(d, m) \<in> set (candidates w (rg_clients r))" for d m
      using scan_min_le [OF Some that] best_client_unique [OF sound mem that]
      by (cases "net_bits n = net_bits m") (auto simp: cand_key_def p)
    with mem Some scan show ?thesis by (auto simp: p)
  qed
qed

theorem find_longest_prefix_witness:
  "find_client ''10.0.0.5'' (fold (\<lambda>(x, ok). reg_step x ok)
     [(CAdd \<lparr>cl_name = ''lan'', cl_ids = [''10.0.0.0/8''], cl_tags = [], cl_use_global = True, cl_filtering = True,
         cl_safe_search = False, cl_engines = [], cl_upstreams = [], cl_exclude_log = False, cl_exclude_stats = False,
         cl_nets = []\<rparr>, True)] (empty_registry True)) \<noteq> None"
proof -
  have ip: "parse_ip ''10.0.0.5'' = Some (v4_in_v6 0x0a000005)" "parse_addr ''10.0.0.0'' = Some (A4 0x0a000000)"
    by (simp_all add: parse_ip_def parse_eval4)
  let ?c = "\<lparr>cl_name = ''lan'', cl_ids = [''10.0.0.0/8''], cl_tags = [], cl_use_global = True, cl_filtering = True,
         cl_safe_search = False, cl_engines = [], cl_upstreams = [], cl_exclude_log = False, cl_exclude_stats = False,
         cl_nets = []\<rparr>"
  have id: "compile_id ''10.0.0.0/8'' = Inr (Net4 (mask_bits 32 8 0x0a000000) 8)"
    by (simp add: compile_id_def parse_cidr_def ip dtoi_def all_digits_def is_digit_def dec_val_def digit_val_def
        trim_space_def trim_left_def trim_right_def is_space_def)
  have items: "rg_clients (fold (\<lambda>(x, ok). reg_step x ok) [(CAdd ?c, True)] (empty_registry True)) =
      [?c\<lparr>cl_nets := [Net4 (mask_bits 32 8 0x0a000000) 8]\<rparr>]"
    by (simp add: add_client_def publish_cases compile_client_def id empty_registry_def validate_conflicts_def
        trim_space_def trim_left_def trim_right_def is_space_def)
  have "same_net 32 8 0x0a000005 (mask_bits 32 8 0x0a000000 :: u32)"
    unfolding same_net_def mask_bits_def by code_simp
  then have "candidates (v4_in_v6 0x0a000005) (rg_clients (fold (\<lambda>(x, ok). reg_step x ok) [(CAdd ?c, True)] (empty_registry True))) \<noteq> []"
    unfolding items by (simp add: candidates_def net_contains_def canon_net_def to4_v4)
  with find_longest_prefix [OF refl ip(1), of "[(CAdd ?c, True)]" True] show ?thesis
    by (auto split: option.splits)
qed

text \<open>After any sequence of registry mutations, with any file writes failing, the periodic reload
  finds exactly the clients in memory, and they are those the successful mutations alone produce.\<close>

theorem registry_reload_stable:
  assumes "r = fold (\<lambda>(x, ok). reg_step x ok) xs (empty_registry True)"
  shows "reload_clients r = r \<and>
         rg_clients r = rg_clients (fold (\<lambda>(x, ok). reg_step x ok) (filter snd xs) (empty_registry True))"
proof -
  let ?e = "empty_registry True"
  have 0: "reg_disk ?e = reg_mem ?e" by (simp add: reg_disk_def reg_mem_def empty_registry_def)
  have path: "rg_has_path (fold (\<lambda>(x, ok). reg_step x ok) ys ?e)" for ys
    by (simp add: reg_run_path) (simp add: empty_registry_def)
  have "reg_disk r = reg_mem r" unfolding assms by (rule registry_persistence.run_durable [OF 0])
  then have "reload_clients r = r"
    using path [of xs] by (auto simp: assms reg_disk_def reg_mem_def reload_clients_def load_clients_def split: option.splits)
  moreover have "reg_mem r = reg_mem (fold (\<lambda>(x, ok). reg_step x ok) (filter snd xs) ?e)"
    unfolding assms by (rule registry_persistence.failures_invisible [OF 0])
  ultimately show ?thesis using path by (simp add: reg_mem_def assms)
qed

theorem registry_reload_stable_witness:
  "reload_clients (fold (\<lambda>(x, ok). reg_step x ok) [(CDelete ''x'', True), (CReplace [], False)] (empty_registry True)) =
   fold (\<lambda>(x, ok). reg_step x ok) [(CDelete ''x'', True), (CReplace [], False)] (empty_registry True)"
  by (rule registry_reload_stable [OF refl, THEN conjunct1])

text \<open>A client ID written as an IPv4-mapped IPv6 address is accepted but stands for the network
  ::/32: the client is not found at its own address, and is found at unrelated IPv6 addresses.\<close>

theorem mapped_id_misses:
  "\<exists>c. compile_client \<lparr>cl_name = ''phone'', cl_ids = [''::ffff:10.0.0.5''], cl_tags = [], cl_use_global = True,
     cl_filtering = True, cl_safe_search = False, cl_engines = [], cl_upstreams = [], cl_exclude_log = False,
     cl_exclude_stats = False, cl_nets = []\<rparr> = Inr c \<and>
   find_client ''10.0.0.5'' \<lparr>rg_has_path = False, rg_clients = [c], rg_file = None\<rparr> = None \<and>
   find_client ''::1'' \<lparr>rg_has_path = False, rg_clients = [c], rg_file = None\<rparr> = Some c"
proof -
  have p6: "parse_v6 ''::ffff:10.0.0.5'' = Some (v4_in_v6 0x0a000005)"
    unfolding parse_v6_def eight_Suc by (simp add: parse_eval6 parse_eval4 v4_in_v6_def) code_simp
  have ip4: "parse_ip ''10.0.0.5'' = Some (v4_in_v6 0x0a000005)" by (simp add: parse_ip_def parse_eval4)
  have a6: "parse_addr ''::ffff:10.0.0.5'' = Some (A6 (v4_in_v6 0x0a000005) [])" by (simp add: parse_addr_def p6)
  have ip6: "parse_ip ''::1'' = Some 1" by (simp add: parse_ip_def parse_addr_def parse_v6_1)
  have "mask_bits 128 32 (v4_in_v6 0x0a000005) = 0" unfolding mask_bits_def v4_in_v6_def by code_simp
  moreover have "to4 1 = None" "to4 0 = None" unfolding to4_def by code_simp+
  moreover have "same_net 128 32 1 (0 :: ip)" unfolding same_net_def by code_simp
  moreover have "compile_id ''::ffff:10.0.0.5'' = Inr (Net6 (mask_bits 128 32 (v4_in_v6 0x0a000005)) 32)"
    by (simp add: compile_id_def parse_cidr_def parse_ip_def a6 to4_v4 dtoi_def all_digits_def is_digit_def dec_val_def
        digit_val_def trim_space_def trim_left_def trim_right_def is_space_def)
  ultimately show ?thesis
    by (simp add: compile_client_def find_client_def ip4 ip6 find_step_def net_contains_def canon_net_def to4_v4 net_bits_def
        trim_space_def trim_left_def trim_right_def is_space_def)
qed

end
