(* ===== verification/Filter_Rule.thy ===== *)
theory Filter_Rule
  imports Net_Addr
begin

text \<open>
  filter/rule.go and the source parser of filter/sources.go: one line of a filter list to a rule,
  the diagnostics shown for edited rules, and a whole list to its block and allow rules. Regular
  expressions are RE2 programs of the standard library: compiling and matching are the fields of
  \<open>regex_lib\<close>, a parameter. A slice expression out of range panics in Go; \<open>go_slice\<close> is None there.
\<close>

section \<open>Rules\<close>

record regex_lib =
  rx_insts :: "string \<Rightarrow> nat option"  \<comment> \<open>program size, None when the pattern does not parse\<close>
  rx_compiles :: "string \<Rightarrow> bool"
  rx_match :: "string \<Rightarrow> string \<Rightarrow> bool"

datatype rule_kind = KindDomain | KindRegex

record rule =
  ru_raw :: string
  ru_kind :: rule_kind
  ru_domain :: string
  ru_re :: string
  ru_insts :: nat

definition max_regex_program_insts :: nat where "max_regex_program_insts = 2000"
definition max_regex_insts_per_source :: nat where "max_regex_insts_per_source = 500000"
definition max_rules_per_source :: nat where "max_rules_per_source = 2000000"
definition max_rule_diagnostics :: nat where "max_rule_diagnostics = 100"

definition match_domain_suffix :: "string \<Rightarrow> string \<Rightarrow> bool" where
  "match_domain_suffix p d \<longleftrightarrow> d = p \<or> has_suffix d (CHR ''.'' # p)"

definition rule_matches :: "regex_lib \<Rightarrow> rule \<Rightarrow> string \<Rightarrow> bool" where
  "rule_matches X r d =
     (if ru_kind r = KindRegex then rx_match X (ru_re r) d else match_domain_suffix (ru_domain r) d)"

definition normalize_domain :: "string \<Rightarrow> string" where
  "normalize_domain d = trim_suffix (trim_prefix (to_lower (trim_space d)) ''.'') ''.''"

definition domain_char :: "char \<Rightarrow> bool" where
  "domain_char c \<longleftrightarrow> (97 \<le> (of_char c :: nat) \<and> (of_char c :: nat) \<le> 122) \<or> is_digit c \<or>
     c = CHR ''-'' \<or> c = CHR ''_'' \<or> c = CHR ''.''"

definition valid_domain :: "string \<Rightarrow> bool" where
  "valid_domain d \<longleftrightarrow> 3 \<le> length d \<and> CHR ''.'' \<in> set d \<and> list_all domain_char d"

definition compile_bounded_regex :: "regex_lib \<Rightarrow> string \<Rightarrow> nat option" where
  "compile_bounded_regex X p =
     (case rx_insts X p of None \<Rightarrow> None
      | Some n \<Rightarrow> if max_regex_program_insts < n then None
                  else if rx_compiles X p then Some n else None)"

definition go_slice :: "string \<Rightarrow> int \<Rightarrow> int \<Rightarrow> string option" where
  "go_slice s i j = (if 0 \<le> i \<and> i \<le> j \<and> j \<le> int (length s)
                     then Some (take (nat (j - i)) (drop (nat i) s)) else None)"

text \<open>Everything before the first dollar sign.\<close>

definition strip_options :: "string \<Rightarrow> string" where
  "strip_options s = (case cut (CHR ''$'') s of None \<Rightarrow> s | Some (a, _) \<Rightarrow> a)"

definition is_comment :: "string \<Rightarrow> bool" where
  "is_comment raw \<longleftrightarrow> raw = [] \<or> has_prefix raw ''#'' \<or> has_prefix raw ''!'' \<or>
     (has_prefix raw ''['' \<and> has_suffix raw '']'')"

definition is_cosmetic :: "string \<Rightarrow> bool" where
  "is_cosmetic raw \<longleftrightarrow> contains_str raw ''##'' \<or> contains_str raw ''#?#'' \<or> contains_str raw ''#@#''"

definition regex_form :: "string \<Rightarrow> bool" where
  "regex_form body \<longleftrightarrow> 2 \<le> length body \<and> has_prefix body ''/'' \<and> has_suffix body ''/''"

definition domain_rule :: "string \<Rightarrow> string \<Rightarrow> rule option" where
  "domain_rule raw d = (if valid_domain d
     then Some \<lparr>ru_raw = raw, ru_kind = KindDomain, ru_domain = d, ru_re = [], ru_insts = 0\<rparr> else None)"

text \<open>The host-file and adblock part of parseLine, after the option list is stripped.\<close>

definition strip_anchors :: "string \<Rightarrow> string" where
  "strip_anchors b =
     trim_suffix (trim_suffix (trim_prefix (trim_prefix b ''||'') ''|'') ''^'') ''|''"

definition parse_body :: "string \<Rightarrow> string \<Rightarrow> rule option" where
  "parse_body raw body =
     (let fs = go_fields body
      in if 2 \<le> length fs \<and> parse_ip (fs ! 0) \<noteq> None
         then domain_rule raw (normalize_domain (fs ! 1))
         else let b = strip_anchors body
              in if CHR ''*'' \<in> set b then None else domain_rule raw (normalize_domain b))"

definition parse_line :: "regex_lib \<Rightarrow> string \<Rightarrow> (rule \<times> bool) option" where
  "parse_line X line =
     (let raw = trim_space line
      in if is_comment raw \<or> is_cosmetic raw then None
         else
           let exc = has_prefix raw ''@@''; body = (if exc then drop 2 raw else raw)
           in if regex_form body then
                (let pattern = take (length body - 2) (drop 1 body)
                 in if pattern = [] then None
                    else (case compile_bounded_regex X pattern of None \<Rightarrow> None
                          | Some n \<Rightarrow> Some (\<lparr>ru_raw = raw, ru_kind = KindRegex, ru_domain = [],
                                            ru_re = pattern, ru_insts = n\<rparr>, exc)))
              else map_option (\<lambda>r. (r, exc)) (parse_body raw (strip_options body)))"

section \<open>Diagnostics\<close>

text \<open>bufio.Scanner with a one-megabyte buffer: the lines read, and whether one was too long.\<close>

definition max_line :: nat where "max_line = 1048576"

definition strip_cr :: "string \<Rightarrow> string" where
  "strip_cr l = trim_suffix l [CHR 0x0D]"

definition raw_lines :: "string \<Rightarrow> string list" where
  "raw_lines t = (let ls = split_on (CHR 0x0A) t in if last ls = [] then butlast ls else ls)"

definition scan_lines :: "string \<Rightarrow> string list \<times> bool" where
  "scan_lines t =
     (let ls = raw_lines t; ok = takeWhile (\<lambda>l. length l < max_line) ls
      in (List.map strip_cr ok, length ok < length ls))"

datatype diag_kind = Cosmetic | EmptyRegex | BadRegex | Wildcard | Unsupported | ReadError

record diagnostic =
  dg_line :: nat
  dg_kind :: diag_kind

text \<open>One line of ValidateRuleText: skipped, accepted, diagnosed, or a panic (None).\<close>

datatype line_verdict = Skipped | Accepted | Diagnosed diag_kind

definition validate_line :: "regex_lib \<Rightarrow> string \<Rightarrow> line_verdict option" where
  "validate_line X line =
     (let raw = trim_space line
      in if is_comment raw then Some Skipped
         else if is_cosmetic raw then Some (Diagnosed Cosmetic)
         else
           let body = trim_prefix raw ''@@''
           in if has_prefix body ''/'' \<and> has_suffix body ''/'' then
                (case go_slice body 1 (int (length body) - 1) of
                   None \<Rightarrow> None
                 | Some p \<Rightarrow> Some (if p = [] then Diagnosed EmptyRegex
                                  else if \<not> rx_compiles X p then Diagnosed BadRegex else Accepted))
              else if CHR ''*'' \<in> set (strip_options body) then Some (Diagnosed Wildcard)
              else if parse_line X raw = None then Some (Diagnosed Unsupported)
              else Some Accepted)"

fun validate_lines ::
  "regex_lib \<Rightarrow> nat \<Rightarrow> string list \<Rightarrow> nat \<Rightarrow> diagnostic list \<Rightarrow> (nat \<times> nat \<times> diagnostic list) option" where
  "validate_lines X n [] acc ds = Some (n, acc, ds)"
| "validate_lines X n (l # ls) acc ds =
     (case validate_line X l of
        None \<Rightarrow> None
      | Some Skipped \<Rightarrow> validate_lines X (Suc n) ls acc ds
      | Some Accepted \<Rightarrow> validate_lines X (Suc n) ls (Suc acc) ds
      | Some (Diagnosed k) \<Rightarrow>
          validate_lines X (Suc n) ls acc
            (if length ds < max_rule_diagnostics then ds @ [\<lparr>dg_line = Suc n, dg_kind = k\<rparr>] else ds))"

definition validate_rule_text :: "regex_lib \<Rightarrow> string \<Rightarrow> (nat \<times> diagnostic list) option" where
  "validate_rule_text X t =
     (case scan_lines t of (ls, too_long) \<Rightarrow>
        (case validate_lines X 0 ls 0 [] of
           None \<Rightarrow> None
         | Some (n, acc, ds) \<Rightarrow>
             Some (acc, if too_long \<and> length ds < max_rule_diagnostics
                        then ds @ [\<lparr>dg_line = Suc n, dg_kind = ReadError\<rparr>] else ds)))"

section \<open>A whole source\<close>

datatype parse_end = Complete | Truncated | BudgetExceeded | ReadFailed

record parsed =
  pd_block :: "rule list"
  pd_allow :: "rule list"
  pd_ignored :: nat
  pd_end :: parse_end

fun parse_capped :: "regex_lib \<Rightarrow> bool \<Rightarrow> nat \<Rightarrow> nat \<Rightarrow> string list \<Rightarrow> parsed \<Rightarrow> parsed" where
  "parse_capped X ao count insts [] p = p"
| "parse_capped X ao count insts (l # ls) p =
     (case parse_line X l of
        None \<Rightarrow> parse_capped X ao count insts ls (p\<lparr>pd_ignored := Suc (pd_ignored p)\<rparr>)
      | Some (r, exc) \<Rightarrow>
          if max_rules_per_source < Suc count then p\<lparr>pd_end := Truncated\<rparr>
          else if max_regex_insts_per_source < insts + ru_insts r then p\<lparr>pd_end := BudgetExceeded\<rparr>
          else parse_capped X ao (Suc count) (insts + ru_insts r) ls
                 (if exc \<or> ao then p\<lparr>pd_allow := pd_allow p @ [r]\<rparr>
                  else p\<lparr>pd_block := pd_block p @ [r]\<rparr>))"

definition parse_rules_capped :: "regex_lib \<Rightarrow> bool \<Rightarrow> string \<Rightarrow> parsed" where
  "parse_rules_capped X ao t =
     (case scan_lines t of (ls, too_long) \<Rightarrow>
        let p = parse_capped X ao 0 0 ls \<lparr>pd_block = [], pd_allow = [], pd_ignored = 0, pd_end = Complete\<rparr>
        in if pd_end p = Complete \<and> too_long then p\<lparr>pd_end := ReadFailed\<rparr> else p)"

section \<open>Facts\<close>

lemma match_domain_suffix_covers: "match_domain_suffix p d \<longleftrightarrow> covers p d"
  by (simp add: match_domain_suffix_def covers_def)

lemma parse_body_domain: "parse_body raw body = Some r \<Longrightarrow>
   ru_kind r = KindDomain \<and> valid_domain (ru_domain r) \<and> ru_raw r = raw \<and> ru_insts r = 0"
  by (auto simp: parse_body_def domain_rule_def Let_def split: list.splits if_splits)

text \<open>Every rule that is parsed keeps its line; a domain rule has a plausible domain and a regex
  rule a program within the bound.\<close>

lemma parse_line_rule:
  assumes "parse_line X line = Some (r, exc)"
  shows "ru_raw r = trim_space line" and "ru_kind r = KindDomain \<Longrightarrow> valid_domain (ru_domain r)"
    and "ru_insts r \<le> max_regex_program_insts"
    and "ru_kind r = KindRegex \<Longrightarrow> compile_bounded_regex X (ru_re r) = Some (ru_insts r)"
  using assms
  by (auto simp: parse_line_def Let_def compile_bounded_regex_def split: if_splits option.splits
      dest: parse_body_domain)

lemma parse_line_raw: "parse_line X line = Some (r, exc) \<Longrightarrow> parse_line X (ru_raw r) = Some (r, exc)"
  using parse_line_rule(1) by (fastforce simp: parse_line_def)


section \<open>Where the diagnostics agree with the parser\<close>

lemma slash_only:
  assumes "has_prefix b ''/''" "has_suffix b ''/''"
  shows "go_slice b 1 (int (length b) - 1) = None \<longleftrightarrow> b = ''/''"
    and "b \<noteq> ''/'' \<Longrightarrow> go_slice b 1 (int (length b) - 1) = Some (take (length b - 2) (drop 1 b)) \<and> regex_form b"
proof -
  obtain t where b: "b = CHR ''/'' # t" using assms(1) by (auto simp: has_prefix_iff)
  show "go_slice b 1 (int (length b) - 1) = None \<longleftrightarrow> b = ''/''"
    by (cases t) (auto simp: go_slice_def b)
  show "b \<noteq> ''/'' \<Longrightarrow> go_slice b 1 (int (length b) - 1) = Some (take (length b - 2) (drop 1 b)) \<and> regex_form b"
    using assms by (cases t) (auto simp: go_slice_def b regex_form_def)
qed

lemma validate_line_panic:
  "validate_line X l = None \<longleftrightarrow> trim_prefix (trim_space l) ''@@'' = ''/''"
proof -
  define raw body where "raw = trim_space l" and "body = trim_prefix raw ''@@''"
  have slash: "\<not> is_comment raw \<and> \<not> is_cosmetic raw \<and> has_prefix body ''/'' \<and> has_suffix body ''/''"
    if "body = ''/''"
  proof -
    have "raw = ''/'' \<or> raw = ''@@/''"
      using that by (cases "has_prefix raw ''@@''") (auto simp: body_def trim_prefix_def has_prefix_iff)
    with that show ?thesis
      by (auto simp: is_comment_def is_cosmetic_def has_prefix_def has_suffix_def)
  qed
  show ?thesis
    using slash slash_only(1) [of body]
    by (auto simp: validate_line_def raw_def [symmetric] body_def [symmetric] Let_def split: option.splits)
qed

lemma validate_lines_panic:
  "validate_lines X n ls acc ds = None \<longleftrightarrow> (\<exists>l \<in> set ls. validate_line X l = None)"
  by (induction X n ls acc ds rule: validate_lines.induct)
     (auto split: option.splits line_verdict.splits)

lemma trim_prefix_drop: "trim_prefix raw ''@@'' = (if has_prefix raw ''@@'' then drop 2 raw else raw)"
  by (simp add: trim_prefix_def numeral_eq_Suc)

lemma accepted_line:
  assumes acc: "validate_line X l = Some Accepted"
    and small: "\<And>p. rx_compiles X p \<Longrightarrow> \<exists>n. rx_insts X p = Some n \<and> n \<le> max_regex_program_insts"
  shows "parse_line X l \<noteq> None"
proof -
  define raw body where "raw = trim_space l" and "body = trim_prefix raw ''@@''"
  have c: "\<not> is_comment raw" "\<not> is_cosmetic raw"
    using acc by (auto simp: validate_line_def raw_def Let_def split: if_splits)
  show ?thesis
  proof (cases "has_prefix body ''/'' \<and> has_suffix body ''/''")
    case True
    then have b: "body \<noteq> ''/''"
      using acc validate_line_panic [of X l] by (auto simp: raw_def body_def)
    note s = slash_only(2) [OF conjunct1 [OF True] conjunct2 [OF True] b]
    have "rx_compiles X (take (length body - 2) (drop 1 body))" "take (length body - 2) (drop 1 body) \<noteq> []"
      using acc c True s
      by (auto simp: validate_line_def raw_def [symmetric] body_def [symmetric] Let_def split: if_splits)
    moreover from small [OF this(1)] obtain n where
      "rx_insts X (take (length body - 2) (drop 1 body)) = Some n" "n \<le> max_regex_program_insts" by blast
    ultimately show ?thesis
      using s c
      by (simp add: parse_line_def raw_def [symmetric] Let_def body_def trim_prefix_drop compile_bounded_regex_def)
  next
    case False
    then have "parse_line X raw \<noteq> None"
      using acc c
      by (auto simp: validate_line_def raw_def [symmetric] body_def [symmetric] Let_def split: if_splits)
    then show ?thesis by (simp add: parse_line_def raw_def)
  qed
qed

section \<open>A complete source is the list of its parsed lines\<close>

definition parsed_lines :: "regex_lib \<Rightarrow> string list \<Rightarrow> (rule \<times> bool) list" where
  "parsed_lines X ls = List.map_filter (parse_line X) ls"

lemma parsed_lines_simps [simp]:
  "parsed_lines X [] = []"
  "parsed_lines X (l # ls) = (case parse_line X l of None \<Rightarrow> parsed_lines X ls | Some p \<Rightarrow> p # parsed_lines X ls)"
  by (simp_all add: parsed_lines_def List.map_filter_simps split: option.splits)

lemma parse_capped_complete:
  "pd_end (parse_capped X ao count insts ls p) = Complete \<Longrightarrow> pd_end p = Complete \<Longrightarrow>
   pd_block (parse_capped X ao count insts ls p) =
     pd_block p @ List.map fst (filter (\<lambda>(r, e). \<not> (e \<or> ao)) (parsed_lines X ls)) \<and>
   pd_allow (parse_capped X ao count insts ls p) =
     pd_allow p @ List.map fst (filter (\<lambda>(r, e). e \<or> ao) (parsed_lines X ls)) \<and>
   pd_ignored (parse_capped X ao count insts ls p) + length (parsed_lines X ls) = pd_ignored p + length ls"
proof (induction X ao count insts ls p rule: parse_capped.induct)
  case (2 X ao count insts l ls p)
  show ?case
  proof (cases "parse_line X l")
    case None
    with 2 show ?thesis by simp
  next
    case (Some re)
    obtain r e where re: "re = (r, e)" by (cases re)
    have "\<not> max_rules_per_source < Suc count" "\<not> max_regex_insts_per_source < insts + ru_insts r"
      using 2(3) Some re by (auto split: if_splits)
    then show ?thesis
      using 2(2) [OF Some re [symmetric]] 2(3,4) Some re by (auto split: if_splits)
  qed
qed simp

lemma parse_capped_bounds:
  assumes "length (pd_block p) + length (pd_allow p) = count" "count \<le> max_rules_per_source"
    "sum_list (List.map ru_insts (pd_block p @ pd_allow p)) = insts" "insts \<le> max_regex_insts_per_source"
    "ao \<Longrightarrow> pd_block p = []"
  shows "length (pd_block (parse_capped X ao count insts ls p)) + length (pd_allow (parse_capped X ao count insts ls p)) \<le> max_rules_per_source \<and>
    sum_list (List.map ru_insts (pd_block (parse_capped X ao count insts ls p) @ pd_allow (parse_capped X ao count insts ls p))) \<le> max_regex_insts_per_source \<and>
    (ao \<longrightarrow> pd_block (parse_capped X ao count insts ls p) = [])"
  using assms
proof (induction X ao count insts ls p rule: parse_capped.induct)
  case (2 X ao count insts l ls p)
  show ?case
  proof (cases "parse_line X l")
    case None
    with 2 show ?thesis by simp
  next
    case (Some re)
    obtain r e where re: "re = (r, e)" by (cases re)
    show ?thesis
    proof (cases "max_rules_per_source < Suc count \<or> max_regex_insts_per_source < insts + ru_insts r")
      case True
      with 2(3-) Some re show ?thesis by auto
    next
      case False
      then show ?thesis
        using 2(2) [OF Some re [symmetric]] 2(3-) Some re by (auto simp: add.commute add.left_commute)
    qed
  qed
qed simp

end
