(* ===== verification/Filter_Engine.thy ===== *)
theory Filter_Engine
  imports Filter_Rule
begin

text \<open>
  filter/filter.go and filter/history.go: the engine that holds the rules of every source, the
  indexes it matches with, the batches that postpone index builds, rollback and the bounded
  history. A *Source is a number; \<open>e_objs\<close> holds the objects. The end of a batch builds its
  indexes without the lock, so it is two steps: \<open>end_batch\<close> leaves a pending build and \<open>apply_build\<close>
  publishes it if no rule changed meanwhile. Checksums (SHA-256) and the files of the history are
  parameters; the change callback is a counter of its invocations.
\<close>

section \<open>Sources and rules\<close>

type_synonym src = nat

record snapshot =
  sn_block :: "rule list"
  sn_allow :: "rule list"
  sn_checksum :: string

record source =
  so_id :: string
  so_title :: string
  so_name :: string
  so_is_url :: bool
  so_enabled :: bool
  so_allow_only :: bool
  so_rule_count :: nat
  so_allow_count :: nat
  so_last_update :: int
  so_last_checked :: int
  so_last_changed :: int
  so_last_error :: string
  so_ignored :: nat
  so_truncated :: bool
  so_delta :: int
  so_bytes :: int
  so_final_url :: string
  so_final_host :: string
  so_redirects :: int
  so_checksum :: string
  so_rollback :: nat
  so_valid_url :: bool
  so_allow_private :: bool
  so_timeout :: int
  so_redirect_limit :: int
  so_refresh_generation :: string
  so_refresh_minute :: int
  so_history :: "snapshot list"

record indexed =
  ix_rule :: rule
  ix_source :: src
  ix_order :: nat

type_synonym side = "(string, indexed) gomap \<times> indexed list"

record indexes =
  in_block :: side
  in_allow :: side

record pending_build =
  pb_indexes :: indexes
  pb_generation :: nat
  pb_notify :: bool

record engine =
  e_sources :: "src list"
  e_objs :: "(src, source) gomap"
  e_next :: src
  e_block :: "(src, rule list) gomap"
  e_allow :: "(src, rule list) gomap"
  e_idx :: indexes
  e_depth :: nat
  e_dirty :: bool
  e_changes :: bool
  e_generation :: nat
  e_pending :: "pending_build list"
  e_paused :: int
  e_blocked_total :: nat
  e_allowed_total :: nat
  e_notified :: nat
  e_update_all :: bool
  e_update_ids :: "string list"

section \<open>Indexes\<close>

definition rules_of :: "(src, rule list) gomap \<Rightarrow> src \<Rightarrow> rule list" where
  "rules_of m s = (case gm_get m s of None \<Rightarrow> [] | Some rs \<Rightarrow> rs)"

text \<open>One rule of buildRuleIndexes: a regex joins the list, the first rule of a domain the map.\<close>

definition index_step :: "src \<Rightarrow> side \<times> nat \<Rightarrow> rule \<Rightarrow> side \<times> nat" where
  "index_step s acc r =
     (case acc of ((doms, regex), n) \<Rightarrow>
        let m = \<lparr>ix_rule = r, ix_source = s, ix_order = n\<rparr>
        in if ru_kind r = KindRegex then ((doms, regex @ [m]), Suc n)
           else if gm_get doms (ru_domain r) = None then ((gm_set (ru_domain r) m doms, regex), Suc n)
           else ((doms, regex), Suc n))"

definition build_side :: "src list \<Rightarrow> (src, rule list) gomap \<Rightarrow> side" where
  "build_side sources m =
     fst (foldl (\<lambda>acc s. foldl (index_step s) acc (rules_of m s)) (([], []), 0) sources)"

definition build_rule_indexes ::
  "src list \<Rightarrow> (src, rule list) gomap \<Rightarrow> (src, rule list) gomap \<Rightarrow> indexes" where
  "build_rule_indexes sources blk alw = \<lparr>in_block = build_side sources blk, in_allow = build_side sources alw\<rparr>"

definition rebuild :: "engine \<Rightarrow> engine" where
  "rebuild e = e\<lparr>e_idx := build_rule_indexes (e_sources e) (e_block e) (e_allow e)\<rparr>"

text \<open>
  firstIndexedMatch: walk from the name to its parents through the domain index, then scan the
  regex rules, keeping the match with the smallest order.
\<close>

definition first_indexed_match :: "regex_lib \<Rightarrow> string \<Rightarrow> side \<Rightarrow> indexed option" where
  "first_indexed_match X d sd =
     (let cands = takeWhile (\<lambda>c. c \<noteq> []) (parents d);
          acc = scan_min ix_order None (List.map_filter (gm_get (fst sd)) cands)
      in scan_min ix_order acc (filter (\<lambda>m. rule_matches X (ix_rule m) d) (snd sd)))"

section \<open>Matching\<close>

record result =
  rs_allowed :: bool
  rs_blocked :: bool
  rs_rule :: string
  rs_source :: string
  rs_reason :: string

definition no_result :: result where
  "no_result = \<lparr>rs_allowed = False, rs_blocked = False, rs_rule = [], rs_source = [], rs_reason = []\<rparr>"

definition source_name :: "engine \<Rightarrow> src \<Rightarrow> string" where
  "source_name e s = (case gm_get (e_objs e) s of None \<Rightarrow> [] | Some o' \<Rightarrow> so_name o')"

definition block_reason :: "rule \<Rightarrow> string" where
  "block_reason r = (if ru_kind r = KindRegex then ''FilteredByRegex'' else ''FilteredByBlocklist'')"

definition allow_result :: "engine \<Rightarrow> indexed \<Rightarrow> result" where
  "allow_result e m = no_result\<lparr>rs_allowed := True, rs_rule := ru_raw (ix_rule m), rs_source := source_name e (ix_source m)\<rparr>"

definition block_result :: "engine \<Rightarrow> indexed \<Rightarrow> result" where
  "block_result e m = no_result\<lparr>rs_blocked := True, rs_rule := ru_raw (ix_rule m),
     rs_source := source_name e (ix_source m), rs_reason := block_reason (ix_rule m)\<rparr>"

definition match_domain :: "regex_lib \<Rightarrow> string \<Rightarrow> engine \<Rightarrow> result \<times> engine" where
  "match_domain X d e =
     (case first_indexed_match X d (in_allow (e_idx e)) of
        Some m \<Rightarrow> (allow_result e m, e\<lparr>e_allowed_total := Suc (e_allowed_total e)\<rparr>)
      | None \<Rightarrow>
          (case first_indexed_match X d (in_block (e_idx e)) of
             Some m \<Rightarrow> (block_result e m, e\<lparr>e_blocked_total := Suc (e_blocked_total e)\<rparr>)
           | None \<Rightarrow> (no_result, e)))"

record evaluation =
  ev_domain :: string
  ev_result :: result
  ev_allow_rule :: string
  ev_allow_source :: string
  ev_block_rule :: string
  ev_block_source :: string
  ev_override :: bool

definition explain :: "regex_lib \<Rightarrow> string \<Rightarrow> engine \<Rightarrow> evaluation" where
  "explain X d0 e =
     (let d = to_lower (trim_suffix (trim_space d0) ''.'');
          alw = first_indexed_match X d (in_allow (e_idx e));
          blk = first_indexed_match X d (in_block (e_idx e))
      in \<lparr>ev_domain = d,
          ev_result = (case alw of Some m \<Rightarrow> allow_result e m
             | None \<Rightarrow> (case blk of Some m \<Rightarrow> block_result e m | None \<Rightarrow> no_result)),
          ev_allow_rule = (case alw of Some m \<Rightarrow> ru_raw (ix_rule m) | None \<Rightarrow> []),
          ev_allow_source = (case alw of Some m \<Rightarrow> source_name e (ix_source m) | None \<Rightarrow> []),
          ev_block_rule = (case blk of Some m \<Rightarrow> ru_raw (ix_rule m) | None \<Rightarrow> []),
          ev_block_source = (case blk of Some m \<Rightarrow> source_name e (ix_source m) | None \<Rightarrow> []),
          ev_override = (alw \<noteq> None \<and> blk \<noteq> None)\<rparr>)"

definition max_override_candidates :: nat where "max_override_candidates = 20000"
definition max_override_regex_evaluations :: nat where "max_override_regex_evaluations = 500000"
definition override_check_interval :: nat where "override_check_interval = 256"

text \<open>The loop of AllowlistOverridesContext; \<open>cancelled i\<close> is ctx.Err at candidate i.\<close>

fun override_loop ::
  "regex_lib \<Rightarrow> engine \<Rightarrow> (nat \<Rightarrow> bool) \<Rightarrow> nat \<Rightarrow> nat \<Rightarrow> nat \<Rightarrow> string list \<Rightarrow> evaluation list \<Rightarrow> evaluation list" where
  "override_loop X e cancelled limit i budget [] acc = acc"
| "override_loop X e cancelled limit i budget (d # ds) acc =
     (let blk = in_block (e_idx e); alw = in_allow (e_idx e)
      in if i mod override_check_interval = 0 \<and> cancelled i then acc
         else if budget < length (snd blk) then acc
         else
           let b1 = budget - length (snd blk)
           in case first_indexed_match X d blk of
                None \<Rightarrow> override_loop X e cancelled limit (Suc i) b1 ds acc
              | Some bm \<Rightarrow>
                  if b1 < length (snd alw) then acc
                  else
                    let b2 = b1 - length (snd alw)
                    in case first_indexed_match X d alw of
                         None \<Rightarrow> override_loop X e cancelled limit (Suc i) b2 ds acc
                       | Some am \<Rightarrow>
                           let acc' = acc @ [\<lparr>ev_domain = d, ev_result = allow_result e am,
                                 ev_allow_rule = ru_raw (ix_rule am), ev_allow_source = source_name e (ix_source am),
                                 ev_block_rule = ru_raw (ix_rule bm), ev_block_source = source_name e (ix_source bm),
                                 ev_override = True\<rparr>]
                           in if limit \<le> length acc' then acc'
                              else override_loop X e cancelled limit (Suc i) b2 ds acc')"

definition allowlist_overrides :: "regex_lib \<Rightarrow> (nat \<Rightarrow> bool) \<Rightarrow> int \<Rightarrow> engine \<Rightarrow> evaluation list" where
  "allowlist_overrides X cancelled limit e =
     (let lim = (if limit \<le> 0 then 100 else nat limit);
          ds = take max_override_candidates (sort (gm_keys (fst (in_allow (e_idx e)))))
      in override_loop X e cancelled lim 0 max_override_regex_evaluations ds [])"

section \<open>Pausing\<close>

text \<open>Unix seconds of a nanosecond time after the epoch.\<close>

definition unix :: "int \<Rightarrow> int" where "unix t = t div second"

definition pause :: "int \<Rightarrow> int \<Rightarrow> engine \<Rightarrow> engine" where
  "pause now minutes e =
     (if minutes \<le> 0 then e\<lparr>e_paused := 0\<rparr> else e\<lparr>e_paused := unix (now + minutes * minute)\<rparr>)"

definition paused :: "int \<Rightarrow> engine \<Rightarrow> bool" where
  "paused now e \<longleftrightarrow> e_paused e \<noteq> 0 \<and> unix now < e_paused e"

definition paused_until :: "int \<Rightarrow> engine \<Rightarrow> int option" where
  "paused_until now e = (if e_paused e = 0 \<or> e_paused e \<le> unix now then None else Some (e_paused e))"

section \<open>Publishing rules\<close>

record load_status =
  ls_ignored :: nat
  ls_truncated :: bool
  ls_bytes :: int
  ls_final_url :: string
  ls_final_host :: string
  ls_redirects :: int

definition last_n :: "nat \<Rightarrow> 'a list \<Rightarrow> 'a list" where
  "last_n n xs = drop (length xs - n) xs"

text \<open>The parts of setRulesStatus: whether the rules changed, the new status, the publication.\<close>

definition rules_changed :: "source \<Rightarrow> string \<Rightarrow> rule list \<Rightarrow> rule list \<Rightarrow> bool" where
  "rules_changed ob csum block allow \<longleftrightarrow>
     (if so_checksum ob = [] then 0 < length block + length allow else so_checksum ob \<noteq> csum)"

definition grown_history :: "engine \<Rightarrow> src \<Rightarrow> source \<Rightarrow> bool \<Rightarrow> snapshot list" where
  "grown_history e s ob changed =
     (if changed \<and> 0 < so_rule_count ob + so_allow_count ob
      then last_n 3 (so_history ob @ [\<lparr>sn_block = rules_of (e_block e) s,
             sn_allow = rules_of (e_allow e) s, sn_checksum = so_checksum ob\<rparr>])
      else so_history ob)"

definition loaded_source ::
  "int \<Rightarrow> nat \<Rightarrow> nat \<Rightarrow> string \<Rightarrow> bool \<Rightarrow> snapshot list \<Rightarrow> load_status \<Rightarrow> source \<Rightarrow> source" where
  "loaded_source now nb na csum changed hist st ob =
     ob\<lparr>so_last_checked := now, so_last_error := [], so_history := hist,
        so_rule_count := nb, so_allow_count := na,
        so_delta := int (nb + na) - int (so_rule_count ob + so_allow_count ob), so_last_update := now,
        so_last_changed := (if changed then now else so_last_changed ob),
        so_ignored := ls_ignored st, so_truncated := ls_truncated st, so_bytes := ls_bytes st,
        so_final_url := ls_final_url st, so_final_host := ls_final_host st,
        so_redirects := ls_redirects st, so_checksum := csum, so_rollback := length hist\<rparr>"

definition publish :: "src \<Rightarrow> rule list \<Rightarrow> rule list \<Rightarrow> engine \<Rightarrow> engine" where
  "publish s block allow e =
     (let e' = e\<lparr>e_block := gm_set s block (e_block e), e_allow := gm_set s allow (e_allow e),
                 e_generation := Suc (e_generation e)\<rparr>
      in if 0 < e_depth e' then e'\<lparr>e_dirty := True\<rparr> else rebuild e')"

definition notify_change :: "engine \<Rightarrow> engine" where
  "notify_change e = (if 0 < e_depth e then e\<lparr>e_changes := True\<rparr> else e\<lparr>e_notified := Suc (e_notified e)\<rparr>)"

text \<open>
  setRulesStatus: \<open>ck\<close> is activeRulesChecksum. Sources that are no longer active are ignored, an
  error keeps the last good rules, and unchanged rules are not republished.
\<close>

definition set_rules_status ::
  "(rule list \<Rightarrow> rule list \<Rightarrow> string) \<Rightarrow> int \<Rightarrow> src \<Rightarrow> rule list \<Rightarrow> rule list \<Rightarrow> string \<Rightarrow> load_status \<Rightarrow>
    engine \<Rightarrow> engine" where
  "set_rules_status ck now s block allow err st e =
     (case gm_get (e_objs e) s of None \<Rightarrow> e
      | Some ob \<Rightarrow>
        if s \<notin> set (e_sources e) then e
        else if err \<noteq> [] then
          e\<lparr>e_objs := gm_set s (ob\<lparr>so_last_checked := now, so_last_error := err\<rparr>) (e_objs e)\<rparr>
        else
          let csum = ck block allow;
              changed = rules_changed ob csum block allow;
              hist = grown_history e s ob changed;
              e1 = e\<lparr>e_objs := gm_set s (loaded_source now (length block) (length allow) csum changed hist st ob)
                       (e_objs e)\<rparr>;
              e2 = (if changed then publish s block allow e1 else e1)
          in if changed \<and> so_is_url ob then notify_change e2 else e2)"

definition set_source_error :: "int \<Rightarrow> src \<Rightarrow> string \<Rightarrow> engine \<Rightarrow> engine" where
  "set_source_error now s err e =
     (case gm_get (e_objs e) s of None \<Rightarrow> e
      | Some o0 \<Rightarrow> e\<lparr>e_objs := gm_set s (o0\<lparr>so_last_checked := now, so_last_error := err\<rparr>) (e_objs e)\<rparr>)"

definition begin_batch :: "engine \<Rightarrow> engine" where
  "begin_batch e = e\<lparr>e_depth := Suc (e_depth e)\<rparr>"

text \<open>endRuleUpdateBatch up to the build outside the lock.\<close>

definition end_batch :: "engine \<Rightarrow> engine" where
  "end_batch e =
     (if e_depth e = 0 then e
      else if 1 < e_depth e then e\<lparr>e_depth := e_depth e - 1\<rparr>
      else
        let e1 = e\<lparr>e_depth := 0, e_dirty := False, e_changes := False\<rparr>
        in if e_dirty e
           then e1\<lparr>e_pending := e_pending e @ [\<lparr>pb_indexes = build_rule_indexes (e_sources e) (e_block e) (e_allow e),
                     pb_generation = e_generation e, pb_notify = e_changes e\<rparr>]\<rparr>
           else if e_changes e then e1\<lparr>e_notified := Suc (e_notified e)\<rparr> else e1)"

text \<open>Its second half: publish the build unless the rules changed since, and call back.\<close>

definition apply_build :: "pending_build \<Rightarrow> engine \<Rightarrow> engine" where
  "apply_build b e =
     (let e1 = e\<lparr>e_pending := remove1 b (e_pending e),
                 e_notified := (if pb_notify b then Suc (e_notified e) else e_notified e)\<rparr>
      in if e_generation e1 = pb_generation b then e1\<lparr>e_idx := pb_indexes b\<rparr> else e1)"

section \<open>Rollback\<close>

definition snapshot_rules_for_policy :: "snapshot \<Rightarrow> bool \<Rightarrow> rule list \<times> rule list" where
  "snapshot_rules_for_policy sn ao =
     (if \<not> ao then (sn_block sn, sn_allow sn) else ([], sn_allow sn @ sn_block sn))"

datatype rollback_error = NoSnapshot | NotFound

definition find_url_source :: "string \<Rightarrow> engine \<Rightarrow> (src \<times> source) option" where
  "find_url_source i e =
     List.find (\<lambda>(s, ob). so_is_url ob \<and> so_id ob = i)
       (List.map_filter (\<lambda>s. map_option (Pair s) (gm_get (e_objs e) s)) (e_sources e))"

definition rollback_source ::
  "(rule list \<Rightarrow> rule list \<Rightarrow> string) \<Rightarrow> int \<Rightarrow> string \<Rightarrow> engine \<Rightarrow> (rollback_error + unit) \<times> engine" where
  "rollback_source ck now i e =
     (case find_url_source i e of None \<Rightarrow> (Inl NotFound, e)
      | Some (s, o0) \<Rightarrow>
        if so_history o0 = [] then (Inl NoSnapshot, e)
        else
          let sn = last (so_history o0);
              hist = butlast (so_history o0);
              (block, allow) = snapshot_rules_for_policy sn (so_allow_only o0);
              prev = so_rule_count o0 + so_allow_count o0;
              csum = (if so_allow_only o0 \<and> sn_block sn \<noteq> [] then ck block allow else sn_checksum sn);
              o1 = o0\<lparr>so_history := hist, so_rule_count := length block, so_allow_count := length allow,
                      so_delta := int (length block + length allow) - int prev, so_checksum := csum,
                      so_last_changed := now, so_last_update := now, so_last_checked := now,
                      so_last_error := [], so_rollback := length hist\<rparr>
          in (Inr (), (rebuild (e\<lparr>e_objs := gm_set s o1 (e_objs e), e_block := gm_set s block (e_block e),
                e_allow := gm_set s allow (e_allow e), e_generation := Suc (e_generation e)\<rparr>))
               \<lparr>e_notified := Suc (e_notified e)\<rparr>))"

section \<open>Persisted history\<close>

record persisted_snapshot =
  ps_block :: "string list"
  ps_allow :: "string list"
  ps_checksum :: string

record persisted_history =
  ph_version :: int
  ph_source_id :: string
  ph_allow_only :: bool
  ph_snapshots :: "persisted_snapshot list"

definition encode_history :: "string \<Rightarrow> bool \<Rightarrow> snapshot list \<Rightarrow> persisted_history" where
  "encode_history i ao hist = \<lparr>ph_version = 1, ph_source_id = i, ph_allow_only = ao,
     ph_snapshots = List.map (\<lambda>sn. \<lparr>ps_block = List.map ru_raw (sn_block sn),
       ps_allow = List.map ru_raw (sn_allow sn), ps_checksum = sn_checksum sn\<rparr>) hist\<rparr>"

fun decode_history_rules :: "regex_lib \<Rightarrow> bool \<Rightarrow> bool \<Rightarrow> string list \<Rightarrow> rule list option" where
  "decode_history_rules X want ao [] = Some []"
| "decode_history_rules X want ao (raw # raws) =
     (case parse_line X raw of None \<Rightarrow> None
      | Some (r, exc) \<Rightarrow>
          if exc \<noteq> want \<and> (\<not> want \<or> \<not> ao) then None
          else map_option ((#) r) (decode_history_rules X want ao raws))"

definition decode_snapshot :: "regex_lib \<Rightarrow> bool \<Rightarrow> persisted_snapshot \<Rightarrow> snapshot option" where
  "decode_snapshot X ao p =
     (if ao \<and> ps_block p \<noteq> [] then None
      else case (decode_history_rules X False False (ps_block p), decode_history_rules X True ao (ps_allow p)) of
             (Some b, Some a) \<Rightarrow> Some \<lparr>sn_block = b, sn_allow = a, sn_checksum = ps_checksum p\<rparr>
           | _ \<Rightarrow> None)"

definition read_history :: "regex_lib \<Rightarrow> string \<Rightarrow> bool \<Rightarrow> persisted_history \<Rightarrow> snapshot list option" where
  "read_history X i ao d =
     (if ph_version d \<noteq> 1 \<or> ph_source_id d \<noteq> i \<or> ph_allow_only d \<noteq> ao then None
      else all_some (List.map (decode_snapshot X ao) (last_n 3 (ph_snapshots d))))"

text \<open>loadSourceHistory, with the document read from the disk (None when unreadable).\<close>

definition load_source_history :: "regex_lib \<Rightarrow> (string \<Rightarrow> persisted_history option) \<Rightarrow> string \<Rightarrow> engine \<Rightarrow> engine" where
  "load_source_history X disk i e =
     (case find_url_source i e of None \<Rightarrow> e
      | Some (s, ob) \<Rightarrow>
          (case Option.bind (disk i) (read_history X i (so_allow_only ob)) of None \<Rightarrow> e
           | Some h \<Rightarrow> e\<lparr>e_objs := gm_set s (ob\<lparr>so_history := h, so_rollback := length h\<rparr>) (e_objs e)\<rparr>))"

section \<open>Subscriptions\<close>

record subscription =
  sb_id :: string
  sb_name :: string
  sb_url :: string
  sb_refresh_generation :: string
  sb_allow_only :: bool
  sb_enabled :: bool
  sb_allow_private :: bool
  sb_timeout :: int
  sb_redirect_limit :: int
  sb_refresh_at :: string

text \<open>
  parseRefreshAtUTC: HH:MM as time.Parse reads it (one or two digits of hour, two of minute).
  None is the error; the empty string is -1.
\<close>

definition parse_refresh_at :: "string \<Rightarrow> int option" where
  "parse_refresh_at v0 =
     (let v = trim_space v0
      in if v = [] then Some (-1)
         else case split_on (CHR '':'') v of
                [h, m] \<Rightarrow>
                  if all_digits h \<and> length h \<le> 2 \<and> all_digits m \<and> length m = 2 \<and>
                     dec_val h < 24 \<and> dec_val m < 60
                  then Some (int (dec_val h * 60 + dec_val m)) else None
              | _ \<Rightarrow> None)"

definition refresh_at_minute :: "string \<Rightarrow> int" where
  "refresh_at_minute v = (case parse_refresh_at v of None \<Rightarrow> -1 | Some m \<Rightarrow> m)"

definition subscription_timeout :: "int \<Rightarrow> int" where
  "subscription_timeout s = (if s \<le> 0 then 30 * second else s * second)"

definition subscription_redirect_limit :: "int \<Rightarrow> int" where
  "subscription_redirect_limit l = (if l \<le> 0 then 5 else l)"

text \<open>\<open>valid\<close> is the check of the parsed URL (scheme, host, no credentials).\<close>

definition new_url_source :: "(string \<Rightarrow> bool) \<Rightarrow> subscription \<Rightarrow> source" where
  "new_url_source valid b =
     \<lparr>so_id = sb_id b, so_title = sb_name b, so_name = sb_url b, so_is_url = True, so_enabled = sb_enabled b,
      so_allow_only = sb_allow_only b, so_rule_count = 0, so_allow_count = 0, so_last_update = 0,
      so_last_checked = 0, so_last_changed = 0,
      so_last_error = (if valid (sb_url b) then []
        else ''invalid URL: only http/https without embedded credentials is allowed''),
      so_ignored = 0, so_truncated = False, so_delta = 0, so_bytes = 0, so_final_url = [],
      so_final_host = [], so_redirects = 0, so_checksum = [], so_rollback = 0,
      so_valid_url = valid (sb_url b), so_allow_private = sb_allow_private b,
      so_timeout = subscription_timeout (sb_timeout b),
      so_redirect_limit = subscription_redirect_limit (sb_redirect_limit b),
      so_refresh_generation = sb_refresh_generation b,
      so_refresh_minute = refresh_at_minute (sb_refresh_at b), so_history = []\<rparr>"

definition source_matches_subscription :: "source \<Rightarrow> subscription \<Rightarrow> bool" where
  "source_matches_subscription ob b \<longleftrightarrow>
     so_name ob = sb_url b \<and> so_allow_only ob = sb_allow_only b \<and>
     so_allow_private ob = sb_allow_private b \<and> so_timeout ob = subscription_timeout (sb_timeout b) \<and>
     so_redirect_limit ob = subscription_redirect_limit (sb_redirect_limit b) \<and>
     so_refresh_minute ob = refresh_at_minute (sb_refresh_at b)"

record replacement =
  rp_kept :: "src list"
  rp_reusable :: "(string, src) gomap"
  rp_objs :: "(src, source) gomap"
  rp_next :: src
  rp_refresh :: "string list"
  rp_history :: "string list"

definition replace_step :: "(string \<Rightarrow> bool) \<Rightarrow> replacement \<Rightarrow> subscription \<Rightarrow> replacement" where
  "replace_step valid p b =
     (if \<not> sb_enabled b then p
      else
        case Option.bind (gm_get (rp_reusable p) (sb_id b))
               (\<lambda>s. Option.bind (gm_get (rp_objs p) s)
                      (\<lambda>ob. if source_matches_subscription ob b then Some (s, ob) else None)) of
          None \<Rightarrow>
            p\<lparr>rp_kept := rp_kept p @ [rp_next p], rp_next := Suc (rp_next p),
              rp_objs := gm_set (rp_next p) (new_url_source valid b) (rp_objs p),
              rp_refresh := rp_refresh p @ [sb_id b], rp_history := rp_history p @ [sb_id b]\<rparr>
        | Some (s, ob) \<Rightarrow>
            p\<lparr>rp_kept := rp_kept p @ [s], rp_reusable := gm_del (sb_id b) (rp_reusable p),
              rp_objs := gm_set s (ob\<lparr>so_title := sb_name b, so_enabled := True,
                so_refresh_generation := sb_refresh_generation b\<rparr>) (rp_objs p),
              rp_refresh := (if so_refresh_generation ob \<noteq> sb_refresh_generation b
                             then rp_refresh p @ [sb_id b] else rp_refresh p)\<rparr>)"

definition is_url_src :: "engine \<Rightarrow> src \<Rightarrow> bool" where
  "is_url_src e s = (case gm_get (e_objs e) s of None \<Rightarrow> False | Some ob \<Rightarrow> so_is_url ob)"

definition request_source_update :: "string \<Rightarrow> engine \<Rightarrow> engine" where
  "request_source_update i e =
     (if i = [] \<or> e_update_all e then e
      else e\<lparr>e_update_ids := i # removeAll i (e_update_ids e)\<rparr>)"

definition replace_url_sources ::
  "regex_lib \<Rightarrow> (string \<Rightarrow> persisted_history option) \<Rightarrow> (string \<Rightarrow> bool) \<Rightarrow> subscription list \<Rightarrow> engine \<Rightarrow> engine" where
  "replace_url_sources X disk valid subs e =
     (let reusable = foldl (\<lambda>m s. case gm_get (e_objs e) s of
                               Some ob \<Rightarrow> if so_is_url ob \<and> so_id ob \<noteq> [] then gm_set (so_id ob) s m else m
                             | None \<Rightarrow> m) [] (e_sources e);
          p = foldl (replace_step valid)
                \<lparr>rp_kept = filter (\<lambda>s. \<not> is_url_src e s) (e_sources e), rp_reusable = reusable,
                 rp_objs = e_objs e, rp_next = e_next e, rp_refresh = [], rp_history = []\<rparr> subs;
          gone = filter (\<lambda>s. is_url_src e s \<and> s \<notin> set (rp_kept p)) (e_sources e);
          e1 = rebuild (e\<lparr>e_sources := rp_kept p, e_objs := rp_objs p, e_next := rp_next p,
                 e_block := foldl (\<lambda>m s. gm_del s m) (e_block e) gone,
                 e_allow := foldl (\<lambda>m s. gm_del s m) (e_allow e) gone,
                 e_generation := Suc (e_generation e)\<rparr>);
          e2 = foldl (\<lambda>e' i. load_source_history X disk i e') e1 (rp_history p)
      in foldl (\<lambda>e' i. request_source_update i e') e2 (rp_refresh p))"

definition new_engine :: engine where
  "new_engine = \<lparr>e_sources = [], e_objs = [], e_next = 0, e_block = [], e_allow = [],
     e_idx = \<lparr>in_block = ([], []), in_allow = ([], [])\<rparr>, e_depth = 0, e_dirty = False, e_changes = False,
     e_generation = 0, e_pending = [], e_paused = 0, e_blocked_total = 0, e_allowed_total = 0,
     e_notified = 0, e_update_all = False, e_update_ids = []\<rparr>"

text \<open>Registering a source (AddFileSource, AddURLSource): the object is appended, without rules.\<close>

definition add_source :: "source \<Rightarrow> engine \<Rightarrow> engine" where
  "add_source ob e = e\<lparr>e_sources := e_sources e @ [e_next e], e_objs := gm_set (e_next e) ob (e_objs e),
     e_next := Suc (e_next e)\<rparr>"


section \<open>The index finds the first matching rule\<close>

text \<open>All rules of one side in evaluation order: by source, then by position.\<close>

definition ordered_rules :: "src list \<Rightarrow> (src, rule list) gomap \<Rightarrow> (src \<times> rule) list" where
  "ordered_rules sources m = concat (List.map (\<lambda>s. List.map (Pair s) (rules_of m s)) sources)"

definition mk :: "nat \<times> src \<times> rule \<Rightarrow> indexed" where
  "mk x = \<lparr>ix_rule = snd (snd x), ix_source = fst (snd x), ix_order = fst x\<rparr>"

definition first_match :: "regex_lib \<Rightarrow> string \<Rightarrow> (src \<times> rule) list \<Rightarrow> indexed option" where
  "first_match X d rs = map_option mk (List.find (\<lambda>x. rule_matches X (snd (snd x)) d) (enumerate 0 rs))"

lemma foldl_sources:
  "foldl (\<lambda>acc s. foldl (index_step s) acc (rules_of m s)) acc sources =
   foldl (\<lambda>acc x. index_step (fst x) acc (snd x)) acc (ordered_rules sources m)"
  by (induction sources arbitrary: acc) (simp_all add: ordered_rules_def foldl_map)

lemma index_fold:
  "foldl (\<lambda>acc x. index_step (fst x) acc (snd x)) ((doms, regex), n) xs = ((doms', regex'), n') \<Longrightarrow>
    regex' = regex @ List.map mk (filter (\<lambda>x. ru_kind (snd (snd x)) = KindRegex) (enumerate n xs)) \<and>
    gm_get doms' p = (case gm_get doms p of Some m \<Rightarrow> Some m
       | None \<Rightarrow> map_option mk (List.find (\<lambda>x. ru_kind (snd (snd x)) \<noteq> KindRegex \<and> ru_domain (snd (snd x)) = p) (enumerate n xs)))"
proof (induction xs arbitrary: doms regex n)
  case (Cons x xs)
  obtain s r where x: "x = (s, r)" by (cases x)
  let ?m = "\<lparr>ix_rule = r, ix_source = s, ix_order = n\<rparr>"
  have mk: "mk (n, s, r) = ?m" by (simp add: mk_def)
  consider "ru_kind r = KindRegex" | "ru_kind r \<noteq> KindRegex" "gm_get doms (ru_domain r) = None"
    | m where "ru_kind r \<noteq> KindRegex" "gm_get doms (ru_domain r) = Some m" by blast
  then show ?case
  proof cases
    case 1
    with Cons.prems Cons.IH [of doms "regex @ [?m]" "Suc n"] show ?thesis
      by (simp add: x index_step_def Let_def mk split: option.split)
  next
    case 2
    with Cons.prems Cons.IH [of "gm_set (ru_domain r) ?m doms" regex "Suc n"] show ?thesis
      by (auto simp: x index_step_def Let_def mk gm_get_set split: option.splits)
  next
    case 3
    with Cons.prems Cons.IH [of doms regex "Suc n"] show ?thesis
      by (auto simp: x index_step_def Let_def split: option.splits)
  qed
qed (simp split: option.splits)

lemma parents_nonempty: "p \<in> set (takeWhile (\<lambda>c. c \<noteq> []) (parents d)) \<longleftrightarrow> p \<noteq> [] \<and> covers p d"
proof -
  have "set (takeWhile (\<lambda>c. c \<noteq> []) (parents d)) = set (parents d) - {[]}"
  proof (induction d rule: parents.induct)
    case (1 d)
    show ?case
    proof (cases "cut (CHR ''.'') d")
      case None
      then show ?thesis by (auto simp: parents.simps [of d])
    next
      case (Some ar)
      obtain a rest where ar: "ar = (a, rest)" by (cases ar)
      have "d \<noteq> []" using Some by (cases d) auto
      with Some ar "1" show ?thesis by (auto simp: parents.simps [of d])
    qed
  qed
  then show ?thesis by (auto simp: set_parents)
qed

lemma find_enumerate:
  "List.find P (enumerate 0 xs) = Some x \<longleftrightarrow>
     (\<exists>i < length xs. x = (i, xs ! i) \<and> P x \<and> (\<forall>j < i. \<not> P (j, xs ! j)))"
proof -
  have "List.find P (enumerate 0 xs) = Some x \<longleftrightarrow>
     (\<exists>i < length xs. P (i, xs ! i) \<and> x = (i, xs ! i) \<and> (\<forall>j < i. \<not> P (enumerate 0 xs ! j)))"
    by (simp add: find_Some_iff nth_enumerate_eq cong: conj_cong)
  also have "\<dots> \<longleftrightarrow> (\<exists>i < length xs. x = (i, xs ! i) \<and> P x \<and> (\<forall>j < i. \<not> P (j, xs ! j)))"
    using nth_enumerate_eq [of _ xs 0] by (metis (no_types, lifting) add_0 less_trans)
  finally show ?thesis .
qed

lemma map_filter_mem: "x \<in> set xs \<Longrightarrow> f x = Some y \<Longrightarrow> y \<in> set (List.map_filter f xs)"
  by (force simp: List.map_filter_def)

lemma built_index_first:
  assumes dom: "\<And>s r. (s, r) \<in> set xs \<Longrightarrow> ru_kind r = KindDomain \<Longrightarrow> ru_domain r \<noteq> []"
    and built: "foldl (\<lambda>acc x. index_step (fst x) acc (snd x)) (([], []), 0) xs = ((doms, regex), n)"
  shows "first_indexed_match X d (doms, regex) = first_match X d xs"
proof -
  let ?P = "\<lambda>x. rule_matches X (snd (snd x)) d"
  let ?C = "List.map_filter (gm_get doms) (takeWhile (\<lambda>c. c \<noteq> []) (parents d))"
  let ?R = "filter (\<lambda>m. rule_matches X (ix_rule m) d) regex"
  have regex: "regex = List.map mk (filter (\<lambda>x. ru_kind (snd (snd x)) = KindRegex) (enumerate 0 xs))"
    and doms: "\<And>p. gm_get doms p = map_option mk (List.find (\<lambda>x. ru_kind (snd (snd x)) \<noteq> KindRegex \<and> ru_domain (snd (snd x)) = p) (enumerate 0 xs))"
    using index_fold [OF built] by simp_all
  have scan: "first_indexed_match X d (doms, regex) = scan_min ix_order None (?C @ ?R)"
    by (simp add: first_indexed_match_def Let_def)
  have all: "\<exists>i < length xs. y = mk (i, xs ! i) \<and> ?P (i, xs ! i)" if "y \<in> set (?C @ ?R)" for y
  proof -
    from that consider c where "c \<noteq> []" "covers c d" "gm_get doms c = Some y" | "y \<in> set ?R"
      by (auto simp: List.map_filter_def parents_nonempty)
    then show ?thesis
    proof cases
      case 1
      then obtain x where "List.find (\<lambda>x. ru_kind (snd (snd x)) \<noteq> KindRegex \<and> ru_domain (snd (snd x)) = c) (enumerate 0 xs) = Some x"
        and "y = mk x" by (auto simp: doms)
      with 1(2) show ?thesis
        by (auto simp: find_enumerate rule_matches_def match_domain_suffix_covers)
    next
      case 2
      then obtain x where "x \<in> set (enumerate 0 xs)" "y = mk x" "?P x"
        by (auto simp: regex mk_def)
      then show ?thesis by (auto simp: in_set_enumerate_eq)
    qed
  qed
  show ?thesis
  proof (cases "List.find ?P (enumerate 0 xs)")
    case None
    then have "\<not> ?P (i, xs ! i)" if "i < length xs" for i
      using that by (auto simp: find_None_iff in_set_enumerate_eq)
    with all have "?C @ ?R = []" by (metis (no_types, lifting) last_in_set)
    then show ?thesis unfolding scan first_match_def None by simp
  next
    case (Some x0)
    then obtain i where i: "i < length xs" "x0 = (i, xs ! i)" "?P x0" "\<forall>j < i. \<not> ?P (j, xs ! j)"
      by (auto simp: find_enumerate)
    have mem: "mk x0 \<in> set (?C @ ?R)"
    proof (cases "ru_kind (snd (snd x0)) = KindRegex")
      case True
      then have "mk x0 \<in> set regex" using i by (auto simp: regex in_set_enumerate_eq)
      moreover have "ix_rule (mk x0) = snd (snd x0)" by (simp add: mk_def)
      ultimately have "mk x0 \<in> set ?R" using i(3) by simp
      then show ?thesis unfolding set_append by (rule UnI2)
    next
      case False
      let ?p = "ru_domain (snd (snd x0))"
      have kind: "ru_kind (snd (snd x0)) = KindDomain" using False by (cases "ru_kind (snd (snd x0))") auto
      have cov: "covers ?p d" using i(3) False by (simp add: rule_matches_def match_domain_suffix_covers)
      have "(fst (snd x0), snd (snd x0)) \<in> set xs" using i(1,2) by simp
      then have "?p \<noteq> []" using kind by (rule dom)
      with cov have cand: "?p \<in> set (takeWhile (\<lambda>c. c \<noteq> []) (parents d))" by (simp add: parents_nonempty)
      have "List.find (\<lambda>x. ru_kind (snd (snd x)) \<noteq> KindRegex \<and> ru_domain (snd (snd x)) = ?p) (enumerate 0 xs) = Some x0"
        unfolding find_enumerate
      proof (intro exI [of _ i] conjI allI impI)
        fix j assume "j < i"
        with i(4) have "\<not> ?P (j, xs ! j)" by blast
        with cov show "\<not> (ru_kind (snd (snd (j, xs ! j))) \<noteq> KindRegex \<and> ru_domain (snd (snd (j, xs ! j))) = ?p)"
          by (auto simp: rule_matches_def match_domain_suffix_covers)
      qed (use i(1,2) False in simp_all)
      then have "gm_get doms ?p = Some (mk x0)" by (simp add: doms)
      with cand have "mk x0 \<in> set ?C" by (rule map_filter_mem)
      then show ?thesis unfolding set_append by (rule UnI1)
    qed
    have "scan_min ix_order None (?C @ ?R) \<noteq> None"
      unfolding scan_min_None using mem by (metis empty_iff empty_set)
    then obtain y where y: "scan_min ix_order None (?C @ ?R) = Some y" by blast
    then have "y \<in> set (?C @ ?R)" by (blast dest: scan_min_mem)
    then obtain j where j: "j < length xs" "y = mk (j, xs ! j)" "?P (j, xs ! j)" using all by blast
    have "ix_order y \<le> ix_order (mk x0)" using y mem by (rule scan_min_le)
    then have "j \<le> i" by (simp add: j i(2) mk_def)
    with j(3) i(4) have "j = i" by (metis le_neq_implies_less)
    then have "y = mk x0" by (simp only: j i(2))
    then show ?thesis unfolding scan first_match_def Some y by (simp only: option.map)
  qed
qed

lemma build_side_first:
  assumes "\<And>s r. (s, r) \<in> set (ordered_rules sources m) \<Longrightarrow> ru_kind r = KindDomain \<Longrightarrow> ru_domain r \<noteq> []"
  shows "first_indexed_match X d (build_side sources m) = first_match X d (ordered_rules sources m)"
proof -
  obtain sd n where "foldl (\<lambda>acc x. index_step (fst x) acc (snd x)) (([], []), 0) (ordered_rules sources m) = (sd, n)"
    by (meson surj_pair)
  moreover obtain doms regex where "sd = (doms, regex)" by (cases sd)
  ultimately have b: "foldl (\<lambda>acc x. index_step (fst x) acc (snd x)) (([], []), 0) (ordered_rules sources m) = ((doms, regex), n)"
    by simp
  then have "build_side sources m = (doms, regex)"
    by (simp add: build_side_def foldl_sources)
  with built_index_first [where X = X and d = d, OF assms b] show ?thesis by simp
qed


section \<open>Every interleaving settles on the current rules\<close>

text \<open>The indexes the current rules call for.\<close>

definition cur :: "engine \<Rightarrow> indexes" where
  "cur e = build_rule_indexes (e_sources e) (e_block e) (e_allow e)"

definition rule_ok :: "rule \<Rightarrow> bool" where
  "rule_ok r \<longleftrightarrow> (ru_kind r = KindDomain \<longrightarrow> ru_domain r \<noteq> [])"

definition rules_ok :: "(src, rule list) gomap \<Rightarrow> bool" where
  "rules_ok m \<longleftrightarrow> (\<forall>s. list_all rule_ok (rules_of m s))"

definition snapshot_ok :: "snapshot \<Rightarrow> bool" where
  "snapshot_ok sn \<longleftrightarrow> list_all rule_ok (sn_block sn) \<and> list_all rule_ok (sn_allow sn)"

definition objs_ok :: "(src, source) gomap \<Rightarrow> bool" where
  "objs_ok m \<longleftrightarrow> (\<forall>s ob. gm_get m s = Some ob \<longrightarrow> list_all snapshot_ok (so_history ob))"

definition engine_inv :: "engine \<Rightarrow> bool" where
  "engine_inv e \<longleftrightarrow>
     rules_ok (e_block e) \<and> rules_ok (e_allow e) \<and> objs_ok (e_objs e) \<and>
     (\<forall>s. e_next e \<le> s \<longrightarrow> rules_of (e_block e) s = [] \<and> rules_of (e_allow e) s = []) \<and>
     (\<forall>s. e_next e \<le> s \<longrightarrow> gm_get (e_objs e) s = None) \<and>
     (\<forall>b \<in> set (e_pending e). pb_generation b \<le> e_generation e \<and>
        (pb_generation b = e_generation e \<longrightarrow> pb_indexes b = cur e)) \<and>
     (e_idx e = cur e \<or> (0 < e_depth e \<and> e_dirty e) \<or>
      (\<exists>b \<in> set (e_pending e). pb_generation b = e_generation e))"

datatype filter_op =
    FLoad int src string load_status
  | FFail int src string
  | FError int src string
  | FBegin
  | FEnd
  | FApply nat
  | FRollback int string
  | FReplace "subscription list"
  | FAdd source
  | FMatch string
  | FPause int int

type_synonym filter_env =
  "regex_lib \<times> (rule list \<Rightarrow> rule list \<Rightarrow> string) \<times> (string \<Rightarrow> persisted_history option) \<times> (string \<Rightarrow> bool)"

text \<open>A load parses the text under the policy of the source and publishes what was read.\<close>

definition load_source :: "regex_lib \<Rightarrow> (rule list \<Rightarrow> rule list \<Rightarrow> string) \<Rightarrow> int \<Rightarrow> src \<Rightarrow> string \<Rightarrow> load_status \<Rightarrow>
    engine \<Rightarrow> engine" where
  "load_source X ck now s t st e =
     (case gm_get (e_objs e) s of None \<Rightarrow> e
      | Some ob \<Rightarrow>
          let p = parse_rules_capped X (so_allow_only ob) t
          in if pd_end p = BudgetExceeded \<or> pd_end p = ReadFailed
             then set_source_error now s ''read rules'' e
             else set_rules_status ck now s (pd_block p) (pd_allow p) []
                    (st\<lparr>ls_ignored := pd_ignored p, ls_truncated := (pd_end p = Truncated)\<rparr>) e)"

fun filter_step :: "filter_env \<Rightarrow> filter_op \<Rightarrow> engine \<Rightarrow> engine" where
  "filter_step (X, ck, disk, valid) (FLoad now s t st) e = load_source X ck now s t st e"
| "filter_step (X, ck, disk, valid) (FFail now s err) e =
     (if err = [] then e else set_rules_status ck now s [] [] err
        \<lparr>ls_ignored = 0, ls_truncated = False, ls_bytes = 0, ls_final_url = [], ls_final_host = [], ls_redirects = 0\<rparr> e)"
| "filter_step env (FError now s err) e = set_source_error now s err e"
| "filter_step env FBegin e = begin_batch e"
| "filter_step env FEnd e = end_batch e"
| "filter_step env (FApply n) e = (if n < length (e_pending e) then apply_build (e_pending e ! n) e else e)"
| "filter_step (X, ck, disk, valid) (FRollback now i) e = snd (rollback_source ck now i e)"
| "filter_step (X, ck, disk, valid) (FReplace subs) e = replace_url_sources X disk valid subs e"
| "filter_step env (FAdd ob) e = add_source (ob\<lparr>so_history := []\<rparr>) e"
| "filter_step (X, ck, disk, valid) (FMatch d) e = snd (match_domain X d e)"
| "filter_step env (FPause now m) e = pause now m e"

lemma rules_of_set: "rules_of (gm_set s rs m) s' = (if s' = s then rs else rules_of m s')"
  by (simp add: rules_of_def gm_get_set)

lemma rules_of_del: "rules_of (gm_del s m) s' = (if s' = s then [] else rules_of m s')"
  by (simp add: rules_of_def gm_get_del)

lemma rules_ok_set: "rules_ok m \<Longrightarrow> list_all rule_ok rs \<Longrightarrow> rules_ok (gm_set s rs m)"
  by (simp add: rules_ok_def rules_of_set)

lemma rules_ok_del: "rules_ok m \<Longrightarrow> rules_ok (foldl (\<lambda>m s. gm_del s m) m ss)"
  by (induction ss arbitrary: m) (auto simp: rules_ok_def rules_of_del)

lemma rules_of_dels_empty: "rules_of m s = [] \<Longrightarrow> rules_of (foldl (\<lambda>m s. gm_del s m) m ss) s = []"
  by (induction ss arbitrary: m) (auto simp: rules_of_del)

lemma objs_ok_set: "objs_ok m \<Longrightarrow> list_all snapshot_ok (so_history ob) \<Longrightarrow> objs_ok (gm_set s ob m)"
  by (simp add: objs_ok_def gm_get_set)

lemma parse_line_ok: "parse_line X l = Some (r, e) \<Longrightarrow> rule_ok r"
  using parse_line_rule(2) [of X l r e] by (auto simp: rule_ok_def valid_domain_def)

lemma parse_capped_ok:
  "list_all rule_ok (pd_block p) \<and> list_all rule_ok (pd_allow p) \<Longrightarrow>
   list_all rule_ok (pd_block (parse_capped X ao c i ls p)) \<and> list_all rule_ok (pd_allow (parse_capped X ao c i ls p))"
proof (induction X ao c i ls p rule: parse_capped.induct)
  case (2 X ao c i l ls p)
  show ?case
  proof (cases "parse_line X l")
    case None
    with 2 show ?thesis by simp
  next
    case (Some re)
    obtain r e where re: "re = (r, e)" by (cases re)
    have "rule_ok r" using Some re by (auto dest: parse_line_ok)
    then show ?thesis
      using 2(2) [OF Some re [symmetric]] 2(3) Some re by auto
  qed
qed simp

lemma parse_rules_ok:
  "list_all rule_ok (pd_block (parse_rules_capped X ao t))" "list_all rule_ok (pd_allow (parse_rules_capped X ao t))"
  using parse_capped_ok [of "\<lparr>pd_block = [], pd_allow = [], pd_ignored = 0, pd_end = Complete\<rparr>" X ao 0 0 "fst (scan_lines t)"]
  by (auto simp: parse_rules_capped_def Let_def split: prod.splits)

lemma decode_rules_ok: "decode_history_rules X w ao raws = Some rs \<Longrightarrow> list_all rule_ok rs"
proof (induction raws arbitrary: rs)
  case (Cons raw raws)
  from Cons.prems obtain r e rs' where "parse_line X raw = Some (r, e)"
    "decode_history_rules X w ao raws = Some rs'" "rs = r # rs'"
    by (auto split: option.splits if_splits)
  with Cons.IH show ?case by (auto dest: parse_line_ok)
qed simp

lemma all_some_mem: "all_some xs = Some ys \<Longrightarrow> y \<in> set ys \<Longrightarrow> Some y \<in> set xs"
  by (induction xs arbitrary: ys) (auto split: option.splits)

lemma read_history_ok: "read_history X i ao d = Some h \<Longrightarrow> list_all snapshot_ok h"
  by (auto simp: read_history_def decode_snapshot_def list_all_iff snapshot_ok_def split: if_splits option.splits
      dest!: all_some_mem) (auto dest!: decode_rules_ok simp: list_all_iff)

lemma find_mem: "List.find P xs = Some x \<Longrightarrow> x \<in> set xs \<and> P x"
  by (induction xs) (auto split: if_splits)

lemma find_url_source_get:
  assumes "find_url_source i e = Some (s, ob)"
  shows "gm_get (e_objs e) s = Some ob \<and> s \<in> set (e_sources e)"
proof -
  have "(s, ob) \<in> set (List.map_filter (\<lambda>s. map_option (Pair s) (gm_get (e_objs e) s)) (e_sources e))"
    using find_mem [OF assms [unfolded find_url_source_def]] by simp
  then show ?thesis by (force simp: List.map_filter_def)
qed

lemma cur_frames [simp]:
  "cur (e\<lparr>e_objs := x\<rparr>) = cur e" "cur (e\<lparr>e_depth := n\<rparr>) = cur e" "cur (e\<lparr>e_dirty := b\<rparr>) = cur e"
  "cur (e\<lparr>e_changes := b\<rparr>) = cur e" "cur (e\<lparr>e_pending := ps\<rparr>) = cur e" "cur (e\<lparr>e_notified := n\<rparr>) = cur e"
  "cur (e\<lparr>e_idx := ix\<rparr>) = cur e" "cur (e\<lparr>e_generation := n\<rparr>) = cur e" "cur (e\<lparr>e_next := n\<rparr>) = cur e"
  "cur (e\<lparr>e_paused := i\<rparr>) = cur e" "cur (e\<lparr>e_update_ids := u\<rparr>) = cur e"
  "cur (e\<lparr>e_allowed_total := n\<rparr>) = cur e" "cur (e\<lparr>e_blocked_total := n\<rparr>) = cur e"
  by (simp_all add: cur_def)

lemma engine_inv_objs:
  assumes "engine_inv e" and "gm_get (e_objs e) s \<noteq> None" and "list_all snapshot_ok (so_history ob)"
  shows "engine_inv (e\<lparr>e_objs := gm_set s ob (e_objs e)\<rparr>)"
  using assms by (fastforce simp: engine_inv_def objs_ok_set gm_get_set)

lemma inv_history: "engine_inv e \<Longrightarrow> gm_get (e_objs e) s = Some ob \<Longrightarrow> list_all snapshot_ok (so_history ob)"
  by (auto simp: engine_inv_def objs_ok_def)

lemma inv_notified [simp]: "engine_inv (e\<lparr>e_notified := n\<rparr>) = engine_inv e"
  "engine_inv (e\<lparr>e_changes := b\<rparr>) = engine_inv e" "engine_inv (e\<lparr>e_paused := i\<rparr>) = engine_inv e"
  "engine_inv (e\<lparr>e_update_ids := u\<rparr>) = engine_inv e" "engine_inv (e\<lparr>e_allowed_total := n\<rparr>) = engine_inv e"
  "engine_inv (e\<lparr>e_blocked_total := n\<rparr>) = engine_inv e"
  by (simp_all add: engine_inv_def)

text \<open>New rules for known sources: the generation moves, so that no pending build is current.\<close>

lemma inv_publish:
  assumes inv: "engine_inv e" and ok: "rules_ok blk" "rules_ok alw"
    and fresh: "\<And>s. e_next e \<le> s \<Longrightarrow> rules_of blk s = [] \<and> rules_of alw s = []"
  shows "engine_inv (rebuild (e\<lparr>e_block := blk, e_allow := alw, e_generation := Suc (e_generation e)\<rparr>))"
    and "0 < e_depth e \<Longrightarrow>
      engine_inv (e\<lparr>e_block := blk, e_allow := alw, e_generation := Suc (e_generation e), e_dirty := True\<rparr>)"
  using assms by (fastforce simp: engine_inv_def rebuild_def cur_def)+

lemma last_n_all: "list_all P xs \<Longrightarrow> list_all P (last_n n xs)"
  by (simp add: last_n_def list_all_iff) (meson in_set_dropD)

lemma inv_notify [simp]: "engine_inv (notify_change e) = engine_inv e"
  by (simp add: notify_change_def)

lemma inv_publish_rules:
  assumes "engine_inv e" and "s < e_next e" and "list_all rule_ok block" "list_all rule_ok allow"
  shows "engine_inv (publish s block allow e)"
proof -
  have ok: "rules_ok (gm_set s block (e_block e))" "rules_ok (gm_set s allow (e_allow e))"
    using assms by (simp_all add: engine_inv_def rules_ok_set)
  have fresh: "rules_of (gm_set s block (e_block e)) s' = [] \<and> rules_of (gm_set s allow (e_allow e)) s' = []"
    if "e_next e \<le> s'" for s'
    using assms(1,2) that by (simp add: engine_inv_def rules_of_set)
  show ?thesis
    using inv_publish [OF assms(1) ok fresh] by (simp add: publish_def Let_def)
qed

lemma inv_history_grown:
  assumes "engine_inv e" and "gm_get (e_objs e) s = Some ob"
  shows "list_all snapshot_ok (grown_history e s ob b)"
proof -
  have "list_all rule_ok (rules_of (e_block e) s)" "list_all rule_ok (rules_of (e_allow e) s)"
    using assms(1) by (auto simp: engine_inv_def rules_ok_def)
  then show ?thesis
    using inv_history [OF assms] by (auto simp: grown_history_def snapshot_ok_def intro!: last_n_all)
qed

lemma known_source: "engine_inv e \<Longrightarrow> gm_get (e_objs e) s = Some ob \<Longrightarrow> s < e_next e"
  by (rule ccontr) (simp add: engine_inv_def not_less)

lemma inv_set_rules:
  assumes inv: "engine_inv e" and ok: "list_all rule_ok block" "list_all rule_ok allow"
  shows "engine_inv (set_rules_status ck now s block allow err st e)"
proof (cases "gm_get (e_objs e) s")
  case (Some ob)
  have obj: "engine_inv (e\<lparr>e_objs := gm_set s ob' (e_objs e)\<rparr>)" if "list_all snapshot_ok (so_history ob')" for ob'
    using inv Some that by (intro engine_inv_objs) auto
  let ?e1 = "\<lambda>b. e\<lparr>e_objs := gm_set s (loaded_source now (length block) (length allow) (ck block allow) b
      (grown_history e s ob b) st ob) (e_objs e)\<rparr>"
  have e1: "engine_inv (?e1 b)" for b
    using inv_history_grown [OF inv Some] by (intro obj) (simp add: loaded_source_def)
  have e2: "engine_inv (publish s block allow (?e1 b))" for b
    using e1 known_source [OF inv Some] ok by (intro inv_publish_rules) simp_all
  have err: "engine_inv (e\<lparr>e_objs := gm_set s (ob\<lparr>so_last_checked := now, so_last_error := err\<rparr>) (e_objs e)\<rparr>)"
    using inv_history [OF inv Some] by (intro obj) simp
  show ?thesis
    using inv e1 e2 err Some by (simp add: set_rules_status_def Let_def)
qed (simp add: set_rules_status_def inv)

lemma inv_set_error:
  assumes "engine_inv e" shows "engine_inv (set_source_error now s err e)"
proof (cases "gm_get (e_objs e) s")
  case (Some ob)
  then show ?thesis
    using assms inv_history [OF assms Some] by (simp add: set_source_error_def engine_inv_objs)
qed (simp add: set_source_error_def assms)

lemma inv_end_batch:
  assumes "engine_inv e" shows "engine_inv (end_batch e)"
proof -
  consider "e_depth e = 0" | "1 < e_depth e" | "e_depth e = 1" "e_dirty e" | "e_depth e = 1" "\<not> e_dirty e"
    by linarith
  then show ?thesis
  proof cases
    case 3
    with assms show ?thesis by (simp add: end_batch_def engine_inv_def) (simp add: cur_def)
  qed (use assms in \<open>simp_all add: end_batch_def engine_inv_def Let_def\<close>)
qed

lemma engine_invD:
  assumes "engine_inv e"
  shows "rules_ok (e_block e)" "rules_ok (e_allow e)" "objs_ok (e_objs e)"
    "e_next e \<le> s \<Longrightarrow> rules_of (e_block e) s = [] \<and> rules_of (e_allow e) s = []"
    "e_next e \<le> s \<Longrightarrow> gm_get (e_objs e) s = None"
    "b \<in> set (e_pending e) \<Longrightarrow> pb_generation b \<le> e_generation e"
    "b \<in> set (e_pending e) \<Longrightarrow> pb_generation b = e_generation e \<Longrightarrow> pb_indexes b = cur e"
    "e_idx e = cur e \<or> (0 < e_depth e \<and> e_dirty e) \<or> (\<exists>b \<in> set (e_pending e). pb_generation b = e_generation e)"
  using assms unfolding engine_inv_def by blast+

lemma engine_invI:
  assumes "rules_ok (e_block e)" "rules_ok (e_allow e)" "objs_ok (e_objs e)"
    "\<And>s. e_next e \<le> s \<Longrightarrow> rules_of (e_block e) s = [] \<and> rules_of (e_allow e) s = []"
    "\<And>s. e_next e \<le> s \<Longrightarrow> gm_get (e_objs e) s = None"
    "\<And>b. b \<in> set (e_pending e) \<Longrightarrow> pb_generation b \<le> e_generation e"
    "\<And>b. b \<in> set (e_pending e) \<Longrightarrow> pb_generation b = e_generation e \<Longrightarrow> pb_indexes b = cur e"
    "e_idx e = cur e \<or> (0 < e_depth e \<and> e_dirty e) \<or> (\<exists>b \<in> set (e_pending e). pb_generation b = e_generation e)"
  shows "engine_inv e"
  using assms unfolding engine_inv_def by blast

lemma inv_apply_build:
  assumes inv: "engine_inv e" and b: "b \<in> set (e_pending e)"
  shows "engine_inv (apply_build b e)"
proof (rule engine_invI)
  let ?e = "apply_build b e"
  have fr: "e_block ?e = e_block e" "e_allow ?e = e_allow e" "e_objs ?e = e_objs e" "e_next ?e = e_next e"
    "e_generation ?e = e_generation e" "e_depth ?e = e_depth e" "e_dirty ?e = e_dirty e" "cur ?e = cur e"
    "e_pending ?e = remove1 b (e_pending e)"
    by (simp_all add: apply_build_def Let_def)
  have sub: "x \<in> set (e_pending e)" if "x \<in> set (e_pending ?e)" for x
    using that set_remove1_subset by (fastforce simp: fr)
  show "rules_ok (e_block ?e)" "rules_ok (e_allow ?e)" "objs_ok (e_objs ?e)"
    using engine_invD(1-3) [OF inv] by (simp_all add: fr)
  show "rules_of (e_block ?e) s = [] \<and> rules_of (e_allow ?e) s = []" "gm_get (e_objs ?e) s = None"
    if "e_next ?e \<le> s" for s
    using that engine_invD(4,5) [OF inv, of s] by (simp_all add: fr)
  show "pb_generation x \<le> e_generation ?e" if "x \<in> set (e_pending ?e)" for x
    using engine_invD(6) [OF inv sub [OF that]] by (simp add: fr)
  show "pb_indexes x = cur ?e" if "x \<in> set (e_pending ?e)" "pb_generation x = e_generation ?e" for x
    using engine_invD(7) [OF inv sub [OF that(1)]] that(2) by (simp add: fr)
  show "e_idx ?e = cur ?e \<or> (0 < e_depth ?e \<and> e_dirty ?e) \<or> (\<exists>x \<in> set (e_pending ?e). pb_generation x = e_generation ?e)"
  proof (cases "e_generation e = pb_generation b")
    case True
    then have "e_idx ?e = pb_indexes b" by (simp add: apply_build_def Let_def)
    with engine_invD(7) [OF inv b] True show ?thesis by (simp add: fr)
  next
    case False
    then have "e_idx ?e = e_idx e" by (simp add: apply_build_def Let_def)
    moreover have "x \<in> set (e_pending ?e)" if "x \<in> set (e_pending e)" "pb_generation x = e_generation e" for x
      using that False by (metis fr(9) in_set_remove1)
    ultimately show ?thesis using engine_invD(8) [OF inv] by (auto simp: fr)
  qed
qed

lemma snapshot_policy_ok:
  "snapshot_ok sn \<Longrightarrow> snapshot_rules_for_policy sn ao = (b, a) \<Longrightarrow> list_all rule_ok b \<and> list_all rule_ok a"
  by (auto simp: snapshot_rules_for_policy_def snapshot_ok_def split: if_splits)

lemma cur_rebuild [simp]: "cur (rebuild e) = cur e" "e_idx (rebuild e) = cur e"
  by (simp_all add: rebuild_def cur_def)

lemma inv_rollback:
  assumes inv: "engine_inv e"
  shows "engine_inv (snd (rollback_source ck now i e))"
proof (cases "find_url_source i e")
  case (Some so)
  obtain s ob where so: "so = (s, ob)" by (cases so)
  have get: "gm_get (e_objs e) s = Some ob" using find_url_source_get Some so by blast
  note hist = inv_history [OF inv get]
  show ?thesis
  proof (cases "so_history ob = []")
    case True
    with Some so inv show ?thesis by (simp add: rollback_source_def)
  next
    case False
    obtain block allow where pol: "snapshot_rules_for_policy (last (so_history ob)) (so_allow_only ob) = (block, allow)"
      by (meson surj_pair)
    have sn: "snapshot_ok (last (so_history ob))" "list_all snapshot_ok (butlast (so_history ob))"
      using hist False by (auto simp: list_all_iff dest: in_set_butlastD)
    note ok = snapshot_policy_ok [OF sn(1) pol]
    have obj: "engine_inv (e\<lparr>e_objs := gm_set s ob' (e_objs e)\<rparr>)" if "list_all snapshot_ok (so_history ob')" for ob'
      using inv get that by (intro engine_inv_objs) auto
    have pub: "engine_inv (rebuild (e'\<lparr>e_block := gm_set s block (e_block e'), e_allow := gm_set s allow (e_allow e'),
        e_generation := Suc (e_generation e')\<rparr>))" if "engine_inv e'" "s < e_next e'" for e'
      using that ok engine_invD(1,2,4) [OF that(1)]
      by (intro inv_publish(1) [OF that(1)]) (auto simp: rules_of_set rules_ok_set)
    show ?thesis
      using Some so False pol pub [OF obj] sn(2) known_source [OF inv get]
      by (simp add: rollback_source_def Let_def)
  qed
qed (simp add: rollback_source_def inv)

lemma inv_load_history:
  assumes inv: "engine_inv e"
  shows "engine_inv (load_source_history X disk i e)"
proof (cases "find_url_source i e")
  case (Some so)
  obtain s ob where so: "so = (s, ob)" by (cases so)
  have get: "gm_get (e_objs e) s = Some ob" using find_url_source_get Some so by blast
  show ?thesis
  proof (cases "Option.bind (disk i) (read_history X i (so_allow_only ob))")
    case None
    with Some so inv show ?thesis by (simp add: load_source_history_def)
  next
    case (Some h)
    then have "list_all snapshot_ok h" by (auto simp: bind_eq_Some_conv intro: read_history_ok)
    with inv get have "engine_inv (e\<lparr>e_objs := gm_set s (ob\<lparr>so_history := h, so_rollback := length h\<rparr>) (e_objs e)\<rparr>)"
      by (intro engine_inv_objs) auto
    with Some \<open>find_url_source i e = Some so\<close> so show ?thesis by (simp add: load_source_history_def)
  qed
qed (simp add: load_source_history_def inv)

definition replacement_inv :: "engine \<Rightarrow> replacement \<Rightarrow> bool" where
  "replacement_inv e p \<longleftrightarrow> objs_ok (rp_objs p) \<and> e_next e \<le> rp_next p \<and>
     (\<forall>s. rp_next p \<le> s \<longrightarrow> gm_get (rp_objs p) s = None)"

lemma replacement_step:
  assumes "replacement_inv e p" shows "replacement_inv e (replace_step valid p b)"
proof -
  let ?found = "Option.bind (gm_get (rp_reusable p) (sb_id b))
               (\<lambda>s. Option.bind (gm_get (rp_objs p) s)
                      (\<lambda>ob. if source_matches_subscription ob b then Some (s, ob) else None))"
  show ?thesis
  proof (cases ?found)
    case None
    then show ?thesis
      using assms by (auto simp: replace_step_def replacement_inv_def new_url_source_def gm_get_set intro!: objs_ok_set)
  next
    case (Some so)
    obtain s ob where so: "so = (s, ob)" by (cases so)
    then have get: "gm_get (rp_objs p) s = Some ob" using Some by (auto simp: bind_eq_Some_conv split: if_splits)
    then have "s < rp_next p" using assms by (metis leI option.distinct(1) replacement_inv_def)
    moreover have "list_all snapshot_ok (so_history ob)" using assms get by (auto simp: replacement_inv_def objs_ok_def)
    ultimately show ?thesis
      using assms Some so by (auto simp: replace_step_def replacement_inv_def gm_get_set intro!: objs_ok_set)
  qed
qed

lemma replacement_fold:
  "replacement_inv e p \<Longrightarrow> replacement_inv e (foldl (replace_step valid) p bs)"
  by (induction bs arbitrary: p) (auto intro: replacement_step)

lemma inv_replace:
  assumes inv: "engine_inv e"
  shows "engine_inv (replace_url_sources X disk valid subs e)"
proof -
  define p where "p = foldl (replace_step valid)
      \<lparr>rp_kept = filter (\<lambda>s. \<not> is_url_src e s) (e_sources e),
       rp_reusable = foldl (\<lambda>m s. case gm_get (e_objs e) s of
                               Some ob \<Rightarrow> if so_is_url ob \<and> so_id ob \<noteq> [] then gm_set (so_id ob) s m else m
                             | None \<Rightarrow> m) [] (e_sources e),
       rp_objs = e_objs e, rp_next = e_next e, rp_refresh = [], rp_history = []\<rparr> subs"
  have p: "replacement_inv e p"
    unfolding p_def using engine_invD(3,5) [OF inv] by (intro replacement_fold) (simp add: replacement_inv_def)
  define gone where "gone = filter (\<lambda>s. is_url_src e s \<and> s \<notin> set (rp_kept p)) (e_sources e)"
  define e1 where "e1 = rebuild (e\<lparr>e_sources := rp_kept p, e_objs := rp_objs p, e_next := rp_next p,
      e_block := foldl (\<lambda>m s. gm_del s m) (e_block e) gone, e_allow := foldl (\<lambda>m s. gm_del s m) (e_allow e) gone,
      e_generation := Suc (e_generation e)\<rparr>)"
  have e1: "engine_inv e1"
  proof (rule engine_invI)
    show "rules_ok (e_block e1)" "rules_ok (e_allow e1)" "objs_ok (e_objs e1)"
      using engine_invD(1,2) [OF inv] p by (simp_all add: e1_def rebuild_def rules_ok_del replacement_inv_def)
    show "rules_of (e_block e1) s = [] \<and> rules_of (e_allow e1) s = []" "gm_get (e_objs e1) s = None" if "e_next e1 \<le> s" for s
      using that p engine_invD(4) [OF inv, of s]
      by (simp_all add: e1_def rebuild_def replacement_inv_def rules_of_dels_empty)
    show "pb_generation b \<le> e_generation e1" if "b \<in> set (e_pending e1)" for b
      using that engine_invD(6) [OF inv, of b] by (simp add: e1_def rebuild_def)
    show "pb_indexes b = cur e1" if "b \<in> set (e_pending e1)" "pb_generation b = e_generation e1" for b
      using that engine_invD(6) [OF inv, of b] by (simp add: e1_def rebuild_def)
    show "e_idx e1 = cur e1 \<or> (0 < e_depth e1 \<and> e_dirty e1) \<or> (\<exists>b \<in> set (e_pending e1). pb_generation b = e_generation e1)"
      by (simp add: e1_def)
  qed
  have "engine_inv (foldl (\<lambda>e' i. load_source_history X disk i e') e1 is)" for "is"
    using e1 by (induction "is" arbitrary: e1) (auto intro: inv_load_history)
  moreover have "engine_inv (foldl (\<lambda>e' i. request_source_update i e') e2 is)" if "engine_inv e2" for e2 "is"
    using that by (induction "is" arbitrary: e2) (auto simp: request_source_update_def)
  ultimately show ?thesis
    by (simp add: replace_url_sources_def Let_def p_def [symmetric] gone_def [symmetric] e1_def [symmetric])
qed

lemma inv_add_source:
  assumes inv: "engine_inv e"
  shows "engine_inv (add_source (ob\<lparr>so_history := []\<rparr>) e)"
proof -
  let ?e = "add_source (ob\<lparr>so_history := []\<rparr>) e"
  have none: "rules_of (e_block e) (e_next e) = []" "rules_of (e_allow e) (e_next e) = []"
    using engine_invD(4) [OF inv, of "e_next e"] by simp_all
  have cur: "cur ?e = cur e"
    by (simp add: cur_def add_source_def build_rule_indexes_def build_side_def none)
  show ?thesis
  proof (rule engine_invI)
    show "objs_ok (e_objs ?e)"
      using engine_invD(3) [OF inv] by (simp add: add_source_def objs_ok_set)
    show "gm_get (e_objs ?e) s = None" if "e_next ?e \<le> s" for s
      using that engine_invD(5) [OF inv, of s] by (simp add: add_source_def gm_get_set)
    show "rules_of (e_block ?e) s = [] \<and> rules_of (e_allow ?e) s = []" if "e_next ?e \<le> s" for s
      using that engine_invD(4) [OF inv, of s] by (simp add: add_source_def)
    show "pb_indexes b = cur ?e" if "b \<in> set (e_pending ?e)" "pb_generation b = e_generation ?e" for b
      unfolding cur using that engine_invD(7) [OF inv, of b] by (simp add: add_source_def)
    show "e_idx ?e = cur ?e \<or> (0 < e_depth ?e \<and> e_dirty ?e) \<or> (\<exists>b \<in> set (e_pending ?e). pb_generation b = e_generation ?e)"
      unfolding cur using engine_invD(8) [OF inv] by (simp add: add_source_def)
  qed (use engine_invD(1,2,6) [OF inv] in \<open>simp_all add: add_source_def\<close>)
qed

lemma inv_load_source:
  assumes "engine_inv e" shows "engine_inv (load_source X ck now s t st e)"
  using assms parse_rules_ok
  by (auto simp: load_source_def Let_def inv_set_error intro!: inv_set_rules split: option.splits)

lemma inv_begin: "engine_inv e \<Longrightarrow> engine_inv (begin_batch e)"
  by (auto simp: begin_batch_def engine_inv_def)

interpretation filter_sys: invariant_system "filter_step env" engine_inv for env
proof
  fix e x assume inv: "engine_inv e"
  obtain X ck disk valid where env: "env = (X, ck, disk, valid)" by (metis prod_cases4)
  show "engine_inv (filter_step env x e)"
    using inv unfolding env
    by (cases x) (simp_all add: inv_load_source inv_set_rules inv_set_error inv_begin inv_end_batch
        inv_apply_build inv_rollback inv_replace inv_add_source match_domain_def pause_def
        split: option.splits)
qed

lemma new_engine_inv: "engine_inv new_engine"
  by (simp add: engine_inv_def new_engine_def rules_ok_def rules_of_def objs_ok_def cur_def
      build_rule_indexes_def build_side_def)

lemma settled_indexes: "engine_inv e \<Longrightarrow> e_depth e = 0 \<Longrightarrow> e_pending e = [] \<Longrightarrow> e_idx e = cur e"
  by (auto simp: engine_inv_def)

lemma settled_match:
  assumes inv: "engine_inv e" and idx: "e_idx e = cur e"
  shows "first_indexed_match X d (in_allow (e_idx e)) = first_match X d (ordered_rules (e_sources e) (e_allow e))"
    and "first_indexed_match X d (in_block (e_idx e)) = first_match X d (ordered_rules (e_sources e) (e_block e))"
proof -
  have ok: "ru_domain r \<noteq> []" if "rules_ok m" "(s, r) \<in> set (ordered_rules (e_sources e) m)" "ru_kind r = KindDomain" for m s r
    using that by (auto simp: ordered_rules_def rules_ok_def list_all_iff rule_ok_def)
  show "first_indexed_match X d (in_allow (e_idx e)) = first_match X d (ordered_rules (e_sources e) (e_allow e))"
    unfolding idx cur_def build_rule_indexes_def
    using build_side_first [OF ok [OF engine_invD(2) [OF inv]]] by simp
  show "first_indexed_match X d (in_block (e_idx e)) = first_match X d (ordered_rules (e_sources e) (e_block e))"
    unfolding idx cur_def build_rule_indexes_def
    using build_side_first [OF ok [OF engine_invD(1) [OF inv]]] by simp
qed

lemma first_match_None:
  "first_match X d rs = None \<longleftrightarrow> (\<forall>x \<in> set rs. \<not> rule_matches X (snd x) d)"
proof -
  have "set rs = snd ` set (enumerate 0 rs)" by (metis map_snd_enumerate list.set_map)
  then show ?thesis by (force simp: first_match_def find_None_iff)
qed

lemma first_match_Some:
  "first_match X d rs = Some m \<longleftrightarrow>
     (\<exists>i < length rs. m = mk (i, rs ! i) \<and> rule_matches X (snd (rs ! i)) d \<and> (\<forall>j < i. \<not> rule_matches X (snd (rs ! j)) d))"
  by (auto simp: first_match_def find_enumerate)

end
