(* ===== verification/Upstream_Spec.thy ===== *)
theory Upstream_Spec
  imports Dns_Msg
begin

text \<open>
  upstream/parse.go: upstream specifications. Go's net.SplitHostPort and JoinHostPort are modelled;
  taking a URL apart, encoding its query and reading or printing a duration is what the argument
  \<open>url_lib\<close> stands for. A Resolver is determined by its Spec, so the pool keeps specs.
\<close>

section \<open>Host and port\<close>

definition join_host_port :: "string \<Rightarrow> string \<Rightarrow> string" where
  "join_host_port h p = (if CHR '':'' \<in> set h then ''['' @ h @ '']:'' @ p else h @ '':'' @ p)"

definition split_host_port :: "string \<Rightarrow> (string \<times> string) option" where
  "split_host_port s =
     (case cut_last (CHR '':'') s of
        None \<Rightarrow> None
      | Some (h0, port) \<Rightarrow>
          if has_prefix s ''['' then
            (case cut (CHR '']'') (tl s) of
               None \<Rightarrow> None
             | Some (h, rest) \<Rightarrow>
                 if rest = CHR '':'' # port \<and> CHR ''['' \<notin> set h \<and> CHR ''['' \<notin> set port \<and> CHR '']'' \<notin> set port
                 then Some (h, port) else None)
          else if CHR '':'' \<in> set h0 \<or> CHR ''['' \<in> set s \<or> CHR '']'' \<in> set s then None
          else Some (h0, port))"

definition bracket_free :: "string \<Rightarrow> bool" where
  "bracket_free s \<longleftrightarrow> CHR ''['' \<notin> set s \<and> CHR '']'' \<notin> set s"

lemma cut_last_char: "c \<notin> set b \<Longrightarrow> cut_last c (a @ c # b) = Some (a, b)"
  by (simp add: cut_last_def cut_append)

lemma split_join_host_port:
  assumes "bracket_free h" and "bracket_free p" and "CHR '':'' \<notin> set p"
  shows "split_host_port (join_host_port h p) = Some (h, p)"
proof (cases "CHR '':'' \<in> set h")
  case True
  have "cut_last (CHR '':'') (''['' @ h @ '']:'' @ p) = Some (''['' @ h @ '']'', p)"
    using cut_last_char [OF assms(3), of "''['' @ h @ '']''"] by simp
  moreover have "cut (CHR '']'') (h @ '']:'' @ p) = Some (h, CHR '':'' # p)"
    using cut_append [of "CHR '']''" h "CHR '':'' # p"] assms(1) by (simp add: bracket_free_def)
  ultimately show ?thesis
    using True assms by (simp add: join_host_port_def split_host_port_def has_prefix_def bracket_free_def)
next
  case False
  have c: "cut_last (CHR '':'') (h @ CHR '':'' # p) = Some (h, p)"
    using assms(3) by (rule cut_last_char)
  have "\<not> has_prefix (h @ CHR '':'' # p) ''[''"
    using assms(1) by (cases h) (auto simp: has_prefix_def bracket_free_def)
  with c False assms show ?thesis by (simp add: join_host_port_def split_host_port_def bracket_free_def)
qed

section \<open>Specifications\<close>

record upstream =
  sp_scheme :: string
  sp_host :: string
  sp_port :: string
  sp_path :: string
  sp_query :: string
  sp_timeout :: int
  sp_weight :: int
  sp_raw :: string

record url =
  u_scheme :: string
  u_hostname :: string
  u_port :: string
  u_path :: string
  u_query :: "(string \<times> string list) list"

record url_lib =
  url_parse :: "string \<Rightarrow> url option"
  url_encode :: "(string \<times> string list) list \<Rightarrow> string"
  parse_duration :: "string \<Rightarrow> int option"
  show_duration :: "int \<Rightarrow> string"

datatype spec_error =
  EmptySpec | InvalidURL | BadTimeout | BadWeight | BadOptions | BadScheme | MissingHost | BadPort | NeedIPLiteral

definition spec_hostname :: "upstream \<Rightarrow> bool" where
  "spec_hostname s \<longleftrightarrow> parse_ip (sp_host s) = None"

definition timeout_duration :: "upstream \<Rightarrow> int" where
  "timeout_duration s = (if 0 < sp_timeout s then sp_timeout s
     else if sp_scheme s = ''https'' then 20 * second else 5 * second)"

definition selection_weight :: "upstream \<Rightarrow> int" where
  "selection_weight s = (if sp_weight s \<le> 0 then 1 else sp_weight s)"

definition normalized_key :: "upstream \<Rightarrow> string" where
  "normalized_key s =
     sp_scheme s @ ''://'' @ join_host_port (to_lower (trim_suffix (sp_host s) ''.'')) (sp_port s) @
     (if sp_scheme s = ''https'' then sp_path s @ (if sp_query s = [] then [] else ''?'' @ sp_query s) else [])"

definition spec_string :: "url_lib \<Rightarrow> upstream \<Rightarrow> string" where
  "spec_string U s =
     (if sp_raw s \<noteq> [] then sp_raw s
      else
        let base = sp_scheme s @ ''://'' @ join_host_port (sp_host s) (sp_port s) @
              (if sp_scheme s = ''https'' then sp_path s @ (if sp_query s = [] then [] else ''?'' @ sp_query s) else []);
            options = (if 0 < sp_timeout s then [(''timeout'', [show_duration U (sp_timeout s)])] else []) @
                      (if 1 < sp_weight s then [(''weight'', [show_nat (nat (sp_weight s))])] else []);
            encoded = url_encode U options
        in if encoded = [] then base
           else base @ (if CHR ''?'' \<in> set base then ''&'' else ''?'') @ encoded)"

section \<open>Parsing\<close>

definition valid_port :: "string \<Rightarrow> bool" where
  "valid_port p = (case atoi p of None \<Rightarrow> False | Some n \<Rightarrow> 1 \<le> n \<and> n \<le> 65535)"

text \<open>url.Values: Get is the first value or the empty string, Del removes the key.\<close>

definition values_get :: "string \<Rightarrow> (string \<times> string list) list \<Rightarrow> string" where
  "values_get k vs = (case map_of vs k of Some (v # _) \<Rightarrow> v | _ \<Rightarrow> [])"

definition values_del :: "string \<Rightarrow> (string \<times> string list) list \<Rightarrow> (string \<times> string list) list" where
  "values_del k vs = filter (\<lambda>(k', _). k' \<noteq> k) vs"

text \<open>applyResolverOptions: the timeout and weight options leave the query.\<close>

definition apply_resolver_options ::
  "url_lib \<Rightarrow> (string \<times> string list) list \<Rightarrow> upstream \<Rightarrow> spec_error + upstream \<times> (string \<times> string list) list" where
  "apply_resolver_options U options s =
     (let tv = values_get ''timeout'' options
      in case (if tv = [] then Some (s, options)
               else case parse_duration U tv of None \<Rightarrow> None
                    | Some t \<Rightarrow> if t < 250 * millisecond \<or> 60 * second < t then None
                               else Some (s\<lparr>sp_timeout := t\<rparr>, values_del ''timeout'' options)) of
           None \<Rightarrow> Inl BadTimeout
         | Some (s1, options1) \<Rightarrow>
             (let wv = values_get ''weight'' options1
              in if wv = [] then Inr (s1, options1)
                 else case atoi wv of None \<Rightarrow> Inl BadWeight
                      | Some w \<Rightarrow> if w < 1 \<or> 100 < w then Inl BadWeight
                                  else Inr (s1\<lparr>sp_weight := w\<rparr>, values_del ''weight'' options1)))"

definition default_port :: "string \<Rightarrow> upstream \<Rightarrow> upstream" where
  "default_port p s = (if sp_port s = [] then s\<lparr>sp_port := p\<rparr> else s)"

definition apply_resolver_transport ::
  "url_lib \<Rightarrow> url \<Rightarrow> (string \<times> string list) list \<Rightarrow> upstream \<Rightarrow> spec_error + upstream" where
  "apply_resolver_transport U u options s =
     (if sp_scheme s = ''udp'' \<or> sp_scheme s = ''tcp'' then
        (if options \<noteq> [] then Inl BadOptions else Inr (default_port ''53'' s))
      else if sp_scheme s = ''tls'' then
        (if options \<noteq> [] then Inl BadOptions else Inr (default_port ''853'' s))
      else if sp_scheme s = ''https'' then
        Inr ((default_port ''443'' s)\<lparr>sp_path := (if u_path u = [] then ''/dns-query'' else u_path u),
                                       sp_query := url_encode U options\<rparr>)
      else Inl BadScheme)"

definition parse_explicit_spec :: "url_lib \<Rightarrow> string \<Rightarrow> spec_error + upstream" where
  "parse_explicit_spec U raw =
     (case url_parse U raw of
        None \<Rightarrow> Inl InvalidURL
      | Some u \<Rightarrow>
          (case apply_resolver_options U (u_query u)
                  \<lparr>sp_scheme = to_lower (u_scheme u), sp_host = to_lower (trim_suffix (u_hostname u) ''.''),
                   sp_port = u_port u, sp_path = [], sp_query = [], sp_timeout = 0, sp_weight = 0, sp_raw = raw\<rparr> of
             Inl e \<Rightarrow> Inl e
           | Inr (s, options) \<Rightarrow>
               (case apply_resolver_transport U u options s of
                  Inl e \<Rightarrow> Inl e
                | Inr s' \<Rightarrow> if sp_host s' = [] then Inl MissingHost
                           else if \<not> valid_port (sp_port s') then Inl BadPort else Inr s')))"

definition plain_spec :: "string \<Rightarrow> string \<Rightarrow> string \<Rightarrow> upstream" where
  "plain_spec host port raw = \<lparr>sp_scheme = ''udp'', sp_host = host, sp_port = port, sp_path = [], sp_query = [],
     sp_timeout = 0, sp_weight = 0, sp_raw = raw\<rparr>"

definition parse_plain_spec :: "string \<Rightarrow> spec_error + upstream" where
  "parse_plain_spec raw =
     (let normalized = (case cut (CHR ''#'') raw of None \<Rightarrow> raw | Some (h, p) \<Rightarrow> join_host_port h p)
      in case split_host_port normalized of
           None \<Rightarrow> if parse_ip normalized = None then Inl NeedIPLiteral else Inr (plain_spec normalized ''53'' raw)
         | Some (host, port0) \<Rightarrow>
             (if parse_ip host = None then Inl NeedIPLiteral
              else let port = (if port0 = [] then ''53'' else port0)
                   in if valid_port port then Inr (plain_spec host port raw) else Inl BadPort))"

definition parse_spec :: "url_lib \<Rightarrow> string \<Rightarrow> spec_error + upstream" where
  "parse_spec U raw0 =
     (let raw = trim_space raw0
      in if raw = [] then Inl EmptySpec
         else if contains_str raw ''://'' then parse_explicit_spec U raw else parse_plain_spec raw)"

definition normalize_spec :: "url_lib \<Rightarrow> string \<Rightarrow> spec_error + string" where
  "normalize_spec U raw = (case parse_spec U raw of Inl e \<Rightarrow> Inl e | Inr s \<Rightarrow> Inr (normalized_key s))"

definition valid_bootstrap :: "url_lib \<Rightarrow> string \<Rightarrow> bool" where
  "valid_bootstrap U raw = (case parse_spec U raw of Inl _ \<Rightarrow> False
     | Inr s \<Rightarrow> sp_scheme s = ''udp'' \<and> \<not> spec_hostname s)"

text \<open>ValidateBootstrapServers: the position of the first bad entry, counted from one.\<close>

fun validate_bootstrap_servers :: "url_lib \<Rightarrow> nat \<Rightarrow> string list \<Rightarrow> nat option" where
  "validate_bootstrap_servers U i [] = None"
| "validate_bootstrap_servers U i (s # ss) =
     (if valid_bootstrap U s then validate_bootstrap_servers U (Suc i) ss else Some (Suc i))"

text \<open>dialAddrs: an address literal is dialled, a host name through the bootstrap lookup if there is one.\<close>

definition dial_addrs :: "(string \<Rightarrow> string list option) option \<Rightarrow> upstream \<Rightarrow> string list option" where
  "dial_addrs boot s =
     (if \<not> spec_hostname s then Some [join_host_port (sp_host s) (sp_port s)]
      else case boot of None \<Rightarrow> None
           | Some lookup_host \<Rightarrow> map_option (List.map (\<lambda>ip. join_host_port ip (sp_port s))) (lookup_host (sp_host s)))"

section \<open>What a parsed spec is\<close>

text \<open>Every accepted spec has a known scheme, a host, a valid port and options within their bounds.\<close>

definition spec_ok :: "upstream \<Rightarrow> bool" where
  "spec_ok s \<longleftrightarrow> sp_scheme s \<in> {''udp'', ''tcp'', ''tls'', ''https''} \<and> sp_host s \<noteq> [] \<and> valid_port (sp_port s) \<and>
     (sp_timeout s = 0 \<or> 250 * millisecond \<le> sp_timeout s \<and> sp_timeout s \<le> 60 * second) \<and>
     (sp_weight s = 0 \<or> 1 \<le> sp_weight s \<and> sp_weight s \<le> 100)"

lemma valid_port_53: "valid_port ''53''"
  by code_simp

lemma apply_options_ok:
  "apply_resolver_options U options s = Inr (s', options') \<Longrightarrow> sp_timeout s = 0 \<Longrightarrow> sp_weight s = 0 \<Longrightarrow>
   sp_scheme s' = sp_scheme s \<and> sp_host s' = sp_host s \<and>
   (sp_timeout s' = 0 \<or> 250 * millisecond \<le> sp_timeout s' \<and> sp_timeout s' \<le> 60 * second) \<and>
   (sp_weight s' = 0 \<or> 1 \<le> sp_weight s' \<and> sp_weight s' \<le> 100)"
  by (auto simp: apply_resolver_options_def Let_def split: if_splits option.splits)

lemma apply_transport_ok:
  "apply_resolver_transport U u options s = Inr s' \<Longrightarrow>
   sp_scheme s' \<in> {''udp'', ''tcp'', ''tls'', ''https''} \<and> sp_host s' = sp_host s \<and> sp_timeout s' = sp_timeout s \<and>
   sp_weight s' = sp_weight s"
  by (auto simp: apply_resolver_transport_def default_port_def split: if_splits)

lemma parse_explicit_ok: "parse_explicit_spec U raw = Inr s \<Longrightarrow> spec_ok s"
  by (auto simp: parse_explicit_spec_def spec_ok_def dest!: apply_options_ok apply_transport_ok
      split: option.splits sum.splits if_splits)

lemma parse_ip_nonempty: "parse_ip [] = None"
  by (simp add: parse_ip_def parse_addr_def)

lemma parse_plain_ok: "parse_plain_spec raw = Inr s \<Longrightarrow> spec_ok s \<and> \<not> spec_hostname s \<and> sp_scheme s = ''udp''"
  using valid_port_53 parse_ip_nonempty
  by (auto simp: parse_plain_spec_def spec_ok_def plain_spec_def spec_hostname_def Let_def
      split: option.splits if_splits)

lemma parse_spec_ok: "parse_spec U raw = Inr s \<Longrightarrow> spec_ok s"
  by (auto simp: parse_spec_def Let_def dest: parse_explicit_ok parse_plain_ok split: if_splits)

lemma spec_bounds: "spec_ok s \<Longrightarrow> 1 \<le> selection_weight s \<and> selection_weight s \<le> 100 \<and>
    250 * millisecond \<le> timeout_duration s \<and> timeout_duration s \<le> 60 * second"
  by (auto simp: spec_ok_def selection_weight_def timeout_duration_def second_def millisecond_def)

end
