(* ===== verification/Filter_Subscriptions.thy ===== *)
theory Filter_Subscriptions
  imports Filter_Engine Upstream_Spec
begin

text \<open>
  filter/subscriptions.go: the managed list of filter subscriptions, its validation, the bulk and
  refresh operations and the file it is persisted in. Taking a URL apart and printing one are
  arguments (\<open>sub_urls\<close>); Hostname and Port of a URL are modelled. The random id of a new
  subscription, or of a refresh, is an argument, as is the success of a file write.
\<close>

section \<open>Subscription URLs\<close>

record sub_url =
  su_scheme :: string
  su_user :: bool
  su_host :: string
  su_path :: string
  su_fragment :: string
  su_rest :: string  \<comment> \<open>the query and what else String prints\<close>

record sub_urls =
  su_parse :: "string \<Rightarrow> sub_url option"
  su_print :: "sub_url \<Rightarrow> string"

text \<open>net/url: the host and port of a URL's Host.\<close>

definition url_host_port :: "string \<Rightarrow> string \<times> string" where
  "url_host_port hp =
     (let (h, p) = (case cut_last (CHR '':'') hp of
            Some (a, b) \<Rightarrow> if list_all is_digit b then (a, b) else (hp, [])
          | None \<Rightarrow> (hp, []))
      in (if has_prefix h ''['' \<and> has_suffix h '']'' then butlast (tl h) else h, p))"

definition is_v6_literal :: "string \<Rightarrow> bool" where
  "is_v6_literal s = (case parse_addr s of Some (A6 _ _) \<Rightarrow> True | _ \<Rightarrow> False)"

definition normalized_url :: "sub_url \<Rightarrow> sub_url option" where
  "normalized_url u =
     (let (h0, p0) = url_host_port (su_host u); h = to_lower (trim_suffix h0 ''.'');
          scheme = to_lower (su_scheme u);
          p = (if (scheme = ''http'' \<and> p0 = ''80'') \<or> (scheme = ''https'' \<and> p0 = ''443'') then [] else p0)
      in if h = [] then None
         else Some (u\<lparr>su_scheme := scheme,
                      su_host := (if p = [] then if is_v6_literal h then ''['' @ h @ '']'' else h else join_host_port h p),
                      su_path := (if su_path u = [] then ''/'' else su_path u), su_fragment := []\<rparr>))"

definition normalize_subscription_url :: "sub_urls \<Rightarrow> string \<Rightarrow> string option" where
  "normalize_subscription_url U raw =
     (case su_parse U (trim_space raw) of
        None \<Rightarrow> None
      | Some u \<Rightarrow>
          (if (su_scheme u \<noteq> ''http'' \<and> su_scheme u \<noteq> ''https'') \<or> su_host u = [] \<or> su_user u then None
           else map_option (su_print U) (normalized_url u)))"

section \<open>Validation\<close>

definition subscription_document_version :: int where "subscription_document_version = 1"
definition max_subscriptions :: nat where "max_subscriptions = 100"
definition max_subscription_timeout :: int where "max_subscription_timeout = 120"
definition max_subscription_redirects :: int where "max_subscription_redirects = 10"

datatype sub_error =
    TooManySubscriptions | SubNameTooLong nat | SubGenerationTooLong nat | SubBadRefreshAt nat | SubBadURL nat
  | SubDuplicateURL nat nat | SubBadTimeout nat | SubBadRedirects nat | SubDuplicateID string
  | SubBadVersion | SubNoIDs | SubEmptyID | SubUnknownAction | SubNotFound | SubNotSaved | SubNoRandom

text \<open>The loop of validateSubscriptions, with the ids and URLs seen so far.\<close>

fun validate_subs_from ::
  "sub_urls \<Rightarrow> nat \<Rightarrow> string list \<Rightarrow> (string, nat) gomap \<Rightarrow> subscription list \<Rightarrow> sub_error option" where
  "validate_subs_from U i ids urls [] = None"
| "validate_subs_from U i ids urls (b # bs) =
     (if 120 < length (sb_name b) then Some (SubNameTooLong (Suc i))
      else if 64 < length (sb_refresh_generation b) then Some (SubGenerationTooLong (Suc i))
      else if parse_refresh_at (sb_refresh_at b) = None then Some (SubBadRefreshAt (Suc i))
      else case normalize_subscription_url U (sb_url b) of
             None \<Rightarrow> Some (SubBadURL (Suc i))
           | Some u \<Rightarrow>
               (case gm_get urls u of
                  Some j \<Rightarrow> Some (SubDuplicateURL (Suc i) (Suc j))
                | None \<Rightarrow>
                    (if sb_timeout b < 0 \<or> max_subscription_timeout < sb_timeout b then Some (SubBadTimeout (Suc i))
                     else if sb_redirect_limit b < 0 \<or> max_subscription_redirects < sb_redirect_limit b then Some (SubBadRedirects (Suc i))
                     else if sb_id b \<in> set ids then Some (SubDuplicateID (sb_id b))
                     else validate_subs_from U (Suc i) (sb_id b # ids) (gm_set u i urls) bs)))"

definition validate_subscriptions :: "sub_urls \<Rightarrow> subscription list \<Rightarrow> sub_error option" where
  "validate_subscriptions U bs =
     (if max_subscriptions < length bs then Some TooManySubscriptions else validate_subs_from U 0 [] [] bs)"

text \<open>An imported document: items without an id get a provisional one.\<close>

definition validate_document :: "sub_urls \<Rightarrow> int \<Rightarrow> subscription list \<Rightarrow> sub_error option" where
  "validate_document U v bs =
     (if v \<noteq> subscription_document_version then Some SubBadVersion
      else validate_subscriptions U
        (List.map (\<lambda>(i, b). if trim_space (sb_id b) = [] then b\<lparr>sb_id := ''import-'' @ show_nat i\<rparr> else b) (enumerate 0 bs)))"

section \<open>The store\<close>

record sub_store =
  sst_items :: "subscription list"
  sst_file :: "subscription list option"

text \<open>The normal form of one item; \<open>fresh\<close> is the id drawn for one without.\<close>

definition normalize_sub :: "sub_urls \<Rightarrow> string option \<Rightarrow> nat \<Rightarrow> subscription \<Rightarrow> sub_error + subscription" where
  "normalize_sub U fresh i b =
     (case normalize_subscription_url U (sb_url b) of
        None \<Rightarrow> Inl (SubBadURL (Suc i))
      | Some u \<Rightarrow>
          (let b1 = b\<lparr>sb_name := trim_space (sb_name b), sb_url := u, sb_refresh_generation := trim_space (sb_refresh_generation b),
                      sb_refresh_at := trim_space (sb_refresh_at b)\<rparr>
           in if sb_id b = [] then (case fresh of None \<Rightarrow> Inl SubNoRandom | Some x \<Rightarrow> Inr (b1\<lparr>sb_id := x\<rparr>)) else Inr b1))"

fun normalize_subs :: "sub_urls \<Rightarrow> (nat \<Rightarrow> string option) \<Rightarrow> nat \<Rightarrow> subscription list \<Rightarrow> sub_error + subscription list" where
  "normalize_subs U fresh i [] = Inr []"
| "normalize_subs U fresh i (b # bs) =
     (case normalize_sub U (fresh i) i b of
        Inl e \<Rightarrow> Inl e
      | Inr x \<Rightarrow> (case normalize_subs U fresh (Suc i) bs of Inl e \<Rightarrow> Inl e | Inr xs \<Rightarrow> Inr (x # xs)))"

text \<open>replaceLocked: the file first, then the items.\<close>

definition replace_subs ::
  "sub_urls \<Rightarrow> (nat \<Rightarrow> string option) \<Rightarrow> subscription list \<Rightarrow> bool \<Rightarrow> sub_store \<Rightarrow> sub_error option \<times> sub_store" where
  "replace_subs U fresh bs ok s =
     (case normalize_subs U fresh 0 bs of
        Inl e \<Rightarrow> (Some e, s)
      | Inr xs \<Rightarrow>
          (case validate_subscriptions U xs of
             Some e \<Rightarrow> (Some e, s)
           | None \<Rightarrow> if ok then (None, \<lparr>sst_items = xs, sst_file = Some xs\<rparr>) else (Some SubNotSaved, s)))"

definition load_subs :: "sub_urls \<Rightarrow> (nat \<Rightarrow> string option) \<Rightarrow> subscription list \<Rightarrow> bool \<Rightarrow> subscription list option \<Rightarrow> sub_error + sub_store" where
  "load_subs U fresh seeds ok file =
     (case file of
        None \<Rightarrow> (case replace_subs U fresh seeds ok \<lparr>sst_items = seeds, sst_file = None\<rparr> of
                  (Some e, _) \<Rightarrow> Inl e | (None, s) \<Rightarrow> Inr s)
      | Some bs \<Rightarrow> (case validate_subscriptions U bs of Some e \<Rightarrow> Inl e | None \<Rightarrow> Inr \<lparr>sst_items = bs, sst_file = Some bs\<rparr>))"

datatype bulk_action = BulkEnable | BulkDisable | BulkRefresh | BulkDelete | BulkUnknown

definition bulk_item :: "bulk_action \<Rightarrow> string \<Rightarrow> subscription \<Rightarrow> subscription list" where
  "bulk_item a generation b =
     (case a of
        BulkEnable \<Rightarrow> [b\<lparr>sb_enabled := True\<rparr>]
      | BulkDisable \<Rightarrow> [b\<lparr>sb_enabled := False\<rparr>]
      | BulkRefresh \<Rightarrow> [b\<lparr>sb_refresh_generation := generation\<rparr>]
      | _ \<Rightarrow> [])"

definition bulk_subs ::
  "sub_urls \<Rightarrow> (nat \<Rightarrow> string option) \<Rightarrow> bulk_action \<Rightarrow> string option \<Rightarrow> string list \<Rightarrow> bool \<Rightarrow> sub_store \<Rightarrow> sub_error option \<times> sub_store" where
  "bulk_subs U fresh a generation ids0 ok s =
     (let ids = List.map trim_space ids0; hit = (\<lambda>b. sb_id b \<in> set ids)
      in if ids0 = [] then (Some SubNoIDs, s)
         else if [] \<in> set ids then (Some SubEmptyID, s)
         else if a = BulkRefresh \<and> generation = None then (Some SubNoRandom, s)
         else if a = BulkUnknown \<and> list_ex hit (sst_items s) then (Some SubUnknownAction, s)
         else if \<not> set ids \<subseteq> sb_id ` set (sst_items s) then (Some SubNotFound, s)
         else replace_subs U fresh
                (concat (List.map (\<lambda>b. if hit b then bulk_item a (case generation of Some g \<Rightarrow> g | None \<Rightarrow> []) b else [b]) (sst_items s))) ok s)"

text \<open>requestRefresh: one subscription, or all of them for the empty id.\<close>

definition request_refresh ::
  "sub_urls \<Rightarrow> (nat \<Rightarrow> string option) \<Rightarrow> string option \<Rightarrow> string \<Rightarrow> bool \<Rightarrow> sub_store \<Rightarrow> sub_error option \<times> sub_store" where
  "request_refresh U fresh generation i ok s =
     (if i \<noteq> [] \<and> i \<notin> sb_id ` set (sst_items s) then (Some SubNotFound, s)
      else if sst_items s = [] then (None, s)
      else case generation of
             None \<Rightarrow> (Some SubNoRandom, s)
           | Some g \<Rightarrow> replace_subs U fresh
               (List.map (\<lambda>b. if i \<noteq> [] \<and> sb_id b \<noteq> i then b else b\<lparr>sb_refresh_generation := g\<rparr>) (sst_items s)) ok s)"

definition request_source_refresh ::
  "sub_urls \<Rightarrow> (nat \<Rightarrow> string option) \<Rightarrow> string option \<Rightarrow> string \<Rightarrow> bool \<Rightarrow> sub_store \<Rightarrow> sub_error option \<times> sub_store" where
  "request_source_refresh U fresh generation i0 ok s =
     (if trim_space i0 = [] then (Some SubEmptyID, s) else request_refresh U fresh generation (trim_space i0) ok s)"

section \<open>Persistence\<close>

datatype sub_op =
    SReplace "nat \<Rightarrow> string option" "subscription list"
  | SBulk "nat \<Rightarrow> string option" bulk_action "string option" "string list"
  | SRefresh "nat \<Rightarrow> string option" "string option" string

fun sub_step :: "sub_urls \<Rightarrow> sub_op \<Rightarrow> bool \<Rightarrow> sub_store \<Rightarrow> sub_store" where
  "sub_step U (SReplace fresh bs) ok s = snd (replace_subs U fresh bs ok s)"
| "sub_step U (SBulk fresh a g ids) ok s = snd (bulk_subs U fresh a g ids ok s)"
| "sub_step U (SRefresh fresh g i) ok s = snd (request_refresh U fresh g i ok s)"

text \<open>What a file write of the operation would hold.\<close>

fun sub_target :: "sub_op \<Rightarrow> subscription list \<Rightarrow> ((nat \<Rightarrow> string option) \<times> subscription list) option" where
  "sub_target (SReplace fresh bs) items = Some (fresh, bs)"
| "sub_target (SBulk fresh a generation ids0) items =
     (let ids = List.map trim_space ids0; hit = (\<lambda>b. sb_id b \<in> set ids)
      in if ids0 = [] \<or> [] \<in> set ids \<or> (a = BulkRefresh \<and> generation = None) \<or> (a = BulkUnknown \<and> list_ex hit items) \<or>
            \<not> set ids \<subseteq> sb_id ` set items then None
         else Some (fresh, concat (List.map (\<lambda>b. if hit b then bulk_item a (case generation of Some g \<Rightarrow> g | None \<Rightarrow> []) b else [b]) items)))"
| "sub_target (SRefresh fresh generation i) items =
     (if (i \<noteq> [] \<and> i \<notin> sb_id ` set items) \<or> items = [] then None
      else map_option (\<lambda>g. (fresh, List.map (\<lambda>b. if i \<noteq> [] \<and> sb_id b \<noteq> i then b else b\<lparr>sb_refresh_generation := g\<rparr>) items)) generation)"

lemma sub_step_target:
  "sub_step U x ok s = (case sub_target x (sst_items s) of None \<Rightarrow> s | Some (fresh, bs) \<Rightarrow> snd (replace_subs U fresh bs ok s))"
  by (cases x) (auto simp: bulk_subs_def request_refresh_def Let_def split: option.split)

lemma replace_subs_cases:
  "(\<exists>e. replace_subs U fresh bs ok s = (Some e, s)) \<or>
   (\<exists>xs. ok \<and> normalize_subs U fresh 0 bs = Inr xs \<and> validate_subscriptions U xs = None \<and>
      replace_subs U fresh bs ok s = (None, \<lparr>sst_items = xs, sst_file = Some xs\<rparr>))"
  by (auto simp: replace_subs_def split: sum.split option.split)

lemma replace_subs_state:
  "snd (replace_subs U fresh bs ok s) = s \<or>
   (\<exists>xs. ok \<and> validate_subscriptions U xs = None \<and> snd (replace_subs U fresh bs ok s) = \<lparr>sst_items = xs, sst_file = Some xs\<rparr>)"
  using replace_subs_cases [of U fresh bs ok s] by auto

lemma sub_step_state:
  "sub_step U x ok s = s \<or>
   (\<exists>xs. ok \<and> validate_subscriptions U xs = None \<and> sub_step U x ok s = \<lparr>sst_items = xs, sst_file = Some xs\<rparr>)"
proof (cases "sub_target x (sst_items s)")
  case (Some p)
  then show ?thesis using replace_subs_state [of U "fst p" "snd p" ok s] by (simp add: sub_step_target split_beta)
qed (simp add: sub_step_target)

definition sub_mem :: "sub_store \<Rightarrow> subscription list option" where "sub_mem s = Some (sst_items s)"

lemma replace_subs_local: "sst_items s = sst_items t \<Longrightarrow>
    sst_items (snd (replace_subs U fresh bs True s)) = sst_items (snd (replace_subs U fresh bs True t))"
  by (simp add: replace_subs_def split: option.split sum.split)

interpretation subscriptions_durable: durable_store sub_mem sst_file "sub_step U"
proof
  fix s t x
  show "sst_file s = sub_mem s \<Longrightarrow> sst_file (sub_step U x True s) = sub_mem (sub_step U x True s)"
    using sub_step_state [of U x True s] by (auto simp: sub_mem_def)
  show "sst_file s = sub_mem s \<Longrightarrow> sub_mem (sub_step U x False s) = sub_mem s \<and> sst_file (sub_step U x False s) = sst_file s"
    using sub_step_state [of U x False s] by auto
  show "sub_mem s = sub_mem t \<Longrightarrow> sub_mem (sub_step U x True s) = sub_mem (sub_step U x True t)"
    using replace_subs_local [of s t] by (simp add: sub_step_target sub_mem_def split: option.split)
qed

definition subs_ok :: "sub_urls \<Rightarrow> sub_store \<Rightarrow> bool" where
  "subs_ok U s \<longleftrightarrow> validate_subscriptions U (sst_items s) = None"

interpretation subscriptions_valid: invariant_system "\<lambda>xo. sub_step U (fst xo) (snd xo)" "subs_ok U"
proof
  fix s xo
  show "subs_ok U s \<Longrightarrow> subs_ok U (sub_step U (fst xo) (snd xo) s)"
    using sub_step_state [of U "fst xo" "snd xo" s] by (auto simp: subs_ok_def)
qed

text \<open>Items in normal form: replacing them by themselves changes nothing.\<close>

definition normal_sub :: "sub_urls \<Rightarrow> subscription \<Rightarrow> bool" where
  "normal_sub U b \<longleftrightarrow> normalize_subscription_url U (sb_url b) = Some (sb_url b) \<and> sb_id b \<noteq> [] \<and> trim_space (sb_name b) = sb_name b \<and>
     trim_space (sb_refresh_generation b) = sb_refresh_generation b \<and> trim_space (sb_refresh_at b) = sb_refresh_at b"

lemma normalize_normal: "list_all (normal_sub U) bs \<Longrightarrow> normalize_subs U fresh i bs = Inr bs"
  by (induction bs arbitrary: i) (simp_all add: normalize_sub_def normal_sub_def Let_def)

lemma replace_normal:
  "list_all (normal_sub U) bs \<Longrightarrow> validate_subscriptions U bs = None \<Longrightarrow>
   replace_subs U fresh bs ok s = (if ok then (None, \<lparr>sst_items = bs, sst_file = Some bs\<rparr>) else (Some SubNotSaved, s))"
  by (simp add: replace_subs_def normalize_normal)

end
