(* ===== verification/Rewrite_Store.thy ===== *)
theory Rewrite_Store
  imports Dns_Msg
begin

text \<open>
  rewrites/rewrites.go: typed rewrites, their validation, the most-specific lookup, the records
  they answer with, and the store with its file. Whether a write of the file succeeds is an
  argument of each operation, as is the random id a new rewrite would get. The file holds the
  exported fields: the parsed prefixes are recomputed on load.
\<close>

section \<open>Rewrites\<close>

record rewrite =
  rw_id :: string
  rw_domain :: string
  rw_type :: string
  rw_value :: string
  rw_cidrs :: "string list"
  rw_prefixes :: "prefix list"

definition rw_string :: "rewrite \<Rightarrow> string" where
  "rw_string r = (if rw_value r = [] then rw_domain r @ '' '' @ rw_type r
                  else rw_domain r @ '' '' @ rw_type r @ '' '' @ rw_value r)"

definition domain_specificity :: "rewrite \<Rightarrow> string \<Rightarrow> nat \<times> bool" where
  "domain_specificity r d =
     (let base = trim_prefix (rw_domain r) ''*.''
      in if d = base then (length base, \<not> has_prefix (rw_domain r) ''*.'')
         else (length base, has_suffix d (CHR ''.'' # base)))"

definition best_bits :: "addr \<Rightarrow> prefix list \<Rightarrow> int" where
  "best_bits a ps = foldl (\<lambda>b p. if prefix_contains p a \<and> b < int (p_bits p) then int (p_bits p) else b) (-1) ps"

definition source_specificity :: "rewrite \<Rightarrow> addr option \<Rightarrow> int \<times> bool" where
  "source_specificity r a =
     (if rw_prefixes r = [] then (0, rw_cidrs r = [])
      else case a of None \<Rightarrow> (0, False)
           | Some x \<Rightarrow> (let b = best_bits x (rw_prefixes r) in (b, 0 \<le> b)))"

section \<open>Answers\<close>

definition answer_ttl :: u32 where "answer_ttl = 60"

definition parse_uint16 :: "string \<Rightarrow> u16 option" where
  "parse_uint16 s = (case atoi (trim_space s) of None \<Rightarrow> None
     | Some n \<Rightarrow> if n < 0 \<or> 65535 < n then None else Some (word_of_int n))"

definition parse_mx_value :: "string \<Rightarrow> (u16 \<times> string) option" where
  "parse_mx_value v = (case cut (CHR '' '') v of None \<Rightarrow> None
     | Some (p, h) \<Rightarrow> (case parse_uint16 p of None \<Rightarrow> None
         | Some n \<Rightarrow> if trim_space h = [] then None else Some (n, trim_space h)))"

definition parse_srv_value :: "string \<Rightarrow> (u16 \<times> u16 \<times> u16 \<times> string) option" where
  "parse_srv_value v = (case go_fields v of
       [a, b, c, t] \<Rightarrow> (case (parse_uint16 a, parse_uint16 b, parse_uint16 c) of
           (Some x, Some y, Some z) \<Rightarrow> if t = [] then None else Some (x, y, z, t) | _ \<Rightarrow> None)
     | _ \<Rightarrow> None)"

definition answer_rr :: "string \<Rightarrow> u16 \<Rightarrow> rdata \<Rightarrow> rr" where
  "answer_rr name t d = \<lparr>rr_name = name, rr_type = t, rr_class = class_INET, rr_ttl = answer_ttl, rr_data = d\<rparr>"

definition build_rr :: "dns_lib \<Rightarrow> rewrite \<Rightarrow> string \<Rightarrow> u16 \<Rightarrow> rr option" where
  "build_rr L r name q =
     (if rw_type r = ''A'' then
        (if q \<noteq> type_A then None
         else case Option.bind (parse_ip (rw_value r)) to4 of None \<Rightarrow> None
              | Some a \<Rightarrow> Some (answer_rr name type_A (RD_A (Some a))))
      else if rw_type r = ''AAAA'' then
        (if q \<noteq> type_AAAA then None
         else case parse_ip (rw_value r) of None \<Rightarrow> None
              | Some w \<Rightarrow> if to4 w \<noteq> None then None else Some (answer_rr name type_AAAA (RD_AAAA (Some w))))
      else if rw_type r = ''CNAME'' then
        (if q \<noteq> type_A \<and> q \<noteq> type_AAAA \<and> q \<noteq> type_CNAME then None
         else Some (answer_rr name type_CNAME (RD_CNAME (fqdn L (rw_value r)))))
      else if rw_type r = ''PTR'' then
        (if q \<noteq> type_PTR then None else Some (answer_rr name type_PTR (RD_PTR (fqdn L (rw_value r)))))
      else if rw_type r = ''MX'' then
        (if q \<noteq> type_MX then None
         else case parse_mx_value (rw_value r) of None \<Rightarrow> None
              | Some (p, h) \<Rightarrow> Some (answer_rr name type_MX (RD_MX p (fqdn L h))))
      else if rw_type r = ''TXT'' then
        (if q \<noteq> type_TXT then None else Some (answer_rr name type_TXT (RD_TXT [rw_value r])))
      else if rw_type r = ''SRV'' then
        (if q \<noteq> type_SRV then None
         else case parse_srv_value (rw_value r) of None \<Rightarrow> None
              | Some (p, w, po, t) \<Rightarrow> Some (answer_rr name type_SRV (RD_SRV p w po (fqdn L t))))
      else None)"

section \<open>Validation\<close>

datatype rewrite_error =
    BadDomain | NeedIPv4 | NeedIPv6 | NeedTarget | NeedMX | NeedTXT | LongTXT | NeedSRV | BadType
  | TooManyCIDRs | BadCIDR string | SaveFailed | UnreadableFile

definition normalize_rewrite_domain :: "string \<Rightarrow> string" where
  "normalize_rewrite_domain d = trim_suffix (trim_prefix (to_lower (trim_space d)) ''.'') ''.''"

definition bad_base :: "string \<Rightarrow> bool" where
  "bad_base base \<longleftrightarrow> base = [] \<or> CHR ''*'' \<in> set base \<or> has_prefix base ''.'' \<or> contains_str base ''..'' \<or>
     (CHR ''.'' \<notin> set base \<and> base \<noteq> ''localhost'')"

definition value_error :: "string \<Rightarrow> string \<Rightarrow> rewrite_error option" where
  "value_error t v =
     (if t = ''A'' then
        (case parse_ip v of Some w \<Rightarrow> if to4 w = None then Some NeedIPv4 else None | None \<Rightarrow> Some NeedIPv4)
      else if t = ''AAAA'' then
        (case parse_ip v of Some w \<Rightarrow> if to4 w \<noteq> None then Some NeedIPv6 else None | None \<Rightarrow> Some NeedIPv6)
      else if t = ''CNAME'' \<or> t = ''PTR'' then
        (if normalize_rewrite_domain v = [] then Some NeedTarget else None)
      else if t = ''MX'' then (if parse_mx_value v = None then Some NeedMX else None)
      else if t = ''TXT'' then
        (if v = [] then Some NeedTXT else if 255 < length v then Some LongTXT else None)
      else if t = ''SRV'' then (if parse_srv_value v = None then Some NeedSRV else None)
      else if t = ''NXDOMAIN'' \<or> t = ''REFUSED'' \<or> t = ''NOERROR'' then None
      else Some BadType)"

definition validate :: "string \<Rightarrow> string \<Rightarrow> string \<Rightarrow> rewrite_error option" where
  "validate domain t v =
     (let raw = trim_space domain
      in if has_prefix raw ''.'' then Some BadDomain
         else let d = normalize_rewrite_domain raw; base = trim_prefix d ''*.''
              in if bad_base base then Some BadDomain else value_error t v)"

text \<open>The loop over the source CIDRs: normalized spellings and masked prefixes, first of each kept.\<close>

fun prepare_cidrs :: "string list \<Rightarrow> prefix list \<Rightarrow> rewrite_error + prefix list" where
  "prepare_cidrs [] ps = Inr ps"
| "prepare_cidrs (c # cs) ps =
     (case parse_prefix (trim_space c) of
        None \<Rightarrow> Inl (BadCIDR c)
      | Some p \<Rightarrow> if prefix_masked p \<in> set ps then prepare_cidrs cs ps
                  else prepare_cidrs cs (ps @ [prefix_masked p]))"

definition prepare_rewrite :: "string \<Rightarrow> rewrite \<Rightarrow> rewrite_error + rewrite" where
  "prepare_rewrite new_id r =
     (let t = to_upper (trim_space (rw_type r)); v = trim_space (rw_value r)
      in case validate (rw_domain r) t v of
           Some e \<Rightarrow> Inl e
         | None \<Rightarrow>
             if 64 < length (rw_cidrs r) then Inl TooManyCIDRs
             else case prepare_cidrs (rw_cidrs r) [] of
                    Inl e \<Rightarrow> Inl e
                  | Inr ps \<Rightarrow>
                      Inr \<lparr>rw_id = (if rw_id r = [] then new_id else rw_id r),
                           rw_domain = normalize_rewrite_domain (rw_domain r), rw_type = t, rw_value = v,
                           rw_cidrs = List.map prefix_string ps, rw_prefixes = ps\<rparr>)"

section \<open>The store\<close>

text \<open>What the file holds of a rewrite: its exported fields.\<close>

definition strip_prefixes :: "rewrite \<Rightarrow> rewrite" where
  "strip_prefixes r = r\<lparr>rw_prefixes := []\<rparr>"

record rw_store =
  rs_has_path :: bool
  rs_items :: "rewrite list"
  rs_file :: "rewrite list"

text \<open>saveItems: nothing without a path; otherwise the file is replaced, or the write fails.\<close>

definition save_items :: "bool \<Rightarrow> rewrite list \<Rightarrow> rw_store \<Rightarrow> bool \<times> rw_store" where
  "save_items ok items s =
     (if \<not> rs_has_path s then (True, s)
      else if ok then (True, s\<lparr>rs_file := List.map strip_prefixes items\<rparr>) else (False, s))"

fun prepare_all :: "(nat \<Rightarrow> string) \<Rightarrow> nat \<Rightarrow> rewrite list \<Rightarrow> rewrite_error + rewrite list" where
  "prepare_all ids n [] = Inr []"
| "prepare_all ids n (r # rs) =
     (case prepare_rewrite (ids n) r of
        Inl e \<Rightarrow> Inl e
      | Inr p \<Rightarrow> (case prepare_all ids (Suc n) rs of Inl e \<Rightarrow> Inl e | Inr ps \<Rightarrow> Inr (p # ps)))"

text \<open>The seed of a first boot: domain:ip pairs become A rewrites.\<close>

definition seed_pair :: "string \<Rightarrow> string \<Rightarrow> rewrite option" where
  "seed_pair i pair0 =
     (let pair = trim_space pair0
      in if pair = [] then None
         else case cut (CHR '':'') pair of None \<Rightarrow> None
              | Some (d, a) \<Rightarrow>
                  (let domain = normalize_rewrite_domain d; ip = trim_space a
                   in if domain = [] \<or> Option.bind (parse_ip ip) to4 = None then None
                      else Some \<lparr>rw_id = i, rw_domain = domain, rw_type = ''A'', rw_value = ip,
                                 rw_cidrs = [], rw_prefixes = []\<rparr>))"

definition seed_items :: "(nat \<Rightarrow> string) \<Rightarrow> string \<Rightarrow> rewrite list" where
  "seed_items ids s = List.map_filter (\<lambda>(n, p). seed_pair (ids n) p) (enumerate 0 (split_on (CHR '','') s))"

text \<open>
  Load: an existing file wins over the seed; every item of it is prepared again and one bad item,
  or a file that cannot be read or decoded, fails the load.
\<close>

datatype stored = NoFile | BadFile | FileItems "rewrite list"

definition load_store :: "bool \<Rightarrow> stored \<Rightarrow> (nat \<Rightarrow> string) \<Rightarrow> bool \<Rightarrow> string \<Rightarrow> rewrite_error + rw_store" where
  "load_store has_path file ids ok seed =
     (case (if has_path then file else NoFile) of
        FileItems items \<Rightarrow>
          (case prepare_all ids 0 items of Inl e \<Rightarrow> Inl e
           | Inr ps \<Rightarrow> Inr \<lparr>rs_has_path = True, rs_items = ps, rs_file = items\<rparr>)
      | BadFile \<Rightarrow> Inl UnreadableFile
      | NoFile \<Rightarrow>
          (let items = seed_items ids seed;
               s = \<lparr>rs_has_path = has_path, rs_items = items, rs_file = []\<rparr>
           in case save_items ok items s of (True, s') \<Rightarrow> Inr s' | (False, _) \<Rightarrow> Inl SaveFailed))"

subsection \<open>Lookup\<close>

text \<open>The loop of lookup: the matches so far with the best specificities, -1 before the first.\<close>

definition lookup_step ::
  "string \<Rightarrow> addr option \<Rightarrow> bool \<Rightarrow> rewrite list \<times> int \<times> int \<Rightarrow> rewrite \<Rightarrow> rewrite list \<times> int \<times> int" where
  "lookup_step d a filter_source acc r =
     (case acc of (out, bd, bs) \<Rightarrow>
        (case domain_specificity r d of (ds, matches) \<Rightarrow>
           if \<not> matches then acc
           else case (if filter_source then source_specificity r a else (0, True)) of (ss, allowed) \<Rightarrow>
             if \<not> allowed then acc
             else if int ds < bd \<or> (int ds = bd \<and> ss < bs) then acc
             else if bd < int ds \<or> bs < ss then ([r], int ds, ss)
             else (out @ [r], bd, bs)))"

definition lookup :: "string \<Rightarrow> addr option \<Rightarrow> bool \<Rightarrow> rw_store \<Rightarrow> rewrite list" where
  "lookup domain a filter_source s =
     fst (foldl (lookup_step (normalize_rewrite_domain domain) a filter_source) ([], -1, -1) (rs_items s))"

definition lookup_any :: "string \<Rightarrow> rw_store \<Rightarrow> rewrite list" where
  "lookup_any domain s = lookup domain None False s"

definition lookup_for_client :: "string \<Rightarrow> string \<Rightarrow> rw_store \<Rightarrow> rewrite list" where
  "lookup_for_client domain client s =
     lookup domain (map_option unmap (parse_addr (trim_space client))) True s"

subsection \<open>Changes\<close>

definition list_rewrites :: "rw_store \<Rightarrow> rewrite list" where
  "list_rewrites s = sort_key (\<lambda>r. [rw_domain r, rw_type r]) (rs_items s)"

definition replace_rewrites :: "bool \<Rightarrow> (nat \<Rightarrow> string) \<Rightarrow> rewrite list \<Rightarrow> rw_store \<Rightarrow> rewrite_error option \<times> rw_store" where
  "replace_rewrites ok ids items s =
     (case prepare_all ids 0 items of
        Inl e \<Rightarrow> (Some e, s)
      | Inr ps \<Rightarrow> (case save_items ok ps s of
                     (False, s') \<Rightarrow> (Some SaveFailed, s') | (True, s') \<Rightarrow> (None, s'\<lparr>rs_items := ps\<rparr>)))"

definition add_rewrite ::
  "bool \<Rightarrow> string \<Rightarrow> string \<Rightarrow> string \<Rightarrow> string \<Rightarrow> string list \<Rightarrow> rw_store \<Rightarrow> (rewrite_error + rewrite) \<times> rw_store" where
  "add_rewrite ok new_id domain t v cidrs s =
     (case prepare_rewrite new_id \<lparr>rw_id = [], rw_domain = domain, rw_type = t, rw_value = v,
                                   rw_cidrs = cidrs, rw_prefixes = []\<rparr> of
        Inl e \<Rightarrow> (Inl e, s)
      | Inr r \<Rightarrow>
          (let s1 = s\<lparr>rs_items := rs_items s @ [r]\<rparr>
           in case save_items ok (rs_items s1) s1 of
                (True, s2) \<Rightarrow> (Inr r, s2)
              | (False, s2) \<Rightarrow> (Inl SaveFailed, s2\<lparr>rs_items := butlast (rs_items s2)\<rparr>)))"

fun index_of :: "string \<Rightarrow> rewrite list \<Rightarrow> nat option" where
  "index_of i [] = None"
| "index_of i (r # rs) = (if rw_id r = i then Some 0 else map_option Suc (index_of i rs))"

definition update_rewrite ::
  "bool \<Rightarrow> string \<Rightarrow> string \<Rightarrow> string \<Rightarrow> string \<Rightarrow> string \<Rightarrow> string list \<Rightarrow> rw_store \<Rightarrow>
    (rewrite_error + rewrite option) \<times> rw_store" where
  "update_rewrite ok new_id i domain t v cidrs s =
     (case prepare_rewrite new_id \<lparr>rw_id = i, rw_domain = domain, rw_type = t, rw_value = v,
                                   rw_cidrs = cidrs, rw_prefixes = []\<rparr> of
        Inl e \<Rightarrow> (Inl e, s)
      | Inr r \<Rightarrow>
          (case index_of i (rs_items s) of
             None \<Rightarrow> (Inr None, s)
           | Some n \<Rightarrow>
               (let items = (rs_items s)[n := r]
                in case save_items ok items s of
                     (False, s') \<Rightarrow> (Inl SaveFailed, s')
                   | (True, s') \<Rightarrow> (Inr (Some r), s'\<lparr>rs_items := items\<rparr>))))"

definition delete_rewrite :: "bool \<Rightarrow> string \<Rightarrow> rw_store \<Rightarrow> (bool \<times> rewrite_error option) \<times> rw_store" where
  "delete_rewrite ok i s =
     (case index_of i (rs_items s) of
        None \<Rightarrow> ((False, None), s)
      | Some n \<Rightarrow>
          (let removed = rs_items s ! n;
               s1 = s\<lparr>rs_items := take n (rs_items s) @ drop (Suc n) (rs_items s)\<rparr>
           in case save_items ok (rs_items s1) s1 of
                (True, s2) \<Rightarrow> ((True, None), s2)
              | (False, s2) \<Rightarrow>
                  (let j = (if length (rs_items s2) < n then length (rs_items s2) else n)
                   in ((True, Some SaveFailed),
                       s2\<lparr>rs_items := take j (rs_items s2) @ removed # drop j (rs_items s2)\<rparr>))))"

section \<open>Specificities\<close>

text \<open>A domain specificity, then a source specificity, ordered lexicographically.\<close>

datatype spec = Spec int int

instantiation spec :: linorder
begin

fun less_eq_spec :: "spec \<Rightarrow> spec \<Rightarrow> bool" where
  "less_eq_spec (Spec a b) (Spec c d) \<longleftrightarrow> a < c \<or> (a = c \<and> b \<le> d)"

fun less_spec :: "spec \<Rightarrow> spec \<Rightarrow> bool" where
  "less_spec (Spec a b) (Spec c d) \<longleftrightarrow> a < c \<or> (a = c \<and> b < d)"

instance
proof
  fix x y z :: spec
  show "x < y \<longleftrightarrow> x \<le> y \<and> \<not> y \<le> x" by (cases x; cases y) auto
  show "x \<le> x" by (cases x) simp
  show "x \<le> y \<Longrightarrow> y \<le> z \<Longrightarrow> x \<le> z" by (cases x; cases y; cases z) auto
  show "x \<le> y \<Longrightarrow> y \<le> x \<Longrightarrow> x = y" by (cases x; cases y) auto
  show "x \<le> y \<or> y \<le> x" by (cases x; cases y) auto
qed

end

text \<open>
  What a rewrite applies to, stated without the loops: the name is the base or lies below it (a
  wildcard: strictly below), and the client is inside one of the source prefixes, if there are any.
\<close>

definition rw_base :: "rewrite \<Rightarrow> string" where
  "rw_base r = trim_prefix (rw_domain r) ''*.''"

definition source_bits :: "rewrite \<Rightarrow> addr option \<Rightarrow> nat set" where
  "source_bits r a = {p_bits p | p. p \<in> set (rw_prefixes r) \<and> (\<exists>x. a = Some x \<and> prefix_contains p x)}"

definition applies :: "string \<Rightarrow> addr option \<Rightarrow> bool \<Rightarrow> rewrite \<Rightarrow> bool" where
  "applies d a fs r \<longleftrightarrow>
     covers (rw_base r) d \<and> (if has_prefix (rw_domain r) ''*.'' then d \<noteq> rw_base r else True) \<and>
     (if fs then (if rw_prefixes r = [] then rw_cidrs r = [] else source_bits r a \<noteq> {}) else True)"

definition rank :: "addr option \<Rightarrow> bool \<Rightarrow> rewrite \<Rightarrow> spec" where
  "rank a fs r = Spec (int (length (rw_base r)))
     (if fs \<and> rw_prefixes r \<noteq> [] then int (Max (source_bits r a)) else 0)"

text \<open>The rewrites that apply and that no other applying rewrite outranks, in store order.\<close>

definition most_specific :: "string \<Rightarrow> addr option \<Rightarrow> bool \<Rightarrow> rewrite list \<Rightarrow> rewrite list" where
  "most_specific d a fs rs =
     filter (\<lambda>r. applies d a fs r \<and> (\<forall>r' \<in> {r' \<in> set rs. applies d a fs r'}. rank a fs r' \<le> rank a fs r)) rs"

lemma best_bits_acc:
  "foldl (\<lambda>b p. if prefix_contains p a \<and> b < int (p_bits p) then int (p_bits p) else b) b0 ps =
   Max (insert b0 (set (List.map (\<lambda>p. int (p_bits p)) (filter (\<lambda>p. prefix_contains p a) ps))))"
proof (induction ps arbitrary: b0)
  case (Cons p ps)
  let ?S = "set (List.map (\<lambda>p. int (p_bits p)) (filter (\<lambda>p. prefix_contains p a) ps))"
  have "Max (insert b0 (insert c ?S)) = Max (insert (max b0 c) ?S)" for c
    by (cases "?S = {}") (simp_all add: max.assoc)
  with Cons show ?case by (simp add: max_def)
qed simp

lemma source_bits_list:
  "source_bits r (Some x) = set (List.map p_bits (filter (\<lambda>p. prefix_contains p x) (rw_prefixes r)))"
  by (auto simp: source_bits_def)

lemma best_bits_Max:
  "best_bits x (rw_prefixes r) = (if source_bits r (Some x) = {} then -1 else int (Max (source_bits r (Some x))))"
proof -
  define qs where "qs = filter (\<lambda>p. prefix_contains p x) (rw_prefixes r)"
  have "Max (insert (-1) (set (List.map (\<lambda>p. int (p_bits p)) qs))) =
      (if qs = [] then -1 else int (Max (set (List.map p_bits qs))))"
  proof (induction qs)
    case (Cons q qs)
    then show ?case
      by (cases "qs = []") (simp_all add: insert_commute [of "-1"] max_def)
  qed simp
  then show ?thesis
    by (simp add: best_bits_def best_bits_acc source_bits_list qs_def filter_empty_conv)
qed

lemma domain_specificity_eq:
  "domain_specificity r d =
     (length (rw_base r), covers (rw_base r) d \<and> (if has_prefix (rw_domain r) ''*.'' then d \<noteq> rw_base r else True))"
  by (auto simp: domain_specificity_def Let_def rw_base_def covers_def has_suffix_iff)

lemma source_specificity_eq:
  "snd (source_specificity r a) = (if rw_prefixes r = [] then rw_cidrs r = [] else source_bits r a \<noteq> {})"
  "rw_prefixes r \<noteq> [] \<Longrightarrow> source_bits r a \<noteq> {} \<Longrightarrow> fst (source_specificity r a) = int (Max (source_bits r a))"
  "rw_prefixes r = [] \<Longrightarrow> fst (source_specificity r a) = 0"
  by (cases a; simp add: source_specificity_def Let_def best_bits_Max source_bits_def [of r None])+

lemma lookup_step_cases:
  assumes "domain_specificity r d = (ds, m)" and "(if fs then source_specificity r a else (0, True)) = (ss, ok)"
  shows "lookup_step d a fs (out, bd, bs) r =
     (if \<not> (m \<and> ok) \<or> Spec (int ds) ss < Spec bd bs then (out, bd, bs)
      else if Spec bd bs < Spec (int ds) ss then ([r], int ds, ss) else (out @ [r], bd, bs))"
  using assms by (auto simp: lookup_step_def)

lemma source_rank:
  "\<exists>ss ok. (if fs then source_specificity r a else (0, True)) = (ss, ok) \<and>
     ok = (if fs then (if rw_prefixes r = [] then rw_cidrs r = [] else source_bits r a \<noteq> {}) else True) \<and>
     (ok \<longrightarrow> ss = (if fs \<and> rw_prefixes r \<noteq> [] then int (Max (source_bits r a)) else 0))"
  using source_specificity_eq [of r a] by (cases "source_specificity r a") auto

lemma lookup_step_eq:
  "lookup_step d a fs (out, bd, bs) r =
     (if \<not> applies d a fs r \<or> rank a fs r < Spec bd bs then (out, bd, bs)
      else if Spec bd bs < rank a fs r then
        ([r], int (length (rw_base r)), case rank a fs r of Spec _ s \<Rightarrow> s)
      else (out @ [r], bd, bs))"
proof -
  obtain ss ok where so: "(if fs then source_specificity r a else (0, True)) = (ss, ok)"
    and ok: "ok = (if fs then (if rw_prefixes r = [] then rw_cidrs r = [] else source_bits r a \<noteq> {}) else True)"
    and ss: "ok \<Longrightarrow> rank a fs r = Spec (int (length (rw_base r))) ss"
    using source_rank [of fs r a] unfolding rank_def by blast
  show ?thesis
    unfolding lookup_step_cases [OF domain_specificity_eq so] applies_def ok [symmetric]
    using ss by (cases ok) simp_all
qed

text \<open>The loop keeps, of what it has seen, the rewrites of the greatest rank.\<close>

lemma lookup_loop:
  "foldl (lookup_step d a fs) ([], -1, -1) rs = (out, bd, bs) \<Longrightarrow>
     out = filter (\<lambda>r. applies d a fs r \<and> rank a fs r = Spec bd bs) rs \<and>
     (\<forall>r \<in> set rs. applies d a fs r \<longrightarrow> rank a fs r \<le> Spec bd bs) \<and> (out = [] \<longrightarrow> bd = -1)"
proof (induction rs arbitrary: out bd bs rule: rev_induct)
  case (snoc r rs out' bd' bs')
  obtain out bd bs where acc: "foldl (lookup_step d a fs) ([], -1, -1) rs = (out, bd, bs)"
    by (cases "foldl (lookup_step d a fs) ([], -1, -1) rs")
  note IH = snoc.IH [OF acc]
  have out: "out = filter (\<lambda>r. applies d a fs r \<and> rank a fs r = Spec bd bs) rs"
    by (rule IH [THEN conjunct1])
  have le: "\<And>r. r \<in> set rs \<Longrightarrow> applies d a fs r \<Longrightarrow> rank a fs r \<le> Spec bd bs"
    using IH by blast
  have empty: "out = [] \<longrightarrow> bd = -1"
    using IH by blast
  have step: "lookup_step d a fs (out, bd, bs) r = (out', bd', bs')"
    using snoc.prems by (simp add: acc)
  obtain k s where k: "rank a fs r = Spec k s" and k0: "k = int (length (rw_base r))"
    by (simp add: rank_def)
  consider "\<not> applies d a fs r \<or> Spec k s < Spec bd bs" | "applies d a fs r" "Spec k s = Spec bd bs"
    | "applies d a fs r" "Spec bd bs < Spec k s"
    by (cases rule: linorder_cases [of "Spec k s" "Spec bd bs"]) auto
  then show ?case
  proof cases
    case 1
    then have "out' = out" "bd' = bd" "bs' = bs" using step k by (auto simp: lookup_step_eq split: if_splits)
    then have e: "out' = out" "bd' = bd" "bs' = bs" by simp_all
    from 1 k have "\<not> (applies d a fs r \<and> rank a fs r = Spec bd bs)" "applies d a fs r \<longrightarrow> rank a fs r \<le> Spec bd bs"
      by auto
    then have "filter (\<lambda>r. applies d a fs r \<and> rank a fs r = Spec bd bs) [r] = []"
      "\<forall>q \<in> set (rs @ [r]). applies d a fs q \<longrightarrow> rank a fs q \<le> Spec bd bs"
      using le by auto
    with out empty show ?thesis unfolding e filter_append by (metis append_Nil2)
  next
    case 2
    with k have rk: "rank a fs r = Spec bd bs" by simp
    with 2(1) step have e: "out @ [r] = out'" "bd' = bd" "bs' = bs" by (simp_all add: lookup_step_eq)
    show ?thesis unfolding e(2,3) e(1) [symmetric] using rk 2(1) le by (simp add: out)
  next
    case 3
    have "filter (\<lambda>r. applies d a fs r \<and> rank a fs r = Spec k s) rs = []"
      using le 3(2) by (force simp: filter_empty_conv)
    moreover have "rank a fs q \<le> Spec k s" if "q \<in> set rs" "applies d a fs q" for q
      using le [OF that] 3(2) by (rule order_trans [OF _ less_imp_le])
    moreover have "out' = [r]" "bd' = k" "bs' = s"
      using 3 step k k0 by (auto simp: lookup_step_eq split: if_splits)
    ultimately show ?thesis using 3 k by auto
  qed
qed simp

lemma lookup_eq: "lookup domain a fs s = most_specific (normalize_rewrite_domain domain) a fs (rs_items s)"
proof -
  let ?d = "normalize_rewrite_domain domain" and ?rs = "rs_items s"
  obtain out bd bs where acc: "foldl (lookup_step ?d a fs) ([], -1, -1) ?rs = (out, bd, bs)"
    by (cases "foldl (lookup_step ?d a fs) ([], -1, -1) ?rs")
  note loop = lookup_loop [OF acc]
  have out: "out = filter (\<lambda>r. applies ?d a fs r \<and> rank a fs r = Spec bd bs) ?rs"
    by (rule loop [THEN conjunct1])
  have le: "\<And>r. r \<in> set ?rs \<Longrightarrow> applies ?d a fs r \<Longrightarrow> rank a fs r \<le> Spec bd bs"
    using loop by blast
  have empty: "out = [] \<Longrightarrow> bd = -1"
    using loop by blast
  have top: "rank a fs r = Spec bd bs \<longleftrightarrow>
      (\<forall>r' \<in> {r' \<in> set ?rs. applies ?d a fs r'}. rank a fs r' \<le> rank a fs r)"
    if r: "r \<in> set ?rs" "applies ?d a fs r" for r
  proof
    assume "rank a fs r = Spec bd bs"
    with le show "\<forall>r' \<in> {r' \<in> set ?rs. applies ?d a fs r'}. rank a fs r' \<le> rank a fs r" by simp
  next
    assume all: "\<forall>r' \<in> {r' \<in> set ?rs. applies ?d a fs r'}. rank a fs r' \<le> rank a fs r"
    have "out \<noteq> []"
    proof
      assume "out = []"
      with empty le [OF r] have "rank a fs r \<le> Spec (-1) bs" by simp
      then show False by (simp add: rank_def split: if_splits)
    qed
    then obtain q where "q \<in> set out" by (cases out) auto
    then have "q \<in> set ?rs" "applies ?d a fs q" "rank a fs q = Spec bd bs" unfolding out by simp_all
    with all have "Spec bd bs \<le> rank a fs r" by force
    with le [OF r] show "rank a fs r = Spec bd bs" by (rule antisym)
  qed
  have "out = most_specific ?d a fs ?rs"
    unfolding out most_specific_def using top by (intro filter_cong) blast+
  then show ?thesis by (simp add: lookup_def acc)
qed

section \<open>Persistence\<close>

datatype rw_op =
    RAdd string string string string "string list"
  | RUpdate string string string string string "string list"
  | RDelete string
  | RReplace "nat \<Rightarrow> string" "rewrite list"

primrec rw_step :: "rw_op \<Rightarrow> bool \<Rightarrow> rw_store \<Rightarrow> rw_store" where
  "rw_step (RAdd i d t v cs) ok s = snd (add_rewrite ok i d t v cs s)"
| "rw_step (RUpdate n i d t v cs) ok s = snd (update_rewrite ok n i d t v cs s)"
| "rw_step (RDelete i) ok s = snd (delete_rewrite ok i s)"
| "rw_step (RReplace ids items) ok s = snd (replace_rewrites ok ids items s)"

definition rw_mem :: "rw_store \<Rightarrow> rewrite list option" where
  "rw_mem s = (if rs_has_path s then Some (List.map strip_prefixes (rs_items s)) else None)"

definition rw_disk :: "rw_store \<Rightarrow> rewrite list option" where
  "rw_disk s = (if rs_has_path s then Some (rs_file s) else None)"

lemma save_items_cases:
  "save_items ok items s =
     (if rs_has_path s then (ok, if ok then s\<lparr>rs_file := List.map strip_prefixes items\<rparr> else s) else (True, s))"
  by (simp add: save_items_def)

lemma index_of_strip: "index_of i (List.map strip_prefixes rs) = index_of i rs"
  by (induction rs) (auto simp: strip_prefixes_def)

lemma index_of_less: "index_of i rs = Some n \<Longrightarrow> n < length rs \<and> rw_id (rs ! n) = i"
  by (induction rs arbitrary: n) (auto split: if_splits)

lemma index_of_None: "index_of i rs = None \<longleftrightarrow> i \<notin> rw_id ` set rs"
  by (induction rs) auto

text \<open>What a successful change does to the items.\<close>

primrec rw_apply :: "rw_op \<Rightarrow> rewrite list \<Rightarrow> rewrite list" where
  "rw_apply (RAdd i d t v cs) rs =
     (case prepare_rewrite i \<lparr>rw_id = [], rw_domain = d, rw_type = t, rw_value = v, rw_cidrs = cs, rw_prefixes = []\<rparr> of
        Inl _ \<Rightarrow> rs | Inr r \<Rightarrow> rs @ [r])"
| "rw_apply (RUpdate n i d t v cs) rs =
     (case prepare_rewrite n \<lparr>rw_id = i, rw_domain = d, rw_type = t, rw_value = v, rw_cidrs = cs, rw_prefixes = []\<rparr> of
        Inl _ \<Rightarrow> rs | Inr r \<Rightarrow> (case index_of i rs of None \<Rightarrow> rs | Some k \<Rightarrow> rs[k := r]))"
| "rw_apply (RDelete i) rs = (case index_of i rs of None \<Rightarrow> rs | Some k \<Rightarrow> take k rs @ drop (Suc k) rs)"
| "rw_apply (RReplace ids items) rs = (case prepare_all ids 0 items of Inl _ \<Rightarrow> rs | Inr ps \<Rightarrow> ps)"

lemma rw_step_path [simp]: "rs_has_path (rw_step x ok s) = rs_has_path s"
  by (cases x) (auto simp: add_rewrite_def update_rewrite_def delete_rewrite_def replace_rewrites_def
      save_items_cases Let_def split: sum.split option.split)

lemma rw_step_items:
  "rs_items (rw_step x ok s) = (if ok \<or> \<not> rs_has_path s then rw_apply x (rs_items s) else rs_items s)"
proof (cases x)
  case (RDelete i)
  show ?thesis
    by (auto simp: RDelete delete_rewrite_def save_items_cases Let_def id_take_nth_drop [symmetric]
        dest: index_of_less split: option.split)
qed (auto simp: add_rewrite_def update_rewrite_def replace_rewrites_def save_items_cases Let_def
      split: sum.split option.split)

lemma rw_step_file:
  "rs_file (rw_step x ok s) = rs_file s \<or>
   ok \<and> rs_has_path s \<and> rs_file (rw_step x ok s) = List.map strip_prefixes (rs_items (rw_step x ok s))"
  by (cases x) (auto simp: add_rewrite_def update_rewrite_def delete_rewrite_def replace_rewrites_def
      save_items_cases Let_def split: sum.split option.split)

lemma rw_step_unchanged:
  "ok \<Longrightarrow> rs_has_path s \<Longrightarrow> rs_file (rw_step x ok s) \<noteq> List.map strip_prefixes (rs_items (rw_step x ok s)) \<Longrightarrow>
   rs_items (rw_step x ok s) = rs_items s \<and> rs_file (rw_step x ok s) = rs_file s"
  by (cases x) (auto simp: add_rewrite_def update_rewrite_def delete_rewrite_def replace_rewrites_def
      save_items_cases Let_def split: sum.splits option.splits)

lemma map_strip_apply:
  "List.map strip_prefixes (rw_apply x rs) = List.map strip_prefixes (rw_apply x rs')"
  if "List.map strip_prefixes rs = List.map strip_prefixes rs'"
proof -
  have idx: "index_of i rs = index_of i rs'" for i
    using that index_of_strip by metis
  show ?thesis
    by (cases x) (auto simp: that idx map_update take_map [symmetric] drop_map [symmetric] split: sum.split option.split)
qed

interpretation rewrite_persistence: durable_store rw_mem rw_disk rw_step
proof
  fix s t :: rw_store and x
  show "rw_disk (rw_step x True s) = rw_mem (rw_step x True s)" if "rw_disk s = rw_mem s"
    using that rw_step_unchanged [of True s x] unfolding rw_disk_def rw_mem_def rw_step_path
    by (metis option.inject)
  show "rw_mem (rw_step x False s) = rw_mem s \<and> rw_disk (rw_step x False s) = rw_disk s" if "rw_disk s = rw_mem s"
    using that rw_step_file [of x False s] by (auto simp: rw_disk_def rw_mem_def rw_step_items)
  show "rw_mem (rw_step x True s) = rw_mem (rw_step x True t)" if "rw_mem s = rw_mem t"
    using that map_strip_apply [of "rs_items s" "rs_items t" x] by (auto simp: rw_mem_def rw_step_items split: if_splits)
qed

section \<open>Reading the file back\<close>

lemma trim_right_idem: "trim_right P (trim_right P s) = trim_right P s"
  by (simp add: trim_right_def dropWhile_idem)

lemma prepare_cidrs_out:
  "prepare_cidrs cs ps = Inr qs \<Longrightarrow> distinct ps \<Longrightarrow>
   distinct qs \<and> length qs \<le> length ps + length cs \<and> set qs \<subseteq> set ps \<union> range prefix_masked"
proof (induction cs arbitrary: ps)
  case (Cons c cs)
  then obtain p where p: "parse_prefix (trim_space c) = Some p" by (auto split: option.splits)
  show ?case
  proof (cases "prefix_masked p \<in> set ps")
    case True
    with Cons.prems p Cons.IH [of ps] show ?thesis by auto
  next
    case False
    with Cons.prems p Cons.IH [of "ps @ [prefix_masked p]"] show ?thesis by auto
  qed
qed auto

lemma prefix_masked_idem: "prefix_masked (prefix_masked p) = prefix_masked p"
  by (auto simp: prefix_masked_def mask_bits_def drop_push_drop split: addr.splits)

lemma atoi_show_nat: "n < 2 ^ 63 \<Longrightarrow> atoi (show_nat n) = Some (int n)"
proof -
  assume n: "n < 2 ^ 63"
  have "int n < 2 ^ 63" using n by (metis of_nat_less_iff of_nat_numeral of_nat_power)
  moreover have "\<not> has_prefix (show_nat n) ''-''" "\<not> has_prefix (show_nat n) ''+''"
    using show_nat_chars [of "hd (show_nat n)" n] show_nat_digits [of n]
    by (cases "show_nat n"; auto simp: has_prefix_def is_digit_def all_digits_def)+
  ultimately show ?thesis using show_nat_digits [of n] by (simp add: atoi_def Let_def)
qed

lemma cut_last_append: "c \<notin> set b \<Longrightarrow> cut_last c (a @ c # b) = Some (a, b)"
  by (simp add: cut_last_def cut_append)

lemma show_nat_hd_digit: "1 < length (show_nat n) \<Longrightarrow> \<not> (hd (show_nat n) < CHR ''1'') \<and> \<not> CHR ''9'' < hd (show_nat n)"
proof -
  assume l: "1 < length (show_nat n)"
  then have "n \<noteq> 0" by (metis One_nat_def length_Cons less_irrefl list.size(3) show_nat_0)
  then have ne: "hd (show_nat n) \<noteq> CHR ''0''" by (simp add: show_nat_hd)
  have "is_digit (hd (show_nat n))" using l by (intro show_nat_chars [of _ n]) (cases "show_nat n"; simp)
  moreover have "of_char (hd (show_nat n)) \<noteq> (48::nat)"
  proof
    assume "of_char (hd (show_nat n)) = (48::nat)"
    then have "char_of (of_char (hd (show_nat n)) :: nat) = (char_of (48::nat) :: char)" by simp
    moreover have "char_of (48::nat) = CHR ''0''" by code_simp
    ultimately show False using ne by simp
  qed
  ultimately show ?thesis
    by (auto simp: is_digit_def less_char_def not_less)
qed

definition prefix4 :: "prefix \<Rightarrow> bool" where
  "prefix4 p \<longleftrightarrow> (case p_addr p of A4 _ \<Rightarrow> p_bits p \<le> 32 | A6 _ _ \<Rightarrow> False)"

lemma parse_addr_v4_string: "parse_addr (v4_string a) = Some (A4 a)"
proof -
  have f: "filter (\<lambda>c. c = CHR ''.'' \<or> c = CHR '':'' \<or> c = CHR ''%'') (show_nat n) = []" for n
    by (rule filter_digits) (auto dest: show_nat_chars)
  have "filter (\<lambda>c. c = CHR ''.'' \<or> c = CHR '':'' \<or> c = CHR ''%'') (v4_string a) = ''...''"
    by (simp add: v4_string_def f)
  then show ?thesis by (simp add: parse_addr_def)
qed

lemma parse_prefix_string: "prefix4 p \<Longrightarrow> parse_prefix (prefix_string p) = Some p"
proof -
  assume p4: "prefix4 p"
  then obtain x where x: "p_addr p = A4 x" and b: "p_bits p \<le> 32"
    by (auto simp: prefix4_def split: addr.splits)
  have "CHR ''/'' \<notin> set (show_nat (p_bits p))"
    using show_nat_chars [of "CHR ''/''" "p_bits p"] by (auto simp: is_digit_def)
  then have cut: "cut_last (CHR ''/'') (prefix_string p) = Some (v4_string x, show_nat (p_bits p))"
    using cut_last_append by (simp add: prefix_string_def addr_string_def x)
  have n: "atoi (show_nat (p_bits p)) = Some (int (p_bits p))"
    using b by (intro atoi_show_nat) simp
  have "\<not> (1 < length (show_nat (p_bits p)) \<and> (hd (show_nat (p_bits p)) < CHR ''1'' \<or> CHR ''9'' < hd (show_nat (p_bits p))))"
    using show_nat_hd_digit by blast
  then show ?thesis
    using b x by (simp only: parse_prefix_def cut n parse_addr_v4_string option.case prod.case if_False) simp
qed

lemma trim_space_clean: "s \<noteq> [] \<Longrightarrow> \<not> is_space (hd s) \<Longrightarrow> \<not> is_space (last s) \<Longrightarrow> trim_space s = s"
proof -
  assume s: "s \<noteq> []" "\<not> is_space (hd s)" "\<not> is_space (last s)"
  then have "dropWhile is_space s = s" by (cases s) auto
  moreover from s have "dropWhile is_space (rev s) = rev s" by (cases s rule: rev_cases) auto
  ultimately show ?thesis by (simp add: trim_space_def trim_left_def trim_right_def)
qed

lemma show_nat_no_space: "show_nat n \<noteq> [] \<and> \<not> is_space (hd (show_nat n)) \<and> \<not> is_space (last (show_nat n))"
proof -
  have d: "is_digit c \<Longrightarrow> \<not> is_space c" for c by (auto simp: is_digit_def is_space_def Let_def)
  have ne: "show_nat n \<noteq> []" using show_nat_digits [of n] by (simp add: all_digits_def)
  with show_nat_chars [of "hd (show_nat n)" n] show_nat_chars [of "last (show_nat n)" n] d show ?thesis by auto
qed

lemma trim_prefix_string: "prefix4 p \<Longrightarrow> trim_space (prefix_string p) = prefix_string p"
  using show_nat_no_space by (intro trim_space_clean)
    (auto simp: prefix_string_def prefix4_def addr_string_def v4_string_def hd_append split: addr.splits)

lemma prepare_cidrs_strings:
  "distinct (qs @ ps) \<Longrightarrow> \<forall>p \<in> set ps. prefix4 p \<and> prefix_masked p = p \<Longrightarrow>
   prepare_cidrs (List.map prefix_string ps) qs = Inr (qs @ ps)"
proof (induction ps arbitrary: qs)
  case (Cons p ps)
  then have "prepare_cidrs (List.map prefix_string ps) (qs @ [p]) = Inr ((qs @ [p]) @ ps)"
    by (intro Cons.IH) auto
  with Cons.prems show ?case by (auto simp: trim_prefix_string parse_prefix_string)
qed simp

text \<open>A prepared rewrite whose domain is in normal form is prepared to itself.\<close>

lemma normalize_trim: "normalize_rewrite_domain (trim_space d) = normalize_rewrite_domain d"
  by (simp add: normalize_rewrite_domain_def trim_space_idem)

lemma upper_char_space: "is_space (upper_char c) = is_space c"
  by (auto simp: upper_char_def is_space_def Let_def)

lemma upper_char_idem: "upper_char (upper_char c) = upper_char c"
  by (auto simp: upper_char_def)

lemma dropWhile_upper: "dropWhile is_space (List.map upper_char s) = List.map upper_char (dropWhile is_space s)"
  by (induction s) (simp_all add: upper_char_space)

lemma to_upper_trim: "to_upper (trim_space (to_upper (trim_space s))) = to_upper (trim_space s)"
proof -
  have c: "trim_space (to_upper t) = to_upper (trim_space t)" for t
    by (simp add: trim_space_def trim_left_def trim_right_def to_upper_def dropWhile_upper rev_map)
  show ?thesis unfolding c by (simp add: to_upper_def trim_space_idem comp_def upper_char_idem)
qed

lemma validate_normal:
  assumes "validate d t v = None"
  shows "validate (normalize_rewrite_domain d) t v = None \<longleftrightarrow>
         \<not> bad_base (trim_prefix (normalize_rewrite_domain (normalize_rewrite_domain d)) ''*.'') \<and>
         \<not> has_prefix (trim_space (normalize_rewrite_domain d)) ''.''"
  using assms by (auto simp: validate_def Let_def normalize_trim split: if_splits)

lemma normal_no_dot:
  assumes "normalize_rewrite_domain d = d" and "d \<noteq> []"
  shows "\<not> has_prefix (trim_space d) ''.''"
proof
  assume "has_prefix (trim_space d) ''.''"
  then obtain t where t: "trim_space d = CHR ''.'' # t" by (auto simp: has_prefix_iff)
  have "length (normalize_rewrite_domain d) \<le> length t"
    unfolding normalize_rewrite_domain_def t
    by (simp add: to_lower_def lower_char_def trim_prefix_def has_prefix_def trim_suffix_def)
  moreover have "length (trim_space d) \<le> length d"
    using length_dropWhile_le [of is_space "rev (dropWhile is_space d)"] length_dropWhile_le [of is_space d]
    by (simp add: trim_space_def trim_left_def trim_right_def)
  ultimately show False using assms t by simp
qed

definition reloadable :: "rewrite \<Rightarrow> bool" where
  "reloadable r \<longleftrightarrow> rw_id r \<noteq> [] \<and> normalize_rewrite_domain (rw_domain r) = rw_domain r \<and>
     list_all prefix4 (rw_prefixes r)"

lemma prepare_reload:
  assumes "prepare_rewrite i r0 = Inr r" and "reloadable r"
  shows "prepare_rewrite j (strip_prefixes r) = Inr r"
proof -
  from assms(1) obtain ps where v: "validate (rw_domain r0) (to_upper (trim_space (rw_type r0))) (trim_space (rw_value r0)) = None"
    and l: "length (rw_cidrs r0) \<le> 64" and ps: "prepare_cidrs (rw_cidrs r0) [] = Inr ps"
    and r: "r = \<lparr>rw_id = (if rw_id r0 = [] then i else rw_id r0), rw_domain = normalize_rewrite_domain (rw_domain r0),
                 rw_type = to_upper (trim_space (rw_type r0)), rw_value = trim_space (rw_value r0),
                 rw_cidrs = List.map prefix_string ps, rw_prefixes = ps\<rparr>"
    by (auto simp: prepare_rewrite_def Let_def split: option.splits sum.splits if_splits)
  let ?d = "normalize_rewrite_domain (rw_domain r0)"
  have n: "normalize_rewrite_domain ?d = ?d" and p4: "\<forall>p \<in> set ps. prefix4 p" and ri: "rw_id r \<noteq> []"
    using assms(2) by (auto simp: r reloadable_def list_all_iff)
  have bb: "\<not> bad_base (trim_prefix ?d ''*.'')"
    using v by (auto simp: validate_def Let_def normalize_trim split: if_splits)
  then have "?d \<noteq> []" by (auto simp: bad_base_def trim_prefix_def has_prefix_def)
  with n bb v have "validate ?d (to_upper (trim_space (rw_type r0))) (trim_space (rw_value r0)) = None"
    by (simp add: validate_normal normal_no_dot)
  moreover have "prepare_cidrs (List.map prefix_string ps) [] = Inr ps" "length ps \<le> 64"
    using prepare_cidrs_out [OF ps] p4 l prefix_masked_idem
    by (auto intro!: prepare_cidrs_strings [of "[]", simplified])
  ultimately show ?thesis
    using ri n by (simp add: prepare_rewrite_def Let_def r strip_prefixes_def to_upper_trim trim_space_idem)
qed

definition prepared :: "rewrite \<Rightarrow> bool" where
  "prepared r \<longleftrightarrow> (\<exists>i r0. prepare_rewrite i r0 = Inr r)"

lemma preparedI: "prepare_rewrite i r0 = Inr r \<Longrightarrow> prepared r"
  by (auto simp: prepared_def)

lemma prepare_all_prepared: "prepare_all ids n rs = Inr ps \<Longrightarrow> list_all prepared ps"
  by (induction rs arbitrary: n ps) (auto intro: preparedI split: sum.splits)

lemma prepare_all_reload:
  "list_all prepared rs \<Longrightarrow> list_all reloadable rs \<Longrightarrow>
   prepare_all ids n (List.map strip_prefixes rs) = Inr rs"
  by (induction rs arbitrary: n) (auto simp: prepared_def prepare_reload)

lemma set_list_update_cases: "y \<in> set (xs[k := x]) \<Longrightarrow> y = x \<or> y \<in> set xs"
  using set_update_subset_insert [of xs k x] by auto

lemma rw_apply_prepared: "list_all prepared rs \<Longrightarrow> list_all prepared (rw_apply x rs)"
proof (cases x)
  case (RAdd i d t v cs)
  assume "list_all prepared rs"
  then show ?thesis by (auto simp: RAdd intro: preparedI split: sum.split)
next
  case (RUpdate n i d t v cs)
  assume "list_all prepared rs"
  then show ?thesis
    by (auto simp: RUpdate list_all_iff dest!: set_list_update_cases intro: preparedI split: sum.split option.split)
next
  case (RDelete i)
  assume "list_all prepared rs"
  then show ?thesis
    by (auto simp: RDelete list_all_iff dest: in_set_takeD in_set_dropD split: option.split)
next
  case (RReplace ids items)
  assume "list_all prepared rs"
  then show ?thesis by (auto simp: RReplace dest: prepare_all_prepared split: sum.split)
qed

interpretation rewrite_items: invariant_system "\<lambda>xo. rw_step (fst xo) (snd xo)" "\<lambda>s. list_all prepared (rs_items s)"
  by unfold_locales (simp add: rw_step_items rw_apply_prepared)

lemma run_has_path: "rs_has_path (fold (\<lambda>(x, ok). rw_step x ok) xs s) = rs_has_path s"
  by (induction xs arbitrary: s) (simp_all add: split_def)

end
