(* ===== verification/Dns_Routes.thy ===== *)
theory Dns_Routes
  imports Net_Addr "HOL-Library.Product_Lexorder"
begin

text \<open>
  dnsroutes/dnsroutes.go: per-domain upstream routes. A routes file is a JSON object from pattern
  to upstream, a Go map whose iteration order is the order of the list here; the routes are kept
  sorted so that the first match is the one to take. The callback after a change is a counter, the
  success of a file write an argument. The second half of the file, the upstream settings with
  their three file formats, works on JSON values.
\<close>

section \<open>Routes\<close>

record route =
  ro_pattern :: string
  ro_upstream :: string

record dns_routes =
  dr_has_path :: bool
  dr_routes :: "route list"
  dr_file :: "(string \<times> string) list option"
  dr_notified :: nat

definition is_wildcard :: "string \<Rightarrow> bool" where
  "is_wildcard p \<longleftrightarrow> has_prefix p ''*.''"

text \<open>sortRoutes: exact patterns first, longer wildcards before shorter ones, then by pattern.\<close>

definition route_key :: "route \<Rightarrow> bool \<times> int \<times> string" where
  "route_key r = (is_wildcard (ro_pattern r),
     if is_wildcard (ro_pattern r) then - int (length (ro_pattern r)) else 0, ro_pattern r)"

definition sort_routes :: "route list \<Rightarrow> route list" where
  "sort_routes rs = sort_key route_key rs"

definition routes_of :: "(string \<times> string) list \<Rightarrow> route list" where
  "routes_of raw = sort_routes (List.map (\<lambda>(p, u). \<lparr>ro_pattern = to_lower p, ro_upstream = u\<rparr>) raw)"

text \<open>
  load: without a path the routes are emptied; a file that is missing, unreadable or not a JSON
  object of strings (None) leaves them as they are.
\<close>

definition load_routes :: "dns_routes \<Rightarrow> dns_routes" where
  "load_routes s =
     (if \<not> dr_has_path s then s\<lparr>dr_routes := []\<rparr>
      else case dr_file s of
             None \<Rightarrow> s
           | Some raw \<Rightarrow>
               (if dr_routes s = routes_of raw then s
                else s\<lparr>dr_routes := routes_of raw, dr_notified := Suc (dr_notified s)\<rparr>))"

definition new_routes :: "bool \<Rightarrow> (string \<times> string) list option \<Rightarrow> dns_routes" where
  "new_routes has_path file =
     load_routes \<lparr>dr_has_path = has_path, dr_routes = [], dr_file = file, dr_notified = 0\<rparr>"

text \<open>SetRoutes: the file first, then the swap; a failed write changes nothing.\<close>

definition set_routes :: "(string \<times> string) list \<Rightarrow> bool \<Rightarrow> dns_routes \<Rightarrow> dns_routes" where
  "set_routes raw ok s =
     (if dr_has_path s \<and> \<not> ok then s
      else s\<lparr>dr_file := (if dr_has_path s then Some raw else dr_file s),
             dr_routes := routes_of raw, dr_notified := Suc (dr_notified s)\<rparr>)"

definition match_pattern :: "string \<Rightarrow> string \<Rightarrow> bool" where
  "match_pattern p d \<longleftrightarrow>
     p = d \<or> (has_prefix p ''*.'' \<and> (has_suffix d (CHR ''.'' # drop 2 p) \<or> d = drop 2 p))"

definition get_upstream_for_domain :: "string \<Rightarrow> route list \<Rightarrow> string" where
  "get_upstream_for_domain domain rs =
     (case find (\<lambda>r. match_pattern (ro_pattern r) (to_lower (trim_suffix domain ''.''))) rs of
        None \<Rightarrow> [] | Some r \<Rightarrow> ro_upstream r)"

definition get_routes_map :: "dns_routes \<Rightarrow> (string, string) gomap" where
  "get_routes_map s = foldl (\<lambda>m r. gm_set (ro_pattern r) (ro_upstream r) m) [] (dr_routes s)"

section \<open>The route that is taken\<close>

text \<open>A better match: an exact pattern beats a wildcard, a longer wildcard a shorter one.\<close>

definition beats :: "route \<Rightarrow> route \<Rightarrow> bool" where
  "beats r r' \<longleftrightarrow> is_wildcard (ro_pattern r') \<and>
     (if is_wildcard (ro_pattern r) then length (ro_pattern r') < length (ro_pattern r) else True)"

lemma match_pattern_covers:
  "match_pattern p d \<longleftrightarrow> p = d \<or> (is_wildcard p \<and> covers (drop 2 p) d)"
  by (auto simp: match_pattern_def is_wildcard_def covers_def)

text \<open>Two patterns that match a name and rank the same are the same pattern.\<close>

lemma match_same_rank:
  assumes "match_pattern p d" and "match_pattern q d"
    and "is_wildcard p = is_wildcard q" and "is_wildcard p \<Longrightarrow> length p = length q"
  shows "p = q"
proof (cases "is_wildcard p")
  case False
  with assms show ?thesis by (auto simp: match_pattern_covers)
next
  case True
  then obtain s t where p: "p = ''*.'' @ s" and q: "q = ''*.'' @ t"
    using assms(3) by (auto simp: is_wildcard_def has_prefix_iff)
  have cov: "covers x d" if "match_pattern (''*.'' @ x) d" for x
    using that by (auto simp: match_pattern_def covers_def has_suffix_iff)
  have "covers s d" "covers t d" using assms(1,2) p q cov by auto
  moreover have "length s = length t" using assms(4) True p q by simp
  ultimately show ?thesis using p q covers_same_length by blast
qed

lemma find_sorted_min:
  "sorted (List.map k xs) \<Longrightarrow> find P xs = Some x \<Longrightarrow>
   x \<in> set xs \<and> P x \<and> (\<forall>y \<in> set xs. P y \<longrightarrow> k x \<le> k y)"
  by (induction xs) (auto split: if_splits)

lemma route_order:
  assumes "route_key r \<le> route_key r'" and "match_pattern (ro_pattern r) d" and "match_pattern (ro_pattern r') d"
  shows "ro_pattern r = ro_pattern r' \<or> beats r r'"
proof (cases "is_wildcard (ro_pattern r) = is_wildcard (ro_pattern r') \<and>
    (is_wildcard (ro_pattern r) \<longrightarrow> length (ro_pattern r) = length (ro_pattern r'))")
  case True
  with assms(2,3) match_same_rank show ?thesis by blast
next
  case False
  with assms(1) show ?thesis
    by (auto simp: route_key_def beats_def less_eq_prod_def split: if_splits)
qed

lemma routes_of_pattern:
  "r \<in> set (routes_of raw) \<longleftrightarrow> (\<exists>p. (p, ro_upstream r) \<in> set raw \<and> ro_pattern r = to_lower p)"
  by (force simp: routes_of_def sort_routes_def)

lemma get_upstream_choice:
  "case find (\<lambda>r. match_pattern (ro_pattern r) d) (routes_of raw) of
     None \<Rightarrow> \<forall>(p, u) \<in> set raw. \<not> match_pattern (to_lower p) d
   | Some r \<Rightarrow> r \<in> set (routes_of raw) \<and> match_pattern (ro_pattern r) d \<and>
       (\<forall>r' \<in> set (routes_of raw). match_pattern (ro_pattern r') d \<longrightarrow> ro_pattern r' = ro_pattern r \<or> beats r r')"
proof (cases "find (\<lambda>r. match_pattern (ro_pattern r) d) (routes_of raw)")
  case None
  then have "\<forall>r \<in> set (routes_of raw). \<not> match_pattern (ro_pattern r) d"
    by (auto simp: find_None_iff)
  with None show ?thesis
    by (auto simp: routes_of_def sort_routes_def)
next
  case (Some r)
  have "sorted (List.map route_key (routes_of raw))"
    by (simp add: routes_of_def sort_routes_def)
  from find_sorted_min [OF this Some]
  have r: "r \<in> set (routes_of raw)" "match_pattern (ro_pattern r) d"
    and min: "\<And>y. y \<in> set (routes_of raw) \<Longrightarrow> match_pattern (ro_pattern y) d \<Longrightarrow> route_key r \<le> route_key y"
    by blast+
  have "ro_pattern y = ro_pattern r \<or> beats r y" if "y \<in> set (routes_of raw)" "match_pattern (ro_pattern y) d" for y
    using route_order [OF min [OF that] r(2) that(2)] by auto
  with r Some show ?thesis by simp
qed

section \<open>Persistence\<close>

definition routes_disk :: "dns_routes \<Rightarrow> route list option" where
  "routes_disk s = (if dr_has_path s then (case dr_file s of None \<Rightarrow> Some [] | Some raw \<Rightarrow> Some (routes_of raw)) else None)"

definition routes_mem :: "dns_routes \<Rightarrow> route list option" where
  "routes_mem s = (if dr_has_path s then Some (dr_routes s) else None)"

interpretation route_persistence: durable_store routes_mem routes_disk set_routes
  by unfold_locales (auto simp: routes_mem_def routes_disk_def set_routes_def split: if_splits)

lemma set_routes_path [simp]: "dr_has_path (set_routes raw ok s) = dr_has_path s"
  by (simp add: set_routes_def)

lemma set_routes_run_path: "dr_has_path (fold (\<lambda>(x, ok). set_routes x ok) xs s) = dr_has_path s"
  by (induction xs arbitrary: s) (simp_all add: split_def)

section \<open>Upstream settings\<close>

text \<open>JSON values, as encoding/json reads and writes them.\<close>

datatype json = JNull | JBool bool | JNum int | JStr string | JArr "json list" | JObj "(string \<times> json) list"

text \<open>
  Decoding into a []string: the outer None is an error, the inner one the nil slice. A field of a
  struct is set by the last key that equals its name, up to case.
\<close>

fun json_string :: "json \<Rightarrow> string option" where
  "json_string (JStr s) = Some s"
| "json_string JNull = Some []"
| "json_string _ = None"

fun json_strings :: "json \<Rightarrow> string list option option" where
  "json_strings JNull = Some None"
| "json_strings (JArr js) = (case those (List.map json_string js) of None \<Rightarrow> None | Some ss \<Rightarrow> Some (Some ss))"
| "json_strings _ = None"

definition json_field :: "string \<Rightarrow> (string \<times> json) list \<Rightarrow> json option" where
  "json_field name fs = map_option snd (find (\<lambda>(k, _). equal_fold k name) (rev fs))"

record upstream_settings =
  us_upstreams :: "string list"
  us_bootstrap :: "string list"
  us_bootstrap_configured :: bool

definition no_settings :: upstream_settings where
  "no_settings = \<lparr>us_upstreams = [], us_bootstrap = [], us_bootstrap_configured = False\<rparr>"

definition legacy_settings :: "json \<Rightarrow> upstream_settings" where
  "legacy_settings j =
     (case json_strings j of
        Some ss \<Rightarrow> no_settings\<lparr>us_upstreams := (case ss of None \<Rightarrow> [] | Some l \<Rightarrow> l)\<rparr>
      | None \<Rightarrow>
          (case j of JObj fs \<Rightarrow>
             (if list_all (\<lambda>(_, v). json_string v \<noteq> None) fs
              then no_settings\<lparr>us_upstreams := remdups (List.map fst fs)\<rparr> else no_settings)
           | _ \<Rightarrow> no_settings))"

text \<open>LoadUpstreamSettings: the object format, then the legacy array, then the legacy map.\<close>

definition load_upstream_settings :: "json option \<Rightarrow> upstream_settings" where
  "load_upstream_settings file =
     (case file of
        None \<Rightarrow> no_settings
      | Some j \<Rightarrow>
          (case j of JObj fs \<Rightarrow>
             (case Option.bind (json_field ''upstreams'' fs) json_strings of
                Some (Some us) \<Rightarrow>
                  (case json_field ''bootstrap_servers'' fs of
                     None \<Rightarrow> no_settings\<lparr>us_upstreams := us\<rparr>
                   | Some b \<Rightarrow>
                       (case json_strings b of
                          None \<Rightarrow> no_settings
                        | Some bs \<Rightarrow> \<lparr>us_upstreams = us, us_bootstrap = (case bs of None \<Rightarrow> [] | Some l \<Rightarrow> l),
                                     us_bootstrap_configured = True\<rparr>))
              | _ \<Rightarrow> legacy_settings j)
           | _ \<Rightarrow> legacy_settings j))"

definition json_of_strings :: "string list \<Rightarrow> json" where
  "json_of_strings ss = JArr (List.map JStr ss)"

definition save_upstream_settings :: "upstream_settings \<Rightarrow> json" where
  "save_upstream_settings s =
     JObj [(''upstreams'', json_of_strings (us_upstreams s)), (''bootstrap_servers'', json_of_strings (us_bootstrap s))]"

definition save_upstreams :: "string list \<Rightarrow> json option \<Rightarrow> json" where
  "save_upstreams us file =
     (let settings = load_upstream_settings file
      in if us_bootstrap_configured settings then save_upstream_settings (settings\<lparr>us_upstreams := us\<rparr>)
         else json_of_strings us)"

definition load_upstreams :: "json option \<Rightarrow> string list" where
  "load_upstreams file = us_upstreams (load_upstream_settings file)"

text \<open>ReadLines: the non-empty lines that are not comments.\<close>

definition read_lines :: "string list \<Rightarrow> string list" where
  "read_lines ls = filter (\<lambda>l. l \<noteq> [] \<and> \<not> has_prefix l ''#'') (List.map trim_space ls)"

lemma json_strings_of [simp]: "json_strings (json_of_strings ss) = Some (Some ss)"
proof -
  have "those (List.map json_string (List.map JStr ss)) = Some ss" by (induction ss) auto
  then show ?thesis by (simp add: json_of_strings_def)
qed

lemma save_fields:
  "json_field ''upstreams'' [(''upstreams'', a), (''bootstrap_servers'', b)] = Some a"
  "json_field ''bootstrap_servers'' [(''upstreams'', a), (''bootstrap_servers'', b)] = Some b"
  by (simp_all add: json_field_def equal_fold_def to_lower_def lower_char_def)

lemma load_saved_settings:
  "load_upstream_settings (Some (save_upstream_settings s)) = s\<lparr>us_bootstrap_configured := True\<rparr>"
  by (simp add: load_upstream_settings_def save_upstream_settings_def save_fields)

lemma load_saved_list: "load_upstream_settings (Some (json_of_strings us)) = no_settings\<lparr>us_upstreams := us\<rparr>"
proof -
  have "load_upstream_settings (Some (json_of_strings us)) = legacy_settings (json_of_strings us)"
    by (simp add: load_upstream_settings_def json_of_strings_def)
  then show ?thesis by (simp add: legacy_settings_def)
qed

text \<open>C35: For a name, the route taken is one of the configured patterns (lower-cased) that match it,
  and every other matching pattern is a wildcard that is shorter, or any wildcard when the taken one
  is exact: the exact pattern wins, then the longest wildcard, whatever the order in which the
  routes were read; without a matching pattern there is no route.\<close>

theorem route_choice:
  "case find (\<lambda>r. match_pattern (ro_pattern r) (to_lower (trim_suffix domain ''.''))) (routes_of raw) of
     None \<Rightarrow> get_upstream_for_domain domain (routes_of raw) = [] \<and>
       (\<forall>(p, u) \<in> set raw. \<not> match_pattern (to_lower p) (to_lower (trim_suffix domain ''.'')))
   | Some r \<Rightarrow> get_upstream_for_domain domain (routes_of raw) = ro_upstream r \<and>
       (\<exists>p. (p, ro_upstream r) \<in> set raw \<and> ro_pattern r = to_lower p) \<and>
       match_pattern (ro_pattern r) (to_lower (trim_suffix domain ''.'')) \<and>
       (\<forall>r' \<in> {r' \<in> set (routes_of raw). match_pattern (ro_pattern r') (to_lower (trim_suffix domain ''.''))}.
          ro_pattern r' = ro_pattern r \<or> beats r r')"
  using get_upstream_choice [where d = "to_lower (trim_suffix domain ''.'')" and raw = raw]
  by (auto simp: get_upstream_for_domain_def routes_of_pattern split: option.splits)

theorem route_choice_witness:
  "get_upstream_for_domain ''a.lan.'' (routes_of [(''*.lan'', ''1.1.1.1''), (''A.lan'', ''2.2.2.2'')]) = ''2.2.2.2''"
proof -
  have r: "routes_of [(''*.lan'', ''1.1.1.1''), (''A.lan'', ''2.2.2.2'')] =
      [\<lparr>ro_pattern = ''a.lan'', ro_upstream = ''2.2.2.2''\<rparr>, \<lparr>ro_pattern = ''*.lan'', ro_upstream = ''1.1.1.1''\<rparr>]"
    by code_simp
  have d: "to_lower (trim_suffix ''a.lan.'' ''.'') = ''a.lan''" by code_simp
  have f: "find (\<lambda>r. match_pattern (ro_pattern r) ''a.lan'')
      (routes_of [(''*.lan'', ''1.1.1.1''), (''A.lan'', ''2.2.2.2'')]) =
      Some \<lparr>ro_pattern = ''a.lan'', ro_upstream = ''2.2.2.2''\<rparr>"
    by (simp add: r match_pattern_def)
  show ?thesis
    using route_choice [where domain = "''a.lan.''" and raw = "[(''*.lan'', ''1.1.1.1''), (''A.lan'', ''2.2.2.2'')]"]
    by (simp add: d f)
qed

text \<open>After any sequence of SetRoutes calls, with any file writes failing, re-reading the file
  finds exactly the routes in memory, so the periodic reload changes and notifies nothing.\<close>

theorem routes_reload_stable:
  assumes "s = fold (\<lambda>(raw, ok). set_routes raw ok) xs (new_routes True (Some raw0))"
  shows "load_routes s = s"
proof -
  let ?s0 = "new_routes True (Some raw0)"
  have "routes_disk ?s0 = routes_mem ?s0"
    by (simp add: new_routes_def load_routes_def routes_disk_def routes_mem_def)
  then have "routes_disk s = routes_mem s"
    unfolding assms by (rule route_persistence.run_durable)
  moreover have "dr_has_path s"
    using set_routes_run_path [of xs ?s0] by (simp add: assms new_routes_def load_routes_def)
  ultimately show ?thesis
    by (auto simp: routes_disk_def routes_mem_def load_routes_def split: option.splits)
qed

theorem routes_reload_stable_witness:
  "load_routes (fold (\<lambda>(raw, ok). set_routes raw ok) [([(''A.b'', ''1.1.1.1'')], True), ([], False)]
     (new_routes True (Some [(''*.x'', ''9.9.9.9'')]))) =
   fold (\<lambda>(raw, ok). set_routes raw ok) [([(''A.b'', ''1.1.1.1'')], True), ([], False)]
     (new_routes True (Some [(''*.x'', ''9.9.9.9'')]))"
  by (rule routes_reload_stable [OF refl])

text \<open>Saving an upstream list and loading it gives the list back, in whichever format the file
  was, and keeps the bootstrap resolvers of an object-format file.\<close>

theorem upstreams_roundtrip:
  "load_upstreams (Some (save_upstreams us file)) = us \<and>
   (us_bootstrap_configured (load_upstream_settings file) \<longrightarrow>
      load_upstream_settings (Some (save_upstreams us file)) = (load_upstream_settings file)\<lparr>us_upstreams := us\<rparr>)"
  by (simp add: load_upstreams_def save_upstreams_def Let_def load_saved_settings load_saved_list no_settings_def)

theorem upstreams_roundtrip_witness:
  "load_upstream_settings (Some (save_upstreams [''8.8.8.8'']
      (Some (JObj [(''upstreams'', JArr []), (''bootstrap_servers'', JArr [JStr ''1.1.1.1''])])))) =
   \<lparr>us_upstreams = [''8.8.8.8''], us_bootstrap = [''1.1.1.1''], us_bootstrap_configured = True\<rparr>"
proof -
  have l: "load_upstream_settings (Some (JObj [(''upstreams'', JArr []), (''bootstrap_servers'', JArr [JStr ''1.1.1.1''])])) =
      \<lparr>us_upstreams = [], us_bootstrap = [''1.1.1.1''], us_bootstrap_configured = True\<rparr>"
    by (simp add: load_upstream_settings_def save_fields)
  show ?thesis
    using upstreams_roundtrip [of "[''8.8.8.8'']"
        "Some (JObj [(''upstreams'', JArr []), (''bootstrap_servers'', JArr [JStr ''1.1.1.1''])])"]
    by (simp add: l)
qed

end
