(* ===== verification/Dns_Policy.thy ===== *)
theory Dns_Policy
  imports Dns_Msg
begin

text \<open>
  policy/policy.go: safe-search engines and their targets, bogus-answer networks, and the two
  switches. The public-suffix list is an argument: the registrable domain of a name, if it has one.
\<close>

section \<open>Configuration\<close>

record policy_config =
  pc_safe_search :: "string list"
  pc_bogus :: "string list"
  pc_aaaa_disabled :: bool
  pc_refuse_any :: bool

record policy =
  po_engines :: "string list"
  po_bogus :: "ipnet list"
  po_aaaa_disabled :: bool
  po_refuse_any :: bool

text \<open>ParseEngines: the set of the known engine names in the list.\<close>

definition known_engines :: "string list" where
  "known_engines = [''google'', ''bing'', ''ddg'', ''youtube'']"

definition parse_engines :: "string list \<Rightarrow> string list" where
  "parse_engines l = remdups (filter (\<lambda>e. e \<in> set known_engines) (List.map (\<lambda>e. to_lower (trim_space e)) l))"

text \<open>One entry of the bogus list: an address becomes a host prefix, an invalid entry is skipped.\<close>

definition bogus_entry :: "string \<Rightarrow> ipnet option" where
  "bogus_entry raw0 =
     (let raw = trim_space raw0
      in if raw = [] then None
         else let cidr = (if CHR ''/'' \<in> set raw then raw
                          else case parse_ip raw of None \<Rightarrow> raw
                               | Some w \<Rightarrow> raw @ (if to4 w \<noteq> None then ''/32'' else ''/128''))
              in map_option snd (parse_cidr cidr))"

definition new_policy :: "policy_config \<Rightarrow> policy" where
  "new_policy g = \<lparr>po_engines = parse_engines (pc_safe_search g),
     po_bogus = List.map_filter bogus_entry (pc_bogus g),
     po_aaaa_disabled = pc_aaaa_disabled g, po_refuse_any = pc_refuse_any g\<rparr>"

text \<open>The methods on a policy that may be nil.\<close>

definition policy_enabled :: "policy option \<Rightarrow> bool" where
  "policy_enabled p = (case p of None \<Rightarrow> False
     | Some q \<Rightarrow> po_engines q \<noteq> [] \<or> po_bogus q \<noteq> [] \<or> po_aaaa_disabled q \<or> po_refuse_any q)"

definition refuse_any_enabled :: "policy option \<Rightarrow> bool" where
  "refuse_any_enabled p = (case p of None \<Rightarrow> False | Some q \<Rightarrow> po_refuse_any q)"

definition aaaa_disabled_enabled :: "policy option \<Rightarrow> bool" where
  "aaaa_disabled_enabled p = (case p of None \<Rightarrow> False | Some q \<Rightarrow> po_aaaa_disabled q)"

definition policy_engines :: "policy option \<Rightarrow> string list" where
  "policy_engines p = (case p of None \<Rightarrow> [] | Some q \<Rightarrow> po_engines q)"

section \<open>Safe search\<close>

definition google_target :: string where "google_target = ''forcesafesearch.google.com''"
definition bing_target :: string where "bing_target = ''strict.bing.com''"
definition ddg_target :: string where "ddg_target = ''safe.duckduckgo.com''"
definition youtube_target :: string where "youtube_target = ''restrict.youtube.com''"

definition youtube_hosts :: "string list" where
  "youtube_hosts = [''youtube.com'', ''www.youtube.com'', ''m.youtube.com'', ''youtubei.googleapis.com'',
     ''youtube.googleapis.com'', ''www.youtube-nocookie.com'', ''youtube-nocookie.com'']"

definition lower_letter :: "char \<Rightarrow> bool" where
  "lower_letter c \<longleftrightarrow> 97 \<le> (of_char c :: nat) \<and> (of_char c :: nat) \<le> 122"

definition is_google_search_host :: "(string \<Rightarrow> string option) \<Rightarrow> string \<Rightarrow> bool" where
  "is_google_search_host etld1 domain0 =
     (let domain = trim_prefix domain0 ''www.''; labels = split_on (CHR ''.'') domain
      in if length labels < 2 \<or> 3 < length labels \<or> hd labels \<noteq> ''google'' then False
         else if \<not> list_all (\<lambda>l. l \<noteq> [] \<and> list_all lower_letter l) (tl labels) then False
         else etld1 domain = Some domain)"

definition safe_search_target_for :: "(string \<Rightarrow> string option) \<Rightarrow> string list \<Rightarrow> string \<Rightarrow> string" where
  "safe_search_target_for etld1 engines domain =
     (if ''google'' \<in> set engines \<and> is_google_search_host etld1 domain then google_target
      else if ''bing'' \<in> set engines \<and> (domain = ''bing.com'' \<or> domain = ''www.bing.com'') then bing_target
      else if ''ddg'' \<in> set engines \<and> (domain = ''duckduckgo.com'' \<or> domain = ''www.duckduckgo.com'') then ddg_target
      else if ''youtube'' \<in> set engines \<and> domain \<in> set youtube_hosts then youtube_target
      else [])"

definition safe_search_target :: "(string \<Rightarrow> string option) \<Rightarrow> policy option \<Rightarrow> string \<Rightarrow> string" where
  "safe_search_target etld1 p domain =
     (case p of None \<Rightarrow> [] | Some q \<Rightarrow> safe_search_target_for etld1 (po_engines q) domain)"

section \<open>Bogus answers\<close>

definition rr_ip :: "rr \<Rightarrow> ip option option" where
  "rr_ip r = (case rr_data r of RD_A a \<Rightarrow> Some (map_option v4_in_v6 a) | RD_AAAA a \<Rightarrow> Some a | _ \<Rightarrow> None)"

text \<open>A nil address is in no network.\<close>

definition in_bogus_nets :: "policy \<Rightarrow> ip option \<Rightarrow> bool" where
  "in_bogus_nets q a = (case a of None \<Rightarrow> False | Some w \<Rightarrow> list_ex (\<lambda>n. net_contains n w) (po_bogus q))"

fun bogus_loop :: "policy \<Rightarrow> bool \<Rightarrow> rr list \<Rightarrow> bool" where
  "bogus_loop q seen [] = seen"
| "bogus_loop q seen (r # rs) =
     (case rr_ip r of None \<Rightarrow> bogus_loop q seen rs
      | Some a \<Rightarrow> if in_bogus_nets q a then bogus_loop q True rs else False)"

definition is_bogus_answer :: "policy option \<Rightarrow> rr list \<Rightarrow> bool" where
  "is_bogus_answer p rs =
     (case p of None \<Rightarrow> False | Some q \<Rightarrow> if po_bogus q = [] then False else bogus_loop q False rs)"

section \<open>Facts\<close>

lemma bogus_loop_iff:
  "bogus_loop q seen rs \<longleftrightarrow>
     (seen \<or> (\<exists>r \<in> set rs. rr_ip r \<noteq> None)) \<and> (\<forall>r \<in> set rs. \<forall>a. rr_ip r = Some a \<longrightarrow> in_bogus_nets q a)"
  by (induction q seen rs rule: bogus_loop.induct) (auto split: option.splits)

lemma is_bogus_iff:
  "is_bogus_answer (Some q) rs \<longleftrightarrow>
     (\<exists>r \<in> set rs. rr_ip r \<noteq> None) \<and> (\<forall>r \<in> set rs. \<forall>a. rr_ip r = Some a \<longrightarrow> in_bogus_nets q a)"
proof (cases "po_bogus q = []")
  case True
  then have "\<not> in_bogus_nets q a" for a by (simp add: in_bogus_nets_def split: option.split)
  with True show ?thesis by (auto simp: is_bogus_answer_def)
qed (simp add: is_bogus_answer_def bogus_loop_iff)

text \<open>A target is never itself redirected, so the chase ends after one step.\<close>

lemma targets_fixed:
  "t \<in> {google_target, bing_target, ddg_target, youtube_target} \<Longrightarrow> safe_search_target_for etld1 engines t = []"
  by (elim insertE emptyE)
    (simp_all add: safe_search_target_for_def is_google_search_host_def google_target_def bing_target_def ddg_target_def
      youtube_target_def youtube_hosts_def trim_prefix_def has_prefix_def Let_def)

lemma safe_search_target_cases:
  "safe_search_target_for etld1 engines d \<in> {[], google_target, bing_target, ddg_target, youtube_target}"
  by (simp add: safe_search_target_for_def)

end
