(* ===== verification/Upstream_Pool.thy ===== *)
theory Upstream_Pool
  imports Upstream_Spec Dns_Routes Dns_Policy "HOL-Library.Multiset"
begin

text \<open>
  upstream/pool.go and dnsserver/upstream_query.go: the resolver pool with its selection modes,
  health filter, per-upstream statistics and circuit breaker, the bounded caches of route and
  per-client resolvers, ECS and DNS64, and the forwarding of one query. The network is an argument:
  a state of any type with the operations of \<open>network\<close>. A dial gets a flag for a cancelled context
  and returns the answer or an error, the latency in milliseconds and the clock afterwards.
\<close>

section \<open>State\<close>

record stat =
  st_ewma :: rat
  st_failures :: nat
  st_penalty :: nat
  st_successes :: nat
  st_consecutive_failures :: nat
  st_consecutive_successes :: nat
  st_circuit :: int
  st_last_failure :: string
  st_samples :: "rat list"
  st_count :: nat
  st_index :: nat

definition latency_sample_limit :: nat where "latency_sample_limit = 256"
definition max_resolver_groups :: nat where "max_resolver_groups = 256"
definition circuit_failure_threshold :: nat where "circuit_failure_threshold = 3"
definition circuit_cooldown :: int where "circuit_cooldown = 30 * second"

definition new_stat :: stat where
  "new_stat = \<lparr>st_ewma = 0, st_failures = 0, st_penalty = 0, st_successes = 0, st_consecutive_failures = 0,
     st_consecutive_successes = 0, st_circuit = 0, st_last_failure = [],
     st_samples = replicate latency_sample_limit 0, st_count = 0, st_index = 0\<rparr>"

record pool =
  pl_mode :: string
  pl_primary_specs :: "string list"
  pl_fallback_specs :: "string list"
  pl_bootstrap :: "string list"
  pl_primary :: "upstream list"
  pl_fallback :: "upstream list"
  pl_routes :: "(string, upstream) gomap"
  pl_groups :: "(string, upstream list) gomap"
  pl_stats :: "(string, stat) gomap"
  pl_ecs :: "(ip \<times> nat \<times> u16) option"
  pl_dns64 :: bool
  pl_dns64_prefixes :: "ip list"

record 'w network =
  dial :: "bool \<Rightarrow> upstream \<Rightarrow> msg \<Rightarrow> 'w \<Rightarrow> ((string + msg) \<times> rat \<times> int) \<times> 'w"
  arrival :: "upstream list \<Rightarrow> 'w \<Rightarrow> upstream list \<times> 'w"  \<comment> \<open>what completes before the context of a race ends, in order\<close>
  draw :: "'w \<Rightarrow> rat \<times> 'w"  \<comment> \<open>rand.Float64\<close>
  fresh_id :: "'w \<Rightarrow> u16 \<times> 'w"  \<comment> \<open>dns.Id\<close>
  clock :: "'w \<Rightarrow> int"
  plain_dial :: "bool \<Rightarrow> string \<Rightarrow> msg \<Rightarrow> 'w \<Rightarrow> msg option \<times> 'w"  \<comment> \<open>dns.Client without a pool; the flag is TCP\<close>

section \<open>Configuration\<close>

text \<open>buildResolvers: valid specs, the first of each normalized endpoint.\<close>

definition build_step :: "url_lib \<Rightarrow> upstream list \<Rightarrow> string \<Rightarrow> upstream list" where
  "build_step U out raw =
     (case parse_spec U (trim_space raw) of
        Inl _ \<Rightarrow> out
      | Inr s \<Rightarrow> if normalized_key s \<in> normalized_key ` set out then out else out @ [s])"

definition build_resolvers :: "url_lib \<Rightarrow> string list \<Rightarrow> upstream list" where
  "build_resolvers U specs = foldl (build_step U) [] specs"

definition parse_ecs :: "string \<Rightarrow> (ip \<times> nat \<times> u16) option" where
  "parse_ecs raw0 =
     (let raw = trim_space raw0;
          cidr = (if CHR ''/'' \<in> set raw then raw
                  else case parse_ip raw of None \<Rightarrow> raw
                       | Some w \<Rightarrow> raw @ (if to4 w \<noteq> None then ''/32'' else ''/128''))
      in case parse_cidr cidr of None \<Rightarrow> None
         | Some (ip, n) \<Rightarrow> Some (ip, net_bits n, if to4 ip \<noteq> None then 1 else 2))"

definition dns64_prefix :: "string \<Rightarrow> ip option" where
  "dns64_prefix raw = (case parse_cidr (trim_space raw) of
       Some (ip, Net6 b k) \<Rightarrow> if to4 ip \<noteq> None \<or> k \<noteq> 96 then None else Some b
     | _ \<Rightarrow> None)"

record pool_config =
  pg_mode :: string
  pg_primary :: "string list"
  pg_fallback :: "string list"
  pg_bootstrap :: "string list"
  pg_ecs :: string
  pg_dns64 :: bool
  pg_dns64_prefixes :: "string list"

definition new_pool :: "url_lib \<Rightarrow> pool_config \<Rightarrow> pool" where
  "new_pool U g =
     \<lparr>pl_mode = (if pg_mode g = [] then ''load_balance'' else pg_mode g),
      pl_primary_specs = pg_primary g, pl_fallback_specs = pg_fallback g, pl_bootstrap = pg_bootstrap g,
      pl_primary = build_resolvers U (pg_primary g), pl_fallback = build_resolvers U (pg_fallback g),
      pl_routes = [], pl_groups = [], pl_stats = [],
      pl_ecs = (if pg_ecs g = [] then None else parse_ecs (pg_ecs g)),
      pl_dns64 = pg_dns64 g,
      pl_dns64_prefixes = (if \<not> pg_dns64 g then []
        else List.map_filter dns64_prefix
               (if pg_dns64_prefixes g = [] then [''64:ff9b::/96''] else pg_dns64_prefixes g))\<rparr>"

definition set_primary_specs :: "url_lib \<Rightarrow> string list \<Rightarrow> pool \<Rightarrow> pool" where
  "set_primary_specs U specs p = p\<lparr>pl_primary_specs := specs, pl_primary := build_resolvers U specs\<rparr>"

definition set_bootstrap_servers :: "url_lib \<Rightarrow> string list \<Rightarrow> pool \<Rightarrow> pool" where
  "set_bootstrap_servers U servers p =
     p\<lparr>pl_bootstrap := servers, pl_primary := build_resolvers U (pl_primary_specs p),
       pl_fallback := build_resolvers U (pl_fallback_specs p), pl_routes := [], pl_groups := []\<rparr>"

definition set_runtime_settings :: "url_lib \<Rightarrow> string \<Rightarrow> string list \<Rightarrow> string \<Rightarrow> pool \<Rightarrow> pool" where
  "set_runtime_settings U mode fallback ecs p =
     p\<lparr>pl_mode := (if mode = [] then ''load_balance'' else mode), pl_fallback_specs := fallback,
       pl_fallback := build_resolvers U fallback,
       pl_ecs := (if trim_space ecs = [] then None else parse_ecs (trim_space ecs)),
       pl_routes := [], pl_groups := []\<rparr>"

definition clear_route_cache :: "pool \<Rightarrow> pool" where
  "clear_route_cache p = p\<lparr>pl_routes := []\<rparr>"

section \<open>Statistics\<close>

definition get_stat :: "string \<Rightarrow> pool \<Rightarrow> stat" where
  "get_stat k p = (case gm_get (pl_stats p) k of None \<Rightarrow> new_stat | Some s \<Rightarrow> s)"

definition stat_for :: "string \<Rightarrow> pool \<Rightarrow> pool" where
  "stat_for k p = (case gm_get (pl_stats p) k of
       None \<Rightarrow> p\<lparr>pl_stats := gm_set k new_stat (pl_stats p)\<rparr> | Some _ \<Rightarrow> p)"

definition put_stat :: "string \<Rightarrow> stat \<Rightarrow> pool \<Rightarrow> pool" where
  "put_stat k s p = p\<lparr>pl_stats := gm_set k s (pl_stats p)\<rparr>"

definition record_latency :: "rat \<Rightarrow> stat \<Rightarrow> stat" where
  "record_latency ms s =
     s\<lparr>st_ewma := (if st_ewma s = 0 then ms else 1 / 4 * ms + 3 / 4 * st_ewma s),
       st_samples := (st_samples s)[st_index s := ms],
       st_index := (st_index s + 1) mod latency_sample_limit,
       st_count := (if st_count s < latency_sample_limit then Suc (st_count s) else st_count s)\<rparr>"

definition record_failure :: "string \<Rightarrow> int \<Rightarrow> stat \<Rightarrow> stat" where
  "record_failure e now s =
     (let f = Suc (st_consecutive_failures s)
      in s\<lparr>st_failures := Suc (st_failures s), st_penalty := Suc (st_penalty s),
           st_consecutive_failures := f, st_consecutive_successes := 0, st_last_failure := e,
           st_circuit := (if circuit_failure_threshold \<le> f then now + circuit_cooldown else st_circuit s)\<rparr>)"

definition record_success :: "rat \<Rightarrow> stat \<Rightarrow> stat" where
  "record_success ms s =
     record_latency ms (s\<lparr>st_successes := Suc (st_successes s), st_penalty := 0, st_consecutive_failures := 0,
       st_consecutive_successes := Suc (st_consecutive_successes s), st_circuit := 0, st_last_failure := []\<rparr>)"

definition latency_percentile :: "rat list \<Rightarrow> rat \<Rightarrow> rat" where
  "latency_percentile sorted_samples q =
     (if sorted_samples = [] then 0
      else sorted_samples ! nat \<lfloor>of_nat (length sorted_samples - 1) * q + 1 / 2\<rfloor>)"

text \<open>The part of StatsSnapshot that the statistics determine.\<close>

record stat_snapshot =
  sn_spec :: string
  sn_normalized :: string
  sn_ewma :: rat
  sn_p50 :: rat
  sn_p95 :: rat
  sn_p99 :: rat
  sn_failures :: nat
  sn_successes :: nat
  sn_healthy :: bool
  sn_circuit_until :: int
  sn_timeout :: int
  sn_weight :: int

definition snapshot_of :: "int \<Rightarrow> (string \<times> rat) list \<Rightarrow> pool \<Rightarrow> upstream \<Rightarrow> stat_snapshot" where
  "snapshot_of now health p r =
     (let s = get_stat (sp_raw r) p; samples = sort (take (st_count s) (st_samples s));
          open_until = (if now < st_circuit s then st_circuit s else 0)
      in \<lparr>sn_spec = sp_raw r, sn_normalized = normalized_key r, sn_ewma = st_ewma s,
          sn_p50 = latency_percentile samples (1 / 2), sn_p95 = latency_percentile samples (95 / 100),
          sn_p99 = latency_percentile samples (99 / 100), sn_failures = st_failures s, sn_successes = st_successes s,
          sn_healthy = (open_until = 0 \<and> \<not> (case map_of health (sp_raw r) of None \<Rightarrow> False | Some lat \<Rightarrow> lat < 0)),
          sn_circuit_until = open_until, sn_timeout = timeout_duration r, sn_weight = selection_weight r\<rparr>)"

definition stats_snapshot :: "int \<Rightarrow> (string \<times> rat) list \<Rightarrow> pool \<Rightarrow> stat_snapshot list" where
  "stats_snapshot now health p = List.map (snapshot_of now health p) (pl_primary p @ pl_fallback p)"

section \<open>One exchange\<close>

definition with_ecs :: "pool \<Rightarrow> msg \<Rightarrow> msg" where
  "with_ecs p m = (case pl_ecs p of
       None \<Rightarrow> m
     | Some (ip, bits, family) \<Rightarrow>
         m\<lparr>m_opt := Some \<lparr>o_udp_size = 1232, o_version = 0,
              o_do = (case m_opt m of None \<Rightarrow> False | Some q \<Rightarrow> o_do q),
              o_options = [OptECS \<lparr>ecs_family = family, ecs_netmask = of_nat bits, ecs_scope = 0, ecs_address = Some ip\<rparr>]\<rparr>\<rparr>)"

definition has_aaaa :: "rr list \<Rightarrow> bool" where
  "has_aaaa rs \<longleftrightarrow> list_ex (\<lambda>r. case rr_data r of RD_AAAA _ \<Rightarrow> True | _ \<Rightarrow> False) rs"

definition question_msg :: "u16 \<Rightarrow> string \<Rightarrow> u16 \<Rightarrow> msg" where
  "question_msg i name t = empty_msg\<lparr>m_id := i, m_question := [\<lparr>q_name = name, q_type = t, q_class = class_INET\<rparr>]\<rparr>"

definition embed_v4 :: "ip list \<Rightarrow> string \<Rightarrow> rr \<Rightarrow> rr list" where
  "embed_v4 prefixes name r = (case rr_data r of
       RD_A a \<Rightarrow> List.map (\<lambda>b. \<lparr>rr_name = name, rr_type = type_AAAA, rr_class = class_INET, rr_ttl = rr_ttl r,
                   rr_data = RD_AAAA (Some (b OR (case a of None \<Rightarrow> 0 | Some x \<Rightarrow> ucast x)))\<rparr>) prefixes
     | _ \<Rightarrow> [])"

definition synthesize_dns64 :: "'w network \<Rightarrow> pool \<Rightarrow> upstream \<Rightarrow> string \<Rightarrow> 'w \<Rightarrow> rr list \<times> 'w" where
  "synthesize_dns64 N p r name w =
     (case fresh_id N w of (i, w1) \<Rightarrow>
        (case dial N False r (question_msg i name type_A) w1 of
           ((Inl _, _, _), w2) \<Rightarrow> ([], w2)
         | ((Inr resp, _, _), w2) \<Rightarrow> (concat (List.map (embed_v4 (pl_dns64_prefixes p) name) (m_answer resp)), w2)))"

definition wants_dns64 :: "pool \<Rightarrow> msg \<Rightarrow> msg \<Rightarrow> bool" where
  "wants_dns64 p m resp \<longleftrightarrow> pl_dns64 p \<and>
     (case m_question m of [] \<Rightarrow> False | q # _ \<Rightarrow> q_type q = type_AAAA) \<and>
     m_rcode resp = rcode_success \<and> \<not> has_aaaa (m_answer resp)"

text \<open>exchangeContext; the flag says whether the context is cancelled.\<close>

definition exchange_context ::
  "'w network \<Rightarrow> bool \<Rightarrow> upstream \<Rightarrow> msg \<Rightarrow> pool \<Rightarrow> 'w \<Rightarrow> (string + msg) \<times> pool \<times> 'w" where
  "exchange_context N cancelled r m p w =
     (case dial N cancelled r (with_ecs p m) w of
        ((Inl e, elapsed, now), w1) \<Rightarrow>
          (Inl e, put_stat (sp_raw r) (record_failure e now (get_stat (sp_raw r) p)) p, w1)
      | ((Inr resp, elapsed, now), w1) \<Rightarrow>
          (let p1 = put_stat (sp_raw r) (record_success elapsed (get_stat (sp_raw r) p)) p
           in if wants_dns64 p m resp then
                (case synthesize_dns64 N p r (q_name (hd (m_question m))) w1 of
                   ([], w2) \<Rightarrow> (Inr resp, p1, w2)
                 | (rs, w2) \<Rightarrow> (Inr (resp\<lparr>m_answer := rs\<rparr>), p1, w2))
              else (Inr resp, p1, w1)))"

section \<open>Selection\<close>

text \<open>healthy: neither an open circuit nor a negative health latency; never empty.\<close>

definition usable :: "int \<Rightarrow> (string \<times> rat) list \<Rightarrow> pool \<Rightarrow> upstream \<Rightarrow> bool" where
  "usable now health p r \<longleftrightarrow> st_circuit (get_stat (sp_raw r) p) \<le> now \<and>
     \<not> (case map_of health (sp_raw r) of None \<Rightarrow> False | Some lat \<Rightarrow> lat < 0)"

definition healthy :: "int \<Rightarrow> (string \<times> rat) list \<Rightarrow> upstream list \<Rightarrow> pool \<Rightarrow> upstream list \<times> pool" where
  "healthy now health rs p =
     (let out = filter (usable now health p) rs
      in (if out = [] then rs else out, fold (\<lambda>r. stat_for (sp_raw r)) rs p))"

fun exchange_strict ::
  "'w network \<Rightarrow> upstream list \<Rightarrow> msg \<Rightarrow> string \<Rightarrow> pool \<Rightarrow> 'w \<Rightarrow> (string + msg \<times> string) \<times> pool \<times> 'w" where
  "exchange_strict N [] m e p w = (Inl e, p, w)"
| "exchange_strict N (r # rs) m e p w =
     (case exchange_context N False r m p w of
        (Inr resp, p1, w1) \<Rightarrow> (Inr (resp, sp_raw r), p1, w1)
      | (Inl e1, p1, w1) \<Rightarrow> exchange_strict N rs m e1 p1 w1)"

text \<open>
  The race: the candidates complete in arrival order; the first answer is taken, and the ones
  that complete after it do so with their context cancelled, keeping their statistics all the same.
  So do the ones still running when the context of the whole race ends.
\<close>

fun race ::
  "'w network \<Rightarrow> upstream list \<Rightarrow> msg \<Rightarrow> (msg \<times> string) option \<Rightarrow> pool \<Rightarrow> 'w \<Rightarrow> (msg \<times> string) option \<times> pool \<times> 'w" where
  "race N [] m winner p w = (winner, p, w)"
| "race N (r # rs) m winner p w =
     (case exchange_context N (winner \<noteq> None) r m p w of
        (Inr resp, p1, w1) \<Rightarrow> race N rs m (if winner = None then Some (resp, sp_raw r) else winner) p1 w1
      | (Inl e, p1, w1) \<Rightarrow> race N rs m winner p1 w1)"

definition exchange_parallel ::
  "'w network \<Rightarrow> upstream list \<Rightarrow> msg \<Rightarrow> pool \<Rightarrow> 'w \<Rightarrow> (string + msg \<times> string) \<times> pool \<times> 'w" where
  "exchange_parallel N cs m p w =
     (case arrival N cs w of (order, w1) \<Rightarrow>
        (case race N order m None p w1 of (winner, p1, w2) \<Rightarrow>
           (case race N (filter (\<lambda>r. r \<notin> set order) cs) m (Some (empty_msg, [])) p1 w2 of (_, p2, w3) \<Rightarrow>
              ((case winner of
                  Some r \<Rightarrow> Inr r
                | None \<Rightarrow> Inl (if list_all (\<lambda>r. r \<in> set order) cs then ''parallel exchange: all upstreams failed''
                               else ''parallel exchange: context deadline exceeded'')), p2, w3))))"

definition base_weight :: "rat \<Rightarrow> nat \<Rightarrow> rat" where
  "base_weight ewma penalty = 1 / ((1 + ewma) * of_nat (1 + penalty))"

definition weight_of :: "pool \<Rightarrow> upstream \<Rightarrow> rat" where
  "weight_of p r = base_weight (st_ewma (get_stat (sp_raw r) p)) (st_penalty (get_stat (sp_raw r) p)) *
     of_int (selection_weight r)"

fun pick_from :: "nat \<Rightarrow> rat \<Rightarrow> ('a \<times> rat) list \<Rightarrow> nat" where
  "pick_from i pick [] = 0"
| "pick_from i pick ((_, x) # xs) = (if pick - x \<le> 0 then i else pick_from (Suc i) (pick - x) xs)"

lemma pick_from_less: "pick_from i pick xs < i + length xs \<or> pick_from i pick xs = 0"
proof (induction i pick xs rule: pick_from.induct)
  case (2 i pick r x xs)
  then show ?case by (cases "pick - x \<le> 0") auto
qed simp

lemma pick_take:
  "length (take (pick_from 0 q (c # cs)) (c # cs) @ drop (Suc (pick_from 0 q (c # cs))) (c # cs)) < length (c # cs)"
  using pick_from_less [of 0 q "c # cs"] by auto

function (sequential) weighted_loop :: "'w network \<Rightarrow> (upstream \<times> rat) list \<Rightarrow> 'w \<Rightarrow> upstream list \<times> 'w" where
  "weighted_loop N [] w = ([], w)"
| "weighted_loop N (c # cs) w =
     (case draw N w of (d, w1) \<Rightarrow>
        (let xs = c # cs; i = pick_from 0 (d * sum_list (List.map snd xs)) xs
         in case weighted_loop N (take i xs @ drop (Suc i) xs) w1 of (out, w2) \<Rightarrow> (fst (xs ! i) # out, w2)))"
  by pat_completeness auto
termination
  by (relation "measure (\<lambda>(N, xs, w). length xs)") (simp_all only: in_measure prod.case pick_take list.simps wf_measure simp_thms)

definition weighted_order :: "'w network \<Rightarrow> upstream list \<Rightarrow> pool \<Rightarrow> 'w \<Rightarrow> upstream list \<times> 'w" where
  "weighted_order N cs p w = weighted_loop N (List.map (\<lambda>r. (r, weight_of p r)) cs) w"

definition exchange_by_mode ::
  "'w network \<Rightarrow> upstream list \<Rightarrow> msg \<Rightarrow> pool \<Rightarrow> 'w \<Rightarrow> (string + msg \<times> string) \<times> pool \<times> 'w" where
  "exchange_by_mode N cs m p w =
     (if cs = [] then (Inl ''no upstreams available'', p, w)
      else if pl_mode p = ''parallel'' then exchange_parallel N cs m p w
      else if pl_mode p = ''load_balance'' then
        (let p1 = fold (\<lambda>r. stat_for (sp_raw r)) cs p
         in case weighted_order N cs p1 w of (ordered, w1) \<Rightarrow> exchange_strict N ordered m [] p1 w1)
      else exchange_strict N cs m [] p w)"

text \<open>Exchange: the healthy primaries, and if they all fail the healthy fallbacks.\<close>

definition pool_exchange ::
  "'w network \<Rightarrow> (string \<times> rat) list \<Rightarrow> msg \<Rightarrow> pool \<Rightarrow> 'w \<Rightarrow> (string + msg \<times> string) \<times> pool \<times> 'w" where
  "pool_exchange N health m p w =
     (case healthy (clock N w) health (pl_primary p) p of (cs, p1) \<Rightarrow>
        (case exchange_by_mode N cs m p1 w of
           (Inr r, p2, w1) \<Rightarrow> (Inr r, p2, w1)
         | (Inl e, p2, w1) \<Rightarrow>
             (if pl_fallback p = [] then (Inl e, p2, w1)
              else case healthy (clock N w1) health (pl_fallback p) p2 of (fs, p3) \<Rightarrow> exchange_by_mode N fs m p3 w1)))"

text \<open>routeResolver and ExchangeRoute.\<close>

definition route_resolver :: "url_lib \<Rightarrow> string \<Rightarrow> pool \<Rightarrow> upstream option \<times> pool" where
  "route_resolver U raw p =
     (case gm_get (pl_routes p) raw of
        Some r \<Rightarrow> (Some r, p)
      | None \<Rightarrow> (case parse_spec U raw of
                  Inl _ \<Rightarrow> (None, p)
                | Inr s \<Rightarrow> (Some s, p\<lparr>pl_routes := gm_set raw s (pl_routes p)\<rparr>)))"

definition exchange_route ::
  "'w network \<Rightarrow> url_lib \<Rightarrow> string \<Rightarrow> msg \<Rightarrow> pool \<Rightarrow> 'w \<Rightarrow> (string + msg \<times> string) \<times> pool \<times> 'w" where
  "exchange_route N U raw m p w =
     (case route_resolver U raw p of
        (None, p1) \<Rightarrow> (Inl ''invalid upstream'', p1, w)
      | (Some r, p1) \<Rightarrow>
          (case exchange_context N False r m p1 w of
             (Inl e, p2, w1) \<Rightarrow> (Inl e, p2, w1) | (Inr resp, p2, w1) \<Rightarrow> (Inr (resp, raw), p2, w1)))"

text \<open>groupResolvers: one entry of a full cache makes room; which one is the order of the map.\<close>

definition group_resolvers :: "url_lib \<Rightarrow> string list \<Rightarrow> pool \<Rightarrow> upstream list \<times> pool" where
  "group_resolvers U specs p =
     (let key = join_with [CHR 0x00] specs
      in case gm_get (pl_groups p) key of
           Some rs \<Rightarrow> (rs, p)
         | None \<Rightarrow>
             (let rs = build_resolvers U specs;
                  gs = (if max_resolver_groups \<le> length (pl_groups p) then tl (pl_groups p) else pl_groups p)
              in (rs, p\<lparr>pl_groups := gm_set key rs gs\<rparr>)))"

definition exchange_specs ::
  "'w network \<Rightarrow> url_lib \<Rightarrow> string list \<Rightarrow> msg \<Rightarrow> pool \<Rightarrow> 'w \<Rightarrow> (string + msg \<times> string) \<times> pool \<times> 'w" where
  "exchange_specs N U specs m p w =
     (case group_resolvers U specs p of (rs, p1) \<Rightarrow>
        if rs = [] then (Inl ''no usable upstreams in spec set'', p1, w) else exchange_by_mode N rs m p1 w)"

end
