(* ===== verification/Dns_Settings.thy ===== *)
theory Dns_Settings
  imports Upstream_Pool
begin

text \<open>
  dnssettings/settings.go: the controller-managed DNS settings, their normal form, their validation
  and the store that persists them before it publishes them. Whether the file can be written is an
  argument of a replacement; the JSON encoding is the identity.
\<close>

section \<open>Settings\<close>

record settings =
  ds_upstream_mode :: string
  ds_fallback :: "string list"
  ds_ecs :: string
  ds_blocking_mode :: string
  ds_custom4 :: string
  ds_custom6 :: string
  ds_blocked_ttl :: u32
  ds_safe_search :: "string list"
  ds_bogus :: "string list"
  ds_aaaa_disabled :: bool
  ds_refuse_any :: bool
  ds_dnssec :: bool
  ds_private_ptr :: bool
  ds_ptr_upstreams :: "string list"
  ds_client_hostnames :: bool
  ds_allowed :: "string list"
  ds_disallowed :: "string list"
  ds_qps :: int
  ds_internal_qps :: int
  ds_rate_ede :: bool
  ds_prefix4 :: int
  ds_prefix6 :: int
  ds_rate_allowlist :: "string list"
  ds_cache_size :: int
  ds_cache_min :: u32
  ds_cache_max :: u32
  ds_optimistic :: bool
  ds_prefetch :: bool
  ds_prefetch_window :: int
  ds_prefetch_hits :: u32
  ds_servfail_ms :: int

definition settings_cache_size :: int where "settings_cache_size = 25000"
definition max_cache_size :: int where "max_cache_size = 1000000"
definition max_list_entries :: nat where "max_list_entries = 4096"

text \<open>compact keeps the first occurrence of every trimmed, non-empty value.\<close>

definition compact_step :: "string list \<Rightarrow> string \<Rightarrow> string list" where
  "compact_step out v = (let t = trim_space v in if t = [] \<or> t \<in> set out then out else out @ [t])"

definition compact :: "string list \<Rightarrow> string list" where
  "compact vs = foldl compact_step [] vs"

definition compact_lower :: "string list \<Rightarrow> string list" where
  "compact_lower vs = compact (List.map to_lower vs)"

definition normalize_settings :: "settings \<Rightarrow> settings" where
  "normalize_settings s = s\<lparr>
     ds_upstream_mode := to_lower (trim_space (ds_upstream_mode s)),
     ds_fallback := compact (ds_fallback s),
     ds_ecs := trim_space (ds_ecs s),
     ds_blocking_mode := to_lower (trim_space (ds_blocking_mode s)),
     ds_custom4 := trim_space (ds_custom4 s),
     ds_custom6 := trim_space (ds_custom6 s),
     ds_safe_search := compact_lower (ds_safe_search s),
     ds_bogus := compact (ds_bogus s),
     ds_ptr_upstreams := compact (ds_ptr_upstreams s),
     ds_allowed := compact (ds_allowed s),
     ds_disallowed := compact (ds_disallowed s),
     ds_rate_allowlist := compact (ds_rate_allowlist s),
     ds_cache_size := (if ds_cache_size s = 0 then settings_cache_size else ds_cache_size s),
     ds_blocked_ttl := (if ds_blocked_ttl s = 0 then 60 else ds_blocked_ttl s),
     ds_cache_min := (if ds_cache_min s = 0 then 60 else ds_cache_min s),
     ds_cache_max := (if ds_cache_max s = 0 then 600 else ds_cache_max s),
     ds_prefetch_window := (if ds_prefetch_window s = 0 then 30000 else ds_prefetch_window s),
     ds_prefetch_hits := (if ds_prefetch_hits s = 0 then 3 else ds_prefetch_hits s),
     ds_prefix4 := (if ds_prefix4 s = 0 then 32 else ds_prefix4 s),
     ds_prefix6 := (if ds_prefix6 s = 0 then 128 else ds_prefix6 s)\<rparr>"

section \<open>Validation\<close>

definition valid_ip_or_cidr :: "string \<Rightarrow> bool" where
  "valid_ip_or_cidr raw = (parse_ip (trim_space raw) \<noteq> None \<or> parse_cidr (trim_space raw) \<noteq> None)"

definition valid_spec :: "url_lib \<Rightarrow> string \<Rightarrow> bool" where
  "valid_spec U raw = (case parse_spec U raw of Inl _ \<Rightarrow> False | Inr _ \<Rightarrow> True)"

datatype settings_error =
    BadUpstreamMode | BadFallback | BadECS | BadPTRUpstream
  | BadBlockingMode | BadCustom4 | BadCustom6 | BadBlockedTTL | BadEngine | BadBogus
  | TooManyClients | BadClientList | BadRate | BadPrefix
  | BadCacheSize | BadCacheTTL | BadPrefetchWindow | BadPrefetchHits | BadServfailTTL
  | SettingsNotSaved

definition validate_resolver_settings :: "url_lib \<Rightarrow> settings \<Rightarrow> settings_error option" where
  "validate_resolver_settings U s =
     (if ds_upstream_mode s \<notin> {''load_balance'', ''parallel'', ''strict''} then Some BadUpstreamMode
      else if \<not> list_all (valid_spec U) (ds_fallback s) then Some BadFallback
      else if ds_ecs s \<noteq> [] \<and> \<not> valid_ip_or_cidr (ds_ecs s) then Some BadECS
      else if \<not> list_all (valid_spec U) (ds_ptr_upstreams s) then Some BadPTRUpstream
      else None)"

definition validate_blocking_settings :: "settings \<Rightarrow> settings_error option" where
  "validate_blocking_settings s =
     (if ds_blocking_mode s \<notin> {''nxdomain'', ''null_ip'', ''refused'', ''custom_ip''} then Some BadBlockingMode
      else if ds_custom4 s \<noteq> [] \<and> Option.bind (parse_ip (ds_custom4 s)) to4 = None then Some BadCustom4
      else if ds_custom6 s \<noteq> [] \<and> (case parse_ip (ds_custom6 s) of None \<Rightarrow> True | Some w \<Rightarrow> to4 w \<noteq> None) then Some BadCustom6
      else if 86400 < ds_blocked_ttl s then Some BadBlockedTTL
      else if \<not> list_all (\<lambda>e. e \<in> {''google'', ''bing'', ''ddg'', ''youtube''}) (ds_safe_search s) then Some BadEngine
      else if \<not> list_all valid_ip_or_cidr (ds_bogus s) then Some BadBogus
      else None)"

definition validate_access_settings :: "settings \<Rightarrow> settings_error option" where
  "validate_access_settings s =
     (if max_list_entries < length (ds_allowed s) \<or> max_list_entries < length (ds_disallowed s) then Some TooManyClients
      else if \<not> list_all (list_all valid_ip_or_cidr) [ds_allowed s, ds_disallowed s, ds_rate_allowlist s] then Some BadClientList
      else if ds_qps s < 0 \<or> 1000000 < ds_qps s \<or> ds_internal_qps s < 0 \<or> 1000000 < ds_internal_qps s then Some BadRate
      else if ds_prefix4 s < 1 \<or> 32 < ds_prefix4 s \<or> ds_prefix6 s < 1 \<or> 128 < ds_prefix6 s then Some BadPrefix
      else None)"

definition validate_cache_settings :: "settings \<Rightarrow> settings_error option" where
  "validate_cache_settings s =
     (if ds_cache_size s < 1 \<or> max_cache_size < ds_cache_size s then Some BadCacheSize
      else if 86400 < ds_cache_min s \<or> 86400 < ds_cache_max s \<or>
              (0 < ds_cache_min s \<and> 0 < ds_cache_max s \<and> ds_cache_max s < ds_cache_min s) then Some BadCacheTTL
      else if ds_prefetch_window s < 0 \<or> 86400000 < ds_prefetch_window s then Some BadPrefetchWindow
      else if 1000000 < ds_prefetch_hits s then Some BadPrefetchHits
      else if ds_servfail_ms s < 0 \<or> 1000 < ds_servfail_ms s then Some BadServfailTTL
      else None)"

definition validate_settings :: "url_lib \<Rightarrow> settings \<Rightarrow> settings_error option" where
  "validate_settings U s0 =
     (let s = normalize_settings s0
      in case validate_resolver_settings U s of
           Some e \<Rightarrow> Some e
         | None \<Rightarrow> (case validate_blocking_settings s of
             Some e \<Rightarrow> Some e
           | None \<Rightarrow> (case validate_access_settings s of
               Some e \<Rightarrow> Some e
             | None \<Rightarrow> validate_cache_settings s)))"

section \<open>The store\<close>

record settings_store =
  ss_has_path :: bool
  ss_items :: settings
  ss_file :: "settings option"

definition load_settings :: "url_lib \<Rightarrow> bool \<Rightarrow> settings \<Rightarrow> settings option \<Rightarrow> settings_error + settings_store" where
  "load_settings U has_path defaults0 saved =
     (let defaults = normalize_settings defaults0
      in case validate_settings U defaults of
           Some e \<Rightarrow> Inl e
         | None \<Rightarrow>
             (case (if has_path then saved else None) of
                None \<Rightarrow> Inr \<lparr>ss_has_path = has_path, ss_items = defaults, ss_file = saved\<rparr>
              | Some s0 \<Rightarrow>
                  (let s = normalize_settings s0
                   in case validate_settings U s of
                        Some e \<Rightarrow> Inl e
                      | None \<Rightarrow> Inr \<lparr>ss_has_path = has_path, ss_items = s, ss_file = saved\<rparr>)))"

definition save_settings :: "bool \<Rightarrow> settings \<Rightarrow> settings_store \<Rightarrow> bool \<times> settings_store" where
  "save_settings ok s st = (if \<not> ss_has_path st then (True, st)
     else if ok then (True, st\<lparr>ss_file := Some s\<rparr>) else (False, st))"

definition replace_settings :: "url_lib \<Rightarrow> settings \<Rightarrow> bool \<Rightarrow> settings_store \<Rightarrow> settings_error option \<times> settings_store" where
  "replace_settings U s0 ok st =
     (let s = normalize_settings s0
      in case validate_settings U s of
           Some e \<Rightarrow> (Some e, st)
         | None \<Rightarrow> (case save_settings ok s st of
                     (False, st1) \<Rightarrow> (Some SettingsNotSaved, st1)
                   | (True, st1) \<Rightarrow> (None, st1\<lparr>ss_items := s\<rparr>)))"

section \<open>Normal form\<close>

lemma compact_fold:
  "list_all (\<lambda>t. trim_space t = t \<and> t \<noteq> []) vs \<Longrightarrow> distinct (out @ vs) \<Longrightarrow> foldl compact_step out vs = out @ vs"
  by (induction vs arbitrary: out) (simp_all add: compact_step_def)

definition compacted :: "string list \<Rightarrow> bool" where
  "compacted vs \<longleftrightarrow> list_all (\<lambda>t. trim_space t = t \<and> t \<noteq> []) vs \<and> distinct vs"

lemma compacted_fold: "compacted out \<Longrightarrow> compacted (foldl compact_step out vs)"
  by (induction vs arbitrary: out) (simp_all add: compact_step_def compacted_def Let_def)

lemma compact_compacted: "compacted (compact vs)"
  unfolding compact_def by (rule compacted_fold) (simp add: compacted_def)

lemma compact_fixed: "compacted vs \<Longrightarrow> compact vs = vs"
  using compact_fold [of vs "[]"] by (simp add: compact_def compacted_def)

lemma compact_idem [simp]: "compact (compact vs) = compact vs"
  by (rule compact_fixed [OF compact_compacted])

lemma compact_fold_lower: "list_all (\<lambda>t. to_lower t = t) out \<Longrightarrow> list_all (\<lambda>t. to_lower t = t) vs \<Longrightarrow>
    list_all (\<lambda>t. to_lower t = t) (foldl compact_step out vs)"
  by (induction vs arbitrary: out) (simp_all add: compact_step_def Let_def trim_space_to_lower [symmetric])

lemma compact_lower_idem [simp]: "compact_lower (compact_lower vs) = compact_lower vs"
proof -
  have "list_all (\<lambda>t. to_lower t = t) (compact (List.map to_lower vs))"
    unfolding compact_def by (rule compact_fold_lower) (simp_all add: list_all_iff)
  then have "List.map to_lower (compact (List.map to_lower vs)) = compact (List.map to_lower vs)"
    by (simp add: list_all_iff map_idI)
  then show ?thesis by (simp add: compact_lower_def)
qed

lemma mode_idem: "to_lower (trim_space (to_lower (trim_space s))) = to_lower (trim_space s)"
  by (simp add: trim_space_to_lower)

lemma normalize_idem [simp]: "normalize_settings (normalize_settings s) = normalize_settings s"
  by (simp add: normalize_settings_def mode_idem settings_cache_size_def)

lemma validate_normalized [simp]: "validate_settings U (normalize_settings s) = validate_settings U s"
  by (simp add: validate_settings_def)

section \<open>What the store always holds\<close>

definition settings_ok :: "url_lib \<Rightarrow> settings_store \<Rightarrow> bool" where
  "settings_ok U st \<longleftrightarrow> normalize_settings (ss_items st) = ss_items st \<and> validate_settings U (ss_items st) = None"

definition settings_step :: "url_lib \<Rightarrow> settings \<Rightarrow> bool \<Rightarrow> settings_store \<Rightarrow> settings_store" where
  "settings_step U s ok st = snd (replace_settings U s ok st)"

lemma settings_step_cases:
  "settings_step U s ok st = st \<or>
   (validate_settings U s = None \<and> (ss_has_path st \<longrightarrow> ok) \<and>
    settings_step U s ok st = st\<lparr>ss_items := normalize_settings s,
      ss_file := (if ss_has_path st then Some (normalize_settings s) else ss_file st)\<rparr>)"
  by (auto simp: settings_step_def replace_settings_def save_settings_def Let_def split: option.split)

interpretation settings_sys: invariant_system "\<lambda>xo. settings_step U (fst xo) (snd xo)" "settings_ok U"
proof
  fix st xo assume ok: "settings_ok U st"
  show "settings_ok U (settings_step U (fst xo) (snd xo) st)"
    using settings_step_cases [of U "fst xo" "snd xo" st] ok by (auto simp: settings_ok_def)
qed

definition settings_mem :: "settings_store \<Rightarrow> settings option" where
  "settings_mem st = (if ss_has_path st then Some (ss_items st) else None)"

text \<open>The file as a restart with the given defaults reads it.\<close>

definition settings_disk :: "settings \<Rightarrow> settings_store \<Rightarrow> settings option" where
  "settings_disk defaults st = (if ss_has_path st
     then Some (case ss_file st of None \<Rightarrow> normalize_settings defaults | Some s \<Rightarrow> normalize_settings s) else None)"

interpretation settings_persistence: durable_store settings_mem "settings_disk defaults" "settings_step U"
proof
  fix s t :: settings_store and x
  show "settings_disk defaults s = settings_mem s \<Longrightarrow>
      settings_disk defaults (settings_step U x True s) = settings_mem (settings_step U x True s)"
    using settings_step_cases [of U x True s] by (auto simp: settings_disk_def settings_mem_def)
  show "settings_disk defaults s = settings_mem s \<Longrightarrow>
      settings_mem (settings_step U x False s) = settings_mem s \<and>
      settings_disk defaults (settings_step U x False s) = settings_disk defaults s"
    using settings_step_cases [of U x False s] by (auto simp: settings_disk_def settings_mem_def)
  show "settings_mem s = settings_mem t \<Longrightarrow>
      settings_mem (settings_step U x True s) = settings_mem (settings_step U x True t)"
    by (auto simp: settings_step_def replace_settings_def save_settings_def settings_mem_def Let_def
        split: option.splits if_splits)
qed

lemma load_settings_ok:
  assumes "load_settings U True defaults saved = Inr st"
  shows "settings_ok U st" and "settings_disk defaults st = settings_mem st" and "ss_has_path st"
    and "validate_settings U defaults = None"
  using assms by (auto simp: load_settings_def settings_ok_def settings_disk_def settings_mem_def Let_def
      split: option.splits)

lemma settings_run_path: "ss_has_path (fold (\<lambda>(x, ok). settings_step U x ok) xs st) = ss_has_path st"
proof (induction xs arbitrary: st)
  case (Cons xo xs)
  have "ss_has_path (settings_step U x ok st) = ss_has_path st" for x ok
    using settings_step_cases [of U x ok st] by auto
  with Cons show ?case by (simp add: split_def)
qed simp

text \<open>A settings store that was loaded holds valid, normalized settings after any sequence of
  replacements, valid or not, with any file writes failing; the failed ones leave no trace; and a
  restart with the same defaults reads back what was in force.\<close>

theorem settings_survive_restart:
  assumes "load_settings U True defaults saved = Inr st"
    and "st' = fold (\<lambda>(x, ok). settings_step U x ok) xs st"
  shows "validate_settings U (ss_items st') = None \<and> normalize_settings (ss_items st') = ss_items st' \<and>
    ss_items st' = ss_items (fold (\<lambda>(x, ok). settings_step U x ok) (filter snd xs) st) \<and>
    map_sum id ss_items (load_settings U True defaults (ss_file st')) = Inr (ss_items st')"
proof -
  note init = load_settings_ok [OF assms(1)]
  have path: "ss_has_path (fold (\<lambda>(x, ok). settings_step U x ok) ys st)" for ys
    using init(3) by (simp add: settings_run_path)
  have "settings_ok U st'" using settings_sys.run_keeps [OF init(1), of xs] by (simp add: assms(2) split_def)
  moreover have "settings_mem st' = settings_mem (fold (\<lambda>(x, ok). settings_step U x ok) (filter snd xs) st)"
    unfolding assms(2) by (rule settings_persistence.failures_invisible [OF init(2)])
  moreover have "settings_disk defaults st' = settings_mem st'"
    unfolding assms(2) by (rule settings_persistence.run_durable [OF init(2)])
  moreover have "map_sum id ss_items (load_settings U True defaults (ss_file st')) = Inr (ss_items st')"
    if "settings_ok U st'" "settings_disk defaults st' = settings_mem st'" "ss_has_path st'"
  proof (cases "ss_file st'")
    case None
    with that show ?thesis
      by (simp add: settings_ok_def settings_disk_def settings_mem_def load_settings_def Let_def)
  next
    case (Some s)
    with that have n: "normalize_settings s = ss_items st'" by (simp add: settings_disk_def settings_mem_def)
    with that have "validate_settings U (normalize_settings s) = None" by (simp add: settings_ok_def)
    with Some n init(4) show ?thesis by (simp add: load_settings_def Let_def)
  qed
  ultimately show ?thesis
    using path [of xs] path [of "filter snd xs"] by (simp add: settings_ok_def settings_mem_def assms(2))
qed

definition demo_settings :: settings where
  "demo_settings = \<lparr>ds_upstream_mode = ''Strict '', ds_fallback = [], ds_ecs = [], ds_blocking_mode = ''nxdomain'', ds_custom4 = [],
     ds_custom6 = [], ds_blocked_ttl = 0, ds_safe_search = [], ds_bogus = [], ds_aaaa_disabled = False, ds_refuse_any = False,
     ds_dnssec = False, ds_private_ptr = False, ds_ptr_upstreams = [], ds_client_hostnames = False, ds_allowed = [],
     ds_disallowed = [], ds_qps = 20, ds_internal_qps = 0, ds_rate_ede = False, ds_prefix4 = 0, ds_prefix6 = 0,
     ds_rate_allowlist = [], ds_cache_size = 0, ds_cache_min = 0, ds_cache_max = 0, ds_optimistic = False, ds_prefetch = False,
     ds_prefetch_window = 0, ds_prefetch_hits = 0, ds_servfail_ms = 1000\<rparr>"

definition no_urls :: url_lib where
  "no_urls = \<lparr>url_parse = (\<lambda>_. None), url_encode = (\<lambda>_. []), parse_duration = (\<lambda>_. None), show_duration = (\<lambda>_. [])\<rparr>"

lemma demo_normal: "normalize_settings demo_settings = demo_settings\<lparr>ds_upstream_mode := ''strict'', ds_blocked_ttl := 60,
    ds_prefix4 := 32, ds_prefix6 := 128, ds_cache_size := 25000, ds_cache_min := 60, ds_cache_max := 600,
    ds_prefetch_window := 30000, ds_prefetch_hits := 3\<rparr>"
proof -
  have m: "to_lower (trim_space ''Strict '') = ''strict''" "to_lower (trim_space ''nxdomain'') = ''nxdomain''" "trim_space [] = []"
    by code_simp+
  show ?thesis
    by (simp add: demo_settings_def normalize_settings_def m compact_def compact_lower_def settings_cache_size_def)
qed

lemma demo_settings_valid: "validate_settings no_urls demo_settings = None"
proof -
  let ?s = "normalize_settings demo_settings"
  have "validate_resolver_settings no_urls ?s = None"
    by (simp add: demo_normal) (simp add: validate_resolver_settings_def demo_settings_def)
  moreover have "validate_blocking_settings ?s = None"
    by (simp add: demo_normal) (simp add: validate_blocking_settings_def demo_settings_def)
  moreover have "validate_access_settings ?s = None"
    by (simp add: demo_normal) (simp add: validate_access_settings_def demo_settings_def)
  moreover have "validate_cache_settings ?s = None"
    by (simp add: demo_normal) (simp add: validate_cache_settings_def demo_settings_def max_cache_size_def)
  ultimately show ?thesis by (simp add: validate_settings_def)
qed

theorem settings_survive_restart_witness:
  "\<exists>st. load_settings no_urls True demo_settings None = Inr st \<and>
     validate_settings no_urls (ss_items (fold (\<lambda>(x, ok). settings_step no_urls x ok)
        [(demo_settings\<lparr>ds_qps := 50\<rparr>, True), (demo_settings\<lparr>ds_qps := -1\<rparr>, True)] st)) = None"
proof -
  obtain st where l: "load_settings no_urls True demo_settings None = Inr st"
    by (simp add: load_settings_def demo_settings_valid Let_def)
  from settings_survive_restart [OF l refl] l show ?thesis by blast
qed

end
