(* ===== verification/Config_Apply.thy ===== *)
theory Config_Apply
  imports Filter_Subscriptions Rewrite_Store Client_Registry Dns_Routes Dns_Settings
begin

text \<open>
  configsync/snapshot.go and the snapshot operations of api/configuration.go: the configuration of a
  node as one versioned snapshot, and ApplyConfigSnapshot, which validates a snapshot of the
  controller, replaces seven stores one after the other, and on a failure replaces them again by
  what they held. The digest of a payload is an argument (sha256 over its JSON), as are the ids that
  are drawn and the success of every file write. A snapshot crosses the network by its exported
  fields: parsed prefixes and networks do not.
\<close>

section \<open>Snapshots\<close>

record config_payload =
  sn_version :: int
  sn_upstreams :: "string list"
  sn_bootstrap :: "string list"
  sn_routes :: "(string, string) gomap"
  sn_subs :: "subscription list"
  sn_rules :: string
  sn_rewrites :: "rewrite list"
  sn_clients :: "client list"
  sn_settings :: "settings option"

record config_snapshot =
  cs_payload :: config_payload
  cs_revision :: string

definition current_version :: int where "current_version = 5"

record config_env =
  ce_urls :: url_lib
  ce_sub_urls :: sub_urls
  ce_regex :: regex_lib
  ce_digest :: "config_payload \<Rightarrow> string"
  ce_history :: "string \<Rightarrow> persisted_history option"
  ce_valid_url :: "string \<Rightarrow> bool"

definition new_config_snapshot :: "config_env \<Rightarrow> config_payload \<Rightarrow> config_snapshot" where
  "new_config_snapshot E p0 =
     (let p = p0\<lparr>sn_version := current_version, sn_settings := map_option normalize_settings (sn_settings p0)\<rparr>
      in \<lparr>cs_payload = p, cs_revision = ce_digest E p\<rparr>)"

definition schema_compatible :: "config_snapshot \<Rightarrow> bool" where
  "schema_compatible s \<longleftrightarrow> sn_version (cs_payload s) = current_version"

definition valid_revision :: "config_env \<Rightarrow> config_snapshot \<Rightarrow> bool" where
  "valid_revision E s \<longleftrightarrow> schema_compatible s \<and> cs_revision s = ce_digest E (cs_payload s)"

datatype config_error =
    IncompatibleVersion | RevisionMismatch
  | NoUpstreams | BadUpstream nat | DuplicateUpstream nat nat | NeedsBootstrap | BadBootstrap nat
  | RulesTooLong | BadUserRule nat | RulesPanic
  | BadSettings settings_error | BadExtraResolver | ExtraNeedsBootstrap
  | EmptyRoutePattern | BadRouteUpstream
  | BadSubscriptions sub_error | BadRewrites rewrite_error | BadClients client_error
  | StoresMissing | RulesUnreadable | PreviousNotSaved
  | RulesNotSaved | UpstreamsNotSaved | RoutesNotSaved

definition validate_snapshot :: "config_env \<Rightarrow> config_snapshot \<Rightarrow> config_error option" where
  "validate_snapshot E s =
     (if \<not> schema_compatible s then Some IncompatibleVersion
      else if valid_revision E s then None else Some RevisionMismatch)"

text \<open>Diff: the names of the fields that differ; \<open>summary\<close> is what summarizeRules shows of the user rules.\<close>

definition diff_fields :: "(string \<Rightarrow> string) \<Rightarrow> config_payload \<Rightarrow> config_payload \<Rightarrow> string list" where
  "diff_fields summary a b = List.map fst (filter snd
     [(''schema_version'', sn_version a \<noteq> sn_version b), (''upstreams'', sn_upstreams a \<noteq> sn_upstreams b),
      (''bootstrap_servers'', sn_bootstrap a \<noteq> sn_bootstrap b), (''routes'', sn_routes a \<noteq> sn_routes b),
      (''subscriptions'', sn_subs a \<noteq> sn_subs b), (''user_rules'', summary (sn_rules a) \<noteq> summary (sn_rules b)),
      (''rewrites'', sn_rewrites a \<noteq> sn_rewrites b), (''clients'', sn_clients a \<noteq> sn_clients b),
      (''dns_settings'', sn_settings a \<noteq> sn_settings b)])"

section \<open>Validation\<close>

text \<open>The loop of validateResolverSettings: the normalized keys seen, and whether some host is a name.\<close>

fun check_upstreams :: "url_lib \<Rightarrow> nat \<Rightarrow> (string, nat) gomap \<Rightarrow> bool \<Rightarrow> string list \<Rightarrow> config_error + bool" where
  "check_upstreams U i seen needs [] = Inr needs"
| "check_upstreams U i seen needs (r # rs) =
     (case parse_spec U r of
        Inl _ \<Rightarrow> Inl (BadUpstream (Suc i))
      | Inr sp \<Rightarrow>
          (case gm_get seen (normalized_key sp) of
             Some j \<Rightarrow> Inl (DuplicateUpstream (Suc i) (Suc j))
           | None \<Rightarrow> check_upstreams U (Suc i) (gm_set (normalized_key sp) i seen) (needs \<or> spec_hostname sp) rs))"

definition validate_resolvers :: "url_lib \<Rightarrow> string list \<Rightarrow> string list \<Rightarrow> config_error option" where
  "validate_resolvers U us bs =
     (if us = [] then Some NoUpstreams
      else case check_upstreams U 0 [] False us of
             Inl e \<Rightarrow> Some e
           | Inr needs \<Rightarrow> if needs \<and> bs = [] then Some NeedsBootstrap
                          else map_option BadBootstrap (validate_bootstrap_servers U 0 bs))"

text \<open>validateManagedDNSSettings: the settings, then the resolvers they name.\<close>

fun check_extra_resolvers :: "url_lib \<Rightarrow> string list \<Rightarrow> string list \<Rightarrow> config_error option" where
  "check_extra_resolvers U bs [] = None"
| "check_extra_resolvers U bs (r # rs) =
     (case parse_spec U r of
        Inl _ \<Rightarrow> Some BadExtraResolver
      | Inr sp \<Rightarrow> if spec_hostname sp \<and> bs = [] then Some ExtraNeedsBootstrap else check_extra_resolvers U bs rs)"

definition validate_managed_settings :: "url_lib \<Rightarrow> settings \<Rightarrow> string list \<Rightarrow> config_error option" where
  "validate_managed_settings U s bs =
     (case validate_settings U s of
        Some e \<Rightarrow> Some (BadSettings e)
      | None \<Rightarrow> check_extra_resolvers U bs (ds_fallback s @ ds_ptr_upstreams s))"

definition validate_snapshot_settings :: "url_lib \<Rightarrow> config_payload \<Rightarrow> config_error option" where
  "validate_snapshot_settings U p =
     (case sn_settings p of None \<Rightarrow> None | Some s \<Rightarrow> validate_managed_settings U s (sn_bootstrap p))"

definition max_user_rules :: nat where "max_user_rules = 2 ^ 20"

text \<open>validateSnapshotUserRules: the first error of the diagnostics; a cosmetic rule is a warning only.
  ValidateRuleText can panic.\<close>

definition is_error_diag :: "diagnostic \<Rightarrow> bool" where
  "is_error_diag d \<longleftrightarrow> dg_kind d \<noteq> Cosmetic"

definition validate_user_rules :: "regex_lib \<Rightarrow> string \<Rightarrow> config_error option" where
  "validate_user_rules X rules =
     (if max_user_rules < length rules then Some RulesTooLong
      else case validate_rule_text X rules of
             None \<Rightarrow> Some RulesPanic
           | Some (_, ds) \<Rightarrow> map_option (\<lambda>d. BadUserRule (dg_line d)) (find is_error_diag ds))"

fun validate_snapshot_routes :: "url_lib \<Rightarrow> (string, string) gomap \<Rightarrow> config_error option" where
  "validate_snapshot_routes U [] = None"
| "validate_snapshot_routes U ((pattern, raw) # rs) =
     (if trim_space pattern = [] then Some EmptyRoutePattern
      else case parse_spec U raw of Inl _ \<Rightarrow> Some BadRouteUpstream | Inr _ \<Rightarrow> validate_snapshot_routes U rs)"

text \<open>Rewrites and clients are validated by replacing those of an empty store without a file.\<close>

definition validate_snapshot_stores :: "config_env \<Rightarrow> config_payload \<Rightarrow> config_error option" where
  "validate_snapshot_stores E p =
     (case validate_subscriptions (ce_sub_urls E) (sn_subs p) of
        Some e \<Rightarrow> Some (BadSubscriptions e)
      | None \<Rightarrow> (case prepare_all (\<lambda>_. ''new'') 0 (sn_rewrites p) of
          Inl e \<Rightarrow> Some (BadRewrites e)
        | Inr _ \<Rightarrow> (case propose [] (sn_clients p) of Inl e \<Rightarrow> Some (BadClients e) | Inr _ \<Rightarrow> None)))"

fun first_error :: "config_error option list \<Rightarrow> config_error option" where
  "first_error [] = None"
| "first_error (Some e # es) = Some e"
| "first_error (None # es) = first_error es"

definition validate_all :: "config_env \<Rightarrow> config_snapshot \<Rightarrow> config_error option" where
  "validate_all E s =
     (let p = cs_payload s
      in first_error [validate_snapshot E s, validate_resolvers (ce_urls E) (sn_upstreams p) (sn_bootstrap p),
           validate_user_rules (ce_regex E) (sn_rules p), validate_snapshot_settings (ce_urls E) p,
           validate_snapshot_routes (ce_urls E) (sn_routes p), validate_snapshot_stores E p])"

section \<open>A node and its current snapshot\<close>

text \<open>The stores and files of a node; its live settings, and how often the user rules, the upstreams and
  the cache were reloaded or cleared.\<close>

record node =
  nd_ready :: bool  \<comment> \<open>all stores are set\<close>
  nd_subs :: sub_store
  nd_rewrites :: rw_store
  nd_clients :: registry
  nd_rules :: "string option"
  nd_upstreams :: "json option"
  nd_routes :: dns_routes
  nd_settings :: settings_store
  nd_engine :: engine
  nd_previous :: "config_snapshot option"
  nd_live :: "settings option"
  nd_rule_reloads :: nat
  nd_reloads :: nat
  nd_clears :: nat
  nd_env_upstreams :: "string list"
  nd_env_bootstrap :: "string list"

definition configured_resolvers :: "node \<Rightarrow> upstream_settings" where
  "configured_resolvers n =
     (let s0 = load_upstream_settings (nd_upstreams n);
          s1 = (if us_upstreams s0 = [] then s0\<lparr>us_upstreams := nd_env_upstreams n\<rparr> else s0)
      in if us_bootstrap_configured s1 then s1 else s1\<lparr>us_bootstrap := nd_env_bootstrap n\<rparr>)"

definition current_payload :: "node \<Rightarrow> config_payload" where
  "current_payload n =
     \<lparr>sn_version = current_version, sn_upstreams = us_upstreams (configured_resolvers n),
      sn_bootstrap = us_bootstrap (configured_resolvers n), sn_routes = get_routes_map (nd_routes n),
      sn_subs = sst_items (nd_subs n), sn_rules = (case nd_rules n of None \<Rightarrow> [] | Some t \<Rightarrow> t),
      sn_rewrites = List.map strip_prefixes (list_rewrites (nd_rewrites n)),
      sn_clients = List.map strip_nets (list_clients (nd_clients n)), sn_settings = Some (ss_items (nd_settings n))\<rparr>"

definition current_snapshot :: "config_env \<Rightarrow> node \<Rightarrow> config_snapshot" where
  "current_snapshot E n = new_config_snapshot E (current_payload n)"

section \<open>Applying a snapshot\<close>

text \<open>What decides a run: the ids that are drawn and the success of each file operation.\<close>

record apply_io =
  io_readable :: bool
  io_previous :: bool
  io_subs :: bool
  io_rewrites :: bool
  io_clients :: bool
  io_rules :: bool
  io_upstreams :: bool
  io_routes :: bool
  io_settings :: bool
  io_sub_ids :: "nat \<Rightarrow> string option"
  io_rewrite_ids :: "nat \<Rightarrow> string"

definition save_previous :: "bool \<Rightarrow> config_snapshot \<Rightarrow> node \<Rightarrow> config_error option \<times> node" where
  "save_previous ok s n = (if ok then (None, n\<lparr>nd_previous := Some s\<rparr>) else (Some PreviousNotSaved, n))"

text \<open>loadPreviousConfigSnapshot: a saved snapshot that does not validate is not returned.\<close>

definition load_previous :: "config_env \<Rightarrow> node \<Rightarrow> config_snapshot option" where
  "load_previous E n =
     (case nd_previous n of None \<Rightarrow> None | Some s \<Rightarrow> if validate_snapshot E s = None then Some s else None)"

fun crlf_to_lf :: "string \<Rightarrow> string" where
  "crlf_to_lf (a # b # s) = (if a = CHR 0x0D \<and> b = CHR 0x0A then CHR 0x0A # crlf_to_lf s else a # crlf_to_lf (b # s))"
| "crlf_to_lf s = s"

definition normal_rules :: "string \<Rightarrow> string" where
  "normal_rules t0 = (let t = crlf_to_lf t0 in if t \<noteq> [] \<and> last t \<noteq> CHR 0x0A then t @ [CHR 0x0A] else t)"

definition replace_user_rules :: "string \<Rightarrow> bool \<Rightarrow> node \<Rightarrow> config_error option \<times> node" where
  "replace_user_rules t ok n =
     (if max_user_rules < length t then (Some RulesTooLong, n)
      else if \<not> ok then (Some RulesNotSaved, n)
      else (None, n\<lparr>nd_rules := Some (normal_rules t), nd_rule_reloads := Suc (nd_rule_reloads n),
                    nd_clears := Suc (nd_clears n)\<rparr>))"

type_synonym stage = "node \<Rightarrow> config_error option \<times> node"

definition apply_subs :: "config_env \<Rightarrow> config_payload \<Rightarrow> apply_io \<Rightarrow> stage" where
  "apply_subs E p io n =
     (case replace_subs (ce_sub_urls E) (io_sub_ids io) (sn_subs p) (io_subs io) (nd_subs n) of
        (e, s) \<Rightarrow> (map_option BadSubscriptions e, n\<lparr>nd_subs := s\<rparr>))"

definition apply_rewrites :: "config_payload \<Rightarrow> apply_io \<Rightarrow> stage" where
  "apply_rewrites p io n =
     (case replace_rewrites (io_rewrites io) (io_rewrite_ids io) (sn_rewrites p) (nd_rewrites n) of
        (e, s) \<Rightarrow> (map_option BadRewrites e, n\<lparr>nd_rewrites := s\<rparr>))"

definition apply_clients :: "config_payload \<Rightarrow> apply_io \<Rightarrow> stage" where
  "apply_clients p io n =
     (case replace_clients (sn_clients p) (io_clients io) (nd_clients n) of
        (e, s) \<Rightarrow> (map_option BadClients e, n\<lparr>nd_clients := s\<rparr>))"

definition apply_upstreams :: "config_payload \<Rightarrow> apply_io \<Rightarrow> stage" where
  "apply_upstreams p io n =
     (if io_upstreams io
      then (None, n\<lparr>nd_upstreams := Some (save_upstream_settings
              \<lparr>us_upstreams = sn_upstreams p, us_bootstrap = sn_bootstrap p, us_bootstrap_configured = True\<rparr>)\<rparr>)
      else (Some UpstreamsNotSaved, n))"

definition apply_routes :: "config_payload \<Rightarrow> apply_io \<Rightarrow> stage" where
  "apply_routes p io n =
     (let s = set_routes (sn_routes p) (io_routes io) (nd_routes n)
      in (if dr_has_path (nd_routes n) \<and> \<not> io_routes io then Some RoutesNotSaved else None, n\<lparr>nd_routes := s\<rparr>))"

definition apply_settings_store :: "config_env \<Rightarrow> config_payload \<Rightarrow> apply_io \<Rightarrow> stage" where
  "apply_settings_store E p io n =
     (case sn_settings p of
        None \<Rightarrow> (None, n)
      | Some s \<Rightarrow>
          (case replace_settings (ce_urls E) s (io_settings io) (nd_settings n) of
             (Some e, st) \<Rightarrow> (Some (BadSettings e), n\<lparr>nd_settings := st\<rparr>)
           | (None, st) \<Rightarrow> (None, n\<lparr>nd_settings := st, nd_live := Some (ss_items st)\<rparr>)))"

fun run_stages :: "stage list \<Rightarrow> stage" where
  "run_stages [] n = (None, n)"
| "run_stages (f # fs) n = (case f n of (Some e, n1) \<Rightarrow> (Some e, n1) | (None, n1) \<Rightarrow> run_stages fs n1)"

text \<open>applyConfigStores: seven stores in this order; the first failure ends it. Only a complete run
  rebuilds the engine's sources, reloads the upstreams and clears the cache.\<close>

definition activate :: "config_env \<Rightarrow> stage" where
  "activate E n = (None, n\<lparr>nd_engine := replace_url_sources (ce_regex E) (ce_history E) (ce_valid_url E)
                               (sst_items (nd_subs n)) (nd_engine n),
                          nd_reloads := Suc (nd_reloads n), nd_clears := Suc (nd_clears n)\<rparr>)"

definition apply_stores :: "config_env \<Rightarrow> config_payload \<Rightarrow> apply_io \<Rightarrow> stage" where
  "apply_stores E p io = run_stages
     [apply_subs E p io, apply_rewrites p io, apply_clients p io, replace_user_rules (sn_rules p) (io_rules io),
      apply_upstreams p io, apply_routes p io, apply_settings_store E p io, activate E]"

datatype apply_outcome =
  Applied | Unchanged | Panicked | Refused config_error | RolledBack config_error | RollbackFailed config_error config_error

text \<open>ApplyConfigSnapshot; \<open>io2\<close> decides the rollback.\<close>

definition apply_config :: "config_env \<Rightarrow> config_snapshot \<Rightarrow> apply_io \<Rightarrow> apply_io \<Rightarrow> node \<Rightarrow> apply_outcome \<times> node" where
  "apply_config E s io io2 n =
     (case validate_all E s of
        Some e \<Rightarrow> (if e = RulesPanic then Panicked else Refused e, n)
      | None \<Rightarrow>
          (if \<not> nd_ready n then (Refused StoresMissing, n)
           else if \<not> io_readable io then (Refused RulesUnreadable, n)
           else
             (let previous = current_snapshot E n
              in if cs_revision previous = cs_revision s then (Unchanged, n)
                 else case save_previous (io_previous io) previous n of
                        (Some e, n1) \<Rightarrow> (Refused e, n1)
                      | (None, n1) \<Rightarrow>
                          (case apply_stores E (cs_payload s) io n1 of
                             (None, n2) \<Rightarrow> (Applied, n2)
                           | (Some e, n2) \<Rightarrow>
                               (case apply_stores E (cs_payload previous) io2 n2 of
                                  (None, n3) \<Rightarrow> (RolledBack e, n3)
                                | (Some e2, n3) \<Rightarrow> (RollbackFailed e e2, n3))))))"

section \<open>Applying what a node holds\<close>

definition conflict_free :: "client list \<Rightarrow> bool" where
  "conflict_free cs \<longleftrightarrow> (\<forall>c \<in> set cs. \<forall>d \<in> set cs. c \<noteq> d \<longrightarrow> \<not> conflicts c d)"

lemma conflict_free_Cons:
  "c \<notin> set cs \<Longrightarrow> conflict_free (c # cs) \<longleftrightarrow> conflict_free cs \<and> (\<forall>d \<in> set cs. \<not> conflicts c d)"
  by (auto simp: conflict_free_def conflicts_sym)

lemma pairwise_free_iff: "pairwise_free cs \<longleftrightarrow> distinct (List.map cl_name cs) \<and> conflict_free cs"
proof (induction cs)
  case (Cons c cs)
  show ?case
  proof (cases "cl_name c \<in> cl_name ` set cs")
    case True
    then obtain d where "d \<in> set cs" "cl_name d = cl_name c" by auto
    with True show ?thesis by (auto simp: list_all_iff)
  next
    case False
    then have c: "c \<notin> set cs" by blast
    have "cl_name d \<noteq> cl_name c" if "d \<in> set cs" for d using False that by (metis imageI)
    with False Cons show ?thesis unfolding conflict_free_Cons [OF c] by (auto simp: list_all_iff conflicts_sym [of c])
  qed
qed (simp add: conflict_free_def)

lemma distinct_map_sort: "distinct (List.map f (sort_key g xs)) = distinct (List.map f xs)"
  by (simp add: distinct_map)

lemma sound_sorted: "sound_clients cs \<Longrightarrow> sound_clients (sort_key f cs)"
  by (simp add: sound_clients_def pairwise_free_iff conflict_free_def distinct_map_sort list_all_iff)

lemma propose_sound_clients:
  "sound_clients (ps @ cs) \<Longrightarrow> propose ps (List.map strip_nets cs) = Inr (ps @ cs)"
proof (induction cs arbitrary: ps)
  case (Cons c cs)
  then have "compile_client (strip_nets c) = Inr c" "validate_conflicts ps c" "cl_name c \<notin> cl_name ` set ps"
    by (auto simp: sound_clients_def compiled_def pairwise_free_append validate_conflicts_iff)
  moreover have "propose (ps @ [c]) (List.map strip_nets cs) = Inr ((ps @ [c]) @ cs)" using Cons by simp
  moreover have "cl_name (strip_nets c) = cl_name c" by (simp add: strip_nets_def)
  ultimately show ?case by simp
qed simp

lemma sort_key_sorted: "sorted (List.map f xs) \<Longrightarrow> sort_key f xs = xs"
  by (simp add: sort_key_id_if_sorted)

text \<open>The routes map of routes with distinct lower-case patterns.\<close>

lemma foldl_gm_set: "distinct (List.map fst m @ List.map f rs) \<Longrightarrow>
    foldl (\<lambda>m r. gm_set (f r) (g r) m) m rs = m @ List.map (\<lambda>r. (f r, g r)) rs"
proof (induction rs arbitrary: m)
  case (Cons r rs)
  then have "gm_set (f r) (g r) m = m @ [(f r, g r)]" by (induction m) auto
  with Cons show ?case by simp
qed simp

lemma routes_map_list: "distinct (List.map ro_pattern (dr_routes s)) \<Longrightarrow>
    get_routes_map s = List.map (\<lambda>r. (ro_pattern r, ro_upstream r)) (dr_routes s)"
  using foldl_gm_set [of "[]" ro_pattern "dr_routes s" ro_upstream] by (simp add: get_routes_map_def)

definition routes_normal :: "route list \<Rightarrow> bool" where
  "routes_normal rs \<longleftrightarrow> distinct (List.map ro_pattern rs) \<and> list_all (\<lambda>r. to_lower (ro_pattern r) = ro_pattern r) rs \<and>
     sorted (List.map route_key rs)"

lemma routes_of_normal: "routes_normal rs \<Longrightarrow> routes_of (List.map (\<lambda>r. (ro_pattern r, ro_upstream r)) rs) = rs"
proof -
  assume n: "routes_normal rs"
  then have "List.map (\<lambda>(p, u). \<lparr>ro_pattern = to_lower p, ro_upstream = u\<rparr>) (List.map (\<lambda>r. (ro_pattern r, ro_upstream r)) rs) = rs"
    by (auto simp: routes_normal_def list_all_iff intro!: map_idI)
  with n show ?thesis by (simp add: routes_of_def sort_routes_def routes_normal_def sort_key_sorted)
qed

lemma normal_rules_cases:
  "crlf_to_lf t = t \<Longrightarrow> t = [] \<or> last t = CHR 0x0A \<Longrightarrow> normal_rules t = t"
  by (auto simp: normal_rules_def)

section \<open>Payloads that can be applied\<close>

text \<open>A payload as a node with stores in normal form reports it.\<close>

definition payload_ok :: "config_env \<Rightarrow> config_payload \<Rightarrow> bool" where
  "payload_ok E p \<longleftrightarrow>
     list_all (normal_sub (ce_sub_urls E)) (sn_subs p) \<and> validate_subscriptions (ce_sub_urls E) (sn_subs p) = None \<and>
     (\<exists>rs. list_all prepared rs \<and> list_all reloadable rs \<and> sorted (List.map (\<lambda>r. [rw_domain r, rw_type r]) rs) \<and>
        sn_rewrites p = List.map strip_prefixes rs) \<and>
     (\<exists>cs. sound_clients cs \<and> sorted (List.map cl_name cs) \<and> sn_clients p = List.map strip_nets cs) \<and>
     length (sn_rules p) \<le> max_user_rules \<and> normal_rules (sn_rules p) = sn_rules p \<and>
     (\<exists>rs. routes_normal rs \<and> sn_routes p = List.map (\<lambda>r. (ro_pattern r, ro_upstream r)) rs) \<and>
     (\<exists>s. sn_settings p = Some s \<and> normalize_settings s = s \<and> validate_settings (ce_urls E) s = None) \<and>
     sn_version p = current_version"

definition node_ok :: "config_env \<Rightarrow> node \<Rightarrow> bool" where
  "node_ok E n \<longleftrightarrow>
     list_all (normal_sub (ce_sub_urls E)) (sst_items (nd_subs n)) \<and> subs_ok (ce_sub_urls E) (nd_subs n) \<and>
     list_all prepared (rs_items (nd_rewrites n)) \<and> list_all reloadable (rs_items (nd_rewrites n)) \<and>
     sound_clients (rg_clients (nd_clients n)) \<and>
     (case nd_rules n of None \<Rightarrow> True | Some t \<Rightarrow> length t \<le> max_user_rules \<and> normal_rules t = t) \<and>
     routes_normal (dr_routes (nd_routes n)) \<and> settings_ok (ce_urls E) (nd_settings n)"

lemma list_all_sort: "list_all P (sort_key f xs) = list_all P xs"
  by (simp add: list_all_iff)

lemma normal_rules_Nil: "normal_rules [] = []"
  by (simp add: normal_rules_def)

lemma current_payload_ok: "node_ok E n \<Longrightarrow> payload_ok E (current_payload n)"
proof -
  assume n: "node_ok E n"
  have "list_all prepared (list_rewrites (nd_rewrites n)) \<and> list_all reloadable (list_rewrites (nd_rewrites n)) \<and>
      sorted (List.map (\<lambda>r. [rw_domain r, rw_type r]) (list_rewrites (nd_rewrites n)))"
    using n by (simp add: list_rewrites_def node_ok_def list_all_sort)
  moreover have "sound_clients (list_clients (nd_clients n)) \<and> sorted (List.map cl_name (list_clients (nd_clients n)))"
    using n by (simp add: list_clients_def node_ok_def sound_sorted)
  moreover have "get_routes_map (nd_routes n) = List.map (\<lambda>r. (ro_pattern r, ro_upstream r)) (dr_routes (nd_routes n))"
    using n by (intro routes_map_list) (simp add: node_ok_def routes_normal_def)
  ultimately show ?thesis
    using n unfolding payload_ok_def
    by (auto simp: node_ok_def current_payload_def subs_ok_def settings_ok_def normal_rules_Nil max_user_rules_def
        split: option.splits)
qed

text \<open>Every stage either fails without a trace or puts its part of the payload in place.\<close>

definition io_ok :: "apply_io \<Rightarrow> bool" where
  "io_ok io \<longleftrightarrow> io_subs io \<and> io_rewrites io \<and> io_clients io \<and> io_rules io \<and> io_upstreams io \<and> io_routes io \<and> io_settings io"

lemma apply_subs_ok:
  "payload_ok E p \<Longrightarrow> io_subs io \<Longrightarrow>
   apply_subs E p io n = (None, n\<lparr>nd_subs := \<lparr>sst_items = sn_subs p, sst_file = Some (sn_subs p)\<rparr>\<rparr>)"
  by (simp add: apply_subs_def payload_ok_def replace_normal)

lemma save_items_ok: "\<exists>s'. save_items True items s = (True, s')"
  by (simp add: save_items_def)

lemma apply_rewrites_ok:
  assumes "payload_ok E p" and "io_rewrites io"
  shows "\<exists>s. apply_rewrites p io n = (None, n\<lparr>nd_rewrites := s\<rparr>) \<and> List.map strip_prefixes (list_rewrites s) = sn_rewrites p \<and>
    list_all prepared (rs_items s) \<and> list_all reloadable (rs_items s)"
proof -
  from assms(1) obtain rs where rs: "list_all prepared rs" "list_all reloadable rs" "sn_rewrites p = List.map strip_prefixes rs"
    and sorted: "sorted (List.map (\<lambda>r. [rw_domain r, rw_type r]) rs)" by (auto simp: payload_ok_def)
  from prepare_all_reload [OF rs(1,2)] have prep: "prepare_all ids 0 (sn_rewrites p) = Inr rs" for ids by (simp add: rs(3))
  obtain s' where s': "save_items True rs (nd_rewrites n) = (True, s')" using save_items_ok by blast
  have "apply_rewrites p io n = (None, n\<lparr>nd_rewrites := s'\<lparr>rs_items := rs\<rparr>\<rparr>)"
    by (simp add: apply_rewrites_def replace_rewrites_def prep assms(2) s')
  moreover have "list_rewrites (s'\<lparr>rs_items := rs\<rparr>) = rs" by (simp add: list_rewrites_def sort_key_sorted sorted)
  moreover have "rs_items (s'\<lparr>rs_items := rs\<rparr>) = rs" by simp
  ultimately show ?thesis using rs by metis
qed

lemma apply_clients_ok:
  assumes "payload_ok E p" and "io_clients io"
  shows "\<exists>s. apply_clients p io n = (None, n\<lparr>nd_clients := s\<rparr>) \<and> List.map strip_nets (list_clients s) = sn_clients p \<and>
    sound_clients (rg_clients s)"
proof -
  from assms(1) obtain cs where cs: "sound_clients cs" "sorted (List.map cl_name cs)" "sn_clients p = List.map strip_nets cs"
    by (auto simp: payload_ok_def)
  have pr: "propose [] (sn_clients p) = Inr cs" using propose_sound_clients [of "[]" cs] cs by simp
  obtain s' where s': "publish_clients True cs (nd_clients n) = (None, s')" and rg: "rg_clients s' = cs"
    by (cases "rg_has_path (nd_clients n)") (auto simp: publish_clients_def save_clients_def)
  have "apply_clients p io n = (None, n\<lparr>nd_clients := s'\<rparr>)"
    by (simp add: apply_clients_def replace_clients_def pr assms(2) s')
  moreover have "list_clients s' = cs" by (simp add: list_clients_def rg sort_key_sorted cs(2))
  ultimately show ?thesis using cs(1,3) rg by metis
qed

lemma replace_user_rules_ok:
  "payload_ok E p \<Longrightarrow> io_rules io \<Longrightarrow> replace_user_rules (sn_rules p) (io_rules io) n =
     (None, n\<lparr>nd_rules := Some (sn_rules p), nd_rule_reloads := Suc (nd_rule_reloads n), nd_clears := Suc (nd_clears n)\<rparr>)"
  by (simp add: replace_user_rules_def payload_ok_def)

lemma apply_routes_ok:
  assumes "payload_ok E p" and "io_routes io"
  shows "\<exists>s. apply_routes p io n = (None, n\<lparr>nd_routes := s\<rparr>) \<and> get_routes_map s = sn_routes p \<and> routes_normal (dr_routes s)"
proof -
  from assms(1) obtain rs where rs: "routes_normal rs" "sn_routes p = List.map (\<lambda>r. (ro_pattern r, ro_upstream r)) rs"
    by (auto simp: payload_ok_def)
  let ?s = "set_routes (sn_routes p) (io_routes io) (nd_routes n)"
  have d: "dr_routes ?s = rs" using rs by (simp add: set_routes_def assms(2) routes_of_normal)
  then have "get_routes_map ?s = sn_routes p"
    using rs routes_map_list [of ?s] by (simp add: routes_normal_def)
  moreover have "apply_routes p io n = (None, n\<lparr>nd_routes := ?s\<rparr>)" by (simp add: apply_routes_def assms(2))
  ultimately show ?thesis using d rs(1) by metis
qed

lemma apply_settings_store_ok:
  assumes "payload_ok E p" and "io_settings io"
  shows "\<exists>s l. apply_settings_store E p io n = (None, n\<lparr>nd_settings := s, nd_live := l\<rparr>) \<and> Some (ss_items s) = sn_settings p \<and>
    l = Some (ss_items s) \<and> settings_ok (ce_urls E) s"
proof -
  from assms(1) obtain s where s: "sn_settings p = Some s" "normalize_settings s = s" "validate_settings (ce_urls E) s = None"
    by (auto simp: payload_ok_def)
  obtain st where st: "replace_settings (ce_urls E) s (io_settings io) (nd_settings n) = (None, st)" "ss_items st = s"
    using s assms(2) by (cases "ss_has_path (nd_settings n)") (auto simp: replace_settings_def save_settings_def Let_def)
  then have "apply_settings_store E p io n = (None, n\<lparr>nd_settings := st, nd_live := Some (ss_items st)\<rparr>)"
    using s(1) by (simp add: apply_settings_store_def)
  moreover have "settings_ok (ce_urls E) st" using st(2) s by (simp add: settings_ok_def)
  ultimately show ?thesis using st s(1) by metis
qed

lemma configured_after_save:
  "us \<noteq> [] \<or> nd_env_upstreams n = [] \<Longrightarrow>
   nd_upstreams n = Some (save_upstream_settings \<lparr>us_upstreams = us, us_bootstrap = bs, us_bootstrap_configured = True\<rparr>) \<Longrightarrow>
   us_upstreams (configured_resolvers n) = us \<and> us_bootstrap (configured_resolvers n) = bs"
  by (auto simp: configured_resolvers_def load_saved_settings Let_def)

section \<open>All or nothing\<close>

lemma apply_stores_ok:
  assumes p: "payload_ok E p" and io: "io_ok io" and env: "sn_upstreams p \<noteq> [] \<or> nd_env_upstreams n = []"
  shows "\<exists>m. apply_stores E p io n = (None, m) \<and> current_payload m = p \<and> nd_live m = sn_settings p \<and> node_ok E m"
proof -
  from io have io': "io_subs io" "io_rewrites io" "io_clients io" "io_rules io" "io_upstreams io" "io_routes io" "io_settings io"
    by (simp_all add: io_ok_def)
  let ?n1 = "n\<lparr>nd_subs := \<lparr>sst_items = sn_subs p, sst_file = Some (sn_subs p)\<rparr>\<rparr>"
  obtain rw where rw: "apply_rewrites p io ?n1 = (None, ?n1\<lparr>nd_rewrites := rw\<rparr>)"
    "List.map strip_prefixes (list_rewrites rw) = sn_rewrites p" "list_all prepared (rs_items rw)" "list_all reloadable (rs_items rw)"
    using apply_rewrites_ok [OF p io'(2)] by blast
  let ?n2 = "?n1\<lparr>nd_rewrites := rw\<rparr>"
  obtain rg where rg: "apply_clients p io ?n2 = (None, ?n2\<lparr>nd_clients := rg\<rparr>)"
    "List.map strip_nets (list_clients rg) = sn_clients p" "sound_clients (rg_clients rg)"
    using apply_clients_ok [OF p io'(3)] by blast
  let ?n3 = "?n2\<lparr>nd_clients := rg\<rparr>"
  let ?n4 = "?n3\<lparr>nd_rules := Some (sn_rules p), nd_rule_reloads := Suc (nd_rule_reloads ?n3), nd_clears := Suc (nd_clears ?n3)\<rparr>"
  let ?n5 = "?n4\<lparr>nd_upstreams := Some (save_upstream_settings
      \<lparr>us_upstreams = sn_upstreams p, us_bootstrap = sn_bootstrap p, us_bootstrap_configured = True\<rparr>)\<rparr>"
  obtain dr where dr: "apply_routes p io ?n5 = (None, ?n5\<lparr>nd_routes := dr\<rparr>)" "get_routes_map dr = sn_routes p" "routes_normal (dr_routes dr)"
    using apply_routes_ok [OF p io'(6)] by blast
  let ?n6 = "?n5\<lparr>nd_routes := dr\<rparr>"
  obtain st l where st: "apply_settings_store E p io ?n6 = (None, ?n6\<lparr>nd_settings := st, nd_live := l\<rparr>)" "Some (ss_items st) = sn_settings p"
    "l = Some (ss_items st)" "settings_ok (ce_urls E) st" using apply_settings_store_ok [OF p io'(7)] by blast
  let ?n7 = "?n6\<lparr>nd_settings := st, nd_live := l\<rparr>"
  have up: "apply_upstreams p io ?n4 = (None, ?n5)" by (simp add: apply_upstreams_def io'(5))
  have "apply_stores E p io n = run_stages [activate E] ?n7"
    unfolding apply_stores_def by (simp only: run_stages.simps apply_subs_ok [OF p io'(1)] rw(1) rg(1)
        replace_user_rules_ok [OF p io'(4)] up dr(1) st(1) prod.case option.case)
  also have "\<dots> = activate E ?n7" by (simp add: activate_def)
  finally have run: "apply_stores E p io n = activate E ?n7" .
  have conf: "us_upstreams (configured_resolvers (snd (activate E ?n7))) = sn_upstreams p"
    "us_bootstrap (configured_resolvers (snd (activate E ?n7))) = sn_bootstrap p"
    using configured_after_save [of "sn_upstreams p" "snd (activate E ?n7)" "sn_bootstrap p"] env
    by (simp_all add: activate_def)
  have "sn_version p = current_version" using p by (simp add: payload_ok_def)
  then have "current_payload (snd (activate E ?n7)) = p"
    unfolding current_payload_def conf by (simp add: activate_def rw(2) rg(2) dr(2) st(2))
  moreover have "fst (activate E ?n7) = None" "nd_live (snd (activate E ?n7)) = sn_settings p"
    by (simp_all add: activate_def st(2,3))
  moreover have "node_ok E (snd (activate E ?n7))"
    using p rw(3,4) rg(3) dr(3) st(4) by (simp add: activate_def node_ok_def payload_ok_def subs_ok_def)
  ultimately show ?thesis using run by (metis prod.collapse)
qed

text \<open>A run that fails keeps the node's environment and readiness.\<close>

definition stage_frame :: "node \<Rightarrow> node \<Rightarrow> bool" where
  "stage_frame n m \<longleftrightarrow> nd_env_upstreams m = nd_env_upstreams n \<and> nd_env_bootstrap m = nd_env_bootstrap n \<and>
     nd_ready m = nd_ready n"

lemma stage_frames:
  "stage_frame n (snd (apply_subs E p io n))" "stage_frame n (snd (apply_rewrites p io n))"
  "stage_frame n (snd (apply_clients p io n))" "stage_frame n (snd (replace_user_rules t ok n))"
  "stage_frame n (snd (apply_upstreams p io n))" "stage_frame n (snd (apply_routes p io n))"
  "stage_frame n (snd (apply_settings_store E p io n))" "stage_frame n (snd (activate E n))"
  by (simp_all add: stage_frame_def apply_subs_def apply_rewrites_def apply_clients_def replace_user_rules_def
      apply_upstreams_def apply_routes_def apply_settings_store_def activate_def Let_def split_beta split: option.split)

lemma stage_frame_trans: "stage_frame n m \<Longrightarrow> stage_frame m k \<Longrightarrow> stage_frame n k"
  by (simp add: stage_frame_def)

lemma run_stages_frame: "(\<And>f n. f \<in> set fs \<Longrightarrow> stage_frame n (snd (f n))) \<Longrightarrow> stage_frame n (snd (run_stages fs n))"
proof (induction fs arbitrary: n)
  case Nil
  show ?case by (simp add: stage_frame_def)
next
  case (Cons f fs)
  have f: "stage_frame n (snd (f n))" and fs: "stage_frame m (snd (run_stages fs m))" for m
    using Cons by simp_all
  show ?case using f fs [of "snd (f n)"] by (cases "f n") (auto split: option.split intro: stage_frame_trans)
qed

lemma apply_stores_frame: "stage_frame n (snd (apply_stores E p io n))"
  unfolding apply_stores_def by (rule run_stages_frame) (auto simp: stage_frames)

lemma current_payload_previous: "current_payload (n\<lparr>nd_previous := x\<rparr>) = current_payload n"
  by (simp add: current_payload_def configured_resolvers_def Let_def)

lemma payload_upstreams: "sn_upstreams (current_payload n) \<noteq> [] \<or> nd_env_upstreams n = []"
  by (simp add: current_payload_def configured_resolvers_def Let_def)

lemma current_payload_normal: "node_ok E n \<Longrightarrow> cs_payload (current_snapshot E n) = current_payload n"
  by (simp add: current_snapshot_def new_config_snapshot_def Let_def current_payload_def node_ok_def settings_ok_def)

lemma rollback_ok:
  assumes "node_ok E n" and "io_ok io2" and "stage_frame n m"
  shows "\<exists>m'. apply_stores E (cs_payload (current_snapshot E n)) io2 m = (None, m') \<and> current_payload m' = current_payload n \<and>
    node_ok E m'"
  using apply_stores_ok [OF current_payload_ok [OF assms(1)] assms(2), of m] payload_upstreams [of n] assms(3)
  unfolding current_payload_normal [OF assms(1)] by (auto simp: stage_frame_def)

lemma apply_config_early:
  "(validate_all E s = None \<and> nd_ready n \<and> io_readable io \<and> cs_revision (current_snapshot E n) \<noteq> cs_revision s \<and> io_previous io) \<or>
   (\<exists>e. apply_config E s io io2 n \<in> {(Panicked, n), (Refused e, n)}) \<or>
   (apply_config E s io io2 n = (Unchanged, n) \<and> validate_all E s = None \<and> cs_revision (current_snapshot E n) = cs_revision s)"
  by (auto simp: apply_config_def Let_def save_previous_def split: option.split)

lemma apply_config_cases:
  assumes n: "node_ok E n" and io2: "io_ok io2"
  shows "(\<exists>e. apply_config E s io io2 n \<in> {(Panicked, n), (Refused e, n)}) \<or>
    (apply_config E s io io2 n = (Unchanged, n) \<and> validate_all E s = None \<and> cs_revision (current_snapshot E n) = cs_revision s) \<or>
    (\<exists>m. apply_config E s io io2 n = (Applied, m) \<and> validate_all E s = None \<and>
        apply_stores E (cs_payload s) io (n\<lparr>nd_previous := Some (current_snapshot E n)\<rparr>) = (None, m)) \<or>
    (\<exists>e m. apply_config E s io io2 n = (RolledBack e, m) \<and> current_payload m = current_payload n \<and> node_ok E m)"
proof (cases "validate_all E s = None \<and> nd_ready n \<and> io_readable io \<and>
    cs_revision (current_snapshot E n) \<noteq> cs_revision s \<and> io_previous io")
  case v: True
  let ?p = "current_snapshot E n" and ?n1 = "n\<lparr>nd_previous := Some (current_snapshot E n)\<rparr>"
  obtain e n2 where r: "apply_stores E (cs_payload s) io ?n1 = (e, n2)" by (cases "apply_stores E (cs_payload s) io ?n1")
  show ?thesis
  proof (cases e)
    case None
    with r v show ?thesis by (simp add: apply_config_def Let_def save_previous_def)
  next
    case (Some x)
    have "stage_frame n n2" using apply_stores_frame [of ?n1 E "cs_payload s" io] r by (simp add: stage_frame_def)
    from rollback_ok [OF n io2 this] obtain m where
      "apply_stores E (cs_payload ?p) io2 n2 = (None, m)" "current_payload m = current_payload n" "node_ok E m" by blast
    with r v Some show ?thesis by (simp add: apply_config_def Let_def save_previous_def)
  qed
qed (use apply_config_early [of E s n io io2] in blast)

lemma node_ok_previous: "node_ok E (n\<lparr>nd_previous := x\<rparr>) = node_ok E n"
  by (simp add: node_ok_def)

lemma first_error_None: "first_error es = None \<longleftrightarrow> list_all (\<lambda>e. e = None) es"
proof (induction es)
  case (Cons e es)
  then show ?case by (cases e) simp_all
qed simp

lemma validated_upstreams: "validate_all E s = None \<Longrightarrow> sn_upstreams (cs_payload s) \<noteq> []"
  by (auto simp: validate_all_def Let_def first_error_None validate_resolvers_def)

lemma valid_snapshot_revision: "validate_all E s = None \<Longrightarrow> cs_revision s = ce_digest E (cs_payload s)"
  by (auto simp: validate_all_def Let_def first_error_None validate_snapshot_def valid_revision_def split: if_splits)

text \<open>A snapshot of one node in normal form, applied on another one.\<close>

definition settled :: "apply_outcome \<Rightarrow> bool" where
  "settled out \<longleftrightarrow> out = Applied \<or> out = Unchanged"

text \<open>A complete run does what it does when every write succeeds.\<close>

definition all_writes :: "apply_io \<Rightarrow> apply_io" where
  "all_writes io = io\<lparr>io_subs := True, io_rewrites := True, io_clients := True, io_rules := True, io_upstreams := True,
     io_routes := True, io_settings := True\<rparr>"

lemma io_ok_all: "io_ok (all_writes io)"
  by (simp add: io_ok_def all_writes_def)

definition same_success :: "stage \<Rightarrow> stage \<Rightarrow> bool" where
  "same_success f g \<longleftrightarrow> (\<forall>n. fst (f n) = None \<longrightarrow> g n = f n)"

lemma run_stages_same: "list_all2 same_success fs gs \<Longrightarrow> fst (run_stages fs n) = None \<Longrightarrow> run_stages gs n = run_stages fs n"
proof (induction fs gs arbitrary: n rule: list_all2_induct)
  case (Cons f fs g gs)
  from Cons.prems have "fst (f n) = None" by (cases "f n") (auto split: option.splits)
  with Cons.hyps(1) have "g n = f n" by (simp add: same_success_def)
  with Cons show ?case by (cases "f n") (auto split: option.splits)
qed simp

lemma replace_subs_success: "fst (replace_subs U fr bs ok s) = None \<Longrightarrow> replace_subs U fr bs True s = replace_subs U fr bs ok s"
  by (auto simp: replace_subs_def split: sum.splits option.splits if_splits)

lemma replace_rewrites_success: "fst (replace_rewrites ok ids rs s) = None \<Longrightarrow> replace_rewrites True ids rs s = replace_rewrites ok ids rs s"
  by (auto simp: replace_rewrites_def save_items_def split: sum.splits if_splits)

lemma replace_clients_success: "fst (replace_clients cs ok s) = None \<Longrightarrow> replace_clients cs True s = replace_clients cs ok s"
  by (auto simp: replace_clients_def publish_clients_def save_clients_def split: sum.splits if_splits)

lemma replace_settings_success: "fst (replace_settings U x ok s) = None \<Longrightarrow> replace_settings U x True s = replace_settings U x ok s"
  by (auto simp: replace_settings_def save_settings_def Let_def split: option.splits if_splits)

lemma stages_same:
  "same_success (apply_subs E p io) (apply_subs E p (all_writes io))"
  "same_success (apply_rewrites p io) (apply_rewrites p (all_writes io))"
  "same_success (apply_clients p io) (apply_clients p (all_writes io))"
  "same_success (replace_user_rules t ok) (replace_user_rules t True)"
  "same_success (apply_upstreams p io) (apply_upstreams p (all_writes io))"
  "same_success (apply_routes p io) (apply_routes p (all_writes io))"
  "same_success (apply_settings_store E p io) (apply_settings_store E p (all_writes io))"
  "same_success f f"
  unfolding same_success_def all_writes_def
  subgoal by (auto simp: apply_subs_def replace_subs_success split_beta)
  subgoal by (auto simp: apply_rewrites_def replace_rewrites_success split_beta)
  subgoal by (auto simp: apply_clients_def replace_clients_success split_beta)
  subgoal by (auto simp: replace_user_rules_def split: if_splits)
  subgoal by (auto simp: apply_upstreams_def split: if_splits)
  subgoal by (auto simp: apply_routes_def Let_def set_routes_def split: if_splits)
  subgoal by (auto simp: apply_settings_store_def replace_settings_success split_beta split: option.splits)
  subgoal by simp
  done

lemma apply_stores_success: "apply_stores E p io n = (None, m) \<Longrightarrow> apply_stores E p (all_writes io) n = (None, m)"
proof -
  assume r: "apply_stores E p io n = (None, m)"
  have "apply_stores E p (all_writes io) n = apply_stores E p io n"
    unfolding apply_stores_def
    by (rule run_stages_same) (use r in \<open>simp_all add: stages_same apply_stores_def\<close>, simp add: stages_same all_writes_def)
  with r show ?thesis by simp
qed

lemma apply_config_outcome:
  assumes c: "node_ok E c" and n: "node_ok E n" and io2: "io_ok io2" and dig: "inj_on (ce_digest E) {current_payload c, current_payload n}"
    and run: "apply_config E (current_snapshot E c) io io2 n = (out, m)"
  shows "node_ok E m \<and> current_payload m = (if settled out then current_payload c else current_payload n) \<and>
    (\<forall>e e2. out \<noteq> RollbackFailed e e2)"
  using apply_config_cases [OF n io2, of "current_snapshot E c" io]
proof (elim disjE exE conjE)
  fix a
  assume "apply_config E (current_snapshot E c) io io2 n = (Applied, a)" and v: "validate_all E (current_snapshot E c) = None"
    and r: "apply_stores E (cs_payload (current_snapshot E c)) io (n\<lparr>nd_previous := Some (current_snapshot E n)\<rparr>) = (None, a)"
  then have o: "out = Applied" "m = a" using run by simp_all
  let ?n1 = "n\<lparr>nd_previous := Some (current_snapshot E n)\<rparr>"
  have "apply_stores E (current_payload c) (all_writes io) ?n1 = (None, a)"
    using apply_stores_success [OF r] by (simp add: current_payload_normal [OF c])
  moreover have "sn_upstreams (current_payload c) \<noteq> []"
    using validated_upstreams [OF v] by (simp add: current_payload_normal [OF c])
  ultimately have "current_payload a = current_payload c \<and> node_ok E a"
    using apply_stores_ok [OF current_payload_ok [OF c] io_ok_all, of ?n1 io] by auto
  with o show ?thesis by (simp add: settled_def)
next
  assume "apply_config E (current_snapshot E c) io io2 n = (Unchanged, n)" and v: "validate_all E (current_snapshot E c) = None"
    and rev: "cs_revision (current_snapshot E n) = cs_revision (current_snapshot E c)"
  then have o: "out = Unchanged" "m = n" using run by simp_all
  have "cs_revision (current_snapshot E k) = ce_digest E (current_payload k)" if "node_ok E k" for k
    using current_payload_normal [OF that] by (simp add: current_snapshot_def new_config_snapshot_def Let_def)
  with rev c n have "ce_digest E (current_payload n) = ce_digest E (current_payload c)" by simp
  with dig have "current_payload n = current_payload c" by (auto dest: inj_onD)
  with o n show ?thesis by (simp add: settled_def)
qed (use run n in \<open>auto simp: settled_def\<close>)

end
