(* ===== verification/Config_Sync.thy ===== *)
theory Config_Sync
  imports Config_Apply
begin

text \<open>
  forwarder/controller_transport.go, syncDNSConfig: an agent polls the snapshot of its controller and
  applies it when its revision is a new one; and the promises of the whole path, from the stores of
  the controller to those of the agent. A response that cannot be fetched or decoded is None, as is
  the state after a panic, which nothing recovers. Durations and the endpoint statistics are left out.
\<close>

section \<open>Polling the controller\<close>

datatype sync_error = SyncInvalid config_error | SyncNoCallback | SyncFailed apply_outcome

record sync_state =
  sy_node :: node
  sy_desired :: string
  sy_schema :: int
  sy_compatible :: bool
  sy_revision :: string
  sy_applied :: "config_snapshot option"
  sy_previous :: "config_snapshot option"
  sy_err :: "sync_error option"

definition clone_snapshot :: "config_snapshot \<Rightarrow> config_snapshot" where
  "clone_snapshot s = s\<lparr>cs_payload := (cs_payload s)\<lparr>sn_settings := map_option normalize_settings (sn_settings (cs_payload s))\<rparr>\<rparr>"

definition record_config_apply :: "config_snapshot \<Rightarrow> sync_error option \<Rightarrow> sync_state \<Rightarrow> sync_state" where
  "record_config_apply s e y =
     y\<lparr>sy_desired := cs_revision s, sy_schema := sn_version (cs_payload s), sy_compatible := schema_compatible s, sy_err := e\<rparr>"

definition sync_dns_config ::
  "config_env \<Rightarrow> bool \<Rightarrow> config_snapshot option \<Rightarrow> apply_io \<Rightarrow> apply_io \<Rightarrow> sync_state \<Rightarrow> sync_state option" where
  "sync_dns_config E has_callback response io io2 y =
     (case response of
        None \<Rightarrow> Some y
      | Some s \<Rightarrow>
          (let y1 = y\<lparr>sy_desired := cs_revision s, sy_schema := sn_version (cs_payload s), sy_compatible := schema_compatible s\<rparr>
           in case validate_snapshot E s of
                Some e \<Rightarrow> Some (record_config_apply s (Some (SyncInvalid e)) y1)
              | None \<Rightarrow>
                  (if cs_revision s = sy_revision y1 then Some y1
                   else if \<not> has_callback then Some (record_config_apply s (Some SyncNoCallback) y1)
                   else case apply_config E s io io2 (sy_node y1) of
                          (out, n) \<Rightarrow>
                            (if out = Panicked then None
                             else if settled out
                             then Some (y1\<lparr>sy_node := n,
                                     sy_previous := (case sy_applied y1 of None \<Rightarrow> sy_previous y1 | Some a \<Rightarrow> Some (clone_snapshot a)),
                                     sy_applied := Some (clone_snapshot s), sy_revision := cs_revision s, sy_err := None\<rparr>)
                             else Some (record_config_apply s (Some (SyncFailed out)) (y1\<lparr>sy_node := n\<rparr>))))))"

definition fresh_sync :: "node \<Rightarrow> sync_state" where
  "fresh_sync n = \<lparr>sy_node = n, sy_desired = [], sy_schema = 0, sy_compatible = False, sy_revision = [], sy_applied = None,
     sy_previous = None, sy_err = None\<rparr>"

text \<open>A run of polls: the controller as it was then (None when it could not be reached), and the file
  operations of the agent and of a rollback.\<close>

type_synonym poll = "node option \<times> apply_io \<times> apply_io"

definition sync_poll :: "config_env \<Rightarrow> bool \<Rightarrow> poll \<Rightarrow> sync_state \<Rightarrow> sync_state option" where
  "sync_poll E cb p y = (case p of (c, io, io2) \<Rightarrow> sync_dns_config E cb (map_option (current_snapshot E) c) io io2 y)"

fun sync_polls :: "config_env \<Rightarrow> bool \<Rightarrow> poll list \<Rightarrow> sync_state \<Rightarrow> sync_state option" where
  "sync_polls E cb [] y = Some y"
| "sync_polls E cb (p # ps) y = Option.bind (sync_poll E cb p y) (sync_polls E cb ps)"

section \<open>What the agent runs\<close>

definition poll_ok :: "config_env \<Rightarrow> poll \<Rightarrow> bool" where
  "poll_ok E p \<longleftrightarrow> io_ok (snd (snd p)) \<and> (case fst p of None \<Rightarrow> True | Some c \<Rightarrow> node_ok E c)"

text \<open>The digest tells the payloads that occur apart.\<close>

definition digest_ok :: "config_env \<Rightarrow> config_payload set \<Rightarrow> bool" where
  "digest_ok E P \<longleftrightarrow> inj_on (ce_digest E) P \<and> [] \<notin> ce_digest E ` P"

definition reports_truly :: "config_env \<Rightarrow> sync_state \<Rightarrow> bool" where
  "reports_truly E y \<longleftrightarrow> node_ok E (sy_node y) \<and>
     (sy_revision y = [] \<or> sy_revision y = cs_revision (current_snapshot E (sy_node y)))"

lemma node_revision: "node_ok E n \<Longrightarrow> cs_revision (current_snapshot E n) = ce_digest E (current_payload n)"
  using current_payload_normal [of E n] by (simp add: current_snapshot_def new_config_snapshot_def Let_def)

lemma current_snapshot_valid: "node_ok E c \<Longrightarrow> validate_snapshot E (current_snapshot E c) = None"
  by (simp add: validate_snapshot_def valid_revision_def schema_compatible_def node_revision current_payload_normal)
    (simp add: current_payload_def)

lemma same_revision: "digest_ok E P \<Longrightarrow> current_payload c \<in> P \<Longrightarrow> current_payload n \<in> P \<Longrightarrow> node_ok E c \<Longrightarrow> node_ok E n \<Longrightarrow>
    cs_revision (current_snapshot E c) = cs_revision (current_snapshot E n) \<Longrightarrow> current_payload c = current_payload n"
  by (auto simp: digest_ok_def node_revision dest: inj_onD [THEN sym])

lemma sync_poll_step:
  assumes E: "digest_ok E P" and P: "current_payload (sy_node y) \<in> P" "\<And>c. fst p = Some c \<Longrightarrow> current_payload c \<in> P"
    and p: "poll_ok E p" and y: "reports_truly E y" and r: "sync_poll E cb p y = Some y'"
  shows "reports_truly E y' \<and>
    (current_payload (sy_node y') = current_payload (sy_node y) \<or>
     (\<exists>c. fst p = Some c \<and> current_payload (sy_node y') = current_payload c)) \<and>
    (\<forall>c. fst p = Some c \<longrightarrow> sy_err y' = None \<longrightarrow> current_payload (sy_node y') = current_payload c)"
proof (cases "fst p")
  case None
  with r y show ?thesis by (simp add: sync_poll_def sync_dns_config_def split_beta)
next
  case (Some c)
  obtain io io2 where p_def: "p = (Some c, io, io2)" using Some by (cases p) auto
  let ?s = "current_snapshot E c"
  have c: "node_ok E c" and io2: "io_ok io2" using p by (simp_all add: poll_ok_def p_def)
  have n: "node_ok E (sy_node y)" using y by (simp add: reports_truly_def)
  note v = current_snapshot_valid [OF c]
  show ?thesis
  proof (cases "cs_revision ?s = sy_revision y")
    case True
    then have "sy_revision y \<noteq> []" using E P(2) [OF Some] c unfolding node_revision [OF c] digest_ok_def by (metis imageI)
    with True y have "current_payload c = current_payload (sy_node y)"
      using same_revision [OF E P(2) [OF Some] P(1) c n] by (simp add: reports_truly_def)
    with r True v y show ?thesis by (auto simp: sync_poll_def sync_dns_config_def p_def Let_def reports_truly_def)
  next
    case False
    obtain out m where a: "apply_config E ?s io io2 (sy_node y) = (out, m)" by (cases "apply_config E ?s io io2 (sy_node y)")
    have inj: "inj_on (ce_digest E) {current_payload c, current_payload (sy_node y)}"
      by (rule inj_on_subset [of _ P]) (use E P(1) P(2) [OF Some] in \<open>auto simp: digest_ok_def\<close>)
    note o = apply_config_outcome [OF c n io2 inj a]
    show ?thesis
    proof (cases "cb \<and> settled out")
      case True
      with o have "node_ok E m" "current_payload m = current_payload c" by simp_all
      moreover have "out \<noteq> Panicked" using True by (auto simp: settled_def)
      moreover have "cs_revision ?s = cs_revision (current_snapshot E m)"
        using calculation(1,2) c by (simp add: node_revision)
      ultimately show ?thesis using r v False True a
        by (auto simp: sync_poll_def sync_dns_config_def p_def Let_def reports_truly_def)
    next
      case fail: False
      have keep: "cs_revision (current_snapshot E m) = cs_revision (current_snapshot E (sy_node y))"
        if "\<not> settled out" using o that n by (simp add: node_revision)
      show ?thesis
      proof (cases cb)
        case True
        with fail o r v False a y keep show ?thesis
          by (auto simp: sync_poll_def sync_dns_config_def p_def Let_def reports_truly_def record_config_apply_def split: if_splits)
      next
        case no: False
        with r v False y show ?thesis
          by (auto simp: sync_poll_def sync_dns_config_def p_def Let_def reports_truly_def record_config_apply_def)
      qed
    qed
  qed
qed

definition served_payloads :: "node \<Rightarrow> poll list \<Rightarrow> config_payload set" where
  "served_payloads n ps = insert (current_payload n) {current_payload c |c. Some c \<in> fst ` set ps}"

lemma served_step:
  "current_payload m = current_payload n \<or> (\<exists>c. fst p = Some c \<and> current_payload m = current_payload c) \<Longrightarrow>
   served_payloads m ps \<subseteq> served_payloads n (p # ps)"
  by (auto simp: served_payloads_def)

lemma sync_polls_inv:
  assumes E: "digest_ok E P"
  shows "served_payloads (sy_node y) ps \<subseteq> P \<Longrightarrow> list_all (poll_ok E) ps \<Longrightarrow> reports_truly E y \<Longrightarrow> sync_polls E cb ps y = Some y' \<Longrightarrow>
    reports_truly E y' \<and> current_payload (sy_node y') \<in> served_payloads (sy_node y) ps"
proof (induction ps arbitrary: y)
  case (Cons p ps)
  from Cons.prems(4) obtain z where z: "sync_poll E cb p y = Some z" "sync_polls E cb ps z = Some y'" by (auto simp: bind_eq_Some_conv)
  have P: "current_payload (sy_node y) \<in> P" "\<And>c. fst p = Some c \<Longrightarrow> current_payload c \<in> P"
    using Cons.prems(1) by (auto simp: served_payloads_def)
  have p: "poll_ok E p" using Cons.prems(2) by simp
  from sync_poll_step [OF E P p Cons.prems(3) z(1)]
  have t: "reports_truly E z" and c: "current_payload (sy_node z) = current_payload (sy_node y) \<or>
      (\<exists>c. fst p = Some c \<and> current_payload (sy_node z) = current_payload c)" by blast+
  note sub = served_step [OF c, of ps]
  have "served_payloads (sy_node z) ps \<subseteq> P" using sub Cons.prems(1) by blast
  from Cons.IH [OF this _ t z(2)] Cons.prems(2) sub show ?case by auto
qed (simp add: served_payloads_def)

lemma sync_polls_append: "sync_polls E cb (ps @ qs) y = Option.bind (sync_polls E cb ps y) (sync_polls E cb qs)"
  by (induction ps arbitrary: y) (auto split: bind_split)

lemma fresh_reports: "node_ok E n \<Longrightarrow> reports_truly E (fresh_sync n)"
  by (simp add: reports_truly_def fresh_sync_def)

section \<open>What is in force after a snapshot was applied\<close>

definition holds_payload :: "config_env \<Rightarrow> apply_io \<Rightarrow> config_payload \<Rightarrow> node \<Rightarrow> bool" where
  "holds_payload E io p m \<longleftrightarrow>
     normalize_subs (ce_sub_urls E) (io_sub_ids io) 0 (sn_subs p) = Inr (sst_items (nd_subs m)) \<and>
     prepare_all (io_rewrite_ids io) 0 (sn_rewrites p) = Inr (rs_items (nd_rewrites m)) \<and>
     propose [] (sn_clients p) = Inr (rg_clients (nd_clients m)) \<and> nd_rules m = Some (normal_rules (sn_rules p)) \<and>
     us_upstreams (configured_resolvers m) = sn_upstreams p \<and> us_bootstrap (configured_resolvers m) = sn_bootstrap p \<and>
     dr_routes (nd_routes m) = routes_of (sn_routes p) \<and>
     (case sn_settings p of None \<Rightarrow> True
      | Some x \<Rightarrow> ss_items (nd_settings m) = normalize_settings x \<and> nd_live m = Some (normalize_settings x))"

lemma run_stages_success: "run_stages (f # fs) n = (None, m) \<longleftrightarrow> (\<exists>k. f n = (None, k) \<and> run_stages fs k = (None, m))"
  by (cases "f n") (auto split: option.split)

lemma replace_clients_Inr: "replace_clients cs ok r = (None, r') \<Longrightarrow> propose [] cs = Inr (rg_clients r')"
  by (auto simp: replace_clients_def publish_clients_def save_clients_def split: sum.splits if_splits)

lemma replace_rewrites_Inr: "replace_rewrites ok ids rs s = (None, s') \<Longrightarrow> prepare_all ids 0 rs = Inr (rs_items s')"
  by (auto simp: replace_rewrites_def save_items_def split: sum.splits if_splits)

lemma replace_subs_Inr: "replace_subs U fr bs ok s = (None, s') \<Longrightarrow> normalize_subs U fr 0 bs = Inr (sst_items s')"
  using replace_subs_cases [of U fr bs ok s] by auto

lemma replace_settings_None: "replace_settings U x ok st = (None, st') \<Longrightarrow> ss_items st' = normalize_settings x"
  by (auto simp: replace_settings_def save_settings_def Let_def split: option.splits if_splits)

lemma apply_stores_contents:
  assumes r: "apply_stores E p io n = (None, m)" and up: "sn_upstreams p \<noteq> []"
  shows "holds_payload E io p m"
proof -
  from r obtain n1 n2 n3 n4 n5 n6 n7 where
    st: "apply_subs E p io n = (None, n1)" "apply_rewrites p io n1 = (None, n2)" "apply_clients p io n2 = (None, n3)"
      "replace_user_rules (sn_rules p) (io_rules io) n3 = (None, n4)" "apply_upstreams p io n4 = (None, n5)"
      "apply_routes p io n5 = (None, n6)" "apply_settings_store E p io n6 = (None, n7)" "activate E n7 = (None, m)"
    unfolding apply_stores_def run_stages_success by auto
  obtain s1 where 1: "replace_subs (ce_sub_urls E) (io_sub_ids io) (sn_subs p) (io_subs io) (nd_subs n) = (None, s1)" "n1 = n\<lparr>nd_subs := s1\<rparr>"
    using st(1) by (auto simp: apply_subs_def split: prod.splits)
  obtain s2 where 2: "replace_rewrites (io_rewrites io) (io_rewrite_ids io) (sn_rewrites p) (nd_rewrites n1) = (None, s2)" "n2 = n1\<lparr>nd_rewrites := s2\<rparr>"
    using st(2) by (auto simp: apply_rewrites_def split: prod.splits)
  obtain s3 where 3: "replace_clients (sn_clients p) (io_clients io) (nd_clients n2) = (None, s3)" "n3 = n2\<lparr>nd_clients := s3\<rparr>"
    using st(3) by (auto simp: apply_clients_def split: prod.splits)
  have 4: "nd_rules n4 = Some (normal_rules (sn_rules p))" "nd_subs n4 = nd_subs n3" "nd_rewrites n4 = nd_rewrites n3" "nd_clients n4 = nd_clients n3"
    using st(4) by (auto simp: replace_user_rules_def split: if_splits)
  have 5: "n5 = n4\<lparr>nd_upstreams := Some (save_upstream_settings
      \<lparr>us_upstreams = sn_upstreams p, us_bootstrap = sn_bootstrap p, us_bootstrap_configured = True\<rparr>)\<rparr>"
    using st(5) by (auto simp: apply_upstreams_def split: if_splits)
  obtain s6 where 6: "n6 = n5\<lparr>nd_routes := s6\<rparr>" "dr_routes s6 = routes_of (sn_routes p)"
    using st(6) by (auto simp: apply_routes_def set_routes_def Let_def split: if_splits)
  have 7: "\<exists>s l. n7 = n6\<lparr>nd_settings := s, nd_live := l\<rparr> \<and>
      (case sn_settings p of None \<Rightarrow> True | Some x \<Rightarrow> ss_items s = normalize_settings x \<and> l = Some (normalize_settings x))"
  proof (cases "sn_settings p")
    case None
    with st(7) have "n7 = n6\<lparr>nd_settings := nd_settings n6, nd_live := nd_live n6\<rparr>" by (simp add: apply_settings_store_def)
    with None show ?thesis by (metis option.case(1))
  next
    case (Some x)
    obtain e s where rs: "replace_settings (ce_urls E) x (io_settings io) (nd_settings n6) = (e, s)" by fastforce
    with Some st(7) have "e = None" "n7 = n6\<lparr>nd_settings := s, nd_live := Some (ss_items s)\<rparr>"
      by (simp_all add: apply_settings_store_def split: option.splits)
    moreover from this rs have "ss_items s = normalize_settings x" by (simp add: replace_settings_None)
    ultimately show ?thesis using Some by (intro exI [of _ s] exI [of _ "Some (ss_items s)"]) simp
  qed
  then obtain s7 l where 7: "n7 = n6\<lparr>nd_settings := s7, nd_live := l\<rparr>"
    "case sn_settings p of None \<Rightarrow> True | Some x \<Rightarrow> ss_items s7 = normalize_settings x \<and> l = Some (normalize_settings x)" by blast
  obtain e r k where m: "m = n7\<lparr>nd_engine := e, nd_reloads := r, nd_clears := k\<rparr>"
    using st(8) by (auto simp: activate_def)
  have m5: "m = n5\<lparr>nd_routes := s6, nd_settings := s7, nd_live := l, nd_engine := e, nd_reloads := r, nd_clears := k\<rparr>"
    unfolding m 7(1) 6(1) ..
  have "nd_subs n3 = s1" "nd_rewrites n3 = s2" "nd_clients n3 = s3" unfolding 3(2) 2(2) 1(2) by simp_all
  moreover have "nd_subs n5 = nd_subs n4" "nd_rewrites n5 = nd_rewrites n4" "nd_clients n5 = nd_clients n4" "nd_rules n5 = nd_rules n4"
    unfolding 5 by simp_all
  ultimately have f: "nd_subs m = s1" "nd_rewrites m = s2" "nd_clients m = s3" "nd_rules m = Some (normal_rules (sn_rules p))"
    "nd_upstreams m = nd_upstreams n5" "nd_routes m = s6" "nd_settings m = s7" "nd_live m = l"
    unfolding m5 using 4 by simp_all
  have "us_upstreams (configured_resolvers m) = sn_upstreams p \<and> us_bootstrap (configured_resolvers m) = sn_bootstrap p"
    using up f(5) by (intro configured_after_save) (simp_all add: 5)
  then show ?thesis
    unfolding holds_payload_def f
    using replace_subs_Inr [OF 1(1)] replace_rewrites_Inr [OF 2(1)] replace_clients_Inr [OF 3(1)] 6(2) 7(2) by simp
qed

section \<open>Two demo nodes\<close>

definition demo_cluster :: config_env where
  "demo_cluster = \<lparr>ce_urls = no_urls, ce_sub_urls = \<lparr>su_parse = (\<lambda>_. None), su_print = (\<lambda>_. [])\<rparr>,
     ce_regex = \<lparr>rx_insts = (\<lambda>_. None), rx_compiles = (\<lambda>_. False), rx_match = (\<lambda>_ _. False)\<rparr>,
     ce_digest = (\<lambda>p. CHR ''r'' # concat (sn_upstreams p)), ce_history = (\<lambda>_. None), ce_valid_url = (\<lambda>_. True)\<rparr>"

definition demo_node :: "string \<Rightarrow> node" where
  "demo_node up = \<lparr>nd_ready = True, nd_subs = \<lparr>sst_items = [], sst_file = None\<rparr>,
     nd_rewrites = \<lparr>rs_has_path = True, rs_items = [], rs_file = []\<rparr>, nd_clients = empty_registry True, nd_rules = None,
     nd_upstreams = None, nd_routes = \<lparr>dr_has_path = True, dr_routes = [], dr_file = None, dr_notified = 0\<rparr>,
     nd_settings = \<lparr>ss_has_path = True, ss_items = normalize_settings demo_settings, ss_file = None\<rparr>, nd_engine = new_engine,
     nd_previous = None, nd_live = None, nd_rule_reloads = 0, nd_reloads = 0, nd_clears = 0, nd_env_upstreams = [up],
     nd_env_bootstrap = []\<rparr>"

definition demo_io :: "bool \<Rightarrow> apply_io" where
  "demo_io routes_ok = \<lparr>io_readable = True, io_previous = True, io_subs = True, io_rewrites = True, io_clients = True, io_rules = True,
     io_upstreams = True, io_routes = routes_ok, io_settings = True, io_sub_ids = (\<lambda>_. None), io_rewrite_ids = (\<lambda>_. [])\<rparr>"

lemma demo_node_ok: "node_ok demo_cluster (demo_node up)"
  by (simp add: node_ok_def demo_node_def subs_ok_def validate_subscriptions_def sound_clients_def empty_registry_def
      routes_normal_def settings_ok_def demo_cluster_def demo_settings_valid)

lemma demo_io_ok: "io_ok (demo_io True)"
  by (simp add: io_ok_def demo_io_def)

lemma demo_payload: "current_payload (demo_node up) = \<lparr>sn_version = 5, sn_upstreams = [up], sn_bootstrap = [], sn_routes = [],
    sn_subs = [], sn_rules = [], sn_rewrites = [], sn_clients = [], sn_settings = Some (normalize_settings demo_settings)\<rparr>"
  by (simp add: current_payload_def demo_node_def configured_resolvers_def load_upstream_settings_def no_settings_def Let_def
      current_version_def get_routes_map_def list_rewrites_def list_clients_def empty_registry_def)

lemma demo_digest: "digest_ok demo_cluster (current_payload ` demo_node ` {''9.9.9.9'', ''1.1.1.1''})"
  by (auto simp: digest_ok_def inj_on_def demo_payload demo_cluster_def)

lemma demo_rules_valid: "validate_user_rules (ce_regex demo_cluster) [] = None"
proof -
  have "validate_rule_text (ce_regex demo_cluster) [] = Some (0, [])" by (simp add: validate_rule_text_def scan_lines_def raw_lines_def split_on.simps)
  then show ?thesis by (simp add: validate_user_rules_def)
qed

lemma demo_valid: "validate_all demo_cluster (current_snapshot demo_cluster (demo_node ''1.1.1.1'')) = None"
proof -
  let ?s = "current_snapshot demo_cluster (demo_node ''1.1.1.1'')"
  have p: "cs_payload ?s = current_payload (demo_node ''1.1.1.1'')" by (rule current_payload_normal [OF demo_node_ok])
  have r: "validate_resolvers no_urls [''1.1.1.1''] [] = None" by code_simp
  have s: "validate_managed_settings no_urls (normalize_settings demo_settings) [] = None"
  proof -
    have "ds_fallback (normalize_settings demo_settings) = []" "ds_ptr_upstreams (normalize_settings demo_settings) = []"
      by (simp_all add: demo_normal) (simp_all add: demo_settings_def)
    then show ?thesis by (simp add: validate_managed_settings_def demo_settings_valid)
  qed
  show ?thesis
    unfolding validate_all_def Let_def p first_error_None demo_payload
    by (simp add: current_snapshot_valid [OF demo_node_ok] demo_rules_valid r s validate_snapshot_settings_def
        validate_snapshot_stores_def validate_subscriptions_def)
      (simp add: demo_cluster_def r s)
qed

section \<open>Runs that succeed or fail\<close>

lemma apply_config_settles:
  assumes "node_ok E c" "validate_all E (current_snapshot E c) = None" "nd_ready n" "io_readable io" "io_previous io" "io_ok io"
  shows "settled (fst (apply_config E (current_snapshot E c) io io2 n))"
proof (cases "cs_revision (current_snapshot E n) = cs_revision (current_snapshot E c)")
  case True
  with assms show ?thesis by (simp add: apply_config_def Let_def settled_def)
next
  case False
  have "sn_upstreams (current_payload c) \<noteq> []"
    using validated_upstreams [OF assms(2)] by (simp add: current_payload_normal [OF assms(1)])
  from apply_stores_ok [OF current_payload_ok [OF assms(1)] assms(6) disjI1 [OF this]] obtain m where
    "apply_stores E (cs_payload (current_snapshot E c)) io (n\<lparr>nd_previous := Some (current_snapshot E n)\<rparr>) = (None, m)"
    by (auto simp: current_payload_normal [OF assms(1)])
  with assms False show ?thesis by (simp add: apply_config_def Let_def save_previous_def settled_def)
qed

lemma apply_config_frame: "stage_frame n (snd (apply_config E s io io2 n))"
proof (cases "validate_all E s = None \<and> nd_ready n \<and> io_readable io \<and>
    cs_revision (current_snapshot E n) \<noteq> cs_revision s \<and> io_previous io")
  case v: True
  let ?p = "current_snapshot E n" and ?n1 = "n\<lparr>nd_previous := Some (current_snapshot E n)\<rparr>"
  obtain e n2 where r: "apply_stores E (cs_payload s) io ?n1 = (e, n2)" by (cases "apply_stores E (cs_payload s) io ?n1")
  obtain e2 n3 where r2: "apply_stores E (cs_payload ?p) io2 n2 = (e2, n3)" by (cases "apply_stores E (cs_payload ?p) io2 n2")
  have f2: "stage_frame n n2" using apply_stores_frame [of ?n1 E "cs_payload s" io] r by (simp add: stage_frame_def)
  have "stage_frame n2 n3" using apply_stores_frame [of n2 E "cs_payload ?p" io2] r2 by simp
  with f2 have "stage_frame n n3" by (rule stage_frame_trans)
  with f2 r r2 v show ?thesis by (cases e; cases e2) (simp_all add: apply_config_def Let_def save_previous_def)
next
  case False
  then have "snd (apply_config E s io io2 n) = n" using apply_config_early [of E s n io io2] by auto
  then show ?thesis by (simp add: stage_frame_def)
qed

lemma sync_node:
  "sync_poll E cb p y = Some z \<Longrightarrow> sy_node z = sy_node y \<or>
   (\<exists>c. sy_node z = snd (apply_config E (current_snapshot E c) (fst (snd p)) (snd (snd p)) (sy_node y)))"
  by (auto simp: sync_poll_def sync_dns_config_def record_config_apply_def Let_def split: prod.splits option.splits if_splits)
    (metis snd_conv)+

lemma sync_polls_frame: "sync_polls E cb ps y = Some y' \<Longrightarrow> stage_frame (sy_node y) (sy_node y')"
proof (induction ps arbitrary: y)
  case (Cons p ps)
  then obtain z where z: "sync_poll E cb p y = Some z" "sync_polls E cb ps z = Some y'" by (auto simp: bind_eq_Some_conv)
  have "stage_frame (sy_node y) (sy_node z)"
    using sync_node [OF z(1)] apply_config_frame [of "sy_node y" E] by (auto simp: stage_frame_def)
  with Cons.IH [OF z(2)] show ?case by (rule stage_frame_trans [rotated])
qed (simp add: stage_frame_def)

lemma routes_write_fails:
  assumes p: "payload_ok E p" and io: "io_subs io" "io_rewrites io" "io_clients io" "io_rules io" "io_upstreams io" "\<not> io_routes io"
    and path: "dr_has_path (nd_routes n)"
  shows "fst (apply_stores E p io n) = Some RoutesNotSaved"
proof -
  let ?n1 = "n\<lparr>nd_subs := \<lparr>sst_items = sn_subs p, sst_file = Some (sn_subs p)\<rparr>\<rparr>"
  obtain rw where rw: "apply_rewrites p io ?n1 = (None, ?n1\<lparr>nd_rewrites := rw\<rparr>)" using apply_rewrites_ok [OF p io(2)] by blast
  let ?n2 = "?n1\<lparr>nd_rewrites := rw\<rparr>"
  obtain rg where rg: "apply_clients p io ?n2 = (None, ?n2\<lparr>nd_clients := rg\<rparr>)" using apply_clients_ok [OF p io(3)] by blast
  let ?n3 = "?n2\<lparr>nd_clients := rg\<rparr>"
  let ?n4 = "?n3\<lparr>nd_rules := Some (sn_rules p), nd_rule_reloads := Suc (nd_rule_reloads ?n3), nd_clears := Suc (nd_clears ?n3)\<rparr>"
  obtain n5 where up: "apply_upstreams p io ?n4 = (None, n5)" "dr_has_path (nd_routes n5)"
    using path by (simp add: apply_upstreams_def io(5))
  have dr: "fst (apply_routes p io n5) = Some RoutesNotSaved" using up(2) io(6) by (simp add: apply_routes_def Let_def)
  obtain n6 where n6: "apply_routes p io n5 = (Some RoutesNotSaved, n6)" using dr by (cases "apply_routes p io n5") simp
  show ?thesis
    unfolding apply_stores_def by (simp only: run_stages.simps apply_subs_ok [OF p io(1)] rw rg
        replace_user_rules_ok [OF p io(4)] up(1) n6 prod.case option.case fst_conv)
qed

section \<open>Properties\<close>


lemma demo_revisions:
  "cs_revision (current_snapshot demo_cluster (demo_node ''9.9.9.9'')) \<noteq> cs_revision (current_snapshot demo_cluster (demo_node ''1.1.1.1''))"
  by (simp add: node_revision [OF demo_node_ok] demo_payload) (simp add: demo_cluster_def)


definition demo_polls :: "poll list" where
  "demo_polls = [(None, demo_io True, demo_io True), (Some (demo_node ''1.1.1.1''), demo_io False, demo_io True)]"

lemma not_panicked: "validate_all E s = None \<Longrightarrow> fst (apply_config E s io io2 n) \<noteq> Panicked"
  by (auto simp: apply_config_def Let_def split: prod.split option.split)

lemma poll_returns: "validate_all E (current_snapshot E c) = None \<Longrightarrow> \<exists>y'. sync_poll E cb (Some c, io, io2) y = Some y'"
  using not_panicked [of E "current_snapshot E c" io io2 "sy_node y"]
  by (auto simp: sync_poll_def sync_dns_config_def Let_def split: option.split prod.split)

lemma demo_polls_return: "\<exists>y. sync_polls demo_cluster cb demo_polls (fresh_sync (demo_node ''9.9.9.9'')) = Some y"
  using poll_returns [OF demo_valid] by (simp add: demo_polls_def) (simp add: sync_poll_def sync_dns_config_def bind_eq_Some_conv)

lemma demo_polls_ok: "list_all (poll_ok demo_cluster) demo_polls"
  by (simp add: demo_polls_def poll_ok_def demo_io_ok demo_node_ok)

lemma demo_served: "served_payloads (demo_node ''9.9.9.9'') demo_polls = current_payload ` demo_node ` {''9.9.9.9'', ''1.1.1.1''}"
  by (auto simp: served_payloads_def demo_polls_def)





section \<open>What the agent does not notice\<close>

text \<open>A snapshot whose revision is the recorded one is not applied, whatever the node holds, and an
  error that an earlier snapshot left stays in the report.\<close>

lemma same_revision_is_skipped:
  "validate_snapshot E s = None \<Longrightarrow> cs_revision s = sy_revision y \<Longrightarrow>
   \<exists>y'. sync_dns_config E cb (Some s) io io2 y = Some y' \<and> sy_node y' = sy_node y \<and> sy_err y' = sy_err y"
  by (simp add: sync_dns_config_def)

end
