(* ===== verification/Web_Requests.thy ===== *)
theory Web_Requests
  imports Upstream_Spec
begin

text \<open>
  What the web interface believes about a request: the parts of api/security.go, api/nodes.go and
  api/doh.go that decide whether the connection is encrypted, which address the client has, whether
  the Host is ours and whether a browser may have sent the request from another site. Only the
  headers of a trusted proxy are believed. An http.Request is the record of what these functions
  read; parsing the Origin header is an argument of the configuration, as is the comparison of a
  password with the stored bcrypt hash.
\<close>

section \<open>Requests and configuration\<close>

record web_request =
  rq_method :: string
  rq_tls :: bool
  rq_remote :: string
  rq_host :: string
  rq_headers :: "string \<Rightarrow> string list"  \<comment> \<open>by canonical name\<close>
  rq_cookies :: "string \<Rightarrow> string option"
  rq_form :: "string \<Rightarrow> string"

record web_config =
  wc_username :: string
  wc_password :: string
  wc_base_url :: string
  wc_allowed_hosts :: "string list"
  wc_proxies :: "string list"
  wc_ingest_secret :: string
  wc_doh_token :: string
  wc_check_password :: "string \<Rightarrow> bool"
  wc_origin_host :: "string \<Rightarrow> string option"

text \<open>Header.Get: the first value, or the empty string.\<close>

definition request_header :: "web_request \<Rightarrow> string \<Rightarrow> string" where
  "request_header r h = (case rq_headers r h of [] \<Rightarrow> [] | v # _ \<Rightarrow> v)"

definition header_entries :: "web_request \<Rightarrow> string \<Rightarrow> string list" where
  "header_entries r h = split_on (CHR '','') (join_with '','' (rq_headers r h))"

definition trim_set :: "string \<Rightarrow> string \<Rightarrow> string" where
  "trim_set cs s = trim_right (\<lambda>c. c \<in> set cs) (trim_left (\<lambda>c. c \<in> set cs) s)"

section \<open>Proxies\<close>

definition remote_ip :: "web_request \<Rightarrow> string" where
  "remote_ip r = (case split_host_port (rq_remote r) of Some (h, _) \<Rightarrow> h | None \<Rightarrow> rq_remote r)"

text \<open>isTrustedProxyIP: an entry that is an address is compared, any other one read as a network.\<close>

definition proxy_entry_matches :: "ip \<Rightarrow> string \<Rightarrow> bool" where
  "proxy_entry_matches w e =
     (case parse_ip e of
        Some t \<Rightarrow> t = w
      | None \<Rightarrow> (case parse_cidr e of Some (_, n) \<Rightarrow> net_contains n w | None \<Rightarrow> False))"

definition is_trusted_proxy_ip :: "web_config \<Rightarrow> string \<Rightarrow> bool" where
  "is_trusted_proxy_ip c s = (case parse_ip s of None \<Rightarrow> False | Some w \<Rightarrow> list_ex (proxy_entry_matches w) (wc_proxies c))"

definition is_trusted_proxy :: "web_config \<Rightarrow> web_request \<Rightarrow> bool" where
  "is_trusted_proxy c r = is_trusted_proxy_ip c (remote_ip r)"

section \<open>HTTPS\<close>

text \<open>The proto parameter of one entry of the Forwarded header, if it has one.\<close>

definition proto_param :: "string \<Rightarrow> string option" where
  "proto_param p =
     (case cut (CHR ''='') (trim_space p) of
        Some (k, v) \<Rightarrow> if equal_fold k ''proto'' then Some (trim_set [CHR 0x22] v) else None
      | None \<Rightarrow> None)"

definition forwarded_proto :: "string \<Rightarrow> string option" where
  "forwarded_proto entry = (case List.map_filter proto_param (split_on (CHR '';'') entry) of [] \<Rightarrow> None | v # _ \<Rightarrow> Some v)"

text \<open>The last entry that is not blank.\<close>

definition last_entry :: "string list \<Rightarrow> string option" where
  "last_entry xs = (case filter (\<lambda>e. trim_space e \<noteq> []) (rev xs) of [] \<Rightarrow> None | e # _ \<Rightarrow> Some e)"

definition is_https :: "web_config \<Rightarrow> web_request \<Rightarrow> bool" where
  "is_https c r =
     (if rq_tls r then True
      else if \<not> is_trusted_proxy c r then False
      else case (case last_entry (header_entries r ''Forwarded'') of None \<Rightarrow> None | Some e \<Rightarrow> forwarded_proto e) of
             Some v \<Rightarrow> equal_fold v ''https''
           | None \<Rightarrow> (case last_entry (header_entries r ''X-Forwarded-Proto'') of
                 None \<Rightarrow> False | Some p \<Rightarrow> equal_fold (trim_space p) ''https''))"

section \<open>The address of the client\<close>

definition canonical_hop_ip :: "string \<Rightarrow> string option" where
  "canonical_hop_ip v0 =
     (let v = (case split_host_port v0 of Some (h, _) \<Rightarrow> h | None \<Rightarrow> v0)
      in map_option ip_string (parse_ip (trim_set ''[]'' v)))"

definition parse_xff_hop :: "string \<Rightarrow> string option" where
  "parse_xff_hop e = canonical_hop_ip (trim_space e)"

fun forwarded_for :: "string list \<Rightarrow> string option" where
  "forwarded_for [] = None"
| "forwarded_for (p # ps) =
     (case cut (CHR ''='') (trim_space p) of
        Some (k, v) \<Rightarrow> if equal_fold k ''for'' then canonical_hop_ip (trim_set [CHR 0x22] (trim_space v)) else forwarded_for ps
      | None \<Rightarrow> forwarded_for ps)"

definition parse_forwarded_hop :: "string \<Rightarrow> string option" where
  "parse_forwarded_hop e = forwarded_for (split_on (CHR '';'') e)"

definition forwarded_hops :: "string list \<Rightarrow> (string \<Rightarrow> string option) \<Rightarrow> string list" where
  "forwarded_hops entries parse =
     List.map (\<lambda>e. case parse e of Some a \<Rightarrow> a | None \<Rightarrow> []) (filter (\<lambda>e. trim_space e \<noteq> []) entries)"

text \<open>The loop of firstUntrustedHop, from the right.\<close>

fun untrusted_hop :: "web_config \<Rightarrow> string \<Rightarrow> string list \<Rightarrow> string" where
  "untrusted_hop c remote [] = remote"
| "untrusted_hop c remote (h # hs) =
     (if h = [] then remote else if \<not> is_trusted_proxy_ip c h then h else untrusted_hop c remote hs)"

definition first_untrusted_hop :: "web_config \<Rightarrow> web_request \<Rightarrow> string list \<Rightarrow> string" where
  "first_untrusted_hop c r hops = untrusted_hop c (remote_ip r) (rev hops)"

definition client_ip :: "web_config \<Rightarrow> web_request \<Rightarrow> string" where
  "client_ip c r =
     (if \<not> is_trusted_proxy c r then remote_ip r
      else let xff = forwarded_hops (header_entries r ''X-Forwarded-For'') parse_xff_hop;
               fwd = forwarded_hops (header_entries r ''Forwarded'') parse_forwarded_hop
           in if xff \<noteq> [] then first_untrusted_hop c r xff
              else if fwd \<noteq> [] then first_untrusted_hop c r fwd
              else remote_ip r)"

section \<open>Host and origin\<close>

definition host_name_allowed :: "web_config \<Rightarrow> string \<Rightarrow> bool" where
  "host_name_allowed c host0 =
     (let h1 = to_lower (trim_space host0);
          h2 = (case split_host_port h1 of Some (n, _) \<Rightarrow> n | None \<Rightarrow> h1);
          h = trim_suffix (trim_set ''[]'' h2) ''.''
      in h \<noteq> [] \<and> (parse_ip h \<noteq> None \<or> h = ''localhost'' \<or> has_suffix h ''.localhost'' \<or>
           list_ex (\<lambda>a. h = trim_suffix a ''.'') (wc_allowed_hosts c)))"

definition forwarded_host :: "web_request \<Rightarrow> string" where
  "forwarded_host r = trim_space (hd (split_on (CHR '','') (request_header r ''X-Forwarded-Host'')))"

definition allowed_host :: "web_config \<Rightarrow> web_request \<Rightarrow> bool" where
  "allowed_host c r =
     (host_name_allowed c (rq_host r) \<and>
      (if is_trusted_proxy c r \<and> forwarded_host r \<noteq> [] then host_name_allowed c (forwarded_host r) else True))"

definition same_origin_request :: "web_config \<Rightarrow> web_request \<Rightarrow> bool" where
  "same_origin_request c r =
     (let site = to_lower (trim_space (request_header r ''Sec-Fetch-Site'')); origin = trim_space (request_header r ''Origin'')
      in if site \<noteq> [] then site = ''same-origin'' \<or> site = ''none''
         else if origin = [] then True
         else case wc_origin_host c origin of
                None \<Rightarrow> False
              | Some h \<Rightarrow> h \<noteq> [] \<and> equal_fold h (if is_trusted_proxy c r \<and> forwarded_host r \<noteq> [] then forwarded_host r else rq_host r))"

section \<open>DNS over HTTPS: who may ask\<close>

definition doh_private_nets :: "ipnet list" where
  "doh_private_nets = List.map (\<lambda>s. snd (the (parse_cidr s)))
     [''127.0.0.0/8'', ''::1/128'', ''10.0.0.0/8'', ''172.16.0.0/12'', ''192.168.0.0/16'', ''100.64.0.0/10'', ''fc00::/7'']"

definition doh_client_allowed :: "web_config \<Rightarrow> web_request \<Rightarrow> bool" where
  "doh_client_allowed c r =
     (if wc_doh_token c \<noteq> [] then request_header r ''Authorization'' = ''Bearer '' @ wc_doh_token c
      else if (case parse_ip (remote_ip r) of None \<Rightarrow> False | Some w \<Rightarrow> is_loopback w) then False
      else case parse_ip (client_ip c r) of
             None \<Rightarrow> False
           | Some w \<Rightarrow> list_ex (\<lambda>n. net_contains n w) doh_private_nets)"

section \<open>Only a trusted proxy is believed\<close>

definition forwarding_headers :: "string list" where
  "forwarding_headers = [''Forwarded'', ''X-Forwarded-For'', ''X-Forwarded-Proto'', ''X-Forwarded-Host'']"

text \<open>The same request but for the forwarding headers.\<close>

definition same_but_forwarding :: "web_request \<Rightarrow> web_request \<Rightarrow> bool" where
  "same_but_forwarding r r' \<longleftrightarrow>
     r' = r\<lparr>rq_headers := rq_headers r'\<rparr> \<and>
     (\<forall>h. h \<notin> set forwarding_headers \<longrightarrow> rq_headers r h = rq_headers r' h)"

lemma same_fields:
  assumes "same_but_forwarding r r'"
  shows "remote_ip r = remote_ip r'" "rq_tls r = rq_tls r'" "rq_host r = rq_host r'" "is_trusted_proxy c r = is_trusted_proxy c r'"
    "h \<notin> set forwarding_headers \<Longrightarrow> request_header r h = request_header r' h"
proof -
  from assms have r': "r' = r\<lparr>rq_headers := rq_headers r'\<rparr>" by (simp add: same_but_forwarding_def)
  have f: "rq_remote r' = rq_remote r" "rq_tls r' = rq_tls r" "rq_host r' = rq_host r" by (subst r', simp)+
  show ip: "remote_ip r = remote_ip r'" unfolding remote_ip_def f ..
  then show "is_trusted_proxy c r = is_trusted_proxy c r'" by (simp add: is_trusted_proxy_def)
  show "rq_tls r = rq_tls r'" "rq_host r = rq_host r'" using f by simp_all
  show "h \<notin> set forwarding_headers \<Longrightarrow> request_header r h = request_header r' h"
    using assms by (simp add: same_but_forwarding_def request_header_def)
qed

lemma untrusted_forwarding_ignored:
  assumes "same_but_forwarding r r'" and "\<not> is_trusted_proxy c r"
  shows "is_https c r = is_https c r' \<and> client_ip c r = client_ip c r' \<and> allowed_host c r = allowed_host c r' \<and>
    same_origin_request c r = same_origin_request c r' \<and> doh_client_allowed c r = doh_client_allowed c r'"
proof -
  note s = same_fields [OF assms(1)]
  have h: "request_header r ''Sec-Fetch-Site'' = request_header r' ''Sec-Fetch-Site''" "request_header r ''Origin'' = request_header r' ''Origin''"
    "request_header r ''Authorization'' = request_header r' ''Authorization''"
    by (rule s(5); simp add: forwarding_headers_def)+
  have t: "\<not> is_trusted_proxy c r'" using assms(2) s(4) by simp
  have ip: "client_ip c r = client_ip c r'" using assms(2) t s by (simp add: client_ip_def)
  have "is_https c r = is_https c r'" "allowed_host c r = allowed_host c r'" "doh_client_allowed c r = doh_client_allowed c r'"
    using assms(2) t s h ip by (simp_all add: is_https_def allowed_host_def doh_client_allowed_def)
  moreover have "same_origin_request c r = same_origin_request c r'"
    unfolding same_origin_request_def h s(3) using assms(2) t by simp
  ultimately show ?thesis using ip by blast
qed

lemma untrusted_hop_append:
  "untrusted_hop c remote hs = h \<Longrightarrow> \<exists>x\<in>set hs. x = [] \<or> \<not> is_trusted_proxy_ip c x \<Longrightarrow> untrusted_hop c remote (hs @ junk) = h"
  by (induction hs) (auto split: if_splits)

lemma untrusted_hop_cases:
  "untrusted_hop c remote hs = remote \<or>
   (\<exists>pre post. hs = pre @ untrusted_hop c remote hs # post \<and> list_all (is_trusted_proxy_ip c) pre \<and>
      \<not> is_trusted_proxy_ip c (untrusted_hop c remote hs))"
proof (induction hs)
  case (Cons h hs)
  show ?case
  proof (cases "h = [] \<or> \<not> is_trusted_proxy_ip c h")
    case True
    then show ?thesis by (auto intro: exI [of _ "[]"])
  next
    case False
    let ?u = "untrusted_hop c remote hs"
    have u: "untrusted_hop c remote (h # hs) = ?u" using False by simp
    from Cons consider "?u = remote" | pre post where "hs = pre @ ?u # post" "list_all (is_trusted_proxy_ip c) pre" "\<not> is_trusted_proxy_ip c ?u"
      by blast
    then show ?thesis
    proof cases
      case (2 pre post)
      then have "h # hs = (h # pre) @ ?u # post" "list_all (is_trusted_proxy_ip c) (h # pre)" using False by auto
      with 2(3) show ?thesis unfolding u by blast
    qed (simp only: u simp_thms)
  qed
qed simp

end
