(* ===== verification/Web_Sessions.thy ===== *)
theory Web_Sessions
  imports Web_Requests
begin

text \<open>
  api/security.go: the browser sessions of the web interface, the CSRF tokens bound to them, the
  limiter of login attempts, and the middlewares in front of every handler. Random tokens are
  arguments of the operations that draw them (None when the random source fails); ranging over the
  session map takes the entries in the order of the list.
\<close>

section \<open>State\<close>

record session_entry =
  se_expires :: int
  se_seen :: int
  se_csrf :: string

record rate_entry =
  re_count :: nat
  re_seen :: int

record web_state =
  ws_sessions :: "(string, session_entry) gomap"
  ws_rates :: "(string, rate_entry) gomap"
  ws_failures :: "int list"

definition hour :: int where "hour = 60 * minute"
definition session_lifetime :: int where "session_lifetime = 24 * hour"
definition session_idle_timeout :: int where "session_idle_timeout = 12 * hour"
definition max_sessions :: nat where "max_sessions = 1024"
definition login_backoff_cap :: int where "login_backoff_cap = 5 * minute"
definition login_failure_memory :: int where "login_failure_memory = hour"
definition global_failure_window :: int where "global_failure_window = 15 * minute"
definition global_failure_limit :: nat where "global_failure_limit = 50"
definition max_rate_entries :: nat where "max_rate_entries = 10000"

definition session_cookie :: string where "session_cookie = ''ts_dns_session''"
definition csrf_cookie :: string where "csrf_cookie = ''ts_dns_csrf''"

definition new_web :: web_state where
  "new_web = \<lparr>ws_sessions = [], ws_rates = [], ws_failures = []\<rparr>"

section \<open>Sessions\<close>

definition expired :: "int \<Rightarrow> session_entry \<Rightarrow> bool" where
  "expired now e \<longleftrightarrow> se_expires e \<le> now \<or> session_idle_timeout \<le> now - se_seen e"

definition live_sessions :: "int \<Rightarrow> (string, session_entry) gomap \<Rightarrow> (string, session_entry) gomap" where
  "live_sessions now m = filter (\<lambda>(_, e). \<not> expired now e) m"

lemma gm_del_shorter: "p \<in> set m \<Longrightarrow> length (gm_del (fst p) m) < length m"
proof (induction m)
  case (Cons q m)
  then show ?case using gm_len_del_le [of "fst p" m] by (cases q) (auto simp: less_Suc_eq_le)
qed simp

text \<open>The least recently used session goes while the table is full.\<close>

function evict_sessions :: "(string, session_entry) gomap \<Rightarrow> (string, session_entry) gomap" where
  "evict_sessions m =
     (if length m < max_sessions then m
      else case scan_min (\<lambda>p. se_seen (snd p)) None m of
             None \<Rightarrow> m
           | Some p \<Rightarrow> evict_sessions (gm_del (fst p) m))"
  by pat_completeness auto
termination
proof (relation "measure length")
  fix m :: "(string, session_entry) gomap" and p
  assume "scan_min (\<lambda>p. se_seen (snd p)) None m = Some p"
  then show "(gm_del (fst p) m, m) \<in> measure length"
    using scan_min_mem [of "\<lambda>p. se_seen (snd p)" None m p] by (simp add: gm_del_shorter)
qed simp

declare evict_sessions.simps [simp del]

definition new_session :: "int \<Rightarrow> string \<Rightarrow> string \<Rightarrow> web_state \<Rightarrow> web_state" where
  "new_session now token csrf s =
     s\<lparr>ws_sessions := gm_set token \<lparr>se_expires = now + session_lifetime, se_seen = now, se_csrf = csrf\<rparr>
                        (evict_sessions (live_sessions now (ws_sessions s)))\<rparr>"

definition valid_session :: "int \<Rightarrow> string \<Rightarrow> web_state \<Rightarrow> bool \<times> web_state" where
  "valid_session now token s =
     (let live = live_sessions now (ws_sessions s)
      in case gm_get live token of
           None \<Rightarrow> (False, s\<lparr>ws_sessions := live\<rparr>)
         | Some e \<Rightarrow> (True, s\<lparr>ws_sessions := gm_set token (e\<lparr>se_seen := now\<rparr>) live\<rparr>))"

definition lookup_session :: "int \<Rightarrow> string \<Rightarrow> web_state \<Rightarrow> session_entry option" where
  "lookup_session now token s =
     (case gm_get (ws_sessions s) token of None \<Rightarrow> None | Some e \<Rightarrow> if expired now e then None else Some e)"

definition session_csrf_token :: "int \<Rightarrow> string \<Rightarrow> web_state \<Rightarrow> string" where
  "session_csrf_token now token s = (case lookup_session now token s of None \<Rightarrow> [] | Some e \<Rightarrow> se_csrf e)"

definition session_alive :: "int \<Rightarrow> string \<Rightarrow> web_state \<Rightarrow> bool" where
  "session_alive now token s \<longleftrightarrow> lookup_session now token s \<noteq> None"

definition delete_session :: "string \<Rightarrow> web_state \<Rightarrow> web_state" where
  "delete_session token s = s\<lparr>ws_sessions := gm_del token (ws_sessions s)\<rparr>"

definition delete_all_sessions :: "web_state \<Rightarrow> web_state" where
  "delete_all_sessions s = s\<lparr>ws_sessions := []\<rparr>"

section \<open>CSRF\<close>

definition web_auth_enabled :: "web_config \<Rightarrow> bool" where
  "web_auth_enabled c \<longleftrightarrow> wc_username c \<noteq> [] \<or> wc_password c \<noteq> []"

definition check_csrf :: "web_config \<Rightarrow> int \<Rightarrow> web_request \<Rightarrow> web_state \<Rightarrow> bool" where
  "check_csrf c now r s =
     (if \<not> same_origin_request c r then False
      else if \<not> web_auth_enabled c then True
      else
        let expected = (case rq_cookies r session_cookie of None \<Rightarrow> [] | Some v \<Rightarrow> session_csrf_token now v s);
            submitted = (if request_header r ''X-CSRF-Token'' = [] then rq_form r ''csrf_token'' else request_header r ''X-CSRF-Token'')
        in expected \<noteq> [] \<and> expected = submitted)"

section \<open>Login attempts\<close>

text \<open>getRateLimitBackoff; the power of two is a float64 in the source, exact up to the cap.\<close>

definition rate_limit_backoff :: "nat \<Rightarrow> int" where
  "rate_limit_backoff count =
     (if count \<le> 1 then 0
      else if login_backoff_cap div second < 2 ^ (count - 2) then login_backoff_cap
      else 2 ^ (count - 2) * second)"

definition prune_failures :: "int \<Rightarrow> web_state \<Rightarrow> web_state" where
  "prune_failures now s = s\<lparr>ws_failures := filter (\<lambda>t. now - global_failure_window < t) (ws_failures s)\<rparr>"

text \<open>checkRateLimit: how long the address still has to wait, if it has to.\<close>

definition check_rate_limit :: "int \<Rightarrow> string \<Rightarrow> web_state \<Rightarrow> int option \<times> web_state" where
  "check_rate_limit now ip s0 =
     (let s = prune_failures now s0
      in case gm_get (ws_rates s) ip of
           None \<Rightarrow> (None, s)
         | Some e \<Rightarrow>
             (if re_count e = 0 then (None, s)
              else if login_failure_memory < now - re_seen e then (None, s\<lparr>ws_rates := gm_del ip (ws_rates s)\<rparr>)
              else let backoff = (if global_failure_limit \<le> length (ws_failures s) then login_backoff_cap
                                  else rate_limit_backoff (re_count e));
                       elapsed = now - re_seen e
                   in (if elapsed < backoff then Some (backoff - elapsed) else None, s)))"

definition evict_oldest_rate :: "(string, rate_entry) gomap \<Rightarrow> (string, rate_entry) gomap" where
  "evict_oldest_rate m =
     (case scan_min (\<lambda>p. re_seen (snd p)) None m of None \<Rightarrow> m | Some p \<Rightarrow> gm_del (fst p) m)"

definition record_failed_login :: "int \<Rightarrow> string \<Rightarrow> web_state \<Rightarrow> web_state" where
  "record_failed_login now ip s0 =
     (let s = prune_failures now (s0\<lparr>ws_failures := ws_failures s0 @ [now]\<rparr>);
          (n, rates) = (case gm_get (ws_rates s) ip of
             Some e \<Rightarrow> (re_count e, ws_rates s)
           | None \<Rightarrow> (0, if max_rate_entries \<le> length (ws_rates s) then evict_oldest_rate (ws_rates s) else ws_rates s))
      in s\<lparr>ws_rates := gm_set ip \<lparr>re_count = Suc n, re_seen = now\<rparr> rates\<rparr>)"

definition reset_rate_limit :: "string \<Rightarrow> web_state \<Rightarrow> web_state" where
  "reset_rate_limit ip s = s\<lparr>ws_rates := gm_del ip (ws_rates s)\<rparr>"

definition cleanup_rate_limits :: "int \<Rightarrow> web_state \<Rightarrow> web_state" where
  "cleanup_rate_limits now s =
     prune_failures now (s\<lparr>ws_rates := filter (\<lambda>(_, e). now - re_seen e \<le> login_failure_memory) (ws_rates s)\<rparr>)"

section \<open>Login and logout\<close>

datatype login_outcome =
    LoginPage string           \<comment> \<open>the form with a fresh CSRF token\<close>
  | LoggedIn string string     \<comment> \<open>session and CSRF cookies, redirect\<close>
  | LoginRejected string       \<comment> \<open>wrong credentials: the form again\<close>
  | LoginLimited int           \<comment> \<open>429 with the time to wait\<close>
  | LoginForbidden             \<comment> \<open>403: CSRF\<close>
  | LoginNeedsHttps
  | LoginBroken                \<comment> \<open>500: no random numbers\<close>
  | LoginIgnored               \<comment> \<open>another method\<close>

text \<open>handleLogin; \<open>fresh\<close> are the tokens of newSession, \<open>form_csrf\<close> the token of a new form.\<close>

definition handle_login ::
  "web_config \<Rightarrow> int \<Rightarrow> web_request \<Rightarrow> (string \<times> string) option \<Rightarrow> string option \<Rightarrow> web_state \<Rightarrow> login_outcome \<times> web_state" where
  "handle_login c now r fresh form_csrf s =
     (if \<not> is_https c r then (LoginNeedsHttps, s)
      else if rq_method r = ''GET'' then
        ((case form_csrf of None \<Rightarrow> LoginBroken | Some t \<Rightarrow> LoginPage t), s)
      else if rq_method r \<noteq> ''POST'' then (LoginIgnored, s)
      else
        let ip = client_ip c r
        in case check_rate_limit now ip s of
             (Some wait, s1) \<Rightarrow> (LoginLimited wait, s1)
           | (None, s1) \<Rightarrow>
               (let submitted = (if rq_form r ''csrf_token'' = [] then request_header r ''X-CSRF-Token'' else rq_form r ''csrf_token'')
                in if rq_cookies r csrf_cookie \<noteq> Some submitted then (LoginForbidden, s1)
                   else if rq_form r ''username'' = wc_username c \<and> wc_check_password c (rq_form r ''password'') then
                     (case fresh of
                        None \<Rightarrow> (LoginBroken, s1)
                      | Some (token, csrf) \<Rightarrow>
                          (let s2 = reset_rate_limit ip (new_session now token csrf s1)
                           in (LoggedIn token (session_csrf_token now token s2), s2)))
                   else
                     (let s2 = record_failed_login now ip s1
                      in ((case form_csrf of None \<Rightarrow> LoginBroken | Some t \<Rightarrow> LoginRejected t), s2))))"

datatype logout_outcome = LoggedOut | LogoutForbidden | LogoutUnauthorized | LogoutWrongMethod

definition handle_logout :: "int \<Rightarrow> web_request \<Rightarrow> web_state \<Rightarrow> logout_outcome \<times> web_state" where
  "handle_logout now r s =
     (if rq_method r \<noteq> ''POST'' then (LogoutWrongMethod, s)
      else if rq_cookies r csrf_cookie \<noteq> Some (rq_form r ''csrf_token'') then (LogoutForbidden, s)
      else if rq_form r ''scope'' = ''all'' then
        (case rq_cookies r session_cookie of
           None \<Rightarrow> (LogoutUnauthorized, s)
         | Some token \<Rightarrow> (case valid_session now token s of
               (False, s1) \<Rightarrow> (LogoutUnauthorized, s1)
             | (True, s1) \<Rightarrow> (LoggedOut, delete_all_sessions s1)))
      else (LoggedOut, case rq_cookies r session_cookie of None \<Rightarrow> s | Some token \<Rightarrow> delete_session token s))"

section \<open>The middlewares\<close>

datatype gate = Served | Refused nat | RedirectedTo string

definition auth_middleware :: "web_config \<Rightarrow> int \<Rightarrow> web_request \<Rightarrow> web_state \<Rightarrow> gate \<times> web_state" where
  "auth_middleware c now r s =
     (if \<not> web_auth_enabled c then (if allowed_host c r then Served else Refused 421, s)
      else if wc_username c = [] \<or> wc_password c = [] then (Refused 503, s)
      else if \<not> is_https c r then (Refused 426, s)
      else
        let (ok, s1) = (case rq_cookies r session_cookie of None \<Rightarrow> (False, s) | Some token \<Rightarrow> valid_session now token s)
        in if ok then (Served, s1)
           else if contains_str (request_header r ''Accept'') ''text/html'' then (RedirectedTo (wc_base_url c @ ''/login''), s1)
           else (Refused 401, s1))"

definition valid_ingest_auth :: "web_config \<Rightarrow> web_request \<Rightarrow> bool" where
  "valid_ingest_auth c r \<longleftrightarrow> request_header r ''Authorization'' = ''Bearer '' @ wc_ingest_secret c"

definition internal_auth :: "web_config \<Rightarrow> int \<Rightarrow> web_request \<Rightarrow> web_state \<Rightarrow> gate \<times> web_state" where
  "internal_auth c now r s =
     (if wc_ingest_secret c \<noteq> [] then (if valid_ingest_auth c r then Served else Refused 401, s)
      else if wc_username c = [] \<or> wc_password c = [] then (Refused 503, s)
      else case auth_middleware c now r s of
             (Served, s1) \<Rightarrow>
               (if rq_method r \<noteq> ''GET'' \<and> rq_method r \<noteq> ''HEAD'' \<and> \<not> check_csrf c now r s1 then Refused 403 else Served, s1)
           | (g, s1) \<Rightarrow> (g, s1))"

section \<open>Runs\<close>

datatype web_op =
    WLogin web_request "(string \<times> string) option" "string option"
  | WLogout web_request
  | WPage web_request      \<comment> \<open>a handler behind the session middleware\<close>
  | WInternal web_request
  | WCleanup

fun web_step :: "web_config \<Rightarrow> int \<times> web_op \<Rightarrow> web_state \<Rightarrow> web_state" where
  "web_step c (t, WLogin r fresh form) s = snd (handle_login c t r fresh form s)"
| "web_step c (t, WLogout r) s = snd (handle_logout t r s)"
| "web_step c (t, WPage r) s = snd (auth_middleware c t r s)"
| "web_step c (t, WInternal r) s = snd (internal_auth c t r s)"
| "web_step c (t, WCleanup) s = cleanup_rate_limits t s"

abbreviation web_run :: "web_config \<Rightarrow> (int \<times> web_op) list \<Rightarrow> web_state" where
  "web_run c ops \<equiv> fold (web_step c) ops new_web"

section \<open>Bounds\<close>

definition web_inv :: "web_state \<Rightarrow> bool" where
  "web_inv s \<longleftrightarrow> gm_ok (ws_sessions s) \<and> length (ws_sessions s) \<le> max_sessions \<and>
     gm_ok (ws_rates s) \<and> length (ws_rates s) \<le> max_rate_entries"

lemma gm_filter_inv:
  assumes "gm_ok m"
  shows "gm_ok (filter P m)" "length (filter P m) \<le> length m"
    "gm_get (filter P m) k = (case gm_get m k of None \<Rightarrow> None | Some v \<Rightarrow> if P (k, v) then Some v else None)"
proof -
  show "gm_ok (filter P m)" using assms by (induction m) (auto simp: image_iff)
  show "gm_get (filter P m) k = (case gm_get m k of None \<Rightarrow> None | Some v \<Rightarrow> if P (k, v) then Some v else None)"
    using assms
  proof (induction m)
    case (Cons q m)
    then have "gm_get m (fst q) = None" by (simp add: map_of_eq_None_iff)
    with Cons show ?case by (cases q) (auto split: option.split)
  qed simp
qed simp

lemma live_get: "gm_ok m \<Longrightarrow> gm_get (live_sessions now m) k =
    (case gm_get m k of None \<Rightarrow> None | Some e \<Rightarrow> if expired now e then None else Some e)"
  by (simp add: live_sessions_def gm_filter_inv split: option.split)

lemma live_ok: "gm_ok m \<Longrightarrow> gm_ok (live_sessions now m)" "length (live_sessions now m) \<le> length m"
  by (simp_all add: live_sessions_def gm_filter_inv(1))

lemma session_evict_props:
  "(gm_ok m \<longrightarrow> gm_ok (evict_sessions m)) \<and> length (evict_sessions m) < max_sessions \<and> length (evict_sessions m) \<le> length m \<and>
   (gm_get (evict_sessions m) k = None \<or> gm_get (evict_sessions m) k = gm_get m k)"
proof (induction m rule: evict_sessions.induct)
  case (1 m)
  show ?case
  proof (cases "length m < max_sessions")
    case False
    then have "m \<noteq> []" by (auto simp: max_sessions_def)
    then obtain p where p: "scan_min (\<lambda>p. se_seen (snd p)) None m = Some p"
      using scan_min_None [of "\<lambda>p. se_seen (snd p)" None m] by auto
    note IH = 1 [OF False p]
    from p False have ev: "evict_sessions m = evict_sessions (gm_del (fst p) m)" by (subst evict_sessions.simps) simp
    show ?thesis unfolding ev using IH gm_len_del_le [of "fst p" m] by (auto simp: gomap_simps)
  qed (simp add: evict_sessions.simps)
qed

lemma gm_set_len: "length m < n \<Longrightarrow> length (gm_set k v m) \<le> n" "gm_get m k = Some e \<Longrightarrow> length (gm_set k v m) = length m"
  by (auto simp: gm_len_set dest: map_of_SomeD intro: rev_image_eqI)

lemma new_session_inv:
  assumes "web_inv s"
  shows "web_inv (new_session now token csrf s)"
proof -
  let ?m = "evict_sessions (live_sessions now (ws_sessions s))"
  have "gm_ok ?m" "length ?m < max_sessions"
    using session_evict_props [of "live_sessions now (ws_sessions s)"] live_ok(1) [of "ws_sessions s" now] assms by (auto simp: web_inv_def)
  with assms show ?thesis by (auto simp: web_inv_def new_session_def gm_set_len(1))
qed

lemma valid_session_inv:
  assumes "web_inv s"
  shows "web_inv (snd (valid_session now token s))"
proof -
  have "gm_ok (live_sessions now (ws_sessions s))" "length (live_sessions now (ws_sessions s)) \<le> max_sessions"
    using live_ok(1) [of "ws_sessions s" now] live_ok(2) [of now "ws_sessions s"] assms by (auto simp: web_inv_def)
  with assms show ?thesis by (auto simp: web_inv_def valid_session_def Let_def gm_set_len(2) split: option.split)
qed

lemma rates_evict: "m \<noteq> [] \<Longrightarrow> length (evict_oldest_rate m) < length m" "gm_ok m \<Longrightarrow> gm_ok (evict_oldest_rate m)"
proof -
  assume "m \<noteq> []"
  then obtain p where "scan_min (\<lambda>p. re_seen (snd p)) None m = Some p"
    using scan_min_None [of "\<lambda>p. re_seen (snd p)" None m] by auto
  with scan_min_mem [of "\<lambda>p. re_seen (snd p)" None m p] show "length (evict_oldest_rate m) < length m"
    by (simp add: evict_oldest_rate_def gm_del_shorter)
qed (simp add: evict_oldest_rate_def split: option.split)

lemma record_failed_inv:
  assumes "web_inv s"
  shows "web_inv (record_failed_login now ip s)"
proof (cases "gm_get (ws_rates s) ip")
  case None
  let ?m = "if max_rate_entries \<le> length (ws_rates s) then evict_oldest_rate (ws_rates s) else ws_rates s"
  have "ws_rates s \<noteq> []" if "max_rate_entries \<le> length (ws_rates s)"
    using that by (auto simp: max_rate_entries_def)
  then have "length ?m < max_rate_entries" "gm_ok ?m"
    using rates_evict(1) [of "ws_rates s"] rates_evict(2) [of "ws_rates s"] assms by (auto simp: web_inv_def)
  then show ?thesis using None assms gm_set_len(1) [of ?m max_rate_entries ip]
    by (auto simp: web_inv_def record_failed_login_def prune_failures_def Let_def split: if_splits)
next
  case (Some e)
  then show ?thesis using assms by (simp add: web_inv_def record_failed_login_def prune_failures_def Let_def gm_set_len(2))
qed

lemma rate_check_inv: "web_inv s \<Longrightarrow> web_inv (snd (check_rate_limit now ip s))"
  using gm_len_del_le [of ip "ws_rates s"]
  by (auto simp: web_inv_def check_rate_limit_def prune_failures_def Let_def split: option.split)

lemma web_inv_sessions: "web_inv s \<Longrightarrow> ws_rates s' = ws_rates s \<Longrightarrow> gm_ok (ws_sessions s') \<Longrightarrow>
    length (ws_sessions s') \<le> length (ws_sessions s) \<Longrightarrow> web_inv s'"
  by (simp add: web_inv_def)

lemma delete_inv: "web_inv s \<Longrightarrow> web_inv (delete_session token s)" "web_inv s \<Longrightarrow> web_inv (delete_all_sessions s)"
  "web_inv s \<Longrightarrow> web_inv (reset_rate_limit ip s)"
  using gm_len_del_le [of token "ws_sessions s"] gm_len_del_le [of ip "ws_rates s"]
  by (auto simp: web_inv_def delete_session_def delete_all_sessions_def reset_rate_limit_def)

lemma handle_login_inv: "web_inv s \<Longrightarrow> web_inv (snd (handle_login c now r fresh form s))"
  using rate_check_inv [of s now "client_ip c r"]
  by (auto simp: handle_login_def Let_def record_failed_inv new_session_inv delete_inv split: prod.split option.split)

lemma handle_logout_refused:
  "fst (handle_logout t r s) \<noteq> LoggedOut \<Longrightarrow> snd (handle_logout t r s) = s \<or>
   (\<exists>tok. \<not> fst (valid_session t tok s) \<and> snd (handle_logout t r s) = snd (valid_session t tok s))"
  by (auto simp: handle_logout_def split_beta split: option.splits bool.splits if_splits)

lemma handle_logout_done:
  "fst (handle_logout t r s) = LoggedOut \<Longrightarrow>
   (if rq_form r ''scope'' = ''all'' then ws_sessions (snd (handle_logout t r s)) = [] \<and> ws_rates (snd (handle_logout t r s)) = ws_rates s
    else snd (handle_logout t r s) = (case rq_cookies r session_cookie of None \<Rightarrow> s | Some tok \<Rightarrow> delete_session tok s))"
  by (auto simp: handle_logout_def split_beta delete_all_sessions_def valid_session_def Let_def split: option.splits bool.splits if_splits)

lemma handle_logout_inv: "web_inv s \<Longrightarrow> web_inv (snd (handle_logout now r s))"
proof (cases "fst (handle_logout now r s) = LoggedOut")
  case True
  assume "web_inv s"
  with handle_logout_done [OF True] delete_inv(1) show ?thesis by (auto simp: web_inv_def split: if_splits option.splits)
qed (use handle_logout_refused valid_session_inv in fastforce)

lemma auth_middleware_state:
  "snd (auth_middleware c now r s) = s \<or>
   (\<exists>tok. rq_cookies r session_cookie = Some tok \<and> snd (auth_middleware c now r s) = snd (valid_session now tok s))"
  by (auto simp: auth_middleware_def split_beta split: option.split)

lemma auth_middleware_inv: "web_inv s \<Longrightarrow> web_inv (snd (auth_middleware c now r s))"
  using auth_middleware_state [of c now r s] valid_session_inv by auto

lemma internal_auth_state: "snd (internal_auth c now r s) = s \<or> snd (internal_auth c now r s) = snd (auth_middleware c now r s)"
  by (auto simp: internal_auth_def split: prod.split gate.split)

lemma rate_cleanup_inv: "web_inv s \<Longrightarrow> web_inv (cleanup_rate_limits now s)"
  using gm_filter_inv(1) [of "ws_rates s"]
  by (auto simp: web_inv_def cleanup_rate_limits_def prune_failures_def intro: le_trans [OF length_filter_le])

lemma web_step_inv: "web_inv s \<Longrightarrow> web_inv (web_step c x s)"
  using internal_auth_state auth_middleware_inv
  by (cases "(c, x, s)" rule: web_step.cases) (auto simp: handle_login_inv handle_logout_inv rate_cleanup_inv, metis)

interpretation web: invariant_system "web_step c" web_inv
  by unfold_locales (rule web_step_inv)

lemma web_run_inv: "web_inv (web_run c ops)"
  by (rule web.run_keeps) (simp add: web_inv_def new_web_def max_sessions_def max_rate_entries_def)


section \<open>The history of a session\<close>

text \<open>An operation issues a session, revokes it or uses it, in a given state.\<close>

fun issues :: "web_config \<Rightarrow> int \<times> web_op \<Rightarrow> web_state \<Rightarrow> string \<Rightarrow> string \<Rightarrow> bool" where
  "issues c (t, WLogin r fresh form) s tok csrf \<longleftrightarrow> fst (handle_login c t r fresh form s) = LoggedIn tok csrf"
| "issues c _ s tok csrf \<longleftrightarrow> False"

fun revokes :: "int \<times> web_op \<Rightarrow> web_state \<Rightarrow> string \<Rightarrow> bool" where
  "revokes (t, WLogout r) s tok \<longleftrightarrow> fst (handle_logout t r s) = LoggedOut \<and>
     (rq_form r ''scope'' = ''all'' \<or> rq_cookies r session_cookie = Some tok)"
| "revokes _ s tok \<longleftrightarrow> False"

fun uses_session :: "int \<times> web_op \<Rightarrow> web_state \<Rightarrow> string \<Rightarrow> bool" where
  "uses_session (t, WPage r) s tok \<longleftrightarrow> rq_cookies r session_cookie = Some tok \<and> fst (valid_session t tok s)"
| "uses_session (t, WInternal r) s tok \<longleftrightarrow> rq_cookies r session_cookie = Some tok \<and> fst (valid_session t tok s)"
| "uses_session _ s tok \<longleftrightarrow> False"

text \<open>What a session of the next state was in this one.\<close>

definition inherits :: "web_state \<Rightarrow> string \<Rightarrow> session_entry \<Rightarrow> (session_entry \<Rightarrow> bool) \<Rightarrow> bool" where
  "inherits s tok e P \<longleftrightarrow> (\<exists>e0. gm_get (ws_sessions s) tok = Some e0 \<and> P e0)"

lemma valid_session_old:
  assumes "web_inv s" and "gm_get (ws_sessions (snd (valid_session t token s))) tok = Some e"
  shows "\<exists>e0. gm_get (ws_sessions s) tok = Some e0 \<and> (e = e0 \<or> token = tok \<and> fst (valid_session t token s) \<and> e = e0\<lparr>se_seen := t\<rparr>)"
proof -
  have ok: "gm_ok (ws_sessions s)" using assms(1) by (simp add: web_inv_def)
  from assms(2) show ?thesis
    by (auto simp: valid_session_def Let_def live_get [OF ok] gomap_simps split: option.splits if_splits)
qed

lemma new_session_old:
  assumes "web_inv s" and "gm_get (ws_sessions (new_session t token csrf s)) tok = Some e"
  shows "token = tok \<and> e = \<lparr>se_expires = t + session_lifetime, se_seen = t, se_csrf = csrf\<rparr> \<or> gm_get (ws_sessions s) tok = Some e"
proof -
  have ok: "gm_ok (ws_sessions s)" using assms(1) by (simp add: web_inv_def)
  from assms(2) session_evict_props [of "live_sessions t (ws_sessions s)" tok] show ?thesis
    by (auto simp: new_session_def gomap_simps live_get [OF ok] split: option.splits if_splits)
qed

lemma rate_sessions [simp]: "ws_sessions (snd (check_rate_limit t ip s)) = ws_sessions s"
  "ws_sessions (record_failed_login t ip s) = ws_sessions s" "ws_sessions (reset_rate_limit ip s) = ws_sessions s"
  "ws_sessions (cleanup_rate_limits t s) = ws_sessions s"
  by (simp_all add: check_rate_limit_def record_failed_login_def reset_rate_limit_def cleanup_rate_limits_def prune_failures_def Let_def
      split: option.split prod.split)

lemma new_session_csrf: "session_csrf_token t token (reset_rate_limit ip (new_session t token csrf s)) = csrf"
  by (simp add: session_csrf_token_def lookup_session_def new_session_def reset_rate_limit_def expired_def gomap_simps
      session_lifetime_def session_idle_timeout_def hour_def minute_def second_def)

text \<open>What a login that hands out a session has checked, and what it leaves behind.\<close>

definition good_login :: "web_config \<Rightarrow> web_request \<Rightarrow> bool" where
  "good_login c r \<longleftrightarrow> is_https c r \<and> rq_method r = ''POST'' \<and> rq_form r ''username'' = wc_username c \<and>
     wc_check_password c (rq_form r ''password'')"

lemma login_cases:
  "(\<exists>tok csrf. fst (handle_login c t r fresh form s) = LoggedIn tok csrf \<and> fresh = Some (tok, csrf) \<and> good_login c r \<and>
      fst (check_rate_limit t (client_ip c r) s) = None \<and>
      snd (handle_login c t r fresh form s) = reset_rate_limit (client_ip c r) (new_session t tok csrf (snd (check_rate_limit t (client_ip c r) s)))) \<or>
   (\<forall>tok csrf. fst (handle_login c t r fresh form s) \<noteq> LoggedIn tok csrf) \<and>
     ws_sessions (snd (handle_login c t r fresh form s)) = ws_sessions s"
proof -
  obtain w s1 where l: "check_rate_limit t (client_ip c r) s = (w, s1)" by (cases "check_rate_limit t (client_ip c r) s")
  with rate_sessions(1) [of t "client_ip c r" s] have s1: "ws_sessions s1 = ws_sessions s" by simp
  show ?thesis
    by (auto simp: handle_login_def l s1 Let_def good_login_def new_session_csrf split: option.split)
qed

lemma step_session:
  assumes inv: "web_inv s" and get: "gm_get (ws_sessions (web_step c x s)) tok = Some e"
  shows "\<not> revokes x s tok \<and>
    (issues c x s tok (se_csrf e) \<and> se_expires e = fst x + session_lifetime \<and> se_seen e = fst x \<or>
     (\<exists>e0. gm_get (ws_sessions s) tok = Some e0 \<and> (e = e0 \<or> uses_session x s tok \<and> e = e0\<lparr>se_seen := fst x\<rparr>)))"
proof (cases "(c, x, s)" rule: web_step.cases)
  case (1 c' t r fresh form s')
  then have x: "x = (t, WLogin r fresh form)" by simp
  from login_cases [of c t r fresh form s] get show ?thesis
  proof (elim disjE exE conjE)
    fix tok' csrf
    assume l: "fst (handle_login c t r fresh form s) = LoggedIn tok' csrf"
      and n: "snd (handle_login c t r fresh form s) = reset_rate_limit (client_ip c r) (new_session t tok' csrf (snd (check_rate_limit t (client_ip c r) s)))"
    from get n have "gm_get (ws_sessions (new_session t tok' csrf (snd (check_rate_limit t (client_ip c r) s)))) tok = Some e"
      by (simp add: x)
    from new_session_old [OF rate_check_inv [OF inv] this] l show ?thesis by (auto simp: x)
  qed (simp add: x)
next
  case (2 c' t r s')
  then have x: "x = (t, WLogout r)" by simp
  show ?thesis
  proof (cases "fst (handle_logout t r s) = LoggedOut")
    case True
    with handle_logout_done [OF True] get show ?thesis
      by (auto simp: x delete_session_def gomap_simps split: if_splits option.splits)
  next
    case False
    with handle_logout_refused [OF False] get valid_session_old [OF inv] show ?thesis by (fastforce simp: x)
  qed
next
  case (3 c' t r s')
  then have x: "x = (t, WPage r)" by simp
  from auth_middleware_state [of c t r s] get valid_session_old [OF inv] show ?thesis by (fastforce simp: x)
next
  case (4 c' t r s')
  then have x: "x = (t, WInternal r)" by simp
  from internal_auth_state [of c t r s] auth_middleware_state [of c t r s] get valid_session_old [OF inv]
  show ?thesis by (fastforce simp: x)
next
  case (5 c' t s')
  then show ?thesis using get by simp
qed

text \<open>Operation i of a run handed out the session with this token and CSRF token, after checking the
  credentials, and no later operation revoked it; operation k was the last that used it.\<close>

definition granted :: "web_config \<Rightarrow> (int \<times> web_op) list \<Rightarrow> nat \<Rightarrow> string \<Rightarrow> string \<Rightarrow> bool" where
  "granted c ops i tok csrf \<longleftrightarrow> i < length ops \<and>
     (\<exists>t r form. ops ! i = (t, WLogin r (Some (tok, csrf)) form) \<and> good_login c r) \<and>
     (\<forall>j. i < j \<and> j < length ops \<longrightarrow> \<not> revokes (ops ! j) (web_run c (take j ops)) tok)"

definition last_used :: "web_config \<Rightarrow> (int \<times> web_op) list \<Rightarrow> nat \<Rightarrow> nat \<Rightarrow> string \<Rightarrow> bool" where
  "last_used c ops i k tok \<longleftrightarrow> i \<le> k \<and> k < length ops \<and> (k = i \<or> uses_session (ops ! k) (web_run c (take k ops)) tok)"

lemma granted_snoc: "granted c ops i tok csrf \<Longrightarrow> \<not> revokes x (web_run c ops) tok \<Longrightarrow> granted c (ops @ [x]) i tok csrf"
  by (auto simp: granted_def nth_append less_Suc_eq)

lemma last_used_snoc: "last_used c ops i k tok \<Longrightarrow> last_used c (ops @ [x]) i k tok"
  by (auto simp: last_used_def nth_append)

lemma issues_good: "issues c x s tok csrf \<Longrightarrow> \<exists>t r form. x = (t, WLogin r (Some (tok, csrf)) form) \<and> good_login c r"
proof (cases "(c, x, s)" rule: web_step.cases)
  case (1 c' t r fresh form s')
  assume "issues c x s tok csrf"
  with 1 login_cases [of c t r fresh form s] show ?thesis by auto
qed auto

lemma session_history:
  "gm_get (ws_sessions (web_run c ops)) tok = Some e \<Longrightarrow>
   \<exists>i k. granted c ops i tok (se_csrf e) \<and> se_expires e = fst (ops ! i) + session_lifetime \<and>
         last_used c ops i k tok \<and> se_seen e = fst (ops ! k)"
proof (induction ops arbitrary: e rule: rev_induct)
  case Nil
  then show ?case by (simp add: new_web_def)
next
  case (snoc x ops)
  let ?s = "web_run c ops"
  from snoc.prems have get: "gm_get (ws_sessions (web_step c x ?s)) tok = Some e" by simp
  from step_session [OF web_run_inv get] consider
      (new) "issues c x ?s tok (se_csrf e)" "se_expires e = fst x + session_lifetime" "se_seen e = fst x"
    | (old) e0 where "gm_get (ws_sessions ?s) tok = Some e0" "\<not> revokes x ?s tok"
        "e = e0 \<or> uses_session x ?s tok \<and> e = e0\<lparr>se_seen := fst x\<rparr>"
    by blast
  then show ?case
  proof cases
    case new
    from issues_good [OF new(1)] have "granted c (ops @ [x]) (length ops) tok (se_csrf e)"
      by (auto simp: granted_def)
    moreover have "last_used c (ops @ [x]) (length ops) (length ops) tok" by (simp add: last_used_def)
    ultimately show ?thesis using new(2,3) by (intro exI [of _ "length ops"]) simp
  next
    case old
    from snoc.IH [OF old(1)] obtain i k where g: "granted c ops i tok (se_csrf e0)" "se_expires e0 = fst (ops ! i) + session_lifetime"
      "last_used c ops i k tok" "se_seen e0 = fst (ops ! k)" by blast
    have i: "i < length ops" "k < length ops" "i \<le> k" using g(1,3) by (auto simp: granted_def last_used_def)
    have g': "granted c (ops @ [x]) i tok (se_csrf e)" "se_expires e = fst ((ops @ [x]) ! i) + session_lifetime"
      using granted_snoc [OF g(1) old(2)] old(3) g(2) i by (auto simp: nth_append)
    from old(3) show ?thesis
    proof
      assume "e = e0"
      with g' last_used_snoc [OF g(3)] g(4) i show ?thesis by (intro exI [of _ i] exI [of _ k]) (auto simp: nth_append)
    next
      assume u: "uses_session x ?s tok \<and> e = e0\<lparr>se_seen := fst x\<rparr>"
      then have "last_used c (ops @ [x]) i (length ops) tok" using i by (simp add: last_used_def)
      with g' u show ?thesis by (intro exI [of _ i] exI [of _ "length ops"]) auto
    qed
  qed
qed

lemma run_ok: "gm_ok (ws_sessions (web_run c ops))"
  using web_run_inv [of c ops] by (simp add: web_inv_def)

lemma alive_history:
  assumes "gm_get (ws_sessions (web_run c ops)) tok = Some e" and "\<not> expired now e"
  shows "\<exists>i k. granted c ops i tok (se_csrf e) \<and> now < fst (ops ! i) + session_lifetime \<and>
           last_used c ops i k tok \<and> now < fst (ops ! k) + session_idle_timeout"
  using session_history [OF assms(1)] assms(2) by (fastforce simp: expired_def)

end
