(* ===== verification/Config_Handlers.thy ===== *)
theory Config_Handlers
  imports Config_Apply Web_Sessions
begin

text \<open>
  The handlers of api/ that change the managed configuration (configuration.go, config_user_rules.go,
  config_subscriptions.go, filtering.go, filtering_diagnostics.go, upstreams.go), on the node of
  Config_Apply. A handler gets the decoded body (None when it is too large or does not decode), the
  success of its file operations and the ids that are drawn; it returns the status and the node.
  ValidateRuleText can panic, and the HTTP server then aborts the reply. The upstreams file is taken
  to be configured; response bodies are not modelled.
\<close>

section \<open>Requests\<close>

record mgmt =
  mg_mode :: string
  mg_web :: web_config
  mg_now :: int
  mg_state :: web_state
  mg_request :: web_request
  mg_env :: config_env
  mg_dns :: dns_lib
  mg_checksum :: "rule list \<Rightarrow> rule list \<Rightarrow> string"

datatype mgmt_reply = Replied int | Aborted

type_synonym handled = "mgmt_reply \<times> node"

definition is_controller :: "string \<Rightarrow> bool" where
  "is_controller mode \<longleftrightarrow> mode = [] \<or> mode = ''controller''"

definition csrf_ok :: "mgmt \<Rightarrow> bool" where
  "csrf_ok q = check_csrf (mg_web q) (mg_now q) (mg_request q) (mg_state q)"

definition method_is :: "mgmt \<Rightarrow> string \<Rightarrow> bool" where
  "method_is q m \<longleftrightarrow> rq_method (mg_request q) = m"

text \<open>requireController, then checkCSRF.\<close>

definition guarded :: "mgmt \<Rightarrow> node \<Rightarrow> handled \<Rightarrow> handled" where
  "guarded q n x =
     (if \<not> is_controller (mg_mode q) then (Replied 403, n) else if \<not> csrf_ok q then (Replied 403, n) else x)"

definition clear_dns_cache :: "node \<Rightarrow> node" where
  "clear_dns_cache n = n\<lparr>nd_clears := Suc (nd_clears n)\<rparr>"

definition publish_subs :: "config_env \<Rightarrow> sub_store \<Rightarrow> node \<Rightarrow> node" where
  "publish_subs E s n = n\<lparr>nd_subs := s,
     nd_engine := replace_url_sources (ce_regex E) (ce_history E) (ce_valid_url E) (sst_items s) (nd_engine n)\<rparr>"

section \<open>DNS settings and user rules\<close>

definition handle_dns_settings :: "mgmt \<Rightarrow> settings option \<Rightarrow> bool \<Rightarrow> node \<Rightarrow> handled" where
  "handle_dns_settings q body ok n =
     (if method_is q ''GET'' then (Replied 200, n)
      else if \<not> method_is q ''PUT'' then (Replied 405, n)
      else guarded q n
        (case body of
           None \<Rightarrow> (Replied 400, n)
         | Some s0 \<Rightarrow>
             (let s = normalize_settings s0
              in if validate_managed_settings (ce_urls (mg_env q)) s (us_bootstrap (configured_resolvers n)) \<noteq> None
                 then (Replied 400, n)
                 else if \<not> nd_ready n then (Replied 503, n)
                 else case replace_settings (ce_urls (mg_env q)) s ok (nd_settings n) of
                        (Some _, st) \<Rightarrow> (Replied 500, n\<lparr>nd_settings := st\<rparr>)
                      | (None, st) \<Rightarrow> (Replied 200, clear_dns_cache (n\<lparr>nd_settings := st, nd_live := Some s\<rparr>)))))"

definition handle_user_rules :: "mgmt \<Rightarrow> string option \<Rightarrow> bool \<Rightarrow> bool \<Rightarrow> node \<Rightarrow> handled" where
  "handle_user_rules q body readable ok n =
     (if method_is q ''GET'' then (Replied (if readable then 200 else 500), n)
      else if \<not> method_is q ''PUT'' then (Replied 405, n)
      else guarded q n
        (case body of
           None \<Rightarrow> (Replied 400, n)
         | Some rules \<Rightarrow>
             (if max_user_rules < length rules then (Replied 413, n)
              else case validate_rule_text (ce_regex (mg_env q)) rules of
                     None \<Rightarrow> (Aborted, n)
                   | Some (_, ds) \<Rightarrow>
                       (if list_ex is_error_diag ds then (Replied 400, n)
                        else case replace_user_rules rules ok n of
                               (Some _, n1) \<Rightarrow> (Replied 500, n1) | (None, n1) \<Rightarrow> (Replied 200, n1)))))"

section \<open>Subscriptions\<close>

definition handle_filter_subscriptions ::
  "mgmt \<Rightarrow> subscription list option \<Rightarrow> (nat \<Rightarrow> string option) \<Rightarrow> bool \<Rightarrow> node \<Rightarrow> handled" where
  "handle_filter_subscriptions q body fresh ok n =
     (if \<not> nd_ready n then (Replied 503, n)
      else if method_is q ''GET'' then (Replied 200, n)
      else if \<not> method_is q ''PUT'' then (Replied 405, n)
      else guarded q n
        (case body of
           None \<Rightarrow> (Replied 400, n)
         | Some bs \<Rightarrow>
             (case replace_subs (ce_sub_urls (mg_env q)) fresh bs ok (nd_subs n) of
                (Some _, s) \<Rightarrow> (Replied 400, n\<lparr>nd_subs := s\<rparr>)
              | (None, s) \<Rightarrow> (Replied 200, clear_dns_cache (publish_subs (mg_env q) s n)))))"

definition handle_subscriptions_import ::
  "mgmt \<Rightarrow> (int \<times> subscription list) option \<Rightarrow> (nat \<Rightarrow> string option) \<Rightarrow> bool \<Rightarrow> node \<Rightarrow> handled" where
  "handle_subscriptions_import q body fresh ok n =
     (if \<not> method_is q ''POST'' then (Replied 405, n)
      else guarded q n
        (if \<not> nd_ready n then (Replied 503, n)
         else case body of
           None \<Rightarrow> (Replied 400, n)
         | Some (version, bs) \<Rightarrow>
             (if validate_document (ce_sub_urls (mg_env q)) version bs \<noteq> None then (Replied 400, n)
              else case replace_subs (ce_sub_urls (mg_env q)) fresh bs ok (nd_subs n) of
                     (Some _, s) \<Rightarrow> (Replied 400, n\<lparr>nd_subs := s\<rparr>)
                   | (None, s) \<Rightarrow> (Replied 200, clear_dns_cache (publish_subs (mg_env q) s n)))))"

definition parse_bulk_action :: "string \<Rightarrow> bulk_action" where
  "parse_bulk_action a =
     (if a = ''enable'' then BulkEnable else if a = ''disable'' then BulkDisable
      else if a = ''refresh'' then BulkRefresh else if a = ''delete'' then BulkDelete else BulkUnknown)"

definition handle_subscriptions_bulk ::
  "mgmt \<Rightarrow> (string \<times> string list) option \<Rightarrow> (nat \<Rightarrow> string option) \<Rightarrow> string option \<Rightarrow> bool \<Rightarrow> node \<Rightarrow> handled" where
  "handle_subscriptions_bulk q body fresh generation ok n =
     (if \<not> method_is q ''POST'' then (Replied 405, n)
      else guarded q n
        (if \<not> nd_ready n then (Replied 503, n)
         else case body of
           None \<Rightarrow> (Replied 400, n)
         | Some (action0, ids) \<Rightarrow>
             (let action = parse_bulk_action (to_lower (trim_space action0))
              in case bulk_subs (ce_sub_urls (mg_env q)) fresh action generation ids ok (nd_subs n) of
                   (Some e, s) \<Rightarrow> (Replied (if e = SubNotFound then 404 else 400), n\<lparr>nd_subs := s\<rparr>)
                 | (None, s) \<Rightarrow>
                     (let n1 = publish_subs (mg_env q) s n
                      in (Replied 200, if action = BulkRefresh then n1 else clear_dns_cache n1)))))"

definition handle_filtering_update ::
  "mgmt \<Rightarrow> string \<Rightarrow> (nat \<Rightarrow> string option) \<Rightarrow> string option \<Rightarrow> bool \<Rightarrow> node \<Rightarrow> handled" where
  "handle_filtering_update q id0 fresh generation ok n =
     (if \<not> method_is q ''POST'' then (Replied 405, n)
      else guarded q n
        (if \<not> nd_ready n then (Replied 503, n)
         else let i = trim_space id0
              in case (if i = [] then request_refresh (ce_sub_urls (mg_env q)) fresh generation [] ok (nd_subs n)
                       else request_source_refresh (ce_sub_urls (mg_env q)) fresh generation i ok (nd_subs n)) of
                   (Some e, s) \<Rightarrow> (Replied (if i \<noteq> [] \<and> e = SubNotFound then 404 else 500), n\<lparr>nd_subs := s\<rparr>)
                 | (None, s) \<Rightarrow> (Replied 202, publish_subs (mg_env q) s n)))"

section \<open>Rewrites and clients\<close>

record rewrite_body =
  rb_domain :: string
  rb_type :: string
  rb_value :: string
  rb_cidrs :: "string list"

definition handle_rewrites :: "mgmt \<Rightarrow> string \<Rightarrow> rewrite_body option \<Rightarrow> string \<Rightarrow> bool \<Rightarrow> node \<Rightarrow> handled" where
  "handle_rewrites q i body new_id ok n =
     (if \<not> method_is q ''GET'' \<and> \<not> is_controller (mg_mode q) then (Replied 403, n)
      else if \<not> nd_ready n then (Replied 503, n)
      else if method_is q ''GET'' then (Replied 200, n)
      else if method_is q ''POST'' then
        (if \<not> csrf_ok q then (Replied 403, n)
         else case body of
           None \<Rightarrow> (Replied 400, n)
         | Some b \<Rightarrow>
             (case add_rewrite ok new_id (rb_domain b) (rb_type b) (rb_value b) (rb_cidrs b) (nd_rewrites n) of
                (Inl _, s) \<Rightarrow> (Replied 400, n\<lparr>nd_rewrites := s\<rparr>)
              | (Inr _, s) \<Rightarrow> (Replied 200, clear_dns_cache (n\<lparr>nd_rewrites := s\<rparr>))))
      else if method_is q ''PUT'' then
        (if \<not> csrf_ok q then (Replied 403, n)
         else if i = [] then (Replied 400, n)
         else case body of
           None \<Rightarrow> (Replied 400, n)
         | Some b \<Rightarrow>
             (case update_rewrite ok new_id i (rb_domain b) (rb_type b) (rb_value b) (rb_cidrs b) (nd_rewrites n) of
                (Inl _, s) \<Rightarrow> (Replied 400, n\<lparr>nd_rewrites := s\<rparr>)
              | (Inr None, s) \<Rightarrow> (Replied 404, n\<lparr>nd_rewrites := s\<rparr>)
              | (Inr (Some _), s) \<Rightarrow> (Replied 200, clear_dns_cache (n\<lparr>nd_rewrites := s\<rparr>))))
      else if method_is q ''DELETE'' then
        (if \<not> csrf_ok q then (Replied 403, n)
         else if i = [] then (Replied 400, n)
         else case delete_rewrite ok i (nd_rewrites n) of
                ((_, Some _), s) \<Rightarrow> (Replied 500, n\<lparr>nd_rewrites := s\<rparr>)
              | ((False, None), s) \<Rightarrow> (Replied 404, n\<lparr>nd_rewrites := s\<rparr>)
              | ((True, None), s) \<Rightarrow> (Replied 200, clear_dns_cache (n\<lparr>nd_rewrites := s\<rparr>)))
      else (Replied 405, n))"

definition handle_clients :: "mgmt \<Rightarrow> string \<Rightarrow> client option \<Rightarrow> bool \<Rightarrow> node \<Rightarrow> handled" where
  "handle_clients q name body ok n =
     (if \<not> method_is q ''GET'' \<and> \<not> is_controller (mg_mode q) then (Replied 403, n)
      else if \<not> nd_ready n then (Replied 503, n)
      else if method_is q ''GET'' then (Replied 200, n)
      else if method_is q ''POST'' \<or> method_is q ''PUT'' then
        (if \<not> csrf_ok q then (Replied 403, n)
         else case body of
           None \<Rightarrow> (Replied 400, n)
         | Some c \<Rightarrow>
             (if trim_space (cl_name c) = [] \<or> cl_ids c = [] then (Replied 400, n)
              else case (if method_is q ''POST'' then add_client c ok (nd_clients n) else update_client c ok (nd_clients n)) of
                     (Some _, s) \<Rightarrow> (Replied 400, n\<lparr>nd_clients := s\<rparr>)
                   | (None, s) \<Rightarrow> (Replied 200, clear_dns_cache (n\<lparr>nd_clients := s\<rparr>))))
      else if method_is q ''DELETE'' then
        (if \<not> csrf_ok q then (Replied 403, n)
         else if name = [] then (Replied 400, n)
         else case delete_client name ok (nd_clients n) of
                (False, s) \<Rightarrow> (Replied 404, n\<lparr>nd_clients := s\<rparr>)
              | (True, s) \<Rightarrow> (Replied 200, clear_dns_cache (n\<lparr>nd_clients := s\<rparr>)))
      else (Replied 405, n))"

section \<open>Block and unblock from the query log\<close>

text \<open>One line of modifyUserRuleLocked: the lines kept so far, and whether the rule was seen.\<close>

definition modify_line :: "string \<Rightarrow> bool \<Rightarrow> string list \<times> bool \<Rightarrow> string \<Rightarrow> string list \<times> bool" where
  "modify_line rule remove acc line =
     (case acc of (out, found) \<Rightarrow>
        (let t = trim_space line
         in if t = rule \<and> remove then (out, True)
            else if t = [] \<and> out = [] then (out, found \<or> t = rule)
            else (out @ [line], found \<or> t = rule)))"

definition rules_text :: "string list \<Rightarrow> string" where
  "rules_text out = (let t = join_with [CHR 0x0A] out in if has_suffix t [CHR 0x0A] then t else t @ [CHR 0x0A])"

text \<open>None when the file cannot be read or written; otherwise whether it changed, and the file.\<close>

definition modify_user_rule :: "string \<Rightarrow> bool \<Rightarrow> bool \<Rightarrow> bool \<Rightarrow> string option \<Rightarrow> (bool \<times> string option) option" where
  "modify_user_rule rule remove readable ok file =
     (if \<not> readable then None
      else case foldl (modify_line rule remove) ([], False) (split_on (CHR 0x0A) (case file of None \<Rightarrow> [] | Some t \<Rightarrow> t)) of
             (out, found) \<Rightarrow>
               (if remove \<and> found then (if ok then Some (True, Some (rules_text out)) else None)
                else if \<not> remove \<and> \<not> found then (if ok then Some (True, Some (rules_text (out @ [rule]))) else None)
                else Some (False, file)))"

definition querylog_domain :: "string \<Rightarrow> string" where
  "querylog_domain d = to_lower (trim_suffix (trim_space d) ''.'')"

definition querylog_domain_ok :: "dns_lib \<Rightarrow> string \<Rightarrow> bool" where
  "querylog_domain_ok L d \<longleftrightarrow> d \<noteq> [] \<and> CHR ''.'' \<in> set d \<and> is_domain_name L d \<and>
     list_all (\<lambda>c. (CHR ''a'' \<le> c \<and> c \<le> CHR ''z'') \<or> is_digit c \<or> c = CHR ''-'' \<or> c = CHR ''.'') d"

definition block_rule :: "string \<Rightarrow> string" where "block_rule d = ''||'' @ d @ ''^''"
definition except_rule :: "string \<Rightarrow> string" where "except_rule d = ''@@||'' @ d @ ''^''"

text \<open>The two file updates; the first one is on disk when the second fails.\<close>

definition modify_rules_file :: "bool \<Rightarrow> string \<Rightarrow> bool \<Rightarrow> bool \<Rightarrow> bool \<Rightarrow> string option \<Rightarrow> bool \<times> string option" where
  "modify_rules_file block d readable ok1 ok2 file =
     (if block then
        (case modify_user_rule (except_rule d) True readable ok1 file of
           None \<Rightarrow> (False, file)
         | Some (_, f1) \<Rightarrow>
             (case modify_user_rule (block_rule d) False readable ok2 f1 of None \<Rightarrow> (False, f1) | Some (_, f2) \<Rightarrow> (True, f2)))
      else
        (case modify_user_rule (block_rule d) True readable ok1 file of
           None \<Rightarrow> (False, file)
         | Some (removed, f1) \<Rightarrow>
             (if removed then (True, f1)
              else case modify_user_rule (except_rule d) False readable ok2 f1 of
                     None \<Rightarrow> (False, f1) | Some (_, f2) \<Rightarrow> (True, f2))))"

definition handle_querylog_action :: "mgmt \<Rightarrow> bool \<Rightarrow> string option \<Rightarrow> bool \<Rightarrow> bool \<Rightarrow> bool \<Rightarrow> node \<Rightarrow> handled" where
  "handle_querylog_action q block body readable ok1 ok2 n =
     (if \<not> method_is q ''POST'' then (Replied 405, n)
      else guarded q n
        (if \<not> nd_ready n then (Replied 503, n)
         else case body of
           None \<Rightarrow> (Replied 400, n)
         | Some d0 \<Rightarrow>
             (let d = querylog_domain d0
              in if \<not> querylog_domain_ok (mg_dns q) d then (Replied 400, n)
                 else case modify_rules_file block d readable ok1 ok2 (nd_rules n) of
                        (False, f) \<Rightarrow> (Replied 500, n\<lparr>nd_rules := f\<rparr>)
                      | (True, f) \<Rightarrow> (Replied 200, clear_dns_cache
                          (n\<lparr>nd_rules := f, nd_rule_reloads := Suc (nd_rule_reloads n)\<rparr>)))))"

section \<open>Upstreams and routes\<close>

definition compact_strings :: "string list \<Rightarrow> string list" where
  "compact_strings vs = filter (\<lambda>v. v \<noteq> []) (List.map trim_space vs)"

definition reload_upstreams :: "node \<Rightarrow> node" where
  "reload_upstreams n = n\<lparr>nd_reloads := Suc (nd_reloads n)\<rparr>"

definition handle_upstream_settings :: "mgmt \<Rightarrow> (string list \<times> string list) option \<Rightarrow> bool \<Rightarrow> node \<Rightarrow> handled" where
  "handle_upstream_settings q body ok n =
     (if method_is q ''GET'' then (Replied 200, n)
      else if \<not> method_is q ''POST'' then (Replied 405, n)
      else guarded q n
        (case body of
           None \<Rightarrow> (Replied 400, n)
         | Some (us0, bs0) \<Rightarrow>
             (let us = compact_strings us0; bs = compact_strings bs0
              in if validate_resolvers (ce_urls (mg_env q)) us bs \<noteq> None then (Replied 400, n)
                 else if \<not> ok then (Replied 500, n)
                 else (Replied 200, clear_dns_cache (reload_upstreams (n\<lparr>nd_upstreams := Some (save_upstream_settings
                         \<lparr>us_upstreams = us, us_bootstrap = bs, us_bootstrap_configured = True\<rparr>)\<rparr>))))))"

definition handle_post_upstreams :: "mgmt \<Rightarrow> string list option \<Rightarrow> bool \<Rightarrow> node \<Rightarrow> handled" where
  "handle_post_upstreams q body ok n =
     (if method_is q ''GET'' then (Replied 200, n)
      else if \<not> method_is q ''POST'' then (Replied 405, n)
      else guarded q n
        (case body of
           None \<Rightarrow> (Replied 400, n)
         | Some addrs \<Rightarrow>
             (let us = compact_strings addrs
              in if \<not> list_all (valid_spec (ce_urls (mg_env q))) us then (Replied 400, n)
                 else if us = [] then (Replied 400, n)
                 else if \<not> ok then (Replied 500, n)
                 else (Replied 200, clear_dns_cache (reload_upstreams
                         (n\<lparr>nd_upstreams := Some (save_upstreams us (nd_upstreams n))\<rparr>))))))"

definition handle_post_dns_routes :: "mgmt \<Rightarrow> (string, string) gomap option \<Rightarrow> bool \<Rightarrow> node \<Rightarrow> handled" where
  "handle_post_dns_routes q body ok n =
     (if method_is q ''GET'' then (Replied 200, n)
      else if \<not> method_is q ''POST'' then (Replied 405, n)
      else guarded q n
        (case body of
           None \<Rightarrow> (Replied 400, n)
         | Some routes \<Rightarrow>
             (if \<not> list_all (\<lambda>(p, raw). trim_space p \<noteq> [] \<and> valid_spec (ce_urls (mg_env q)) raw) routes then (Replied 400, n)
              else if \<not> nd_ready n then (Replied 500, n)
              else if dr_has_path (nd_routes n) \<and> \<not> ok then (Replied 500, n)
              else (Replied 200, clear_dns_cache (n\<lparr>nd_routes := set_routes routes ok (nd_routes n)\<rparr>)))))"

section \<open>The filter engine, the cache, previews\<close>

definition handle_filtering_pause :: "mgmt \<Rightarrow> int option \<Rightarrow> node \<Rightarrow> handled" where
  "handle_filtering_pause q body n =
     (if \<not> method_is q ''POST'' then (Replied 405, n)
      else guarded q n
        (if \<not> nd_ready n then (Replied 503, n)
         else case body of
           None \<Rightarrow> (Replied 400, n)
         | Some minutes \<Rightarrow> (Replied 200, n\<lparr>nd_engine := pause (mg_now q) minutes (nd_engine n)\<rparr>)))"

definition handle_filtering_rollback :: "mgmt \<Rightarrow> string option \<Rightarrow> node \<Rightarrow> handled" where
  "handle_filtering_rollback q body n =
     (if \<not> method_is q ''POST'' then (Replied 405, n)
      else guarded q n
        (case body of
           None \<Rightarrow> (Replied 400, n)
         | Some i \<Rightarrow>
             (if \<not> nd_ready n then (Replied 503, n)
              else case rollback_source (mg_checksum q) (mg_now q) (trim_space i) (nd_engine n) of
                     (Inl _, e) \<Rightarrow> (Replied 409, n\<lparr>nd_engine := e\<rparr>)
                   | (Inr _, e) \<Rightarrow> (Replied 200, n\<lparr>nd_engine := e\<rparr>))))"

definition handle_cache_clear :: "mgmt \<Rightarrow> node \<Rightarrow> handled" where
  "handle_cache_clear q n =
     (if \<not> method_is q ''POST'' then (Replied 405, n)
      else if \<not> csrf_ok q then (Replied 403, n)
      else if \<not> nd_ready n then (Replied 503, n)
      else (Replied 200, clear_dns_cache n))"

text \<open>handleConfigDiff: a candidate without a revision gets one; the fields that would change.\<close>

definition config_diff :: "config_env \<Rightarrow> (string \<Rightarrow> string) \<Rightarrow> bool \<Rightarrow> config_snapshot \<Rightarrow> node \<Rightarrow> config_error + string list" where
  "config_diff E summary readable candidate0 n =
     (let candidate = (if cs_revision candidate0 = [] then new_config_snapshot E (cs_payload candidate0) else candidate0)
      in case (if cs_revision candidate0 = [] then None else validate_snapshot E candidate0) of
           Some e \<Rightarrow> Inl e
         | None \<Rightarrow>
             (case validate_resolvers (ce_urls E) (sn_upstreams (cs_payload candidate)) (sn_bootstrap (cs_payload candidate)) of
                Some e \<Rightarrow> Inl e
              | None \<Rightarrow> (if \<not> readable then Inl RulesUnreadable
                         else Inr (diff_fields summary (cs_payload (current_snapshot E n)) (cs_payload candidate)))))"

definition handle_config_diff :: "mgmt \<Rightarrow> (string \<Rightarrow> string) \<Rightarrow> bool \<Rightarrow> config_snapshot option \<Rightarrow> node \<Rightarrow> handled" where
  "handle_config_diff q summary readable body n =
     (if \<not> method_is q ''POST'' then (Replied 405, n)
      else if \<not> csrf_ok q then (Replied 403, n)
      else case body of
        None \<Rightarrow> (Replied 400, n)
      | Some s \<Rightarrow> (case config_diff (mg_env q) summary readable s n of
            Inl e \<Rightarrow> (Replied (if e = RulesUnreadable then 500 else 400), n) | Inr _ \<Rightarrow> (Replied 200, n)))"

section \<open>Synchronisation on demand\<close>

text \<open>handleConfigSyncNow: the controller counts requests, per cluster or per node; agents compare the
  generation they are told with the last one. \<open>found\<close> is the identity of a known node, \<open>agent_node\<close>
  the name of an agent and whether its forwarder took the request.\<close>

record sync_requests =
  sr_cluster :: nat
  sr_nodes :: "(string, nat) gomap"

definition sync_generation_for :: "sync_requests \<Rightarrow> string \<Rightarrow> string" where
  "sync_generation_for s node_id =
     show_nat (sr_cluster s) @ '':'' @ show_nat (case gm_get (sr_nodes s) node_id of None \<Rightarrow> 0 | Some g \<Rightarrow> g)"

definition handle_config_sync_now ::
  "mgmt \<Rightarrow> string \<Rightarrow> (string \<Rightarrow> string option) \<Rightarrow> string \<times> bool \<Rightarrow> sync_requests \<Rightarrow> mgmt_reply \<times> sync_requests" where
  "handle_config_sync_now q node0 found agent s =
     (let name = trim_space node0
      in if \<not> method_is q ''POST'' then (Replied 405, s)
         else if \<not> csrf_ok q then (Replied 403, s)
         else if is_controller (mg_mode q) then
           (if name = [] then (Replied 202, s\<lparr>sr_cluster := Suc (sr_cluster s)\<rparr>)
            else case found name of
                   None \<Rightarrow> (Replied 404, s)
                 | Some i \<Rightarrow> (Replied 202, s\<lparr>sr_nodes := gm_set i (Suc (case gm_get (sr_nodes s) i of None \<Rightarrow> 0 | Some g \<Rightarrow> g)) (sr_nodes s)\<rparr>))
         else if name \<noteq> [] \<and> name \<noteq> fst agent then (Replied 400, s)
         else if \<not> snd agent then (Replied 503, s)
         else (Replied 202, s))"

lemma show_nat_inj: "show_nat a = show_nat b \<Longrightarrow> a = b"
proof -
  assume e: "show_nat a = show_nat b"
  have "dec_val (show_nat n) = n" for n using show_nat_digits [of n] by (auto simp: all_digits_def)
  with e show ?thesis by metis
qed

lemma generation_inj: "sync_generation_for s i = sync_generation_for t j \<Longrightarrow> sr_cluster s = sr_cluster t \<and>
    (case gm_get (sr_nodes s) i of None \<Rightarrow> 0 | Some g \<Rightarrow> g) = (case gm_get (sr_nodes t) j of None \<Rightarrow> 0 | Some g \<Rightarrow> g)"
proof -
  assume e: "sync_generation_for s i = sync_generation_for t j"
  have nc: "CHR '':'' \<notin> set (show_nat n)" for n using show_nat_chars [of "CHR '':''" n] by (auto simp: is_digit_def)
  from e have "cut (CHR '':'') (sync_generation_for s i) = cut (CHR '':'') (sync_generation_for t j)" by simp
  then show ?thesis by (auto simp: sync_generation_for_def cut_append nc dest: show_nat_inj)
qed

section \<open>All handlers\<close>

datatype mgmt_call =
    CallSettings "settings option" bool
  | CallUserRules "string option" bool bool
  | CallSubscriptions "subscription list option" "nat \<Rightarrow> string option" bool
  | CallImport "(int \<times> subscription list) option" "nat \<Rightarrow> string option" bool
  | CallBulk "(string \<times> string list) option" "nat \<Rightarrow> string option" "string option" bool
  | CallUpdate string "nat \<Rightarrow> string option" "string option" bool
  | CallRewrites string "rewrite_body option" string bool
  | CallClients string "client option" bool
  | CallQuerylog bool "string option" bool bool bool
  | CallUpstreamSettings "(string list \<times> string list) option" bool
  | CallUpstreams "string list option" bool
  | CallRoutes "(string, string) gomap option" bool
  | CallPause "int option"
  | CallRollback "string option"
  | CallCacheClear
  | CallDiff "string \<Rightarrow> string" bool "config_snapshot option"

fun handle_call :: "mgmt \<Rightarrow> mgmt_call \<Rightarrow> node \<Rightarrow> handled" where
  "handle_call q (CallSettings body ok) = handle_dns_settings q body ok"
| "handle_call q (CallUserRules body readable ok) = handle_user_rules q body readable ok"
| "handle_call q (CallSubscriptions body fresh ok) = handle_filter_subscriptions q body fresh ok"
| "handle_call q (CallImport body fresh ok) = handle_subscriptions_import q body fresh ok"
| "handle_call q (CallBulk body fresh g ok) = handle_subscriptions_bulk q body fresh g ok"
| "handle_call q (CallUpdate i fresh g ok) = handle_filtering_update q i fresh g ok"
| "handle_call q (CallRewrites i body new_id ok) = handle_rewrites q i body new_id ok"
| "handle_call q (CallClients name body ok) = handle_clients q name body ok"
| "handle_call q (CallQuerylog block body readable ok1 ok2) = handle_querylog_action q block body readable ok1 ok2"
| "handle_call q (CallUpstreamSettings body ok) = handle_upstream_settings q body ok"
| "handle_call q (CallUpstreams body ok) = handle_post_upstreams q body ok"
| "handle_call q (CallRoutes body ok) = handle_post_dns_routes q body ok"
| "handle_call q (CallPause body) = handle_filtering_pause q body"
| "handle_call q (CallRollback body) = handle_filtering_rollback q body"
| "handle_call q CallCacheClear = handle_cache_clear q"
| "handle_call q (CallDiff summary readable body) = handle_config_diff q summary readable body"

text \<open>A route of SetupMux: the session middleware first.\<close>

definition serve_call :: "mgmt \<Rightarrow> mgmt_call \<Rightarrow> node \<Rightarrow> handled" where
  "serve_call q call n =
     (case auth_middleware (mg_web q) (mg_now q) (mg_request q) (mg_state q) of
        (Served, s1) \<Rightarrow> handle_call (q\<lparr>mg_state := s1\<rparr>) call n
      | (Web_Sessions.Refused k, s1) \<Rightarrow> (Replied k, n)
      | (RedirectedTo url, s1) \<Rightarrow> (Replied 303, n))"

text \<open>The configuration and the engine; the number of cache flushes does not count.\<close>

definition same_config :: "node \<Rightarrow> node \<Rightarrow> bool" where
  "same_config n m \<longleftrightarrow> m\<lparr>nd_clears := nd_clears n\<rparr> = n"

lemma same_config_refl [simp]: "same_config n n"
  by (simp add: same_config_def)

lemma guarded_same: "\<not> (is_controller (mg_mode q) \<and> csrf_ok q) \<Longrightarrow> snd (guarded q n x) = n"
  by (auto simp: guarded_def)

lemma handle_call_same:
  assumes "\<not> (is_controller (mg_mode q) \<and> csrf_ok q \<and> \<not> method_is q ''GET'')"
  shows "same_config n (snd (handle_call q call n))"
proof (cases "method_is q ''GET''")
  case True
  then have "rq_method (mg_request q) = ''GET''" by (simp add: method_is_def)
  then show ?thesis
    by (cases call) (simp_all add: method_is_def handle_dns_settings_def handle_user_rules_def handle_filter_subscriptions_def
        handle_subscriptions_import_def handle_subscriptions_bulk_def handle_filtering_update_def handle_rewrites_def
        handle_clients_def handle_querylog_action_def handle_upstream_settings_def handle_post_upstreams_def
        handle_post_dns_routes_def handle_filtering_pause_def handle_filtering_rollback_def handle_cache_clear_def handle_config_diff_def)
next
  case False
  with assms have g: "\<not> (is_controller (mg_mode q) \<and> csrf_ok q)" by simp
  note s = guarded_same [OF g]
  show ?thesis
  proof (cases call)
    case (CallRewrites i body new_id ok)
    with g show ?thesis by (auto simp: handle_rewrites_def)
  next
    case (CallClients name body ok)
    with g show ?thesis by (auto simp: handle_clients_def)
  next
    case CallCacheClear
    then show ?thesis by (simp add: handle_cache_clear_def clear_dns_cache_def same_config_def)
  next
    case (CallDiff summary readable body)
    then show ?thesis by (auto simp: handle_config_diff_def split: option.split sum.split)
  qed (auto simp: s handle_dns_settings_def handle_user_rules_def handle_filter_subscriptions_def
        handle_subscriptions_import_def handle_subscriptions_bulk_def handle_filtering_update_def
        handle_querylog_action_def handle_upstream_settings_def handle_post_upstreams_def
        handle_post_dns_routes_def handle_filtering_pause_def handle_filtering_rollback_def)
qed

section \<open>Who changes the configuration\<close>

lemma granted_prefix: "granted c (ops @ [x]) i tok csrf \<Longrightarrow> i < length ops \<Longrightarrow> granted c ops i tok csrf"
  unfolding granted_def by (auto simp: nth_append)

text \<open>A session that is alive after a page was served was handed out before.\<close>

lemma alive_after_page:
  assumes "gm_get (ws_sessions (web_run c (ops @ [(t, WPage r)]))) tok = Some e" and "\<not> expired now e"
  shows "\<exists>i. granted c ops i tok (se_csrf e) \<and> now < fst (ops ! i) + session_lifetime"
proof -
  let ?ops = "ops @ [(t, WPage r)]"
  from alive_history [OF assms] obtain i where g: "granted c ?ops i tok (se_csrf e)" "now < fst (?ops ! i) + session_lifetime" by blast
  then obtain t' r' form where "?ops ! i = (t', WLogin r' (Some (tok, se_csrf e)) form)" "i < length ?ops" by (auto simp: granted_def)
  then have i: "i < length ops" by (auto simp: nth_append less_Suc_eq split: if_splits)
  with g granted_prefix [OF g(1) i] show ?thesis by (auto simp: nth_append)
qed

lemma checked_session:
  assumes "web_auth_enabled c" and "check_csrf c now r s"
  shows "same_origin_request c r \<and> (\<exists>tok e. rq_cookies r session_cookie = Some tok \<and> gm_get (ws_sessions s) tok = Some e \<and>
     \<not> expired now e \<and> se_csrf e \<noteq> [] \<and>
     se_csrf e = (if request_header r ''X-CSRF-Token'' = [] then rq_form r ''csrf_token'' else request_header r ''X-CSRF-Token''))"
  using assms by (auto simp: check_csrf_def session_csrf_token_def lookup_session_def Let_def split: if_splits option.splits)

section \<open>Lines of the rules file\<close>

definition rule_lines :: "string option \<Rightarrow> string list" where
  "rule_lines file = filter (\<lambda>t. t \<noteq> []) (List.map trim_space (split_on (CHR 0x0A) (case file of None \<Rightarrow> [] | Some t \<Rightarrow> t)))"

lemma modify_lines:
  "rule \<noteq> [] \<Longrightarrow> foldl (modify_line rule remove) (out0, found0) ls = (out, found) \<Longrightarrow>
   filter (\<lambda>t. t \<noteq> []) (List.map trim_space out) = filter (\<lambda>t. t \<noteq> []) (List.map trim_space out0) @
     filter (\<lambda>t. t \<noteq> [] \<and> \<not> (remove \<and> t = rule)) (List.map trim_space ls) \<and>
   (found \<longleftrightarrow> found0 \<or> rule \<in> trim_space ` set ls) \<and> set out \<subseteq> set out0 \<union> set ls"
proof (induction ls arbitrary: out0 found0)
  case (Cons l ls)
  obtain o1 f1 where m: "modify_line rule remove (out0, found0) l = (o1, f1)" by (cases "modify_line rule remove (out0, found0) l")
  from Cons.IH [OF Cons.prems(1), of o1 f1] Cons.prems(2) m
  have IH: "filter (\<lambda>t. t \<noteq> []) (List.map trim_space out) = filter (\<lambda>t. t \<noteq> []) (List.map trim_space o1) @
      filter (\<lambda>t. t \<noteq> [] \<and> \<not> (remove \<and> t = rule)) (List.map trim_space ls)"
    "found \<longleftrightarrow> f1 \<or> rule \<in> trim_space ` set ls" "set out \<subseteq> set o1 \<union> set ls" by simp_all
  from m Cons.prems(1) have "filter (\<lambda>t. t \<noteq> []) (List.map trim_space o1) = filter (\<lambda>t. t \<noteq> []) (List.map trim_space out0) @
      filter (\<lambda>t. t \<noteq> [] \<and> \<not> (remove \<and> t = rule)) [trim_space l]" "f1 \<longleftrightarrow> found0 \<or> trim_space l = rule" "set o1 \<subseteq> set out0 \<union> {l}"
    by (auto simp: modify_line_def Let_def split: if_splits)
  with IH show ?case by auto
qed simp

lemma rule_lines_text:
  assumes "\<forall>l \<in> set out. CHR 0x0A \<notin> set l"
  shows "rule_lines (Some (rules_text out)) = filter (\<lambda>t. t \<noteq> []) (List.map trim_space out)"
proof (cases "out = []")
  case True
  have "trim_space [] = []" by code_simp
  with True show ?thesis by (simp add: rule_lines_def rules_text_def has_suffix_def)
next
  case False
  have s: "split_on (CHR 0x0A) (join_with [CHR 0x0A] out) = out" using False assms by (rule split_join)
  have snoc: "split_on c (t @ [c]) = split_on c t @ [[]]" for c t
    by (induction t) (auto split: list.split)
  have "trim_space [] = []" by code_simp
  then show ?thesis by (simp add: rule_lines_def rules_text_def Let_def s snoc)
qed

lemma modify_user_rule_lines:
  assumes "modify_user_rule rule remove readable ok file = Some (changed, f)" and "rule \<noteq> []" "trim_space rule = rule" "CHR 0x0A \<notin> set rule"
  shows "rule_lines f = (if remove then filter (\<lambda>t. t \<noteq> rule) (rule_lines file)
      else if rule \<in> set (rule_lines file) then rule_lines file else rule_lines file @ [rule]) \<and>
    (changed \<longleftrightarrow> (rule \<in> set (rule_lines file)) = remove)"
proof -
  let ?ls = "split_on (CHR 0x0A) (case file of None \<Rightarrow> [] | Some t \<Rightarrow> t)"
  obtain out found where m: "foldl (modify_line rule remove) ([], False) ?ls = (out, found)"
    by (cases "foldl (modify_line rule remove) ([], False) ?ls")
  from modify_lines [OF assms(2) m]
  have out: "filter (\<lambda>t. t \<noteq> []) (List.map trim_space out) = filter (\<lambda>t. t \<noteq> [] \<and> \<not> (remove \<and> t = rule)) (List.map trim_space ?ls)"
    and found: "found \<longleftrightarrow> rule \<in> trim_space ` set ?ls" and sub: "set out \<subseteq> set ?ls" by simp_all
  have nl: "\<forall>l \<in> set out. CHR 0x0A \<notin> set l" "\<forall>l \<in> set (out @ [rule]). CHR 0x0A \<notin> set l"
    using sub split_on_no_sep assms(4) by auto
  have mem: "rule \<in> set (rule_lines file) \<longleftrightarrow> found" using found assms(2) by (auto simp: rule_lines_def)
  have ls: "rule_lines file = filter (\<lambda>t. t \<noteq> []) (List.map trim_space ?ls)" by (simp add: rule_lines_def)
  show ?thesis
  proof (cases "found = remove")
    case True
    then have "f = Some (rules_text (if remove then out else out @ [rule])) \<and> changed"
      using assms(1) m by (auto simp: modify_user_rule_def split: if_splits)
    moreover have "filter (\<lambda>t. t \<noteq> rule) (rule_lines file) = filter (\<lambda>t. t \<noteq> [] \<and> t \<noteq> rule) (List.map trim_space ?ls)"
      by (simp add: ls conj_commute)
    ultimately show ?thesis
      using rule_lines_text [OF nl(1)] rule_lines_text [OF nl(2)] out assms(2,3) mem True by (cases remove) (simp_all add: ls)
  next
    case False
    then have "f = file" "\<not> changed" using assms(1) m by (auto simp: modify_user_rule_def split: if_splits)
    moreover have "rule \<notin> set xs \<Longrightarrow> filter (\<lambda>t. t \<noteq> rule) xs = xs" for xs by (induction xs) auto
    ultimately show ?thesis using False mem by (cases remove) simp_all
  qed
qed

text \<open>What the query log's block and unblock leave in the file.\<close>

definition block_lines :: "string \<Rightarrow> string list \<Rightarrow> string list" where
  "block_lines d ls = (let ls1 = filter (\<lambda>t. t \<noteq> except_rule d) ls in if block_rule d \<in> set ls1 then ls1 else ls1 @ [block_rule d])"

definition unblock_lines :: "string \<Rightarrow> string list \<Rightarrow> string list" where
  "unblock_lines d ls =
     (if block_rule d \<in> set ls then filter (\<lambda>t. t \<noteq> block_rule d) ls
      else if except_rule d \<in> set ls then ls else ls @ [except_rule d])"

lemma rule_clean:
  assumes "querylog_domain_ok L d"
  shows "block_rule d \<noteq> []" "except_rule d \<noteq> []" "trim_space (block_rule d) = block_rule d" "trim_space (except_rule d) = except_rule d"
    "CHR 0x0A \<notin> set (block_rule d)" "CHR 0x0A \<notin> set (except_rule d)" "block_rule d \<noteq> except_rule d"
proof -
  have nl: "CHR 0x0A \<notin> set d"
  proof
    assume "CHR 0x0A \<in> set d"
    with assms have "(CHR ''a'' \<le> CHR 0x0A \<and> CHR 0x0A \<le> CHR ''z'') \<or> is_digit CHR 0x0A"
      by (auto simp: querylog_domain_ok_def list_all_iff)
    moreover have "\<not> ((CHR ''a'' \<le> CHR 0x0A \<and> CHR 0x0A \<le> CHR ''z'') \<or> is_digit CHR 0x0A)" by code_simp
    ultimately show False by blast
  qed
  have sp: "\<not> is_space (CHR ''|'')" "\<not> is_space (CHR ''^'')" "\<not> is_space (CHR ''@'')" by code_simp+
  show "block_rule d \<noteq> []" "except_rule d \<noteq> []" "CHR 0x0A \<notin> set (block_rule d)" "CHR 0x0A \<notin> set (except_rule d)" "block_rule d \<noteq> except_rule d"
    using nl by (auto simp: block_rule_def except_rule_def)
  show "trim_space (block_rule d) = block_rule d" "trim_space (except_rule d) = except_rule d"
    by (rule trim_space_clean; simp add: block_rule_def except_rule_def sp)+
qed

lemma modify_rules_lines:
  assumes "querylog_domain_ok L d" and "modify_rules_file block d readable ok1 ok2 file = (True, f)"
  shows "rule_lines f = (if block then block_lines d (rule_lines file) else unblock_lines d (rule_lines file))"
proof -
  note c = rule_clean [OF assms(1)]
  show ?thesis
  proof (cases block)
    case True
    with assms(2) obtain c1 f1 c2 where m: "modify_user_rule (except_rule d) True readable ok1 file = Some (c1, f1)"
      "modify_user_rule (block_rule d) False readable ok2 f1 = Some (c2, f)"
      by (auto simp: modify_rules_file_def split: option.splits)
    with modify_user_rule_lines [OF m(1) c(2,4,6)] modify_user_rule_lines [OF m(2) c(1,3,5)] True
    show ?thesis by (simp add: block_lines_def Let_def)
  next
    case False
    with assms(2) obtain r f1 where m: "modify_user_rule (block_rule d) True readable ok1 file = Some (r, f1)"
      and n: "if r then f = f1 else \<exists>c2. modify_user_rule (except_rule d) False readable ok2 f1 = Some (c2, f)"
      by (auto simp: modify_rules_file_def split: option.splits if_splits)
    note l = modify_user_rule_lines [OF m c(1,3,5)]
    show ?thesis
    proof (cases r)
      case True
      with n l False show ?thesis by (simp add: unblock_lines_def)
    next
      case nr: False
      with n obtain c2 where m2: "modify_user_rule (except_rule d) False readable ok2 f1 = Some (c2, f)" by auto
      have "rule_lines f1 = rule_lines file" "block_rule d \<notin> set (rule_lines file)" using l nr by (auto simp: filter_id_conv)
      with modify_user_rule_lines [OF m2 c(2,4,6)] False show ?thesis by (simp add: unblock_lines_def)
    qed
  qed
qed

section \<open>What agents make of accepted changes\<close>

lemma upstreams_after_save:
  "us \<noteq> [] \<Longrightarrow> nd_upstreams n = Some (save_upstreams us file) \<Longrightarrow> us_upstreams (configured_resolvers n) = us"
  by (auto simp: configured_resolvers_def save_upstreams_def load_saved_settings load_saved_list Let_def)

text \<open>The editor of the upstream list takes a resolver twice; agents refuse such a list.\<close>

lemma parse_1111: "parse_spec U ''1.1.1.1'' = Inr (plain_spec ''1.1.1.1'' ''53'' ''1.1.1.1'')"
proof -
  have "trim_space ''1.1.1.1'' = ''1.1.1.1''" "\<not> contains_str ''1.1.1.1'' ''://''" "cut (CHR ''#'') ''1.1.1.1'' = None"
    "split_host_port ''1.1.1.1'' = None" by code_simp+
  moreover have "parse_ip ''1.1.1.1'' \<noteq> None" by (simp add: parse_ip_def parse_eval4)
  ultimately show ?thesis by (simp add: parse_spec_def parse_plain_spec_def Let_def)
qed

definition accepting :: "mgmt \<Rightarrow> string \<Rightarrow> bool" where
  "accepting q m \<longleftrightarrow> is_controller (mg_mode q) \<and> csrf_ok q \<and> method_is q m"

lemma accepting_method: "accepting q m \<Longrightarrow> method_is q m' \<longleftrightarrow> m' = m"
  by (auto simp: accepting_def method_is_def)

lemma guarded_accepting: "accepting q m \<Longrightarrow> guarded q n x = x"
  by (simp add: guarded_def accepting_def)

lemma duplicate_upstreams_accepted:
  assumes "accepting q ''POST''"
  shows "\<exists>n'. handle_post_upstreams q (Some [''1.1.1.1'', ''1.1.1.1'']) True n = (Replied 200, n') \<and>
    validate_resolvers U (sn_upstreams (current_payload n')) (sn_bootstrap (current_payload n')) = Some (DuplicateUpstream 2 1)"
proof -
  have us: "compact_strings [''1.1.1.1'', ''1.1.1.1''] = [''1.1.1.1'', ''1.1.1.1'']" by code_simp
  have v: "valid_spec W ''1.1.1.1''" for W by (simp add: valid_spec_def parse_1111)
  let ?n = "clear_dns_cache (reload_upstreams (n\<lparr>nd_upstreams := Some (save_upstreams [''1.1.1.1'', ''1.1.1.1''] (nd_upstreams n))\<rparr>))"
  have h: "handle_post_upstreams q (Some [''1.1.1.1'', ''1.1.1.1'']) True n = (Replied 200, ?n)"
    using accepting_method [OF assms] by (simp add: handle_post_upstreams_def guarded_accepting [OF assms] us v Let_def)
  have "sn_upstreams (current_payload ?n) = [''1.1.1.1'', ''1.1.1.1'']"
    using upstreams_after_save [of "[''1.1.1.1'', ''1.1.1.1'']" ?n "nd_upstreams n"]
    by (simp add: current_payload_def clear_dns_cache_def reload_upstreams_def)
  then have "validate_resolvers U (sn_upstreams (current_payload ?n)) (sn_bootstrap (current_payload ?n)) = Some (DuplicateUpstream 2 1)"
    by (simp add: validate_resolvers_def parse_1111 gomap_simps)
  with h show ?thesis by blast
qed

text \<open>User rules of exactly one megabyte without a final newline are accepted and saved one byte
  longer, and that is more than any node accepts, the controller's own rollback included.\<close>

lemma full_size_rules_do_not_replicate:
  assumes "length t = max_user_rules" and "crlf_to_lf t = t" and "last t \<noteq> CHR 0x0A"
  shows "\<exists>n'. replace_user_rules t True n = (None, n') \<and> validate_user_rules X (sn_rules (current_payload n')) = Some RulesTooLong"
proof -
  have "t \<noteq> []" using assms(1) by (auto simp: max_user_rules_def)
  with assms show ?thesis
    by (simp add: replace_user_rules_def normal_rules_def current_payload_def validate_user_rules_def)
qed

end
