(* ===== verification/Web_Claims.thy ===== *)
theory Web_Claims
  imports Web_Sessions
begin

text \<open>
  What the web interface guarantees: who is served, what a state-changing request must carry, how
  fast passwords can be guessed, and which headers count. The demo administrator instantiates the
  hypotheses.
\<close>

section \<open>An administrator\<close>

definition demo_web :: web_config where
  "demo_web = \<lparr>wc_username = ''admin'', wc_password = ''pw'', wc_base_url = [], wc_allowed_hosts = [], wc_proxies = [''10.0.0.1''],
     wc_ingest_secret = [], wc_doh_token = [], wc_check_password = (\<lambda>p. p = ''pw''), wc_origin_host = (\<lambda>_. None)\<rparr>"

definition demo_web_request :: "(string \<Rightarrow> string option) \<Rightarrow> (string \<Rightarrow> string) \<Rightarrow> web_request" where
  "demo_web_request cookies form = \<lparr>rq_method = ''POST'', rq_tls = True, rq_remote = ''192.0.2.9:1'', rq_host = ''h'',
     rq_headers = (\<lambda>_. []), rq_cookies = cookies, rq_form = form\<rparr>"

definition demo_login :: "string \<Rightarrow> web_request" where
  "demo_login pw = demo_web_request (\<lambda>n. if n = csrf_cookie then Some ''k'' else None)
     (\<lambda>f. if f = ''csrf_token'' then ''k'' else if f = ''username'' then ''admin'' else pw)"

definition demo_change :: web_request where
  "demo_change = demo_web_request (\<lambda>n. if n = session_cookie then Some ''tok'' else None) (\<lambda>f. ''c'')"

definition demo_web_ops :: "(int \<times> web_op) list" where
  "demo_web_ops = [(0, WLogin (demo_login ''pw'') (Some (''tok'', ''c'')) None)]"

lemmas demo_web_defs = demo_web_def demo_web_request_def demo_login_def demo_change_def csrf_cookie_def session_cookie_def request_header_def

lemma demo_client: "client_ip demo_web (demo_login pw) = ''192.0.2.9''" "client_ip demo_web demo_change = ''192.0.2.9''"
  unfolding demo_web_def demo_login_def demo_change_def demo_web_request_def by code_simp+

lemma demo_same_origin: "same_origin_request demo_web demo_change"
  unfolding demo_web_defs by code_simp

lemma demo_sessions: "ws_sessions (web_run demo_web demo_web_ops) =
    [(''tok'', \<lparr>se_expires = session_lifetime, se_seen = 0, se_csrf = ''c''\<rparr>)]"
  by (simp add: demo_web_ops_def handle_login_def is_https_def demo_client check_rate_limit_def prune_failures_def new_web_def Let_def
      new_session_def reset_rate_limit_def live_sessions_def evict_sessions.simps max_sessions_def)
    (simp add: demo_web_defs)

lemma demo_facts: "rq_cookies demo_change session_cookie = Some ''tok''" "web_auth_enabled demo_web" "is_https demo_web demo_change"
  "wc_username demo_web \<noteq> []" "wc_password demo_web \<noteq> []" "request_header demo_change h = []" "rq_form demo_change f = ''c''"
  by (simp_all add: demo_web_defs web_auth_enabled_def is_https_def)

lemma demo_live: "\<not> expired second \<lparr>se_expires = session_lifetime, se_seen = 0, se_csrf = ''c''\<rparr>"
  by (simp add: expired_def session_lifetime_def session_idle_timeout_def hour_def minute_def second_def)

section \<open>Properties\<close>

text \<open>C16: with credentials configured, a handler behind the session middleware runs only over HTTPS, for a
  request whose cookie names a session that an earlier login handed out after checking user name and
  password, less than 24 hours ago, that was used less than 12 hours ago and that no logout has revoked
  since, whatever else happened.\<close>

theorem served_only_after_login:
  assumes "wc_username c \<noteq> []" "wc_password c \<noteq> []"
    and "fst (auth_middleware c now r (web_run c ops)) = Served"
  shows "is_https c r \<and> (\<exists>tok csrf i k. rq_cookies r session_cookie = Some tok \<and> granted c ops i tok csrf \<and>
     now < fst (ops ! i) + session_lifetime \<and> last_used c ops i k tok \<and> now < fst (ops ! k) + session_idle_timeout)"
proof -
  let ?s = "web_run c ops"
  have h: "is_https c r" using assms by (auto simp: auth_middleware_def web_auth_enabled_def split: if_splits)
  from assms obtain tok where tok: "rq_cookies r session_cookie = Some tok" "fst (valid_session now tok ?s)"
    by (auto simp: auth_middleware_def web_auth_enabled_def split_beta split: if_splits option.splits)
  then obtain e where "gm_get (ws_sessions ?s) tok = Some e" "\<not> expired now e"
    by (auto simp: valid_session_def Let_def live_get [OF run_ok] split: option.splits if_splits)
  from alive_history [OF this] tok(1) h show ?thesis by blast
qed

theorem served_only_after_login_witness:
  "fst (auth_middleware demo_web second demo_change (web_run demo_web demo_web_ops)) = Served \<and>
   (\<exists>tok csrf i. granted demo_web demo_web_ops i tok csrf)"
proof -
  have "fst (auth_middleware demo_web second demo_change (web_run demo_web demo_web_ops)) = Served"
    by (simp add: auth_middleware_def demo_facts valid_session_def demo_sessions Let_def live_sessions_def demo_live)
  with served_only_after_login [OF _ _ this] show ?thesis by (auto simp: demo_web_def)
qed

text \<open>C17: with web authentication configured, a request that passes the CSRF check was not sent by another
  site and carries the very CSRF token that the login which handed out its session issued; a token
  planted in a cookie does not help.\<close>

theorem changes_need_session_csrf:
  assumes "web_auth_enabled c" and "check_csrf c now r (web_run c ops)"
  shows "same_origin_request c r \<and> (\<exists>tok csrf i. rq_cookies r session_cookie = Some tok \<and> granted c ops i tok csrf \<and>
     now < fst (ops ! i) + session_lifetime \<and> csrf \<noteq> [] \<and>
     csrf = (if request_header r ''X-CSRF-Token'' = [] then rq_form r ''csrf_token'' else request_header r ''X-CSRF-Token''))"
proof -
  let ?s = "web_run c ops"
  from assms obtain tok where c: "same_origin_request c r" "rq_cookies r session_cookie = Some tok" "session_csrf_token now tok ?s \<noteq> []"
    "session_csrf_token now tok ?s = (if request_header r ''X-CSRF-Token'' = [] then rq_form r ''csrf_token'' else request_header r ''X-CSRF-Token'')"
    by (auto simp: check_csrf_def Let_def split: if_splits option.splits)
  then obtain e where e: "gm_get (ws_sessions ?s) tok = Some e" "\<not> expired now e" "session_csrf_token now tok ?s = se_csrf e"
    by (auto simp: session_csrf_token_def lookup_session_def split: option.splits if_splits)
  from alive_history [OF e(1,2)] c e(3) show ?thesis by metis
qed

theorem changes_need_session_csrf_witness:
  "check_csrf demo_web second demo_change (web_run demo_web demo_web_ops) \<and>
   (\<exists>tok i. granted demo_web demo_web_ops i tok ''c'')"
proof -
  have "check_csrf demo_web second demo_change (web_run demo_web demo_web_ops)"
    by (simp add: check_csrf_def demo_same_origin demo_facts session_csrf_token_def lookup_session_def demo_sessions demo_live)
  moreover from changes_need_session_csrf [OF demo_facts(2) this] have "\<exists>tok i. granted demo_web demo_web_ops i tok ''c''"
    by (auto simp: demo_facts)
  ultimately show ?thesis by blast
qed

section \<open>Guessing passwords\<close>

text \<open>Nobody logs in from the address with the right credentials.\<close>

fun stays_out :: "web_config \<Rightarrow> string \<Rightarrow> int \<times> web_op \<Rightarrow> bool" where
  "stays_out c ip (t, WLogin r fresh form) \<longleftrightarrow>
     \<not> (client_ip c r = ip \<and> rq_form r ''username'' = wc_username c \<and> wc_check_password c (rq_form r ''password''))"
| "stays_out c ip _ \<longleftrightarrow> True"

text \<open>The addresses that try to log in.\<close>

fun login_address :: "web_config \<Rightarrow> int \<times> web_op \<Rightarrow> string list" where
  "login_address c (t, WLogin r fresh form) = [client_ip c r]"
| "login_address c _ = []"

definition login_addresses :: "web_config \<Rightarrow> (int \<times> web_op) list \<Rightarrow> string list" where
  "login_addresses c ops = remdups (concat (List.map (login_address c) ops))"

text \<open>An attempt of the address whose password is checked; the times of these attempts in a run.\<close>

fun checked_guess :: "web_config \<Rightarrow> string \<Rightarrow> int \<times> web_op \<Rightarrow> web_state \<Rightarrow> bool" where
  "checked_guess c ip (t, WLogin r fresh form) s \<longleftrightarrow> client_ip c r = ip \<and> is_https c r \<and> rq_method r = ''POST'' \<and>
     fst (check_rate_limit t (client_ip c r) s) = None \<and>
     rq_cookies r csrf_cookie = Some (if rq_form r ''csrf_token'' = [] then request_header r ''X-CSRF-Token'' else rq_form r ''csrf_token'')"
| "checked_guess c ip _ s \<longleftrightarrow> False"

fun guess_times :: "web_config \<Rightarrow> string \<Rightarrow> (int \<times> web_op) list \<Rightarrow> web_state \<Rightarrow> int list" where
  "guess_times c ip [] s = []"
| "guess_times c ip (x # ops) s = (if checked_guess c ip x s then [fst x] else []) @ guess_times c ip ops (web_step c x s)"

text \<open>The pace of the guesses: n failures, the last at l.\<close>

fun guesses_apart :: "(nat \<times> int) option \<Rightarrow> int list \<Rightarrow> bool" where
  "guesses_apart st [] \<longleftrightarrow> True"
| "guesses_apart None (t # ts) \<longleftrightarrow> guesses_apart (Some (1, t)) ts"
| "guesses_apart (Some (n, l)) (t # ts) \<longleftrightarrow>
     (login_failure_memory < t - l \<and> guesses_apart (Some (1, t)) ts) \<or> (l + rate_limit_backoff n \<le> t \<and> guesses_apart (Some (Suc n, t)) ts)"

definition failures_of :: "string \<Rightarrow> web_state \<Rightarrow> (nat \<times> int) option" where
  "failures_of ip s = map_option (\<lambda>e. (re_count e, re_seen e)) (gm_get (ws_rates s) ip)"

definition counted :: "string \<Rightarrow> web_state \<Rightarrow> bool" where
  "counted ip s \<longleftrightarrow> (case failures_of ip s of None \<Rightarrow> True | Some (n, _) \<Rightarrow> 1 \<le> n)"

lemma backoff_le_cap: "rate_limit_backoff n \<le> login_backoff_cap"
  by (auto simp: rate_limit_backoff_def login_backoff_cap_def minute_def second_def not_less)

lemma check_failures:
  assumes "counted ip s" and "check_rate_limit t ip s = (w, s1)"
  shows "failures_of ip s1 = failures_of ip s \<and> (\<forall>n l. failures_of ip s = Some (n, l) \<longrightarrow> w = None \<longrightarrow> l + rate_limit_backoff n \<le> t) \<or>
         failures_of ip s1 = None \<and> w = None \<and> (\<exists>n l. failures_of ip s = Some (n, l) \<and> login_failure_memory < t - l)"
  using assms backoff_le_cap [of "re_count (the (gm_get (ws_rates s) ip))"]
  by (auto simp: check_rate_limit_def counted_def failures_of_def prune_failures_def Let_def gomap_simps split: option.splits if_splits)

lemma record_failures: "counted ip s \<Longrightarrow>
    failures_of ip (record_failed_login t ip s) = Some (case failures_of ip s of None \<Rightarrow> 1 | Some (n, _) \<Rightarrow> Suc n, t)"
  by (auto simp: record_failed_login_def failures_of_def prune_failures_def Let_def gomap_simps split: option.split)

text \<open>What the limiter keeps in a run whose logins come from at most ten thousand addresses: no counter is evicted.\<close>

definition counters_in :: "string set \<Rightarrow> web_state \<Rightarrow> bool" where
  "counters_in A s \<longleftrightarrow> gm_ok (ws_rates s) \<and> (\<forall>k. k \<notin> A \<longrightarrow> gm_get (ws_rates s) k = None)"

lemma record_room:
  assumes "counters_in A s" and "finite A" and "card A \<le> max_rate_entries" and "a \<in> A"
  shows "ws_rates (record_failed_login t a s) =
      gm_set a \<lparr>re_count = (case gm_get (ws_rates s) a of None \<Rightarrow> 1 | Some e \<Rightarrow> Suc (re_count e)), re_seen = t\<rparr> (ws_rates s)"
proof (cases "gm_get (ws_rates s) a")
  case None
  have "set (gm_keys (ws_rates s)) \<subseteq> A" using assms(1) unfolding counters_in_def gm_get_None by blast
  moreover have "a \<notin> set (gm_keys (ws_rates s))" using None unfolding gm_get_None .
  ultimately have "set (gm_keys (ws_rates s)) \<subset> A" using assms(4) by blast
  then have "card (set (gm_keys (ws_rates s))) < max_rate_entries"
    using psubset_card_mono [OF assms(2), of "set (gm_keys (ws_rates s))"] assms(3) by linarith
  moreover have "card (set (gm_keys (ws_rates s))) = length (gm_keys (ws_rates s))"
    by (rule distinct_card) (use assms(1) in \<open>simp add: counters_in_def\<close>)
  ultimately have "length (ws_rates s) < max_rate_entries" by simp
  with None show ?thesis by (simp add: record_failed_login_def prune_failures_def Let_def)
qed (simp add: record_failed_login_def prune_failures_def Let_def)

lemma check_rates: "ws_rates (snd (check_rate_limit t a s)) = ws_rates s \<or> ws_rates (snd (check_rate_limit t a s)) = gm_del a (ws_rates s)"
  by (auto simp: check_rate_limit_def prune_failures_def Let_def split: option.split)

lemma counters_check: "counters_in A s \<Longrightarrow> counters_in A (snd (check_rate_limit t a s))"
  using check_rates [of t a s] by (auto simp: counters_in_def gomap_simps simp del: map_of_eq_None_iff)

lemma login_states:
  fixes c t r s
  defines "s1 \<equiv> snd (check_rate_limit t (client_ip c r) s)"
  shows "snd (handle_login c t r fresh form s) \<in> {s, s1, record_failed_login t (client_ip c r) s1} \<or>
    (\<exists>k f. snd (handle_login c t r fresh form s) = reset_rate_limit (client_ip c r) (new_session t k f s1))"
  by (auto simp: s1_def handle_login_def Let_def split_beta split: option.splits)

lemma login_rates:
  assumes "counters_in A s" and "finite A" and "card A \<le> max_rate_entries" and "client_ip c r \<in> A"
  obtains "ws_rates (snd (handle_login c t r fresh form s)) = ws_rates s" | "counters_in A (snd (handle_login c t r fresh form s))"
    "\<And>ip. ip \<noteq> client_ip c r \<Longrightarrow> failures_of ip (snd (handle_login c t r fresh form s)) = failures_of ip s"
proof -
  define a where "a = client_ip c r"
  obtain d s1 where l: "check_rate_limit t a s = (d, s1)" by (cases "check_rate_limit t a s")
  have w1: "counters_in A s1" using counters_check [OF assms(1), of t a] l by simp
  have o1: "failures_of ip s1 = failures_of ip s" if "ip \<noteq> a" for ip
    using check_rates [of t a s] l that by (auto simp: failures_of_def gomap_simps)
  have rec: "counters_in A (record_failed_login t a s1)" "ip \<noteq> a \<Longrightarrow> failures_of ip (record_failed_login t a s1) = failures_of ip s1" for ip
    using record_room [OF w1 assms(2,3), of a t] assms(4) w1
    by (auto simp: counters_in_def failures_of_def gomap_simps a_def simp del: map_of_eq_None_iff)
  have ok: "counters_in A (reset_rate_limit a (new_session t k f s1))" "ip \<noteq> a \<Longrightarrow> failures_of ip (reset_rate_limit a (new_session t k f s1)) = failures_of ip s1"
    for ip k f
    using w1 by (auto simp: counters_in_def failures_of_def gomap_simps reset_rate_limit_def new_session_def simp del: map_of_eq_None_iff)
  consider "snd (handle_login c t r fresh form s) = s" | "snd (handle_login c t r fresh form s) = s1"
    | k f where "snd (handle_login c t r fresh form s) = reset_rate_limit a (new_session t k f s1)"
    | "snd (handle_login c t r fresh form s) = record_failed_login t a s1"
    using login_states [of c t r fresh form s] l by (auto simp: a_def)
  then show ?thesis
  proof cases
    case 1
    then show ?thesis using that(1) by simp
  qed (use that(2) w1 o1 rec ok in \<open>simp_all add: a_def\<close>)
qed

lemma cleanup_failures:
  assumes "counters_in A s"
  shows "counters_in A (cleanup_rate_limits t s) \<and> (failures_of ip (cleanup_rate_limits t s) = failures_of ip s \<or>
    failures_of ip (cleanup_rate_limits t s) = None \<and> (\<exists>n l. failures_of ip s = Some (n, l) \<and> login_failure_memory < t - l))"
  using assms
  by (cases "gm_get (ws_rates s) ip")
    (auto simp: counters_in_def cleanup_rate_limits_def prune_failures_def failures_of_def gm_filter_inv simp del: map_of_eq_None_iff map_of_eq_Some_iff)

lemma session_ops_rates:
  "ws_rates (snd (valid_session t tok s)) = ws_rates s" "ws_rates (snd (handle_logout t r s)) = ws_rates s"
  "ws_rates (snd (auth_middleware c t r s)) = ws_rates s" "ws_rates (snd (internal_auth c t r s)) = ws_rates s"
proof -
  show v: "ws_rates (snd (valid_session t tok s)) = ws_rates s" for tok
    by (auto simp: valid_session_def Let_def split: option.split)
  show "ws_rates (snd (handle_logout t r s)) = ws_rates s"
    using handle_logout_done [of t r s] handle_logout_refused [of t r s] v
    by (cases "fst (handle_logout t r s) = LoggedOut") (auto simp: delete_session_def split: if_splits option.splits)
  show a: "ws_rates (snd (auth_middleware c t r s)) = ws_rates s" using auth_middleware_state [of c t r s] v by auto
  show "ws_rates (snd (internal_auth c t r s)) = ws_rates s" using internal_auth_state [of c t r s] a by auto
qed

text \<open>One operation: an attempt of the address itself, or one that leaves its counter alone or drops it after an hour.\<close>

lemma guess_step:
  assumes "stays_out c ip x" and "counted ip s" and "counters_in A s" and "finite A" and "card A \<le> max_rate_entries"
    and "set (login_address c x) \<subseteq> A"
  shows "counted ip (web_step c x s) \<and> counters_in A (web_step c x s) \<and>
    (if checked_guess c ip x s then
       (case failures_of ip s of None \<Rightarrow> failures_of ip (web_step c x s) = Some (1, fst x)
        | Some (n, l) \<Rightarrow> login_failure_memory < fst x - l \<and> failures_of ip (web_step c x s) = Some (1, fst x) \<or>
            l + rate_limit_backoff n \<le> fst x \<and> failures_of ip (web_step c x s) = Some (Suc n, fst x))
     else failures_of ip (web_step c x s) = failures_of ip s \<or>
       failures_of ip (web_step c x s) = None \<and> (\<exists>n l. failures_of ip s = Some (n, l) \<and> login_failure_memory < fst x - l))"
proof -
  have quiet: ?thesis if "ws_rates (web_step c x s) = ws_rates s" "\<not> checked_guess c ip x s"
    using that assms(2,3) by (auto simp: counted_def failures_of_def counters_in_def)
  show ?thesis
  proof (cases "snd x")
    case (WLogin r fresh form)
    then obtain t where x: "x = (t, WLogin r fresh form)" by (cases x) auto
    have inA: "client_ip c r \<in> A" using assms(6) by (simp add: x)
    show ?thesis
    proof (cases "client_ip c r = ip")
      case False
      then have no: "\<not> checked_guess c ip x s" by (simp add: x)
      from login_rates [OF assms(3-5) inA, of t fresh form] show ?thesis
      proof cases
        case 1
        then have "ws_rates (web_step c x s) = ws_rates s" by (simp add: x)
        from quiet [OF this no] show ?thesis .
      next
        case 2
        with False assms(2) have "counted ip (web_step c x s)" "counters_in A (web_step c x s)"
          "failures_of ip (web_step c x s) = failures_of ip s"
          by (simp_all add: x counted_def)
        with no show ?thesis by simp
      qed
    next
      case True
      with assms(1) have w: "\<not> (rq_form r ''username'' = wc_username c \<and> wc_check_password c (rq_form r ''password''))" by (simp add: x)
      obtain d s1 where l: "check_rate_limit t ip s = (d, s1)" by (cases "check_rate_limit t ip s")
      note f = check_failures [OF assms(2) l]
      then have cnt: "counted ip s1" using assms(2) by (auto simp: counted_def)
      have w1: "counters_in A s1" using counters_check [OF assms(3), of t ip] l by simp
      have w2: "counters_in A (record_failed_login t ip s1)"
        using record_room [OF w1 assms(4,5), of ip t] inA True w1
        by (auto simp: counters_in_def gomap_simps simp del: map_of_eq_None_iff)
      show ?thesis
      proof (cases "checked_guess c ip x s")
        case c: True
        then have "web_step c x s = record_failed_login t ip s1"
          using w True by (auto simp: x l handle_login_def Let_def split: option.split)
        with c f cnt l w2 show ?thesis
          by (auto simp: x record_failures counted_def [of ip "record_failed_login t ip s1"] split: option.splits)
      next
        case c: False
        then have "web_step c x s = s \<or> web_step c x s = s1"
          using w True by (auto simp: x l handle_login_def Let_def split: option.split if_splits)
        with c f cnt w1 assms(2,3) show ?thesis by (auto simp: x)
      qed
    qed
  next
    case WCleanup
    then obtain t where x: "x = (t, WCleanup)" by (cases x) auto
    from cleanup_failures [OF assms(3), of t ip] assms(2) show ?thesis by (auto simp: x counted_def)
  qed (rule quiet; cases x; simp add: session_ops_rates)+
qed

lemma guess_step_seen:
  assumes "stays_out c ip x" and "counted ip s \<and> counters_in A s \<and> (\<forall>k l. failures_of ip s = Some (k, l) \<longrightarrow> l \<le> fst x)"
    and "finite A" and "card A \<le> max_rate_entries" and "set (login_address c x) \<subseteq> A"
  shows "counted ip (web_step c x s) \<and> counters_in A (web_step c x s) \<and>
    (\<forall>k l. failures_of ip (web_step c x s) = Some (k, l) \<longrightarrow> l \<le> fst x)"
  using guess_step [OF assms(1) _ _ assms(3-5), of s] assms(2) by (auto split: if_splits option.splits)

lemma paced_forget: "guesses_apart None ts \<Longrightarrow> list_all (\<lambda>t. login_failure_memory < t - l) ts \<Longrightarrow> guesses_apart (Some (n, l)) ts"
  by (cases ts) auto

lemma guess_times_later: "sorted (List.map fst ops) \<Longrightarrow> list_all (\<lambda>x. t \<le> fst x) ops \<Longrightarrow> list_all (\<lambda>u. t \<le> u) (guess_times c ip ops s)"
  by (induction ops arbitrary: s) auto

lemma guesses_paced:
  "list_all (stays_out c ip) ops \<Longrightarrow> sorted (List.map fst ops) \<Longrightarrow> counted ip s \<Longrightarrow> counters_in A s \<Longrightarrow> finite A \<Longrightarrow>
   card A \<le> max_rate_entries \<Longrightarrow> set (concat (List.map (login_address c) ops)) \<subseteq> A \<Longrightarrow>
   guesses_apart (failures_of ip s) (guess_times c ip ops s) \<and> sorted (guess_times c ip ops s)"
proof (induction ops arbitrary: s)
  case (Cons x ops)
  let ?s = "web_step c x s"
  have x: "stays_out c ip x" and later: "list_all (\<lambda>y. fst x \<le> fst y) ops" and a: "set (login_address c x) \<subseteq> A"
    using Cons.prems by (auto simp: list_all_iff)
  note st = guess_step [OF x Cons.prems(3-6) a]
  have IH: "guesses_apart (failures_of ip ?s) (guess_times c ip ops ?s)" "sorted (guess_times c ip ops ?s)"
    using Cons.IH [of ?s] Cons.prems st by auto
  have lt: "list_all (\<lambda>u. fst x \<le> u) (guess_times c ip ops ?s)"
    by (rule guess_times_later) (use Cons.prems later in auto)
  show ?case
  proof (cases "checked_guess c ip x s")
    case True
    with st IH lt show ?thesis by (auto simp: list_all_iff split: option.splits)
  next
    case False
    with st consider "failures_of ip ?s = failures_of ip s"
      | n l where "failures_of ip ?s = None" "failures_of ip s = Some (n, l)" "login_failure_memory < fst x - l"
      by auto
    then show ?thesis
    proof cases
      case (2 n l)
      have "list_all (\<lambda>t. login_failure_memory < t - l) (guess_times c ip ops ?s)"
        using lt 2(3) by (fastforce simp: list_all_iff)
      with 2 IH False show ?thesis by (simp add: paced_forget)
    qed (use IH False in auto)
  qed
qed simp

lemma backoff_min: "rate_limit_backoff n = (if n \<le> 1 then 0 else min login_backoff_cap (2 ^ (n - 2) * second))"
proof -
  have cap: "login_backoff_cap = 300 * second" "login_backoff_cap div second = 300" "0 < second"
    by (simp_all add: login_backoff_cap_def minute_def second_def)
  have "300 * second \<le> 2 ^ (n - 2) * second" if "300 < (2::int) ^ (n - 2)"
    using that cap(3) by (intro mult_right_mono) auto
  moreover have "2 ^ (n - 2) * second \<le> 300 * second" if "(2::int) ^ (n - 2) \<le> 300"
    using that cap(3) by (intro mult_right_mono) auto
  ultimately show ?thesis unfolding rate_limit_backoff_def cap(2) by (auto simp: cap(1) min_def not_less)
qed

lemma backoff_mono: "m \<le> n \<Longrightarrow> rate_limit_backoff m \<le> rate_limit_backoff n"
proof -
  assume mn: "m \<le> n"
  then have "(2::int) ^ (m - 2) * second \<le> 2 ^ (n - 2) * second"
    by (intro mult_right_mono power_increasing) (auto simp: second_def)
  moreover have "0 \<le> login_backoff_cap" "0 \<le> (2::int) ^ (n - 2) * second"
    by (simp_all add: login_backoff_cap_def minute_def second_def)
  ultimately show ?thesis using mn by (auto simp: backoff_min)
qed

lemma paced_spread:
  "guesses_apart (Some (n, l)) ts \<Longrightarrow> sorted (l # ts) \<Longrightarrow> m < length ts \<Longrightarrow>
   login_failure_memory < ts ! m - l \<or> l + (\<Sum>j\<le>m. rate_limit_backoff (n + j)) \<le> ts ! m"
proof (induction ts arbitrary: n l m)
  case (Cons t ts)
  from Cons.prems(1) show ?case unfolding guesses_apart.simps
  proof
    assume "login_failure_memory < t - l \<and> guesses_apart (Some (1, t)) ts"
    moreover have "t \<le> (t # ts) ! m" using Cons.prems by (cases m) auto
    ultimately show ?thesis by linarith
  next
    assume p: "l + rate_limit_backoff n \<le> t \<and> guesses_apart (Some (Suc n, t)) ts"
    show ?thesis
    proof (cases m)
      case 0
      with p show ?thesis by simp
    next
      case (Suc k)
      have "login_failure_memory < ts ! k - t \<or> t + (\<Sum>j\<le>k. rate_limit_backoff (Suc n + j)) \<le> ts ! k"
        by (rule Cons.IH) (use p Cons.prems Suc in auto)
      moreover have "l \<le> t" using Cons.prems by simp
      ultimately show ?thesis using p unfolding Suc sum.atMost_Suc_shift by auto
    qed
  qed
qed simp

lemma twenty_one_waits: "login_failure_memory < (\<Sum>j\<le>20. rate_limit_backoff (1 + j))"
proof -
  have "{..20::nat} = set [0..<21]" by auto
  then have "(\<Sum>j\<le>20. rate_limit_backoff (1 + j)) = sum_list (List.map (\<lambda>j. rate_limit_backoff (1 + j)) [0..<21])"
    by (simp only: sum_list_distinct_conv_sum_set distinct_upt)
  moreover have "login_failure_memory < sum_list (List.map (\<lambda>j. rate_limit_backoff (1 + j)) [0..<21])"
    by code_simp
  ultimately show ?thesis by simp
qed

lemma paced_drop: "guesses_apart st ts \<Longrightarrow> (\<forall>n l. st = Some (n, l) \<longrightarrow> 1 \<le> n) \<Longrightarrow> i < length ts \<Longrightarrow>
    \<exists>n\<ge>1. guesses_apart (Some (n, ts ! i)) (drop (Suc i) ts)"
proof (induction ts arbitrary: st i)
  case (Cons t ts)
  obtain n where n: "1 \<le> n" "guesses_apart (Some (n, t)) ts"
    using Cons.prems(1,2) by (cases st) force+
  show ?case
  proof (cases i)
    case (Suc k)
    with Cons.prems(3) n Cons.IH [OF n(2), of k] show ?thesis by simp
  qed (use n in auto)
qed simp

text \<open>A patient guesser, one attempt every two hours, while others guess, log out and open pages.\<close>

definition demo_guess :: web_op where
  "demo_guess = WLogin (demo_login ''guess'') None (Some ''k'')"

definition demo_other_login :: web_request where
  "demo_other_login = demo_login ''pw''\<lparr>rq_remote := ''192.0.2.10:1''\<rparr>"

primrec spaced_guesses :: "int \<Rightarrow> nat \<Rightarrow> (int \<times> web_op) list" where
  "spaced_guesses t 0 = []"
| "spaced_guesses t (Suc n) = (t, demo_guess) # (t, WLogin demo_other_login (Some (''tok'', ''c'')) None) #
     (t, WPage demo_change) # (t, WCleanup) # spaced_guesses (t + 2 * hour) n"

lemma demo_other: "client_ip demo_web demo_other_login = ''192.0.2.10''"
  unfolding demo_other_login_def demo_web_def demo_login_def demo_web_request_def by code_simp

lemma spaced_wrong: "list_all (stays_out demo_web ''192.0.2.9'') (spaced_guesses t n)"
  by (induction n arbitrary: t) (simp_all add: demo_guess_def demo_client demo_other, simp add: demo_web_defs)

lemma spaced_sorted: "list_all (\<lambda>x. t \<le> fst x) (spaced_guesses t n) \<and> sorted (List.map fst (spaced_guesses t n))"
proof (induction n arbitrary: t)
  case (Suc n)
  have "0 < hour" by (simp add: hour_def minute_def second_def)
  with Suc [of "t + 2 * hour"] show ?case by (fastforce simp: list_all_iff)
qed simp

lemma spaced_addresses: "set (concat (List.map (login_address demo_web) (spaced_guesses t n))) \<subseteq> {''192.0.2.9'', ''192.0.2.10''}"
  by (induction n arbitrary: t) (auto simp: demo_guess_def demo_client demo_other)

lemma spaced_checked:
  "counted ''192.0.2.9'' s \<Longrightarrow> counters_in {''192.0.2.9'', ''192.0.2.10''} s \<Longrightarrow>
   \<forall>n l. failures_of ''192.0.2.9'' s = Some (n, l) \<longrightarrow> login_failure_memory < t - l \<Longrightarrow>
   n \<le> length (guess_times demo_web ''192.0.2.9'' (spaced_guesses t n) s)"
proof (induction n arbitrary: t s)
  case (Suc n)
  let ?ip = "''192.0.2.9''" and ?A = "{''192.0.2.9'', ''192.0.2.10''}"
  let ?xs = "[(t, WLogin demo_other_login (Some (''tok'', ''c'')) None), (t, WPage demo_change), (t, WCleanup)]"
  define s1 where "s1 = web_step demo_web (t, demo_guess) s"
  have A: "finite ?A" "card ?A \<le> max_rate_entries" by (simp_all add: max_rate_entries_def)
  have all: "list_all (stays_out demo_web ?ip) ((t, demo_guess) # ?xs)"
    "list_all (\<lambda>x. set (login_address demo_web x) \<subseteq> ?A) ((t, demo_guess) # ?xs)"
    using spaced_wrong [of t 1] by (simp_all add: demo_guess_def demo_client demo_other)
  have step: "counted ?ip (web_step demo_web x u) \<and> counters_in ?A (web_step demo_web x u) \<and>
        (\<forall>k l. failures_of ?ip (web_step demo_web x u) = Some (k, l) \<longrightarrow> l \<le> t)"
    if "counted ?ip u \<and> counters_in ?A u \<and> (\<forall>k l. failures_of ?ip u = Some (k, l) \<longrightarrow> l \<le> t)"
      and "x \<in> set ((t, demo_guess) # ?xs)" for u x
  proof -
    have "fst x = t" using that(2) by auto
    then show ?thesis using guess_step_seen [OF _ _ A, of demo_web ?ip x u] all that unfolding list_all_iff by blast
  qed
  have m: "0 < login_failure_memory" "login_failure_memory < 2 * hour"
    by (simp_all add: login_failure_memory_def hour_def minute_def second_def)
  have "fst (check_rate_limit t ?ip s) = None"
    using Suc.prems(3) by (auto simp: check_rate_limit_def prune_failures_def Let_def failures_of_def split: option.split)
  then have ch: "checked_guess demo_web ?ip (t, demo_guess) s"
    by (simp add: demo_guess_def demo_client is_https_def) (simp add: demo_web_defs)
  have s1: "counted ?ip s1 \<and> counters_in ?A s1 \<and> (\<forall>k l. failures_of ?ip s1 = Some (k, l) \<longrightarrow> l \<le> t)"
    unfolding s1_def by (rule step) (use Suc.prems m in fastforce)+
  define s4 where "s4 = fold (web_step demo_web) ?xs s1"
  have s4: "counted ?ip s4 \<and> counters_in ?A s4 \<and> (\<forall>k l. failures_of ?ip s4 = Some (k, l) \<longrightarrow> l \<le> t)"
    unfolding s4_def fold_simps comp_apply id_apply by (intro step s1) auto
  have "\<forall>k l. failures_of ?ip s4 = Some (k, l) \<longrightarrow> login_failure_memory < t + 2 * hour - l"
    using s4 m by fastforce
  with Suc.IH [of s4 "t + 2 * hour"] s4 have "n \<le> length (guess_times demo_web ?ip (spaced_guesses (t + 2 * hour) n) s4)" by blast
  with ch show ?case by (simp add: s4_def s1_def)
qed simp



section \<open>Forwarding headers\<close>

text \<open>An entry of a forwarding header that leaves the search for the client to the entries before it: a blank one, or the address
  of a trusted proxy. The nearest hop: the last entry that names another address.\<close>

definition passed_over :: "web_config \<Rightarrow> (string \<Rightarrow> string option) \<Rightarrow> string \<Rightarrow> bool" where
  "passed_over c parse e \<longleftrightarrow> trim_space e = [] \<or> (case parse e of Some a \<Rightarrow> is_trusted_proxy_ip c a | None \<Rightarrow> False)"

definition nearest_hop :: "web_config \<Rightarrow> (string \<Rightarrow> string option) \<Rightarrow> string list \<Rightarrow> string \<Rightarrow> bool" where
  "nearest_hop c parse entries a \<longleftrightarrow>
     (\<exists>far e near. entries = far @ e # near \<and> trim_space e \<noteq> [] \<and> parse e = Some a \<and> a \<noteq> [] \<and> \<not> is_trusted_proxy_ip c a \<and>
        list_all (passed_over c parse) near)"

lemma untrusted_hop_skip:
  assumes "list_all (passed_over c parse) near"
  shows "untrusted_hop c remote (rev (forwarded_hops (far @ e # near) parse)) = untrusted_hop c remote (rev (forwarded_hops (far @ [e]) parse))"
  using assms
proof (induction near rule: rev_induct)
  case (snoc x xs)
  have "is_trusted_proxy_ip c [] = False" by (simp add: is_trusted_proxy_ip_def parse_ip_nonempty)
  then show ?case
    using snoc by (auto simp: forwarded_hops_def passed_over_def split: option.splits)
qed simp

lemma nearest_hop_found:
  assumes "nearest_hop c parse entries a"
  shows "first_untrusted_hop c r (forwarded_hops entries parse) = a \<and> forwarded_hops entries parse \<noteq> []"
proof -
  from assms obtain far e near where h: "entries = far @ e # near" "trim_space e \<noteq> []" "parse e = Some a" "a \<noteq> []"
    "\<not> is_trusted_proxy_ip c a" "list_all (passed_over c parse) near"
    unfolding nearest_hop_def by blast
  have "first_untrusted_hop c r (forwarded_hops entries parse) =
      untrusted_hop c (remote_ip r) (rev (forwarded_hops (far @ [e]) parse))"
    unfolding first_untrusted_hop_def h(1) by (rule untrusted_hop_skip [OF h(6)])
  with h(2-5) show ?thesis by (simp add: forwarded_hops_def h(1))
qed

lemma found_is_nearest:
  "first_untrusted_hop c r (forwarded_hops entries parse) = remote_ip r \<or>
   nearest_hop c parse entries (first_untrusted_hop c r (forwarded_hops entries parse))"
proof (induction entries rule: rev_induct)
  case Nil
  then show ?case by (simp add: forwarded_hops_def first_untrusted_hop_def)
next
  case (snoc e es)
  define a where "a = (case parse e of Some a \<Rightarrow> a | None \<Rightarrow> [])"
  have later: "nearest_hop c parse (es @ [e]) b" if "nearest_hop c parse es b" "passed_over c parse e" for b
  proof -
    from that obtain far x near where "es = far @ x # near" "trim_space x \<noteq> []" "parse x = Some b" "b \<noteq> []"
      "\<not> is_trusted_proxy_ip c b" "list_all (passed_over c parse) near"
      unfolding nearest_hop_def by blast
    with that(2) show ?thesis unfolding nearest_hop_def
      by (intro exI [of _ far] exI [of _ x] exI [of _ "near @ [e]"]) simp
  qed
  consider (blank) "trim_space e = []" | (broken) "trim_space e \<noteq> []" "a = []" | (proxy) "trim_space e \<noteq> []" "a \<noteq> []" "is_trusted_proxy_ip c a"
    | (hop) "trim_space e \<noteq> []" "a \<noteq> []" "\<not> is_trusted_proxy_ip c a" by blast
  then show ?case
  proof cases
    case blank
    then have "passed_over c parse e" by (simp add: passed_over_def)
    moreover have "first_untrusted_hop c r (forwarded_hops (es @ [e]) parse) = first_untrusted_hop c r (forwarded_hops es parse)"
      using blank by (simp add: forwarded_hops_def first_untrusted_hop_def a_def)
    ultimately show ?thesis using snoc later by metis
  next
    case broken
    then show ?thesis by (simp add: forwarded_hops_def first_untrusted_hop_def a_def)
  next
    case proxy
    then have "passed_over c parse e" by (auto simp: passed_over_def a_def split: option.splits)
    moreover have "first_untrusted_hop c r (forwarded_hops (es @ [e]) parse) = first_untrusted_hop c r (forwarded_hops es parse)"
      using proxy by (simp add: forwarded_hops_def first_untrusted_hop_def a_def)
    ultimately show ?thesis using snoc later by metis
  next
    case hop
    then have "parse e = Some a" by (auto simp: a_def split: option.splits)
    with hop have "nearest_hop c parse (es @ [e]) a"
      unfolding nearest_hop_def by (intro exI [of _ es] exI [of _ e] exI [of _ "[]"]) simp
    with hop show ?thesis by (simp add: forwarded_hops_def first_untrusted_hop_def a_def)
  qed
qed

text \<open>C19: what a client that is not a configured proxy writes into the forwarding headers changes nothing: neither whether
  the request counts as HTTPS, nor its client address, nor whether Host, origin or DNS over HTTPS are allowed. Behind a trusted
  proxy the client address is the nearest hop that the proxies name and that is not one of them -- the last entry of
  X-Forwarded-For (of Forwarded when X-Forwarded-For has none) that is neither blank nor a trusted proxy, whatever a client put in
  front of it -- and it is never anything else than that hop or the address of the connection.\<close>

theorem forwarded_headers_not_spoofable:
  "(same_but_forwarding r r' \<longrightarrow> \<not> is_trusted_proxy c r \<longrightarrow>
     is_https c r = is_https c r' \<and> client_ip c r = client_ip c r' \<and> allowed_host c r = allowed_host c r' \<and>
     same_origin_request c r = same_origin_request c r' \<and> doh_client_allowed c r = doh_client_allowed c r') \<and>
   (is_trusted_proxy c r \<longrightarrow>
     (nearest_hop c parse_xff_hop (header_entries r ''X-Forwarded-For'') a \<longrightarrow> client_ip c r = a) \<and>
     (list_all (\<lambda>e. trim_space e = []) (header_entries r ''X-Forwarded-For'') \<longrightarrow>
      nearest_hop c parse_forwarded_hop (header_entries r ''Forwarded'') a \<longrightarrow> client_ip c r = a)) \<and>
   (client_ip c r = remote_ip r \<or>
    is_trusted_proxy c r \<and> nearest_hop c parse_xff_hop (header_entries r ''X-Forwarded-For'') (client_ip c r) \<or>
    is_trusted_proxy c r \<and> nearest_hop c parse_forwarded_hop (header_entries r ''Forwarded'') (client_ip c r))"
proof (intro conjI impI)
  assume "same_but_forwarding r r'" "\<not> is_trusted_proxy c r"
  from untrusted_forwarding_ignored [OF this]
  show "is_https c r = is_https c r'" "client_ip c r = client_ip c r'" "allowed_host c r = allowed_host c r'"
    "same_origin_request c r = same_origin_request c r'" "doh_client_allowed c r = doh_client_allowed c r'"
    by blast+
next
  assume t: "is_trusted_proxy c r" and n: "nearest_hop c parse_xff_hop (header_entries r ''X-Forwarded-For'') a"
  from nearest_hop_found [OF n, of r] t show "client_ip c r = a" by (simp add: client_ip_def Let_def)
next
  assume t: "is_trusted_proxy c r" and e: "list_all (\<lambda>e. trim_space e = []) (header_entries r ''X-Forwarded-For'')"
    and n: "nearest_hop c parse_forwarded_hop (header_entries r ''Forwarded'') a"
  have "forwarded_hops (header_entries r ''X-Forwarded-For'') parse_xff_hop = []"
    using e by (auto simp: forwarded_hops_def list_all_iff filter_empty_conv)
  with nearest_hop_found [OF n, of r] t show "client_ip c r = a" by (simp add: client_ip_def Let_def)
next
  show "client_ip c r = remote_ip r \<or>
    is_trusted_proxy c r \<and> nearest_hop c parse_xff_hop (header_entries r ''X-Forwarded-For'') (client_ip c r) \<or>
    is_trusted_proxy c r \<and> nearest_hop c parse_forwarded_hop (header_entries r ''Forwarded'') (client_ip c r)"
    using found_is_nearest [of c r "header_entries r ''X-Forwarded-For''" parse_xff_hop]
      found_is_nearest [of c r "header_entries r ''Forwarded''" parse_forwarded_hop]
    unfolding client_ip_def Let_def by (simp split: if_split) blast
qed

definition demo_spoofed :: web_request where
  "demo_spoofed = demo_change\<lparr>rq_headers := (\<lambda>h. if h = ''X-Forwarded-For'' then [''127.0.0.1''] else [])\<rparr>"

definition demo_proxied :: web_request where
  "demo_proxied = demo_change\<lparr>rq_remote := ''10.0.0.1:80'',
     rq_headers := (\<lambda>h. if h = ''X-Forwarded-For'' then [''127.0.0.1, 203.0.113.5, 10.0.0.1''] else [])\<rparr>"

lemma demo_trust: "\<not> is_trusted_proxy demo_web demo_spoofed" "is_trusted_proxy demo_web demo_proxied"
  "header_entries demo_proxied ''X-Forwarded-For'' = [''127.0.0.1''] @ '' 203.0.113.5'' # ['' 10.0.0.1'']"
  "trim_space '' 203.0.113.5'' \<noteq> []" "parse_xff_hop '' 203.0.113.5'' = Some ''203.0.113.5''"
  "\<not> is_trusted_proxy_ip demo_web ''203.0.113.5''" "list_all (passed_over demo_web parse_xff_hop) ['' 10.0.0.1'']"
  unfolding demo_spoofed_def demo_proxied_def demo_web_defs by code_simp+

theorem forwarded_headers_not_spoofable_witness:
  "client_ip demo_web demo_spoofed = client_ip demo_web demo_change \<and> client_ip demo_web demo_proxied = ''203.0.113.5''"
proof -
  have "same_but_forwarding demo_spoofed demo_change"
    by (simp add: same_but_forwarding_def demo_spoofed_def forwarding_headers_def demo_change_def demo_web_request_def)
  moreover have "nearest_hop demo_web parse_xff_hop (header_entries demo_proxied ''X-Forwarded-For'') ''203.0.113.5''"
    unfolding nearest_hop_def using demo_trust(3-7) by blast
  ultimately show ?thesis
    using demo_trust(1,2) forwarded_headers_not_spoofable [where c = demo_web and r = demo_spoofed and r' = demo_change and a = "[]"]
      forwarded_headers_not_spoofable [where c = demo_web and r = demo_proxied and r' = demo_proxied and a = "''203.0.113.5''"]
    by blast
qed

end
