(* ===== verification/Config_Claims.thy ===== *)
theory Config_Claims
  imports Config_Sync Config_Handlers Web_Claims
begin

text \<open>
  What the management interface guarantees: who can change the configuration, and what a click on
  block or unblock leaves in the user rules.
\<close>

section \<open>A demo request\<close>

definition demo_mgmt :: mgmt where
  "demo_mgmt = \<lparr>mg_mode = ''controller'', mg_web = demo_web, mg_now = second, mg_state = web_run demo_web demo_web_ops,
     mg_request = demo_change, mg_env = demo_cluster, mg_dns = demo_lib, mg_checksum = (\<lambda>_ _. [])\<rparr>"

lemma demo_csrf: "check_csrf demo_web second demo_change (web_run demo_web demo_web_ops)"
  by (simp add: check_csrf_def demo_same_origin demo_facts session_csrf_token_def lookup_session_def demo_sessions demo_live)

lemma demo_served_page: "\<exists>s1. auth_middleware demo_web second demo_change (web_run demo_web demo_web_ops) = (Served, s1) \<and>
    check_csrf demo_web second demo_change s1"
proof -
  obtain s1 where s1: "auth_middleware demo_web second demo_change (web_run demo_web demo_web_ops) = (Served, s1)"
    "ws_sessions s1 = [(''tok'', \<lparr>se_expires = session_lifetime, se_seen = second, se_csrf = ''c''\<rparr>)]"
    by (simp add: auth_middleware_def demo_facts valid_session_def demo_sessions Let_def live_sessions_def demo_live)
  have "\<not> expired second \<lparr>se_expires = session_lifetime, se_seen = second, se_csrf = ''c''\<rparr>"
    by (simp add: expired_def session_lifetime_def session_idle_timeout_def hour_def minute_def second_def)
  with s1(2) have "check_csrf demo_web second demo_change s1"
    by (simp add: check_csrf_def demo_same_origin demo_facts session_csrf_token_def lookup_session_def)
  with s1(1) show ?thesis by blast
qed

section \<open>Properties\<close>

text \<open>C7: With credentials configured, no request to a configuration endpoint changes the managed
  configuration or the filter engine of a node unless the node is the controller, the request came over
  HTTPS, is not a GET and not from another site, and carries the CSRF token that a login issued with
  its session, less than a day ago and not revoked since: resolver nodes are read-only.\<close>

theorem configuration_changes_authorised:
  assumes "wc_username (mg_web q) \<noteq> []" and "wc_password (mg_web q) \<noteq> []" and "mg_state q = web_run (mg_web q) ops"
    and "\<not> same_config n (snd (serve_call q call n))"
  shows "is_controller (mg_mode q) \<and> \<not> method_is q ''GET'' \<and> is_https (mg_web q) (mg_request q) \<and>
    same_origin_request (mg_web q) (mg_request q) \<and>
    (\<exists>tok csrf i. rq_cookies (mg_request q) session_cookie = Some tok \<and> granted (mg_web q) ops i tok csrf \<and> csrf \<noteq> [] \<and>
       mg_now q < fst (ops ! i) + session_lifetime \<and>
       csrf = (if request_header (mg_request q) ''X-CSRF-Token'' = [] then rq_form (mg_request q) ''csrf_token''
               else request_header (mg_request q) ''X-CSRF-Token''))"
proof -
  let ?c = "mg_web q" and ?r = "mg_request q" and ?t = "mg_now q"
  obtain g s1 where a: "auth_middleware ?c ?t ?r (mg_state q) = (g, s1)" by (cases "auth_middleware ?c ?t ?r (mg_state q)")
  have served: "g = Served" using assms(4) a by (cases g) (simp_all add: serve_call_def)
  then have call: "\<not> same_config n (snd (handle_call (q\<lparr>mg_state := s1\<rparr>) call n))" using assms(4) a by (simp add: serve_call_def)
  have ctl: "is_controller (mg_mode q)" "check_csrf ?c ?t ?r s1" "\<not> method_is q ''GET''"
    using handle_call_same [of "q\<lparr>mg_state := s1\<rparr>" n call] call by (auto simp: csrf_ok_def method_is_def)
  have https: "is_https ?c ?r" using a served assms(1,2) by (auto simp: auth_middleware_def web_auth_enabled_def split: if_splits)
  have s1: "s1 = web_run ?c (ops @ [(?t, WPage ?r)])" using a assms(3) by simp
  have auth: "web_auth_enabled ?c" using assms(1) by (simp add: web_auth_enabled_def)
  from checked_session [OF auth ctl(2)] obtain tok e where so: "same_origin_request ?c ?r"
    and e: "rq_cookies ?r session_cookie = Some tok" "gm_get (ws_sessions s1) tok = Some e" "\<not> expired ?t e" "se_csrf e \<noteq> []"
      "se_csrf e = (if request_header ?r ''X-CSRF-Token'' = [] then rq_form ?r ''csrf_token'' else request_header ?r ''X-CSRF-Token'')"
    by blast
  from alive_after_page [OF e(2) [unfolded s1] e(3)] obtain i where
    "granted ?c ops i tok (se_csrf e)" "?t < fst (ops ! i) + session_lifetime" by blast
  with ctl https so e(1,4,5) show ?thesis by blast
qed

theorem configuration_changes_authorised_witness:
  "\<not> same_config (demo_node ''9.9.9.9'') (snd (serve_call demo_mgmt (CallPause (Some 5)) (demo_node ''9.9.9.9''))) \<and>
   (\<exists>tok i. granted demo_web demo_web_ops i tok ''c'')"
proof -
  obtain s1 where s1: "auth_middleware demo_web second demo_change (web_run demo_web demo_web_ops) = (Served, s1)"
    "check_csrf demo_web second demo_change s1" using demo_served_page by blast
  have q: "mg_web demo_mgmt = demo_web" "mg_now demo_mgmt = second" "mg_request demo_mgmt = demo_change"
    "mg_state demo_mgmt = web_run demo_web demo_web_ops" "is_controller (mg_mode demo_mgmt)"
    by (simp_all add: demo_mgmt_def is_controller_def)
  have post: "rq_method demo_change = ''POST''" by (simp add: demo_web_defs)
  have e: "snd (serve_call demo_mgmt (CallPause (Some 5)) (demo_node ''9.9.9.9'')) =
      (demo_node ''9.9.9.9'')\<lparr>nd_engine := pause second 5 (nd_engine (demo_node ''9.9.9.9''))\<rparr>"
    using s1 q post by (simp add: serve_call_def handle_filtering_pause_def method_is_def guarded_def csrf_ok_def demo_node_def)
  have "e_paused (pause second 5 new_engine) \<noteq> e_paused new_engine"
    by (simp add: pause_def new_engine_def unix_def second_def minute_def)
  then have "\<not> same_config (demo_node ''9.9.9.9'') ((demo_node ''9.9.9.9'')\<lparr>nd_engine := pause second 5 (nd_engine (demo_node ''9.9.9.9''))\<rparr>)"
    by (auto simp: same_config_def demo_node_def)
  with e have c: "\<not> same_config (demo_node ''9.9.9.9'') (snd (serve_call demo_mgmt (CallPause (Some 5)) (demo_node ''9.9.9.9'')))" by simp
  from configuration_changes_authorised [OF _ _ _ c, of demo_web_ops] q demo_facts
  have "\<exists>tok i. granted demo_web demo_web_ops i tok ''c''" by auto
  with c show ?thesis by blast
qed

lemma modify_rules_failed:
  assumes "querylog_domain_ok L d" and "modify_rules_file block d readable ok1 ok2 file = (False, f)"
  shows "\<not> (readable \<and> ok1 \<and> ok2) \<and> (f = file \<or>
    block \<and> \<not> ok2 \<and> rule_lines f = filter (\<lambda>t. t \<noteq> except_rule d) (rule_lines file))"
proof -
  note c = rule_clean [OF assms(1)]
  have bad: "\<not> (readable \<and> ok1 \<and> ok2)"
    using assms(2) by (auto simp: modify_rules_file_def modify_user_rule_def split: if_splits prod.splits)
  show ?thesis
  proof (cases "f = file")
    case False
    then obtain r f1 where block and m: "modify_user_rule (except_rule d) True readable ok1 file = Some (r, f1)" "f = f1" and "\<not> ok2"
      using assms(2) by (auto simp: modify_rules_file_def modify_user_rule_def split: if_splits prod.splits)
    with modify_user_rule_lines [OF m(1) c(2,4,6)] bad show ?thesis by simp
  qed (use bad in simp)
qed



end
