(* ===== verification/Event_Store.thy ===== *)
theory Event_Store
  imports Prelude "HOL-Library.Word"
begin

text \<open>
  storage/storage.go, archive.go and pending.go without the SQL: the ring of recent events, the queue of
  events that wait for the database and the amendments that reach both. The archiver and the writers run concurrently: a claim, a commit and a restore are steps of
  their own, with any additions and amendments between them. The event counter is a natural number (a
  uint64 in the source). The notices about dropped events are not modelled.
\<close>

section \<open>Events\<close>

text \<open>models.QueryEvent; the latency is None where the NullFloat64 is not valid.\<close>

record stored_event =
  qv_time :: int
  qv_type :: string
  qv_domain :: string
  qv_client :: string
  qv_latency :: "rat option"
  qv_upstream :: string
  qv_node :: string
  qv_alias :: string
  qv_id :: string
  qv_dnssec :: string
  qv_hostname :: string
  qv_blocked :: bool
  qv_rcode :: string
  qv_alert :: bool
  qv_rule :: string
  qv_reason :: string
  qv_cache :: string
  qv_ttl :: "32 word"
  qv_soa :: string

definition no_event :: stored_event where
  "no_event = \<lparr>qv_time = 0, qv_type = [], qv_domain = [], qv_client = [], qv_latency = None, qv_upstream = [], qv_node = [],
     qv_alias = [], qv_id = [], qv_dnssec = [], qv_hostname = [], qv_blocked = False, qv_rcode = [], qv_alert = False,
     qv_rule = [], qv_reason = [], qv_cache = [], qv_ttl = 0, qv_soa = []\<rparr>"

definition event_approx_bytes :: "stored_event \<Rightarrow> int" where
  "event_approx_bytes e =
     96 + int (length (qv_node e)) + int (length (qv_client e)) + int (length (qv_domain e)) + int (length (qv_type e)) +
     int (length (qv_upstream e)) + int (length (qv_dnssec e)) + int (length (qv_hostname e)) + int (length (qv_rcode e)) +
     int (length (qv_rule e)) + int (length (qv_reason e)) + int (length (qv_cache e)) + int (length (qv_soa e))"

definition events_approx_bytes :: "stored_event list \<Rightarrow> int" where
  "events_approx_bytes es = sum_list (List.map event_approx_bytes es)"

section \<open>The store\<close>

definition default_scan_limit :: nat where
  "default_scan_limit = 1000"

definition default_capacity :: int where "default_capacity = 1000000"
definition default_trigger :: int where "default_trigger = 5000"
definition default_write_batch :: int where "default_write_batch = 20000"

definition archive_limits :: "int \<Rightarrow> int \<Rightarrow> int \<Rightarrow> int \<times> int \<times> int" where
  "archive_limits capacity0 trigger0 write0 =
     (let capacity = (if capacity0 < 1 then default_capacity else capacity0);
          trigger = (if trigger0 < 1 \<or> capacity < trigger0 then min default_trigger (max 1 (capacity div 2)) else trigger0);
          write = (if write0 < 1 \<or> capacity < write0 then min default_write_batch capacity else write0)
      in (capacity, trigger, write))"

record event_store =
  es_max :: nat
  es_threshold :: int
  es_persistent :: bool
  es_limit :: nat
  es_mark :: nat
  es_write :: nat
  es_ring :: "stored_event list"
  es_head :: nat
  es_count :: nat
  es_ids :: nat
  es_batch :: "stored_event list"
  es_start :: nat
  es_bytes :: int
  es_dropped :: nat
  es_flight :: int
  es_flight_bytes :: int
  es_ready :: bool

definition new_store :: "nat \<Rightarrow> int \<Rightarrow> bool \<Rightarrow> int \<Rightarrow> int \<Rightarrow> int \<Rightarrow> event_store" where
  "new_store max_events threshold persistent capacity trigger write =
     (case archive_limits capacity trigger write of (c, t, b) \<Rightarrow>
        \<lparr>es_max = max_events, es_threshold = threshold, es_persistent = persistent, es_limit = nat c, es_mark = nat t,
         es_write = nat b, es_ring = replicate max_events no_event, es_head = 0, es_count = 0, es_ids = 0, es_batch = [],
         es_start = 0, es_bytes = 0, es_dropped = 0, es_flight = 0, es_flight_bytes = 0, es_ready = False\<rparr>)"

definition pending_batch :: "event_store \<Rightarrow> stored_event list" where
  "pending_batch s = drop (es_start s) (es_batch s)"

definition compact_batch :: "event_store \<Rightarrow> event_store" where
  "compact_batch s = (if es_start s = 0 then s else s\<lparr>es_batch := pending_batch s, es_start := 0\<rparr>)"

section \<open>Adding an event\<close>

definition push_ring :: "stored_event \<Rightarrow> event_store \<Rightarrow> event_store" where
  "push_ring e s =
     s\<lparr>es_ring := (es_ring s)[es_head s := e], es_head := (es_head s + 1) mod es_max s,
       es_count := (if es_count s < es_max s then Suc (es_count s) else es_count s)\<rparr>"

definition drop_oldest :: "event_store \<Rightarrow> event_store" where
  "drop_oldest s =
     (let s1 = s\<lparr>es_bytes := es_bytes s - event_approx_bytes (es_batch s ! es_start s),
                 es_batch := (es_batch s)[es_start s := no_event], es_start := Suc (es_start s)\<rparr>;
          s2 = (if max 1 (es_limit s div 4) \<le> es_start s1 then compact_batch s1 else s1)
      in s2\<lparr>es_dropped := Suc (es_dropped s2)\<rparr>)"

definition push_batch :: "stored_event \<Rightarrow> event_store \<Rightarrow> event_store" where
  "push_batch e s =
     (let s1 = (if es_limit s \<le> length (es_batch s) - es_start s then drop_oldest s else s);
          s2 = s1\<lparr>es_batch := es_batch s1 @ [e], es_bytes := es_bytes s1 + event_approx_bytes e\<rparr>
      in if es_mark s2 \<le> length (es_batch s2) - es_start s2 then s2\<lparr>es_ready := True\<rparr> else s2)"

text \<open>AddEvent has two critical sections: the ring with the new id, then the queue of the archiver.\<close>

definition ring_event :: "stored_event \<Rightarrow> event_store \<Rightarrow> stored_event \<times> event_store" where
  "ring_event e0 s =
     (let e = e0\<lparr>qv_id := show_nat (Suc (es_ids s))\<rparr> in (e, push_ring e (s\<lparr>es_ids := Suc (es_ids s)\<rparr>)))"

definition add_event :: "stored_event \<Rightarrow> event_store \<Rightarrow> stored_event \<times> event_store" where
  "add_event e0 s =
     (case ring_event e0 s of (e, s1) \<Rightarrow> (e, if es_persistent s1 then push_batch e s1 else s1))"

section \<open>Amending an event\<close>

text \<open>The scans: the ring from the newest event back, at most the scan limit; the queue from its end.\<close>

definition ring_slot :: "event_store \<Rightarrow> nat \<Rightarrow> nat" where
  "ring_slot s i = (es_head s + es_max s - 1 - i) mod es_max s"

definition scan_ring :: "(stored_event \<Rightarrow> bool) \<Rightarrow> event_store \<Rightarrow> nat option" where
  "scan_ring P s =
     map_option (ring_slot s) (List.find (\<lambda>i. P (es_ring s ! ring_slot s i)) [0..<min (es_count s) default_scan_limit])"

definition scan_batch :: "(stored_event \<Rightarrow> bool) \<Rightarrow> event_store \<Rightarrow> nat option" where
  "scan_batch P s = List.find (\<lambda>b. P (es_batch s ! b)) (rev [es_start s..<length (es_batch s)])"

definition amend_batch :: "(stored_event \<Rightarrow> bool) \<Rightarrow> (stored_event \<Rightarrow> stored_event) \<Rightarrow> event_store \<Rightarrow> event_store" where
  "amend_batch P f s =
     (case scan_batch P s of
        None \<Rightarrow> s
      | Some b \<Rightarrow> s\<lparr>es_batch := (es_batch s)[b := f (es_batch s ! b)],
                    es_bytes := es_bytes s + (event_approx_bytes (f (es_batch s ! b)) - event_approx_bytes (es_batch s ! b))\<rparr>)"

definition same_query :: "string \<Rightarrow> string \<Rightarrow> stored_event \<Rightarrow> bool" where
  "same_query node domain e \<longleftrightarrow> qv_domain e = domain \<and> qv_node e = node"

definition unanswered :: "string \<Rightarrow> string \<Rightarrow> stored_event \<Rightarrow> bool" where
  "unanswered node domain e \<longleftrightarrow> same_query node domain e \<and> qv_latency e = None"

definition update_event :: "string \<Rightarrow> string \<Rightarrow> rat \<Rightarrow> string \<Rightarrow> string \<Rightarrow> event_store \<Rightarrow> stored_event option \<times> event_store" where
  "update_event node domain latency upstream rcode s =
     (case scan_ring (unanswered node domain) s of
        None \<Rightarrow> (None, s)
      | Some i \<Rightarrow>
          (let e0 = es_ring s ! i;
               e = e0\<lparr>qv_latency := Some latency, qv_upstream := upstream, qv_rcode := rcode,
                      qv_alert := (if of_int (es_threshold s) < latency then True else qv_alert e0)\<rparr>
           in (Some e, amend_batch (unanswered node domain)
                 (\<lambda>b. b\<lparr>qv_latency := Some latency, qv_upstream := upstream, qv_dnssec := qv_dnssec e, qv_rcode := qv_rcode e,
                        qv_alert := qv_alert e, qv_hostname := qv_hostname e, qv_blocked := qv_blocked e\<rparr>)
                 (s\<lparr>es_ring := (es_ring s)[i := e]\<rparr>))))"

definition set_blocked :: "string \<Rightarrow> string \<Rightarrow> event_store \<Rightarrow> bool \<times> event_store" where
  "set_blocked node domain s =
     (case scan_ring (same_query node domain) s of
        None \<Rightarrow> (False, s)
      | Some i \<Rightarrow>
          (if qv_blocked (es_ring s ! i) then (True, s)
           else (False, amend_batch (same_query node domain) (\<lambda>b. b\<lparr>qv_blocked := True\<rparr>)
                          (s\<lparr>es_ring := (es_ring s)[i := (es_ring s ! i)\<lparr>qv_blocked := True\<rparr>]\<rparr>))))"

definition same_client :: "string \<Rightarrow> string \<Rightarrow> stored_event \<Rightarrow> bool" where
  "same_client node client e \<longleftrightarrow> qv_client e = client \<and> qv_node e = node"

definition set_client_hostname :: "string \<Rightarrow> string \<Rightarrow> string \<Rightarrow> event_store \<Rightarrow> bool \<times> event_store" where
  "set_client_hostname node client hostname s =
     (case scan_ring (same_client node client) s of
        None \<Rightarrow> (False, s)
      | Some i \<Rightarrow>
          (if qv_hostname (es_ring s ! i) = hostname then (True, s)
           else (False, amend_batch (same_client node client) (\<lambda>b. b\<lparr>qv_hostname := hostname\<rparr>)
                          (s\<lparr>es_ring := (es_ring s)[i := (es_ring s ! i)\<lparr>qv_hostname := hostname\<rparr>]\<rparr>))))"

definition set_dnssec :: "string \<Rightarrow> string \<Rightarrow> string \<Rightarrow> event_store \<Rightarrow> event_store" where
  "set_dnssec node domain result s =
     (case scan_ring (same_query node domain) s of
        None \<Rightarrow> s
      | Some i \<Rightarrow> amend_batch (same_query node domain) (\<lambda>b. b\<lparr>qv_dnssec := result\<rparr>)
                    (s\<lparr>es_ring := (es_ring s)[i := (es_ring s ! i)\<lparr>qv_dnssec := result\<rparr>]\<rparr>))"

section \<open>Reading the ring\<close>

definition get_ordered_events :: "int \<Rightarrow> event_store \<Rightarrow> stored_event list" where
  "get_ordered_events limit s =
     (let n = (if 0 < limit \<and> limit < int (es_count s) then nat limit else es_count s)
      in List.map (\<lambda>i. es_ring s ! ((es_head s + es_max s - n + i) mod es_max s)) [0..<n])"

definition get_recent_events :: "int \<Rightarrow> event_store \<Rightarrow> stored_event list" where
  "get_recent_events since s =
     rev (filter (\<lambda>e. since < qv_time e)
       (List.map (\<lambda>i. es_ring s ! ring_slot s i) [0..<min (es_count s) default_scan_limit]))"

text \<open>strconv.ParseUint in base 10: zero for anything but digits, the maximum when out of range.\<close>

definition parse_uint :: "string \<Rightarrow> nat" where
  "parse_uint v = (if \<not> all_digits v then 0 else min (dec_val v) (2 ^ 64 - 1))"

definition get_events_after :: "string \<Rightarrow> int \<Rightarrow> int \<Rightarrow> event_store \<Rightarrow> stored_event list" where
  "get_events_after cursor since limit0 s =
     (let limit = (if limit0 \<le> 0 \<or> int default_scan_limit < limit0 then default_scan_limit else nat limit0);
          c = parse_uint cursor; n = es_count s
      in take limit (filter (\<lambda>e. 0 < c \<and> c < parse_uint (qv_id e) \<or> c = 0 \<and> since < qv_time e)
           (List.map (\<lambda>i. es_ring s ! ((es_head s + es_max s - n + i) mod es_max s)) [0..<n])))"

section \<open>The archiver\<close>

definition claim_batch :: "event_store \<Rightarrow> stored_event list \<times> event_store" where
  "claim_batch s =
     (let pending = pending_batch s; n = min (length pending) (es_write s); claimed = take n pending
      in if n = 0 then ([], s)
         else let s1 = s\<lparr>es_batch := take (es_start s) (es_batch s) @ replicate n no_event @ drop (es_start s + n) (es_batch s),
                        es_start := es_start s + n, es_bytes := es_bytes s - events_approx_bytes claimed,
                        es_flight := es_flight s + int n, es_flight_bytes := es_flight_bytes s + events_approx_bytes claimed\<rparr>
              in (claimed, if length (es_batch s1) - es_start s1 = 0 \<or> max 1 (es_limit s1 div 4) \<le> es_start s1
                           then compact_batch s1 else s1))"

definition commit_batch :: "stored_event list \<Rightarrow> event_store \<Rightarrow> event_store" where
  "commit_batch claimed s =
     s\<lparr>es_flight := es_flight s - int (length claimed), es_flight_bytes := es_flight_bytes s - events_approx_bytes claimed\<rparr>"

definition restore_batch :: "stored_event list \<Rightarrow> event_store \<Rightarrow> event_store" where
  "restore_batch claimed s =
     (let combined = claimed @ pending_batch s; dropped = length combined - es_limit s; kept = drop dropped combined
      in s\<lparr>es_batch := kept, es_start := 0, es_bytes := events_approx_bytes kept, es_flight := es_flight s - int (length claimed),
           es_flight_bytes := es_flight_bytes s - events_approx_bytes claimed, es_dropped := es_dropped s + dropped\<rparr>)"

definition archive_metrics :: "event_store \<Rightarrow> int \<times> int \<times> nat" where
  "archive_metrics s =
     (int (length (es_batch s) - es_start s) + es_flight s, es_bytes s + es_flight_bytes s, es_dropped s)"

section \<open>The queue\<close>

definition queue_ok :: "event_store \<Rightarrow> bool" where
  "queue_ok s \<longleftrightarrow> es_start s \<le> length (es_batch s) \<and> es_bytes s = events_approx_bytes (pending_batch s) \<and>
     length (pending_batch s) \<le> es_limit s \<and> 1 \<le> es_limit s \<and> 1 \<le> es_write s"

text \<open>What no operation of the queue touches.\<close>

definition same_ring :: "event_store \<Rightarrow> event_store \<Rightarrow> bool" where
  "same_ring s t \<longleftrightarrow> es_max t = es_max s \<and> es_threshold t = es_threshold s \<and> es_persistent t = es_persistent s \<and> es_limit t = es_limit s \<and>
     es_mark t = es_mark s \<and> es_write t = es_write s \<and> es_ring t = es_ring s \<and> es_head t = es_head s \<and> es_count t = es_count s \<and>
     es_ids t = es_ids s"

lemma same_ring_refl [simp]: "same_ring s s"
  by (simp add: same_ring_def)

lemma bytes_simps [simp]:
  "events_approx_bytes [] = 0"
  "events_approx_bytes (e # es) = event_approx_bytes e + events_approx_bytes es"
  "events_approx_bytes (es @ es') = events_approx_bytes es + events_approx_bytes es'"
  by (simp_all add: events_approx_bytes_def)

lemma pending_length: "length (pending_batch s) = length (es_batch s) - es_start s"
  by (simp add: pending_batch_def)

lemma compact_facts:
  "pending_batch (compact_batch s) = pending_batch s" "same_ring s (compact_batch s)" "es_bytes (compact_batch s) = es_bytes s"
  "es_dropped (compact_batch s) = es_dropped s" "es_flight (compact_batch s) = es_flight s"
  "es_flight_bytes (compact_batch s) = es_flight_bytes s"
  "es_start s \<le> length (es_batch s) \<Longrightarrow> es_start (compact_batch s) \<le> length (es_batch (compact_batch s))"
  by (auto simp: compact_batch_def pending_batch_def same_ring_def)

lemma drop_oldest_facts:
  assumes "es_start s < length (es_batch s)"
  shows "pending_batch (drop_oldest s) = tl (pending_batch s)" "same_ring s (drop_oldest s)"
    "es_bytes (drop_oldest s) = es_bytes s - event_approx_bytes (hd (pending_batch s))"
    "es_dropped (drop_oldest s) = Suc (es_dropped s)" "es_flight (drop_oldest s) = es_flight s"
    "es_flight_bytes (drop_oldest s) = es_flight_bytes s" "es_start (drop_oldest s) \<le> length (es_batch (drop_oldest s))"
proof -
  let ?s1 = "s\<lparr>es_bytes := es_bytes s - event_approx_bytes (es_batch s ! es_start s),
                 es_batch := (es_batch s)[es_start s := no_event], es_start := Suc (es_start s)\<rparr>"
  have hd: "hd (pending_batch s) = es_batch s ! es_start s" using assms by (simp add: pending_batch_def hd_drop_conv_nth)
  have p1: "pending_batch ?s1 = tl (pending_batch s)" using assms by (simp add: pending_batch_def) (simp add: drop_Suc tl_drop)
  have eq: "drop_oldest s = (if max 1 (es_limit s div 4) \<le> es_start ?s1 then compact_batch ?s1 else ?s1)\<lparr>es_dropped := Suc (es_dropped s)\<rparr>"
    by (simp add: drop_oldest_def Let_def compact_facts(4))
  have same: "same_ring s ?s1" "es_start ?s1 \<le> length (es_batch ?s1)" using assms by (simp_all add: same_ring_def)
  have trans: "same_ring ?s1 t \<Longrightarrow> same_ring s t" for t using same(1) by (simp add: same_ring_def)
  show "pending_batch (drop_oldest s) = tl (pending_batch s)"
    using p1 compact_facts(1) [of ?s1] by (simp add: eq pending_batch_def)
  show "same_ring s (drop_oldest s)"
    using trans [OF compact_facts(2) [of ?s1]] same(1) by (simp add: eq same_ring_def)
  show "es_bytes (drop_oldest s) = es_bytes s - event_approx_bytes (hd (pending_batch s))"
    using compact_facts(3) [of ?s1] by (simp add: eq hd)
  show "es_dropped (drop_oldest s) = Suc (es_dropped s)" by (simp add: eq)
  show "es_flight (drop_oldest s) = es_flight s" "es_flight_bytes (drop_oldest s) = es_flight_bytes s"
    using compact_facts(5,6) [of ?s1] by (simp_all add: eq)
  show "es_start (drop_oldest s) \<le> length (es_batch (drop_oldest s))"
    using compact_facts(7) [of ?s1] same(2) by (simp add: eq)
qed

lemma push_batch_facts:
  assumes "queue_ok s"
  shows "pending_batch (push_batch e s) =
      (if es_limit s \<le> length (pending_batch s) then tl (pending_batch s) else pending_batch s) @ [e]"
    "es_dropped (push_batch e s) = (if es_limit s \<le> length (pending_batch s) then Suc (es_dropped s) else es_dropped s)"
    "same_ring s (push_batch e s)" "es_flight (push_batch e s) = es_flight s" "es_flight_bytes (push_batch e s) = es_flight_bytes s"
    "queue_ok (push_batch e s)"
proof -
  let ?full = "es_limit s \<le> length (pending_batch s)"
  define s1 where "s1 = (if ?full then drop_oldest s else s)"
  have pos: "?full \<Longrightarrow> es_start s < length (es_batch s)" using assms pending_length [of s] unfolding queue_ok_def by linarith
  then have ne: "?full \<Longrightarrow> pending_batch s \<noteq> []" by (simp add: pending_batch_def)
  have s1: "pending_batch s1 = (if ?full then tl (pending_batch s) else pending_batch s)" "same_ring s s1"
      "es_dropped s1 = (if ?full then Suc (es_dropped s) else es_dropped s)" "es_flight s1 = es_flight s"
      "es_flight_bytes s1 = es_flight_bytes s" "es_start s1 \<le> length (es_batch s1)"
    using drop_oldest_facts [OF pos] assms by (auto simp: s1_def queue_ok_def)
  have bytes: "es_bytes s1 = events_approx_bytes (pending_batch s1)"
    using drop_oldest_facts(3) [OF pos] ne s1(1) assms by (cases "pending_batch s") (auto simp: s1_def queue_ok_def)
  define s2 where "s2 = s1\<lparr>es_batch := es_batch s1 @ [e], es_bytes := es_bytes s1 + event_approx_bytes e\<rparr>"
  have push: "push_batch e s = (if es_mark s2 \<le> length (es_batch s2) - es_start s2 then s2\<lparr>es_ready := True\<rparr> else s2)"
    unfolding push_batch_def s2_def s1_def pending_length Let_def ..
  have p2: "pending_batch s2 = pending_batch s1 @ [e]" using s1(6) by (simp add: s2_def pending_batch_def)
  have ready: "pending_batch (t\<lparr>es_ready := b\<rparr>) = pending_batch t" for t b by (simp add: pending_batch_def)
  show pend: "pending_batch (push_batch e s) = (if ?full then tl (pending_batch s) else pending_batch s) @ [e]"
    by (simp add: push ready p2 s1(1))
  show "es_dropped (push_batch e s) = (if ?full then Suc (es_dropped s) else es_dropped s)"
    using s1(3) by (simp add: push s2_def)
  show same: "same_ring s (push_batch e s)" using s1(2) by (simp add: push s2_def same_ring_def)
  show "es_flight (push_batch e s) = es_flight s" "es_flight_bytes (push_batch e s) = es_flight_bytes s"
    using s1(4,5) by (simp_all add: push s2_def)
  have "length (pending_batch (push_batch e s)) \<le> es_limit s" using assms unfolding pend by (auto simp: queue_ok_def)
  moreover have "es_start (push_batch e s) \<le> length (es_batch (push_batch e s))" using s1(6) by (simp add: push s2_def)
  moreover have "es_bytes (push_batch e s) = events_approx_bytes (pending_batch (push_batch e s))"
    unfolding pend using bytes s1(1) by (simp add: push s2_def)
  ultimately show "queue_ok (push_batch e s)" using same assms by (simp add: queue_ok_def same_ring_def)
qed

lemma amend_batch_facts:
  assumes "queue_ok s" and id: "\<And>e. qv_id (f e) = qv_id e"
  shows "List.map qv_id (pending_batch (amend_batch P f s)) = List.map qv_id (pending_batch s)" "queue_ok (amend_batch P f s)"
    "same_ring s (amend_batch P f s)" "es_dropped (amend_batch P f s) = es_dropped s" "es_flight (amend_batch P f s) = es_flight s"
    "es_flight_bytes (amend_batch P f s) = es_flight_bytes s"
proof -
  have "List.map qv_id (pending_batch (amend_batch P f s)) = List.map qv_id (pending_batch s) \<and> queue_ok (amend_batch P f s)"
  proof (cases "scan_batch P s")
    case (Some b)
    then have b: "es_start s \<le> b" "b < length (es_batch s)" by (auto simp: scan_batch_def find_Some_iff in_set_conv_nth rev_nth)
    have p: "pending_batch (amend_batch P f s) = (pending_batch s)[b - es_start s := f (es_batch s ! b)]"
      using Some b by (simp add: amend_batch_def pending_batch_def drop_update_swap)
    have nth: "pending_batch s ! (b - es_start s) = es_batch s ! b" using b by (simp add: pending_batch_def)
    have i: "b - es_start s < length (pending_batch s)" using b by (simp add: pending_batch_def)
    have "List.map qv_id (pending_batch (amend_batch P f s)) = List.map qv_id (pending_batch s)"
      using i nth by (simp add: p map_update id) (metis id length_map list_update_id nth_map)
    moreover have "events_approx_bytes (xs[j := x]) = events_approx_bytes xs - event_approx_bytes (xs ! j) + event_approx_bytes x"
      if "j < length xs" for xs j x
      using that by (induction xs arbitrary: j) (auto split: nat.split)
    with i nth have "events_approx_bytes (pending_batch (amend_batch P f s)) =
        events_approx_bytes (pending_batch s) - event_approx_bytes (es_batch s ! b) + event_approx_bytes (f (es_batch s ! b))"
      by (simp add: p)
    with Some b assms(1) p have "queue_ok (amend_batch P f s)" by (simp add: queue_ok_def amend_batch_def)
    ultimately show ?thesis by blast
  qed (simp add: amend_batch_def assms(1))
  then show "List.map qv_id (pending_batch (amend_batch P f s)) = List.map qv_id (pending_batch s)" "queue_ok (amend_batch P f s)" by auto
  show "same_ring s (amend_batch P f s)" "es_dropped (amend_batch P f s) = es_dropped s" "es_flight (amend_batch P f s) = es_flight s"
    "es_flight_bytes (amend_batch P f s) = es_flight_bytes s"
    by (simp_all add: amend_batch_def same_ring_def split: option.split)
qed

lemma claim_batch_facts:
  assumes "queue_ok s" and "claim_batch s = (cs, t)"
  shows "cs @ pending_batch t = pending_batch s" "queue_ok t" "same_ring s t" "es_dropped t = es_dropped s"
    "es_flight t = es_flight s + int (length cs)" "es_flight_bytes t = es_flight_bytes s + events_approx_bytes cs"
    "cs = [] \<longleftrightarrow> pending_batch s = []"
proof -
  define n where "n = min (length (pending_batch s)) (es_write s)"
  define s1 where "s1 = s\<lparr>es_batch := take (es_start s) (es_batch s) @ replicate n no_event @ drop (es_start s + n) (es_batch s),
                        es_start := es_start s + n, es_bytes := es_bytes s - events_approx_bytes (take n (pending_batch s)),
                        es_flight := es_flight s + int n, es_flight_bytes := es_flight_bytes s + events_approx_bytes (take n (pending_batch s))\<rparr>"
  have ok: "es_start s \<le> length (es_batch s)" "es_bytes s = events_approx_bytes (pending_batch s)"
    "length (pending_batch s) \<le> es_limit s" "1 \<le> es_limit s" "1 \<le> es_write s" using assms(1) by (simp_all add: queue_ok_def)
  have cs: "cs = take n (pending_batch s)" and t: "t = (if n = 0 then s else
      if length (es_batch s1) - es_start s1 = 0 \<or> max 1 (es_limit s1 div 4) \<le> es_start s1 then compact_batch s1 else s1)"
    using assms(2) by (auto simp: claim_batch_def n_def [symmetric] s1_def [symmetric] Let_def split: if_splits)
  have n: "n \<le> length (pending_batch s)" "n = 0 \<longleftrightarrow> pending_batch s = []" using ok(5) by (auto simp: n_def min_def split: if_splits)
  have p1: "pending_batch s1 = drop n (pending_batch s)" using ok(1) by (simp add: s1_def pending_batch_def add.commute)
  have start: "es_start s1 \<le> length (es_batch s1)" using ok(1) n(1) by (simp add: s1_def pending_batch_def)
  have same: "same_ring s s1" by (simp add: s1_def same_ring_def)
  have pt: "pending_batch t = drop n (pending_batch s)" using p1 by (simp add: t compact_facts(1))
  show app: "cs @ pending_batch t = pending_batch s" by (simp add: cs pt)
  have sum: "events_approx_bytes (take n (pending_batch s)) + events_approx_bytes (drop n (pending_batch s)) = es_bytes s"
    unfolding ok(2) bytes_simps(3) [symmetric] by simp
  show ring: "same_ring s t" using same compact_facts(2) [of s1] by (auto simp: t same_ring_def)
  have "es_bytes t = events_approx_bytes (pending_batch t)"
    using sum ok(2) unfolding pt by (simp add: t compact_facts(3)) (simp add: s1_def)
  moreover have "es_start t \<le> length (es_batch t)" using start compact_facts(7) [OF start] ok(1) by (simp add: t)
  moreover have "length (pending_batch t) \<le> es_limit s" using ok(3) unfolding pt by simp
  ultimately show "queue_ok t" using ring ok(4,5) by (simp add: queue_ok_def same_ring_def)
  show "es_dropped t = es_dropped s" "es_flight t = es_flight s + int (length cs)"
    "es_flight_bytes t = es_flight_bytes s + events_approx_bytes cs"
    using n(1) by (simp_all add: t cs compact_facts(4-6)) (simp_all add: s1_def)
  show "cs = [] \<longleftrightarrow> pending_batch s = []" using n by (auto simp: cs)
qed

lemma restore_batch_facts:
  assumes "queue_ok s"
  shows "pending_batch (restore_batch cs s) = drop (length cs + length (pending_batch s) - es_limit s) (cs @ pending_batch s)"
    "queue_ok (restore_batch cs s)" "same_ring s (restore_batch cs s)"
    "es_dropped (restore_batch cs s) = es_dropped s + (length cs + length (pending_batch s) - es_limit s)"
    "es_flight (restore_batch cs s) = es_flight s - int (length cs)"
    "es_flight_bytes (restore_batch cs s) = es_flight_bytes s - events_approx_bytes cs"
proof -
  show p: "pending_batch (restore_batch cs s) = drop (length cs + length (pending_batch s) - es_limit s) (cs @ pending_batch s)"
    by (simp add: restore_batch_def pending_batch_def Let_def)
  then have "length (pending_batch (restore_batch cs s)) \<le> es_limit s" by simp
  then show "queue_ok (restore_batch cs s)"
    using assms p by (simp add: queue_ok_def restore_batch_def Let_def)
qed (simp_all add: restore_batch_def same_ring_def Let_def)

section \<open>Bounded windows\<close>

text \<open>
  What the ring and the queue share: a store of bounded size that gives up its oldest entry for a new
  one. Seen as a list it holds the last entries put in.
\<close>

locale bounded_window =
  fixes push :: "'a \<Rightarrow> 's \<Rightarrow> 's"
    and contents :: "'s \<Rightarrow> 'a list"
    and capacity :: "'s \<Rightarrow> nat"
    and ok :: "'s \<Rightarrow> bool"
  assumes push_ok: "ok s \<Longrightarrow> ok (push x s)"
    and push_contents: "ok s \<Longrightarrow>
      contents (push x s) = (if capacity s \<le> length (contents s) then tl (contents s) else contents s) @ [x]"
    and push_capacity: "ok s \<Longrightarrow> capacity (push x s) = capacity s"
    and fits: "ok s \<Longrightarrow> length (contents s) \<le> capacity s \<and> 0 < capacity s"
begin

lemma window_run_ok: "ok s \<Longrightarrow> ok (fold push xs s)"
  by (induction xs arbitrary: s) (simp_all add: push_ok)

lemma run_contents:
  "ok s \<Longrightarrow> contents (fold push xs s) = drop (length (contents s) + length xs - capacity s) (contents s @ xs)"
proof (induction xs arbitrary: s)
  case Nil
  then show ?case using fits [of s] by simp
next
  case (Cons x xs)
  then have ok: "ok (push x s)" by (simp add: push_ok)
  show ?case
  proof (cases "capacity s \<le> length (contents s)")
    case True
    with fits [OF Cons.prems] have full: "length (contents s) = capacity s" "contents s \<noteq> []" by auto
    then obtain c cs where c: "contents s = c # cs" by (cases "contents s") auto
    with full have "capacity s = Suc (length cs)" by simp
    then show ?thesis
      using Cons.IH [OF ok] c by (simp add: push_contents [OF Cons.prems] push_capacity [OF Cons.prems])
  next
    case False
    then show ?thesis
      using Cons.IH [OF ok] by (simp add: push_contents [OF Cons.prems] push_capacity [OF Cons.prems])
  qed
qed

lemma run_fits: "ok s \<Longrightarrow> length (contents (fold push xs s)) \<le> capacity s"
  by (simp add: run_contents)

end

definition ring_ok :: "event_store \<Rightarrow> bool" where
  "ring_ok s \<longleftrightarrow> 0 < es_max s \<and> length (es_ring s) = es_max s \<and> es_head s < es_max s \<and> es_count s \<le> es_max s \<and>
     (es_count s < es_max s \<longrightarrow> es_head s = es_count s)"

definition ring_events :: "event_store \<Rightarrow> stored_event list" where
  "ring_events s = List.map (\<lambda>i. es_ring s ! ((es_head s + es_max s - es_count s + i) mod es_max s)) [0..<es_count s]"

lemma ring_length [simp]: "length (ring_events s) = es_count s"
  by (simp add: ring_events_def)

lemma ring_full:
  assumes "ring_ok s" and "es_count s = es_max s" and "i < es_max s"
  shows "ring_events s ! i = es_ring s ! ((es_head s + i) mod es_max s)"
  using assms by (simp add: ring_events_def)

lemma ring_open:
  assumes "ring_ok s" and "es_count s < es_max s"
  shows "ring_events s = take (es_count s) (es_ring s)"
  using assms by (auto simp: ring_events_def ring_ok_def intro!: nth_equalityI)

lemma push_ring_ok: "ring_ok s \<Longrightarrow> ring_ok (push_ring e s)"
  by (auto simp: ring_ok_def push_ring_def mod_Suc)

lemma push_ring_events:
  assumes ok: "ring_ok s"
  shows "ring_events (push_ring e s) = (if es_max s \<le> es_count s then tl (ring_events s) else ring_events s) @ [e]"
proof (cases "es_count s < es_max s")
  case True
  have h: "es_head s = es_count s" "length (es_ring s) = es_max s" using ok True by (simp_all add: ring_ok_def)
  have "ring_events (push_ring e s) = take (Suc (es_count s)) ((es_ring s)[es_count s := e])"
  proof (rule nth_equalityI)
    fix i assume "i < length (ring_events (push_ring e s))"
    then have i: "i < Suc (es_count s)" using True by (simp add: push_ring_def)
    show "ring_events (push_ring e s) ! i = take (Suc (es_count s)) ((es_ring s)[es_count s := e]) ! i"
    proof (cases "Suc (es_count s) = es_max s")
      case True
      then show ?thesis using i h by (simp add: ring_events_def push_ring_def)
    next
      case False
      then have "Suc (es_count s) < es_max s" using \<open>es_count s < es_max s\<close> by simp
      then show ?thesis using i h by (simp add: ring_events_def push_ring_def del: upt_Suc)
    qed
  qed (use True h in \<open>simp add: push_ring_def\<close>)
  then show ?thesis using True h ring_open [OF ok True] by (simp add: take_Suc_conv_app_nth)
next
  case False
  then have full: "es_count s = es_max s" and len: "length (es_ring s) = es_max s" "es_head s < es_max s" "0 < es_max s"
    using ok by (simp_all add: ring_ok_def)
  have count: "es_count (push_ring e s) = es_max s" "es_max (push_ring e s) = es_max s" using full by (simp_all add: push_ring_def)
  have nth: "ring_events (push_ring e s) ! i = (if Suc i = es_max s then e else ring_events s ! Suc i)" if "i < es_max s" for i
  proof -
    have "ring_events (push_ring e s) ! i = (es_ring s)[es_head s := e] ! ((es_head s + Suc i) mod es_max s)"
      using that ring_full [OF push_ring_ok [OF ok], of e i] count by (simp add: push_ring_def full mod_simps)
    moreover have "(es_head s + Suc i) mod es_max s = es_head s \<longleftrightarrow> Suc i = es_max s"
    proof (cases "es_head s + Suc i < es_max s")
      case False
      then have "(es_head s + Suc i) mod es_max s = es_head s + Suc i - es_max s" using that len by (simp add: mod_if)
      moreover have "es_head s + Suc i - es_max s = es_head s \<longleftrightarrow> Suc i = es_max s" using False by arith
      ultimately show ?thesis by simp
    qed simp
    ultimately show ?thesis
      using that len ring_full [OF ok full, of "Suc i"] by (auto simp: nth_list_update)
  qed
  show ?thesis
  proof (rule nth_equalityI)
    show "length (ring_events (push_ring e s)) = length ((if es_max s \<le> es_count s then tl (ring_events s) else ring_events s) @ [e])"
      using full len(3) count by simp
  next
    fix i assume "i < length (ring_events (push_ring e s))"
    then have i: "i < es_max s" using count by simp
    have "tl (ring_events s) ! i = ring_events s ! Suc i" if "Suc i < es_max s" using that full by (simp add: nth_tl)
    then show "ring_events (push_ring e s) ! i = ((if es_max s \<le> es_count s then tl (ring_events s) else ring_events s) @ [e]) ! i"
      using nth [OF i] i full by (auto simp: nth_append)
  qed
qed

lemma push_ring_max: "es_max (push_ring e s) = es_max s"
  by (simp add: push_ring_def)

lemma ring_fits: "ring_ok s \<Longrightarrow> es_count s \<le> es_max s \<and> 0 < es_max s"
  by (simp add: ring_ok_def)

interpretation recent: bounded_window push_ring ring_events es_max ring_ok
  by unfold_locales (simp_all add: push_ring_ok push_ring_events push_ring_max ring_fits)

lemma queue_fits: "queue_ok s \<Longrightarrow> length (pending_batch s) \<le> es_limit s \<and> 0 < es_limit s"
  by (simp add: queue_ok_def)

lemma push_limit: "queue_ok s \<Longrightarrow> es_limit (push_batch x s) = es_limit s"
  using push_batch_facts(3) [of s x] by (simp add: same_ring_def)

interpretation backlog: bounded_window push_batch pending_batch es_limit queue_ok
  by unfold_locales (simp_all add: push_batch_facts push_limit queue_fits)

end
