(* ===== verification/Event_Rates.thy ===== *)
theory Event_Rates
  imports Event_Store
begin

text \<open>
  The rolling counters of storage/storage.go (AddEvent), storage/stats.go (getStatsAt, GetClientStats) and
  storage/pending.go (the clean-up of idle clients): queries per minute and per hour, over all, per node and
  per client. A window is two arrays of sixty: a counter for each second of a minute, or each minute of an
  hour, and the second or minute it counts. The four maps of a node or client are one map of pairs, since
  they are filled and emptied together. A negative index is a panic, None.
\<close>

section \<open>Windows\<close>

record rate_window =
  rw_counts :: "int list"
  rw_times :: "int list"

definition new_window :: rate_window where
  "new_window = \<lparr>rw_counts = replicate 60 0, rw_times = replicate 60 0\<rparr>"

definition bump_window :: "nat \<Rightarrow> int \<Rightarrow> rate_window \<Rightarrow> rate_window" where
  "bump_window slot stamp w =
     (if rw_times w ! slot \<noteq> stamp then w\<lparr>rw_times := (rw_times w)[slot := stamp], rw_counts := (rw_counts w)[slot := 1]\<rparr>
      else w\<lparr>rw_counts := (rw_counts w)[slot := rw_counts w ! slot + 1]\<rparr>)"

definition window_total :: "int \<Rightarrow> int \<Rightarrow> rate_window \<Rightarrow> int" where
  "window_total width now w = sum_list (List.map (\<lambda>i. if now - rw_times w ! i < width then rw_counts w ! i else 0) [0..<60])"

text \<open>The two arrays of minutes and hours.\<close>

type_synonym rate_pair = "rate_window \<times> rate_window"

definition new_pair :: rate_pair where
  "new_pair = (new_window, new_window)"

definition trunc_rem :: "int \<Rightarrow> int \<Rightarrow> int" where
  "trunc_rem n d = n - trunc_div n d * d"

definition second_slot :: "int \<Rightarrow> nat" where
  "second_slot t = nat (trunc_rem t 60)"

definition minute_start :: "int \<Rightarrow> int" where
  "minute_start t = trunc_div t 60 * 60"

definition minute_slot :: "int \<Rightarrow> nat" where
  "minute_slot t = nat (trunc_rem (trunc_div t 60) 60)"

definition slots_in_range :: "int \<Rightarrow> bool" where
  "slots_in_range t \<longleftrightarrow> 0 \<le> trunc_rem t 60 \<and> 0 \<le> trunc_rem (trunc_div t 60) 60"

definition bump_pair :: "int \<Rightarrow> rate_pair \<Rightarrow> rate_pair" where
  "bump_pair t p = (bump_window (second_slot t) t (fst p), bump_window (minute_slot t) (minute_start t) (snd p))"

section \<open>All the counters\<close>

record event_rates =
  er_all :: rate_pair
  er_nodes :: "(string, rate_pair) gomap"
  er_types :: "(string, int) gomap"
  er_clients :: "(string, rate_pair) gomap"
  er_seen :: "(string, int) gomap"

definition new_rates :: event_rates where
  "new_rates = \<lparr>er_all = new_pair, er_nodes = [], er_types = [], er_clients = [], er_seen = []\<rparr>"

definition max_client_stats :: nat where
  "max_client_stats = 8192"

definition client_stats_evict_fraction :: nat where
  "client_stats_evict_fraction = 8"

definition delete_client_stats :: "string \<Rightarrow> event_rates \<Rightarrow> event_rates" where
  "delete_client_stats c r = r\<lparr>er_seen := gm_del c (er_seen r), er_clients := gm_del c (er_clients r)\<rparr>"

definition evict_client_stats :: "event_rates \<Rightarrow> event_rates" where
  "evict_client_stats r =
     (let everyone = sort_key snd (er_seen r); n = length everyone; evict = max 1 (n div client_stats_evict_fraction);
          overflow = int n - int max_client_stats + 1;
          k = (if int evict < overflow then nat overflow else evict)
      in fold (\<lambda>(c, _). delete_client_stats c) (take (min k n) everyone) r)"

definition node_label :: "stored_event \<Rightarrow> string" where
  "node_label e = (if qv_node e = [] then ''local'' else qv_node e)"

definition count_event :: "stored_event \<Rightarrow> event_rates \<Rightarrow> event_rates option" where
  "count_event e r =
     (let t = qv_time e; node = node_label e; c = qv_client e
      in if \<not> slots_in_range t then None
         else let r1 = r\<lparr>er_all := bump_pair t (er_all r),
                         er_nodes := gm_set node (bump_pair t (case gm_get (er_nodes r) node of None \<Rightarrow> new_pair | Some p \<Rightarrow> p)) (er_nodes r),
                         er_types := gm_set (qv_type e) ((case gm_get (er_types r) (qv_type e) of None \<Rightarrow> 0 | Some n \<Rightarrow> n) + 1) (er_types r)\<rparr>;
                  r2 = (if gm_get (er_clients r1) c = None \<and> max_client_stats \<le> length (er_seen r1) then evict_client_stats r1 else r1)
              in Some (r2\<lparr>er_clients := gm_set c (bump_pair t (case gm_get (er_clients r1) c of None \<Rightarrow> new_pair | Some p \<Rightarrow> p)) (er_clients r2),
                          er_seen := gm_set c t (er_seen r2)\<rparr>))"

fun count_events :: "stored_event list \<Rightarrow> event_rates \<Rightarrow> event_rates option" where
  "count_events [] r = Some r"
| "count_events (e # es) r = (case count_event e r of None \<Rightarrow> None | Some r1 \<Rightarrow> count_events es r1)"

definition cleanup_clients :: "int \<Rightarrow> event_rates \<Rightarrow> event_rates" where
  "cleanup_clients now r =
     fold (\<lambda>(c, seen). if now - 3600 \<le> seen then id else delete_client_stats c) (er_seen r) r"

section \<open>Reading the counters\<close>

definition pair_rates :: "int \<Rightarrow> rate_pair \<Rightarrow> int \<times> int" where
  "pair_rates now p = (window_total 60 now (fst p), window_total 3600 now (snd p))"

text \<open>rpm, rph and the list of nodes in getStatsAt; a node without queries in the hour is left out.\<close>

definition live_rates :: "int \<Rightarrow> event_rates \<Rightarrow> (int \<times> int) \<times> (string, int \<times> int) gomap" where
  "live_rates now r =
     (pair_rates now (er_all r), filter (\<lambda>(n, (rpm, rph)). 0 < rph) (List.map (\<lambda>(n, p). (n, pair_rates now p)) (er_nodes r)))"

definition rpm_history :: "int \<Rightarrow> rate_window \<Rightarrow> int list" where
  "rpm_history now w =
     List.map (\<lambda>i. let j = nat (trunc_rem (now - 59 + int i) 60) in if now - rw_times w ! j < 60 then rw_counts w ! j else 0) [0..<60]"

text \<open>GetClientStats: the rates of a client and its last sixty seconds.\<close>

definition get_client_stats :: "int \<Rightarrow> string \<Rightarrow> event_rates \<Rightarrow> (int \<times> int) \<times> int list" where
  "get_client_stats now c r =
     (case gm_get (er_clients r) c of
        None \<Rightarrow> ((0, 0), replicate 60 0)
      | Some p \<Rightarrow> (pair_rates now p, rpm_history now (fst p)))"

section \<open>A window counts what is recent\<close>

text \<open>
  The contract of a window: a slot for every stamp, and two stamps of one slot that are nearer than the
  width are equal.
\<close>

locale rate_slots =
  fixes slot :: "int \<Rightarrow> nat"
    and width :: int
    and stamp :: "int \<Rightarrow> bool"
  assumes slot_range: "stamp s \<Longrightarrow> slot s < 60"
    and slot_near: "stamp s \<Longrightarrow> stamp t \<Longrightarrow> slot s = slot t \<Longrightarrow> s \<le> t \<Longrightarrow> t - s < width \<Longrightarrow> s = t"
begin

definition window_ok :: "int list \<Rightarrow> rate_window \<Rightarrow> bool" where
  "window_ok ss w \<longleftrightarrow> length (rw_counts w) = 60 \<and> length (rw_times w) = 60 \<and> (\<forall>s \<in> set ss. stamp s) \<and>
     (\<forall>i < 60. rw_counts w ! i = int (length (filter (\<lambda>s. slot s = i \<and> s = rw_times w ! i) ss)) \<and>
        (\<forall>s \<in> set ss. slot s = i \<longrightarrow> s \<le> rw_times w ! i \<and> rw_times w ! i \<in> set ss \<and> slot (rw_times w ! i) = i))"

lemma new_window_ok: "window_ok [] new_window"
  by (simp add: window_ok_def new_window_def)

lemma bump_window_ok:
  assumes ok: "window_ok ss w" and s: "stamp s" and late: "\<forall>t \<in> set ss. t \<le> s"
  shows "window_ok (ss @ [s]) (bump_window (slot s) s w)"
  unfolding window_ok_def
proof (intro conjI allI impI)
  let ?w = "bump_window (slot s) s w"
  have r: "slot s < 60" by (rule slot_range [OF s])
  have len: "length (rw_counts w) = 60" "length (rw_times w) = 60" using ok by (simp_all add: window_ok_def)
  then show "length (rw_counts ?w) = 60" "length (rw_times ?w) = 60" by (simp_all add: bump_window_def)
  show "\<forall>t \<in> set (ss @ [s]). stamp t" using ok s by (simp add: window_ok_def)
  have time: "rw_times ?w ! i = (if i = slot s then s else rw_times w ! i)" if "i < 60" for i
    using that len r by (simp add: bump_window_def nth_list_update)
  fix i :: nat
  assume i: "i < 60"
  have old: "rw_counts w ! i = int (length (filter (\<lambda>t. slot t = i \<and> t = rw_times w ! i) ss))"
    and tops: "\<forall>t \<in> set ss. slot t = i \<longrightarrow> t \<le> rw_times w ! i \<and> rw_times w ! i \<in> set ss \<and> slot (rw_times w ! i) = i"
    using ok i by (simp_all add: window_ok_def)
  show "rw_counts ?w ! i = int (length (filter (\<lambda>t. slot t = i \<and> t = rw_times ?w ! i) (ss @ [s])))"
  proof (cases "i = slot s")
    case False
    then have "rw_counts ?w ! i = rw_counts w ! i" by (simp add: bump_window_def)
    with False old time [OF i] show ?thesis by simp
  next
    case True
    show ?thesis
    proof (cases "rw_times w ! i = s")
      case same: True
      then have "rw_counts ?w ! i = rw_counts w ! i + 1" using True len r by (simp add: bump_window_def)
      with True same old time [OF i] show ?thesis by simp
    next
      case False
      then have "rw_counts ?w ! i = 1" using True len r by (simp add: bump_window_def)
      moreover have "filter (\<lambda>t. slot t = i \<and> t = s) ss = []"
      proof -
        have "t \<noteq> s" if "t \<in> set ss" "slot t = i" for t
          using tops [rule_format, OF that] late False by force
        then show ?thesis by (auto simp: filter_empty_conv)
      qed
      ultimately show ?thesis using True time [OF i] by simp
    qed
  qed
  show "\<forall>t \<in> set (ss @ [s]). slot t = i \<longrightarrow> t \<le> rw_times ?w ! i \<and> rw_times ?w ! i \<in> set (ss @ [s]) \<and> slot (rw_times ?w ! i) = i"
    using tops late time [OF i] by auto
qed

lemma sum_over_slots:
  assumes "\<forall>s \<in> set ss. slot s < 60"
  shows "sum_list (List.map (\<lambda>i. int (length (filter (\<lambda>s. slot s = i \<and> P s) ss))) [0..<60]) = int (length (filter P ss))"
  using assms
proof (induction ss)
  case Nil
  show ?case by (simp add: sum_list_triv)
next
  case (Cons s ss)
  have split: "int (length (filter (\<lambda>t. slot t = i \<and> P t) (s # ss))) =
      int (length (filter (\<lambda>t. slot t = i \<and> P t) ss)) + (if i = slot s then of_bool (P s) else 0)" for i by simp
  have one: "sum_list (List.map (\<lambda>i. if i = slot s then of_bool (P s) else 0 :: int) [0..<60]) = of_bool (P s)"
    using Cons.prems by (simp add: interv_sum_list_conv_sum_set_nat sum.delta del: upt_rec_numeral upt_Suc)
  show ?case
    unfolding split sum_list_addf one using Cons by simp
qed

text \<open>Reading the window: the stamps that are nearer to now than the width, each counted once.\<close>

lemma window_total_exact:
  assumes ok: "window_ok ss w" and now: "\<forall>s \<in> set ss. s \<le> now"
  shows "window_total width now w = int (length (filter (\<lambda>s. now - s < width) ss))"
proof -
  have "(if now - rw_times w ! i < width then rw_counts w ! i else 0) = int (length (filter (\<lambda>s. slot s = i \<and> now - s < width) ss))" if "i < 60" for i
  proof -
    let ?t = "rw_times w ! i"
    have counts: "rw_counts w ! i = int (length (filter (\<lambda>s. slot s = i \<and> s = ?t) ss))"
      and tops: "\<And>s. s \<in> set ss \<Longrightarrow> slot s = i \<Longrightarrow> s \<le> ?t \<and> ?t \<in> set ss \<and> slot ?t = i" and stamps: "\<And>s. s \<in> set ss \<Longrightarrow> stamp s"
      using ok that by (simp_all add: window_ok_def)
    have "slot s = i \<and> now - s < width \<longleftrightarrow> now - ?t < width \<and> slot s = i \<and> s = ?t" if s: "s \<in> set ss" for s
    proof -
      have "s = ?t" if "slot s = i" "now - s < width"
        using tops [OF s that(1)] that stamps [OF s] stamps [of ?t] now by (intro slot_near) auto
      then show ?thesis by auto
    qed
    then have "filter (\<lambda>s. slot s = i \<and> now - s < width) ss = filter (\<lambda>s. now - ?t < width \<and> slot s = i \<and> s = ?t) ss"
      by (intro filter_cong refl) simp
    then show ?thesis using counts by simp
  qed
  then have "window_total width now w = sum_list (List.map (\<lambda>i. int (length (filter (\<lambda>s. slot s = i \<and> now - s < width) ss))) [0..<60])"
    unfolding window_total_def by (intro arg_cong [where f = sum_list] map_cong refl) simp
  moreover have "\<forall>s \<in> set ss. slot s < 60" using ok slot_range by (simp add: window_ok_def)
  ultimately show ?thesis by (simp add: sum_over_slots)
qed

end

section \<open>Seconds and minutes\<close>

lemma trunc_rem_nonneg: "0 \<le> n \<Longrightarrow> 0 < d \<Longrightarrow> trunc_rem n d = n mod d"
  by (simp add: trunc_rem_def trunc_div_nonneg minus_div_mult_eq_mod)

lemma second_slot_nonneg: "0 \<le> t \<Longrightarrow> second_slot t = nat (t mod 60)"
  by (simp add: second_slot_def trunc_rem_nonneg)

lemma minute_nonneg: "0 \<le> t \<Longrightarrow> minute_start t = t div 60 * 60" "0 \<le> t \<Longrightarrow> minute_slot t = nat (t div 60 mod 60)"
  by (simp_all add: minute_start_def minute_slot_def trunc_div_nonneg trunc_rem_nonneg)

definition whole_minute :: "int \<Rightarrow> bool" where
  "whole_minute s \<longleftrightarrow> 0 \<le> s \<and> s mod 60 = 0"

text \<open>Two numbers with the same remainder, nearer than the modulus, are equal.\<close>

lemma near_same_rem:
  fixes a b :: int
  assumes "a mod m = b mod m" and "a \<le> b" and "b - a < m"
  shows "a = b"
proof -
  have "(b - a) mod m = 0" using assms(1) by (metis mod_diff_eq cancel_comm_monoid_add_class.diff_cancel mod_0)
  moreover have "(b - a) mod m = b - a" using assms(2,3) by (intro mod_pos_pos_trivial) simp_all
  ultimately show ?thesis by simp
qed

interpretation seconds: rate_slots second_slot 60 "\<lambda>s. 0 \<le> s"
proof unfold_locales
  fix s t :: int
  assume "0 \<le> s" "0 \<le> t" "second_slot s = second_slot t" "s \<le> t" "t - s < 60"
  then show "s = t" by (intro near_same_rem [of s 60 t]) (simp_all add: second_slot_nonneg nat_eq_iff)
qed (simp add: second_slot_nonneg nat_less_iff)

interpretation minutes: rate_slots minute_slot 3600 whole_minute
proof unfold_locales
  fix s t :: int
  assume s: "whole_minute s" "whole_minute t" "minute_slot s = minute_slot t" "s \<le> t" "t - s < 3600"
  then have "s div 60 mod 60 = t div 60 mod 60" by (simp add: whole_minute_def minute_nonneg nat_eq_iff)
  moreover have "s = 60 * (s div 60)" "t = 60 * (t div 60)" using s(1,2) by (auto simp: whole_minute_def)
  moreover from this s(4,5) have "s div 60 \<le> t div 60" "t div 60 - s div 60 < 60" by linarith+
  ultimately have "s div 60 = t div 60" by (metis near_same_rem)
  then show "s = t" using \<open>s = 60 * (s div 60)\<close> \<open>t = 60 * (t div 60)\<close> by simp
qed (simp add: whole_minute_def minute_nonneg nat_less_iff)

section \<open>All counters count what is recent\<close>

definition pair_ok :: "int list \<Rightarrow> rate_pair \<Rightarrow> bool" where
  "pair_ok ts p \<longleftrightarrow> seconds.window_ok ts (fst p) \<and> minutes.window_ok (List.map minute_start ts) (snd p)"

lemma minute_start_facts: "0 \<le> t \<Longrightarrow> whole_minute (minute_start t)" "0 \<le> t \<Longrightarrow> minute_slot (minute_start t) = minute_slot t"
  "0 \<le> s \<Longrightarrow> s \<le> t \<Longrightarrow> minute_start s \<le> minute_start t" "0 \<le> t \<Longrightarrow> minute_start t \<le> t"
proof -
  show "0 \<le> t \<Longrightarrow> whole_minute (minute_start t)" by (simp add: whole_minute_def minute_nonneg pos_imp_zdiv_nonneg_iff)
  show "0 \<le> t \<Longrightarrow> minute_slot (minute_start t) = minute_slot t" by (simp add: minute_nonneg pos_imp_zdiv_nonneg_iff)
  show "0 \<le> s \<Longrightarrow> s \<le> t \<Longrightarrow> minute_start s \<le> minute_start t" by (simp add: minute_nonneg zdiv_mono1)
  show "0 \<le> t \<Longrightarrow> minute_start t \<le> t" by (simp add: minute_nonneg div_times_less_eq_dividend)
qed

lemma new_pair_ok: "pair_ok [] new_pair"
  by (simp add: pair_ok_def new_pair_def seconds.new_window_ok minutes.new_window_ok)

lemma bump_pair_ok:
  assumes "pair_ok ts p" and "0 \<le> t" and "\<forall>s \<in> set ts. 0 \<le> s \<and> s \<le> t"
  shows "pair_ok (ts @ [t]) (bump_pair t p)"
proof -
  have "seconds.window_ok (ts @ [t]) (fst (bump_pair t p))"
    using assms by (auto simp: pair_ok_def bump_pair_def intro: seconds.bump_window_ok)
  moreover have "minutes.window_ok (List.map minute_start ts @ [minute_start t]) (bump_window (minute_slot (minute_start t)) (minute_start t) (snd p))"
    using assms by (intro minutes.bump_window_ok) (auto simp: pair_ok_def minute_start_facts)
  ultimately show ?thesis using assms(2) by (simp add: pair_ok_def bump_pair_def minute_start_facts)
qed

definition recent_counts :: "int \<Rightarrow> int list \<Rightarrow> int \<times> int" where
  "recent_counts now ts = (int (length (filter (\<lambda>t. now - t < 60) ts)), int (length (filter (\<lambda>t. now - minute_start t < 3600) ts)))"

lemma pair_rates_exact:
  assumes "pair_ok ts p" and "\<forall>t \<in> set ts. 0 \<le> t \<and> t \<le> now"
  shows "pair_rates now p = recent_counts now ts"
proof -
  have "minute_start t \<le> now" if "t \<in> set ts" for t using minute_start_facts(4) [of t] assms(2) that by force
  then show ?thesis
    using assms minutes.window_total_exact [of "List.map minute_start ts" "snd p" now]
    by (simp add: pair_rates_def recent_counts_def pair_ok_def seconds.window_total_exact filter_map o_def)
qed

definition node_times :: "string \<Rightarrow> stored_event list \<Rightarrow> int list" where
  "node_times node es = List.map qv_time (filter (\<lambda>e. node_label e = node) es)"

definition rates_ok :: "stored_event list \<Rightarrow> event_rates \<Rightarrow> bool" where
  "rates_ok es r \<longleftrightarrow> pair_ok (List.map qv_time es) (er_all r) \<and> gm_ok (er_nodes r) \<and>
     (\<forall>n. case gm_get (er_nodes r) n of None \<Rightarrow> node_times n es = [] | Some p \<Rightarrow> pair_ok (node_times n es) p) \<and>
     gm_ok (er_clients r) \<and> gm_ok (er_seen r) \<and> set (gm_keys (er_clients r)) = set (gm_keys (er_seen r)) \<and> length (er_clients r) \<le> max_client_stats"

text \<open>Clients: the keys of the two maps stay equal, and an eviction makes room.\<close>

definition clients_ok :: "event_rates \<Rightarrow> bool" where
  "clients_ok r \<longleftrightarrow> gm_ok (er_clients r) \<and> gm_ok (er_seen r) \<and> set (gm_keys (er_clients r)) = set (gm_keys (er_seen r))"

lemma clients_length: "clients_ok r \<Longrightarrow> length (er_clients r) = length (er_seen r)"
  unfolding clients_ok_def by (metis distinct_card length_map)

lemma delete_client_facts [simp]: "er_all (delete_client_stats c r) = er_all r" "er_nodes (delete_client_stats c r) = er_nodes r"
  "er_types (delete_client_stats c r) = er_types r"
  by (simp_all add: delete_client_stats_def)

lemma gm_keys_del_image: "fst ` set (gm_del c m) = fst ` set m - {c}"
  using gm_keys_del [of c m] by simp

lemma delete_client_keys: "fst ` set (er_clients (delete_client_stats c r)) = fst ` set (er_clients r) - {c}"
  by (simp add: delete_client_stats_def gm_keys_del_image)

lemma delete_client_ok: "clients_ok r \<Longrightarrow> clients_ok (delete_client_stats c r)"
  by (simp add: clients_ok_def delete_client_stats_def gm_keys_del_image)

lemma delete_clients:
  fixes xs :: "(string \<times> int) list"
  defines "go \<equiv> fold (\<lambda>(c, _). delete_client_stats c) xs"
  shows "clients_ok r \<Longrightarrow> clients_ok (go r)" and "er_all (go r) = er_all r" and "er_nodes (go r) = er_nodes r"
  unfolding go_def by (induction xs arbitrary: r) (simp_all add: delete_client_ok split_beta)

lemma delete_clients_keys: "fst ` set (er_clients (fold (\<lambda>(c, _). delete_client_stats c) xs r)) = fst ` set (er_clients r) - fst ` set xs"
proof (induction xs arbitrary: r)
  case (Cons x xs)
  have "fst ` set (er_clients r) - {fst x} - fst ` set xs = fst ` set (er_clients r) - fst ` set (x # xs)" by (simp add: Diff_insert2 [symmetric])
  with Cons show ?case by (simp add: split_beta delete_client_keys)
qed simp

lemma evict_facts:
  assumes ok: "clients_ok r"
  shows "clients_ok (evict_client_stats r)" and "er_all (evict_client_stats r) = er_all r" and "er_nodes (evict_client_stats r) = er_nodes r"
    and "set (gm_keys (er_clients (evict_client_stats r))) \<subseteq> set (gm_keys (er_clients r))"
    and "length (er_clients r) \<le> max_client_stats \<Longrightarrow> er_clients r \<noteq> [] \<Longrightarrow> length (er_clients (evict_client_stats r)) < max_client_stats"
proof -
  define n where "n = length (er_seen r)"
  define evict where "evict = max 1 (n div client_stats_evict_fraction)"
  define k where "k = (if int evict < int n - int max_client_stats + 1 then nat (int n - int max_client_stats + 1) else evict)"
  define gone where "gone = take (min k n) (sort_key snd (er_seen r))"
  have e: "evict_client_stats r = fold (\<lambda>(c, _). delete_client_stats c) gone r"
    by (simp add: evict_client_stats_def Let_def gone_def k_def evict_def n_def)
  show "clients_ok (evict_client_stats r)" and "er_all (evict_client_stats r) = er_all r" and "er_nodes (evict_client_stats r) = er_nodes r"
    and "set (gm_keys (er_clients (evict_client_stats r))) \<subseteq> set (gm_keys (er_clients r))"
    unfolding e using ok by (simp_all add: delete_clients delete_clients_keys)
  assume small: "length (er_clients r) \<le> max_client_stats" and some: "er_clients r \<noteq> []"
  have n1: "n = length (er_clients r)" using clients_length [OF ok] by (simp add: n_def)
  have n: "n = length (er_clients r)" "0 < n" using n1 some by simp_all
  have k: "0 < min k n" using n(2) by (auto simp: k_def evict_def)
  have sub: "set gone \<subseteq> set (er_seen r)" using set_take_subset [of "min k n" "sort_key snd (er_seen r)"] by (simp add: gone_def)
  from sub obtain c t where "(c, t) \<in> set gone" "(c, t) \<in> set (er_seen r)"
  proof -
    have "length gone = min k n" by (simp add: gone_def n_def)
    with k have "gone \<noteq> []" by auto
    with sub that show ?thesis by (cases gone) auto
  qed
  then have c: "c \<in> fst ` set gone" "c \<in> set (gm_keys (er_clients r))" using ok by (force simp: clients_ok_def)+
  have "card (set (gm_keys (er_clients (evict_client_stats r)))) < card (set (gm_keys (er_clients r)))"
    unfolding e using c by (intro psubset_card_mono) (auto simp: delete_clients_keys simp del: image_iff)
  moreover have "clients_ok (evict_client_stats r)" unfolding e by (rule delete_clients(1) [OF ok])
  ultimately have "length (er_clients (evict_client_stats r)) < length (er_clients r)"
    using ok unfolding clients_ok_def by (metis distinct_card length_map)
  with small show "length (er_clients (evict_client_stats r)) < max_client_stats" by simp
qed

lemma node_times_snoc: "node_times n (es @ [e]) = (if node_label e = n then node_times n es @ [qv_time e] else node_times n es)"
  by (simp add: node_times_def)

lemma count_event_ok:
  assumes ok: "rates_ok es r" and t: "0 \<le> qv_time e" and late: "\<forall>x \<in> set es. 0 \<le> qv_time x \<and> qv_time x \<le> qv_time e"
  shows "\<exists>r'. count_event e r = Some r' \<and> rates_ok (es @ [e]) r'"
proof -
  let ?t = "qv_time e" and ?n = "node_label e" and ?c = "qv_client e"
  have range: "slots_in_range ?t" using t by (simp add: slots_in_range_def trunc_rem_nonneg trunc_div_nonneg pos_imp_zdiv_nonneg_iff)
  define r1 where "r1 = r\<lparr>er_all := bump_pair ?t (er_all r),
      er_nodes := gm_set ?n (bump_pair ?t (case gm_get (er_nodes r) ?n of None \<Rightarrow> new_pair | Some p \<Rightarrow> p)) (er_nodes r),
      er_types := gm_set (qv_type e) ((case gm_get (er_types r) (qv_type e) of None \<Rightarrow> 0 | Some n \<Rightarrow> n) + 1) (er_types r)\<rparr>"
  define r2 where "r2 = (if gm_get (er_clients r1) ?c = None \<and> max_client_stats \<le> length (er_seen r1) then evict_client_stats r1 else r1)"
  define r3 where "r3 = r2\<lparr>er_clients := gm_set ?c (bump_pair ?t (case gm_get (er_clients r1) ?c of None \<Rightarrow> new_pair | Some p \<Rightarrow> p)) (er_clients r2),
      er_seen := gm_set ?c ?t (er_seen r2)\<rparr>"
  have e: "count_event e r = Some r3" using range by (simp add: count_event_def Let_def r1_def r2_def r3_def)
  have all: "pair_ok (List.map qv_time (es @ [e])) (bump_pair ?t (er_all r))"
    using ok late t bump_pair_ok [of "List.map qv_time es" "er_all r" ?t] by (simp add: rates_ok_def)
  have node: "pair_ok (node_times ?n es) (case gm_get (er_nodes r) ?n of None \<Rightarrow> new_pair | Some p \<Rightarrow> p)"
    using ok new_pair_ok by (auto simp: rates_ok_def split: option.split dest!: spec [of _ ?n])
  have "\<forall>s \<in> set (node_times ?n es). 0 \<le> s \<and> s \<le> ?t" using late by (auto simp: node_times_def)
  then have node': "pair_ok (node_times ?n (es @ [e])) (bump_pair ?t (case gm_get (er_nodes r) ?n of None \<Rightarrow> new_pair | Some p \<Rightarrow> p))"
    using bump_pair_ok [OF node t] by (simp add: node_times_snoc)
  have c1: "clients_ok r1" and small: "length (er_clients r1) \<le> max_client_stats" using ok by (simp_all add: clients_ok_def rates_ok_def r1_def)
  have c2: "clients_ok r2" and frame: "er_all r2 = er_all r1" "er_nodes r2 = er_nodes r1"
    and room: "(if gm_get (er_clients r2) ?c = None then Suc (length (er_clients r2)) else length (er_clients r2)) \<le> max_client_stats"
  proof -
    have len: "length (er_clients r1) = length (er_seen r1)" by (rule clients_length [OF c1])
    have "clients_ok r2 \<and> er_all r2 = er_all r1 \<and> er_nodes r2 = er_nodes r1 \<and>
      (if gm_get (er_clients r2) ?c = None then Suc (length (er_clients r2)) else length (er_clients r2)) \<le> max_client_stats"
    proof (cases "gm_get (er_clients r1) ?c = None \<and> max_client_stats \<le> length (er_seen r1)")
      case full: True
      then have r2: "r2 = evict_client_stats r1" by (simp add: r2_def)
      have some: "er_clients r1 \<noteq> []" using full len by (auto simp: max_client_stats_def)
      note v = evict_facts [OF c1]
      have "length (er_clients r2) < max_client_stats" unfolding r2 using v(5) small some by simp
      with v(1-3) show ?thesis by (simp add: r2)
    next
      case False
      then have "r2 = r1" unfolding r2_def by (rule if_not_P)
      with False c1 small len show ?thesis by auto
    qed
    then show "clients_ok r2" and "er_all r2 = er_all r1" "er_nodes r2 = er_nodes r1"
      and "(if gm_get (er_clients r2) ?c = None then Suc (length (er_clients r2)) else length (er_clients r2)) \<le> max_client_stats"
      by simp_all
  qed
  have c3: "clients_ok r3" using c2 unfolding clients_ok_def r3_def by (simp add: gm_keys_set [simplified])
  have "length (er_clients r3) \<le> max_client_stats"
    using room by (auto simp: r3_def gm_len_set map_of_eq_None_iff split: if_splits)
  moreover have "er_all r3 = bump_pair ?t (er_all r)" and nodes: "er_nodes r3 = gm_set ?n (bump_pair ?t (case gm_get (er_nodes r) ?n of None \<Rightarrow> new_pair | Some p \<Rightarrow> p)) (er_nodes r)"
    by (simp_all add: r3_def frame r1_def)
  moreover have "case gm_get (er_nodes r3) n of None \<Rightarrow> node_times n (es @ [e]) = [] | Some p \<Rightarrow> pair_ok (node_times n (es @ [e])) p" for n
  proof (cases "n = ?n")
    case True
    with node' show ?thesis by (simp add: nodes gomap_simps)
  next
    case False
    then have "gm_get (er_nodes r3) n = gm_get (er_nodes r) n" "node_times n (es @ [e]) = node_times n es" by (auto simp: nodes gomap_simps node_times_snoc)
    then show ?thesis using ok by (cases "gm_get (er_nodes r) n") (auto simp: rates_ok_def dest!: spec [of _ n])
  qed
  moreover have "gm_ok (er_nodes r3)" using ok by (simp add: nodes rates_ok_def)
  ultimately show ?thesis using e all c3 unfolding rates_ok_def clients_ok_def by auto
qed

lemma count_events_ok:
  assumes "rates_ok es r" and "sorted (List.map qv_time (es @ fs))" and "\<forall>x \<in> set (es @ fs). 0 \<le> qv_time x"
  shows "\<exists>r'. count_events fs r = Some r' \<and> rates_ok (es @ fs) r'"
  using assms
proof (induction fs arbitrary: es r)
  case (Cons f fs)
  have "\<forall>x \<in> set es. 0 \<le> qv_time x \<and> qv_time x \<le> qv_time f" using Cons.prems(2,3) by (auto simp: sorted_append)
  then obtain r1 where r1: "count_event f r = Some r1" "rates_ok (es @ [f]) r1"
    using count_event_ok [OF Cons.prems(1), of f] Cons.prems(3) by auto
  have "\<exists>r'. count_events fs r1 = Some r' \<and> rates_ok ((es @ [f]) @ fs) r'"
    using Cons.prems by (intro Cons.IH [OF r1(2)]) simp_all
  with r1 show ?case by simp
qed simp

lemma gm_get_filter: "gm_ok m \<Longrightarrow> gm_get (filter (\<lambda>p. P (snd p)) m) k = (case gm_get m k of None \<Rightarrow> None | Some v \<Rightarrow> if P v then Some v else None)"
  by (induction m) (auto simp: map_of_eq_None_iff split: option.split)

text \<open>C24: The live rates of the dashboard are exact: when events arrive in the order of their times, the
  counters never fail, the rates per minute and per hour, over all and of every node, are the numbers of
  events of the last sixty seconds and of the minutes that began in the last hour, a node is listed
  exactly when it has such events, and at most 8192 clients are tracked.\<close>

theorem live_rates_exact:
  assumes "sorted (List.map qv_time es)" and "\<forall>e \<in> set es. 0 \<le> qv_time e \<and> qv_time e \<le> now"
  shows "\<exists>r. count_events es new_rates = Some r \<and> fst (live_rates now r) = recent_counts now (List.map qv_time es) \<and>
    (\<forall>n. gm_get (snd (live_rates now r)) n =
      (let c = recent_counts now (node_times n es) in if 0 < snd c then Some c else None)) \<and> length (er_clients r) \<le> 8192"
proof -
  have "rates_ok [] new_rates" by (simp add: rates_ok_def new_rates_def new_pair_ok node_times_def)
  then obtain r where r: "count_events es new_rates = Some r" and ok: "rates_ok es r"
    using count_events_ok [of "[]" new_rates es] assms by auto
  have "gm_get (snd (live_rates now r)) n = (let c = recent_counts now (node_times n es) in if 0 < snd c then Some c else None)" for n
  proof -
    have "gm_ok (List.map (\<lambda>(n, p). (n, pair_rates now p)) (er_nodes r))"
      using ok by (simp add: rates_ok_def o_def split_beta)
    then have "gm_get (snd (live_rates now r)) n =
        (case gm_get (List.map (\<lambda>(n, p). (n, pair_rates now p)) (er_nodes r)) n of None \<Rightarrow> None | Some c \<Rightarrow> if 0 < snd c then Some c else None)"
      using gm_get_filter [of "List.map (\<lambda>(n, p). (n, pair_rates now p)) (er_nodes r)" "\<lambda>c. 0 < snd c" n] by (simp add: live_rates_def case_prod_beta')
    also have "gm_get (List.map (\<lambda>(n, p). (n, pair_rates now p)) (er_nodes r)) n = map_option (pair_rates now) (gm_get (er_nodes r) n)"
      by (simp add: map_of_map)
    finally have get: "gm_get (snd (live_rates now r)) n =
      (case map_option (pair_rates now) (gm_get (er_nodes r) n) of None \<Rightarrow> None | Some c \<Rightarrow> if 0 < snd c then Some c else None)" .
    show ?thesis
    proof (cases "gm_get (er_nodes r) n")
      case None
      then have "node_times n es = []" using ok by (auto simp: rates_ok_def dest!: spec [of _ n])
      with None show ?thesis unfolding get by (simp add: recent_counts_def)
    next
      case (Some p)
      then have "pair_ok (node_times n es) p" using ok by (auto simp: rates_ok_def dest!: spec [of _ n])
      moreover have "\<forall>t \<in> set (node_times n es). 0 \<le> t \<and> t \<le> now" using assms(2) by (auto simp: node_times_def)
      ultimately have "pair_rates now p = recent_counts now (node_times n es)" by (rule pair_rates_exact)
      with Some show ?thesis unfolding get by (simp add: Let_def)
    qed
  qed
  moreover have "fst (live_rates now r) = recent_counts now (List.map qv_time es)"
    using ok assms(2) by (simp add: live_rates_def rates_ok_def pair_rates_exact)
  moreover have "length (er_clients r) \<le> 8192" using ok by (simp add: rates_ok_def max_client_stats_def)
  ultimately show ?thesis using r by blast
qed

theorem live_rates_exact_witness:
  "\<exists>r. count_events [no_event\<lparr>qv_time := 100\<rparr>, no_event\<lparr>qv_time := 130\<rparr>] new_rates = Some r \<and> fst (live_rates 170 r) = (1, 2)"
  using live_rates_exact [of "[no_event\<lparr>qv_time := 100\<rparr>, no_event\<lparr>qv_time := 130\<rparr>]" 170]
  by (auto simp: recent_counts_def minute_nonneg)

text \<open>An event that comes late, as from the backlog of an agent, resets the counter of a later second.\<close>

lemma late_event_resets_rate:
  "window_total 60 120 (bump_window (second_slot 60) 60 (bump_window (second_slot 120) 120 (bump_window (second_slot 120) 120 new_window))) = 0"
  by code_simp

end
