(* ===== verification/Event_Archive.thy ===== *)
theory Event_Archive
  imports Event_Store "HOL-Library.Multiset"
begin

text \<open>
  Runs of the event store: writers that add and amend events, an archiver that claims, commits and
  restores batches, in any interleaving of their critical sections (storage/storage.go, archive.go).
\<close>

section \<open>What an amendment keeps\<close>

definition keeps_events :: "event_store \<Rightarrow> event_store \<Rightarrow> bool" where
  "keeps_events s t \<longleftrightarrow> es_max t = es_max s \<and> es_threshold t = es_threshold s \<and> es_persistent t = es_persistent s \<and> es_limit t = es_limit s \<and>
     es_mark t = es_mark s \<and> es_write t = es_write s \<and> es_head t = es_head s \<and> es_count t = es_count s \<and> es_ids t = es_ids s \<and>
     es_dropped t = es_dropped s \<and> es_flight t = es_flight s \<and> es_flight_bytes t = es_flight_bytes s \<and>
     List.map qv_id (es_ring t) = List.map qv_id (es_ring s) \<and>
     List.map qv_id (pending_batch t) = List.map qv_id (pending_batch s) \<and> (queue_ok s \<longrightarrow> queue_ok t)"

lemma keeps_refl [simp]: "keeps_events s s"
  by (simp add: keeps_events_def)

lemma amended:
  assumes "queue_ok s" and "\<And>b. qv_id (f b) = qv_id b" and "qv_id e = qv_id (es_ring s ! i)"
  shows "keeps_events s (amend_batch P f (s\<lparr>es_ring := (es_ring s)[i := e]\<rparr>))"
proof -
  let ?s = "s\<lparr>es_ring := (es_ring s)[i := e]\<rparr>"
  have pend: "pending_batch ?s = pending_batch s" by (simp add: pending_batch_def)
  with assms(1) have ok: "queue_ok ?s" by (simp add: queue_ok_def)
  have ring: "List.map qv_id ((es_ring s)[i := e]) = List.map qv_id (es_ring s)"
    by (cases "i < length (es_ring s)")
      (simp_all add: map_update assms(3) list_update_same_conv list_update_beyond)
  show ?thesis
    using amend_batch_facts [OF ok assms(2), where P = P] pend ring assms(1) by (simp add: keeps_events_def same_ring_def)
qed

lemma update_event_keeps: "queue_ok s \<Longrightarrow> keeps_events s (snd (update_event node domain latency up rcode s))"
  by (auto simp: update_event_def Let_def intro!: amended split: option.split)

lemma set_blocked_keeps: "queue_ok s \<Longrightarrow> keeps_events s (snd (set_blocked node domain s))"
  by (auto simp: set_blocked_def intro!: amended split: option.split)

lemma set_hostname_keeps: "queue_ok s \<Longrightarrow> keeps_events s (snd (set_client_hostname node client h s))"
  by (auto simp: set_client_hostname_def intro!: amended split: option.split)

lemma set_dnssec_keeps: "queue_ok s \<Longrightarrow> keeps_events s (set_dnssec node domain r s)"
  by (auto simp: set_dnssec_def intro!: amended split: option.split)

lemma ring_ids: "ring_ok s \<Longrightarrow> List.map qv_id (ring_events s) =
    List.map (\<lambda>i. List.map qv_id (es_ring s) ! ((es_head s + es_max s - es_count s + i) mod es_max s)) [0..<es_count s]"
  by (auto simp: ring_events_def ring_ok_def)

lemma keeps_ring:
  assumes "keeps_events s t" and "ring_ok s"
  shows "ring_ok t" "List.map qv_id (ring_events t) = List.map qv_id (ring_events s)"
proof -
  have "length (es_ring t) = length (es_ring s)" using assms(1) by (metis keeps_events_def length_map)
  with assms show "ring_ok t" by (simp add: ring_ok_def keeps_events_def)
  with assms show "List.map qv_id (ring_events t) = List.map qv_id (ring_events s)" by (simp add: ring_ids keeps_events_def)
qed

section \<open>Steps\<close>

text \<open>Events between the two critical sections of AddEvent wait; one batch at most is with the archiver.\<close>

record archive_run =
  ar_store :: event_store
  ar_waiting :: "stored_event list"
  ar_claimed :: "stored_event list"
  ar_rows :: "stored_event list"

datatype store_op =
    RingAdd stored_event
  | QueueAdd nat
  | Answered string string rat string string
  | Blocked string string
  | Hostname string string string
  | Dnssec string string string
  | Claim
  | Commit
  | Restore

fun archive_op :: "store_op \<Rightarrow> archive_run \<Rightarrow> archive_run" where
  "archive_op (RingAdd e0) r =
     (case ring_event e0 (ar_store r) of (e, s) \<Rightarrow> r\<lparr>ar_store := s, ar_waiting := (if es_persistent s then ar_waiting r @ [e] else ar_waiting r)\<rparr>)"
| "archive_op (QueueAdd n) r =
     (if n < length (ar_waiting r)
      then r\<lparr>ar_store := push_batch (ar_waiting r ! n) (ar_store r), ar_waiting := take n (ar_waiting r) @ drop (Suc n) (ar_waiting r)\<rparr>
      else r)"
| "archive_op (Answered node domain latency up rcode) r = r\<lparr>ar_store := snd (update_event node domain latency up rcode (ar_store r))\<rparr>"
| "archive_op (Blocked node domain) r = r\<lparr>ar_store := snd (set_blocked node domain (ar_store r))\<rparr>"
| "archive_op (Hostname node client h) r = r\<lparr>ar_store := snd (set_client_hostname node client h (ar_store r))\<rparr>"
| "archive_op (Dnssec node domain v) r = r\<lparr>ar_store := set_dnssec node domain v (ar_store r)\<rparr>"
| "archive_op Claim r =
     (if ar_claimed r \<noteq> [] then r
      else case claim_batch (ar_store r) of (cs, s) \<Rightarrow> r\<lparr>ar_store := s, ar_claimed := cs\<rparr>)"
| "archive_op Commit r =
     r\<lparr>ar_store := commit_batch (ar_claimed r) (ar_store r), ar_claimed := [], ar_rows := ar_rows r @ ar_claimed r\<rparr>"
| "archive_op Restore r =
     (if ar_claimed r = [] then r
      else r\<lparr>ar_store := restore_batch (ar_claimed r) (ar_store r), ar_claimed := []\<rparr>)"

definition new_run :: "event_store \<Rightarrow> archive_run" where
  "new_run s = \<lparr>ar_store = s, ar_waiting = [], ar_claimed = [], ar_rows = []\<rparr>"

text \<open>The numbers of the events that are somewhere: archived, being written, queued, about to be queued.\<close>

definition kept_events :: "archive_run \<Rightarrow> stored_event list" where
  "kept_events r = ar_rows r @ ar_claimed r @ pending_batch (ar_store r) @ ar_waiting r"

definition kept_ids :: "archive_run \<Rightarrow> string multiset" where
  "kept_ids r = image_mset qv_id (mset (kept_events r))"

definition all_ids :: "nat \<Rightarrow> string multiset" where
  "all_ids n = mset (List.map show_nat [1..<Suc n])"

definition last_ids :: "nat \<Rightarrow> nat \<Rightarrow> string list" where
  "last_ids n c = List.map show_nat [Suc n - c..<Suc n]"

lemma all_ids_Suc: "all_ids (Suc n) = add_mset (show_nat (Suc n)) (all_ids n)"
  by (simp add: all_ids_def)

definition archive_inv :: "archive_run \<Rightarrow> bool" where
  "archive_inv r \<longleftrightarrow> (let s = ar_store r in
     ring_ok s \<and> queue_ok s \<and> es_count s = min (es_ids s) (es_max s) \<and>
     List.map qv_id (ring_events s) = last_ids (es_ids s) (es_count s) \<and>
     es_flight s = int (length (ar_claimed r)) \<and> es_flight_bytes s = events_approx_bytes (ar_claimed r) \<and>
     kept_ids r \<subseteq># all_ids (es_ids s) \<and>
     (es_persistent s \<longrightarrow> size (kept_ids r) + es_dropped s = es_ids s))"

lemma ring_event_store:
  "ring_event e0 s = (e, t) \<Longrightarrow> e = e0\<lparr>qv_id := show_nat (Suc (es_ids s))\<rparr> \<and> t = push_ring e (s\<lparr>es_ids := Suc (es_ids s)\<rparr>)"
  by (auto simp: ring_event_def Let_def)

lemma push_ids:
  assumes "List.map qv_id es = last_ids n c" and "c \<le> n" and "0 < c" and "qv_id e = show_nat (Suc n)"
  shows "List.map qv_id (tl es @ [e]) = last_ids (Suc n) c"
proof -
  have "List.map qv_id (tl es) = List.map show_nat (tl [Suc n - c..<Suc n])"
    using arg_cong [OF assms(1) [unfolded last_ids_def], of tl] by (simp only: map_tl)
  also have "tl [Suc n - c..<Suc n] = [Suc (Suc n) - c..<Suc n]" using assms(2) by (simp add: tl_upt Suc_diff_le del: upt_Suc)
  finally have tl: "List.map qv_id (tl es) = List.map show_nat [Suc (Suc n) - c..<Suc n]" .
  have "[Suc (Suc n) - c..<Suc (Suc n)] = [Suc (Suc n) - c..<Suc n] @ [Suc n]" using assms(3) by (intro upt_Suc_append) simp
  with tl assms(4) show ?thesis by (simp add: last_ids_def)
qed

lemma grow_ids:
  assumes "List.map qv_id es = last_ids n c" and "qv_id e = show_nat (Suc n)"
  shows "List.map qv_id (es @ [e]) = last_ids (Suc n) (Suc c)"
proof -
  have "[Suc (Suc n) - Suc c..<Suc (Suc n)] = [Suc n - c..<Suc n] @ [Suc n]" by (simp add: upt_Suc_append)
  with assms show ?thesis by (simp add: last_ids_def del: upt_Suc)
qed

lemma ring_event_inv:
  assumes "archive_inv r"
  shows "archive_inv (archive_op (RingAdd e0) r)"
proof -
  let ?s = "ar_store r" and ?e = "e0\<lparr>qv_id := show_nat (Suc (es_ids (ar_store r)))\<rparr>"
  let ?t = "push_ring ?e (?s\<lparr>es_ids := Suc (es_ids ?s)\<rparr>)"
  have cnt: "es_count ?s = min (es_ids ?s) (es_max ?s)" using assms by (simp add: archive_inv_def Let_def)
  have inv: "ring_ok ?s" "queue_ok ?s" "es_count ?s \<le> es_ids ?s"
     "List.map qv_id (ring_events ?s) = last_ids (es_ids ?s) (es_count ?s)"
     "es_flight ?s = int (length (ar_claimed r))" "es_flight_bytes ?s = events_approx_bytes (ar_claimed r)"
     "kept_ids r \<subseteq># all_ids (es_ids ?s)"
     "es_persistent ?s \<Longrightarrow> size (kept_ids r) + es_dropped ?s = es_ids ?s"
    using assms by (simp_all only: archive_inv_def Let_def min.cobounded1)
  have ok: "ring_ok (?s\<lparr>es_ids := Suc (es_ids ?s)\<rparr>)" using inv(1) by (simp add: ring_ok_def)
  have ring: "ring_events (?s\<lparr>es_ids := Suc (es_ids ?s)\<rparr>) = ring_events ?s" by (simp add: ring_events_def)
  have t: "archive_op (RingAdd e0) r = r\<lparr>ar_store := ?t, ar_waiting := (if es_persistent ?s then ar_waiting r @ [?e] else ar_waiting r)\<rparr>"
    by (simp add: ring_event_def Let_def push_ring_def)
  have max: "0 < es_max ?s" "es_count ?s \<le> es_max ?s" using inv(1) by (simp_all add: ring_ok_def)
  have ids: "List.map qv_id (ring_events ?t) = last_ids (es_ids ?t) (es_count ?t)"
  proof (cases "es_max ?s \<le> es_count ?s")
    case True
    then have c: "es_count ?t = es_count ?s" "0 < es_count ?s" using max by (simp_all add: push_ring_def)
    have ev: "ring_events ?t = tl (ring_events ?s) @ [?e]" using push_ring_events [OF ok, of ?e] True by (simp add: ring)
    have n: "es_ids ?t = Suc (es_ids ?s)" by (simp add: push_ring_def)
    show ?thesis unfolding ev n c(1) by (rule push_ids [OF inv(4,3) c(2)]) simp
  next
    case False
    have ev: "ring_events ?t = ring_events ?s @ [?e]" using push_ring_events [OF ok, of ?e] False by (simp add: ring)
    have n: "es_ids ?t = Suc (es_ids ?s)" "es_count ?t = Suc (es_count ?s)" using False by (simp_all add: push_ring_def)
    show ?thesis unfolding ev n by (rule grow_ids [OF inv(4)]) simp
  qed
  have pend: "pending_batch ?t = pending_batch ?s" by (simp add: push_ring_def pending_batch_def)
  have queue: "queue_ok ?t" using inv(2) pend by (simp add: queue_ok_def push_ring_def)
  define r' where "r' = archive_op (RingAdd e0) r"
  have st: "ar_store r' = ?t" "ar_claimed r' = ar_claimed r" unfolding r'_def t by simp_all
  have kept: "kept_ids r' = (if es_persistent ?s then add_mset (show_nat (Suc (es_ids ?s))) (kept_ids r) else kept_ids r)"
    unfolding r'_def t by (simp add: kept_ids_def kept_events_def pend)
  have sub: "kept_ids r' \<subseteq># all_ids (es_ids ?t)"
    using inv(7) unfolding kept by (auto simp: push_ring_def all_ids_Suc intro: subset_mset.order_trans)
  have "archive_inv r'"
    unfolding archive_inv_def Let_def st
  proof (intro conjI)
    show "es_persistent ?t \<longrightarrow> size (kept_ids r') + es_dropped ?t = es_ids ?t"
      using inv(8) kept by (simp add: push_ring_def)
    show "es_count ?t = min (es_ids ?t) (es_max ?t)" using cnt max by (auto simp: push_ring_def)
    show "es_flight ?t = int (length (ar_claimed r))" "es_flight_bytes ?t = events_approx_bytes (ar_claimed r)"
      using inv(5,6) by (simp_all add: push_ring_def)
  qed (rule push_ring_ok [OF ok] queue ids sub)+
  then show ?thesis by (simp only: r'_def)
qed

lemma same_ring_facts:
  assumes "same_ring s t"
  shows "ring_ok t = ring_ok s" "ring_events t = ring_events s" "es_ids t = es_ids s" "es_count t = es_count s"
    "es_persistent t = es_persistent s" "es_limit t = es_limit s" "es_max t = es_max s"
  using assms by (simp_all add: same_ring_def ring_ok_def ring_events_def)

text \<open>The steps of the queue: what counts is what becomes of the kept events.\<close>

lemma archive_queue_inv:
  assumes "archive_inv r" and "same_ring (ar_store r) (ar_store r')" and "queue_ok (ar_store r')"
    and "es_flight (ar_store r') = int (length (ar_claimed r'))" "es_flight_bytes (ar_store r') = events_approx_bytes (ar_claimed r')"
    and "kept_ids r' \<subseteq># kept_ids r"
    and "size (kept_ids r') + es_dropped (ar_store r') = size (kept_ids r) + es_dropped (ar_store r)"
  shows "archive_inv r'"
  using assms unfolding archive_inv_def Let_def same_ring_facts [OF assms(2)]
  by (auto intro: subset_mset.order_trans)

lemma keeps_step_inv:
  assumes inv: "archive_inv r" and k: "queue_ok (ar_store r) \<Longrightarrow> keeps_events (ar_store r) s"
  shows "archive_inv (r\<lparr>ar_store := s\<rparr>)"
proof -
  have ok: "ring_ok (ar_store r)" "queue_ok (ar_store r)" using inv by (simp_all add: archive_inv_def Let_def)
  note keep = k [OF ok(2)] and ring = keeps_ring [OF k [OF ok(2)] ok(1)]
  have "kept_ids (r\<lparr>ar_store := s\<rparr>) = kept_ids r"
    using keep by (simp add: kept_ids_def kept_events_def keeps_events_def flip: mset_map)
  with keep ring ok inv show ?thesis by (simp add: archive_inv_def keeps_events_def Let_def)
qed

lemma mset_take_drop: "n < length ws \<Longrightarrow> mset (take n ws @ drop (Suc n) ws) = mset ws - {#ws ! n#}"
  by (metis add_mset_remove_trivial mset_append id_take_nth_drop mset.simps(2) union_mset_add_mset_right)

lemma archive_op_inv:
  assumes inv: "archive_inv r"
  shows "archive_inv (archive_op x r)"
proof -
  let ?s = "ar_store r"
  have ok: "queue_ok ?s" and flight: "es_flight ?s = int (length (ar_claimed r))"
    and bytes: "es_flight_bytes ?s = events_approx_bytes (ar_claimed r)" using inv by (simp_all add: archive_inv_def Let_def)
  show ?thesis
  proof (cases x)
    case (QueueAdd n)
    show ?thesis
    proof (cases "n < length (ar_waiting r)")
      case True
      let ?e = "ar_waiting r ! n"
      note f = push_batch_facts [OF ok, of ?e]
      define r' where "r' = archive_op x r"
      have r': "r' = r\<lparr>ar_store := push_batch ?e ?s, ar_waiting := take n (ar_waiting r) @ drop (Suc n) (ar_waiting r)\<rparr>"
        using True by (simp add: r'_def QueueAdd)
      have w: "mset (ar_waiting r) = add_mset ?e (mset (take n (ar_waiting r) @ drop (Suc n) (ar_waiting r)))"
        using mset_take_drop [OF True] True by simp
      have eq: "kept_ids r = (if es_limit ?s \<le> length (pending_batch ?s) then add_mset (qv_id (hd (pending_batch ?s))) (kept_ids r') else kept_ids r')"
      proof (cases "es_limit ?s \<le> length (pending_batch ?s)")
        case True
        then have "pending_batch ?s \<noteq> []" using ok by (auto simp: queue_ok_def)
        then obtain p ps where p: "pending_batch ?s = p # ps" by (cases "pending_batch ?s") auto
        with True f(1) show ?thesis by (simp add: kept_ids_def kept_events_def w r')
      qed (simp add: kept_ids_def kept_events_def w r' f(1))
      have "archive_inv r'"
        by (rule archive_queue_inv [OF inv]) (use f eq flight bytes in \<open>simp_all add: r'\<close>)
      then show ?thesis by (simp only: r'_def)
    qed (simp add: QueueAdd inv)
  next
    case Claim
    show ?thesis
    proof (cases "ar_claimed r = []")
      case True
      obtain cs s where c: "claim_batch ?s = (cs, s)" by (cases "claim_batch ?s")
      note f = claim_batch_facts [OF ok c]
      have k: "kept_ids (r\<lparr>ar_store := s, ar_claimed := cs\<rparr>) = kept_ids r"
        using f(1) True by (simp add: kept_ids_def kept_events_def) (metis image_mset_union mset_append union_assoc)
      have "archive_inv (r\<lparr>ar_store := s, ar_claimed := cs\<rparr>)"
        by (rule archive_queue_inv [OF inv]) (use f flight bytes True k in simp_all)
      then show ?thesis using True c by (simp add: Claim)
    qed (simp add: Claim inv)
  next
    case Commit
    have p: "pending_batch (commit_batch (ar_claimed r) ?s) = pending_batch ?s" "same_ring ?s (commit_batch (ar_claimed r) ?s)"
      "queue_ok (commit_batch (ar_claimed r) ?s)" "es_dropped (commit_batch (ar_claimed r) ?s) = es_dropped ?s"
      using ok by (simp_all add: commit_batch_def pending_batch_def queue_ok_def same_ring_def)
    have k: "kept_ids (archive_op Commit r) = kept_ids r" by (simp add: kept_ids_def kept_events_def p(1))
    show ?thesis unfolding Commit
      by (rule archive_queue_inv [OF inv]) (use p k flight bytes in \<open>simp_all add: commit_batch_def [of _ ?s]\<close>)
  next
    case Restore
    show ?thesis
    proof (cases "ar_claimed r = []")
      case False
      note f = restore_batch_facts [OF ok, of "ar_claimed r"]
      let ?n = "length (ar_claimed r) + length (pending_batch ?s) - es_limit ?s" and ?c = "ar_claimed r @ pending_batch ?s"
      have split: "image_mset qv_id (mset ?c) = image_mset qv_id (mset (take ?n ?c)) + image_mset qv_id (mset (drop ?n ?c))"
        by (metis append_take_drop_id image_mset_union mset_append)
      have k: "kept_ids r = kept_ids (archive_op Restore r) + image_mset qv_id (mset (take ?n ?c))"
        using False split by (simp add: kept_ids_def kept_events_def f(1) del: mset_append take_append drop_append) (simp add: ac_simps)
      have n: "size (kept_ids r) = size (kept_ids (archive_op Restore r)) + ?n" using k by simp
      have store: "ar_store (archive_op Restore r) = restore_batch (ar_claimed r) ?s" "ar_claimed (archive_op Restore r) = []"
        using False by simp_all
      show ?thesis unfolding Restore
      proof (rule archive_queue_inv [OF inv])
        show "size (kept_ids (archive_op Restore r)) + es_dropped (ar_store (archive_op Restore r)) = size (kept_ids r) + es_dropped ?s"
          unfolding n store f(4) by simp
        show "kept_ids (archive_op Restore r) \<subseteq># kept_ids r" unfolding k by simp
      qed (unfold store, use f flight bytes in simp_all)
    qed (simp add: Restore inv)
  qed (use inv in \<open>auto intro!: keeps_step_inv update_event_keeps set_blocked_keeps set_hostname_keeps set_dnssec_keeps
        simp del: archive_op.simps(1) simp: ring_event_inv\<close>)
qed

interpretation archiving: invariant_system archive_op archive_inv
  by unfold_locales (rule archive_op_inv)

section \<open>From the start\<close>

lemma archive_limits_ok: "archive_limits c0 t0 w0 = (c, t, w) \<Longrightarrow> 1 \<le> c \<and> 1 \<le> t \<and> t \<le> c \<and> 1 \<le> w \<and> w \<le> c"
  by (auto simp: archive_limits_def default_capacity_def default_trigger_def default_write_batch_def Let_def split: if_splits)

lemma new_run_inv: "archive_inv (new_run (new_store (Suc m) threshold persistent capacity trigger chunk))"
proof -
  obtain c t w where l: "archive_limits capacity trigger chunk = (c, t, w)" by (cases "archive_limits capacity trigger chunk")
  with archive_limits_ok [OF l] have "1 \<le> nat c" "1 \<le> nat w" by linarith+
  with l show ?thesis
    by (simp add: archive_inv_def new_run_def new_store_def ring_ok_def queue_ok_def pending_batch_def ring_events_def last_ids_def
        kept_ids_def kept_events_def Let_def)
qed

definition is_addition :: "store_op \<Rightarrow> bool" where
  "is_addition x = (case x of RingAdd _ \<Rightarrow> True | _ \<Rightarrow> False)"

lemma step_frame:
  assumes "archive_inv r"
  shows "es_persistent (ar_store (archive_op x r)) = es_persistent (ar_store r)"
    "es_ids (ar_store (archive_op x r)) = es_ids (ar_store r) + (if is_addition x then 1 else 0)"
    "es_max (ar_store (archive_op x r)) = es_max (ar_store r)" "es_limit (ar_store (archive_op x r)) = es_limit (ar_store r)"
proof -
  let ?s = "ar_store r"
  have ok: "queue_ok ?s" using assms by (simp add: archive_inv_def Let_def)
  have k: "es_persistent t = es_persistent ?s" "es_ids t = es_ids ?s" "es_max t = es_max ?s" "es_limit t = es_limit ?s"
    if "keeps_events ?s t" for t using that by (simp_all add: keeps_events_def)
  note q = push_batch_facts(3) [OF ok] restore_batch_facts(3) [OF ok]
  have "es_persistent (ar_store (archive_op x r)) = es_persistent ?s \<and>
      es_ids (ar_store (archive_op x r)) = es_ids ?s + (if is_addition x then 1 else 0) \<and>
      es_max (ar_store (archive_op x r)) = es_max ?s \<and> es_limit (ar_store (archive_op x r)) = es_limit ?s"
    using k [OF update_event_keeps [OF ok]] k [OF set_blocked_keeps [OF ok]] k [OF set_hostname_keeps [OF ok]] k [OF set_dnssec_keeps [OF ok]]
      same_ring_facts(3,5,6,7) [OF q(1)] same_ring_facts(3,5,6,7) [OF q(2)]
    by (cases x) (auto simp: is_addition_def ring_event_def push_ring_def commit_batch_def Let_def
        dest: same_ring_facts(3,5,6,7) [OF claim_batch_facts(3) [OF ok]] split: prod.split)
  then show "es_persistent (ar_store (archive_op x r)) = es_persistent ?s"
    "es_ids (ar_store (archive_op x r)) = es_ids ?s + (if is_addition x then 1 else 0)"
    "es_max (ar_store (archive_op x r)) = es_max ?s" "es_limit (ar_store (archive_op x r)) = es_limit ?s" by simp_all
qed

lemma run_frame:
  "archive_inv r \<Longrightarrow> es_persistent (ar_store (fold archive_op ops r)) = es_persistent (ar_store r) \<and>
    es_ids (ar_store (fold archive_op ops r)) = es_ids (ar_store r) + length (filter is_addition ops) \<and>
    es_max (ar_store (fold archive_op ops r)) = es_max (ar_store r) \<and> es_limit (ar_store (fold archive_op ops r)) = es_limit (ar_store r)"
proof (induction ops arbitrary: r)
  case (Cons x ops)
  then show ?case using Cons.IH [OF archive_op_inv [OF Cons.prems, of x]] step_frame [OF Cons.prems, of x] by simp
qed simp

lemma show_nat_unique: "inj show_nat"
  by (rule inj_on_inverseI [where g = dec_val]) simp

lemma distinct_sub:
  assumes "mset xs \<subseteq># mset ys" and "distinct ys"
  shows "distinct xs"
proof -
  have "count (mset xs) x \<le> 1" for x
  proof -
    have "count (mset ys) x = (if x \<in> set ys then 1 else 0)" using assms(2) by (simp only: distinct_count_atmost_1)
    with mset_subset_eq_count [OF assms(1), of x] show ?thesis by (simp only: split: if_splits)
  qed
  then have "count (mset xs) x = (if x \<in> set xs then 1 else 0)" for x
    using count_greater_eq_one_iff [of "mset xs" x] by (auto simp: le_antisym not_in_iff)
  then show ?thesis by (simp add: distinct_count_atmost_1)
qed

lemma all_ids_facts: "mset xs \<subseteq># all_ids n \<Longrightarrow> distinct xs \<and> set xs \<subseteq> show_nat ` {1..n}"
proof -
  assume sub: "mset xs \<subseteq># all_ids n"
  have "distinct (List.map show_nat [1..<Suc n])" by (simp add: distinct_map inj_on_subset [OF show_nat_unique] del: upt_Suc)
  with sub have "distinct xs" unfolding all_ids_def by (rule distinct_sub)
  moreover have "set (List.map show_nat [1..<Suc n]) = show_nat ` {1..n}"
    unfolding set_map set_upt by (simp add: atLeastLessThanSuc_atLeastAtMost)
  ultimately show ?thesis using set_mset_mono [OF sub] unfolding all_ids_def set_mset_mset by simp
qed

text \<open>A store with room for at least one event, after a run.\<close>

definition store_run :: "nat \<Rightarrow> int \<Rightarrow> bool \<Rightarrow> int \<Rightarrow> int \<Rightarrow> int \<Rightarrow> store_op list \<Rightarrow> archive_run" where
  "store_run m threshold persistent capacity trigger chunk ops =
     fold archive_op ops (new_run (new_store (Suc m) threshold persistent capacity trigger chunk))"

lemma store_run_facts:
  "archive_inv (store_run m threshold persistent capacity trigger chunk ops)"
  "es_persistent (ar_store (store_run m threshold persistent capacity trigger chunk ops)) = persistent"
  "es_ids (ar_store (store_run m threshold persistent capacity trigger chunk ops)) = length (filter is_addition ops)"
  "es_max (ar_store (store_run m threshold persistent capacity trigger chunk ops)) = Suc m"
proof -
  let ?r0 = "new_run (new_store (Suc m) threshold persistent capacity trigger chunk)"
  show "archive_inv (store_run m threshold persistent capacity trigger chunk ops)"
    unfolding store_run_def by (rule archiving.run_keeps [OF new_run_inv])
  have "es_persistent (ar_store ?r0) = persistent" "es_ids (ar_store ?r0) = 0" "es_max (ar_store ?r0) = Suc m"
    by (simp_all add: new_run_def new_store_def split: prod.split)
  then show "es_persistent (ar_store (store_run m threshold persistent capacity trigger chunk ops)) = persistent"
    "es_ids (ar_store (store_run m threshold persistent capacity trigger chunk ops)) = length (filter is_addition ops)"
    "es_max (ar_store (store_run m threshold persistent capacity trigger chunk ops)) = Suc m"
    using run_frame [OF new_run_inv [of m threshold persistent capacity trigger chunk], of ops] by (simp_all add: store_run_def)
qed

text \<open>C11: On a controller every event is accounted for, whatever the interleaving of writers,
  amendments and archiver and whichever database writes fail: the events archived, being written,
  queued and about to be queued carry different numbers that were assigned to events, and together with
  the count of dropped events they are all events ever added; the queue stays within its limit, and the
  queue metrics report its length and its bytes exactly.\<close>

theorem events_accounted:
  "let r = store_run m threshold True capacity trigger chunk ops; s = ar_store r; n = length (filter is_addition ops)
   in distinct (List.map qv_id (kept_events r)) \<and> qv_id ` set (kept_events r) \<subseteq> show_nat ` {1..n} \<and>
      length (kept_events r) + es_dropped s = n \<and> length (pending_batch s) \<le> es_limit s \<and>
      archive_metrics s = (int (length (ar_claimed r @ pending_batch s)), events_approx_bytes (ar_claimed r @ pending_batch s), es_dropped s)"
proof -
  define r where "r = store_run m threshold True capacity trigger chunk ops"
  let ?s = "ar_store r"
  have inv: "archive_inv r" and frame: "es_persistent ?s" "es_ids ?s = length (filter is_addition ops)"
    unfolding r_def by (simp_all add: store_run_facts)
  have sub: "kept_ids r \<subseteq># all_ids (es_ids ?s)" and size: "size (kept_ids r) + es_dropped ?s = es_ids ?s"
    using inv frame(1) by (simp_all add: archive_inv_def Let_def)
  have "distinct (List.map qv_id (kept_events r)) \<and> qv_id ` set (kept_events r) \<subseteq> show_nat ` {1..es_ids ?s}"
    using all_ids_facts [of "List.map qv_id (kept_events r)"] sub by (simp add: kept_ids_def)
  moreover have "length (kept_events r) + es_dropped ?s = es_ids ?s" using size by (simp add: kept_ids_def)
  moreover have "length (pending_batch ?s) \<le> es_limit ?s"
    "archive_metrics ?s = (int (length (ar_claimed r @ pending_batch ?s)), events_approx_bytes (ar_claimed r @ pending_batch ?s), es_dropped ?s)"
    using inv by (simp_all add: archive_inv_def archive_metrics_def queue_ok_def pending_length Let_def)
  ultimately show ?thesis
    unfolding r_def [symmetric] Let_def frame(2) by - (elim conjE, intro conjI; assumption)
qed

section \<open>The stream of recent events\<close>

definition stream_limit :: "int \<Rightarrow> nat" where
  "stream_limit limit = (if limit \<le> 0 \<or> int default_scan_limit < limit then default_scan_limit else nat limit)"

lemma parse_show: "n < 2 ^ 64 \<Longrightarrow> parse_uint (show_nat n) = n"
  by (simp add: parse_uint_def show_nat_digits min_def)

lemma events_after_ring:
  "get_events_after cursor since limit s = take (stream_limit limit)
     (filter (\<lambda>e. 0 < parse_uint cursor \<and> parse_uint cursor < parse_uint (qv_id e) \<or> parse_uint cursor = 0 \<and> since < qv_time e)
       (ring_events s))"
  by (simp add: get_events_after_def ring_events_def stream_limit_def Let_def)

lemma ordered_ring:
  assumes "ring_ok s"
  shows "get_ordered_events limit s = (if 0 < limit then drop (es_count s - nat limit) (ring_events s) else ring_events s)"
proof -
  have count: "es_count s \<le> es_max s" using assms by (simp add: ring_ok_def)
  define n where "n = (if 0 < limit \<and> limit < int (es_count s) then nat limit else es_count s)"
  have n: "n \<le> es_count s" by (auto simp: n_def)
  have "get_ordered_events limit s = drop (es_count s - n) (ring_events s)"
  proof (rule nth_equalityI)
    fix i assume "i < length (get_ordered_events limit s)"
    then have "i < n" by (simp add: get_ordered_events_def n_def Let_def)
    moreover have "es_head s + es_max s - es_count s + (es_count s - n + i) = es_head s + es_max s - n + i" using n count by simp
    ultimately show "get_ordered_events limit s ! i = drop (es_count s - n) (ring_events s) ! i"
      using n by (simp add: get_ordered_events_def ring_events_def Let_def flip: n_def)
  qed (use n in \<open>simp add: get_ordered_events_def Let_def flip: n_def\<close>)
  then show ?thesis by (auto simp: n_def)
qed

lemma filter_suffix:
  "(\<And>i. i < length xs \<Longrightarrow> P (xs ! i) \<longleftrightarrow> d \<le> i) \<Longrightarrow> filter P xs = drop d xs"
proof (induction xs arbitrary: d)
  case (Cons x xs)
  have "filter P xs = drop (d - 1) xs"
  proof (rule Cons.IH)
    fix i assume "i < length xs"
    with Cons.prems [of "Suc i"] show "P (xs ! i) \<longleftrightarrow> d - 1 \<le> i" by auto
  qed
  with Cons.prems [of 0] show ?case by (cases d) auto
qed simp

text \<open>C21: A reader of the event stream that asks with the number of the event it saw last gets, up to the page size and in
  order, exactly the later events the ring still holds, each as it stands now: the events of the ring but for those up to that
  number. The ring holds the last Suc m events added, so that nothing is left out as long as no more than that were added
  since; a cursor older than the ring gets the whole ring. The numbers returned say which.\<close>

theorem event_stream_exact:
  assumes "length (filter is_addition ops) < 2 ^ 64" and "0 < c" and "c < 2 ^ 64"
  shows "let s = ar_store (store_run m threshold persistent capacity trigger chunk ops);
             n = length (filter is_addition ops); oldest = Suc n - min n (Suc m);
             page = get_events_after (show_nat c) since limit s
         in page = take (stream_limit limit) (drop (Suc c - oldest) (ring_events s)) \<and>
            List.map qv_id page = List.map show_nat (take (stream_limit limit) [max (Suc c) oldest..<Suc n])"
proof -
  let ?s = "ar_store (store_run m threshold persistent capacity trigger chunk ops)" and ?n = "length (filter is_addition ops)"
  let ?o = "Suc ?n - min ?n (Suc m)"
  have inv: "archive_inv (store_run m threshold persistent capacity trigger chunk ops)" and "es_ids ?s = ?n" "es_max ?s = Suc m"
    by (simp_all add: store_run_facts)
  with inv have ids: "List.map qv_id (ring_events ?s) = List.map show_nat [?o..<Suc ?n]"
    by (simp add: archive_inv_def Let_def last_ids_def del: upt_Suc)
  have "length (List.map qv_id (ring_events ?s)) = length (List.map show_nat [?o..<Suc ?n])" unfolding ids ..
  then have len: "length (ring_events ?s) = Suc ?n - ?o" by (simp del: upt_Suc)
  have nth: "qv_id (ring_events ?s ! i) = show_nat (?o + i)" if "i < length (ring_events ?s)" for i
    using that len arg_cong [OF ids, of "\<lambda>xs. xs ! i"] by (auto simp: min_def simp del: upt_Suc split: if_splits)
  have c: "parse_uint (show_nat c) = c" using assms(3) by (rule parse_show)
  have "filter (\<lambda>e. c < parse_uint (qv_id e)) (ring_events ?s) = drop (Suc c - ?o) (ring_events ?s)"
  proof (rule filter_suffix)
    fix i assume i: "i < length (ring_events ?s)"
    then have "parse_uint (qv_id (ring_events ?s ! i)) = ?o + i"
      unfolding nth [OF i] using len assms(1) by (intro parse_show) linarith
    then show "c < parse_uint (qv_id (ring_events ?s ! i)) \<longleftrightarrow> Suc c - ?o \<le> i" by auto
  qed
  then have page: "get_events_after (show_nat c) since limit ?s = take (stream_limit limit) (drop (Suc c - ?o) (ring_events ?s))"
    using assms(2) by (simp add: events_after_ring c)
  have "List.map qv_id (drop (Suc c - ?o) (ring_events ?s)) = List.map show_nat [max (Suc c) ?o..<Suc ?n]"
    unfolding drop_map [symmetric] ids by (simp add: drop_map max_def del: upt_Suc)
  with page show ?thesis by (simp add: Let_def take_map [symmetric] del: upt_Suc)
qed

theorem event_stream_exact_witness:
  "List.map qv_id (get_events_after (show_nat 1) 0 0 (ar_store (store_run 1 0 True 0 0 0
     [RingAdd no_event, RingAdd no_event, QueueAdd 0, RingAdd no_event, RingAdd no_event]))) = List.map show_nat [3, 4]"
proof -
  let ?ops = "[RingAdd no_event, RingAdd no_event, QueueAdd 0, RingAdd no_event, RingAdd no_event]"
  have n: "length (filter is_addition ?ops) = 4" by (simp add: is_addition_def)
  have "take (stream_limit 0) [max (Suc 1) (Suc 4 - min 4 (Suc 1))..<Suc 4] = [3, 4 :: nat]"
    by (simp add: stream_limit_def default_scan_limit_def upt_rec)
  then show ?thesis using conjunct2 [OF event_stream_exact [unfolded Let_def, where ops = ?ops and c = 1 and m = 1 and threshold = 0 and persistent = True and capacity = 0
      and trigger = 0 and chunk = 0 and since = 0 and limit = 0]] unfolding n by simp
qed

end
