(* ===== verification/Event_History.thy ===== *)
theory Event_History
  imports Event_Archive "HOL-Library.Sublist"
begin

text \<open>
  The persisted query history: the tables of db/db.go, the transaction that archives a batch
  (storage/archive.go), hourly aggregates, retention and the migration that rebuilds them
  (storage/maintenance.go, db/db.go), and the statistics of the last day (storage/stats.go). The SQL
  statements of the source are read as operations on tables; a transaction that fails leaves the tables
  as they were.
\<close>

section \<open>Cache hits\<close>

text \<open>CacheHitSQLExpression: SQLite's trim removes spaces only, lower folds ASCII, and LIKE ignores case.\<close>

definition is_cache_hit_status :: "string \<Rightarrow> bool" where
  "is_cache_hit_status v \<longleftrightarrow> v \<in> {''fresh'', ''stale'', ''prefetched'', ''negative'', ''servfail''}"

definition sql_trim :: "string \<Rightarrow> string" where
  "sql_trim v = rev (dropWhile (\<lambda>c. c = CHR '' '') (rev (dropWhile (\<lambda>c. c = CHR '' '') v)))"

definition sql_cache_hit :: "stored_event \<Rightarrow> bool" where
  "sql_cache_hit e \<longleftrightarrow> is_cache_hit_status (to_lower (sql_trim (qv_cache e))) \<or>
     sql_trim (qv_cache e) = [] \<and> has_prefix (to_lower (qv_upstream e)) ''system cache''"

definition is_cache_hit :: "stored_event \<Rightarrow> bool" where
  "is_cache_hit e \<longleftrightarrow> (let status = to_lower (trim_space (qv_cache e))
     in is_cache_hit_status status \<or> status = [] \<and> has_prefix (qv_upstream e) ''System Cache'')"

section \<open>Tables of counters\<close>

definition gm_val :: "'v \<Rightarrow> ('k, 'v) gomap \<Rightarrow> 'k \<Rightarrow> 'v" where
  "gm_val z m k = (case gm_get m k of None \<Rightarrow> z | Some v \<Rightarrow> v)"

text \<open>A Go map that counts events by a key, then INSERT ... ON CONFLICT DO UPDATE with the sums.\<close>

definition tally :: "('v \<Rightarrow> 'v \<Rightarrow> 'v) \<Rightarrow> 'v \<Rightarrow> ('e \<Rightarrow> 'k) \<Rightarrow> ('e \<Rightarrow> 'v) \<Rightarrow> 'e list \<Rightarrow> ('k, 'v) gomap" where
  "tally add z key w es = foldl (\<lambda>m e. gm_set (key e) (add (gm_val z m (key e)) (w e)) m) [] es"

definition upsert :: "('v \<Rightarrow> 'v \<Rightarrow> 'v) \<Rightarrow> ('k, 'v) gomap \<Rightarrow> ('k, 'v) gomap \<Rightarrow> ('k, 'v) gomap" where
  "upsert add batch table =
     foldl (\<lambda>t (k, v). gm_set k (case gm_get t k of None \<Rightarrow> v | Some old \<Rightarrow> add old v) t) table batch"

definition sum_of :: "('v \<Rightarrow> 'v \<Rightarrow> 'v) \<Rightarrow> 'v \<Rightarrow> 'v list \<Rightarrow> 'v" where
  "sum_of add z vs = foldr add vs z"

locale accumulating =
  fixes add :: "'v \<Rightarrow> 'v \<Rightarrow> 'v" and z :: 'v
  assumes assoc: "add (add a b) c = add a (add b c)" and commute: "add a b = add b a" and zero: "add z a = a"
begin

lemma sum_append: "sum_of add z (xs @ ys) = add (sum_of add z xs) (sum_of add z ys)"
  by (induction xs) (simp_all add: sum_of_def zero assoc)

lemma sum_snoc: "sum_of add z (xs @ [y]) = add (sum_of add z xs) y"
  using sum_append [of xs "[y]"] by (simp add: sum_of_def commute [of y z] zero)

lemma tally_run: "gm_val z (foldl (\<lambda>m e. gm_set (key e) (add (gm_val z m (key e)) (w e)) m) mm es) k =
    add (gm_val z mm k) (sum_of add z (List.map w (filter (\<lambda>e. key e = k) es)))"
proof (induction es arbitrary: mm)
  case Nil
  then show ?case by (simp add: sum_of_def commute [of _ z] zero)
next
  case (Cons e es)
  then show ?case by (simp add: sum_of_def gm_val_def gomap_simps assoc)
qed

lemma tally_val: "gm_val z (tally add z key w es) k = sum_of add z (List.map w (filter (\<lambda>e. key e = k) es))"
  using tally_run [where mm = "[]"] by (simp add: tally_def gm_val_def zero)

lemma upsert_val: "gm_ok batch \<Longrightarrow> gm_val z (upsert add batch table) k = add (gm_val z table k) (gm_val z batch k)"
proof (induction batch arbitrary: table)
  case Nil
  then show ?case by (simp add: upsert_def gm_val_def commute [of _ z] zero)
next
  case (Cons p batch)
  obtain k' v where p: "p = (k', v)" by (cases p)
  have notin: "k' \<notin> fst ` set batch" using Cons.prems p by simp
  have step: "upsert add (p # batch) table = upsert add batch (gm_set k' (case gm_get table k' of None \<Rightarrow> v | Some old \<Rightarrow> add old v) table)"
    by (simp add: upsert_def p)
  have none: "gm_get batch k' = None" using notin by (simp add: map_of_eq_None_iff)
  show ?case
    unfolding step using Cons.IH [of "gm_set k' (case gm_get table k' of None \<Rightarrow> v | Some old \<Rightarrow> add old v) table"] Cons.prems p none
    by (auto simp: gm_val_def gomap_simps zero commute [of _ z] split: option.splits)
qed

end

lemma tally_ok: "gm_ok (tally add z key w es)"
proof -
  have "gm_ok m \<Longrightarrow> gm_ok (foldl (\<lambda>m e. gm_set (key e) (add (gm_val z m (key e)) (w e)) m) m es)" for m
    by (induction es arbitrary: m) simp_all
  then show ?thesis by (simp add: tally_def)
qed

lemma upsert_ok: "gm_ok table \<Longrightarrow> gm_ok (upsert add batch table)"
  by (induction batch arbitrary: table) (auto simp: upsert_def)

section \<open>The tables\<close>

record hourly_total =
  ht_total :: int
  ht_hits :: int
  ht_replies :: int
  ht_blocked :: int

definition no_total :: hourly_total where
  "no_total = \<lparr>ht_total = 0, ht_hits = 0, ht_replies = 0, ht_blocked = 0\<rparr>"

definition add_total :: "hourly_total \<Rightarrow> hourly_total \<Rightarrow> hourly_total" where
  "add_total a b = \<lparr>ht_total = ht_total a + ht_total b, ht_hits = ht_hits a + ht_hits b, ht_replies = ht_replies a + ht_replies b,
     ht_blocked = ht_blocked a + ht_blocked b\<rparr>"

interpretation totals: accumulating add_total no_total
  by unfold_locales (simp_all add: add_total_def no_total_def)

interpretation counts: accumulating "(+) :: int \<Rightarrow> int \<Rightarrow> int" 0
  by unfold_locales simp_all

record history_db =
  hd_rows :: "stored_event list"
  hd_totals :: "(int, hourly_total) gomap"
  hd_domains :: "(int \<times> string, int) gomap"
  hd_clients :: "(int \<times> string, int) gomap"
  hd_types :: "(int \<times> string, int) gomap"
  hd_migrated :: bool

definition hour_of :: "int \<Rightarrow> int" where
  "hour_of t = trunc_div t 3600 * 3600"

definition event_total :: "(stored_event \<Rightarrow> bool) \<Rightarrow> stored_event \<Rightarrow> hourly_total" where
  "event_total hit e = \<lparr>ht_total = 1, ht_hits = of_bool (hit e), ht_replies = of_bool (qv_upstream e \<noteq> []), ht_blocked = of_bool (qv_blocked e)\<rparr>"

definition hour_key :: "stored_event \<Rightarrow> int" where
  "hour_key e = hour_of (qv_time e)"

definition hourly_key :: "(stored_event \<Rightarrow> string) \<Rightarrow> stored_event \<Rightarrow> int \<times> string" where
  "hourly_key f e = (hour_key e, f e)"

definition upsert_hourly_aggregates :: "stored_event list \<Rightarrow> history_db \<Rightarrow> history_db" where
  "upsert_hourly_aggregates es d =
     d\<lparr>hd_totals := upsert add_total (tally add_total no_total hour_key (event_total is_cache_hit) es) (hd_totals d),
       hd_domains := upsert (+) (tally (+) 0 (hourly_key qv_domain) (\<lambda>_. 1) es) (hd_domains d),
       hd_clients := upsert (+) (tally (+) 0 (hourly_key qv_client) (\<lambda>_. 1) es) (hd_clients d),
       hd_types := upsert (+) (tally (+) 0 (hourly_key qv_type) (\<lambda>_. 1) es) (hd_types d)\<rparr>"

text \<open>insertArchiveBatch: the rows have no alias and no event number; a row's id is its place in the table.\<close>

definition row_of :: "stored_event \<Rightarrow> stored_event" where
  "row_of e = e\<lparr>qv_alias := [], qv_id := []\<rparr>"

definition insert_archive_batch :: "bool \<Rightarrow> stored_event list \<Rightarrow> history_db \<Rightarrow> history_db option" where
  "insert_archive_batch ok es d =
     (if ok then Some (upsert_hourly_aggregates es (d\<lparr>hd_rows := hd_rows d @ List.map row_of es\<rparr>)) else None)"

text \<open>pruneRetentionBatch: at most 10000 old rows go, oldest first; the cutoff hour is counted again.\<close>

definition retention_delete_batch :: nat where
  "retention_delete_batch = 10000"

definition history_retention :: int where
  "history_retention = 72 * 3600"

definition delete_old :: "nat \<Rightarrow> int \<Rightarrow> stored_event list \<Rightarrow> stored_event list" where
  "delete_old n cutoff rows =
     fst (foldl (\<lambda>(out, left) e. if 0 < left \<and> qv_time e < cutoff then (out, left - 1) else (out @ [e], left)) ([], n) rows)"

definition drop_hours :: "('k \<Rightarrow> int) \<Rightarrow> int \<Rightarrow> ('k, 'v) gomap \<Rightarrow> ('k, 'v) gomap" where
  "drop_hours hour h m = filter (\<lambda>(k, v). h < hour k) m"

definition prune_retention_batch :: "int \<Rightarrow> bool \<Rightarrow> history_db \<Rightarrow> history_db" where
  "prune_retention_batch cutoff ok d =
     (if \<not> ok then d
      else let rows = delete_old retention_delete_batch cutoff (hd_rows d); h = hour_of cutoff;
               again = filter (\<lambda>e. cutoff \<le> qv_time e \<and> qv_time e < h + 3600) rows
           in d\<lparr>hd_rows := rows,
                hd_totals := drop_hours id h (hd_totals d) @ tally add_total no_total (\<lambda>_. h) (event_total sql_cache_hit) again,
                hd_domains := drop_hours fst h (hd_domains d) @ tally (+) 0 (\<lambda>e. (h, qv_domain e)) (\<lambda>_. 1) again,
                hd_clients := drop_hours fst h (hd_clients d) @ tally (+) 0 (\<lambda>e. (h, qv_client e)) (\<lambda>_. 1) again,
                hd_types := drop_hours fst h (hd_types d) @ tally (+) 0 (\<lambda>e. (h, qv_type e)) (\<lambda>_. 1) again\<rparr>)"

text \<open>backfillHourlyAggregates: once, from the rows; a failure keeps the database closed (None).\<close>

definition backfill_hourly_aggregates :: "bool \<Rightarrow> history_db \<Rightarrow> history_db option" where
  "backfill_hourly_aggregates ok d =
     (if hd_migrated d then Some d
      else if \<not> ok then None
      else Some (d\<lparr>hd_totals := hd_totals d @ tally add_total no_total hour_key (event_total sql_cache_hit) (hd_rows d),
                   hd_domains := hd_domains d @ tally (+) 0 (hourly_key qv_domain) (\<lambda>_. 1) (hd_rows d),
                   hd_clients := hd_clients d @ tally (+) 0 (hourly_key qv_client) (\<lambda>_. 1) (hd_rows d),
                   hd_types := hd_types d @ tally (+) 0 (hourly_key qv_type) (\<lambda>_. 1) (hd_rows d), hd_migrated := True\<rparr>))"

section \<open>The archiver over the database\<close>

lemma claim_shrinks:
  assumes "claim_batch s = (cs, t)" and "cs \<noteq> []"
  shows "length (pending_batch t) < length (pending_batch s)"
proof -
  define n where "n = min (length (pending_batch s)) (es_write s)"
  have n: "n \<noteq> 0" "cs = take n (pending_batch s)" using assms by (auto simp: claim_batch_def n_def [symmetric] Let_def split: if_splits)
  have le: "es_start s + n \<le> length (es_batch s)" using n(1) by (auto simp: n_def pending_batch_def)
  let ?s1 = "s\<lparr>es_batch := take (es_start s) (es_batch s) @ replicate n no_event @ drop (es_start s + n) (es_batch s),
                        es_start := es_start s + n, es_bytes := es_bytes s - events_approx_bytes cs,
                        es_flight := es_flight s + int n, es_flight_bytes := es_flight_bytes s + events_approx_bytes cs\<rparr>"
  have "t = ?s1 \<or> t = compact_batch ?s1"
    using assms(1) n by (auto simp: claim_batch_def n_def [symmetric] Let_def split: if_splits)
  moreover have "pending_batch ?s1 = drop (es_start s + n) (es_batch s)" using le by (simp add: pending_batch_def)
  ultimately have "pending_batch t = drop (es_start s + n) (es_batch s)" by (auto simp: compact_facts(1))
  then show ?thesis using n(1) le by (simp add: pending_batch_def)
qed

text \<open>
  archiveStep: one entry of the list per write, with the events that other goroutines queue between
  the claim and its end, and whether it succeeds; beyond the list nobody queues and writes succeed.
  The result says whether all writes succeeded, how many events were archived and which entries are left.
\<close>

function archive_loop ::
  "(stored_event list \<times> bool) list \<Rightarrow> nat \<Rightarrow> event_store \<Rightarrow> history_db \<Rightarrow>
     bool \<times> nat \<times> (stored_event list \<times> bool) list \<times> event_store \<times> history_db" where
  "archive_loop rounds n s d =
     (case claim_batch s of (cs, s1) \<Rightarrow>
        (if cs = [] then (True, n, rounds, s, d)
         else case (case rounds of [] \<Rightarrow> ([], True) | r # _ \<Rightarrow> r) of (queued, ok) \<Rightarrow>
           (let s2 = fold push_batch queued s1
            in case insert_archive_batch ok cs d of
                 None \<Rightarrow> (False, n, tl rounds, restore_batch cs s2, d)
               | Some d1 \<Rightarrow> archive_loop (tl rounds) (n + length cs) (commit_batch cs s2) d1)))"
  by pat_completeness auto
termination
  by (relation "measures [\<lambda>(rounds, n, s, d). length rounds, \<lambda>(rounds, n, s, d). length (pending_batch s)]")
    (auto dest!: claim_shrinks [OF sym] simp: commit_batch_def pending_batch_def Let_def split: list.splits)

declare archive_loop.simps [simp del]

definition archive_step ::
  "bool \<Rightarrow> (stored_event list \<times> bool) list \<Rightarrow> bool \<Rightarrow> int \<Rightarrow> event_store \<Rightarrow> history_db \<Rightarrow> bool \<times> nat \<times> event_store \<times> history_db" where
  "archive_step available rounds prune_ok now s d =
     (if \<not> es_persistent s \<or> \<not> available then (True, 0, s, d)
      else case archive_loop rounds 0 s d of
             (False, n, _, s1, d1) \<Rightarrow> (False, n, s1, d1)
           | (True, n, _, s1, d1) \<Rightarrow> (True, n, s1, prune_retention_batch (now - history_retention) prune_ok d1))"

section \<open>The statistics of a day\<close>

record day_stats =
  dy_total :: int
  dy_rpd :: int
  dy_hits :: int
  dy_replies :: int
  dy_types :: "(string, int) gomap"
  dy_domains :: "(string, int) gomap"
  dy_clients :: "(string, int) gomap"

definition bump :: "string \<Rightarrow> (string, int) gomap \<Rightarrow> (string, int) gomap" where
  "bump k m = gm_set k (gm_val 0 m k + 1) m"

definition merge_window_event :: "day_stats \<Rightarrow> stored_event \<Rightarrow> day_stats" where
  "merge_window_event st e =
     st\<lparr>dy_rpd := dy_rpd st + 1, dy_replies := dy_replies st + of_bool (qv_upstream e \<noteq> []), dy_hits := dy_hits st + of_bool (is_cache_hit e),
        dy_types := bump (qv_type e) (dy_types st), dy_domains := bump (qv_domain e) (dy_domains st),
        dy_clients := bump (qv_client e) (dy_clients st)\<rparr>"

text \<open>SELECT v, SUM(count) ... WHERE hour >= ? GROUP BY v; ORDER BY the sum DESC LIMIT 50 for the top lists.\<close>

definition group_sums :: "int \<Rightarrow> (int \<times> string, int) gomap \<Rightarrow> (string, int) gomap" where
  "group_sums from m = tally (+) 0 (\<lambda>p. snd (fst p)) snd (filter (\<lambda>p. from \<le> fst (fst p)) m)"

definition top_sums :: "int \<Rightarrow> (int \<times> string, int) gomap \<Rightarrow> (string, int) gomap" where
  "top_sums from m = take 50 (sort_key (\<lambda>p. - snd p) (group_sums from m))"

definition sum_totals :: "int option \<Rightarrow> (int, hourly_total) gomap \<Rightarrow> hourly_total" where
  "sum_totals from m = sum_of add_total no_total
     (List.map snd (filter (\<lambda>p. case from of None \<Rightarrow> True | Some h \<Rightarrow> h \<le> fst p) m))"

definition add_counts :: "(string, int) gomap \<Rightarrow> (string, int) gomap \<Rightarrow> (string, int) gomap" where
  "add_counts extra m = foldl (\<lambda>m (k, n). gm_set k (gm_val 0 m k + n) m) m extra"

definition day_stats_at :: "int \<Rightarrow> stored_event list \<Rightarrow> history_db \<Rightarrow> day_stats" where
  "day_stats_at now volatile d =
     (let cutoff = now - 86400; complete = hour_of cutoff + 3600; day = sum_totals (Some complete) (hd_totals d);
          st0 = \<lparr>dy_total = ht_total (sum_totals None (hd_totals d)), dy_rpd = ht_total day, dy_hits = ht_hits day, dy_replies = ht_replies day,
                 dy_types = group_sums complete (hd_types d), dy_domains = [], dy_clients = []\<rparr>;
          st1 = foldl merge_window_event st0 (filter (\<lambda>e. cutoff \<le> qv_time e \<and> qv_time e < complete) (hd_rows d));
          st2 = foldl merge_window_event (st1\<lparr>dy_total := dy_total st1 + int (length volatile)\<rparr>) (filter (\<lambda>e. cutoff \<le> qv_time e) volatile)
      in st2\<lparr>dy_domains := add_counts (top_sums complete (hd_domains d)) (dy_domains st2),
             dy_clients := add_counts (top_sums complete (hd_clients d)) (dy_clients st2)\<rparr>)"

section \<open>Counting with the aggregates\<close>

context accumulating
begin

lemma left_commute: "add a (add b c) = add b (add a c)"
  by (simp only: commute [of a b] flip: assoc)

lemma sum_split: "sum_of add z (List.map w (filter P es)) =
    add (sum_of add z (List.map w (filter (\<lambda>e. P e \<and> Q e) es))) (sum_of add z (List.map w (filter (\<lambda>e. P e \<and> \<not> Q e) es)))"
proof (induction es)
  case (Cons e es)
  have "add (w e) (add a b) = add a (add (w e) b)" for a b by (rule left_commute)
  with Cons show ?case by (simp add: sum_of_def assoc)
qed (simp add: sum_of_def zero)

lemma sum_empty_keys:
  assumes "\<And>k. P k \<Longrightarrow> sum_of add z (List.map w (filter (\<lambda>e. key e = k) es)) = z"
  shows "sum_of add z (List.map w (filter (\<lambda>e. P (key e)) es)) = z"
  using assms
proof (induction "length es" arbitrary: es rule: less_induct)
  case less
  show ?case
  proof (cases es)
    case (Cons e es0)
    let ?rest = "filter (\<lambda>x. key x \<noteq> key e) es"
    have len: "length ?rest < length es" using length_filter_le [of "\<lambda>x. key x \<noteq> key e" es0] by (simp add: Cons less_Suc_eq_le)
    have part: "sum_of add z (List.map w (filter (\<lambda>x. key x = k) ?rest)) = z" if "P k" for k
      using less.prems [OF that] by (cases "k = key e") (simp_all add: sum_of_def conj_commute cong: conj_cong filter_cong)
    have rest: "sum_of add z (List.map w (filter (\<lambda>x. P (key x)) ?rest)) = z" using less.hyps [OF len part] .
    have split: "sum_of add z (List.map w (filter (\<lambda>x. P (key x)) es)) =
        add (sum_of add z (List.map w (filter (\<lambda>x. P (key x) \<and> key x = key e) es)))
          (sum_of add z (List.map w (filter (\<lambda>x. P (key x) \<and> key x \<noteq> key e) es)))"
      by (rule sum_split)
    have "filter (\<lambda>x. P (key x) \<and> key x = key e) es = (if P (key e) then filter (\<lambda>x. key x = key e) es else [])"
      by (auto intro: filter_cong simp: filter_empty_conv)
    then have "sum_of add z (List.map w (filter (\<lambda>x. P (key x) \<and> key x = key e) es)) = z"
      using less.prems [of "key e"] by (simp add: sum_of_def)
    with split rest show ?thesis by (simp add: zero conj_commute)
  qed (simp add: sum_of_def)
qed

text \<open>A table that has the right sum for every key of a range has the right sum over the range.\<close>

lemma sum_range:
  assumes "gm_ok m" and "\<And>k. P k \<Longrightarrow> gm_val z m k = sum_of add z (List.map w (filter (\<lambda>e. key e = k) es))"
  shows "sum_of add z (List.map snd (filter (\<lambda>p. P (fst p)) m)) = sum_of add z (List.map w (filter (\<lambda>e. P (key e)) es))"
  using assms
proof (induction m arbitrary: P)
  case Nil
  have "sum_of add z (List.map w (filter (\<lambda>e. P (key e)) es)) = z"
    by (rule sum_empty_keys) (simp add: Nil.prems(2) [symmetric] gm_val_def)
  then show ?case by (simp add: sum_of_def)
next
  case (Cons p m)
  obtain k v where p: "p = (k, v)" by (cases p)
  have notin: "k \<notin> fst ` set m" and ok: "gm_ok m" using Cons.prems(1) p by simp_all
  have "sum_of add z (List.map snd (filter (\<lambda>p. P (fst p) \<and> fst p \<noteq> k) m)) =
      sum_of add z (List.map w (filter (\<lambda>e. P (key e) \<and> key e \<noteq> k) es))"
  proof (rule Cons.IH [OF ok])
    fix k' assume "P k' \<and> k' \<noteq> k"
    with Cons.prems(2) [of k'] p show "gm_val z m k' = sum_of add z (List.map w (filter (\<lambda>e. key e = k') es))"
      by (simp add: gm_val_def)
  qed
  moreover have "filter (\<lambda>p. P (fst p) \<and> fst p \<noteq> k) m = filter (\<lambda>p. P (fst p)) m"
    using notin by (intro filter_cong refl) force
  ultimately have rest: "sum_of add z (List.map snd (filter (\<lambda>p. P (fst p)) m)) =
      sum_of add z (List.map w (filter (\<lambda>e. P (key e) \<and> key e \<noteq> k) es))" by simp
  have split: "sum_of add z (List.map w (filter (\<lambda>e. P (key e)) es)) =
      add (sum_of add z (List.map w (filter (\<lambda>e. P (key e) \<and> key e = k) es)))
        (sum_of add z (List.map w (filter (\<lambda>e. P (key e) \<and> key e \<noteq> k) es)))"
    by (rule sum_split)
  show ?case
  proof (cases "P k")
    case True
    have "v = sum_of add z (List.map w (filter (\<lambda>e. key e = k) es))" using Cons.prems(2) [OF True] p by (simp add: gm_val_def)
    moreover have "filter (\<lambda>e. P (key e) \<and> key e = k) es = filter (\<lambda>e. key e = k) es" using True by (intro filter_cong) auto
    ultimately show ?thesis using split rest True p by (simp add: sum_of_def)
  next
    case False
    then have "filter (\<lambda>e. P (key e) \<and> key e = k) es = []" by (auto simp: filter_empty_conv)
    with split rest False p show ?thesis by (simp add: sum_of_def zero)
  qed
qed

end

section \<open>The aggregates are exact\<close>

text \<open>From the given hour on, the tables hold what counting the rows would give.\<close>

definition aggregates_exact :: "int \<Rightarrow> history_db \<Rightarrow> bool" where
  "aggregates_exact lo d \<longleftrightarrow>
     gm_ok (hd_totals d) \<and> gm_ok (hd_domains d) \<and> gm_ok (hd_clients d) \<and> gm_ok (hd_types d) \<and>
     (\<forall>h \<ge> lo. gm_val no_total (hd_totals d) h = sum_of add_total no_total (List.map (event_total is_cache_hit) (filter (\<lambda>e. hour_key e = h) (hd_rows d)))) \<and>
     (\<forall>h \<ge> lo. \<forall>v. gm_val 0 (hd_domains d) (h, v) = sum_of (+) 0 (List.map (\<lambda>_. 1) (filter (\<lambda>e. hourly_key qv_domain e = (h, v)) (hd_rows d)))) \<and>
     (\<forall>h \<ge> lo. \<forall>v. gm_val 0 (hd_clients d) (h, v) = sum_of (+) 0 (List.map (\<lambda>_. 1) (filter (\<lambda>e. hourly_key qv_client e = (h, v)) (hd_rows d)))) \<and>
     (\<forall>h \<ge> lo. \<forall>v. gm_val 0 (hd_types d) (h, v) = sum_of (+) 0 (List.map (\<lambda>_. 1) (filter (\<lambda>e. hourly_key qv_type e = (h, v)) (hd_rows d))))"

definition empty_db :: history_db where
  "empty_db = \<lparr>hd_rows = [], hd_totals = [], hd_domains = [], hd_clients = [], hd_types = [], hd_migrated = True\<rparr>"

lemma empty_exact: "aggregates_exact lo empty_db"
  by (simp add: aggregates_exact_def empty_db_def gm_val_def sum_of_def)

lemma row_of_simps [simp]:
  "qv_time (row_of e) = qv_time e" "qv_domain (row_of e) = qv_domain e" "qv_client (row_of e) = qv_client e"
  "qv_type (row_of e) = qv_type e" "qv_upstream (row_of e) = qv_upstream e" "qv_blocked (row_of e) = qv_blocked e"
  "is_cache_hit (row_of e) = is_cache_hit e" "hour_key (row_of e) = hour_key e"
  "event_total is_cache_hit (row_of e) = event_total is_cache_hit e"
  by (simp_all add: row_of_def is_cache_hit_def hour_key_def event_total_def)

lemma hourly_key_row [simp]:
  "hourly_key qv_domain (row_of e) = hourly_key qv_domain e" "hourly_key qv_client (row_of e) = hourly_key qv_client e"
  "hourly_key qv_type (row_of e) = hourly_key qv_type e"
  by (simp_all add: hourly_key_def)

lemma insert_exact:
  assumes "aggregates_exact lo d" and "insert_archive_batch ok es d = Some d'"
  shows "aggregates_exact lo d'" "hd_rows d' = hd_rows d @ List.map row_of es"
proof -
  have d': "d' = upsert_hourly_aggregates es (d\<lparr>hd_rows := hd_rows d @ List.map row_of es\<rparr>)"
    using assms(2) by (simp add: insert_archive_batch_def split: if_splits)
  then show "hd_rows d' = hd_rows d @ List.map row_of es" by (simp add: upsert_hourly_aggregates_def)
  have comp: "filter (P \<circ> row_of) es = filter (\<lambda>e. P (row_of e)) es" for P es by (simp add: o_def)
  show "aggregates_exact lo d'"
    using assms(1) unfolding d'
    by (simp add: aggregates_exact_def upsert_hourly_aggregates_def upsert_ok totals.upsert_val counts.upsert_val tally_ok totals.tally_val
        counts.tally_val totals.sum_append counts.sum_append filter_map comp o_def)
qed

lemma drop_hours_facts:
  "gm_ok m \<Longrightarrow> gm_ok (drop_hours hour h m)"
  "h < hour k \<Longrightarrow> gm_get (drop_hours hour h m) k = gm_get m k"
  by (induction m) (auto simp: drop_hours_def)

lemma drop_hours_later: "k \<in> fst ` set (drop_hours hour h m) \<Longrightarrow> h < hour k"
  by (auto simp: drop_hours_def)

lemma tally_keys: "fst ` set (tally add z key w es) \<subseteq> key ` set es"
proof -
  have "fst ` set (foldl (\<lambda>m e. gm_set (key e) (add (gm_val z m (key e)) (w e)) m) m es) \<subseteq> fst ` set m \<union> key ` set es" for m
  proof (induction es arbitrary: m)
    case (Cons e es)
    show ?case using Cons [of "gm_set (key e) (add (gm_val z m (key e)) (w e)) m"] gm_keys_set [of "key e" _ m] by auto
  qed simp
  from this [of "[]"] show ?thesis by (simp add: tally_def)
qed

text \<open>A table after retention: what is at or before the hour is replaced, the rest stays.\<close>

lemma pruned_table:
  fixes m :: "('k, 'v) gomap"
  assumes "gm_ok m" and "\<And>e. hour (key e) = h"
  shows "gm_ok (drop_hours hour h m @ tally add z key w es)"
    and "h < hour k \<Longrightarrow> gm_val z (drop_hours hour h m @ tally add z key w es) k = gm_val z m k"
proof -
  have keys: "k \<in> fst ` set (tally add z key w es) \<Longrightarrow> hour k = h" for k using tally_keys [of add z key w es] assms(2) by auto
  show "gm_ok (drop_hours hour h m @ tally add z key w es)"
    using drop_hours_facts(1) [OF assms(1), of hour h] tally_ok [of add z key w es] drop_hours_later [of _ hour h m] keys by fastforce
  assume k: "h < hour k"
  then have "gm_get (tally add z key w es) k = None" using keys [of k] by (auto simp: map_of_eq_None_iff)
  then show "gm_val z (drop_hours hour h m @ tally add z key w es) k = gm_val z m k"
    using drop_hours_facts(2) [of h hour k m, OF k] by (auto simp: gm_val_def map_add_def split: option.splits)
qed

lemma hour_of_nonneg: "0 \<le> t \<Longrightarrow> hour_of t = 3600 * (t div 3600) \<and> t = 3600 * (t div 3600) + t mod 3600 \<and> 0 \<le> t mod 3600 \<and> t mod 3600 < 3600"
  by (simp add: hour_of_def trunc_div_nonneg mult.commute)

lemma hour_of_bounds: "0 \<le> c \<Longrightarrow> hour_of c \<le> c \<and> c < hour_of c + 3600"
  using hour_of_nonneg [of c] by linarith

lemma hour_of_ge:
  assumes "0 \<le> c"
  shows "hour_of c + 3600 \<le> hour_of t \<longleftrightarrow> hour_of c + 3600 \<le> t"
proof (cases "0 \<le> t")
  case True
  note f = hour_of_nonneg [OF assms] hour_of_nonneg [OF True]
  show ?thesis
  proof
    show "hour_of c + 3600 \<le> t" if "hour_of c + 3600 \<le> hour_of t" using f that by linarith
    assume le: "hour_of c + 3600 \<le> t"
    have "c div 3600 < t div 3600"
    proof (rule ccontr)
      assume "\<not> ?thesis"
      then have "3600 * (t div 3600) \<le> 3600 * (c div 3600)" by simp
      with f le show False by linarith
    qed
    then have "3600 * (c div 3600) + 3600 \<le> 3600 * (t div 3600)" by simp
    with f show "hour_of c + 3600 \<le> hour_of t" by linarith
  qed
next
  case False
  then have "hour_of t \<le> 0" by (simp add: hour_of_def trunc_div_def)
  moreover have "0 \<le> hour_of c" using hour_of_nonneg [OF assms] assms pos_imp_zdiv_nonneg_iff [of 3600 c] by linarith
  ultimately show ?thesis using False by linarith
qed

lemma hour_of_mono: "s \<le> t \<Longrightarrow> hour_of s \<le> hour_of t"
proof -
  assume le: "s \<le> t"
  have neg: "trunc_div t 3600 = - (- t div 3600)" if "t < 0" for t using that by (simp add: trunc_div_def)
  have "trunc_div s 3600 \<le> trunc_div t 3600"
  proof (cases "0 \<le> s")
    case True
    with le show ?thesis by (simp add: trunc_div_nonneg zdiv_mono1)
  next
    case False
    show ?thesis
    proof (cases "0 \<le> t")
      case True
      with False have "trunc_div s 3600 \<le> 0" "0 \<le> trunc_div t 3600"
        by (simp_all add: neg trunc_div_nonneg pos_imp_zdiv_nonneg_iff)
      then show ?thesis by simp
    next
      case f: False
      with False le show ?thesis by (simp add: neg zdiv_mono1)
    qed
  qed
  then show "hour_of s \<le> hour_of t" by (simp add: hour_of_def)
qed

lemma delete_old_filter:
  assumes "\<And>e. P e \<Longrightarrow> cutoff \<le> qv_time e"
  shows "filter P (delete_old n cutoff rows) = filter P rows"
proof -
  have "filter P (fst (foldl (\<lambda>(out, left) e. if 0 < left \<and> qv_time e < cutoff then (out, left - 1) else (out @ [e], left)) (out, left) rows)) =
      filter P out @ filter P rows" for out and left :: nat
  proof (induction rows arbitrary: out left)
    case (Cons e rows)
    have "\<not> P e" if "qv_time e < cutoff" using assms [of e] that by linarith
    then show ?case using Cons [of out "left - 1"] Cons [of "out @ [e]" left] by simp
  qed simp
  then show ?thesis by (simp add: delete_old_def)
qed

lemma prune_exact:
  assumes "aggregates_exact lo d" and "hour_of cutoff < lo" and "\<And>e. lo \<le> hour_key e \<Longrightarrow> cutoff \<le> qv_time e"
  shows "aggregates_exact lo (prune_retention_batch cutoff ok d)"
proof (cases ok)
  case True
  let ?h = "hour_of cutoff"
  have gt: "lo \<le> h \<Longrightarrow> ?h < h" for h using assms(2) by simp
  have keep: "filter (\<lambda>e. hour_key e = h) (delete_old n cutoff rows) = filter (\<lambda>e. hour_key e = h) rows" if "lo \<le> h" for h n rows
    by (rule delete_old_filter) (use assms(3) that in auto)
  have keep2: "filter (\<lambda>e. hourly_key f e = (h, v)) (delete_old n cutoff rows) = filter (\<lambda>e. hourly_key f e = (h, v)) rows" if "lo \<le> h" for f h v n rows
    by (rule delete_old_filter) (use assms(3) that in \<open>auto simp: hourly_key_def\<close>)
  have ok4: "gm_ok (hd_totals d)" "gm_ok (hd_domains d)" "gm_ok (hd_clients d)" "gm_ok (hd_types d)"
    using assms(1) by (simp_all add: aggregates_exact_def)
  show ?thesis
    using assms(1) True gt unfolding aggregates_exact_def prune_retention_batch_def
    by (simp add: Let_def keep keep2 pruned_table [where hour = id and h = ?h, OF ok4(1)]
        pruned_table [where hour = fst and h = ?h, OF ok4(2)] pruned_table [where hour = fst and h = ?h, OF ok4(3)]
        pruned_table [where hour = fst and h = ?h, OF ok4(4)] del: map_append distinct_append)
qed (simp add: prune_retention_batch_def assms(1))

section \<open>Runs of the database\<close>

text \<open>Batches that are archived, with the outcome of the transaction; retention at a time, with its outcome.\<close>

datatype db_op = Archive "stored_event list" bool | Prune int bool

fun db_step :: "db_op \<Rightarrow> history_db \<Rightarrow> history_db" where
  "db_step (Archive es ok) d = (case insert_archive_batch ok es d of None \<Rightarrow> d | Some d' \<Rightarrow> d')"
| "db_step (Prune now ok) d = prune_retention_batch (now - history_retention) ok d"

definition archived_events :: "db_op list \<Rightarrow> stored_event list" where
  "archived_events ops = concat (List.map (\<lambda>x. case x of Archive es ok \<Rightarrow> if ok then es else [] | Prune _ _ \<Rightarrow> []) ops)"

definition prunes_by :: "int \<Rightarrow> db_op list \<Rightarrow> bool" where
  "prunes_by now ops \<longleftrightarrow> list_all (\<lambda>x. case x of Archive _ _ \<Rightarrow> True | Prune t _ \<Rightarrow> t \<le> now) ops"

lemma db_run:
  assumes "aggregates_exact (hour_of (now - 86400) + 3600) d" and "prunes_by now ops" and "86400 \<le> now"
  shows "aggregates_exact (hour_of (now - 86400) + 3600) (fold db_step ops d) \<and>
    filter (\<lambda>e. now - 86400 \<le> qv_time e) (hd_rows (fold db_step ops d)) =
      filter (\<lambda>e. now - 86400 \<le> qv_time e) (hd_rows d @ List.map row_of (archived_events ops))"
  using assms(1,2)
proof (induction ops arbitrary: d)
  case (Cons x ops)
  let ?lo = "hour_of (now - 86400) + 3600" and ?c = "now - 86400"
  have by_now: "prunes_by now ops" using Cons.prems(2) by (simp add: prunes_by_def)
  have "aggregates_exact ?lo (db_step x d) \<and>
      filter (\<lambda>e. ?c \<le> qv_time e) (hd_rows (db_step x d)) = filter (\<lambda>e. ?c \<le> qv_time e) (hd_rows d @ List.map row_of (archived_events [x]))"
  proof (cases x)
    case (Archive es ok)
    show ?thesis
    proof (cases "insert_archive_batch ok es d")
      case None
      then show ?thesis using Archive Cons.prems(1) by (simp add: insert_archive_batch_def archived_events_def split: if_splits)
    next
      case (Some d')
      then have "ok" by (simp add: insert_archive_batch_def split: if_splits)
      with Some insert_exact [OF Cons.prems(1) Some] show ?thesis by (simp add: Archive archived_events_def)
    qed
  next
    case (Prune t ok)
    have t: "t \<le> now" using Cons.prems(2) by (simp add: Prune prunes_by_def)
    let ?cut = "t - history_retention"
    have "?cut \<le> ?c" using t by (simp add: history_retention_def)
    then have lo: "hour_of ?cut < ?lo" using hour_of_mono [of ?cut ?c] by simp
    have later: "?cut \<le> qv_time e" if "?lo \<le> hour_key e" for e
      using that hour_of_ge [of ?c "qv_time e"] hour_of_bounds [of ?c] assms(3) \<open>?cut \<le> ?c\<close> by (simp add: hour_key_def)
    have "filter (\<lambda>e. ?c \<le> qv_time e) (delete_old n ?cut rows) = filter (\<lambda>e. ?c \<le> qv_time e) rows" for n rows
      by (rule delete_old_filter) (use \<open>?cut \<le> ?c\<close> in linarith)
    then show ?thesis
      using prune_exact [OF Cons.prems(1) lo later] by (simp add: Prune archived_events_def prune_retention_batch_def Let_def)
  qed
  with Cons.IH [OF _ by_now, of "db_step x d"] show ?case
    by (cases x) (simp_all add: archived_events_def)
qed (simp add: archived_events_def)

lemma merge_run:
  "dy_rpd (foldl merge_window_event st es) = dy_rpd st + int (length es)"
  "dy_hits (foldl merge_window_event st es) = dy_hits st + int (length (filter is_cache_hit es))"
  "dy_replies (foldl merge_window_event st es) = dy_replies st + int (length (filter (\<lambda>e. qv_upstream e \<noteq> []) es))"
  "dy_total (foldl merge_window_event st es) = dy_total st"
  "gm_val 0 (dy_types (foldl merge_window_event st es)) v = gm_val 0 (dy_types st) v + int (length (filter (\<lambda>e. qv_type e = v) es))"
  "gm_val 0 (dy_domains (foldl merge_window_event st es)) v = gm_val 0 (dy_domains st) v + int (length (filter (\<lambda>e. qv_domain e = v) es))"
  "gm_val 0 (dy_clients (foldl merge_window_event st es)) v = gm_val 0 (dy_clients st) v + int (length (filter (\<lambda>e. qv_client e = v) es))"
  by (induction es arbitrary: st) (auto simp: merge_window_event_def bump_def gm_val_def gomap_simps)

lemma sum_event_totals:
  "ht_total (sum_of add_total no_total (List.map (event_total is_cache_hit) es)) = int (length es)"
  "ht_hits (sum_of add_total no_total (List.map (event_total is_cache_hit) es)) = int (length (filter is_cache_hit es))"
  "ht_replies (sum_of add_total no_total (List.map (event_total is_cache_hit) es)) = int (length (filter (\<lambda>e. qv_upstream e \<noteq> []) es))"
  by (induction es) (simp_all add: sum_of_def add_total_def no_total_def event_total_def)

lemma sum_ones: "sum_of (+) 0 (List.map (\<lambda>_. 1 :: int) es) = int (length es)"
  by (induction es) (simp_all add: sum_of_def)

lemma window_split:
  assumes "c < b"
  shows "length (filter P (filter (\<lambda>e. c \<le> qv_time e \<and> qv_time e < b) es)) + length (filter P (filter (\<lambda>e. b \<le> qv_time e) es)) =
    length (filter P (filter (\<lambda>e. c \<le> qv_time e) es))"
  using assms by (induction es) auto

lemma add_counts_val: "gm_ok extra \<Longrightarrow> gm_val 0 (add_counts extra m) v = gm_val 0 m v + gm_val 0 extra v"
proof (induction extra arbitrary: m)
  case (Cons p extra)
  obtain k n where p: "p = (k, n)" by (cases p)
  have none: "gm_get extra k = None" using Cons.prems p by (simp add: map_of_eq_None_iff)
  have "gm_val 0 (add_counts (p # extra) m) v = gm_val 0 (gm_set k (gm_val 0 m k + n) m) v + gm_val 0 extra v"
    using Cons.IH [of "gm_set k (gm_val 0 m k + n) m"] Cons.prems by (simp add: add_counts_def p)
  with none show ?case by (auto simp: p gm_val_def gomap_simps)
qed (simp add: add_counts_def gm_val_def)

text \<open>The 50 largest entries of a table of counts.\<close>

lemma top_table:
  fixes m :: "(string, int) gomap"
  assumes "gm_ok m" and "best = take n (sort_key (\<lambda>p. - snd p) m)"
  shows "gm_ok best" "length best \<le> n" "gm_val 0 best v = (if v \<in> set (gm_keys best) then gm_val 0 m v else 0)"
    "w \<notin> set (gm_keys best) \<Longrightarrow> gm_get m w = Some b \<Longrightarrow> length best = n \<and> (\<forall>v \<in> set (gm_keys best). b \<le> gm_val 0 m v)"
proof -
  define srt where "srt = sort_key (\<lambda>p. - snd p) m"
  have best: "best = take n srt" by (simp add: assms(2) srt_def)
  have "mset (gm_keys srt) = mset (gm_keys m)" by (simp add: srt_def mset_map)
  then have ok: "gm_ok srt" using assms(1) by (metis mset_eq_imp_distinct_iff)
  then show okt: "gm_ok best" by (simp add: best take_map [symmetric])
  show "length best \<le> n" by (simp add: best)
  have get: "gm_get m v = Some b \<longleftrightarrow> (v, b) \<in> set srt" for v b
    using map_of_eq_Some_iff [OF assms(1), of v b] by (simp add: srt_def)
  have gett: "gm_get best v = Some b \<longleftrightarrow> (v, b) \<in> set best" for v b using map_of_eq_Some_iff [OF okt] by simp
  show "gm_val 0 best v = (if v \<in> set (gm_keys best) then gm_val 0 m v else 0)" for v
  proof (cases "gm_get best v")
    case None
    then have "v \<notin> set (gm_keys best)" unfolding gm_get_None .
    with None show ?thesis by (simp only: gm_val_def option.case if_False)
  next
    case (Some b)
    then have "(v, b) \<in> set best" "v \<in> set (gm_keys best)" using gett by force+
    moreover have "(v, b) \<in> set srt" using calculation(1) by (auto simp: best dest: in_set_takeD)
    ultimately show ?thesis using Some get by (simp only: gm_val_def if_True) (metis option.case(2))
  qed
  assume w: "w \<notin> set (gm_keys best)" "gm_get m w = Some b"
  have split: "srt = best @ drop n srt" by (simp add: best)
  have "(w, b) \<notin> set best" using w(1) by force
  moreover have "(w, b) \<in> set srt" using w(2) get by simp
  ultimately have rest: "(w, b) \<in> set (drop n srt)" by (metis Un_iff set_append split)
  then have "n < length srt" by (cases "n < length srt") auto
  then have "length best = n" by (simp add: best)
  moreover have "b \<le> gm_val 0 m v" if v: "v \<in> set (gm_keys best)" for v
  proof -
    obtain a where a: "(v, a) \<in> set best" using v by auto
    have "sorted_wrt (\<lambda>p q. - snd p \<le> - snd q) (best @ drop n srt)"
      using sorted_sort_key [of "\<lambda>p :: string \<times> int. - snd p" m] split unfolding srt_def [symmetric] sorted_map by simp
    then have "b \<le> a" using a rest by (force simp: sorted_wrt_append)
    moreover have "gm_get m v = Some a" using a get by (auto simp: best dest: in_set_takeD)
    ultimately show ?thesis by (simp only: gm_val_def option.case)
  qed
  ultimately show "length best = n \<and> (\<forall>v \<in> set (gm_keys best). b \<le> gm_val 0 m v)" by blast
qed

text \<open>
  A table that counts events by a value: all of some events, the others only for the values in a list
  of at most 50, which have the highest counts among the others.
\<close>

abbreviation occurrences :: "(stored_event \<Rightarrow> string) \<Rightarrow> string \<Rightarrow> stored_event list \<Rightarrow> int" where
  "occurrences f v es \<equiv> int (length (filter (\<lambda>e. f e = v) es))"

definition counted_top :: "(stored_event \<Rightarrow> string) \<Rightarrow> (string, int) gomap \<Rightarrow> stored_event list \<Rightarrow> stored_event list \<Rightarrow> bool" where
  "counted_top f m whole others \<longleftrightarrow>
     (\<exists>tops. distinct tops \<and> length tops \<le> 50 \<and>
        (\<forall>v. gm_val 0 m v = occurrences f v whole + (if v \<in> set tops then occurrences f v others else 0)) \<and>
        (\<forall>w. w \<notin> set tops \<longrightarrow> 0 < occurrences f w others \<longrightarrow>
           length tops = 50 \<and> (\<forall>v \<in> set tops. occurrences f w others \<le> occurrences f v others)))"

lemma top_sums_counted:
  assumes "\<And>v. gm_val 0 (group_sums lo t) v = occurrences f v others" and "\<And>v. gm_val 0 m v = occurrences f v whole"
  shows "counted_top f (add_counts (top_sums lo t) m) whole others"
proof -
  let ?top = "top_sums lo t"
  have ok: "gm_ok (group_sums lo t)" by (simp add: group_sums_def tally_ok)
  note tt = top_table [OF ok top_sums_def [of lo t]]
  have "distinct (gm_keys ?top)" "length (gm_keys ?top) \<le> 50" using tt(1,2) by simp_all
  moreover have "gm_val 0 (add_counts ?top m) v = occurrences f v whole + (if v \<in> set (gm_keys ?top) then occurrences f v others else 0)" for v
    unfolding add_counts_val [OF tt(1)] tt(3) assms ..
  moreover have "length (gm_keys ?top) = 50 \<and> (\<forall>v \<in> set (gm_keys ?top). occurrences f w others \<le> occurrences f v others)"
    if w: "w \<notin> set (gm_keys ?top)" "0 < occurrences f w others" for w
  proof -
    have "gm_val 0 (group_sums lo t) w \<noteq> 0" using w(2) unfolding assms by simp
    then obtain b where b: "gm_get (group_sums lo t) w = Some b" "b = occurrences f w others"
      using assms(1) [of w] by (auto simp: gm_val_def split: option.splits)
    from tt(4) [OF w(1) b(1)] show ?thesis unfolding b(2) assms by simp
  qed
  ultimately show ?thesis unfolding counted_top_def by blast
qed

text \<open>C15: The statistics of the last 24 hours count exactly the events of that time: whatever batches were
  archived before, with any of their transactions failing, and whenever retention ran, the sums of the
  hourly tables, the partial hour read from the rows and the events still waiting add up to the number of
  archived and waiting events not older than 24 hours, and so do cache hits, replies and query types. The
  candidates for the top domains and clients count every event of the partial hour and every waiting one, and those of
  the complete hours for the 50 values that are most frequent there -- for all values when there are no more than 50.
  (The total of all time in the same record is no statement about the day.)\<close>

theorem day_stats_exact:
  assumes "86400 \<le> now" and "prunes_by now ops"
  shows "let st = day_stats_at now volatile (fold db_step ops empty_db);
             cutoff = now - 86400; complete = hour_of cutoff + 3600;
             day = filter (\<lambda>e. cutoff \<le> qv_time e) (archived_events ops @ volatile);
             whole = filter (\<lambda>e. cutoff \<le> qv_time e \<and> qv_time e < complete) (archived_events ops) @ filter (\<lambda>e. cutoff \<le> qv_time e) volatile;
             others = filter (\<lambda>e. complete \<le> qv_time e) (archived_events ops)
         in dy_rpd st = int (length day) \<and> dy_hits st = int (length (filter is_cache_hit day)) \<and>
            dy_replies st = int (length (filter (\<lambda>e. qv_upstream e \<noteq> []) day)) \<and>
            (\<forall>v. gm_val 0 (dy_types st) v = occurrences qv_type v day) \<and>
            counted_top qv_domain (dy_domains st) whole others \<and> counted_top qv_client (dy_clients st) whole others"
proof -
  let ?c = "now - 86400"
  define lo where "lo = hour_of ?c + 3600"
  define d where "d = fold db_step ops empty_db"
  have run: "aggregates_exact lo d" "filter (\<lambda>e. ?c \<le> qv_time e) (hd_rows d) = filter (\<lambda>e. ?c \<le> qv_time e) (List.map row_of (archived_events ops))"
    using db_run [OF empty_exact assms(2,1)] by (simp_all add: d_def lo_def empty_db_def)
  have c: "?c < lo" using hour_of_bounds [of ?c] assms(1) by (simp add: lo_def)
  have late: "lo \<le> hour_key e \<longleftrightarrow> lo \<le> qv_time e" for e using hour_of_ge [of ?c "qv_time e"] assms(1) by (simp add: lo_def hour_key_def)
  have day: "sum_totals (Some lo) (hd_totals d) =
      sum_of add_total no_total (List.map (event_total is_cache_hit) (filter (\<lambda>e. lo \<le> qv_time e) (hd_rows d)))"
    using totals.sum_range [of "hd_totals d" "\<lambda>h. lo \<le> h" "event_total is_cache_hit" hour_key "hd_rows d"] run(1)
    by (simp add: sum_totals_def late aggregates_exact_def)
  have sums: "gm_val 0 (group_sums lo t) v = occurrences f v (filter (\<lambda>e. lo \<le> qv_time e) (hd_rows d))"
    if "gm_ok t" "\<forall>h \<ge> lo. \<forall>v. gm_val 0 t (h, v) = sum_of (+) 0 (List.map (\<lambda>_. 1) (filter (\<lambda>e. hourly_key f e = (h, v)) (hd_rows d)))" for t f v
  proof -
    have "gm_val 0 (group_sums lo t) v = sum_of (+) 0 (List.map snd (filter (\<lambda>p. lo \<le> fst (fst p) \<and> snd (fst p) = v) t))"
      by (simp add: group_sums_def counts.tally_val conj_commute)
    also have "\<dots> = sum_of (+) 0 (List.map (\<lambda>_. 1) (filter (\<lambda>e. lo \<le> fst (hourly_key f e) \<and> snd (hourly_key f e) = v) (hd_rows d)))"
      by (rule counts.sum_range [where P = "\<lambda>k. lo \<le> fst k \<and> snd k = v"]) (use that in auto)
    finally show ?thesis by (simp add: sum_ones hourly_key_def late conj_commute)
  qed
  have tables: "gm_val 0 (group_sums lo (hd_types d)) v = occurrences qv_type v (filter (\<lambda>e. lo \<le> qv_time e) (hd_rows d))"
    "gm_val 0 (group_sums lo (hd_domains d)) v = occurrences qv_domain v (filter (\<lambda>e. lo \<le> qv_time e) (hd_rows d))"
    "gm_val 0 (group_sums lo (hd_clients d)) v = occurrences qv_client v (filter (\<lambda>e. lo \<le> qv_time e) (hd_rows d))" for v
    by (rule sums; use run(1) in \<open>simp add: aggregates_exact_def\<close>)+
  define old where "old = filter (\<lambda>e. ?c \<le> qv_time e \<and> qv_time e < lo) (hd_rows d)"
  define young where "young = filter (\<lambda>e. lo \<le> qv_time e) (hd_rows d)"
  define new where "new = filter (\<lambda>e. ?c \<le> qv_time e) volatile"
  have sel: "filter Q (hd_rows d) = List.map row_of (filter Q (archived_events ops))"
    if "\<And>e. Q e \<Longrightarrow> ?c \<le> qv_time e" "\<And>e. Q (row_of e) = Q e" for Q
  proof -
    have "filter Q es = filter Q (filter (\<lambda>e. ?c \<le> qv_time e) es)" for es
      by (simp add: conj_absorb) (rule filter_cong, use that(1) in auto)
    then show ?thesis using run(2) that(2) by (metis (no_types, lifting) comp_apply filter_cong filter_map)
  qed
  have parts: "old = List.map row_of (filter (\<lambda>e. ?c \<le> qv_time e \<and> qv_time e < lo) (archived_events ops))"
    "young = List.map row_of (filter (\<lambda>e. lo \<le> qv_time e) (archived_events ops))"
    unfolding old_def young_def by (rule sel; use c in simp)+
  have rows: "length (filter P old) + length (filter P young) = length (filter P (filter (\<lambda>e. ?c \<le> qv_time e) (archived_events ops)))"
    if "\<And>e. P (row_of e) = P e" for P
    unfolding old_def young_def window_split [OF c] run(2) using that by (simp add: filter_map o_def)
  define st where "st = day_stats_at now volatile d"
  have st: "dy_rpd st = int (length young) + int (length old) + int (length new)"
    "dy_hits st = int (length (filter is_cache_hit young)) + int (length (filter is_cache_hit old)) + int (length (filter is_cache_hit new))"
    "dy_replies st = int (length (filter (\<lambda>e. qv_upstream e \<noteq> []) young)) + int (length (filter (\<lambda>e. qv_upstream e \<noteq> []) old)) +
       int (length (filter (\<lambda>e. qv_upstream e \<noteq> []) new))"
    "gm_val 0 (dy_types st) v = occurrences qv_type v young + occurrences qv_type v old + occurrences qv_type v new" for v
    by (simp_all add: st_def day_stats_at_def Let_def merge_run day tables(1) sum_event_totals old_def young_def new_def flip: lo_def)
  have map_occ: "occurrences f v (List.map row_of es) = occurrences f v es" if "\<And>e. f (row_of e) = f e" for f v es
    using that by (simp add: filter_map o_def)
  have young_occ: "occurrences f v (filter (\<lambda>e. lo \<le> qv_time e) (hd_rows d)) = occurrences f v (filter (\<lambda>e. lo \<le> qv_time e) (archived_events ops))"
    if "\<And>e. f (row_of e) = f e" for f v
    using parts(2) unfolding young_def by (simp add: filter_map o_def that)
  define st1 where "st1 = foldl merge_window_event \<lparr>dy_total = ht_total (sum_totals None (hd_totals d)), dy_rpd = ht_total (sum_totals (Some lo) (hd_totals d)),
      dy_hits = ht_hits (sum_totals (Some lo) (hd_totals d)), dy_replies = ht_replies (sum_totals (Some lo) (hd_totals d)),
      dy_types = group_sums lo (hd_types d), dy_domains = [], dy_clients = []\<rparr> old"
  define st2 where "st2 = foldl merge_window_event (st1\<lparr>dy_total := dy_total st1 + int (length volatile)\<rparr>) new"
  have tops: "dy_domains st = add_counts (top_sums lo (hd_domains d)) (dy_domains st2)"
    "dy_clients st = add_counts (top_sums lo (hd_clients d)) (dy_clients st2)"
    by (simp_all add: st_def day_stats_at_def Let_def st2_def st1_def old_def new_def flip: lo_def)
  let ?part = "filter (\<lambda>e. ?c \<le> qv_time e \<and> qv_time e < lo) (archived_events ops)"
  have none: "gm_val 0 [] v = (0 :: int)" for v :: string by (simp add: gm_val_def)
  have whole: "gm_val 0 (dy_domains st2) v = occurrences qv_domain v (?part @ new)"
    "gm_val 0 (dy_clients st2) v = occurrences qv_client v (?part @ new)" for v
    unfolding st2_def st1_def parts(1) by (simp_all add: merge_run filter_map o_def none)
  have top: "counted_top qv_domain (dy_domains st) (?part @ new) (filter (\<lambda>e. lo \<le> qv_time e) (archived_events ops))"
    unfolding tops by (rule top_sums_counted) (simp_all only: whole tables young_occ row_of_simps)
  have top': "counted_top qv_client (dy_clients st) (?part @ new) (filter (\<lambda>e. lo \<le> qv_time e) (archived_events ops))"
    unfolding tops by (rule top_sums_counted) (simp_all only: whole tables young_occ row_of_simps)
  show ?thesis
    using rows [of "\<lambda>_. True"] rows [of is_cache_hit] rows [of "\<lambda>e. qv_upstream e \<noteq> []"] rows [of "\<lambda>e. qv_type e = v" for v] top top'
    unfolding d_def [symmetric] st_def [symmetric] Let_def st filter_append new_def [symmetric] lo_def [symmetric]
    by (auto simp: add.commute simp flip: of_nat_add)
qed

theorem day_stats_exact_witness:
  "dy_rpd (day_stats_at 86400 [no_event] (fold db_step [Archive [no_event] True, Prune 86400 True, Archive [no_event] False] empty_db)) = 2"
  using day_stats_exact [of 86400 "[Archive [no_event] True, Prune 86400 True, Archive [no_event] False]" "[no_event]"]
  by (simp add: Let_def prunes_by_def archived_events_def no_event_def)

lemma queued_facts:
  "queue_ok s \<Longrightarrow> queue_ok (fold push_batch xs s) \<and> same_ring s (fold push_batch xs s) \<and>
   pending_batch (fold push_batch xs s) = drop (length (pending_batch s) + length xs - es_limit s) (pending_batch s @ xs) \<and>
   es_dropped (fold push_batch xs s) = es_dropped s + (length (pending_batch s) + length xs - es_limit s)"
proof (induction xs arbitrary: s)
  case Nil
  then show ?case using backlog.run_contents [of s "[]"] by (simp add: queue_ok_def)
next
  case (Cons x xs)
  note p = push_batch_facts [OF Cons.prems, where e = x]
  note IH = Cons.IH [OF p(6)]
  have lim: "es_limit (push_batch x s) = es_limit s" and fit: "length (pending_batch s) \<le> es_limit s" "1 \<le> es_limit s"
    using p(3) Cons.prems by (simp_all add: same_ring_def queue_ok_def)
  have "length (pending_batch (push_batch x s)) = (if es_limit s \<le> length (pending_batch s) then length (pending_batch s) else Suc (length (pending_batch s)))"
    using fit unfolding p(1) by (cases "pending_batch s") auto
  then have "es_dropped (fold push_batch (x # xs) s) = es_dropped s + (length (pending_batch s) + length (x # xs) - es_limit s)"
    using IH p(2) lim fit by (auto split: if_splits)
  moreover have "same_ring s (fold push_batch (x # xs) s)" using IH p(3) by (simp add: same_ring_def)
  ultimately show ?case using IH backlog.run_contents [OF Cons.prems, of "x # xs"] by simp
qed

text \<open>What a pass leaves: the archived events and the queue, out of what was queued before and meanwhile.\<close>

definition accounts_for :: "stored_event list \<Rightarrow> nat \<Rightarrow> stored_event list \<Rightarrow> stored_event list \<Rightarrow> nat \<Rightarrow> bool" where
  "accounts_for given limit archived queue lost \<longleftrightarrow>
     subseq (archived @ queue) given \<and> length (archived @ queue) + lost = length given \<and> (length given \<le> limit \<longrightarrow> lost = 0)"

lemma subseq_drop: "subseq (drop k xs) xs"
  by (metis append_take_drop_id subseq_drop_many subseq_order.order_refl)

lemma accounts_step:
  assumes "accounts_for (drop k xs @ ys) limit archived queue lost" and "k \<le> length xs" and "length (cs @ xs @ ys) \<le> limit \<Longrightarrow> k = 0"
  shows "accounts_for (cs @ xs @ ys) limit (cs @ archived) queue (k + lost)"
proof -
  have a: "subseq (archived @ queue) (drop k xs @ ys)" "length (archived @ queue) + lost = length (drop k xs @ ys)"
    "length (drop k xs @ ys) \<le> limit \<longrightarrow> lost = 0"
    using assms(1) by (simp_all add: accounts_for_def)
  have "subseq (drop k xs @ ys) (xs @ ys)" by (intro list_emb_append_mono subseq_drop subseq_order.order_refl)
  with a(1) have "subseq (archived @ queue) (xs @ ys)" by (rule subseq_order.trans)
  then have "subseq (cs @ archived @ queue) (cs @ xs @ ys)"
    by (rule list_emb_append_mono [OF subseq_order.order_refl])
  with a(2,3) assms(2,3) show ?thesis by (auto simp: accounts_for_def)
qed

lemma accounts_restore:
  assumes "k \<le> length xs" and "length (cs @ xs) \<le> limit \<Longrightarrow> k = 0" and "j = length cs + length (drop k xs) - limit"
  shows "accounts_for (cs @ xs) limit [] (drop j (cs @ drop k xs)) (k + j)"
proof -
  have "subseq (drop j (cs @ drop k xs)) (cs @ drop k xs)" "subseq (cs @ drop k xs) (cs @ xs)"
    by (intro subseq_drop list_emb_append_mono subseq_order.order_refl)+
  then have "subseq (drop j (cs @ drop k xs)) (cs @ xs)" by (rule subseq_order.trans)
  with assms show ?thesis by (auto simp: accounts_for_def)
qed


text \<open>A queue for two events: while the second of two writes runs and fails, two more events are queued.\<close>

definition full_store :: event_store where
  "full_store = ar_store (store_run 1 0 True 2 1 1 [RingAdd no_event, QueueAdd 0, RingAdd no_event, QueueAdd 0])"

definition demo_rounds :: "(stored_event list \<times> bool) list" where
  "demo_rounds = [([], True), ([no_event, no_event], False)]"

lemma demo_pass: "case archive_loop demo_rounds 0 full_store empty_db of
    (ok, n, left, s, d) \<Rightarrow> \<not> ok \<and> n = 1 \<and> left = [] \<and> length (pending_batch s) = 2 \<and> es_dropped s = 1"
  by code_simp


end
