(* ===== verification/Dashboard_Stats.thy ===== *)
theory Dashboard_Stats
  imports Event_Rates Event_History
begin

text \<open>
  storage/dashboard_stats.go: the time line and the headline numbers of the dashboard, accumulated from
  the rows of the database and the events that are not in it yet, with the summary of the preceding window;
  and the top lists with their trends (toStats of storage/stats.go). Reading the rows can fail at the query,
  at a row or at the end. Ratios are rationals (float64 in the source).
\<close>

section \<open>Summaries and points\<close>

record dashboard_summary =
  dm_queries :: int
  dm_per_minute :: rat
  dm_blocked :: int
  dm_blocked_ratio :: rat
  dm_errors :: int
  dm_error_ratio :: rat
  dm_hits :: int
  dm_hit_ratio :: rat
  dm_rewrites :: int
  dm_local :: int
  dm_local_ratio :: rat
  dm_saved :: int

definition no_summary :: dashboard_summary where
  "no_summary = \<lparr>dm_queries = 0, dm_per_minute = 0, dm_blocked = 0, dm_blocked_ratio = 0, dm_errors = 0, dm_error_ratio = 0, dm_hits = 0,
     dm_hit_ratio = 0, dm_rewrites = 0, dm_local = 0, dm_local_ratio = 0, dm_saved = 0\<rparr>"

record series_point =
  sp_start :: int
  sp_queries :: int
  sp_blocked :: int
  sp_cached :: int
  sp_rewritten :: int
  sp_errors :: int
  sp_forwarded :: int
  sp_nodes :: "(string, int) gomap"

definition new_point :: "int \<Rightarrow> series_point" where
  "new_point x = \<lparr>sp_start = x, sp_queries = 0, sp_blocked = 0, sp_cached = 0, sp_rewritten = 0, sp_errors = 0, sp_forwarded = 0, sp_nodes = []\<rparr>"

record accumulator =
  ac_start :: int
  ac_end :: int
  ac_prev_start :: int
  ac_previous :: "dashboard_summary option"
  ac_prev_replies :: int
  ac_bucket :: int
  ac_summary :: dashboard_summary
  ac_replies :: int
  ac_series :: "series_point list"
  ac_points :: "(int, nat) gomap"
  ac_domains :: "(string, int) gomap"
  ac_clients :: "(string, int) gomap"
  ac_blocked :: "(string, int) gomap"
  ac_types :: "(string, int) gomap"
  ac_nodes :: "(string, int) gomap"
  ac_codes :: "(string, int) gomap"
  ac_degraded :: bool
  ac_errors :: "string list"

section \<open>Classifying an event\<close>

definition is_rewrite_answer :: "stored_event \<Rightarrow> bool" where
  "is_rewrite_answer e \<longleftrightarrow> (let u = trim_space (qv_upstream e) in equal_fold u ''Rewrite'' \<or> equal_fold u ''Local Override'')"

definition dashboard_response_is_error :: "string \<Rightarrow> bool" where
  "dashboard_response_is_error c \<longleftrightarrow> c \<in> set [''NXDOMAIN'', ''SERVFAIL'', ''REFUSED'', ''FORMERR'', ''NOTIMP'', ''TIMEOUT'']"

definition event_code :: "stored_event \<Rightarrow> string" where
  "event_code e = to_upper (trim_space (qv_rcode e))"

definition event_rewritten :: "stored_event \<Rightarrow> bool" where
  "event_rewritten e \<longleftrightarrow> \<not> qv_blocked e \<and> is_rewrite_answer e"

definition event_failed :: "stored_event \<Rightarrow> bool" where
  "event_failed e \<longleftrightarrow> \<not> qv_blocked e \<and> \<not> event_rewritten e \<and> dashboard_response_is_error (event_code e)"

definition event_node :: "stored_event \<Rightarrow> string" where
  "event_node e = (let n = trim_space (qv_node e) in if n = [] then ''local'' else n)"

section \<open>Accumulating\<close>

text \<open>mergeDashboardSummary, on a summary and its count of replies.\<close>

definition merge_summary :: "stored_event \<Rightarrow> dashboard_summary \<times> int \<Rightarrow> dashboard_summary \<times> int" where
  "merge_summary e p =
     (let s = fst p
      in (s\<lparr>dm_queries := dm_queries s + 1, dm_blocked := dm_blocked s + of_bool (qv_blocked e), dm_errors := dm_errors s + of_bool (event_failed e),
            dm_hits := dm_hits s + of_bool (\<not> event_rewritten e \<and> is_cache_hit e), dm_rewrites := dm_rewrites s + of_bool (event_rewritten e)\<rparr>,
          snd p + of_bool (qv_upstream e \<noteq> [])))"

definition point_add :: "series_point \<Rightarrow> stored_event \<Rightarrow> series_point" where
  "point_add p e =
     (let q = p\<lparr>sp_queries := sp_queries p + 1, sp_nodes := bump (event_node e) (sp_nodes p)\<rparr>
      in if qv_blocked e then q\<lparr>sp_blocked := sp_blocked q + 1\<rparr>
         else if event_rewritten e then q\<lparr>sp_rewritten := sp_rewritten q + 1\<rparr>
         else if event_failed e then q\<lparr>sp_errors := sp_errors q + 1\<rparr>
         else if is_cache_hit e then q\<lparr>sp_cached := sp_cached q + 1\<rparr>
         else q\<lparr>sp_forwarded := sp_forwarded q + 1\<rparr>)"

definition bucket_of :: "int \<Rightarrow> int \<Rightarrow> int" where
  "bucket_of b t = t - trunc_rem t b"

definition count_in_window :: "stored_event \<Rightarrow> accumulator \<Rightarrow> accumulator" where
  "count_in_window e a =
     (let node = event_node e; code = event_code e; (s, r) = merge_summary e (ac_summary a, ac_replies a);
          a1 = a\<lparr>ac_summary := s, ac_replies := r, ac_domains := bump (qv_domain e) (ac_domains a), ac_clients := bump (qv_client e) (ac_clients a),
                 ac_types := bump (qv_type e) (ac_types a), ac_nodes := bump node (ac_nodes a),
                 ac_codes := (if code \<noteq> [] then bump code (ac_codes a) else ac_codes a),
                 ac_blocked := (if qv_blocked e then bump (qv_domain e) (ac_blocked a) else ac_blocked a)\<rparr>
      in case gm_get (ac_points a) (bucket_of (ac_bucket a) (qv_time e)) of
           None \<Rightarrow> a1
         | Some i \<Rightarrow> a1\<lparr>ac_series := (ac_series a)[i := point_add (ac_series a ! i) e]\<rparr>)"

definition merge_event :: "accumulator \<Rightarrow> stored_event \<Rightarrow> accumulator" where
  "merge_event a e =
     (let t = qv_time e
      in if ac_previous a \<noteq> None \<and> ac_prev_start a \<le> t \<and> t < ac_start a then
           (case merge_summary e (the (ac_previous a), ac_prev_replies a) of (s, r) \<Rightarrow> a\<lparr>ac_previous := Some s, ac_prev_replies := r\<rparr>)
         else if t < ac_start a \<or> ac_end a < t then a
         else count_in_window e a)"

text \<open>The starts of the buckets: the loop of newDashboardAccumulator.\<close>

function bucket_starts :: "int \<Rightarrow> int \<Rightarrow> int \<Rightarrow> int list" where
  "bucket_starts b stop x = (if 0 < b \<and> x \<le> stop then x # bucket_starts b stop (x + b) else [])"
  by pat_completeness auto
termination by (relation "measure (\<lambda>(b, stop, x). nat (stop + 1 - x))") auto

declare bucket_starts.simps [simp del]

definition new_accumulator :: "int \<Rightarrow> int \<Rightarrow> int \<Rightarrow> int option \<Rightarrow> accumulator" where
  "new_accumulator start stop bucket prev =
     (let starts = bucket_starts bucket stop (bucket_of bucket start)
      in \<lparr>ac_start = start, ac_end = stop, ac_prev_start = (case prev of None \<Rightarrow> 0 | Some p \<Rightarrow> p),
          ac_previous = map_option (\<lambda>_. no_summary) prev, ac_prev_replies = 0, ac_bucket = bucket, ac_summary = no_summary, ac_replies = 0,
          ac_series = List.map new_point starts, ac_points = zip starts [0..<length starts],
          ac_domains = [], ac_clients = [], ac_blocked = [], ac_types = [], ac_nodes = [], ac_codes = [], ac_degraded = False, ac_errors = []\<rparr>)"

definition query_start :: "accumulator \<Rightarrow> int" where
  "query_start a = (if ac_previous a \<noteq> None then ac_prev_start a else ac_start a)"

definition mark_degraded :: "string \<Rightarrow> accumulator \<Rightarrow> accumulator" where
  "mark_degraded name a = a\<lparr>ac_degraded := True, ac_errors := (if name \<in> set (ac_errors a) then ac_errors a else ac_errors a @ [name])\<rparr>"

section \<open>Reading the rows\<close>

text \<open>What the database answers: a failed query, or rows (None is a row that cannot be read) and how they
  end; True in a failure means that the request was cancelled.\<close>

datatype row_read = QueryFailed bool | Rows "stored_event option list" "bool option"

definition merge_stored_events :: "row_read \<Rightarrow> accumulator \<Rightarrow> accumulator option" where
  "merge_stored_events rows a =
     (case rows of
        QueryFailed cancelled \<Rightarrow> if cancelled then None else Some (mark_degraded ''events'' a)
      | Rows rs end \<Rightarrow>
          (let a1 = foldl (\<lambda>a r. case r of None \<Rightarrow> mark_degraded ''events'' a | Some e \<Rightarrow> merge_event a e) a rs
           in case end of
                None \<Rightarrow> Some a1
              | Some cancelled \<Rightarrow> if cancelled then None else Some (mark_degraded ''events'' a1)))"

text \<open>SELECT ... WHERE unix_time >= ? AND unix_time <= ? ORDER BY unix_time.\<close>

definition dashboard_row :: "stored_event \<Rightarrow> stored_event" where
  "dashboard_row e = no_event\<lparr>qv_time := qv_time e, qv_node := qv_node e, qv_domain := qv_domain e, qv_client := qv_client e, qv_type := qv_type e,
     qv_upstream := qv_upstream e, qv_rcode := qv_rcode e, qv_blocked := qv_blocked e, qv_cache := qv_cache e\<rparr>"

definition window_rows :: "accumulator \<Rightarrow> history_db \<Rightarrow> stored_event list" where
  "window_rows a d =
     List.map dashboard_row (sort_key qv_time (filter (\<lambda>e. query_start a \<le> qv_time e \<and> qv_time e \<le> ac_end a) (hd_rows d)))"

section \<open>Finishing\<close>

definition finish_summary :: "int \<Rightarrow> int \<Rightarrow> dashboard_summary \<Rightarrow> dashboard_summary" where
  "finish_summary replies seconds s =
     (let minutes = of_int seconds / 60 :: rat; q = of_int (dm_queries s) :: rat; r = of_int replies :: rat;
          s1 = (if 0 < minutes then s\<lparr>dm_per_minute := q / minutes\<rparr> else s);
          s2 = (if 0 < dm_queries s then s1\<lparr>dm_blocked_ratio := of_int (dm_blocked s) / q * 100, dm_error_ratio := of_int (dm_errors s) / q * 100\<rparr> else s1);
          s3 = (if 0 < replies then s2\<lparr>dm_hit_ratio := of_int (dm_hits s) / r * 100, dm_local_ratio := of_int (dm_hits s + dm_rewrites s) / r * 100\<rparr> else s2)
      in s3\<lparr>dm_local := dm_hits s + dm_rewrites s, dm_saved := dm_hits s * 100\<rparr>)"

text \<open>models.StatEntry, and toStats with the trends of the last snapshot of the category.\<close>

record stat_entry =
  en_key :: string
  en_count :: int
  en_alias :: string
  en_trend :: string

definition entry_trend :: "stat_entry list \<Rightarrow> string \<Rightarrow> int \<Rightarrow> string" where
  "entry_trend recent_top k n =
     (case List.find (\<lambda>e. en_key e = k) recent_top of
        None \<Rightarrow> []
      | Some e \<Rightarrow> if en_count e < n then ''up'' else if n < en_count e then ''down'' else ''stable'')"

definition to_stats :: "(string \<Rightarrow> string) \<Rightarrow> stat_entry list \<Rightarrow> bool \<Rightarrow> (string, int) gomap \<Rightarrow> stat_entry list" where
  "to_stats alias recent_top clients m =
     take 10 (sort_key (\<lambda>e. - en_count e)
       (List.map (\<lambda>(k, n). \<lparr>en_key = k, en_count = n, en_alias = (if clients then alias k else []), en_trend = entry_trend recent_top k n\<rparr>) m))"

text \<open>topDashboardEntries: by count, then by key.\<close>

definition top_dashboard_entries :: "nat \<Rightarrow> (string, int) gomap \<Rightarrow> stat_entry list" where
  "top_dashboard_entries limit m =
     take limit (sort_key (\<lambda>e. - en_count e) (sort_key en_key
       (List.map (\<lambda>(k, n). \<lparr>en_key = k, en_count = n, en_alias = [], en_trend = []\<rparr>) (filter (\<lambda>(k, n). k \<noteq> []) m))))"

record dashboard_stats =
  db_summary :: dashboard_summary
  db_previous :: "dashboard_summary option"
  db_series :: "series_point list"
  db_domains :: "stat_entry list"
  db_clients :: "stat_entry list"
  db_blocked :: "stat_entry list"
  db_types :: "(string, int) gomap"
  db_nodes :: "(string, int) gomap"
  db_codes :: "(string, int) gomap"
  db_degraded :: bool
  db_errors :: "string list"

text \<open>The top lists of the last snapshot, and the aliases of clients.\<close>

record trend_state =
  tr_alias :: "string \<Rightarrow> string"
  tr_domains :: "stat_entry list"
  tr_clients :: "stat_entry list"

definition finish :: "trend_state \<Rightarrow> accumulator \<Rightarrow> dashboard_stats" where
  "finish tr a =
     \<lparr>db_summary = finish_summary (ac_replies a) (ac_end a - ac_start a) (ac_summary a),
      db_previous = map_option (finish_summary (ac_prev_replies a) (ac_start a - ac_prev_start a)) (ac_previous a),
      db_series = ac_series a, db_domains = to_stats (tr_alias tr) (tr_domains tr) False (ac_domains a),
      db_clients = to_stats (tr_alias tr) (tr_clients tr) True (ac_clients a), db_blocked = top_dashboard_entries 10 (ac_blocked a),
      db_types = ac_types a, db_nodes = ac_nodes a, db_codes = ac_codes a, db_degraded = ac_degraded a, db_errors = ac_errors a\<rparr>"

section \<open>The whole request\<close>

datatype dashboard_error = InvalidTimeRange | InvalidComparisonRange | DashboardCancelled | DividedByZero

definition analytics_snapshot :: "event_store \<Rightarrow> stored_event list" where
  "analytics_snapshot s = (if es_persistent s then pending_batch s else get_ordered_events 0 s)"

text \<open>GetDashboardStatsWithComparison; times in nanoseconds. Reading the rows is a function of the
  accumulator, None without a database. A bucket below a second divides by zero.\<close>

definition get_dashboard_stats ::
  "trend_state \<Rightarrow> int \<Rightarrow> int \<Rightarrow> int \<Rightarrow> int option \<Rightarrow> stored_event list \<Rightarrow> (accumulator \<Rightarrow> row_read) option \<Rightarrow> dashboard_error + dashboard_stats" where
  "get_dashboard_stats tr start stop bucket prev volatile read =
     (if \<not> start < stop \<or> bucket \<le> 0 then Inl InvalidTimeRange
      else if (case prev of None \<Rightarrow> False | Some p \<Rightarrow> \<not> p < start) then Inl InvalidComparisonRange
      else let b = bucket div second
           in if b = 0 then Inl DividedByZero
              else let a0 = new_accumulator (start div second) (stop div second) b (map_option (\<lambda>p. p div second) prev)
                   in case (case read of None \<Rightarrow> Some a0 | Some rd \<Rightarrow> merge_stored_events (rd a0) a0) of
                        None \<Rightarrow> Inl DashboardCancelled
                      | Some a1 \<Rightarrow> Inr (finish tr (foldl merge_event a1 volatile)))"

section \<open>What a fold over events accumulates\<close>

definition in_window :: "accumulator \<Rightarrow> stored_event \<Rightarrow> bool" where
  "in_window a e \<longleftrightarrow> ac_start a \<le> qv_time e \<and> qv_time e \<le> ac_end a"

definition in_previous :: "accumulator \<Rightarrow> stored_event \<Rightarrow> bool" where
  "in_previous a e \<longleftrightarrow> ac_previous a \<noteq> None \<and> ac_prev_start a \<le> qv_time e \<and> qv_time e < ac_start a"

lemma merge_event_cases:
  "merge_event a e =
     (if in_previous a e then a\<lparr>ac_previous := Some (fst (merge_summary e (the (ac_previous a), ac_prev_replies a))),
                               ac_prev_replies := snd (merge_summary e (the (ac_previous a), ac_prev_replies a))\<rparr>
      else if in_window a e then count_in_window e a else a)"
  by (auto simp: merge_event_def in_previous_def in_window_def split_beta Let_def)

text \<open>What does not change.\<close>

definition same_frame :: "accumulator \<Rightarrow> accumulator \<Rightarrow> bool" where
  "same_frame a b \<longleftrightarrow> ac_start b = ac_start a \<and> ac_end b = ac_end a \<and> ac_prev_start b = ac_prev_start a \<and> ac_bucket b = ac_bucket a \<and>
     ac_points b = ac_points a \<and> (ac_previous b = None) = (ac_previous a = None) \<and> length (ac_series b) = length (ac_series a) \<and>
     ac_degraded b = ac_degraded a \<and> ac_errors b = ac_errors a"

lemma merge_event_frame: "same_frame a (merge_event a e)"
  by (auto simp: merge_event_cases same_frame_def count_in_window_def Let_def in_previous_def split_beta split: option.splits)

lemma frame_window: "same_frame a b \<Longrightarrow> in_window b = in_window a \<and> in_previous b = in_previous a"
  by (auto simp: same_frame_def in_window_def in_previous_def fun_eq_iff)

lemma merge_event_summary:
  "(ac_summary (merge_event a e), ac_replies (merge_event a e)) = (if in_window a e then merge_summary e (ac_summary a, ac_replies a) else (ac_summary a, ac_replies a))"
  "map_option (\<lambda>p. (p, ac_prev_replies (merge_event a e))) (ac_previous (merge_event a e)) =
     map_option (\<lambda>p. if in_previous a e then merge_summary e (p, ac_prev_replies a) else (p, ac_prev_replies a)) (ac_previous a)"
  by (auto simp: merge_event_cases count_in_window_def Let_def in_previous_def in_window_def split_beta split: option.splits)

lemma merge_events_summary:
  "(ac_summary (foldl merge_event a es), ac_replies (foldl merge_event a es)) =
     fold merge_summary (filter (in_window a) es) (ac_summary a, ac_replies a)"
proof (induction es arbitrary: a)
  case (Cons e es)
  then show ?case using frame_window [OF merge_event_frame, of a e] merge_event_summary(1) [of a e] by (simp split: if_splits)
qed simp

lemma merge_events_previous:
  "map_option (\<lambda>p. (p, ac_prev_replies (foldl merge_event a es))) (ac_previous (foldl merge_event a es)) =
     map_option (\<lambda>p. fold merge_summary (filter (in_previous a) es) (p, ac_prev_replies a)) (ac_previous a)"
proof (induction es arbitrary: a)
  case (Cons e es)
  have "map_option (\<lambda>p. (p, ac_prev_replies (foldl merge_event a (e # es)))) (ac_previous (foldl merge_event a (e # es))) =
      map_option (fold merge_summary (filter (in_previous a) es)) (map_option (\<lambda>p. (p, ac_prev_replies (merge_event a e))) (ac_previous (merge_event a e)))"
    using Cons [of "merge_event a e"] frame_window [OF merge_event_frame, of a e] by (simp add: option.map_comp o_def)
  then show ?case unfolding merge_event_summary(2) by (simp add: option.map_comp o_def cong: option.map_cong)
qed simp

text \<open>The points, when the index of their starts is right.\<close>

definition points_ok :: "int list \<Rightarrow> accumulator \<Rightarrow> bool" where
  "points_ok xs a \<longleftrightarrow> distinct xs \<and> length (ac_series a) = length xs \<and> (\<forall>x i. gm_get (ac_points a) x = Some i \<longleftrightarrow> i < length xs \<and> xs ! i = x)"

lemma points_frame: "points_ok xs a \<Longrightarrow> same_frame a b \<Longrightarrow> points_ok xs b"
  by (simp add: points_ok_def same_frame_def)

lemma merge_event_point:
  assumes ok: "points_ok xs a" and i: "i < length xs"
  shows "ac_series (merge_event a e) ! i =
    (if in_window a e \<and> bucket_of (ac_bucket a) (qv_time e) = xs ! i then point_add (ac_series a ! i) e else ac_series a ! i)"
proof (cases "in_window a e")
  case True
  then have m: "merge_event a e = count_in_window e a" by (auto simp: merge_event_cases in_window_def in_previous_def)
  show ?thesis
  proof (cases "gm_get (ac_points a) (bucket_of (ac_bucket a) (qv_time e))")
    case None
    then have "bucket_of (ac_bucket a) (qv_time e) \<noteq> xs ! i" using ok i unfolding points_ok_def by (metis option.distinct(1))
    with m None show ?thesis by (simp add: count_in_window_def Let_def split_beta)
  next
    case (Some j)
    then have j: "j < length xs" "xs ! j = bucket_of (ac_bucket a) (qv_time e)" using ok by (auto simp: points_ok_def)
    have "xs ! i = xs ! j \<longleftrightarrow> i = j" using ok i j(1) by (simp add: points_ok_def nth_eq_iff_index_eq)
    moreover have "j < length (ac_series a)" using ok j(1) by (simp add: points_ok_def)
    moreover have "ac_series (merge_event a e) = (ac_series a)[j := point_add (ac_series a ! j) e]"
      using m Some by (simp add: count_in_window_def Let_def split_beta)
    ultimately show ?thesis using True j(2) by (cases "i = j") auto
  qed
qed (simp add: merge_event_cases)

lemma merge_events_point:
  assumes "points_ok xs a" and "i < length xs"
  shows "ac_series (foldl merge_event a es) ! i =
    foldl point_add (ac_series a ! i) (filter (\<lambda>e. in_window a e \<and> bucket_of (ac_bucket a) (qv_time e) = xs ! i) es)"
  using assms
proof (induction es arbitrary: a)
  case (Cons e es)
  note f = merge_event_frame [of a e]
  have "in_window (merge_event a e) = in_window a" "ac_bucket (merge_event a e) = ac_bucket a"
    using frame_window [OF f] f by (simp_all add: same_frame_def)
  then show ?case
    using Cons.IH [OF points_frame [OF Cons.prems(1) f] Cons.prems(2)] merge_event_point [OF Cons.prems, of e] by simp
qed simp

lemma merge_events_frame: "same_frame a (foldl merge_event a es)"
proof (induction es arbitrary: a)
  case (Cons e es)
  then show ?case using merge_event_frame [of a e] by (auto simp: same_frame_def)
qed (simp add: same_frame_def)

text \<open>A point and a summary count their events.\<close>

definition point_count :: "(stored_event \<Rightarrow> bool) \<Rightarrow> stored_event list \<Rightarrow> int" where
  "point_count P es = int (length (filter P es))"

lemma point_count_simps [simp]: "point_count P [] = 0" "point_count P (e # es) = of_bool (P e) + point_count P es"
  "point_count P (es @ fs) = point_count P es + point_count P fs"
  by (simp_all add: point_count_def)

definition event_cached :: "stored_event \<Rightarrow> bool" where
  "event_cached e \<longleftrightarrow> \<not> qv_blocked e \<and> \<not> event_rewritten e \<and> \<not> event_failed e \<and> is_cache_hit e"

definition event_forwarded :: "stored_event \<Rightarrow> bool" where
  "event_forwarded e \<longleftrightarrow> \<not> qv_blocked e \<and> \<not> event_rewritten e \<and> \<not> event_failed e \<and> \<not> is_cache_hit e"

lemma points_add:
  "sp_start (foldl point_add p es) = sp_start p" "sp_queries (foldl point_add p es) = sp_queries p + int (length es)"
  "sp_blocked (foldl point_add p es) = sp_blocked p + point_count qv_blocked es"
  "sp_rewritten (foldl point_add p es) = sp_rewritten p + point_count event_rewritten es"
  "sp_errors (foldl point_add p es) = sp_errors p + point_count event_failed es"
  "sp_cached (foldl point_add p es) = sp_cached p + point_count event_cached es"
  "sp_forwarded (foldl point_add p es) = sp_forwarded p + point_count event_forwarded es"
  by (induction es arbitrary: p) (simp_all add: point_add_def Let_def event_cached_def event_forwarded_def event_rewritten_def event_failed_def)

lemma kinds_partition:
  "point_count qv_blocked es + point_count event_rewritten es + point_count event_failed es + point_count event_cached es + point_count event_forwarded es = int (length es)"
  by (induction es) (auto simp: event_cached_def event_forwarded_def event_rewritten_def event_failed_def)

lemma summaries_add:
  "dm_queries (fst (fold merge_summary es p)) = dm_queries (fst p) + int (length es)"
  "dm_blocked (fst (fold merge_summary es p)) = dm_blocked (fst p) + point_count qv_blocked es"
  "dm_errors (fst (fold merge_summary es p)) = dm_errors (fst p) + point_count event_failed es"
  "dm_rewrites (fst (fold merge_summary es p)) = dm_rewrites (fst p) + point_count event_rewritten es"
  by (induction es arbitrary: p) (simp_all add: merge_summary_def Let_def)

section \<open>Buckets\<close>

lemma bucket_starts_set: "0 < b \<Longrightarrow> x \<in> set (bucket_starts b stop first) \<longleftrightarrow> first \<le> x \<and> x \<le> stop \<and> b dvd x - first"
proof (induction b stop first rule: bucket_starts.induct)
  case (1 b stop first)
  show ?case
  proof (cases "first \<le> stop")
    case True
    have "first \<le> x \<and> b dvd x - first \<longleftrightarrow> x = first \<or> first + b \<le> x \<and> b dvd x - (first + b)"
    proof -
      have "b dvd x - (first + b) \<longleftrightarrow> b dvd x - first" by (metis diff_diff_eq dvd_minus_iff dvd_refl dvd_diff_commute dvd_diff_right_iff)
      moreover have "first + b \<le> x" if "first \<le> x" "b dvd x - first" "x \<noteq> first"
        using zdvd_imp_le [of b "x - first"] that by simp
      ultimately show ?thesis using 1 by auto
    qed
    with 1 True show ?thesis by (subst bucket_starts.simps) auto
  next
    case False
    then show ?thesis by (subst bucket_starts.simps) auto
  qed
qed

lemma bucket_starts_distinct: "0 < b \<Longrightarrow> distinct (bucket_starts b stop first)"
proof (induction b stop first rule: bucket_starts.induct)
  case (1 b stop first)
  then show ?case
    using bucket_starts_set [of b first stop "first + b"] by (cases "first \<le> stop") (auto simp: bucket_starts.simps [of b stop first])
qed

lemma bucket_of_nonneg: "0 \<le> t \<Longrightarrow> 0 < b \<Longrightarrow> bucket_of b t = t - t mod b"
  by (simp add: bucket_of_def trunc_rem_nonneg)

lemma bucket_of_iff:
  assumes "0 \<le> t" and "0 < b" and "b dvd x"
  shows "bucket_of b t = x \<longleftrightarrow> x \<le> t \<and> t < x + b"
proof -
  have r: "0 \<le> t mod b" "t mod b < b" using assms(2) by simp_all
  have q: "bucket_of b t = t - t mod b" using assms(1,2) by (rule bucket_of_nonneg)
  have "(t - x) mod b = t mod b" using assms(3) by (metis dvd_imp_mod_0 mod_diff_right_eq diff_zero)
  moreover have "(t - x) mod b = t - x" if "x \<le> t" "t < x + b" using that by (intro mod_pos_pos_trivial) simp_all
  ultimately show ?thesis using q r by (metis add_diff_cancel_left' add_less_cancel_left diff_add_cancel diff_diff_eq2 diff_ge_0_iff_ge)
qed

lemma new_accumulator_points:
  assumes "0 < b"
  shows "points_ok (bucket_starts b stop (bucket_of b start)) (new_accumulator start stop b prev)"
proof -
  let ?xs = "bucket_starts b stop (bucket_of b start)"
  have d: "distinct ?xs" by (rule bucket_starts_distinct [OF assms])
  have "gm_get (zip ?xs [0..<length ?xs]) x = Some i \<longleftrightarrow> i < length ?xs \<and> ?xs ! i = x" for x i
  proof -
    have "gm_ok (zip ?xs [0..<length ?xs])" using d by simp
    then have "gm_get (zip ?xs [0..<length ?xs]) x = Some i \<longleftrightarrow> (x, i) \<in> set (zip ?xs [0..<length ?xs])" by simp
    also have "\<dots> \<longleftrightarrow> i < length ?xs \<and> ?xs ! i = x" by (auto simp: set_zip)
    finally show ?thesis .
  qed
  with d show ?thesis by (simp add: points_ok_def new_accumulator_def Let_def)
qed

section \<open>Counting rows\<close>

lemma dashboard_row_simps [simp]: "qv_time (dashboard_row e) = qv_time e" "qv_blocked (dashboard_row e) = qv_blocked e"
  "event_failed (dashboard_row e) = event_failed e" "event_rewritten (dashboard_row e) = event_rewritten e"
  by (simp_all add: dashboard_row_def event_failed_def event_rewritten_def is_rewrite_answer_def event_code_def)

lemma point_count_filter: "point_count P (filter Q es) = point_count (\<lambda>e. Q e \<and> P e) es"
  by (induction es) auto

lemma length_point_count: "int (length es) = point_count (\<lambda>_. True) es"
  by (simp add: point_count_def)

lemma rows_count:
  assumes "\<And>e. P (dashboard_row e) = P e" and "\<And>e. P e \<Longrightarrow> query_start a \<le> qv_time e \<and> qv_time e \<le> ac_end a"
  shows "point_count P (window_rows a d @ volatile) = point_count P (hd_rows d @ volatile)"
proof -
  let ?Q = "\<lambda>e. query_start a \<le> qv_time e \<and> qv_time e \<le> ac_end a"
  have "point_count P (window_rows a d) = int (length (filter P (sort_key qv_time (filter ?Q (hd_rows d)))))"
    by (simp add: point_count_def window_rows_def filter_map o_def assms(1))
  also have "filter P (sort_key qv_time (filter ?Q (hd_rows d))) = sort_key qv_time (filter P (filter ?Q (hd_rows d)))" by (rule filter_sort)
  also have "int (length (sort_key qv_time (filter P (filter ?Q (hd_rows d))))) = point_count (\<lambda>e. ?Q e \<and> P e) (hd_rows d)"
    by (simp add: point_count_def)
  also have "(\<lambda>e. ?Q e \<and> P e) = P" using assms(2) by (auto simp: fun_eq_iff)
  finally show ?thesis by simp
qed

lemma sum_over_buckets:
  assumes "distinct xs" and "\<And>e. e \<in> set es \<Longrightarrow> f e \<in> set xs"
  shows "sum_list (List.map (\<lambda>x. point_count (\<lambda>e. f e = x) es) xs) = int (length es)"
  using assms(2)
proof (induction es)
  case Nil
  show ?case by (simp add: sum_list_triv)
next
  case (Cons e es)
  have "sum_list (List.map (\<lambda>x. of_bool (f e = x) :: int) xs) = 1"
  proof -
    have "sum_list (List.map (\<lambda>x. of_bool (f e = x) :: int) xs) = (\<Sum>x \<in> set xs. of_bool (f e = x))"
      by (rule sum_list_distinct_conv_sum_set [OF assms(1)])
    also have "\<dots> = (\<Sum>x \<in> set xs. if f e = x then 1 else 0)" by (intro sum.cong refl) simp
    finally show ?thesis using Cons.prems [of e] by (simp add: sum.delta')
  qed
  then show ?case using Cons by (simp add: sum_list_addf)
qed

lemma merge_rows: "foldl (\<lambda>a r. case r of None \<Rightarrow> mark_degraded n a | Some e \<Rightarrow> merge_event a e) a (List.map Some es) = foldl merge_event a es"
  by (induction es arbitrary: a) simp_all

section \<open>The dashboard counts every event once\<close>

text \<open>The events of a kind from one second to another, and a point of the series that is exact.\<close>

definition seen_between :: "int \<Rightarrow> int \<Rightarrow> (stored_event \<Rightarrow> bool) \<Rightarrow> stored_event list \<Rightarrow> int" where
  "seen_between first final P es = point_count (\<lambda>e. first \<le> qv_time e \<and> qv_time e \<le> final \<and> P e) es"

definition point_exact :: "int \<Rightarrow> int \<Rightarrow> int \<Rightarrow> stored_event list \<Rightarrow> series_point \<Rightarrow> bool" where
  "point_exact first final b es p \<longleftrightarrow>
     (let low = max first (sp_start p); high = min final (sp_start p + b - 1)
      in sp_queries p = seen_between low high (\<lambda>_. True) es \<and> sp_blocked p = seen_between low high qv_blocked es \<and>
         sp_rewritten p = seen_between low high event_rewritten es \<and> sp_errors p = seen_between low high event_failed es \<and>
         sp_blocked p + sp_rewritten p + sp_errors p + sp_cached p + sp_forwarded p = sp_queries p)"

lemma point_exact_fold:
  fixes es first final b x
  defines "es1 \<equiv> filter (\<lambda>e. (first \<le> qv_time e \<and> qv_time e \<le> final) \<and> bucket_of b (qv_time e) = x) es"
  assumes "0 \<le> first" and "0 < b" and "b dvd x"
  shows "point_exact first final b es (foldl point_add (new_point x) es1)"
proof -
  have eq: "point_count P es1 = seen_between (max first x) (min final (x + b - 1)) P es" for P
  proof -
    have "first \<le> qv_time e \<Longrightarrow> bucket_of b (qv_time e) = x \<longleftrightarrow> x \<le> qv_time e \<and> qv_time e < x + b" for e
      using bucket_of_iff [of "qv_time e" b x] assms(2-4) by simp
    then show ?thesis
      unfolding es1_def seen_between_def point_count_filter
      by (intro arg_cong [where f = "\<lambda>f. point_count f es"] ext) auto
  qed
  show ?thesis
    using eq [of "\<lambda>_. True"] eq [of qv_blocked] eq [of event_rewritten] eq [of event_failed] kinds_partition [of es1]
    by (simp add: point_exact_def Let_def points_add new_point_def length_point_count)
qed

lemma finish_summary_counts [simp]:
  "dm_queries (finish_summary r w s) = dm_queries s" "dm_blocked (finish_summary r w s) = dm_blocked s"
  "dm_errors (finish_summary r w s) = dm_errors s" "dm_rewrites (finish_summary r w s) = dm_rewrites s"
  by (simp_all add: finish_summary_def Let_def)

lemma finished_summary:
  fixes es Q
  defines "s \<equiv> fst (fold merge_summary (filter Q es) (no_summary, 0))"
  shows "dm_queries s = point_count Q es" "dm_blocked s = point_count (\<lambda>e. Q e \<and> qv_blocked e) es"
    "dm_errors s = point_count (\<lambda>e. Q e \<and> event_failed e) es" "dm_rewrites s = point_count (\<lambda>e. Q e \<and> event_rewritten e) es"
  unfolding s_def by (simp_all add: summaries_add no_summary_def point_count_filter length_point_count)

text \<open>The accumulator after the rows and the volatile events.\<close>

lemma new_accumulator_simps [simp]:
  "ac_start (new_accumulator x y b p) = x" "ac_end (new_accumulator x y b p) = y" "ac_bucket (new_accumulator x y b p) = b"
  "ac_prev_start (new_accumulator x y b (Some w)) = w" "ac_previous (new_accumulator x y b p) = map_option (\<lambda>_. no_summary) p"
  "ac_summary (new_accumulator x y b p) = no_summary" "ac_replies (new_accumulator x y b p) = 0" "ac_prev_replies (new_accumulator x y b p) = 0"
  "ac_series (new_accumulator x y b p) = List.map new_point (bucket_starts b y (bucket_of b x))" "ac_degraded (new_accumulator x y b p) = False"
  "query_start (new_accumulator x y b p) = (case p of None \<Rightarrow> x | Some w \<Rightarrow> w)"
  by (simp_all add: new_accumulator_def query_start_def Let_def split: option.split)

lemma merged_series:
  fixes first final b w es
  defines "a0 \<equiv> new_accumulator first final b w" and "xs \<equiv> bucket_starts b final (bucket_of b first)"
  assumes b: "0 < b" and f: "0 \<le> first"
  shows "ac_series (foldl merge_event a0 es) =
      List.map (\<lambda>x. foldl point_add (new_point x) (filter (\<lambda>e. (first \<le> qv_time e \<and> qv_time e \<le> final) \<and> bucket_of b (qv_time e) = x) es)) xs"
proof (rule nth_equalityI)
  have len: "length (ac_series (foldl merge_event a0 es)) = length xs"
    using merge_events_frame [of a0 es] by (simp add: same_frame_def a0_def xs_def)
  then show "length (ac_series (foldl merge_event a0 es)) =
      length (List.map (\<lambda>x. foldl point_add (new_point x) (filter (\<lambda>e. (first \<le> qv_time e \<and> qv_time e \<le> final) \<and> bucket_of b (qv_time e) = x) es)) xs)" by simp
  have w: "in_window a0 = (\<lambda>e. first \<le> qv_time e \<and> qv_time e \<le> final)" by (simp add: in_window_def fun_eq_iff a0_def)
  fix i
  assume "i < length (ac_series (foldl merge_event a0 es))"
  then have i: "i < length xs" using len by simp
  have "points_ok xs a0" unfolding a0_def xs_def by (rule new_accumulator_points [OF b])
  note merge_events_point [OF this i, of es, unfolded w]
  with i show "ac_series (foldl merge_event a0 es) ! i =
      List.map (\<lambda>x. foldl point_add (new_point x) (filter (\<lambda>e. (first \<le> qv_time e \<and> qv_time e \<le> final) \<and> bucket_of b (qv_time e) = x) es)) xs ! i"
    by (simp add: a0_def xs_def)
qed

lemma bucket_start_facts:
  assumes "0 < b" and "0 \<le> first" and "x \<in> set (bucket_starts b final (bucket_of b first))"
  shows "b dvd x"
proof -
  have "b dvd bucket_of b first" using assms(1,2) by (simp add: bucket_of_nonneg dvd_minus_mod)
  moreover have "b dvd x - bucket_of b first" using assms(1,3) by (simp add: bucket_starts_set)
  ultimately show ?thesis by (metis diff_add_cancel dvd_add)
qed

lemma event_bucket_listed:
  assumes "0 < b" and "0 \<le> first" and "first \<le> t" and "t \<le> final"
  shows "bucket_of b t \<in> set (bucket_starts b final (bucket_of b first))"
proof -
  have q: "bucket_of b t = t - t mod b" "bucket_of b first = first - first mod b" using assms by (simp_all add: bucket_of_nonneg)
  have d: "b dvd t - t mod b" "b dvd first - first mod b" by (simp_all add: dvd_minus_mod)
  have "first - first mod b = b * (first div b)" "t - t mod b = b * (t div b)" by (simp_all add: minus_mod_eq_mult_div)
  moreover have "first div b \<le> t div b" using assms(1,3) by (simp add: zdiv_mono1)
  ultimately have "bucket_of b first \<le> bucket_of b t" using q assms(1) by simp
  moreover have "bucket_of b t \<le> final" using q(1) assms(1,4) pos_mod_sign [of b t] by linarith
  ultimately show ?thesis using assms(1) q d by (simp add: bucket_starts_set dvd_diff)
qed

lemma counted_rows:
  assumes "\<And>e. K (dashboard_row e) = K e" and "\<And>e. Q e \<Longrightarrow> query_start a \<le> qv_time e \<and> qv_time e \<le> ac_end a"
    and "\<And>e. Q (dashboard_row e) = Q e"
  shows "point_count (\<lambda>e. Q e \<and> K e) (window_rows a d @ volatile) = point_count (\<lambda>e. Q e \<and> K e) (hd_rows d @ volatile)"
  using assms by (intro rows_count) auto

lemma series_total:
  fixes first final b es
  defines "xs \<equiv> bucket_starts b final (bucket_of b first)" and "W \<equiv> \<lambda>e. first \<le> qv_time e \<and> qv_time e \<le> final"
  assumes "0 < b" and "0 \<le> first"
  shows "sum_list (List.map (\<lambda>x. sp_queries (foldl point_add (new_point x) (filter (\<lambda>e. W e \<and> bucket_of b (qv_time e) = x) es))) xs) = point_count W es"
proof -
  have "sp_queries (foldl point_add (new_point x) (filter (\<lambda>e. W e \<and> bucket_of b (qv_time e) = x) es)) =
      point_count (\<lambda>e. bucket_of b (qv_time e) = x) (filter W es)" for x
    by (simp add: points_add new_point_def length_point_count point_count_filter)
  moreover have "bucket_of b (qv_time e) \<in> set xs" if "e \<in> set (filter W es)" for e
    using that event_bucket_listed [OF assms(3,4)] by (simp add: xs_def W_def)
  ultimately show ?thesis
    using sum_over_buckets [of xs "filter W es" "\<lambda>e. bucket_of b (qv_time e)"] assms(3)
    by (simp add: xs_def bucket_starts_distinct length_point_count point_count_filter)
qed

lemma answered_from:
  fixes d volatile first final b w tr
  defines "a0 \<equiv> new_accumulator first final b w"
  defines "st \<equiv> finish tr (foldl merge_event a0 (window_rows a0 d @ volatile))" and "es \<equiv> hd_rows d @ volatile"
  assumes b: "0 < b" and f: "0 \<le> first" and p: "query_start a0 \<le> first" and l: "first \<le> final"
  shows "dm_queries (db_summary st) = seen_between first final (\<lambda>_. True) es" "dm_blocked (db_summary st) = seen_between first final qv_blocked es"
    "dm_errors (db_summary st) = seen_between first final event_failed es" "dm_rewrites (db_summary st) = seen_between first final event_rewritten es"
    and "case w of None \<Rightarrow> db_previous st = None
      | Some before \<Rightarrow> \<exists>pv. db_previous st = Some pv \<and> dm_queries pv = seen_between before (first - 1) (\<lambda>_. True) es \<and>
          dm_blocked pv = seen_between before (first - 1) qv_blocked es \<and> dm_errors pv = seen_between before (first - 1) event_failed es \<and>
          dm_rewrites pv = seen_between before (first - 1) event_rewritten es"
    and "sum_list (List.map sp_queries (db_series st)) = dm_queries (db_summary st)"
    and "db_series st = List.map (\<lambda>x. foldl point_add (new_point x) (filter (\<lambda>e. (first \<le> qv_time e \<and> qv_time e \<le> final) \<and> bucket_of b (qv_time e) = x)
      (window_rows a0 d @ volatile))) (bucket_starts b final (bucket_of b first))"
    and "\<not> db_degraded st"
proof -
  define rs where "rs = window_rows a0 d @ volatile"
  define a where "a = foldl merge_event a0 rs"
  let ?W = "\<lambda>e. first \<le> qv_time e \<and> qv_time e \<le> final"
  have st: "st = finish tr a" by (simp add: st_def a_def rs_def)
  have win: "in_window a0 = ?W" by (simp add: in_window_def fun_eq_iff a0_def)
  have W: "point_count (\<lambda>e. ?W e \<and> K e) rs = seen_between first final K es" if "\<And>e. K (dashboard_row e) = K e" for K
    unfolding rs_def es_def seen_between_def
    using counted_rows [of K ?W a0 d volatile, OF that] p by (simp add: a0_def conj_assoc)
  have "(ac_summary a, ac_replies a) = fold merge_summary (filter ?W rs) (no_summary, 0)"
    using merge_events_summary [of a0 rs] win by (simp add: a_def a0_def)
  then have sum: "ac_summary a = fst (fold merge_summary (filter ?W rs) (no_summary, 0))" by (metis fst_conv)
  show q: "dm_queries (db_summary st) = seen_between first final (\<lambda>_. True) es"
    using W [of "\<lambda>_. True"] finished_summary(1) [of ?W rs] by (simp add: st finish_def sum)
  show "dm_blocked (db_summary st) = seen_between first final qv_blocked es"
    using W [of qv_blocked] finished_summary(2) [of ?W rs] by (simp add: st finish_def sum)
  show "dm_errors (db_summary st) = seen_between first final event_failed es"
    using W [of event_failed] finished_summary(3) [of ?W rs] by (simp add: st finish_def sum)
  show "dm_rewrites (db_summary st) = seen_between first final event_rewritten es"
    using W [of event_rewritten] finished_summary(4) [of ?W rs] by (simp add: st finish_def sum)
  show "case w of None \<Rightarrow> db_previous st = None
      | Some before \<Rightarrow> \<exists>pv. db_previous st = Some pv \<and> dm_queries pv = seen_between before (first - 1) (\<lambda>_. True) es \<and>
          dm_blocked pv = seen_between before (first - 1) qv_blocked es \<and> dm_errors pv = seen_between before (first - 1) event_failed es \<and>
          dm_rewrites pv = seen_between before (first - 1) event_rewritten es"
  proof (cases w)
    case None
    then have "ac_previous a = None" using merge_events_frame [of a0 rs] by (simp add: a_def a0_def same_frame_def)
    with None show ?thesis by (simp add: st finish_def)
  next
    case (Some before)
    let ?P = "\<lambda>e. before \<le> qv_time e \<and> qv_time e < first"
    have prev: "in_previous a0 = ?P" by (simp add: in_previous_def fun_eq_iff a0_def Some)
    have P: "point_count (\<lambda>e. ?P e \<and> K e) rs = seen_between before (first - 1) K es" if "\<And>e. K (dashboard_row e) = K e" for K
      unfolding rs_def es_def seen_between_def
      using counted_rows [of K ?P a0 d volatile, OF that] l by (simp add: a0_def Some conj_assoc)
    have "\<exists>z. ac_previous a = Some z \<and> (z, ac_prev_replies a) = fold merge_summary (filter ?P rs) (no_summary, 0)"
      using merge_events_previous [of a0 rs] prev by (simp add: a_def a0_def Some)
    then have "ac_previous a = Some (fst (fold merge_summary (filter ?P rs) (no_summary, 0)))" by (metis fst_conv)
    then show ?thesis
      using finished_summary [of ?P rs] P [of "\<lambda>_. True"] P [of qv_blocked] P [of event_failed] P [of event_rewritten]
      by (simp add: st finish_def Some)
  qed
  note series = merged_series [OF b f, of final w rs]
  then have "db_series st = List.map (\<lambda>x. foldl point_add (new_point x) (filter (\<lambda>e. ?W e \<and> bucket_of b (qv_time e) = x) rs)) (bucket_starts b final (bucket_of b first))"
    by (simp add: st finish_def a_def a0_def)
  then show s: "db_series st = List.map (\<lambda>x. foldl point_add (new_point x) (filter (\<lambda>e. ?W e \<and> bucket_of b (qv_time e) = x)
      (window_rows a0 d @ volatile))) (bucket_starts b final (bucket_of b first))" by (simp add: rs_def)
  show "sum_list (List.map sp_queries (db_series st)) = dm_queries (db_summary st)"
    using series_total [OF b f, of final rs] W [of "\<lambda>_. True"] by (simp add: s q rs_def o_def)
  show "\<not> db_degraded st" using merge_events_frame [of a0 rs] by (simp add: st finish_def a_def same_frame_def a0_def)
qed

lemma point_rows_exact:
  assumes "0 < b" and "0 \<le> first" and "query_start (new_accumulator first final b w) \<le> first" and "first \<le> final"
    and "x \<in> set (bucket_starts b final (bucket_of b first))"
  shows "point_exact first final b (hd_rows d @ volatile) (foldl point_add (new_point x)
    (filter (\<lambda>e. (first \<le> qv_time e \<and> qv_time e \<le> final) \<and> bucket_of b (qv_time e) = x) (window_rows (new_accumulator first final b w) d @ volatile)))"
proof -
  let ?a = "new_accumulator first final b w"
  have "seen_between (max first y) (min final z) K (window_rows ?a d @ volatile) = seen_between (max first y) (min final z) K (hd_rows d @ volatile)"
    if "\<And>e. K (dashboard_row e) = K e" for y z K
    unfolding seen_between_def using counted_rows [of K "\<lambda>e. max first y \<le> qv_time e \<and> qv_time e \<le> min final z" ?a d volatile, OF that] assms(3)
    by (simp add: conj_assoc del: new_accumulator_simps(11))
  moreover have "b dvd x" by (rule bucket_start_facts [OF assms(1,2,5)])
  ultimately show ?thesis
    using point_exact_fold [OF assms(2,1), of x final "window_rows ?a d @ volatile"] by (simp add: point_exact_def Let_def)
qed

text \<open>What a request without a failed read is answered.\<close>

definition summary_exact :: "int \<Rightarrow> int \<Rightarrow> stored_event list \<Rightarrow> dashboard_summary \<Rightarrow> bool" where
  "summary_exact first final es s \<longleftrightarrow>
     dm_queries s = seen_between first final (\<lambda>_. True) es \<and> dm_blocked s = seen_between first final qv_blocked es \<and>
     dm_errors s = seen_between first final event_failed es \<and> dm_rewrites s = seen_between first final event_rewritten es"

definition series_exact :: "int \<Rightarrow> int \<Rightarrow> int \<Rightarrow> stored_event list \<Rightarrow> dashboard_stats \<Rightarrow> bool" where
  "series_exact first final b es st \<longleftrightarrow>
     List.map sp_start (db_series st) = bucket_starts b final (first - first mod b) \<and> list_all (point_exact first final b es) (db_series st) \<and>
     sum_list (List.map sp_queries (db_series st)) = dm_queries (db_summary st)"

lemma dashboard_series_exact:
  assumes "0 \<le> start" and "start < stop" and "second \<le> bucket" and "case prev of None \<Rightarrow> True | Some p \<Rightarrow> p < start"
  shows "\<exists>st. get_dashboard_stats tr start stop bucket prev volatile (Some (\<lambda>a. Rows (List.map Some (window_rows a d)) None)) = Inr st \<and>
      \<not> db_degraded st \<and> summary_exact (start div second) (stop div second) (hd_rows d @ volatile) (db_summary st) \<and>
      series_exact (start div second) (stop div second) (bucket div second) (hd_rows d @ volatile) st \<and>
      (case prev of None \<Rightarrow> db_previous st = None
       | Some p \<Rightarrow> \<exists>pv. db_previous st = Some pv \<and> summary_exact (p div second) (start div second - 1) (hd_rows d @ volatile) pv)"
proof -
  define first where "first = start div second"
  define final where "final = stop div second"
  define b where "b = bucket div second"
  define w where "w = map_option (\<lambda>p. p div second) prev"
  have sec: "0 < second" by (simp add: second_def)
  have pos: "0 < b" "0 \<le> first" "query_start (new_accumulator first final b w) \<le> first" "first \<le> final" "0 < bucket"
    using assms sec pos_imp_zdiv_pos_iff [of second bucket]
    by (auto simp: b_def first_def w_def final_def pos_imp_zdiv_nonneg_iff zdiv_mono1 split: option.splits)
  define a0 where "a0 = new_accumulator first final b w"
  define st where "st = finish tr (foldl merge_event a0 (window_rows a0 d @ volatile))"
  have valid: "\<not> (case prev of None \<Rightarrow> False | Some p \<Rightarrow> \<not> p < start)" using assms(4) by (simp split: option.splits)
  have run: "get_dashboard_stats tr start stop bucket prev volatile (Some (\<lambda>a. Rows (List.map Some (window_rows a d)) None)) = Inr st"
    unfolding get_dashboard_stats_def if_not_P [OF valid]
    using assms(2) pos
    by (simp add: merge_stored_events_def Let_def merge_rows st_def a0_def first_def final_def b_def w_def)
  note f = answered_from [OF pos(1-4), of tr d volatile, folded a0_def, folded st_def]
  have starts: "List.map sp_start (db_series st) = bucket_starts b final (first - first mod b)"
    using f(7) bucket_of_nonneg [OF pos(2,1)] by (simp add: o_def points_add new_point_def)
  have points: "list_all (point_exact first final b (hd_rows d @ volatile)) (db_series st)"
    using point_rows_exact [OF pos(1-4)] f(7) by (simp add: list_all_iff a0_def)
  have prev: "case prev of None \<Rightarrow> db_previous st = None
       | Some p \<Rightarrow> \<exists>pv. db_previous st = Some pv \<and> summary_exact (p div second) (start div second - 1) (hd_rows d @ volatile) pv"
    using f(5) by (cases prev) (simp_all add: w_def summary_exact_def first_def)
  have exact: "summary_exact first final (hd_rows d @ volatile) (db_summary st)" using f(1-4) by (simp add: summary_exact_def)
  have series: "series_exact first final b (hd_rows d @ volatile) st" using starts points f(6) by (simp add: series_exact_def)
  show ?thesis
    using run f(8) exact series prev unfolding first_def final_def b_def by blast
qed

end
