(* ===== verification/Node_Inventory.thy ===== *)
theory Node_Inventory
  imports Prelude
begin

text \<open>
  storage/nodes.go: what a controller knows about its nodes. The statuses are keyed by a stable identity
  and indexed by display name; decommissioned identities leave a tombstone in memory and in the database.
  The mutex of the statuses makes every operation atomic; DecommissionNode forgets the health of a node
  in a second critical section, so its two halves are two steps. Times are nanoseconds, tombstones hold
  seconds in the database. A set of Go is a list without repetitions.
\<close>

section \<open>Node statuses\<close>

text \<open>models.NodeStatus; None stands for a nil map.\<close>

record node_status =
  ns_id :: string
  ns_name :: string
  ns_last_seen :: int
  ns_online :: bool
  ns_version :: string
  ns_go_version :: string
  ns_build :: string
  ns_memory :: rat
  ns_goroutines :: int
  ns_db_size :: rat
  ns_health :: "(string, rat) gomap option"
  ns_revision :: string
  ns_desired :: string
  ns_previous :: string
  ns_schema :: int
  ns_compatible :: bool
  ns_apply_error :: string
  ns_apply_ms :: int
  ns_skew_ms :: int
  ns_depth :: int
  ns_bytes :: int
  ns_oldest :: rat
  ns_endpoint_errors :: "(string, string) gomap option"
  ns_ingest_error :: string
  ns_heartbeat_error :: string
  ns_sync_error :: string
  ns_source :: string
  ns_duplicate :: bool

definition no_status :: node_status where
  "no_status = \<lparr>ns_id = [], ns_name = [], ns_last_seen = 0, ns_online = False, ns_version = [], ns_go_version = [], ns_build = [],
     ns_memory = 0, ns_goroutines = 0, ns_db_size = 0, ns_health = None, ns_revision = [], ns_desired = [], ns_previous = [],
     ns_schema = 0, ns_compatible = False, ns_apply_error = [], ns_apply_ms = 0, ns_skew_ms = 0, ns_depth = 0, ns_bytes = 0,
     ns_oldest = 0, ns_endpoint_errors = None, ns_ingest_error = [], ns_heartbeat_error = [], ns_sync_error = [], ns_source = [],
     ns_duplicate = False\<rparr>"

definition is_online :: "int \<Rightarrow> int \<Rightarrow> node_status \<Rightarrow> bool" where
  "is_online threshold now n \<longleftrightarrow> now - ns_last_seen n < threshold"

section \<open>The inventory\<close>

record inventory =
  iv_threshold :: int
  iv_statuses :: "(string, node_status) gomap"
  iv_names :: "(string, string list) gomap"
  iv_tombstones :: "(string, int) gomap"
  iv_health :: "(string, (string, rat) gomap) gomap"
  iv_history :: "(string, (string, rat list) gomap) gomap"
  iv_rows :: "(string, string \<times> int) gomap"

definition new_inventory :: "int \<Rightarrow> inventory" where
  "new_inventory threshold = \<lparr>iv_threshold = threshold, iv_statuses = [], iv_names = [], iv_tombstones = [], iv_health = [], iv_history = [],
     iv_rows = []\<rparr>"

definition max_node_statuses :: nat where
  "max_node_statuses = 4096"

datatype inventory_error = NodeTombstoned | NodeInventoryFull

definition name_group :: "inventory \<Rightarrow> string \<Rightarrow> string list" where
  "name_group iv name = (case gm_get (iv_names iv) name of None \<Rightarrow> [] | Some g \<Rightarrow> g)"

definition refresh_duplicate_name_warnings :: "string \<Rightarrow> inventory \<Rightarrow> inventory" where
  "refresh_duplicate_name_warnings name iv =
     (let members = name_group iv name; duplicate = 1 < length members
      in iv\<lparr>iv_statuses := foldl (\<lambda>m i. case gm_get m i of None \<Rightarrow> m | Some st \<Rightarrow> gm_set i (st\<lparr>ns_duplicate := duplicate\<rparr>) m) (iv_statuses iv) members\<rparr>)"

definition index_node_name :: "string \<Rightarrow> string \<Rightarrow> inventory \<Rightarrow> inventory" where
  "index_node_name name i iv =
     refresh_duplicate_name_warnings name (iv\<lparr>iv_names := gm_set name (List.insert i (name_group iv name)) (iv_names iv)\<rparr>)"

definition unindex_node_name :: "string \<Rightarrow> string \<Rightarrow> inventory \<Rightarrow> inventory" where
  "unindex_node_name name i iv =
     (let members = removeAll i (name_group iv name)
      in if members = [] then iv\<lparr>iv_names := gm_del name (iv_names iv)\<rparr>
         else refresh_duplicate_name_warnings name (iv\<lparr>iv_names := gm_set name members (iv_names iv)\<rparr>))"

text \<open>evictOfflineNodeLocked: the first of the least recently seen ones, in the order of the map.\<close>

definition evict_offline_node :: "int \<Rightarrow> inventory \<Rightarrow> inventory option" where
  "evict_offline_node now iv =
     (case scan_min (\<lambda>(i, st). ns_last_seen st) None (filter (\<lambda>(i, st). \<not> is_online (iv_threshold iv) now st) (iv_statuses iv)) of
        None \<Rightarrow> None
      | Some (i, st) \<Rightarrow> Some (unindex_node_name (ns_name st) i (iv\<lparr>iv_statuses := gm_del i (iv_statuses iv)\<rparr>)))"

definition node_identity :: "string \<Rightarrow> string \<Rightarrow> string" where
  "node_identity i name = (if trim_space i = [] then name else trim_space i)"

definition update_node_status :: "int \<Rightarrow> string \<Rightarrow> string \<Rightarrow> node_status \<Rightarrow> inventory \<Rightarrow> inventory_error option \<times> inventory" where
  "update_node_status now identity0 name0 status iv =
     (let name = (if name0 = [] then ''unknown'' else name0); i = node_identity identity0 name
      in if gm_get (iv_tombstones iv) i \<noteq> None then (Some NodeTombstoned, iv)
         else let previous = gm_get (iv_statuses iv) i;
                  room = (if previous = None \<and> max_node_statuses \<le> length (iv_statuses iv) then evict_offline_node now iv else Some iv)
              in case room of
                   None \<Rightarrow> (Some NodeInventoryFull, iv)
                 | Some iv1 \<Rightarrow>
                     let st = status\<lparr>ns_id := i, ns_name := name, ns_online := True, ns_last_seen := now\<rparr>;
                         iv2 = iv1\<lparr>iv_statuses := gm_set i st (iv_statuses iv1)\<rparr>;
                         iv3 = (case previous of None \<Rightarrow> iv2
                                | Some p \<Rightarrow> if ns_name p \<noteq> name then unindex_node_name (ns_name p) i iv2 else iv2)
                     in (None, index_node_name name i iv3))"

section \<open>Health\<close>

definition health_limit :: nat where
  "health_limit = 20"

definition push_latency :: "rat \<Rightarrow> rat list \<Rightarrow> rat list" where
  "push_latency x h = (let h1 = h @ [x] in if health_limit < length h1 then tl h1 else h1)"

definition set_upstream_health :: "string \<Rightarrow> (string, rat) gomap \<Rightarrow> inventory \<Rightarrow> inventory" where
  "set_upstream_health node0 health iv =
     (let node = (if node0 = [] then ''local'' else node0)
      in if gm_get (iv_tombstones iv) node \<noteq> None then iv
         else let old = (if gm_get (iv_health iv) node = None then [] else case gm_get (iv_history iv) node of None \<Rightarrow> [] | Some h \<Rightarrow> h);
                  new = foldl (\<lambda>h (ip, lat). gm_set ip (push_latency lat (case gm_get h ip of None \<Rightarrow> [] | Some l \<Rightarrow> l)) h) old health
              in iv\<lparr>iv_health := gm_set node health (iv_health iv), iv_history := gm_set node new (iv_history iv)\<rparr>)"

definition get_upstream_health :: "inventory \<Rightarrow> (string, (string, rat) gomap) gomap" where
  "get_upstream_health iv = iv_health iv"

section \<open>Reading the inventory\<close>

definition clone_node_status :: "inventory \<Rightarrow> int \<Rightarrow> node_status \<Rightarrow> node_status" where
  "clone_node_status iv now st = st\<lparr>ns_online := is_online (iv_threshold iv) now st\<rparr>"

text \<open>GetNodeStatus: an identity, or else the lowest identity of a display name.\<close>

definition get_node_status :: "int \<Rightarrow> string \<Rightarrow> inventory \<Rightarrow> node_status option" where
  "get_node_status now name iv =
     (case gm_get (iv_statuses iv) name of
        Some st \<Rightarrow> Some (clone_node_status iv now st)
      | None \<Rightarrow> case scan_min id None (name_group iv name) of
                  None \<Rightarrow> map_option (clone_node_status iv now) (gm_get (iv_statuses iv) [])
                | Some i \<Rightarrow> map_option (clone_node_status iv now) (gm_get (iv_statuses iv) i))"

definition get_node_status_by_id :: "int \<Rightarrow> string \<Rightarrow> inventory \<Rightarrow> node_status option" where
  "get_node_status_by_id now i iv = map_option (clone_node_status iv now) (gm_get (iv_statuses iv) (trim_space i))"

definition get_node_statuses :: "int \<Rightarrow> inventory \<Rightarrow> node_status list" where
  "get_node_statuses now iv = sort_key (\<lambda>st. [ns_name st, ns_id st]) (List.map (\<lambda>(i, st). clone_node_status iv now st) (iv_statuses iv))"

definition is_node_tombstoned :: "string \<Rightarrow> inventory \<Rightarrow> bool" where
  "is_node_tombstoned i iv \<longleftrightarrow> gm_get (iv_tombstones iv) (trim_space i) \<noteq> None"

section \<open>Decommissioning\<close>

datatype db_outcome = DbUnavailable | DbFailed | DbDone

text \<open>DecommissionNode up to the release of the status mutex, and the health it then forgets.\<close>

definition mark_decommissioned :: "int \<Rightarrow> db_outcome \<Rightarrow> string \<Rightarrow> inventory \<Rightarrow> (bool \<times> bool) \<times> inventory" where
  "mark_decommissioned now db i0 iv =
     (let i = trim_space i0
      in case gm_get (iv_statuses iv) i of
           None \<Rightarrow> ((False, False), iv)
         | Some st \<Rightarrow> if db \<noteq> DbDone then ((False, True), iv)
             else ((True, False), unindex_node_name (ns_name st) i
                (iv\<lparr>iv_statuses := gm_del i (iv_statuses iv), iv_rows := gm_set i (ns_name st, now div second) (iv_rows iv),
                    iv_tombstones := gm_set i now (iv_tombstones iv)\<rparr>)))"

definition forget_health :: "string \<Rightarrow> inventory \<Rightarrow> inventory" where
  "forget_health i0 iv =
     iv\<lparr>iv_health := gm_del (trim_space i0) (iv_health iv), iv_history := gm_del (trim_space i0) (iv_history iv)\<rparr>"

text \<open>The results: whether the node was decommissioned, and whether an error is returned.\<close>

definition decommission_node :: "int \<Rightarrow> db_outcome \<Rightarrow> string \<Rightarrow> inventory \<Rightarrow> (bool \<times> bool) \<times> inventory" where
  "decommission_node now db i iv =
     (case mark_decommissioned now db i iv of (res, iv1) \<Rightarrow> (res, if fst res then forget_health i iv1 else iv1))"

definition restore_node :: "db_outcome \<Rightarrow> string \<Rightarrow> inventory \<Rightarrow> (bool \<times> bool) \<times> inventory" where
  "restore_node db i0 iv =
     (let i = trim_space i0
      in if gm_get (iv_tombstones iv) i = None then ((False, False), iv)
         else if db \<noteq> DbDone then ((False, True), iv)
         else ((True, False), iv\<lparr>iv_rows := gm_del i (iv_rows iv), iv_tombstones := gm_del i (iv_tombstones iv)\<rparr>))"

text \<open>loadNodeTombstones in the Init of a new process; a table that cannot be read is only logged.\<close>

definition load_node_tombstones :: "bool \<Rightarrow> inventory \<Rightarrow> inventory" where
  "load_node_tombstones readable iv =
     (if readable then iv\<lparr>iv_tombstones := foldl (\<lambda>m (i, (name, t)). gm_set i (t * second) m) (iv_tombstones iv) (iv_rows iv)\<rparr> else iv)"

definition restart_inventory :: "bool \<Rightarrow> inventory \<Rightarrow> inventory" where
  "restart_inventory readable iv = load_node_tombstones readable (new_inventory (iv_threshold iv)\<lparr>iv_rows := iv_rows iv\<rparr>)"

section \<open>Runs\<close>

datatype node_op =
    NodeUpdate int string string node_status
  | NodeHealth string "(string, rat) gomap"
  | NodeDecommission int db_outcome string
  | NodeForget string
  | NodeRestore db_outcome string
  | NodeRestart bool

fun node_step :: "node_op \<Rightarrow> inventory \<Rightarrow> inventory" where
  "node_step (NodeUpdate now i name st) iv = snd (update_node_status now i name st iv)"
| "node_step (NodeHealth node h) iv = set_upstream_health node h iv"
| "node_step (NodeDecommission now db i) iv = snd (mark_decommissioned now db i iv)"
| "node_step (NodeForget i) iv = forget_health i iv"
| "node_step (NodeRestore db i) iv = snd (restore_node db i iv)"
| "node_step (NodeRestart readable) iv = restart_inventory readable iv"

section \<open>The index of display names\<close>

definition named :: "inventory \<Rightarrow> string \<Rightarrow> string option" where
  "named iv i = map_option ns_name (gm_get (iv_statuses iv) i)"

definition flagged :: "string set \<Rightarrow> inventory \<Rightarrow> bool" where
  "flagged N iv \<longleftrightarrow> (\<forall>i st. gm_get (iv_statuses iv) i = Some st \<longrightarrow>
     ns_id st = i \<and> i \<noteq> [] \<and> (ns_name st \<notin> N \<longrightarrow> ns_duplicate st = (1 < length (name_group iv (ns_name st)))))"

definition groups_ok :: "inventory \<Rightarrow> bool" where
  "groups_ok iv \<longleftrightarrow> gm_ok (iv_statuses iv) \<and> gm_ok (iv_names iv) \<and> (\<forall>n. distinct (name_group iv n) \<and> gm_get (iv_names iv) n \<noteq> Some [])"

text \<open>The index is right but for what it says of one identity and for the warnings of some names.\<close>

definition nearly_indexed :: "string \<Rightarrow> string set \<Rightarrow> inventory \<Rightarrow> bool" where
  "nearly_indexed i N iv \<longleftrightarrow> groups_ok iv \<and> flagged N iv \<and>
     (\<forall>n j. j \<noteq> i \<longrightarrow> (j \<in> set (name_group iv n)) = (named iv j = Some n)) \<and> (\<forall>n. i \<in> set (name_group iv n) \<longrightarrow> n \<in> N)"

definition indexed :: "inventory \<Rightarrow> bool" where
  "indexed iv \<longleftrightarrow> groups_ok iv \<and> flagged {} iv \<and> (\<forall>n j. (j \<in> set (name_group iv n)) = (named iv j = Some n))"

lemma set_flags:
  "gm_get (foldl (\<lambda>m i. case gm_get m i of None \<Rightarrow> m | Some st \<Rightarrow> gm_set i (st\<lparr>ns_duplicate := d\<rparr>) m) m is) k =
     (if k \<in> set is then map_option (\<lambda>st. st\<lparr>ns_duplicate := d\<rparr>) (gm_get m k) else gm_get m k)"
  "gm_keys (foldl (\<lambda>m i. case gm_get m i of None \<Rightarrow> m | Some st \<Rightarrow> gm_set i (st\<lparr>ns_duplicate := d\<rparr>) m) m is) = gm_keys m"
proof (induction "is" arbitrary: m)
  case (Cons i "is")
  { case 1 show ?case using Cons.IH(1) by (auto simp: gomap_simps split: option.splits) }
  { case 2
    have "gm_keys (gm_set i v m) = gm_keys m" if "gm_get m i = Some w" for v w
      using that by (force simp: update_keys dest: map_of_SomeD)
    then show ?case using Cons.IH(2) by (simp split: option.splits) }
qed simp_all

lemma refresh_group [simp]: "name_group (refresh_duplicate_name_warnings name iv) n = name_group iv n"
  by (simp add: refresh_duplicate_name_warnings_def Let_def name_group_def)

lemma refresh_facts [simp]:
  "iv_names (refresh_duplicate_name_warnings name iv) = iv_names iv"
  "iv_tombstones (refresh_duplicate_name_warnings name iv) = iv_tombstones iv"
  "iv_rows (refresh_duplicate_name_warnings name iv) = iv_rows iv"
  "iv_health (refresh_duplicate_name_warnings name iv) = iv_health iv"
  "iv_history (refresh_duplicate_name_warnings name iv) = iv_history iv"
  "iv_threshold (refresh_duplicate_name_warnings name iv) = iv_threshold iv"
  "gm_keys (iv_statuses (refresh_duplicate_name_warnings name iv)) = gm_keys (iv_statuses iv)"
  by (simp_all add: refresh_duplicate_name_warnings_def Let_def set_flags)

lemma refresh_get:
  "gm_get (iv_statuses (refresh_duplicate_name_warnings name iv)) i =
     (if i \<in> set (name_group iv name) then map_option (\<lambda>st. st\<lparr>ns_duplicate := 1 < length (name_group iv name)\<rparr>) (gm_get (iv_statuses iv) i)
      else gm_get (iv_statuses iv) i)"
  unfolding refresh_duplicate_name_warnings_def Let_def by (simp add: set_flags)

lemma refresh_named [simp]: "named (refresh_duplicate_name_warnings name iv) i = named iv i"
  by (simp add: named_def refresh_get option.map_comp o_def)

lemma refresh_length [simp]: "length (iv_statuses (refresh_duplicate_name_warnings name iv)) = length (iv_statuses iv)"
  using arg_cong [OF refresh_facts(7) [of name iv], of length] by (simp del: refresh_facts)

text \<open>Refreshing a name repairs its warnings, when its group is exact.\<close>

lemma refresh_flagged:
  assumes "flagged N iv" and "\<And>i n. named iv i = Some n \<Longrightarrow> i \<in> set (name_group iv name) \<longleftrightarrow> n = name"
  shows "flagged (N - {name}) (refresh_duplicate_name_warnings name iv)"
  unfolding flagged_def
proof (intro allI impI)
  fix i st assume st: "gm_get (iv_statuses (refresh_duplicate_name_warnings name iv)) i = Some st"
  then obtain st0 where st0: "gm_get (iv_statuses iv) i = Some st0" by (auto simp: refresh_get split: if_splits)
  note f = assms(1) [unfolded flagged_def, rule_format, OF st0]
  show "ns_id st = i \<and> i \<noteq> [] \<and> (ns_name st \<notin> N - {name} \<longrightarrow>
      ns_duplicate st = (1 < length (name_group (refresh_duplicate_name_warnings name iv) (ns_name st))))"
  proof (cases "i \<in> set (name_group iv name)")
    case True
    then have "st = st0\<lparr>ns_duplicate := 1 < length (name_group iv name)\<rparr>" using st st0 by (simp add: refresh_get)
    moreover have "ns_name st0 = name" using assms(2) [of i "ns_name st0"] True st0 by (simp add: named_def)
    ultimately show ?thesis using f by simp
  next
    case False
    then have "st = st0" using st st0 by (simp add: refresh_get)
    moreover have "ns_name st0 \<noteq> name" using assms(2) [of i "ns_name st0"] False st0 by (auto simp: named_def)
    ultimately show ?thesis using f by simp
  qed
qed

lemma refresh_groups [simp]: "groups_ok (refresh_duplicate_name_warnings name iv) = groups_ok iv"
  by (simp only: groups_ok_def refresh_facts refresh_group)

lemma group_set: "name_group (iv\<lparr>iv_names := gm_set name g (iv_names iv)\<rparr>) n = (if n = name then g else name_group iv n)"
  "name_group (iv\<lparr>iv_names := gm_del name (iv_names iv)\<rparr>) n = (if n = name then [] else name_group iv n)"
  "name_group (iv\<lparr>iv_statuses := m\<rparr>) = name_group iv"
  by (auto simp: name_group_def gomap_simps)

lemma named_names [simp]: "named (iv\<lparr>iv_names := m\<rparr>) = named iv"
  by (simp add: named_def fun_eq_iff)

lemma groups_set: "groups_ok iv \<Longrightarrow> distinct g \<Longrightarrow> g \<noteq> [] \<Longrightarrow> groups_ok (iv\<lparr>iv_names := gm_set name g (iv_names iv)\<rparr>)"
  unfolding groups_ok_def group_set by (simp add: gomap_simps)

text \<open>Flags of other names do not change when one group does.\<close>

lemma flagged_group:
  assumes "flagged N iv" and "\<And>n. n \<noteq> name \<Longrightarrow> name_group iv' n = name_group iv n" and "iv_statuses iv' = iv_statuses iv"
  shows "flagged (insert name N) iv'"
  using assms unfolding flagged_def by auto

lemma near_groups: "nearly_indexed i N iv \<Longrightarrow> groups_ok iv"
  by (simp only: nearly_indexed_def)

lemma index_node_name_ok:
  assumes near: "nearly_indexed i {name} iv" and name: "named iv i = Some name"
  shows "indexed (index_node_name name i iv)"
proof -
  let ?iv = "iv\<lparr>iv_names := gm_set name (List.insert i (name_group iv name)) (iv_names iv)\<rparr>"
  have exact: "j \<in> set (name_group ?iv n) \<longleftrightarrow> named iv j = Some n" for n j
    using near name unfolding nearly_indexed_def group_set by (cases "j = i"; cases "n = name") auto
  have groups: "groups_ok ?iv"
    using near_groups [OF near] by (intro groups_set) (auto simp: groups_ok_def List.insert_def)
  have "flagged {name} ?iv"
    using flagged_group [of "{name}" iv name ?iv] near by (simp add: nearly_indexed_def group_set)
  from refresh_flagged [OF this, of name] exact groups
  show ?thesis by (simp add: indexed_def index_node_name_def)
qed

lemma unindex_node_name_near:
  assumes near: "nearly_indexed i N iv" and other: "named iv i \<noteq> Some name"
  shows "nearly_indexed i (N - {name}) (unindex_node_name name i iv)"
proof -
  let ?g = "removeAll i (name_group iv name)"
  have exact: "j \<in> set ?g \<longleftrightarrow> named iv j = Some name" for j
    using near other unfolding nearly_indexed_def by auto
  show ?thesis
  proof (cases "?g = []")
    case True
    let ?iv = "iv\<lparr>iv_names := gm_del name (iv_names iv)\<rparr>"
    have none: "named iv j \<noteq> Some name" for j using exact True by auto
    have "flagged (N - {name}) ?iv"
      unfolding flagged_def
    proof (intro allI impI)
      fix j st assume st: "gm_get (iv_statuses ?iv) j = Some st"
      then have "ns_name st \<noteq> name" using none [of j] by (simp add: named_def)
      then show "ns_id st = j \<and> j \<noteq> [] \<and> (ns_name st \<notin> N - {name} \<longrightarrow> ns_duplicate st = (1 < length (name_group ?iv (ns_name st))))"
        using near st unfolding nearly_indexed_def flagged_def group_set by simp
    qed
    moreover have "groups_ok ?iv" using near unfolding nearly_indexed_def groups_ok_def group_set by (auto simp: gomap_simps)
    moreover have "(j \<in> set (name_group ?iv n)) = (named ?iv j = Some n)" if "j \<noteq> i" for j n
      using near none [of j] that unfolding nearly_indexed_def group_set by simp
    moreover have "i \<in> set (name_group ?iv n) \<Longrightarrow> n \<in> N - {name}" for n
      using near unfolding nearly_indexed_def group_set by (simp split: if_splits)
    ultimately show ?thesis using True unfolding nearly_indexed_def by (simp add: unindex_node_name_def)
  next
    case False
    let ?iv = "iv\<lparr>iv_names := gm_set name ?g (iv_names iv)\<rparr>"
    have "flagged (insert name N) ?iv"
      using flagged_group [of N iv name ?iv] near by (simp add: nearly_indexed_def group_set)
    moreover have "named ?iv j = Some n \<Longrightarrow> j \<in> set (name_group ?iv name) \<longleftrightarrow> n = name" for j n
      using exact [of j] by (simp add: group_set)
    ultimately have "flagged (N - {name}) (refresh_duplicate_name_warnings name ?iv)"
      using refresh_flagged [of "insert name N" ?iv name] by simp
    moreover have "groups_ok ?iv"
      using near_groups [OF near] False by (intro groups_set) (simp_all add: groups_ok_def distinct_removeAll)
    moreover have "(j \<in> set (name_group ?iv n)) = (named ?iv j = Some n)" if "j \<noteq> i" for j n
      using near that unfolding nearly_indexed_def group_set by simp
    moreover have "i \<in> set (name_group ?iv n) \<Longrightarrow> n \<in> N - {name}" for n
      using near unfolding nearly_indexed_def group_set by (simp split: if_splits)
    ultimately show ?thesis using False unfolding nearly_indexed_def by (simp add: unindex_node_name_def)
  qed
qed

text \<open>Taking an identity out of the statuses, and putting a status in.\<close>

lemma named_statuses: "named (iv\<lparr>iv_statuses := gm_set i st (iv_statuses iv)\<rparr>) j = (if j = i then Some (ns_name st) else named iv j)"
  "named (iv\<lparr>iv_statuses := gm_del i (iv_statuses iv)\<rparr>) j = (if j = i then None else named iv j)"
  by (auto simp: named_def gomap_simps)

lemma remove_near:
  assumes ok: "indexed iv" and st: "gm_get (iv_statuses iv) i = Some st"
  shows "nearly_indexed i {ns_name st} (iv\<lparr>iv_statuses := gm_del i (iv_statuses iv)\<rparr>)"
proof -
  have "named iv i = Some (ns_name st)" using st by (simp add: named_def)
  with ok show ?thesis
    unfolding indexed_def nearly_indexed_def groups_ok_def flagged_def group_set named_statuses by (simp add: gomap_simps)
qed

lemma insert_near:
  assumes ok: "indexed iv" and st: "ns_id st = i" "i \<noteq> []" and old: "\<And>n. named iv i = Some n \<Longrightarrow> n \<in> N" and new: "ns_name st \<in> N"
  shows "nearly_indexed i N (iv\<lparr>iv_statuses := gm_set i st (iv_statuses iv)\<rparr>)"
  using ok st new old
  unfolding indexed_def nearly_indexed_def groups_ok_def flagged_def group_set named_statuses by (simp add: gomap_simps)

lemma nearly_absent:
  assumes "nearly_indexed i {} iv" and "named iv i = None"
  shows "indexed iv"
  using assms unfolding nearly_indexed_def indexed_def by (metis empty_iff option.distinct(1))

section \<open>The inventory stays consistent\<close>

definition inventory_ok :: "inventory \<Rightarrow> bool" where
  "inventory_ok iv \<longleftrightarrow> indexed iv \<and> length (iv_statuses iv) \<le> max_node_statuses \<and>
     (\<forall>i. gm_get (iv_tombstones iv) i \<noteq> None \<longrightarrow> named iv i = None)"

lemma index_facts [simp]:
  "iv_tombstones (index_node_name name i iv) = iv_tombstones iv" "iv_tombstones (unindex_node_name name i iv) = iv_tombstones iv"
  "iv_health (index_node_name name i iv) = iv_health iv" "iv_health (unindex_node_name name i iv) = iv_health iv"
  "iv_history (index_node_name name i iv) = iv_history iv" "iv_history (unindex_node_name name i iv) = iv_history iv"
  "iv_rows (index_node_name name i iv) = iv_rows iv" "iv_rows (unindex_node_name name i iv) = iv_rows iv"
  "iv_threshold (index_node_name name i iv) = iv_threshold iv" "iv_threshold (unindex_node_name name i iv) = iv_threshold iv"
  "length (iv_statuses (index_node_name name i iv)) = length (iv_statuses iv)"
  "length (iv_statuses (unindex_node_name name i iv)) = length (iv_statuses iv)"
  "named (index_node_name name i iv) = named iv" "named (unindex_node_name name i iv) = named iv"
  by (simp_all add: index_node_name_def unindex_node_name_def Let_def fun_eq_iff)

text \<open>Removing a status together with its entry in the index.\<close>

definition drop_status :: "string \<Rightarrow> string \<Rightarrow> inventory \<Rightarrow> inventory" where
  "drop_status i name iv = unindex_node_name name i (iv\<lparr>iv_statuses := gm_del i (iv_statuses iv)\<rparr>)"

lemma drop_status_ok:
  assumes "indexed iv" and "gm_get (iv_statuses iv) i = Some st"
  shows "indexed (drop_status i (ns_name st) iv)"
    and "named (drop_status i (ns_name st) iv) j = (if j = i then None else named iv j)"
    and "Suc (length (iv_statuses (drop_status i (ns_name st) iv))) = length (iv_statuses iv)"
    and "iv_tombstones (drop_status i (ns_name st) iv) = iv_tombstones iv"
proof -
  let ?iv = "iv\<lparr>iv_statuses := gm_del i (iv_statuses iv)\<rparr>"
  have gone: "named ?iv i = None" by (simp only: named_statuses) simp
  have "nearly_indexed i {} (unindex_node_name (ns_name st) i ?iv)"
    using unindex_node_name_near [OF remove_near [OF assms], of "ns_name st"] gone by simp
  with gone show "indexed (drop_status i (ns_name st) iv)" by (simp add: drop_status_def nearly_absent)
  show "named (drop_status i (ns_name st) iv) j = (if j = i then None else named iv j)" by (simp add: drop_status_def named_statuses)
  have "gm_ok (iv_statuses iv)" and "i \<in> set (gm_keys (iv_statuses iv))"
    using assms by (force simp: indexed_def groups_ok_def dest: map_of_SomeD)+
  then show "Suc (length (iv_statuses (drop_status i (ns_name st) iv))) = length (iv_statuses iv)"
    using length_pos_if_in_set [of i "gm_keys (iv_statuses iv)"] by (simp add: drop_status_def gm_len_del)
qed (simp add: drop_status_def)

lemma evict_offline_node_ok:
  assumes "indexed iv" and "evict_offline_node now iv = Some iv'"
  obtains i st where "gm_get (iv_statuses iv) i = Some st" and "\<not> is_online (iv_threshold iv) now st" and "iv' = drop_status i (ns_name st) iv"
proof -
  obtain i st where s: "scan_min (\<lambda>(i, st). ns_last_seen st) None (filter (\<lambda>(i, st). \<not> is_online (iv_threshold iv) now st) (iv_statuses iv)) = Some (i, st)"
    and iv': "iv' = drop_status i (ns_name st) iv"
    using assms(2) by (auto simp: evict_offline_node_def drop_status_def split: option.splits)
  from scan_min_mem [OF s] have "(i, st) \<in> set (iv_statuses iv)" "\<not> is_online (iv_threshold iv) now st" by auto
  then show ?thesis using assms(1) iv' by (intro that) (auto simp: indexed_def groups_ok_def)
qed

text \<open>What an update that is accepted does: it may evict a node, and then puts the status in.\<close>

lemma put_status_ok:
  assumes ok: "indexed iv" and i: "i \<noteq> []" and st: "ns_id st = i" "ns_name st = name"
    and iv2: "iv2 = iv\<lparr>iv_statuses := gm_set i st (iv_statuses iv)\<rparr>"
    and iv3: "iv3 = (case gm_get (iv_statuses iv) i of None \<Rightarrow> iv2 | Some p \<Rightarrow> if ns_name p \<noteq> name then unindex_node_name (ns_name p) i iv2 else iv2)"
  shows "indexed (index_node_name name i iv3)" and "named (index_node_name name i iv3) j = (if j = i then Some name else named iv j)"
    and "iv_tombstones (index_node_name name i iv3) = iv_tombstones iv"
    and "length (iv_statuses (index_node_name name i iv3)) = (if named iv i = None then Suc (length (iv_statuses iv)) else length (iv_statuses iv))"
proof -
  have named2: "named iv2 j = (if j = i then Some name else named iv j)" for j using st by (simp add: iv2 named_statuses)
  then have named3: "named iv3 j = (if j = i then Some name else named iv j)" for j by (simp add: iv3 split: option.split)
  have "nearly_indexed i {name} iv3"
  proof (cases "gm_get (iv_statuses iv) i")
    case None
    then have "nearly_indexed i {name} iv2" unfolding iv2 using ok i st by (intro insert_near) (simp_all add: named_def)
    with None show ?thesis by (simp add: iv3)
  next
    case (Some p)
    have near: "nearly_indexed i {ns_name p, name} iv2" unfolding iv2 using ok i st Some by (intro insert_near) (simp_all add: named_def)
    show ?thesis
    proof (cases "ns_name p = name")
      case True
      with near Some show ?thesis by (simp add: iv3)
    next
      case False
      then have "{ns_name p, name} - {ns_name p} = {name}" by auto
      with unindex_node_name_near [OF near, of "ns_name p"] named2 [of i] False Some show ?thesis by (simp add: iv3)
    qed
  qed
  from index_node_name_ok [OF this] named3 [of i] show "indexed (index_node_name name i iv3)" by simp
  show "named (index_node_name name i iv3) j = (if j = i then Some name else named iv j)" by (simp add: named3)
  show "iv_tombstones (index_node_name name i iv3) = iv_tombstones iv" by (simp add: iv3 iv2 split: option.split)
  have "named iv i = None \<longleftrightarrow> i \<notin> set (gm_keys (iv_statuses iv))" by (simp add: named_def map_of_eq_None_iff)
  moreover have "length (iv_statuses iv3) = length (iv_statuses iv2)" by (simp add: iv3 split: option.split)
  ultimately show "length (iv_statuses (index_node_name name i iv3)) = (if named iv i = None then Suc (length (iv_statuses iv)) else length (iv_statuses iv))"
    by (simp add: iv2 gm_len_set)
qed

lemma update_node_status_ok:
  assumes ok: "inventory_ok iv" and r: "update_node_status now identity0 name0 status iv = (res, iv')"
  shows "inventory_ok iv'" and "iv_tombstones iv' = iv_tombstones iv"
    and "res = Some NodeTombstoned \<longleftrightarrow> gm_get (iv_tombstones iv) (node_identity identity0 (if name0 = [] then ''unknown'' else name0)) \<noteq> None"
    and "res \<noteq> None \<Longrightarrow> iv' = iv"
    and "\<And>j. named iv j = None \<Longrightarrow> j \<noteq> node_identity identity0 (if name0 = [] then ''unknown'' else name0) \<Longrightarrow> named iv' j = None"
    and "\<And>j st. gm_get (iv_statuses iv) j = Some st \<Longrightarrow> is_online (iv_threshold iv) now st \<Longrightarrow> named iv' j \<noteq> None"
proof -
  define name where "name = (if name0 = [] then ''unknown'' else name0)"
  define i where "i = node_identity identity0 name"
  have i: "i \<noteq> []" by (simp add: i_def name_def node_identity_def)
  define room where "room = (if gm_get (iv_statuses iv) i = None \<and> max_node_statuses \<le> length (iv_statuses iv) then evict_offline_node now iv else Some iv)"
  define st where "st = status\<lparr>ns_id := i, ns_name := name, ns_online := True, ns_last_seen := now\<rparr>"
  have eq: "update_node_status now identity0 name0 status iv =
      (if gm_get (iv_tombstones iv) i \<noteq> None then (Some NodeTombstoned, iv)
       else case room of None \<Rightarrow> (Some NodeInventoryFull, iv)
            | Some iv1 \<Rightarrow> (None, index_node_name name i (case gm_get (iv_statuses iv) i of None \<Rightarrow> iv1\<lparr>iv_statuses := gm_set i st (iv_statuses iv1)\<rparr>
        | Some p \<Rightarrow> if ns_name p \<noteq> name then unindex_node_name (ns_name p) i (iv1\<lparr>iv_statuses := gm_set i st (iv_statuses iv1)\<rparr>)
                     else iv1\<lparr>iv_statuses := gm_set i st (iv_statuses iv1)\<rparr>)))"
    unfolding update_node_status_def Let_def name_def i_def room_def st_def ..
  have "inventory_ok iv' \<and> iv_tombstones iv' = iv_tombstones iv \<and> (res = Some NodeTombstoned \<longleftrightarrow> gm_get (iv_tombstones iv) i \<noteq> None) \<and> (res \<noteq> None \<longrightarrow> iv' = iv) \<and>
      (\<forall>j. named iv j = None \<longrightarrow> j \<noteq> i \<longrightarrow> named iv' j = None) \<and>
      (\<forall>j st. gm_get (iv_statuses iv) j = Some st \<longrightarrow> is_online (iv_threshold iv) now st \<longrightarrow> named iv' j \<noteq> None)"
  proof (cases "gm_get (iv_tombstones iv) i = None \<and> room \<noteq> None")
    case False
    then have "(res, iv') = (if gm_get (iv_tombstones iv) i \<noteq> None then Some NodeTombstoned else Some NodeInventoryFull, iv)"
      using r unfolding eq by (cases "gm_get (iv_tombstones iv) i = None") auto
    with ok show ?thesis by (auto simp: named_def split: if_splits)
  next
    case True
    then obtain iv1 where room: "room = Some iv1" by blast
    have one: "indexed iv1 \<and> iv_tombstones iv1 = iv_tombstones iv \<and> gm_get (iv_statuses iv1) i = gm_get (iv_statuses iv) i \<and>
      (\<forall>j. named iv1 j = None \<or> named iv1 j = named iv j) \<and>
      (\<forall>j st. gm_get (iv_statuses iv) j = Some st \<longrightarrow> is_online (iv_threshold iv) now st \<longrightarrow> named iv1 j \<noteq> None) \<and>
      (if named iv1 i = None then Suc (length (iv_statuses iv1)) else length (iv_statuses iv1)) \<le> max_node_statuses"
    proof (cases "gm_get (iv_statuses iv) i = None \<and> max_node_statuses \<le> length (iv_statuses iv)")
      case False
      with room ok show ?thesis by (auto simp: room_def inventory_ok_def named_def)
    next
      case full: True
      then have "evict_offline_node now iv = Some iv1" using room by (simp add: room_def)
      moreover have ix: "indexed iv" using ok by (simp add: inventory_ok_def)
      ultimately obtain k stk where k: "gm_get (iv_statuses iv) k = Some stk" and iv1: "iv1 = drop_status k (ns_name stk) iv"
          and offline: "\<not> is_online (iv_threshold iv) now stk"
        using evict_offline_node_ok [OF ix] by metis
      note d = drop_status_ok [OF ix k, folded iv1]
      have none: "named iv1 i = None" using full d(2) [of i] by (simp add: named_def [of iv])
      then have "gm_get (iv_statuses iv1) i = None" by (simp add: named_def)
      moreover have "length (iv_statuses iv) \<le> max_node_statuses" using ok by (simp add: inventory_ok_def)
      moreover have "named iv1 j \<noteq> None" if "gm_get (iv_statuses iv) j = Some stj" "is_online (iv_threshold iv) now stj" for j stj
        using that k offline d(2) [of j] by (auto simp: named_def [of iv])
      ultimately show ?thesis using full d none by auto
    qed
    have iv': "iv' = index_node_name name i (case gm_get (iv_statuses iv1) i of None \<Rightarrow> iv1\<lparr>iv_statuses := gm_set i st (iv_statuses iv1)\<rparr>
        | Some p \<Rightarrow> if ns_name p \<noteq> name then unindex_node_name (ns_name p) i (iv1\<lparr>iv_statuses := gm_set i st (iv_statuses iv1)\<rparr>)
                     else iv1\<lparr>iv_statuses := gm_set i st (iv_statuses iv1)\<rparr>)" and res: "res = None"
      using r True room one unfolding eq by simp_all
    have "ns_id st = i" "ns_name st = name" by (simp_all add: st_def)
    note p = put_status_ok [OF conjunct1 [OF one] i this refl refl, folded iv']
    have absent: "named iv j = None" if "gm_get (iv_tombstones iv) j \<noteq> None" for j using ok that by (simp add: inventory_ok_def)
    have sub: "named iv1 j = None \<or> named iv1 j = named iv j" and tombs: "iv_tombstones iv1 = iv_tombstones iv" for j using one by simp_all
    have "named iv' j = None" if "gm_get (iv_tombstones iv) j \<noteq> None" for j
      using p(2) [of j] sub [of j] absent [OF that] that True by (cases "j = i") auto
    then have "inventory_ok iv'" using p(1,3,4) one by (simp add: inventory_ok_def)
    moreover have "named iv' j = None" if "named iv j = None" "j \<noteq> i" for j using p(2) [of j] one that by (metis (no_types, lifting))
    moreover have "named iv' j \<noteq> None" if "gm_get (iv_statuses iv) j = Some stj" "is_online (iv_threshold iv) now stj" for j stj
      using p(2) [of j] one that by (metis (no_types, lifting) option.distinct(1))
    ultimately show ?thesis using p(3) one True res by simp
  qed
  then show "inventory_ok iv'" and "iv_tombstones iv' = iv_tombstones iv"
    and "res = Some NodeTombstoned \<longleftrightarrow> gm_get (iv_tombstones iv) (node_identity identity0 (if name0 = [] then ''unknown'' else name0)) \<noteq> None"
    and "res \<noteq> None \<Longrightarrow> iv' = iv"
    and "\<And>j. named iv j = None \<Longrightarrow> j \<noteq> node_identity identity0 (if name0 = [] then ''unknown'' else name0) \<Longrightarrow> named iv' j = None"
    and "\<And>j st. gm_get (iv_statuses iv) j = Some st \<Longrightarrow> is_online (iv_threshold iv) now st \<Longrightarrow> named iv' j \<noteq> None"
    by (simp_all add: i_def name_def)
qed

text \<open>The other operations.\<close>

lemma inventory_ok_cong:
  assumes "iv_statuses iv' = iv_statuses iv" and "iv_names iv' = iv_names iv"
    and "\<And>i. gm_get (iv_tombstones iv') i \<noteq> None \<Longrightarrow> gm_get (iv_tombstones iv) i \<noteq> None \<or> named iv i = None"
  shows "inventory_ok iv \<Longrightarrow> inventory_ok iv'"
proof -
  have "name_group iv' = name_group iv" "named iv' = named iv" using assms(1,2) by (auto simp: name_group_def named_def fun_eq_iff)
  then have "indexed iv' = indexed iv" using assms(1,2) by (simp only: indexed_def groups_ok_def flagged_def)
  then show "inventory_ok iv \<Longrightarrow> inventory_ok iv'"
    using assms \<open>named iv' = named iv\<close> unfolding inventory_ok_def by metis
qed

lemma health_facts:
  "iv_statuses (set_upstream_health node h iv) = iv_statuses iv" "iv_names (set_upstream_health node h iv) = iv_names iv"
  "iv_tombstones (set_upstream_health node h iv) = iv_tombstones iv" "iv_rows (set_upstream_health node h iv) = iv_rows iv"
  "named (set_upstream_health node h iv) = named iv"
  "gm_get (iv_tombstones iv) i \<noteq> None \<Longrightarrow> gm_get (iv_health (set_upstream_health node h iv)) i = gm_get (iv_health iv) i"
  "gm_get (iv_tombstones iv) i \<noteq> None \<Longrightarrow> gm_get (iv_history (set_upstream_health node h iv)) i = gm_get (iv_history iv) i"
  by (auto simp: set_upstream_health_def Let_def named_def fun_eq_iff gomap_simps)

lemma forget_facts:
  "iv_statuses (forget_health i iv) = iv_statuses iv" "iv_names (forget_health i iv) = iv_names iv"
  "iv_tombstones (forget_health i iv) = iv_tombstones iv" "iv_rows (forget_health i iv) = iv_rows iv" "named (forget_health i iv) = named iv"
  "gm_get (iv_health (forget_health i iv)) j = (if j = trim_space i then None else gm_get (iv_health iv) j)"
  "gm_get (iv_history (forget_health i iv)) j = (if j = trim_space i then None else gm_get (iv_history iv) j)"
  by (auto simp: forget_health_def named_def fun_eq_iff gomap_simps)

lemma name_group_more [simp]: "name_group (iv\<lparr>iv_rows := r\<rparr>) = name_group iv" "name_group (iv\<lparr>iv_tombstones := t\<rparr>) = name_group iv"
  by (simp_all add: name_group_def fun_eq_iff)

lemma refresh_more: "refresh_duplicate_name_warnings name (iv\<lparr>iv_rows := r\<rparr>) = refresh_duplicate_name_warnings name iv\<lparr>iv_rows := r\<rparr>"
  "refresh_duplicate_name_warnings name (iv\<lparr>iv_tombstones := t\<rparr>) = refresh_duplicate_name_warnings name iv\<lparr>iv_tombstones := t\<rparr>"
  by (simp_all add: refresh_duplicate_name_warnings_def Let_def)

lemma unindex_more: "unindex_node_name name i (iv\<lparr>iv_rows := r\<rparr>) = unindex_node_name name i iv\<lparr>iv_rows := r\<rparr>"
  "unindex_node_name name i (iv\<lparr>iv_tombstones := t\<rparr>) = unindex_node_name name i iv\<lparr>iv_tombstones := t\<rparr>"
proof -
  have swap: "iv\<lparr>iv_rows := r\<rparr>\<lparr>iv_names := m\<rparr> = iv\<lparr>iv_names := m\<rparr>\<lparr>iv_rows := r\<rparr>"
    "iv\<lparr>iv_tombstones := t\<rparr>\<lparr>iv_names := m\<rparr> = iv\<lparr>iv_names := m\<rparr>\<lparr>iv_tombstones := t\<rparr>" for m by simp_all
  show "unindex_node_name name i (iv\<lparr>iv_rows := r\<rparr>) = unindex_node_name name i iv\<lparr>iv_rows := r\<rparr>"
    unfolding unindex_node_name_def Let_def name_group_more swap refresh_more by simp
  show "unindex_node_name name i (iv\<lparr>iv_tombstones := t\<rparr>) = unindex_node_name name i iv\<lparr>iv_tombstones := t\<rparr>"
    unfolding unindex_node_name_def Let_def name_group_more swap refresh_more by simp
qed

lemma mark_decommissioned_cases:
  assumes "mark_decommissioned now db i0 iv = (res, iv')"
  obtains "iv' = iv" "\<not> fst res"
  | st where "gm_get (iv_statuses iv) (trim_space i0) = Some st" "fst res"
      "iv' = drop_status (trim_space i0) (ns_name st) iv\<lparr>iv_rows := gm_set (trim_space i0) (ns_name st, now div second) (iv_rows iv),
         iv_tombstones := gm_set (trim_space i0) now (iv_tombstones iv)\<rparr>"
proof (cases "gm_get (iv_statuses iv) (trim_space i0)")
  case None
  with assms show ?thesis by (intro that(1)) (auto simp: mark_decommissioned_def)
next
  case (Some st)
  show ?thesis
  proof (cases "db = DbDone")
    case False
    with Some assms show ?thesis by (intro that(1)) (auto simp: mark_decommissioned_def)
  next
    case True
    have "iv' = unindex_node_name (ns_name st) (trim_space i0) (iv\<lparr>iv_statuses := gm_del (trim_space i0) (iv_statuses iv)\<rparr>\<lparr>
          iv_rows := gm_set (trim_space i0) (ns_name st, now div second) (iv_rows iv)\<rparr>\<lparr>
          iv_tombstones := gm_set (trim_space i0) now (iv_tombstones iv)\<rparr>)" "fst res"
      using Some True assms by (auto simp: mark_decommissioned_def Let_def)
    with Some show ?thesis unfolding unindex_more by (intro that(2)) (simp_all add: drop_status_def)
  qed
qed

lemma mark_decommissioned_ok:
  assumes ok: "inventory_ok iv" and r: "mark_decommissioned now db i0 iv = (res, iv')"
  shows "inventory_ok iv'" and "gm_get (iv_tombstones iv) i \<noteq> None \<Longrightarrow> gm_get (iv_tombstones iv') i \<noteq> None"
    and "gm_get (iv_rows iv) i \<noteq> None \<Longrightarrow> gm_get (iv_rows iv') i \<noteq> None" and "named iv i = None \<Longrightarrow> named iv' i = None"
    and "iv_health iv' = iv_health iv" and "iv_history iv' = iv_history iv"
    and "fst res \<Longrightarrow> gm_get (iv_tombstones iv') (trim_space i0) \<noteq> None \<and> gm_get (iv_rows iv') (trim_space i0) \<noteq> None \<and> named iv' (trim_space i0) = None"
proof -
  from r have "inventory_ok iv' \<and> (gm_get (iv_tombstones iv) i \<noteq> None \<longrightarrow> gm_get (iv_tombstones iv') i \<noteq> None) \<and>
    (gm_get (iv_rows iv) i \<noteq> None \<longrightarrow> gm_get (iv_rows iv') i \<noteq> None) \<and> (named iv i = None \<longrightarrow> named iv' i = None) \<and>
    iv_health iv' = iv_health iv \<and> iv_history iv' = iv_history iv \<and>
    (fst res \<longrightarrow> gm_get (iv_tombstones iv') (trim_space i0) \<noteq> None \<and> gm_get (iv_rows iv') (trim_space i0) \<noteq> None \<and> named iv' (trim_space i0) = None)"
  proof (cases rule: mark_decommissioned_cases)
    case 1
    with ok show ?thesis by simp
  next
    case (2 st)
    let ?i = "trim_space i0"
    let ?d = "drop_status ?i (ns_name st) iv"
    have ix: "indexed iv" using ok by (simp add: inventory_ok_def)
    note d = drop_status_ok [OF ix 2(1)]
    have named: "named iv' j = (if j = ?i then None else named iv j)" for j using d(2) by (simp add: 2(3) named_def)
    have "inventory_ok ?d" using ok d by (simp add: inventory_ok_def)
    then have "inventory_ok iv'"
      unfolding 2(3) by (rule inventory_ok_cong [rotated -1]) (use d(2) d(4) in \<open>auto simp: gomap_simps split: if_splits\<close>)
    moreover have "iv_health ?d = iv_health iv" "iv_history ?d = iv_history iv" by (simp_all add: drop_status_def)
    ultimately show ?thesis using named by (auto simp: 2(3) gomap_simps)
  qed
  then show "inventory_ok iv'" and "gm_get (iv_tombstones iv) i \<noteq> None \<Longrightarrow> gm_get (iv_tombstones iv') i \<noteq> None"
    and "gm_get (iv_rows iv) i \<noteq> None \<Longrightarrow> gm_get (iv_rows iv') i \<noteq> None" and "named iv i = None \<Longrightarrow> named iv' i = None"
    and "iv_health iv' = iv_health iv" and "iv_history iv' = iv_history iv"
    and "fst res \<Longrightarrow> gm_get (iv_tombstones iv') (trim_space i0) \<noteq> None \<and> gm_get (iv_rows iv') (trim_space i0) \<noteq> None \<and> named iv' (trim_space i0) = None"
    by blast+
qed

lemma restore_node_ok:
  assumes ok: "inventory_ok iv" and r: "restore_node db i0 iv = (res, iv')"
  shows "inventory_ok iv'" and "named iv' = named iv" and "iv_health iv' = iv_health iv" and "iv_history iv' = iv_history iv"
    and "i \<noteq> trim_space i0 \<or> db \<noteq> DbDone \<Longrightarrow> gm_get (iv_tombstones iv') i = gm_get (iv_tombstones iv) i \<and> gm_get (iv_rows iv') i = gm_get (iv_rows iv) i"
proof -
  from r have iv': "iv' = iv \<or> db = DbDone \<and> iv' = iv\<lparr>iv_rows := gm_del (trim_space i0) (iv_rows iv), iv_tombstones := gm_del (trim_space i0) (iv_tombstones iv)\<rparr>"
    by (auto simp: restore_node_def Let_def split: if_splits)
  then show "named iv' = named iv" and "iv_health iv' = iv_health iv" and "iv_history iv' = iv_history iv"
    and "i \<noteq> trim_space i0 \<or> db \<noteq> DbDone \<Longrightarrow> gm_get (iv_tombstones iv') i = gm_get (iv_tombstones iv) i \<and> gm_get (iv_rows iv') i = gm_get (iv_rows iv) i"
    by (auto simp: named_def fun_eq_iff gomap_simps)
  show "inventory_ok iv'"
    using ok by (rule inventory_ok_cong [rotated -1]) (use iv' in \<open>auto simp: gomap_simps split: if_splits\<close>)
qed

lemma new_inventory_ok: "inventory_ok (new_inventory threshold)"
  by (simp add: inventory_ok_def indexed_def groups_ok_def flagged_def new_inventory_def name_group_def named_def)

lemma load_tombstones_get: "gm_get (foldl (\<lambda>m (i, (name, t)). gm_set i (t * second) m) acc rows) i \<noteq> None \<longleftrightarrow>
    gm_get acc i \<noteq> None \<or> gm_get rows i \<noteq> None"
proof (induction rows arbitrary: acc)
  case (Cons p rows)
  obtain j name t where "p = (j, (name, t))" by (metis prod.exhaust)
  with Cons [of "gm_set j (t * second) acc"] show ?case by (auto simp: gomap_simps)
qed simp

lemma restart_facts:
  "inventory_ok (restart_inventory readable iv)" "named (restart_inventory readable iv) i = None" "iv_health (restart_inventory readable iv) = []"
  "iv_history (restart_inventory readable iv) = []" "iv_rows (restart_inventory readable iv) = iv_rows iv"
  "readable \<Longrightarrow> gm_get (iv_tombstones (restart_inventory readable iv)) i \<noteq> None \<longleftrightarrow> gm_get (iv_rows iv) i \<noteq> None"
proof -
  show "inventory_ok (restart_inventory readable iv)"
    by (rule inventory_ok_cong [OF _ _ _ new_inventory_ok [of "iv_threshold iv"]])
      (simp_all add: restart_inventory_def load_node_tombstones_def new_inventory_def named_def)
  show "readable \<Longrightarrow> gm_get (iv_tombstones (restart_inventory readable iv)) i \<noteq> None \<longleftrightarrow> gm_get (iv_rows iv) i \<noteq> None"
    using load_tombstones_get [of "[]" "iv_rows iv" i] by (simp add: restart_inventory_def load_node_tombstones_def new_inventory_def)
qed (simp_all add: restart_inventory_def load_node_tombstones_def new_inventory_def named_def)

lemma node_step_ok: "inventory_ok iv \<Longrightarrow> inventory_ok (node_step x iv)"
proof (cases x)
  case (NodeUpdate now i name st)
  then show "inventory_ok iv \<Longrightarrow> inventory_ok (node_step x iv)"
    by (metis update_node_status_ok(1) node_step.simps(1) prod.collapse)
next
  case (NodeHealth node h)
  then show "inventory_ok iv \<Longrightarrow> inventory_ok (node_step x iv)"
    by (auto intro: inventory_ok_cong simp: health_facts)
next
  case (NodeDecommission now db i)
  then show "inventory_ok iv \<Longrightarrow> inventory_ok (node_step x iv)"
    by (metis mark_decommissioned_ok(1) node_step.simps(3) prod.collapse)
next
  case (NodeForget i)
  then show "inventory_ok iv \<Longrightarrow> inventory_ok (node_step x iv)"
    by (auto intro: inventory_ok_cong simp: forget_facts)
next
  case (NodeRestore db i)
  then show "inventory_ok iv \<Longrightarrow> inventory_ok (node_step x iv)"
    by (metis restore_node_ok(1) node_step.simps(5) prod.collapse)
qed (simp add: restart_facts)

interpretation inventories: invariant_system node_step inventory_ok
  by unfold_locales (rule node_step_ok)

section \<open>A decommissioned node stays away\<close>

definition away :: "string \<Rightarrow> inventory \<Rightarrow> bool" where
  "away i iv \<longleftrightarrow> inventory_ok iv \<and> gm_get (iv_tombstones iv) i \<noteq> None \<and> gm_get (iv_rows iv) i \<noteq> None"

definition silent :: "string \<Rightarrow> inventory \<Rightarrow> bool" where
  "silent i iv \<longleftrightarrow> away i iv \<and> gm_get (iv_health iv) i = None \<and> gm_get (iv_history iv) i = None"

text \<open>The operations that bring an identity back.\<close>

fun readmits :: "string \<Rightarrow> node_op \<Rightarrow> bool" where
  "readmits i (NodeRestore db j) = (db = DbDone \<and> trim_space j = i)"
| "readmits i (NodeRestart readable) = (\<not> readable)"
| "readmits i _ = False"

lemma update_frames:
  "iv_rows (snd (update_node_status now i0 name0 st iv)) = iv_rows iv" "iv_health (snd (update_node_status now i0 name0 st iv)) = iv_health iv"
  "iv_history (snd (update_node_status now i0 name0 st iv)) = iv_history iv"
  by (auto simp: update_node_status_def evict_offline_node_def Let_def split: option.splits if_splits)

lemma step_away:
  assumes "away i iv" and "\<not> readmits i x"
  shows "away i (node_step x iv)" and "silent i iv \<Longrightarrow> silent i (node_step x iv)"
proof -
  have ok: "inventory_ok iv" and t: "gm_get (iv_tombstones iv) i \<noteq> None" and r: "gm_get (iv_rows iv) i \<noteq> None"
    using assms(1) by (simp_all add: away_def)
  have "away i (node_step x iv) \<and> (silent i iv \<longrightarrow> silent i (node_step x iv))"
  proof (cases x)
    case (NodeUpdate now j name st)
    obtain res iv' where e: "update_node_status now j name st iv = (res, iv')" by (cases "update_node_status now j name st iv")
    from NodeUpdate e update_node_status_ok(1,2) [OF ok e] update_frames [of now j name st iv] t r
    show ?thesis by (simp add: away_def silent_def)
  next
    case (NodeHealth node h)
    then show ?thesis using node_step_ok [OF ok, of x] t r by (simp add: away_def silent_def health_facts)
  next
    case (NodeDecommission now db j)
    obtain res iv' where e: "mark_decommissioned now db j iv = (res, iv')" by (cases "mark_decommissioned now db j iv")
    note m = mark_decommissioned_ok [OF ok e]
    from NodeDecommission e m(1) m(2) [OF t] m(3) [OF r] m(5,6) show ?thesis by (simp add: away_def silent_def)
  next
    case (NodeForget j)
    then show ?thesis using node_step_ok [OF ok, of x] t r by (simp add: away_def silent_def forget_facts)
  next
    case (NodeRestore db j)
    obtain res iv' where e: "restore_node db j iv = (res, iv')" by (cases "restore_node db j iv")
    note m = restore_node_ok [OF ok e]
    from NodeRestore e assms(2) m(1,3,4) m(5) [of i] t r show ?thesis by (auto simp: away_def silent_def)
  next
    case (NodeRestart readable)
    with assms(2) restart_facts [of readable iv] r show ?thesis by (simp add: away_def silent_def)
  qed
  then show "away i (node_step x iv)" and "silent i iv \<Longrightarrow> silent i (node_step x iv)" by simp_all
qed

lemma run_away:
  assumes "away i iv" and "list_all (\<lambda>x. \<not> readmits i x) ops"
  shows "away i (fold node_step ops iv)" and "silent i iv \<or> NodeForget i \<in> set ops \<and> trim_space i = i \<Longrightarrow> silent i (fold node_step ops iv)"
proof -
  have "away i (fold node_step ops iv) \<and> (silent i iv \<or> NodeForget i \<in> set ops \<and> trim_space i = i \<longrightarrow> silent i (fold node_step ops iv))"
    using assms
  proof (induction ops arbitrary: iv)
    case (Cons x ops)
    have x: "\<not> readmits i x" using Cons.prems(2) by simp
    note s = step_away [OF Cons.prems(1) x]
    have "silent i (node_step x iv)" if "x = NodeForget i" "trim_space i = i"
      using s(1) that by (simp add: silent_def forget_facts)
    with Cons.IH [OF s(1)] Cons.prems(2) s(2) show ?case by auto
  qed simp
  then show "away i (fold node_step ops iv)" and "silent i iv \<or> NodeForget i \<in> set ops \<and> trim_space i = i \<Longrightarrow> silent i (fold node_step ops iv)"
    by simp_all
qed

section \<open>Claims\<close>

lemma longer_than_one: "distinct xs \<Longrightarrow> x \<in> set xs \<Longrightarrow> 1 < length xs \<longleftrightarrow> (\<exists>y \<in> set xs. y \<noteq> x)"
  by (cases xs rule: remdups_adj.cases) auto

text \<open>C23: After any operations the node inventory is consistent: it holds at most 4096 nodes, the index of
  display names lists exactly the nodes of a name, a node carries the duplicate-name warning exactly when
  another node has its name, and no decommissioned identity has a status.\<close>

theorem inventory_consistent:
  "let iv = fold node_step ops (new_inventory threshold)
   in length (iv_statuses iv) \<le> 4096 \<and> (\<forall>n. set (name_group iv n) = {i. named iv i = Some n}) \<and>
      list_all (\<lambda>(i, st). ns_duplicate st = (\<exists>j. j \<noteq> i \<and> named iv j = Some (ns_name st))) (iv_statuses iv) \<and>
      (\<forall>i. gm_get (iv_tombstones iv) i = None \<or> named iv i = None)"
proof -
  let ?iv = "fold node_step ops (new_inventory threshold)"
  have ok: "inventory_ok ?iv" by (rule inventories.run_keeps [OF new_inventory_ok])
  then have groups: "groups_ok ?iv" and flags: "flagged {} ?iv" and exact: "set (name_group ?iv n) = {i. named ?iv i = Some n}"
    and "length (iv_statuses ?iv) \<le> 4096" and "gm_get (iv_tombstones ?iv) i = None \<or> named ?iv i = None" for n i
    by (auto simp: inventory_ok_def indexed_def max_node_statuses_def)
  moreover have "ns_duplicate st = (\<exists>j. j \<noteq> i \<and> named ?iv j = Some (ns_name st))" if "(i, st) \<in> set (iv_statuses ?iv)" for i st
  proof -
    have st: "gm_get (iv_statuses ?iv) i = Some st" using that groups by (simp add: groups_ok_def)
    then have "ns_duplicate st = (1 < length (name_group ?iv (ns_name st)))" and "i \<in> set (name_group ?iv (ns_name st))"
      using flags exact by (simp_all add: flagged_def named_def)
    moreover have "distinct (name_group ?iv (ns_name st))" using groups by (simp add: groups_ok_def)
    ultimately show ?thesis using exact [of "ns_name st"] longer_than_one [of "name_group ?iv (ns_name st)" i] by auto
  qed
  ultimately show ?thesis unfolding Let_def list_all_iff by blast
qed

end
