(* ===== verification/Dashboard_View.thy ===== *)
theory Dashboard_View
  imports Dashboard_Stats Filter_Engine Node_Inventory
begin

text \<open>
  api/dashboard_v1.go: the ranges of the dashboard, the windows they ask the statistics for, the response,
  and the memory of responses with its epoch and the lock per range. Building a response takes steps of its
  own, between which filtering can be paused and the memory emptied. Encoding the response to JSON is an
  argument. Times are nanoseconds.
\<close>

section \<open>Ranges\<close>

record range_preset =
  rp_key :: string
  rp_label :: string
  rp_duration :: int
  rp_bucket :: int

definition dashboard_range_presets :: "range_preset list" where
  "dashboard_range_presets =
     [\<lparr>rp_key = ''15m'', rp_label = ''Last 15 minutes'', rp_duration = 15 * minute, rp_bucket = minute\<rparr>,
      \<lparr>rp_key = ''1h'', rp_label = ''Last hour'', rp_duration = 60 * minute, rp_bucket = 5 * minute\<rparr>,
      \<lparr>rp_key = ''6h'', rp_label = ''Last 6 hours'', rp_duration = 6 * 60 * minute, rp_bucket = 15 * minute\<rparr>,
      \<lparr>rp_key = ''24h'', rp_label = ''Last 24 hours'', rp_duration = 24 * 60 * minute, rp_bucket = 60 * minute\<rparr>,
      \<lparr>rp_key = ''7d'', rp_label = ''Last 7 days'', rp_duration = 7 * 24 * 60 * minute, rp_bucket = 6 * 60 * minute\<rparr>,
      \<lparr>rp_key = ''30d'', rp_label = ''Last 30 days'', rp_duration = 30 * 24 * 60 * minute, rp_bucket = 24 * 60 * minute\<rparr>]"

definition preset_of :: "string \<Rightarrow> range_preset option" where
  "preset_of k = List.find (\<lambda>p. rp_key p = k) dashboard_range_presets"

definition requested_preset :: "string \<Rightarrow> range_preset option" where
  "requested_preset raw = (if raw = [] then preset_of ''24h'' else preset_of (trim_space raw))"

text \<open>The window and the window to compare with: buildDashboardV1Response up to its query.\<close>

definition default_retention :: int where
  "default_retention = 72 * 60 * minute"

record dashboard_window =
  dw_requested :: int
  dw_start :: int
  dw_limited :: bool
  dw_comparison :: int
  dw_available :: bool

definition window_of :: "range_preset \<Rightarrow> int \<Rightarrow> int \<Rightarrow> dashboard_window" where
  "window_of p retention0 now =
     (let requested = now - rp_duration p; retention = (if retention0 \<le> 0 then default_retention else retention0);
          available = now - retention; limited = requested < available; comparison = requested - rp_duration p
      in \<lparr>dw_requested = requested, dw_start = (if limited then available else requested), dw_limited = limited,
          dw_comparison = comparison, dw_available = (\<not> comparison < available \<and> \<not> limited)\<rparr>)"

definition previous_start :: "dashboard_window \<Rightarrow> int option" where
  "previous_start w = (if dw_available w then Some (dw_comparison w) else None)"

section \<open>Parts of the response\<close>

record filtering_status =
  fs_configured :: bool
  fs_enabled :: bool
  fs_state :: string
  fs_sources :: nat
  fs_healthy :: nat
  fs_errors :: nat
  fs_block_rules :: nat
  fs_allow_rules :: nat
  fs_blocked :: nat
  fs_allowed :: nat
  fs_updated :: "int option"
  fs_paused :: "int option"

definition listed_sources :: "engine \<Rightarrow> source list" where
  "listed_sources e = List.map_filter (gm_get (e_objs e)) (e_sources e)"

text \<open>dashboardFilteringStatus; a time of zero is the zero time.\<close>

definition latest_update :: "int option \<Rightarrow> source \<Rightarrow> int option" where
  "latest_update u s =
     (if so_last_update s \<noteq> 0 \<and> (case u of None \<Rightarrow> True | Some t \<Rightarrow> t < so_last_update s) then Some (so_last_update s) else u)"

definition dashboard_filtering_status :: "int \<Rightarrow> engine option \<Rightarrow> filtering_status" where
  "dashboard_filtering_status now engine =
     (case engine of
        None \<Rightarrow> \<lparr>fs_configured = False, fs_enabled = True, fs_state = ''unconfigured'', fs_sources = 0, fs_healthy = 0, fs_errors = 0,
                 fs_block_rules = 0, fs_allow_rules = 0, fs_blocked = 0, fs_allowed = 0, fs_updated = None, fs_paused = None\<rparr>
      | Some e \<Rightarrow>
          (let ss = listed_sources e; bad = length (filter (\<lambda>s. so_last_error s \<noteq> []) ss)
           in \<lparr>fs_configured = True, fs_enabled = (\<not> paused now e),
               fs_state = (if paused_until now e \<noteq> None then ''paused'' else if 0 < bad then ''degraded'' else ''active''),
               fs_sources = length ss, fs_healthy = length ss - bad, fs_errors = bad,
               fs_block_rules = sum_list (List.map so_rule_count ss), fs_allow_rules = sum_list (List.map so_allow_count ss),
               fs_blocked = e_blocked_total e, fs_allowed = e_allowed_total e,
               fs_updated = foldl latest_update None ss, fs_paused = paused_until now e\<rparr>))"

definition versions_differ :: "string \<Rightarrow> string \<Rightarrow> bool" where
  "versions_differ local0 remote0 =
     (let l = trim_prefix (trim_space local0) ''v''; r = trim_prefix (trim_space remote0) ''v'' in l \<noteq> [] \<and> r \<noteq> [] \<and> l \<noteq> r)"

record runtime_view =
  rv_version :: string
  rv_role :: string
  rv_online :: nat
  rv_total :: nat
  rv_skewed :: "string list"

definition dashboard_runtime :: "string \<Rightarrow> string \<Rightarrow> node_status list \<Rightarrow> runtime_view" where
  "dashboard_runtime version mode0 nodes =
     \<lparr>rv_version = version, rv_role = (if trim_space mode0 = [] then ''controller'' else trim_space mode0),
      rv_online = length (filter ns_online nodes), rv_total = length nodes,
      rv_skewed = sort (List.map ns_name (filter (\<lambda>n. ns_online n \<and> versions_differ version (ns_version n)) nodes))\<rparr>"

definition append_unique :: "string list \<Rightarrow> string \<Rightarrow> string list" where
  "append_unique xs x = (if x \<in> set xs then xs else xs @ [x])"

definition upstream_node_names :: "node_status list \<Rightarrow> (string, string) gomap" where
  "upstream_node_names nodes =
     foldl (\<lambda>m n. let i = trim_space (ns_id n); name = trim_space (ns_name n) in if i \<noteq> [] \<and> name \<noteq> [] then gm_set i name m else m) [] nodes"

record dashboard_view =
  vw_generated :: int
  vw_preset :: range_preset
  vw_window :: dashboard_window
  vw_retention :: int
  vw_stats :: dashboard_stats
  vw_comparison :: "dashboard_summary option"
  vw_comparable :: bool
  vw_runtime :: runtime_view
  vw_filtering :: filtering_status
  vw_health :: "(string, (string, rat) gomap) gomap"
  vw_history :: "(string, (string, rat list) gomap) gomap"
  vw_names :: "(string, string) gomap"
  vw_degraded :: bool
  vw_errors :: "string list"

text \<open>buildDashboardV1Response: what it reads from the store is an argument.\<close>

record dashboard_inputs =
  di_trend :: trend_state
  di_volatile :: "stored_event list"
  di_rows :: "(accumulator \<Rightarrow> row_read) option"
  di_inventory :: inventory
  di_version :: string
  di_mode :: string
  di_retention :: int

definition build_dashboard :: "range_preset \<Rightarrow> int \<Rightarrow> dashboard_inputs \<Rightarrow> engine option \<Rightarrow> dashboard_view option" where
  "build_dashboard p now i engine =
     (let w = window_of p (di_retention i) now
      in case get_dashboard_stats (di_trend i) (dw_start w) now (rp_bucket p) (previous_start w) (di_volatile i) (di_rows i) of
           Inl _ \<Rightarrow> None
         | Inr st \<Rightarrow>
             (let nodes = get_node_statuses now (di_inventory i); f = dashboard_filtering_status now engine;
                  e1 = (if fs_enabled f then db_errors st else append_unique (db_errors st) ''filtering_paused'');
                  e2 = (if 0 < fs_errors f then append_unique e1 ''filter_sources'' else e1);
                  comparable = dw_available w \<and> \<not> db_degraded st
              in Some \<lparr>vw_generated = now, vw_preset = p, vw_window = w,
                       vw_retention = (if di_retention i \<le> 0 then default_retention else di_retention i), vw_stats = st,
                       vw_comparison = (if comparable then db_previous st else None), vw_comparable = comparable,
                       vw_runtime = dashboard_runtime (di_version i) (di_mode i) nodes, vw_filtering = f,
                       vw_health = iv_health (di_inventory i), vw_history = iv_history (di_inventory i), vw_names = upstream_node_names nodes,
                       vw_degraded = (db_degraded st \<or> \<not> fs_enabled f \<or> 0 < fs_errors f), vw_errors = sort e2\<rparr>))"

section \<open>The memory of responses\<close>

definition dashboard_response_ttl :: int where
  "dashboard_response_ttl = 15 * second"

text \<open>A build holds the lock of its range: after the second look-up, after reading the epoch, and with its
  result (None is an error).\<close>

datatype build_phase = Missed | Building nat | Collected nat "string option"

record dashboard_server =
  dv_engine :: engine
  dv_entries :: "(string, string \<times> int) gomap"
  dv_epoch :: nat
  dv_builds :: "(string, int \<times> build_phase) gomap"
  dv_pending :: nat  \<comment> \<open>pauses that have not emptied the memory yet\<close>

definition cached_dashboard_body :: "string \<Rightarrow> int \<Rightarrow> dashboard_server \<Rightarrow> string option" where
  "cached_dashboard_body k now s =
     (case gm_get (dv_entries s) k of
        None \<Rightarrow> None
      | Some (body, since) \<Rightarrow> if body = [] \<or> now - since < 0 \<or> dashboard_response_ttl \<le> now - since then None else Some body)"

datatype dashboard_reply = Silent | Remembered string | Built string | Failed

text \<open>cachedDashboardResponse in steps: the look-up without the lock; taking the lock of the range (nothing
  happens while another request holds it) and looking up again; reading the epoch; collecting; storing and
  releasing the lock. handleFilteringPause pauses first and empties the memory afterwards.\<close>

definition lock_range :: "string \<Rightarrow> int \<Rightarrow> dashboard_server \<Rightarrow> dashboard_reply \<times> dashboard_server" where
  "lock_range k now s =
     (if gm_get (dv_builds s) k \<noteq> None then (Silent, s)
      else case cached_dashboard_body k now s of
             Some b \<Rightarrow> (Remembered b, s)
           | None \<Rightarrow> (Silent, s\<lparr>dv_builds := gm_set k (now, Missed) (dv_builds s)\<rparr>))"

definition read_epoch :: "string \<Rightarrow> dashboard_server \<Rightarrow> dashboard_server" where
  "read_epoch k s =
     (case gm_get (dv_builds s) k of
        Some (now, Missed) \<Rightarrow> s\<lparr>dv_builds := gm_set k (now, Building (dv_epoch s)) (dv_builds s)\<rparr>
      | _ \<Rightarrow> s)"

definition collect :: "(dashboard_view \<Rightarrow> string option) \<Rightarrow> string \<Rightarrow> dashboard_inputs \<Rightarrow> dashboard_server \<Rightarrow> dashboard_server" where
  "collect enc k i s =
     (case gm_get (dv_builds s) k of
        Some (now, Building g) \<Rightarrow>
          (let r = (case preset_of k of None \<Rightarrow> None | Some p \<Rightarrow> Option.bind (build_dashboard p now i (Some (dv_engine s))) enc)
           in s\<lparr>dv_builds := gm_set k (now, Collected g r) (dv_builds s)\<rparr>)
      | _ \<Rightarrow> s)"

definition finish_build :: "string \<Rightarrow> dashboard_server \<Rightarrow> dashboard_reply \<times> dashboard_server" where
  "finish_build k s =
     (case gm_get (dv_builds s) k of
        Some (now, Collected g r) \<Rightarrow>
          (let s1 = s\<lparr>dv_builds := gm_del k (dv_builds s)\<rparr>
           in case r of
                None \<Rightarrow> (Failed, s1)
              | Some b \<Rightarrow> (Built b, if g = dv_epoch s then s1\<lparr>dv_entries := gm_set k (b, now) (dv_entries s1)\<rparr> else s1))
      | _ \<Rightarrow> (Silent, s))"

definition invalidate_dashboard_stats_cache :: "dashboard_server \<Rightarrow> dashboard_server" where
  "invalidate_dashboard_stats_cache s = s\<lparr>dv_entries := [], dv_epoch := Suc (dv_epoch s)\<rparr>"

datatype dashboard_op =
    Ask string int
  | LockRange string int
  | ReadEpoch string
  | Collect string dashboard_inputs
  | FinishBuild string
  | PauseFilter int int
  | EmptyMemory
  | EngineChange engine

definition dashboard_step :: "(dashboard_view \<Rightarrow> string option) \<Rightarrow> dashboard_op \<Rightarrow> dashboard_server \<Rightarrow> dashboard_reply \<times> dashboard_server" where
  "dashboard_step enc x s =
     (case x of
        Ask k now \<Rightarrow> (case cached_dashboard_body k now s of Some b \<Rightarrow> (Remembered b, s) | None \<Rightarrow> (Silent, s))
      | LockRange k now \<Rightarrow> lock_range k now s
      | ReadEpoch k \<Rightarrow> (Silent, read_epoch k s)
      | Collect k i \<Rightarrow> (Silent, collect enc k i s)
      | FinishBuild k \<Rightarrow> finish_build k s
      | PauseFilter now minutes \<Rightarrow> (Silent, s\<lparr>dv_engine := pause now minutes (dv_engine s), dv_pending := Suc (dv_pending s)\<rparr>)
      | EmptyMemory \<Rightarrow> (Silent, if 0 < dv_pending s then invalidate_dashboard_stats_cache s\<lparr>dv_pending := dv_pending s - 1\<rparr> else s)
      | EngineChange e \<Rightarrow> (Silent, if e_paused e = e_paused (dv_engine s) then s\<lparr>dv_engine := e\<rparr> else s))"

definition new_dashboard_server :: "engine \<Rightarrow> dashboard_server" where
  "new_dashboard_server e = \<lparr>dv_engine = e, dv_entries = [], dv_epoch = 0, dv_builds = [], dv_pending = 0\<rparr>"

definition dashboard_run :: "(dashboard_view \<Rightarrow> string option) \<Rightarrow> engine \<Rightarrow> dashboard_op list \<Rightarrow> dashboard_server" where
  "dashboard_run enc e xs = foldl (\<lambda>s x. snd (dashboard_step enc x s)) (new_dashboard_server e) xs"

text \<open>handleDashboardV1Stats up to the response: the method and the range.\<close>

definition dashboard_request :: "string \<Rightarrow> string \<Rightarrow> nat + range_preset" where
  "dashboard_request verb raw =
     (if verb \<noteq> ''GET'' then Inl 405 else case requested_preset raw of None \<Rightarrow> Inl 400 | Some p \<Rightarrow> Inr p)"

section \<open>Remembered responses show the pause\<close>

text \<open>A body for a range that a build made at a time, from an engine with the given end of the pause.\<close>

definition made_with :: "(dashboard_view \<Rightarrow> string option) \<Rightarrow> string \<Rightarrow> int \<Rightarrow> int \<Rightarrow> string \<Rightarrow> bool" where
  "made_with enc k made until body \<longleftrightarrow>
     (\<exists>p i e v. preset_of k = Some p \<and> e_paused e = until \<and> build_dashboard p made i (Some e) = Some v \<and> enc v = Some body)"

definition dashboard_inv :: "(dashboard_view \<Rightarrow> string option) \<Rightarrow> dashboard_server \<Rightarrow> bool" where
  "dashboard_inv enc s \<longleftrightarrow>
     (\<forall>k b made. gm_get (dv_entries s) k = Some (b, made) \<longrightarrow> 0 < dv_pending s \<or> made_with enc k made (e_paused (dv_engine s)) b) \<and>
     (\<forall>k made g. gm_get (dv_builds s) k = Some (made, Building g) \<longrightarrow> g \<le> dv_epoch s) \<and>
     (\<forall>k made g r. gm_get (dv_builds s) k = Some (made, Collected g r) \<longrightarrow> g \<le> dv_epoch s \<and>
        (\<forall>b. r = Some b \<and> g = dv_epoch s \<longrightarrow> 0 < dv_pending s \<or> made_with enc k made (e_paused (dv_engine s)) b))"

lemma collected_body:
  "preset_of k = Some p \<Longrightarrow> Option.bind (build_dashboard p now i (Some e)) enc = Some b \<Longrightarrow> made_with enc k now (e_paused e) b"
  by (auto simp: made_with_def bind_eq_Some_conv)

lemma dashboard_inv_step:
  assumes "dashboard_inv enc s"
  shows "dashboard_inv enc (snd (dashboard_step enc x s))"
proof (cases x)
  case (LockRange k now)
  with assms show ?thesis by (auto simp: dashboard_step_def lock_range_def dashboard_inv_def gm_get_set split: option.splits if_splits)
next
  case (ReadEpoch k)
  with assms show ?thesis
    by (auto simp: dashboard_step_def read_epoch_def dashboard_inv_def gm_get_set split: option.splits build_phase.splits if_splits)
next
  case (Collect k i)
  with assms show ?thesis
    by (auto simp: dashboard_step_def collect_def Let_def dashboard_inv_def gm_get_set dest: collected_body split: option.splits build_phase.splits if_splits)
next
  case (FinishBuild k)
  with assms show ?thesis
    by (auto simp: dashboard_step_def finish_build_def Let_def dashboard_inv_def gm_get_set gm_get_del split: option.splits build_phase.splits if_splits)
next
  case EmptyMemory
  with assms show ?thesis
    by (fastforce simp: dashboard_step_def invalidate_dashboard_stats_cache_def dashboard_inv_def split: if_splits)
next
  case (EngineChange e)
  with assms show ?thesis by (auto simp: dashboard_step_def dashboard_inv_def split: if_splits)
qed (use assms in \<open>auto simp: dashboard_step_def dashboard_inv_def split: option.splits\<close>)

lemma dashboard_inv_run: "dashboard_inv enc (dashboard_run enc e xs)"
proof -
  have "dashboard_inv enc s \<Longrightarrow> dashboard_inv enc (foldl (\<lambda>s x. snd (dashboard_step enc x s)) s xs)" for s
    by (induction xs arbitrary: s) (simp_all add: dashboard_inv_step)
  moreover have "dashboard_inv enc (new_dashboard_server e)" by (simp add: dashboard_inv_def new_dashboard_server_def)
  ultimately show ?thesis by (simp add: dashboard_run_def)
qed

lemma remembered_entry:
  assumes "fst (dashboard_step enc x s) = Remembered body"
  shows "\<exists>k now made. (x = Ask k now \<or> x = LockRange k now) \<and> gm_get (dv_entries s) k = Some (body, made) \<and> made \<le> now \<and> now - made < dashboard_response_ttl"
  using assms
  by (cases x) (auto simp: dashboard_step_def lock_range_def finish_build_def cached_dashboard_body_def Let_def split: option.splits build_phase.splits if_splits)

lemma view_paused: "build_dashboard p now i (Some e) = Some v \<Longrightarrow> fs_paused (vw_filtering v) = paused_until now e \<and> vw_preset v = p"
  by (auto simp: build_dashboard_def Let_def dashboard_filtering_status_def split: sum.splits)

text \<open>C0: Whatever builds, pauses and rule updates overlap, a dashboard response served from memory while no
  pause request is in progress is one built for its range at most 15 seconds before, and it shows the end of
  the pause that is in force: a response from before a pause is never served after it.\<close>

theorem dashboard_shows_pause:
  assumes "fst (dashboard_step enc x (dashboard_run enc e xs)) = Remembered body" and "dv_pending (dashboard_run enc e xs) = 0"
  shows "\<exists>k now made p v. (x = Ask k now \<or> x = LockRange k now) \<and> preset_of k = Some p \<and> enc v = Some body \<and> vw_preset v = p \<and>
    made \<le> now \<and> now - made < dashboard_response_ttl \<and> fs_paused (vw_filtering v) = paused_until made (dv_engine (dashboard_run enc e xs))"
proof -
  let ?s = "dashboard_run enc e xs"
  obtain k now made where k: "x = Ask k now \<or> x = LockRange k now" "gm_get (dv_entries ?s) k = Some (body, made)" "made \<le> now" "now - made < dashboard_response_ttl"
    using remembered_entry [OF assms(1)] by blast
  have "made_with enc k made (e_paused (dv_engine ?s)) body"
    using dashboard_inv_run [of enc e xs] k(2) assms(2) by (auto simp: dashboard_inv_def)
  then obtain p i f v where v: "preset_of k = Some p" "e_paused f = e_paused (dv_engine ?s)" "build_dashboard p made i (Some f) = Some v" "enc v = Some body"
    by (auto simp: made_with_def)
  have "fs_paused (vw_filtering v) = paused_until made (dv_engine ?s)"
    using view_paused [OF v(3)] v(2) by (simp add: paused_until_def)
  then show ?thesis using k(1,3,4) v(1,4) view_paused [OF v(3)] by blast
qed

section \<open>What a response counts\<close>

lemma presets_sane:
  assumes "preset_of k = Some p"
  shows "second \<le> rp_bucket p \<and> 15 * minute \<le> rp_duration p \<and> rp_duration p \<le> 30 * 24 * 60 * minute"
proof -
  have "p \<in> set dashboard_range_presets" using assms by (auto simp: preset_of_def find_Some_iff)
  moreover have "\<forall>q \<in> set dashboard_range_presets. second \<le> rp_bucket q \<and> 15 * minute \<le> rp_duration q \<and> rp_duration q \<le> 30 * 24 * 60 * minute"
    by (simp add: dashboard_range_presets_def minute_def second_def)
  ultimately show ?thesis by blast
qed

lemma built_view:
  assumes "preset_of k = Some p" and "60 * 24 * 60 * minute \<le> now" and "di_retention i \<le> now" and "second \<le> di_retention i"
    and "di_rows i = Some (\<lambda>a. Rows (List.map Some (window_rows a d)) None)"
  shows "\<exists>v. build_dashboard p now i engine = Some v \<and>
    (let start = max (now - rp_duration p) (now - di_retention i); before = now - 2 * rp_duration p; es = hd_rows d @ di_volatile i
     in summary_exact (start div second) (now div second) es (db_summary (vw_stats v)) \<and>
        series_exact (start div second) (now div second) (rp_bucket p div second) es (vw_stats v) \<and>
        (if before < now - di_retention i then vw_comparison v = None
         else \<exists>pv. vw_comparison v = Some pv \<and> summary_exact (before div second) (start div second - 1) es pv))"
proof -
  define w where "w = window_of p (di_retention i) now"
  define start where "start = max (now - rp_duration p) (now - di_retention i)"
  have sane: "second \<le> rp_bucket p" "15 * minute \<le> rp_duration p" "rp_duration p \<le> 30 * 24 * 60 * minute"
    using presets_sane [OF assms(1)] by simp_all
  have sec: "0 < second" "0 < minute" by (simp_all add: second_def minute_def)
  have ret: "0 < di_retention i" using assms(4) sec by simp
  have s: "dw_start w = start" using ret by (auto simp: w_def window_of_def Let_def start_def max_def)
  have avail: "dw_available w \<longleftrightarrow> \<not> now - 2 * rp_duration p < now - di_retention i"
    using ret sane sec by (auto simp: w_def window_of_def Let_def)
  have comp: "dw_comparison w = now - 2 * rp_duration p" by (simp add: w_def window_of_def Let_def)
  have prev: "case previous_start w of None \<Rightarrow> True | Some q \<Rightarrow> q < start"
    using avail comp sane sec by (auto simp: previous_start_def start_def)
  have "0 \<le> start" "start < now" using assms(2,3) sane sec ret by (auto simp: start_def)
  from dashboard_series_exact [OF this sane(1) prev, of "di_trend i" "di_volatile i" d]
  obtain st where st: "get_dashboard_stats (di_trend i) start now (rp_bucket p) (previous_start w) (di_volatile i) (di_rows i) = Inr st"
    "\<not> db_degraded st" "summary_exact (start div second) (now div second) (hd_rows d @ di_volatile i) (db_summary st)"
    "series_exact (start div second) (now div second) (rp_bucket p div second) (hd_rows d @ di_volatile i) st"
    "case previous_start w of None \<Rightarrow> db_previous st = None
       | Some q \<Rightarrow> \<exists>pv. db_previous st = Some pv \<and> summary_exact (q div second) (start div second - 1) (hd_rows d @ di_volatile i) pv"
    using assms(5) by auto
  obtain v where v: "build_dashboard p now i engine = Some v" "vw_stats v = st" "vw_comparison v = (if dw_available w then db_previous st else None)"
    using st(1,2) by (simp add: build_dashboard_def Let_def w_def [symmetric] s)
  have cmp: "if now - 2 * rp_duration p < now - di_retention i then vw_comparison v = None
      else \<exists>pv. vw_comparison v = Some pv \<and> summary_exact ((now - 2 * rp_duration p) div second) (start div second - 1) (hd_rows d @ di_volatile i) pv"
    using v(3) avail st(5) comp by (auto simp: previous_start_def)
  show ?thesis using v(1,2) st(3,4) cmp unfolding Let_def start_def by (intro exI [where x = v]) simp
qed

text \<open>C0: A dashboard response built while no read fails is exact: its window is the requested range cut at
  the retention, its headline numbers and its series count every stored or waiting event of the window
  exactly once, and it compares with the window of the same length right before, when and only when that
  window is within the retention too.\<close>

theorem dashboard_view_exact:
  assumes "preset_of k = Some p" and "60 * 24 * 60 * minute \<le> now" and "di_retention i \<le> now" and "second \<le> di_retention i"
    and "di_rows i = Some (\<lambda>a. Rows (List.map Some (window_rows a d)) None)"
  shows "\<exists>v. build_dashboard p now i engine = Some v \<and>
    (let start = max (now - rp_duration p) (now - di_retention i); before = now - 2 * rp_duration p; es = hd_rows d @ di_volatile i
     in summary_exact (start div second) (now div second) es (db_summary (vw_stats v)) \<and>
        series_exact (start div second) (now div second) (rp_bucket p div second) es (vw_stats v) \<and>
        (if before < now - di_retention i then vw_comparison v = None
         else \<exists>pv. vw_comparison v = Some pv \<and> summary_exact (before div second) (start div second - 1) es pv))"
  using assms by (rule built_view)

section \<open>Examples\<close>

definition demo_inputs :: "stored_event list \<Rightarrow> dashboard_inputs" where
  "demo_inputs rows =
     \<lparr>di_trend = \<lparr>tr_alias = (\<lambda>_. []), tr_domains = [], tr_clients = []\<rparr>, di_volatile = [],
      di_rows = Some (\<lambda>a. Rows (List.map Some (window_rows a \<lparr>hd_rows = rows, hd_totals = [], hd_domains = [], hd_clients = [], hd_types = [], hd_migrated = True\<rparr>)) None),
      di_inventory = new_inventory minute, di_version = ''1.0'', di_mode = [], di_retention = default_retention\<rparr>"

definition demo_noon :: int where
  "demo_noon = 60 * 24 * 60 * minute"

definition demo_build :: "dashboard_op list" where
  "demo_build = [LockRange ''1h'' demo_noon, ReadEpoch ''1h'', Collect ''1h'' (demo_inputs []), FinishBuild ''1h'']"

lemma demo_preset: "preset_of ''1h'' = Some \<lparr>rp_key = ''1h'', rp_label = ''Last hour'', rp_duration = 60 * minute, rp_bucket = 5 * minute\<rparr>"
  by (simp add: preset_of_def dashboard_range_presets_def)

lemma demo_remembered:
  "fst (dashboard_step (\<lambda>_. Some ''{}'') (Ask ''1h'' (demo_noon + second)) (dashboard_run (\<lambda>_. Some ''{}'') new_engine demo_build)) = Remembered ''{}''"
  "dv_pending (dashboard_run (\<lambda>_. Some ''{}'') new_engine demo_build) = 0"
proof -
  let ?p = "\<lparr>rp_key = ''1h'', rp_label = ''Last hour'', rp_duration = 60 * minute, rp_bucket = 5 * minute\<rparr>"
  have t: "60 * 24 * 60 * minute \<le> demo_noon" "di_retention (demo_inputs []) \<le> demo_noon" "second \<le> di_retention (demo_inputs [])"
    by (simp_all add: demo_noon_def demo_inputs_def default_retention_def minute_def second_def)
  have r: "di_rows (demo_inputs []) = Some (\<lambda>a. Rows (List.map Some (window_rows a
      \<lparr>hd_rows = [], hd_totals = [], hd_domains = [], hd_clients = [], hd_types = [], hd_migrated = True\<rparr>)) None)" by (simp add: demo_inputs_def)
  obtain v where v: "build_dashboard ?p demo_noon (demo_inputs []) (Some new_engine) = Some v"
    using built_view [OF demo_preset t r, of "Some new_engine"] by blast
  have run: "dashboard_run (\<lambda>_. Some ''{}'') new_engine demo_build =
      (new_dashboard_server new_engine)\<lparr>dv_entries := [(''1h'', (''{}'', demo_noon))], dv_builds := []\<rparr>"
    using v demo_preset
    by (simp add: dashboard_run_def demo_build_def dashboard_step_def lock_range_def read_epoch_def collect_def finish_build_def Let_def
        cached_dashboard_body_def new_dashboard_server_def)
  show "fst (dashboard_step (\<lambda>_. Some ''{}'') (Ask ''1h'' (demo_noon + second)) (dashboard_run (\<lambda>_. Some ''{}'') new_engine demo_build)) = Remembered ''{}''"
    "dv_pending (dashboard_run (\<lambda>_. Some ''{}'') new_engine demo_build) = 0"
    unfolding run by (simp_all add: dashboard_step_def cached_dashboard_body_def new_dashboard_server_def dashboard_response_ttl_def second_def)
qed

theorem dashboard_shows_pause_witness:
  "\<exists>k now made p (v :: dashboard_view). (Ask ''1h'' (demo_noon + second) = Ask k now \<or> Ask ''1h'' (demo_noon + second) = LockRange k now) \<and> preset_of k = Some p \<and>
    vw_preset v = p \<and> now - made < dashboard_response_ttl"
  using dashboard_shows_pause [OF demo_remembered] by (elim exE conjE) ((intro exI conjI; assumption))

definition demo_traffic :: "stored_event list" where
  "demo_traffic = List.map (\<lambda>t. no_event\<lparr>qv_time := t, qv_blocked := t = 5183000\<rparr>) [5183000, 5179000, 5183900]"

theorem dashboard_view_exact_witness:
  "\<exists>v pv. build_dashboard \<lparr>rp_key = ''1h'', rp_label = ''Last hour'', rp_duration = 60 * minute, rp_bucket = 5 * minute\<rparr> demo_noon (demo_inputs demo_traffic) None = Some v \<and>
     dm_queries (db_summary (vw_stats v)) = 2 \<and> dm_blocked (db_summary (vw_stats v)) = 1 \<and> vw_comparison v = Some pv \<and> dm_queries pv = 1"
proof -
  let ?d = "\<lparr>hd_rows = demo_traffic, hd_totals = [], hd_domains = [], hd_clients = [], hd_types = [], hd_migrated = True\<rparr>"
  have c: "seen_between 5180400 5184000 (\<lambda>_. True) demo_traffic = 2" "seen_between 5180400 5184000 qv_blocked demo_traffic = 1"
    "seen_between 5176800 5180399 (\<lambda>_. True) demo_traffic = 1" by code_simp+
  have t: "60 * 24 * 60 * minute \<le> demo_noon" "di_retention (demo_inputs demo_traffic) \<le> demo_noon" "second \<le> di_retention (demo_inputs demo_traffic)"
    by (simp_all add: demo_noon_def demo_inputs_def default_retention_def minute_def second_def)
  have r: "di_rows (demo_inputs demo_traffic) = Some (\<lambda>a. Rows (List.map Some (window_rows a ?d)) None)" by (simp add: demo_inputs_def)
  show ?thesis using dashboard_view_exact [OF demo_preset t r, of None] c
    by (auto simp: Let_def demo_noon_def demo_inputs_def default_retention_def minute_def second_def summary_exact_def)
qed

end
