(* ===== verification/Magic_Dns.thy ===== *)
theory Magic_Dns
  imports Dns_Msg "HOL-Library.Product_Lexorder" "HOL-Library.Multiset"
begin

text \<open>
  magicdns/store.go: the snapshot of MagicDNS records. A snapshot is validated, normalized,
  deduplicated and sorted, then persisted, then published. The digest of the records, and whether
  the file can be written, are arguments; decoding the JSON file is outside.
\<close>

section \<open>Records\<close>

record mrecord =
  mr_node :: string
  mr_name :: string
  mr_type :: string
  mr_value :: string

record msnapshot =
  ms_version :: int
  ms_tailnet :: string
  ms_generation :: string
  ms_synced :: int
  ms_records :: "mrecord list"

definition snapshot_version :: int where "snapshot_version = 1"
definition max_records :: nat where "max_records = 200000"

definition magic_name :: "string \<Rightarrow> string" where
  "magic_name s = (let dot = (\<lambda>c. c = CHR ''.'') in to_lower (trim_right dot (trim_left dot (trim_space s))))"

definition has_control :: "string \<Rightarrow> bool" where
  "has_control s \<longleftrightarrow> contains_any s [CHR 0x0D, CHR 0x0A, CHR 0x00]"

datatype magic_error = BadVersion | TooManyRecords | BadNode | BadName | BadRecordType | BadValue | BadGeneration | PersistFailed

definition normalize_record :: "(string \<Rightarrow> bool) \<Rightarrow> mrecord \<Rightarrow> magic_error + mrecord" where
  "normalize_record is_name r0 =
     (let node = trim_space (mr_node r0); name = magic_name (mr_name r0);
          t = to_upper (trim_space (mr_type r0)); v = trim_space (mr_value r0)
      in if node = [] \<or> 256 < length node \<or> has_control node then Inl BadNode
         else if \<not> is_name name \<or> name = [] \<or> has_control name then Inl BadName
         else if t \<noteq> ''A'' \<and> t \<noteq> ''AAAA'' then Inl BadRecordType
         else case parse_addr v of
                None \<Rightarrow> Inl BadValue
              | Some a \<Rightarrow>
                  (if (t = ''A'' \<and> (case a of A4 _ \<Rightarrow> False | A6 _ _ \<Rightarrow> True)) \<or>
                      (t = ''AAAA'' \<and> (case a of A4 _ \<Rightarrow> True | A6 _ _ \<Rightarrow> False)) then Inl BadValue
                   else Inr \<lparr>mr_node = node, mr_name = name, mr_type = t, mr_value = addr_string a\<rparr>))"

definition record_key :: "mrecord \<Rightarrow> string \<times> string \<times> string" where
  "record_key r = (mr_name r, mr_type r, mr_value r)"

fun normalize_records :: "(string \<Rightarrow> bool) \<Rightarrow> mrecord list \<Rightarrow> mrecord list \<Rightarrow> magic_error + mrecord list" where
  "normalize_records is_name acc [] = Inr acc"
| "normalize_records is_name acc (r # rs) =
     (case normalize_record is_name r of
        Inl e \<Rightarrow> Inl e
      | Inr n \<Rightarrow> normalize_records is_name (if record_key n \<in> record_key ` set acc then acc else acc @ [n]) rs)"

definition sort_records :: "mrecord list \<Rightarrow> mrecord list" where
  "sort_records rs = sort_key (\<lambda>r. (mr_name r, mr_type r, mr_value r, mr_node r)) rs"

definition normalize_snapshot ::
  "(string \<Rightarrow> bool) \<Rightarrow> (mrecord list \<Rightarrow> string) \<Rightarrow> msnapshot \<Rightarrow> magic_error + msnapshot" where
  "normalize_snapshot is_name digest s =
     (let version = (if ms_version s = 0 then snapshot_version else ms_version s)
      in if version \<noteq> snapshot_version then Inl BadVersion
         else if max_records < length (ms_records s) then Inl TooManyRecords
         else case normalize_records is_name [] (ms_records s) of
                Inl e \<Rightarrow> Inl e
              | Inr rs \<Rightarrow>
                  (let records = sort_records rs; generation = digest records
                   in if ms_generation s \<noteq> [] \<and> ms_generation s \<noteq> generation then Inl BadGeneration
                      else Inr \<lparr>ms_version = snapshot_version, ms_tailnet = trim_space (ms_tailnet s),
                                ms_generation = generation, ms_synced = ms_synced s, ms_records = records\<rparr>))"

section \<open>The store\<close>

record magic_store =
  mg_has_path :: bool
  mg_snapshot :: msnapshot
  mg_file :: "msnapshot option"
  mg_notified :: nat

definition empty_snapshot :: msnapshot where
  "empty_snapshot = \<lparr>ms_version = snapshot_version, ms_tailnet = [], ms_generation = [], ms_synced = 0, ms_records = []\<rparr>"

definition new_magic_store :: "bool \<Rightarrow> msnapshot option \<Rightarrow> magic_store" where
  "new_magic_store has_path file = \<lparr>mg_has_path = has_path, mg_snapshot = empty_snapshot, mg_file = file, mg_notified = 0\<rparr>"

definition load_magic ::
  "(string \<Rightarrow> bool) \<Rightarrow> (mrecord list \<Rightarrow> string) \<Rightarrow> bool \<Rightarrow> msnapshot option \<Rightarrow> magic_error + magic_store" where
  "load_magic is_name digest has_path file =
     (case (if has_path then file else None) of
        None \<Rightarrow> Inr (new_magic_store has_path file)
      | Some s \<Rightarrow> (case normalize_snapshot is_name digest s of
                     Inl e \<Rightarrow> Inl e | Inr n \<Rightarrow> Inr ((new_magic_store has_path file)\<lparr>mg_snapshot := n\<rparr>)))"

text \<open>Apply: validate, persist, publish; the callback runs when the generation changed.\<close>

definition apply_snapshot ::
  "(string \<Rightarrow> bool) \<Rightarrow> (mrecord list \<Rightarrow> string) \<Rightarrow> msnapshot \<Rightarrow> bool \<Rightarrow> magic_store \<Rightarrow> magic_error option \<times> magic_store" where
  "apply_snapshot is_name digest s ok st =
     (case normalize_snapshot is_name digest s of
        Inl e \<Rightarrow> (Some e, st)
      | Inr n \<Rightarrow>
          (if mg_has_path st \<and> \<not> ok then (Some PersistFailed, st)
           else (None, st\<lparr>mg_file := (if mg_has_path st then Some n else mg_file st), mg_snapshot := n,
                          mg_notified := (if ms_generation n \<noteq> ms_generation (mg_snapshot st)
                                          then Suc (mg_notified st) else mg_notified st)\<rparr>)))"

definition replace_records ::
  "(string \<Rightarrow> bool) \<Rightarrow> (mrecord list \<Rightarrow> string) \<Rightarrow> string \<Rightarrow> mrecord list \<Rightarrow> int \<Rightarrow> bool \<Rightarrow> magic_store \<Rightarrow>
    magic_error option \<times> magic_store" where
  "replace_records is_name digest tailnet rs synced ok st =
     apply_snapshot is_name digest
       \<lparr>ms_version = snapshot_version, ms_tailnet = trim_space tailnet, ms_generation = [], ms_synced = synced, ms_records = rs\<rparr> ok st"

definition lookup_magic :: "string \<Rightarrow> string \<Rightarrow> magic_store \<Rightarrow> mrecord list" where
  "lookup_magic name t st =
     filter (\<lambda>r. mr_name r = magic_name name \<and> mr_type r = to_upper (trim_space t)) (ms_records (mg_snapshot st))"

section \<open>What a published snapshot holds\<close>

definition record_ok :: "mrecord \<Rightarrow> bool" where
  "record_ok r \<longleftrightarrow> mr_node r \<noteq> [] \<and> mr_name r \<noteq> [] \<and>
     (mr_type r = ''A'' \<and> (\<exists>x. mr_value r = v4_string x) \<or> mr_type r = ''AAAA'' \<and> (\<exists>w z. mr_value r = addr_string (A6 w z)))"

definition records_ok :: "mrecord list \<Rightarrow> bool" where
  "records_ok rs \<longleftrightarrow> list_all record_ok rs \<and> distinct (List.map record_key rs)"

lemma normalize_record_ok: "normalize_record is_name r = Inr n \<Longrightarrow> record_ok n"
proof -
  assume n: "normalize_record is_name r = Inr n"
  have v4: "addr_string (A4 x) = v4_string x" for x by (simp add: addr_string_def)
  obtain a where "parse_addr (trim_space (mr_value r)) = Some a"
    using n by (auto simp: normalize_record_def Let_def split: if_splits option.splits)
  then show ?thesis
    using n by (cases a) (auto simp: normalize_record_def Let_def record_ok_def v4 split: if_splits, blast+)
qed

lemma normalize_records_ok:
  "normalize_records is_name acc rs = Inr out \<Longrightarrow> records_ok acc \<Longrightarrow> records_ok out"
proof (induction is_name acc rs rule: normalize_records.induct)
  case (2 is_name acc r rs)
  then show ?case
    by (auto simp: records_ok_def normalize_record_ok image_def split: sum.splits if_splits)
qed simp

lemma sort_records_ok: "records_ok (sort_records rs) \<longleftrightarrow> records_ok rs"
proof -
  have "mset (sort_records rs) = mset rs" by (simp add: sort_records_def)
  then have "mset (List.map record_key (sort_records rs)) = mset (List.map record_key rs)" by simp
  then have "distinct (List.map record_key (sort_records rs)) \<longleftrightarrow> distinct (List.map record_key rs)"
    by (rule mset_eq_imp_distinct_iff)
  then show ?thesis by (simp add: records_ok_def list_all_iff sort_records_def)
qed

lemma normalize_snapshot_ok: "normalize_snapshot is_name digest s = Inr n \<Longrightarrow> records_ok (ms_records n)"
  by (auto simp: normalize_snapshot_def Let_def sort_records_ok records_ok_def [of "[]"]
      dest: normalize_records_ok split: if_splits sum.splits)

definition magic_step :: "(string \<Rightarrow> bool) \<Rightarrow> (mrecord list \<Rightarrow> string) \<Rightarrow> msnapshot \<Rightarrow> bool \<Rightarrow> magic_store \<Rightarrow> magic_store" where
  "magic_step is_name digest s ok st = snd (apply_snapshot is_name digest s ok st)"

definition magic_mem :: "magic_store \<Rightarrow> msnapshot option" where
  "magic_mem st = (if mg_has_path st then Some (mg_snapshot st) else None)"

definition magic_disk :: "magic_store \<Rightarrow> msnapshot option" where
  "magic_disk st = (if mg_has_path st then (case mg_file st of None \<Rightarrow> Some empty_snapshot | Some s \<Rightarrow> Some s) else None)"

interpretation magic_persistence: durable_store magic_mem magic_disk "magic_step is_name digest"
  by unfold_locales (auto simp: magic_mem_def magic_disk_def magic_step_def apply_snapshot_def split: sum.split if_splits)

interpretation magic_sys: invariant_system "\<lambda>xo. magic_step is_name digest (fst xo) (snd xo)"
    "\<lambda>st. records_ok (ms_records (mg_snapshot st))"
  by unfold_locales (auto simp: magic_step_def apply_snapshot_def dest: normalize_snapshot_ok split: sum.split)

lemma magic_step_path: "mg_has_path (magic_step is_name digest s ok st) = mg_has_path st"
  by (simp add: magic_step_def apply_snapshot_def split: sum.split)

lemma magic_run_path: "mg_has_path (fold (\<lambda>(x, ok). magic_step is_name digest x ok) xs st) = mg_has_path st"
  by (induction xs arbitrary: st) (simp_all add: magic_step_path split_def)

text \<open>After any sequence of snapshots offered to a persisted store, valid or not, with any file writes
  failing, the file holds the published snapshot, which is the one the successful writes alone publish,
  and a lookup returns distinct records of the asked name and type whose values are addresses of that
  family.\<close>

theorem magic_lookup_sound:
  assumes "st = fold (\<lambda>(x, ok). magic_step is_name digest x ok) xs (new_magic_store True None)"
  shows "magic_disk st = Some (mg_snapshot st) \<and>
    mg_snapshot st = mg_snapshot (fold (\<lambda>(x, ok). magic_step is_name digest x ok) (filter snd xs) (new_magic_store True None)) \<and>
    distinct (lookup_magic name t st) \<and> list_all record_ok (lookup_magic name t st) \<and>
    list_all (\<lambda>r. mr_name r = magic_name name \<and> mr_type r = to_upper (trim_space t)) (lookup_magic name t st)"
proof -
  let ?n = "new_magic_store True None"
  have 0: "magic_disk ?n = magic_mem ?n" by (simp add: magic_disk_def magic_mem_def new_magic_store_def)
  have path: "mg_has_path (fold (\<lambda>(x, ok). magic_step is_name digest x ok) ys ?n)" for ys
    by (simp add: magic_run_path) (simp add: new_magic_store_def)
  have "magic_disk st = magic_mem st" unfolding assms by (rule magic_persistence.run_durable [OF 0])
  moreover have "magic_mem st = magic_mem (fold (\<lambda>(x, ok). magic_step is_name digest x ok) (filter snd xs) ?n)"
    unfolding assms by (rule magic_persistence.failures_invisible [OF 0])
  moreover have "records_ok (ms_records (mg_snapshot st))"
    using magic_sys.run_keeps [of ?n is_name digest xs] unfolding assms split_def
    by (simp add: new_magic_store_def empty_snapshot_def records_ok_def)
  ultimately show ?thesis
    using path by (auto simp: assms magic_mem_def lookup_magic_def records_ok_def list_all_iff distinct_map)
qed

theorem magic_lookup_sound_witness:
  "list_all record_ok (lookup_magic ''Box.Tail.ts.net.'' ''a''
     (fold (\<lambda>(x, ok). magic_step (\<lambda>_. True) (\<lambda>_. ''g'') x ok)
        [(\<lparr>ms_version = 1, ms_tailnet = [], ms_generation = [], ms_synced = 0,
           ms_records = [\<lparr>mr_node = ''n'', mr_name = ''box.tail.ts.net'', mr_type = ''A'', mr_value = ''100.64.0.1''\<rparr>]\<rparr>, True)]
        (new_magic_store True None)))"
  using magic_lookup_sound [OF refl] by blast

end
