(* ===== verification/Upstream_Query.thy ===== *)
theory Upstream_Query
  imports Upstream_Pool Cache_Flow
begin

text \<open>
  dnsserver/upstream_query.go and fetchUpstreamResult of dnsserver/cache_pipeline.go: the query sent
  upstream, the acceptance of a reply, the order client upstreams, route, pool, and the conversion
  of bogus answers; with what the pool guarantees in every mode and what its statistics say.
\<close>

section \<open>Forwarding\<close>

text \<open>What a forward runs on: the pool (when one is configured), the network, a counter.\<close>

record 'w uplink =
  ul_pool :: "pool option"
  ul_world :: 'w
  ul_bogus_hits :: nat

record forward_env =
  fe_dnssec :: bool
  fe_routes :: "route list option"
  fe_policy :: "policy option"
  fe_upstreams :: "string list"
  fe_health :: "(string \<times> rat) list"

text \<open>The copy that goes upstream: a fresh transaction id, our buffer size and DO bit.\<close>

definition upstream_query :: "bool \<Rightarrow> u16 \<Rightarrow> msg \<Rightarrow> msg" where
  "upstream_query dnssec i r =
     r\<lparr>m_id := i, m_opt := Some (case m_opt r of
         Some q \<Rightarrow> q\<lparr>o_udp_size := default_edns_udp_size, o_do := dnssec\<rparr>
       | None \<Rightarrow> \<lparr>o_udp_size = default_edns_udp_size, o_version = 0, o_do = dnssec, o_options = []\<rparr>)\<rparr>"

definition same_question :: "question \<Rightarrow> question \<Rightarrow> bool" where
  "same_question q a \<longleftrightarrow> q_type a = q_type q \<and> q_class a = q_class q \<and> equal_fold (q_name a) (q_name q)"

definition accept_upstream_reply :: "msg \<Rightarrow> msg \<Rightarrow> u16 \<Rightarrow> msg option" where
  "accept_upstream_reply query m client_id =
     (if m_id m \<noteq> m_id query \<or> length (m_question m) \<noteq> length (m_question query) then None
      else if list_all2 same_question (m_question query) (m_question m) then Some (m\<lparr>m_id := client_id\<rparr>) else None)"

definition accepted :: "msg \<Rightarrow> u16 \<Rightarrow> string + msg \<times> string \<Rightarrow> (string \<times> msg) option" where
  "accepted q c res = (case res of Inl _ \<Rightarrow> None
     | Inr (m, used) \<Rightarrow> map_option (\<lambda>m'. (used, m')) (accept_upstream_reply q m c))"

definition route_for :: "forward_env \<Rightarrow> msg \<Rightarrow> string" where
  "route_for F r = (case (fe_routes F, m_question r) of
       (Some rs, q # _) \<Rightarrow> get_upstream_for_domain (normalize_name (q_name q)) rs | _ \<Rightarrow> [])"

definition forward_pool ::
  "'w network \<Rightarrow> url_lib \<Rightarrow> forward_env \<Rightarrow> msg \<Rightarrow> string list \<Rightarrow> u16 \<Rightarrow> pool \<Rightarrow> 'w \<Rightarrow>
    (string \<times> msg option) \<times> pool \<times> 'w" where
  "forward_pool N U F q specs client_id p w =
     (case (if specs = [] then (Inl [], p, w) else exchange_specs N U specs q p w) of (r1, p1, w1) \<Rightarrow>
        (case accepted q client_id r1 of
           Some (used, m) \<Rightarrow> ((used, Some m), p1, w1)
         | None \<Rightarrow>
             (case (if route_for F q = [] then (Inl [], p1, w1) else exchange_route N U (route_for F q) q p1 w1) of
                (r2, p2, w2) \<Rightarrow>
                  (case accepted q client_id r2 of
                     Some (used, m) \<Rightarrow> ((used, Some m), p2, w2)
                   | None \<Rightarrow>
                       (case pool_exchange N (fe_health F) q p2 w2 of (r3, p3, w3) \<Rightarrow>
                          (case accepted q client_id r3 of
                             Some (used, m) \<Rightarrow> ((used, Some m), p3, w3)
                           | None \<Rightarrow> (([], None), p3, w3)))))))"

text \<open>Without a pool: the configured addresses in order, with a retry over TCP when truncated.\<close>

fun forward_legacy ::
  "'w network \<Rightarrow> string list \<Rightarrow> msg \<Rightarrow> u16 \<Rightarrow> 'w \<Rightarrow> (string \<times> msg option) \<times> 'w" where
  "forward_legacy N [] q client_id w = (([], None), w)"
| "forward_legacy N (u # us) q client_id w =
     (case plain_dial N False u q w of
        (None, w1) \<Rightarrow> forward_legacy N us q client_id w1
      | (Some m, w1) \<Rightarrow>
          (case (if m_truncated m then
                   (case plain_dial N True u q w1 of (None, w2) \<Rightarrow> (m, w2) | (Some tm, w2) \<Rightarrow> (tm, w2))
                 else (m, w1)) of (m', w2) \<Rightarrow>
             (case accept_upstream_reply q m' client_id of
                Some a \<Rightarrow> ((u, Some a), w2)
              | None \<Rightarrow> forward_legacy N us q client_id w2)))"

definition forward ::
  "'w network \<Rightarrow> url_lib \<Rightarrow> forward_env \<Rightarrow> msg \<Rightarrow> string list \<Rightarrow> 'w uplink \<Rightarrow> (string \<times> msg option) \<times> 'w uplink" where
  "forward N U F r specs u =
     (case fresh_id N (ul_world u) of (i, w) \<Rightarrow>
        (let q = upstream_query (fe_dnssec F) i r
         in case ul_pool u of
              Some p \<Rightarrow> (case forward_pool N U F q specs (m_id r) p w of
                          (res, p', w') \<Rightarrow> (res, u\<lparr>ul_pool := Some p', ul_world := w'\<rparr>))
            | None \<Rightarrow> (case forward_legacy N (fe_upstreams F) q (m_id r) w of
                          (res, w') \<Rightarrow> (res, u\<lparr>ul_world := w'\<rparr>))))"

definition fetch_upstream_result ::
  "dns_lib \<Rightarrow> 'w network \<Rightarrow> url_lib \<Rightarrow> forward_env \<Rightarrow> msg \<Rightarrow> string list \<Rightarrow> 'w uplink \<Rightarrow> upstream_result \<times> 'w uplink" where
  "fetch_upstream_result L N U F r specs u =
     (case forward N U F r specs u of
        ((used, None), u1) \<Rightarrow>
          (\<lparr>ur_upstream = used, ur_msg = Some ((set_reply L r)\<lparr>m_rcode := rcode_server_failure\<rparr>),
            ur_rule = [], ur_reason = []\<rparr>, u1)
      | ((used, Some m), u1) \<Rightarrow>
          (if is_bogus_answer (fe_policy F) (m_answer m) then
             (\<lparr>ur_upstream = used, ur_msg = Some ((set_reply L r)\<lparr>m_rcode := rcode_name_error\<rparr>),
               ur_rule = ''BOGUS_NXDOMAIN'', ur_reason = ''BogusNXDOMAIN''\<rparr>,
              u1\<lparr>ul_bogus_hits := Suc (ul_bogus_hits u1)\<rparr>)
           else (\<lparr>ur_upstream = used, ur_msg = Some m, ur_rule = [], ur_reason = []\<rparr>, u1)))"

section \<open>The modes answer alike\<close>

text \<open>An upstream is up when an exchange with it, not cancelled, succeeds; the network is fair when every
  candidate of a race completes before the race's context ends, in whatever order.\<close>

definition answers :: "'w network \<Rightarrow> (upstream \<Rightarrow> bool) \<Rightarrow> bool" where
  "answers N up \<longleftrightarrow> (\<forall>r m w. (case fst (fst (dial N False r m w)) of Inl _ \<Rightarrow> \<not> up r | Inr _ \<Rightarrow> up r)) \<and>
     (\<forall>cs w. mset (fst (arrival N cs w)) = mset cs)"

text \<open>The reply an upstream gives: what a dial of it with the pool's client subnet returned, with the
  addresses synthesized from its own A records where the pool embeds them.\<close>

definition genuine_reply :: "'w network \<Rightarrow> pool \<Rightarrow> msg \<Rightarrow> upstream \<Rightarrow> msg \<Rightarrow> bool" where
  "genuine_reply N p m r resp \<longleftrightarrow>
     (\<exists>w. case dial N False r (with_ecs p m) w of
        ((Inl _, _), _) \<Rightarrow> False
      | ((Inr x, _), w1) \<Rightarrow> resp =
          (if wants_dns64 p m x
           then (case fst (synthesize_dns64 N p r (q_name (hd (m_question m))) w1) of [] \<Rightarrow> x | rs \<Rightarrow> x\<lparr>m_answer := rs\<rparr>)
           else x))"

definition same_profile :: "pool \<Rightarrow> pool \<Rightarrow> bool" where
  "same_profile p p' \<longleftrightarrow> pl_ecs p' = pl_ecs p \<and> pl_dns64 p' = pl_dns64 p \<and> pl_dns64_prefixes p' = pl_dns64_prefixes p"

lemma genuine_same: "same_profile p p' \<Longrightarrow> genuine_reply N p' m r resp = genuine_reply N p m r resp"
proof -
  assume a: "same_profile p p'"
  then have e: "pl_ecs p' = pl_ecs p" "pl_dns64 p' = pl_dns64 p" "pl_dns64_prefixes p' = pl_dns64_prefixes p"
    by (simp_all add: same_profile_def)
  show ?thesis unfolding genuine_reply_def with_ecs_def wants_dns64_def synthesize_dns64_def e ..
qed

lemma same_trans: "same_profile p q \<Longrightarrow> same_profile q r \<Longrightarrow> same_profile p r"
  by (simp add: same_profile_def)

lemma same_refl [simp]: "same_profile p p"
  by (simp add: same_profile_def)

lemma context_same: "same_profile p (fst (snd (exchange_context N c r m p w)))"
  by (auto simp: exchange_context_def same_profile_def put_stat_def Let_def split: prod.splits sum.splits list.splits)

lemma context_genuine: "exchange_context N False r m p w = (Inr resp, p1, w1) \<Longrightarrow> genuine_reply N p m r resp"
  unfolding genuine_reply_def
  by (rule exI [of _ w])
    (auto simp: exchange_context_def Let_def split: prod.splits sum.splits list.splits if_splits)

lemma exchange_context_up:
  assumes "answers N up"
  shows "case fst (exchange_context N False r m p w) of Inl _ \<Rightarrow> \<not> up r | Inr _ \<Rightarrow> up r"
proof -
  have "case fst (fst (dial N False r (with_ecs p m) w)) of Inl _ \<Rightarrow> \<not> up r | Inr _ \<Rightarrow> up r"
    using assms unfolding answers_def by blast
  then show ?thesis
    by (auto simp: exchange_context_def Let_def split: prod.splits sum.splits list.splits)
qed

lemma exchange_strict_up:
  assumes "answers N up"
  shows "case fst (exchange_strict N rs m e p w) of
      Inl _ \<Rightarrow> \<forall>r \<in> set rs. \<not> up r
    | Inr (a, used) \<Rightarrow> \<exists>r \<in> set rs. up r \<and> used = sp_raw r \<and> genuine_reply N p m r a"
proof (induction rs arbitrary: e p w)
  case (Cons r rs)
  obtain x p1 w1 where x: "exchange_context N False r m p w = (x, p1, w1)" by (cases "exchange_context N False r m p w") auto
  have same: "genuine_reply N p1 m = genuine_reply N p m"
    using genuine_same [of p p1] context_same [of p N False r m w] x by (intro ext) simp
  note up = exchange_context_up [OF assms, of r m p w, unfolded x fst_conv]
  show ?case
  proof (cases x)
    case (Inl e1)
    with up have "\<not> up r" by simp
    with Cons.IH [where e = e1 and p = p1 and w = w1] Inl x show ?thesis
      by (cases "fst (exchange_strict N rs m e1 p1 w1)") (auto simp: same)
  next
    case (Inr resp)
    with up x context_genuine [of N r m p w resp] show ?thesis by simp
  qed
qed simp

lemma race_up:
  assumes "answers N up"
  shows "case fst (race N rs m winner p w) of
      None \<Rightarrow> winner = None \<and> (\<forall>r \<in> set rs. \<not> up r)
    | Some (a, used) \<Rightarrow> (if winner \<noteq> None then winner = Some (a, used)
        else \<exists>r \<in> set rs. up r \<and> used = sp_raw r \<and> genuine_reply N p m r a)"
proof (induction rs arbitrary: winner p w)
  case Nil
  then show ?case by (auto split: option.splits)
next
  case (Cons r rs)
  obtain x p1 w1 where x: "exchange_context N (winner \<noteq> None) r m p w = (x, p1, w1)"
    by (cases "exchange_context N (winner \<noteq> None) r m p w") auto
  have same: "genuine_reply N p1 m = genuine_reply N p m"
    using genuine_same [of p p1] context_same [of p N "winner \<noteq> None" r m w] x by (intro ext) simp
  show ?case
  proof (cases winner)
    case None
    note up = exchange_context_up [OF assms, of r m p w, unfolded x [unfolded None, simplified] fst_conv]
    show ?thesis
    proof (cases x)
      case (Inl e1)
      with up have "\<not> up r" by simp
      with Cons.IH [where winner = None and p = p1 and w = w1] Inl x None show ?thesis
        by (cases "fst (race N rs m None p1 w1)") (auto simp: same)
    next
      case (Inr resp)
      with up x None context_genuine [of N r m p w resp] have "up r" "genuine_reply N p m r resp" by simp_all
      with Cons.IH [where winner = "Some (resp, sp_raw r)" and p = p1 and w = w1] Inr x None show ?thesis
        by (cases "fst (race N rs m (Some (resp, sp_raw r)) p1 w1)") auto
    qed
  next
    case (Some a)
    with Cons.IH [where winner = winner and p = p1 and w = w1] x show ?thesis
      by (cases x; cases "fst (race N rs m winner p1 w1)") auto
  qed
qed

lemma weighted_loop_perm: "mset (fst (weighted_loop N xs w)) = mset (List.map fst xs)"
proof (induction N xs w rule: weighted_loop.induct)
  case (2 N c cs w)
  obtain d w1 where d: "draw N w = (d, w1)" by (cases "draw N w")
  define xs where "xs = c # cs"
  define i where "i = pick_from 0 (d * sum_list (List.map snd xs)) xs"
  have i: "i < length xs" using pick_from_less [of 0 "d * sum_list (List.map snd xs)" xs] by (auto simp: i_def xs_def)
  obtain out w2 where o: "weighted_loop N (take i xs @ drop (Suc i) xs) w1 = (out, w2)"
    by (cases "weighted_loop N (take i xs @ drop (Suc i) xs) w1")
  have "mset out = mset (List.map fst (take i xs @ drop (Suc i) xs))"
    using "2.IH" [OF d [symmetric] refl refl] d o unfolding i_def xs_def by simp
  moreover have "mset (List.map fst xs) = mset (List.map fst (take i xs @ xs ! i # drop (Suc i) xs))"
    using i by (simp add: id_take_nth_drop [symmetric])
  moreover have "weighted_loop N (c # cs) w = (fst (xs ! i) # out, w2)"
    using o by (simp add: d Let_def i_def xs_def)
  ultimately show ?case by (simp add: xs_def)
qed simp

lemma stats_same: "same_profile p (fold (\<lambda>r. stat_for (sp_raw r)) cs p)"
proof -
  have "same_profile p q \<Longrightarrow> same_profile p (fold (\<lambda>r. stat_for (sp_raw r)) cs q)" for q
    by (induction cs arbitrary: q) (auto simp: stat_for_def same_profile_def split: option.split)
  then show ?thesis by simp
qed

lemma strict_same: "same_profile p (fst (snd (exchange_strict N rs m e p w)))"
proof (induction rs arbitrary: e p w)
  case (Cons r rs)
  obtain x p1 w1 where x: "exchange_context N False r m p w = (x, p1, w1)" by (cases "exchange_context N False r m p w") auto
  have "same_profile p p1" using context_same [of p N False r m w] x by simp
  with Cons.IH [of p1] same_trans x show ?case by (cases x) auto
qed simp

lemma race_same: "same_profile p (fst (snd (race N rs m winner p w)))"
proof (induction rs arbitrary: winner p w)
  case (Cons r rs)
  obtain x p1 w1 where x: "exchange_context N (winner \<noteq> None) r m p w = (x, p1, w1)"
    by (cases "exchange_context N (winner \<noteq> None) r m p w") auto
  have "same_profile p p1" using context_same [of p N "winner \<noteq> None" r m w] x by simp
  with Cons.IH [of p1] same_trans x show ?case by (cases x) auto
qed simp

lemma parallel_same: "same_profile p (fst (snd (exchange_parallel N cs m p w)))"
proof -
  obtain order w1 where o: "arrival N cs w = (order, w1)" by (cases "arrival N cs w")
  obtain x p1 w2 where r: "race N order m None p w1 = (x, p1, w2)" by (cases "race N order m None p w1") auto
  have "same_profile p p1" using race_same [of p N order m None w1] r by simp
  from same_trans [OF this race_same] show ?thesis by (simp add: exchange_parallel_def o r split_def)
qed

lemma mode_same: "same_profile p (fst (snd (exchange_by_mode N cs m p w)))"
  by (simp add: exchange_by_mode_def Let_def split_def parallel_same strict_same same_trans [OF stats_same strict_same])

lemma healthy_same: "same_profile p (snd (healthy now health rs p))"
  by (simp add: healthy_def Let_def stats_same)

text \<open>A result that is right for the candidates: an error only if all are down, else the reply of one that is up.\<close>

definition right_result ::
  "'w network \<Rightarrow> pool \<Rightarrow> msg \<Rightarrow> (upstream \<Rightarrow> bool) \<Rightarrow> upstream list \<Rightarrow> string + msg \<times> string \<Rightarrow> bool" where
  "right_result N p m up cs res = (case res of Inl _ \<Rightarrow> list_all (\<lambda>r. \<not> up r) cs
     | Inr (a, used) \<Rightarrow> list_ex (\<lambda>r. up r \<and> used = sp_raw r \<and> genuine_reply N p m r a) cs)"

lemma right_result_profile: "same_profile p q \<Longrightarrow> right_result N q m up cs res = right_result N p m up cs res"
  by (simp add: right_result_def genuine_same split: sum.split prod.split)

lemma right_result_set: "set cs = set ds \<Longrightarrow> right_result N p m up cs res = right_result N p m up ds res"
  by (simp add: right_result_def list_all_iff list_ex_iff split: sum.split prod.split)

lemma exchange_strict_right: "answers N up \<Longrightarrow> right_result N p m up cs (fst (exchange_strict N cs m e p w))"
  using exchange_strict_up [where N = N and up = up and rs = cs and m = m and e = e and p = p and w = w]
  unfolding right_result_def list_all_iff list_ex_iff by simp

lemma exchange_parallel_right:
  assumes "answers N up"
  shows "right_result N p m up cs (fst (exchange_parallel N cs m p w))"
proof -
  obtain order w1 where o: "arrival N cs w = (order, w1)" by (cases "arrival N cs w")
  have "mset order = mset cs" using assms o unfolding answers_def by (metis fst_conv)
  then have same: "set order = set cs" by (metis set_mset_mset)
  obtain res p1 w2 where r: "race N order m None p w1 = (res, p1, w2)" by (cases "race N order m None p w1") auto
  show ?thesis
    using race_up [OF assms, where rs = order and m = m and winner = None and p = p and w = w1]
    by (cases res) (auto simp: exchange_parallel_def o r split_def right_result_def list_all_iff list_ex_iff same)
qed

lemma exchange_balanced_right:
  assumes "answers N up"
  shows "right_result N p m up cs (fst (exchange_strict N (fst (weighted_order N cs p' w')) m e p w))"
proof -
  have "mset (fst (weighted_order N cs p' w')) = mset cs"
    by (simp add: weighted_order_def weighted_loop_perm comp_def)
  then have "set cs = set (fst (weighted_order N cs p' w'))" by (metis set_mset_mset)
  from right_result_set [OF this] exchange_strict_right [OF assms] show ?thesis by blast
qed

lemma exchange_by_mode_right:
  assumes "answers N up"
  shows "right_result N p m up cs (fst (exchange_by_mode N cs m p w))"
proof -
  define q where "q = fold (\<lambda>r. stat_for (sp_raw r)) cs p"
  have "right_result N q m up cs = right_result N p m up cs"
    by (intro ext) (simp add: q_def right_result_profile [OF stats_same])
  with exchange_balanced_right [OF assms, where p = q and cs = cs and m = m and e = "[]"]
  have "right_result N p m up cs (fst (exchange_strict N (fst (weighted_order N cs q w')) m [] q w''))" for w' w'' by metis
  moreover have "right_result N p m up [] (Inl e)" for e by (simp add: right_result_def)
  ultimately show ?thesis
    using exchange_parallel_right [OF assms] exchange_strict_right [OF assms]
    by (simp add: exchange_by_mode_def Let_def split_def q_def)
qed

lemma healthy_nonempty: "rs \<noteq> [] \<Longrightarrow> fst (healthy now health rs p) \<noteq> []"
  by (simp add: healthy_def Let_def)

lemma healthy_subset: "set (fst (healthy now health rs p)) \<subseteq> set rs"
  by (auto simp: healthy_def Let_def)

lemma pool_exchange_split:
  "\<exists>p1 p2 w1. same_profile p p1 \<and> same_profile p p2 \<and> fst (pool_exchange N health m p w) =
     (case fst (exchange_by_mode N (fst (healthy (clock N w) health (pl_primary p) p)) m p1 w) of
        Inr r \<Rightarrow> Inr r
      | Inl e \<Rightarrow> if pl_fallback p = [] then Inl e
                 else fst (exchange_by_mode N (fst (healthy (clock N w1) health (pl_fallback p) p2)) m
                             (snd (healthy (clock N w1) health (pl_fallback p) p2)) w1))"
proof -
  define p1 where "p1 = snd (healthy (clock N w) health (pl_primary p) p)"
  define run where "run = exchange_by_mode N (fst (healthy (clock N w) health (pl_primary p) p)) m p1 w"
  have 1: "same_profile p p1" unfolding p1_def by (rule healthy_same)
  have 2: "same_profile p (fst (snd run))" unfolding run_def by (rule same_trans [OF 1 mode_same])
  have "fst (pool_exchange N health m p w) =
     (case fst run of
        Inr r \<Rightarrow> Inr r
      | Inl e \<Rightarrow> if pl_fallback p = [] then Inl e
                 else fst (exchange_by_mode N (fst (healthy (clock N (snd (snd run))) health (pl_fallback p) (fst (snd run)))) m
                             (snd (healthy (clock N (snd (snd run))) health (pl_fallback p) (fst (snd run)))) (snd (snd run))))"
    by (auto simp: pool_exchange_def p1_def run_def split_def split: sum.split)
  with 1 2 show ?thesis unfolding run_def by blast
qed

section \<open>Statistics\<close>

datatype outcome = Failed string int | Answered rat

primrec note_outcome :: "outcome \<Rightarrow> stat \<Rightarrow> stat" where
  "note_outcome (Failed e now) s = record_failure e now s"
| "note_outcome (Answered ms) s = record_success ms s"

fun trailing_failures :: "outcome list \<Rightarrow> nat" where
  "trailing_failures [] = 0"
| "trailing_failures (Answered _ # xs) = 0"
| "trailing_failures (Failed _ _ # xs) = Suc (trailing_failures xs)"

lemma outcomes_exact:
  "let s = fold note_outcome (rev xs) new_stat in
     st_consecutive_failures s = trailing_failures xs \<and>
     st_circuit s = (if circuit_failure_threshold \<le> trailing_failures xs
                     then (case xs of Failed _ now # _ \<Rightarrow> now + circuit_cooldown | _ \<Rightarrow> 0) else 0) \<and>
     st_failures s + st_successes s = length xs \<and>
     length (st_samples s) = latency_sample_limit \<and> st_index s < latency_sample_limit \<and>
     st_count s = min latency_sample_limit (st_successes s)"
proof (induction xs)
  case Nil
  then show ?case by (simp add: new_stat_def circuit_failure_threshold_def latency_sample_limit_def)
next
  case (Cons x xs)
  then show ?case
    by (cases x) (auto simp: Let_def record_failure_def record_success_def record_latency_def latency_sample_limit_def
        circuit_failure_threshold_def min_def)
qed

end
