(* ===== verification/Query_Pipeline.thy ===== *)
theory Query_Pipeline
  imports Rewrite_Store Client_Registry Access_Control Filter_Engine Magic_Dns Upstream_Query
    Dns_Settings Cache_Claims
begin

text \<open>
  dnsserver/pipeline.go, rewrites.go, runtime.go and the PTR stage of ptr.go: the admission of a
  client, the ordered stages of a query (policy, rewrites, MagicDNS, private PTR, safe search,
  filter, cache and upstreams), the chase of CNAME targets, the event of a query, and the
  replacement of the live settings. The pipeline composes the operations of every other component.
\<close>

section \<open>Static hosts and upstream addresses (rewrites.go)\<close>

text \<open>One entry of DOMAINS: invalid entries are skipped.\<close>

definition static_pair :: "string \<Rightarrow> (string \<times> u32) option" where
  "static_pair pair0 =
     (let pair = trim_space pair0
      in if pair = [] then None
         else case cut (CHR '':'') pair of
                None \<Rightarrow> None
              | Some (d0, addr) \<Rightarrow>
                  (let d = to_lower (trim_suffix (trim_prefix (trim_space d0) ''.'') ''.'')
                   in case Option.bind (parse_ip (trim_space addr)) to4 of
                        None \<Rightarrow> None
                      | Some a \<Rightarrow> if d = [] then None else Some (d, a)))"

definition parse_static_hosts :: "string \<Rightarrow> (string, u32) gomap" where
  "parse_static_hosts e = foldl (\<lambda>m (d, a). gm_set d a m) [] (List.map_filter static_pair (split_on (CHR '','') e))"

definition match_static :: "(string, u32) gomap \<Rightarrow> string \<Rightarrow> u32 option" where
  "match_static hosts name =
     (if hosts = [] \<or> name = [] then None
      else case List.map_filter (gm_get hosts) (parents name) of [] \<Rightarrow> None | a # _ \<Rightarrow> Some a)"

definition normalize_upstream :: "string \<Rightarrow> string option" where
  "normalize_upstream raw0 =
     (let raw = trim_space raw0
      in if raw = [] then None
         else case (case cut (CHR ''#'') raw of
                      None \<Rightarrow> Some raw
                    | Some (h, p) \<Rightarrow> if parse_ip h = None \<or> \<not> valid_port p then None else Some (join_host_port h p)) of
                None \<Rightarrow> None
              | Some raw1 \<Rightarrow>
                  (case split_host_port raw1 of
                     None \<Rightarrow> if parse_ip raw1 = None then None else Some (join_host_port raw1 ''53'')
                   | Some (h, p) \<Rightarrow> if parse_ip h = None \<or> \<not> valid_port p then None else Some (join_host_port h p)))"

section \<open>The server\<close>

definition static_ttl :: u32 where "static_ttl = 60"
definition max_chain_depth :: nat where "max_chain_depth = 8"

text \<open>The live part of Config, replaced by ApplySettings.\<close>

record live_config =
  lc_mode :: string
  lc_custom4 :: string
  lc_custom6 :: string
  lc_blocked_ttl :: u32
  lc_policy :: "policy option"
  lc_acl :: acl
  lc_qps :: int
  lc_internal_qps :: int
  lc_rate_ede :: bool
  lc_prefix4 :: int
  lc_prefix6 :: int
  lc_private_ptr :: bool
  lc_ptr_upstreams :: "string list"
  lc_client_hostnames :: bool
  lc_dnssec :: bool

record 'w server =
  sv_cfg :: live_config
  sv_flow :: flow
  sv_uplink :: "'w uplink"
  sv_filter :: "engine option"
  sv_limiter :: limiter
  sv_rewrite_hits :: nat
  sv_safe_hits :: nat
  sv_rate_dropped :: nat
  sv_acl_dropped :: nat
  sv_allow_dropped :: nat

text \<open>The collaborators a query reads: stores, registries, and the packages outside the repository.\<close>

record 'w env =
  en_lib :: dns_lib
  en_regex :: regex_lib
  en_network :: "'w network"
  en_urls :: url_lib
  en_etld1 :: "string \<Rightarrow> string option"
  en_await :: "nat \<Rightarrow> upstream_result"
  en_rewrites :: "rw_store option"
  en_static :: "(string, u32) gomap"
  en_magic :: "magic_store option"
  en_magic_ttl :: u32
  en_routes :: "route list option"
  en_clients :: "registry option"
  en_alias :: "(string \<Rightarrow> string) option"
  en_hostname :: "(string \<Rightarrow> string) option"
  en_node :: string
  en_upstreams :: "string list"
  en_health :: "(string \<times> rat) list"
  en_emit :: bool

definition forward_env_of :: "'w env \<Rightarrow> live_config \<Rightarrow> forward_env" where
  "forward_env_of E c = \<lparr>fe_dnssec = lc_dnssec c, fe_routes = en_routes E, fe_policy = lc_policy c,
     fe_upstreams = en_upstreams E, fe_health = en_health E\<rparr>"

type_synonym 'w answer = "resolution \<times> msg \<times> 'w server"

section \<open>The cache key\<close>

text \<open>clientUpstreamGroup: the discriminator and the specs of a client's own upstreams.\<close>

definition client_upstream_group :: "client option \<Rightarrow> string \<times> string list" where
  "client_upstream_group cl = (case cl of None \<Rightarrow> ([], [])
     | Some c \<Rightarrow> if cl_use_global c \<or> cl_upstreams c = [] then ([], [])
                 else (''up:'' @ join_with '','' (cl_upstreams c), cl_upstreams c))"

definition format_bool :: "bool \<Rightarrow> string" where
  "format_bool b = (if b then ''true'' else ''false'')"

definition client_policy_scope :: "client option \<Rightarrow> string" where
  "client_policy_scope cl = (case cl of None \<Rightarrow> ''global''
     | Some c \<Rightarrow> if cl_use_global c then ''global''
                 else join_with ''|'' [''custom'', format_bool (cl_filtering c), format_bool (cl_safe_search c),
                        join_with '','' (cl_engines c), join_with '','' (cl_upstreams c)])"

definition ecs_scope_entry :: "ecs \<Rightarrow> string" where
  "ecs_scope_entry e =
     (let head = show_nat (unat (ecs_family e)) @ ''/'' @ show_nat (unat (ecs_netmask e)) @ ''/'' @
                 show_nat (unat (ecs_scope e)) @ ''/'';
          n = unat (ecs_netmask e)
      in if ecs_family e = 1 then
           (case Option.bind (ecs_address e) to4 of
              None \<Rightarrow> head @ ''invalid''
            | Some a \<Rightarrow> if 32 < n then head @ ''invalid'' else head @ v4_string (mask_bits 32 n a))
         else
           (case ecs_address e of
              None \<Rightarrow> head @ ''invalid''
            | Some w \<Rightarrow> if 128 < n then head @ ''invalid'' else head @ ip_string (mask_bits 128 n w)))"

definition ecs_scope_string :: "opt \<Rightarrow> string" where
  "ecs_scope_string p =
     join_with '';'' (List.map_filter (\<lambda>x. case x of OptECS e \<Rightarrow> Some (ecs_scope_entry e) | _ \<Rightarrow> None) (o_options p))"

definition make_cache_key :: "'w env \<Rightarrow> msg \<Rightarrow> question \<Rightarrow> string \<Rightarrow> string \<Rightarrow> client option \<Rightarrow> cache_key" where
  "make_cache_key E r q domain grp cl =
     \<lparr>ck_name = domain, ck_qtype = q_type q, ck_qclass = q_class q, ck_group = grp,
      ck_do = (case m_opt r of None \<Rightarrow> False | Some p \<Rightarrow> o_do p), ck_cd = m_cd r,
      ck_ecs = (case m_opt r of None \<Rightarrow> [] | Some p \<Rightarrow> ecs_scope_string p),
      ck_policy = client_policy_scope cl,
      ck_route = (case en_routes E of None \<Rightarrow> []
                  | Some rs \<Rightarrow> if grp = [] then get_upstream_for_domain domain rs else [])\<rparr>"

section \<open>Blocked answers\<close>

definition block_ips :: "live_config \<Rightarrow> string \<times> string" where
  "block_ips c =
     (if lc_mode c = ''custom_ip''
      then ((if lc_custom4 c \<noteq> [] then lc_custom4 c else ''0.0.0.0''), (if lc_custom6 c \<noteq> [] then lc_custom6 c else ''::''))
      else (''0.0.0.0'', ''::''))"

definition blocked_response :: "'w env \<Rightarrow> live_config \<Rightarrow> msg \<Rightarrow> question \<Rightarrow> msg" where
  "blocked_response E c r q =
     (let resp = (set_reply (en_lib E) r)\<lparr>m_ra := True\<rparr>;
          rec = (\<lambda>d. \<lparr>rr_name = q_name q, rr_type = q_type q, rr_class = class_INET,
                      rr_ttl = (if lc_blocked_ttl c = 0 then static_ttl else lc_blocked_ttl c), rr_data = d\<rparr>)
      in if lc_mode c = ''refused'' then resp\<lparr>m_rcode := rcode_refused\<rparr>
         else if lc_mode c = ''null_ip'' \<or> lc_mode c = ''custom_ip'' then
           (if q_type q = type_A then
              (case parse_ip (fst (block_ips c)) of None \<Rightarrow> resp | Some w \<Rightarrow> resp\<lparr>m_answer := [rec (RD_A (to4 w))]\<rparr>)
            else if q_type q = type_AAAA then
              (case parse_ip (snd (block_ips c)) of None \<Rightarrow> resp | Some w \<Rightarrow> resp\<lparr>m_answer := [rec (RD_AAAA (Some w))]\<rparr>)
            else resp)
         else resp\<lparr>m_rcode := rcode_name_error\<rparr>)"

section \<open>The stages\<close>

text \<open>
  chaseCNAME. \<open>run\<close> resolves the target one level deeper; it is absent at the depth limit. The
  names chased so far are in \<open>path\<close>.
\<close>

type_synonym 'w deeper = "(msg \<Rightarrow> msg \<Rightarrow> string list \<Rightarrow> 'w server \<Rightarrow> 'w answer) option"

definition loop_rule :: "string \<Rightarrow> string \<Rightarrow> string \<Rightarrow> string" where
  "loop_rule rule source target = rule @ '' (CNAME loop at '' @ source @ '' -> '' @ target @ '')''"

definition cname_rr :: "question \<Rightarrow> string \<Rightarrow> rr" where
  "cname_rr q target = \<lparr>rr_name = q_name q, rr_type = type_CNAME, rr_class = class_INET, rr_ttl = static_ttl,
     rr_data = RD_CNAME target\<rparr>"

definition sub_query :: "dns_lib \<Rightarrow> msg \<Rightarrow> question \<Rightarrow> string \<Rightarrow> msg" where
  "sub_query L request q target = request\<lparr>m_response := False,
     m_question := [\<lparr>q_name = fqdn L target, q_type = q_type q, q_class = q_class q\<rparr>], m_answer := [], m_ns := []\<rparr>"

definition chase_cname ::
  "dns_lib \<Rightarrow> 'w deeper \<Rightarrow> string list \<Rightarrow> msg \<Rightarrow> question \<Rightarrow> msg \<Rightarrow> string \<Rightarrow> string \<Rightarrow> string \<Rightarrow> string \<Rightarrow> 'w server \<Rightarrow> 'w answer" where
  "chase_cname L deeper path request q resp target rule label reason s =
     (let source = normalize_name (q_name q); t = normalize_name target;
          looped = (no_resolution\<lparr>re_upstream := label, re_rule := loop_rule rule source t, re_reason := ''CNAME_LOOP'',
                      re_ede := Some (ede_other, ''CNAME loop detected'')\<rparr>,
                    resp\<lparr>m_rcode := rcode_server_failure\<rparr>, s)
      in if t \<in> set path \<or> t = source then looped
         else case deeper of
                None \<Rightarrow> looped
              | Some run \<Rightarrow>
                  (let sub = sub_query L request q target;
                       sub_resp = (set_reply L sub)\<lparr>m_ra := True\<rparr>
                   in case run sub sub_resp (source # path) s of
                        (res, m, s1) \<Rightarrow>
                          ((if re_reason res = ''CNAME_LOOP'' then res
                            else no_resolution\<lparr>re_upstream := label, re_blocked := re_blocked res, re_rule := rule, re_reason := reason\<rparr>),
                           resp\<lparr>m_rcode := m_rcode m, m_answer := cname_rr q (fqdn L target) # m_answer m, m_ns := m_ns m\<rparr>, s1)))"

definition chased_type :: "u16 \<Rightarrow> bool" where
  "chased_type t \<longleftrightarrow> t = type_A \<or> t = type_AAAA \<or> t = type_CNAME"

text \<open>stageRewrites on the entries that match; the store may be absent, then the static hosts decide.\<close>

definition rewrite_answers :: "dns_lib \<Rightarrow> question \<Rightarrow> rewrite list \<Rightarrow> (rr \<times> string) list" where
  "rewrite_answers L q entries = List.map_filter
     (\<lambda>e. if rw_type e = ''CNAME'' \<and> q_type q \<noteq> type_CNAME then None
          else map_option (\<lambda>a. (a, rw_string e)) (build_rr L e (q_name q) (q_type q))) entries"

definition rewrite_result :: "rewrite \<Rightarrow> resolution" where
  "rewrite_result e = no_resolution\<lparr>re_upstream := ''Rewrite'', re_rule := rw_string e, re_reason := ''Rewrite''\<rparr>"

definition stage_rewrites ::
  "'w env \<Rightarrow> string \<Rightarrow> 'w deeper \<Rightarrow> string list \<Rightarrow> msg \<Rightarrow> question \<Rightarrow> msg \<Rightarrow> 'w server \<Rightarrow> 'w answer option" where
  "stage_rewrites E client_ip deeper path request q resp s =
     (let domain = normalize_name (q_name q)
      in case en_rewrites E of
           None \<Rightarrow>
             (if q_type q \<noteq> type_A then None
              else map_option (\<lambda>a. (no_resolution\<lparr>re_upstream := ''Local Override''\<rparr>,
                       resp\<lparr>m_answer := [\<lparr>rr_name = q_name q, rr_type = type_A, rr_class = class_INET,
                                         rr_ttl = static_ttl, rr_data = RD_A (Some a)\<rparr>]\<rparr>, s))
                     (match_static (en_static E) domain))
         | Some st \<Rightarrow>
             (let entries = lookup_for_client domain client_ip st; s1 = s\<lparr>sv_rewrite_hits := Suc (sv_rewrite_hits s)\<rparr>
              in if entries = [] then None
                 else case List.find (\<lambda>e. rw_type e \<in> {''NXDOMAIN'', ''REFUSED'', ''NOERROR''}) entries of
                        Some e \<Rightarrow>
                          Some (rewrite_result e,
                                (if rw_type e = ''NXDOMAIN'' then resp\<lparr>m_rcode := rcode_name_error\<rparr>
                                 else if rw_type e = ''REFUSED'' then resp\<lparr>m_rcode := rcode_refused\<rparr> else resp), s1)
                      | None \<Rightarrow>
                          (let answers = rewrite_answers (en_lib E) q entries
                           in if answers \<noteq> [] then
                                Some (no_resolution\<lparr>re_upstream := ''Rewrite'', re_rule := snd (last answers), re_reason := ''Rewrite''\<rparr>,
                                      resp\<lparr>m_answer := List.map fst answers\<rparr>, s1)
                              else case (if chased_type (q_type q) then List.find (\<lambda>e. rw_type e = ''CNAME'') entries else None) of
                                     Some e \<Rightarrow> Some (chase_cname (en_lib E) deeper path request q resp (rw_value e) (rw_string e)
                                                      ''Rewrite'' ''Rewrite'' s1)
                                   | None \<Rightarrow> Some (rewrite_result (hd entries), resp, s1))))"

definition magic_answer :: "u32 \<Rightarrow> question \<Rightarrow> mrecord \<Rightarrow> rr option" where
  "magic_answer ttl q r =
     (case parse_ip (mr_value r) of
        None \<Rightarrow> None
      | Some w \<Rightarrow>
          (let rec = (\<lambda>t d. \<lparr>rr_name = q_name q, rr_type = t, rr_class = class_INET, rr_ttl = ttl, rr_data = d\<rparr>)
           in if q_type q = type_A then map_option (\<lambda>a. rec type_A (RD_A (Some a))) (to4 w)
              else if to4 w \<noteq> None then None else Some (rec type_AAAA (RD_AAAA (Some w)))))"

definition stage_magic_dns :: "'w env \<Rightarrow> question \<Rightarrow> msg \<Rightarrow> 'w server \<Rightarrow> 'w answer option" where
  "stage_magic_dns E q resp s =
     (case en_magic E of
        None \<Rightarrow> None
      | Some st \<Rightarrow>
          (if q_type q \<noteq> type_A \<and> q_type q \<noteq> type_AAAA then None
           else let t = (if q_type q = type_A then ''A'' else ''AAAA'');
                    answers = List.map_filter (magic_answer (if en_magic_ttl E = 0 then static_ttl else en_magic_ttl E) q)
                                (lookup_magic (q_name q) t st)
                in if answers = [] then None
                   else Some (no_resolution\<lparr>re_upstream := ''MagicDNS'', re_rule := normalize_name (q_name q) @ '' '' @ t\<rparr>,
                              resp\<lparr>m_answer := answers\<rparr>, s)))"

text \<open>ptrName: registry, then aliases, then the reverse-DNS cache.\<close>

definition first_nonempty :: "string list \<Rightarrow> string" where
  "first_nonempty xs = (case filter (\<lambda>x. x \<noteq> []) xs of [] \<Rightarrow> [] | x # _ \<Rightarrow> x)"

definition ptr_name :: "'w env \<Rightarrow> live_config \<Rightarrow> string \<Rightarrow> string" where
  "ptr_name E c ip = first_nonempty
     [case Option.bind (en_clients E) (find_client ip) of None \<Rightarrow> [] | Some cl \<Rightarrow> cl_name cl,
      case en_alias E of None \<Rightarrow> [] | Some f \<Rightarrow> f ip,
      if lc_client_hostnames c then (case en_hostname E of None \<Rightarrow> [] | Some h \<Rightarrow> h ip) else []]"

definition stage_private_ptr :: "'w env \<Rightarrow> question \<Rightarrow> msg \<Rightarrow> 'w server \<Rightarrow> 'w answer option" where
  "stage_private_ptr E q resp s =
     (if \<not> lc_private_ptr (sv_cfg s) \<or> q_type q \<noteq> type_PTR then None
      else case arpa_to_ip (q_name q) of
             None \<Rightarrow> None
           | Some w \<Rightarrow>
               (if \<not> is_private_ip w then None
                else let name = sanitize_ptr_name (ptr_name E (sv_cfg s) (ip_string w))
                     in if name = [] then None
                        else Some (no_resolution\<lparr>re_upstream := ''Private PTR'', re_rule := name, re_reason := ''PrivatePTR''\<rparr>,
                               resp\<lparr>m_answer := [\<lparr>rr_name = q_name q, rr_type = type_PTR, rr_class = class_INET, rr_ttl = static_ttl,
                                                 rr_data = RD_PTR (fqdn (en_lib E) (name @ ''.lan''))\<rparr>], m_authoritative := True\<rparr>, s)))"

definition safe_target :: "'w env \<Rightarrow> live_config \<Rightarrow> client option \<Rightarrow> string \<Rightarrow> string" where
  "safe_target E c cl domain =
     (case cl of
        Some k \<Rightarrow>
          (if cl_use_global k then safe_search_target (en_etld1 E) (lc_policy c) domain
           else if cl_safe_search k then
             (let own = parse_engines (cl_engines k)
              in safe_search_target_for (en_etld1 E) (if own = [] then policy_engines (lc_policy c) else own) domain)
           else [])
      | None \<Rightarrow> safe_search_target (en_etld1 E) (lc_policy c) domain)"

definition stage_safe_search ::
  "'w env \<Rightarrow> client option \<Rightarrow> 'w deeper \<Rightarrow> string list \<Rightarrow> msg \<Rightarrow> question \<Rightarrow> msg \<Rightarrow> 'w server \<Rightarrow> 'w answer option" where
  "stage_safe_search E cl deeper path request q resp s =
     (let target = safe_target E (sv_cfg s) cl (normalize_name (q_name q));
          s1 = s\<lparr>sv_safe_hits := Suc (sv_safe_hits s)\<rparr>
      in if target = [] then None
         else if chased_type (q_type q) then
           Some (chase_cname (en_lib E) deeper path request q resp target ''SafeSearch'' ''SafeSearch'' ''SafeSearch'' s1)
         else Some (no_resolution\<lparr>re_upstream := ''SafeSearch'', re_rule := ''SafeSearch'', re_reason := ''SafeSearch''\<rparr>,
                    resp\<lparr>m_answer := [cname_rr q (fqdn (en_lib E) target)]\<rparr>, s1))"

definition filtering_enabled_for :: "client option \<Rightarrow> bool" where
  "filtering_enabled_for cl = (case cl of None \<Rightarrow> True | Some c \<Rightarrow> cl_use_global c \<or> cl_filtering c)"

text \<open>The filter stage: counts a match, and answers a blocked one.\<close>

definition stage_filter ::
  "'w env \<Rightarrow> int \<Rightarrow> client option \<Rightarrow> msg \<Rightarrow> question \<Rightarrow> msg \<Rightarrow> 'w server \<Rightarrow> 'w answer option \<times> 'w server" where
  "stage_filter E now cl r q resp s =
     (case sv_filter s of
        None \<Rightarrow> (None, s)
      | Some e \<Rightarrow>
          (if \<not> filtering_enabled_for cl \<or> paused now e then (None, s)
           else case match_domain (en_regex E) (normalize_name (q_name q)) e of
                  (f, e1) \<Rightarrow>
                    (let s1 = s\<lparr>sv_filter := Some e1\<rparr>; b = blocked_response E (sv_cfg s) r q
                     in if rs_blocked f \<and> \<not> rs_allowed f then
                          (Some (no_resolution\<lparr>re_upstream := ''Filtered'', re_blocked := True, re_rule := rs_rule f, re_reason := rs_reason f\<rparr>,
                                 add_extended_error r ede_filtered ''blocked by filtering policy''
                                   (set_response_extra r [] (resp\<lparr>m_rcode := m_rcode b, m_answer := m_answer b\<rparr>)), s1), s1)
                        else (None, s1))))"

definition private_ptr_specs :: "live_config \<Rightarrow> question \<Rightarrow> string \<times> string list \<Rightarrow> string \<times> string list" where
  "private_ptr_specs c q gs =
     (if q_type q \<noteq> type_PTR then gs
      else case arpa_to_ip (q_name q) of
             None \<Rightarrow> gs
           | Some w \<Rightarrow> if is_private_ip w \<and> lc_ptr_upstreams c \<noteq> []
                       then (''private-ptr:'' @ join_with '','' (lc_ptr_upstreams c), lc_ptr_upstreams c) else gs)"

definition stage_upstream ::
  "'w env \<Rightarrow> int \<Rightarrow> client option \<Rightarrow> msg \<Rightarrow> question \<Rightarrow> msg \<Rightarrow> 'w server \<Rightarrow> 'w answer" where
  "stage_upstream E now cl r q resp s =
     (case private_ptr_specs (sv_cfg s) q (client_upstream_group cl) of
        (grp, specs) \<Rightarrow>
          (let key = make_cache_key E r q (normalize_name (q_name q)) grp cl;
               fetch = fetch_upstream_result (en_lib E) (en_network E) (en_urls E) (forward_env_of E (sv_cfg s)) r specs
           in case resolve_via_cache_or_upstream fetch (en_await E) now r key specs resp (sv_flow s) (sv_uplink s) of
                (res, m, f1, u1) \<Rightarrow> (res, m, s\<lparr>sv_flow := f1, sv_uplink := u1\<rparr>)))"

definition format_error :: "msg \<Rightarrow> string \<Rightarrow> msg \<Rightarrow> msg" where
  "format_error r txt_msg resp =
     add_extended_error r ede_invalid_data txt_msg (set_response_extra r [] (resp\<lparr>m_rcode := rcode_format_error\<rparr>))"

text \<open>The local stages in order; the first that answers wins.\<close>

definition stage_local ::
  "'w env \<Rightarrow> client option \<Rightarrow> string \<Rightarrow> 'w deeper \<Rightarrow> string list \<Rightarrow> msg \<Rightarrow> question \<Rightarrow> msg \<Rightarrow> 'w server \<Rightarrow> 'w answer option" where
  "stage_local E cl client_ip deeper path r q resp s =
     (if refuse_any_enabled (lc_policy (sv_cfg s)) \<and> q_type q = type_ANY then
        Some (no_resolution\<lparr>re_upstream := ''Policy'', re_rule := ''REFUSE_ANY'', re_reason := ''RefusedANY''\<rparr>,
              add_extended_error r ede_prohibited ''ANY queries are disabled''
                (set_response_extra r [] (resp\<lparr>m_rcode := rcode_refused\<rparr>)), s)
      else if aaaa_disabled_enabled (lc_policy (sv_cfg s)) \<and> q_type q = type_AAAA then
        Some (no_resolution\<lparr>re_upstream := ''Policy'', re_rule := ''AAAA_DISABLED'', re_reason := ''AAAADisabled''\<rparr>, resp, s)
      else case stage_rewrites E client_ip deeper path r q resp s of
             Some a \<Rightarrow> Some a
           | None \<Rightarrow> (case stage_magic_dns E q resp s of
               Some a \<Rightarrow> Some a
             | None \<Rightarrow> (case stage_private_ptr E q resp s of
                 Some a \<Rightarrow> Some a
               | None \<Rightarrow> stage_safe_search E cl deeper path r q resp s)))"

definition resolve_body ::
  "'w env \<Rightarrow> int \<Rightarrow> client option \<Rightarrow> string \<Rightarrow> 'w deeper \<Rightarrow> msg \<Rightarrow> msg \<Rightarrow> string list \<Rightarrow> 'w server \<Rightarrow> 'w answer" where
  "resolve_body E now cl client_ip deeper r resp path s =
     (case m_question r of
        [q] \<Rightarrow>
          (if m_response r \<or> m_opcode r \<noteq> opcode_query then
             (no_resolution, format_error r ''expected one standard DNS query question'' resp, s)
           else if \<not> is_domain_name (en_lib E) (q_name q) then
             (no_resolution, format_error r ''invalid question name'' resp, s)
           else case stage_local E cl client_ip deeper path r q resp s of
                  Some a \<Rightarrow> a
                | None \<Rightarrow> (case stage_filter E now cl r q resp s of
                    (Some a, _) \<Rightarrow> a
                  | (None, s1) \<Rightarrow> stage_upstream E now cl r q resp s1))
      | _ \<Rightarrow> (no_resolution, format_error r ''expected one standard DNS query question'' resp, s))"

text \<open>resolve, by the number of chases that are still allowed: depth 8 may not go deeper.\<close>

primrec resolve ::
  "'w env \<Rightarrow> int \<Rightarrow> client option \<Rightarrow> string \<Rightarrow> nat \<Rightarrow> msg \<Rightarrow> msg \<Rightarrow> string list \<Rightarrow> 'w server \<Rightarrow> 'w answer" where
  "resolve E now cl client_ip 0 = resolve_body E now cl client_ip None"
| "resolve E now cl client_ip (Suc n) = resolve_body E now cl client_ip (Some (resolve E now cl client_ip n))"

section \<open>Queries\<close>

record query_event =
  qe_time :: int
  qe_type :: string
  qe_domain :: string
  qe_client :: string
  qe_latency_us :: int
  qe_upstream :: string
  qe_node :: string
  qe_alias :: string
  qe_dnssec :: string
  qe_hostname :: string
  qe_blocked :: bool
  qe_rcode :: string
  qe_rule :: string
  qe_reason :: string
  qe_cache :: string
  qe_ttl :: u32
  qe_soa :: string

text \<open>buildEvent; the elapsed time in microseconds is an argument.\<close>

definition build_event ::
  "'w env \<Rightarrow> live_config \<Rightarrow> int \<Rightarrow> int \<Rightarrow> msg \<Rightarrow> msg \<Rightarrow> string \<Rightarrow> client option \<Rightarrow> resolution \<Rightarrow> query_event" where
  "build_event E c now elapsed r resp client_ip cl res =
     \<lparr>qe_time = unix now,
      qe_type = (case m_question r of [] \<Rightarrow> [] | q # _ \<Rightarrow> type_to_string (en_lib E) (q_type q)),
      qe_domain = (case m_question r of [] \<Rightarrow> [] | q # _ \<Rightarrow> normalize_name (q_name q)),
      qe_client = client_ip,
      qe_latency_us = (if re_cache_hit res then 0 else elapsed),
      qe_upstream = re_upstream res, qe_node = en_node E,
      qe_alias = (case cl of Some k \<Rightarrow> cl_name k | None \<Rightarrow> (case en_alias E of None \<Rightarrow> [] | Some f \<Rightarrow> f client_ip)),
      qe_dnssec = (if lc_dnssec c then (if m_ad resp then ''secure'' else ''indeterminate'') else []),
      qe_hostname = (if lc_client_hostnames c then (case en_hostname E of None \<Rightarrow> [] | Some h \<Rightarrow> h client_ip) else []),
      qe_blocked = re_blocked res, qe_rcode = rcode_to_string (en_lib E) (m_rcode resp),
      qe_rule = re_rule res, qe_reason = re_reason res, qe_cache = re_cache_state res, qe_ttl = re_ttl res, qe_soa = re_soa res\<rparr>"

text \<open>What a query leaves behind: a response or none, and an event with its stats flag or none.\<close>

record reply =
  rp_msg :: "msg option"
  rp_event :: "(query_event \<times> bool) option"

definition dropped :: reply where "dropped = \<lparr>rp_msg = None, rp_event = None\<rparr>"

definition hint_type :: "msg \<Rightarrow> bool" where
  "hint_type r = (case m_question r of [] \<Rightarrow> False | q # _ \<Rightarrow> q_type q = type_HTTPS \<or> q_type q = type_SVCB)"

definition client_of :: "'w env \<Rightarrow> string \<Rightarrow> client option" where
  "client_of E client_ip = Option.bind (en_clients E) (find_client client_ip)"

text \<open>Resolve after the admission of the client.\<close>

definition answer_query :: "'w env \<Rightarrow> int \<Rightarrow> int \<Rightarrow> msg \<Rightarrow> string \<Rightarrow> 'w server \<Rightarrow> reply \<times> 'w server" where
  "answer_query E now elapsed r client_ip s =
     (let cl = client_of E client_ip
      in case resolve E now cl client_ip max_chain_depth r ((set_reply (en_lib E) r)\<lparr>m_ra := True\<rparr>) [] s of
           (res, m0, s1) \<Rightarrow>
             (let m1 = (case re_ede res of None \<Rightarrow> m0 | Some (code, txt_msg) \<Rightarrow> add_extended_error r code txt_msg m0);
                  m2 = (if aaaa_disabled_enabled (lc_policy (sv_cfg s)) \<and> hint_type r
                        then m1\<lparr>m_answer := strip_ipv6_hints (m_answer m1)\<rparr> else m1);
                  quiet = (\<not> en_emit E \<or> (case cl of None \<Rightarrow> False | Some k \<Rightarrow> cl_exclude_log k))
              in (\<lparr>rp_msg = Some m2,
                   rp_event = (if quiet then None
                     else Some (build_event E (sv_cfg s) now elapsed r m2 client_ip cl res,
                                case cl of None \<Rightarrow> False | Some k \<Rightarrow> cl_exclude_stats k))\<rparr>, s1)))"

definition query_rate :: "live_config \<Rightarrow> string \<Rightarrow> int" where
  "query_rate c client_ip = (if is_internal_client_ip client_ip then lc_internal_qps c else lc_qps c)"

definition rate_limited :: "int \<Rightarrow> string \<Rightarrow> 'w server \<Rightarrow> bool \<times> 'w server" where
  "rate_limited now client_ip s =
     (let c = sv_cfg s
      in if cidr_list_contains (ac_rate_allowlist (lc_acl c)) client_ip then (False, s)
         else case allow_at_rate now client_ip (query_rate c client_ip) (lc_prefix4 c) (lc_prefix6 c) (sv_limiter s) of
                (ok, l) \<Rightarrow> (\<not> ok, s\<lparr>sv_limiter := l\<rparr>))"

definition resolve_query :: "'w env \<Rightarrow> int \<Rightarrow> int \<Rightarrow> msg \<Rightarrow> string \<Rightarrow> 'w server \<Rightarrow> reply \<times> 'w server" where
  "resolve_query E now elapsed r client_ip s =
     (if acl_drop (lc_acl (sv_cfg s)) client_ip then (dropped, s\<lparr>sv_acl_dropped := Suc (sv_acl_dropped s)\<rparr>)
      else if acl_allowlist_drop (lc_acl (sv_cfg s)) client_ip then (dropped, s\<lparr>sv_allow_dropped := Suc (sv_allow_dropped s)\<rparr>)
      else case rate_limited now client_ip s of
             (True, s1) \<Rightarrow>
               (let s2 = s1\<lparr>sv_rate_dropped := Suc (sv_rate_dropped s1)\<rparr>
                in if lc_rate_ede (sv_cfg s) \<and> m_opt r \<noteq> None then
                     (\<lparr>rp_msg = Some (add_extended_error r ede_prohibited ''rate limit exceeded''
                         (set_response_extra r [] ((set_reply (en_lib E) r)\<lparr>m_ra := True, m_rcode := rcode_refused\<rparr>))),
                       rp_event = None\<rparr>, s2)
                   else (dropped, s2))
           | (False, s1) \<Rightarrow> answer_query E now elapsed r client_ip s1)"

text \<open>ServeDNS: the listeners serve only internal clients unless an allow list is configured, and truncate UDP.\<close>

definition serve_dns :: "'w env \<Rightarrow> int \<Rightarrow> int \<Rightarrow> bool \<Rightarrow> msg \<Rightarrow> string \<Rightarrow> 'w server \<Rightarrow> reply \<times> 'w server" where
  "serve_dns E now elapsed udp r client_ip s =
     (if default_acl_drop (lc_acl (sv_cfg s)) client_ip then (dropped, s\<lparr>sv_allow_dropped := Suc (sv_allow_dropped s)\<rparr>)
      else case resolve_query E now elapsed r client_ip s of
             (rp, s1) \<Rightarrow> (rp\<lparr>rp_msg := (if udp then map_option (truncate_msg (en_lib E) (unat (client_udp_size (Some r)))) (rp_msg rp)
                                       else rp_msg rp)\<rparr>, s1))"

section \<open>Settings\<close>

definition apply_settings :: "settings \<Rightarrow> 'w server \<Rightarrow> 'w server" where
  "apply_settings s0 sv =
     (let s = normalize_settings s0; lst = (\<lambda>l. parse_cidr_list (join_with '' '' l))
      in sv\<lparr>sv_cfg := \<lparr>lc_mode = ds_blocking_mode s, lc_custom4 = ds_custom4 s, lc_custom6 = ds_custom6 s,
              lc_blocked_ttl = ds_blocked_ttl s,
              lc_policy = Some (new_policy \<lparr>pc_safe_search = ds_safe_search s, pc_bogus = ds_bogus s,
                                 pc_aaaa_disabled = ds_aaaa_disabled s, pc_refuse_any = ds_refuse_any s\<rparr>),
              lc_acl = \<lparr>ac_allowed = lst (ds_allowed s), ac_allowed_configured = (ds_allowed s \<noteq> []),
                        ac_disallowed = lst (ds_disallowed s), ac_rate_allowlist = lst (ds_rate_allowlist s)\<rparr>,
              lc_qps = ds_qps s, lc_internal_qps = ds_internal_qps s, lc_rate_ede = ds_rate_ede s,
              lc_prefix4 = ds_prefix4 s, lc_prefix6 = ds_prefix6 s, lc_private_ptr = ds_private_ptr s,
              lc_ptr_upstreams = ds_ptr_upstreams s, lc_client_hostnames = ds_client_hostnames s, lc_dnssec = ds_dnssec s\<rparr>,
            sv_flow := reconfigure_flow (ds_cache_size s) (ds_cache_min s) (ds_cache_max s) (ds_optimistic s)
              ((sv_flow sv)\<lparr>f_optimistic := ds_optimistic s, f_prefetch := ds_prefetch s,
                 f_prefetch_window := ds_prefetch_window s * millisecond, f_prefetch_hits := ds_prefetch_hits s,
                 f_servfail_ttl := ds_servfail_ms s * millisecond\<rparr>)\<rparr>)"

text \<open>New: the cache, an empty limiter, and prefix lengths that default to one address.\<close>

definition new_server ::
  "cache_config \<Rightarrow> live_config \<Rightarrow> string \<times> string \<times> string \<Rightarrow> 'w uplink \<Rightarrow> engine option \<Rightarrow> 'w server" where
  "new_server g c acls u filter_engine =
     (case acls of (allowed, disallowed, unlimited) \<Rightarrow>
        \<lparr>sv_cfg = c\<lparr>lc_prefix4 := (if lc_prefix4 c \<le> 0 then 32 else lc_prefix4 c),
                    lc_prefix6 := (if lc_prefix6 c \<le> 0 then 128 else lc_prefix6 c),
                    lc_acl := \<lparr>ac_allowed = parse_cidr_list allowed, ac_allowed_configured = (trim_space allowed \<noteq> []),
                               ac_disallowed = parse_cidr_list disallowed, ac_rate_allowlist = parse_cidr_list unlimited\<rparr>\<rparr>,
         sv_flow = new_flow g, sv_uplink = u, sv_filter = filter_engine, sv_limiter = new_limiter (lc_qps c),
         sv_rewrite_hits = 0, sv_safe_hits = 0, sv_rate_dropped = 0, sv_acl_dropped = 0, sv_allow_dropped = 0\<rparr>)"

definition server_upstreams :: "string list \<Rightarrow> string list" where
  "server_upstreams raws = List.map_filter normalize_upstream raws"

end
