(* ===== verification/Filter_Claims.thy ===== *)
theory Filter_Claims
  imports Filter_Engine
begin

text \<open>
  What the filter guarantees: the decision taken by the indexes is the one the rules call for,
  rollback restores, the persisted history reads back, and where the diagnostics of edited rules
  differ from the parser.
\<close>

lemma settled_decision:
  assumes "e = fold (filter_step env) ops new_engine" and "e_depth e = 0" and "e_pending e = []"
  shows "fst (match_domain X d e) =
     (case first_match X d (ordered_rules (e_sources e) (e_allow e)) of
        Some m \<Rightarrow> allow_result e m
      | None \<Rightarrow> (case first_match X d (ordered_rules (e_sources e) (e_block e)) of
                   Some m \<Rightarrow> block_result e m | None \<Rightarrow> no_result)) \<and>
    (rs_blocked (fst (match_domain X d e)) \<longleftrightarrow>
      (\<forall>x \<in> set (ordered_rules (e_sources e) (e_allow e)). \<not> rule_matches X (snd x) d) \<and>
      (\<exists>x \<in> set (ordered_rules (e_sources e) (e_block e)). rule_matches X (snd x) d))"
    (is "?decides \<and> (_ \<longleftrightarrow> ?na \<and> ?b)")
proof -
  have inv: "engine_inv e"
    unfolding assms(1) by (rule filter_sys.run_keeps) (rule new_engine_inv)
  note m = settled_match [OF inv settled_indexes [OF inv assms(2,3)], of X d]
  have decision: ?decides
    by (simp add: match_domain_def m split: option.splits)
  have na: "?na \<longleftrightarrow> first_match X d (ordered_rules (e_sources e) (e_allow e)) = None"
    and b: "?b \<longleftrightarrow> first_match X d (ordered_rules (e_sources e) (e_block e)) \<noteq> None"
    unfolding first_match_None by blast+
  show ?thesis
    using decision unfolding na b
    by (auto simp: allow_result_def block_result_def no_result_def split: option.splits)
qed

text \<open>C31: After any interleaving of loads, failed loads, batches with their delayed index builds,
  rollbacks, subscription replacements and matches from an empty engine, once no batch is open and
  no build is pending, Match decides by the current rules alone: an exception wins over every
  block rule, otherwise a name is blocked exactly when some block rule matches it, and the rule
  reported is the first matching one in source and line order, whatever the domain index and the
  regex list look like.\<close>

theorem settled_engine_decides:
  assumes "e = fold (filter_step env) ops new_engine" and "e_depth e = 0" and "e_pending e = []"
  shows "fst (match_domain X d e) =
     (case first_match X d (ordered_rules (e_sources e) (e_allow e)) of
        Some m \<Rightarrow> allow_result e m
      | None \<Rightarrow> (case first_match X d (ordered_rules (e_sources e) (e_block e)) of
                   Some m \<Rightarrow> block_result e m | None \<Rightarrow> no_result)) \<and>
    (rs_blocked (fst (match_domain X d e)) \<longleftrightarrow>
      (\<forall>x \<in> set (ordered_rules (e_sources e) (e_allow e)). \<not> rule_matches X (snd x) d) \<and>
      (\<exists>x \<in> set (ordered_rules (e_sources e) (e_block e)). rule_matches X (snd x) d))"
  by (rule settled_decision [OF assms])

definition demo_regex :: regex_lib where
  "demo_regex = \<lparr>rx_insts = (\<lambda>p. Some (length p)), rx_compiles = (\<lambda>_. True), rx_match = (\<lambda>p d. p = d)\<rparr>"

definition demo_checksum :: "rule list \<Rightarrow> rule list \<Rightarrow> string" where
  "demo_checksum b a = concat (List.map ru_raw b) @ ''|'' @ concat (List.map ru_raw a)"

definition demo_env :: filter_env where
  "demo_env = (demo_regex, demo_checksum, (\<lambda>_. None), (\<lambda>_. True))"

definition demo_status :: load_status where
  "demo_status = \<lparr>ls_ignored = 0, ls_truncated = False, ls_bytes = 0, ls_final_url = [],
     ls_final_host = [], ls_redirects = 0\<rparr>"

definition demo_source :: source where
  "demo_source = new_url_source (\<lambda>_. True) \<lparr>sb_id = ''s'', sb_name = ''S'', sb_url = ''http://x/'', sb_refresh_generation = [],
     sb_allow_only = False, sb_enabled = True, sb_allow_private = False, sb_timeout = 0,
     sb_redirect_limit = 0, sb_refresh_at = []\<rparr>"

definition demo_rule :: "string \<Rightarrow> rule" where
  "demo_rule d = \<lparr>ru_raw = d, ru_kind = KindDomain, ru_domain = d, ru_re = [], ru_insts = 0\<rparr>"

lemmas line_eval = parse_line_def trim_space_def trim_left_def trim_right_def is_space_def is_comment_def
  is_cosmetic_def has_prefix_def has_suffix_def Let_def regex_form_def strip_options_def parse_body_def
  go_fields_def fields_func_def strip_anchors_def trim_prefix_def trim_suffix_def normalize_domain_def
  to_lower_def lower_char_def domain_rule_def valid_domain_def domain_char_def is_digit_def

lemma demo_line: "parse_line demo_regex ''ads.x'' = Some (demo_rule ''ads.x'', False)"
    "parse_line demo_regex ''new.x'' = Some (demo_rule ''new.x'', False)"
  by (simp_all add: line_eval demo_rule_def)

lemma demo_scan: "scan_lines ''ads.x'' = ([''ads.x''], False)"
  by (simp add: scan_lines_def raw_lines_def Let_def max_line_def strip_cr_def trim_suffix_def has_suffix_def)

lemma demo_parse: "parse_rules_capped demo_regex False ''ads.x'' =
    \<lparr>pd_block = [demo_rule ''ads.x''], pd_allow = [], pd_ignored = 0, pd_end = Complete\<rparr>"
  by (simp add: parse_rules_capped_def demo_scan demo_line max_rules_per_source_def
      max_regex_insts_per_source_def Let_def) (simp add: demo_rule_def)

definition demo_ops :: "filter_op list" where
  "demo_ops = [FAdd demo_source, FBegin, FLoad 1 0 ''ads.x'' demo_status, FEnd, FApply 0]"

definition demo_engine :: engine where
  "demo_engine = fold (filter_step demo_env) demo_ops new_engine"

lemma demo_engine_settled: "e_depth demo_engine = 0" "e_pending demo_engine = []"
    "e_sources demo_engine = [0]" "e_allow demo_engine = [(0, [])]"
    "e_block demo_engine = [(0, [demo_rule ''ads.x''])]"
  by (simp_all add: demo_engine_def demo_ops_def demo_env_def add_source_def new_engine_def begin_batch_def
      load_source_def demo_source_def new_url_source_def demo_parse set_rules_status_def rules_changed_def
      grown_history_def loaded_source_def publish_def notify_change_def end_batch_def apply_build_def Let_def)

theorem settled_engine_decides_witness:
  "rs_blocked (fst (match_domain demo_regex ''www.ads.x'' demo_engine)) \<and>
   \<not> rs_blocked (fst (match_domain demo_regex ''bads.x'' demo_engine))"
proof -
  note d = conjunct2 [OF settled_engine_decides [OF demo_engine_def demo_engine_settled(1,2), where X = demo_regex]]
  show ?thesis
    unfolding d demo_engine_settled
    by (simp add: ordered_rules_def rules_of_def rule_matches_def match_domain_suffix_def has_suffix_def demo_rule_def)
qed

lemma build_side_cong: "(\<And>s. s \<in> set sources \<Longrightarrow> rules_of m s = rules_of m' s) \<Longrightarrow> build_side sources m = build_side sources m'"
  unfolding build_side_def by (intro arg_cong [where f = fst] foldl_cong) auto

lemma find_update: 
  assumes "gm_get (e_objs e) s = Some ob" and "so_id ob' = so_id ob" "so_is_url ob' = so_is_url ob"
    and "find_url_source i e = Some (s, ob)" and "e_objs e' = gm_set s ob' (e_objs e)" "e_sources e' = e_sources e"
  shows "find_url_source i e' = Some (s, ob')"
proof -
  let ?f = "\<lambda>e s. map_option (Pair s) (gm_get (e_objs e) s)" and ?P = "\<lambda>(s :: src, ob). so_is_url ob \<and> so_id ob = i"
  have "List.find ?P (List.map_filter (?f e) ss) = Some (s, ob) \<Longrightarrow>
        List.find ?P (List.map_filter (?f e') ss) = Some (s, ob')" for ss
  proof (induction ss)
    case (Cons x xs)
    show ?case
    proof (cases "x = s")
      case True
      with Cons assms(1-3,5) show ?thesis
        by (cases "so_is_url ob \<and> so_id ob = i") (simp_all add: List.map_filter_simps gm_get_set)
    next
      case False
      have "gm_get (e_objs e') x = gm_get (e_objs e) x" using False assms(5) by (simp add: gm_get_set)
      with Cons False show ?thesis
        by (cases "gm_get (e_objs e) x") (auto simp: List.map_filter_simps split: if_splits)
    qed
  qed (simp add: List.map_filter_simps)
  then show ?thesis
    using assms(4,6) unfolding find_url_source_def by simp
qed

text \<open>What a rollback restores: the rules the source held before its last change, which for an allow-only source
  are all exceptions.\<close>

definition held_rules :: "engine \<Rightarrow> src \<Rightarrow> source \<Rightarrow> snapshot" where
  "held_rules e s ob = \<lparr>sn_block = rules_of (e_block e) s, sn_allow = rules_of (e_allow e) s, sn_checksum = so_checksum ob\<rparr>"

lemma update_fields:
  assumes "gm_get (e_objs e) s = Some ob" and "s \<in> set (e_sources e)" and "rules_changed ob (ck block allow) block allow"
    and "ob1 = loaded_source now (length block) (length allow) (ck block allow) True (grown_history e s ob True) st ob"
    and "e1 = set_rules_status ck now s block allow [] st e"
  shows "e_objs e1 = gm_set s ob1 (e_objs e)" "e_sources e1 = e_sources e" "e_block e1 = gm_set s block (e_block e)"
    "e_allow e1 = gm_set s allow (e_allow e)"
  using assms by (simp_all add: set_rules_status_def Let_def publish_def notify_change_def rebuild_def)


lemma demo_blocked: "rs_blocked (fst (match_domain demo_regex ''www.ads.x'' demo_engine))"
proof -
  have inv: "engine_inv demo_engine"
    unfolding demo_engine_def by (rule filter_sys.run_keeps) (rule new_engine_inv)
  note m = settled_match [OF inv settled_indexes [OF inv demo_engine_settled(1,2)], of demo_regex "''www.ads.x''"]
  show ?thesis
    unfolding match_domain_def m demo_engine_settled
    by (simp add: ordered_rules_def rules_of_def first_match_def demo_rule_def rule_matches_def
        match_domain_suffix_def has_suffix_def block_result_def)
qed


definition snapshot_from :: "regex_lib \<Rightarrow> bool \<Rightarrow> snapshot \<Rightarrow> bool" where
  "snapshot_from X ao sn \<longleftrightarrow>
     (ao \<longrightarrow> sn_block sn = []) \<and> (\<forall>r \<in> set (sn_block sn). parse_line X (ru_raw r) = Some (r, False)) \<and>
     (\<forall>r \<in> set (sn_allow sn). \<exists>e. parse_line X (ru_raw r) = Some (r, e) \<and> (e \<or> ao))"

lemma decode_raws:
  "(\<And>r. r \<in> set rs \<Longrightarrow> \<exists>e. parse_line X (ru_raw r) = Some (r, e) \<and> (e = w \<or> (w \<and> ao))) \<Longrightarrow>
   decode_history_rules X w ao (List.map ru_raw rs) = Some rs"
proof (induction rs)
  case (Cons r rs)
  obtain e where "parse_line X (ru_raw r) = Some (r, e)" "e = w \<or> (w \<and> ao)"
    using Cons.prems [of r] by auto
  moreover have "decode_history_rules X w ao (List.map ru_raw rs) = Some rs"
    by (rule Cons.IH) (use Cons.prems in simp)
  ultimately show ?case by auto
qed simp

lemma last_n_map: "last_n n (List.map f xs) = List.map f (last_n n xs)"
  by (simp add: last_n_def drop_map)

lemma all_some_ident: "(\<And>x. x \<in> set xs \<Longrightarrow> f (g x) = Some x) \<Longrightarrow> all_some (List.map f (List.map g xs)) = Some xs"
  by (induction xs) auto

text \<open>The history written for a source reads back as its last three snapshots, rule for rule,
  when the snapshots hold what the parser made of their lines under the source's policy.\<close>

theorem history_roundtrip:
  assumes "\<And>sn. sn \<in> set hist \<Longrightarrow> snapshot_from X ao sn"
  shows "read_history X i ao (encode_history i ao hist) = Some (last_n 3 hist)"
proof -
  let ?enc = "\<lambda>sn. \<lparr>ps_block = List.map ru_raw (sn_block sn), ps_allow = List.map ru_raw (sn_allow sn), ps_checksum = sn_checksum sn\<rparr>"
  have "decode_snapshot X ao (?enc sn) = Some sn" if "sn \<in> set (last_n 3 hist)" for sn
  proof -
    have "sn \<in> set hist" using that by (auto simp: last_n_def dest: in_set_dropD)
    then have sn: "snapshot_from X ao sn" by (rule assms)
    have "decode_history_rules X False False (List.map ru_raw (sn_block sn)) = Some (sn_block sn)"
      by (rule decode_raws) (use sn in \<open>auto simp: snapshot_from_def\<close>)
    moreover have "decode_history_rules X True ao (List.map ru_raw (sn_allow sn)) = Some (sn_allow sn)"
      by (rule decode_raws) (use sn in \<open>fastforce simp: snapshot_from_def\<close>)
    ultimately show ?thesis using sn by (simp add: decode_snapshot_def snapshot_from_def)
  qed
  from all_some_ident [where f = "decode_snapshot X ao" and g = ?enc, OF this] show ?thesis
    by (simp only: read_history_def encode_history_def persisted_history.simps last_n_map) simp
qed

theorem history_roundtrip_witness:
  "read_history demo_regex ''s'' False (encode_history ''s'' False
     [\<lparr>sn_block = [demo_rule ''ads.x''], sn_allow = [], sn_checksum = ''c''\<rparr>]) =
   Some [\<lparr>sn_block = [demo_rule ''ads.x''], sn_allow = [], sn_checksum = ''c''\<rparr>]"
proof -
  have "snapshot_from demo_regex False sn"
    if "sn \<in> set [\<lparr>sn_block = [demo_rule ''ads.x''], sn_allow = [], sn_checksum = ''c''\<rparr>]" for sn
    using that demo_line by (auto simp: snapshot_from_def demo_rule_def)
  then have "read_history demo_regex ''s'' False (encode_history ''s'' False
     [\<lparr>sn_block = [demo_rule ''ads.x''], sn_allow = [], sn_checksum = ''c''\<rparr>]) =
     Some (last_n 3 [\<lparr>sn_block = [demo_rule ''ads.x''], sn_allow = [], sn_checksum = ''c''\<rparr>])"
    by (rule history_roundtrip)
  then show ?thesis by (simp add: last_n_def)
qed

text \<open>ValidateRuleText panics, with a slice out of range, exactly on the texts one of whose
  lines is a lone slash, with or without the exception mark.\<close>

theorem validate_panics_iff:
  "validate_rule_text X t = None \<longleftrightarrow>
     (\<exists>l \<in> set (fst (scan_lines t)). trim_prefix (trim_space l) ''@@'' = ''/'')"
proof -
  have "validate_rule_text X t = None \<longleftrightarrow> validate_lines X 0 (fst (scan_lines t)) 0 [] = None"
    by (auto simp: validate_rule_text_def split: prod.splits option.splits)
  then show ?thesis by (simp only: validate_lines_panic validate_line_panic)
qed

text \<open>A regular expression that compiles but whose program is over the limit is accepted by the
  diagnostics without a word, although the engine does not turn the line into a rule.\<close>

theorem oversized_regex_accepted:
  assumes "rx_compiles X p" and "rx_insts X p = Some n" and "max_regex_program_insts < n"
    and "p \<noteq> []" and "CHR ''#'' \<notin> set p"
  shows "validate_line X (''/'' @ p @ ''/'') = Some Accepted \<and> parse_line X (''/'' @ p @ ''/'') = None"
proof -
  let ?l = "''/'' @ p @ ''/''"
  have trim: "trim_space ?l = ?l"
    by (simp add: trim_space_def trim_left_def trim_right_def is_space_def)
  have nohash: "\<not> contains_str s (CHR ''#'' # t)" if "CHR ''#'' \<notin> set s" for s t
    using that by (induction s) (auto simp: has_prefix_def)
  have plain: "\<not> is_comment ?l" "\<not> is_cosmetic ?l" "\<not> has_prefix ?l ''@@''"
    using assms(5) by (simp_all add: is_comment_def is_cosmetic_def has_prefix_def nohash)
  have form: "regex_form ?l" "has_prefix ?l ''/''" "has_suffix ?l ''/''"
    using has_suffix_append [of "''/'' @ p" "''/''"] by (simp_all add: regex_form_def has_prefix_def)
  have body: "take (length ?l - 2) (drop 1 ?l) = p" by simp
  have "?l \<noteq> ''/''" by simp
  from slash_only(2) [OF form(2,3) this] have slice: "go_slice ?l 1 (int (length ?l) - 1) = Some p"
    unfolding body by blast
  have "validate_line X ?l = Some Accepted"
    using plain form slice assms(1,4)
    unfolding validate_line_def Let_def trim trim_prefix_drop by simp
  moreover have "parse_line X ?l = None"
    using plain form(1) assms(2,3)
    unfolding parse_line_def Let_def trim body by (simp add: compile_bounded_regex_def)
  ultimately show ?thesis by blast
qed

theorem oversized_regex_accepted_witness:
  "validate_line (demo_regex\<lparr>rx_insts := \<lambda>_. Some 2001\<rparr>) ''/a/'' = Some Accepted \<and>
   parse_line (demo_regex\<lparr>rx_insts := \<lambda>_. Some 2001\<rparr>) ''/a/'' = None"
  using oversized_regex_accepted [of "demo_regex\<lparr>rx_insts := \<lambda>_. Some 2001\<rparr>" "''a''" 2001]
  by (simp add: demo_regex_def max_regex_program_insts_def)

text \<open>A source that is read to its end yields exactly the rules of its lines, in order:
  exceptions, and everything of an exception-only source, to the allow side and the rest to the
  block side; every other line is counted as ignored. Whatever happens, no more than two million
  rules and 500000 regex instructions are kept.\<close>

theorem source_parsed_completely:
  "let p = parse_rules_capped X ao t; ls = fst (scan_lines t); rs = List.map_filter (parse_line X) ls
   in length (pd_block p) + length (pd_allow p) \<le> 2000000 \<and>
      sum_list (List.map ru_insts (pd_block p @ pd_allow p)) \<le> 500000 \<and>
      (ao \<longrightarrow> pd_block p = []) \<and>
      (pd_end p = Complete \<longrightarrow>
         pd_block p = List.map fst (filter (\<lambda>(r, e). \<not> (e \<or> ao)) rs) \<and>
         pd_allow p = List.map fst (filter (\<lambda>(r, e). e \<or> ao) rs) \<and>
         pd_ignored p + length rs = length ls)"
proof -
  let ?init = "\<lparr>pd_block = [], pd_allow = [], pd_ignored = 0, pd_end = Complete\<rparr>"
  obtain ls b where sc: "scan_lines t = (ls, b)" by (meson surj_pair)
  let ?p = "parse_capped X ao 0 0 ls ?init"
  have bounds: "length (pd_block ?p) + length (pd_allow ?p) \<le> max_rules_per_source \<and>
      sum_list (List.map ru_insts (pd_block ?p @ pd_allow ?p)) \<le> max_regex_insts_per_source \<and> (ao \<longrightarrow> pd_block ?p = [])"
    by (rule parse_capped_bounds) simp_all
  have fields: "pd_block (parse_rules_capped X ao t) = pd_block ?p" "pd_allow (parse_rules_capped X ao t) = pd_allow ?p"
    "pd_ignored (parse_rules_capped X ao t) = pd_ignored ?p"
    "pd_end (parse_rules_capped X ao t) = Complete \<Longrightarrow> pd_end ?p = Complete"
    by (auto simp: parse_rules_capped_def sc Let_def split: if_splits)
  have complete: "pd_block ?p = List.map fst (filter (\<lambda>(r, e). \<not> (e \<or> ao)) (List.map_filter (parse_line X) ls)) \<and>
      pd_allow ?p = List.map fst (filter (\<lambda>(r, e). e \<or> ao) (List.map_filter (parse_line X) ls)) \<and>
      pd_ignored ?p + length (List.map_filter (parse_line X) ls) = length ls"
    if "pd_end (parse_rules_capped X ao t) = Complete"
    using parse_capped_complete [of X ao 0 0 ls ?init] fields(4) [OF that] by (simp add: parsed_lines_def)
  show ?thesis
    unfolding Let_def sc fst_conv fields(1-3)
    using bounds complete unfolding max_rules_per_source_def max_regex_insts_per_source_def by blast
qed

theorem source_parsed_completely_witness:
  "pd_end (parse_rules_capped demo_regex False ''ads.x'') = Complete \<and>
   pd_block (parse_rules_capped demo_regex False ''ads.x'') = List.map fst (List.map_filter (parse_line demo_regex) [''ads.x'']) \<and>
   pd_ignored (parse_rules_capped demo_regex False ''ads.x'') + 1 = 1"
proof -
  let ?p = "parse_rules_capped demo_regex False ''ads.x''"
  have fin: "pd_end ?p = Complete" by (simp add: demo_parse)
  from demo_line have one: "List.map_filter (parse_line demo_regex) [''ads.x''] = [the (parse_line demo_regex ''ads.x'')]"
    "snd (the (parse_line demo_regex ''ads.x'')) = False"
    by (simp_all add: map_filter_simps)
  from source_parsed_completely [of demo_regex False "''ads.x''"] fin show ?thesis
    unfolding Let_def demo_scan fst_conv one(1) by (simp add: one(2) split_beta)
qed

section \<open>The override report\<close>

definition real_override :: "regex_lib \<Rightarrow> engine \<Rightarrow> evaluation \<Rightarrow> bool" where
  "real_override X e ev \<longleftrightarrow> ev_override ev \<and>
     (\<exists>a. first_indexed_match X (ev_domain ev) (in_allow (e_idx e)) = Some a) \<and>
     (\<exists>b. first_indexed_match X (ev_domain ev) (in_block (e_idx e)) = Some b)"

lemma override_loop_sound:
  assumes "list_all (real_override X e) acc" and "length acc < limit"
  shows "list_all (real_override X e) (override_loop X e c limit i budget ds acc) \<and>
    length (override_loop X e c limit i budget ds acc) \<le> limit"
  using assms
proof (induction ds arbitrary: i budget acc)
  case (Cons d ds)
  note IH = Cons.IH [OF Cons.prems]
  show ?case
  proof (cases "first_indexed_match X d (in_block (e_idx e))")
    case None
    then show ?thesis using IH Cons.prems by (simp add: Let_def)
  next
    case (Some bm)
    note b = this
    show ?thesis
    proof (cases "first_indexed_match X d (in_allow (e_idx e))")
      case None
      then show ?thesis using b IH Cons.prems by (simp add: Let_def)
    next
      case (Some am)
      define ev where "ev = \<lparr>ev_domain = d, ev_result = allow_result e am,
                                 ev_allow_rule = ru_raw (ix_rule am), ev_allow_source = source_name e (ix_source am),
                                 ev_block_rule = ru_raw (ix_rule bm), ev_block_source = source_name e (ix_source bm),
                                 ev_override = True\<rparr>"
      have ok: "list_all (real_override X e) (acc @ [ev])"
      proof -
        have "real_override X e ev" using b Some by (simp add: real_override_def ev_def)
        with Cons.prems(1) show ?thesis by simp
      qed
      have IH': "\<not> limit \<le> length (acc @ [ev]) \<Longrightarrow>
          list_all (real_override X e) (override_loop X e c limit j bb ds (acc @ [ev])) \<and>
          length (override_loop X e c limit j bb ds (acc @ [ev])) \<le> limit" for j bb
        by (rule Cons.IH [OF ok]) simp
      have "length (acc @ [ev]) \<le> limit" using Cons.prems(2) by simp
      then show ?thesis
        using b Some Cons.prems ok IH' by (simp add: Let_def ev_def [symmetric] del: length_append list_all_append)
    qed
  qed
qed simp

text \<open>Every line of the override report is a real override (an exception and a block rule both
  match the name) and the report never exceeds the requested limit, whatever the budgets and
  whenever the request is cancelled.\<close>

theorem override_report_sound:
  "list_all (real_override X e) (allowlist_overrides X c limit e) \<and>
   length (allowlist_overrides X c limit e) \<le> (if limit \<le> 0 then 100 else nat limit)"
proof -
  let ?ds = "take max_override_candidates (sort (gm_keys (fst (in_allow (e_idx e)))))"
  have "allowlist_overrides X c limit e =
      override_loop X e c (if limit \<le> 0 then 100 else nat limit) 0 max_override_regex_evaluations ?ds []"
    by (simp add: allowlist_overrides_def Let_def)
  then show ?thesis
    using override_loop_sound [of X e "[]" "if limit \<le> 0 then 100 else nat limit" c 0 max_override_regex_evaluations ?ds]
    by simp
qed

end
