(* ===== verification/Upstream_Claims.thy ===== *)
theory Upstream_Claims
  imports Upstream_Query
begin

text \<open>
  What forwarding guarantees: an answer whenever a tried upstream has one, replies that match the
  question, an exact circuit breaker, bounded resolver caches; and two places where the code does
  not do what it says.
\<close>

section \<open>The configuration stays well-formed\<close>

definition resolvers_ok :: "upstream list \<Rightarrow> bool" where
  "resolvers_ok rs \<longleftrightarrow> list_all spec_ok rs \<and> distinct (List.map normalized_key rs)"

definition pool_wf :: "pool \<Rightarrow> bool" where
  "pool_wf p \<longleftrightarrow> resolvers_ok (pl_primary p) \<and> resolvers_ok (pl_fallback p) \<and>
     gm_ok (pl_groups p) \<and> length (pl_groups p) \<le> max_resolver_groups \<and>
     list_all (\<lambda>(_, rs). resolvers_ok rs) (pl_groups p) \<and> gm_ok (pl_routes p) \<and> list_all (\<lambda>(_, r). spec_ok r) (pl_routes p)"

datatype pool_op =
    PPrimary "string list" | PBootstrap "string list" | PSettings string "string list" string | PClear
  | PGroup "string list" | PRoute string

fun pool_step :: "url_lib \<Rightarrow> pool_op \<Rightarrow> pool \<Rightarrow> pool" where
  "pool_step U (PPrimary ss) p = set_primary_specs U ss p"
| "pool_step U (PBootstrap ss) p = set_bootstrap_servers U ss p"
| "pool_step U (PSettings m ss e) p = set_runtime_settings U m ss e p"
| "pool_step U PClear p = clear_route_cache p"
| "pool_step U (PGroup ss) p = snd (group_resolvers U ss p)"
| "pool_step U (PRoute s) p = snd (route_resolver U s p)"

lemma build_step_ok: "resolvers_ok out \<Longrightarrow> resolvers_ok (build_step U out raw)"
  by (auto simp: build_step_def resolvers_ok_def parse_spec_ok image_def split: sum.split)

lemma build_resolvers_ok: "resolvers_ok (build_resolvers U specs)"
proof -
  have "resolvers_ok out \<Longrightarrow> resolvers_ok (foldl (build_step U) out specs)" for out
    by (induction specs arbitrary: out) (simp_all add: build_step_ok)
  then show ?thesis by (simp add: build_resolvers_def resolvers_ok_def)
qed

lemma list_all_update: "list_all (\<lambda>(_, v). P v) m \<Longrightarrow> P v \<Longrightarrow> list_all (\<lambda>(_, v). P v) (gm_set k v m)"
  by (induction m) auto

lemma group_resolvers_wf: "pool_wf p \<Longrightarrow> pool_wf (snd (group_resolvers U ss p))"
proof (cases "gm_get (pl_groups p) (join_with [CHR 0x00] ss)")
  case None
  assume wf: "pool_wf p"
  let ?gs = "if max_resolver_groups \<le> length (pl_groups p) then tl (pl_groups p) else pl_groups p"
  have gs: "gm_ok ?gs" "length ?gs < max_resolver_groups" "list_all (\<lambda>(_, rs). resolvers_ok rs) ?gs"
    using wf by (cases "pl_groups p"; auto simp: pool_wf_def max_resolver_groups_def)+
  show ?thesis
    using None wf gs list_all_update [OF gs(3) build_resolvers_ok]
    by (simp add: group_resolvers_def Let_def pool_wf_def gm_len_set)
qed (simp add: group_resolvers_def Let_def)

lemma route_resolver_wf: "pool_wf p \<Longrightarrow> pool_wf (snd (route_resolver U s p))"
  by (auto simp: route_resolver_def pool_wf_def intro: list_all_update parse_spec_ok split: option.split sum.split)

interpretation pool_sys: invariant_system "pool_step U" pool_wf
proof
  fix p x assume "pool_wf p"
  then show "pool_wf (pool_step U x p)"
    by (cases x) (auto simp: group_resolvers_wf route_resolver_wf,
      auto simp: pool_wf_def set_primary_specs_def set_bootstrap_servers_def set_runtime_settings_def
        clear_route_cache_def build_resolvers_ok max_resolver_groups_def)
qed

text \<open>C40: Whatever specs are configured and whatever reconfigurations, client groups and routes follow, every
  resolver of the pool has a known scheme, a host, a valid port and options within bounds, no two
  primaries (fallbacks, members of a group) are the same endpoint, and at most 256 groups are cached.\<close>

theorem pool_stays_wellformed: "pool_wf (fold (pool_step U) ops (new_pool U g))"
proof -
  have "pool_wf (new_pool U g)"
    by (simp add: new_pool_def pool_wf_def build_resolvers_ok)
  then show ?thesis by (rule pool_sys.run_keeps)
qed

section \<open>Answers\<close>

text \<open>C29: In every selection mode, with any random draws and any completion order of a race, an exchange over
  a list of candidates fails only if all of them are down, and otherwise it returns the reply of one that is
  up: what a dial of that upstream with the configured client subnet returned, with the AAAA records
  synthesized from its A records where the pool asks for them. A pool exchange returns the reply of a primary or
  fallback that is up, together with its spec, or fails with every healthy primary and every healthy fallback
  down. (An upstream is up when its dials succeed, down when they fail, throughout the exchange; every candidate
  of a race completes before the deadline of the whole race, which lies a second after the longest timeout.)\<close>

theorem pool_answers_if_possible:
  assumes "answers N up"
  shows "right_result N p m up cs (fst (exchange_by_mode N cs m p w)) \<and>
    (case fst (pool_exchange N health m p w) of
       Inr (a, used) \<Rightarrow> list_ex (\<lambda>r. up r \<and> used = sp_raw r \<and> genuine_reply N p m r a) (pl_primary p @ pl_fallback p)
     | Inl _ \<Rightarrow> list_all (\<lambda>r. \<not> up r) (fst (healthy (clock N w) health (pl_primary p) p)) \<and>
         (\<exists>now p'. list_all (\<lambda>r. \<not> up r) (fst (healthy now health (pl_fallback p) p'))))"
proof -
  obtain p1 p2 w1 where same: "same_profile p p1" "same_profile p p2" and s: "fst (pool_exchange N health m p w) =
     (case fst (exchange_by_mode N (fst (healthy (clock N w) health (pl_primary p) p)) m p1 w) of
        Inr r \<Rightarrow> Inr r
      | Inl e \<Rightarrow> if pl_fallback p = [] then Inl e
                 else fst (exchange_by_mode N (fst (healthy (clock N w1) health (pl_fallback p) p2)) m
                             (snd (healthy (clock N w1) health (pl_fallback p) p2)) w1))"
    using pool_exchange_split [of p N health m w] by blast
  define p3 where "p3 = snd (healthy (clock N w1) health (pl_fallback p) p2)"
  have same3: "same_profile p p3" unfolding p3_def by (rule same_trans [OF same(2) healthy_same])
  let ?cs = "fst (healthy (clock N w) health (pl_primary p) p)" and ?fs = "fst (healthy (clock N w1) health (pl_fallback p) p2)"
  have r1: "right_result N p m up ?cs (fst (exchange_by_mode N ?cs m p1 w))"
    using exchange_by_mode_right [OF assms, of p1 m ?cs w] by (simp add: right_result_profile [OF same(1)])
  have r2: "right_result N p m up ?fs (fst (exchange_by_mode N ?fs m p3 w1))"
    using exchange_by_mode_right [OF assms, of p3 m ?fs w1] by (simp add: right_result_profile [OF same3])
  have sub: "set ?cs \<subseteq> set (pl_primary p)" "set ?fs \<subseteq> set (pl_fallback p)" by (rule healthy_subset)+
  have empty: "pl_fallback p = [] \<Longrightarrow> ?fs = []" using sub(2) by simp
  have "case fst (pool_exchange N health m p w) of
       Inr (a, used) \<Rightarrow> list_ex (\<lambda>r. up r \<and> used = sp_raw r \<and> genuine_reply N p m r a) (pl_primary p @ pl_fallback p)
     | Inl _ \<Rightarrow> list_all (\<lambda>r. \<not> up r) ?cs \<and> list_all (\<lambda>r. \<not> up r) ?fs"
  proof (cases "fst (exchange_by_mode N ?cs m p1 w)")
    case (Inr a)
    with r1 s sub(1) show ?thesis by (cases a) (auto simp: right_result_def list_ex_iff)
  next
    case (Inl e)
    with r1 have down: "list_all (\<lambda>r. \<not> up r) ?cs" by (simp add: right_result_def)
    show ?thesis
    proof (cases "pl_fallback p = []")
      case True
      with down empty Inl s show ?thesis by simp
    next
      case False
      with Inl s r2 sub(2) down show ?thesis
        by (cases "fst (exchange_by_mode N ?fs m p3 w1)") (auto simp: right_result_def list_ex_iff p3_def)
    qed
  qed
  then show ?thesis
    using exchange_by_mode_right [OF assms] by (auto split: sum.splits)
qed

definition demo_upstream :: "string \<Rightarrow> upstream" where
  "demo_upstream h = plain_spec h ''53'' h"

text \<open>A network in which every upstream answers, a race completes in the order given, and a dial with a
  cancelled context fails; the clock counts dials.\<close>

definition demo_network :: "int network" where
  "demo_network = \<lparr>dial = (\<lambda>c r m w. (if c then (Inl ''context canceled'', 1, w + 1) else (Inr m, 1, w + 1), w + 1)),
     arrival = (\<lambda>cs w. (cs, w)), draw = (\<lambda>w. (1 / 2, w)), fresh_id = (\<lambda>w. (7, w)), clock = (\<lambda>w. w),
     plain_dial = (\<lambda>_ _ m w. (Some m, w))\<rparr>"

definition demo_pool :: "string \<Rightarrow> pool" where
  "demo_pool mode = \<lparr>pl_mode = mode, pl_primary_specs = [], pl_fallback_specs = [], pl_bootstrap = [],
     pl_primary = [demo_upstream ''a'', demo_upstream ''b''], pl_fallback = [], pl_routes = [], pl_groups = [],
     pl_stats = [], pl_ecs = None, pl_dns64 = False, pl_dns64_prefixes = []\<rparr>"

text \<open>A network in which the host ''a'' is down and every other host answers with one A record and its own name.\<close>

definition demo_reply :: "string \<Rightarrow> msg \<Rightarrow> msg" where
  "demo_reply h m = m\<lparr>m_answer := [\<lparr>rr_name = h, rr_type = type_A, rr_class = class_INET, rr_ttl = 60, rr_data = RD_A (Some 7)\<rparr>]\<rparr>"

definition half_network :: "int network" where
  "half_network = demo_network\<lparr>dial := (\<lambda>c r m w.
     (if c \<or> sp_raw r = ''a'' then (Inl ''refused'', 1, w + 1) else (Inr (demo_reply (sp_raw r) m), 1, w + 1), w + 1))\<rparr>"

lemma half_answers: "answers half_network (\<lambda>r. sp_raw r \<noteq> ''a'')"
  by (simp add: answers_def half_network_def demo_network_def)

theorem pool_answers_if_possible_witness:
  "\<exists>resp. fst (pool_exchange half_network [] empty_msg (demo_pool ''strict'') 0) = Inr (resp, ''b'') \<and>
     resp = demo_reply ''b'' empty_msg \<and>
     list_ex (\<lambda>r. sp_raw r \<noteq> ''a'' \<and> ''b'' = sp_raw r \<and> genuine_reply half_network (demo_pool ''strict'') empty_msg r resp)
       (pl_primary (demo_pool ''strict'') @ pl_fallback (demo_pool ''strict''))"
proof -
  have run: "fst (pool_exchange half_network [] empty_msg (demo_pool ''strict'') 0) = Inr (demo_reply ''b'' empty_msg, ''b'')"
    by (simp add: pool_exchange_def healthy_def usable_def get_stat_def new_stat_def demo_pool_def half_network_def demo_network_def
        exchange_by_mode_def exchange_context_def with_ecs_def wants_dns64_def Let_def demo_upstream_def plain_spec_def
        stat_for_def put_stat_def record_failure_def)
  show ?thesis
    using pool_answers_if_possible [OF half_answers, where cs = "[]" and m = empty_msg and p = "demo_pool ''strict''" and w = 0
        and health = "[]"] run
    by auto
qed

text \<open>C38: After any sequence of failed and answered exchanges with an upstream, its circuit is open exactly
  when the last three (or more) all failed, for thirty seconds from the last of them; the counters add
  up, and the latency ring never indexes out of its 256 samples.\<close>

theorem circuit_breaker_exact:
  "let s = fold note_outcome (rev xs) new_stat in
     st_consecutive_failures s = trailing_failures xs \<and>
     st_circuit s = (if circuit_failure_threshold \<le> trailing_failures xs
                     then (case xs of Failed _ now # _ \<Rightarrow> now + circuit_cooldown | _ \<Rightarrow> 0) else 0) \<and>
     st_failures s + st_successes s = length xs \<and>
     length (st_samples s) = latency_sample_limit \<and> st_index s < latency_sample_limit \<and>
     st_count s = min latency_sample_limit (st_successes s)"
  by (rule outcomes_exact)

section \<open>Forwarding\<close>

lemma accepted_match: "accepted q c res = Some (used, m) \<Longrightarrow> m_id m = c \<and> list_all2 same_question (m_question q) (m_question m)"
  by (auto simp: accepted_def accept_upstream_reply_def split: sum.splits if_splits)

lemma forward_pool_match:
  "fst (forward_pool N U F q specs c p w) = (used, Some m) \<Longrightarrow>
   m_id m = c \<and> list_all2 same_question (m_question q) (m_question m)"
  by (auto simp: forward_pool_def dest!: accepted_match split: prod.splits option.splits)

lemma forward_legacy_match:
  "fst (forward_legacy N us q c w) = (used, Some m) \<Longrightarrow>
   m_id m = c \<and> list_all2 same_question (m_question q) (m_question m)"
  by (induction N us q c w rule: forward_legacy.induct)
    (auto simp: accept_upstream_reply_def split: prod.splits option.splits if_splits)

text \<open>C37: Whatever the upstreams reply, an answer that forwarding returns carries the client's transaction
  id and the client's question: same number of questions, same type and class, same name up to case.\<close>

theorem forward_answer_matches:
  assumes "fst (forward N U F r specs u) = (used, Some m)"
  shows "m_id m = m_id r \<and> list_all2 same_question (m_question r) (m_question m)"
proof -
  have q: "m_question (upstream_query d i r) = m_question r" for d i by (simp add: upstream_query_def)
  obtain i w where w: "fresh_id N (ul_world u) = (i, w)" by (cases "fresh_id N (ul_world u)")
  show ?thesis
  proof (cases "ul_pool u")
    case None
    with assms w have "fst (forward_legacy N (fe_upstreams F) (upstream_query (fe_dnssec F) i r) (m_id r) w) = (used, Some m)"
      by (auto simp: forward_def Let_def split: prod.splits)
    from forward_legacy_match [OF this] show ?thesis by (simp add: q)
  next
    case (Some p)
    with assms w have "fst (forward_pool N U F (upstream_query (fe_dnssec F) i r) specs (m_id r) p w) = (used, Some m)"
      by (auto simp: forward_def Let_def split: prod.splits)
    from forward_pool_match [OF this] show ?thesis by (simp add: q)
  qed
qed

definition demo_url_lib :: url_lib where
  "demo_url_lib = \<lparr>url_parse = (\<lambda>_. None), url_encode = (\<lambda>_. []), parse_duration = (\<lambda>_. None), show_duration = (\<lambda>_. [])\<rparr>"

definition demo_forward_env :: forward_env where
  "demo_forward_env = \<lparr>fe_dnssec = False, fe_routes = None, fe_policy = None, fe_upstreams = [''9.9.9.9:53''], fe_health = []\<rparr>"

definition demo_request :: msg where
  "demo_request = empty_msg\<lparr>m_id := 3, m_question := [\<lparr>q_name = ''a.'', q_type = type_A, q_class = class_INET\<rparr>],
     m_opt := Some \<lparr>o_udp_size = 4096, o_version = 0, o_do = False,
       o_options = [OptECS \<lparr>ecs_family = 1, ecs_netmask = 32, ecs_scope = 0, ecs_address = Some 0xffff0a000005\<rparr>]\<rparr>\<rparr>"

theorem forward_answer_matches_witness:
  "\<exists>m. fst (forward demo_network demo_url_lib demo_forward_env demo_request []
          \<lparr>ul_pool = None, ul_world = 0, ul_bogus_hits = 0\<rparr>) = (''9.9.9.9:53'', Some m) \<and> m_id m = 3"
proof -
  have "\<exists>m. fst (forward demo_network demo_url_lib demo_forward_env demo_request []
          \<lparr>ul_pool = None, ul_world = 0, ul_bogus_hits = 0\<rparr>) = (''9.9.9.9:53'', Some m)"
    by (simp add: forward_def demo_network_def demo_forward_env_def upstream_query_def demo_request_def empty_msg_def
        accept_upstream_reply_def same_question_def equal_fold_def Let_def)
  then obtain m where m: "fst (forward demo_network demo_url_lib demo_forward_env demo_request []
          \<lparr>ul_pool = None, ul_world = 0, ul_bogus_hits = 0\<rparr>) = (''9.9.9.9:53'', Some m)" ..
  have "m_id m = m_id demo_request" using forward_answer_matches [OF m] by blast
  with m show ?thesis by (auto simp: demo_request_def)
qed

text \<open>Without a configured client subnet, the query sent upstream carries the client's own EDNS options
  unchanged, its client-subnet option included, although the pool's documentation says that the
  client's subnet is never passed through.\<close>

theorem client_subnet_forwarded:
  assumes "pl_ecs p = None" and "m_opt r = Some opt_rr"
  shows "map_option o_options (m_opt (with_ecs p (upstream_query dnssec i r))) = Some (o_options opt_rr)"
  using assms by (simp add: with_ecs_def upstream_query_def)

theorem client_subnet_forwarded_witness:
  "map_option o_options (m_opt (with_ecs (demo_pool ''strict'') (upstream_query False 9 demo_request))) =
   Some [OptECS \<lparr>ecs_family = 1, ecs_netmask = 32, ecs_scope = 0, ecs_address = Some 0xffff0a000005\<rparr>]"
proof -
  have "pl_ecs (demo_pool ''strict'') = None" by (simp add: demo_pool_def)
  from client_subnet_forwarded [OF this, of demo_request _ False 9] show ?thesis
    by (simp add: demo_request_def)
qed

text \<open>In parallel mode the slower of two working upstreams is counted as failing in every race it loses
  (its context is cancelled): after three queries, all answered, its circuit is open and the next
  query is sent to the faster one alone.\<close>

theorem race_losers_trip_circuit:
  "\<exists>p3 w3. fold (\<lambda>m (p, w). snd (pool_exchange demo_network [] m p w)) (replicate 3 demo_request) (demo_pool ''parallel'', 0) = (p3, w3) \<and>
     st_circuit (get_stat ''b'' p3) = w3 + circuit_cooldown \<and> st_consecutive_failures (get_stat ''a'' p3) = 0 \<and>
     fst (healthy (clock demo_network w3) [] (pl_primary p3) p3) = [demo_upstream ''a'']"
  by (simp add: pool_exchange_def healthy_def usable_def get_stat_def new_stat_def demo_pool_def demo_network_def
      exchange_by_mode_def exchange_parallel_def exchange_context_def with_ecs_def wants_dns64_def Let_def demo_upstream_def
      plain_spec_def stat_for_def put_stat_def record_failure_def record_success_def record_latency_def
      circuit_failure_threshold_def circuit_cooldown_def second_def numeral_eq_Suc)

end
