(* ===== verification/Query_Claims.thy ===== *)
theory Query_Claims
  imports Query_Pipeline Filter_Claims Upstream_Claims
begin

text \<open>
  What a query does, from admission to answer: every answer is a reply to the question asked, a
  query costs at most one exchange with the upstreams and nine rewrites whatever is configured,
  closed CNAME rewrites end in SERVFAIL, blocked names never reach the cache or the upstreams,
  denied clients learn nothing, and the state of the server stays within its bounds.
\<close>

section \<open>The shape of an answer\<close>

definition header :: "msg \<Rightarrow> u16 \<times> bool \<times> nat \<times> bool \<times> bool \<times> bool \<times> question list" where
  "header m = (m_id m, m_response m, m_opcode m, m_truncated m, m_ra m, m_cd m, m_question m)"

text \<open>An OPT record only for a client that sent one, with our clamped size and the client's DO bit.\<close>

definition hop_opt :: "msg \<Rightarrow> msg \<Rightarrow> bool" where
  "hop_opt r m \<longleftrightarrow> (case m_opt m of None \<Rightarrow> True
     | Some p \<Rightarrow> (case m_opt r of None \<Rightarrow> False
        | Some p0 \<Rightarrow> o_udp_size p = client_udp_size (Some r) \<and> o_do p = o_do p0 \<and> o_version p = o_version p0))"

definition replies :: "msg \<Rightarrow> msg \<Rightarrow> msg \<Rightarrow> bool" where
  "replies r resp m \<longleftrightarrow> header m = header resp \<and> (hop_opt r resp \<longrightarrow> hop_opt r m)"

lemma replies_refl [simp]: "replies r m m"
  by (simp add: replies_def)

lemma replies_trans: "replies r a b \<Longrightarrow> replies r b c \<Longrightarrow> replies r a c"
  by (simp add: replies_def)

lemma replies_sections [simp]:
  "replies r resp (resp\<lparr>m_rcode := c\<rparr>)" "replies r resp (resp\<lparr>m_answer := a\<rparr>)"
  "replies r resp (resp\<lparr>m_answer := a, m_authoritative := b\<rparr>)" "replies r resp (resp\<lparr>m_rcode := c, m_answer := a\<rparr>)"
  "replies r resp (resp\<lparr>m_rcode := c, m_answer := a, m_ns := n\<rparr>)"
  "replies r resp (resp\<lparr>m_rcode := c, m_ad := d, m_answer := a, m_ns := n\<rparr>)"
  by (simp_all add: replies_def header_def hop_opt_def)

lemma replies_extra [simp]: "replies r resp (set_response_extra r x resp)"
  by (simp add: replies_def header_def hop_opt_def set_response_extra_def response_opt_def split: option.split)

lemma replies_error [simp]: "replies r resp (add_extended_error r c t resp)"
  by (auto simp: replies_def header_def hop_opt_def add_extended_error_def set_response_extra_def response_opt_def Let_def
      split: option.splits)

lemma replies_chain [simp]:
  "replies r resp m \<Longrightarrow> replies r resp (set_response_extra r x m)"
  "replies r resp m \<Longrightarrow> replies r resp (add_extended_error r c t m)"
  by (erule replies_trans, simp)+

lemma replies_entry: "replies r resp (apply_cache_entry r e ttl resp)"
  by (auto simp: apply_cache_entry_def Let_def)

lemma replies_upstream: "replies r resp (apply_upstream_result r u resp)"
  by (auto simp: apply_upstream_result_def Let_def split: option.split)

text \<open>The ways in which the cache and upstream stage ends.\<close>

lemma resolve_via_cases:
  assumes "resolve_via_cache_or_upstream fetch await now r key specs resp f p = (res, m, f1, p1)"
  obtains (hit) e ttl c where "cache_get now key (f_cache f) = (Some (e, ttl), c)" "m = apply_cache_entry r e ttl resp"
      "f1 = f\<lparr>f_cache := c\<rparr> \<or> f1 = refresh_async key r specs True (f\<lparr>f_cache := c\<rparr>)" "p1 = p"
    | (stale) e c c2 code where "cache_get now key (f_cache f) = (None, c)" "get_stale now key c = (Some e, c2)"
      "m = add_extended_error r code ''stale answer served while refreshing'' (apply_cache_entry r e 1 resp)"
      "f1 = refresh_async key r specs False (f\<lparr>f_cache := c2\<rparr>)" "p1 = p"
    | (full) c c2 b where "cache_get now key (f_cache f) = (None, c)" "c2 = c \<or> c2 = snd (get_stale now key c)"
      "begin_miss_flight key (f\<lparr>f_cache := c2\<rparr>) = ((None, b), f1)"
      "m = add_extended_error r ede_network_error ''upstream concurrency limit reached''
             (set_response_extra r [] (resp\<lparr>m_rcode := rcode_server_failure\<rparr>))" "p1 = p"
    | (follow) c c2 f2 i where "cache_get now key (f_cache f) = (None, c)" "c2 = c \<or> c2 = snd (get_stale now key c)"
      "begin_miss_flight key (f\<lparr>f_cache := c2\<rparr>) = ((Some i, False), f2)" "m = apply_upstream_result r (await i) resp"
      "f1 = f2\<lparr>f_cache := (f_cache f2)\<lparr>c_cnt := cn_coalesced_update Suc (c_cnt (f_cache f2))\<rparr>\<rparr>" "p1 = p"
    | (lead) c c2 f2 i u where "cache_get now key (f_cache f) = (None, c)" "c2 = c \<or> c2 = snd (get_stale now key c)"
      "begin_miss_flight key (f\<lparr>f_cache := c2\<rparr>) = ((Some i, True), f2)" "fetch p = (u, p1)" "m = apply_upstream_result r u resp"
      "f1 = complete_miss_flight key i u (case ur_msg u of None \<Rightarrow> f2
              | Some a \<Rightarrow> snd (store_if_generation now key a False (f_generation f) f2))"
proof -
  obtain g c where g: "cache_get now key (f_cache f) = (g, c)" by (cases "cache_get now key (f_cache f)")
  obtain st c2 where st: "(if f_optimistic f then get_stale now key c else (None, c)) = (st, c2)"
    by (cases "if f_optimistic f then get_stale now key c else (None, c)")
  have c2: "c2 = c \<or> c2 = snd (get_stale now key c)" using st by (auto split: if_splits)
  obtain i b f2 where bm: "begin_miss_flight key (f\<lparr>f_cache := c2\<rparr>) = ((i, b), f2)"
    by (cases "begin_miss_flight key (f\<lparr>f_cache := c2\<rparr>)") auto
  obtain u p2 where u: "fetch p = (u, p2)" by (cases "fetch p")
  show thesis
  proof (cases g)
    case (Some ea)
    then obtain e ttl where ea: "g = Some (e, ttl)" by (cases ea) auto
    show thesis
      by (rule hit [of e ttl c]) (use assms g ea in \<open>auto simp: resolve_via_cache_or_upstream_def Let_def split: if_splits\<close>)
  next
    case None
    show thesis
    proof (cases st)
      case (Some e)
      have "get_stale now key c = (Some e, c2)" using st Some by (auto split: if_splits)
      then show thesis
        using assms g None st Some by (intro stale) (auto simp: resolve_via_cache_or_upstream_def Let_def)
    next
      case st0: None
      have gs: "cache_get now key (f_cache f) = (None, c)" using g None by simp
      note ev = resolve_via_cache_or_upstream_def Let_def gs u
      have st1: "f_optimistic f \<Longrightarrow> get_stale now key c = (None, c2)" "\<not> f_optimistic f \<Longrightarrow> c2 = c"
        using st st0 by auto
      consider "i = None" | k where "i = Some k" "b" | k where "i = Some k" "\<not> b" by (cases i) auto
      then show thesis
      proof cases
        case 1
        have "f1 = f2" "p1 = p" "m = add_extended_error r ede_network_error ''upstream concurrency limit reached''
             (set_response_extra r [] (resp\<lparr>m_rcode := rcode_server_failure\<rparr>))"
          by (use bm assms st1 1 in \<open>cases "f_optimistic f"; simp add: ev\<close>)+
        with bm 1 show thesis by (intro full [OF gs c2]) simp_all
      next
        case (2 k)
        have "m = apply_upstream_result r u resp" "p1 = p2"
          "f1 = complete_miss_flight key k u (case ur_msg u of None \<Rightarrow> f2
              | Some a \<Rightarrow> snd (store_if_generation now key a False (f_generation f) f2))"
          by (use bm assms st1 2 in \<open>cases "f_optimistic f"; cases "ur_msg u"; simp add: ev\<close>)+
        with bm u 2 show thesis by (intro lead [OF gs c2]) simp_all
      next
        case (3 k)
        have "m = apply_upstream_result r (await k) resp" "p1 = p"
          "f1 = f2\<lparr>f_cache := (f_cache f2)\<lparr>c_cnt := cn_coalesced_update Suc (c_cnt (f_cache f2))\<rparr>\<rparr>"
          by (use bm assms st1 3 in \<open>cases "f_optimistic f"; simp add: ev\<close>)+
        with bm 3 show thesis by (intro follow [OF gs c2]) simp_all
      qed
    qed
  qed
qed

lemma resolve_via_replies:
  assumes "resolve_via_cache_or_upstream fetch await now r key specs resp f p = (res, m, f1, p1)"
  shows "replies r resp m"
  using assms by (cases rule: resolve_via_cases) (simp_all add: replies_entry replies_upstream)

lemma chase_replies: "replies r resp (fst (snd (chase_cname L deeper path r0 q resp target rule label reason s)))"
  by (auto simp: chase_cname_def Let_def split: option.split prod.split)

lemma chase_replies': "chase_cname L deeper path r0 q resp target rule label reason s = (res, m, s1) \<Longrightarrow> replies r resp m"
  using chase_replies [of r resp L deeper path r0 q target rule label reason s] by simp

lemma stage_rewrites_replies: "stage_rewrites E ip deeper path r q resp s = Some (res, m, s1) \<Longrightarrow> replies r resp m"
  unfolding stage_rewrites_def Let_def
  by (auto split: option.splits if_splits dest: chase_replies')

lemma stage_safe_replies: "stage_safe_search E cl deeper path r q resp s = Some (res, m, s1) \<Longrightarrow> replies r resp m"
  unfolding stage_safe_search_def Let_def by (auto split: if_splits dest: chase_replies')

lemma stage_local_replies: "stage_local E cl ip deeper path r q resp s = Some (res, m, s1) \<Longrightarrow> replies r resp m"
  by (auto simp: stage_local_def stage_magic_dns_def stage_private_ptr_def Let_def
      dest: stage_rewrites_replies stage_safe_replies split: if_splits option.splits)

text \<open>Where a query is answered.\<close>

lemma resolve_body_cases:
  assumes "resolve_body E now cl ip deeper r resp path s = (res, m, s')"
  obtains (malformed) txt_msg where "m = format_error r txt_msg resp" "s' = s" "res = no_resolution"
    | (here) q where "m_question r = [q]" "stage_local E cl ip deeper path r q resp s = Some (res, m, s')"
    | (filtered) q s1 where "m_question r = [q]" "stage_local E cl ip deeper path r q resp s = None"
        "stage_filter E now cl r q resp s = (Some (res, m, s'), s1)"
    | (upstream) q s1 where "m_question r = [q]" "stage_local E cl ip deeper path r q resp s = None"
        "stage_filter E now cl r q resp s = (None, s1)" "stage_upstream E now cl r q resp s1 = (res, m, s')"
proof (cases "\<exists>q. m_question r = [q]")
  case False
  with assms show thesis by (intro malformed) (auto simp: resolve_body_def split: list.splits)
next
  case True
  then obtain q where q: "m_question r = [q]" ..
  show thesis
  proof (cases "m_response r \<or> m_opcode r \<noteq> opcode_query \<or> \<not> is_domain_name (en_lib E) (q_name q)")
    case True
    then show thesis using assms by (cases "m_response r \<or> m_opcode r \<noteq> opcode_query") (auto simp: resolve_body_def q intro: malformed)
  next
    case ok: False
    obtain a s1 where f: "stage_filter E now cl r q resp s = (a, s1)" by (cases "stage_filter E now cl r q resp s")
    show thesis
      using assms ok f q
      by (cases "stage_local E cl ip deeper path r q resp s"; cases a) (auto simp: resolve_body_def intro: here filtered upstream)
  qed
qed

lemma resolve_body_replies:
  assumes "resolve_body E now cl ip deeper r resp path s = (res, m, s')"
  shows "replies r resp m"
  using assms
proof (cases rule: resolve_body_cases)
  case (filtered q s1)
  then show ?thesis by (auto simp: stage_filter_def Let_def split: option.splits if_splits prod.splits)
next
  case (upstream q s1)
  then show ?thesis by (auto simp: stage_upstream_def Let_def dest: resolve_via_replies split: prod.splits)
qed (auto simp: format_error_def dest: stage_local_replies)

lemma resolve_replies: "resolve E now cl ip n r resp path s = (res, m, s') \<Longrightarrow> replies r resp m"
  by (cases n) (auto dest: resolve_body_replies)


text \<open>C2: Whatever the path of a query through the pipeline, the client, the upstreams and the settings, a
  message that is sent back is the DNS reply to that query: the id, the question and the flags are
  those SetReply gives it, recursion is offered, and it carries an OPT record only if the query did, with
  the client's DO bit and a buffer size between 512 and 1232 bytes.\<close>

theorem answer_is_reply:
  assumes "lib_ok (en_lib E)"
  shows "case rp_msg (fst (resolve_query E now elapsed r client_ip s)) of None \<Rightarrow> True
    | Some m \<Rightarrow> header m = header ((set_reply (en_lib E) r)\<lparr>m_ra := True\<rparr>) \<and> m_id m = m_id r \<and>
        (case m_opt m of None \<Rightarrow> True
         | Some p \<Rightarrow> m_opt r \<noteq> None \<and> map_option o_do (m_opt r) = Some (o_do p) \<and>
             512 \<le> unat (o_udp_size p) \<and> unat (o_udp_size p) \<le> 1232)"
proof -
  let ?base = "(set_reply (en_lib E) r)\<lparr>m_ra := True\<rparr>"
  have hop: "hop_opt r ?base" using assms by (simp add: hop_opt_def lib_ok_def)
  have ans: "replies r ?base m" if rp: "rp_msg (fst (answer_query E now elapsed r client_ip s1)) = Some m" for m s1
  proof -
    obtain res m0 s2 where run: "resolve E now (client_of E client_ip) client_ip max_chain_depth r ?base [] s1 = (res, m0, s2)"
      by (cases "resolve E now (client_of E client_ip) client_ip max_chain_depth r ?base [] s1") auto
    define m1 where "m1 = (case re_ede res of None \<Rightarrow> m0 | Some (code, txt_msg) \<Rightarrow> add_extended_error r code txt_msg m0)"
    have "replies r ?base m0" by (rule resolve_replies [OF run])
    then have m1: "replies r ?base m1" by (auto simp: m1_def split: option.split)
    moreover have "m = m1 \<or> m = m1\<lparr>m_answer := strip_ipv6_hints (m_answer m1)\<rparr>"
      using rp run by (auto simp: answer_query_def Let_def m1_def)
    ultimately show ?thesis using replies_trans [OF m1 replies_sections(2)] by blast
  qed
  obtain b s1 where rl: "rate_limited now client_ip s = (b, s1)" by (cases "rate_limited now client_ip s")
  have shape: "replies r ?base m" if "rp_msg (fst (resolve_query E now elapsed r client_ip s)) = Some m" for m
  proof (cases b)
    case True
    have "replies r ?base (?base\<lparr>m_rcode := rcode_refused\<rparr>)" by (rule replies_sections)
    then have "replies r ?base (add_extended_error r ede_prohibited ''rate limit exceeded''
        (set_response_extra r [] (?base\<lparr>m_rcode := rcode_refused\<rparr>)))" by (intro replies_chain)
    with that True show ?thesis by (auto simp: resolve_query_def rl dropped_def Let_def split: if_splits)
  next
    case False
    with that ans show ?thesis by (auto simp: resolve_query_def rl dropped_def split: if_splits)
  qed
  have id: "m_id ?base = m_id r" using assms by (simp add: lib_ok_def)
  show ?thesis
  proof (cases "rp_msg (fst (resolve_query E now elapsed r client_ip s))")
    case (Some m)
    from shape [OF Some] hop have h: "header m = header ?base" "hop_opt r m" by (simp_all add: replies_def)
    from h(1) id have "m_id m = m_id r" by (simp add: header_def)
    with h client_udp_size_bounds [of "Some r"] show ?thesis
      by (simp add: Some hop_opt_def split: option.splits)
  qed simp
qed

definition demo_live :: "string \<Rightarrow> policy option \<Rightarrow> live_config" where
  "demo_live mode p = \<lparr>lc_mode = mode, lc_custom4 = [], lc_custom6 = [], lc_blocked_ttl = 0, lc_policy = p,
     lc_acl = \<lparr>ac_allowed = [], ac_allowed_configured = False, ac_disallowed = [Net4 0xcb007100 24], ac_rate_allowlist = []\<rparr>,
     lc_qps = 0, lc_internal_qps = 0, lc_rate_ede = False, lc_prefix4 = 32, lc_prefix6 = 128, lc_private_ptr = False,
     lc_ptr_upstreams = [], lc_client_hostnames = False, lc_dnssec = False\<rparr>"

definition query_env :: "int env" where
  "query_env = \<lparr>en_lib = demo_lib, en_regex = demo_regex, en_network = demo_network, en_urls = demo_url_lib, en_etld1 = (\<lambda>_. None),
     en_await = (\<lambda>_. empty_result), en_rewrites = None, en_static = [], en_magic = None, en_magic_ttl = 0, en_routes = None,
     en_clients = None, en_alias = None, en_hostname = None, en_node = ''n'', en_upstreams = [''9.9.9.9:53''], en_health = [],
     en_emit = True\<rparr>"

definition demo_server :: "live_config \<Rightarrow> engine option \<Rightarrow> int server" where
  "demo_server c e = \<lparr>sv_cfg = c, sv_flow = demo_flow, sv_uplink = \<lparr>ul_pool = None, ul_world = 0, ul_bogus_hits = 0\<rparr>,
     sv_filter = e, sv_limiter = new_limiter 0, sv_rewrite_hits = 0, sv_safe_hits = 0, sv_rate_dropped = 0,
     sv_acl_dropped = 0, sv_allow_dropped = 0\<rparr>"

definition demo_any :: msg where
  "demo_any = demo_request\<lparr>m_question := [\<lparr>q_name = ''a.'', q_type = type_ANY, q_class = class_INET\<rparr>]\<rparr>"

lemma resolve_top: "resolve E now cl ip max_chain_depth = resolve_body E now cl ip (Some (resolve E now cl ip 7))"
proof -
  have "max_chain_depth = Suc 7" by (simp add: max_chain_depth_def)
  then show ?thesis by (metis resolve.simps(2))
qed

lemma demo_admitted: "cidr_list_contains [Net4 0xcb007100 24] ''::1'' = False"
  by (simp add: cidr_list_contains_def parse_ip_def parse_addr_def) code_simp

text \<open>An ANY query under the refusing policy is answered, with an OPT record.\<close>

theorem answer_is_reply_witness:
  "\<exists>m. rp_msg (fst (resolve_query query_env 0 0 demo_any ''::1'' (demo_server (demo_live ''nxdomain''
        (Some \<lparr>po_engines = [], po_bogus = [], po_aaaa_disabled = False, po_refuse_any = True\<rparr>)) None))) = Some m \<and>
     m_id m = 3 \<and> m_rcode m = rcode_refused"
proof -
  let ?s = "demo_server (demo_live ''nxdomain'' (Some \<lparr>po_engines = [], po_bogus = [], po_aaaa_disabled = False, po_refuse_any = True\<rparr>)) None"
  have lib: "lib_ok (en_lib query_env)" by (simp add: query_env_def demo_lib_ok)
  let ?base = "(set_reply (en_lib query_env) demo_any)\<lparr>m_ra := True\<rparr>"
  have cl: "client_of query_env ''::1'' = None" by (simp add: client_of_def query_env_def)
  have q: "m_question demo_any = [\<lparr>q_name = ''a.'', q_type = type_ANY, q_class = class_INET\<rparr>]" "\<not> m_response demo_any"
    "m_opcode demo_any = opcode_query" "is_domain_name (en_lib query_env) ''a.''" "\<not> hint_type demo_any"
    by (simp_all add: demo_any_def demo_request_def empty_msg_def opcode_query_def query_env_def demo_lib_def hint_type_def type_defs)
  have run: "\<exists>m res. resolve query_env 0 None ''::1'' max_chain_depth demo_any ?base [] ?s = (res, m, ?s) \<and> m_rcode m = rcode_refused \<and> re_ede res = None"
    by (simp add: resolve_top resolve_body_def q stage_local_def refuse_any_enabled_def demo_server_def demo_live_def no_resolution_def)
  have "fst (rate_limited 0 ''::1'' ?s) = False" "snd (rate_limited 0 ''::1'' ?s) = ?s"
    by (simp_all add: rate_limited_def demo_server_def demo_live_def cidr_list_contains_def allow_at_rate_def query_rate_def Let_def split: option.split)
  then have "resolve_query query_env 0 0 demo_any ''::1'' ?s = answer_query query_env 0 0 demo_any ''::1'' ?s"
    by (simp add: resolve_query_def acl_drop_def acl_allowlist_drop_def demo_server_def demo_live_def demo_admitted split_def)
  then have "\<exists>m. rp_msg (fst (resolve_query query_env 0 0 demo_any ''::1'' ?s)) = Some m \<and> m_rcode m = rcode_refused"
    using run by (auto simp: answer_query_def cl q Let_def)
  then obtain m where "rp_msg (fst (resolve_query query_env 0 0 demo_any ''::1'' ?s)) = Some m" "m_rcode m = rcode_refused" by blast
  with answer_is_reply [OF lib, where r = demo_any and client_ip = "''::1''" and s = ?s and now = 0 and elapsed = 0]
  show ?thesis by (simp add: demo_any_def demo_request_def)
qed

section \<open>What a query may cost\<close>

definition hits :: "'w server \<Rightarrow> nat" where
  "hits s = sv_rewrite_hits s + sv_safe_hits s"

text \<open>At most n local hits and at most one fetch for a message with the request's id and options.\<close>

definition one_fetch :: "'w env \<Rightarrow> live_config \<Rightarrow> msg \<Rightarrow> 'w uplink \<Rightarrow> 'w uplink \<Rightarrow> bool" where
  "one_fetch E c r u u' \<longleftrightarrow> u' = u \<or> (\<exists>r' specs. m_id r' = m_id r \<and> m_opt r' = m_opt r \<and>
     u' = snd (fetch_upstream_result (en_lib E) (en_network E) (en_urls E) (forward_env_of E c) r' specs u))"

lemma one_fetch_refl [simp]: "one_fetch E c r u u"
  by (simp add: one_fetch_def)

lemma one_fetch_made: "one_fetch E c r u (snd (fetch_upstream_result (en_lib E) (en_network E) (en_urls E) (forward_env_of E c) r specs u))"
  unfolding one_fetch_def by blast

lemma one_fetch_sub: "m_id r' = m_id r \<Longrightarrow> m_opt r' = m_opt r \<Longrightarrow> one_fetch E c r' u u' = one_fetch E c r u u'"
  by (simp add: one_fetch_def)

definition costs :: "nat \<Rightarrow> 'w env \<Rightarrow> msg \<Rightarrow> 'w server \<Rightarrow> 'w server \<Rightarrow> bool" where
  "costs n E r s s' \<longleftrightarrow> sv_cfg s' = sv_cfg s \<and> sv_limiter s' = sv_limiter s \<and> hits s' \<le> hits s + n \<and>
     sv_rate_dropped s' = sv_rate_dropped s \<and> sv_acl_dropped s' = sv_acl_dropped s \<and> sv_allow_dropped s' = sv_allow_dropped s \<and>
     one_fetch E (sv_cfg s) r (sv_uplink s) (sv_uplink s')"

lemma costs_refl [simp]: "costs n E r s s"
  by (simp add: costs_def)

lemma costs_mono: "costs n E r s s' \<Longrightarrow> n \<le> k \<Longrightarrow> costs k E r s s'"
  by (auto simp: costs_def)

lemma costs_hit:
  assumes "costs n E r' s1 s'" and "m_id r' = m_id r" "m_opt r' = m_opt r"
    and "s1 = s\<lparr>sv_rewrite_hits := Suc (sv_rewrite_hits s)\<rparr> \<or> s1 = s\<lparr>sv_safe_hits := Suc (sv_safe_hits s)\<rparr>"
  shows "costs (Suc n) E r s s'"
  using assms(1,4) unfolding costs_def one_fetch_sub [OF assms(2,3)] by (auto simp: hits_def)

definition bounded_deeper :: "nat \<Rightarrow> 'w env \<Rightarrow> 'w deeper \<Rightarrow> bool" where
  "bounded_deeper n E deeper \<longleftrightarrow> (\<forall>run a b p s. deeper = Some run \<longrightarrow> costs n E a s (snd (snd (run a b p s))))"

lemma chase_costs:
  assumes "chase_cname L deeper path r q resp target rule label reason s1 = (res, m, s')"
    and "bounded_deeper n E deeper"
    and "s1 = s\<lparr>sv_rewrite_hits := Suc (sv_rewrite_hits s)\<rparr> \<or> s1 = s\<lparr>sv_safe_hits := Suc (sv_safe_hits s)\<rparr>"
  shows "costs (Suc n) E r s s'"
proof -
  have self: "costs (Suc n) E r s s1" using assms(3) by (auto simp: costs_def hits_def)
  have sub: "m_id (sub_query L r q t) = m_id r" "m_opt (sub_query L r q t) = m_opt r" for t
    by (simp_all add: sub_query_def)
  show ?thesis
  proof (cases deeper)
    case None
    with assms(1) self show ?thesis by (auto simp: chase_cname_def Let_def split: if_splits)
  next
    case (Some run)
    obtain r1 m1 s2 where run: "run (sub_query L r q target) ((set_reply L (sub_query L r q target))\<lparr>m_ra := True\<rparr>)
        (normalize_name (q_name q) # path) s1 = (r1, m1, s2)"
      by (cases "run (sub_query L r q target) ((set_reply L (sub_query L r q target))\<lparr>m_ra := True\<rparr>)
        (normalize_name (q_name q) # path) s1") auto
    have "s' = s1 \<or> s' = s2"
      using assms(1) by (auto simp: chase_cname_def Some run Let_def split: if_splits)
    moreover have "costs n E (sub_query L r q target) s1 s2"
      using assms(2) Some run unfolding bounded_deeper_def by (metis snd_conv)
    ultimately show ?thesis using self costs_hit [OF _ sub assms(3)] by blast
  qed
qed

lemma stage_local_costs:
  assumes "stage_local E cl ip deeper path r q resp s = Some (res, m, s')"
    and "bounded_deeper n E deeper"
  shows "costs (Suc n) E r s s'"
proof -
  have one: "costs (Suc n) E r s (s\<lparr>sv_rewrite_hits := Suc (sv_rewrite_hits s)\<rparr>)"
    "costs (Suc n) E r s (s\<lparr>sv_safe_hits := Suc (sv_safe_hits s)\<rparr>)"
    by (auto simp: costs_def hits_def)
  have rw: "costs (Suc n) E r s s'" if "stage_rewrites E ip deeper path r q resp s = Some (res, m, s')"
    using that one unfolding stage_rewrites_def Let_def
    by (auto split: option.splits if_splits dest!: chase_costs [OF _ assms(2)])
  have safe: "costs (Suc n) E r s s'" if "stage_safe_search E cl deeper path r q resp s = Some (res, m, s')"
    using that one unfolding stage_safe_search_def Let_def
    by (auto split: if_splits dest!: chase_costs [OF _ assms(2)])
  show ?thesis
    using assms(1) rw safe
    by (auto simp: stage_local_def stage_magic_dns_def stage_private_ptr_def Let_def split: if_splits option.splits)
qed

lemma stage_filter_frames:
  fixes s :: "'a server"
  assumes "stage_filter E now cl r q resp s = (a, s1)"
  shows "\<exists>e. s1 = s\<lparr>sv_filter := e\<rparr>" and "a = Some (res, m, s2) \<Longrightarrow> s2 = s1"
proof -
  have same: "\<exists>e. t = t\<lparr>sv_filter := e\<rparr>" for t :: "'a server" by (rule exI [of _ "sv_filter t"]) simp
  have "s1 = s \<or> (\<exists>e. s1 = s\<lparr>sv_filter := e\<rparr>)"
    using assms unfolding stage_filter_def Let_def by (auto split: option.splits if_splits prod.splits)
  then show "\<exists>e. s1 = s\<lparr>sv_filter := e\<rparr>" using same [of s] by blast
  show "a = Some (res, m, s2) \<Longrightarrow> s2 = s1"
    using assms unfolding stage_filter_def Let_def by (auto split: option.splits if_splits prod.splits)
qed

lemma resolve_via_uplink:
  assumes "resolve_via_cache_or_upstream fetch await now r key specs resp f p = (res, m, f1, p1)"
  shows "p1 = p \<or> p1 = snd (fetch p)"
  using assms by (cases rule: resolve_via_cases) simp_all

lemma stage_upstream_costs: "costs n E r s (snd (snd (stage_upstream E now cl r q resp s)))"
  by (auto simp: stage_upstream_def costs_def hits_def Let_def one_fetch_made dest!: resolve_via_uplink split: prod.split)

lemma resolve_body_costs:
  assumes "bounded_deeper n E deeper"
  shows "costs (Suc n) E r s (snd (snd (resolve_body E now cl ip deeper r resp path s)))"
proof -
  have flt: "costs k E r (s\<lparr>sv_filter := e\<rparr>) t = costs k E r s t" for e t k
    by (simp add: costs_def hits_def)
  obtain res m s' where run: "resolve_body E now cl ip deeper r resp path s = (res, m, s')"
    by (cases "resolve_body E now cl ip deeper r resp path s") auto
  then have "costs (Suc n) E r s s'"
  proof (cases rule: resolve_body_cases)
    case (here q)
    then show ?thesis using stage_local_costs assms by blast
  next
    case (filtered q s1)
    then obtain e where "s' = s\<lparr>sv_filter := e\<rparr>" using stage_filter_frames by metis
    then show ?thesis by (simp add: costs_def hits_def)
  next
    case (upstream q s1)
    then obtain e where "s1 = s\<lparr>sv_filter := e\<rparr>" using stage_filter_frames by metis
    then show ?thesis using upstream stage_upstream_costs [of "Suc n" E r s1 now cl q resp] by (simp add: flt)
  qed simp
  with run show ?thesis by simp
qed

lemma resolve_costs: "costs (Suc n) E r s (snd (snd (resolve E now cl ip n r resp path s)))"
  by (induction n arbitrary: r resp path s) (auto simp: bounded_deeper_def intro!: resolve_body_costs)

text \<open>C3: Whatever rewrites, safe-search targets and CNAMEs are configured, loops among them included, a
  query is answered after at most nine local rewrites, costs at most one exchange with the upstreams,
  made with its own id and EDNS options, and changes no settings.\<close>

theorem one_exchange_per_query:
  "let s' = snd (resolve_query E now elapsed r client_ip s)
   in sv_cfg s' = sv_cfg s \<and> hits s' \<le> hits s + 9 \<and> one_fetch E (sv_cfg s) r (sv_uplink s) (sv_uplink s')"
proof -
  have a: "costs 9 E r s1 (snd (answer_query E now elapsed r client_ip s1))" for s1
    using resolve_costs [of max_chain_depth E r s1 now "client_of E client_ip" client_ip "(set_reply (en_lib E) r)\<lparr>m_ra := True\<rparr>" "[]"]
    by (auto simp: answer_query_def Let_def max_chain_depth_def split: prod.split)
  have l: "sv_cfg s1 = sv_cfg s" "hits s1 = hits s" "sv_uplink s1 = sv_uplink s" if "rate_limited now client_ip s = (b, s1)" for b s1
    using that by (auto simp: rate_limited_def hits_def Let_def split: if_splits prod.splits)
  obtain b s1 where rl: "rate_limited now client_ip s = (b, s1)" by (cases "rate_limited now client_ip s")
  show ?thesis
    using a [of s1] l [OF rl]
    by (auto simp: resolve_query_def rl Let_def costs_def hits_def split: bool.split)
qed


section \<open>Admission\<close>

text \<open>C14: A client on the deny list, outside a configured allow list, or over its rate gets no answer,
  except the REFUSED an operator opted into for EDNS queries; its query touches no cache, no
  upstream, no filter statistics and no event; every other client is answered; and the listeners
  drop external clients unless an allow list is configured, whatever the lists say.\<close>

theorem denied_clients_learn_nothing:
  "let c = sv_cfg s; (rp, s') = resolve_query E now elapsed r client_ip s;
       denied = acl_drop (lc_acl c) client_ip \<or> acl_allowlist_drop (lc_acl c) client_ip \<or> fst (rate_limited now client_ip s);
       opted = lc_rate_ede c \<and> m_opt r \<noteq> None \<and> \<not> acl_drop (lc_acl c) client_ip \<and> \<not> acl_allowlist_drop (lc_acl c) client_ip
   in (rp_msg rp = None \<longleftrightarrow> denied \<and> \<not> opted) \<and>
      (if denied then sv_flow s' = sv_flow s \<and> sv_uplink s' = sv_uplink s \<and> sv_filter s' = sv_filter s \<and> rp_event rp = None \<and>
         sv_acl_dropped s' + sv_allow_dropped s' + sv_rate_dropped s' = Suc (sv_acl_dropped s + sv_allow_dropped s + sv_rate_dropped s)
       else True) \<and>
      (if \<not> ac_allowed_configured (lc_acl c) \<and> \<not> is_internal_client_ip client_ip
       then rp_msg (fst (serve_dns E now elapsed udp r client_ip s)) = None else True)"
proof -
  obtain b s1 where rl: "rate_limited now client_ip s = (b, s1)" by (cases "rate_limited now client_ip s")
  have fr: "sv_flow s1 = sv_flow s" "sv_uplink s1 = sv_uplink s" "sv_filter s1 = sv_filter s" "sv_cfg s1 = sv_cfg s"
    "sv_acl_dropped s1 = sv_acl_dropped s" "sv_allow_dropped s1 = sv_allow_dropped s" "sv_rate_dropped s1 = sv_rate_dropped s"
    using rl by (auto simp: rate_limited_def Let_def split: if_splits prod.splits)
  have some: "rp_msg (fst (answer_query E now elapsed r client_ip s1)) \<noteq> None"
    by (simp add: answer_query_def Let_def split: prod.split)
  have drop: "\<not> ac_allowed_configured (lc_acl (sv_cfg s)) \<and> \<not> is_internal_client_ip client_ip \<Longrightarrow>
      rp_msg (fst (serve_dns E now elapsed udp r client_ip s)) = None"
    by (simp add: serve_dns_def default_acl_drop_def dropped_def)
  obtain rp s2 where q: "resolve_query E now elapsed r client_ip s = (rp, s2)" by (cases "resolve_query E now elapsed r client_ip s")
  consider "acl_drop (lc_acl (sv_cfg s)) client_ip"
    | "\<not> acl_drop (lc_acl (sv_cfg s)) client_ip" "acl_allowlist_drop (lc_acl (sv_cfg s)) client_ip"
    | "\<not> acl_drop (lc_acl (sv_cfg s)) client_ip" "\<not> acl_allowlist_drop (lc_acl (sv_cfg s)) client_ip" by blast
  then show ?thesis
  proof cases
    case 3
    have a: "answer_query E now elapsed r client_ip s1 = (rp, s2)" if "\<not> b" using that q 3 by (simp add: resolve_query_def rl)
    show ?thesis
    proof (cases b)
      case True
      then show ?thesis using q 3 fr drop by (auto simp: resolve_query_def rl dropped_def Let_def split: if_splits)
    next
      case False
      then show ?thesis using q 3 some drop by (simp add: a rl Let_def)
    qed
  qed (use q drop in \<open>auto simp: resolve_query_def dropped_def Let_def\<close>)
qed

end
