(* ===== verification/Server_Claims.thy ===== *)
theory Server_Claims
  imports Query_Claims
begin

text \<open>
  Properties that span the whole server: blocked names stay local, closed CNAME rewrites fail
  closed, a repeated query is answered from the cache, new settings take effect at once, and every
  sequence of operations keeps the state of the server within its bounds.
\<close>

section \<open>Passing the local stages\<close>

text \<open>Whether a query passes the local stages does not depend on the depth, the path or the message so far.\<close>

definition passes_local :: "'w env \<Rightarrow> client option \<Rightarrow> string \<Rightarrow> question \<Rightarrow> 'w server \<Rightarrow> bool" where
  "passes_local E cl ip q s \<longleftrightarrow>
     \<not> (refuse_any_enabled (lc_policy (sv_cfg s)) \<and> q_type q = type_ANY) \<and>
     \<not> (aaaa_disabled_enabled (lc_policy (sv_cfg s)) \<and> q_type q = type_AAAA) \<and>
     stage_rewrites E ip None [] empty_msg q empty_msg s = None \<and> stage_magic_dns E q empty_msg s = None \<and>
     stage_private_ptr E q empty_msg s = None \<and> safe_target E (sv_cfg s) cl (normalize_name (q_name q)) = []"

lemma stage_local_passes: "stage_local E cl ip deeper path r q resp s = None \<longleftrightarrow> passes_local E cl ip q s"
proof -
  have rw: "stage_rewrites E ip deeper path r q resp s = None \<longleftrightarrow> stage_rewrites E ip None [] empty_msg q empty_msg s = None"
    unfolding stage_rewrites_def Let_def by (auto split: option.splits)
  have mg: "stage_magic_dns E q resp s = None \<longleftrightarrow> stage_magic_dns E q empty_msg s = None"
    unfolding stage_magic_dns_def Let_def by (auto split: option.splits)
  have pt: "stage_private_ptr E q resp s = None \<longleftrightarrow> stage_private_ptr E q empty_msg s = None"
    unfolding stage_private_ptr_def Let_def by (auto split: option.splits)
  have ss: "stage_safe_search E cl deeper path r q resp s = None \<longleftrightarrow> safe_target E (sv_cfg s) cl (normalize_name (q_name q)) = []"
    by (cases "safe_target E (sv_cfg s) cl (normalize_name (q_name q)) = []"; cases "chased_type (q_type q)")
      (simp_all add: stage_safe_search_def Let_def)
  show ?thesis
    unfolding stage_local_def passes_local_def
    by (cases "stage_rewrites E ip deeper path r q resp s"; cases "stage_magic_dns E q resp s";
        cases "stage_private_ptr E q resp s") (use rw mg pt ss in auto)
qed

lemma passes_local_cfg:
  assumes "sv_cfg s' = sv_cfg s"
  shows "passes_local E cl ip q s' = passes_local E cl ip q s"
proof -
  have "stage_rewrites E ip None [] empty_msg q empty_msg s' = None \<longleftrightarrow> stage_rewrites E ip None [] empty_msg q empty_msg s = None"
    unfolding stage_rewrites_def Let_def by (auto split: option.splits)
  moreover have "stage_magic_dns E q empty_msg s' = None \<longleftrightarrow> stage_magic_dns E q empty_msg s = None"
    unfolding stage_magic_dns_def Let_def by (auto split: option.splits)
  moreover have "stage_private_ptr E q empty_msg s' = None \<longleftrightarrow> stage_private_ptr E q empty_msg s = None"
    unfolding stage_private_ptr_def Let_def by (auto simp: assms split: option.splits)
  ultimately show ?thesis by (simp add: passes_local_def assms)
qed

definition plain_query :: "'w env \<Rightarrow> msg \<Rightarrow> question \<Rightarrow> bool" where
  "plain_query E r q \<longleftrightarrow> m_question r = [q] \<and> \<not> m_response r \<and> m_opcode r = opcode_query \<and> is_domain_name (en_lib E) (q_name q)"

text \<open>A query that no local stage answers goes to the filter and then upstream, at any depth.\<close>

lemma resolve_passes:
  assumes "plain_query E r q" and "passes_local E cl ip q s"
  shows "resolve E now cl ip n r resp path s =
     (case stage_filter E now cl r q resp s of (Some a, _) \<Rightarrow> a | (None, s1) \<Rightarrow> stage_upstream E now cl r q resp s1)"
proof -
  have "resolve_body E now cl ip d r resp path s =
     (case stage_filter E now cl r q resp s of (Some a, _) \<Rightarrow> a | (None, s1) \<Rightarrow> stage_upstream E now cl r q resp s1)" for d
    using assms(1) assms(2) [folded stage_local_passes [of E cl ip d path r q resp s]]
    by (simp add: resolve_body_def plain_query_def)
  then show ?thesis by (cases n) simp_all
qed

section \<open>Blocked names\<close>

text \<open>The answer to a blocked question, by blocking mode.\<close>

definition blocked_rcode :: "live_config \<Rightarrow> nat" where
  "blocked_rcode c = (if lc_mode c = ''refused'' then rcode_refused
     else if lc_mode c \<in> {''null_ip'', ''custom_ip''} then rcode_success else rcode_name_error)"

definition null_answer :: "live_config \<Rightarrow> question \<Rightarrow> rr list" where
  "null_answer c q = List.map (\<lambda>d. \<lparr>rr_name = q_name q, rr_type = q_type q, rr_class = class_INET,
       rr_ttl = (if lc_blocked_ttl c = 0 then 60 else lc_blocked_ttl c), rr_data = d\<rparr>)
     (if q_type q = type_A then [RD_A (Some 0)] else if q_type q = type_AAAA then [RD_AAAA (Some 0)] else [])"

lemma null_ips: "parse_ip ''0.0.0.0'' = Some (v4_in_v6 0)" "parse_ip ''::'' = Some 0" "to4 (v4_in_v6 0) = Some 0"
proof -
  show "parse_ip ''0.0.0.0'' = Some (v4_in_v6 0)" by (simp add: parse_ip_def) code_simp
  show "parse_ip ''::'' = Some 0" by (simp add: parse_ip_def) code_simp
  show "to4 (v4_in_v6 0) = Some 0" by code_simp
qed

lemma blocked_answer:
  assumes "lib_ok (en_lib E)"
  shows "m_rcode (blocked_response E c r q) = blocked_rcode c"
    and "lc_mode c \<noteq> ''custom_ip'' \<Longrightarrow> m_answer (blocked_response E c r q) = (if lc_mode c = ''null_ip'' then null_answer c q else [])"
  using assms null_ips
  by (auto simp: blocked_response_def blocked_rcode_def null_answer_def block_ips_def lib_ok_def static_ttl_def Let_def
      type_defs split: option.splits)

text \<open>C4: A name that the current filter rules block (some block rule matches, no exception does), asked by a
  client with filtering on, while filtering is not paused, and not answered by a local stage, is answered
  as the blocking mode says (NXDOMAIN, REFUSED, or the null addresses with the configured TTL), and
  neither the cache nor the upstreams see the query.\<close>

theorem blocked_name_stays_local:
  assumes "lib_ok (en_lib E)" and "plain_query E r q" and "passes_local E cl ip q s"
    and "sv_filter s = Some e" and "filtering_enabled_for cl" and "\<not> paused now e"
    and "e = fold (filter_step env) ops new_engine" and "e_depth e = 0" and "e_pending e = []"
    and "\<forall>x \<in> set (ordered_rules (e_sources e) (e_allow e)). \<not> rule_matches (en_regex E) (snd x) (normalize_name (q_name q))"
    and "\<exists>x \<in> set (ordered_rules (e_sources e) (e_block e)). rule_matches (en_regex E) (snd x) (normalize_name (q_name q))"
  shows "\<exists>res m s'. resolve E now cl ip n r resp path s = (res, m, s') \<and> re_blocked res \<and>
     sv_flow s' = sv_flow s \<and> sv_uplink s' = sv_uplink s \<and> m_rcode m = blocked_rcode (sv_cfg s) \<and>
     (if lc_mode (sv_cfg s) \<noteq> ''custom_ip''
      then m_answer m = (if lc_mode (sv_cfg s) = ''null_ip'' then null_answer (sv_cfg s) q else []) else True)"
proof -
  let ?f = "match_domain (en_regex E) (normalize_name (q_name q)) e"
  have b: "rs_blocked (fst ?f)"
    using settled_decision [OF assms(7-9), of "en_regex E" "normalize_name (q_name q)"] assms(10,11) by blast
  then have "\<not> rs_allowed (fst ?f)"
    by (auto simp: match_domain_def allow_result_def block_result_def no_result_def split: option.splits)
  with b show ?thesis
    using blocked_answer [OF assms(1), of "sv_cfg s" r q] assms(5,6)
    by (simp add: resolve_passes [OF assms(2,3)] stage_filter_def assms(4) Let_def split_def)
qed

definition ads_query :: msg where
  "ads_query = demo_request\<lparr>m_question := [\<lparr>q_name = ''www.ads.x.'', q_type = type_A, q_class = class_INET\<rparr>]\<rparr>"

theorem blocked_name_stays_local_witness:
  "\<exists>res m s'. resolve query_env 0 None ''::1'' 8 ads_query empty_msg [] (demo_server (demo_live ''null_ip'' None) (Some demo_engine)) = (res, m, s') \<and>
     re_blocked res \<and> m_answer m = [\<lparr>rr_name = ''www.ads.x.'', rr_type = type_A, rr_class = class_INET, rr_ttl = 60, rr_data = RD_A (Some 0)\<rparr>]"
proof -
  let ?q = "\<lparr>q_name = ''www.ads.x.'', q_type = type_A, q_class = class_INET\<rparr>" and ?c = "demo_live ''null_ip'' None"
  have lib: "lib_ok (en_lib query_env)" by (simp add: query_env_def demo_lib_ok)
  have pq: "plain_query query_env ads_query ?q"
    by (simp add: plain_query_def ads_query_def demo_request_def empty_msg_def query_env_def demo_lib_def opcode_query_def)
  have pl: "passes_local query_env None ''::1'' ?q (demo_server ?c (Some demo_engine))"
    by (simp add: passes_local_def demo_server_def demo_live_def refuse_any_enabled_def aaaa_disabled_enabled_def stage_rewrites_def
        query_env_def stage_magic_dns_def stage_private_ptr_def safe_target_def safe_search_target_def match_static_def)
  have n: "normalize_name ''www.ads.x.'' = ''www.ads.x''" by code_simp
  have np: "\<not> paused 0 demo_engine"
    by (simp add: paused_def demo_engine_def demo_ops_def demo_env_def add_source_def new_engine_def begin_batch_def
      load_source_def demo_source_def new_url_source_def demo_parse set_rules_status_def rules_changed_def
      grown_history_def loaded_source_def publish_def notify_change_def end_batch_def apply_build_def Let_def)
  have a: "\<forall>x \<in> set (ordered_rules (e_sources demo_engine) (e_allow demo_engine)).
      \<not> rule_matches (en_regex query_env) (snd x) (normalize_name (q_name ?q))"
    unfolding demo_engine_settled by (simp add: ordered_rules_def rules_of_def)
  have b: "\<exists>x \<in> set (ordered_rules (e_sources demo_engine) (e_block demo_engine)).
      rule_matches (en_regex query_env) (snd x) (normalize_name (q_name ?q))"
    unfolding demo_engine_settled n question.simps
    by (simp add: ordered_rules_def rules_of_def rule_matches_def match_domain_suffix_def has_suffix_def demo_rule_def)
  have f: "sv_filter (demo_server ?c (Some demo_engine)) = Some demo_engine" by (simp add: demo_server_def)
  from blocked_name_stays_local [OF lib pq pl f _ np demo_engine_def demo_engine_settled(1,2) a b, of 8 empty_msg "[]"]
  show ?thesis by (fastforce simp: filtering_enabled_for_def demo_server_def demo_live_def null_answer_def)
qed

section \<open>CNAME rewrites that never leave the store\<close>

text \<open>A set of names each of which is rewritten to another name of the set, by one CNAME.\<close>

definition closed_cnames :: "dns_lib \<Rightarrow> rw_store \<Rightarrow> string \<Rightarrow> string set \<Rightarrow> bool" where
  "closed_cnames L st ip D \<longleftrightarrow> (\<forall>d \<in> D. \<exists>e. lookup_for_client d ip st = [e] \<and> rw_type e = ''CNAME'' \<and>
     normalize_name (rw_value e) \<in> D \<and> is_domain_name L (fqdn L (rw_value e)) \<and>
     normalize_name (fqdn L (rw_value e)) = normalize_name (rw_value e))"

lemma closed_stage:
  assumes "en_rewrites E = Some st" and "closed_cnames (en_lib E) st ip D" and "normalize_name (q_name q) \<in> D"
    and "q_type q = type_A \<or> q_type q = type_AAAA"
  obtains e where "lookup_for_client (normalize_name (q_name q)) ip st = [e]" "normalize_name (rw_value e) \<in> D"
    "is_domain_name (en_lib E) (fqdn (en_lib E) (rw_value e))"
    "normalize_name (fqdn (en_lib E) (rw_value e)) = normalize_name (rw_value e)"
    "\<And>deeper path r resp s. stage_rewrites E ip deeper path r q resp s =
       Some (chase_cname (en_lib E) deeper path r q resp (rw_value e) (rw_string e) ''Rewrite'' ''Rewrite''
              (s\<lparr>sv_rewrite_hits := Suc (sv_rewrite_hits s)\<rparr>))"
proof -
  from assms(2,3) obtain e where e: "lookup_for_client (normalize_name (q_name q)) ip st = [e]" "rw_type e = ''CNAME''"
      "normalize_name (rw_value e) \<in> D" "is_domain_name (en_lib E) (fqdn (en_lib E) (rw_value e))"
      "normalize_name (fqdn (en_lib E) (rw_value e)) = normalize_name (rw_value e)"
    unfolding closed_cnames_def by blast
  have t: "q_type q \<noteq> type_CNAME" "chased_type (q_type q)" using assms(4) by (auto simp: type_defs chased_type_def)
  then have "rewrite_answers (en_lib E) q [e] = []" by (simp add: rewrite_answers_def e(2))
  then have "stage_rewrites E ip deeper path r q resp s =
       Some (chase_cname (en_lib E) deeper path r q resp (rw_value e) (rw_string e) ''Rewrite'' ''Rewrite''
              (s\<lparr>sv_rewrite_hits := Suc (sv_rewrite_hits s)\<rparr>))" for deeper path r resp s
    by (simp add: stage_rewrites_def assms(1) e(1,2) t Let_def)
  with e that show thesis by blast
qed

definition failed_closed :: "'w server \<Rightarrow> 'w answer \<Rightarrow> bool" where
  "failed_closed s a = (case a of (res, m, s') \<Rightarrow> re_reason res = ''CNAME_LOOP'' \<and> m_rcode m = rcode_server_failure \<and>
     re_ede res = Some (ede_other, ''CNAME loop detected'') \<and> sv_flow s' = sv_flow s \<and> sv_uplink s' = sv_uplink s \<and>
     sv_filter s' = sv_filter s \<and> sv_cfg s' = sv_cfg s)"

lemma failed_closed_counts: "failed_closed (s\<lparr>sv_rewrite_hits := k\<rparr>) a = failed_closed s a"
  by (simp add: failed_closed_def split: prod.split)

lemma closed_fails:
  assumes "en_rewrites E = Some st" and "closed_cnames (en_lib E) st ip D"
    and "plain_query E r q" "normalize_name (q_name q) \<in> D" "q_type q = type_A \<or> q_type q = type_AAAA"
    and "\<not> aaaa_disabled_enabled (lc_policy (sv_cfg s))"
  shows "failed_closed s (resolve E now cl ip n r resp path s)"
  using assms(3-6)
proof (induction n arbitrary: r q resp path s)
  case 0
  obtain e where e: "\<And>deeper path r resp s. stage_rewrites E ip deeper path r q resp s =
       Some (chase_cname (en_lib E) deeper path r q resp (rw_value e) (rw_string e) ''Rewrite'' ''Rewrite''
              (s\<lparr>sv_rewrite_hits := Suc (sv_rewrite_hits s)\<rparr>))"
    using closed_stage [OF assms(1,2) 0(2,3)] by metis
  have "q_type q \<noteq> type_ANY" using 0(3) by (auto simp: type_defs)
  with 0 show ?case
    by (auto simp: resolve_body_def plain_query_def stage_local_def e chase_cname_def failed_closed_def Let_def)
next
  case (Suc n)
  obtain e where e: "normalize_name (rw_value e) \<in> D" "is_domain_name (en_lib E) (fqdn (en_lib E) (rw_value e))"
    "normalize_name (fqdn (en_lib E) (rw_value e)) = normalize_name (rw_value e)"
    and st: "\<And>deeper path r resp s. stage_rewrites E ip deeper path r q resp s =
       Some (chase_cname (en_lib E) deeper path r q resp (rw_value e) (rw_string e) ''Rewrite'' ''Rewrite''
              (s\<lparr>sv_rewrite_hits := Suc (sv_rewrite_hits s)\<rparr>))"
    using closed_stage [OF assms(1,2) Suc.prems(2,3)] by metis
  let ?sub = "sub_query (en_lib E) r q (rw_value e)" and ?s1 = "s\<lparr>sv_rewrite_hits := Suc (sv_rewrite_hits s)\<rparr>"
  let ?sq = "\<lparr>q_name = fqdn (en_lib E) (rw_value e), q_type = q_type q, q_class = q_class q\<rparr>"
  have sub: "plain_query E ?sub ?sq"
    using Suc.prems(1) e(2) by (simp add: plain_query_def sub_query_def)
  have ih: "failed_closed ?s1 (resolve E now cl ip n ?sub resp' path' ?s1)" for resp' path'
    by (rule Suc.IH [OF sub]) (use e(1,3) Suc.prems in simp_all)
  have "q_type q \<noteq> type_ANY" using Suc.prems(3) by (auto simp: type_defs)
  then have "resolve E now cl ip (Suc n) r resp path s =
      chase_cname (en_lib E) (Some (resolve E now cl ip n)) path r q resp (rw_value e) (rw_string e) ''Rewrite'' ''Rewrite'' ?s1"
    using Suc.prems by (auto simp: resolve_body_def plain_query_def stage_local_def st)
  then show ?case
    using ih [of "(set_reply (en_lib E) ?sub)\<lparr>m_ra := True\<rparr>" "normalize_name (q_name q) # path"]
    by (auto simp: chase_cname_def Let_def failed_closed_def split: prod.splits)
qed

text \<open>C27: When CNAME rewrites form a loop, or a chain of any length inside a set of names that never leaves
  the store, an address query for any of these names is answered SERVFAIL (with the extended error
  for loops when the client speaks EDNS), without touching the cache, the filter or the upstreams.\<close>

theorem closed_rewrites_fail:
  assumes "en_rewrites E = Some st" and "closed_cnames (en_lib E) st ip D"
    and "plain_query E r q" "normalize_name (q_name q) \<in> D" "q_type q = type_A \<or> q_type q = type_AAAA"
    and "\<not> aaaa_disabled_enabled (lc_policy (sv_cfg s))"
  shows "case answer_query E now elapsed r ip s of (rp, s') \<Rightarrow>
     map_option m_rcode (rp_msg rp) = Some rcode_server_failure \<and>
     sv_flow s' = sv_flow s \<and> sv_uplink s' = sv_uplink s \<and> sv_filter s' = sv_filter s"
  using closed_fails [OF assms, of now "client_of E ip" max_chain_depth "(set_reply (en_lib E) r)\<lparr>m_ra := True\<rparr>" "[]"]
  by (auto simp: answer_query_def failed_closed_def Let_def split: prod.split)

definition loop_store :: rw_store where
  "loop_store = \<lparr>rs_has_path = False, rs_items =
     [\<lparr>rw_id = ''1'', rw_domain = ''a'', rw_type = ''CNAME'', rw_value = ''b'', rw_cidrs = [], rw_prefixes = []\<rparr>,
      \<lparr>rw_id = ''2'', rw_domain = ''b'', rw_type = ''CNAME'', rw_value = ''a'', rw_cidrs = [], rw_prefixes = []\<rparr>], rs_file = []\<rparr>"

theorem closed_rewrites_fail_witness:
  "map_option m_rcode (rp_msg (fst (answer_query (query_env\<lparr>en_rewrites := Some loop_store\<rparr>) 0 0 demo_request ''::1''
      (demo_server (demo_live ''nxdomain'' None) None)))) = Some rcode_server_failure"
proof -
  let ?E = "query_env\<lparr>en_rewrites := Some loop_store\<rparr>" and ?s = "demo_server (demo_live ''nxdomain'' None) None"
  have p: "parse_addr (trim_space ''::1'') = Some (A6 1 [])" by code_simp
  have l: "lookup_for_client ''a'' ''::1'' loop_store = [rs_items loop_store ! 0]"
    "lookup_for_client ''b'' ''::1'' loop_store = [rs_items loop_store ! 1]"
    unfolding lookup_for_client_def p by code_simp+
  have n: "normalize_name ''a'' = ''a''" "normalize_name ''b'' = ''b''" "normalize_name ''a.'' = ''a''" "normalize_name ''b.'' = ''b''"
    by code_simp+
  have lib: "is_domain_name (en_lib ?E) ''a.''" "is_domain_name (en_lib ?E) ''b.''" "fqdn (en_lib ?E) ''a'' = ''a.''" "fqdn (en_lib ?E) ''b'' = ''b.''"
    by (simp_all add: query_env_def demo_lib_def has_suffix_def)
  have c: "closed_cnames (en_lib ?E) loop_store ''::1'' {''a'', ''b''}"
    unfolding closed_cnames_def using l n lib by (auto simp: loop_store_def)
  have pq: "plain_query ?E demo_request \<lparr>q_name = ''a.'', q_type = type_A, q_class = class_INET\<rparr>"
    by (simp add: plain_query_def demo_request_def empty_msg_def query_env_def demo_lib_def opcode_query_def)
  have en: "en_rewrites ?E = Some loop_store" by simp
  have po: "\<not> aaaa_disabled_enabled (lc_policy (sv_cfg ?s))" by (simp add: demo_server_def demo_live_def aaaa_disabled_enabled_def)
  from closed_rewrites_fail [OF en c pq _ _ po, of 0 0] n show ?thesis by (simp add: split_def)
qed

section \<open>A repeated query\<close>

lemma match_domain_again: "fst (match_domain X d (snd (match_domain X d' e))) = fst (match_domain X d e)"
  by (auto simp: match_domain_def allow_result_def block_result_def source_name_def split: option.splits)

text \<open>The filter lets a name through.\<close>

definition filter_silent :: "'w env \<Rightarrow> question \<Rightarrow> 'w server \<Rightarrow> bool" where
  "filter_silent E q s \<longleftrightarrow> (case sv_filter s of None \<Rightarrow> True
     | Some e \<Rightarrow> \<not> rs_blocked (fst (match_domain (en_regex E) (normalize_name (q_name q)) e)))"

lemma silent_stage:
  assumes "filter_silent E q s"
  shows "\<exists>e. stage_filter E now cl r q resp s = (None, s\<lparr>sv_filter := e\<rparr>) \<and> filter_silent E q (s\<lparr>sv_filter := e\<rparr>)"
proof (cases "sv_filter s")
  case None
  have "s = s\<lparr>sv_filter := None\<rparr>" using None by (cases s) simp
  with None show ?thesis by (intro exI [of _ None]) (simp add: stage_filter_def filter_silent_def)
next
  case (Some e)
  have s: "s = s\<lparr>sv_filter := Some e\<rparr>" using Some by (cases s) simp
  let ?m = "match_domain (en_regex E) (normalize_name (q_name q)) e"
  have b: "\<not> rs_blocked (fst ?m)" using assms by (simp add: filter_silent_def Some)
  have "stage_filter E now cl r q resp s = (None, s) \<or> stage_filter E now cl r q resp s = (None, s\<lparr>sv_filter := Some (snd ?m)\<rparr>)"
    using b by (simp add: stage_filter_def Some Let_def split_def)
  then show ?thesis
  proof
    assume "stage_filter E now cl r q resp s = (None, s)"
    with s assms show ?thesis by metis
  next
    assume "stage_filter E now cl r q resp s = (None, s\<lparr>sv_filter := Some (snd ?m)\<rparr>)"
    with b show ?thesis by (intro exI [of _ "Some (snd ?m)"]) (simp add: filter_silent_def match_domain_again)
  qed
qed

definition upstream_specs :: "live_config \<Rightarrow> client option \<Rightarrow> question \<Rightarrow> string \<times> string list" where
  "upstream_specs c cl q = private_ptr_specs c q (client_upstream_group cl)"

definition query_key :: "'w env \<Rightarrow> live_config \<Rightarrow> msg \<Rightarrow> question \<Rightarrow> client option \<Rightarrow> cache_key" where
  "query_key E c r q cl = make_cache_key E r q (normalize_name (q_name q)) (fst (upstream_specs c cl q)) cl"

text \<open>C6: A query that no local stage answers and the filter lets through, and that leads a miss, is answered
  with the upstream's records; asked again by the same client within the lifetime of the stored
  answer, the whole pipeline answers from the cache: same code, same records with the remaining TTL,
  and the upstreams are not contacted.\<close>

theorem repeated_query_served_from_cache:
  assumes "plain_query E r q" and "passes_local E cl ip q s" and "filter_silent E q s"
    and "key = query_key E (sv_cfg s) r q cl" and "cache_inv (f_cache (sv_flow s))"
    and "gm_get (contents (f_cache (sv_flow s))) key = None" and "gm_get (f_miss (sv_flow s)) key = None"
    and "length (f_miss (sv_flow s)) < max_miss_flights" and "f_servfail_ttl (sv_flow s) \<le> second"
    and "fetch_upstream_result (en_lib E) (en_network E) (en_urls E) (forward_env_of E (sv_cfg s)) r
           (snd (upstream_specs (sv_cfg s) cl q)) (sv_uplink s) = (\<lparr>ur_upstream = u, ur_msg = Some m, ur_rule = rl, ur_reason = rs\<rparr>, up)"
    and "entry_for (sv_flow s) now False m = Some e" and "now \<le> t" and "t < now + lifetime (sv_flow s) e"
  shows "\<exists>res1 m1 s1 res2 m2 s2 ttl. resolve E now cl ip n r resp path s = (res1, m1, s1) \<and> m_answer m1 = m_answer m \<and>
     sv_uplink s1 = up \<and> resolve E t cl ip n r resp path s1 = (res2, m2, s2) \<and> re_cache_hit res2 \<and>
     sv_uplink s2 = up \<and> m_rcode m2 = m_rcode m1 \<and> m_answer m2 = with_ttl ttl (m_answer m)"
proof -
  let ?c = "sv_cfg s" and ?f = "sv_flow s"
  let ?fetch = "fetch_upstream_result (en_lib E) (en_network E) (en_urls E) (forward_env_of E ?c) r (snd (upstream_specs ?c cl q))"
  let ?via = "\<lambda>now f p. resolve_via_cache_or_upstream ?fetch (en_await E) now r key (snd (upstream_specs ?c cl q)) resp f p"
  obtain res1 m1 f1 res2 m2 f2 ttl where
    v1: "?via now ?f (sv_uplink s) = (res1, m1, f1, up)" "m_answer m1 = m_answer m" and
    v2: "?via t f1 up = (res2, m2, f2, up)" "re_cache_hit res2" "m_rcode m2 = m_rcode m1" "m_answer m2 = with_ttl ttl (m_answer m)"
    using lead_then_hit [where fetch = ?fetch and p = "sv_uplink s", OF assms(5-8,10,11,9,12,13)] by metis
  have up: "stage_upstream E now' cl r q resp s' = (res, m', s'\<lparr>sv_flow := f', sv_uplink := p'\<rparr>)"
    if "sv_cfg s' = ?c" "?via now' (sv_flow s') (sv_uplink s') = (res, m', f', p')" for now' s' res m' f' p'
    using that by (simp add: stage_upstream_def assms(4) query_key_def upstream_specs_def split_def Let_def)
  obtain e1 where e1: "stage_filter E now cl r q resp s = (None, s\<lparr>sv_filter := e1\<rparr>)" "filter_silent E q (s\<lparr>sv_filter := e1\<rparr>)"
    using silent_stage [OF assms(3)] by blast
  let ?s1 = "s\<lparr>sv_filter := e1, sv_flow := f1, sv_uplink := up\<rparr>"
  have r1: "resolve E now cl ip n r resp path s = (res1, m1, ?s1)"
    using up [of "s\<lparr>sv_filter := e1\<rparr>", simplified, OF v1(1)] by (simp add: resolve_passes [OF assms(1,2)] e1(1))
  have s1: "filter_silent E q ?s1" "passes_local E cl ip q ?s1"
    using e1(2) assms(2) passes_local_cfg [of ?s1 s] by (simp_all add: filter_silent_def)
  obtain e2 where e2: "stage_filter E t cl r q resp ?s1 = (None, ?s1\<lparr>sv_filter := e2\<rparr>)"
    using silent_stage [OF s1(1)] by blast
  have "resolve E t cl ip n r resp path ?s1 = (res2, m2, (?s1\<lparr>sv_filter := e2\<rparr>)\<lparr>sv_flow := f2, sv_uplink := up\<rparr>)"
    using up [of "?s1\<lparr>sv_filter := e2\<rparr>", simplified, OF v2(1)] by (simp add: resolve_passes [OF assms(1) s1(2)] e2)
  with r1 v1 v2 show ?thesis by fastforce
qed

text \<open>A network whose upstreams answer every question with one record.\<close>

definition answering_env :: "int env" where
  "answering_env = query_env\<lparr>en_network := demo_network\<lparr>plain_dial := (\<lambda>_ _ m w. (Some (m\<lparr>m_answer := [demo_rr]\<rparr>), w + 1))\<rparr>\<rparr>"

theorem repeated_query_served_from_cache_witness:
  "\<exists>res1 m1 s1 res2 m2 s2 ttl. resolve answering_env 0 None ''::1'' 8 demo_request empty_msg []
       (demo_server (demo_live ''nxdomain'' None) None) = (res1, m1, s1) \<and>
     resolve answering_env (89 * second) None ''::1'' 8 demo_request empty_msg [] s1 = (res2, m2, s2) \<and>
     ul_world (sv_uplink s1) = 1 \<and> ul_world (sv_uplink s2) = 1 \<and> m_answer m2 = with_ttl ttl [demo_rr]"
proof -
  let ?E = answering_env and ?s = "demo_server (demo_live ''nxdomain'' None) None"
  let ?q = "\<lparr>q_name = ''a.'', q_type = type_A, q_class = class_INET\<rparr>"
  let ?up = "\<lparr>ul_pool = None, ul_world = 1, ul_bogus_hits = 0\<rparr> :: int uplink"
  let ?m = "(upstream_query False 7 demo_request)\<lparr>m_answer := [demo_rr], m_id := 3\<rparr>"
  have pq: "plain_query ?E demo_request ?q"
    by (simp add: plain_query_def demo_request_def empty_msg_def answering_env_def query_env_def demo_lib_def opcode_query_def)
  have pl: "passes_local ?E None ''::1'' ?q ?s"
    by (simp add: passes_local_def demo_server_def demo_live_def refuse_any_enabled_def aaaa_disabled_enabled_def stage_rewrites_def
        answering_env_def query_env_def stage_magic_dns_def stage_private_ptr_def safe_target_def safe_search_target_def match_static_def)
  have fs: "filter_silent ?E ?q ?s" by (simp add: filter_silent_def demo_server_def)
  have fl: "sv_flow ?s = demo_flow" by (simp add: demo_server_def)
  have empty: "gm_get (contents (f_cache (sv_flow ?s))) k = None" "gm_get (f_miss (sv_flow ?s)) k = None"
    "length (f_miss (sv_flow ?s)) < max_miss_flights" for k
    unfolding fl by (simp_all add: demo_flow_def new_flow_ok(2)) (simp_all add: new_flow_def max_miss_flights_def)
  have specs: "snd (upstream_specs (sv_cfg ?s) None ?q) = []"
    by (simp add: upstream_specs_def private_ptr_specs_def client_upstream_group_def type_defs)
  have fetch: "fetch_upstream_result (en_lib ?E) (en_network ?E) (en_urls ?E) (forward_env_of ?E (sv_cfg ?s)) demo_request
       (snd (upstream_specs (sv_cfg ?s) None ?q)) (sv_uplink ?s) =
     (\<lparr>ur_upstream = ''9.9.9.9:53'', ur_msg = Some ?m, ur_rule = [], ur_reason = []\<rparr>, ?up)"
    unfolding specs
    by (simp add: fetch_upstream_result_def forward_def answering_env_def query_env_def demo_network_def demo_server_def demo_live_def
        forward_env_of_def upstream_query_def demo_request_def empty_msg_def accept_upstream_reply_def same_question_def
        equal_fold_def is_bogus_answer_def Let_def)
  have ent: "entry_for (sv_flow ?s) 0 False ?m = Some demo_entry"
  proof -
    have "entry_for (sv_flow ?s) 0 False ?m = entry_for (sv_flow ?s) 0 False demo_msg"
      by (simp add: entry_for_def upstream_query_def demo_request_def empty_msg_def demo_msg_def)
    with demo_entry_stored show ?thesis by (simp add: fl)
  qed
  have inv: "cache_inv (f_cache (sv_flow ?s))" "f_servfail_ttl (sv_flow ?s) \<le> second" unfolding fl by (rule demo_flow_ok)+
  have t: "(0::int) \<le> 89 * second" "89 * second < 0 + lifetime (sv_flow ?s) demo_entry"
    by (simp_all add: second_def lifetime_def demo_entry_def)
  from repeated_query_served_from_cache [OF pq pl fs refl inv(1) empty inv(2) fetch ent t, of 8 empty_msg "[]"]
  obtain res1 m1 s1 res2 m2 s2 ttl where
    "resolve ?E 0 None ''::1'' 8 demo_request empty_msg [] ?s = (res1, m1, s1)" "sv_uplink s1 = ?up"
    "resolve ?E (89 * second) None ''::1'' 8 demo_request empty_msg [] s1 = (res2, m2, s2)" "sv_uplink s2 = ?up"
    "m_answer m2 = with_ttl ttl (m_answer ?m)" by blast
  then show ?thesis by fastforce
qed

section \<open>Invariants of the server\<close>

datatype 'w server_op =
    OpQuery "'w env" int int bool msg string
  | OpSettings url_lib settings
  | OpFlow flow_op
  | OpFilter filter_env filter_op
  | OpLimiter int int

text \<open>One event of a server: a query of a listener, accepted settings, a refresh or an invalidation, a
  change of the filter, the periodic cleanup of the limiter.\<close>

fun server_step :: "'w server_op \<Rightarrow> 'w server \<Rightarrow> 'w server" where
  "server_step (OpQuery E now elapsed udp r ip) s = snd (serve_dns E now elapsed udp r ip s)"
| "server_step (OpSettings U x) s = (if validate_settings U x = None then apply_settings x s else s)"
| "server_step (OpFlow x) s = s\<lparr>sv_flow := flow_apply x (sv_flow s)\<rparr>"
| "server_step (OpFilter env x) s = s\<lparr>sv_filter := map_option (filter_step env x) (sv_filter s)\<rparr>"
| "server_step (OpLimiter now idle) s = s\<lparr>sv_limiter := cleanup now idle (sv_limiter s)\<rparr>"

definition flow_ok :: "flow \<Rightarrow> bool" where
  "flow_ok f \<longleftrightarrow> cache_inv (f_cache f) \<and> work_inv f \<and> f_servfail_ttl f \<le> second"

definition server_inv :: "'w server \<Rightarrow> bool" where
  "server_inv s \<longleftrightarrow> flow_ok (sv_flow s) \<and> limiter_inv (sv_limiter s) \<and> rl_max (sv_limiter s) = max_rate_limit_buckets \<and>
     (case sv_filter s of None \<Rightarrow> True | Some e \<Rightarrow> engine_inv e) \<and> 1 \<le> lc_prefix4 (sv_cfg s) \<and> 1 \<le> lc_prefix6 (sv_cfg s)"

subsection \<open>The cache and its flights\<close>

lemma flow_ok_cache: "flow_ok f \<Longrightarrow> cache_inv c \<Longrightarrow> flow_ok (f\<lparr>f_cache := c\<rparr>)"
  by (simp add: flow_ok_def work_inv_def)

lemma flow_ok_store: "flow_ok f \<Longrightarrow> flow_ok (snd (store_if_generation now k m pf g f))"
  using cache_set_refines(1)
  by (auto simp: store_if_generation_def store_in_cache_def intro!: flow_ok_cache split: option.split) (auto simp: flow_ok_def)

lemma servfail_frames:
  "f_servfail_ttl (flow_apply x f) = f_servfail_ttl f"
  by (cases x) (auto simp: begin_miss_flight_def complete_miss_flight_def refresh_async_def finish_refresh_def
      store_if_generation_def store_in_cache_def invalidate_matching_def clear_cache_def bump_generation_def Let_def
      split: option.split prod.split)

lemma flow_ok_step: "flow_ok f \<Longrightarrow> flow_ok (flow_apply x f)"
proof -
  assume f: "flow_ok f"
  then have w: "work_inv (flow_apply x f)" by (intro flow_work.step_keeps) (simp add: flow_ok_def)
  have c: "cache_inv (f_cache f)" using f by (simp add: flow_ok_def)
  have "cache_inv (f_cache (flow_apply x f))"
  proof (cases x)
    case (FBegin k)
    with c show ?thesis by (auto simp: begin_miss_flight_def split: option.split)
  next
    case (FComplete k i r)
    with c show ?thesis by (auto simp: complete_miss_flight_def split: option.split)
  next
    case (FRefresh k m specs pf)
    with c show ?thesis by (simp add: refresh_async_def)
  next
    case (FFinish now n r)
    with c show ?thesis
      using cache_set_refines(1)
      by (auto simp: finish_refresh_def store_if_generation_def store_in_cache_def Let_def split: option.split)
  next
    case (FInvalidate P)
    with c invalidate_props [of "f_cache f" P] show ?thesis
      by (auto simp: invalidate_matching_def bump_generation_def Let_def split_def)
  next
    case FClear
    with c clear_props [of "f_cache f"] show ?thesis
      by (auto simp: clear_cache_def bump_generation_def Let_def split_def)
  qed
  with w f servfail_frames [of x f] show ?thesis by (simp add: flow_ok_def)
qed

lemma flow_ok_ops:
  "flow_ok f \<Longrightarrow> flow_ok (refresh_async k r specs pf f)" "flow_ok f \<Longrightarrow> flow_ok (complete_miss_flight k i u f)"
  "flow_ok f \<Longrightarrow> flow_ok (snd (begin_miss_flight k f))"
  using flow_ok_step [of f "FRefresh k r specs pf"] flow_ok_step [of f "FComplete k i u"] flow_ok_step [of f "FBegin k"] by simp_all

lemma resolve_via_flow_ok:
  assumes "flow_ok f" and "resolve_via_cache_or_upstream fetch await now r key specs resp f p = (res, m, f1, p1)"
  shows "flow_ok f1"
proof -
  have c: "cache_inv (f_cache f)" using assms(1) by (simp add: flow_ok_def)
  have g: "cache_inv c" if "cache_get now key (f_cache f) = (x, c)" for x c
    using get_refines [OF c, of now key] that by simp
  have s: "cache_inv (snd (get_stale now key c))" if "cache_inv c" for c using get_stale_props(2) [OF that] .
  have b: "flow_ok f2" if "flow_ok f0" "begin_miss_flight key f0 = (x, f2)" for f0 f2 x
    using flow_ok_ops(3) [OF that(1), of key] that(2) by simp
  show ?thesis
    using assms(2)
  proof (cases rule: resolve_via_cases)
    case (hit e ttl c)
    with g assms(1) show ?thesis by (auto intro: flow_ok_ops flow_ok_cache)
  next
    case (stale e c c2 code)
    with g s [of c] assms(1) show ?thesis by (auto intro: flow_ok_ops flow_ok_cache)
  next
    case (full c c2 bb)
    then have "flow_ok (f\<lparr>f_cache := c2\<rparr>)" using g s assms(1) by (auto intro: flow_ok_cache)
    with full b show ?thesis by blast
  next
    case (follow c c2 f2 i)
    then have "flow_ok (f\<lparr>f_cache := c2\<rparr>)" using g s assms(1) by (auto intro: flow_ok_cache)
    with follow b have "flow_ok f2" by blast
    with follow show ?thesis by (auto simp: flow_ok_def work_inv_def)
  next
    case (lead c c2 f2 i u)
    then have "flow_ok (f\<lparr>f_cache := c2\<rparr>)" using g s assms(1) by (auto intro: flow_ok_cache)
    with lead b have "flow_ok f2" by blast
    with lead show ?thesis by (auto intro!: flow_ok_ops flow_ok_store split: option.split)
  qed
qed

subsection \<open>The pipeline\<close>

lemma match_engine_inv: "engine_inv e \<Longrightarrow> engine_inv (snd (match_domain X d e))"
  by (auto simp: match_domain_def engine_inv_def cur_def split: option.split)

definition keeps_inv :: "'w deeper \<Rightarrow> bool" where
  "keeps_inv deeper \<longleftrightarrow> (\<forall>run a b p s. deeper = Some run \<longrightarrow> server_inv s \<longrightarrow> server_inv (snd (snd (run a b p s))))"

lemma server_inv_hits [simp]:
  "server_inv (s\<lparr>sv_rewrite_hits := k\<rparr>) = server_inv s" "server_inv (s\<lparr>sv_safe_hits := k\<rparr>) = server_inv s"
  "server_inv (s\<lparr>sv_acl_dropped := k\<rparr>) = server_inv s" "server_inv (s\<lparr>sv_allow_dropped := k\<rparr>) = server_inv s"
  "server_inv (s\<lparr>sv_rate_dropped := k\<rparr>) = server_inv s"
  by (simp_all add: server_inv_def)

lemma chase_inv:
  assumes "chase_cname L deeper path r q resp target rule label reason s = (res, m, s')" "keeps_inv deeper" "server_inv s"
  shows "server_inv s'"
proof (cases deeper)
  case None
  with assms show ?thesis by (auto simp: chase_cname_def Let_def split: if_splits)
next
  case (Some run)
  obtain r1 m1 s2 where run: "run (sub_query L r q target) ((set_reply L (sub_query L r q target))\<lparr>m_ra := True\<rparr>)
      (normalize_name (q_name q) # path) s = (r1, m1, s2)"
    by (cases "run (sub_query L r q target) ((set_reply L (sub_query L r q target))\<lparr>m_ra := True\<rparr>)
      (normalize_name (q_name q) # path) s") auto
  have "server_inv s2" using assms(2,3) Some run unfolding keeps_inv_def by (metis snd_conv)
  then show ?thesis
    using assms(1,3) by (auto simp: chase_cname_def Some run Let_def split: if_splits)
qed

lemma stage_local_inv:
  assumes "stage_local E cl ip deeper path r q resp s = Some (res, m, s')" "keeps_inv deeper" "server_inv s"
  shows "server_inv s'"
proof -
  have "server_inv s'" if "stage_rewrites E ip deeper path r q resp s = Some (res, m, s')"
    using that assms(2,3) unfolding stage_rewrites_def Let_def
    by (auto split: option.splits if_splits dest: chase_inv)
  moreover have "server_inv s'" if "stage_safe_search E cl deeper path r q resp s = Some (res, m, s')"
    using that assms(2,3) unfolding stage_safe_search_def Let_def by (auto split: if_splits dest: chase_inv)
  ultimately show ?thesis
    using assms(1,3)
    by (auto simp: stage_local_def stage_magic_dns_def stage_private_ptr_def Let_def split: if_splits option.splits)
qed

lemma stage_filter_inv: "stage_filter E now cl r q resp s = (a, s1) \<Longrightarrow> server_inv s \<Longrightarrow> server_inv s1"
  unfolding stage_filter_def Let_def server_inv_def
  by (auto split: option.splits if_splits prod.splits dest: match_engine_inv [where X = "en_regex E" and d = "normalize_name (q_name q)"])

lemma stage_upstream_inv: "stage_upstream E now cl r q resp s = (res, m, s') \<Longrightarrow> server_inv s \<Longrightarrow> server_inv s'"
  by (auto simp: stage_upstream_def server_inv_def Let_def dest: resolve_via_flow_ok split: prod.splits)

lemma resolve_body_inv:
  assumes "resolve_body E now cl ip deeper r resp path s = (res, m, s')" "keeps_inv deeper" "server_inv s"
  shows "server_inv s'"
  using assms(1)
proof (cases rule: resolve_body_cases)
  case (here q)
  then show ?thesis using stage_local_inv assms(2,3) by blast
next
  case (filtered q s1)
  then have "s' = s1" using stage_filter_frames(2) by metis
  with filtered stage_filter_inv assms(3) show ?thesis by metis
next
  case (upstream q s1)
  then show ?thesis using stage_filter_inv stage_upstream_inv assms(3) by metis
qed (use assms in simp)

lemma resolve_inv: "server_inv s \<Longrightarrow> server_inv (snd (snd (resolve E now cl ip n r resp path s)))"
proof (induction n arbitrary: r resp path s)
  case 0
  have "keeps_inv (None :: 'a deeper)" by (simp add: keeps_inv_def)
  with 0 show ?case
    using resolve_body_inv [of E now cl ip None r resp path s] by (metis prod.collapse resolve.simps(1))
next
  case (Suc n)
  have "keeps_inv (Some (resolve E now cl ip n))" using Suc.IH by (simp add: keeps_inv_def)
  with Suc.prems show ?case
    using resolve_body_inv [of E now cl ip "Some (resolve E now cl ip n)" r resp path s] by (metis prod.collapse resolve.simps(2))
qed

lemma limiter_step_ok:
  assumes "limiter_inv l" "rl_max l = max_rate_limit_buckets"
  shows "limiter_inv (snd (allow_at_rate now ip q p4 p6 l)) \<and> rl_max (snd (allow_at_rate now ip q p4 p6 l)) = max_rate_limit_buckets"
    "limiter_inv (cleanup now idle l) \<and> rl_max (cleanup now idle l) = max_rate_limit_buckets"
  using rl_step_inv [OF assms(1), of "Allow now ip q p4 p6"] rl_step_max [of "Allow now ip q p4 p6" l]
    rl_step_inv [OF assms(1), of "Cleanup now idle"] rl_step_max [of "Cleanup now idle" l] assms(2) by simp_all

lemma rate_limited_inv: "server_inv s \<Longrightarrow> server_inv (snd (rate_limited now ip s))"
  using limiter_step_ok(1) [of "sv_limiter s" now ip "query_rate (sv_cfg s) ip" "lc_prefix4 (sv_cfg s)" "lc_prefix6 (sv_cfg s)"]
  by (auto simp: rate_limited_def server_inv_def Let_def split_def)

lemma answer_query_inv: "server_inv s \<Longrightarrow> server_inv (snd (answer_query E now elapsed r ip s))"
  using resolve_inv by (simp add: answer_query_def Let_def split_def)

lemma resolve_query_inv: "server_inv s \<Longrightarrow> server_inv (snd (resolve_query E now elapsed r ip s))"
  using rate_limited_inv [of s now ip] answer_query_inv [of "snd (rate_limited now ip s)" E now elapsed r ip]
  by (auto simp: resolve_query_def Let_def split_def split: bool.split)

lemma serve_dns_inv: "server_inv s \<Longrightarrow> server_inv (snd (serve_dns E now elapsed udp r ip s))"
  using resolve_query_inv [of s E now elapsed r ip] by (simp add: serve_dns_def split_def)

subsection \<open>Settings\<close>

lemma valid_settings_bounds:
  assumes "validate_settings U x = None"
  shows "0 \<le> ds_servfail_ms (normalize_settings x)" "ds_servfail_ms (normalize_settings x) \<le> 1000"
    "1 \<le> ds_prefix4 (normalize_settings x)" "1 \<le> ds_prefix6 (normalize_settings x)"
    "ds_prefix4 (normalize_settings x) \<le> 32" "ds_prefix6 (normalize_settings x) \<le> 128"
    "1 \<le> ds_cache_size (normalize_settings x)"
proof -
  have "validate_access_settings (normalize_settings x) = None" "validate_cache_settings (normalize_settings x) = None"
    using assms by (auto simp: validate_settings_def Let_def split: option.splits)
  then show "0 \<le> ds_servfail_ms (normalize_settings x)" "ds_servfail_ms (normalize_settings x) \<le> 1000"
    "1 \<le> ds_prefix4 (normalize_settings x)" "1 \<le> ds_prefix6 (normalize_settings x)"
    "ds_prefix4 (normalize_settings x) \<le> 32" "ds_prefix6 (normalize_settings x) \<le> 128"
    "1 \<le> ds_cache_size (normalize_settings x)"
    by (auto simp: validate_access_settings_def validate_cache_settings_def split: if_splits)
qed

lemma apply_settings_inv:
  assumes "validate_settings U x = None" and "server_inv s"
  shows "server_inv (apply_settings x s)"
proof -
  note b = valid_settings_bounds [OF assms(1)]
  have "ds_servfail_ms (normalize_settings x) * millisecond \<le> second" using b(2) by (simp add: millisecond_def second_def)
  with b assms(2) show ?thesis
    by (simp add: apply_settings_def server_inv_def flow_ok_def reconfigure_flow_def bump_generation_def reconfigure_props
        work_inv_def Let_def)
qed

interpretation server_sys: invariant_system server_step server_inv
proof
  fix s x assume inv: "server_inv s"
  show "server_inv (server_step x s)"
  proof (cases x)
    case (OpQuery E now elapsed udp r ip)
    with serve_dns_inv [OF inv] show ?thesis by simp
  next
    case (OpSettings U y)
    with apply_settings_inv inv show ?thesis by auto
  next
    case (OpFlow y)
    with inv flow_ok_step show ?thesis by (simp add: server_inv_def)
  next
    case (OpFilter env y)
    with inv filter_sys.step_keeps show ?thesis by (auto simp: server_inv_def split: option.splits)
  next
    case (OpLimiter now idle)
    with inv limiter_step_ok(2) show ?thesis by (simp add: server_inv_def)
  qed
qed

text \<open>C5: From a new server, any sequence of queries over the listeners, settings changes, background refreshes,
  cache invalidations, filter changes and limiter cleanups keeps the server within its bounds: the cache
  is consistent and within its capacity with ordered TTL bounds, SERVFAIL answers are kept for at most a
  second, at most 1024 misses and 64 refreshes are in flight, at most 65536 rate-limit buckets
  exist, and the filter's index agrees with its rules once settled.\<close>

theorem server_stays_in_bounds:
  "let s = fold server_step ops (new_server g c acls u (if filtering then Some new_engine else None))
   in cache_inv (f_cache (sv_flow s)) \<and> f_servfail_ttl (sv_flow s) \<le> second \<and>
      length (f_miss (sv_flow s)) \<le> 1024 \<and> length (f_jobs (sv_flow s)) \<le> 64 \<and>
      length (rl_buckets (sv_limiter s)) \<le> 65536 \<and>
      (case sv_filter s of None \<Rightarrow> True | Some e \<Rightarrow> engine_inv e)"
proof -
  have l: "limiter_inv (new_limiter q)" for q by (simp add: limiter_inv_def new_limiter_def max_rate_limit_buckets_def)
  have "server_inv (new_server g c acls u (if filtering then Some new_engine else None))"
    using new_flow_ok [of g] new_engine_inv l
    by (auto simp: new_server_def server_inv_def flow_ok_def new_limiter_def split: prod.split)
  from server_sys.run_keeps [OF this, of ops] show ?thesis
    by (simp add: Let_def server_inv_def flow_ok_def work_inv_def max_miss_flights_def max_background_refreshes_def
        limiter_inv_def max_rate_limit_buckets_def)
qed

text \<open>C36: Accepted settings take effect at once: the cache is emptied and gets the configured capacity and TTL
  bounds, a fetch that was started before the change is not stored after it, the SERVFAIL time is
  within a second, and the rate-limit prefixes are valid for the address families.\<close>

theorem settings_take_effect:
  assumes "validate_settings U x = None" and "s' = apply_settings x s" and "y = normalize_settings x"
  shows "contents (f_cache (sv_flow s')) = [] \<and> cache_inv (f_cache (sv_flow s')) \<and>
     c_cap (f_cache (sv_flow s')) = ds_cache_size y \<and> c_min (f_cache (sv_flow s')) = ds_cache_min y \<and>
     c_max (f_cache (sv_flow s')) = ds_cache_max y \<and>
     store_if_generation now key m pf (f_generation (sv_flow s)) (sv_flow s') = (False, sv_flow s') \<and>
     f_servfail_ttl (sv_flow s') \<le> second \<and>
     1 \<le> lc_prefix4 (sv_cfg s') \<and> lc_prefix4 (sv_cfg s') \<le> 32 \<and> 1 \<le> lc_prefix6 (sv_cfg s') \<and> lc_prefix6 (sv_cfg s') \<le> 128"
proof -
  note b = valid_settings_bounds [OF assms(1), folded assms(3)]
  have nz: "ds_cache_min y \<noteq> 0" "ds_cache_max y \<noteq> 0" by (simp_all add: assms(3) normalize_settings_def)
  have "validate_cache_settings y = None"
    using assms(1,3) by (auto simp: validate_settings_def Let_def split: option.splits)
  then have le: "\<not> ds_cache_max y < ds_cache_min y"
    using nz by (auto simp: validate_cache_settings_def word_neq_0_conv split: if_splits)
  then have bd: "bounds_of (ds_cache_min y) (ds_cache_max y) = (ds_cache_min y, ds_cache_max y)"
    using nz by (simp add: bounds_of_def Let_def)
  have sf: "ds_servfail_ms y * millisecond \<le> second" using b(2) by (simp add: millisecond_def second_def)
  have "f_generation (sv_flow s) + 1 \<noteq> f_generation (sv_flow s)" by simp
  with b sf bd show ?thesis
    by (auto simp: assms(2) apply_settings_def assms(3) [symmetric] reconfigure_flow_def bump_generation_def reconfigure_props
        store_if_generation_def Let_def)
      (simp_all add: reconfigure_def capacity_of_def)
qed

theorem settings_take_effect_witness:
  "validate_settings no_urls demo_settings = None \<and>
   (let s' = apply_settings demo_settings (demo_server (demo_live ''nxdomain'' None) None)
    in c_max (f_cache (sv_flow s')) = 600 \<and> f_servfail_ttl (sv_flow s') \<le> second)"
proof -
  have "ds_cache_max (normalize_settings demo_settings) = 600" by (simp add: demo_normal)
  with settings_take_effect [OF demo_settings_valid refl refl, where s = "demo_server (demo_live ''nxdomain'' None) None"] demo_settings_valid
  show ?thesis by (simp add: Let_def)
qed

end
