(* ===== verification/Diagnostics.thy ===== *)
theory Diagnostics
  imports Config_Sync Server_Claims
begin

text \<open>
  The explanations of the management interface: api/filtering_diagnostics.go, which says what would
  happen to a name of a client, and the route test of api/upstreams.go. They compute their answer
  apart from the query pipeline; here they are compared with it. Titles and details are fixed texts
  per decision and left out.
\<close>

section \<open>The client of a test\<close>

record test_client =
  tc_identifier :: string
  tc_ip :: string
  tc_profile :: "client option"

fun exact_client_ip :: "string list \<Rightarrow> string" where
  "exact_client_ip [] = []"
| "exact_client_ip (i # is) =
     (case parse_ip (trim_space i) of
        Some w \<Rightarrow> ip_string w
      | None \<Rightarrow>
          (case parse_cidr (trim_space i) of
             None \<Rightarrow> exact_client_ip is
           | Some (w, n) \<Rightarrow> if net_bits n = (case n of Net4 _ _ \<Rightarrow> 32 | Net6 _ _ \<Rightarrow> 128) then ip_string w else exact_client_ip is))"

definition resolve_test_client :: "string \<Rightarrow> registry option \<Rightarrow> test_client option" where
  "resolve_test_client i reg =
     (if i = [] then Some \<lparr>tc_identifier = i, tc_ip = [], tc_profile = None\<rparr>
      else case parse_ip i of
             Some w \<Rightarrow> Some \<lparr>tc_identifier = i, tc_ip = ip_string w, tc_profile = Option.bind reg (find_client (ip_string w))\<rparr>
           | None \<Rightarrow>
               (case reg of
                  None \<Rightarrow> None
                | Some r \<Rightarrow>
                    map_option (\<lambda>c. \<lparr>tc_identifier = i, tc_ip = exact_client_ip (cl_ids c), tc_profile = Some c\<rparr>)
                      (List.find (\<lambda>c. equal_fold (cl_name c) i \<or> i \<in> set (cl_ids c)) (list_clients r))))"

section \<open>The filtering test\<close>

datatype decision =
  DRefused | DNodata | DRewrite | DSafeSearch | DFilteringDisabled | DPaused | DAllowed | DBlocked | DForwarded

record filtering_diagnostic =
  fd_domain :: string
  fd_client_name :: string
  fd_client_ip :: string
  fd_decision :: decision
  fd_rule :: string
  fd_source :: string
  fd_reason :: string
  fd_filtering_enabled :: bool
  fd_paused :: bool

definition rewrite_for_question :: "dns_lib \<Rightarrow> rewrite list \<Rightarrow> u16 \<Rightarrow> rewrite" where
  "rewrite_for_question L items t =
     (case List.find (\<lambda>r. rw_type r \<in> {''NXDOMAIN'', ''REFUSED'', ''NOERROR''}) items of
        Some r \<Rightarrow> r
      | None \<Rightarrow> (case List.find (\<lambda>r. build_rr L r (fqdn L (rw_domain r)) t \<noteq> None) items of Some r \<Rightarrow> r | None \<Rightarrow> hd items))"

definition test_safe_target :: "(string \<Rightarrow> string option) \<Rightarrow> string list \<Rightarrow> string \<Rightarrow> client option \<Rightarrow> string" where
  "test_safe_target etld1 global domain cl =
     (case cl of
        Some c \<Rightarrow>
          (if \<not> cl_use_global c
           then (if \<not> cl_safe_search c then []
                 else safe_search_target_for etld1
                        (if parse_engines (cl_engines c) = [] then parse_engines global else parse_engines (cl_engines c)) domain)
           else safe_search_target_for etld1 (parse_engines global) domain)
      | None \<Rightarrow> safe_search_target_for etld1 (parse_engines global) domain)"

definition new_diagnostic :: "int \<Rightarrow> string \<Rightarrow> test_client \<Rightarrow> engine \<Rightarrow> filtering_diagnostic" where
  "new_diagnostic now domain tc e =
     \<lparr>fd_domain = domain, fd_client_name = (case tc_profile tc of None \<Rightarrow> [] | Some c \<Rightarrow> cl_name c), fd_client_ip = tc_ip tc,
      fd_decision = DForwarded, fd_rule = [], fd_source = [], fd_reason = [],
      fd_filtering_enabled = (case tc_profile tc of None \<Rightarrow> True | Some c \<Rightarrow> cl_use_global c \<or> cl_filtering c), fd_paused = paused now e\<rparr>"

text \<open>evaluateFilteringTest after the client is resolved, with an engine and a rewrite store.\<close>

definition evaluate_test ::
  "dns_lib \<Rightarrow> regex_lib \<Rightarrow> (string \<Rightarrow> string option) \<Rightarrow> int \<Rightarrow> string \<Rightarrow> u16 \<Rightarrow> test_client \<Rightarrow> settings \<Rightarrow> rw_store \<Rightarrow> engine \<Rightarrow>
    filtering_diagnostic" where
  "evaluate_test L X etld1 now domain t tc st rws e =
     (let ev = explain X domain e; d = new_diagnostic now domain tc e; items = lookup_for_client domain (tc_ip tc) rws;
          target = test_safe_target etld1 (ds_safe_search st) domain (tc_profile tc)
      in if ds_refuse_any st \<and> t = type_ANY then
           d\<lparr>fd_decision := DRefused, fd_rule := ''REFUSE_ANY'', fd_source := ''DNS policy'', fd_reason := ''RefusedANY''\<rparr>
         else if ds_aaaa_disabled st \<and> t = type_AAAA then
           d\<lparr>fd_decision := DNodata, fd_rule := ''AAAA_DISABLED'', fd_source := ''DNS policy'', fd_reason := ''AAAADisabled''\<rparr>
         else if items \<noteq> [] then
           d\<lparr>fd_decision := DRewrite, fd_rule := rw_string (rewrite_for_question L items t), fd_source := ''DNS rewrites'', fd_reason := ''Rewrite''\<rparr>
         else if target \<noteq> [] then
           d\<lparr>fd_decision := DSafeSearch, fd_rule := domain @ '' CNAME '' @ target, fd_source := ''Safe-search policy'', fd_reason := ''SafeSearch''\<rparr>
         else if \<not> fd_filtering_enabled d then d\<lparr>fd_decision := DFilteringDisabled, fd_source := ''Client policy''\<rparr>
         else if fd_paused d then d\<lparr>fd_decision := DPaused, fd_source := ''Filtering status''\<rparr>
         else if rs_allowed (ev_result ev) then
           d\<lparr>fd_decision := DAllowed, fd_rule := rs_rule (ev_result ev), fd_source := rs_source (ev_result ev)\<rparr>
         else if rs_blocked (ev_result ev) then
           d\<lparr>fd_decision := DBlocked, fd_rule := rs_rule (ev_result ev), fd_source := rs_source (ev_result ev), fd_reason := rs_reason (ev_result ev)\<rparr>
         else d\<lparr>fd_source := ''Upstream pipeline''\<rparr>)"

text \<open>The request: the names of the record types it knows.\<close>

definition test_qtypes :: "(string \<times> u16) list" where
  "test_qtypes = [(''A'', type_A), (''AAAA'', type_AAAA), (''ANY'', type_ANY), (''CNAME'', type_CNAME), (''HTTPS'', type_HTTPS),
     (''MX'', type_MX), (''PTR'', type_PTR), (''SRV'', type_SRV), (''SVCB'', type_SVCB), (''TXT'', type_TXT)]"

definition handle_filtering_test ::
  "dns_lib \<Rightarrow> regex_lib \<Rightarrow> (string \<Rightarrow> string option) \<Rightarrow> int \<Rightarrow> string \<Rightarrow> string \<Rightarrow> string \<Rightarrow> string \<Rightarrow> node \<Rightarrow> int \<times> filtering_diagnostic option" where
  "handle_filtering_test L X etld1 now method domain0 type0 client0 n =
     (let domain = to_lower (trim_suffix (trim_space domain0) ''.''); type = to_upper (trim_space type0); i = trim_space client0
      in if method \<noteq> ''GET'' then (405, None)
         else if \<not> is_domain_name L domain \<or> domain = [] then (400, None)
         else case map_of test_qtypes (if type = [] then ''A'' else type) of
                None \<Rightarrow> (400, None)
              | Some t \<Rightarrow>
                  (if 255 < length i then (400, None)
                   else if \<not> nd_ready n then (503, None)
                   else case resolve_test_client i (Some (nd_clients n)) of
                          None \<Rightarrow> (400, None)
                        | Some tc \<Rightarrow> (200, Some (evaluate_test L X etld1 now domain t tc (ss_items (nd_settings n)) (nd_rewrites n) (nd_engine n)))))"

section \<open>The test and the pipeline\<close>

lemma test_safe_target_eq:
  "lc_policy c = Some (new_policy \<lparr>pc_safe_search = engines, pc_bogus = b, pc_aaaa_disabled = a, pc_refuse_any = ra\<rparr>) \<Longrightarrow>
   test_safe_target (en_etld1 E) engines domain cl = safe_target E c cl domain"
  by (auto simp: test_safe_target_def safe_target_def safe_search_target_def policy_engines_def new_policy_def Let_def split: option.split)

lemma explain_match:
  "to_lower (trim_suffix (trim_space d) ''.'') = d \<Longrightarrow> ev_result (explain X d e) = fst (match_domain X d e)"
  by (simp add: explain_def match_domain_def split: option.split)

text \<open>The server runs the stores, the engine and the settings the test looks at.\<close>

definition serves_node :: "'w env \<Rightarrow> 'w server \<Rightarrow> node \<Rightarrow> bool" where
  "serves_node E s n \<longleftrightarrow> en_rewrites E = Some (nd_rewrites n) \<and> sv_filter s = Some (nd_engine n) \<and>
     (let st = ss_items (nd_settings n)
      in lc_policy (sv_cfg s) = Some (new_policy \<lparr>pc_safe_search = ds_safe_search st, pc_bogus = ds_bogus st,
           pc_aaaa_disabled = ds_aaaa_disabled st, pc_refuse_any = ds_refuse_any st\<rparr>))"

lemma apply_settings_serves:
  assumes "settings_ok U (nd_settings n)" and "en_rewrites E = Some (nd_rewrites n)" and "sv_filter s = Some (nd_engine n)"
  shows "serves_node E (apply_settings (ss_items (nd_settings n)) s) n"
  using assms by (simp add: serves_node_def apply_settings_def settings_ok_def Let_def)

definition plain_query :: "dns_lib \<Rightarrow> msg \<Rightarrow> question \<Rightarrow> bool" where
  "plain_query L r q \<longleftrightarrow> m_question r = [q] \<and> \<not> m_response r \<and> m_opcode r = opcode_query \<and> is_domain_name L (q_name q)"

lemma chase_label: "chase_cname L deeper path r q resp target rule label reason s = (res, m, s') \<Longrightarrow>
    re_reason res = ''CNAME_LOOP'' \<or> (re_upstream res = label \<and> re_reason res = reason)"
  by (auto simp: chase_cname_def Let_def split: if_splits option.splits prod.splits)

definition labelled :: "string \<Rightarrow> string \<Rightarrow> resolution \<Rightarrow> bool" where
  "labelled label reason res \<longleftrightarrow> re_upstream res = label \<and> re_reason res = reason \<or> re_reason res = ''CNAME_LOOP''"

lemma chase_labelled: "labelled label reason (fst (chase_cname L deeper path r q resp target rule label reason s))"
  using chase_label [of L deeper path r q resp target rule label reason s]
  by (cases "chase_cname L deeper path r q resp target rule label reason s") (auto simp: labelled_def)

lemma chase_labelled_eq: "chase_cname L deeper path r q resp target rule label reason s = (a, b, c) \<Longrightarrow> labelled label reason a"
  using chase_labelled [of label reason L deeper path r q resp target rule s] by simp

lemma labelled_plain:
  "labelled ''Rewrite'' ''Rewrite'' (rewrite_result e)"
  "labelled l x (no_resolution\<lparr>re_upstream := l, re_rule := y, re_reason := x\<rparr>)"
  by (simp_all add: labelled_def rewrite_result_def)

lemma stage_rewrites_label:
  assumes "en_rewrites E = Some st" and "lookup_for_client (normalize_name (q_name q)) ip st \<noteq> []"
  shows "case stage_rewrites E ip deeper path r q resp s of None \<Rightarrow> False | Some a \<Rightarrow> labelled ''Rewrite'' ''Rewrite'' (fst a)"
  using assms unfolding stage_rewrites_def Let_def
  by (auto simp: labelled_plain dest: chase_labelled_eq split: option.split)

lemma stage_safe_label:
  assumes "safe_target E (sv_cfg s) cl (normalize_name (q_name q)) \<noteq> []"
  shows "case stage_safe_search E cl deeper path r q resp s of None \<Rightarrow> False | Some a \<Rightarrow> labelled ''SafeSearch'' ''SafeSearch'' (fst a)"
  using assms unfolding stage_safe_search_def Let_def
  by (auto simp: labelled_plain chase_labelled dest: chase_labelled_eq)

text \<open>What the pipeline does with a query, said in the words of the test.\<close>

definition agrees ::
  "'w env \<Rightarrow> int \<Rightarrow> client option \<Rightarrow> msg \<Rightarrow> question \<Rightarrow> msg \<Rightarrow> 'w server \<Rightarrow> filtering_diagnostic \<Rightarrow> 'w answer \<Rightarrow> bool" where
  "agrees E now cl r q resp s fd a \<longleftrightarrow>
     (let res = fst a
      in case fd_decision fd of
           DRefused \<Rightarrow> re_upstream res = ''Policy'' \<and> re_rule res = fd_rule fd \<and> re_reason res = fd_reason fd
         | DNodata \<Rightarrow> re_upstream res = ''Policy'' \<and> re_rule res = fd_rule fd \<and> re_reason res = fd_reason fd
         | DRewrite \<Rightarrow> labelled ''Rewrite'' (fd_reason fd) res
         | DSafeSearch \<Rightarrow> labelled ''SafeSearch'' (fd_reason fd) res
         | DBlocked \<Rightarrow> re_upstream res = ''Filtered'' \<and> re_blocked res \<and> re_rule res = fd_rule fd \<and> re_reason res = fd_reason fd
         | _ \<Rightarrow> a = stage_upstream E now cl r q resp (snd (stage_filter E now cl r q resp s)))"

text \<open>C8: The filtering test tells what the pipeline does: for a well-formed query of the name, type
  and client under test that neither MagicDNS nor a private reverse zone answers, a server running
  the stores and settings of the node refuses, empties, rewrites, redirects to safe search or blocks
  exactly when the test says so, with the rule and reason it names, and otherwise forwards.\<close>

theorem filtering_test_predicts:
  assumes "serves_node E s n" and "plain_query (en_lib E) r q"
    and "stage_magic_dns E q resp s = None" and "stage_private_ptr E q resp s = None"
    and "normalize_name (q_name q) = domain" and "to_lower (trim_suffix (trim_space domain) ''.'') = domain"
    and "fd = evaluate_test (en_lib E) (en_regex E) (en_etld1 E) now domain (q_type q) tc (ss_items (nd_settings n)) (nd_rewrites n) (nd_engine n)"
  shows "agrees E now (tc_profile tc) r q resp s fd (resolve_body E now (tc_profile tc) (tc_ip tc) deeper r resp path s)"
proof -
  let ?st = "ss_items (nd_settings n)" and ?cl = "tc_profile tc"
  from assms(1) have rw: "en_rewrites E = Some (nd_rewrites n)" and fl: "sv_filter s = Some (nd_engine n)"
    and pol: "lc_policy (sv_cfg s) = Some (new_policy \<lparr>pc_safe_search = ds_safe_search ?st, pc_bogus = ds_bogus ?st,
           pc_aaaa_disabled = ds_aaaa_disabled ?st, pc_refuse_any = ds_refuse_any ?st\<rparr>)"
    by (simp_all add: serves_node_def Let_def)
  have flags: "refuse_any_enabled (lc_policy (sv_cfg s)) = ds_refuse_any ?st" "aaaa_disabled_enabled (lc_policy (sv_cfg s)) = ds_aaaa_disabled ?st"
    by (simp_all add: pol refuse_any_enabled_def aaaa_disabled_enabled_def new_policy_def)
  have body: "resolve_body E now ?cl (tc_ip tc) deeper r resp path s =
      (case stage_local E ?cl (tc_ip tc) deeper path r q resp s of
         Some a \<Rightarrow> a | None \<Rightarrow> (case stage_filter E now ?cl r q resp s of (Some a, _) \<Rightarrow> a | (None, s1) \<Rightarrow> stage_upstream E now ?cl r q resp s1))"
    using assms(2) by (simp add: resolve_body_def plain_query_def)
  note target = test_safe_target_eq [OF pol, of E domain ?cl]
  have norm: "normalize_name (q_name q) = domain" by (rule assms(5))
  show ?thesis
  proof (cases "(ds_refuse_any ?st \<and> q_type q = type_ANY) \<or> (ds_aaaa_disabled ?st \<and> q_type q = type_AAAA)")
    case True
    show ?thesis
    proof (cases "ds_refuse_any ?st \<and> q_type q = type_ANY")
      case any: True
      show ?thesis
        by (simp only: agrees_def assms(7) body evaluate_test_def stage_local_def flags Let_def any if_True simp_thms option.case)
          (simp add: new_diagnostic_def)
    next
      case False
      with True have aaaa: "ds_aaaa_disabled ?st \<and> q_type q = type_AAAA" by blast
      show ?thesis
        by (simp only: agrees_def assms(7) body evaluate_test_def stage_local_def flags Let_def False aaaa if_True if_False simp_thms option.case)
          (simp add: new_diagnostic_def)
    qed
  next
    case False
    then have early: "\<not> (ds_refuse_any ?st \<and> q_type q = type_ANY)" "\<not> (ds_aaaa_disabled ?st \<and> q_type q = type_AAAA)" by simp_all
    show ?thesis
    proof (cases "lookup_for_client domain (tc_ip tc) (nd_rewrites n) = []")
      case False
      then obtain a where a: "stage_rewrites E (tc_ip tc) deeper path r q resp s = Some a" "labelled ''Rewrite'' ''Rewrite'' (fst a)"
        using stage_rewrites_label [OF rw, of q "tc_ip tc" deeper path r resp s] norm by (auto split: option.splits)
      have "resolve_body E now ?cl (tc_ip tc) deeper r resp path s = a"
        by (simp only: body stage_local_def flags early if_False a(1) option.case)
      moreover have "fd_decision fd = DRewrite" "fd_reason fd = ''Rewrite''"
        by (simp_all only: assms(7) evaluate_test_def Let_def early False if_False if_True not_False_eq_True)
          (simp_all add: new_diagnostic_def)
      ultimately show ?thesis using a(2) by (simp add: agrees_def)
    next
      case items: True
      have none: "stage_rewrites E (tc_ip tc) deeper path r q resp s = None" using items by (simp add: stage_rewrites_def rw norm)
      show ?thesis
      proof (cases "safe_target E (sv_cfg s) ?cl domain = []")
        case False
        then obtain a where a: "stage_safe_search E ?cl deeper path r q resp s = Some a" "labelled ''SafeSearch'' ''SafeSearch'' (fst a)"
          using stage_safe_label [of E s ?cl q deeper path r resp] norm by (auto split: option.splits)
        have "resolve_body E now ?cl (tc_ip tc) deeper r resp path s = a"
          by (simp only: body stage_local_def flags early if_False a(1) none assms(3,4) option.case)
        moreover have "fd_decision fd = DSafeSearch" "fd_reason fd = ''SafeSearch''"
          using False unfolding target [symmetric]
          by (simp_all only: assms(7) evaluate_test_def Let_def early items if_False if_True not_False_eq_True not_True_eq_False)
            (simp_all add: new_diagnostic_def)
        ultimately show ?thesis using a(2) by (simp add: agrees_def)
      next
        case safe: True
        have "stage_safe_search E ?cl deeper path r q resp s = None" using safe by (simp add: stage_safe_search_def norm)
        then have local: "stage_local E ?cl (tc_ip tc) deeper path r q resp s = None"
          by (simp only: stage_local_def flags early if_False none assms(3,4) option.case)
        have ev: "ev_result (explain (en_regex E) domain (nd_engine n)) = fst (match_domain (en_regex E) domain (nd_engine n))"
          by (rule explain_match [OF assms(6)])
        obtain f e1 where m: "match_domain (en_regex E) domain (nd_engine n) = (f, e1)" by (cases "match_domain (en_regex E) domain (nd_engine n)")
        let ?d = "new_diagnostic now domain tc (nd_engine n)"
        have fd: "fd = (if \<not> fd_filtering_enabled ?d then ?d\<lparr>fd_decision := DFilteringDisabled, fd_source := ''Client policy''\<rparr>
            else if fd_paused ?d then ?d\<lparr>fd_decision := DPaused, fd_source := ''Filtering status''\<rparr>
            else if rs_allowed f then ?d\<lparr>fd_decision := DAllowed, fd_rule := rs_rule f, fd_source := rs_source f\<rparr>
            else if rs_blocked f then ?d\<lparr>fd_decision := DBlocked, fd_rule := rs_rule f, fd_source := rs_source f, fd_reason := rs_reason f\<rparr>
            else ?d\<lparr>fd_source := ''Upstream pipeline''\<rparr>)"
          by (simp only: assms(7) evaluate_test_def Let_def early items target safe ev m fst_conv if_False not_True_eq_False simp_thms)
        have d: "fd_filtering_enabled ?d = filtering_enabled_for ?cl" "fd_paused ?d = paused now (nd_engine n)" "fd_decision ?d = DForwarded"
          by (simp_all add: new_diagnostic_def filtering_enabled_for_def)
        have filter: "stage_filter E now ?cl r q resp s =
            (if \<not> filtering_enabled_for ?cl \<or> paused now (nd_engine n) then (None, s)
             else let s1 = s\<lparr>sv_filter := Some e1\<rparr>; b = blocked_response E (sv_cfg s) r q
               in if rs_blocked f \<and> \<not> rs_allowed f then
                    (Some (no_resolution\<lparr>re_upstream := ''Filtered'', re_blocked := True, re_rule := rs_rule f, re_reason := rs_reason f\<rparr>,
                       add_extended_error r ede_filtered ''blocked by filtering policy''
                         (set_response_extra r [] (resp\<lparr>m_rcode := m_rcode b, m_answer := m_answer b\<rparr>)), s1), s1)
                  else (None, s1))"
          by (simp add: stage_filter_def fl norm m)
        show ?thesis
          unfolding agrees_def body local fd d filter by (simp add: Let_def d(3))
      qed
    qed
  qed
qed

definition demo_tester :: test_client where
  "demo_tester = \<lparr>tc_identifier = [], tc_ip = ''::1'', tc_profile = None\<rparr>"

definition demo_tested :: node where
  "demo_tested = (let n = demo_node ''9.9.9.9'' in n\<lparr>nd_settings := (nd_settings n)\<lparr>ss_items := (ss_items (nd_settings n))\<lparr>ds_refuse_any := True\<rparr>\<rparr>\<rparr>)"

text \<open>An ANY query under the refusing policy is shown and answered as refused.\<close>

theorem filtering_test_predicts_witness:
  "re_rule (fst (resolve_body (query_env\<lparr>en_rewrites := Some (nd_rewrites demo_tested)\<rparr>) 0 (tc_profile demo_tester) (tc_ip demo_tester) None
     demo_any demo_any [] (apply_settings (ss_items (nd_settings demo_tested)) (demo_server (demo_live ''nxdomain'' None) (Some new_engine))))) =
   ''REFUSE_ANY''"
proof -
  let ?E = "query_env\<lparr>en_rewrites := Some (nd_rewrites demo_tested)\<rparr>" and ?q = "hd (m_question demo_any)"
  let ?s = "apply_settings (ss_items (nd_settings demo_tested)) (demo_server (demo_live ''nxdomain'' None) (Some new_engine))"
  have any_normal: "normalize_settings (s\<lparr>ds_refuse_any := b\<rparr>) = (normalize_settings s)\<lparr>ds_refuse_any := b\<rparr>" for s b
    by (simp add: normalize_settings_def Let_def)
  have serves: "serves_node ?E ?s demo_tested"
    by (simp add: any_normal serves_node_def apply_settings_def demo_tested_def demo_node_def demo_server_def Let_def)
  have plain: "plain_query (en_lib ?E) demo_any ?q"
    by (simp add: plain_query_def demo_any_def demo_request_def empty_msg_def query_env_def demo_lib_def opcode_query_def)
  have magic: "stage_magic_dns ?E ?q demo_any ?s = None"
    by (simp add: stage_magic_dns_def query_env_def)
  have ptr: "stage_private_ptr ?E ?q demo_any ?s = None"
    by (simp add: stage_private_ptr_def demo_any_def type_defs)
  have name: "normalize_name (q_name ?q) = ''a''" by (simp add: demo_any_def) code_simp
  have norm: "to_lower (trim_suffix (trim_space ''a'') ''.'') = ''a''" by code_simp
  have any: "q_type ?q = type_ANY" "ds_refuse_any (ss_items (nd_settings demo_tested))" by (simp_all add: demo_any_def demo_tested_def Let_def)
  show ?thesis
    using filtering_test_predicts [OF serves plain magic ptr name norm refl, where now = 0 and tc = demo_tester and deeper = None and path = "[]"] any
    by (simp add: agrees_def evaluate_test_def Let_def)
qed

section \<open>The route test\<close>

record candidate =
  cd_pattern :: string
  cd_upstream :: string
  cd_spec :: string
  cd_exact :: bool

definition candidate_for :: "url_lib \<Rightarrow> string \<Rightarrow> string \<times> string \<Rightarrow> candidate option" where
  "candidate_for U domain pu =
     (let pattern = to_lower (trim_suffix (trim_space (fst pu)) ''.''); exact = (pattern = domain); suffix = drop 2 pattern;
          matches = (if has_prefix pattern ''*.'' then domain = suffix \<or> has_suffix domain (CHR ''.'' # suffix) else exact)
      in if matches
         then Some \<lparr>cd_pattern = pattern, cd_upstream = snd pu,
                cd_spec = (case normalize_spec U (snd pu) of Inl _ \<Rightarrow> [] | Inr n \<Rightarrow> n), cd_exact = exact\<rparr>
         else None)"

text \<open>The order of the candidates; two of equal rank stay in the order of the map.\<close>

definition candidate_key :: "candidate \<Rightarrow> bool \<times> int \<times> string" where
  "candidate_key c = (\<not> cd_exact c, - int (length (cd_pattern c)), cd_pattern c)"

definition route_candidates :: "url_lib \<Rightarrow> string \<Rightarrow> (string \<times> string) list \<Rightarrow> candidate list" where
  "route_candidates U domain routes = sort_key candidate_key (List.map_filter (candidate_for U domain) routes)"

definition handle_route_test ::
  "dns_lib \<Rightarrow> url_lib \<Rightarrow> string \<Rightarrow> string \<Rightarrow> (string \<times> string) list option \<Rightarrow> int \<times> (string \<times> candidate list) option" where
  "handle_route_test L U method domain0 dr =
     (let domain = to_lower (trim_suffix (trim_space domain0) ''.'')
      in if method \<noteq> ''GET'' then (405, None)
         else if \<not> is_domain_name L domain \<or> domain = [] then (400, None)
         else (200, Some (domain, route_candidates U domain (case dr of None \<Rightarrow> [] | Some routes \<Rightarrow> routes))))"

text \<open>Patterns the two spellings of matching agree on: what the test trims away is not there.\<close>

definition clean_routes :: "route list \<Rightarrow> bool" where
  "clean_routes rs \<longleftrightarrow> distinct (List.map ro_pattern rs) \<and> sorted (List.map route_key rs) \<and>
     list_all (\<lambda>r. to_lower (trim_suffix (trim_space (ro_pattern r)) ''.'') = ro_pattern r) rs"

lemma candidate_for_clean:
  assumes "to_lower (trim_suffix (trim_space p) ''.'') = p" and "\<not> is_wildcard d"
  shows "candidate_for U d (p, u) =
    (if match_pattern p d then Some \<lparr>cd_pattern = p, cd_upstream = u,
       cd_spec = (case normalize_spec U u of Inl _ \<Rightarrow> [] | Inr n \<Rightarrow> n), cd_exact = (\<not> is_wildcard p)\<rparr> else None)"
  using assms by (auto simp: candidate_for_def match_pattern_def is_wildcard_def Let_def)

lemma beats_key:
  assumes "beats r r'" and "match_pattern (ro_pattern r) d" "match_pattern (ro_pattern r') d"
  shows "route_key r < route_key r'"
  using assms by (auto simp: route_key_def beats_def less_prod_def split: if_splits)

lemma map_filter_clean:
  assumes "list_all (\<lambda>r. to_lower (trim_suffix (trim_space (ro_pattern r)) ''.'') = ro_pattern r) rs" and "\<not> is_wildcard d"
  shows "List.map_filter (candidate_for U d) (List.map (\<lambda>r. (ro_pattern r, ro_upstream r)) rs) =
    List.map (\<lambda>r. \<lparr>cd_pattern = ro_pattern r, cd_upstream = ro_upstream r,
       cd_spec = (case normalize_spec U (ro_upstream r) of Inl _ \<Rightarrow> [] | Inr n \<Rightarrow> n), cd_exact = (\<not> is_wildcard (ro_pattern r))\<rparr>)
      (filter (\<lambda>r. match_pattern (ro_pattern r) d) rs)"
  using assms(1) by (induction rs) (auto simp: map_filter_simps candidate_for_clean [OF _ assms(2)])

lemma sorted_candidates:
  assumes "sorted (List.map route_key rs)" and "\<forall>r \<in> set rs. match_pattern (ro_pattern r) d"
  shows "sorted (List.map (\<lambda>r. (is_wildcard (ro_pattern r), - int (length (ro_pattern r)), ro_pattern r)) rs)"
proof -
  have eq: "ro_pattern r = ro_pattern r'" if "\<not> is_wildcard (ro_pattern r)" "\<not> is_wildcard (ro_pattern r')"
     "match_pattern (ro_pattern r) d" "match_pattern (ro_pattern r') d" for r r'
    using that by (simp add: match_pattern_covers)
  have le: "(is_wildcard (ro_pattern r), - int (length (ro_pattern r)), ro_pattern r) \<le>
      (is_wildcard (ro_pattern r'), - int (length (ro_pattern r')), ro_pattern r')"
    if "route_key r \<le> route_key r'" "match_pattern (ro_pattern r) d" "match_pattern (ro_pattern r') d" for r r'
    using that eq [of r r'] by (auto simp: route_key_def less_eq_prod_def split: if_splits)
  show ?thesis
    using assms(1) unfolding sorted_map by (rule sorted_wrt_mono_rel [rotated]) (use assms(2) le in blast)
qed

text \<open>Without equal keys sorting forgets the order in which the elements came.\<close>

lemma sort_key_mset:
  fixes k :: "'a \<Rightarrow> 'b::linorder"
  assumes "mset xs = mset ys" and "inj_on k (set ys)" and "sorted (List.map k ys)"
  shows "sort_key k xs = ys"
proof (rule properties_for_sort_key)
  show "mset ys = mset xs" "sorted (List.map k ys)" using assms by simp_all
next
  fix x assume x: "x \<in> set ys"
  have same: "set xs = set ys" using assms(1) by (rule mset_eq_setD)
  have only: "filter (\<lambda>y. k x = k y) zs = replicate (count (mset zs) x) x" if "set zs = set ys" for zs
  proof -
    have "filter (\<lambda>y. k x = k y) zs = filter (\<lambda>y. x = y) zs"
      using that x assms(2) by (intro filter_cong refl) (auto simp: inj_on_def)
    then show ?thesis using replicate_length_filter [of x zs] by (simp add: count_mset count_list_eq_length_filter)
  qed
  show "filter (\<lambda>y. k x = k y) ys = filter (\<lambda>y. k x = k y) xs" by (simp only: only [OF refl] only [OF same] assms(1))
qed

text \<open>On clean patterns the route test shows the route that is taken: for a name that is not
  itself a wildcard, the first candidate the test lists is the route the upstream selection uses,
  in whatever order the map of routes is read, and the list is empty exactly when no route matches.\<close>

theorem route_test_agrees:
  assumes "clean_routes rs" and "\<not> is_wildcard domain" and "to_lower (trim_suffix domain ''.'') = domain"
    and "mset routes = mset (List.map (\<lambda>r. (ro_pattern r, ro_upstream r)) rs)"
  shows "case route_candidates U domain routes of
           [] \<Rightarrow> \<not> (\<exists>r \<in> set rs. match_pattern (ro_pattern r) domain) \<and> get_upstream_for_domain domain rs = []
         | c # _ \<Rightarrow> get_upstream_for_domain domain rs = cd_upstream c"
proof -
  let ?c = "\<lambda>r. \<lparr>cd_pattern = ro_pattern r, cd_upstream = ro_upstream r,
       cd_spec = (case normalize_spec U (ro_upstream r) of Inl _ \<Rightarrow> [] | Inr n \<Rightarrow> n), cd_exact = (\<not> is_wildcard (ro_pattern r))\<rparr>"
  let ?ms = "filter (\<lambda>r. match_pattern (ro_pattern r) domain) rs"
  from assms(1) have clean: "list_all (\<lambda>r. to_lower (trim_suffix (trim_space (ro_pattern r)) ''.'') = ro_pattern r) rs"
    and ord: "sorted (List.map route_key rs)" and dist: "distinct (List.map ro_pattern rs)" by (simp_all add: clean_routes_def)
  have "mset (List.map_filter f xs) = image_mset (the \<circ> f) (filter_mset (\<lambda>x. f x \<noteq> None) (mset xs))"
    for f :: "string \<times> string \<Rightarrow> candidate option" and xs by (simp add: map_filter_def mset_filter)
  then have "mset (List.map_filter (candidate_for U domain) routes) = mset (List.map ?c ?ms)"
    using assms(4) by (simp only: map_filter_clean [OF clean assms(2), of U, symmetric])
  moreover have "inj_on candidate_key (set (List.map ?c ?ms))"
  proof (rule inj_onI)
    fix x y assume "x \<in> set (List.map ?c ?ms)" "y \<in> set (List.map ?c ?ms)" and k: "candidate_key x = candidate_key y"
    then obtain r r' where x: "x = ?c r" "r \<in> set rs" and y: "y = ?c r'" "r' \<in> set rs" by auto
    from k x(1) y(1) have "ro_pattern r = ro_pattern r'" by (simp add: candidate_key_def)
    with dist x(2) y(2) have "r = r'" by (auto simp: distinct_map dest: inj_onD)
    with x(1) y(1) show "x = y" by simp
  qed
  moreover have "sorted (List.map candidate_key (List.map ?c ?ms))"
  proof -
    have key: "candidate_key \<circ> ?c = (\<lambda>r. (is_wildcard (ro_pattern r), - int (length (ro_pattern r)), ro_pattern r))"
      by (rule ext) (simp add: candidate_key_def)
    have "sorted (List.map (\<lambda>r. (is_wildcard (ro_pattern r), - int (length (ro_pattern r)), ro_pattern r)) ?ms)"
      by (rule sorted_candidates [where d = domain, OF sorted_filter [OF ord]]) simp
    then show ?thesis by (simp only: map_map key)
  qed
  ultimately have "route_candidates U domain routes = List.map ?c ?ms"
    unfolding route_candidates_def by (rule sort_key_mset)
  moreover have "find (\<lambda>r. match_pattern (ro_pattern r) domain) rs = (case ?ms of [] \<Rightarrow> None | r # _ \<Rightarrow> Some r)"
    by (induction rs) auto
  ultimately show ?thesis
    using assms(3) by (cases ?ms) (auto simp: get_upstream_for_domain_def filter_empty_conv)
qed

theorem route_test_agrees_witness:
  "\<exists>c cs. route_candidates no_urls ''a.lan'' [(''*.lan'', ''1.1.1.1''), (''a.lan'', ''2.2.2.2'')] = c # cs \<and>
     get_upstream_for_domain ''a.lan'' [\<lparr>ro_pattern = ''a.lan'', ro_upstream = ''2.2.2.2''\<rparr>, \<lparr>ro_pattern = ''*.lan'', ro_upstream = ''1.1.1.1''\<rparr>] = cd_upstream c"
proof -
  let ?rs = "[\<lparr>ro_pattern = ''a.lan'', ro_upstream = ''2.2.2.2''\<rparr>, \<lparr>ro_pattern = ''*.lan'', ro_upstream = ''1.1.1.1''\<rparr>]"
  have c: "clean_routes ?rs" by code_simp
  have w: "\<not> is_wildcard ''a.lan''" "to_lower (trim_suffix ''a.lan'' ''.'') = ''a.lan''" by code_simp+
  have m: "mset [(''*.lan'', ''1.1.1.1''), (''a.lan'', ''2.2.2.2'')] = mset (List.map (\<lambda>r. (ro_pattern r, ro_upstream r)) ?rs)" by simp
  have "match_pattern ''a.lan'' ''a.lan''" by (simp add: match_pattern_def)
  then show ?thesis
    using route_test_agrees [OF c w m, of no_urls]
    by (cases "route_candidates no_urls ''a.lan'' [(''*.lan'', ''1.1.1.1''), (''a.lan'', ''2.2.2.2'')]") auto
qed

text \<open>A pattern with a final dot matches in the test and never in a query.\<close>

lemma dotted_pattern_only_tested:
  "\<exists>c. route_candidates no_urls ''a.lan'' [(''a.lan.'', ''2.2.2.2'')] = [c] \<and> cd_upstream c = ''2.2.2.2''"
  "get_upstream_for_domain ''a.lan.'' (routes_of [(''a.lan.'', ''2.2.2.2'')]) = []"
proof -
  have "to_lower (trim_suffix (trim_space ''a.lan.'') ''.'') = ''a.lan''" "\<not> has_prefix ''a.lan'' ''*.''" by code_simp+
  then show "\<exists>c. route_candidates no_urls ''a.lan'' [(''a.lan.'', ''2.2.2.2'')] = [c] \<and> cd_upstream c = ''2.2.2.2''"
    by (simp add: route_candidates_def map_filter_simps candidate_for_def Let_def)
qed code_simp

end
