(* ===== verification/Event_Stream.thy ===== *)
theory Event_Stream
  imports Event_Archive
begin

text \<open>
  api/broadcast.go, the event stream and the event list of api/dashboard.go, and the counters of
  api/metrics.go that a broadcast moves. Events are numbered and stored first (AddEvent) and broadcast in a
  step of its own; every subscriber has a channel of a hundred places. One stream is followed in detail: it
  subscribes, replays what the ring holds after the Last-Event-ID of the client, then sends what its channel
  delivers. The other subscribers are channels only. Flushing and write errors are not modelled.
\<close>

section \<open>Counters\<close>

record latency_bucket =
  lb_count :: int
  lb_sum :: rat
  lb_buckets :: "int list"

definition no_samples :: latency_bucket where
  "no_samples = \<lparr>lb_count = 0, lb_sum = 0, lb_buckets = [0, 0, 0, 0, 0]\<rparr>"

definition sample_slot :: "rat \<Rightarrow> nat" where
  "sample_slot ms = (if ms < 10 then 0 else if ms < 50 then 1 else if ms < 100 then 2 else if ms < 500 then 3 else 4)"

definition add_sample :: "rat \<Rightarrow> latency_bucket \<Rightarrow> latency_bucket" where
  "add_sample ms b =
     b\<lparr>lb_count := lb_count b + 1, lb_sum := lb_sum b + ms, lb_buckets := (lb_buckets b)[sample_slot ms := lb_buckets b ! sample_slot ms + 1]\<rparr>"

record metrics =
  mt_queries :: int
  mt_blocked :: int
  mt_hits :: int
  mt_misses :: int
  mt_types :: "(string, int) gomap"
  mt_latencies :: "(string, latency_bucket) gomap"

definition no_metrics :: metrics where
  "no_metrics = \<lparr>mt_queries = 0, mt_blocked = 0, mt_hits = 0, mt_misses = 0, mt_types = [], mt_latencies = []\<rparr>"

definition inc_queries_by_type :: "string \<Rightarrow> metrics \<Rightarrow> metrics" where
  "inc_queries_by_type t m = m\<lparr>mt_types := gm_set t ((case gm_get (mt_types m) t of None \<Rightarrow> 0 | Some n \<Rightarrow> n) + 1) (mt_types m)\<rparr>"

definition record_upstream_latency :: "string \<Rightarrow> rat \<Rightarrow> metrics \<Rightarrow> metrics" where
  "record_upstream_latency u ms m =
     m\<lparr>mt_latencies := gm_set u (add_sample ms (case gm_get (mt_latencies m) u of None \<Rightarrow> no_samples | Some b \<Rightarrow> b)) (mt_latencies m)\<rparr>"

text \<open>The counters that BroadcastEvent moves.\<close>

definition measure_event :: "stored_event \<Rightarrow> metrics \<Rightarrow> metrics" where
  "measure_event e m0 =
     (let m1 = inc_queries_by_type (qv_type e) (m0\<lparr>mt_queries := mt_queries m0 + 1\<rparr>);
          m2 = (if qv_blocked e then m1\<lparr>mt_blocked := mt_blocked m1 + 1\<rparr> else m1);
          m3 = (if qv_upstream e = ''System Cache'' then m2\<lparr>mt_hits := mt_hits m2 + 1\<rparr>
                else if qv_upstream e \<noteq> [] then m2\<lparr>mt_misses := mt_misses m2 + 1\<rparr> else m2)
      in case qv_latency e of
           None \<Rightarrow> m3
         | Some l \<Rightarrow>
             if qv_upstream e \<noteq> [] \<and> qv_upstream e \<noteq> ''System Cache'' \<and> qv_upstream e \<noteq> ''Local Override''
             then record_upstream_latency (qv_upstream e) l m3 else m3)"

text \<open>escapePrometheusLabel.\<close>

definition escape_prometheus_label :: "string \<Rightarrow> string" where
  "escape_prometheus_label v =
     (let replace = (\<lambda>c w s. concat (List.map (\<lambda>d. if d = c then w else [d]) s))
      in replace (CHR 0x22) [CHR 0x5C, CHR 0x22] (replace (CHR 0x0A) [CHR 0x5C, CHR ''n''] (replace (CHR 0x5C) [CHR 0x5C, CHR 0x5C] v)))"

section \<open>The hub\<close>

definition channel_size :: nat where
  "channel_size = 100"

definition max_consecutive_drops :: nat where
  "max_consecutive_drops = 10"

record channel =
  ch_buffer :: "stored_event list"
  ch_closed :: bool

text \<open>The subscribers with their consecutive drops, all channels ever made, and the count of drops.\<close>

record hub =
  hb_subs :: "(nat, nat) gomap"
  hb_chans :: "channel list"
  hb_drops :: nat

definition new_hub :: hub where
  "new_hub = \<lparr>hb_subs = [], hb_chans = [], hb_drops = 0\<rparr>"

definition subscribe :: "hub \<Rightarrow> nat \<times> hub" where
  "subscribe h = (length (hb_chans h), h\<lparr>hb_subs := gm_set (length (hb_chans h)) 0 (hb_subs h), hb_chans := hb_chans h @ [\<lparr>ch_buffer = [], ch_closed = False\<rparr>]\<rparr>)"

definition unsubscribe :: "nat \<Rightarrow> hub \<Rightarrow> hub" where
  "unsubscribe c h = h\<lparr>hb_subs := gm_del c (hb_subs h)\<rparr>"

text \<open>A send that does not block, for one subscriber.\<close>

definition offer :: "stored_event \<Rightarrow> hub \<Rightarrow> nat \<times> nat \<Rightarrow> hub" where
  "offer e h p =
     (case p of (c, drops) \<Rightarrow>
        let ch = hb_chans h ! c
        in if length (ch_buffer ch) < channel_size then
             h\<lparr>hb_chans := (hb_chans h)[c := ch\<lparr>ch_buffer := ch_buffer ch @ [e]\<rparr>], hb_subs := (if 0 < drops then gm_set c 0 (hb_subs h) else hb_subs h)\<rparr>
           else if max_consecutive_drops < drops + 1 then
             h\<lparr>hb_drops := Suc (hb_drops h), hb_subs := gm_del c (hb_subs h), hb_chans := (hb_chans h)[c := ch\<lparr>ch_closed := True\<rparr>]\<rparr>
           else h\<lparr>hb_drops := Suc (hb_drops h), hb_subs := gm_set c (drops + 1) (hb_subs h)\<rparr>)"

definition send_all :: "stored_event \<Rightarrow> hub \<Rightarrow> hub" where
  "send_all e h = foldl (offer e) h (hb_subs h)"

text \<open>What is added to an event that is broadcast: its number if it has none, the reverse name of the
  client, the verdict of the block list. Resolver and block list are None when not configured.\<close>

record broadcast_env =
  be_hostname :: "(string \<Rightarrow> string) option"
  be_blocked :: "(string \<Rightarrow> bool) option"

definition assign_event_id :: "stored_event \<Rightarrow> event_store \<Rightarrow> stored_event \<times> event_store" where
  "assign_event_id e s = (e\<lparr>qv_id := show_nat (Suc (es_ids s))\<rparr>, s\<lparr>es_ids := Suc (es_ids s)\<rparr>)"

definition enrich_event :: "broadcast_env \<Rightarrow> stored_event \<Rightarrow> stored_event" where
  "enrich_event be e =
     (let e1 = (case be_hostname be of
                  None \<Rightarrow> e
                | Some name \<Rightarrow> if qv_client e \<noteq> [] \<and> name (qv_client e) \<noteq> [] then e\<lparr>qv_hostname := name (qv_client e)\<rparr> else e)
      in case be_blocked be of
           None \<Rightarrow> e1
         | Some block \<Rightarrow> if \<not> qv_blocked e1 \<and> qv_domain e1 \<noteq> [] \<and> block (qv_domain e1) then e1\<lparr>qv_blocked := True\<rparr> else e1)"

section \<open>The stream\<close>

datatype stream_phase = Opened | Live | Ended

record stream =
  sm_chan :: nat
  sm_request :: string
  sm_last :: string
  sm_frames :: "stored_event list"
  sm_phase :: stream_phase

definition valid_uint :: "string \<Rightarrow> bool" where
  "valid_uint v \<longleftrightarrow> all_digits v \<and> dec_val v < 2 ^ 64"

text \<open>handleStream: opening (None is a refusal with status 400), the replay, one receive, the keep-alive.\<close>

definition open_stream :: "string \<Rightarrow> hub \<Rightarrow> (stream \<times> hub) option" where
  "open_stream header h =
     (let i = trim_space header
      in if i \<noteq> [] \<and> \<not> valid_uint i then None
         else case subscribe h of (c, h1) \<Rightarrow> Some (\<lparr>sm_chan = c, sm_request = i, sm_last = i, sm_frames = [], sm_phase = Opened\<rparr>, h1))"

definition write_frame :: "stream \<Rightarrow> stored_event \<Rightarrow> stream" where
  "write_frame st e = st\<lparr>sm_frames := sm_frames st @ [e], sm_last := qv_id e\<rparr>"

definition replay_stream :: "event_store \<Rightarrow> stream \<Rightarrow> stream" where
  "replay_stream s st =
     (let st1 = (if sm_last st \<noteq> [] then foldl write_frame st (get_events_after (sm_last st) 0 (int default_scan_limit) s) else st)
      in st1\<lparr>sm_phase := Live\<rparr>)"

definition end_stream :: "stream \<Rightarrow> hub \<Rightarrow> stream \<times> hub" where
  "end_stream st h = (st\<lparr>sm_phase := Ended\<rparr>, unsubscribe (sm_chan st) h)"

definition receive_stream :: "bool \<Rightarrow> stream \<Rightarrow> hub \<Rightarrow> stream \<times> hub" where
  "receive_stream alive st h =
     (let ch = hb_chans h ! sm_chan st
      in case ch_buffer ch of
           [] \<Rightarrow> if ch_closed ch then end_stream st h else (st, h)
         | e # es \<Rightarrow>
             (let h1 = h\<lparr>hb_chans := (hb_chans h)[sm_chan st := ch\<lparr>ch_buffer := es\<rparr>]\<rparr>
              in if \<not> alive then end_stream st h1
                 else if sm_last st \<noteq> [] \<and> parse_uint (qv_id e) \<le> parse_uint (sm_last st) then (st, h1)
                 else (write_frame st e, h1)))"

definition keepalive_stream :: "bool \<Rightarrow> stream \<Rightarrow> hub \<Rightarrow> stream \<times> hub" where
  "keepalive_stream alive st h = (if alive then (st, h) else end_stream st h)"

section \<open>The whole system\<close>

record live =
  lv_run :: archive_run
  lv_hub :: hub
  lv_metrics :: metrics
  lv_flight :: "stored_event list"  \<comment> \<open>stored or amended, not broadcast yet\<close>
  lv_stream :: "stream option"

definition lv_store :: "live \<Rightarrow> event_store" where
  "lv_store s = ar_store (lv_run s)"

datatype live_op =
    OnStore store_op
  | Announce nat
  | JoinOther
  | LeaveOther nat
  | OpenStream string
  | ReplayStream
  | ReceiveStream bool
  | KeepAlive bool
  | CloseStream

definition broadcast_event :: "broadcast_env \<Rightarrow> stored_event \<Rightarrow> live \<Rightarrow> live" where
  "broadcast_event be e0 s =
     (let (e1, st) = (if qv_id e0 = [] then assign_event_id e0 (lv_store s) else (e0, lv_store s));
          e = enrich_event be e1
      in s\<lparr>lv_run := (lv_run s)\<lparr>ar_store := st\<rparr>, lv_metrics := measure_event e (lv_metrics s), lv_hub := send_all e (lv_hub s)\<rparr>)"

definition store_result :: "store_op \<Rightarrow> event_store \<Rightarrow> stored_event option" where
  "store_result x s =
     (case x of
        RingAdd e \<Rightarrow> Some (fst (ring_event e s))
      | Answered node domain latency up rcode \<Rightarrow> fst (update_event node domain latency up rcode s)
      | _ \<Rightarrow> None)"

definition with_stream :: "(stream \<Rightarrow> hub \<Rightarrow> stream \<times> hub) \<Rightarrow> live \<Rightarrow> live" where
  "with_stream f s =
     (case lv_stream s of
        None \<Rightarrow> s
      | Some st \<Rightarrow> (case f st (lv_hub s) of (st1, h) \<Rightarrow> s\<lparr>lv_stream := Some st1, lv_hub := h\<rparr>))"

definition streaming :: "live \<Rightarrow> stream_phase \<Rightarrow> bool" where
  "streaming s p \<longleftrightarrow> (case lv_stream s of None \<Rightarrow> False | Some st \<Rightarrow> sm_phase st = p)"

definition live_step :: "broadcast_env \<Rightarrow> live_op \<Rightarrow> live \<Rightarrow> live" where
  "live_step be x s =
     (case x of
        OnStore y \<Rightarrow> s\<lparr>lv_run := archive_op y (lv_run s), lv_flight := lv_flight s @ (case store_result y (lv_store s) of None \<Rightarrow> [] | Some e \<Rightarrow> [e])\<rparr>
      | Announce n \<Rightarrow>
          if n < length (lv_flight s) then broadcast_event be (lv_flight s ! n) (s\<lparr>lv_flight := take n (lv_flight s) @ drop (Suc n) (lv_flight s)\<rparr>) else s
      | JoinOther \<Rightarrow> s\<lparr>lv_hub := snd (subscribe (lv_hub s))\<rparr>
      | LeaveOther c \<Rightarrow> if (case lv_stream s of None \<Rightarrow> False | Some st \<Rightarrow> sm_chan st = c) then s else s\<lparr>lv_hub := unsubscribe c (lv_hub s)\<rparr>
      | OpenStream header \<Rightarrow>
          if streaming s Opened \<or> streaming s Live then s
          else (case open_stream header (lv_hub s) of None \<Rightarrow> s | Some (st, h) \<Rightarrow> s\<lparr>lv_stream := Some st, lv_hub := h\<rparr>)
      | ReplayStream \<Rightarrow> if streaming s Opened then with_stream (\<lambda>st h. (replay_stream (lv_store s) st, h)) s else s
      | ReceiveStream alive \<Rightarrow> if streaming s Live then with_stream (receive_stream alive) s else s
      | KeepAlive alive \<Rightarrow> if streaming s Live then with_stream (keepalive_stream alive) s else s
      | CloseStream \<Rightarrow> if streaming s Opened \<or> streaming s Live then with_stream end_stream s else s)"

definition live_run :: "broadcast_env \<Rightarrow> event_store \<Rightarrow> live_op list \<Rightarrow> live" where
  "live_run be s0 xs = foldl (\<lambda>s x. live_step be x s) \<lparr>lv_run = new_run s0, lv_hub = new_hub, lv_metrics = no_metrics, lv_flight = [], lv_stream = None\<rparr> xs"

section \<open>The list of recent events\<close>

record events_reply =
  er_events :: "stored_event list"
  er_next :: "string option"

text \<open>handleEvents; Inl is a status.\<close>

definition handle_events :: "string \<Rightarrow> string \<Rightarrow> string \<Rightarrow> event_store \<Rightarrow> nat + events_reply" where
  "handle_events since0 cursor limit0 s =
     (case (if since0 = [] then Some 0 else atoi since0) of
        None \<Rightarrow> Inl 400
      | Some since \<Rightarrow>
          if since < 0 then Inl 400
          else if cursor \<noteq> [] \<and> \<not> valid_uint cursor then Inl 400
          else (case (if limit0 = [] then Some (int default_scan_limit) else atoi limit0) of
                  None \<Rightarrow> Inl 400
                | Some limit \<Rightarrow>
                    if limit < 1 \<or> int default_scan_limit < limit then Inl 400
                    else let es = (if cursor = [] then take (nat limit) (get_recent_events since s) else get_events_after cursor since limit s)
                         in Inr \<lparr>er_events = es, er_next = (if es = [] then None else Some (show_nat (foldl (\<lambda>m e. max m (parse_uint (qv_id e))) 0 es)))\<rparr>))"

section \<open>The counters add up\<close>

lemma sum_bumped: "sum_list (List.map snd (gm_set k ((case gm_get m k of None \<Rightarrow> 0 | Some n \<Rightarrow> n) + 1) m)) = sum_list (List.map snd m) + (1 :: int)"
proof (induction m)
  case (Cons p m)
  then show ?case by (cases p) (auto simp: algebra_simps)
qed simp

definition metrics_ok :: "metrics \<Rightarrow> bool" where
  "metrics_ok m \<longleftrightarrow> sum_list (List.map snd (mt_types m)) = mt_queries m \<and> gm_ok (mt_latencies m) \<and>
     (\<forall>u b. gm_get (mt_latencies m) u = Some b \<longrightarrow> length (lb_buckets b) = 5 \<and> sum_list (lb_buckets b) = lb_count b)"

lemma sum_list_bump: "k < length xs \<Longrightarrow> sum_list (xs[k := xs ! k + 1]) = sum_list xs + (1 :: int)"
proof (induction xs arbitrary: k)
  case (Cons x xs)
  then show ?case by (cases k) auto
qed simp

lemma add_sample_ok:
  assumes "length (lb_buckets b) = 5 \<and> sum_list (lb_buckets b) = lb_count b"
  shows "length (lb_buckets (add_sample ms b)) = 5 \<and> sum_list (lb_buckets (add_sample ms b)) = lb_count (add_sample ms b)"
proof -
  have "sample_slot ms < length (lb_buckets b)" using assms by (auto simp: sample_slot_def)
  then show ?thesis using assms by (simp add: add_sample_def sum_list_bump)
qed

lemma measure_event_ok: "metrics_ok m \<Longrightarrow> metrics_ok (measure_event e m)"
proof -
  assume ok: "metrics_ok m"
  have counted: "metrics_ok (inc_queries_by_type t (m\<lparr>mt_queries := mt_queries m + 1\<rparr>))" for t
    using ok by (simp add: metrics_ok_def inc_queries_by_type_def sum_bumped)
  have recorded: "metrics_ok (record_upstream_latency u l n)" if "metrics_ok n" for u l n
    using that add_sample_ok [of no_samples l]
    by (auto simp: metrics_ok_def record_upstream_latency_def gm_get_set no_samples_def add_sample_ok simp del: map_of_eq_Some_iff split: option.split)
  have plain: "metrics_ok (n\<lparr>mt_blocked := i\<rparr>) = metrics_ok n" "metrics_ok (n\<lparr>mt_hits := i\<rparr>) = metrics_ok n" "metrics_ok (n\<lparr>mt_misses := i\<rparr>) = metrics_ok n" for n i
    by (simp_all add: metrics_ok_def)
  show ?thesis by (simp add: measure_event_def Let_def plain counted recorded split: option.split)
qed

text \<open>A label can be read back, so it cannot end early.\<close>

fun unescape_label :: "string \<Rightarrow> string" where
  "unescape_label (c # d # v) =
     (if c = CHR 0x5C then (if d = CHR ''n'' then CHR 0x0A else d) # unescape_label v else c # unescape_label (d # v))"
| "unescape_label v = v"

definition escape_char :: "char \<Rightarrow> string" where
  "escape_char c =
     (if c = CHR 0x5C then [CHR 0x5C, CHR 0x5C] else if c = CHR 0x0A then [CHR 0x5C, CHR ''n''] else if c = CHR 0x22 then [CHR 0x5C, CHR 0x22] else [c])"

lemma escape_label_chars: "escape_prometheus_label v = concat (List.map escape_char v)"
  by (induction v) (simp_all add: escape_prometheus_label_def escape_char_def)

lemma label_roundtrip: "unescape_label (escape_prometheus_label v) = v"
proof (induction v)
  case Nil
  show ?case by (simp add: escape_prometheus_label_def)
next
  case (Cons c v)
  have "unescape_label (escape_char c @ w) = c # unescape_label w" for w
    by (cases w) (auto simp: escape_char_def)
  with Cons show ?case by (simp add: escape_label_chars)
qed

section \<open>Sending to every channel\<close>

definition chans_ok :: "hub \<Rightarrow> bool" where
  "chans_ok h \<longleftrightarrow> list_all (\<lambda>ch. length (ch_buffer ch) \<le> channel_size) (hb_chans h)"

definition hub_ok :: "hub \<Rightarrow> bool" where
  "hub_ok h \<longleftrightarrow> gm_ok (hb_subs h) \<and> (\<forall>c. gm_get (hb_subs h) c \<noteq> None \<longrightarrow> c < length (hb_chans h)) \<and> chans_ok h"

text \<open>Sends of one event only add it to some channels.\<close>

definition sent_some :: "stored_event \<Rightarrow> hub \<Rightarrow> hub \<Rightarrow> bool" where
  "sent_some e h h1 \<longleftrightarrow> length (hb_chans h1) = length (hb_chans h) \<and> hb_drops h \<le> hb_drops h1 \<and>
     (\<forall>c < length (hb_chans h). set (ch_buffer (hb_chans h1 ! c)) \<subseteq> insert e (set (ch_buffer (hb_chans h ! c))))"

lemma sent_some_refl [simp]: "sent_some e h h"
  by (auto simp: sent_some_def)

lemma sent_some_trans:
  assumes "sent_some e h h1" and "sent_some e h1 h2"
  shows "sent_some e h h2"
proof -
  have "set (ch_buffer (hb_chans h2 ! c)) \<subseteq> insert e (set (ch_buffer (hb_chans h ! c)))" if "c < length (hb_chans h)" for c
  proof -
    have "set (ch_buffer (hb_chans h2 ! c)) \<subseteq> insert e (set (ch_buffer (hb_chans h1 ! c)))" using assms that by (simp add: sent_some_def)
    also have "\<dots> \<subseteq> insert e (insert e (set (ch_buffer (hb_chans h ! c))))" using assms(1) that by (intro insert_mono) (simp add: sent_some_def)
    finally show ?thesis by simp
  qed
  then show ?thesis using assms by (simp add: sent_some_def)
qed

lemma offer_cases:
  obtains (sent) "length (ch_buffer (hb_chans h ! k)) < channel_size"
      "hb_chans (offer e h (k, d)) = (hb_chans h)[k := (hb_chans h ! k)\<lparr>ch_buffer := ch_buffer (hb_chans h ! k) @ [e]\<rparr>]"
      "hb_subs (offer e h (k, d)) = (if 0 < d then gm_set k 0 (hb_subs h) else hb_subs h)" "hb_drops (offer e h (k, d)) = hb_drops h"
  | (removed) "hb_chans (offer e h (k, d)) = (hb_chans h)[k := (hb_chans h ! k)\<lparr>ch_closed := True\<rparr>]"
      "hb_subs (offer e h (k, d)) = gm_del k (hb_subs h)" "hb_drops (offer e h (k, d)) = Suc (hb_drops h)"
  | (dropped) "hb_chans (offer e h (k, d)) = hb_chans h" "hb_subs (offer e h (k, d)) = gm_set k (d + 1) (hb_subs h)"
      "hb_drops (offer e h (k, d)) = Suc (hb_drops h)"
proof -
  consider "length (ch_buffer (hb_chans h ! k)) < channel_size" | "\<not> length (ch_buffer (hb_chans h ! k)) < channel_size" "max_consecutive_drops < d + 1"
    | "\<not> length (ch_buffer (hb_chans h ! k)) < channel_size" "\<not> max_consecutive_drops < d + 1" by blast
  then show thesis by cases (simp_all add: offer_def Let_def sent removed dropped)
qed

lemma offer_keeps:
  assumes "hub_ok h" and "k < length (hb_chans h)"
  shows "hub_ok (offer e h (k, d))" and "sent_some e h (offer e h (k, d))"
proof -
  note r = offer_cases [of h k e d]
  have p: "gm_ok (hb_subs h)" "\<forall>c. gm_get (hb_subs h) c \<noteq> None \<longrightarrow> c < length (hb_chans h)" "\<forall>n < length (hb_chans h). length (ch_buffer (hb_chans h ! n)) \<le> channel_size"
    using assms(1) by (simp_all add: hub_ok_def chans_ok_def list_all_length)
  show "hub_ok (offer e h (k, d))"
    by (rule r) (use p assms(2) in \<open>auto simp: hub_ok_def chans_ok_def list_all_length nth_list_update gm_get_set gm_get_del simp del: map_of_eq_Some_iff\<close>)
  show "sent_some e h (offer e h (k, d))" by (rule r) (use assms(2) in \<open>auto simp: sent_some_def nth_list_update split: if_splits\<close>)
qed

lemma offers_keep:
  assumes "hub_ok h" and "\<forall>q \<in> set ps. fst q < length (hb_chans h)"
  shows "hub_ok (foldl (offer e) h ps) \<and> sent_some e h (foldl (offer e) h ps)"
  using assms
proof (induction ps arbitrary: h)
  case (Cons q ps)
  obtain k d where q: "q = (k, d)" by (cases q)
  have k: "k < length (hb_chans h)" using Cons.prems(2) q by simp
  note o = offer_keeps [OF Cons.prems(1) k, of e d]
  have "\<forall>q \<in> set ps. fst q < length (hb_chans (offer e h q'))" if "q' = (k, d)" for q'
    using Cons.prems(2) o(2) that by (simp add: sent_some_def)
  then show ?case using Cons.IH [OF o(1)] sent_some_trans [OF o(2)] by (simp add: q)
qed simp

lemma subscribers_listed: "hub_ok h \<Longrightarrow> \<forall>q \<in> set (hb_subs h). fst q < length (hb_chans h)"
  by (fastforce simp: hub_ok_def)

lemma send_all_keeps: "hub_ok h \<Longrightarrow> hub_ok (send_all e h) \<and> sent_some e h (send_all e h)"
  unfolding send_all_def by (rule offers_keep) (simp_all add: subscribers_listed)

text \<open>Without a drop every subscriber gets the event.\<close>

lemma offers_reach:
  assumes "hub_ok h" and "\<forall>q \<in> set ps. fst q < length (hb_chans h)" and "gm_ok ps" and "hb_drops (foldl (offer e) h ps) = hb_drops h"
  shows "hb_chans (foldl (offer e) h ps) ! c = (if c \<in> set (gm_keys ps) then (hb_chans h ! c)\<lparr>ch_buffer := ch_buffer (hb_chans h ! c) @ [e]\<rparr> else hb_chans h ! c) \<and>
    (gm_get (hb_subs h) c \<noteq> None \<longrightarrow> gm_get (hb_subs (foldl (offer e) h ps)) c \<noteq> None)"
  using assms
proof (induction ps arbitrary: h)
  case (Cons q ps)
  obtain k d where q: "q = (k, d)" by (cases q)
  let ?h = "offer e h (k, d)"
  have k: "k < length (hb_chans h)" using Cons.prems(2) q by simp
  note o = offer_keeps [OF Cons.prems(1) k, of e d]
  have later: "\<forall>q \<in> set ps. fst q < length (hb_chans ?h)" using Cons.prems(2) o(2) by (simp add: sent_some_def)
  have "hb_drops ?h \<le> hb_drops (foldl (offer e) ?h ps)" using offers_keep [OF o(1) later, of e] by (simp add: sent_some_def)
  moreover have "hb_drops h \<le> hb_drops ?h" using o(2) by (simp add: sent_some_def)
  ultimately have none: "hb_drops ?h = hb_drops h" "hb_drops (foldl (offer e) ?h ps) = hb_drops ?h" using Cons.prems(4) by (simp_all add: q)
  have one: "hb_chans ?h ! c = (if c = k then (hb_chans h ! c)\<lparr>ch_buffer := ch_buffer (hb_chans h ! c) @ [e]\<rparr> else hb_chans h ! c) \<and>
      (gm_get (hb_subs h) c \<noteq> None \<longrightarrow> gm_get (hb_subs ?h) c \<noteq> None)"
    by (rule offer_cases [of h k e d]) (use k none(1) in \<open>auto simp: gm_get_set\<close>)
  show ?case using Cons.IH [OF o(1) later _ none(2)] Cons.prems(3) one by (auto simp: q)
qed simp

lemma send_all_reach:
  assumes "hub_ok h" and "hb_drops (send_all e h) = hb_drops h" and "gm_get (hb_subs h) c \<noteq> None"
  shows "hb_chans (send_all e h) ! c = (hb_chans h ! c)\<lparr>ch_buffer := ch_buffer (hb_chans h ! c) @ [e]\<rparr>" and "gm_get (hb_subs (send_all e h)) c \<noteq> None"
proof -
  have "c \<in> set (gm_keys (hb_subs h))" using assms(3) by (auto simp: map_of_eq_None_iff)
  then show "hb_chans (send_all e h) ! c = (hb_chans h ! c)\<lparr>ch_buffer := ch_buffer (hb_chans h ! c) @ [e]\<rparr>" and "gm_get (hb_subs (send_all e h)) c \<noteq> None"
    using offers_reach [OF assms(1) subscribers_listed [OF assms(1)], of e c] assms by (auto simp: send_all_def hub_ok_def)
qed

section \<open>Frames ascend\<close>

definition pid :: "stored_event \<Rightarrow> nat" where
  "pid e = parse_uint (qv_id e)"

definition numbered :: "nat \<Rightarrow> stored_event \<Rightarrow> bool" where
  "numbered n e \<longleftrightarrow> (\<exists>k. 1 \<le> k \<and> k \<le> n \<and> qv_id e = show_nat k)"

lemma numbered_mono: "numbered n e \<Longrightarrow> n \<le> m \<Longrightarrow> numbered m e"
  unfolding numbered_def by (meson order_trans)

lemma numbered_pid:
  assumes "numbered n e" and "n < 2 ^ 64"
  shows "1 \<le> pid e" and "pid e \<le> n" and "qv_id e = show_nat (pid e)" and "qv_id e \<noteq> []"
proof -
  obtain k where k: "1 \<le> k" "k \<le> n" "qv_id e = show_nat k" using assms(1) by (auto simp: numbered_def)
  have "pid e = k" using k assms(2) by (simp add: pid_def parse_show)
  moreover have "show_nat k \<noteq> []" using show_nat_digits [of k] by (auto simp: all_digits_def)
  ultimately show "1 \<le> pid e" "pid e \<le> n" "qv_id e = show_nat (pid e)" "qv_id e \<noteq> []" using k by simp_all
qed

lemma scanned_in_ring:
  assumes "ring_ok s" and "scan_ring P s = Some i"
  shows "es_ring s ! i \<in> set (ring_events s)"
proof -
  obtain j where j: "j < es_count s" "i = ring_slot s j"
    using assms(2) by (auto simp: scan_ring_def find_Some_iff simp del: upt_Suc)
  have le: "es_count s \<le> es_max s" using assms(1) by (simp add: ring_ok_def)
  have "es_head s + es_max s - es_count s + (es_count s - 1 - j) = es_head s + es_max s - 1 - j" using j(1) le by linarith
  then have "ring_events s ! (es_count s - 1 - j) = es_ring s ! i" using j by (simp add: ring_events_def ring_slot_def)
  moreover have "es_count s - 1 - j < length (ring_events s)" using j(1) by simp
  ultimately show ?thesis by (metis nth_mem)
qed

lemma ring_numbered:
  assumes "archive_inv r" and "e \<in> set (ring_events (ar_store r))"
  shows "numbered (es_ids (ar_store r)) e"
proof -
  let ?s = "ar_store r"
  have "qv_id e \<in> set (List.map qv_id (ring_events ?s))" using assms(2) by simp
  also have "\<dots> = show_nat ` {Suc (es_ids ?s) - es_count ?s..<Suc (es_ids ?s)}"
    using assms(1) by (simp add: archive_inv_def Let_def last_ids_def del: upt_Suc)
  finally obtain k where "k \<in> {Suc (es_ids ?s) - es_count ?s..<Suc (es_ids ?s)}" "qv_id e = show_nat k" by blast
  moreover have "es_count ?s \<le> es_ids ?s" using assms(1) by (simp add: archive_inv_def Let_def)
  ultimately show ?thesis unfolding numbered_def by (intro exI [where x = k]) auto
qed

lemma result_numbered:
  assumes "archive_inv r" and "store_result x (ar_store r) = Some e"
  shows "numbered (es_ids (ar_store (archive_op x r))) e"
proof (cases x)
  case (RingAdd e0)
  with assms(2) show ?thesis using step_frame(2) [OF assms(1), of x]
    by (auto simp: store_result_def ring_event_def Let_def numbered_def is_addition_def intro!: exI [where x = "Suc (es_ids (ar_store r))"])
next
  case (Answered node domain latency up rcode)
  have ok: "ring_ok (ar_store r)" using assms(1) by (simp add: archive_inv_def Let_def)
  obtain i where i: "scan_ring (unanswered node domain) (ar_store r) = Some i" "qv_id e = qv_id (es_ring (ar_store r) ! i)"
    using assms(2) Answered by (auto simp: store_result_def update_event_def Let_def split: option.splits)
  have "numbered (es_ids (ar_store r)) (es_ring (ar_store r) ! i)"
    by (rule ring_numbered [OF assms(1) scanned_in_ring [OF ok i(1)]])
  then show ?thesis using step_frame(2) [OF assms(1), of x] i(2) Answered by (simp add: numbered_def is_addition_def)
qed (use assms(2) in \<open>simp_all add: store_result_def\<close>)

text \<open>What the ring returns after a number ascends.\<close>

lemma after_ascends:
  assumes inv: "archive_inv r" and small: "es_ids (ar_store r) < 2 ^ 64"
  shows "sorted_wrt (<) (List.map pid (get_events_after c 0 limit (ar_store r)))"
    and "e \<in> set (get_events_after c 0 limit (ar_store r)) \<Longrightarrow> numbered (es_ids (ar_store r)) e \<and> parse_uint c < pid e"
proof -
  let ?s = "ar_store r"
  have "List.map pid (ring_events ?s) = List.map parse_uint (last_ids (es_ids ?s) (es_count ?s))"
  proof -
    have "List.map pid (ring_events ?s) = List.map parse_uint (List.map qv_id (ring_events ?s))" by (simp add: pid_def)
    also have "List.map qv_id (ring_events ?s) = last_ids (es_ids ?s) (es_count ?s)" using inv by (simp only: archive_inv_def Let_def)
    finally show ?thesis .
  qed
  also have "\<dots> = [Suc (es_ids ?s) - es_count ?s..<Suc (es_ids ?s)]"
    unfolding last_ids_def map_map o_def using small by (intro map_idI) (auto simp: parse_show simp del: upt_Suc)
  finally have ids: "sorted_wrt (<) (List.map pid (ring_events ?s))" by (simp del: upt_Suc)
  have "sorted_wrt (<) (List.map pid (filter Q (ring_events ?s)))" for Q
    using ids by (simp add: sorted_wrt_map sorted_wrt_filter)
  then show "sorted_wrt (<) (List.map pid (get_events_after c 0 limit ?s))"
    unfolding events_after_ring by (simp add: sorted_wrt_take flip: take_map)
  show "e \<in> set (get_events_after c 0 limit ?s) \<Longrightarrow> numbered (es_ids ?s) e \<and> parse_uint c < pid e"
  proof -
    assume "e \<in> set (get_events_after c 0 limit ?s)"
    then have e: "e \<in> set (ring_events ?s)" "0 < parse_uint c \<and> parse_uint c < pid e \<or> parse_uint c = 0"
      by (auto simp: events_after_ring pid_def dest!: in_set_takeD)
    have n: "numbered (es_ids ?s) e" by (rule ring_numbered [OF inv e(1)])
    with e(2) numbered_pid [OF n small] show ?thesis by auto
  qed
qed

definition frames_ok :: "nat \<Rightarrow> stream \<Rightarrow> bool" where
  "frames_ok n st \<longleftrightarrow> sorted_wrt (<) (List.map pid (sm_frames st)) \<and>
     (\<forall>f \<in> set (sm_frames st). numbered n f \<and> parse_uint (sm_request st) < pid f \<and> pid f \<le> parse_uint (sm_last st)) \<and>
     (sm_last st = [] \<longrightarrow> sm_frames st = []) \<and> (sm_frames st = [] \<longrightarrow> sm_last st = sm_request st)"

lemma frames_ok_mono: "frames_ok n st \<Longrightarrow> n \<le> m \<Longrightarrow> frames_ok m st"
  by (auto simp: frames_ok_def intro: numbered_mono)

lemma frames_ok_phase [simp]: "frames_ok n (st\<lparr>sm_phase := p\<rparr>) = frames_ok n st"
  by (simp add: frames_ok_def)

lemma write_frame_ok:
  assumes "frames_ok n st" and "numbered n e" and "n < 2 ^ 64" and "sm_last st = [] \<or> parse_uint (sm_last st) < pid e"
  shows "frames_ok n (write_frame st e)"
proof -
  note e = numbered_pid(1,4) [OF assms(2,3)]
  have low: "pid f < pid e" if "f \<in> set (sm_frames st)" for f
    using that assms(1,4) by (fastforce simp: frames_ok_def)
  have "parse_uint (sm_request st) < pid e"
  proof (cases "sm_frames st")
    case Nil
    then have "sm_request st = sm_last st" using assms(1) by (simp add: frames_ok_def)
    with assms(4) e(1) show ?thesis by (auto simp: parse_uint_def all_digits_def)
  next
    case (Cons f fs)
    then have "parse_uint (sm_request st) < pid f" using assms(1) by (simp add: frames_ok_def)
    with low [of f] Cons show ?thesis by simp
  qed
  with assms(1,2) low e show ?thesis
    by (auto simp: frames_ok_def write_frame_def sorted_wrt_append pid_def less_imp_le)
qed

lemma write_frames_ok:
  assumes "frames_ok n st" and "n < 2 ^ 64" and "sorted_wrt (<) (List.map pid es)"
    and "\<forall>e \<in> set es. numbered n e \<and> (sm_last st = [] \<or> parse_uint (sm_last st) < pid e)"
  shows "frames_ok n (foldl write_frame st es)"
  using assms
proof (induction es arbitrary: st)
  case (Cons e es)
  have "frames_ok n (write_frame st e)" using Cons.prems by (intro write_frame_ok) auto
  moreover have "\<forall>f \<in> set es. numbered n f \<and> (sm_last (write_frame st e) = [] \<or> parse_uint (sm_last (write_frame st e)) < pid f)"
    using Cons.prems by (auto simp: write_frame_def pid_def)
  ultimately show ?case using Cons.IH Cons.prems by simp
qed simp

lemma replay_frames_ok:
  assumes "frames_ok (es_ids (ar_store r)) st" and "archive_inv r" and "es_ids (ar_store r) < 2 ^ 64"
  shows "frames_ok (es_ids (ar_store r)) (replay_stream (ar_store r) st)"
  using assms(1) write_frames_ok [OF assms(1,3) after_ascends(1) [OF assms(2,3), of "sm_last st" "int default_scan_limit"]] after_ascends(2) [OF assms(2,3)]
  by (simp add: replay_stream_def Let_def)

definition live_inv :: "live \<Rightarrow> bool" where
  "live_inv s \<longleftrightarrow> (let n = es_ids (lv_store s) in
     archive_inv (lv_run s) \<and> hub_ok (lv_hub s) \<and> metrics_ok (lv_metrics s) \<and>
     (\<forall>c < length (hb_chans (lv_hub s)). \<forall>e \<in> set (ch_buffer (hb_chans (lv_hub s) ! c)). numbered n e) \<and>
     (\<forall>e \<in> set (lv_flight s). numbered n e) \<and>
     (\<forall>st. lv_stream s = Some st \<longrightarrow> sm_chan st < length (hb_chans (lv_hub s)) \<and> (n < 2 ^ 64 \<longrightarrow> frames_ok n st)))"

lemma enrich_id [simp]: "qv_id (enrich_event be e) = qv_id e"
  by (simp add: enrich_event_def Let_def split: option.split)

lemma numbered_enrich [simp]: "numbered n (enrich_event be e) = numbered n e"
  by (simp add: numbered_def)

lemma numbered_not_blank: "numbered n e \<Longrightarrow> qv_id e \<noteq> []"
  by (metis all_digits_def numbered_def show_nat_digits)

lemma broadcast_numbered:
  "numbered n e \<Longrightarrow> broadcast_event be e s =
     s\<lparr>lv_metrics := measure_event (enrich_event be e) (lv_metrics s), lv_hub := send_all (enrich_event be e) (lv_hub s)\<rparr>"
  using numbered_not_blank by (simp add: broadcast_event_def lv_store_def Let_def)

lemma subscribe_keeps: "hub_ok h \<Longrightarrow> hub_ok (snd (subscribe h))"
  by (auto simp: hub_ok_def chans_ok_def subscribe_def gm_get_set less_Suc_eq simp del: map_of_eq_Some_iff)

lemma unsubscribe_keeps: "hub_ok h \<Longrightarrow> hub_ok (unsubscribe c h)"
  by (auto simp: hub_ok_def chans_ok_def unsubscribe_def gm_get_del simp del: map_of_eq_Some_iff)

lemma store_step_inv:
  assumes "live_inv s"
  shows "live_inv (live_step be (OnStore y) s)"
proof -
  let ?n = "es_ids (lv_store s)" and ?s = "live_step be (OnStore y) s"
  have a: "archive_inv (lv_run s)" using assms by (simp add: live_inv_def Let_def)
  have n: "?n \<le> es_ids (lv_store ?s)" using step_frame(2) [OF a, of y] by (simp add: live_step_def lv_store_def)
  have f: "\<forall>e \<in> set (lv_flight ?s). numbered (es_ids (lv_store ?s)) e"
    using assms n result_numbered [OF a, of y]
    by (auto simp: live_inv_def Let_def live_step_def lv_store_def intro: numbered_mono split: option.split)
  have rest: "archive_inv (lv_run ?s)" "lv_hub ?s = lv_hub s" "lv_stream ?s = lv_stream s" "lv_metrics ?s = lv_metrics s"
    using archive_op_inv [OF a] by (simp_all add: live_step_def)
  show ?thesis using assms n f unfolding live_inv_def Let_def rest(2-4)
    by (auto intro: rest(1) numbered_mono frames_ok_mono)
qed

lemma announce_inv:
  assumes "live_inv s"
  shows "live_inv (live_step be (Announce k) s)"
proof (cases "k < length (lv_flight s)")
  case True
  let ?e = "enrich_event be (lv_flight s ! k)" and ?n = "es_ids (lv_store s)"
  have h: "hub_ok (lv_hub s)" and num: "numbered ?n (lv_flight s ! k)" using assms True by (auto simp: live_inv_def Let_def)
  have step: "live_step be (Announce k) s = s\<lparr>lv_flight := take k (lv_flight s) @ drop (Suc k) (lv_flight s),
      lv_metrics := measure_event ?e (lv_metrics s), lv_hub := send_all ?e (lv_hub s)\<rparr>"
    using True broadcast_numbered [OF num] by (simp add: live_step_def)
  note sent = send_all_keeps [OF h, of ?e]
  have "\<forall>c < length (hb_chans (send_all ?e (lv_hub s))). \<forall>e \<in> set (ch_buffer (hb_chans (send_all ?e (lv_hub s)) ! c)). numbered ?n e"
    using sent assms num by (fastforce simp: sent_some_def live_inv_def Let_def)
  then show ?thesis using assms sent unfolding step
    by (auto simp: live_inv_def Let_def lv_store_def sent_some_def measure_event_ok dest: in_set_takeD in_set_dropD)
next
  case False
  with assms show ?thesis by (simp add: live_step_def)
qed

text \<open>Steps of the stream: a step that changes one stream and one channel.\<close>

lemma stream_step_inv:
  assumes inv: "live_inv s" and st: "lv_stream s = Some st"
    and f: "f st (lv_hub s) = (st1, h1)" "hub_ok h1" "sm_chan st1 = sm_chan st" "length (hb_chans h1) = length (hb_chans (lv_hub s))"
    and b: "\<And>c. c < length (hb_chans (lv_hub s)) \<Longrightarrow> set (ch_buffer (hb_chans h1 ! c)) \<subseteq> set (ch_buffer (hb_chans (lv_hub s) ! c))"
    and g: "es_ids (lv_store s) < 2 ^ 64 \<Longrightarrow> frames_ok (es_ids (lv_store s)) st \<Longrightarrow> frames_ok (es_ids (lv_store s)) st1"
  shows "live_inv (with_stream f s)"
proof -
  have w: "with_stream f s = s\<lparr>lv_stream := Some st1, lv_hub := h1\<rparr>" using st f(1) by (simp add: with_stream_def)
  have "\<forall>c < length (hb_chans h1). \<forall>e \<in> set (ch_buffer (hb_chans h1 ! c)). numbered (es_ids (lv_store s)) e"
    using inv b f(4) unfolding live_inv_def Let_def by (metis subsetD)
  moreover have "sm_chan st1 < length (hb_chans h1)" "es_ids (lv_store s) < 2 ^ 64 \<longrightarrow> frames_ok (es_ids (lv_store s)) st1"
    using inv st f(3,4) g by (simp_all add: live_inv_def Let_def)
  ultimately show ?thesis using inv f(2) unfolding w by (simp add: live_inv_def Let_def lv_store_def)
qed

lemma end_stream_inv:
  assumes "live_inv s"
  shows "live_inv (with_stream end_stream s)"
proof (cases "lv_stream s")
  case None
  with assms show ?thesis by (simp add: with_stream_def)
next
  case (Some st)
  have "hub_ok (unsubscribe (sm_chan st) (lv_hub s))" using assms by (simp add: live_inv_def Let_def unsubscribe_keeps)
  moreover have "hb_chans (unsubscribe (sm_chan st) (lv_hub s)) = hb_chans (lv_hub s)" by (simp add: unsubscribe_def)
  ultimately show ?thesis
    by (intro stream_step_inv [OF assms Some end_stream_def]) simp_all
qed

lemma same_stream: "lv_stream s = Some st \<Longrightarrow> s\<lparr>lv_stream := Some st\<rparr> = s"
  by (cases s) simp

lemma receive_inv:
  assumes "live_inv s"
  shows "live_inv (with_stream (receive_stream alive) s)"
proof (cases "lv_stream s")
  case None
  with assms show ?thesis by (simp add: with_stream_def)
next
  case (Some st)
  let ?h = "lv_hub s" and ?n = "es_ids (lv_store s)"
  let ?ch = "hb_chans ?h ! sm_chan st"
  have h: "hub_ok ?h" and c: "sm_chan st < length (hb_chans ?h)" using assms Some by (auto simp: live_inv_def Let_def)
  show ?thesis
  proof (cases "ch_buffer ?ch")
    case Nil
    show ?thesis using Nil Some assms end_stream_inv [OF assms] by (simp add: with_stream_def receive_stream_def Let_def same_stream)
  next
    case (Cons e es)
    let ?h1 = "?h\<lparr>hb_chans := (hb_chans ?h)[sm_chan st := ?ch\<lparr>ch_buffer := es\<rparr>]\<rparr>"
    have num: "numbered ?n e" using assms c Cons by (fastforce simp: live_inv_def Let_def)
    have h1: "hub_ok ?h1" using h c Cons by (auto simp: hub_ok_def chans_ok_def list_all_length nth_list_update dest: spec [of _ "sm_chan st"])
    have b: "set (ch_buffer (hb_chans ?h1 ! d)) \<subseteq> set (ch_buffer (hb_chans ?h ! d))" for d
      using Cons c by (auto simp: nth_list_update)
    have all: "live_inv (with_stream (\<lambda>_ _. (st1, ?h1)) s)"
      if "sm_chan st1 = sm_chan st" "?n < 2 ^ 64 \<Longrightarrow> frames_ok ?n st \<Longrightarrow> frames_ok ?n st1" for st1
      by (rule stream_step_inv [OF assms Some, of _ st1 ?h1]) (use h1 b that in auto)
    show ?thesis
    proof (cases "\<not> alive")
      case True
      then have "with_stream (receive_stream alive) s = with_stream end_stream (with_stream (\<lambda>_ _. (st, ?h1)) s)"
        using Some Cons by (simp add: with_stream_def receive_stream_def Let_def)
      then show ?thesis using end_stream_inv [OF all [of st]] by simp
    next
      case False
      show ?thesis
      proof (cases "sm_last st \<noteq> [] \<and> parse_uint (qv_id e) \<le> parse_uint (sm_last st)")
        case True
        then show ?thesis using False all [of st] Some Cons by (simp add: with_stream_def receive_stream_def Let_def)
      next
        case fresh: False
        have "frames_ok ?n (write_frame st e)" if "?n < 2 ^ 64" "frames_ok ?n st"
          by (rule write_frame_ok [OF that(2) num that(1)]) (use fresh in \<open>auto simp: pid_def\<close>)
        moreover have "sm_chan (write_frame st e) = sm_chan st" by (simp add: write_frame_def)
        ultimately have "live_inv (with_stream (\<lambda>_ _. (write_frame st e, ?h1)) s)" by (intro all)
        then show ?thesis using False fresh Some Cons by (auto simp: with_stream_def receive_stream_def Let_def)
      qed
    qed
  qed
qed

lemma replay_inv:
  assumes "live_inv s"
  shows "live_inv (with_stream (\<lambda>st h. (replay_stream (lv_store s) st, h)) s)"
proof (cases "lv_stream s")
  case None
  with assms show ?thesis by (simp add: with_stream_def)
next
  case (Some st)
  have a: "archive_inv (lv_run s)" "hub_ok (lv_hub s)" using assms by (simp_all add: live_inv_def Let_def)
  have chan: "sm_chan (foldl write_frame st es) = sm_chan st" for st es by (induction es arbitrary: st) (simp_all add: write_frame_def)
  show ?thesis
    by (rule stream_step_inv [OF assms Some refl])
      (use a replay_frames_ok [OF _ a(1)] in \<open>simp_all add: replay_stream_def Let_def chan lv_store_def\<close>)
qed

lemma live_step_inv: "live_inv s \<Longrightarrow> live_inv (live_step be x s)"
proof (cases x)
  case (OpenStream header)
  assume inv: "live_inv s"
  show ?thesis
  proof (cases "streaming s Opened \<or> streaming s Live \<or> open_stream header (lv_hub s) = None")
    case True
    with inv OpenStream show ?thesis by (auto simp: live_step_def)
  next
    case False
    then obtain i where i: "open_stream header (lv_hub s) =
        Some (\<lparr>sm_chan = length (hb_chans (lv_hub s)), sm_request = i, sm_last = i, sm_frames = [], sm_phase = Opened\<rparr>, snd (subscribe (lv_hub s)))"
      by (auto simp: open_stream_def subscribe_def Let_def split: if_splits)
    have "hub_ok (snd (subscribe (lv_hub s)))" using inv by (simp add: live_inv_def Let_def subscribe_keeps)
    moreover have "length (hb_chans (snd (subscribe (lv_hub s)))) = Suc (length (hb_chans (lv_hub s)))"
      "hb_chans (snd (subscribe (lv_hub s))) = hb_chans (lv_hub s) @ [\<lparr>ch_buffer = [], ch_closed = False\<rparr>]" by (simp_all add: subscribe_def)
    ultimately show ?thesis using inv False i OpenStream
      by (auto simp: live_step_def live_inv_def Let_def lv_store_def frames_ok_def nth_append)
  qed
next
  case JoinOther
  assume inv: "live_inv s"
  have "hb_chans (snd (subscribe (lv_hub s))) = hb_chans (lv_hub s) @ [\<lparr>ch_buffer = [], ch_closed = False\<rparr>]" by (simp add: subscribe_def)
  with inv JoinOther show ?thesis by (auto simp: live_step_def live_inv_def Let_def lv_store_def subscribe_keeps nth_append)
next
  case (LeaveOther c)
  assume inv: "live_inv s"
  have "hb_chans (unsubscribe c (lv_hub s)) = hb_chans (lv_hub s)" by (simp add: unsubscribe_def)
  with inv LeaveOther show ?thesis by (auto simp: live_step_def live_inv_def Let_def lv_store_def unsubscribe_keeps)
next
  case (KeepAlive alive)
  assume inv: "live_inv s"
  have "live_inv (with_stream (keepalive_stream alive) s)"
  proof (cases alive)
    case True
    with inv show ?thesis by (cases "lv_stream s") (simp_all add: with_stream_def keepalive_stream_def same_stream)
  next
    case False
    then have "keepalive_stream alive = end_stream" by (simp add: fun_eq_iff keepalive_stream_def)
    then show ?thesis using end_stream_inv [OF inv] by simp
  qed
  with inv KeepAlive show ?thesis by (simp add: live_step_def)
qed (simp_all add: store_step_inv announce_inv live_step_def [of _ ReplayStream] live_step_def [of _ "ReceiveStream _"] live_step_def [of _ CloseStream]
    replay_inv receive_inv end_stream_inv)

lemma live_run_inv: "live_inv (live_run be (new_store (Suc m) threshold persistent capacity trigger chunk) xs)"
proof -
  have "live_inv s \<Longrightarrow> live_inv (foldl (\<lambda>s x. live_step be x s) s xs)" for s
    by (induction xs arbitrary: s) (simp_all add: live_step_inv)
  moreover have "live_inv \<lparr>lv_run = new_run (new_store (Suc m) threshold persistent capacity trigger chunk), lv_hub = new_hub, lv_metrics = no_metrics,
      lv_flight = [], lv_stream = None\<rparr>"
    using new_run_inv [of m threshold persistent capacity trigger chunk]
    by (simp add: live_inv_def Let_def hub_ok_def chans_ok_def new_hub_def metrics_ok_def no_metrics_def)
  ultimately show ?thesis by (simp add: live_run_def)
qed

text \<open>C0: Whatever the interleaving of events, amendments, broadcasts, subscribers, archiver and the steps of
  the stream: the events one stream sends carry strictly rising numbers that were given out and lie above
  the Last-Event-ID of its client, so no event is sent twice; no channel ever holds more than a hundred
  events; and the counters agree, as the queries by type add up to all queries and the buckets of an
  upstream's latencies to their count.\<close>

theorem stream_ascends:
  assumes "lv_stream (live_run be (new_store (Suc m) threshold persistent capacity trigger chunk) xs) = Some st"
    and "es_ids (lv_store (live_run be (new_store (Suc m) threshold persistent capacity trigger chunk) xs)) < 2 ^ 64"
  shows "let s = live_run be (new_store (Suc m) threshold persistent capacity trigger chunk) xs; ids = List.map (\<lambda>e. parse_uint (qv_id e)) (sm_frames st)
    in sorted_wrt (<) ids \<and> list_all (\<lambda>i. parse_uint (sm_request st) < i \<and> i \<le> es_ids (lv_store s)) ids \<and>
       list_all (\<lambda>ch. length (ch_buffer ch) \<le> 100) (hb_chans (lv_hub s)) \<and>
       sum_list (List.map snd (mt_types (lv_metrics s))) = mt_queries (lv_metrics s) \<and>
       list_all (\<lambda>(u, b). sum_list (lb_buckets b) = lb_count b) (mt_latencies (lv_metrics s))"
proof -
  define s where "s = live_run be (new_store (Suc m) threshold persistent capacity trigger chunk) xs"
  have inv: "live_inv s" unfolding s_def by (rule live_run_inv)
  have f: "frames_ok (es_ids (lv_store s)) st" using inv assms by (simp add: live_inv_def Let_def s_def)
  have ids: "sorted_wrt (<) (List.map pid (sm_frames st))" using f by (simp add: frames_ok_def)
  have low: "list_all (\<lambda>i. parse_uint (sm_request st) < i \<and> i \<le> es_ids (lv_store s)) (List.map pid (sm_frames st))"
    using f numbered_pid(2) [OF _ assms(2) [folded s_def]] by (auto simp: frames_ok_def list_all_iff)
  have full: "list_all (\<lambda>ch. length (ch_buffer ch) \<le> 100) (hb_chans (lv_hub s))"
    using inv by (simp add: live_inv_def Let_def hub_ok_def chans_ok_def channel_size_def)
  have types: "sum_list (List.map snd (mt_types (lv_metrics s))) = mt_queries (lv_metrics s)"
    using inv by (simp add: live_inv_def Let_def metrics_ok_def)
  have lat: "list_all (\<lambda>(u, b). sum_list (lb_buckets b) = lb_count b) (mt_latencies (lv_metrics s))"
    using inv by (fastforce simp: live_inv_def Let_def metrics_ok_def list_all_iff)
  show ?thesis
    using ids low full types lat unfolding Let_def pid_def [abs_def] s_def by blast
qed

section \<open>No gap\<close>

lemma filter_upt: "filter (\<lambda>k. c < k) [a..<b] = [max a (Suc c)..<b]"
  by (induction b) auto

lemma after_exact:
  assumes inv: "archive_inv r" and small: "es_ids (ar_store r) < 2 ^ 64" and c: "0 < parse_uint v"
    and close: "es_ids (ar_store r) \<le> parse_uint v + min default_scan_limit (es_max (ar_store r))"
  shows "List.map pid (get_events_after v 0 (int default_scan_limit) (ar_store r)) = [Suc (parse_uint v)..<Suc (es_ids (ar_store r))]"
proof -
  let ?s = "ar_store r" and ?c = "parse_uint v"
  let ?n = "es_ids ?s" and ?k = "es_count ?s"
  have count: "?k = min ?n (es_max ?s)" using inv by (simp add: archive_inv_def Let_def)
  have "List.map pid (ring_events ?s) = List.map parse_uint (List.map qv_id (ring_events ?s))" by (simp add: pid_def)
  also have "List.map qv_id (ring_events ?s) = last_ids ?n ?k" using inv by (simp only: archive_inv_def Let_def)
  also have "List.map parse_uint (last_ids ?n ?k) = [Suc ?n - ?k..<Suc ?n]"
    unfolding last_ids_def map_map o_def using small by (intro map_idI) (auto simp: parse_show simp del: upt_Suc)
  finally have ids: "List.map pid (ring_events ?s) = [Suc ?n - ?k..<Suc ?n]" .
  have "List.map pid (get_events_after v 0 (int default_scan_limit) ?s) =
      take (stream_limit (int default_scan_limit)) (filter (\<lambda>k. ?c < k) (List.map pid (ring_events ?s)))"
    using c by (simp add: events_after_ring take_map filter_map o_def pid_def)
  also have "\<dots> = take default_scan_limit [max (Suc ?n - ?k) (Suc ?c)..<Suc ?n]"
    unfolding ids filter_upt by (simp add: stream_limit_def default_scan_limit_def)
  also have "max (Suc ?n - ?k) (Suc ?c) = Suc ?c" using close count c by linarith
  also have "take default_scan_limit [Suc ?c..<Suc ?n] = [Suc ?c..<Suc ?n]" using close by (simp del: upt_Suc)
  finally show ?thesis .
qed

text \<open>Turns: an event is broadcast right after it is stored, and nothing is amended.\<close>

definition quiet_store :: "store_op \<Rightarrow> bool" where
  "quiet_store y = (case y of RingAdd _ \<Rightarrow> False | Answered _ _ _ _ _ \<Rightarrow> False | _ \<Rightarrow> True)"

definition in_turn :: "live_op list \<Rightarrow> bool" where
  "in_turn ops =
     (case ops of
        [OnStore y] \<Rightarrow> quiet_store y
      | [Announce k] \<Rightarrow> False
      | [x] \<Rightarrow> True
      | [OnStore y, Announce k] \<Rightarrow> is_addition y \<and> k = 0
      | _ \<Rightarrow> False)"

text \<open>What the channel still holds continues what was sent.\<close>

definition gapless :: "nat \<Rightarrow> hub \<Rightarrow> stream \<Rightarrow> bool" where
  "gapless n h st \<longleftrightarrow>
     sm_chan st < length (hb_chans h) \<and> gm_get (hb_subs h) (sm_chan st) \<noteq> None \<and> sm_last st \<noteq> [] \<and>
     (\<exists>k \<le> n. List.map qv_id (ch_buffer (hb_chans h ! sm_chan st)) = List.map show_nat [Suc k..<Suc n] \<and>
        (if sm_phase st = Opened then sm_frames st = [] \<and> sm_last st = sm_request st
         else k \<le> parse_uint (sm_last st) \<and> parse_uint (sm_last st) \<le> max (parse_uint (sm_request st)) n \<and>
              parse_uint (sm_request st) \<le> parse_uint (sm_last st) \<and>
              List.map pid (sm_frames st) = [Suc (parse_uint (sm_request st))..<Suc (parse_uint (sm_last st))]))"

text \<open>The stream keeps up: no drop, a real number to start from, and the ring reaches back to it.\<close>

definition keeps_up :: "live \<Rightarrow> stream \<Rightarrow> bool" where
  "keeps_up s st \<longleftrightarrow> sm_phase st \<noteq> Ended \<and> hb_drops (lv_hub s) = 0 \<and> 0 < parse_uint (sm_request st) \<and> es_ids (lv_store s) < 2 ^ 64 \<and>
     es_ids (lv_store s) \<le> parse_uint (sm_request st) + min default_scan_limit (es_max (lv_store s))"

definition gap_inv :: "live \<Rightarrow> bool" where
  "gap_inv s \<longleftrightarrow> lv_flight s = [] \<and> (\<forall>st. lv_stream s = Some st \<and> keeps_up s st \<longrightarrow> gapless (es_ids (lv_store s)) (lv_hub s) st)"

lemma turn_cases:
  assumes "in_turn ops"
  obtains (added) e where "ops = [OnStore (RingAdd e), Announce 0]"
  | (quiet) y where "ops = [OnStore y]" "quiet_store y"
  | (single) x where "ops = [x]" "\<forall>y k. x \<noteq> OnStore y \<and> x \<noteq> Announce k"
proof (cases ops)
  case Nil
  with assms show thesis by (simp add: in_turn_def)
next
  case (Cons x xs)
  show thesis
  proof (cases xs)
    case Nil
    show thesis
    proof (cases x)
      case (OnStore y)
      with assms Cons Nil show thesis by (intro quiet) (simp_all add: in_turn_def)
    next
      case (Announce k)
      with assms Cons Nil show thesis by (simp add: in_turn_def)
    qed (use Cons Nil single in simp_all)
  next
    case two: (Cons z zs)
    have "zs = []" using assms Cons two by (cases zs; cases x; cases z) (simp_all add: in_turn_def)
    moreover obtain e where "x = OnStore (RingAdd e)"
      using assms Cons two \<open>zs = []\<close> by (cases x; cases z) (auto simp: in_turn_def is_addition_def split: store_op.splits)
    moreover have "z = Announce 0" using assms Cons two \<open>zs = []\<close> by (cases x; cases z) (simp_all add: in_turn_def)
    ultimately show thesis using Cons two by (intro added) simp
  qed
qed

text \<open>Adding an event and sending it.\<close>

lemma gapless_send:
  assumes g: "gapless n h st" and h: "hub_ok h" and d: "hb_drops (send_all e h) = hb_drops h" and e: "qv_id e = show_nat (Suc n)" and p: "sm_phase st \<noteq> Ended"
  shows "gapless (Suc n) (send_all e h) st"
proof -
  have sub: "gm_get (hb_subs h) (sm_chan st) \<noteq> None" "sm_chan st < length (hb_chans h)" using g by (simp_all add: gapless_def)
  note r = send_all_reach [OF h d sub(1)]
  obtain k where k: "k \<le> n" "List.map qv_id (ch_buffer (hb_chans h ! sm_chan st)) = List.map show_nat [Suc k..<Suc n]"
    "if sm_phase st = Opened then sm_frames st = [] \<and> sm_last st = sm_request st
     else k \<le> parse_uint (sm_last st) \<and> parse_uint (sm_last st) \<le> max (parse_uint (sm_request st)) n \<and>
          parse_uint (sm_request st) \<le> parse_uint (sm_last st) \<and>
          List.map pid (sm_frames st) = [Suc (parse_uint (sm_request st))..<Suc (parse_uint (sm_last st))]"
    using g unfolding gapless_def by blast
  have "[Suc k..<Suc (Suc n)] = [Suc k..<Suc n] @ [Suc n]" using k(1) by (intro upt_Suc_append) simp
  then have "List.map qv_id (ch_buffer (hb_chans (send_all e h) ! sm_chan st)) = List.map show_nat [Suc k..<Suc (Suc n)]"
    using k(2) e unfolding r(1) by (simp del: upt_Suc)
  moreover have "length (hb_chans (send_all e h)) = length (hb_chans h)" using send_all_keeps [OF h, of e] by (simp add: sent_some_def)
  ultimately show ?thesis using g k(1,3) r(2) sub(2) unfolding gapless_def
    by (intro conjI exI [where x = k]) (auto simp: max_def split: if_splits)
qed

lemma added_gap:
  assumes inv: "live_inv s" and gap: "gap_inv s"
  shows "gap_inv (live_step be (Announce 0) (live_step be (OnStore (RingAdd e)) s))"
proof -
  let ?n = "es_ids (lv_store s)"
  define e1 where "e1 = fst (ring_event e (lv_store s))"
  define s1 where "s1 = live_step be (OnStore (RingAdd e)) s"
  have a: "archive_inv (lv_run s)" and h: "hub_ok (lv_hub s)" using inv by (simp_all add: live_inv_def Let_def)
  have s1: "lv_flight s1 = [e1]" "lv_hub s1 = lv_hub s" "lv_stream s1 = lv_stream s" "lv_run s1 = archive_op (RingAdd e) (lv_run s)"
    using gap by (simp_all add: s1_def live_step_def gap_inv_def store_result_def e1_def)
  have n1: "es_ids (lv_store s1) = Suc ?n" "es_max (lv_store s1) = es_max (lv_store s)"
    using step_frame(2,3) [OF a, of "RingAdd e"] s1(4) by (simp_all add: lv_store_def is_addition_def)
  have id1: "qv_id e1 = show_nat (Suc ?n)" by (simp add: e1_def ring_event_def Let_def)
  then have num: "numbered (Suc ?n) e1" by (auto simp: numbered_def)
  let ?e = "enrich_event be e1"
  have s2: "live_step be (Announce 0) s1 = s1\<lparr>lv_flight := [], lv_metrics := measure_event ?e (lv_metrics s1), lv_hub := send_all ?e (lv_hub s1)\<rparr>"
    using s1(1) broadcast_numbered [OF num] by (simp add: live_step_def)
  have drops: "hb_drops (lv_hub s) \<le> hb_drops (send_all ?e (lv_hub s))" using send_all_keeps [OF h, of ?e] by (simp add: sent_some_def)
  show ?thesis unfolding s1_def [symmetric] gap_inv_def s2
  proof (intro conjI allI impI)
    fix st
    assume "lv_stream (s1\<lparr>lv_flight := [], lv_metrics := measure_event ?e (lv_metrics s1), lv_hub := send_all ?e (lv_hub s1)\<rparr>) = Some st \<and>
      keeps_up (s1\<lparr>lv_flight := [], lv_metrics := measure_event ?e (lv_metrics s1), lv_hub := send_all ?e (lv_hub s1)\<rparr>) st"
    then have st: "lv_stream s = Some st" and k: "sm_phase st \<noteq> Ended" "hb_drops (send_all ?e (lv_hub s)) = 0" "0 < parse_uint (sm_request st)"
      "Suc ?n < 2 ^ 64" "Suc ?n \<le> parse_uint (sm_request st) + min default_scan_limit (es_max (lv_store s))"
      using s1(2,3) n1 by (simp_all add: keeps_up_def lv_store_def)
    have "keeps_up s st" using k drops by (simp add: keeps_up_def)
    then have "gapless ?n (lv_hub s) st" using gap st by (simp add: gap_inv_def)
    then have "gapless (Suc ?n) (send_all ?e (lv_hub s)) st"
      using drops k(1,2) id1 by (intro gapless_send [OF _ h]) simp_all
    then show "gapless (es_ids (lv_store (s1\<lparr>lv_flight := [], lv_metrics := measure_event ?e (lv_metrics s1), lv_hub := send_all ?e (lv_hub s1)\<rparr>)))
        (lv_hub (s1\<lparr>lv_flight := [], lv_metrics := measure_event ?e (lv_metrics s1), lv_hub := send_all ?e (lv_hub s1)\<rparr>)) st"
      using n1(1) s1(2) by (simp add: lv_store_def)
  qed simp
qed

lemma quiet_gap:
  assumes inv: "live_inv s" and gap: "gap_inv s" and q: "quiet_store y"
  shows "gap_inv (live_step be (OnStore y) s)"
proof -
  have a: "archive_inv (lv_run s)" using inv by (simp add: live_inv_def Let_def)
  have "es_ids (ar_store (archive_op y (lv_run s))) = es_ids (lv_store s)" "es_max (ar_store (archive_op y (lv_run s))) = es_max (lv_store s)"
    using step_frame(2,3) [OF a, of y] q by (cases y; simp add: lv_store_def is_addition_def quiet_store_def)+
  moreover have "store_result y (lv_store s) = None" using q by (cases y) (simp_all add: quiet_store_def store_result_def)
  ultimately show ?thesis using gap by (simp add: gap_inv_def live_step_def keeps_up_def lv_store_def)
qed

text \<open>The steps of the stream itself.\<close>

lemma replay_gapless:
  assumes inv: "archive_inv r" and g: "gapless (es_ids (ar_store r)) h st" and p: "sm_phase st = Opened" and c: "0 < parse_uint (sm_request st)"
    and small: "es_ids (ar_store r) < 2 ^ 64" and close: "es_ids (ar_store r) \<le> parse_uint (sm_request st) + min default_scan_limit (es_max (ar_store r))"
  shows "gapless (es_ids (ar_store r)) h (replay_stream (ar_store r) st)"
proof -
  let ?s = "ar_store r" and ?c = "parse_uint (sm_request st)"
  let ?n = "es_ids ?s" and ?es = "get_events_after (sm_last st) 0 (int default_scan_limit) ?s"
  have st: "sm_frames st = []" "sm_last st = sm_request st" "sm_last st \<noteq> []" using g p by (auto simp: gapless_def)
  have ids: "List.map pid ?es = [Suc ?c..<Suc ?n]" using after_exact [OF inv small] c close by (simp add: st(2) del: upt_Suc)
  have run: "foldl write_frame t es = t\<lparr>sm_frames := sm_frames t @ es, sm_last := (if es = [] then sm_last t else qv_id (List.last es))\<rparr>" for t es
    by (induction es arbitrary: t) (simp_all add: write_frame_def)
  have rp: "replay_stream ?s st = st\<lparr>sm_frames := ?es, sm_last := (if ?es = [] then sm_last st else qv_id (List.last ?es)), sm_phase := Live\<rparr>"
    using st by (simp add: replay_stream_def Let_def run)
  have last: "parse_uint (if ?es = [] then sm_last st else qv_id (List.last ?es)) = max ?c ?n" "(if ?es = [] then sm_last st else qv_id (List.last ?es)) \<noteq> []"
  proof -
    show "parse_uint (if ?es = [] then sm_last st else qv_id (List.last ?es)) = max ?c ?n"
    proof (cases "?es = []")
      case True
      then have "?n \<le> ?c" using arg_cong [OF ids, of length] by (simp del: upt_Suc)
      with True show ?thesis by (simp add: st(2))
    next
      case False
      then have "pid (List.last ?es) = List.last [Suc ?c..<Suc ?n]" using ids by (metis last_map)
      moreover have "?c < ?n" using False ids by (metis Nil_is_map_conv Suc_leI not_less upt_conv_Nil linorder_not_le le_SucI Suc_le_mono)
      ultimately show ?thesis using False by (simp add: pid_def)
    qed
    show "(if ?es = [] then sm_last st else qv_id (List.last ?es)) \<noteq> []"
    proof (cases "?es = []")
      case False
      then have "List.last ?es \<in> set ?es" by simp
      then have "numbered ?n (List.last ?es)" using after_ascends(2) [OF inv small] by blast
      with False show ?thesis using numbered_not_blank by simp
    qed (simp add: st(3))
  qed
  obtain k where k: "k \<le> ?n" "List.map qv_id (ch_buffer (hb_chans h ! sm_chan st)) = List.map show_nat [Suc k..<Suc ?n]"
    using g unfolding gapless_def by blast
  have frames: "List.map pid ?es = [Suc ?c..<Suc (max ?c ?n)]" using ids by (simp add: max_def del: upt_Suc)
  show ?thesis
    using g k last frames unfolding gapless_def rp by (intro conjI exI [where x = k]) (simp_all del: upt_Suc)
qed

lemma receive_gapless:
  assumes g: "gapless n h st" and p: "sm_phase st = Live" and small: "n < 2 ^ 64" and r: "receive_stream alive st h = (st1, h1)" and live: "sm_phase st1 \<noteq> Ended"
  shows "gapless n h1 st1"
proof (cases "ch_buffer (hb_chans h ! sm_chan st)")
  case Nil
  have "st1 = st" "h1 = h" using r Nil live by (auto simp: receive_stream_def Let_def end_stream_def split: if_splits)
  with g show ?thesis by simp
next
  case (Cons e es)
  let ?ch = "hb_chans h ! sm_chan st" and ?l = "parse_uint (sm_last st)" and ?c = "parse_uint (sm_request st)"
  let ?h1 = "h\<lparr>hb_chans := (hb_chans h)[sm_chan st := ?ch\<lparr>ch_buffer := es\<rparr>]\<rparr>"
  have al: "alive" using r Cons live by (auto simp: receive_stream_def Let_def end_stream_def split: if_splits)
  obtain k where k: "k \<le> n" "List.map qv_id (ch_buffer ?ch) = List.map show_nat [Suc k..<Suc n]"
    "k \<le> ?l" "?l \<le> max ?c n" "?c \<le> ?l" "List.map pid (sm_frames st) = [Suc ?c..<Suc ?l]"
    and b: "sm_chan st < length (hb_chans h)" "gm_get (hb_subs h) (sm_chan st) \<noteq> None" "sm_last st \<noteq> []"
    using g p unfolding gapless_def by auto
  have kn: "k < n" using arg_cong [OF k(2), of length] Cons by (simp del: upt_Suc)
  then have "[Suc k..<Suc n] = Suc k # [Suc (Suc k)..<Suc n]" by (simp add: upt_conv_Cons del: upt_Suc)
  then have e: "qv_id e = show_nat (Suc k)" "List.map qv_id es = List.map show_nat [Suc (Suc k)..<Suc n]" using k(2) Cons by (simp_all del: upt_Suc)
  have pe: "parse_uint (qv_id e) = Suc k" using e(1) kn small by (simp add: parse_show)
  have h1: "length (hb_chans ?h1) = length (hb_chans h)" "hb_subs ?h1 = hb_subs h" "ch_buffer (hb_chans ?h1 ! sm_chan st) = es" using b(1) by simp_all
  show ?thesis
  proof (cases "Suc k \<le> ?l")
    case True
    then have "st1 = st" "h1 = ?h1" using r Cons al b(3) pe by (auto simp: receive_stream_def Let_def)
    then show ?thesis using True k b e(2) h1 kn p unfolding gapless_def by (intro conjI exI [where x = "Suc k"]) (simp_all del: upt_Suc)
  next
    case False
    then have l: "?l = k" using k(3) by simp
    have eq: "st1 = write_frame st e" "h1 = ?h1" using r Cons al b(3) pe False by (simp_all add: receive_stream_def Let_def)
    have "[Suc ?c..<Suc (Suc k)] = [Suc ?c..<Suc k] @ [Suc k]" using k(5) l by (intro upt_Suc_append) simp
    then have "List.map pid (sm_frames st @ [e]) = [Suc ?c..<Suc (Suc k)]" using k(6) l pe by (simp add: pid_def [of e] del: upt_Suc)
    moreover have "qv_id e \<noteq> []" using e(1) show_nat_digits by (metis all_digits_def)
    ultimately show ?thesis using eq k b e(2) h1 kn p pe l unfolding gapless_def write_frame_def
      by (intro conjI exI [where x = "Suc k"]) (simp_all del: upt_Suc)
  qed
qed

lemma receive_same: "receive_stream alive st h = (st1, h1) \<Longrightarrow> sm_request st1 = sm_request st \<and> hb_drops h1 = hb_drops h"
  by (auto simp: receive_stream_def Let_def end_stream_def unsubscribe_def write_frame_def split: list.splits if_splits)

lemma gap_frame:
  assumes "gap_inv s" and "lv_flight s1 = lv_flight s" and "es_ids (lv_store s1) = es_ids (lv_store s)" and "es_max (lv_store s1) = es_max (lv_store s)"
    and "\<And>st1. lv_stream s1 = Some st1 \<Longrightarrow> keeps_up s1 st1 \<Longrightarrow> gapless (es_ids (lv_store s)) (lv_hub s1) st1"
  shows "gap_inv s1"
  using assms by (simp add: gap_inv_def)

lemma single_gap:
  assumes inv: "live_inv s" and gap: "gap_inv s" and x: "\<forall>y k. x \<noteq> OnStore y \<and> x \<noteq> Announce k"
  shows "gap_inv (live_step be x s)"
proof -
  let ?n = "es_ids (lv_store s)"
  have same: "lv_run (live_step be x s) = lv_run s" "lv_flight (live_step be x s) = lv_flight s"
    using x by (cases x; auto simp: live_step_def with_stream_def split: option.splits prod.splits)+
  have old: "gapless ?n (lv_hub s) st" if "lv_stream s = Some st" "keeps_up s st" for st using gap that by (simp add: gap_inv_def)
  show ?thesis
  proof (rule gap_frame [OF gap same(2)])
    fix st1
    assume st1: "lv_stream (live_step be x s) = Some st1" and up: "keeps_up (live_step be x s) st1"
    show "gapless ?n (lv_hub (live_step be x s)) st1"
    proof (cases x)
      case JoinOther
      have k: "keeps_up s st1" using up JoinOther by (simp add: keeps_up_def live_step_def subscribe_def lv_store_def)
      have "gapless ?n (lv_hub s) st1" using old st1 k JoinOther by (simp add: live_step_def)
      then show ?thesis using JoinOther by (auto simp: live_step_def subscribe_def gapless_def gm_get_set nth_append)
    next
      case (LeaveOther c)
      have k: "keeps_up s st1" using up LeaveOther by (simp add: keeps_up_def live_step_def unsubscribe_def lv_store_def split: option.splits if_splits)
      have o: "lv_stream s = Some st1" using st1 LeaveOther by (simp add: live_step_def split: option.splits if_splits)
      with old k have "gapless ?n (lv_hub s) st1" by simp
      then show ?thesis using LeaveOther o by (auto simp: live_step_def unsubscribe_def gapless_def gm_get_del)
    next
      case (OpenStream header)
      show ?thesis
      proof (cases "lv_stream (live_step be x s) = lv_stream s \<and> lv_hub (live_step be x s) = lv_hub s")
        case True
        then show ?thesis using st1 up same(1) old by (simp add: keeps_up_def lv_store_def)
      next
        case False
        then obtain i where o: "open_stream header (lv_hub s) = Some (st1, snd (subscribe (lv_hub s)))"
            "st1 = \<lparr>sm_chan = length (hb_chans (lv_hub s)), sm_request = i, sm_last = i, sm_frames = [], sm_phase = Opened\<rparr>"
            "lv_hub (live_step be x s) = snd (subscribe (lv_hub s))"
          using st1 OpenStream by (auto simp: live_step_def open_stream_def subscribe_def Let_def split: if_splits)
        have "i \<noteq> []" using up o(2) by (auto simp: keeps_up_def parse_uint_def all_digits_def)
        then show ?thesis using o(2,3) by (auto simp: gapless_def subscribe_def gm_get_set nth_append intro: exI [where x = ?n])
      qed
    next
      case ReplayStream
      show ?thesis
      proof (cases "streaming s Opened")
        case True
        then obtain st where st: "lv_stream s = Some st" "sm_phase st = Opened" by (auto simp: streaming_def split: option.splits)
        have r: "st1 = replay_stream (lv_store s) st" "lv_hub (live_step be x s) = lv_hub s"
          using st1 st True ReplayStream by (simp_all add: live_step_def with_stream_def)
        have req: "sm_request st1 = sm_request st"
        proof -
          have "sm_request (foldl write_frame t es) = sm_request t" for t es by (induction es arbitrary: t) (simp_all add: write_frame_def)
          then show ?thesis by (simp add: r(1) replay_stream_def Let_def)
        qed
        have u: "0 < parse_uint (sm_request st)" "?n < 2 ^ 64" "?n \<le> parse_uint (sm_request st) + min default_scan_limit (es_max (lv_store s))" "hb_drops (lv_hub s) = 0"
          using up req r(2) same(1) by (simp_all add: keeps_up_def lv_store_def)
        have "gapless ?n (lv_hub s) st" by (rule old [OF st(1)]) (use u st(2) in \<open>simp add: keeps_up_def\<close>)
        moreover have "archive_inv (lv_run s)" using inv by (simp add: live_inv_def Let_def)
        ultimately show ?thesis using u st(2) unfolding r lv_store_def by (intro replay_gapless)
      next
        case False
        then show ?thesis using st1 up ReplayStream old by (simp add: live_step_def)
      qed
    next
      case (ReceiveStream alive)
      show ?thesis
      proof (cases "streaming s Live")
        case True
        then obtain st where st: "lv_stream s = Some st" "sm_phase st = Live" by (auto simp: streaming_def split: option.splits)
        have r: "receive_stream alive st (lv_hub s) = (st1, lv_hub (live_step be x s))"
          using st1 st True ReceiveStream by (simp add: live_step_def with_stream_def split: prod.splits)
        have "sm_request st1 = sm_request st" "hb_drops (lv_hub (live_step be x s)) = hb_drops (lv_hub s)"
          using receive_same [OF r] by simp_all
        then have "keeps_up s st" using up st(2) same(1) by (simp add: keeps_up_def lv_store_def)
        then have "gapless ?n (lv_hub s) st" using old st(1) by simp
        then show ?thesis by (rule receive_gapless [OF _ st(2) _ r]) (use up same(1) in \<open>simp_all add: keeps_up_def lv_store_def\<close>)
      next
        case False
        then show ?thesis using st1 up ReceiveStream old by (simp add: live_step_def)
      qed
    next
      case (KeepAlive alive)
      show ?thesis
      proof (cases "streaming s Live \<and> \<not> alive")
        case True
        then obtain st where st: "lv_stream s = Some st" by (auto simp: streaming_def split: option.splits)
        then have "st1 = st\<lparr>sm_phase := Ended\<rparr>" using st1 True KeepAlive by (simp add: live_step_def with_stream_def keepalive_stream_def end_stream_def)
        then show ?thesis using up by (simp add: keeps_up_def)
      next
        case False
        then have "lv_stream (live_step be x s) = lv_stream s \<and> lv_hub (live_step be x s) = lv_hub s"
          using KeepAlive by (cases "lv_stream s") (simp_all add: live_step_def with_stream_def keepalive_stream_def)
        then show ?thesis using st1 up same(1) old by (simp add: keeps_up_def lv_store_def)
      qed
    next
      case CloseStream
      show ?thesis
      proof (cases "streaming s Opened \<or> streaming s Live")
        case True
        then obtain st where st: "lv_stream s = Some st" by (auto simp: streaming_def split: option.splits)
        then have "st1 = st\<lparr>sm_phase := Ended\<rparr>" using st1 True CloseStream by (simp add: live_step_def with_stream_def end_stream_def)
        then show ?thesis using up by (simp add: keeps_up_def)
      next
        case False
        then show ?thesis using st1 up CloseStream old by (simp add: live_step_def)
      qed
    qed (use x in simp_all)
  qed (simp_all add: lv_store_def same)
qed

lemma turns_gap:
  assumes "list_all in_turn ts" and "live_inv s" and "gap_inv s"
  shows "live_inv (foldl (\<lambda>s x. live_step be x s) s (concat ts)) \<and> gap_inv (foldl (\<lambda>s x. live_step be x s) s (concat ts))"
  using assms
proof (induction ts arbitrary: s)
  case (Cons ops ts)
  have "in_turn ops" using Cons.prems(1) by simp
  then have "live_inv (foldl (\<lambda>s x. live_step be x s) s ops) \<and> gap_inv (foldl (\<lambda>s x. live_step be x s) s ops)"
    by (cases rule: turn_cases) (use Cons.prems(2,3) in \<open>simp_all add: live_step_inv added_gap quiet_gap single_gap\<close>)
  then show ?case using Cons.IH Cons.prems(1) by simp
qed simp

text \<open>C0: A client that reconnects with the number of the last event it saw gets every later event exactly
  once and in order, the replayed ones and those broadcast meanwhile, when its stream has caught up: as long
  as no subscriber was too slow, the ring and the page of a thousand reach back to that number, and every
  event is broadcast before the next one is stored.\<close>

theorem stream_gap_free:
  assumes "list_all in_turn ts" and "s = live_run be (new_store (Suc m) threshold persistent capacity trigger chunk) (concat ts)"
    and "lv_stream s = Some st" and "sm_phase st = Live" and "hb_drops (lv_hub s) = 0" and "ch_buffer (hb_chans (lv_hub s) ! sm_chan st) = []"
    and "0 < parse_uint (sm_request st)" and "es_ids (lv_store s) < 2 ^ 64" and "es_ids (lv_store s) \<le> parse_uint (sm_request st) + min 1000 (Suc m)"
  shows "List.map (\<lambda>e. parse_uint (qv_id e)) (sm_frames st) = [Suc (parse_uint (sm_request st))..<Suc (es_ids (lv_store s))]"
proof -
  define s0 where "s0 = \<lparr>lv_run = new_run (new_store (Suc m) threshold persistent capacity trigger chunk), lv_hub = new_hub, lv_metrics = no_metrics,
      lv_flight = [], lv_stream = None :: stream option\<rparr>"
  have run: "s = foldl (\<lambda>s x. live_step be x s) s0 (concat ts)" using assms(2) by (simp add: live_run_def s0_def)
  have "live_inv s0" using live_run_inv [of be m threshold persistent capacity trigger chunk "[]"] by (simp add: live_run_def s0_def)
  moreover have "gap_inv s0" by (simp add: gap_inv_def s0_def)
  ultimately have gap: "gap_inv s" using turns_gap [OF assms(1)] run by blast
  have max: "es_max (lv_store s) = Suc m"
  proof -
    have "es_max (lv_store (foldl (\<lambda>s x. live_step be x s) t xs)) = es_max (lv_store t)" if "live_inv t" for t xs
      using that
    proof (induction xs arbitrary: t)
      case (Cons x xs)
      have "archive_inv (lv_run t)" using Cons.prems by (simp add: live_inv_def Let_def)
      then have "es_max (lv_store (live_step be x t)) = es_max (lv_store t)"
        using step_frame(3) by (cases x) (auto simp: live_step_def lv_store_def with_stream_def broadcast_event_def assign_event_id_def Let_def split: option.splits prod.splits)
      then show ?case using Cons.IH [OF live_step_inv [OF Cons.prems]] by simp
    qed simp
    from this [OF \<open>live_inv s0\<close>] show ?thesis unfolding run by (simp add: s0_def lv_store_def new_run_def new_store_def split: prod.split)
  qed
  have "keeps_up s st" using assms(4-9) max by (simp add: keeps_up_def default_scan_limit_def)
  then have g: "gapless (es_ids (lv_store s)) (lv_hub s) st" using gap assms(3) by (simp add: gap_inv_def)
  obtain k where k: "k \<le> es_ids (lv_store s)" "[] = List.map show_nat [Suc k..<Suc (es_ids (lv_store s))]" "k \<le> parse_uint (sm_last st)"
    "parse_uint (sm_last st) \<le> max (parse_uint (sm_request st)) (es_ids (lv_store s))" "parse_uint (sm_request st) \<le> parse_uint (sm_last st)"
    "List.map pid (sm_frames st) = [Suc (parse_uint (sm_request st))..<Suc (parse_uint (sm_last st))]"
    using g assms(4,6) unfolding gapless_def by auto
  have "k = es_ids (lv_store s)" using k(1) arg_cong [OF k(2), of length] by (simp del: upt_Suc)
  then have "parse_uint (sm_last st) = max (parse_uint (sm_request st)) (es_ids (lv_store s))" using k(3-5) by simp
  then show ?thesis using k(6) unfolding pid_def [abs_def] by (simp add: max_def del: upt_Suc split: if_splits)
qed

section \<open>Examples and limits\<close>

definition quiet_env :: broadcast_env where
  "quiet_env = \<lparr>be_hostname = None, be_blocked = None\<rparr>"

definition demo_live :: "live_op list \<Rightarrow> live" where
  "demo_live xs = live_run quiet_env (new_store (Suc 3) 0 False 1 1 1) xs"

definition sent_ids :: "live \<Rightarrow> string list" where
  "sent_ids s = (case lv_stream s of None \<Rightarrow> [] | Some st \<Rightarrow> List.map qv_id (sm_frames st))"

definition demo_turns :: "live_op list list" where
  "demo_turns = [[OnStore (RingAdd no_event), Announce 0], [OnStore (RingAdd no_event), Announce 0], [OpenStream ''1''],
     [OnStore (RingAdd no_event), Announce 0], [ReplayStream], [ReceiveStream True], [OnStore (RingAdd no_event), Announce 0], [ReceiveStream True]]"

lemma parse_uint_code [code]:
  "parse_uint v = (if \<not> all_digits v then 0 else if int (dec_val v) < 2 ^ 64 then dec_val v else nat (2 ^ 64 - 1))"
proof -
  have "int (dec_val v) < 2 ^ 64 \<longleftrightarrow> dec_val v < 2 ^ 64" by (metis of_nat_less_iff of_nat_numeral of_nat_power)
  then show ?thesis by (auto simp: parse_uint_def min_def)
qed

lemma valid_uint_code [code]: "valid_uint v \<longleftrightarrow> all_digits v \<and> int (dec_val v) < 2 ^ 64"
  unfolding valid_uint_def by (metis of_nat_less_iff of_nat_numeral of_nat_power)

lemma demo_caught_up:
  "list_all in_turn demo_turns"
  "lv_stream (demo_live (concat demo_turns)) = Some \<lparr>sm_chan = 0, sm_request = ''1'', sm_last = ''4'',
     sm_frames = List.map (\<lambda>i. no_event\<lparr>qv_id := i\<rparr>) [''2'', ''3'', ''4''], sm_phase = Live\<rparr>"
  "hb_drops (lv_hub (demo_live (concat demo_turns))) = 0" "ch_buffer (hb_chans (lv_hub (demo_live (concat demo_turns))) ! 0) = []"
  "es_ids (lv_store (demo_live (concat demo_turns))) = 4"
  by code_simp+

theorem stream_gap_free_witness:
  "List.map (\<lambda>e. parse_uint (qv_id e)) (sm_frames (the (lv_stream (demo_live (concat demo_turns))))) = [2, 3, 4]"
proof -
  let ?st = "\<lparr>sm_chan = 0, sm_request = ''1'', sm_last = ''4'', sm_frames = List.map (\<lambda>i. no_event\<lparr>qv_id := i\<rparr>) [''2'', ''3'', ''4''], sm_phase = Live\<rparr>"
  have r: "parse_uint ''1'' = 1" by code_simp
  have "List.map (\<lambda>e. parse_uint (qv_id e)) (sm_frames ?st) = [Suc (parse_uint (sm_request ?st))..<Suc (es_ids (lv_store (demo_live (concat demo_turns))))]"
    by (rule stream_gap_free [OF demo_caught_up(1) demo_live_def demo_caught_up(2)]) (simp_all only: demo_caught_up(3-5) stream.simps r, simp_all)
  then show ?thesis by (simp only: demo_caught_up(2,5) option.sel stream.simps r) (simp add: upt_rec)
qed

theorem stream_ascends_witness:
  "sorted_wrt (<) (List.map (\<lambda>e. parse_uint (qv_id e)) (sm_frames (the (lv_stream (demo_live (concat demo_turns))))))"
  using stream_ascends [OF demo_caught_up(2) [unfolded demo_live_def]] demo_caught_up(2,5)
  by (simp add: Let_def demo_live_def)

text \<open>Three limits: events broadcast out of order are lost to the stream; an amended event keeps its number
  and is not sent again; and after a restart the numbers begin anew, so a client that reconnects with the
  number it saw last gets nothing until that many events were added.\<close>

lemma late_broadcast_lost:
  "sent_ids (demo_live [OpenStream [], ReplayStream, OnStore (RingAdd no_event), OnStore (RingAdd no_event), Announce 1, Announce 0,
     ReceiveStream True, ReceiveStream True]) = [''2'']"
  by code_simp

lemma amendment_not_streamed:
  "sent_ids (demo_live [OpenStream [], ReplayStream, OnStore (RingAdd no_event), Announce 0, ReceiveStream True,
     OnStore (Answered [] [] 5 ''9.9.9.9'' ''NOERROR''), Announce 0, ReceiveStream True]) = [''1'']"
  by code_simp

lemma restart_silences_stream:
  "sent_ids (demo_live [OpenStream ''500'', ReplayStream, OnStore (RingAdd no_event), Announce 0, OnStore (RingAdd no_event), Announce 0,
     ReceiveStream True, ReceiveStream True]) = []"
  by code_simp

end
