(* ===== verification/Forward_Queue.thy ===== *)
theory Forward_Queue
  imports Query_Pipeline
begin

text \<open>
  forwarder/backlog.go, the delivery loop of forwarder/lifecycle.go and the classification of
  responses in forwarder/controller_transport.go: the bounded queue of query events that an agent
  delivers to its controller. Every critical section is a step, so that enqueues, the delivery
  loop and the persistence goroutine interleave freely. The JSON encoding of an event, and of an
  event with its time, are arguments; so are the results of a send and of a file write.
\<close>

section \<open>State\<close>

record backlog_item =
  bi_event :: query_event
  bi_size :: int
  bi_queued :: int
  bi_seq :: nat

record forward_config =
  fc_enabled :: bool
  fc_node :: string
  fc_max_backlog :: int
  fc_max_retries :: int
  fc_retry_interval :: int
  fc_has_path :: bool
  fc_event_json :: "query_event \<Rightarrow> string"
  fc_item_json :: "query_event \<Rightarrow> int \<Rightarrow> string"

text \<open>The persisted file: its items, and its length in bytes.\<close>

record persisted_backlog =
  pb_items :: "(query_event \<times> int option) list"  \<comment> \<open>None is a missing time\<close>
  pb_bytes :: int

record forwarder =
  fw_backlog :: "backlog_item list"
  fw_inflight :: "backlog_item list"
  fw_total :: int
  fw_seq :: nat
  fw_adaptive :: nat
  fw_batch :: nat  \<comment> \<open>batchSize of the current delivery\<close>
  fw_attempt :: nat  \<comment> \<open>backoffAttempt of the delivery loop\<close>
  fw_frozen :: bool  \<comment> \<open>dropNewEvents\<close>
  fw_retries :: nat
  fw_dropped :: nat
  fw_sent :: nat
  fw_snapshot :: "(backlog_item list \<times> nat) option"  \<comment> \<open>copied by a flush that is writing\<close>
  fw_file :: "persisted_backlog option"

definition initial_forward_batch :: nat where "initial_forward_batch = 100"
definition min_forward_batch :: nat where "min_forward_batch = 10"
definition max_forward_batch :: nat where "max_forward_batch = 100"
definition max_retry_after :: int where "max_retry_after = 10 * minute"
definition backlog_state_version :: nat where "backlog_state_version = 1"
definition default_max_backlog :: int where "default_max_backlog = 10 * 1024 * 1024"
definition persisted_item_overhead :: int where "persisted_item_overhead = 61"

definition event_json_size :: "forward_config \<Rightarrow> query_event \<Rightarrow> int" where
  "event_json_size c ev = int (length (fc_event_json c ev))"

definition backlog_item_size :: "forward_config \<Rightarrow> query_event \<Rightarrow> int" where
  "backlog_item_size c ev = event_json_size c ev + persisted_item_overhead"

definition new_forwarder :: "persisted_backlog option \<Rightarrow> forwarder" where
  "new_forwarder saved = \<lparr>fw_backlog = [], fw_inflight = [], fw_total = 0, fw_seq = 0, fw_adaptive = initial_forward_batch,
     fw_batch = 0, fw_attempt = 0, fw_frozen = False, fw_retries = 0, fw_dropped = 0, fw_sent = 0, fw_snapshot = None,
     fw_file = saved\<rparr>"

section \<open>The identity of a node\<close>

definition identity_char :: "char \<Rightarrow> bool" where
  "identity_char c \<longleftrightarrow> (97 \<le> (of_char c :: nat) \<and> (of_char c :: nat) \<le> 122) \<or> (65 \<le> (of_char c :: nat) \<and> (of_char c :: nat) \<le> 90) \<or>
     is_digit c \<or> c \<in> set ''._:-''"

definition valid_node_identity :: "string \<Rightarrow> bool" where
  "valid_node_identity s \<longleftrightarrow> s \<noteq> [] \<and> length s \<le> 128 \<and> list_all identity_char s"

text \<open>ensureNodeIdentity: the configured identity, the saved one, or a new one; with what is then saved.\<close>

definition ensure_node_identity ::
  "string \<Rightarrow> bool \<Rightarrow> string option \<Rightarrow> string option \<Rightarrow> bool \<Rightarrow> string \<times> string option" where
  "ensure_node_identity configured has_path saved fresh ok =
     (if valid_node_identity (trim_space configured) then (trim_space configured, saved)
      else case (if has_path then saved else None) of
             Some d \<Rightarrow>
               (if valid_node_identity (trim_space d) then (trim_space d, saved)
                else (case fresh of None \<Rightarrow> (configured, saved)
                      | Some h \<Rightarrow> (''node-'' @ h, if ok then Some (''node-'' @ h @ [CHR 0x0A]) else saved)))
           | None \<Rightarrow>
               (case fresh of None \<Rightarrow> (configured, saved)
                | Some h \<Rightarrow> (''node-'' @ h, if has_path \<and> ok then Some (''node-'' @ h @ [CHR 0x0A]) else saved)))"

section \<open>Enqueue\<close>

definition enqueue_event :: "forward_config \<Rightarrow> int \<Rightarrow> bool \<Rightarrow> query_event \<Rightarrow> forwarder \<Rightarrow> forwarder" where
  "enqueue_event c now busy ev0 f =
     (if \<not> fc_enabled c then f
      else if fw_frozen f then f\<lparr>fw_dropped := Suc (fw_dropped f)\<rparr>
      else
        let ev = (if qe_node ev0 = [] then ev0\<lparr>qe_node := fc_node c\<rparr> else ev0);
            size = backlog_item_size c ev
        in if busy then f\<lparr>fw_dropped := Suc (fw_dropped f)\<rparr>
           else
             let f1 = f\<lparr>fw_seq := Suc (fw_seq f)\<rparr>
             in if 0 < fc_max_backlog c \<and> fc_max_backlog c < fw_total f1 + size
                then f1\<lparr>fw_dropped := Suc (fw_dropped f1)\<rparr>
                else f1\<lparr>fw_backlog := fw_backlog f1 @ [\<lparr>bi_event = ev, bi_size = size, bi_queued = now, bi_seq = fw_seq f1\<rparr>],
                        fw_total := fw_total f1 + size\<rparr>)"

section \<open>Delivery\<close>

text \<open>The result of a send: delivered, an HTTP status with its Retry-After, or another error.\<close>

datatype send_result = Delivered | Rejected int int | Failed_send

definition permanent_status :: "int \<Rightarrow> bool" where
  "permanent_status st \<longleftrightarrow> 400 \<le> st \<and> st < 500 \<and> st \<noteq> 408 \<and> st \<noteq> 429 \<and> st \<noteq> 413"

text \<open>parseRetryAfter: the product of seconds and a second wraps around at 64 bits.\<close>

definition wrap64 :: "int \<Rightarrow> int" where
  "wrap64 x = (x + 2 ^ 63) mod 2 ^ 64 - 2 ^ 63"

definition parse_retry_after :: "(string \<Rightarrow> int option) \<Rightarrow> string \<Rightarrow> int \<Rightarrow> int" where
  "parse_retry_after parse_time v0 now =
     (let v = trim_space v0
      in if v = [] then 0
         else case atoi v of
                Some n \<Rightarrow> if n \<le> 0 then 0 else min (wrap64 (n * second)) max_retry_after
              | None \<Rightarrow> (case parse_time v of None \<Rightarrow> 0 | Some w \<Rightarrow> if w \<le> now then 0 else min (w - now) max_retry_after))"

text \<open>calculateBackoff; the jitter (below half a second) is an argument.\<close>

definition calculate_backoff :: "nat \<Rightarrow> int \<Rightarrow> int \<Rightarrow> int" where
  "calculate_backoff attempt initial0 jitter =
     (let initial = (if initial0 \<le> 0 then second else initial0)
      in if attempt = 0 then initial
         else min (wrap64 (initial * 2 ^ (min attempt 6 - 1))) (30 * second) + jitter)"

definition safe_interval :: "int \<Rightarrow> int \<Rightarrow> int" where
  "safe_interval d fallback = (if 0 < d then d else fallback)"

text \<open>The loop takes the oldest events, at most the adaptive batch size, when none are in flight.\<close>

definition take_batch :: "forwarder \<Rightarrow> forwarder" where
  "take_batch f =
     (if fw_inflight f \<noteq> [] \<or> fw_backlog f = [] then f
      else let n = min (min (max (fw_adaptive f) min_forward_batch) max_forward_batch) (length (fw_backlog f))
           in f\<lparr>fw_inflight := take n (fw_backlog f), fw_backlog := drop n (fw_backlog f), fw_batch := n\<rparr>)"

definition total_size :: "backlog_item list \<Rightarrow> int" where
  "total_size items = sum_list (List.map bi_size items)"

definition finish_in_flight :: "forwarder \<Rightarrow> forwarder" where
  "finish_in_flight f = f\<lparr>fw_inflight := [], fw_total := fw_total f - total_size (fw_inflight f)\<rparr>"

definition requeue_batch :: "forwarder \<Rightarrow> forwarder" where
  "requeue_batch f = f\<lparr>fw_inflight := [], fw_backlog := fw_inflight f @ fw_backlog f\<rparr>"

text \<open>The end of a send: the new state, and how long the loop waits before the next one.\<close>

definition finish_send :: "forward_config \<Rightarrow> int \<Rightarrow> send_result \<Rightarrow> forwarder \<Rightarrow> int \<times> forwarder" where
  "finish_send c jitter r f0 =
     (let n = length (fw_inflight f0); f = f0\<lparr>fw_frozen := (r \<noteq> Delivered)\<rparr>;
          give_up = (finish_in_flight f)\<lparr>fw_dropped := fw_dropped f + n, fw_attempt := 0\<rparr>
      in case r of
           Delivered \<Rightarrow>
             (0, (finish_in_flight f)\<lparr>fw_sent := fw_sent f + n, fw_attempt := 0,
                   fw_adaptive := (if fw_batch f \<le> n then min max_forward_batch (fw_batch f + 25) else fw_adaptive f)\<rparr>)
         | _ \<Rightarrow>
             (if (case r of Rejected st _ \<Rightarrow> permanent_status st | _ \<Rightarrow> False) then (0, give_up)
              else if 0 < fc_max_retries c \<and> fc_max_retries c \<le> int (fw_attempt f) then (0, give_up)
              else
                let f1 = requeue_batch f;
                    f2 = (case r of Rejected st _ \<Rightarrow>
                            if st = 413 \<or> st = 429 then f1\<lparr>fw_adaptive := max min_forward_batch (fw_batch f1 div 2)\<rparr> else f1
                          | _ \<Rightarrow> f1);
                    f3 = f2\<lparr>fw_attempt := Suc (fw_attempt f2), fw_retries := Suc (fw_retries f2)\<rparr>;
                    wait = calculate_backoff (fw_attempt f3) (safe_interval (fc_retry_interval c) second) jitter
                in ((case r of Rejected _ after \<Rightarrow> if wait < after then after else wait | _ \<Rightarrow> wait), f3)))"

text \<open>A health report uses the same endpoint: its result also opens or closes admission.\<close>

definition report_health :: "send_result \<Rightarrow> forwarder \<Rightarrow> forwarder" where
  "report_health r f = f\<lparr>fw_frozen := (r \<noteq> Delivered)\<rparr>"

section \<open>Persistence\<close>

definition backlog_header :: string where
  \<open>backlog_header = ''{"version":'' @ show_nat backlog_state_version @ '',"items":[''\<close>

definition backlog_footer :: string where
  "backlog_footer = '']}''"

definition item_json :: "forward_config \<Rightarrow> backlog_item \<Rightarrow> string" where
  "item_json c i = fc_item_json c (bi_event i) (bi_queued i)"

text \<open>How many of the oldest queued items are omitted until the rest fits: the total counts the separating
  commas, one fewer for every item that goes while more than one is left.\<close>

fun trim_loop :: "int \<Rightarrow> nat list \<Rightarrow> nat \<Rightarrow> int \<Rightarrow> nat \<times> int" where
  "trim_loop limit [] left tot = (0, tot)"
| "trim_loop limit (l # ls) left tot =
     (if tot \<le> limit then (0, tot)
      else case trim_loop limit ls (left - 1) (tot - int l - (if 1 < left then 1 else 0)) of
             (n, t) \<Rightarrow> (Suc n, t))"

definition encode_bounded :: "forward_config \<Rightarrow> backlog_item list \<Rightarrow> nat \<Rightarrow> int \<Rightarrow> (string \<times> nat) option" where
  "encode_bounded c items inflight limit =
     (let encoded = List.map (item_json c) items;
          tot = int (length backlog_header) + int (length backlog_footer) + sum_list (List.map (\<lambda>e. int (length e)) encoded) +
                  int (length items - 1)
      in case trim_loop limit (List.map length (drop inflight encoded)) (length items) tot of
           (n, t) \<Rightarrow>
             (if limit < t then None
              else Some (backlog_header @ join_with '','' (take inflight encoded @ drop (inflight + n) encoded) @ backlog_footer, n)))"

definition begin_flush :: "forward_config \<Rightarrow> forwarder \<Rightarrow> forwarder" where
  "begin_flush c f =
     (if \<not> fc_has_path c \<or> fw_snapshot f \<noteq> None then f
      else f\<lparr>fw_snapshot := Some (fw_inflight f @ fw_backlog f, length (fw_inflight f))\<rparr>)"

definition drop_persist_trimmed :: "nat set \<Rightarrow> forwarder \<Rightarrow> forwarder" where
  "drop_persist_trimmed seqs f =
     (let gone = filter (\<lambda>i. bi_seq i \<in> seqs) (fw_backlog f)
      in f\<lparr>fw_backlog := filter (\<lambda>i. bi_seq i \<notin> seqs) (fw_backlog f), fw_total := fw_total f - total_size gone,
           fw_dropped := fw_dropped f + length gone\<rparr>)"

definition backlog_limit :: "forward_config \<Rightarrow> int" where
  "backlog_limit c = (if fc_max_backlog c \<le> 0 then default_max_backlog else fc_max_backlog c)"

definition end_flush :: "forward_config \<Rightarrow> bool \<Rightarrow> forwarder \<Rightarrow> forwarder" where
  "end_flush c ok f0 =
     (case fw_snapshot f0 of
        None \<Rightarrow> f0
      | Some (items, k) \<Rightarrow>
          (let f = f0\<lparr>fw_snapshot := None\<rparr>
           in case encode_bounded c items k (backlog_limit c) of
                None \<Rightarrow> f
              | Some (data, n) \<Rightarrow>
                  (if \<not> ok then f
                   else drop_persist_trimmed (bi_seq ` set (take n (drop k items)))
                          (f\<lparr>fw_file := Some \<lparr>pb_items = List.map (\<lambda>i. (bi_event i, Some (bi_queued i))) (take k items @ drop (k + n) items),
                                              pb_bytes = int (length data)\<rparr>\<rparr>))))"

text \<open>loadBacklog: too large a file is set aside; items over the limit are dropped and counted.\<close>

definition load_item :: "forward_config \<Rightarrow> int \<Rightarrow> forwarder \<Rightarrow> query_event \<times> int option \<Rightarrow> forwarder" where
  "load_item c now f sv =
     (let queued = (case snd sv of None \<Rightarrow> now | Some t \<Rightarrow> if now + minute < t then now else t);
          f1 = f\<lparr>fw_seq := Suc (fw_seq f)\<rparr>; size = backlog_item_size c (fst sv)
      in if 0 < fc_max_backlog c \<and> fc_max_backlog c < fw_total f1 + size then f1\<lparr>fw_dropped := Suc (fw_dropped f1)\<rparr>
         else f1\<lparr>fw_backlog := fw_backlog f1 @ [\<lparr>bi_event = fst sv, bi_size = size, bi_queued = queued, bi_seq = fw_seq f1\<rparr>],
                 fw_total := fw_total f1 + size\<rparr>)"

definition load_backlog :: "forward_config \<Rightarrow> int \<Rightarrow> forwarder \<Rightarrow> forwarder" where
  "load_backlog c now f =
     (case (if fc_has_path c then fw_file f else None) of
        None \<Rightarrow> f
      | Some p \<Rightarrow> if backlog_limit c + 1024 * 1024 < pb_bytes p then f\<lparr>fw_file := None\<rparr>
                  else foldl (load_item c now) f (pb_items p))"

definition start_forwarder :: "forward_config \<Rightarrow> int \<Rightarrow> persisted_backlog option \<Rightarrow> forwarder" where
  "start_forwarder c now saved = (if fc_enabled c then load_backlog c now (new_forwarder saved) else new_forwarder saved)"

section \<open>Status\<close>

record queue_status =
  qs_depth :: nat
  qs_bytes :: int
  qs_oldest_age :: int

definition snapshot_status :: "int \<Rightarrow> forwarder \<Rightarrow> queue_status" where
  "snapshot_status now f =
     (let items = fw_inflight f @ fw_backlog f
      in \<lparr>qs_depth = length items, qs_bytes = fw_total f,
          qs_oldest_age = (if items = [] then 0 else max 0 (now - Min (bi_queued ` set items)))\<rparr>)"


section \<open>Invariant\<close>

datatype queue_op =
    QEnqueue int bool query_event | QTake | QFinish int send_result | QHealth send_result | QBeginFlush | QEndFlush bool

fun queue_step :: "forward_config \<Rightarrow> queue_op \<Rightarrow> forwarder \<Rightarrow> forwarder" where
  "queue_step c (QEnqueue now busy ev) f = enqueue_event c now busy ev f"
| "queue_step c QTake f = take_batch f"
| "queue_step c (QFinish jitter r) f = (if fw_inflight f = [] then f else snd (finish_send c jitter r f))"
| "queue_step c (QHealth r) f = report_health r f"
| "queue_step c QBeginFlush f = begin_flush c f"
| "queue_step c (QEndFlush ok) f = end_flush c ok f"

text \<open>The events that are still held, oldest first.\<close>

abbreviation held :: "forwarder \<Rightarrow> backlog_item list" where
  "held f \<equiv> fw_inflight f @ fw_backlog f"

definition item_ok :: "forward_config \<Rightarrow> backlog_item \<Rightarrow> bool" where
  "item_ok c i \<longleftrightarrow> bi_size i = backlog_item_size c (bi_event i)"

text \<open>The held items: their sizes add up, they are in order of admission and fit the limit.\<close>

definition held_inv :: "forward_config \<Rightarrow> nat \<Rightarrow> int \<Rightarrow> backlog_item list \<Rightarrow> bool" where
  "held_inv c n tot items \<longleftrightarrow> tot = total_size items \<and> sorted_wrt (<) (List.map bi_seq items) \<and>
     list_all (\<lambda>i. bi_seq i \<le> n) items \<and> list_all (item_ok c) items \<and> (0 < fc_max_backlog c \<longrightarrow> tot \<le> fc_max_backlog c)"

definition snapshot_inv :: "forward_config \<Rightarrow> (backlog_item list \<times> nat) option \<Rightarrow> bool" where
  "snapshot_inv c x \<longleftrightarrow> (case x of None \<Rightarrow> True
     | Some (items, k) \<Rightarrow> list_all (item_ok c) items \<and> sorted_wrt (<) (List.map bi_seq items) \<and> k \<le> length items)"

definition queue_inv :: "forward_config \<Rightarrow> forwarder \<Rightarrow> bool" where
  "queue_inv c f \<longleftrightarrow> held_inv c (fw_seq f) (fw_total f) (held f) \<and> snapshot_inv c (fw_snapshot f) \<and>
     min_forward_batch \<le> fw_adaptive f \<and> fw_adaptive f \<le> max_forward_batch \<and> fw_batch f \<le> max_forward_batch"

lemma total_size_simps [simp]:
  "total_size [] = 0" "total_size (i # is) = bi_size i + total_size is" "total_size (is @ js) = total_size is + total_size js"
  by (simp_all add: total_size_def)

lemma size_pos: "item_ok c i \<Longrightarrow> 0 < bi_size i"
  by (simp add: item_ok_def backlog_item_size_def event_json_size_def persisted_item_overhead_def)

lemma total_size_nonneg: "list_all (item_ok c) is \<Longrightarrow> 0 \<le> total_size is"
  by (induction "is") (auto dest: size_pos)

lemma total_size_filter: "total_size (filter P is) + total_size (filter (\<lambda>i. \<not> P i) is) = total_size is"
  by (induction "is") auto

lemma take_drop_held: "total_size (take n is) + total_size (drop n is) = total_size is"
  by (metis append_take_drop_id total_size_simps(3))

lemma held_add:
  assumes "held_inv c n tot items" and "item_ok c i" "bi_seq i = Suc n"
    and "\<not> (0 < fc_max_backlog c \<and> fc_max_backlog c < tot + bi_size i)"
  shows "held_inv c (Suc n) (tot + bi_size i) (items @ [i])"
  using assms by (auto simp: held_inv_def sorted_wrt_append list_all_iff le_imp_less_Suc le_SucI)

lemma held_later: "held_inv c n tot items \<Longrightarrow> held_inv c (Suc n) tot items"
  by (auto simp: held_inv_def list_all_iff)

lemma held_filter:
  assumes "held_inv c n tot items"
  shows "held_inv c n (tot - total_size (filter (\<lambda>i. \<not> P i) items)) (filter P items)"
proof -
  have ok: "list_all (item_ok c) (filter Q items)" for Q using assms by (simp add: held_inv_def list_all_iff)
  have "sorted_wrt (<) (List.map bi_seq (filter P items))"
    using assms by (simp add: held_inv_def sorted_wrt_map sorted_wrt_filter)
  with assms total_size_filter [of P items] total_size_nonneg [OF ok, of "\<lambda>i. \<not> P i"] ok show ?thesis
    by (auto simp: held_inv_def list_all_iff)
qed

lemma enqueue_inv:
  assumes "queue_inv c f"
  shows "queue_inv c (enqueue_event c now busy ev f)"
proof -
  define e where "e = (if qe_node ev = [] then ev\<lparr>qe_node := fc_node c\<rparr> else ev)"
  let ?i = "\<lparr>bi_event = e, bi_size = backlog_item_size c e, bi_queued = now, bi_seq = Suc (fw_seq f)\<rparr>"
  have h: "held_inv c (fw_seq f) (fw_total f) (held f)" using assms by (simp add: queue_inv_def)
  have "held_inv c (Suc (fw_seq f)) (fw_total f + backlog_item_size c e) (held f @ [?i])"
    if "\<not> (0 < fc_max_backlog c \<and> fc_max_backlog c < fw_total f + backlog_item_size c e)"
    using held_add [OF h, of ?i] that by (simp add: item_ok_def)
  with assms held_later [OF h] show ?thesis
    by (simp add: enqueue_event_def queue_inv_def Let_def e_def [symmetric])
qed

lemma take_held [simp]: "held (take_batch f) = held f" "fw_seq (take_batch f) = fw_seq f" "fw_total (take_batch f) = fw_total f"
  "fw_adaptive (take_batch f) = fw_adaptive f" "fw_snapshot (take_batch f) = fw_snapshot f"
  "fw_sent (take_batch f) = fw_sent f" "fw_dropped (take_batch f) = fw_dropped f"
  "fw_batch f \<le> max_forward_batch \<Longrightarrow> fw_batch (take_batch f) \<le> max_forward_batch"
  by (simp_all add: take_batch_def Let_def min.coboundedI1)

lemma requeue_held [simp]: "held (requeue_batch f) = held f"
  by (simp add: requeue_batch_def)

lemma queue_inv_same: "queue_inv c f \<Longrightarrow> held g = held f \<Longrightarrow> fw_seq g = fw_seq f \<Longrightarrow> fw_total g = fw_total f \<Longrightarrow>
    fw_snapshot g = fw_snapshot f \<Longrightarrow> min_forward_batch \<le> fw_adaptive g \<Longrightarrow> fw_adaptive g \<le> max_forward_batch \<Longrightarrow> fw_batch g \<le> max_forward_batch \<Longrightarrow> queue_inv c g"
  by (simp only: queue_inv_def)

lemma finish_flight_inv: "queue_inv c f \<Longrightarrow> queue_inv c (finish_in_flight f)"
  by (auto simp: finish_in_flight_def queue_inv_def held_inv_def sorted_wrt_append dest: total_size_nonneg)

lemma finish_send_inv:
  assumes "queue_inv c f"
  shows "queue_inv c (snd (finish_send c jitter r f))"
proof -
  have a: "min_forward_batch \<le> fw_adaptive f" "fw_adaptive f \<le> max_forward_batch"
    "min_forward_batch \<le> min max_forward_batch (n + 25)" "min_forward_batch \<le> max min_forward_batch n" for n
    using assms by (simp_all add: queue_inv_def min_forward_batch_def max_forward_batch_def)
  have fin: "queue_inv c ((finish_in_flight (f\<lparr>fw_frozen := b\<rparr>))\<lparr>fw_dropped := d, fw_attempt := 0\<rparr>)"
    "min_forward_batch \<le> m \<Longrightarrow> m \<le> max_forward_batch \<Longrightarrow>
     queue_inv c ((finish_in_flight (f\<lparr>fw_frozen := b\<rparr>))\<lparr>fw_sent := d, fw_attempt := 0, fw_adaptive := m\<rparr>)" for b d m
    using finish_flight_inv [OF assms] by (simp_all add: queue_inv_def finish_in_flight_def)
  show ?thesis
  proof (cases r)
    case Delivered
    with fin a show ?thesis by (simp add: finish_send_def Let_def)
  next
    case Failed_send
    with fin assms show ?thesis by (simp add: finish_send_def Let_def queue_inv_def requeue_batch_def)
  next
    case (Rejected st after)
    have "max min_forward_batch (fw_batch f div 2) \<le> max_forward_batch"
      using assms by (auto simp: queue_inv_def min_forward_batch_def max_forward_batch_def)
    with Rejected fin assms a show ?thesis
      by (simp add: finish_send_def Let_def queue_inv_def requeue_batch_def)
  qed
qed

lemma take_batch_inv: "queue_inv c f \<Longrightarrow> queue_inv c (take_batch f)"
  by (rule queue_inv_same [of c f]) (simp_all only: take_held, simp_all add: queue_inv_def)

lemma report_health_inv: "queue_inv c f \<Longrightarrow> queue_inv c (report_health r f)"
  by (simp add: report_health_def queue_inv_def)

lemma begin_flush_inv: "queue_inv c f \<Longrightarrow> queue_inv c (begin_flush c f)"
  by (auto simp: begin_flush_def queue_inv_def snapshot_inv_def held_inv_def)

lemma drop_trimmed_inv:
  assumes "queue_inv c f"
  shows "queue_inv c (drop_persist_trimmed seqs f)"
proof -
  define P where "P i \<longleftrightarrow> bi_seq i \<notin> seqs \<or> i \<in> set (fw_inflight f)" for i
  have h: "held_inv c (fw_seq f) (fw_total f) (held f)" using assms by (simp add: queue_inv_def)
  have apart: "i \<notin> set (fw_inflight f)" if "i \<in> set (fw_backlog f)" for i
    using h that by (auto simp: held_inv_def sorted_wrt_append)
  have in_flight: "filter P (fw_inflight f) = fw_inflight f" "filter (\<lambda>i. \<not> P i) (fw_inflight f) = []"
    by (auto simp: P_def filter_id_conv filter_empty_conv)
  have queued: "filter P (fw_backlog f) = filter (\<lambda>i. bi_seq i \<notin> seqs) (fw_backlog f)"
    "filter (\<lambda>i. \<not> P i) (fw_backlog f) = filter (\<lambda>i. bi_seq i \<in> seqs) (fw_backlog f)"
    using apart by (auto simp: P_def intro!: filter_cong)
  from held_filter [OF h, of P] in_flight queued assms show ?thesis
    by (simp add: queue_inv_def drop_persist_trimmed_def Let_def)
qed

lemma end_flush_inv:
  assumes "queue_inv c f"
  shows "queue_inv c (end_flush c ok f)"
proof -
  have "queue_inv c (f\<lparr>fw_snapshot := None\<rparr>)" "queue_inv c (f\<lparr>fw_snapshot := None, fw_file := x\<rparr>)" for x
    using assms by (simp_all add: queue_inv_def snapshot_inv_def)
  with assms drop_trimmed_inv show ?thesis by (auto simp: end_flush_def Let_def split: option.split prod.split)
qed

lemma queue_step_inv: "queue_inv c f \<Longrightarrow> queue_inv c (queue_step c x f)"
  by (cases x) (simp_all add: enqueue_inv finish_send_inv begin_flush_inv end_flush_inv take_batch_inv report_health_inv)

lemma new_forwarder_inv: "queue_inv c (new_forwarder saved)"
  by (simp add: queue_inv_def new_forwarder_def held_inv_def snapshot_inv_def min_forward_batch_def max_forward_batch_def
      initial_forward_batch_def)

lemma load_item_inv:
  assumes "queue_inv c f"
  shows "queue_inv c (load_item c now f sv)"
proof -
  have h: "held_inv c (fw_seq f) (fw_total f) (held f)" using assms by (simp add: queue_inv_def)
  have "held_inv c (Suc (fw_seq f)) (fw_total f + backlog_item_size c (fst sv))
          (held f @ [\<lparr>bi_event = fst sv, bi_size = backlog_item_size c (fst sv), bi_queued = q, bi_seq = Suc (fw_seq f)\<rparr>])"
    if "\<not> (0 < fc_max_backlog c \<and> fc_max_backlog c < fw_total f + backlog_item_size c (fst sv))" for q
    using held_add [OF h, of "\<lparr>bi_event = fst sv, bi_size = backlog_item_size c (fst sv), bi_queued = q, bi_seq = Suc (fw_seq f)\<rparr>"]
      that by (simp add: item_ok_def)
  with assms held_later [OF h] show ?thesis
    by (simp add: load_item_def queue_inv_def Let_def)
qed

lemma start_forwarder_inv: "queue_inv c (start_forwarder c now saved)"
proof -
  have "queue_inv c (foldl (load_item c now) f xs)" if "queue_inv c f" for f xs
    using that by (induction xs arbitrary: f) (simp_all add: load_item_inv)
  moreover have "queue_inv c (f\<lparr>fw_file := x\<rparr>)" if "queue_inv c f" for f x
    using that by (simp add: queue_inv_def)
  ultimately show ?thesis
    by (simp add: start_forwarder_def load_backlog_def new_forwarder_inv split: option.split)
qed

interpretation forward_queue: invariant_system "queue_step c" "queue_inv c"
  by unfold_locales (rule queue_step_inv)

text \<open>Every event is accounted for: held, delivered or counted as dropped.\<close>

definition accounted :: "forwarder \<Rightarrow> nat" where
  "accounted f = fw_sent f + fw_dropped f + length (held f)"

fun offered :: "queue_op \<Rightarrow> nat" where
  "offered (QEnqueue now busy ev) = 1"
| "offered _ = 0"

lemma take_accounted: "accounted (take_batch f) = accounted f"
  by (simp only: accounted_def take_held)

lemma finish_accounted: "accounted (snd (finish_send c jitter r f)) = accounted f"
  by (cases r) (simp_all add: accounted_def finish_send_def finish_in_flight_def requeue_batch_def Let_def)

lemma drop_trimmed_accounted: "accounted (drop_persist_trimmed seqs f) = accounted f"
  using sum_length_filter_compl [of "\<lambda>i. bi_seq i \<in> seqs" "fw_backlog f"]
  by (simp add: accounted_def drop_persist_trimmed_def Let_def)

lemma end_flush_accounted: "accounted (end_flush c ok f) = accounted f"
proof -
  have "accounted (f\<lparr>fw_snapshot := None\<rparr>) = accounted f" "accounted (f\<lparr>fw_snapshot := None, fw_file := x\<rparr>) = accounted f" for x
    by (simp_all add: accounted_def)
  then show ?thesis by (auto simp: end_flush_def Let_def drop_trimmed_accounted split: option.split prod.split)
qed

lemma enqueue_accounted: "fc_enabled c \<Longrightarrow> accounted (enqueue_event c now busy ev f) = Suc (accounted f)"
  by (simp add: accounted_def enqueue_event_def Let_def)

lemma flush_begin_accounted: "accounted (begin_flush c f) = accounted f" "accounted (report_health r f) = accounted f"
  by (simp_all add: accounted_def begin_flush_def report_health_def)

lemma step_accounted:
  assumes "fc_enabled c"
  shows "accounted (queue_step c x f) = accounted f + offered x"
  using assms
  by (cases x) (simp_all add: take_accounted finish_accounted end_flush_accounted flush_begin_accounted enqueue_accounted)

lemma run_accounted: "fc_enabled c \<Longrightarrow> accounted (fold (queue_step c) xs f) = accounted f + sum_list (List.map offered xs)"
  by (induction xs arbitrary: f) (simp_all add: step_accounted)

lemma load_accounted: "accounted (load_item c now f sv) = Suc (accounted f)"
  by (simp add: load_item_def accounted_def Let_def)

lemma start_accounted: "accounted (start_forwarder c now None) = 0"
  by (simp add: start_forwarder_def load_backlog_def new_forwarder_def accounted_def)

section \<open>The persisted file\<close>

text \<open>What a file with these items looks like, and the length of one with items of these lengths.\<close>

definition backlog_file :: "forward_config \<Rightarrow> backlog_item list \<Rightarrow> string" where
  "backlog_file c items = backlog_header @ join_with '','' (List.map (item_json c) items) @ backlog_footer"

definition file_length :: "nat list \<Rightarrow> int" where
  "file_length ls = int (length backlog_header + length backlog_footer + sum_list ls + (length ls - 1))"

lemma join_length: "length (join_with [x] xs) = sum_list (List.map length xs) + (length xs - 1)"
  by (induction "[x]" xs rule: join_with.induct) auto

lemma backlog_file_length: "int (length (backlog_file c items)) = file_length (List.map (\<lambda>i. length (item_json c i)) items)"
  by (simp add: backlog_file_def file_length_def join_length comp_def)

lemma int_sum_lengths: "int (sum_list (List.map f xs)) = sum_list (List.map (\<lambda>x. int (f x)) xs)"
  by (induction xs) simp_all

lemma file_length_drop: "file_length (a @ l # ls) - int l - (if 1 < Suc (length a + length ls) then 1 else 0) = file_length (a @ ls)"
  by (cases a; cases ls) (simp_all add: file_length_def)

lemma trim_loop_spec:
  assumes "trim_loop limit ls (length a + length ls) (file_length (a @ ls)) = (n, t)"
  shows "n \<le> length ls \<and> t = file_length (a @ drop n ls) \<and> (\<forall>m<n. limit < file_length (a @ drop m ls)) \<and>
         (limit < t \<longrightarrow> n = length ls)"
  using assms
proof (induction ls arbitrary: n)
  case (Cons l ls)
  show ?case
  proof (cases "file_length (a @ l # ls) \<le> limit")
    case False
    obtain n' t' where r: "trim_loop limit ls (length a + length ls) (file_length (a @ ls)) = (n', t')"
      by (cases "trim_loop limit ls (length a + length ls) (file_length (a @ ls))")
    have "trim_loop limit (l # ls) (Suc (length a + length ls)) (file_length (a @ l # ls)) = (Suc n', t')"
      by (simp only: trim_loop.simps if_not_P [OF False] diff_Suc_1 file_length_drop r prod.case)
    with Cons.prems have n: "n = Suc n'" "t' = t" by simp_all
    have IH: "n' \<le> length ls" "t = file_length (a @ drop n' ls)" "\<And>m. m < n' \<Longrightarrow> limit < file_length (a @ drop m ls)"
      "limit < t \<Longrightarrow> n' = length ls"
      using Cons.IH [OF r [unfolded n(2)]] by blast+
    have least: "limit < file_length (a @ drop m (l # ls))" if "m < n" for m
    proof (cases m)
      case (Suc k)
      with that n IH(3) [of k] show ?thesis by simp
    qed (use False in simp)
    have "n \<le> length (l # ls)" "drop n (l # ls) = drop n' ls" "limit < t \<Longrightarrow> n = length (l # ls)"
      using IH(1,4) n(1) by simp_all
    with IH(2) least show ?thesis by metis
  qed (use Cons.prems in auto)
qed simp

text \<open>encodeBoundedBacklog: the longest suffix of the queue that fits behind what is in flight.\<close>

lemma encode_bounded_spec:
  assumes "k \<le> length items"
  shows "case encode_bounded c items k limit of
           None \<Rightarrow> limit < int (length (backlog_file c (take k items)))
         | Some (data, n) \<Rightarrow> k + n \<le> length items \<and> data = backlog_file c (take k items @ drop (k + n) items) \<and>
             int (length data) \<le> limit \<and>
             (\<forall>m<n. limit < int (length (backlog_file c (take k items @ drop (k + m) items))))"
proof -
  let ?len = "\<lambda>i. length (item_json c i)"
  let ?a = "List.map ?len (take k items)" and ?l = "List.map ?len (drop k items)"
  have al: "?a @ ?l = List.map ?len items" by (simp flip: map_append)
  obtain n t where tl: "trim_loop limit ?l (length ?a + length ?l) (file_length (?a @ ?l)) = (n, t)"
    by (cases "trim_loop limit ?l (length ?a + length ?l) (file_length (?a @ ?l))")
  have len: "int (length (backlog_file c (take k items @ drop (k + m) items))) = file_length (?a @ drop m ?l)" for m
    by (simp add: backlog_file_length drop_map add.commute)
  have parts: "List.map length (drop k (List.map (item_json c) items)) = ?l"
    "int (length backlog_header) + int (length backlog_footer) + sum_list (List.map (\<lambda>e. int (length e)) (List.map (item_json c) items)) +
       int (length items - 1) = file_length (?a @ ?l)" "length ?a + length ?l = length items"
    using assms by (simp_all add: drop_map comp_def al file_length_def int_sum_lengths)
  have enc: "encode_bounded c items k limit =
      (if limit < t then None else Some (backlog_file c (take k items @ drop (k + n) items), n))"
    using tl unfolding encode_bounded_def Let_def parts by (simp add: backlog_file_def take_map drop_map)
  from trim_loop_spec [OF tl] have spec: "n \<le> length ?l" "t = file_length (?a @ drop n ?l)"
    "\<forall>m<n. limit < file_length (?a @ drop m ?l)" "limit < t \<longrightarrow> n = length ?l" by blast+
  show ?thesis
  proof (cases "limit < t")
    case True
    with spec(2,4) have "t = file_length ?a" by simp
    with True have "limit < int (length (backlog_file c (take k items)))" by (simp only: backlog_file_length)
    with True show ?thesis by (simp only: enc if_True option.case)
  next
    case False
    have "int (length (backlog_file c (take k items @ drop (k + n) items))) \<le> limit"
      using False spec(2) by (simp only: len)
    moreover have "k + n \<le> length items" using spec(1) assms by simp
    moreover have "\<forall>m<n. limit < int (length (backlog_file c (take k items @ drop (k + m) items)))"
      using spec(3) by (simp only: len)
    ultimately show ?thesis using False by (simp only: enc if_False option.case prod.case)
  qed
qed

text \<open>A restart loads what fits: when everything does, the events come back in order.\<close>

definition saved_size :: "forward_config \<Rightarrow> (query_event \<times> int option) list \<Rightarrow> int" where
  "saved_size c xs = sum_list (List.map (\<lambda>x. backlog_item_size c (fst x)) xs)"

lemma saved_size_nonneg: "0 \<le> saved_size c xs"
  by (induction xs) (simp_all add: saved_size_def backlog_item_size_def event_json_size_def persisted_item_overhead_def)

lemma load_fitting:
  assumes "0 < fc_max_backlog c \<longrightarrow> fw_total f + saved_size c xs \<le> fc_max_backlog c"
  shows "List.map bi_event (held (foldl (load_item c now) f xs)) = List.map bi_event (held f) @ List.map fst xs \<and>
         fw_dropped (foldl (load_item c now) f xs) = fw_dropped f"
  using assms
proof (induction xs arbitrary: f)
  case (Cons x xs)
  let ?f = "load_item c now f x"
  have fits: "\<not> (0 < fc_max_backlog c \<and> fc_max_backlog c < fw_total f + backlog_item_size c (fst x))"
    using Cons.prems saved_size_nonneg [of c xs] by (auto simp: saved_size_def)
  have step: "fw_total ?f = fw_total f + backlog_item_size c (fst x)" "fw_dropped ?f = fw_dropped f"
    "List.map bi_event (held ?f) = List.map bi_event (held f) @ [fst x]"
    using fits by (auto simp: load_item_def Let_def)
  have "0 < fc_max_backlog c \<longrightarrow> fw_total ?f + saved_size c xs \<le> fc_max_backlog c"
    using Cons.prems step(1) by (auto simp: saved_size_def add.assoc)
  from Cons.IH [OF this] step show ?case by simp
qed simp

lemma sizes_saved: "list_all (item_ok c) xs \<Longrightarrow> saved_size c (List.map (\<lambda>i. (bi_event i, g i)) xs) = total_size xs"
  by (induction xs) (simp_all add: saved_size_def item_ok_def)

lemma trimmed_held:
  assumes "sorted_wrt (<) (List.map bi_seq (a @ b @ d))"
  shows "filter (\<lambda>i. bi_seq i \<notin> bi_seq ` set b) (b @ d) = d"
proof -
  have "filter (\<lambda>i. bi_seq i \<notin> bi_seq ` set b) d = d"
    using assms by (fastforce simp: filter_id_conv sorted_wrt_append)
  then show ?thesis by (simp add: filter_empty_conv)
qed

lemma flush_writes_held:
  assumes "queue_inv c f" and "fw_snapshot f = None" "fc_has_path c"
    and "int (length (backlog_file c (fw_inflight f))) \<le> backlog_limit c"
  defines "f' \<equiv> end_flush c True (begin_flush c f)"
  shows "fw_file f' = Some \<lparr>pb_items = List.map (\<lambda>i. (bi_event i, Some (bi_queued i))) (held f'), pb_bytes = int (length (backlog_file c (held f')))\<rparr> \<and>
         int (length (backlog_file c (held f'))) \<le> backlog_limit c"
proof -
  let ?k = "length (fw_inflight f)"
  note enc = encode_bounded_spec [where k = ?k and items = "held f" and c = c and limit = "backlog_limit c"]
  obtain data n where e: "encode_bounded c (held f) ?k (backlog_limit c) = Some (data, n)"
    using enc assms(4) by (auto split: option.splits)
  with enc have d: "data = backlog_file c (fw_inflight f @ drop n (fw_backlog f))" "int (length data) \<le> backlog_limit c"
    by auto
  have "sorted_wrt (<) (List.map bi_seq (fw_inflight f @ take n (fw_backlog f) @ drop n (fw_backlog f)))"
    using assms(1) by (simp add: queue_inv_def held_inv_def)
  note kept = trimmed_held [OF this, simplified append_take_drop_id]
  have f': "f' = drop_persist_trimmed (bi_seq ` set (take n (fw_backlog f)))
      (f\<lparr>fw_snapshot := None, fw_file := Some \<lparr>pb_items = List.map (\<lambda>i. (bi_event i, Some (bi_queued i))) (fw_inflight f @ drop n (fw_backlog f)),
          pb_bytes = int (length data)\<rparr>\<rparr>)"
    using assms(2,3) e by (simp add: f'_def begin_flush_def end_flush_def Let_def)
  have h: "fw_inflight f' = fw_inflight f" "fw_backlog f' = drop n (fw_backlog f)"
    using kept by (simp_all add: f' drop_persist_trimmed_def Let_def)
  with d show ?thesis by (simp add: h) (simp add: f' drop_persist_trimmed_def Let_def)
qed

lemma restart_after_flush:
  assumes "queue_inv c f" and "fc_enabled c" "fw_snapshot f = None" "fc_has_path c"
    and "int (length (backlog_file c (fw_inflight f))) \<le> backlog_limit c"
  defines "f' \<equiv> end_flush c True (begin_flush c f)"
  shows "List.map bi_event (held (start_forwarder c now (fw_file f'))) = List.map bi_event (held f') \<and>
         fw_dropped (start_forwarder c now (fw_file f')) = 0"
proof -
  have inv: "queue_inv c f'" using assms(1) by (simp add: f'_def begin_flush_inv end_flush_inv)
  let ?saved = "List.map (\<lambda>i. (bi_event i, Some (bi_queued i))) (held f')"
  have file_of: "fw_file f' = Some \<lparr>pb_items = ?saved, pb_bytes = int (length (backlog_file c (held f')))\<rparr>"
    "int (length (backlog_file c (held f'))) \<le> backlog_limit c"
    using flush_writes_held [OF assms(1,3,4,5)] by (simp_all only: f'_def)
  have start: "start_forwarder c now (fw_file f') = foldl (load_item c now) (new_forwarder (fw_file f')) ?saved"
    using file_of assms(2,4) by (simp add: start_forwarder_def load_backlog_def new_forwarder_def)
  have "0 < fc_max_backlog c \<longrightarrow> fw_total (new_forwarder (fw_file f')) + saved_size c ?saved \<le> fc_max_backlog c"
    using inv sizes_saved [of c "held f'" "\<lambda>i. Some (bi_queued i)"]
    by (auto simp: queue_inv_def held_inv_def new_forwarder_def)
  from load_fitting [OF this, of now] show ?thesis by (simp add: start comp_def new_forwarder_def)
qed


section \<open>What modelling showed\<close>

text \<open>A batch that is all there is, delivered, counts as a full one: the batch size falls from 100 to 26.\<close>

lemma small_batch_shrinks:
  assumes "fw_inflight f = []" "length (fw_backlog f) = 1" "fw_adaptive f = 100"
  shows "fw_adaptive (snd (finish_send c j Delivered (take_batch f))) = 26"
  using assms
  by (auto simp: take_batch_def finish_send_def finish_in_flight_def Let_def min_forward_batch_def max_forward_batch_def length_Suc_conv)

text \<open>A Retry-After of 10^10 seconds wraps around to a negative wait instead of the ten minutes of the cap.\<close>

lemma retry_after_wraps: "parse_retry_after (\<lambda>v. None) ''10000000000'' 0 < 0"
proof -
  have "trim_space ''10000000000'' = ''10000000000''" by code_simp
  moreover have "all_digits ''10000000000''" "\<not> has_prefix ''10000000000'' ''-''" "\<not> has_prefix ''10000000000'' ''+''" by code_simp+
  moreover have "dec_val ''10000000000'' = 10000000000" by (simp add: dec_val_def digit_val_def)
  ultimately have "parse_retry_after (\<lambda>v. None) ''10000000000'' 0 = min (wrap64 (10000000000 * second)) max_retry_after"
    by (simp add: parse_retry_after_def atoi_def)
  also have "\<dots> < 0" by (simp add: wrap64_def second_def max_retry_after_def minute_def)
  finally show ?thesis .
qed

text \<open>A permanently rejected batch closes admission: with nothing left to send, every later event is dropped
  until a health report is accepted.\<close>

lemma permanent_rejection_closes:
  assumes "permanent_status st" and "fc_enabled c"
  shows "let f' = snd (finish_send c j (Rejected st a) f) in fw_frozen f' \<and> fw_inflight f' = [] \<and>
    enqueue_event c now busy ev f' = f'\<lparr>fw_dropped := Suc (fw_dropped f')\<rparr> \<and> take_batch (f'\<lparr>fw_backlog := []\<rparr>) = f'\<lparr>fw_backlog := []\<rparr>"
  using assms by (simp add: finish_send_def finish_in_flight_def enqueue_event_def take_batch_def Let_def)


section \<open>An agent in operation\<close>

definition demo_event :: "string \<Rightarrow> query_event" where
  "demo_event d = \<lparr>qe_time = 0, qe_type = ''query'', qe_domain = d, qe_client = ''192.0.2.1'', qe_latency_us = 0, qe_upstream = [], qe_node = [],
     qe_alias = [], qe_dnssec = [], qe_hostname = [], qe_blocked = False, qe_rcode = ''NOERROR'', qe_rule = [], qe_reason = [], qe_cache = [],
     qe_ttl = 0, qe_soa = []\<rparr>"

definition demo_agent :: forward_config where
  "demo_agent = \<lparr>fc_enabled = True, fc_node = ''n1'', fc_max_backlog = 200, fc_max_retries = 0, fc_retry_interval = second, fc_has_path = True,
     fc_event_json = qe_domain, fc_item_json = (\<lambda>e t. qe_domain e)\<rparr>"

text \<open>Three events (the last finds the queue locked), a delivery that fails, then a flush that could not be written.\<close>

definition demo_queue_ops :: "queue_op list" where
  "demo_queue_ops = [QEnqueue 1 False (demo_event ''a.lan''), QTake, QEnqueue 2 False (demo_event ''b.lan''), QFinish 0 (Rejected 503 0),
     QHealth Delivered, QEnqueue 3 True (demo_event ''c.lan''), QBeginFlush, QEndFlush False]"

lemmas demo_agent_defs = demo_event_def demo_agent_def demo_queue_ops_def

section \<open>Properties\<close>

text \<open>C39: whatever the interleaving of enqueues, deliveries, health reports and flushes, and whatever sends and
  writes fail: every event offered is delivered, held or counted as dropped; what is held is in order of
  admission, its size is the tracked total and within the configured limit; the batch size stays between its bounds.\<close>

theorem events_conserved:
  assumes "fc_enabled c"
  shows "let f = fold (queue_step c) ops (start_forwarder c now None) in
     fw_sent f + fw_dropped f + length (held f) = sum_list (List.map offered ops) \<and>
     sorted_wrt (<) (List.map bi_seq (held f)) \<and>
     fw_total f = sum_list (List.map (backlog_item_size c \<circ> bi_event) (held f)) \<and>
     (fc_max_backlog c \<le> 0 \<or> fw_total f \<le> fc_max_backlog c) \<and>
     min_forward_batch \<le> fw_adaptive f \<and> fw_adaptive f \<le> max_forward_batch"
proof -
  define f where "f = fold (queue_step c) ops (start_forwarder c now None)"
  have inv: "queue_inv c f" unfolding f_def by (rule forward_queue.run_keeps [OF start_forwarder_inv])
  have sizes: "total_size xs = sum_list (List.map (backlog_item_size c \<circ> bi_event) xs)" if "list_all (item_ok c) xs" for xs
    using that by (induction xs) (simp_all add: item_ok_def)
  have "fw_total f = sum_list (List.map (backlog_item_size c \<circ> bi_event) (held f))"
    using inv sizes [of "held f"] by (simp only: queue_inv_def held_inv_def)
  moreover have "accounted f = sum_list (List.map offered ops)"
    using run_accounted [OF assms, of ops "start_forwarder c now None"] by (simp only: f_def start_accounted)
  ultimately show ?thesis using inv unfolding Let_def f_def [symmetric]
    by (simp only: queue_inv_def held_inv_def accounted_def) (auto simp: not_less)
qed

theorem events_conserved_witness:
  "let f = fold (queue_step demo_agent) demo_queue_ops (start_forwarder demo_agent 0 None) in
     fw_sent f + fw_dropped f + length (held f) = 3 \<and> fw_dropped f = 1 \<and> List.map (qe_domain \<circ> bi_event) (held f) = [''a.lan'', ''b.lan'']"
proof -
  have "fc_enabled demo_agent" by (simp add: demo_agent_def)
  from events_conserved [OF this, of demo_queue_ops 0]
  have "let f = fold (queue_step demo_agent) demo_queue_ops (start_forwarder demo_agent 0 None) in
     fw_sent f + fw_dropped f + length (held f) = 3"
    by (simp add: Let_def demo_queue_ops_def)
  moreover have "let f = fold (queue_step demo_agent) demo_queue_ops (start_forwarder demo_agent 0 None) in
     fw_dropped f = 1 \<and> List.map (qe_domain \<circ> bi_event) (held f) = [''a.lan'', ''b.lan'']"
    by code_simp
  ultimately show ?thesis by (simp add: Let_def)
qed

text \<open>the file of the backlog never exceeds the limit; what is in flight is always in it and of the queue the oldest
  events are left out, as few as possible; it cannot be written exactly when what is in flight alone is too large.\<close>

theorem persisted_backlog_fits:
  assumes "k \<le> length items"
  shows "case encode_bounded c items k limit of
           None \<Rightarrow> limit < int (length (backlog_file c (take k items)))
         | Some (data, n) \<Rightarrow> k + n \<le> length items \<and> data = backlog_file c (take k items @ drop (k + n) items) \<and>
             int (length data) \<le> limit \<and>
             (\<forall>m<n. limit < int (length (backlog_file c (take k items @ drop (k + m) items))))"
  by (rule encode_bounded_spec [OF assms])

theorem persisted_backlog_fits_witness:
  "int (length (fst (the (encode_bounded demo_agent (held (fold (queue_step demo_agent) demo_queue_ops (new_forwarder None))) 1 32)))) \<le> 32 \<and>
   snd (the (encode_bounded demo_agent (held (fold (queue_step demo_agent) demo_queue_ops (new_forwarder None))) 1 32)) = 1"
proof -
  let ?h = "held (fold (queue_step demo_agent) demo_queue_ops (new_forwarder None))"
  have "1 \<le> length ?h" by code_simp
  note fits = persisted_backlog_fits [OF this, where c = demo_agent and limit = 32]
  have n: "map_option snd (encode_bounded demo_agent ?h 1 32) = Some 1" by code_simp
  then obtain data where e: "encode_bounded demo_agent ?h 1 32 = Some (data, 1)" by auto
  have "int (length data) \<le> 32" using fits unfolding e option.case prod.case by (elim conjE)
  with e show ?thesis by (simp only: option.sel fst_conv snd_conv)
qed

text \<open>a forwarder that has written its backlog and is restarted, with the controller down, holds the same events in
  the same order and drops none, whatever happened before.\<close>

theorem backlog_survives_restart:
  assumes "fc_enabled c" "fc_has_path c"
    and "f = fold (queue_step c) ops (start_forwarder c now None)" "fw_snapshot f = None"
    and "int (length (backlog_file c (fw_inflight f))) \<le> backlog_limit c"
  shows "let f' = end_flush c True (begin_flush c f); g = start_forwarder c later (fw_file f') in
     List.map bi_event (held g) = List.map bi_event (held f') \<and> fw_dropped g = 0"
proof -
  have "queue_inv c f" unfolding assms(3) by (rule forward_queue.run_keeps [OF start_forwarder_inv])
  from restart_after_flush [OF this assms(1,4,2,5)] show ?thesis by (simp only: Let_def)
qed

theorem backlog_survives_restart_witness:
  "List.map bi_event (held (start_forwarder demo_agent 9 (fw_file (end_flush demo_agent True (begin_flush demo_agent
       (fold (queue_step demo_agent) demo_queue_ops (start_forwarder demo_agent 0 None))))))) =
   List.map bi_event (held (end_flush demo_agent True (begin_flush demo_agent
       (fold (queue_step demo_agent) demo_queue_ops (start_forwarder demo_agent 0 None)))))"
proof -
  let ?f = "fold (queue_step demo_agent) demo_queue_ops (start_forwarder demo_agent 0 None)"
  have "fc_enabled demo_agent" "fc_has_path demo_agent" by (simp_all add: demo_agent_def)
  moreover have "fw_snapshot ?f = None" by code_simp
  moreover have "int (length (backlog_file demo_agent (fw_inflight ?f))) \<le> backlog_limit demo_agent" by code_simp
  ultimately show ?thesis
    using backlog_survives_restart [where c = demo_agent and f = ?f and ops = demo_queue_ops and now = 0 and later = 9] by (simp add: Let_def)
qed

end
