(* ===== verification/History_Pages.thy ===== *)
theory History_Pages
  imports Event_History Web_Requests "HOL-Library.Sublist"
begin

text \<open>
  storage/history.go and api/history.go: the pages of the persisted history. The rows of the table queries
  carry the row ids that SQLite hands out (AUTOINCREMENT: ascending, never used again); a page is selected
  by column filters and by the exclusive upper row id of the cursor. Between two pages the archiver may
  append rows and retention may delete some.
\<close>

section \<open>The table with its row ids\<close>

record row_table =
  rt_seq :: nat
  rt_rows :: "(nat \<times> stored_event) list"

definition empty_table :: row_table where
  "empty_table = \<lparr>rt_seq = 0, rt_rows = []\<rparr>"

definition insert_rows :: "stored_event list \<Rightarrow> row_table \<Rightarrow> row_table" where
  "insert_rows es t =
     t\<lparr>rt_seq := rt_seq t + length es, rt_rows := rt_rows t @ zip [Suc (rt_seq t)..<Suc (rt_seq t + length es)] (List.map row_of es)\<rparr>"

definition delete_old_rows :: "nat \<Rightarrow> int \<Rightarrow> (nat \<times> stored_event) list \<Rightarrow> (nat \<times> stored_event) list" where
  "delete_old_rows n cutoff rows =
     fst (foldl (\<lambda>(out, left) r. if 0 < left \<and> qv_time (snd r) < cutoff then (out, left - 1) else (out @ [r], left)) ([], n) rows)"

datatype row_op = Archive "stored_event list" | Prune int

definition row_step :: "row_table \<Rightarrow> row_op \<Rightarrow> row_table" where
  "row_step t x =
     (case x of Archive es \<Rightarrow> insert_rows es t | Prune cutoff \<Rightarrow> t\<lparr>rt_rows := delete_old_rows retention_delete_batch cutoff (rt_rows t)\<rparr>)"

text \<open>Without the ids these are the operations on the rows of the database.\<close>

definition without_ids :: "row_table \<Rightarrow> stored_event list" where
  "without_ids t = List.map snd (rt_rows t)"

section \<open>Filters\<close>

definition max_history_page_size :: int where
  "max_history_page_size = 500"

definition default_history_page :: int where
  "default_history_page = 100"

record history_filter =
  hf_cursor :: int
  hf_limit :: int
  hf_domain :: string
  hf_client :: string
  hf_type :: string
  hf_status :: string

text \<open>validHistoryToken, on ASCII: the letters and digits of other scripts are not modelled.\<close>

definition valid_history_token :: "string \<Rightarrow> nat \<Rightarrow> bool" where
  "valid_history_token v n \<longleftrightarrow> v \<noteq> [] \<and> length v \<le> n \<and> list_all (\<lambda>c. is_digit c \<or> to_lower [c] \<noteq> to_upper [c] \<or> c = CHR ''-'' \<or> c = CHR ''_'') v"

text \<open>normalizeHistoryFilter; None is ErrInvalidHistoryFilter.\<close>

definition normalize_history_filter :: "history_filter \<Rightarrow> history_filter option" where
  "normalize_history_filter f0 =
     (if hf_cursor f0 < 0 then None
      else let f1 = (if hf_limit f0 = 0 then f0\<lparr>hf_limit := default_history_page\<rparr> else f0)
           in if hf_limit f1 < 1 \<or> max_history_page_size < hf_limit f1 then None
              else let f = f1\<lparr>hf_domain := trim_space (to_lower (hf_domain f1)), hf_client := trim_space (hf_client f1),
                              hf_type := to_upper (trim_space (hf_type f1)), hf_status := to_upper (trim_space (hf_status f1))\<rparr>
                   in if 253 < length (hf_domain f) then None
                      else if 128 < length (hf_client f) then None
                      else if hf_type f \<noteq> [] \<and> \<not> valid_history_token (hf_type f) 16 then None
                      else if hf_status f \<noteq> [] \<and> \<not> valid_history_token (hf_status f) 32 then None
                      else Some f)"

text \<open>The WHERE clause of buildHistoryQuery: the columns, then with the cursor.\<close>

definition status_match :: "string \<Rightarrow> stored_event \<Rightarrow> bool" where
  "status_match st e =
     (if st = [] then True
      else if st = ''ALLOWED'' then \<not> qv_blocked e
      else if st = ''BLOCKED'' then qv_blocked e
      else if st = ''CACHE'' then sql_cache_hit e
      else if st = ''ERROR'' then qv_rcode e \<notin> {[], ''NOERROR''}
      else qv_rcode e = st)"

definition columns_match :: "history_filter \<Rightarrow> stored_event \<Rightarrow> bool" where
  "columns_match f e \<longleftrightarrow> (hf_domain f = [] \<or> qv_domain e = hf_domain f) \<and> (hf_client f = [] \<or> qv_client e = hf_client f) \<and>
     (hf_type f = [] \<or> qv_type e = hf_type f) \<and> status_match (hf_status f) e"

definition below_cursor :: "int \<Rightarrow> nat \<Rightarrow> bool" where
  "below_cursor c i \<longleftrightarrow> c \<le> 0 \<or> int i < c"

definition select_history :: "history_filter \<Rightarrow> row_table \<Rightarrow> (nat \<times> stored_event) list" where
  "select_history f t =
     take (nat (hf_limit f) + 1) (sort_key (\<lambda>r. - int (fst r)) (filter (\<lambda>r. below_cursor (hf_cursor f) (fst r) \<and> columns_match f (snd r)) (rt_rows t)))"

section \<open>Pages\<close>

record history_page =
  hp_events :: "stored_event list"
  hp_next :: string
  hp_more :: bool

datatype history_error = InvalidFilter | HistoryFailed

definition present_row :: "(string \<Rightarrow> string) \<Rightarrow> nat \<times> stored_event \<Rightarrow> stored_event" where
  "present_row alias r = (snd r)\<lparr>qv_id := show_nat (fst r), qv_alias := alias (qv_client (snd r))\<rparr>"

text \<open>QueryHistory; the table is None when the database is closed, and reading it may fail.\<close>

definition query_history :: "(string \<Rightarrow> string) \<Rightarrow> bool \<Rightarrow> history_filter \<Rightarrow> row_table option \<Rightarrow> history_error + history_page" where
  "query_history alias read_ok f0 db =
     (case normalize_history_filter f0 of
        None \<Rightarrow> Inl InvalidFilter
      | Some f \<Rightarrow>
          (case db of
             None \<Rightarrow> Inl HistoryFailed
           | Some t \<Rightarrow>
               if \<not> read_ok then Inl HistoryFailed
               else let events = List.map (present_row alias) (select_history f t)
                    in if hf_limit f < int (length events) then
                         (let kept = take (nat (hf_limit f)) events
                          in Inr \<lparr>hp_events = kept, hp_next = qv_id (List.last kept), hp_more = True\<rparr>)
                       else Inr \<lparr>hp_events = events, hp_next = [], hp_more = False\<rparr>))"

datatype history_reply = HistoryStatus nat | HistoryOk history_page

text \<open>handleHistory: the parameters of the URL, empty where absent.\<close>

definition cursor_param :: "string \<Rightarrow> int option" where
  "cursor_param raw0 =
     (let raw = trim_space raw0 in if raw = [] then Some 0 else case atoi raw of None \<Rightarrow> None | Some c \<Rightarrow> if c < 1 then None else Some c)"

definition limit_param :: "string \<Rightarrow> int option" where
  "limit_param raw0 =
     (let raw = trim_space raw0
      in if raw = [] then Some 0 else case atoi raw of None \<Rightarrow> None | Some n \<Rightarrow> if n < 1 \<or> max_history_page_size < n then None else Some n)"

definition handle_history :: "(string \<Rightarrow> string) \<Rightarrow> bool \<Rightarrow> string \<Rightarrow> (string \<Rightarrow> string) \<Rightarrow> row_table option \<Rightarrow> history_reply" where
  "handle_history alias read_ok verb param db =
     (if verb \<noteq> ''GET'' then HistoryStatus 405
      else case cursor_param (param ''cursor'') of
             None \<Rightarrow> HistoryStatus 400
           | Some c \<Rightarrow>
               (case limit_param (param ''limit'') of
                  None \<Rightarrow> HistoryStatus 400
                | Some n \<Rightarrow>
                    (case query_history alias read_ok \<lparr>hf_cursor = c, hf_limit = n, hf_domain = param ''domain'', hf_client = param ''client'',
                             hf_type = param ''type'', hf_status = param ''status''\<rparr> db of
                       Inl InvalidFilter \<Rightarrow> HistoryStatus 400
                     | Inl HistoryFailed \<Rightarrow> HistoryStatus 500
                     | Inr p \<Rightarrow> HistoryOk p)))"

section \<open>Walking the pages\<close>

text \<open>A client that asks for the first page and follows next_cursor; between two pages the table changes by
  the next list of operations. The flag says whether the last page was reached. None is a refusal.\<close>

fun history_walk :: "(string \<Rightarrow> string) \<Rightarrow> (string \<Rightarrow> string) \<Rightarrow> string \<Rightarrow> row_table \<Rightarrow> row_op list list \<Rightarrow> (stored_event list \<times> bool) option" where
  "history_walk alias param cursor t [] = Some ([], False)"
| "history_walk alias param cursor t (ops # later) =
     (case handle_history alias True ''GET'' (param(''cursor'' := cursor)) (Some t) of
        HistoryStatus _ \<Rightarrow> None
      | HistoryOk p \<Rightarrow>
          if hp_more p then map_option (\<lambda>(es, fin). (hp_events p @ es, fin)) (history_walk alias param (hp_next p) (foldl row_step t ops) later)
          else Some (hp_events p, True))"

section \<open>Row ids ascend\<close>

definition table_ok :: "row_table \<Rightarrow> bool" where
  "table_ok t \<longleftrightarrow> sorted_wrt (<) (List.map fst (rt_rows t)) \<and> list_all (\<lambda>r. 0 < fst r \<and> fst r \<le> rt_seq t) (rt_rows t)"

lemma subseq_set: "subseq xs ys \<Longrightarrow> x \<in> set xs \<Longrightarrow> x \<in> set ys"
  by (auto dest: list_emb_set)

lemma delete_old_rows_fold:
  "\<exists>ks. fst (foldl (\<lambda>(out, left) r. if 0 < left \<and> qv_time (snd r) < cutoff then (out, left - 1) else (out @ [r], left)) (acc, n) rows) = acc @ ks \<and> subseq ks rows"
proof (induction rows arbitrary: acc n)
  case (Cons r rows)
  show ?case
  proof (cases "0 < n \<and> qv_time (snd r) < cutoff")
    case True
    then show ?thesis using Cons [of acc "n - 1"] by auto
  next
    case False
    obtain ks where "fst (foldl (\<lambda>(out, left) r. if 0 < left \<and> qv_time (snd r) < cutoff then (out, left - 1) else (out @ [r], left)) (acc @ [r], n) rows) = (acc @ [r]) @ ks \<and> subseq ks rows"
      using Cons by blast
    with False show ?thesis by (intro exI [where x = "r # ks"]) auto
  qed
qed simp

lemma delete_old_rows_sub: "subseq (delete_old_rows n cutoff rows) rows"
  using delete_old_rows_fold [of cutoff "[]" n rows] by (auto simp: delete_old_rows_def)

lemma sorted_wrt_subseq: "subseq xs ys \<Longrightarrow> sorted_wrt P ys \<Longrightarrow> sorted_wrt P xs"
  by (induction rule: list_emb.induct) (auto dest: subseq_set)

lemma table_ok_step: "table_ok t \<Longrightarrow> table_ok (row_step t x)"
proof (cases x)
  case (Archive es)
  assume "table_ok t"
  moreover have "List.map fst (zip [Suc (rt_seq t)..<Suc (rt_seq t + length es)] (List.map row_of es)) = [Suc (rt_seq t)..<Suc (rt_seq t + length es)]"
    by (simp del: upt_Suc)
  ultimately show ?thesis using Archive
    by (auto simp: table_ok_def row_step_def insert_rows_def sorted_wrt_append list_all_iff simp del: upt_Suc dest!: set_zip_leftD)
next
  case (Prune cutoff)
  assume ok: "table_ok t"
  have sub: "subseq (delete_old_rows retention_delete_batch cutoff (rt_rows t)) (rt_rows t)" by (rule delete_old_rows_sub)
  then have "subseq (List.map fst (delete_old_rows retention_delete_batch cutoff (rt_rows t))) (List.map fst (rt_rows t))" by (rule subseq_map)
  with ok sub Prune show ?thesis
    by (auto simp: table_ok_def row_step_def list_all_iff intro: sorted_wrt_subseq dest: subseq_set)
qed

lemma table_ok_run: "table_ok t \<Longrightarrow> table_ok (foldl row_step t ops)"
  by (induction ops arbitrary: t) (simp_all add: table_ok_step)

text \<open>Older rows of a later table were there before.\<close>

lemma row_step_old:
  assumes "table_ok t" and "r \<in> set (rt_rows (row_step t x))" and "fst r \<le> rt_seq t"
  shows "r \<in> set (rt_rows t)"
proof (cases x)
  case (Archive es)
  obtain i e where r: "r = (i, e)" by (cases r)
  have "(i, e) \<notin> set (zip [Suc (rt_seq t)..<Suc (rt_seq t + length es)] (List.map row_of es))"
    using assms(3) r by (auto simp del: upt_Suc dest!: set_zip_leftD)
  with assms(2) Archive r show ?thesis by (simp add: row_step_def insert_rows_def)
next
  case (Prune cutoff)
  with assms(2) show ?thesis using delete_old_rows_sub by (auto simp: row_step_def dest: subseq_set)
qed

lemma row_step_seq: "rt_seq t \<le> rt_seq (row_step t x)"
  by (cases x) (simp_all add: row_step_def insert_rows_def)

lemma run_old: "table_ok t \<Longrightarrow> r \<in> set (rt_rows (foldl row_step t ops)) \<Longrightarrow> fst r \<le> rt_seq t \<Longrightarrow> r \<in> set (rt_rows t)"
proof (induction ops arbitrary: t)
  case (Cons x ops)
  have "r \<in> set (rt_rows (row_step t x))"
    using Cons.IH [of "row_step t x"] Cons.prems row_step_seq [of t x] by (simp add: table_ok_step)
  then show ?case using Cons.prems by (auto dest: row_step_old)
qed simp

lemma run_seq: "rt_seq t \<le> rt_seq (foldl row_step t ops)"
  by (induction ops arbitrary: t) (auto intro: order_trans row_step_seq)

lemma row_unique:
  assumes "table_ok t" and "r \<in> set (rt_rows t)" and "r' \<in> set (rt_rows t)" and "fst r' = fst r"
  shows "r' = r"
proof -
  have "distinct (List.map fst (rt_rows t))" using assms(1) by (simp add: table_ok_def strict_sorted_iff)
  then show ?thesis using assms(2-4) by (metis eq_key_imp_eq_value prod.collapse)
qed

section \<open>One page\<close>

text \<open>The matching rows below a cursor, newest first.\<close>

definition matching :: "history_filter \<Rightarrow> int \<Rightarrow> row_table \<Rightarrow> (nat \<times> stored_event) list" where
  "matching f c t = rev (filter (\<lambda>r. below_cursor c (fst r) \<and> columns_match f (snd r)) (rt_rows t))"

lemma matching_set: "set (matching f c t) = {r \<in> set (rt_rows t). below_cursor c (fst r) \<and> columns_match f (snd r)}"
  by (auto simp: matching_def)

lemma matching_sorted: "table_ok t \<Longrightarrow> sorted_wrt (>) (List.map fst (matching f c t))"
  by (simp add: table_ok_def matching_def rev_map [symmetric] sorted_wrt_rev sorted_wrt_map sorted_wrt_filter)

lemma select_history_matching:
  assumes "table_ok t"
  shows "select_history f t = take (nat (hf_limit f) + 1) (matching f (hf_cursor f) t)"
proof -
  let ?rows = "filter (\<lambda>r. below_cursor (hf_cursor f) (fst r) \<and> columns_match f (snd r)) (rt_rows t)"
  have s: "sorted_wrt (>) (List.map fst (matching f (hf_cursor f) t))" using assms by (rule matching_sorted)
  have "distinct (List.map fst ?rows)"
    using s by (simp add: matching_def rev_map [symmetric] sorted_wrt_rev strict_sorted_iff)
  then have inj: "inj_on (\<lambda>r. - int (fst r)) (set ?rows)" by (auto simp: distinct_map inj_on_def)
  have "sort_key (\<lambda>r. - int (fst r)) ?rows = rev ?rows"
  proof (rule sort_key_inj_key_eq)
    show "mset ?rows = mset (rev ?rows)" by simp
    show "inj_on (\<lambda>r. - int (fst r)) (set ?rows)" by (rule inj)
    show "sorted (List.map (\<lambda>r. - int (fst r)) (rev ?rows))"
      using s unfolding matching_def sorted_wrt_map by (rule sorted_wrt_mono_rel [rotated]) simp
  qed
  then show ?thesis by (simp add: select_history_def matching_def)
qed

text \<open>A page takes the first rows, and the cursor stands at the last of them.\<close>

lemma sorted_split:
  fixes ms :: "(nat \<times> stored_event) list"
  assumes "sorted_wrt (>) (List.map fst ms)" and "n < length ms" and "0 < n"
  shows "set (drop n ms) = {r \<in> set ms. fst r < fst (List.last (take n ms))}" and "r \<in> set (take n ms) \<Longrightarrow> fst (List.last (take n ms)) \<le> fst r"
proof -
  let ?b = "List.last (take n ms)"
  have split: "ms = take n ms @ drop n ms" by simp
  have s: "sorted_wrt (>) (List.map fst (take n ms) @ List.map fst (drop n ms))" using assms(1) by (metis append_take_drop_id map_append)
  have ne: "take n ms \<noteq> []" using assms(2,3) by auto
  have low: "fst r < fst ?b" if "r \<in> set (drop n ms)" for r
    using s that last_in_set [OF ne] by (simp add: sorted_wrt_append)
  have high: "fst ?b \<le> fst r" if "r \<in> set (take n ms)" for r
  proof -
    have "take n ms = butlast (take n ms) @ [?b]" using ne by simp
    then have "sorted_wrt (>) (List.map fst (butlast (take n ms)) @ [fst ?b])" using s by (metis list.simps(8,9) map_append sorted_wrt_append)
    moreover have "r \<in> set (butlast (take n ms)) \<or> r = ?b" using that ne by (metis append_butlast_last_id in_set_conv_decomp rotate1.simps(2) set_ConsD set_rotate1)
    ultimately show ?thesis by (auto simp: sorted_wrt_append)
  qed
  show "r \<in> set (take n ms) \<Longrightarrow> fst ?b \<le> fst r" by (rule high)
  have "set ms = set (take n ms) \<union> set (drop n ms)" using split by (metis set_append)
  then show "set (drop n ms) = {r \<in> set ms. fst r < fst ?b}" using low high by fastforce
qed

lemma normal_cursor:
  assumes "normalize_history_filter f = Some g"
  shows "hf_cursor g = hf_cursor f" and "1 \<le> hf_limit g" and "c \<ge> 0 \<Longrightarrow> normalize_history_filter (f\<lparr>hf_cursor := c\<rparr>) = Some (g\<lparr>hf_cursor := c\<rparr>)"
  using assms by (auto simp: normalize_history_filter_def Let_def split: if_splits)

lemma matching_frame: "matching (g\<lparr>hf_cursor := c\<rparr>) d t = matching g d t"
  by (simp add: matching_def columns_match_def)

text \<open>The filter of a request without its cursor.\<close>

definition request_filter :: "(string \<Rightarrow> string) \<Rightarrow> history_filter option" where
  "request_filter param =
     (case limit_param (param ''limit'') of
        None \<Rightarrow> None
      | Some n \<Rightarrow> normalize_history_filter \<lparr>hf_cursor = 0, hf_limit = n, hf_domain = param ''domain'', hf_client = param ''client'',
                      hf_type = param ''type'', hf_status = param ''status''\<rparr>)"

lemma page_of:
  assumes g: "request_filter param = Some g" and ok: "table_ok t" and c: "cursor_param cursor = Some c"
  defines "n \<equiv> nat (hf_limit g)" and "ms \<equiv> matching g c t"
  shows "handle_history alias True ''GET'' (param(''cursor'' := cursor)) (Some t) =
    HistoryOk (if n < length ms then \<lparr>hp_events = List.map (present_row alias) (take n ms), hp_next = show_nat (fst (List.last (take n ms))), hp_more = True\<rparr>
      else \<lparr>hp_events = List.map (present_row alias) ms, hp_next = [], hp_more = False\<rparr>)"
proof -
  obtain k where k: "limit_param (param ''limit'') = Some k"
    and f: "normalize_history_filter \<lparr>hf_cursor = 0, hf_limit = k, hf_domain = param ''domain'', hf_client = param ''client'',
      hf_type = param ''type'', hf_status = param ''status''\<rparr> = Some g"
    using g by (auto simp: request_filter_def split: option.splits)
  have c0: "0 \<le> c" using c by (auto simp: cursor_param_def Let_def split: if_splits option.splits)
  have lim: "1 \<le> hf_limit g" "nat (hf_limit g) = n" "0 < n" using normal_cursor(2) [OF f] by (simp_all add: n_def)
  have norm: "normalize_history_filter \<lparr>hf_cursor = c, hf_limit = k, hf_domain = param ''domain'', hf_client = param ''client'',
      hf_type = param ''type'', hf_status = param ''status''\<rparr> = Some (g\<lparr>hf_cursor := c\<rparr>)"
    using normal_cursor(3) [OF f c0] by simp
  have sel: "select_history (g\<lparr>hf_cursor := c\<rparr>) t = take (n + 1) ms"
    using select_history_matching [OF ok, of "g\<lparr>hf_cursor := c\<rparr>"] lim by (simp add: matching_frame ms_def)
  have less: "hf_limit g < int (length (take (n + 1) ms)) \<longleftrightarrow> n < length ms" using lim by auto
  have last: "qv_id (List.last (List.map (present_row alias) (take n ms))) = show_nat (fst (List.last (take n ms)))" if "n < length ms"
  proof -
    have "take n ms \<noteq> []" using that lim(3) by auto
    then show ?thesis by (simp add: last_map present_row_def)
  qed
  have page: "query_history alias True \<lparr>hf_cursor = c, hf_limit = k, hf_domain = param ''domain'', hf_client = param ''client'',
      hf_type = param ''type'', hf_status = param ''status''\<rparr> (Some t) =
      Inr (if n < length ms then \<lparr>hp_events = List.map (present_row alias) (take n ms), hp_next = show_nat (fst (List.last (take n ms))), hp_more = True\<rparr>
        else \<lparr>hp_events = List.map (present_row alias) ms, hp_next = [], hp_more = False\<rparr>)"
    using less last lim unfolding query_history_def norm by (simp add: Let_def sel take_map)
  show ?thesis unfolding handle_history_def using k c page by simp
qed

section \<open>All pages\<close>

lemma dropWhile_id: "(\<And>c. c \<in> set v \<Longrightarrow> \<not> P c) \<Longrightarrow> dropWhile P v = v"
  by (cases v) auto

lemma trim_show_nat: "trim_space (show_nat i) = show_nat i"
proof -
  have "\<not> is_space c" if "c \<in> set (show_nat i)" for c
    using show_nat_chars [OF that] by (auto simp: is_digit_def is_space_def)
  then have "dropWhile is_space (show_nat i) = show_nat i" "dropWhile is_space (rev (show_nat i)) = rev (show_nat i)"
    by (intro dropWhile_id; simp)+
  then show ?thesis by (simp add: trim_space_def trim_left_def trim_right_def)
qed

lemma cursor_roundtrip:
  assumes "0 < i" and "i < 2 ^ 63"
  shows "cursor_param (show_nat i) = Some (int i)"
proof -
  have d: "all_digits (show_nat i)" by (rule show_nat_digits)
  then have "\<not> has_prefix (show_nat i) ''-''" "\<not> has_prefix (show_nat i) ''+''" "show_nat i \<noteq> []"
    by (cases "show_nat i"; auto simp: all_digits_def has_prefix_def is_digit_def)+
  moreover have "int i < 2 ^ 63" using assms(2) by (metis of_nat_less_iff of_nat_numeral of_nat_power)
  ultimately show ?thesis using assms d by (simp add: cursor_param_def Let_def trim_show_nat atoi_def)
qed

lemma matching_length:
  assumes "table_ok t"
  shows "length (matching f c t) = card (set (matching f c t))"
proof -
  have "sorted_wrt (<) (List.map fst (rev (matching f c t)))"
    using matching_sorted [OF assms, of f c] by (simp add: rev_map [symmetric] sorted_wrt_rev)
  then have "distinct (List.map fst (rev (matching f c t)))" by (simp only: strict_sorted_iff)
  then have "distinct (rev (matching f c t))" by (simp only: distinct_map)
  then show ?thesis by (simp add: distinct_card)
qed

text \<open>After a page, what matches below its cursor in the changed table was left over by the page.\<close>

lemma left_over:
  fixes g :: history_filter
  assumes ok: "table_ok t" and n: "0 < n" "n < length (matching g c t)"
  defines "i \<equiv> fst (List.last (take n (matching g c t)))"
  shows "set (matching g (int i) (foldl row_step t ops)) \<subseteq> set (drop n (matching g c t))"
    and "set (drop n (matching g c t)) \<inter> set (rt_rows (foldl row_step t ops)) \<subseteq> set (matching g (int i) (foldl row_step t ops))"
    and "0 < i" and "i \<le> rt_seq t" and "r \<in> set (take n (matching g c t)) \<Longrightarrow> i \<le> fst r" and "r \<in> set (drop n (matching g c t)) \<Longrightarrow> fst r < i"
proof -
  let ?ms = "matching g c t"
  note sp = sorted_split [OF matching_sorted [OF ok, of g c] n(2,1), folded i_def]
  have ne: "take n ?ms \<noteq> []" using n by auto
  have "List.last (take n ?ms) \<in> set ?ms" using last_in_set [OF ne] by (rule in_set_takeD)
  then have l: "List.last (take n ?ms) \<in> set (rt_rows t)" "below_cursor c i" by (simp_all add: matching_set i_def)
  then show i: "0 < i" "i \<le> rt_seq t" using ok by (auto simp: table_ok_def list_all_iff i_def)
  have "below_cursor c (fst r)" if "fst r < i" for r :: "nat \<times> stored_event" using l(2) that by (auto simp: below_cursor_def)
  then show "set (matching g (int i) (foldl row_step t ops)) \<subseteq> set (drop n ?ms)"
    using run_old [OF ok, of _ ops] i unfolding sp(1) by (fastforce simp: matching_set below_cursor_def)
  show "set (drop n ?ms) \<inter> set (rt_rows (foldl row_step t ops)) \<subseteq> set (matching g (int i) (foldl row_step t ops))"
    unfolding sp(1) by (auto simp: matching_set below_cursor_def)
  show "r \<in> set (take n ?ms) \<Longrightarrow> i \<le> fst r" by (rule sp(2))
  show "r \<in> set (drop n ?ms) \<Longrightarrow> fst r < i" by (simp add: sp(1))
qed

lemma walk_facts:
  assumes g: "request_filter param = Some g" and "table_ok t" and "cursor_param cursor = Some c"
    and "rt_seq (foldl row_step t (concat opss)) < 2 ^ 63"
  shows "\<exists>rs fin. history_walk alias param cursor t opss = Some (List.map (present_row alias) rs, fin) \<and>
    sorted_wrt (>) (List.map fst rs) \<and> set rs \<subseteq> set (matching g c t) \<and>
    (fin \<longrightarrow> set (matching g c t) \<inter> set (rt_rows (foldl row_step t (concat opss))) \<subseteq> set rs) \<and>
    (opss \<noteq> [] \<and> length (matching g c t) \<le> nat (hf_limit g) * length opss \<longrightarrow> fin)"
  using assms(2-4)
proof (induction opss arbitrary: t cursor c)
  case (Cons ops later)
  let ?n = "nat (hf_limit g)" and ?ms = "matching g c t" and ?t = "foldl row_step t ops"
  note pg = page_of [OF g Cons.prems(1,2), of "alias"]
  show ?case
  proof (cases "?n < length ?ms")
    case False
    then show ?thesis using pg matching_sorted [OF Cons.prems(1), of g c]
      by (intro exI [where x = ?ms] exI [where x = True]) simp
  next
    case True
    have n0: "0 < ?n" using g normal_cursor(2) by (fastforce simp: request_filter_def split: option.splits)
    define i where "i = fst (List.last (take ?n ?ms))"
    note lo = left_over(1,2) [OF Cons.prems(1) n0 True, of ops, folded i_def] left_over(3-6) [OF Cons.prems(1) n0 True, folded i_def]
    have small: "i < 2 ^ 63" using lo(4) run_seq [of t "concat (ops # later)"] Cons.prems(3) by linarith
    have ok: "table_ok ?t" by (rule table_ok_run [OF Cons.prems(1)])
    obtain rs fin where rs: "history_walk alias param (show_nat i) ?t later = Some (List.map (present_row alias) rs, fin)"
      "sorted_wrt (>) (List.map fst rs)" "set rs \<subseteq> set (matching g (int i) ?t)"
      "fin \<longrightarrow> set (matching g (int i) ?t) \<inter> set (rt_rows (foldl row_step ?t (concat later))) \<subseteq> set rs"
      "later \<noteq> [] \<and> length (matching g (int i) ?t) \<le> ?n * length later \<longrightarrow> fin"
      using Cons.IH [OF ok cursor_roundtrip [OF lo(3) small]] Cons.prems(3) by auto
    have sub: "set rs \<subseteq> set (drop ?n ?ms)" using rs(3) lo(1) by blast
    have walk: "history_walk alias param cursor t (ops # later) = Some (List.map (present_row alias) (take ?n ?ms @ rs), fin)"
      using pg True rs(1) by (simp add: i_def)
    have order: "sorted_wrt (>) (List.map fst (take ?n ?ms @ rs))"
    proof -
      have "sorted_wrt (>) (List.map fst (take ?n ?ms))" using sorted_wrt_take [OF matching_sorted [OF Cons.prems(1)]] by (simp add: take_map)
      moreover have "fst b < fst a" if "a \<in> set (take ?n ?ms)" "b \<in> set rs" for a b
        using lo(5) [OF that(1)] lo(6) [of b] sub that(2) by fastforce
      ultimately show ?thesis using rs(2) by (auto simp: sorted_wrt_append)
    qed
    have inset: "set (take ?n ?ms @ rs) \<subseteq> set ?ms" using sub by (auto dest: in_set_takeD in_set_dropD)
    have all: "set ?ms \<inter> set (rt_rows (foldl row_step t (concat (ops # later)))) \<subseteq> set (take ?n ?ms @ rs)" if fin
    proof
      fix r
      assume r: "r \<in> set ?ms \<inter> set (rt_rows (foldl row_step t (concat (ops # later))))"
      show "r \<in> set (take ?n ?ms @ rs)"
      proof (cases "r \<in> set (take ?n ?ms)")
        case False
        then have d: "r \<in> set (drop ?n ?ms)" using r by (metis IntD1 UnE append_take_drop_id set_append)
        have "fst r \<le> rt_seq ?t" using lo(4) lo(6) [OF d] run_seq [of t ops] by linarith
        then have "r \<in> set (rt_rows ?t)" using r run_old [OF ok, of r "concat later"] by simp
        then have "r \<in> set (matching g (int i) ?t)" using d lo(2) by blast
        with rs(4) that r show ?thesis by auto
      qed simp
    qed
    have fin: "fin" if "length ?ms \<le> ?n * length (ops # later)"
    proof -
      have "length (matching g (int i) ?t) \<le> card (set (drop ?n ?ms))"
        unfolding matching_length [OF ok] by (intro card_mono lo(1)) simp
      also have "\<dots> \<le> length (drop ?n ?ms)" by (rule card_length)
      finally have "length (matching g (int i) ?t) \<le> ?n * length later" using that by simp
      moreover have "later \<noteq> []" using that True by auto
      ultimately show ?thesis using rs(5) by blast
    qed
    show ?thesis using walk order inset all fin by (intro exI [where x = "take ?n ?ms @ rs"] exI [where x = fin]) blast
  qed
qed (auto intro!: exI [where x = False])

text \<open>The rows of a table that match the filter of a request, as they are presented.\<close>

definition history_matches :: "(string \<Rightarrow> string) \<Rightarrow> history_filter \<Rightarrow> row_table \<Rightarrow> stored_event set" where
  "history_matches alias g t = present_row alias ` {r \<in> set (rt_rows t). columns_match g (snd r)}"

definition event_row :: "stored_event \<Rightarrow> nat" where
  "event_row e = dec_val (qv_id e)"

lemma event_row_present [simp]: "event_row (present_row alias r) = fst r"
  by (simp add: event_row_def present_row_def)

lemma table_ok_reachable: "table_ok (foldl row_step empty_table ops)"
  by (rule table_ok_run) (simp add: table_ok_def empty_table_def)

lemma rows_without_ids: "without_ids (row_step t (Archive es)) = without_ids t @ List.map row_of es"
  "without_ids (row_step t (Prune cutoff)) = delete_old retention_delete_batch cutoff (without_ids t)"
proof -
  show "without_ids (row_step t (Archive es)) = without_ids t @ List.map row_of es"
    by (simp add: without_ids_def row_step_def insert_rows_def del: upt_Suc)
  have "List.map snd (fst (foldl (\<lambda>(out, left) r. if 0 < left \<and> qv_time (snd r) < cutoff then (out, left - 1) else (out @ [r], left)) (acc, n) rs)) =
      fst (foldl (\<lambda>(out, left) e. if 0 < left \<and> qv_time e < cutoff then (out, left - 1) else (out @ [e], left)) (List.map snd acc, n) (List.map snd rs))"
    for acc n and rs :: "(nat \<times> stored_event) list"
    by (induction rs arbitrary: acc n) simp_all
  from this [of "[]"] show "without_ids (row_step t (Prune cutoff)) = delete_old retention_delete_batch cutoff (without_ids t)"
    by (simp add: without_ids_def row_step_def delete_old_rows_def delete_old_def)
qed

text \<open>C0: A client that follows next_cursor through the persisted history gets every matching row at most
  once, newest first, and only rows that were there when it asked for the first page, although rows are
  archived and pruned between its requests; if it reaches the last page it has got every matching row that
  is still stored; and it reaches it within as many requests as the pages that the matching rows fill.\<close>

theorem history_pages_exact:
  assumes "request_filter param = Some g" and "t = foldl row_step empty_table past" and "rt_seq (foldl row_step t (concat opss)) < 2 ^ 63"
  shows "\<exists>es fin. history_walk alias param [] t opss = Some (es, fin) \<and>
    sorted_wrt (>) (List.map event_row es) \<and> set es \<subseteq> history_matches alias g t \<and>
    (fin \<longrightarrow> history_matches alias g t \<inter> history_matches alias g (foldl row_step t (concat opss)) \<subseteq> set es) \<and>
    (opss \<noteq> [] \<and> card (history_matches alias g t) \<le> nat (hf_limit g) * length opss \<longrightarrow> fin)"
proof -
  have ok: "table_ok t" unfolding assms(2) by (rule table_ok_reachable)
  have start: "cursor_param [] = Some 0" by (simp add: cursor_param_def trim_space_def trim_left_def trim_right_def)
  obtain rs fin where w: "history_walk alias param [] t opss = Some (List.map (present_row alias) rs, fin)"
    "sorted_wrt (>) (List.map fst rs)" "set rs \<subseteq> set (matching g 0 t)"
    "fin \<longrightarrow> set (matching g 0 t) \<inter> set (rt_rows (foldl row_step t (concat opss))) \<subseteq> set rs"
    "opss \<noteq> [] \<and> length (matching g 0 t) \<le> nat (hf_limit g) * length opss \<longrightarrow> fin"
    using walk_facts [OF assms(1) ok start assms(3), of "alias"] by blast
  have m: "history_matches alias g s = present_row alias ` set (matching g 0 s)" for s
    by (simp add: history_matches_def matching_set below_cursor_def)
  have all: "history_matches alias g t \<inter> history_matches alias g (foldl row_step t (concat opss)) \<subseteq> set (List.map (present_row alias) rs)" if fin
  proof
    fix e
    assume "e \<in> history_matches alias g t \<inter> history_matches alias g (foldl row_step t (concat opss))"
    then obtain r r' where r: "e = present_row alias r" "r \<in> set (matching g 0 t)" "e = present_row alias r'"
      and m': "r' \<in> set (matching g 0 (foldl row_step t (concat opss)))" unfolding m by blast
    have r': "r' \<in> set (rt_rows (foldl row_step t (concat opss)))" using m' by (simp add: matching_set)
    have "fst r' = fst r" using r(1,3) by (metis event_row_present)
    moreover have "fst r \<le> rt_seq t" using r(2) ok by (auto simp: matching_set table_ok_def list_all_iff)
    ultimately have "r' \<in> set (rt_rows t)" using r' run_old [OF ok] by simp
    then have "r' = r" using r(2) \<open>fst r' = fst r\<close> row_unique [OF ok] by (auto simp: matching_set)
    then show "e \<in> set (List.map (present_row alias) rs)" using r r' w(4) that by auto
  qed
  have "card (history_matches alias g t) = length (matching g 0 t)"
  proof -
    have "inj_on (present_row alias) (set (matching g 0 t))"
      by (rule inj_onI) (metis (no_types, lifting) event_row_present matching_set mem_Collect_eq ok row_unique)
    then show ?thesis by (simp add: m card_image matching_length [OF ok])
  qed
  with w all show ?thesis
    by (intro exI [where x = "List.map (present_row alias) rs"] exI [where x = fin]) (auto simp: m o_def)
qed

definition demo_param :: "string \<Rightarrow> string" where
  "demo_param k = (if k = ''limit'' then ''1'' else if k = ''domain'' then ''A.lan'' else [])"

definition demo_event_at :: "int \<Rightarrow> stored_event" where
  "demo_event_at t = no_event\<lparr>qv_time := t, qv_domain := ''a.lan'', qv_client := ''10.0.0.9''\<rparr>"

lemma matches_bounded: "card (history_matches alias g t) \<le> length (rt_rows t)"
proof -
  have "card (history_matches alias g t) \<le> card {r \<in> set (rt_rows t). columns_match g (snd r)}"
    unfolding history_matches_def by (rule card_image_le) simp
  also have "\<dots> \<le> card (set (rt_rows t))" by (rule card_mono) auto
  also have "\<dots> \<le> length (rt_rows t)" by (rule card_length)
  finally show ?thesis .
qed

theorem history_pages_exact_witness:
  "\<exists>es fin. history_walk (\<lambda>_. []) demo_param [] (foldl row_step empty_table [Archive [demo_event_at 1, no_event, demo_event_at 3]])
       [[Archive [demo_event_at 4], Prune 2], [], []] = Some (es, fin) \<and> fin \<and> sorted_wrt (>) (List.map event_row es)"
proof -
  let ?past = "[Archive [demo_event_at 1, no_event, demo_event_at 3]]" and ?later = "[[Archive [demo_event_at 4], Prune 2], [], []]"
  let ?t = "foldl row_step empty_table ?past"
  have g: "request_filter demo_param = Some \<lparr>hf_cursor = 0, hf_limit = 1, hf_domain = ''a.lan'', hf_client = [], hf_type = [], hf_status = []\<rparr>" by code_simp
  have small: "rt_seq (foldl row_step ?t (concat ?later)) < 2 ^ 63" by (simp add: row_step_def insert_rows_def empty_table_def)
  have "length (rt_rows ?t) = 3" by (simp add: row_step_def insert_rows_def empty_table_def)
  then have few: "card (history_matches (\<lambda>_. []) g' ?t) \<le> 3" for g' using matches_bounded [of "\<lambda>_. []" g' ?t] by simp
  let ?g = "\<lparr>hf_cursor = 0, hf_limit = 1, hf_domain = ''a.lan'', hf_client = [], hf_type = [], hf_status = []\<rparr> :: history_filter"
  have "card (history_matches (\<lambda>_. []) ?g ?t) \<le> nat (hf_limit ?g) * length ?later" using few [of ?g] by simp
  moreover have "?later \<noteq> []" by simp
  ultimately show ?thesis using history_pages_exact [OF g refl small, of "\<lambda>_. []"] by meson
qed

end
