(* ===== verification/Log_Parser.thy ===== *)
theory Log_Parser
  imports Event_Rates
begin

text \<open>
  parser/parser.go and storage/pending.go: the log lines of a dnsmasq that legacy agents send, the queries
  that wait for their reply, and AddEvent as a whole (the counters of Event_Rates, then ring and queue of
  Event_Store). A panic of AddEvent is None. Times are nanoseconds, event times seconds. Reading a time
  stamp and shifting a time by a year are arguments, since they are the calendar of package time.
\<close>

section \<open>Pending queries\<close>

record pending_info =
  pi_start :: int
  pi_upstream :: string

type_synonym pending_queries = "(string, (string, pending_info list) gomap) gomap"

definition pending_of :: "pending_queries \<Rightarrow> string \<Rightarrow> string \<Rightarrow> pending_info list" where
  "pending_of p node domain =
     (case gm_get p node of None \<Rightarrow> [] | Some ds \<Rightarrow> (case gm_get ds domain of None \<Rightarrow> [] | Some is \<Rightarrow> is))"

definition set_pending :: "string \<Rightarrow> string \<Rightarrow> int \<Rightarrow> pending_queries \<Rightarrow> pending_queries" where
  "set_pending node domain t p =
     gm_set node (gm_set domain (pending_of p node domain @ [\<lparr>pi_start = t, pi_upstream = []\<rparr>])
       (case gm_get p node of None \<Rightarrow> [] | Some ds \<Rightarrow> ds)) p"

text \<open>GetPending takes the oldest query of the domain out.\<close>

definition get_pending :: "string \<Rightarrow> string \<Rightarrow> pending_queries \<Rightarrow> pending_info option \<times> pending_queries" where
  "get_pending node domain p =
     (case gm_get p node of
        None \<Rightarrow> (None, p)
      | Some ds \<Rightarrow>
          (case gm_get ds domain of
             None \<Rightarrow> (None, p)
           | Some [] \<Rightarrow> (None, p)
           | Some [i] \<Rightarrow> (Some i, gm_set node (gm_del domain ds) p)
           | Some (i # is) \<Rightarrow> (Some i, gm_set node (gm_set domain is ds) p)))"

text \<open>SetUpstream notes the upstream of the latest query of the domain.\<close>

definition set_upstream :: "string \<Rightarrow> string \<Rightarrow> string \<Rightarrow> pending_queries \<Rightarrow> pending_queries" where
  "set_upstream node domain upstream p =
     (case gm_get p node of
        None \<Rightarrow> p
      | Some ds \<Rightarrow>
          (case gm_get ds domain of
             None \<Rightarrow> p
           | Some is \<Rightarrow> if is = [] then p
               else gm_set node (gm_set domain (is[length is - 1 := (last is)\<lparr>pi_upstream := upstream\<rparr>]) ds) p))"

definition cleanup_pending :: "int \<Rightarrow> pending_queries \<Rightarrow> pending_queries" where
  "cleanup_pending now p =
     filter (\<lambda>(_, ds). ds \<noteq> [])
       (List.map (\<lambda>(node, ds). (node, filter (\<lambda>(_, is). is \<noteq> [])
          (List.map (\<lambda>(d, is). (d, filter (\<lambda>i. now - 30 * second < pi_start i) is)) ds))) p)"

section \<open>The store of queries\<close>

record query_store =
  qs_events :: event_store
  qs_rates :: event_rates
  qs_pending :: pending_queries
  qs_alias :: "string \<Rightarrow> string"

text \<open>AddEvent.\<close>

definition record_event :: "stored_event \<Rightarrow> query_store \<Rightarrow> (stored_event \<times> query_store) option" where
  "record_event e q =
     (case count_event e (qs_rates q) of
        None \<Rightarrow> None
      | Some r \<Rightarrow> (case add_event e (qs_events q) of (e1, s) \<Rightarrow> Some (e1, q\<lparr>qs_rates := r, qs_events := s\<rparr>)))"

text \<open>CleanupPending.\<close>

definition cleanup_store :: "int \<Rightarrow> query_store \<Rightarrow> query_store" where
  "cleanup_store now q = q\<lparr>qs_pending := cleanup_pending now (qs_pending q), qs_rates := cleanup_clients (now div second) (qs_rates q)\<rparr>"

section \<open>Names and response codes\<close>

definition max_domain_length :: nat where "max_domain_length = 253"
definition max_domain_labels :: nat where "max_domain_labels = 127"
definition max_label_length :: nat where "max_label_length = 63"

definition valid_log_domain :: "string \<Rightarrow> bool" where
  "valid_log_domain domain0 =
     (let domain = trim_suffix domain0 ''.''
      in domain = [] \<or>
         length domain \<le> max_domain_length \<and> count_list domain (CHR ''.'') < max_domain_labels \<and>
         list_all (\<lambda>l. l \<noteq> [] \<and> length l \<le> max_label_length) (split_on (CHR ''.'') domain))"

definition normal_domain :: "string \<Rightarrow> string" where
  "normal_domain d = to_lower (trim_suffix d ''.'')"

definition parse_response_code :: "nat \<Rightarrow> string list \<Rightarrow> string" where
  "parse_response_code i parts =
     (if length parts \<le> i + 2 then []
      else let payload = to_lower (join_with '' '' (drop (i + 2) parts))
           in if contains_str payload ''nxdomain'' then ''NXDOMAIN''
              else if contains_str payload ''servfail'' then ''SERVFAIL''
              else if contains_str payload ''refused'' then ''REFUSED''
              else if contains_str payload ''timeout'' \<or> contains_str payload ''timed out'' then ''TIMEOUT''
              else if parts ! i = ''reply'' \<or> parts ! i = ''cached'' \<or> parts ! i = ''config'' then ''NOERROR'' else [])"

section \<open>DNSSEC lines\<close>

definition dnssec_result :: "string \<Rightarrow> bool" where
  "dnssec_result r \<longleftrightarrow> r = ''secure'' \<or> r = ''insecure'' \<or> r = ''bogus'' \<or> r = ''indeterminate''"

definition note_dnssec :: "string \<Rightarrow> string \<Rightarrow> string \<Rightarrow> query_store \<Rightarrow> query_store" where
  "note_dnssec node domain0 result0 q =
     (let domain = normal_domain domain0; result = to_lower result0
      in if valid_log_domain domain \<and> dnssec_result result then q\<lparr>qs_events := set_dnssec node domain result (qs_events q)\<rparr> else q)"

definition parse_dnssec :: "string list \<Rightarrow> nat \<Rightarrow> string \<Rightarrow> query_store \<Rightarrow> query_store" where
  "parse_dnssec parts i node q =
     (if length parts < i + 4 then q else note_dnssec node (parts ! (i + 1)) (parts ! (i + 3)) q)"

text \<open>What follows the first occurrence of a marker.\<close>

fun after_marker :: "string \<Rightarrow> string \<Rightarrow> string option" where
  "after_marker [] m = (if m = [] then Some [] else None)"
| "after_marker (c # s) m = (if has_prefix (c # s) m then Some (drop (length m) (c # s)) else after_marker s m)"

definition parse_dnssec_pipe :: "string \<Rightarrow> string \<Rightarrow> query_store \<Rightarrow> query_store" where
  "parse_dnssec_pipe line node q =
     (case after_marker line ''validation|'' of
        None \<Rightarrow> q
      | Some after \<Rightarrow>
          (let ps = split_on (CHR ''|'') after
           in if length ps < 3 then q else note_dnssec node (ps ! 0) (ps ! 2) q))"

section \<open>Log lines\<close>

text \<open>The calendar: a time stamp read in the year of now, and a time one year earlier, in nanoseconds.\<close>

record calendar =
  ca_stamp :: "int \<Rightarrow> string \<Rightarrow> int option"
  ca_year_before :: "int \<Rightarrow> int"

definition is_action :: "string \<Rightarrow> bool" where
  "is_action p \<longleftrightarrow> has_prefix p ''query['' \<or> p = ''forwarded'' \<or> p = ''reply'' \<or> p = ''config'' \<or> p = ''cached'' \<or> p = ''validation''"

definition line_time :: "calendar \<Rightarrow> int \<Rightarrow> nat \<Rightarrow> string list \<Rightarrow> int" where
  "line_time ca now i parts =
     (if 3 \<le> i then
        (case ca_stamp ca now (join_with '' '' (take 3 parts)) of
           None \<Rightarrow> now
         | Some t \<Rightarrow> if now < t then ca_year_before ca t else t)
      else now)"

definition parse_query :: "calendar \<Rightarrow> int \<Rightarrow> string list \<Rightarrow> nat \<Rightarrow> string \<Rightarrow> query_store \<Rightarrow> (stored_event option \<times> query_store) option" where
  "parse_query ca now parts i node q =
     (let action = parts ! i
      in if length action < 8 then Some (None, q)
         else if length parts < i + 4 \<or> parts ! (i + 2) \<noteq> ''from'' then Some (None, q)
         else let qtype = butlast (drop 6 action); domain = normal_domain (parts ! (i + 1))
              in if \<not> valid_log_domain domain then Some (None, q)
                 else let client = parts ! (i + 3); t = line_time ca now i parts;
                          e = no_event\<lparr>qv_time := t div second, qv_type := qtype, qv_domain := domain, qv_client := client,
                                       qv_node := node, qv_alias := qs_alias q client\<rparr>
                      in map_option (\<lambda>(e1, q1). (Some e1, q1)) (record_event e (q\<lparr>qs_pending := set_pending node domain t (qs_pending q)\<rparr>)))"

definition reply_upstream :: "string \<Rightarrow> string \<Rightarrow> string" where
  "reply_upstream action pending =
     (if action = ''reply'' then (if pending = ''127.0.0.1#5353'' then ''Local Override'' else pending)
      else if action = ''cached'' then ''System Cache''
      else if action = ''config'' then ''Local Override'' else action)"

definition latency_ms :: "int \<Rightarrow> int \<Rightarrow> rat" where
  "latency_ms now start = (let l = of_int (trunc_div (now - start) 1000) / 1000 in if l < 0 then 0 else l)"

definition parse_reply :: "int \<Rightarrow> string list \<Rightarrow> nat \<Rightarrow> string \<Rightarrow> query_store \<Rightarrow> stored_event option \<times> query_store" where
  "parse_reply now parts i node q =
     (if length parts < i + 2 then (None, q)
      else let domain = normal_domain (parts ! (i + 1))
           in if \<not> valid_log_domain domain then (None, q)
              else case get_pending node domain (qs_pending q) of
                     (None, p) \<Rightarrow> (None, q\<lparr>qs_pending := p\<rparr>)
                   | (Some info, p) \<Rightarrow>
                       (case update_event node domain (latency_ms now (pi_start info)) (reply_upstream (parts ! i) (pi_upstream info))
                               (parse_response_code i parts) (qs_events q) of
                          (e, s) \<Rightarrow> (e, q\<lparr>qs_pending := p, qs_events := s\<rparr>)))"

definition parse_forwarded :: "string list \<Rightarrow> nat \<Rightarrow> string \<Rightarrow> query_store \<Rightarrow> query_store" where
  "parse_forwarded parts i node q =
     (if i + 4 \<le> length parts \<and> parts ! (i + 2) = ''to'' then
        (let domain = normal_domain (parts ! (i + 1))
         in if valid_log_domain domain then q\<lparr>qs_pending := set_upstream node domain (parts ! (i + 3)) (qs_pending q)\<rparr> else q)
      else q)"

text \<open>ParseLogBytes after the split into fields, and as a whole.\<close>

definition parse_fields :: "calendar \<Rightarrow> int \<Rightarrow> string list \<Rightarrow> string \<Rightarrow> query_store \<Rightarrow> (stored_event option \<times> query_store) option" where
  "parse_fields ca now parts node q =
     (if length parts < 2 then Some (None, q)
      else case List.find (\<lambda>i. is_action (parts ! i)) [0..<length parts] of
             None \<Rightarrow> Some (None, q)
           | Some i \<Rightarrow>
               (let action = parts ! i
                in if action = ''validation'' then Some (None, parse_dnssec parts i node q)
                   else if has_prefix action ''query['' then parse_query ca now parts i node q
                   else if action = ''forwarded'' then Some (None, parse_forwarded parts i node q)
                   else Some (parse_reply now parts i node q)))"

definition parse_log_line :: "calendar \<Rightarrow> int \<Rightarrow> string \<Rightarrow> string \<Rightarrow> query_store \<Rightarrow> (stored_event option \<times> query_store) option" where
  "parse_log_line ca now line node q =
     (if contains_str line ''validation|'' then Some (None, parse_dnssec_pipe line node q)
      else parse_fields ca now (go_fields line) node q)"

section \<open>Names stay within the limits of DNS\<close>

definition names_ok :: "event_store \<Rightarrow> bool" where
  "names_ok s \<longleftrightarrow> list_all (\<lambda>e. valid_log_domain (qv_domain e)) (es_ring s) \<and> list_all (\<lambda>e. valid_log_domain (qv_domain e)) (es_batch s)"

lemma no_event_valid: "valid_log_domain (qv_domain no_event)"
  by (simp add: valid_log_domain_def no_event_def trim_suffix_def has_suffix_def)

lemma list_all_put: "list_all P xs \<Longrightarrow> P x \<Longrightarrow> list_all P (xs[i := x])"
  by (auto simp: list_all_iff dest!: set_update_subset_insert [THEN subsetD])

lemma amend_batch_names:
  assumes "names_ok s" and "\<And>e. qv_domain (f e) = qv_domain e"
  shows "names_ok (amend_batch P f s)" and "es_ids (amend_batch P f s) = es_ids s"
proof -
  have "valid_log_domain (qv_domain (es_batch s ! b))" if "scan_batch P s = Some b" for b
  proof -
    have "b \<in> set (rev [es_start s..<length (es_batch s)])" using that by (auto simp: scan_batch_def find_Some_iff simp del: set_rev set_upt intro: nth_mem)
    then show ?thesis using assms(1) by (auto simp: names_ok_def list_all_length)
  qed
  with assms show "names_ok (amend_batch P f s)"
    by (auto simp: amend_batch_def names_ok_def intro: list_all_put split: option.split)
  show "es_ids (amend_batch P f s) = es_ids s" by (simp add: amend_batch_def split: option.split)
qed

lemma scan_ring_bound: "scan_ring P s = Some i \<Longrightarrow> ring_ok s \<Longrightarrow> i < length (es_ring s)"
  by (auto simp: scan_ring_def ring_slot_def ring_ok_def)

lemma amend_ring_names:
  assumes "names_ok s" and "i < length (es_ring s)" and "qv_domain e = qv_domain (es_ring s ! i)"
  shows "names_ok (s\<lparr>es_ring := (es_ring s)[i := e]\<rparr>)"
proof -
  have "valid_log_domain (qv_domain e)" using assms by (auto simp: names_ok_def list_all_length)
  with assms(1) show ?thesis by (auto simp: names_ok_def intro: list_all_put)
qed

lemma amendments_names:
  assumes "names_ok s" and "ring_ok s"
  shows "names_ok (snd (update_event node domain latency upstream rcode s)) \<and> es_ids (snd (update_event node domain latency upstream rcode s)) = es_ids s"
    and "names_ok (set_dnssec node domain result s) \<and> es_ids (set_dnssec node domain result s) = es_ids s"
  using assms
  by (auto simp: update_event_def set_dnssec_def Let_def amend_batch_names amend_ring_names scan_ring_bound split: option.split)

lemma add_event_names:
  assumes "names_ok s" and "valid_log_domain (qv_domain e)" and "add_event e s = (e1, s1)"
  shows "names_ok s1" and "es_ids s1 = Suc (es_ids s)"
proof -
  let ?e = "e\<lparr>qv_id := show_nat (Suc (es_ids s))\<rparr>" and ?s = "push_ring (e\<lparr>qv_id := show_nat (Suc (es_ids s))\<rparr>) (s\<lparr>es_ids := Suc (es_ids s)\<rparr>)"
  have ring: "names_ok ?s" "es_ids ?s = Suc (es_ids s)" using assms(1,2) by (auto simp: names_ok_def push_ring_def intro: list_all_put)
  have drop: "names_ok (drop_oldest t) \<and> es_ids (drop_oldest t) = es_ids t" if "names_ok t" for t
    using that no_event_valid
    by (auto simp: drop_oldest_def Let_def compact_batch_def pending_batch_def names_ok_def list_all_iff
        dest!: set_update_subset_insert [THEN subsetD] in_set_dropD)
  have push: "names_ok (push_batch ?e t) \<and> es_ids (push_batch ?e t) = es_ids t" if "names_ok t" for t
    using that assms(2) drop [OF that] by (simp add: push_batch_def Let_def names_ok_def)
  have "s1 = (if es_persistent ?s then push_batch ?e ?s else ?s)" using assms(3) by (auto simp: add_event_def ring_event_def Let_def)
  with ring push [OF ring(1)] show "names_ok s1" and "es_ids s1 = Suc (es_ids s)" by auto
qed

text \<open>The ring keeps its shape.\<close>

lemma ring_ok_same: "same_ring s t \<Longrightarrow> ring_ok t = ring_ok s"
  by (simp add: same_ring_def ring_ok_def)

lemma ring_ok_update: "ring_ok (s\<lparr>es_ring := (es_ring s)[i := e]\<rparr>) = ring_ok s"
  by (simp add: ring_ok_def)

lemma same_ring_amend: "same_ring s (amend_batch P f s)"
  by (simp add: amend_batch_def same_ring_def split: option.split)

lemma same_ring_compact: "same_ring s (compact_batch s)"
  by (simp add: compact_batch_def same_ring_def)

lemma ring_ok_amendments:
  "ring_ok (snd (update_event node domain latency upstream rcode s)) = ring_ok s"
  "ring_ok (set_dnssec node domain result s) = ring_ok s"
  by (auto simp: update_event_def set_dnssec_def Let_def ring_ok_same [OF same_ring_amend] ring_ok_update split: option.split)

lemma push_batch_ring: "ring_ok (push_batch e s) = ring_ok s"
  by (auto simp: push_batch_def drop_oldest_def compact_batch_def Let_def ring_ok_def)

lemma add_event_ring:
  assumes "ring_ok s" and "add_event e s = (e1, s1)"
  shows "ring_ok s1"
proof -
  have "ring_ok (s\<lparr>es_ids := Suc (es_ids s)\<rparr>)" using assms(1) by (simp add: ring_ok_def)
  note push_ring_ok [OF this, of "e\<lparr>qv_id := show_nat (Suc (es_ids s))\<rparr>"]
  moreover have "s1 = (let t = push_ring (e\<lparr>qv_id := show_nat (Suc (es_ids s))\<rparr>) (s\<lparr>es_ids := Suc (es_ids s)\<rparr>)
      in if es_persistent t then push_batch (e\<lparr>qv_id := show_nat (Suc (es_ids s))\<rparr>) t else t)"
    using assms(2) by (auto simp: add_event_def ring_event_def Let_def)
  ultimately show ?thesis by (simp add: Let_def push_batch_ring)
qed

text \<open>What one line does to the store of events: names stay valid, and at most one event is new.\<close>

definition grows_by :: "nat \<Rightarrow> event_store \<Rightarrow> event_store \<Rightarrow> bool" where
  "grows_by n s t \<longleftrightarrow> (names_ok s \<and> ring_ok s \<longrightarrow> names_ok t \<and> ring_ok t \<and> es_ids t \<le> es_ids s + n)"

lemma grows_refl [simp]: "grows_by n s s"
  by (simp add: grows_by_def)

lemma grows_trans: "grows_by m s t \<Longrightarrow> grows_by n t u \<Longrightarrow> grows_by (m + n) s u"
  by (auto simp: grows_by_def)

lemma grows_mono: "grows_by m s t \<Longrightarrow> m \<le> n \<Longrightarrow> grows_by n s t"
  by (auto simp: grows_by_def)

lemma amendments_grow:
  "grows_by n s (snd (update_event node domain latency upstream rcode s))" "grows_by n s (set_dnssec node domain result s)"
  by (simp_all add: grows_by_def amendments_names ring_ok_amendments)

lemma record_event_grows:
  assumes "record_event e q = Some (e1, q1)" and "valid_log_domain (qv_domain e)"
  shows "grows_by 1 (qs_events q) (qs_events q1)"
proof -
  obtain s where s: "add_event e (qs_events q) = (e1, s)" "qs_events q1 = s"
    using assms(1) by (auto simp: record_event_def split: option.splits prod.splits)
  show ?thesis
    unfolding grows_by_def s(2) using add_event_names [OF _ assms(2) s(1)] add_event_ring [OF _ s(1)] by simp
qed

lemma note_dnssec_grows: "grows_by n (qs_events q) (qs_events (note_dnssec node d r q))"
  by (simp add: note_dnssec_def Let_def amendments_grow)

lemma parse_reply_grows: "grows_by n (qs_events q) (qs_events (snd (parse_reply now parts i node q)))"
proof -
  let ?d = "normal_domain (parts ! (i + 1))"
  obtain info p where g: "get_pending node ?d (qs_pending q) = (info, p)" by (cases "get_pending node ?d (qs_pending q)")
  show ?thesis
  proof (cases info)
    case None
    with g show ?thesis by (simp add: parse_reply_def Let_def)
  next
    case (Some x)
    obtain e t where u: "update_event node ?d (latency_ms now (pi_start x)) (reply_upstream (parts ! i) (pi_upstream x))
        (parse_response_code i parts) (qs_events q) = (e, t)" by fastforce
    have "grows_by n (qs_events q) t" using amendments_grow(1) [of n "qs_events q" node ?d] u by (metis snd_conv)
    with Some g u show ?thesis by (simp add: parse_reply_def Let_def)
  qed
qed

lemma parse_query_grows: "parse_query ca now parts i node q = Some (e, q1) \<Longrightarrow> grows_by 1 (qs_events q) (qs_events q1)"
proof -
  assume r: "parse_query ca now parts i node q = Some (e, q1)"
  have grows: "grows_by 1 (qs_events q) (qs_events q2)" if "record_event x (q\<lparr>qs_pending := p\<rparr>) = Some (e2, q2)" "valid_log_domain (qv_domain x)" for x p e2 q2
    using record_event_grows [OF that] by simp
  show ?thesis
    using r by (auto simp: parse_query_def Let_def simp del: One_nat_def split: if_splits intro: grows)
qed

lemma parse_log_line_grows:
  assumes "parse_log_line ca now line node q = Some (e, q1)"
  shows "grows_by 1 (qs_events q) (qs_events q1)"
proof (cases "contains_str line ''validation|''")
  case True
  then have "q1 = parse_dnssec_pipe line node q" using assms by (simp add: parse_log_line_def)
  then show ?thesis by (auto simp: parse_dnssec_pipe_def Let_def note_dnssec_grows split: option.split)
next
  case False
  then have f: "parse_fields ca now (go_fields line) node q = Some (e, q1)" using assms by (simp add: parse_log_line_def)
  have "grows_by 1 (qs_events q) (qs_events (parse_dnssec parts i node q))" for parts i by (simp add: parse_dnssec_def note_dnssec_grows)
  moreover have "qs_events (parse_forwarded parts i node q) = qs_events q" for parts i by (simp add: parse_forwarded_def Let_def)
  moreover have "grows_by 1 (qs_events q) (qs_events q1)" if "parse_reply now parts i node q = (e, q1)" for parts i
    using parse_reply_grows [of 1 q now parts i node] that by simp
  ultimately show ?thesis
    using f by (auto simp: parse_fields_def Let_def simp del: One_nat_def split: if_splits option.splits intro: parse_query_grows)
qed

section \<open>Which query a reply answers\<close>

text \<open>Two queries for one name: the first reply takes the start of the first query and amends the event of
  the second one.\<close>

definition demo_queries :: query_store where
  "demo_queries = \<lparr>qs_events = new_store 4 1000 False 4 1 1, qs_rates = new_rates, qs_pending = [], qs_alias = (\<lambda>_. [])\<rparr>"

definition demo_calendar :: calendar where
  "demo_calendar = \<lparr>ca_stamp = (\<lambda>_ _. None), ca_year_before = id\<rparr>"

definition demo_lines :: "(int \<times> string list) list \<Rightarrow> (stored_event option \<times> query_store) option" where
  "demo_lines ls = fold (\<lambda>(t, parts) r. case r of None \<Rightarrow> None | Some (_, q) \<Rightarrow> parse_fields demo_calendar t parts ''n'' q) ls (Some (None, demo_queries))"

lemma first_reply_answers_last_query:
  "case demo_lines [(1000000000, [''query[A]'', ''a.b'', ''from'', ''c1'']), (3000000000, [''query[A]'', ''a.b'', ''from'', ''c2'']),
      (4000000000, [''reply'', ''a.b'', ''is'', ''1.2.3.4''])] of
     Some (Some e, q) \<Rightarrow> qv_client e = ''c2'' \<and> qv_latency e = Some 3000 | _ \<Rightarrow> False"
  by code_simp

end
