(* ===== verification/Node_Handlers.thy ===== *)
theory Node_Handlers
  imports Log_Parser Node_Inventory Config_Claims
begin

text \<open>
  api/nodes.go and api/ingest.go: the heartbeats and the events that agents send to a controller, and the
  list of nodes of the dashboard. Requests and the checks in front of them are those of Web_Sessions and
  Config_Handlers. Reading and decompressing a body and decoding its JSON are arguments; what is handed to
  BroadcastEvent is a list. A handler is one step: the locks it takes are those of the stores it calls.
\<close>

section \<open>Identities\<close>

definition max_node_identity_length :: nat where
  "max_node_identity_length = 128"

definition is_allowed_identity_char :: "char \<Rightarrow> bool" where
  "is_allowed_identity_char c \<longleftrightarrow>
     list_ex (\<lambda>(low, high). low \<le> c \<and> c \<le> high) [(CHR ''a'', CHR ''z''), (CHR ''A'', CHR ''Z''), (CHR ''0'', CHR ''9'')] \<or> c \<in> set ''._:-''"

definition normalize_node_identity :: "string \<Rightarrow> string \<Rightarrow> string" where
  "normalize_node_identity v fallback0 =
     (let trimmed = trim_space fallback0; fallback = (if max_node_identity_length < length trimmed then [] else trimmed); i = trim_space v
      in if i = [] \<or> max_node_identity_length < length i then fallback
         else if \<not> list_all is_allowed_identity_char i then fallback else i)"

definition request_node_identity :: "web_request \<Rightarrow> string \<Rightarrow> string" where
  "request_node_identity r fallback = normalize_node_identity (request_header r ''X-Node-ID'') fallback"

section \<open>The controller\<close>

record controller =
  cr_inventory :: inventory
  cr_queries :: query_store
  cr_sync :: sync_requests
  cr_broadcast :: "stored_event list"

datatype node_reply = Answer int string | Crashed

datatype request_body = TooLarge | Unreadable | Body string

text \<open>models.HeartbeatPayload and the legacy payload of the ingest endpoint; None is a zero time.\<close>

record heartbeat =
  hb_id :: string
  hb_node :: string
  hb_sent :: "int option"
  hb_status :: node_status  \<comment> \<open>the fields a heartbeat shares with a status\<close>

record legacy_payload =
  lp_node :: string
  lp_line :: string
  lp_batch :: "string list"
  lp_health :: "(string, rat) gomap"

record agent_json =
  aj_heartbeat :: "string \<Rightarrow> heartbeat option"
  aj_events :: "string \<Rightarrow> stored_event list option"
  aj_legacy :: "string \<Rightarrow> legacy_payload option"

definition secret_refused :: "mgmt \<Rightarrow> bool" where
  "secret_refused q \<longleftrightarrow> wc_ingest_secret (mg_web q) \<noteq> [] \<and> \<not> valid_ingest_auth (mg_web q) (mg_request q)"

section \<open>Heartbeats\<close>

definition header_or :: "mgmt \<Rightarrow> string \<Rightarrow> string \<Rightarrow> string" where
  "header_or q h v = (if v = [] then request_header (mg_request q) h else v)"

definition heartbeat_status :: "mgmt \<Rightarrow> string \<Rightarrow> heartbeat \<Rightarrow> node_status" where
  "heartbeat_status q i hb =
     (hb_status hb)\<lparr>ns_id := i, ns_name := hb_node hb, ns_last_seen := 0, ns_online := False, ns_duplicate := False,
        ns_version := header_or q ''X-Node-Version'' (ns_version (hb_status hb)),
        ns_go_version := header_or q ''X-Go-Version'' (ns_go_version (hb_status hb)),
        ns_build := header_or q ''X-Node-Build'' (ns_build (hb_status hb)),
        ns_skew_ms := (case hb_sent hb of None \<Rightarrow> 0 | Some t \<Rightarrow> trunc_div (mg_now q - t) millisecond),
        ns_source := remote_ip (mg_request q)\<rparr>"

definition update_reply :: "inventory_error option \<Rightarrow> int" where
  "update_reply e = (case e of None \<Rightarrow> 204 | Some NodeInventoryFull \<Rightarrow> 503 | Some NodeTombstoned \<Rightarrow> 410)"

text \<open>The identity of a heartbeat: that of its body, unless the header names another one.\<close>

definition heartbeat_identity :: "mgmt \<Rightarrow> heartbeat \<Rightarrow> string option" where
  "heartbeat_identity q hb =
     (let i = normalize_node_identity (hb_id hb) (hb_node hb); h = trim_space (request_header (mg_request q) ''X-Node-ID'')
      in if i = [] then None
         else if h = [] then Some i
         else let n = normalize_node_identity h [] in if n = [] \<or> hb_id hb \<noteq> [] \<and> n \<noteq> i then None else Some n)"

definition handle_heartbeat :: "mgmt \<Rightarrow> agent_json \<Rightarrow> request_body \<Rightarrow> controller \<Rightarrow> node_reply \<times> controller" where
  "handle_heartbeat q aj body c =
     (if \<not> method_is q ''POST'' then (Answer 405 [], c)
      else if secret_refused q then (Answer 401 [], c)
      else case body of
             TooLarge \<Rightarrow> (Answer 413 [], c)
           | Unreadable \<Rightarrow> (Answer 400 [], c)
           | Body b \<Rightarrow>
               (case aj_heartbeat aj b of
                  None \<Rightarrow> (Answer 400 [], c)
                | Some hb \<Rightarrow>
                    if hb_node hb = [] then (Answer 400 [], c)
                    else case heartbeat_identity q hb of
                           None \<Rightarrow> (Answer 400 [], c)
                         | Some i \<Rightarrow>
                             if is_node_tombstoned i (cr_inventory c) then (Answer 410 [], c)
                             else case update_node_status (mg_now q) i (hb_node hb) (heartbeat_status q i hb) (cr_inventory c) of
                                    (Some e, iv) \<Rightarrow> (Answer (update_reply (Some e)) [], c\<lparr>cr_inventory := iv\<rparr>)
                                  | (None, iv) \<Rightarrow>
                                      (Answer 204 (sync_generation_for (cr_sync c) i),
                                       c\<lparr>cr_inventory := (case ns_health (hb_status hb) of
                                            None \<Rightarrow> iv | Some h \<Rightarrow> if h = [] then iv else set_upstream_health i h iv)\<rparr>)))"

section \<open>Ingest\<close>

text \<open>establishIngestNodeStatus: the reply that ends the request, or the status noted.\<close>

definition establish_ingest_node_status :: "mgmt \<Rightarrow> string \<Rightarrow> string \<Rightarrow> inventory \<Rightarrow> int option \<times> inventory" where
  "establish_ingest_node_status q i node iv =
     (if node = [] then (None, iv)
      else if i = [] then (Some 400, iv)
      else let st0 = (case get_node_status (mg_now q) i iv of None \<Rightarrow> no_status\<lparr>ns_id := i, ns_name := node\<rparr> | Some st \<Rightarrow> st);
               h = (\<lambda>n old. let v = request_header (mg_request q) n in if v \<noteq> [] then v else old);
               st = st0\<lparr>ns_version := h ''X-Node-Version'' (ns_version st0), ns_go_version := h ''X-Go-Version'' (ns_go_version st0),
                        ns_build := h ''X-Node-Build'' (ns_build st0)\<rparr>
           in case update_node_status (mg_now q) i node st iv of
                (None, iv1) \<Rightarrow> (None, iv1)
              | (Some e, iv1) \<Rightarrow> (Some (update_reply (Some e)), iv1))"

definition max_ingest_future_skew :: int where
  "max_ingest_future_skew = 5 * minute"

definition clamp_time :: "int \<Rightarrow> stored_event \<Rightarrow> stored_event" where
  "clamp_time now e =
     (if qv_time e \<le> 0 \<or> (now + max_ingest_future_skew) div second < qv_time e then e\<lparr>qv_time := now div second\<rparr> else e)"

text \<open>The loop over the events; False is a panic of AddEvent.\<close>

fun ingest_events :: "int \<Rightarrow> stored_event list \<Rightarrow> controller \<Rightarrow> bool \<times> controller" where
  "ingest_events now [] c = (True, c)"
| "ingest_events now (e # es) c =
     (case record_event (clamp_time now e) (cr_queries c) of
        None \<Rightarrow> (False, c)
      | Some (e1, q1) \<Rightarrow> ingest_events now es (c\<lparr>cr_queries := q1, cr_broadcast := cr_broadcast c @ [e1]\<rparr>))"

definition same_node :: "stored_event list \<Rightarrow> bool" where
  "same_node es \<longleftrightarrow> (case es of [] \<Rightarrow> True | e # rest \<Rightarrow> list_all (\<lambda>x. qv_node x = qv_node e) rest)"

definition handle_ingest_events :: "mgmt \<Rightarrow> agent_json \<Rightarrow> string \<Rightarrow> controller \<Rightarrow> node_reply \<times> controller" where
  "handle_ingest_events q aj b c =
     (case aj_events aj b of
        None \<Rightarrow> (Answer 400 [], c)
      | Some es \<Rightarrow>
          if 100 < length es then (Answer 413 [], c)
          else if \<not> list_all (\<lambda>e. valid_log_domain (qv_domain e)) es then (Answer 400 [], c)
          else if \<not> same_node es then (Answer 400 [], c)
          else let node = (case es of [] \<Rightarrow> [] | e # _ \<Rightarrow> qv_node e); i = request_node_identity (mg_request q) node
               in if i \<noteq> [] \<and> is_node_tombstoned i (cr_inventory c) then (Answer 410 [], c)
                  else case establish_ingest_node_status q i node (cr_inventory c) of
                         (Some k, iv) \<Rightarrow> (Answer k [], c\<lparr>cr_inventory := iv\<rparr>)
                       | (None, iv) \<Rightarrow>
                           (case ingest_events (mg_now q) es (c\<lparr>cr_inventory := iv\<rparr>) of
                              (True, c1) \<Rightarrow> (Answer 204 [], c1) | (False, c1) \<Rightarrow> (Crashed, c1)))"

text \<open>processLine, for the single line and the batch of a legacy payload.\<close>

fun ingest_lines :: "calendar \<Rightarrow> int \<Rightarrow> string \<Rightarrow> string list \<Rightarrow> controller \<Rightarrow> bool \<times> controller" where
  "ingest_lines ca now node [] c = (True, c)"
| "ingest_lines ca now node (l # ls) c =
     (if 1024 < length l then ingest_lines ca now node ls c
      else case parse_log_line ca now l node (cr_queries c) of
             None \<Rightarrow> (False, c)
           | Some (e, q1) \<Rightarrow>
               ingest_lines ca now node ls
                 (c\<lparr>cr_queries := q1, cr_broadcast := cr_broadcast c @ (case e of None \<Rightarrow> [] | Some x \<Rightarrow> [x])\<rparr>))"

definition handle_ingest_legacy :: "mgmt \<Rightarrow> calendar \<Rightarrow> legacy_payload \<Rightarrow> controller \<Rightarrow> node_reply \<times> controller" where
  "handle_ingest_legacy q ca p c =
     (let i = request_node_identity (mg_request q) (lp_node p)
      in if i \<noteq> [] \<and> is_node_tombstoned i (cr_inventory c) then (Answer 410 [], c)
         else if 100 < length (lp_batch p) then (Answer 413 [], c)
         else case establish_ingest_node_status q i (lp_node p) (cr_inventory c) of
                (Some k, iv) \<Rightarrow> (Answer k [], c\<lparr>cr_inventory := iv\<rparr>)
              | (None, iv) \<Rightarrow>
                  (case ingest_lines ca (mg_now q) (lp_node p) ((if lp_line p = [] then [] else [lp_line p]) @ lp_batch p) (c\<lparr>cr_inventory := iv\<rparr>) of
                     (False, c1) \<Rightarrow> (Crashed, c1)
                   | (True, c1) \<Rightarrow>
                       (Answer 204 [], if lp_health p = [] then c1 else c1\<lparr>cr_inventory := set_upstream_health i (lp_health p) (cr_inventory c1)\<rparr>)))"

definition handle_ingest :: "mgmt \<Rightarrow> calendar \<Rightarrow> agent_json \<Rightarrow> request_body \<Rightarrow> controller \<Rightarrow> node_reply \<times> controller" where
  "handle_ingest q ca aj body c =
     (if \<not> method_is q ''POST'' then (Answer 405 [], c)
      else if secret_refused q then (Answer 401 [], c)
      else case body of
             TooLarge \<Rightarrow> (Answer 413 [], c)
           | Unreadable \<Rightarrow> (Answer 400 [], c)
           | Body b \<Rightarrow>
               if has_prefix (trim_space b) ''['' then handle_ingest_events q aj b c
               else case aj_legacy aj b of None \<Rightarrow> (Answer 400 [], c) | Some p \<Rightarrow> handle_ingest_legacy q ca p c)"

section \<open>The list of nodes\<close>

text \<open>handleNodes; the arguments are the query parameters and what the database does.\<close>

definition handle_nodes :: "mgmt \<Rightarrow> (string \<Rightarrow> string) \<Rightarrow> db_outcome \<Rightarrow> controller \<Rightarrow> node_reply \<times> controller" where
  "handle_nodes q arg db c =
     (if method_is q ''GET'' then (Answer 200 [], c)
      else if method_is q ''DELETE'' then
        (if \<not> is_controller (mg_mode q) then (Answer 403 [], c)
         else if \<not> csrf_ok q then (Answer 403 [], c)
         else let i = trim_space (arg ''id'')
              in if i = [] \<or> max_node_identity_length < length i then (Answer 400 [], c)
                 else case get_node_status_by_id (mg_now q) i (cr_inventory c) of
                        None \<Rightarrow> (Answer 404 [], c)
                      | Some st \<Rightarrow>
                          if ns_online st \<and> arg ''force'' \<noteq> ''true'' then (Answer 409 [], c)
                          else case decommission_node (mg_now q) db (ns_id st) (cr_inventory c) of
                                 ((done, failed), iv) \<Rightarrow>
                                   if failed then (Answer 500 [], c\<lparr>cr_inventory := iv\<rparr>)
                                   else if \<not> done then (Answer 404 [], c\<lparr>cr_inventory := iv\<rparr>)
                                   else (Answer 200 (ns_id st), c\<lparr>cr_inventory := iv, cr_sync := (cr_sync c)\<lparr>sr_nodes := gm_del (ns_id st) (sr_nodes (cr_sync c))\<rparr>\<rparr>))
      else if method_is q ''POST'' then
        (if \<not> is_controller (mg_mode q) then (Answer 403 [], c)
         else if \<not> csrf_ok q then (Answer 403 [], c)
         else if arg ''action'' \<noteq> ''restore'' then (Answer 400 [], c)
         else let i = trim_space (arg ''id'')
              in if i = [] \<or> max_node_identity_length < length i then (Answer 400 [], c)
                 else case restore_node db i (cr_inventory c) of
                        ((done, failed), iv) \<Rightarrow>
                          if failed then (Answer 500 [], c\<lparr>cr_inventory := iv\<rparr>)
                          else if \<not> done then (Answer 404 [], c\<lparr>cr_inventory := iv\<rparr>)
                          else (Answer 200 i, c\<lparr>cr_inventory := iv\<rparr>))
      else (Answer 405 [], c))"

section \<open>Requests\<close>

datatype node_request =
    Heartbeat agent_json request_body
  | Ingest calendar agent_json request_body
  | Nodes "string \<Rightarrow> string" db_outcome
  | Reboot bool  \<comment> \<open>a new process over the same database, and whether it reads the tombstones\<close>

definition handle_node_request :: "mgmt \<Rightarrow> node_request \<Rightarrow> controller \<Rightarrow> node_reply \<times> controller" where
  "handle_node_request q x c =
     (case x of
        Heartbeat aj b \<Rightarrow> handle_heartbeat q aj b c
      | Ingest ca aj b \<Rightarrow> handle_ingest q ca aj b c
      | Nodes arg db \<Rightarrow> handle_nodes q arg db c
      | Reboot readable \<Rightarrow> (Answer 0 [], c\<lparr>cr_inventory := restart_inventory readable (cr_inventory c)\<rparr>))"

text \<open>The routes: internalAuth in front of the agents, authMiddleware in front of the dashboard.\<close>

definition serve_node_request :: "mgmt \<Rightarrow> node_request \<Rightarrow> controller \<Rightarrow> node_reply \<times> controller" where
  "serve_node_request q x c =
     (let gate = (case x of Nodes arg db \<Rightarrow> auth_middleware | _ \<Rightarrow> internal_auth)
      in case x of
           Reboot readable \<Rightarrow> handle_node_request q x c
         | _ \<Rightarrow> (case gate (mg_web q) (mg_now q) (mg_request q) (mg_state q) of
                   (Served, s1) \<Rightarrow> handle_node_request (q\<lparr>mg_state := s1\<rparr>) x c
                 | (Web_Sessions.Refused k, s1) \<Rightarrow> (Answer k [], c)
                 | (RedirectedTo url, s1) \<Rightarrow> (Answer 303 [], c)))"

section \<open>What a request does to the inventory\<close>

text \<open>Every handler acts on the inventory through its operations; only a restore brings an identity back.\<close>

definition restores :: "string \<Rightarrow> mgmt \<Rightarrow> node_request \<Rightarrow> bool" where
  "restores i q x =
     (case x of
        Nodes arg db \<Rightarrow> method_is q ''POST'' \<and> is_controller (mg_mode q) \<and> csrf_ok q \<and> trim_space (arg ''id'') = i
      | Reboot readable \<Rightarrow> \<not> readable
      | _ \<Rightarrow> False)"

definition tame :: "string \<Rightarrow> bool \<Rightarrow> inventory \<Rightarrow> inventory \<Rightarrow> bool" where
  "tame i free iv iv' \<longleftrightarrow> (\<exists>ops. iv' = fold node_step ops iv \<and> (free \<or> list_all (\<lambda>x. \<not> readmits i x) ops))"

lemma tame_refl [simp]: "tame i free iv iv"
  unfolding tame_def by (rule exI [of _ "[]"]) simp

lemma tame_step: "free \<or> \<not> readmits i x \<Longrightarrow> tame i free iv (node_step x iv)"
  unfolding tame_def by (rule exI [of _ "[x]"]) auto

lemma tame_trans: "tame i free iv iv1 \<Longrightarrow> tame i free iv1 iv2 \<Longrightarrow> tame i free iv iv2"
  unfolding tame_def
proof (elim exE conjE)
  fix xs ys
  assume "iv1 = fold node_step xs iv" "iv2 = fold node_step ys iv1"
    and "free \<or> list_all (\<lambda>x. \<not> readmits i x) xs" "free \<or> list_all (\<lambda>x. \<not> readmits i x) ys"
  then show "\<exists>ops. iv2 = fold node_step ops iv \<and> (free \<or> list_all (\<lambda>x. \<not> readmits i x) ops)"
    by (intro exI [of _ "xs @ ys"]) auto
qed

lemma tame_update: "update_node_status now j name st iv = (e, iv') \<Longrightarrow> tame i free iv iv'"
  using tame_step [of free i "NodeUpdate now j name st" iv] by simp

lemma tame_health: "tame i free iv (set_upstream_health node h iv)"
  using tame_step [of free i "NodeHealth node h" iv] by simp

lemma tame_decommission: "decommission_node now db j iv = (res, iv') \<Longrightarrow> tame i free iv iv'"
proof -
  assume r: "decommission_node now db j iv = (res, iv')"
  obtain res1 iv1 where m: "mark_decommissioned now db j iv = (res1, iv1)" by (cases "mark_decommissioned now db j iv")
  have one: "tame i free iv iv1" using tame_step [of free i "NodeDecommission now db j" iv] m by simp
  have "tame i free iv1 (forget_health j iv1)" using tame_step [of free i "NodeForget j" iv1] by simp
  with one r m show ?thesis by (auto simp: decommission_node_def split: if_splits intro: tame_trans)
qed

lemma establish_tame: "establish_ingest_node_status q j node iv = (k, iv') \<Longrightarrow> tame i free iv iv'"
  by (auto simp: establish_ingest_node_status_def Let_def tame_update split: if_splits option.splits prod.splits)

lemma health_after: "tame i free iv iv1 \<Longrightarrow> tame i free iv (set_upstream_health node h iv1)"
  by (rule tame_trans [OF _ tame_health])

lemma ingest_events_inventory: "cr_inventory (snd (ingest_events now es c)) = cr_inventory c"
proof (induction es arbitrary: c)
  case (Cons e es)
  then show ?case by (cases "record_event (clamp_time now e) (cr_queries c)") auto
qed simp

lemma ingest_lines_inventory: "cr_inventory (snd (ingest_lines ca now node ls c)) = cr_inventory c"
proof (induction ls arbitrary: c)
  case (Cons l ls)
  then show ?case by (cases "parse_log_line ca now l node (cr_queries c)") auto
qed simp

lemma heartbeat_tame: "handle_heartbeat q aj b c = (r, c1) \<Longrightarrow> tame i free (cr_inventory c) (cr_inventory c1)"
  by (auto simp: handle_heartbeat_def Let_def split: if_splits option.splits prod.splits request_body.splits
      intro: tame_update health_after [OF tame_update])

lemma ingest_json_tame:
  assumes "handle_ingest_events q aj b c = (r, c1)"
  shows "tame i free (cr_inventory c) (cr_inventory c1)"
proof (cases "aj_events aj b")
  case None
  then show ?thesis using assms by (simp add: handle_ingest_events_def)
next
  case (Some es)
  let ?node = "case es of [] \<Rightarrow> [] | e # _ \<Rightarrow> qv_node e"
  let ?i = "request_node_identity (mg_request q) ?node"
  obtain k iv where e: "establish_ingest_node_status q ?i ?node (cr_inventory c) = (k, iv)" by fastforce
  obtain fin c2 where l: "ingest_events (mg_now q) es (c\<lparr>cr_inventory := iv\<rparr>) = (fin, c2)" by fastforce
  then have c2: "cr_inventory c2 = iv" using ingest_events_inventory [of "mg_now q" es "c\<lparr>cr_inventory := iv\<rparr>"] by simp
  have "cr_inventory c1 = cr_inventory c \<or> cr_inventory c1 = iv"
    using assms Some e l c2 unfolding handle_ingest_events_def Let_def by (auto split: if_splits option.splits bool.splits)
  with establish_tame [OF e] show ?thesis by auto
qed

lemma ingest_legacy_tame:
  assumes "handle_ingest_legacy q ca p c = (r, c1)"
  shows "tame i free (cr_inventory c) (cr_inventory c1)"
proof (cases "cr_inventory c1 = cr_inventory c")
  case False
  let ?lines = "(if lp_line p = [] then [] else [lp_line p]) @ lp_batch p" and ?i = "request_node_identity (mg_request q) (lp_node p)"
  obtain k iv where e: "establish_ingest_node_status q ?i (lp_node p) (cr_inventory c) = (k, iv)" by fastforce
  obtain fin c2 where l: "ingest_lines ca (mg_now q) (lp_node p) ?lines (c\<lparr>cr_inventory := iv\<rparr>) = (fin, c2)" by fastforce
  then have c2: "cr_inventory c2 = iv" using ingest_lines_inventory [of ca "mg_now q" "lp_node p" ?lines "c\<lparr>cr_inventory := iv\<rparr>"] by simp
  have "cr_inventory c1 = iv \<or> cr_inventory c1 = set_upstream_health ?i (lp_health p) iv"
    using assms False e l c2 by (auto simp: handle_ingest_legacy_def Let_def simp del: append.simps split: if_splits option.splits bool.splits)
  with establish_tame [OF e, of i free] show ?thesis by (auto intro: health_after)
qed simp

lemma nodes_tame:
  "handle_nodes q arg db c = (r, c1) \<Longrightarrow> tame i (restores i q (Nodes arg db)) (cr_inventory c) (cr_inventory c1)"
proof -
  assume r: "handle_nodes q arg db c = (r, c1)"
  consider "c1 = c" | (dele) res j iv where "decommission_node (mg_now q) db j (cr_inventory c) = (res, iv)" "cr_inventory c1 = iv"
    | (rest) res iv where "method_is q ''POST''" "is_controller (mg_mode q)" "csrf_ok q"
        "restore_node db (trim_space (arg ''id'')) (cr_inventory c) = (res, iv)" "cr_inventory c1 = iv"
    using r by (auto simp: handle_nodes_def Let_def split: if_splits option.splits prod.splits)
  then show ?thesis
  proof cases
    case dele
    then show ?thesis using tame_decommission by simp
  next
    case rest
    then have "cr_inventory c1 = node_step (NodeRestore db (trim_space (arg ''id''))) (cr_inventory c)" by simp
    with rest(1-3) show ?thesis
      using tame_step [of "restores i q (Nodes arg db)" i "NodeRestore db (trim_space (arg ''id''))" "cr_inventory c"]
      by (simp add: restores_def)
  qed simp
qed

lemma handle_request_tame:
  "handle_node_request q x c = (r, c1) \<Longrightarrow> tame i (restores i q x) (cr_inventory c) (cr_inventory c1)"
proof (cases x)
  case (Ingest ca aj b)
  then show "handle_node_request q x c = (r, c1) \<Longrightarrow> ?thesis"
    by (auto simp: handle_node_request_def handle_ingest_def split: if_splits request_body.splits option.splits
        intro: ingest_json_tame ingest_legacy_tame)
next
  case (Reboot readable)
  then show "handle_node_request q x c = (r, c1) \<Longrightarrow> ?thesis"
    using tame_step [of "restores i q x" i "NodeRestart readable" "cr_inventory c"] by (auto simp: handle_node_request_def restores_def)
qed (auto simp: handle_node_request_def intro: heartbeat_tame nodes_tame)

text \<open>A request, seen from outside: who may restore.\<close>

definition restore_request :: "string \<Rightarrow> mgmt \<times> node_request \<Rightarrow> bool" where
  "restore_request i r =
     (case r of (q, x) \<Rightarrow>
        (case x of
           Reboot readable \<Rightarrow> \<not> readable
         | Nodes arg db \<Rightarrow> (case auth_middleware (mg_web q) (mg_now q) (mg_request q) (mg_state q) of
                              (Served, s1) \<Rightarrow> restores i (q\<lparr>mg_state := s1\<rparr>) x
                            | _ \<Rightarrow> False)
         | _ \<Rightarrow> False))"

definition node_run :: "(mgmt \<times> node_request) list \<Rightarrow> controller \<Rightarrow> controller" where
  "node_run rs c = fold (\<lambda>(q, x) c. snd (serve_node_request q x c)) rs c"

lemma serve_tame: "tame i (restore_request i (q, x)) (cr_inventory c) (cr_inventory (snd (serve_node_request q x c)))"
proof -
  have handled: "tame i (restores i p y) (cr_inventory d) (cr_inventory (snd (handle_node_request p y d)))" for p y d
    by (rule handle_request_tame [OF surjective_pairing])
  have weaker: "tame i free iv iv'" if "tame i False iv iv'" for free iv iv' using that by (auto simp: tame_def)
  show ?thesis
  proof (cases x)
    case (Heartbeat aj b)
    have "restores i p x = False" for p using Heartbeat by (simp add: restores_def)
    with handled [of _ x c] show ?thesis
      by (auto simp: serve_node_request_def Heartbeat restore_request_def split: prod.split gate.split)
  next
    case (Ingest ca aj b)
    have "restores i p x = False" for p using Ingest by (simp add: restores_def)
    with handled [of _ x c] show ?thesis
      by (auto simp: serve_node_request_def Ingest restore_request_def split: prod.split gate.split)
  next
    case (Nodes arg db)
    with handled [of _ x c] show ?thesis
      by (auto simp: serve_node_request_def restore_request_def split: prod.split gate.split)
  next
    case (Reboot readable)
    with handled [of q x c] show ?thesis by (simp add: serve_node_request_def restore_request_def restores_def)
  qed
qed

lemma run_tame:
  "list_all (\<lambda>r. \<not> restore_request i r) rs \<Longrightarrow> tame i False (cr_inventory c) (cr_inventory (node_run rs c))"
proof (induction rs arbitrary: c)
  case (Cons r rs)
  obtain q x where r: "r = (q, x)" by (cases r)
  have "tame i False (cr_inventory c) (cr_inventory (snd (serve_node_request q x c)))"
    using serve_tame [of i q x c] Cons.prems by (simp add: r)
  moreover have "node_run (r # rs) c = node_run rs (snd (serve_node_request q x c))" by (simp add: node_run_def r)
  ultimately show ?case using Cons.IH Cons.prems by (auto intro: tame_trans)
qed (simp add: node_run_def)

lemma tame_ok: "tame i free iv iv' \<Longrightarrow> inventory_ok iv \<Longrightarrow> inventory_ok iv'"
  unfolding tame_def by (auto intro: inventories.run_keeps)

lemma node_run_ok: "inventory_ok (cr_inventory c) \<Longrightarrow> inventory_ok (cr_inventory (node_run rs c))"
proof (induction rs arbitrary: c)
  case (Cons r rs)
  obtain q x where r: "r = (q, x)" by (cases r)
  have "inventory_ok (cr_inventory (snd (serve_node_request q x c)))" by (rule tame_ok [OF serve_tame Cons.prems])
  then show ?case using Cons.IH by (simp add: node_run_def r)
qed (simp add: node_run_def)

lemma trimmed_away:
  assumes "silent i iv" and "list_all (\<lambda>r. \<not> restore_request i r) rs" and "iv = cr_inventory c"
  shows "silent i (cr_inventory (node_run rs c))"
proof -
  obtain ops where "cr_inventory (node_run rs c) = fold node_step ops iv" and "list_all (\<lambda>x. \<not> readmits i x) ops"
    using run_tame [OF assms(2), of c] assms(3) by (auto simp: tame_def)
  with run_away(2) [of i iv ops] assms(1) show ?thesis by (simp add: silent_def)
qed

lemma decommissioned_silent:
  assumes ok: "inventory_ok iv" and r: "decommission_node now db j iv = ((True, failed), iv')"
  shows "silent (trim_space j) iv'"
proof -
  obtain res iv1 where m: "mark_decommissioned now db j iv = (res, iv1)" by (cases "mark_decommissioned now db j iv")
  have t: "res = (True, failed)" "iv' = forget_health j iv1" using r m by (auto simp: decommission_node_def split: if_splits)
  note f = mark_decommissioned_ok [OF ok m]
  have "inventory_ok iv'" unfolding t(2) using f(1) by (rule inventory_ok_cong [rotated -1]) (simp_all add: forget_facts)
  then show ?thesis using f(7) t by (simp add: silent_def away_def forget_facts)
qed

definition new_controller :: "int \<Rightarrow> query_store \<Rightarrow> controller" where
  "new_controller threshold q = \<lparr>cr_inventory = new_inventory threshold, cr_queries = q, cr_sync = \<lparr>sr_cluster = 0, sr_nodes = []\<rparr>, cr_broadcast = []\<rparr>"

text \<open>C0: A decommissioned node stays away: after a DELETE that the controller answers with success, whatever
  heartbeats, events and requests arrive and however often the controller restarts, the node has no status
  and no health, and its heartbeats and status updates are refused, until a request of an authenticated
  session with its CSRF token restores it (or the tombstones cannot be read at a start).\<close>

theorem decommissioned_stays_away:
  assumes "handle_nodes q arg db (node_run before (new_controller threshold qs)) = (Answer 200 i, c1)" and "method_is q ''DELETE''"
    and "list_all (\<lambda>r. \<not> restore_request i r) later"
  shows "let iv = cr_inventory (node_run later c1)
         in named iv i = None \<and> gm_get (iv_health iv) i = None \<and> is_node_tombstoned i iv \<and>
            update_node_status now i name st iv = (Some NodeTombstoned, iv)"
proof -
  let ?c = "node_run before (new_controller threshold qs)" and ?i = "trim_space (arg ''id'')"
  have ok: "inventory_ok (cr_inventory ?c)" by (rule node_run_ok) (simp add: new_controller_def new_inventory_ok)
  obtain st0 failed iv where st0: "get_node_status_by_id (mg_now q) ?i (cr_inventory ?c) = Some st0" and i: "i = ns_id st0" "?i \<noteq> []"
    and d: "decommission_node (mg_now q) db (ns_id st0) (cr_inventory ?c) = ((True, failed), iv)" and c1: "cr_inventory c1 = iv"
    using assms(1,2) by (auto simp: handle_nodes_def method_is_def Let_def split: if_splits option.splits prod.splits)
  have "ns_id st0 = ?i"
    using st0 ok by (auto simp: get_node_status_by_id_def clone_node_status_def inventory_ok_def indexed_def flagged_def)
  then have t: "trim_space i = i" "i \<noteq> []" using i by simp_all
  have "silent i iv" using decommissioned_silent [OF ok d] t i by simp
  then have s: "silent i (cr_inventory (node_run later c1))" using trimmed_away [OF _ assms(3)] c1 by simp
  define iv2 where "iv2 = cr_inventory (node_run later c1)"
  have "gm_get (iv_tombstones iv2) i \<noteq> None" "named iv2 i = None" "gm_get (iv_health iv2) i = None"
    using s by (auto simp: silent_def away_def inventory_ok_def iv2_def)
  then show ?thesis
    unfolding iv2_def [symmetric] using t by (simp add: is_node_tombstoned_def update_node_status_def node_identity_def Let_def)
qed

text \<open>A node that reports, is decommissioned and goes on reporting.\<close>

definition demo_hb :: heartbeat where
  "demo_hb = \<lparr>hb_id = ''n1'', hb_node = ''node'', hb_sent = None, hb_status = no_status\<rparr>"

lemma demo_hb_fields: "hb_id demo_hb = ''n1''" "hb_node demo_hb = ''node''" "ns_health (hb_status demo_hb) = None"
  by (simp_all add: demo_hb_def no_status_def)

definition demo_agent :: agent_json where
  "demo_agent = \<lparr>aj_heartbeat = (\<lambda>_. Some demo_hb),
     aj_events = (\<lambda>_. None), aj_legacy = (\<lambda>_. None)\<rparr>"

definition demo_beat :: "mgmt \<times> node_request" where
  "demo_beat = (demo_mgmt, Heartbeat demo_agent (Body []))"

definition demo_delete :: mgmt where
  "demo_delete = demo_mgmt\<lparr>mg_request := demo_change\<lparr>rq_method := ''DELETE''\<rparr>\<rparr>"

lemma demo_mgmt_fields: "mg_web demo_mgmt = demo_web" "mg_now demo_mgmt = second" "mg_request demo_mgmt = demo_change"
  "mg_state demo_mgmt = web_run demo_web demo_web_ops" "is_controller (mg_mode demo_mgmt)" "rq_method demo_change = ''POST''" "wc_ingest_secret demo_web = []"
  by (simp_all add: demo_mgmt_def is_controller_def demo_web_defs)

lemma demo_identity: "heartbeat_identity (demo_mgmt\<lparr>mg_state := s1\<rparr>) demo_hb = Some ''n1''"
proof -
  have "normalize_node_identity ''n1'' ''node'' = ''n1''" by code_simp
  moreover have "trim_space [] = []" by code_simp
  ultimately show ?thesis by (simp add: heartbeat_identity_def demo_mgmt_fields demo_facts demo_hb_fields Let_def)
qed

lemma demo_beat_served:
  obtains s1 where "snd (serve_node_request (fst demo_beat) (snd demo_beat) c) = snd (handle_heartbeat (demo_mgmt\<lparr>mg_state := s1\<rparr>) demo_agent (Body []) c)"
proof -
  obtain s1 where s1: "auth_middleware demo_web second demo_change (web_run demo_web demo_web_ops) = (Served, s1)" "check_csrf demo_web second demo_change s1"
    using demo_served_page by blast
  then have "internal_auth demo_web second demo_change (web_run demo_web demo_web_ops) = (Served, s1)"
    using demo_facts(2) by (simp add: internal_auth_def demo_mgmt_fields demo_facts)
  then show thesis
    by (intro that [of s1]) (simp add: demo_beat_def serve_node_request_def handle_node_request_def demo_mgmt_fields)
qed

theorem decommissioned_stays_away_witness:
  "\<exists>i c1. handle_nodes demo_delete (\<lambda>a. if a = ''id'' then ''n1'' else ''true'') DbDone (node_run [demo_beat] (new_controller 10 demo_queries)) = (Answer 200 i, c1) \<and>
     i = ''n1'' \<and> named (cr_inventory (node_run [demo_beat] c1)) ''n1'' = None"
proof -
  let ?arg = "\<lambda>a. if a = ''id'' then ''n1'' else ''true''"
  let ?c0 = "new_controller 10 demo_queries"
  obtain s1 where s1: "node_run [demo_beat] ?c0 = snd (handle_heartbeat (demo_mgmt\<lparr>mg_state := s1\<rparr>) demo_agent (Body []) ?c0)"
    using demo_beat_served [of ?c0] by (auto simp: node_run_def demo_beat_def)
  have post: "method_is (demo_mgmt\<lparr>mg_state := s1\<rparr>) ''POST''" "\<not> secret_refused (demo_mgmt\<lparr>mg_state := s1\<rparr>)"
    by (simp_all add: method_is_def demo_mgmt_fields secret_refused_def)
  have "trim_space ''n1'' = ''n1''" "length ''n1'' \<le> max_node_identity_length" by code_simp+
  note t = this
  obtain st where st: "gm_get (iv_statuses (cr_inventory (node_run [demo_beat] ?c0))) ''n1'' = Some st" "ns_id st = ''n1''"
  proof -
    have fresh: "\<not> is_node_tombstoned ''n1'' (new_inventory 10)" by (simp add: is_node_tombstoned_def new_inventory_def)
    have "fst (update_node_status second ''n1'' ''node'' x (new_inventory 10)) = None" for x
      by (simp add: update_node_status_def Let_def new_inventory_def max_node_statuses_def)
    then obtain iv where iv: "update_node_status second ''n1'' ''node'' (heartbeat_status (demo_mgmt\<lparr>mg_state := s1\<rparr>) ''n1''
        demo_hb) (new_inventory 10) = (None, iv)" by (metis prod.collapse)
    have "cr_inventory (node_run [demo_beat] ?c0) = iv"
      unfolding s1 handle_heartbeat_def
      using post iv by (simp add: demo_agent_def demo_identity demo_hb_fields new_controller_def demo_mgmt_fields fresh)
    moreover have "\<exists>st. gm_get (iv_statuses iv) ''n1'' = Some st"
      using iv by (auto simp: update_node_status_def node_identity_def t Let_def index_node_name_def refresh_get new_inventory_def max_node_statuses_def)
    moreover have "inventory_ok iv" using update_node_status_ok(1) [OF new_inventory_ok iv] .
    ultimately show ?thesis using that by (auto simp: inventory_ok_def indexed_def flagged_def)
  qed
  have csrf: "csrf_ok demo_delete"
  proof -
    have "same_origin_request demo_web (demo_change\<lparr>rq_method := ''DELETE''\<rparr>)" unfolding demo_web_defs by code_simp
    then show ?thesis
      by (simp add: csrf_ok_def check_csrf_def demo_delete_def demo_mgmt_fields session_csrf_token_def lookup_session_def demo_sessions demo_live
          demo_facts request_header_def) (simp add: demo_web_defs)
  qed
  have "\<exists>i c1. handle_nodes demo_delete ?arg DbDone (node_run [demo_beat] ?c0) = (Answer 200 i, c1) \<and> i = ''n1''"
    using csrf st t by (simp add: handle_nodes_def Let_def method_is_def demo_delete_def demo_mgmt_fields get_node_status_by_id_def clone_node_status_def
        decommission_node_def mark_decommissioned_def)
  then obtain c1 where d: "handle_nodes demo_delete ?arg DbDone (node_run [demo_beat] ?c0) = (Answer 200 ''n1'', c1)" by auto
  have "list_all (\<lambda>r. \<not> restore_request ''n1'' r) [demo_beat]" by (simp add: restore_request_def demo_beat_def)
  from decommissioned_stays_away [OF d _ this] have "named (cr_inventory (node_run [demo_beat] c1)) ''n1'' = None"
    by (simp add: Let_def method_is_def demo_delete_def)
  with d show ?thesis by blast
qed

section \<open>What agents can make a controller store\<close>

lemma clamp_domain [simp]: "qv_domain (clamp_time now e) = qv_domain e"
  by (simp add: clamp_time_def)

lemma ingest_events_grows:
  "list_all (\<lambda>e. valid_log_domain (qv_domain e)) es \<Longrightarrow>
     grows_by (length es) (qs_events (cr_queries c)) (qs_events (cr_queries (snd (ingest_events now es c))))"
proof (induction es arbitrary: c)
  case (Cons e es)
  show ?case
  proof (cases "record_event (clamp_time now e) (cr_queries c)")
    case (Some p)
    then obtain e1 q1 where p: "record_event (clamp_time now e) (cr_queries c) = Some (e1, q1)" by (cases p) simp
    have "grows_by (1 + length es) (qs_events (cr_queries c)) (qs_events (cr_queries (snd (ingest_events now (e # es) c))))"
      using grows_trans [OF record_event_grows [OF p]] Cons.prems Cons.IH [of "c\<lparr>cr_queries := q1, cr_broadcast := cr_broadcast c @ [e1]\<rparr>"] p
      by simp
    then show ?thesis by simp
  qed simp
qed simp

lemma ingest_lines_grows:
  "grows_by (length ls) (qs_events (cr_queries c)) (qs_events (cr_queries (snd (ingest_lines ca now node ls c))))"
proof (induction ls arbitrary: c)
  case (Cons l ls)
  show ?case
  proof (cases "parse_log_line ca now l node (cr_queries c)")
    case None
    then show ?thesis using Cons.IH [of c] by (auto intro: grows_mono)
  next
    case (Some p)
    then obtain e q1 where p: "parse_log_line ca now l node (cr_queries c) = Some (e, q1)" by (cases p) simp
    let ?c = "c\<lparr>cr_queries := q1, cr_broadcast := cr_broadcast c @ (case e of None \<Rightarrow> [] | Some x \<Rightarrow> [x])\<rparr>"
    have "grows_by (1 + length ls) (qs_events (cr_queries c)) (qs_events (cr_queries (snd (ingest_lines ca now node ls ?c))))"
      using grows_trans [OF parse_log_line_grows [OF p]] Cons.IH [of ?c] by simp
    then show ?thesis using p Cons.IH [of c] by (auto intro: grows_mono)
  qed
qed simp

lemma establish_queries: "cr_queries (c\<lparr>cr_inventory := iv\<rparr>) = cr_queries c"
  by simp

lemma ingest_json_grows: "grows_by 101 (qs_events (cr_queries c)) (qs_events (cr_queries (snd (handle_ingest_events q aj b c))))"
proof -
  let ?s = "qs_events (cr_queries c)"
  have loop: "grows_by 101 ?s (qs_events (cr_queries c2))"
    if "ingest_events now es (c\<lparr>cr_inventory := iv\<rparr>) = (fin, c2)" "list_all (\<lambda>e. valid_log_domain (qv_domain e)) es" "\<not> 100 < length es" for now es iv fin c2
    using ingest_events_grows [OF that(2), of "c\<lparr>cr_inventory := iv\<rparr>" now] that(1,3) by (auto elim: grows_mono)
  show ?thesis
    unfolding handle_ingest_events_def Let_def by (auto split: option.split prod.split bool.split intro: loop)
qed

lemma ingest_legacy_grows: "grows_by 101 (qs_events (cr_queries c)) (qs_events (cr_queries (snd (handle_ingest_legacy q ca p c))))"
proof -
  let ?s = "qs_events (cr_queries c)"
  have loop: "grows_by 101 ?s (qs_events (cr_queries c2))"
    if "ingest_lines ca now node ls (c\<lparr>cr_inventory := iv\<rparr>) = (fin, c2)" "length ls \<le> 101" for now node ls iv fin c2
    using ingest_lines_grows [of ls "c\<lparr>cr_inventory := iv\<rparr>" ca now node] that by (auto elim: grows_mono)
  show ?thesis
    unfolding handle_ingest_legacy_def Let_def
    by (auto simp del: ingest_lines.simps append.simps split: option.split prod.split bool.split intro: loop)
qed

lemma serve_grows: "grows_by 101 (qs_events (cr_queries c)) (qs_events (cr_queries (snd (serve_node_request q x c))))"
proof -
  have "cr_queries (snd (handle_nodes p arg db c)) = cr_queries c" for p arg db
    by (auto simp: handle_nodes_def Let_def split: option.split prod.split)
  moreover have "cr_queries (snd (handle_heartbeat p aj b c)) = cr_queries c" for p aj b
    by (auto simp: handle_heartbeat_def Let_def split: option.split prod.split request_body.split)
  moreover have "grows_by 101 (qs_events (cr_queries c)) (qs_events (cr_queries (snd (handle_ingest p ca aj b c))))" for p ca aj b
    using ingest_json_grows ingest_legacy_grows by (auto simp: handle_ingest_def split: option.split request_body.split)
  ultimately have "grows_by 101 (qs_events (cr_queries c)) (qs_events (cr_queries (snd (handle_node_request p x c))))" for p
    by (cases x) (simp_all add: handle_node_request_def)
  then show ?thesis
    by (cases x) (auto simp: serve_node_request_def Let_def split: prod.split gate.split)
qed

lemma run_grows: "grows_by (101 * length rs) (qs_events (cr_queries c)) (qs_events (cr_queries (node_run rs c)))"
proof (induction rs arbitrary: c)
  case (Cons r rs)
  obtain q x where r: "r = (q, x)" by (cases r)
  have "node_run (r # rs) c = node_run rs (snd (serve_node_request q x c))" by (simp add: node_run_def r)
  with grows_trans [OF serve_grows [of c q x] Cons.IH] show ?case by simp
qed (simp add: node_run_def)

definition new_queries :: "nat \<Rightarrow> int \<Rightarrow> bool \<Rightarrow> int \<Rightarrow> int \<Rightarrow> int \<Rightarrow> (string \<Rightarrow> string) \<Rightarrow> query_store" where
  "new_queries m threshold persistent capacity trigger chunk alias =
     \<lparr>qs_events = new_store (Suc m) threshold persistent capacity trigger chunk, qs_rates = new_rates, qs_pending = [], qs_alias = alias\<rparr>"

text \<open>C0: Whatever agents send, in either format, and however requests interleave with those of the dashboard,
  a controller stores only names within the limits of DNS, and a request adds at most 101 events.\<close>

theorem ingest_stays_in_bounds:
  "let s = qs_events (cr_queries (node_run rs (new_controller threshold (new_queries m latency persistent capacity trigger chunk alias))))
   in list_all (\<lambda>e. valid_log_domain (qv_domain e)) (es_ring s @ es_batch s) \<and> es_ids s \<le> 101 * length rs"
proof -
  let ?q = "new_queries m latency persistent capacity trigger chunk alias"
  have "names_ok (qs_events ?q) \<and> ring_ok (qs_events ?q) \<and> es_ids (qs_events ?q) = 0"
    using no_event_valid by (simp add: new_queries_def new_store_def names_ok_def ring_ok_def list_all_iff split: prod.split)
  with run_grows [of rs "new_controller threshold ?q"] show ?thesis
    by (simp add: grows_by_def new_controller_def names_ok_def Let_def)
qed

end
