(* ===== verification/Rewrite_Claims.thy ===== *)
theory Rewrite_Claims
  imports Rewrite_Store
begin

text \<open>
  What the rewrite store guarantees: the lookup is the most specific match, a validated rewrite
  always has an answer, the file brings the same rewrites back, and the two inputs for which it
  does not.
\<close>

text \<open>C34: Looking a name up for a client returns, in store order, exactly the rewrites that apply
  to the name and the client (the name is the rewrite's base or below it, strictly below for a
  wildcard; the client is inside one of its source prefixes, if it has any) and that no other
  applying rewrite outranks: the longer base wins, then the longer matching source prefix. Without
  a client the source prefixes play no part.\<close>

theorem rewrite_lookup_exact:
  "lookup_for_client domain client s =
     most_specific (normalize_rewrite_domain domain) (map_option unmap (parse_addr (trim_space client))) True (rs_items s) \<and>
   lookup_any domain s = most_specific (normalize_rewrite_domain domain) None False (rs_items s)"
  by (simp add: lookup_for_client_def lookup_any_def lookup_eq)

definition rr_code :: "string \<Rightarrow> u16 option" where
  "rr_code t = (if t = ''A'' then Some type_A else if t = ''AAAA'' then Some type_AAAA
     else if t = ''CNAME'' then Some type_CNAME else if t = ''PTR'' then Some type_PTR
     else if t = ''MX'' then Some type_MX else if t = ''TXT'' then Some type_TXT
     else if t = ''SRV'' then Some type_SRV else None)"

text \<open>A rewrite that passed validation answers a question of its own type with one record of
  that type, the asked name and the fixed TTL, unless it is one of the response-code rewrites; for
  a question of another type it answers with nothing, except that a CNAME also answers A and AAAA.\<close>

theorem validated_rewrite_answers:
  assumes "prepare_rewrite i r0 = Inr r"
  shows "case build_rr L r name q of
           None \<Rightarrow> rr_code (rw_type r) = None \<or> q \<noteq> the (rr_code (rw_type r)) \<and>
                     (rw_type r = ''CNAME'' \<longrightarrow> q \<notin> {type_A, type_AAAA})
         | Some rr \<Rightarrow> rr_name rr = name \<and> rr_ttl rr = answer_ttl \<and> rr_code (rw_type r) = Some (rr_type rr) \<and>
                     (q = rr_type rr \<or> rw_type r = ''CNAME'' \<and> q \<in> {type_A, type_AAAA})"
proof -
  have v: "value_error (rw_type r) (rw_value r) = None"
    using assms by (auto simp: prepare_rewrite_def validate_def Let_def split: option.splits sum.splits if_splits)
  have t: "rw_type r \<in> {''A'', ''AAAA'', ''CNAME'', ''PTR'', ''MX'', ''TXT'', ''SRV'', ''NXDOMAIN'', ''REFUSED'', ''NOERROR''}"
    using v by (auto simp: value_error_def split: if_splits)
  show ?thesis
    using t v by (elim insertE emptyE; auto simp: build_rr_def rr_code_def answer_rr_def value_error_def
        split: option.splits if_splits prod.splits)
qed

definition empty_store :: rw_store where
  "empty_store = \<lparr>rs_has_path = True, rs_items = [], rs_file = []\<rparr>"


lemmas rw_eval = add_rewrite_def prepare_rewrite_def validate_def normalize_rewrite_domain_def bad_base_def
  value_error_def parse_ip_def parse_addr_def parse_v4_def octet_def all_digits_def is_digit_def
  dec_val_def digit_val_def trim_space_def trim_left_def trim_right_def is_space_def to_lower_def to_upper_def
  lower_char_def upper_char_def trim_prefix_def trim_suffix_def has_prefix_def has_suffix_def
  save_items_def Let_def strip_prefixes_def

lemma upper_a: "char_of (65::nat) = CHR ''A''"
  by code_simp

lemma four_bytes: "to4 (v4_in_v6 a) = Some a"
  by (rule to4_v4)


theorem validated_rewrite_answers_witness:
  "\<exists>r. prepare_rewrite ''i'' \<lparr>rw_id = [], rw_domain = ''a.lan'', rw_type = ''a'', rw_value = ''10.0.0.1'', rw_cidrs = [], rw_prefixes = []\<rparr> = Inr r \<and>
     build_rr demo_lib r ''a.lan.'' type_A \<noteq> None"
proof -
  let ?r = "\<lparr>rw_id = ''i'', rw_domain = ''a.lan'', rw_type = ''A'', rw_value = ''10.0.0.1'', rw_cidrs = [], rw_prefixes = []\<rparr>"
  have p: "prepare_rewrite ''i'' \<lparr>rw_id = [], rw_domain = ''a.lan'', rw_type = ''a'', rw_value = ''10.0.0.1'', rw_cidrs = [], rw_prefixes = []\<rparr> = Inr ?r"
    by (simp add: rw_eval four_bytes upper_a)
  have "build_rr demo_lib ?r ''a.lan.'' type_A \<noteq> None"
    using validated_rewrite_answers [OF p, where L = demo_lib and name = "''a.lan.''" and q = type_A]
    by (cases "build_rr demo_lib ?r ''a.lan.'' type_A") (simp_all add: rr_code_def)
  with p show ?thesis by blast
qed

text \<open>A rewrite for a name without an inner dot, written with two trailing dots (router..), is
  accepted and saved, and the file can then not be loaded any more: the stored domain is normalized
  once more on load and fails the validation.\<close>

theorem trailing_dots_break_reload:
  "\<exists>s r. add_rewrite True ''r1'' ''router..'' ''A'' ''10.0.0.1'' [] empty_store = (Inr r, s) \<and>
     rs_file s = [strip_prefixes r] \<and> load_store True (FileItems (rs_file s)) ids ok seed = Inl BadDomain"
  by (simp add: rw_eval empty_store_def four_bytes load_store_def)

text \<open>A first boot whose DOMAINS setting holds a dotless name (router:192.168.1.1) seeds and saves
  a rewrite that the validation of the next start rejects.\<close>

theorem seed_breaks_reload:
  "\<exists>s. load_store True NoFile ids True ''router:192.168.1.1'' = Inr s \<and> rs_items s \<noteq> [] \<and>
     load_store True (FileItems (rs_file s)) ids' ok seed = Inl BadDomain"
  by (simp add: rw_eval load_store_def seed_items_def seed_pair_def map_filter_simps enumerate_eq_zip four_bytes)

end
