(* ===== verification/Spec2Isabelle.thy ===== *)
theory Spec2Isabelle
  imports Access_Control Cache_Claims Cache_Flow Client_Registry Config_Apply
    Config_Claims Config_Handlers Config_Sync Dashboard_Stats Dashboard_View
    Diagnostics Dns_Msg Dns_Policy Dns_Routes Dns_Settings
    Event_Archive Event_History Event_Rates Event_Store Event_Stream
    Filter_Claims Filter_Engine Filter_Rule Filter_Subscriptions Forward_Queue
    History_Pages Log_Parser Lru_Cache Magic_Dns Net_Addr
    Node_Handlers Node_Inventory Prelude Query_Claims Query_Pipeline
    Rewrite_Claims Rewrite_Store Server_Claims Upstream_Claims Upstream_Pool
    Upstream_Query Upstream_Spec Web_Claims Web_Requests Web_Sessions
begin

text \<open>
  A verification development for Resolix (src/webgui), a self-hosted DNS resolver: a Go service
  that filters, rewrites, caches and forwards DNS queries, with a web control plane and agents that
  report to a controller. Modelled is the path of a query from the listener to its answer, every
  store the path reads, the operations that change those stores, and the control plane's own
  state machines. All paths below are under src/webgui/internal.

  \<^bold>\<open>How a query runs.\<close> \<open>Query_Pipeline.serve_dns\<close> and \<open>resolve_query\<close> are ServeDNS and Resolve of
  dnsserver/pipeline.go: the access lists and the limiter (\<open>Access_Control\<close>) admit the client, then
  \<open>resolve\<close> runs the stages in the order of the code: policy switches (\<open>Dns_Policy\<close>), rewrites
  (\<open>Rewrite_Store\<close>) with the chase of CNAME targets, MagicDNS (\<open>Magic_Dns\<close>), private PTR, safe
  search, the filter (\<open>Filter_Engine\<close>) and last the cache (\<open>Cache_Flow\<close> over \<open>Lru_Cache\<close>) in front
  of the upstreams (\<open>Upstream_Query\<close> over \<open>Upstream_Pool\<close>). \<open>Query_Pipeline.server\<close> is the state a
  query reads and writes; \<open>apply_settings\<close> replaces its live part. An agent hands the event of a
  query to \<open>Forward_Queue\<close>.

  \<^bold>\<open>The theories.\<close>
  \<^item> \<open>Prelude\<close>: Go's string operations, maps as association lists with one entry per key, truncated
    division, and the interfaces \<open>invariant_system\<close> (every operation keeps an invariant, so every run
    does) and \<open>durable_store\<close> (a change is on disk before it is in memory, and a failed write leaves
    no trace). Each stateful component interprets one or both on its own step function.
  \<^item> \<open>Net_Addr\<close>: Go's net and net/netip as the source uses them, the client lists of dnsserver/acl.go,
    reverse names of dnsserver/ptr.go. \<open>Dns_Msg\<close>: messages, EDNS, extended errors.
  \<^item> \<open>Lru_Cache\<close> (dnsserver/cache.go), \<open>Cache_Flow\<close> (dnsserver/cache_pipeline.go), with their
    properties in \<open>Cache_Claims\<close>: the cache refines a list ordered by recency, nothing fetched before
    an invalidation is served after it, lifetimes are exact. The locale \<open>keyed_cache\<close> is the interface
    between the two.
  \<^item> \<open>Filter_Rule\<close> (filter/rule.go and the parser of filter/sources.go), \<open>Filter_Engine\<close>
    (filter/filter.go, filter/history.go), \<open>Filter_Claims\<close>: the indexes decide as the rules do whatever
    the interleaving of loads, batches, builds and rollbacks.
  \<^item> \<open>Rewrite_Store\<close> and \<open>Rewrite_Claims\<close> (rewrites/rewrites.go), \<open>Dns_Routes\<close>
    (dnsroutes/dnsroutes.go), \<open>Client_Registry\<close> (clients/clients.go, clients/persist.go), \<open>Magic_Dns\<close>
    (magicdns/store.go), \<open>Dns_Settings\<close> (dnssettings/settings.go): validation, the most specific
    match, persistence and restart.
  \<^item> \<open>Dns_Policy\<close> (policy/policy.go), \<open>Access_Control\<close> (dnsserver/acl.go).
  \<^item> \<open>Upstream_Spec\<close> (upstream/parse.go), \<open>Upstream_Pool\<close> (upstream/pool.go), \<open>Upstream_Query\<close>
    (dnsserver/upstream_query.go), \<open>Upstream_Claims\<close>: selection modes, circuit breaker, ECS, DNS64,
    and that an answer passed on matches the question.
  \<^item> \<open>Query_Pipeline\<close> (dnsserver/pipeline.go, rewrites.go, ptr.go, runtime.go, dnsserver.go),
    \<open>Query_Claims\<close> and \<open>Server_Claims\<close>: the properties that span components.
  \<^item> \<open>Forward_Queue\<close> (forwarder/backlog.go, lifecycle.go and the response classification of
    controller_transport.go): the queue of an agent.
  \<^item> \<open>Web_Requests\<close> and \<open>Web_Sessions\<close> (api/security.go, the client address of api/nodes.go, the DoH
    admission of api/doh.go), \<open>Web_Claims\<close>: who a request comes from, sessions and their CSRF tokens,
    the login limiter, the middlewares.
  \<^item> \<open>Filter_Subscriptions\<close> (filter/subscriptions.go), \<open>Config_Apply\<close> (configsync/snapshot.go and
    ApplyConfigSnapshot of api/configuration.go over the record \<open>node\<close> of all seven stores),
    \<open>Config_Sync\<close> (syncDNSConfig of forwarder/controller_transport.go): a snapshot is applied whole or
    not at all, an agent runs the revision it reports and catches up with its controller.
  \<^item> \<open>Config_Handlers\<close> (the handlers of api/ that change the configuration, behind \<open>serve_call\<close>, their
    session check), \<open>Config_Claims\<close>: who can change what, and what a click in the query log changes.
  \<^item> \<open>Diagnostics\<close> (api/filtering_diagnostics.go, handleDNSRouteTest of api/upstreams.go): the
    explanations of the dashboard, compared with the pipeline.
  \<^item> \<open>Event_Store\<close> (storage/storage.go, storage/pending.go, the queue of storage/archive.go: the ring of
    recent events and the queue of those still to archive), \<open>Event_Archive\<close> (their runs: every event is
    in the database, in flight, queued or counted as dropped; the live stream sends each event once),
    \<open>Event_History\<close> (archiveStep, storage/maintenance.go, storage/stats.go, db/db.go: the rows, the
    hourly aggregates and the statistics of a day). The SQL statements are read as operations on tables.
  \<^item> \<open>Node_Inventory\<close> (storage/nodes.go), \<open>Event_Rates\<close> (the rate counters of storage/storage.go and
    stats.go), \<open>Log_Parser\<close> (parser/parser.go, storage/pending.go), \<open>Node_Handlers\<close> (api/nodes.go,
    api/ingest.go): what agents report to a controller, and what it keeps of it.

  \<^bold>\<open>Conventions.\<close> A struct is a record, a pointer into shared state a number with a store of
  objects (cache elements, flights, filter sources); an error a constructor of a sum; times and
  durations are integers of nanoseconds (the clock is an argument, one instant per operation);
  float64 statistics are rationals; machine words keep their width. Strings are byte lists, case
  folding is the ASCII part of Go's. A critical section is one step, so a run is a list of steps in
  any order; a query is one step, except that a coalesced follower takes its result from an
  argument. What is not under src/ is an argument: the DNS library (\<open>dns_lib\<close>), regular expressions
  (\<open>regex_lib\<close>), URL parsing (\<open>url_lib\<close>), the network (\<open>network\<close>, over a world of any type), the
  public-suffix list, digests, JSON encodings, random draws and the success of a file write; each
  property that needs a law of one of them states it as a hypothesis, with a witness on a concrete
  instance.

  \<^bold>\<open>Bounds.\<close> The recursion of the pipeline through CNAME chains is primitive recursion on the remaining
  depth, started at the code's maxChainDepth of 8, so \<open>resolve\<close> is total without fuel; all other
  loops are structural.

  \<^bold>\<open>Not modelled.\<close> The HTTP handlers of api/ other than those named above (they decode JSON and call the stores), the SQLite
  driver and its pragmas under storage/ and db/, reading the environment (config/, env.go), process setup (main.go,
  setup.go), the wire transports of upstream/resolver.go and the listeners, TLS key management
  (controllertls/), logging, the Tailscale client behind MagicDNS, and the
  JavaScript front end: they are input/output, or belong to components listed in the manifest as not
  modelled yet.
\<close>

end
